(* ===== verification/Prelude.thy ===== *)
theory Prelude
  imports Main "HOL-Library.Word" "HOL-Library.Monad_Syntax"
begin

text \<open>
  Shared vocabulary of the development: the C integer types of the target (a 32-bit
  ARM Cortex-M0+, so \<open>int\<close>, \<open>unsigned\<close>, \<open>size_t\<close> and pointers are 32 bits wide), byte
  strings, in-place updates of byte buffers, and the generic facts on words, lists and
  folds that the component theories use.

  The named collections carry the component proofs:
  \<^item> \<open>buf_simps\<close>: lengths and reads of buffers after in-place writes;
  \<^item> \<open>word_nat_simps\<close>: moving word arithmetic to natural numbers.
\<close>

unbundle bit_operations_syntax

named_theorems buf_simps
named_theorems word_nat_simps

type_synonym u8 = "8 word"
type_synonym u16 = "16 word"
type_synonym u32 = "32 word"
type_synonym u64 = "64 word"
type_synonym bytes = "u8 list"

section \<open>Words\<close>

text \<open>Every 8-bit value is the image of a natural number below 256, so a property of all
  byte values can be checked value by value.\<close>

lemma byte_exhaust:
  assumes "list_all (\<lambda>n. P (word_of_nat n :: u8)) [0..<256]"
  shows "P (x :: u8)"
proof -
  have "unat x < 256"
    using unsigned_less [of x, where ?'a = nat] by simp
  then have "P (word_of_nat (unat x))"
    using assms unfolding list_all_iff by (metis atLeastLessThan_iff le0 set_upt)
  then show ?thesis by simp
qed

lemma bit_imp_less_len: "bit (w :: 'a::len word) n \<Longrightarrow> n < LENGTH('a)"
  by (rule bit_imp_le_length)

lemma xor_assoc_word: "(a XOR b) XOR c = a XOR (b XOR c :: 'a::len word)"
  by (simp add: ac_simps)

lemma xor_eq_0_iff [simp]: "(a XOR b = (0 :: 'a::len word)) \<longleftrightarrow> a = b"
  by (metis bit.xor_self xor.assoc xor.left_neutral xor.right_neutral)

lemma xor_left_cancel [simp]: "(a XOR b = a XOR c) \<longleftrightarrow> b = (c :: 'a::len word)"
  by (metis xor.assoc xor_self_eq xor.left_neutral)

lemma xor_right_cancel [simp]: "(b XOR a = c XOR a) \<longleftrightarrow> b = (c :: 'a::len word)"
  by (metis xor.commute xor_left_cancel)

lemma xor_cancel_left [simp]: "a XOR (a XOR b) = (b :: 'a::len word)"
  by (metis xor.assoc xor_self_eq xor.left_neutral)

lemma unat_u32_less [simp]: "unat (x :: u32) < 4294967296"
  using unsigned_less [of x, where ?'a = nat] by simp

lemma unat_of_nat_u32: "n < 4294967296 \<Longrightarrow> unat (word_of_nat n :: u32) = n"
  by (simp add: unat_of_nat)

lemma unat_u16_less [simp]: "unat (x :: u16) < 65536"
  using unsigned_less [of x, where ?'a = nat] by simp

lemma unat_u8_less [simp]: "unat (x :: u8) < 256"
  using unsigned_less [of x, where ?'a = nat] by simp

text \<open>Alignment to a power of two, as the sources compute it with masks.\<close>

definition pow2 :: "'a::len word \<Rightarrow> bool" where
  "pow2 g \<longleftrightarrow> (\<exists>k<LENGTH('a). g = 2 ^ k)"

lemma pow2_numeral_intro: "k < LENGTH('a) \<Longrightarrow> g = 2 ^ k \<Longrightarrow> pow2 (g :: 'a::len word)"
  by (auto simp: pow2_def)

lemma unat_exp: "k < LENGTH('a) \<Longrightarrow> unat (2 ^ k :: 'a::len word) = 2 ^ k"
  using unat_of_nat [of "2 ^ k", where ?'a = 'a] by simp

lemma pow2_pos: "pow2 g \<Longrightarrow> 0 < unat g"
  by (auto simp: pow2_def unat_gt_0)

lemma and_pow2_minus_1 [word_nat_simps]:
  assumes "pow2 (g :: 'a::len word)"
  shows "unat (x AND (g - 1)) = unat x mod unat g"
proof -
  obtain k where k: "k < LENGTH('a)" "g = 2 ^ k" using assms by (auto simp: pow2_def)
  have "x AND (g - 1) = take_bit k x"
    by (simp add: k mask_eq_exp_minus_1 [symmetric] take_bit_eq_mask)
  then show ?thesis
    using k by (simp add: unsigned_take_bit_eq unat_exp) (simp add: take_bit_eq_mod)
qed

lemma and_not_pow2_minus_1 [word_nat_simps]:
  assumes "pow2 (g :: 'a::len word)"
  shows "unat (x AND NOT (g - 1)) = unat x div unat g * unat g"
proof -
  have "x = (x AND NOT (g - 1)) OR (x AND (g - 1))"
    by (auto simp: bit_simps intro!: bit_word_eqI)
  then have "x = (x AND NOT (g - 1)) + (x AND (g - 1))"
    by (subst disjunctive_add) (auto simp: bit_simps)
  then have "x AND NOT (g - 1) = x - (x AND (g - 1))" by (metis add_diff_cancel_right')
  then have "unat (x AND NOT (g - 1)) = unat x - unat (x AND (g - 1))"
    by (simp add: unat_sub word_and_le1 word_and_le2)
  then show ?thesis unfolding and_pow2_minus_1 [OF assms] by (simp only: minus_mod_eq_div_mult)
qed

lemma unat_add_no_wrap [word_nat_simps]:
  "unat x + unat y < 2 ^ LENGTH('a) \<Longrightarrow> unat (x + y :: 'a::len word) = unat x + unat y"
  by (simp add: unat_add_lem)

lemma unat_sub_no_wrap [word_nat_simps]:
  "unat y \<le> unat x \<Longrightarrow> unat (x - y :: 'a::len word) = unat x - unat y"
  by (simp add: unat_sub word_le_nat_alt)

lemma unat_plus_1_less:
  assumes "unat x < unat (y :: 'a::len word)"
  shows "unat (x + 1 :: 'a word) = Suc (unat x)"
proof -
  have "unat y < 2 ^ LENGTH('a)" by simp
  then have "unat x + unat (1 :: 'a word) < 2 ^ LENGTH('a)" using assms unfolding unat_1 by linarith
  then show ?thesis by (simp add: unat_add_no_wrap)
qed

text \<open>The length of a transfer that stops at the end of a page: what the drivers compute for each round of their loops.\<close>

lemma page_chunk:
  fixes address byte_count page_size :: u32
  assumes "pow2 page_size" "byte_count \<noteq> 0"
  defines "len \<equiv> (let len = page_size - (address AND (page_size - 1)) in if byte_count < len then byte_count else len)"
  shows "0 < unat len" "unat len \<le> unat byte_count" "unat address mod unat page_size + unat len \<le> unat page_size"
    "unat (byte_count - len) = unat byte_count - unat len"
proof -
  let ?p = "unat page_size" and ?o = "unat address mod unat page_size"
  have o: "unat (address AND (page_size - 1)) = ?o" "?o < ?p"
    using pow2_pos [OF assms(1)] assms(1) by (simp_all add: word_nat_simps)
  have "0 < unat byte_count" using assms(2) by (metis unat_eq_zero neq0_conv)
  have len: "unat len = min (unat byte_count) (?p - ?o)"
    using o by (auto simp: len_def Let_def word_less_nat_alt unat_sub_no_wrap)
  show "0 < unat len" "unat len \<le> unat byte_count" "?o + unat len \<le> ?p"
    using len o(2) \<open>0 < unat byte_count\<close> by auto
  then show "unat (byte_count - len) = unat byte_count - unat len" by (simp add: unat_sub_no_wrap)
qed

section \<open>Buffers\<close>

text \<open>A pointer into a buffer is its index. \<open>deref\<close> reads through a pointer and \<open>store_at\<close> writes a
  run of bytes there; both are \<open>None\<close> outside the buffer, where the C program has no meaning.\<close>

definition deref :: "'a list \<Rightarrow> nat \<Rightarrow> 'a option" where
  "deref buf i = (if i < length buf then Some (buf ! i) else None)"

definition store_at :: "'a list \<Rightarrow> nat \<Rightarrow> 'a list \<Rightarrow> 'a list option" where
  "store_at buf i xs =
     (if i + length xs \<le> length buf then Some (take i buf @ xs @ drop (i + length xs) buf) else None)"

definition load_from :: "'a list \<Rightarrow> nat \<Rightarrow> nat \<Rightarrow> 'a list option" where
  "load_from buf i n = (if i + n \<le> length buf then Some (take n (drop i buf)) else None)"

lemma deref_Some [buf_simps]: "i < length buf \<Longrightarrow> deref buf i = Some (buf ! i)"
  by (simp add: deref_def)

lemma deref_eq_Some: "deref buf i = Some x \<longleftrightarrow> i < length buf \<and> buf ! i = x"
  by (auto simp: deref_def)

lemma store_at_eq_Some:
  "store_at buf i xs = Some buf' \<longleftrightarrow>
     i + length xs \<le> length buf \<and> buf' = take i buf @ xs @ drop (i + length xs) buf"
  by (auto simp: store_at_def)

lemma store_at_length: "store_at buf i xs = Some buf' \<Longrightarrow> length buf' = length buf"
  by (auto simp: store_at_eq_Some)

lemma store_at_single [buf_simps]: "i < length buf \<Longrightarrow> store_at buf i [x] = Some (buf[i := x])"
  by (simp add: store_at_def upd_conv_take_nth_drop)

lemma store_at_0 [buf_simps]:
  "length xs \<le> length buf \<Longrightarrow> store_at buf 0 xs = Some (xs @ drop (length xs) buf)"
  by (simp add: store_at_def)

lemma load_from_0 [buf_simps]: "n \<le> length buf \<Longrightarrow> load_from buf 0 n = Some (take n buf)"
  by (simp add: load_from_def)

lemma load_from_store_at:
  "store_at buf i xs = Some buf' \<Longrightarrow> load_from buf' i (length xs) = Some xs"
  by (auto simp: store_at_eq_Some load_from_def)

text \<open>Integers are stored with their low byte first.\<close>

fun le_value :: "bytes \<Rightarrow> 'a::len word" where
  "le_value [] = 0"
| "le_value (b # bs) = ucast b OR push_bit 8 (le_value bs)"

fun le_bytes :: "nat \<Rightarrow> 'a::len word \<Rightarrow> bytes" where
  "le_bytes 0 v = []"
| "le_bytes (Suc n) v = ucast v # le_bytes n (drop_bit 8 v)"

section \<open>Folds\<close>

lemma foldl_const_step:
  "(\<And>a x. x \<in> set xs \<Longrightarrow> f a x = a) \<Longrightarrow> foldl f a xs = a"
  by (induction xs) auto

end
