(* ===== verification/Crc.thy ===== *)
theory Crc
  imports Prelude
begin

text \<open>
  The CRC library, \<^verbatim>\<open>libnklabs/src/nkcrclib.c\<close>: the 8-bit, 16-bit and 32-bit checks, with
  the two lookup tables copied from the source. The reference is the bit-serial shift
  register of the polynomial that the source's comments name. The table-driven and the
  closed-form update routines are proved equal to it, and the facts the clients use
  (a message with its CRC appended checks to zero; a corrupted byte or a short burst is
  always detected) are proved once in the locales \<open>crc_code\<close> and \<open>crc_burst\<close> and obtained
  for each routine by interpretation.
\<close>

section \<open>The routines of the library\<close>

definition nk_crc8_update :: "u8 \<Rightarrow> u8 \<Rightarrow> u8" where
  "nk_crc8_update crc b =
     (let i = crc XOR b
      in i XOR drop_bit 7 i XOR push_bit 1 i XOR push_bit 2 i XOR (drop_bit 4 i AND 0x0C)
           XOR (drop_bit 5 i AND 0x02) XOR (drop_bit 6 i AND 0x01))"

definition nk_crc8 :: "bytes \<Rightarrow> u8" where
  "nk_crc8 data = foldl nk_crc8_update 0 data"

definition crctab_be :: "u32 list" where
  "crctab_be = [
    0x00000000, 0x04c11db7, 0x09823b6e, 0x0d4326d9, 0x130476dc, 0x17c56b6b,
    0x1a864db2, 0x1e475005, 0x2608edb8, 0x22c9f00f, 0x2f8ad6d6, 0x2b4bcb61,
    0x350c9b64, 0x31cd86d3, 0x3c8ea00a, 0x384fbdbd, 0x4c11db70, 0x48d0c6c7,
    0x4593e01e, 0x4152fda9, 0x5f15adac, 0x5bd4b01b, 0x569796c2, 0x52568b75,
    0x6a1936c8, 0x6ed82b7f, 0x639b0da6, 0x675a1011, 0x791d4014, 0x7ddc5da3,
    0x709f7b7a, 0x745e66cd, 0x9823b6e0, 0x9ce2ab57, 0x91a18d8e, 0x95609039,
    0x8b27c03c, 0x8fe6dd8b, 0x82a5fb52, 0x8664e6e5, 0xbe2b5b58, 0xbaea46ef,
    0xb7a96036, 0xb3687d81, 0xad2f2d84, 0xa9ee3033, 0xa4ad16ea, 0xa06c0b5d,
    0xd4326d90, 0xd0f37027, 0xddb056fe, 0xd9714b49, 0xc7361b4c, 0xc3f706fb,
    0xceb42022, 0xca753d95, 0xf23a8028, 0xf6fb9d9f, 0xfbb8bb46, 0xff79a6f1,
    0xe13ef6f4, 0xe5ffeb43, 0xe8bccd9a, 0xec7dd02d, 0x34867077, 0x30476dc0,
    0x3d044b19, 0x39c556ae, 0x278206ab, 0x23431b1c, 0x2e003dc5, 0x2ac12072,
    0x128e9dcf, 0x164f8078, 0x1b0ca6a1, 0x1fcdbb16, 0x018aeb13, 0x054bf6a4,
    0x0808d07d, 0x0cc9cdca, 0x7897ab07, 0x7c56b6b0, 0x71159069, 0x75d48dde,
    0x6b93dddb, 0x6f52c06c, 0x6211e6b5, 0x66d0fb02, 0x5e9f46bf, 0x5a5e5b08,
    0x571d7dd1, 0x53dc6066, 0x4d9b3063, 0x495a2dd4, 0x44190b0d, 0x40d816ba,
    0xaca5c697, 0xa864db20, 0xa527fdf9, 0xa1e6e04e, 0xbfa1b04b, 0xbb60adfc,
    0xb6238b25, 0xb2e29692, 0x8aad2b2f, 0x8e6c3698, 0x832f1041, 0x87ee0df6,
    0x99a95df3, 0x9d684044, 0x902b669d, 0x94ea7b2a, 0xe0b41de7, 0xe4750050,
    0xe9362689, 0xedf73b3e, 0xf3b06b3b, 0xf771768c, 0xfa325055, 0xfef34de2,
    0xc6bcf05f, 0xc27dede8, 0xcf3ecb31, 0xcbffd686, 0xd5b88683, 0xd1799b34,
    0xdc3abded, 0xd8fba05a, 0x690ce0ee, 0x6dcdfd59, 0x608edb80, 0x644fc637,
    0x7a089632, 0x7ec98b85, 0x738aad5c, 0x774bb0eb, 0x4f040d56, 0x4bc510e1,
    0x46863638, 0x42472b8f, 0x5c007b8a, 0x58c1663d, 0x558240e4, 0x51435d53,
    0x251d3b9e, 0x21dc2629, 0x2c9f00f0, 0x285e1d47, 0x36194d42, 0x32d850f5,
    0x3f9b762c, 0x3b5a6b9b, 0x0315d626, 0x07d4cb91, 0x0a97ed48, 0x0e56f0ff,
    0x1011a0fa, 0x14d0bd4d, 0x19939b94, 0x1d528623, 0xf12f560e, 0xf5ee4bb9,
    0xf8ad6d60, 0xfc6c70d7, 0xe22b20d2, 0xe6ea3d65, 0xeba91bbc, 0xef68060b,
    0xd727bbb6, 0xd3e6a601, 0xdea580d8, 0xda649d6f, 0xc423cd6a, 0xc0e2d0dd,
    0xcda1f604, 0xc960ebb3, 0xbd3e8d7e, 0xb9ff90c9, 0xb4bcb610, 0xb07daba7,
    0xae3afba2, 0xaafbe615, 0xa7b8c0cc, 0xa379dd7b, 0x9b3660c6, 0x9ff77d71,
    0x92b45ba8, 0x9675461f, 0x8832161a, 0x8cf30bad, 0x81b02d74, 0x857130c3,
    0x5d8a9099, 0x594b8d2e, 0x5408abf7, 0x50c9b640, 0x4e8ee645, 0x4a4ffbf2,
    0x470cdd2b, 0x43cdc09c, 0x7b827d21, 0x7f436096, 0x7200464f, 0x76c15bf8,
    0x68860bfd, 0x6c47164a, 0x61043093, 0x65c52d24, 0x119b4be9, 0x155a565e,
    0x18197087, 0x1cd86d30, 0x029f3d35, 0x065e2082, 0x0b1d065b, 0x0fdc1bec,
    0x3793a651, 0x3352bbe6, 0x3e119d3f, 0x3ad08088, 0x2497d08d, 0x2056cd3a,
    0x2d15ebe3, 0x29d4f654, 0xc5a92679, 0xc1683bce, 0xcc2b1d17, 0xc8ea00a0,
    0xd6ad50a5, 0xd26c4d12, 0xdf2f6bcb, 0xdbee767c, 0xe3a1cbc1, 0xe760d676,
    0xea23f0af, 0xeee2ed18, 0xf0a5bd1d, 0xf464a0aa, 0xf9278673, 0xfde69bc4,
    0x89b8fd09, 0x8d79e0be, 0x803ac667, 0x84fbdbd0, 0x9abc8bd5, 0x9e7d9662,
    0x933eb0bb, 0x97ffad0c, 0xafb010b1, 0xab710d06, 0xa6322bdf, 0xa2f33668,
    0xbcb4666d, 0xb8757bda, 0xb5365d03, 0xb1f740b4]"

text \<open>The index is the top byte of the accumulator combined with the input byte, hence
  below 256 (\<open>crc32_index_in_table\<close>): the table is never read out of range.\<close>

definition nk_crc32be_update :: "u32 \<Rightarrow> u8 \<Rightarrow> u32" where
  "nk_crc32be_update accu b =
     push_bit 8 accu XOR crctab_be ! unat (drop_bit 24 accu XOR ucast b)"

definition nk_crc32be_check :: "bytes \<Rightarrow> u32" where
  "nk_crc32be_check data = foldl nk_crc32be_update 0 data"

definition crctab_le :: "u32 list" where
  "crctab_le = [
    0x00000000, 0x77073096, 0xee0e612c, 0x990951ba, 0x076dc419, 0x706af48f,
    0xe963a535, 0x9e6495a3, 0x0edb8832, 0x79dcb8a4, 0xe0d5e91e, 0x97d2d988,
    0x09b64c2b, 0x7eb17cbd, 0xe7b82d07, 0x90bf1d91, 0x1db71064, 0x6ab020f2,
    0xf3b97148, 0x84be41de, 0x1adad47d, 0x6ddde4eb, 0xf4d4b551, 0x83d385c7,
    0x136c9856, 0x646ba8c0, 0xfd62f97a, 0x8a65c9ec, 0x14015c4f, 0x63066cd9,
    0xfa0f3d63, 0x8d080df5, 0x3b6e20c8, 0x4c69105e, 0xd56041e4, 0xa2677172,
    0x3c03e4d1, 0x4b04d447, 0xd20d85fd, 0xa50ab56b, 0x35b5a8fa, 0x42b2986c,
    0xdbbbc9d6, 0xacbcf940, 0x32d86ce3, 0x45df5c75, 0xdcd60dcf, 0xabd13d59,
    0x26d930ac, 0x51de003a, 0xc8d75180, 0xbfd06116, 0x21b4f4b5, 0x56b3c423,
    0xcfba9599, 0xb8bda50f, 0x2802b89e, 0x5f058808, 0xc60cd9b2, 0xb10be924,
    0x2f6f7c87, 0x58684c11, 0xc1611dab, 0xb6662d3d, 0x76dc4190, 0x01db7106,
    0x98d220bc, 0xefd5102a, 0x71b18589, 0x06b6b51f, 0x9fbfe4a5, 0xe8b8d433,
    0x7807c9a2, 0x0f00f934, 0x9609a88e, 0xe10e9818, 0x7f6a0dbb, 0x086d3d2d,
    0x91646c97, 0xe6635c01, 0x6b6b51f4, 0x1c6c6162, 0x856530d8, 0xf262004e,
    0x6c0695ed, 0x1b01a57b, 0x8208f4c1, 0xf50fc457, 0x65b0d9c6, 0x12b7e950,
    0x8bbeb8ea, 0xfcb9887c, 0x62dd1ddf, 0x15da2d49, 0x8cd37cf3, 0xfbd44c65,
    0x4db26158, 0x3ab551ce, 0xa3bc0074, 0xd4bb30e2, 0x4adfa541, 0x3dd895d7,
    0xa4d1c46d, 0xd3d6f4fb, 0x4369e96a, 0x346ed9fc, 0xad678846, 0xda60b8d0,
    0x44042d73, 0x33031de5, 0xaa0a4c5f, 0xdd0d7cc9, 0x5005713c, 0x270241aa,
    0xbe0b1010, 0xc90c2086, 0x5768b525, 0x206f85b3, 0xb966d409, 0xce61e49f,
    0x5edef90e, 0x29d9c998, 0xb0d09822, 0xc7d7a8b4, 0x59b33d17, 0x2eb40d81,
    0xb7bd5c3b, 0xc0ba6cad, 0xedb88320, 0x9abfb3b6, 0x03b6e20c, 0x74b1d29a,
    0xead54739, 0x9dd277af, 0x04db2615, 0x73dc1683, 0xe3630b12, 0x94643b84,
    0x0d6d6a3e, 0x7a6a5aa8, 0xe40ecf0b, 0x9309ff9d, 0x0a00ae27, 0x7d079eb1,
    0xf00f9344, 0x8708a3d2, 0x1e01f268, 0x6906c2fe, 0xf762575d, 0x806567cb,
    0x196c3671, 0x6e6b06e7, 0xfed41b76, 0x89d32be0, 0x10da7a5a, 0x67dd4acc,
    0xf9b9df6f, 0x8ebeeff9, 0x17b7be43, 0x60b08ed5, 0xd6d6a3e8, 0xa1d1937e,
    0x38d8c2c4, 0x4fdff252, 0xd1bb67f1, 0xa6bc5767, 0x3fb506dd, 0x48b2364b,
    0xd80d2bda, 0xaf0a1b4c, 0x36034af6, 0x41047a60, 0xdf60efc3, 0xa867df55,
    0x316e8eef, 0x4669be79, 0xcb61b38c, 0xbc66831a, 0x256fd2a0, 0x5268e236,
    0xcc0c7795, 0xbb0b4703, 0x220216b9, 0x5505262f, 0xc5ba3bbe, 0xb2bd0b28,
    0x2bb45a92, 0x5cb36a04, 0xc2d7ffa7, 0xb5d0cf31, 0x2cd99e8b, 0x5bdeae1d,
    0x9b64c2b0, 0xec63f226, 0x756aa39c, 0x026d930a, 0x9c0906a9, 0xeb0e363f,
    0x72076785, 0x05005713, 0x95bf4a82, 0xe2b87a14, 0x7bb12bae, 0x0cb61b38,
    0x92d28e9b, 0xe5d5be0d, 0x7cdcefb7, 0x0bdbdf21, 0x86d3d2d4, 0xf1d4e242,
    0x68ddb3f8, 0x1fda836e, 0x81be16cd, 0xf6b9265b, 0x6fb077e1, 0x18b74777,
    0x88085ae6, 0xff0f6a70, 0x66063bca, 0x11010b5c, 0x8f659eff, 0xf862ae69,
    0x616bffd3, 0x166ccf45, 0xa00ae278, 0xd70dd2ee, 0x4e048354, 0x3903b3c2,
    0xa7672661, 0xd06016f7, 0x4969474d, 0x3e6e77db, 0xaed16a4a, 0xd9d65adc,
    0x40df0b66, 0x37d83bf0, 0xa9bcae53, 0xdebb9ec5, 0x47b2cf7f, 0x30b5ffe9,
    0xbdbdf21c, 0xcabac28a, 0x53b39330, 0x24b4a3a6, 0xbad03605, 0xcdd70693,
    0x54de5729, 0x23d967bf, 0xb3667a2e, 0xc4614ab8, 0x5d681b02, 0x2a6f2b94,
    0xb40bbe37, 0xc30c8ea1, 0x5a05df1b, 0x2d02ef8d]"

definition nk_crc32le_update :: "u32 \<Rightarrow> u8 \<Rightarrow> u32" where
  "nk_crc32le_update accu b =
     (drop_bit 8 accu AND 0x00FFFFFF) XOR crctab_le ! unat ((accu XOR ucast b) AND 0xFF)"

definition nk_crc32le_check :: "bytes \<Rightarrow> u32" where
  "nk_crc32le_check data = foldl nk_crc32le_update 0 data"

definition nk_crc16be_update :: "u16 \<Rightarrow> u8 \<Rightarrow> u16" where
  "nk_crc16be_update crc ch =
     (let x = ucast (drop_bit 8 crc) XOR ch;
          x = x XOR drop_bit 4 x
      in push_bit 8 crc XOR push_bit 12 (ucast x) XOR push_bit 5 (ucast x) XOR ucast x)"

definition nk_crc16be_check :: "bytes \<Rightarrow> u16" where
  "nk_crc16be_check data = foldl nk_crc16be_update 0 data"

definition nk_crc16le_update :: "u16 \<Rightarrow> u8 \<Rightarrow> u16" where
  "nk_crc16le_update crc ch =
     (let e = ucast crc XOR ch;
          f = e XOR push_bit 4 e
      in drop_bit 8 crc XOR push_bit 8 (ucast f) XOR push_bit 3 (ucast f)
           XOR ucast (drop_bit 4 f))"

definition nk_crc16le_check :: "bytes \<Rightarrow> u16" where
  "nk_crc16le_check data = foldl nk_crc16le_update 0 data"

text \<open>The table generator (\<^verbatim>\<open>make_table\<close>, compiled when \<^verbatim>\<open>MAKETABLE\<close> is set): the outer loop
  doubles the filled prefix of the table, \<open>i\<close> running over the powers of two below 512
  (the last round, \<open>i = 256\<close>, stores past the 256 entries of the array).\<close>

definition make_table_poly_step :: "u32 \<Rightarrow> u32" where
  "make_table_poly_step crc =
     (if crc AND 0x80000000 \<noteq> 0 then push_bit 1 crc XOR 0x04C11DB7 else push_bit 1 crc)"

fun make_table_rounds :: "nat \<Rightarrow> u32 \<Rightarrow> u32 list \<Rightarrow> u32 list" where
  "make_table_rounds 0 crc table = table"
| "make_table_rounds (Suc k) crc table =
     (let crc = make_table_poly_step crc
      in make_table_rounds k crc (table @ map (\<lambda>t. crc XOR t) table))"

definition make_table :: "u32 list" where
  "make_table = make_table_rounds 9 0x80000000 [0]"

section \<open>The bit-serial reference\<close>

definition msb_step :: "'a::len word \<Rightarrow> 'a word \<Rightarrow> 'a word" where
  "msb_step poly c =
     (if bit c (LENGTH('a) - 1) then push_bit 1 c XOR poly else push_bit 1 c)"

definition lsb_step :: "'a::len word \<Rightarrow> 'a word \<Rightarrow> 'a word" where
  "lsb_step poly c = (if bit c 0 then drop_bit 1 c XOR poly else drop_bit 1 c)"

definition msb_byte :: "'a::len word \<Rightarrow> 'a word \<Rightarrow> u8 \<Rightarrow> 'a word" where
  "msb_byte poly c b = (msb_step poly ^^ 8) (c XOR push_bit (LENGTH('a) - 8) (ucast b))"

definition lsb_byte :: "'a::len word \<Rightarrow> 'a word \<Rightarrow> u8 \<Rightarrow> 'a word" where
  "lsb_byte poly c b = (lsb_step poly ^^ 8) (c XOR ucast b)"

lemma push_bit_xor_word: "push_bit n (a XOR b :: 'a::len word) = push_bit n a XOR push_bit n b"
  by (rule bit_eqI) (auto simp: bit_simps)

lemma drop_bit_xor_word: "drop_bit n (a XOR b :: 'a::len word) = drop_bit n a XOR drop_bit n b"
  by (rule bit_eqI) (auto simp: bit_simps)

lemma msb_step_xor: "msb_step p (a XOR b) = msb_step p a XOR msb_step p b"
  by (auto simp: msb_step_def push_bit_xor_word bit_xor_iff ac_simps)

lemma lsb_step_xor: "lsb_step p (a XOR b) = lsb_step p a XOR lsb_step p b"
  by (auto simp: lsb_step_def drop_bit_xor_word bit_xor_iff ac_simps)

lemma msb_steps_xor: "(msb_step p ^^ n) (a XOR b) = (msb_step p ^^ n) a XOR (msb_step p ^^ n) b"
  by (induction n) (simp_all add: msb_step_xor)

lemma lsb_steps_xor: "(lsb_step p ^^ n) (a XOR b) = (lsb_step p ^^ n) a XOR (lsb_step p ^^ n) b"
  by (induction n) (simp_all add: lsb_step_xor)

lemma msb_step_0 [simp]: "msb_step p 0 = 0"
  by (simp add: msb_step_def)

lemma lsb_step_0 [simp]: "lsb_step p 0 = 0"
  by (simp add: lsb_step_def)

lemma msb_steps_0 [simp]: "(msb_step p ^^ n) 0 = 0"
  by (induction n) simp_all

lemma lsb_steps_0 [simp]: "(lsb_step p ^^ n) 0 = 0"
  by (induction n) simp_all

text \<open>A value whose top (bottom) \<open>n\<close> bits are clear is only shifted by \<open>n\<close> steps.\<close>

lemma msb_steps_shift:
  fixes c :: "'a::len word"
  assumes "\<forall>i. bit c i \<longrightarrow> i + n < LENGTH('a)"
  shows "(msb_step p ^^ n) c = push_bit n c"
  using assms
proof (induction n)
  case 0
  then show ?case by simp
next
  case (Suc n)
  have "i + n < LENGTH('a)" if "bit c i" for i
    using Suc.prems that by fastforce
  then have IH: "(msb_step p ^^ n) c = push_bit n c"
    using Suc.IH by blast
  have "\<not> bit (push_bit n c) (LENGTH('a) - 1)"
    using Suc.prems by (auto simp: bit_push_bit_iff)
  then have "msb_step p (push_bit n c) = push_bit 1 (push_bit n c)"
    by (simp only: msb_step_def if_False)
  then show ?case
    by (simp only: funpow.simps comp_apply IH push_bit_push_bit plus_1_eq_Suc)
qed

lemma lsb_steps_shift:
  fixes c :: "'a::len word"
  assumes "\<forall>i. bit c i \<longrightarrow> n \<le> i"
  shows "(lsb_step p ^^ n) c = drop_bit n c"
  using assms
proof (induction n)
  case 0
  then show ?case by simp
next
  case (Suc n)
  then have IH: "(lsb_step p ^^ n) c = drop_bit n c"
    using Suc_leD by blast
  have "\<not> bit (drop_bit n c) 0"
    using Suc.prems by (auto simp: bit_drop_bit_eq)
  then have "lsb_step p (drop_bit n c) = drop_bit 1 (drop_bit n c)"
    by (simp only: lsb_step_def if_False)
  then show ?case by (simp add: IH)
qed

text \<open>With an odd polynomial (most significant first), or one with its top bit set (least
  significant first), a step loses no information.\<close>

lemma msb_step_inj:
  fixes a b :: "'a::len word"
  assumes "bit p 0" and eq: "msb_step p a = msb_step p b"
  shows "a = b"
proof -
  have low: "bit (msb_step p c) 0 = bit c (LENGTH('a) - 1)" for c :: "'a word"
    using assms(1) by (simp add: msb_step_def bit_xor_iff bit_push_bit_iff del: push_bit_of_1 push_bit_Suc)
  from eq low have top: "bit a (LENGTH('a) - 1) = bit b (LENGTH('a) - 1)" by metis
  with eq have sh: "push_bit 1 a = push_bit 1 b"
    by (auto simp: msb_step_def split: if_splits)
  show ?thesis
  proof (rule bit_word_eqI)
    fix n assume n: "n < LENGTH('a)"
    show "bit a n = bit b n"
    proof (cases "n = LENGTH('a) - 1")
      case True
      then show ?thesis using top by simp
    next
      case False
      then have "Suc n < LENGTH('a)" using n by simp
      then show ?thesis using sh
        by (metis (no_types) One_nat_def add_diff_cancel_left' bit_push_bit_iff le_add1 plus_1_eq_Suc
            possible_bit_word)
    qed
  qed
qed

lemma lsb_step_inj:
  fixes a b :: "'a::len word"
  assumes "bit p (LENGTH('a) - 1)" and eq: "lsb_step p a = lsb_step p b"
  shows "a = b"
proof -
  have top: "bit (lsb_step p c) (LENGTH('a) - 1) = bit c 0" for c :: "'a word"
    using assms(1) by (auto simp: lsb_step_def bit_simps dest: bit_imp_less_len)
  from eq top have low: "bit a 0 = bit b 0" by metis
  with eq have sh: "drop_bit 1 a = drop_bit 1 b"
    by (auto simp: lsb_step_def split: if_splits)
  show ?thesis
  proof (rule bit_word_eqI)
    fix n assume n: "n < LENGTH('a)"
    show "bit a n = bit b n"
    proof (cases n)
      case 0
      then show ?thesis using low by simp
    next
      case (Suc m)
      then show ?thesis using sh
        by (metis bit_drop_bit_eq comp_apply plus_1_eq_Suc)
    qed
  qed
qed

lemma funpow_inj:
  fixes f :: "'a \<Rightarrow> 'a"
  assumes "\<And>x y. f x = f y \<Longrightarrow> x = y"
  shows "(f ^^ n) a = (f ^^ n) b \<Longrightarrow> a = b"
  by (induction n) (auto dest: assms)

section \<open>Equivalence with the bit-serial reference\<close>

text \<open>One byte through the shift register: the part of the accumulator that stays in the
  register is shifted, the byte that leaves selects the correction.\<close>

lemma msb_byte_split:
  fixes c :: "'a::len word"
  assumes "8 \<le> LENGTH('a)"
  shows "msb_byte p c b =
    push_bit 8 c XOR
    (msb_step p ^^ 8) (push_bit (LENGTH('a) - 8) (ucast (ucast (drop_bit (LENGTH('a) - 8) c) XOR b)))"
proof -
  let ?w = "LENGTH('a)"
  let ?hi = "push_bit (?w - 8) (ucast (ucast (drop_bit (?w - 8) c) XOR b)) :: 'a word"
  have split: "c XOR push_bit (?w - 8) (ucast b) = take_bit (?w - 8) c XOR ?hi"
  proof (rule bit_word_eqI)
    fix n assume "n < ?w"
    then show "bit (c XOR push_bit (?w - 8) (ucast b)) n = bit (take_bit (?w - 8) c XOR ?hi) n"
      using assms by (auto simp: bit_simps)
  qed
  have "(msb_step p ^^ 8) (take_bit (?w - 8) c) = push_bit 8 (take_bit (?w - 8) c)"
    using assms by (intro msb_steps_shift) (auto simp: bit_simps)
  also have "\<dots> = push_bit 8 c"
    by (rule bit_word_eqI) (auto simp: bit_simps)
  finally show ?thesis
    by (simp add: msb_byte_def split msb_steps_xor)
qed

lemma lsb_byte_split:
  fixes c :: "'a::len word"
  assumes "8 \<le> LENGTH('a)"
  shows "lsb_byte p c b = drop_bit 8 c XOR (lsb_step p ^^ 8) (ucast (ucast c XOR b))"
proof -
  have split: "c XOR ucast b = push_bit 8 (drop_bit 8 c) XOR ucast (ucast c XOR b :: u8)"
    by (rule bit_word_eqI) (use assms in \<open>auto simp: bit_simps\<close>)
  have "(lsb_step p ^^ 8) (push_bit 8 (drop_bit 8 c)) = drop_bit 8 (push_bit 8 (drop_bit 8 c))"
    by (intro lsb_steps_shift) (auto simp: bit_simps)
  also have "\<dots> = drop_bit 8 c"
    by (rule bit_word_eqI) (auto simp: bit_simps dest: bit_imp_less_len)
  finally show ?thesis
    by (simp only: lsb_byte_def split lsb_steps_xor)
qed

lemma crctab_be_length: "length crctab_be = 256"
  by (simp add: crctab_be_def)

lemma crctab_le_length: "length crctab_le = 256"
  by (simp add: crctab_le_def)


text \<open>Both sides of every equation below are linear over exclusive or, so they agree on all 256
  byte values as soon as they agree on the eight powers of two; the two lookup tables are
  the spans of their entries at the powers of two.\<close>

definition xor_linear :: "(u8 \<Rightarrow> 'a::len word) \<Rightarrow> bool" where
  "xor_linear f \<longleftrightarrow> (\<forall>a b. f (a XOR b) = f a XOR f b)"

lemma xor_linear_0: "xor_linear f \<Longrightarrow> f 0 = 0"
  by (metis xor_linear_def xor_self_eq)

lemma word_of_nat_pow2_xor:
  assumes "j < 2 ^ k"
  shows "(word_of_nat (2 ^ k + j) :: 'a::len word) = word_of_nat j XOR word_of_nat (2 ^ k)"
proof -
  have "bit j n \<Longrightarrow> n < k" for n
    using assms by (metis bit_take_bit_iff take_bit_nat_eq_self)
  then have "2 ^ k AND j = 0"
    by (intro bit_eqI) (auto simp: bit_simps)
  then have "2 ^ k + j = j XOR 2 ^ k"
    by (simp add: disjunctive_add_eq_xor xor.commute)
  then show ?thesis
    by (simp add: of_nat_xor_eq)
qed

lemma xor_linear_split:
  assumes "xor_linear f" and "j < 2 ^ k"
  shows "f (2 ^ k + word_of_nat j) = f (word_of_nat j) XOR f (2 ^ k)"
  using assms word_of_nat_pow2_xor [of j k, where 'a = 8] by (simp add: xor_linear_def)

lemma nat_less_double_cases:
  assumes "(n :: nat) < 2 ^ Suc k"
  obtains "n < 2 ^ k" | j where "n = 2 ^ k + j" "j < 2 ^ k"
  using assms by (metis add_diff_inverse_nat less_diff_conv2 linorder_not_less mult_2 power_Suc)

lemma xor_linear_agree:
  assumes "xor_linear f" "xor_linear g"
    and agree: "\<And>i. i < k \<Longrightarrow> f (word_of_nat (2 ^ i)) = g (word_of_nat (2 ^ i))"
  shows "n < 2 ^ k \<Longrightarrow> f (word_of_nat n) = g (word_of_nat n)"
  using agree
proof (induction k arbitrary: n)
  case 0
  then show ?case using assms by (simp add: xor_linear_0)
next
  case (Suc k)
  from \<open>n < 2 ^ Suc k\<close> show ?case
    by (rule nat_less_double_cases) (use Suc assms in \<open>auto simp: xor_linear_split\<close>)
qed

lemma xor_linear_eqI:
  assumes "xor_linear f" "xor_linear g"
    and "list_all (\<lambda>x. f x = g x) [1, 2, 4, 8, 16, 32, 64, 128]"
  shows "f x = g x"
proof -
  have "i < 8 \<Longrightarrow> f (word_of_nat (2 ^ i)) = g (word_of_nat (2 ^ i))" for i
    using assms(3) by (auto simp: numeral_eq_Suc less_Suc_eq)
  then have "f (word_of_nat (unat x)) = g (word_of_nat (unat x))"
    by (rule xor_linear_agree [OF assms(1,2), of 8]) simp_all
  then show ?thesis by simp
qed

fun span_table :: "'a::len word list \<Rightarrow> 'a word list \<Rightarrow> 'a word list" where
  "span_table [] t = t"
| "span_table (c # cs) t = span_table cs (t @ map (\<lambda>x. c XOR x) t)"

lemma span_table_nth:
  assumes "xor_linear f"
  shows "length t = 2 ^ k \<Longrightarrow> (\<And>n. n < 2 ^ k \<Longrightarrow> t ! n = f (word_of_nat n)) \<Longrightarrow>
    (\<And>i. i < length cs \<Longrightarrow> cs ! i = f (word_of_nat (2 ^ (k + i)))) \<Longrightarrow>
    n < 2 ^ (k + length cs) \<Longrightarrow> span_table cs t ! n = f (word_of_nat n)"
proof (induction cs arbitrary: t k n)
  case Nil
  then show ?case by simp
next
  case (Cons c cs)
  let ?t = "t @ map (\<lambda>x. c XOR x) t"
  have c: "c = f (word_of_nat (2 ^ k))"
    using Cons.prems(3) [of 0] by simp
  have "?t ! m = f (word_of_nat m)" if "m < 2 ^ Suc k" for m
    using that
    by (rule nat_less_double_cases)
       (use Cons.prems(1,2) assms c in \<open>auto simp: nth_append xor_linear_split xor.commute\<close>)
  moreover have "cs ! i = f (word_of_nat (2 ^ (Suc k + i)))" if "i < length cs" for i
    using Cons.prems(3) [of "Suc i"] that by simp
  ultimately have "span_table cs ?t ! n = f (word_of_nat n)"
    using Cons.prems(1,4) by (intro Cons.IH [where k = "Suc k"]) auto
  then show ?case by simp
qed

lemma span_table_byte:
  assumes "xor_linear f" and "cs = map f [1, 2, 4, 8, 16, 32, 64, 128]"
  shows "span_table cs [0] ! unat x = f x"
proof -
  have "span_table cs [0] ! unat x = f (word_of_nat (unat x))"
  proof (rule span_table_nth [where k = 0])
    show "cs ! i = f (word_of_nat (2 ^ (0 + i)))" if "i < length cs" for i
      using that assms(2) by (auto simp: numeral_eq_Suc less_Suc_eq)
  qed (use assms in \<open>auto simp: xor_linear_0\<close>)
  then show ?thesis by simp
qed

lemma xor_linear_msb: "xor_linear (\<lambda>x. (msb_step p ^^ n) (push_bit k (ucast x)))"
proof -
  have "push_bit k (ucast (a XOR b)) = push_bit k (ucast a) XOR push_bit k (ucast b :: 'a::len word)"
    for a b :: u8
    by (rule bit_word_eqI) (auto simp: bit_simps)
  then show ?thesis by (simp add: xor_linear_def msb_steps_xor)
qed

lemma xor_linear_lsb: "xor_linear (\<lambda>x. (lsb_step p ^^ n) (ucast x))"
proof -
  have "ucast (a XOR b) = (ucast a XOR ucast b :: 'a::len word)" for a b :: u8
    by (rule bit_word_eqI) (auto simp: bit_simps)
  then show ?thesis by (simp add: xor_linear_def lsb_steps_xor)
qed

lemma funpow_8: "(f ^^ 8) x = f (f (f (f (f (f (f (f x)))))))"
  for f :: "'a \<Rightarrow> 'a"
  by (simp add: numeral_eq_Suc)

lemma crctab_be_eval:
  "span_table [0x04c11db7, 0x09823b6e, 0x130476dc, 0x2608edb8, 0x4c11db70, 0x9823b6e0,
     0x34867077, 0x690ce0ee] [0] = crctab_be"
  by (simp add: crctab_be_def)

lemma crctab_be_span:
  "crctab_be = span_table (map (\<lambda>x. (msb_step 0x04c11db7 ^^ 8) (push_bit 24 (ucast (x :: u8))))
     [1, 2, 4, 8, 16, 32, 64, 128]) [0]"
proof -
  have "map (\<lambda>x. (msb_step 0x04c11db7 ^^ 8) (push_bit 24 (ucast (x :: u8))))
     [1, 2, 4, 8, 16, 32, 64, 128] =
     [0x04c11db7, 0x09823b6e, 0x130476dc, 0x2608edb8, 0x4c11db70, 0x9823b6e0, 0x34867077, 0x690ce0ee :: u32]"
    by (simp add: funpow_8 msb_step_def)
  then show ?thesis by (simp only: crctab_be_eval)
qed

lemma crctab_le_span:
  "crctab_le = span_table (map (\<lambda>x. (lsb_step 0xedb88320 ^^ 8) (ucast (x :: u8)))
     [1, 2, 4, 8, 16, 32, 64, 128]) [0]"
proof -
  have "map (\<lambda>x. (lsb_step 0xedb88320 ^^ 8) (ucast (x :: u8))) [1, 2, 4, 8, 16, 32, 64, 128] =
     [0x77073096, 0xee0e612c, 0x076dc419, 0x0edb8832, 0x1db71064, 0x3b6e20c8, 0x76dc4190, 0xedb88320 :: u32]"
    by (simp add: funpow_8 lsb_step_def)
  moreover have "span_table [0x77073096, 0xee0e612c, 0x076dc419, 0x0edb8832, 0x1db71064, 0x3b6e20c8,
     0x76dc4190, 0xedb88320] [0] = crctab_le"
    by (simp add: crctab_le_def)
  ultimately show ?thesis by (simp only:)
qed

lemma crctab_be_entry:
  "crctab_be ! unat (x :: u8) = (msb_step 0x04c11db7 ^^ 8) (push_bit 24 (ucast x))"
  unfolding crctab_be_span by (rule span_table_byte [OF xor_linear_msb refl])

lemma crctab_le_entry:
  "crctab_le ! unat (x :: u8) = (lsb_step 0xedb88320 ^^ 8) (ucast x)"
  unfolding crctab_le_span by (rule span_table_byte [OF xor_linear_lsb refl])

text \<open>The table index the two 32-bit routines compute is a byte value.\<close>

lemma crc32be_index: "drop_bit 24 accu XOR ucast b = (ucast (ucast (drop_bit 24 accu) XOR b) :: u32)"
  for accu :: u32 and b :: u8
  by (rule bit_word_eqI) (auto simp: bit_simps dest: bit_imp_less_len)

lemma crc32le_index: "(accu XOR ucast b) AND 0xFF = (ucast (ucast accu XOR b) :: u32)"
  for accu :: u32 and b :: u8
proof -
  have "x AND 0xFF = take_bit 8 x" for x :: u32
    by (simp add: take_bit_eq_mask mask_eq_exp_minus_1)
  then show ?thesis
    by (simp only:) (rule bit_word_eqI, auto simp: bit_simps dest: bit_imp_less_len)
qed

lemma unat_ucast_byte: "unat (ucast (x :: u8) :: u32) = unat x"
  by (simp add: unsigned_ucast_eq take_bit_nat_eq_self less_trans [OF unat_u8_less])

lemma crc32_index_in_table:
  "unat (drop_bit 24 accu XOR ucast (b :: u8) :: u32) < length crctab_be"
  "unat ((accu XOR ucast b) AND 0xFF :: u32) < length crctab_le"
  by (simp_all only: crc32be_index crc32le_index unat_ucast_byte crctab_be_length crctab_le_length
      unat_u8_less)

lemma crc32be_update_reference: "nk_crc32be_update = msb_byte 0x04c11db7"
proof (intro ext)
  fix accu :: u32 and b :: u8
  show "nk_crc32be_update accu b = msb_byte 0x04c11db7 accu b"
    by (simp add: msb_byte_split nk_crc32be_update_def crc32be_index unat_ucast_byte crctab_be_entry)
qed

lemma crc32le_update_reference: "nk_crc32le_update = lsb_byte 0xedb88320"
proof (intro ext)
  fix accu :: u32 and b :: u8
  have "x AND 0x00FFFFFF = take_bit 24 x" for x :: u32
    by (simp add: take_bit_eq_mask mask_eq_exp_minus_1)
  then have "drop_bit 8 accu AND 0x00FFFFFF = drop_bit 8 accu"
    by (simp only:) (rule bit_word_eqI, auto simp: bit_simps dest: bit_imp_less_len)
  then show "nk_crc32le_update accu b = lsb_byte 0xedb88320 accu b"
    by (simp add: lsb_byte_split nk_crc32le_update_def crc32le_index unat_ucast_byte crctab_le_entry)
qed

text \<open>The closed forms of the 16-bit and 8-bit routines.\<close>

definition crc16be_fold :: "u8 \<Rightarrow> u16" where
  "crc16be_fold x =
     (let x = x XOR drop_bit 4 x
      in push_bit 12 (ucast x) XOR push_bit 5 (ucast x) XOR ucast x)"

definition crc16le_fold :: "u8 \<Rightarrow> u16" where
  "crc16le_fold e =
     (let f = e XOR push_bit 4 e
      in push_bit 8 (ucast f) XOR push_bit 3 (ucast f) XOR ucast (drop_bit 4 f))"

lemma ucast_xor_byte: "ucast (a XOR b) = (ucast a XOR ucast b :: 'a::len word)" for a b :: u8
  by (rule bit_word_eqI) (auto simp: bit_simps)

lemmas xor_distribs = push_bit_xor_word drop_bit_xor_word ucast_xor_byte bit.conj_xor_distrib2

lemma xor_linear_crc16be_fold: "xor_linear crc16be_fold"
  unfolding xor_linear_def crc16be_fold_def Let_def xor_distribs by (intro allI) (simp only: ac_simps)

lemma xor_linear_crc16le_fold: "xor_linear crc16le_fold"
  unfolding xor_linear_def crc16le_fold_def Let_def xor_distribs by (intro allI) (simp only: ac_simps)

lemma crc16be_fold_reference: "crc16be_fold x = (msb_step 0x1021 ^^ 8) (push_bit 8 (ucast x))"
  by (rule xor_linear_eqI [OF xor_linear_crc16be_fold xor_linear_msb])
     (simp add: crc16be_fold_def funpow_8 msb_step_def)

lemma crc16le_fold_reference: "crc16le_fold x = (lsb_step 0x8408 ^^ 8) (ucast x)"
  by (rule xor_linear_eqI [OF xor_linear_crc16le_fold xor_linear_lsb])
     (simp add: crc16le_fold_def funpow_8 lsb_step_def)

lemma crc16be_update_reference: "nk_crc16be_update = msb_byte 0x1021"
proof (intro ext)
  fix c :: u16 and b :: u8
  have "msb_byte 0x1021 c b = push_bit 8 c XOR crc16be_fold (ucast (drop_bit 8 c) XOR b)"
    unfolding crc16be_fold_reference by (simp add: msb_byte_split)
  then show "nk_crc16be_update c b = msb_byte 0x1021 c b"
    by (simp only: nk_crc16be_update_def crc16be_fold_def Let_def ac_simps)
qed

lemma crc16le_update_reference: "nk_crc16le_update = lsb_byte 0x8408"
proof (intro ext)
  fix c :: u16 and b :: u8
  have "lsb_byte 0x8408 c b = drop_bit 8 c XOR crc16le_fold (ucast c XOR b)"
    unfolding crc16le_fold_reference by (simp add: lsb_byte_split)
  then show "nk_crc16le_update c b = lsb_byte 0x8408 c b"
    by (simp only: nk_crc16le_update_def crc16le_fold_def Let_def ac_simps)
qed

lemma xor_linear_crc8: "xor_linear (nk_crc8_update 0)"
  unfolding xor_linear_def nk_crc8_update_def Let_def xor.left_neutral xor_distribs
  by (intro allI) (simp only: ac_simps)

lemma crc8_update_reference: "nk_crc8_update = msb_byte 0x07"
proof (intro ext)
  fix c b :: u8
  have "nk_crc8_update 0 x = (msb_step 0x07 ^^ 8) (push_bit 0 (ucast x))" for x
    by (rule xor_linear_eqI [OF xor_linear_crc8 xor_linear_msb])
       (simp add: nk_crc8_update_def funpow_8 msb_step_def)
  from this [of "c XOR b"] show "nk_crc8_update c b = msb_byte 0x07 c b"
    by (simp add: nk_crc8_update_def msb_byte_def)
qed

section \<open>What a CRC promises its clients\<close>

text \<open>
  A CRC over bytes: an accumulator update and the order in which the final accumulator is
  appended to the message. The laws: an update loses nothing of the accumulator and
  nothing of the byte, and appending the accumulator's own bytes drives it to zero.
\<close>

locale crc_code =
  fixes update :: "'c::len word \<Rightarrow> u8 \<Rightarrow> 'c word"
    and encode :: "'c word \<Rightarrow> bytes"
  assumes update_inj_acc: "update c b = update c' b \<Longrightarrow> c = c'"
    and update_inj_byte: "update c b = update c b' \<Longrightarrow> b = b'"
    and residue: "foldl update c (encode c) = 0"
begin

lemma foldl_inj_acc: "foldl update c bs = foldl update c' bs \<Longrightarrow> c = c'"
  by (induction bs arbitrary: c c') (auto dest: update_inj_acc)

lemma append_check: "foldl update 0 (data @ encode (foldl update 0 data)) = 0"
  by (simp add: residue)

lemma detects_changed_byte:
  assumes "b \<noteq> b'"
  shows "foldl update 0 (pre @ b # post) \<noteq> foldl update 0 (pre @ b' # post)"
  using assms foldl_inj_acc update_inj_byte by fastforce

end

text \<open>A CRC of width \<open>8 * n\<close> also tells apart any two different runs of up to \<open>n\<close> bytes.\<close>

locale crc_burst = crc_code +
  fixes nbytes :: nat
  assumes block_inj: "length bs = length bs' \<Longrightarrow> length bs \<le> nbytes \<Longrightarrow>
    foldl update c bs = foldl update c bs' \<Longrightarrow> bs = bs'"
begin

lemma detects_burst:
  assumes "length bs = length bs'" "length bs \<le> nbytes" "bs \<noteq> bs'"
  shows "foldl update 0 (pre @ bs @ post) \<noteq> foldl update 0 (pre @ bs' @ post)"
  using assms foldl_inj_acc block_inj by (simp add: foldl_append) blast

end

text \<open>The register value of a run of bytes, as the shift register sees it.\<close>

fun msb_val :: "u8 list \<Rightarrow> 'a::len word" where
  "msb_val [] = 0"
| "msb_val (b # bs) = push_bit (LENGTH('a) - 8) (ucast b) XOR drop_bit 8 (msb_val bs)"

fun lsb_val :: "u8 list \<Rightarrow> 'a::len word" where
  "lsb_val [] = 0"
| "lsb_val (b # bs) = ucast b XOR push_bit 8 (lsb_val bs)"

lemma msb_val_low:
  "bit (msb_val bs :: 'a::len word) i \<Longrightarrow> 8 * length bs \<le> LENGTH('a) \<Longrightarrow>
     LENGTH('a) - 8 * length bs \<le> i"
proof (induction bs arbitrary: i)
  case Nil
  then show ?case by simp
next
  case (Cons b bs)
  then have "LENGTH('a) - 8 \<le> i \<or> bit (msb_val bs :: 'a word) (8 + i)"
    by (auto simp: bit_simps)
  then show ?case
    using Cons.IH [of "8 + i"] Cons.prems(2) by auto
qed

lemma lsb_val_high: "bit (lsb_val bs :: 'a::len word) i \<Longrightarrow> i < 8 * length bs"
proof (induction bs arbitrary: i)
  case Nil
  then show ?case by simp
next
  case (Cons b bs)
  then have "bit b i \<or> 8 \<le> i \<and> bit (lsb_val bs :: 'a word) (i - 8)"
    by (auto simp: bit_simps)
  then show ?case
    using Cons.IH [of "i - 8"] by (auto dest: bit_imp_less_len)
qed

lemma msb_byte_foldl:
  fixes c :: "'a::len word"
  assumes "8 * length bs \<le> LENGTH('a)"
  shows "foldl (msb_byte p) c bs = (msb_step p ^^ (8 * length bs)) (c XOR msb_val bs)"
  using assms
proof (induction bs arbitrary: c)
  case Nil
  then show ?case by simp
next
  case (Cons b bs)
  let ?v = "msb_val bs :: 'a word"
  have len: "8 \<le> LENGTH('a) - 8 * length bs" using Cons.prems by simp
  have low: "bit ?v i \<Longrightarrow> 8 \<le> i" for i
    using msb_val_low [of bs i] len Cons.prems by fastforce
  have "(msb_step p ^^ 8) (drop_bit 8 ?v) = push_bit 8 (drop_bit 8 ?v)"
    by (intro msb_steps_shift) (auto simp: bit_simps dest!: bit_imp_less_len)
  also have "\<dots> = ?v"
    by (rule bit_word_eqI) (auto simp: bit_simps low)
  finally have "msb_byte p c b XOR ?v =
      (msb_step p ^^ 8) ((c XOR push_bit (LENGTH('a) - 8) (ucast b)) XOR drop_bit 8 ?v)"
    by (simp only: msb_byte_def msb_steps_xor)
  then have "foldl (msb_byte p) c (b # bs) =
      (msb_step p ^^ (8 * length bs)) ((msb_step p ^^ 8) (c XOR msb_val (b # bs)))"
    using Cons.IH [of "msb_byte p c b"] Cons.prems by (simp add: xor.assoc)
  then show ?case
    by (simp add: funpow_add [THEN fun_cong, simplified comp_apply, symmetric] add.commute)
qed

lemma lsb_byte_foldl:
  fixes c :: "'a::len word"
  assumes "8 * length bs \<le> LENGTH('a)"
  shows "foldl (lsb_byte p) c bs = (lsb_step p ^^ (8 * length bs)) (c XOR lsb_val bs)"
  using assms
proof (induction bs arbitrary: c)
  case Nil
  then show ?case by simp
next
  case (Cons b bs)
  let ?v = "lsb_val bs :: 'a word"
  have high: "bit ?v i \<Longrightarrow> i + 8 < LENGTH('a)" for i
    using lsb_val_high [of bs i] Cons.prems by fastforce
  have "(lsb_step p ^^ 8) (push_bit 8 ?v) = drop_bit 8 (push_bit 8 ?v)"
    by (intro lsb_steps_shift) (auto simp: bit_simps)
  also have "\<dots> = ?v"
    by (rule bit_word_eqI) (auto simp: bit_simps high add.commute)
  finally have "lsb_byte p c b XOR ?v = (lsb_step p ^^ 8) ((c XOR ucast b) XOR push_bit 8 ?v)"
    by (simp only: lsb_byte_def lsb_steps_xor)
  then have "foldl (lsb_byte p) c (b # bs) =
      (lsb_step p ^^ (8 * length bs)) ((lsb_step p ^^ 8) (c XOR lsb_val (b # bs)))"
    using Cons.IH [of "lsb_byte p c b"] Cons.prems by (simp add: xor.assoc)
  then show ?case
    by (simp add: funpow_add [THEN fun_cong, simplified comp_apply, symmetric] add.commute)
qed

lemma byte_eq_bitI: "(\<And>n. n < 8 \<Longrightarrow> bit a n = bit b n) \<Longrightarrow> a = (b :: u8)"
  by (rule bit_word_eqI) simp

lemma msb_val_inj:
  assumes "length bs = length bs'" "8 * length bs \<le> LENGTH('a)"
    "msb_val bs = (msb_val bs' :: 'a::len word)"
  shows "bs = bs'"
  using assms
proof (induction bs bs' rule: list_induct2)
  case Nil
  then show ?case by simp
next
  case (Cons b bs b' bs')
  let ?w = "LENGTH('a)"
  have eq: "bit (msb_val (b # bs) :: 'a word) i = bit (msb_val (b' # bs') :: 'a word) i" for i
    using Cons.prems(2) by simp
  have top: "bit (msb_val (c # cs) :: 'a word) (?w - 8 + n) = bit c n" if "n < 8"
    for c cs and n :: nat
  proof -
    have "?w - 8 \<le> ?w + n - 8" "?w - 8 + n < ?w" "8 + (?w - 8 + n) = ?w + n" using that Cons.prems(1) by auto
    moreover have "\<not> bit (msb_val cs :: 'a word) (?w + n)"
      using bit_imp_less_len by fastforce
    ultimately show ?thesis using that Cons.prems(1) by (auto simp: bit_simps)
  qed
  have "bit b n = bit b' n" if "n < 8" for n
    using eq [of "?w - 8 + n"] top [OF that] by simp
  then have "b = b'" by (rule byte_eq_bitI)
  have "bit (msb_val bs :: 'a word) n = bit (msb_val bs' :: 'a word) n" if "n < ?w" for n
  proof (cases "n < 8")
    case True
    then show ?thesis
      using msb_val_low [of bs n, where 'a = 'a] msb_val_low [of bs' n, where 'a = 'a]
        Cons.prems(1) Cons.hyps by auto
  next
    case False
    then obtain m where "n = 8 + m"
      using le_Suc_ex [of 8 n] by auto
    then show ?thesis
      using eq [of m] that \<open>b = b'\<close> by (auto simp: bit_simps)
  qed
  then have "msb_val bs = (msb_val bs' :: 'a word)" by (rule bit_word_eqI)
  then show ?case using \<open>b = b'\<close> Cons.IH Cons.prems(1) by simp
qed

lemma lsb_val_inj:
  assumes "length bs = length bs'" "8 * length bs \<le> LENGTH('a)"
    "lsb_val bs = (lsb_val bs' :: 'a::len word)"
  shows "bs = bs'"
  using assms
proof (induction bs bs' rule: list_induct2)
  case Nil
  then show ?case by simp
next
  case (Cons b bs b' bs')
  let ?w = "LENGTH('a)"
  have eq: "bit (lsb_val (b # bs) :: 'a word) i = bit (lsb_val (b' # bs') :: 'a word) i" for i
    using Cons.prems(2) by simp
  have "bit b n = bit b' n" if "n < 8" for n
    using eq [of n] that Cons.prems(1) by (auto simp: bit_simps)
  then have "b = b'" by (rule byte_eq_bitI)
  have "bit (lsb_val bs :: 'a word) n = bit (lsb_val bs' :: 'a word) n" if "n < ?w" for n
  proof (cases "n + 8 < ?w")
    case True
    then show ?thesis
      using eq [of "n + 8"] \<open>b = b'\<close> by (auto simp: bit_simps)
  next
    case False
    then show ?thesis
      using lsb_val_high [of bs n, where 'a = 'a] lsb_val_high [of bs' n, where 'a = 'a]
        Cons.prems(1) Cons.hyps by auto
  qed
  then have "lsb_val bs = (lsb_val bs' :: 'a word)" by (rule bit_word_eqI)
  then show ?case using \<open>b = b'\<close> Cons.IH Cons.prems(1) by simp
qed

text \<open>The orders in which the source's comments append a CRC to a message.\<close>

definition be_bytes32 :: "u32 \<Rightarrow> bytes" where
  "be_bytes32 c = [ucast (drop_bit 24 c), ucast (drop_bit 16 c), ucast (drop_bit 8 c), ucast c]"

definition le_bytes32 :: "u32 \<Rightarrow> bytes" where
  "le_bytes32 c = [ucast c, ucast (drop_bit 8 c), ucast (drop_bit 16 c), ucast (drop_bit 24 c)]"

definition be_bytes16 :: "u16 \<Rightarrow> bytes" where
  "be_bytes16 c = [ucast (drop_bit 8 c), ucast c]"

definition le_bytes16 :: "u16 \<Rightarrow> bytes" where
  "le_bytes16 c = [ucast c, ucast (drop_bit 8 c)]"

lemma encode_lengths [simp]:
  "length (be_bytes32 a) = 4" "length (le_bytes32 a) = 4"
  "length (be_bytes16 b) = 2" "length (le_bytes16 b) = 2"
  by (simp_all add: be_bytes32_def le_bytes32_def be_bytes16_def le_bytes16_def)

lemma msb_byte_crc_burst:
  fixes p :: "'a::len word"
  assumes odd: "bit p 0" and w: "8 \<le> LENGTH('a)" and n: "8 * n \<le> LENGTH('a)"
    and enc: "\<And>c. 8 * length (enc c) \<le> LENGTH('a)" "\<And>c. msb_val (enc c) = (c :: 'a word)"
  shows "crc_burst (msb_byte p) enc n"
proof
  have inj: "(msb_step p ^^ k) a = (msb_step p ^^ k) b \<Longrightarrow> a = b" for k a b
    by (rule funpow_inj) (rule msb_step_inj [OF odd])
  show "c = c'" if "msb_byte p c b = msb_byte p c' b" for c c' b
    using that inj by (fastforce simp: msb_byte_def)
  show "bs = bs'" if "length bs = length bs'" "length bs \<le> n"
    "foldl (msb_byte p) c bs = foldl (msb_byte p) c bs'" for c bs bs'
  proof -
    have "8 * length bs \<le> LENGTH('a)" using that n by simp
    then show ?thesis
      using that inj by (metis msb_byte_foldl msb_val_inj xor_left_cancel)
  qed
  show "b = b'" if "msb_byte p c b = msb_byte p c b'" for c b b'
    using that inj w msb_val_inj [of "[b]" "[b']", where 'a = 'a] by (fastforce simp: msb_byte_def)
  show "foldl (msb_byte p) c (enc c) = 0" for c
    using enc by (simp add: msb_byte_foldl)
qed

lemma lsb_byte_crc_burst:
  fixes p :: "'a::len word"
  assumes top: "bit p (LENGTH('a) - 1)" and w: "8 \<le> LENGTH('a)" and n: "8 * n \<le> LENGTH('a)"
    and enc: "\<And>c. 8 * length (enc c) \<le> LENGTH('a)" "\<And>c. lsb_val (enc c) = (c :: 'a word)"
  shows "crc_burst (lsb_byte p) enc n"
proof
  have inj: "(lsb_step p ^^ k) a = (lsb_step p ^^ k) b \<Longrightarrow> a = b" for k a b
    by (rule funpow_inj) (rule lsb_step_inj [OF top])
  show "c = c'" if "lsb_byte p c b = lsb_byte p c' b" for c c' b
    using that inj by (fastforce simp: lsb_byte_def)
  show "bs = bs'" if "length bs = length bs'" "length bs \<le> n"
    "foldl (lsb_byte p) c bs = foldl (lsb_byte p) c bs'" for c bs bs'
  proof -
    have "8 * length bs \<le> LENGTH('a)" using that n by simp
    then show ?thesis
      using that inj by (metis lsb_byte_foldl lsb_val_inj xor_left_cancel)
  qed
  show "b = b'" if "lsb_byte p c b = lsb_byte p c b'" for c b b'
    using that inj w lsb_val_inj [of "[b]" "[b']", where 'a = 'a] by (fastforce simp: lsb_byte_def)
  show "foldl (lsb_byte p) c (enc c) = 0" for c
    using enc by (simp add: lsb_byte_foldl)
qed

text \<open>Which byte of a word a bit position falls in.\<close>

lemma byte_position:
  assumes "(n :: nat) < 32"
  obtains "n < 8" | m where "n = 8 + m" "m < 8" | m where "n = 16 + m" "m < 8"
  | m where "n = 24 + m" "m < 8"
proof -
  have "n < 8 \<or> n = 8 + (n - 8) \<and> n - 8 < 8 \<or> n = 16 + (n - 16) \<and> n - 16 < 8
      \<or> n = 24 + (n - 24) \<and> n - 24 < 8"
    using assms by arith
  then show thesis using that by blast
qed

lemma msb_val_be_bytes32: "msb_val (be_bytes32 c) = c"
proof (rule bit_word_eqI)
  fix n assume "n < LENGTH(32)"
  then have "n < 32" by simp
  then show "bit (msb_val (be_bytes32 c) :: u32) n = bit c n"
    by (rule byte_position) (auto simp: be_bytes32_def bit_simps)
qed

lemma lsb_val_le_bytes32: "lsb_val (le_bytes32 c) = c"
proof (rule bit_word_eqI)
  fix n assume "n < LENGTH(32)"
  then have "n < 32" by simp
  then show "bit (lsb_val (le_bytes32 c) :: u32) n = bit c n"
    by (rule byte_position) (auto simp: le_bytes32_def bit_simps)
qed

lemma msb_val_be_bytes16: "msb_val (be_bytes16 c) = c"
proof (rule bit_word_eqI)
  fix n assume n: "n < LENGTH(16)"
  then have "n < 32" by simp
  then show "bit (msb_val (be_bytes16 c) :: u16) n = bit c n"
    by (rule byte_position) (use n in \<open>auto simp: be_bytes16_def bit_simps\<close>)
qed

lemma lsb_val_le_bytes16: "lsb_val (le_bytes16 c) = c"
proof (rule bit_word_eqI)
  fix n assume n: "n < LENGTH(16)"
  then have "n < 32" by simp
  then show "bit (lsb_val (le_bytes16 c) :: u16) n = bit c n"
    by (rule byte_position) (use n in \<open>auto simp: le_bytes16_def bit_simps\<close>)
qed

lemma msb_val_byte: "msb_val [c] = (c :: u8)"
  by simp

interpretation crc32be: crc_burst nk_crc32be_update be_bytes32 4
  unfolding crc32be_update_reference
  by (rule msb_byte_crc_burst) (simp_all add: msb_val_be_bytes32)

interpretation crc32le: crc_burst nk_crc32le_update le_bytes32 4
  unfolding crc32le_update_reference
  by (rule lsb_byte_crc_burst) (simp_all add: lsb_val_le_bytes32)

interpretation crc16be: crc_burst nk_crc16be_update be_bytes16 2
  unfolding crc16be_update_reference
  by (rule msb_byte_crc_burst) (simp_all add: msb_val_be_bytes16)

interpretation crc16le: crc_burst nk_crc16le_update le_bytes16 2
  unfolding crc16le_update_reference
  by (rule lsb_byte_crc_burst) (simp_all add: lsb_val_le_bytes16)

interpretation crc8: crc_burst nk_crc8_update "\<lambda>c. [c]" 1
  unfolding crc8_update_reference
  by (rule msb_byte_crc_burst) (simp_all add: msb_val_byte)

lemmas crc_check_defs =
  nk_crc32be_check_def nk_crc32le_check_def nk_crc16be_check_def nk_crc16le_check_def nk_crc8_def


text \<open>The table generator: each round doubles the table and keeps what is there; eight rounds
  give the table of the source, and the ninth writes past its 256 entries.\<close>

lemma make_table_rounds_prefix: "\<exists>rest. make_table_rounds k crc t = t @ rest"
  by (induction k arbitrary: crc t) (auto simp: Let_def, metis append_assoc)

lemma make_table_rounds_add:
  "make_table_rounds (j + k) crc t =
     make_table_rounds k ((make_table_poly_step ^^ j) crc) (make_table_rounds j crc t)"
  by (induction j arbitrary: crc t) (simp_all add: funpow_swap1 Let_def)

lemma make_table_rounds_length: "length (make_table_rounds k crc t) = 2 ^ k * length t"
  by (induction k arbitrary: crc t) (simp_all add: Let_def)

lemma make_table_poly_steps:
  "make_table_poly_step 0x80000000 = 0x04c11db7" "make_table_poly_step 0x04c11db7 = 0x09823b6e"
  "make_table_poly_step 0x09823b6e = 0x130476dc" "make_table_poly_step 0x130476dc = 0x2608edb8"
  "make_table_poly_step 0x2608edb8 = 0x4c11db70" "make_table_poly_step 0x4c11db70 = 0x9823b6e0"
  "make_table_poly_step 0x9823b6e0 = 0x34867077" "make_table_poly_step 0x34867077 = 0x690ce0ee"
  by (simp_all add: make_table_poly_step_def)

lemma make_table_rounds_8: "make_table_rounds 8 0x80000000 [0] = crctab_be"
proof -
  have "8 = Suc (Suc (Suc (Suc (Suc (Suc (Suc (Suc 0)))))))" by simp
  then show ?thesis
    by (simp only: make_table_rounds.simps Let_def make_table_poly_steps
        crctab_be_eval [symmetric] span_table.simps)
qed

lemma make_table_split: "\<exists>rest. make_table = crctab_be @ rest"
  using make_table_rounds_prefix [of 1 "(make_table_poly_step ^^ 8) 0x80000000" crctab_be]
    make_table_rounds_add [of 8 1 "0x80000000" "[0]"]
  by (simp add: make_table_def make_table_rounds_8)

section \<open>Properties\<close>

text \<open>C10. The table-driven and closed-form CRC routines compute the bit-serial shift-register
  checksum of the polynomials the source names: 0x04c11db7 most significant bit first for
  \<^verbatim>\<open>nk_crc32be_check\<close>, 0xedb88320 least significant bit first for \<^verbatim>\<open>nk_crc32le_check\<close>, 0x1021
  and 0x8408 for the two 16-bit checks, and 0x07 for \<^verbatim>\<open>nk_crc8\<close>.\<close>

theorem crc_checks_bit_serial:
  "nk_crc32be_check data = foldl (msb_byte 0x04c11db7) 0 data
   \<and> nk_crc32le_check data = foldl (lsb_byte 0xedb88320) 0 data
   \<and> nk_crc16be_check data = foldl (msb_byte 0x1021) 0 data
   \<and> nk_crc16le_check data = foldl (lsb_byte 0x8408) 0 data
   \<and> nk_crc8 data = foldl (msb_byte 0x07) 0 data"
  by (simp add: crc_check_defs crc32be_update_reference crc32le_update_reference
      crc16be_update_reference crc16le_update_reference crc8_update_reference)

text \<open>C2 A message with its own CRC appended, in the byte order the source's comments give, checks
  to zero, for all five CRCs.\<close>

theorem crc_appended_checks_to_zero:
  "nk_crc32be_check (data @ be_bytes32 (nk_crc32be_check data)) = 0
   \<and> nk_crc32le_check (data @ le_bytes32 (nk_crc32le_check data)) = 0
   \<and> nk_crc16be_check (data @ be_bytes16 (nk_crc16be_check data)) = 0
   \<and> nk_crc16le_check (data @ le_bytes16 (nk_crc16le_check data)) = 0
   \<and> nk_crc8 (data @ [nk_crc8 data]) = 0"
  unfolding crc_check_defs
  by (intro conjI crc32be.append_check crc32le.append_check crc16be.append_check
      crc16le.append_check crc8.append_check)

text \<open>C29. Two messages that differ only within a run of at most four consecutive bytes never have
  the same 32-bit CRC, and within two consecutive bytes never the same 16-bit CRC: every
  error burst of that length is detected.\<close>

theorem crc_detects_bursts:
  assumes "length bs = length bs'" "bs \<noteq> bs'"
  shows "(length bs \<le> 4 \<longrightarrow> nk_crc32be_check (pre @ bs @ post) \<noteq> nk_crc32be_check (pre @ bs' @ post))
    \<and> (length bs \<le> 4 \<longrightarrow> nk_crc32le_check (pre @ bs @ post) \<noteq> nk_crc32le_check (pre @ bs' @ post))
    \<and> (length bs \<le> 2 \<longrightarrow> nk_crc16be_check (pre @ bs @ post) \<noteq> nk_crc16be_check (pre @ bs' @ post))
    \<and> (length bs \<le> 2 \<longrightarrow> nk_crc16le_check (pre @ bs @ post) \<noteq> nk_crc16le_check (pre @ bs' @ post))
    \<and> (length bs \<le> 1 \<longrightarrow> nk_crc8 (pre @ bs @ post) \<noteq> nk_crc8 (pre @ bs' @ post))"
  unfolding crc_check_defs
  using assms crc32be.detects_burst crc32le.detects_burst crc16be.detects_burst
    crc16le.detects_burst crc8.detects_burst by blast

theorem crc_detects_bursts_witness:
  "nk_crc32be_check ([7] @ [1, 2, 3, 4] @ [9]) \<noteq> nk_crc32be_check ([7] @ [1, 2, 3, 5] @ [9])
   \<and> nk_crc16be_check ([7] @ [1, 2] @ [9]) \<noteq> nk_crc16be_check ([7] @ [1, 3] @ [9])"
  using crc_detects_bursts [of "[1, 2, 3, 4]" "[1, 2, 3, 5]" "[7]" "[9]"]
    crc_detects_bursts [of "[1, 2]" "[1, 3]" "[7]" "[9]"] by simp

text \<open>C4 The table generator compiled under \<^verbatim>\<open>MAKETABLE\<close> fills the first 256 entries with exactly
  the table used by \<^verbatim>\<open>nk_crc32be_update\<close>, but its last round (\<open>i = 256\<close>) goes on to store 256
  more entries, past the end of the 256-entry array.\<close>

theorem make_table_fills_and_overruns:
  "take 256 make_table = crctab_be \<and> length make_table = 512"
  using make_table_split crctab_be_length make_table_rounds_length [of 9 "0x80000000" "[0]"]
  by (auto simp: make_table_def)

end
