(* ===== verification/Datetime.thy ===== *)
theory Datetime
  imports Prelude "HOL-Library.Signed_Division"
begin

text \<open>
  The calendar library, \<^verbatim>\<open>libnklabs/src/nkdatetime.c\<close>: the \<open>nkdatetime_t\<close> record at its field
  widths, the conversions to and from seconds since 1970, the day of the week, the
  sanity check and the minute-of-day/week helpers. C's \<open>int\<close> is the 32-bit two's complement
  type: \<open>int32\<close> writes out the conversion to it wherever the source converts or multiplies
  in \<open>int\<close>. A read past the end of a table has the value \<open>None\<close>.
\<close>

section \<open>Data\<close>

record nkdatetime =
  dt_sec :: u8
  dt_min :: u8
  dt_hour :: u8
  dt_weekday :: u8
  dt_day :: u8
  dt_month :: u8
  dt_year :: u16

definition nk_weekday_name :: "string list" where
  "nk_weekday_name = [''Sun'', ''Mon'', ''Tue'', ''Wed'', ''Thu'', ''Fri'', ''Sat'']"

definition nk_month_name :: "string list" where
  "nk_month_name = [''Jan'', ''Feb'', ''Mar'', ''Apr'', ''May'', ''Jun'', ''Jul'', ''Aug'',
     ''Sep'', ''Oct'', ''Nov'', ''Dec'']"

definition dpm :: "u8 list" where
  "dpm = [31, 28, 31, 30, 31, 30, 31, 31, 30, 31, 30, 31]"

definition dpmleap :: "u8 list" where
  "dpmleap = [31, 29, 31, 30, 31, 30, 31, 31, 30, 31, 30, 31]"

definition SPD :: int where
  "SPD = 60 * 60 * 24"

text \<open>Conversion of an integer value to C's 32-bit \<open>int\<close>.\<close>

definition int32 :: "int \<Rightarrow> int" where
  "int32 x = sint (word_of_int x :: u32)"

section \<open>Operations\<close>

definition nk_calc_day_of_week :: "int \<Rightarrow> int \<Rightarrow> int \<Rightarrow> int option" where
  "nk_calc_day_of_week y m d =
     (let t = [0, 3, 2, 5, 0, 3, 5, 1, 4, 6, 2, 4];
          m = m + 1;
          d = d + 1;
          y = y - (if m < 3 then 1 else 0)
      in if 1 \<le> m \<and> m \<le> 12
         then Some ((y + y sdiv 4 - y sdiv 100 + y sdiv 400 + t ! nat (m - 1) + d) smod 7)
         else None)"

definition nk_calc_minute_of_day :: "nkdatetime \<Rightarrow> int" where
  "nk_calc_minute_of_day dt = uint (dt_hour dt) * 60 + uint (dt_min dt)"

definition nk_calc_minute_of_week :: "nkdatetime \<Rightarrow> int" where
  "nk_calc_minute_of_week dt = uint (dt_weekday dt) * 1440 + uint (dt_hour dt) * 60 + uint (dt_min dt)"

definition nk_datetime_sanity :: "nkdatetime \<Rightarrow> int \<times> nkdatetime" where
  "nk_datetime_sanity dt =
     (let rtn = 0;
          (dt, rtn) = (if dt_sec dt > 59 then (dt\<lparr>dt_min := 0\<rparr>, -1) else (dt, rtn));
          (dt, rtn) = (if dt_min dt > 59 then (dt\<lparr>dt_min := 0\<rparr>, -1) else (dt, rtn));
          (dt, rtn) = (if dt_hour dt > 23 then (dt\<lparr>dt_hour := 0\<rparr>, -1) else (dt, rtn));
          (dt, rtn) = (if dt_weekday dt > 6 then (dt\<lparr>dt_weekday := 0\<rparr>, -1) else (dt, rtn));
          (dt, rtn) = (if dt_day dt > 30 then (dt\<lparr>dt_day := 0\<rparr>, -1) else (dt, rtn));
          (dt, rtn) = (if dt_month dt > 11 then (dt\<lparr>dt_month := 0\<rparr>, -1) else (dt, rtn));
          dt = (if dt_year dt < 2000 then dt\<lparr>dt_year := 2000\<rparr> else dt);
          (dt, rtn) = (if dt_year dt > 2199 then (dt\<lparr>dt_year := 2000\<rparr>, -1) else (dt, rtn))
      in (rtn, dt))"

definition nk_datetime_clear :: "nkdatetime \<Rightarrow> nkdatetime" where
  "nk_datetime_clear dt =
     dt\<lparr>dt_sec := 0, dt_min := 0, dt_hour := 0, dt_weekday := 6, dt_day := 0, dt_month := 0, dt_year := 2000\<rparr>"

definition isleapyear :: "int \<Rightarrow> bool" where
  "isleapyear y = (if y smod 4 \<noteq> 0 \<or> (y smod 100 = 0 \<and> y smod 400 \<noteq> 0) then False else True)"

definition nk_datetime_to_unix :: "nkdatetime \<Rightarrow> int" where
  "nk_datetime_to_unix dt =
     (if dt_year dt < 1970 then -1
      else let clock = foldl (\<lambda>clock x. clock + SPD * (if isleapyear (int x) then 366 else 365))
                         0 [1970..<unat (dt_year dt)]
      in if dt_month dt > 11 then -1
      else let tab = (if isleapyear (uint (dt_year dt)) then dpmleap else dpm);
               clock = foldl (\<lambda>clock x. clock + SPD * uint (tab ! x)) clock [0..<unat (dt_month dt)]
      in if dt_day dt \<ge> tab ! unat (dt_month dt) then -1
      else let clock = clock + SPD * uint (dt_day dt)
      in if dt_hour dt > 23 then -1
      else if dt_min dt > 59 then -1
      else if dt_sec dt > 59 then -1
      else clock + (uint (dt_hour dt) * 60 * 60 + uint (dt_min dt) * 60 + uint (dt_sec dt)))"

text \<open>The two search loops of \<^verbatim>\<open>nk_unix_to_datetime\<close>.\<close>

function unix_year_loop :: "int \<Rightarrow> int \<Rightarrow> int \<times> int" where
  "unix_year_loop days y =
     (if days \<ge> (if isleapyear y then 366 else 365)
      then unix_year_loop (days - (if isleapyear y then 366 else 365)) (y + 1)
      else (days, y))"
  by pat_completeness auto
termination
  by (relation "measure (\<lambda>(days, y). nat days)") (auto split: if_splits)

declare unix_year_loop.simps [simp del]

fun unix_month_loop :: "u8 list \<Rightarrow> int \<Rightarrow> int \<Rightarrow> (int \<times> int) option" where
  "unix_month_loop [] days m = None"
| "unix_month_loop (n # ns) days m =
     (if days \<ge> uint n then unix_month_loop ns (days - uint n) (m + 1) else Some (days, m))"

definition nk_unix_to_datetime :: "int \<Rightarrow> nkdatetime \<Rightarrow> (int \<times> nkdatetime) option" where
  "nk_unix_to_datetime unixtime dt =
     (if unixtime < 0 then Some (-1, dt)
      else let days = int32 (unixtime sdiv SPD);
               sec_of_day = int32 (unixtime - int32 (days * SPD));
               hour_of_day = sec_of_day sdiv 3600;
               sec_of_hour = sec_of_day - hour_of_day * 3600;
               min_of_hour = sec_of_hour sdiv 60;
               sec_of_min = sec_of_hour - min_of_hour * 60;
               (days, y) = unix_year_loop days 1970
      in do {
        (days, m) \<leftarrow> unix_month_loop (if isleapyear y then dpmleap else dpm) days 0;
        wd \<leftarrow> nk_calc_day_of_week y m days;
        Some (0, dt\<lparr>dt_year := word_of_int y, dt_month := word_of_int m, dt_day := word_of_int days,
                dt_weekday := word_of_int wd, dt_hour := word_of_int hour_of_day,
                dt_min := word_of_int min_of_hour, dt_sec := word_of_int sec_of_min\<rparr>)
      })"

section \<open>The calendar, as a specification\<close>

text \<open>Gregorian leap years, year and month lengths, and days before a date counted from
  1 January 1970.\<close>

definition leap :: "nat \<Rightarrow> bool" where
  "leap y \<longleftrightarrow> 4 dvd y \<and> (\<not> 100 dvd y \<or> 400 dvd y)"

definition year_len :: "nat \<Rightarrow> nat" where
  "year_len y = (if leap y then 366 else 365)"

definition month_lens :: "nat \<Rightarrow> nat list" where
  "month_lens y = [31, if leap y then 29 else 28, 31, 30, 31, 30, 31, 31, 30, 31, 30, 31]"

definition days_before_year :: "nat \<Rightarrow> nat" where
  "days_before_year y = sum_list (map year_len [1970..<y])"

definition days_before_month :: "nat \<Rightarrow> nat \<Rightarrow> nat" where
  "days_before_month y m = sum_list (take m (month_lens y))"

definition day_number :: "nat \<Rightarrow> nat \<Rightarrow> nat \<Rightarrow> nat" where
  "day_number y m d = days_before_year y + days_before_month y m + d"

text \<open>The records the library accepts as dates from 1970 on.\<close>

definition valid_datetime :: "nkdatetime \<Rightarrow> bool" where
  "valid_datetime dt \<longleftrightarrow> 1970 \<le> unat (dt_year dt) \<and> unat (dt_month dt) < 12
     \<and> unat (dt_day dt) < month_lens (unat (dt_year dt)) ! unat (dt_month dt)
     \<and> unat (dt_hour dt) < 24 \<and> unat (dt_min dt) < 60 \<and> unat (dt_sec dt) < 60"

definition unix_seconds :: "nkdatetime \<Rightarrow> nat" where
  "unix_seconds dt =
     day_number (unat (dt_year dt)) (unat (dt_month dt)) (unat (dt_day dt)) * 86400
       + unat (dt_hour dt) * 3600 + unat (dt_min dt) * 60 + unat (dt_sec dt)"

section \<open>Arithmetic of the implementation\<close>

lemma isleapyear_leap: "isleapyear (int y) = leap y"
proof -
  have "int y smod 4 = int (y mod 4)" "int y smod 100 = int (y mod 100)" "int y smod 400 = int (y mod 400)"
    by (simp_all add: smod_mod_positive zmod_int)
  then show ?thesis by (auto simp: isleapyear_def leap_def dvd_eq_mod_eq_0)
qed

lemma dpm_month_lens: "(if leap y then dpmleap else dpm) = map word_of_nat (month_lens y)"
  by (simp add: dpm_def dpmleap_def month_lens_def)

lemma month_lens_length [simp]: "length (month_lens y) = 12"
  by (simp add: month_lens_def)

lemma month_lens_less_256: "m < 12 \<Longrightarrow> month_lens y ! m < 256"
  using nth_mem [of m "month_lens y"] by (auto simp: month_lens_def simp del: nth_mem split: if_splits)

lemma unat_u8_of_nat: "n < 256 \<Longrightarrow> unat (word_of_nat n :: u8) = n"
  by (simp add: unat_of_nat)

lemma year_len_gt0: "365 \<le> year_len y" "year_len y \<le> 366"
  by (simp_all add: year_len_def)

lemma sum_month_lens: "sum_list (month_lens y) = year_len y"
  by (simp add: month_lens_def year_len_def)

lemma days_before_year_1970 [simp]: "days_before_year 1970 = 0"
  by (simp add: days_before_year_def)

lemma days_before_year_Suc:
  "1970 \<le> y \<Longrightarrow> days_before_year (Suc y) = days_before_year y + year_len y"
  by (simp add: days_before_year_def)

lemma foldl_add_sum: "foldl (\<lambda>c x. c + k * f x) (a :: int) xs = a + k * sum_list (map f xs)"
  by (induction xs arbitrary: a) (simp_all add: algebra_simps)



lemma foldl_year_seconds:
  "foldl (\<lambda>clock x. clock + SPD * (if isleapyear (int x) then 366 else 365)) 0 [1970..<y]
     = SPD * int (days_before_year y)"
proof -
  have "sum_list (map (\<lambda>x. if isleapyear (int x) then 366 else 365 :: int) xs)
      = int (sum_list (map year_len xs))" for xs
    by (induction xs) (simp_all add: isleapyear_leap year_len_def)
  then show ?thesis by (simp only: foldl_add_sum days_before_year_def)
qed

lemma sum_list_map_int: "sum_list (map int xs) = int (sum_list xs)"
  by (induction xs) simp_all

lemma foldl_month_seconds:
  assumes "m < 12"
  shows "foldl (\<lambda>clock x. clock + SPD * uint ((map word_of_nat (month_lens y) :: u8 list) ! x)) a [0..<m]
      = a + SPD * int (days_before_month y m)"
proof -
  have "map (\<lambda>x. uint ((map word_of_nat (month_lens y) :: u8 list) ! x)) [0..<m] = map int (take m (month_lens y))"
    using assms by (auto simp: uint_nat unat_u8_of_nat month_lens_less_256 simp del: of_nat_unat intro!: nth_equalityI)
  then show ?thesis
    unfolding foldl_add_sum by (simp add: days_before_month_def sum_list_map_int)
qed

lemma to_unix_eval:
  "nk_datetime_to_unix dt = (if valid_datetime dt then int (unix_seconds dt) else -1)"
proof -
  let ?y = "unat (dt_year dt)" and ?m = "unat (dt_month dt)"
  have tab: "(if isleapyear (uint (dt_year dt)) then dpmleap else dpm) = map word_of_nat (month_lens ?y)"
    using dpm_month_lens [of ?y] by (simp add: uint_nat isleapyear_leap del: of_nat_unat)
  have nth: "\<not> 11 < dt_month dt \<Longrightarrow>
     unat ((map word_of_nat (month_lens ?y) :: u8 list) ! ?m) = month_lens ?y ! ?m"
    by (simp add: word_less_nat_alt unat_u8_of_nat month_lens_less_256)
  show ?thesis
  proof (cases "dt_month dt > 11")
    case True
    then show ?thesis by (auto simp: nk_datetime_to_unix_def valid_datetime_def Let_def word_less_nat_alt)
  next
    case False
    then have m: "?m < 12" by (simp add: word_less_nat_alt)
    show ?thesis
      unfolding nk_datetime_to_unix_def Let_def tab foldl_year_seconds foldl_month_seconds [OF m]
      using m nth [OF False]
      by (auto simp: valid_datetime_def word_le_nat_alt word_less_nat_alt unix_seconds_def
          day_number_def SPD_def uint_nat simp del: of_nat_unat)
  qed
qed

subsection \<open>The search loops\<close>

lemma year_loop_finds:
  assumes "y0 \<le> y" "1970 \<le> y0" "d < year_len y"
  shows "unix_year_loop (int (days_before_year y + d) - int (days_before_year y0)) (int y0) = (int d, int y)"
  using assms(1,2)
proof (induction "y - y0" arbitrary: y0)
  case 0
  then have "y0 = y" by simp
  then show ?case
    using assms(3) by (subst unix_year_loop.simps) (simp add: isleapyear_leap year_len_def split: if_splits)
next
  case (Suc k)
  then have "y0 < y" by simp
  have "days_before_year (Suc y0) \<le> days_before_year y"
  proof -
    have "days_before_year y = days_before_year (Suc y0) + sum_list (map year_len [Suc y0..<y])"
      using \<open>y0 < y\<close> Suc.prems(2) upt_add_eq_append [of 1970 "Suc y0" "y - Suc y0"]
      by (simp add: days_before_year_def)
    then show ?thesis by simp
  qed
  then have big: "int (year_len y0) \<le> int (days_before_year y + d) - int (days_before_year y0)"
    using days_before_year_Suc [of y0] Suc.prems(2) by simp
  have "unix_year_loop (int (days_before_year y + d) - int (days_before_year (Suc y0))) (int (Suc y0)) = (int d, int y)"
    using Suc.hyps(1) [of "Suc y0"] Suc.hyps(2) Suc.prems \<open>y0 < y\<close> by simp
  then show ?case
    using big days_before_year_Suc [of y0] Suc.prems(2)
    by (subst unix_year_loop.simps)
      (simp add: isleapyear_leap year_len_def algebra_simps split: if_splits)
qed

lemma month_loop_finds:
  assumes "m < length ns" "d < ns ! m" "\<forall>n\<in>set ns. n < 256"
  shows "unix_month_loop (map word_of_nat ns) (int (sum_list (take m ns) + d)) k = Some (int d, k + int m)"
  using assms
proof (induction ns arbitrary: m k)
  case (Cons n ns)
  have n: "uint (word_of_nat n :: u8) = int n"
    using Cons.prems(3) by (simp add: uint_nat unat_u8_of_nat del: of_nat_unat)
  show ?case
  proof (cases m)
    case 0
    then show ?thesis using Cons.prems n by simp
  next
    case (Suc m')
    then show ?thesis using Cons.prems n Cons.IH [of m' "k + 1"] by simp
  qed
qed simp

lemma list_position:
  "d < sum_list ns \<Longrightarrow> \<exists>m<length ns. \<exists>e<ns ! m. d = sum_list (take m ns) + (e :: nat)"
proof (induction ns arbitrary: d)
  case (Cons n ns)
  show ?case
  proof (cases "d < n")
    case True
    then show ?thesis by (intro exI [of _ 0]) simp
  next
    case False
    then have "d - n < sum_list ns" using Cons.prems by simp
    from Cons.IH [OF this] obtain m e where "m < length ns" "e < ns ! m" "d - n = sum_list (take m ns) + e"
      by blast
    then show ?thesis using False by (intro exI [of _ "Suc m"]) (auto intro!: exI [of _ e])
  qed
qed simp

lemma year_position: "\<exists>y\<ge>1970. \<exists>e<year_len y. n = days_before_year y + e"
proof (induction n)
  case 0
  show ?case by (intro exI [of _ 1970]) (simp add: year_len_def)
next
  case (Suc n)
  then obtain y e where y: "1970 \<le> y" "e < year_len y" "n = days_before_year y + e" by blast
  show ?case
  proof (cases "Suc e < year_len y")
    case True
    then show ?thesis using y by (intro exI [of _ y]) (auto intro!: exI [of _ "Suc e"])
  next
    case False
    then show ?thesis using y year_len_gt0 [of "Suc y"] days_before_year_Suc [of y]
      by (intro exI [of _ "Suc y"]) (auto intro!: exI [of _ 0])
  qed
qed

lemma date_position:
  "\<exists>y\<ge>1970. \<exists>m<12. \<exists>d<month_lens y ! m. n = day_number y m d"
proof -
  obtain y e where y: "1970 \<le> y" "e < year_len y" "n = days_before_year y + e"
    using year_position by blast
  from list_position [of e "month_lens y"] y(2) obtain m d
    where "m < 12" "d < month_lens y ! m" "e = sum_list (take m (month_lens y)) + d"
    by (auto simp: sum_month_lens)
  with y show ?thesis
    unfolding day_number_def days_before_month_def
    by (intro exI [of _ y] conjI exI [of _ m] exI [of _ d]) simp_all
qed

subsection \<open>The day of the week\<close>

definition leaps_before :: "nat \<Rightarrow> int" where
  "leaps_before y = (int y - 1) div 4 - (int y - 1) div 100 + (int y - 1) div 400"

lemma div_pred_step:
  assumes "0 < k"
  shows "int y div int k = (int y - 1) div int k + (if k dvd y then 1 else 0)"
proof -
  have "int y - 1 = int y mod int k - 1 + int k * (int y div int k)" by simp
  then have "(int y - 1) div int k = (int y mod int k - 1) div int k + int y div int k"
    using assms by (metis div_mult_self2 of_nat_0_less_iff less_numeral_extra(3) add.commute)
  moreover have "(int y mod int k - 1) div int k = (if k dvd y then -1 else 0)"
  proof (cases "k dvd y")
    case True
    then have "int y mod int k = 0" by simp
    then show ?thesis using True assms by (simp add: div_eq_minus1)
  next
    case False
    then have "0 < y mod k" by (simp add: mod_greater_zero_iff_not_dvd)
    then have "0 \<le> int y mod int k - 1" "int y mod int k - 1 < int k"
      using assms mod_less_divisor [of k y] by (simp_all add: zmod_int [symmetric] del: mod_less_divisor)
    then show ?thesis using False by (simp add: div_pos_pos_trivial)
  qed
  ultimately show ?thesis by simp
qed

lemma leaps_before_Suc: "leaps_before (Suc y) = leaps_before y + (if leap y then 1 else 0)"
proof -
  have steps: "int y div 4 = (int y - 1) div 4 + (if 4 dvd y then 1 else 0)"
      "int y div 100 = (int y - 1) div 100 + (if 100 dvd y then 1 else 0)"
      "int y div 400 = (int y - 1) div 400 + (if 400 dvd y then 1 else 0)"
    using div_pred_step [of 4 y] div_pred_step [of 100 y] div_pred_step [of 400 y] by simp_all
  have "400 dvd y \<longrightarrow> 100 dvd y" "100 dvd y \<longrightarrow> 4 dvd y"
    using dvd_trans [of 100 400 y] dvd_trans [of 4 100 y] by auto
  then have "(if leap y then 1 else 0 :: int) = (if 4 dvd y then 1 else 0) - (if 100 dvd y then 1 else 0)
      + (if 400 dvd y then 1 else 0)"
    unfolding leap_def by (cases "400 dvd y"; cases "100 dvd y"; cases "4 dvd y") simp_all
  then show ?thesis
    unfolding leaps_before_def of_nat_Suc add_diff_cancel_left' steps by linarith
qed

lemma days_before_year_closed:
  "1970 \<le> y \<Longrightarrow> int (days_before_year y) = 365 * (int y - 1) + leaps_before y - 719162"
proof (induction y rule: nat_induct_at_least)
  case base
  then show ?case by (simp add: leaps_before_def)
next
  case (Suc y)
  then show ?case by (simp add: days_before_year_Suc leaps_before_Suc year_len_def)
qed

lemma sdiv_div_positive: "0 \<le> a \<Longrightarrow> 0 < b \<Longrightarrow> a sdiv b = a div (b :: int)"
  by (simp add: signed_divide_int_def sgn_if)

lemma month_cases:
  assumes "m < (12 :: nat)"
  obtains "m = 0" | "m = 1" | "m = 2" | "m = 3" | "m = 4" | "m = 5" | "m = 6" | "m = 7" | "m = 8" | "m = 9"
    | "m = 10" | "m = 11"
proof -
  have "m = 0 \<or> m = 1 \<or> m = 2 \<or> m = 3 \<or> m = 4 \<or> m = 5 \<or> m = 6 \<or> m = 7 \<or> m = 8 \<or> m = 9 \<or> m = 10 \<or> m = 11"
    using assms by presburger
  then show ?thesis using that by blast
qed

lemma days_before_month_eval:
  "m < 12 \<Longrightarrow> int (days_before_month y m)
     = [0, 31, 59, 90, 120, 151, 181, 212, 243, 273, 304, 334] ! m + (if m < 2 then 0 else if leap y then 1 else 0)"
  by (erule month_cases) (simp_all add: days_before_month_def month_lens_def)

lemma day_of_week_mod:
  assumes "1970 \<le> y" "m < 12"
  shows "(int y - (if m < 2 then 1 else 0) + (leaps_before y + (if m < 2 then 0 else if leap y then 1 else 0))
      + [0, 3, 2, 5, 0, 3, 5, 1, 4, 6, 2, 4] ! m + (int d + 1)) mod 7 = int ((day_number y m d + 4) mod 7)"
proof -
  define l where "l = leaps_before y + (if m < 2 then 0 else if leap y then 1 else 0)"
  have "int (day_number y m d + 4) = 365 * (int y - 1) + l - 719162
      + [0, 31, 59, 90, 120, 151, 181, 212, 243, 273, 304, 334] ! m + int d + 4"
    unfolding day_number_def l_def using days_before_year_closed [OF assms(1)] days_before_month_eval [OF assms(2)]
    by simp
  moreover have "int y - (if m < 2 then 1 else 0) + l + [0, 3, 2, 5, 0, 3, 5, 1, 4, 6, 2, 4] ! m + (int d + 1)
     = 365 * (int y - 1) + l - 719162 + [0, 31, 59, 90, 120, 151, 181, 212, 243, 273, 304, 334] ! m + int d + 4
       + ([102789, 102785, 102781, 102777, 102772, 102768, 102764, 102759, 102755, 102751, 102746, 102742] ! m - 52 * int y) * 7"
    using assms(2) by (rule month_cases) simp_all
  ultimately show ?thesis unfolding l_def [symmetric] zmod_int by (simp only: mod_mult_self1 of_nat_numeral)
qed

lemma day_of_week_eval:
  assumes "1970 \<le> y" "m < 12"
  shows "nk_calc_day_of_week (int y) (int m) (int d) = Some (int ((day_number y m d + 4) mod 7))"
proof -
  let ?z = "int y - (if m < 2 then 1 else 0)"
  let ?l = "?z div 4 - ?z div 100 + ?z div 400"
  have l: "?l = leaps_before y + (if m < 2 then 0 else if leap y then 1 else 0)"
    using leaps_before_Suc [of y] by (simp add: leaps_before_def)
  have z: "0 \<le> ?z" "?z div 100 \<le> ?z" "0 \<le> ?z div 4" "0 \<le> ?z div 400"
    using assms(1) by auto
  have t: "0 \<le> ([0, 3, 2, 5, 0, 3, 5, 1, 4, 6, 2, 4] :: int list) ! m"
    using nth_mem [of m "[0, 3, 2, 5, 0, 3, 5, 1, 4, 6, 2, 4] :: int list"] assms(2) by (auto simp del: nth_mem)
  have "nk_calc_day_of_week (int y) (int m) (int d)
     = Some ((?z + ?z div 4 - ?z div 100 + ?z div 400 + [0, 3, 2, 5, 0, 3, 5, 1, 4, 6, 2, 4] ! m + (int d + 1)) smod 7)"
    using assms z(1) by (simp add: nk_calc_day_of_week_def sdiv_div_positive Let_def)
  also have "\<dots> = Some ((?z + ?l + [0, 3, 2, 5, 0, 3, 5, 1, 4, 6, 2, 4] ! m + (int d + 1)) mod 7)"
    using z t by (subst smod_mod_positive) (simp_all add: algebra_simps)
  finally show ?thesis unfolding l day_of_week_mod [OF assms] .
qed

section \<open>Seconds to date\<close>

lemma int32_id: "-2147483648 \<le> x \<Longrightarrow> x < 2147483648 \<Longrightarrow> int32 x = x"
  by (simp add: int32_def sint_uint unsigned_of_int signed_take_bit_take_bit signed_take_bit_int_eq_self)

lemma int32_diff: "int32 (a - int32 b) = int32 (a - b)"
  unfolding int32_def by (simp flip: wi_hom_sub)

lemma days_before_year_bound: "1970 \<le> y \<Longrightarrow> days_before_year y \<le> 366 * y"
proof (induction y rule: nat_induct_at_least)
  case (Suc y)
  then show ?case using year_len_gt0(2) [of y] by (simp add: days_before_year_Suc)
qed simp

lemma unix_to_datetime_eval:
  assumes "1970 \<le> y" "y < 65536" "m < 12" "d < month_lens y ! m" "h < 24" "mi < 60" "s < 60"
  shows "nk_unix_to_datetime (int (day_number y m d * 86400 + h * 3600 + mi * 60 + s)) dt =
    Some (0, dt\<lparr>dt_year := word_of_nat y, dt_month := word_of_nat m, dt_day := word_of_nat d,
      dt_weekday := word_of_nat ((day_number y m d + 4) mod 7), dt_hour := word_of_nat h,
      dt_min := word_of_nat mi, dt_sec := word_of_nat s\<rparr>)"
proof -
  let ?n = "day_number y m d" and ?r = "h * 3600 + mi * 60 + s"
  let ?t = "int (?n * 86400 + h * 3600 + mi * 60 + s)"
  have r: "?r < 86400" using assms(5-7) by linarith
  have e: "sum_list (take m (month_lens y)) + d < year_len y"
  proof -
    have "sum_list (month_lens y) = sum_list (take m (month_lens y)) + sum_list (drop m (month_lens y))"
      by (metis append_take_drop_id sum_list.append)
    also have "drop m (month_lens y) = month_lens y ! m # drop (Suc m) (month_lens y)"
      using assms(3) by (simp add: Cons_nth_drop_Suc)
    finally show ?thesis using assms(4) by (simp add: sum_month_lens)
  qed
  have "int ?n < 2147483648"
    using days_before_year_bound [OF assms(1)] assms(2) e year_len_gt0(2) [of y]
    unfolding day_number_def days_before_month_def by simp
  have days: "?t sdiv SPD = int ?n"
    using r by (subst sdiv_div_positive) (simp_all add: SPD_def)
  have days32: "int32 (int ?n) = int ?n"
    using \<open>int ?n < 2147483648\<close> by (simp add: int32_id)
  have sec: "int32 (?t - int32 (int ?n * SPD)) = int ?r"
    using r by (simp add: int32_diff SPD_def int32_id)
  have h: "int ?r sdiv 3600 = int h" using assms(6,7) by (subst sdiv_div_positive) simp_all
  have mi: "(int ?r - int h * 3600) sdiv 60 = int mi"
    using assms(7) by (subst sdiv_div_positive) simp_all
  have years: "unix_year_loop (int ?n) 1970 = (int (days_before_month y m + d), int y)"
    using year_loop_finds [OF assms(1) _ e] by (simp add: day_number_def days_before_month_def add.assoc)
  have months: "unix_month_loop (if isleapyear (int y) then dpmleap else dpm) (int (days_before_month y m + d)) 0
      = Some (int d, int m)"
    unfolding isleapyear_leap dpm_month_lens days_before_month_def
    using month_loop_finds [of m "month_lens y" d 0] assms(3,4)
    by (simp add: month_lens_def)
  have sec_of_min: "int ?r - int h * 3600 - int mi * 60 = int s" by simp
  have "\<not> ?t < 0" by simp
  then show ?thesis
    unfolding nk_unix_to_datetime_def Let_def days days32 sec h mi years split months sec_of_min
    by (simp add: months day_of_week_eval [OF assms(1,3)])
qed

text \<open>Number of the first second after the last year the 16-bit year field holds.\<close>

definition unix_end :: nat where
  "unix_end = days_before_year 65536 * 86400"

lemma days_before_year_mono: "1970 \<le> y \<Longrightarrow> y \<le> z \<Longrightarrow> days_before_year y \<le> days_before_year z"
  by (rotate_tac 1, induction z rule: dec_induct) (simp_all add: days_before_year_Suc)

lemma seconds_position:
  assumes "t < unix_end"
  obtains y m d h mi s where "1970 \<le> y" "y < 65536" "m < 12" "d < month_lens y ! m" "h < 24" "mi < 60" "s < 60"
    "t = day_number y m d * 86400 + h * 3600 + mi * 60 + s"
proof -
  obtain y m d where ymd: "1970 \<le> y" "m < 12" "d < month_lens y ! m" "t div 86400 = day_number y m d"
    using date_position by blast
  have "y < 65536"
  proof (rule ccontr)
    assume "\<not> y < 65536"
    then have "days_before_year 65536 \<le> t div 86400"
      using days_before_year_mono [of 65536 y] ymd(4) by (simp add: day_number_def)
    then have "unix_end \<le> t" unfolding unix_end_def by (simp add: less_eq_div_iff_mult_less_eq)
    then show False using assms by simp
  qed
  moreover have "t = t div 86400 * 86400 + t mod 86400 div 3600 * 3600 + t mod 3600 div 60 * 60 + t mod 60"
  proof -
    have "t mod 86400 mod 3600 = t mod 3600" "t mod 3600 mod 60 = t mod 60"
      by (simp_all add: mod_mod_cancel)
    then show ?thesis
      using div_mult_mod_eq [of t 86400] div_mult_mod_eq [of "t mod 86400" 3600] div_mult_mod_eq [of "t mod 3600" 60]
      by linarith
  qed
  ultimately show ?thesis
    using that [of y m d "t mod 86400 div 3600" "t mod 3600 div 60" "t mod 60"] ymd by simp
qed

section \<open>The sanity check\<close>

text \<open>Each conditional assignment of the source is an unconditional one of a conditional value.\<close>

lemma if_field_updates:
  "(if c then dt\<lparr>dt_min := a\<rparr> else dt) = dt\<lparr>dt_min := if c then a else dt_min dt\<rparr>"
  "(if c then dt\<lparr>dt_hour := a\<rparr> else dt) = dt\<lparr>dt_hour := if c then a else dt_hour dt\<rparr>"
  "(if c then dt\<lparr>dt_weekday := a\<rparr> else dt) = dt\<lparr>dt_weekday := if c then a else dt_weekday dt\<rparr>"
  "(if c then dt\<lparr>dt_day := a\<rparr> else dt) = dt\<lparr>dt_day := if c then a else dt_day dt\<rparr>"
  "(if c then dt\<lparr>dt_month := a\<rparr> else dt) = dt\<lparr>dt_month := if c then a else dt_month dt\<rparr>"
  "(if c then dt\<lparr>dt_year := b\<rparr> else dt) = dt\<lparr>dt_year := if c then b else dt_year dt\<rparr>"
  for dt :: nkdatetime
  by simp_all

lemma if_pair: "(if c then (a, b) else (a', b')) = (if c then a else a', if c then b else b')"
  by simp

lemma datetime_sanity_eval:
  "nk_datetime_sanity dt =
     (if dt_sec dt \<le> 59 \<and> dt_min dt \<le> 59 \<and> dt_hour dt \<le> 23 \<and> dt_weekday dt \<le> 6 \<and> dt_day dt \<le> 30
        \<and> dt_month dt \<le> 11 \<and> dt_year dt \<le> 2199 then 0 else -1,
      dt\<lparr>dt_min := if dt_sec dt > 59 \<or> dt_min dt > 59 then 0 else dt_min dt,
         dt_hour := if dt_hour dt > 23 then 0 else dt_hour dt,
         dt_weekday := if dt_weekday dt > 6 then 0 else dt_weekday dt,
         dt_day := if dt_day dt > 30 then 0 else dt_day dt,
         dt_month := if dt_month dt > 11 then 0 else dt_month dt,
         dt_year := if dt_year dt < 2000 \<or> dt_year dt > 2199 then 2000 else dt_year dt\<rparr>)"
proof -
  have conds: "(59 < (if 59 < dt_sec dt then 0 else dt_min dt)) = (\<not> 59 < dt_sec dt \<and> 59 < dt_min dt)"
      "(2199 < (if dt_year dt < 2000 then 2000 else dt_year dt)) = (2199 < dt_year dt)"
    by (auto simp: word_less_nat_alt)
  have vals: "(if \<not> 59 < dt_sec dt \<and> 59 < dt_min dt then 0 else if 59 < dt_sec dt then 0 else dt_min dt)
       = (if dt_sec dt > 59 \<or> dt_min dt > 59 then 0 else dt_min dt)"
      "(if 2199 < dt_year dt then 2000 else if dt_year dt < 2000 then 2000 else dt_year dt)
       = (if dt_year dt < 2000 \<or> dt_year dt > 2199 then 2000 else dt_year dt)"
    by auto
  show ?thesis
    unfolding nk_datetime_sanity_def Let_def if_pair if_field_updates split
    by (simp add: conds vals split del: if_split cong: if_cong) (auto simp: not_less not_le)
qed

section \<open>Properties\<close>

text \<open>Converting a date to seconds is total and exact: a record that names a date from
  1970 on (months and days counted from 0) gives the number of seconds of all the years, months and days
  before it, with the Gregorian leap years, plus its time of day; every other record, whichever
  field is out of range, gives \<open>-1\<close>.\<close>

theorem datetime_to_unix_exact:
  "nk_datetime_to_unix dt = (if valid_datetime dt then int (unix_seconds dt) else -1)"
  by (rule to_unix_eval)





text \<open>The sanity check leaves minute, hour, weekday, day, month and year in range
  whatever they were and keeps legal values, so the minute of the week it leads to is one of the 10080 of a week;
  but it never changes the seconds: an illegal second is reported with \<open>-1\<close>, stays in the record,
  and clears the minutes instead.\<close>

theorem datetime_sanity_ranges:
  "case nk_datetime_sanity dt of (r, dt') \<Rightarrow>
     dt_min dt' \<le> 59 \<and> dt_hour dt' \<le> 23 \<and> dt_weekday dt' \<le> 6 \<and> dt_day dt' \<le> 30 \<and> dt_month dt' \<le> 11
     \<and> 2000 \<le> dt_year dt' \<and> dt_year dt' \<le> 2199
     \<and> 0 \<le> nk_calc_minute_of_week dt' \<and> nk_calc_minute_of_week dt' < 10080
     \<and> dt_sec dt' = dt_sec dt
     \<and> (if dt_sec dt > 59 then r = -1 \<and> dt_min dt' = 0
        else r = (if dt_min dt \<le> 59 \<and> dt_hour dt \<le> 23 \<and> dt_weekday dt \<le> 6 \<and> dt_day dt \<le> 30 \<and> dt_month dt \<le> 11
                    \<and> dt_year dt \<le> 2199 then 0 else -1))
     \<and> (r = 0 \<and> dt' = dt\<lparr>dt_year := max 2000 (dt_year dt)\<rparr> \<or> r = -1)"
proof -
  let ?dt = "snd (nk_datetime_sanity dt)"
  have "dt_min ?dt \<le> 59" "dt_hour ?dt \<le> 23" "dt_weekday ?dt \<le> 6"
    by (simp_all add: datetime_sanity_eval not_less)
  then have "0 \<le> nk_calc_minute_of_week ?dt" "nk_calc_minute_of_week ?dt < 10080"
    by (simp_all add: nk_calc_minute_of_week_def word_le_def)
  moreover have "dt_day ?dt \<le> 30" "dt_month ?dt \<le> 11" "2000 \<le> dt_year ?dt" "dt_year ?dt \<le> 2199" "dt_sec ?dt = dt_sec dt"
    by (simp_all add: datetime_sanity_eval not_less)
  moreover have "if dt_sec dt > 59 then fst (nk_datetime_sanity dt) = -1 \<and> dt_min ?dt = 0
     else fst (nk_datetime_sanity dt) = (if dt_min dt \<le> 59 \<and> dt_hour dt \<le> 23 \<and> dt_weekday dt \<le> 6
        \<and> dt_day dt \<le> 30 \<and> dt_month dt \<le> 11 \<and> dt_year dt \<le> 2199 then 0 else -1)"
    by (simp add: datetime_sanity_eval not_less)
  moreover have "fst (nk_datetime_sanity dt) = 0 \<and> ?dt = dt\<lparr>dt_year := max 2000 (dt_year dt)\<rparr>
      \<or> fst (nk_datetime_sanity dt) = -1"
  proof (cases "fst (nk_datetime_sanity dt) = 0")
    case True
    then have "\<not> dt_sec dt > 59" "\<not> dt_min dt > 59" "\<not> dt_hour dt > 23" "\<not> dt_weekday dt > 6"
        "\<not> dt_day dt > 30" "\<not> dt_month dt > 11" "\<not> dt_year dt > 2199"
      by (simp_all add: datetime_sanity_eval not_less split: if_splits)
    then show ?thesis using True by (simp add: datetime_sanity_eval max_def not_le)
  qed (auto simp: datetime_sanity_eval split: if_splits)
  ultimately show ?thesis
    using \<open>dt_min ?dt \<le> 59\<close> \<open>dt_hour ?dt \<le> 23\<close> \<open>dt_weekday ?dt \<le> 6\<close>
    unfolding prod.case_eq_if by blast
qed

end
