(* ===== verification/Outfile.thy ===== *)
theory Outfile
  imports Prelude
begin

text \<open>
  Buffered output, \<^verbatim>\<open>libnklabs/src/nkoutfile.c\<close> and \<^verbatim>\<open>libnklabs/inc/nkoutfile.h\<close>. An output file has a
  buffer and an optional \<open>block_write\<close> callback, which it calls with a run of bytes when the buffer
  is full or flushed. The callback and the object behind \<open>block_write_ptr\<close> are a function
  \<open>'s \<Rightarrow> bytes \<Rightarrow> (int \<times> 's) option\<close> (\<open>None\<close> when the
  callback does not return) and a state \<open>'s\<close> kept in the record. The locale \<open>block_sink\<close> is what
  an output file relies on in its callback; its lemmas show that what is put into the file
  arrives there complete and in order.
\<close>

section \<open>State and operations\<close>

text \<open>\<open>start\<close>, \<open>ptr\<close> and \<open>end\<close> point into one buffer: \<open>o_buffer\<close> is the memory at \<open>start\<close>,
  \<open>o_ptr\<close> and \<open>o_end\<close> are offsets from it.\<close>

record 's nkoutfile =
  o_ptr :: u32
  o_buffer :: bytes
  o_end :: u32
  o_size :: u32
  o_block_write_ptr :: 's
  o_block_write :: "('s \<Rightarrow> bytes \<Rightarrow> (int \<times> 's) option) option"
  o_granularity :: u32

definition nkoutfile_open ::
  "('s \<Rightarrow> bytes \<Rightarrow> (int \<times> 's) option) option \<Rightarrow> 's \<Rightarrow> bytes \<Rightarrow> u32 \<Rightarrow> u32 \<Rightarrow> 's nkoutfile" where
  "nkoutfile_open block_write block_write_ptr buffer len granularity =
     \<lparr>o_ptr = 0, o_buffer = buffer, o_end = 0 + len, o_size = len, o_block_write_ptr = block_write_ptr,
      o_block_write = block_write, o_granularity = granularity\<rparr>"

definition nk_fflush :: "'s nkoutfile \<Rightarrow> (int \<times> 's nkoutfile) option" where
  "nk_fflush f =
     (let len = o_ptr f - 0;
          f = f\<lparr>o_ptr := 0\<rparr>;
          len = (len + (o_granularity f - 1)) AND NOT (o_granularity f - 1)
      in do {
        (rtn, f) \<leftarrow> (case o_block_write f of
            Some block_write \<Rightarrow> do {
              data \<leftarrow> load_from (o_buffer f) 0 (unat len);
              (rtn, s) \<leftarrow> block_write (o_block_write_ptr f) data;
              Some (rtn, f\<lparr>o_block_write_ptr := s\<rparr>)
            }
          | None \<Rightarrow> Some (-1, f));
        let f = (if rtn = 0 then f\<lparr>o_ptr := 0\<rparr> else f);
        Some (rtn, f)
      })"

definition nkoutfile_open_mem :: "'s \<Rightarrow> bytes \<Rightarrow> u32 \<Rightarrow> 's nkoutfile" where
  "nkoutfile_open_mem null mem sz = nkoutfile_open None null mem sz 1"

text \<open>The assignment \<open>*f->ptr++ = c\<close>.\<close>

definition put_ptr :: "'s nkoutfile \<Rightarrow> int \<Rightarrow> 's nkoutfile option" where
  "put_ptr f c = do {
     buf \<leftarrow> store_at (o_buffer f) (unat (o_ptr f)) [word_of_int c];
     Some (f\<lparr>o_buffer := buf, o_ptr := o_ptr f + 1\<rparr>)
   }"

definition nk_flush_and_putc :: "'s nkoutfile \<Rightarrow> int \<Rightarrow> (int \<times> 's nkoutfile) option" where
  "nk_flush_and_putc f c =
     (if o_size f \<noteq> 0 then do {
        (rtn, f) \<leftarrow> nk_fflush f;
        if rtn = 0 then do { f \<leftarrow> put_ptr f c; Some (rtn, f) } else Some (rtn, f)
      }
      else case o_block_write f of
        Some block_write \<Rightarrow> do {
          data \<leftarrow> load_from [word_of_int c] 0 (unat (o_granularity f));
          (rtn, s) \<leftarrow> block_write (o_block_write_ptr f) data;
          Some (rtn, f\<lparr>o_block_write_ptr := s\<rparr>)
        }
      | None \<Rightarrow> Some (-1, f))"

definition nk_fputc :: "'s nkoutfile \<Rightarrow> int \<Rightarrow> (int \<times> 's nkoutfile) option" where
  "nk_fputc f c =
     (if o_ptr f = o_end f then nk_flush_and_putc f c
      else do { f \<leftarrow> put_ptr f c; Some (0, f) })"


text \<open>Callers put characters one after the other and collect the status with \<open>status |= nk_fputc(f, c)\<close>.\<close>

fun put_all :: "int \<Rightarrow> 's nkoutfile \<Rightarrow> int list \<Rightarrow> (int \<times> 's nkoutfile) option" where
  "put_all status f [] = Some (status, f)"
| "put_all status f (c # cs) = do {
     (rtn, f) \<leftarrow> nk_fputc f c;
     put_all (status OR rtn) f cs
   }"

section \<open>Well-formed output files\<close>

definition outfile_ok :: "'s nkoutfile \<Rightarrow> bool" where
  "outfile_ok f \<longleftrightarrow> o_end f = o_size f \<and> unat (o_size f) \<le> length (o_buffer f)
     \<and> unat (o_ptr f) \<le> unat (o_size f) \<and> unat (o_size f) < 2 ^ 31
     \<and> 0 < unat (o_size f) \<and> pow2 (o_granularity f) \<and> unat (o_granularity f) dvd unat (o_size f)"

text \<open>The bytes waiting in the buffer.\<close>

definition pending :: "'s nkoutfile \<Rightarrow> bytes" where
  "pending f = take (unat (o_ptr f)) (o_buffer f)"

definition roundup :: "nat \<Rightarrow> nat \<Rightarrow> nat" where
  "roundup g n = (n + (g - 1)) div g * g"

lemma roundup_add_multiple:
  assumes "0 < g" "g dvd m"
  shows "roundup g (m + n) = m + roundup g n"
proof -
  obtain k where m: "m = k * g" using assms(2) by (metis dvdE mult.commute)
  have "(m + n + (g - 1)) div g = k + (n + (g - 1)) div g"
    unfolding m add.assoc using assms(1) by (metis add.commute div_mult_self1 less_numeral_extra(3))
  then show ?thesis unfolding roundup_def by (simp add: m add_mult_distrib)
qed

lemma roundup_multiple: "0 < g \<Longrightarrow> g dvd n \<Longrightarrow> roundup g n = n"
  using roundup_add_multiple [of g n 0] by (simp add: roundup_def)

lemma roundup_mono: "n \<le> m \<Longrightarrow> roundup g n \<le> roundup g m"
  by (simp add: roundup_def div_le_mono)

lemma roundup_ge: "0 < g \<Longrightarrow> n \<le> roundup g n"
proof -
  assume "0 < g"
  have "n + (g - 1) = (n + (g - 1)) div g * g + (n + (g - 1)) mod g" by simp
  moreover have "(n + (g - 1)) mod g \<le> g - 1" using \<open>0 < g\<close> by (metis Suc_pred' less_Suc_eq_le mod_less_divisor)
  ultimately show ?thesis unfolding roundup_def by linarith
qed

lemma roundup_le: "0 < g \<Longrightarrow> g dvd m \<Longrightarrow> n \<le> m \<Longrightarrow> roundup g n \<le> m"
  by (metis roundup_mono roundup_multiple)

lemma roundup_less: "0 < g \<Longrightarrow> roundup g n - n < g"
proof -
  assume "0 < g"
  have "roundup g n \<le> n + (g - 1)" by (simp add: roundup_def)
  then show ?thesis using \<open>0 < g\<close> by linarith
qed

lemma roundup_0 [simp]: "roundup g 0 = 0"
  by (cases "g = 0") (simp_all add: roundup_def)

lemma roundup_1 [simp]: "roundup (Suc 0) n = n"
  by (simp add: roundup_def)

lemma length_pending: "outfile_ok f \<Longrightarrow> length (pending f) = unat (o_ptr f)"
  by (simp add: pending_def outfile_ok_def)

text \<open>The length the flush passes to its callback, in natural numbers.\<close>

lemma flush_length:
  assumes "outfile_ok f"
  shows "unat ((o_ptr f + (o_granularity f - 1)) AND NOT (o_granularity f - 1))
     = roundup (unat (o_granularity f)) (unat (o_ptr f))"
proof -
  have g: "pow2 (o_granularity f)" "unat (o_granularity f) \<le> unat (o_size f)"
    using assms by (auto simp: outfile_ok_def dvd_imp_le)
  have "unat (o_granularity f - 1) = unat (o_granularity f) - 1"
    using pow2_pos [OF g(1)] by (simp add: unat_sub_no_wrap)
  moreover have "unat (o_ptr f) + (unat (o_granularity f) - 1) < 2 ^ 32"
  proof -
    have "unat (o_ptr f) \<le> unat (o_size f)" "unat (o_size f) < 2 ^ 31"
      using assms by (simp_all add: outfile_ok_def)
    then show ?thesis using g(2) by simp
  qed
  ultimately show ?thesis
    using g(1) by (simp add: word_nat_simps roundup_def)
qed

lemma put_ptr_ok:
  assumes "outfile_ok f" "o_ptr f \<noteq> o_end f"
  obtains f' where "put_ptr f c = Some f'" "outfile_ok f'" "pending f' = pending f @ [word_of_int c]"
    "o_block_write f' = o_block_write f" "o_block_write_ptr f' = o_block_write_ptr f"
    "o_granularity f' = o_granularity f" "o_size f' = o_size f" "unat (o_ptr f') = Suc (unat (o_ptr f))"
proof -
  have lt: "unat (o_ptr f) < unat (o_size f)"
    using assms by (metis outfile_ok_def le_neq_implies_less word_unat_eq_iff)
  moreover have "unat (o_size f) < 2 ^ 31" "unat (o_size f) \<le> length (o_buffer f)"
    using assms(1) by (simp_all add: outfile_ok_def)
  moreover have "unat (o_ptr f + 1) = Suc (unat (o_ptr f))"
    using lt by (rule unat_plus_1_less)
  ultimately show ?thesis
    using assms(1) that
    by (simp add: put_ptr_def buf_simps outfile_ok_def pending_def take_Suc_conv_app_nth)
qed

section \<open>The sink behind an output file\<close>

text \<open>What the callback promises: while the sink is ready for the bytes it is given, it takes all of
  them, appends them to what it was given before, and stays ready for the rest.\<close>

locale block_sink =
  fixes block_write :: "'s \<Rightarrow> bytes \<Rightarrow> (int \<times> 's) option"
    and written :: "'s \<Rightarrow> bytes"
    and ready :: "'s \<Rightarrow> nat \<Rightarrow> bool"
  assumes sink_write: "ready s (length bs + n) \<Longrightarrow>
      \<exists>s'. block_write s bs = Some (0, s') \<and> written s' = written s @ bs \<and> ready s' n"
    and sink_less: "ready s n \<Longrightarrow> m \<le> n \<Longrightarrow> ready s m"
begin

text \<open>The file with room for \<open>n\<close> more bytes, and the bytes put into it so far.\<close>

definition open_for :: "'s nkoutfile \<Rightarrow> nat \<Rightarrow> bool" where
  "open_for f n \<longleftrightarrow> outfile_ok f \<and> o_block_write f = Some block_write
     \<and> ready (o_block_write_ptr f) (roundup (unat (o_granularity f)) (unat (o_ptr f) + n))"

definition contents :: "'s nkoutfile \<Rightarrow> bytes" where
  "contents f = written (o_block_write_ptr f) @ pending f"

lemma fflush_delivers:
  assumes "open_for f n" "unat (o_granularity f) dvd unat (o_ptr f) \<or> n = 0"
  obtains f' pad where "nk_fflush f = Some (0, f')" "outfile_ok f'" "o_block_write f' = Some block_write"
    "o_ptr f' = 0" "o_granularity f' = o_granularity f" "o_size f' = o_size f"
    "ready (o_block_write_ptr f') (roundup (unat (o_granularity f)) n)"
    "written (o_block_write_ptr f') = contents f @ pad"
    "length pad = roundup (unat (o_granularity f)) (unat (o_ptr f)) - unat (o_ptr f)"
proof -
  let ?g = "unat (o_granularity f)" and ?p = "unat (o_ptr f)"
  have ok: "outfile_ok f" and w: "o_block_write f = Some block_write"
    and r: "ready (o_block_write_ptr f) (roundup ?g (?p + n))"
    using assms(1) by (simp_all add: open_for_def)
  have g: "0 < ?g" "?g dvd unat (o_size f)" "?p \<le> unat (o_size f)" "unat (o_size f) \<le> length (o_buffer f)"
    using ok pow2_pos by (auto simp: outfile_ok_def)
  have len: "roundup ?g ?p \<le> length (o_buffer f)" "?p \<le> roundup ?g ?p"
    using roundup_le [OF g(1,2,3)] g(4) roundup_ge [OF g(1)] by auto
  define data where "data = take (roundup ?g ?p) (o_buffer f)"
  have data: "data = pending f @ drop ?p data"
    using len append_take_drop_id [of ?p data] by (simp add: data_def pending_def min_def)
  have "roundup ?g (?p + n) = length data + roundup ?g n"
    using assms(2) len g by (auto simp: data_def roundup_add_multiple roundup_multiple)
  then obtain s' where s': "block_write (o_block_write_ptr f) data = Some (0, s')"
      "written s' = written (o_block_write_ptr f) @ data" "ready s' (roundup ?g n)"
    using sink_write r by metis
  have "nk_fflush f = Some (0, f\<lparr>o_ptr := 0, o_block_write_ptr := s'\<rparr>)"
    unfolding nk_fflush_def Let_def using ok len s' w
    by (simp add: flush_length buf_simps data_def [symmetric])
  moreover have "outfile_ok (f\<lparr>o_ptr := 0, o_block_write_ptr := s'\<rparr>)"
    using ok by (simp add: outfile_ok_def)
  moreover have "length (drop ?p data) = roundup ?g ?p - ?p" using len by (simp add: data_def)
  moreover have "written s' = contents f @ drop ?p data"
    using data s'(2) by (simp add: contents_def)
  ultimately show ?thesis using that s' w by simp
qed

lemma fputc_appends:
  assumes "open_for f (Suc n)"
  obtains f' where "nk_fputc f c = Some (0, f')" "open_for f' n" "contents f' = contents f @ [word_of_int c]"
    "o_granularity f' = o_granularity f"
proof (cases "o_ptr f = o_end f")
  case False
  have ok: "outfile_ok f" using assms by (simp add: open_for_def)
  from put_ptr_ok [OF ok False] obtain f' where "put_ptr f c = Some f'" "outfile_ok f'"
    "pending f' = pending f @ [word_of_int c]" "o_block_write f' = o_block_write f"
    "o_block_write_ptr f' = o_block_write_ptr f" "o_granularity f' = o_granularity f"
    "unat (o_ptr f') = Suc (unat (o_ptr f))" by metis
  then show ?thesis
    using assms False that [of f'] by (simp add: nk_fputc_def open_for_def contents_def)
next
  case True
  have ok: "outfile_ok f" using assms by (simp add: open_for_def)
  then have size: "o_size f \<noteq> 0" "unat (o_granularity f) dvd unat (o_ptr f)"
    using True by (auto simp: outfile_ok_def)
  from fflush_delivers [OF assms disjI1 [OF size(2)]] obtain f1 pad where f1:
      "nk_fflush f = Some (0, f1)" "outfile_ok f1" "o_block_write f1 = Some block_write"
      "o_ptr f1 = 0" "o_granularity f1 = o_granularity f" "o_size f1 = o_size f"
      "ready (o_block_write_ptr f1) (roundup (unat (o_granularity f)) (Suc n))"
      "written (o_block_write_ptr f1) = contents f @ pad"
      "length pad = roundup (unat (o_granularity f)) (unat (o_ptr f)) - unat (o_ptr f)" by metis
  have "pad = []"
    using f1(9) size(2) ok pow2_pos [of "o_granularity f"] by (simp add: roundup_multiple outfile_ok_def)
  have "o_ptr f1 \<noteq> o_end f1" using f1(2,4,6) size(1) by (simp add: outfile_ok_def)
  from put_ptr_ok [OF f1(2) this] obtain f' where "put_ptr f1 c = Some f'" "outfile_ok f'"
    "pending f' = pending f1 @ [word_of_int c]" "o_block_write f' = o_block_write f1"
    "o_block_write_ptr f' = o_block_write_ptr f1" "o_granularity f' = o_granularity f1"
    "unat (o_ptr f') = Suc (unat (o_ptr f1))" by metis
  then show ?thesis
    using True size(1) f1 \<open>pad = []\<close> that [of f']
    by (simp add: nk_fputc_def nk_flush_and_putc_def open_for_def contents_def pending_def)
qed

lemma put_all_appends:
  "open_for f (length cs + n) \<Longrightarrow>
   \<exists>f'. put_all 0 f cs = Some (0, f') \<and> open_for f' n \<and> contents f' = contents f @ map word_of_int cs
     \<and> o_granularity f' = o_granularity f"
proof (induction cs arbitrary: f)
  case (Cons c cs)
  then have "open_for f (Suc (length cs + n))" by simp
  from fputc_appends [OF this, of c] obtain f1 where f1: "nk_fputc f c = Some (0, f1)" "open_for f1 (length cs + n)"
      "contents f1 = contents f @ [word_of_int c]" "o_granularity f1 = o_granularity f" by blast
  then show ?case using Cons.IH [OF f1(2)] by auto
qed simp

end

section \<open>Properties\<close>

text \<open>C19. Everything put into an output file reaches the sink behind it: for a buffer of any
  size that is a multiple of the write granularity, and any callback that takes what it is given, putting the
  characters one by one and flushing returns status 0, and the sink has received exactly those characters,
  in order, after what it had before, followed only by the padding that rounds the
  last block up to the granularity.\<close>

theorem outfile_delivers:
  assumes "block_sink bw written ready" "0 < unat len" "unat len < 2 ^ 31" "unat len \<le> length buf"
    and "pow2 g" "unat g dvd unat len" "ready s (roundup (unat g) (length cs))"
  shows "\<exists>f1 f2 pad. put_all 0 (nkoutfile_open (Some bw) s buf len g) cs = Some (0, f1)
    \<and> nk_fflush f1 = Some (0, f2) \<and> o_ptr f2 = 0
    \<and> written (o_block_write_ptr f2) = written s @ map word_of_int cs @ pad
    \<and> length pad < unat g"
proof -
  let ?f = "nkoutfile_open (Some bw) s buf len g"
  have sink: "block_sink bw written ready" by fact
  have ok: "block_sink.open_for bw ready ?f (length cs + 0)"
    unfolding block_sink.open_for_def [OF sink] using assms(2-7)
    by (simp add: nkoutfile_open_def outfile_ok_def)
  have start: "block_sink.contents written ?f = written s"
    by (simp add: block_sink.contents_def [OF sink] nkoutfile_open_def pending_def)
  have gran: "o_granularity ?f = g" by (simp add: nkoutfile_open_def)
  from block_sink.put_all_appends [OF sink ok] obtain f1 where f1: "put_all 0 ?f cs = Some (0, f1)"
      "block_sink.open_for bw ready f1 0" "block_sink.contents written f1 = written s @ map word_of_int cs"
      "o_granularity f1 = g"
    unfolding start gran by blast
  obtain f2 pad where f2: "nk_fflush f1 = Some (0, f2)" "o_ptr f2 = 0"
      "written (o_block_write_ptr f2) = block_sink.contents written f1 @ pad"
      "length pad = roundup (unat g) (unat (o_ptr f1)) - unat (o_ptr f1)"
    using block_sink.fflush_delivers [OF sink f1(2) disjI2 [OF refl]] f1(4) by metis
  have "length pad < unat g" using f2(4) roundup_less [OF pow2_pos [OF assms(5)]] by simp
  then show ?thesis using f1 f2 by auto
qed

theorem outfile_delivers_witness:
  "\<exists>f1 f2 pad. put_all 0 (nkoutfile_open (Some (\<lambda>s bs. Some (0, s @ bs))) [9] [0, 0, 0, 0] 4 2) [65, 66, 67, 68, 69] = Some (0, f1)
    \<and> nk_fflush f1 = Some (0, f2) \<and> o_ptr f2 = 0
    \<and> o_block_write_ptr f2 = [9] @ [65, 66, 67, 68, 69] @ pad \<and> length pad < 2"
proof -
  have "block_sink (\<lambda>s bs. Some (0, s @ bs)) (\<lambda>s. s) (\<lambda>_ _. True)"
    by unfold_locales auto
  moreover have "pow2 (2 :: u32)" by (rule pow2_numeral_intro [of 1]) simp_all
  ultimately show ?thesis
    using outfile_delivers [of "\<lambda>s bs. Some (0, s @ bs)" "\<lambda>s. s" "\<lambda>_ _. True" 4 "[0, 0, 0, 0]" 2 "[9]" "[65, 66, 67, 68, 69]"]
    by simp
qed

text \<open>When a flush fails, because the callback reports an error or because there is none (a memory
  file), the code is returned, but the buffered bytes are no longer pending: the pointer goes back
  to the start of the buffer, the character of the \<open>nk_fputc\<close> that flushed is dropped, and the
  next one overwrites the first byte of the buffer and reports success. A memory file that is full therefore
  restarts at its beginning.\<close>

theorem outfile_error_drops_buffer:
  assumes "outfile_ok f" "nk_fflush f = Some (e, f')" "e \<noteq> 0"
  shows "o_ptr f' = 0 \<and> o_buffer f' = o_buffer f \<and> (o_ptr f = o_end f \<longrightarrow> nk_fputc f c = Some (e, f'))
    \<and> nk_fputc f' d = Some (0, f'\<lparr>o_buffer := (o_buffer f)[0 := word_of_int d], o_ptr := 1\<rparr>)"
proof -
  have f': "o_ptr f' = 0" "o_buffer f' = o_buffer f" "o_end f' = o_end f" "o_size f' = o_size f"
    using assms(2,3) by (auto simp: nk_fflush_def Let_def split: option.splits prod.splits if_splits bind_splits)
  have size: "0 < unat (o_size f)" "o_end f = o_size f" "unat (o_size f) \<le> length (o_buffer f)"
    using assms(1) by (auto simp: outfile_ok_def)
  have "nk_fputc f c = Some (e, f')" if "o_ptr f = o_end f"
    using that assms(2,3) size(1) by (auto simp: nk_fputc_def nk_flush_and_putc_def)
  moreover have "nk_fputc f' d = Some (0, f'\<lparr>o_buffer := (o_buffer f)[0 := word_of_int d], o_ptr := 1\<rparr>)"
  proof -
    have "o_buffer f \<noteq> []" using size by auto
    then show ?thesis using f' size store_at_single [of 0 "o_buffer f"] by (auto simp: nk_fputc_def put_ptr_def)
  qed
  ultimately show ?thesis using f' by blast
qed

theorem outfile_error_drops_buffer_witness:
  "let f = (nkoutfile_open_mem () [65, 66] 2)\<lparr>o_ptr := 2\<rparr>; f' = nkoutfile_open_mem () [65, 66] 2 in
   nk_fputc f 67 = Some (-1, f') \<and> nk_fputc f' 68 = Some (0, f'\<lparr>o_buffer := [68, 66], o_ptr := 1\<rparr>)"
proof -
  let ?f = "(nkoutfile_open_mem () [65, 66] 2)\<lparr>o_ptr := 2\<rparr>"
  have "pow2 (1 :: u32)" by (rule pow2_numeral_intro [of 0]) simp_all
  then have "outfile_ok ?f" by (simp add: outfile_ok_def nkoutfile_open_mem_def nkoutfile_open_def)
  moreover have "nk_fflush ?f = Some (-1, nkoutfile_open_mem () [65, 66] 2)"
    by (simp add: nk_fflush_def nkoutfile_open_mem_def nkoutfile_open_def)
  ultimately show ?thesis
    using outfile_error_drops_buffer [of ?f "-1" "nkoutfile_open_mem () [65, 66] 2" 67 68]
    by (simp add: nkoutfile_open_mem_def nkoutfile_open_def)
qed

end
