(* ===== verification/Infile.thy ===== *)
theory Infile
  imports Outfile
begin

text \<open>
  Buffered input, \<^verbatim>\<open>libnklabs/src/nkinfile.c\<close> and the inline functions of
  \<^verbatim>\<open>libnklabs/inc/nkinfile.h\<close>. An input file is a window of \<open>len\<close> bytes at file offset
  \<open>start_offset\<close>, which the \<open>block_read\<close> callback fills one aligned block at a time, or a whole
  memory area when there is no callback. The callback is a function of the state behind
  \<open>block_read_ptr\<close> that returns the byte count, the bytes it stores in the buffer, and the new
  state, or \<open>None\<close> if it does not return.
  The locale \<open>block_source\<close> is what an input file relies on; its lemmas show that the window is
  invisible: an input file behaves as a byte string with a position.
\<close>

section \<open>State and operations\<close>

text \<open>\<open>start\<close>, \<open>ptr\<close> and \<open>end\<close> point into one memory area, \<open>i_buffer\<close>: \<open>i_ptr\<close> and \<open>i_end\<close> are offsets
  from \<open>start\<close>.\<close>

record 's nkinfile =
  i_buffer :: bytes
  i_ptr :: u32
  i_end :: u32
  i_len :: u32
  i_start_offset :: u32
  i_block_read_ptr :: 's
  i_block_read :: "('s \<Rightarrow> u32 \<Rightarrow> u32 \<Rightarrow> (u32 \<times> bytes \<times> 's) option) option"
  i_block_size :: u32

text \<open>The expression \<open>*f->ptr\<close>.\<close>

definition at_ptr :: "'s nkinfile \<Rightarrow> int option" where
  "at_ptr f = map_option uint (deref (i_buffer f) (unat (i_ptr f)))"

text \<open>The call of the callback, which stores into the buffer.\<close>

definition call_block_read ::
  "('s \<Rightarrow> u32 \<Rightarrow> u32 \<Rightarrow> (u32 \<times> bytes \<times> 's) option) \<Rightarrow> 's nkinfile \<Rightarrow> 's nkinfile option" where
  "call_block_read block_read f =
     do {
       (len, data, s) \<leftarrow> block_read (i_block_read_ptr f) (i_start_offset f) (i_block_size f);
       buf \<leftarrow> store_at (i_buffer f) 0 data;
       Some (f\<lparr>i_len := len, i_buffer := buf, i_block_read_ptr := s\<rparr>)
     }"

definition nk_fseek_slow :: "'s nkinfile \<Rightarrow> u32 \<Rightarrow> (int \<times> 's nkinfile) option" where
  "nk_fseek_slow f pos =
     (if pos \<ge> i_start_offset f \<and> pos < i_start_offset f + i_len f then do {
        let f = f\<lparr>i_ptr := pos - i_start_offset f\<rparr>;
        c \<leftarrow> at_ptr f;
        Some (c, f)
      }
      else do {
        let offset = pos AND (i_block_size f - 1);
        let f = f\<lparr>i_start_offset := pos - offset\<rparr>;
        f \<leftarrow> (case i_block_read f of Some block_read \<Rightarrow> call_block_read block_read f | None \<Rightarrow> Some f);
        let f = f\<lparr>i_end := i_len f\<rparr>;
        if offset < i_len f then do {
          let f = f\<lparr>i_ptr := offset\<rparr>;
          c \<leftarrow> at_ptr f;
          Some (c, f)
        }
        else Some (-1, f\<lparr>i_ptr := i_len f\<rparr>)
      })"

definition nkinfile_open ::
  "('s \<Rightarrow> u32 \<Rightarrow> u32 \<Rightarrow> (u32 \<times> bytes \<times> 's) option) option \<Rightarrow> 's \<Rightarrow> u32 \<Rightarrow> bytes \<Rightarrow> 's nkinfile option" where
  "nkinfile_open block_read block_read_ptr block_size buffer = do {
     let f = \<lparr>i_buffer = buffer, i_ptr = 0, i_end = 0, i_len = block_size, i_start_offset = 0,
              i_block_read_ptr = block_read_ptr, i_block_read = block_read, i_block_size = block_size\<rparr>;
     f \<leftarrow> (case block_read of Some block_read \<Rightarrow> call_block_read block_read f | None \<Rightarrow> Some f);
     Some (f\<lparr>i_end := i_len f\<rparr>)
   }"

definition nkinfile_open_mem :: "'s \<Rightarrow> bytes \<Rightarrow> u32 \<Rightarrow> 's nkinfile" where
  "nkinfile_open_mem null mem sz =
     \<lparr>i_buffer = mem, i_ptr = 0, i_end = sz, i_len = sz, i_start_offset = 0,
      i_block_read_ptr = null, i_block_read = None, i_block_size = 0\<rparr>"

text \<open>\<open>strlen\<close>: the number of characters before the terminating NUL.\<close>

fun strlen :: "bytes \<Rightarrow> u32 option" where
  "strlen [] = None"
| "strlen (c # cs) = (if c = 0 then Some 0 else map_option (\<lambda>n. n + 1) (strlen cs))"

definition nkinfile_open_string :: "'s \<Rightarrow> bytes \<Rightarrow> 's nkinfile option" where
  "nkinfile_open_string null s = do { n \<leftarrow> strlen s; Some (nkinfile_open_mem null s n) }"

definition nkinfile_null :: "'s \<Rightarrow> 's nkinfile" where
  "nkinfile_null null =
     \<lparr>i_buffer = [], i_ptr = 0, i_end = 0, i_len = 0, i_start_offset = 0,
      i_block_read_ptr = null, i_block_read = None, i_block_size = 0\<rparr>"

definition nk_ftell :: "'s nkinfile \<Rightarrow> u32" where
  "nk_ftell f = i_start_offset f + (i_ptr f - 0)"

definition nk_feof :: "'s nkinfile \<Rightarrow> bool" where
  "nk_feof f \<longleftrightarrow> i_ptr f = i_end f"

definition nk_fseek_fast :: "'s nkinfile \<Rightarrow> u32 \<Rightarrow> (int \<times> 's nkinfile) option" where
  "nk_fseek_fast f n = do {
     let f = f\<lparr>i_ptr := 0 + n - i_start_offset f\<rparr>;
     c \<leftarrow> at_ptr f;
     Some (c, f)
   }"

definition nk_contained :: "'s nkinfile \<Rightarrow> u32 \<Rightarrow> bool" where
  "nk_contained f n \<longleftrightarrow> n \<ge> i_start_offset f \<and> n < i_start_offset f + i_len f"

definition nk_fseek :: "'s nkinfile \<Rightarrow> u32 \<Rightarrow> (int \<times> 's nkinfile) option" where
  "nk_fseek f n = (if nk_contained f n then nk_fseek_fast f n else nk_fseek_slow f n)"

definition nk_fseek_rel :: "'s nkinfile \<Rightarrow> u32 \<Rightarrow> (int \<times> 's nkinfile) option" where
  "nk_fseek_rel f n = nk_fseek f (nk_ftell f + n)"

definition nk_fpeek_fast :: "'s nkinfile \<Rightarrow> int option" where
  "nk_fpeek_fast f = at_ptr f"

definition nk_fpeek :: "'s nkinfile \<Rightarrow> int option" where
  "nk_fpeek f = (if nk_feof f then Some (-1) else nk_fpeek_fast f)"

definition nk_fpeek_rel :: "'s nkinfile \<Rightarrow> u32 \<Rightarrow> (int \<times> 's nkinfile) option" where
  "nk_fpeek_rel f n =
     (if nk_contained f (nk_ftell f + n) then do {
        c \<leftarrow> deref (i_buffer f) (unat (i_ptr f + n));
        Some (uint c, f)
      }
      else do {
        let tmp_pos = nk_ftell f;
        (tmp, f) \<leftarrow> nk_fseek f (nk_ftell f + n);
        (_, f) \<leftarrow> nk_fseek f tmp_pos;
        Some (tmp, f)
      })"

definition nk_fpeek_abs :: "'s nkinfile \<Rightarrow> u32 \<Rightarrow> (int \<times> 's nkinfile) option" where
  "nk_fpeek_abs f n =
     (if nk_contained f n then do {
        c \<leftarrow> deref (i_buffer f) (unat (i_ptr f + (n - i_start_offset f)));
        Some (uint c, f)
      }
      else do {
        let tmp_pos = nk_ftell f;
        (tmp, f) \<leftarrow> nk_fseek f n;
        (_, f) \<leftarrow> nk_fseek f tmp_pos;
        Some (tmp, f)
      })"

definition nk_fnext_fast :: "'s nkinfile \<Rightarrow> (int \<times> 's nkinfile) option" where
  "nk_fnext_fast f =
     (let f = f\<lparr>i_ptr := i_ptr f + 1\<rparr>
      in if i_ptr f = i_end f then nk_fseek_slow f (i_start_offset f + i_len f)
         else do { c \<leftarrow> nk_fpeek_fast f; Some (c, f) })"

definition nk_fnext :: "'s nkinfile \<Rightarrow> (int \<times> 's nkinfile) option" where
  "nk_fnext f = (if nk_feof f then Some (-1, f) else nk_fnext_fast f)"

definition nk_fgetc_fast :: "'s nkinfile \<Rightarrow> (int \<times> 's nkinfile) option" where
  "nk_fgetc_fast f = do {
     tmp \<leftarrow> at_ptr f;
     let f = f\<lparr>i_ptr := i_ptr f + 1\<rparr>;
     if nk_feof f then do {
       (_, f) \<leftarrow> nk_fseek_slow f (i_start_offset f + i_len f);
       Some (tmp, f)
     }
     else Some (tmp, f)
   }"

definition nk_fgetc :: "'s nkinfile \<Rightarrow> (int \<times> 's nkinfile) option" where
  "nk_fgetc f = (if nk_feof f then Some (-1, f) else nk_fgetc_fast f)"

partial_function (option) nk_fcopy_loop ::
  "int \<Rightarrow> 'o nkoutfile \<Rightarrow> 's nkinfile \<Rightarrow> (int \<times> 'o nkoutfile \<times> 's nkinfile) option" where
  "nk_fcopy_loop status g f =
     (if nk_feof f then Some (status, g, f)
      else do {
        (c, f) \<leftarrow> nk_fgetc f;
        (rtn, g) \<leftarrow> nk_fputc g c;
        nk_fcopy_loop (status OR rtn) g f
      })"

definition nk_fcopy :: "'o nkoutfile \<Rightarrow> 's nkinfile \<Rightarrow> (int \<times> 'o nkoutfile \<times> 's nkinfile) option" where
  "nk_fcopy g f = nk_fcopy_loop 0 g f"

definition nk_infile_print ::
  "'o nkoutfile \<Rightarrow> 's nkinfile \<Rightarrow> (int \<times> 'o nkoutfile \<times> 's nkinfile) option" where
  "nk_infile_print nkstdout f = nk_fcopy nkstdout f"

section \<open>An input file as a byte string with a position\<close>

text \<open>What a read at a position returns: the byte there, or \<open>-1\<close> at the end.\<close>

definition char_at :: "bytes \<Rightarrow> nat \<Rightarrow> int" where
  "char_at data n = (if n < length data then uint (data ! n) else -1)"

text \<open>The window of a file is a part of its contents.\<close>

definition window_ok :: "'s nkinfile \<Rightarrow> bytes \<Rightarrow> bool" where
  "window_ok f data \<longleftrightarrow> i_end f = i_len f \<and> unat (i_len f) \<le> length (i_buffer f)
     \<and> unat (i_start_offset f) + unat (i_len f) \<le> length data \<and> length data < 2 ^ 32
     \<and> take (unat (i_len f)) (i_buffer f) = take (unat (i_len f)) (drop (unat (i_start_offset f)) data)"

text \<open>The pointer stands at file position \<open>p\<close>, and at the end of the window only at the end of the file.\<close>

definition at_pos :: "'s nkinfile \<Rightarrow> bytes \<Rightarrow> nat \<Rightarrow> bool" where
  "at_pos f data p \<longleftrightarrow> unat (i_start_offset f) + unat (i_ptr f) = p \<and> unat (i_ptr f) \<le> unat (i_len f)
     \<and> (i_ptr f = i_len f \<longrightarrow> p = length data)"

lemma window_nth:
  assumes "window_ok f data" "i < unat (i_len f)"
  shows "deref (i_buffer f) i = Some (data ! (unat (i_start_offset f) + i))"
proof -
  have "i < length (i_buffer f)" using assms by (simp add: window_ok_def)
  moreover have "i_buffer f ! i = take (unat (i_len f)) (drop (unat (i_start_offset f)) data) ! i"
    using assms by (metis nth_take window_ok_def)
  ultimately show ?thesis
    using assms by (simp add: window_ok_def deref_def)
qed

lemma window_ok_ptr [simp]: "window_ok (f\<lparr>i_ptr := p\<rparr>) data = window_ok f data"
  by (simp add: window_ok_def)

lemma contained_iff:
  assumes "window_ok f data"
  shows "nk_contained f n \<longleftrightarrow> unat (i_start_offset f) \<le> unat n \<and> unat n < unat (i_start_offset f) + unat (i_len f)"
proof -
  have "unat (i_start_offset f + i_len f) = unat (i_start_offset f) + unat (i_len f)"
    using assms by (simp add: unat_add_no_wrap window_ok_def)
  then show ?thesis by (simp add: nk_contained_def word_le_nat_alt word_less_nat_alt)
qed

lemma seek_fast_at:
  assumes "window_ok f data" "nk_contained f n"
  shows "nk_fseek_fast f n = Some (char_at data (unat n), f\<lparr>i_ptr := n - i_start_offset f\<rparr>)"
    and "at_pos (f\<lparr>i_ptr := n - i_start_offset f\<rparr>) data (unat n)"
proof -
  have c: "unat (i_start_offset f) \<le> unat n" "unat n < unat (i_start_offset f) + unat (i_len f)"
    using assms by (simp_all add: contained_iff)
  then have sub: "unat (n - i_start_offset f) = unat n - unat (i_start_offset f)"
    by (simp add: unat_sub_no_wrap)
  have "unat n < length data" using c assms(1) by (simp add: window_ok_def)
  then show "nk_fseek_fast f n = Some (char_at data (unat n), f\<lparr>i_ptr := n - i_start_offset f\<rparr>)"
    using window_nth [OF assms(1), of "unat n - unat (i_start_offset f)"] c
    by (simp add: nk_fseek_fast_def at_ptr_def sub char_at_def)
  show "at_pos (f\<lparr>i_ptr := n - i_start_offset f\<rparr>) data (unat n)"
    using c sub by (auto simp: at_pos_def)
qed

lemma seek_slow_contained:
  "nk_contained f n \<Longrightarrow> nk_fseek_slow f n = nk_fseek_fast f n"
  by (simp add: nk_fseek_slow_def nk_fseek_fast_def nk_contained_def)

text \<open>The two kinds of input file, a memory area and a window on a block source, differ only in
  how a position outside the window is reached. \<open>ok f data\<close> is the invariant of such a kind, which does not
  depend on the pointer.\<close>

locale reader =
  fixes ok :: "'s nkinfile \<Rightarrow> bytes \<Rightarrow> bool"
  assumes ok_window: "ok f data \<Longrightarrow> window_ok f data"
    and ok_ptr: "ok f data \<Longrightarrow> ok (f\<lparr>i_ptr := p\<rparr>) data"
    and ok_reload: "ok f data \<Longrightarrow> unat n \<le> length data \<Longrightarrow> \<not> nk_contained f n \<Longrightarrow>
      \<exists>f'. nk_fseek_slow f n = Some (char_at data (unat n), f') \<and> ok f' data \<and> at_pos f' data (unat n)"
begin

definition view :: "'s nkinfile \<Rightarrow> bytes \<Rightarrow> nat \<Rightarrow> bool" where
  "view f data p \<longleftrightarrow> ok f data \<and> at_pos f data p"

lemma view_less: "view f data p \<Longrightarrow> p \<le> length data \<and> length data < 2 ^ 32"
  using ok_window [of f data] by (auto simp: view_def at_pos_def window_ok_def)

lemma ftell_view: "view f data p \<Longrightarrow> unat (nk_ftell f) = p"
  using ok_window [of f data] by (auto simp: view_def at_pos_def window_ok_def nk_ftell_def unat_add_no_wrap)

lemma feof_view: "view f data p \<Longrightarrow> nk_feof f \<longleftrightarrow> p = length data"
proof -
  assume v: "view f data p"
  then have w: "window_ok f data" "at_pos f data p" using ok_window by (auto simp: view_def)
  show ?thesis
  proof (cases "i_ptr f = i_len f")
    case False
    then have "unat (i_ptr f) < unat (i_len f)"
      using w(2) by (simp add: at_pos_def) (metis le_neq_implies_less word_unat_eq_iff)
    then show ?thesis using w False by (auto simp: nk_feof_def window_ok_def at_pos_def)
  qed (use w in \<open>auto simp: nk_feof_def window_ok_def at_pos_def\<close>)
qed

lemma fseek_slow_view:
  assumes "ok f data" "unat n \<le> length data"
  obtains f' where "nk_fseek_slow f n = Some (char_at data (unat n), f')" "view f' data (unat n)"
proof (cases "nk_contained f n")
  case True
  then show ?thesis
    using seek_fast_at [OF ok_window [OF assms(1)] True] ok_ptr [OF assms(1)] that
    by (simp add: seek_slow_contained view_def)
next
  case False
  then show ?thesis using ok_reload [OF assms] that by (auto simp: view_def)
qed

lemma fseek_view:
  assumes "view f data p" "unat n \<le> length data"
  obtains f' where "nk_fseek f n = Some (char_at data (unat n), f')" "view f' data (unat n)"
proof -
  have "ok f data" using assms(1) by (simp add: view_def)
  then show ?thesis
    using fseek_slow_view [OF _ assms(2)] that seek_slow_contained unfolding nk_fseek_def by metis
qed

lemma fpeek_view: "view f data p \<Longrightarrow> nk_fpeek f = Some (char_at data p)"
proof -
  assume v: "view f data p"
  then have w: "window_ok f data" "at_pos f data p" using ok_window by (auto simp: view_def)
  show ?thesis
  proof (cases "p = length data")
    case False
    then have "unat (i_ptr f) < unat (i_len f)"
      using w(2) by (simp add: at_pos_def) (metis le_neq_implies_less word_unat_eq_iff)
    then show ?thesis
      using window_nth [OF w(1), of "unat (i_ptr f)"] False w feof_view [OF v] view_less [OF v]
      by (auto simp: nk_fpeek_def nk_fpeek_fast_def at_ptr_def at_pos_def char_at_def)
  qed (simp add: nk_fpeek_def feof_view [OF v] char_at_def)
qed

text \<open>Advancing the pointer by one, with the reload at the end of the window.\<close>

lemma advance_view:
  assumes "view f data p" "p < length data"
  shows "at_ptr f = Some (uint (data ! p))"
    and "\<exists>f'. (if nk_feof (f\<lparr>i_ptr := i_ptr f + 1\<rparr>)
        then nk_fseek_slow (f\<lparr>i_ptr := i_ptr f + 1\<rparr>) (i_start_offset f + i_len f)
        else map_option (\<lambda>c. (c, f\<lparr>i_ptr := i_ptr f + 1\<rparr>)) (at_ptr (f\<lparr>i_ptr := i_ptr f + 1\<rparr>)))
      = Some (char_at data (Suc p), f') \<and> view f' data (Suc p)"
proof -
  let ?f = "f\<lparr>i_ptr := i_ptr f + 1\<rparr>"
  have w: "window_ok f data" "at_pos f data p" "ok f data" using assms(1) ok_window by (auto simp: view_def)
  have lt: "unat (i_ptr f) < unat (i_len f)"
    using w(2) assms(2) by (simp add: at_pos_def) (metis le_neq_implies_less nat_neq_iff word_unat_eq_iff)
  have p: "p = unat (i_start_offset f) + unat (i_ptr f)" using w(2) by (simp add: at_pos_def)
  show "at_ptr f = Some (uint (data ! p))"
    using window_nth [OF w(1) lt] by (simp add: at_ptr_def p)
  have inc: "unat (i_ptr f + 1) = Suc (unat (i_ptr f))" using lt by (rule unat_plus_1_less)
  have okf: "ok ?f data" using w(3) by (rule ok_ptr)
  show "\<exists>f'. (if nk_feof ?f then nk_fseek_slow ?f (i_start_offset f + i_len f)
      else map_option (\<lambda>c. (c, ?f)) (at_ptr ?f)) = Some (char_at data (Suc p), f') \<and> view f' data (Suc p)"
  proof (cases "i_ptr f + 1 = i_end f")
    case True
    then have "unat (i_start_offset f + i_len f) = Suc p"
      using w(1) inc by (auto simp: window_ok_def unat_add_no_wrap p)
    then show ?thesis
      using fseek_slow_view [OF okf, of "i_start_offset f + i_len f"] True assms(2)
      by (auto simp: nk_feof_def)
  next
    case False
    then have "i_ptr f + 1 \<noteq> i_len f" using w(1) by (simp add: window_ok_def)
    then have "Suc (unat (i_ptr f)) < unat (i_len f)" using lt inc by (metis Suc_lessI word_unat_eq_iff)
    then show ?thesis
      using window_nth [OF w(1), of "Suc (unat (i_ptr f))"] False okf inc w(1)
      by (auto simp: nk_feof_def at_ptr_def char_at_def p view_def at_pos_def window_ok_def)
  qed
qed

lemma fnext_fast_view:
  assumes "view f data p" "p < length data"
  obtains f' where "nk_fnext_fast f = Some (char_at data (Suc p), f')" "view f' data (Suc p)"
  using advance_view(2) [OF assms] that
  by (auto simp: nk_fnext_fast_def Let_def nk_feof_def nk_fpeek_fast_def split: if_splits)

lemma fnext_view:
  assumes "view f data p"
  obtains f' where "nk_fnext f = Some (char_at data (Suc p), f')" "view f' data (min (Suc p) (length data))"
proof (cases "p < length data")
  case True
  then show ?thesis using fnext_fast_view [OF assms True] feof_view [OF assms] that
    by (auto simp: nk_fnext_def)
next
  case False
  then show ?thesis using assms view_less [OF assms] feof_view [OF assms] that [of f]
    by (simp add: nk_fnext_def char_at_def)
qed

lemma fgetc_view:
  assumes "view f data p" "p < length data"
  obtains f' where "nk_fgetc f = Some (uint (data ! p), f')" "view f' data (Suc p)"
proof -
  obtain f' where f': "view f' data (Suc p)" "(if nk_feof (f\<lparr>i_ptr := i_ptr f + 1\<rparr>)
        then nk_fseek_slow (f\<lparr>i_ptr := i_ptr f + 1\<rparr>) (i_start_offset f + i_len f)
        else map_option (\<lambda>c. (c, f\<lparr>i_ptr := i_ptr f + 1\<rparr>)) (at_ptr (f\<lparr>i_ptr := i_ptr f + 1\<rparr>)))
      = Some (char_at data (Suc p), f')"
    using advance_view(2) [OF assms] by blast
  then have "nk_fgetc_fast f = Some (uint (data ! p), f')"
    using advance_view(1) [OF assms] by (auto simp: nk_fgetc_fast_def split: if_splits)
  then show ?thesis using f' feof_view [OF assms(1)] assms(2) that by (simp add: nk_fgetc_def)
qed

lemma fpeek_rel_view:
  assumes "view f data p" "unat (nk_ftell f + n) \<le> length data"
  obtains f' where "nk_fpeek_rel f n = Some (char_at data (unat (nk_ftell f + n)), f')" "view f' data p"
proof (cases "nk_contained f (nk_ftell f + n)")
  case True
  have w: "window_ok f data" using assms(1) ok_window by (auto simp: view_def)
  have c: "unat (i_start_offset f) \<le> unat (nk_ftell f + n)"
      "unat (nk_ftell f + n) < unat (i_start_offset f) + unat (i_len f)"
    using True by (simp_all add: contained_iff [OF w])
  have "i_ptr f + n = (nk_ftell f + n) - i_start_offset f" by (simp add: nk_ftell_def)
  then have "unat (i_ptr f + n) = unat (nk_ftell f + n) - unat (i_start_offset f)"
    using c(1) by (simp only: unat_sub_no_wrap)
  then have "nk_fpeek_rel f n = Some (char_at data (unat (nk_ftell f + n)), f)"
    using True c window_nth [OF w, of "unat (i_ptr f + n)"] w
    by (auto simp: nk_fpeek_rel_def char_at_def window_ok_def)
  then show ?thesis using that assms(1) by blast
next
  case False
  obtain f1 where f1: "nk_fseek f (nk_ftell f + n) = Some (char_at data (unat (nk_ftell f + n)), f1)"
      "view f1 data (unat (nk_ftell f + n))" using fseek_view [OF assms] .
  have "unat (nk_ftell f) \<le> length data" using ftell_view view_less assms(1) by auto
  from fseek_view [OF f1(2) this] obtain f2 where "nk_fseek f1 (nk_ftell f) = Some (char_at data (unat (nk_ftell f)), f2)"
      "view f2 data (unat (nk_ftell f))" .
  then show ?thesis
    using f1 False that [of f2] ftell_view [OF assms(1)] by (simp add: nk_fpeek_rel_def)
qed

text \<open>One step of the simulation: what every operation returns and where it leaves the position.\<close>

lemma operations_view:
  assumes "view f data p"
  shows "unat (nk_ftell f) = p \<and> nk_feof f = (p = length data) \<and> nk_fpeek f = Some (char_at data p)
    \<and> (\<exists>f'. nk_fnext f = Some (char_at data (Suc p), f') \<and> view f' data (min (Suc p) (length data)))
    \<and> (\<exists>f'. nk_fgetc f = Some (char_at data p, f') \<and> view f' data (min (Suc p) (length data)))
    \<and> (\<forall>n. unat n \<le> length data \<longrightarrow>
         (\<exists>f'. nk_fseek f n = Some (char_at data (unat n), f') \<and> view f' data (unat n)))
    \<and> (\<forall>n. unat (nk_ftell f + n) \<le> length data \<longrightarrow>
         (\<exists>f'. nk_fpeek_rel f n = Some (char_at data (unat (nk_ftell f + n)), f') \<and> view f' data p))"
proof (intro conjI allI impI)
  show "\<exists>f'. nk_fgetc f = Some (char_at data p, f') \<and> view f' data (min (Suc p) (length data))"
  proof (cases "p < length data")
    case True
    then show ?thesis using fgetc_view [OF assms True] by (auto simp: char_at_def)
  next
    case False
    then show ?thesis
      using assms feof_view [OF assms] view_less [OF assms] by (auto simp: nk_fgetc_def char_at_def)
  qed
  show "\<exists>f'. nk_fnext f = Some (char_at data (Suc p), f') \<and> view f' data (min (Suc p) (length data))"
    using fnext_view [OF assms] by metis
  show "\<exists>f'. nk_fseek f n = Some (char_at data (unat n), f') \<and> view f' data (unat n)"
    if "unat n \<le> length data" for n
    using fseek_view [OF assms that] by metis
  show "\<exists>f'. nk_fpeek_rel f n = Some (char_at data (unat (nk_ftell f + n)), f') \<and> view f' data p"
    if "unat (nk_ftell f + n) \<le> length data" for n
    using fpeek_rel_view [OF assms that] by metis
qed (simp_all add: ftell_view [OF assms] feof_view [OF assms] fpeek_view [OF assms])

end

text \<open>Copying: a reader on one side and a sink on the other.\<close>

locale file_copy = reader ok + block_sink block_write written ready
  for ok :: "'s nkinfile \<Rightarrow> bytes \<Rightarrow> bool"
    and block_write :: "'o \<Rightarrow> bytes \<Rightarrow> (int \<times> 'o) option" and written ready
begin

lemma fcopy_loop_copies:
  "view f data p \<Longrightarrow> open_for g (length data - p) \<Longrightarrow>
   \<exists>g' f'. nk_fcopy_loop 0 g f = Some (0, g', f') \<and> view f' data (length data) \<and> open_for g' 0
     \<and> contents g' = contents g @ drop p data \<and> o_granularity g' = o_granularity g"
proof (induction "length data - p" arbitrary: p f g)
  case 0
  then have "p = length data" using view_less [OF 0(2)] by simp
  then show ?case using 0 feof_view [OF 0(2)] by (subst nk_fcopy_loop.simps) simp
next
  case (Suc k)
  then have "p < length data" by simp
  obtain f1 where f1: "nk_fgetc f = Some (uint (data ! p), f1)" "view f1 data (Suc p)"
    using fgetc_view [OF Suc.prems(1) \<open>p < length data\<close>] .
  have room: "open_for g (Suc (length data - Suc p))"
    using Suc.prems(2) Suc_diff_Suc [OF \<open>p < length data\<close>] by simp
  obtain g1 where g1: "nk_fputc g (uint (data ! p)) = Some (0, g1)" "open_for g1 (length data - Suc p)"
      "contents g1 = contents g @ [data ! p]" "o_granularity g1 = o_granularity g"
    using fputc_appends [OF room, of "uint (data ! p)"] by auto
  have "k = length data - Suc p" using Suc.hyps(2) by simp
  from Suc.hyps(1) [OF this f1(2) g1(2)] show ?case
    using f1 g1 feof_view [OF Suc.prems(1)] \<open>p < length data\<close>
    by (subst nk_fcopy_loop.simps) (auto simp: Cons_nth_drop_Suc)
qed

end

section \<open>Memory files\<close>

definition mem_ok :: "'s nkinfile \<Rightarrow> bytes \<Rightarrow> bool" where
  "mem_ok f data \<longleftrightarrow> i_block_read f = None \<and> i_start_offset f = 0 \<and> i_block_size f = 0
     \<and> unat (i_len f) = length data \<and> i_end f = i_len f \<and> take (length data) (i_buffer f) = data"

lemma mem_ok_window: "mem_ok f data \<Longrightarrow> window_ok f data"
proof -
  assume a: "mem_ok f data"
  then have "length data \<le> length (i_buffer f)"
    unfolding mem_ok_def by (metis length_take min.bounded_iff order_refl)
  moreover have "length data < 2 ^ 32" using a unat_u32_less [of "i_len f"] by (simp add: mem_ok_def)
  ultimately show ?thesis using a by (simp add: window_ok_def mem_ok_def)
qed

interpretation mem_file: reader mem_ok
proof unfold_locales
  show "window_ok f data" if "mem_ok f data" for f :: "'s nkinfile" and data
    using that by (rule mem_ok_window)
  show "mem_ok (f\<lparr>i_ptr := p\<rparr>) data" if "mem_ok f data" for f :: "'s nkinfile" and data p
    using that by (simp add: mem_ok_def)
  show "\<exists>f'. nk_fseek_slow f n = Some (char_at data (unat n), f') \<and> mem_ok f' data \<and> at_pos f' data (unat n)"
    if "mem_ok f data" "unat n \<le> length data" "\<not> nk_contained f n" for f :: "'s nkinfile" and data n
  proof -
    have "unat n = unat (i_len f)"
      using that contained_iff [OF mem_ok_window [OF that(1)], of n] by (simp add: mem_ok_def)
    then have "n = i_len f" "unat n = length data" using that by (simp_all add: word_unat_eq_iff mem_ok_def)
    then show ?thesis
      using that by (auto simp: nk_fseek_slow_def mem_ok_def nk_contained_def char_at_def at_pos_def Let_def)
  qed
qed

lemma open_mem_view:
  "length data < 2 ^ 32 \<Longrightarrow> mem_file.view (nkinfile_open_mem null (data @ rest) (word_of_nat (length data))) data 0"
  by (auto simp: mem_file.view_def mem_ok_def at_pos_def nkinfile_open_mem_def unat_of_nat word_unat_eq_iff)

lemma strlen_string:
  "0 \<notin> set cs \<Longrightarrow> strlen (cs @ 0 # rest) = Some (word_of_nat (length cs))"
  by (induction cs) (auto simp: ac_simps)

section \<open>Block files\<close>

text \<open>What the callback promises: it reads the block at a position up to the end of the
  contents, which do not change, and returns how many bytes there were.\<close>

locale block_source =
  fixes block_read :: "'s \<Rightarrow> u32 \<Rightarrow> u32 \<Rightarrow> (u32 \<times> bytes \<times> 's) option"
    and content :: "'s \<Rightarrow> bytes"
    and readable :: "'s \<Rightarrow> bool"
  assumes source_read: "readable s \<Longrightarrow> unat pos \<le> length (content s) \<Longrightarrow> length (content s) + unat bs < 2 ^ 32 \<Longrightarrow>
      \<exists>s'. block_read s pos bs = Some (word_of_nat (min (unat bs) (length (content s) - unat pos)),
              take (unat bs) (drop (unat pos) (content s)), s')
        \<and> content s' = content s \<and> readable s'"
begin

definition block_ok :: "'s nkinfile \<Rightarrow> bytes \<Rightarrow> bool" where
  "block_ok f data \<longleftrightarrow> i_block_read f = Some block_read \<and> readable (i_block_read_ptr f)
     \<and> content (i_block_read_ptr f) = data \<and> pow2 (i_block_size f) \<and> unat (i_block_size f) \<le> length (i_buffer f)
     \<and> length data + unat (i_block_size f) < 2 ^ 32 \<and> unat (i_block_size f) dvd unat (i_start_offset f)
     \<and> unat (i_len f) = min (unat (i_block_size f)) (length data - unat (i_start_offset f))
     \<and> window_ok f data"

lemma call_block_read_ok:
  assumes "readable (i_block_read_ptr f)" "i_block_read f = Some block_read" "content (i_block_read_ptr f) = data"
    and "pow2 (i_block_size f)" "unat (i_block_size f) \<le> length (i_buffer f)"
    and "length data + unat (i_block_size f) < 2 ^ 32"
    and "unat (i_block_size f) dvd unat (i_start_offset f)" "unat (i_start_offset f) \<le> length data"
  obtains f' where "call_block_read block_read f = Some f'" "block_ok (f'\<lparr>i_end := i_len f'\<rparr>) data"
    "i_start_offset f' = i_start_offset f" "i_block_size f' = i_block_size f"
proof -
  let ?n = "min (unat (i_block_size f)) (length data - unat (i_start_offset f))"
  have "unat (i_start_offset f) \<le> length (content (i_block_read_ptr f))"
    "length (content (i_block_read_ptr f)) + unat (i_block_size f) < 2 ^ 32"
    using assms(3,6,8) by simp_all
  from source_read [OF assms(1) this] obtain s' where s':
    "block_read (i_block_read_ptr f) (i_start_offset f) (i_block_size f) = Some (word_of_nat ?n,
       take (unat (i_block_size f)) (drop (unat (i_start_offset f)) data), s')"
    "content s' = data" "readable s'" unfolding assms(3) by blast
  have n: "unat (word_of_nat ?n :: u32) = ?n" using assms(6) by (simp add: unat_of_nat)
  have n': "take (unat (i_block_size f)) (drop (unat (i_start_offset f)) data) = take ?n (drop (unat (i_start_offset f)) data)"
    by (simp add: min_def)
  let ?f = "f\<lparr>i_len := word_of_nat ?n,
      i_buffer := take ?n (drop (unat (i_start_offset f)) data) @ drop ?n (i_buffer f), i_block_read_ptr := s'\<rparr>"
  have "call_block_read block_read f = Some ?f"
    using s' assms(5) by (simp add: call_block_read_def n' buf_simps)
  moreover have "block_ok (?f\<lparr>i_end := i_len ?f\<rparr>) data"
  proof -
    have "?n \<le> length (i_buffer f)" "unat (i_start_offset f) + ?n \<le> length data"
      using assms(5,8) by auto
    then show ?thesis using assms s' n by (simp add: block_ok_def window_ok_def)
  qed
  ultimately show ?thesis using that [of ?f] by simp
qed

sublocale block_file: reader block_ok
proof unfold_locales
  show "window_ok f data" if "block_ok f data" for f data
    using that by (simp add: block_ok_def)
  show "block_ok (f\<lparr>i_ptr := p\<rparr>) data" if "block_ok f data" for f data p
    using that by (simp add: block_ok_def)
  show "\<exists>f'. nk_fseek_slow f n = Some (char_at data (unat n), f') \<and> block_ok f' data \<and> at_pos f' data (unat n)"
    if b: "block_ok f data" and n: "unat n \<le> length data" and c: "\<not> nk_contained f n" for f data n
  proof -
    let ?bs = "unat (i_block_size f)"
    let ?ofs = "n AND (i_block_size f - 1)"
    have bs: "pow2 (i_block_size f)" "0 < ?bs" using b pow2_pos by (auto simp: block_ok_def)
    have ofs: "unat ?ofs = unat n mod ?bs" using bs by (simp add: word_nat_simps)
    then have start: "unat (n - ?ofs) = unat n div ?bs * ?bs"
      by (simp add: unat_sub_no_wrap minus_mod_eq_div_mult)
    let ?f = "f\<lparr>i_start_offset := n - ?ofs\<rparr>"
    have rd: "i_block_read f = Some block_read" "readable (i_block_read_ptr f)" using b by (simp_all add: block_ok_def)
    have le: "unat n div ?bs * ?bs \<le> length data" using n by (meson div_times_less_eq_dividend le_trans)
    obtain f1 where f1: "call_block_read block_read ?f = Some f1" "block_ok (f1\<lparr>i_end := i_len f1\<rparr>) data"
      "i_start_offset f1 = n - ?ofs" "i_block_size f1 = i_block_size f"
      using call_block_read_ok [of ?f data] b le by (auto simp: block_ok_def start)
    have w: "window_ok (f1\<lparr>i_end := i_len f1\<rparr>) data" using f1(2) by (simp add: block_ok_def)
    have len: "unat (i_len f1) = min ?bs (length data - unat n div ?bs * ?bs)"
      using f1 by (simp add: block_ok_def start)
    have lt: "?ofs < i_len f1 \<longleftrightarrow> unat n < length data"
    proof -
      have "unat n mod ?bs < ?bs" using bs by simp
      moreover have "unat n = unat n div ?bs * ?bs + unat n mod ?bs" by simp
      ultimately show ?thesis unfolding word_less_nat_alt ofs len using le by linarith
    qed
    show ?thesis
    proof (cases "unat n < length data")
      case True
      let ?f' = "f1\<lparr>i_end := i_len f1, i_ptr := ?ofs\<rparr>"
      have "at_ptr ?f' = Some (uint (data ! unat n))"
        using window_nth [OF w, of "unat ?ofs"] lt True f1(3)
        by (simp add: at_ptr_def word_less_nat_alt start) (simp add: ofs)
      then have "nk_fseek_slow f n = Some (char_at data (unat n), ?f')"
        using c rd f1 lt True by (simp add: nk_fseek_slow_def nk_contained_def [symmetric] char_at_def)
      moreover have "block_ok ?f' data" using f1(2) by (simp add: block_ok_def)
      moreover have "at_pos ?f' data (unat n)"
      proof -
        have "unat ?ofs < unat (i_len f1)" using lt True by (simp add: word_less_nat_alt)
        then have "?ofs \<noteq> i_len f1" "unat ?ofs \<le> unat (i_len f1)" by auto
        then show ?thesis using f1(3) by (simp add: at_pos_def start) (simp add: ofs)
      qed
      ultimately show ?thesis by blast
    next
      case False
      let ?f' = "f1\<lparr>i_end := i_len f1, i_ptr := i_len f1\<rparr>"
      have eq: "unat n = length data" using False n by simp
      have "nk_fseek_slow f n = Some (char_at data (unat n), ?f')"
        using c rd f1 lt False by (simp add: nk_fseek_slow_def nk_contained_def [symmetric] char_at_def)
      moreover have "block_ok ?f' data" using f1(2) by (simp add: block_ok_def)
      moreover have "at_pos ?f' data (unat n)"
      proof -
        have "unat n mod ?bs < ?bs" using bs by simp
        then have "unat (i_len f1) = length data - unat n div ?bs * ?bs"
          using len eq by (metis div_mult_mod_eq add_diff_cancel_left' less_imp_le min.absorb2)
        then show ?thesis using eq le f1(3) by (simp add: at_pos_def start)
      qed
      ultimately show ?thesis by blast
    qed
  qed
qed

lemma open_view:
  assumes "readable s" "content s = data" "pow2 bs" "unat bs \<le> length buf" "length data + unat bs < 2 ^ 32"
  obtains f where "nkinfile_open (Some block_read) s bs buf = Some f" "block_file.view f data 0"
proof -
  let ?f = "\<lparr>i_buffer = buf, i_ptr = 0, i_end = 0, i_len = bs, i_start_offset = 0,
              i_block_read_ptr = s, i_block_read = Some block_read, i_block_size = bs\<rparr>"
  obtain f' where f': "call_block_read block_read ?f = Some f'" "block_ok (f'\<lparr>i_end := i_len f'\<rparr>) data"
    "i_start_offset f' = 0" "i_block_size f' = bs"
    using call_block_read_ok [of ?f data] assms by auto
  have "i_ptr f' = 0" using f'(1) by (auto simp: call_block_read_def split: prod.splits bind_splits)
  moreover have "0 < unat bs" using assms(3) by (rule pow2_pos)
  ultimately have "at_pos (f'\<lparr>i_end := i_len f'\<rparr>) data 0"
    using f'(2-4) by (auto simp: at_pos_def block_ok_def min_def split: if_splits)
  then show ?thesis
    using that [of "f'\<lparr>i_end := i_len f'\<rparr>"] f' by (simp add: nkinfile_open_def block_file.view_def)
qed

lemmas block_operations = block_file.operations_view
lemmas block_reader = block_file.reader_axioms

end

section \<open>Properties\<close>

abbreviation block_view where
  "block_view br content readable \<equiv> reader.view (block_source.block_ok br content readable)"

text \<open>C4. An input file on a block device is a byte string with a position: whatever block the
  buffer holds, \<open>nk_ftell\<close>, \<open>nk_feof\<close>, \<open>nk_fpeek\<close>, \<open>nk_fnext\<close>, \<open>nk_fgetc\<close>, \<open>nk_fseek\<close> (to every position up to
  the end) and \<open>nk_fpeek_rel\<close> (forward and backward) return what the string has there, \<open>-1\<close>
  exactly at the end, never read outside the buffer, and leave the file at the right position.\<close>

theorem infile_refines_byte_string:
  assumes "block_source br content readable" "block_view br content readable f data p"
  shows "unat (nk_ftell f) = p \<and> nk_feof f = (p = length data) \<and> nk_fpeek f = Some (char_at data p)
    \<and> (\<exists>f'. nk_fnext f = Some (char_at data (Suc p), f') \<and> block_view br content readable f' data (min (Suc p) (length data)))
    \<and> (\<exists>f'. nk_fgetc f = Some (char_at data p, f') \<and> block_view br content readable f' data (min (Suc p) (length data)))
    \<and> (\<forall>n. unat n \<le> length data \<longrightarrow>
         (\<exists>f'. nk_fseek f n = Some (char_at data (unat n), f') \<and> block_view br content readable f' data (unat n)))
    \<and> (\<forall>n. unat (nk_ftell f + n) \<le> length data \<longrightarrow>
         (\<exists>f'. nk_fpeek_rel f n = Some (char_at data (unat (nk_ftell f + n)), f') \<and> block_view br content readable f' data p))"
  using block_source.block_operations [OF assms] .

theorem infile_refines_byte_string_witness:
  "\<exists>f f'. nkinfile_open (Some (\<lambda>s pos bs. Some (word_of_nat (min (unat bs) (length s - unat pos)),
        take (unat bs) (drop (unat pos) s), s))) [10, 11, 12, 13, 14] 4 [0, 0, 0, 0] = Some f
     \<and> nk_fseek f 4 = Some (14, f') \<and> nk_fpeek f = Some 10"
proof -
  let ?br = "\<lambda>s pos bs. Some (word_of_nat (min (unat bs) (length s - unat pos)), take (unat bs) (drop (unat pos) s), s)"
  have src: "block_source ?br (\<lambda>s. s) (\<lambda>_. True)" by unfold_locales simp
  have "pow2 (4 :: u32)" by (rule pow2_numeral_intro [of 2]) simp_all
  then obtain f where f: "nkinfile_open (Some ?br) [10, 11, 12, 13, 14] 4 [0, 0, 0, 0] = Some f"
      "block_view ?br (\<lambda>s. s) (\<lambda>_. True) f [10, 11, 12, 13, 14] 0"
    using block_source.open_view [OF src, of "[10, 11, 12, 13, 14]" "[10, 11, 12, 13, 14]" 4 "[0, 0, 0, 0]"] by auto
  note r = infile_refines_byte_string [OF src f(2)]
  then have "nk_fpeek f = Some 10" by (simp add: char_at_def)
  moreover from r have "unat (4 :: u32) \<le> length [10, 11, 12, 13, 14 :: u8] \<longrightarrow>
      (\<exists>f'. nk_fseek f 4 = Some (char_at [10, 11, 12, 13, 14] (unat (4 :: u32)), f'))" by blast
  ultimately show ?thesis using f(1) by (auto simp: char_at_def)
qed

text \<open>C22. Copying a file delivers it whole: opening a block device as an input file, copying it to an
  output file on a sink and flushing returns status 0, and the sink then holds the device's contents,
  byte for byte, after what it held before, up to the padding of the last write. The loop ends.\<close>

theorem fcopy_copies_file:
  assumes "block_source br content readable" "block_sink bw written ready"
    and "readable s" "pow2 bs" "unat bs \<le> length ibuf" "length (content s) + unat bs < 2 ^ 32"
    and "0 < unat len" "unat len < 2 ^ 31" "unat len \<le> length obuf" "pow2 g" "unat g dvd unat len"
    and "ready t (roundup (unat g) (length (content s)))"
  shows "\<exists>f f' g1 g2 pad. nkinfile_open (Some br) s bs ibuf = Some f
    \<and> nk_fcopy (nkoutfile_open (Some bw) t obuf len g) f = Some (0, g1, f') \<and> nk_feof f'
    \<and> nk_fflush g1 = Some (0, g2) \<and> length pad < unat g
    \<and> written (o_block_write_ptr g2) = written t @ content s @ pad"
proof -
  let ?g = "nkoutfile_open (Some bw) t obuf len g"
  have rd: "reader (block_source.block_ok br content readable)" using block_source.block_reader [OF assms(1)] .
  have copy: "file_copy (block_source.block_ok br content readable) bw written ready"
    using rd assms(2) by (rule file_copy.intro)
  obtain f where f: "nkinfile_open (Some br) s bs ibuf = Some f" "block_view br content readable f (content s) 0"
    using block_source.open_view [OF assms(1,3) refl assms(4-6)] .
  have ok: "block_sink.open_for bw ready ?g (length (content s) - 0)"
    unfolding block_sink.open_for_def [OF assms(2)] using assms(7-12)
    by (simp add: nkoutfile_open_def outfile_ok_def)
  have start: "block_sink.contents written ?g = written t"
    by (simp add: block_sink.contents_def [OF assms(2)] nkoutfile_open_def pending_def)
  have gran: "o_granularity ?g = g" by (simp add: nkoutfile_open_def)
  obtain g1 f' where g1: "nk_fcopy ?g f = Some (0, g1, f')" "block_view br content readable f' (content s) (length (content s))"
      "block_sink.open_for bw ready g1 0" "block_sink.contents written g1 = written t @ content s" "o_granularity g1 = g"
    using file_copy.fcopy_loop_copies [OF copy f(2) ok] unfolding start gran nk_fcopy_def drop_0 by blast
  obtain g2 pad where g2: "nk_fflush g1 = Some (0, g2)" 
      "written (o_block_write_ptr g2) = block_sink.contents written g1 @ pad"
      "length pad = roundup (unat g) (unat (o_ptr g1)) - unat (o_ptr g1)"
    using block_sink.fflush_delivers [OF assms(2) g1(3) disjI2 [OF refl]] g1(5) by metis
  have "length pad < unat g" using g2(3) roundup_less [OF pow2_pos [OF assms(10)]] by simp
  then show ?thesis using f g1 g2 reader.feof_view [OF rd g1(2)] by auto
qed

theorem fcopy_copies_file_witness:
  "\<exists>f f' g1 g2 pad. nkinfile_open (Some (\<lambda>s pos bs. Some (word_of_nat (min (unat bs) (length s - unat pos)),
        take (unat bs) (drop (unat pos) s), s))) [10, 11, 12, 13, 14] 4 [0, 0, 0, 0] = Some f
    \<and> nk_fcopy (nkoutfile_open (Some (\<lambda>s bs. Some (0, s @ bs))) [] [0, 0] 2 1) f = Some (0, g1, f') \<and> nk_feof f'
    \<and> nk_fflush g1 = Some (0, g2) \<and> length pad < unat (1 :: u32)
    \<and> o_block_write_ptr g2 = [] @ [10, 11, 12, 13, 14] @ pad"
proof -
  let ?br = "\<lambda>s pos bs. Some (word_of_nat (min (unat bs) (length s - unat pos)), take (unat bs) (drop (unat pos) s), s)"
  have src: "block_source ?br (\<lambda>s. s) (\<lambda>_. True)" by unfold_locales simp
  have sink: "block_sink (\<lambda>s bs. Some (0, s @ bs)) (\<lambda>s. s) (\<lambda>_ _. True)"
    by unfold_locales auto
  have "pow2 (4 :: u32)" by (rule pow2_numeral_intro [of 2]) simp_all
  moreover have "pow2 (1 :: u32)" by (rule pow2_numeral_intro [of 0]) simp_all
  ultimately show ?thesis
    using fcopy_copies_file [OF src sink, where s = "[10, 11, 12, 13, 14]" and bs = 4 and ibuf = "[0, 0, 0, 0]"
      and len = 2 and obuf = "[0, 0]" and g = 1 and t = "[]"] by simp
qed

text \<open>On a memory file at position \<open>p\<close>, \<open>nk_fpeek_abs\<close> of an absolute offset inside the file reads the
  byte at \<open>p\<close> plus that offset, and outside the memory when that is past it: the offset is taken from the current
  pointer, not from the start of the buffer. Only at position 0 does it return the byte at the offset.\<close>

theorem fpeek_abs_adds_position:
  assumes "mem_file.view f data p" "unat n < length data" "p + unat n < 2 ^ 32"
  shows "nk_fpeek_abs f n = map_option (\<lambda>c. (uint c, f)) (deref (i_buffer f) (p + unat n))"
proof -
  have w: "window_ok f data" "i_start_offset f = 0" "unat (i_ptr f) = p" "unat (i_len f) = length data"
    using assms(1) mem_ok_window by (auto simp: mem_file.view_def mem_ok_def at_pos_def)
  then have "nk_contained f n" using assms(2) by (simp add: contained_iff)
  then show ?thesis
    using w assms(3) by (simp add: nk_fpeek_abs_def unat_add_no_wrap map_conv_bind_option comp_def)
qed

theorem fpeek_abs_adds_position_witness:
  "nk_fpeek_abs (nkinfile_open_mem () [65, 66, 67] 3) 1 = Some (66, nkinfile_open_mem () [65, 66, 67] 3)
   \<and> nk_fpeek_abs ((nkinfile_open_mem () [65, 66, 67] 3)\<lparr>i_ptr := 1\<rparr>) 1
       = Some (67, (nkinfile_open_mem () [65, 66, 67] 3)\<lparr>i_ptr := 1\<rparr>)"
proof -
  have "mem_file.view (nkinfile_open_mem () [65, 66, 67] 3) [65, 66, 67] 0"
    "mem_file.view ((nkinfile_open_mem () [65, 66, 67] 3)\<lparr>i_ptr := 1\<rparr>) [65, 66, 67] 1"
    by (simp_all add: mem_file.view_def mem_ok_def at_pos_def nkinfile_open_mem_def)
  from this [THEN fpeek_abs_adds_position, of 1] show ?thesis
    by (simp add: deref_def nkinfile_open_mem_def)
qed

end
