(* ===== verification/Checked.thy ===== *)
theory Checked
  imports Crc Infile
begin

text \<open>
  Files in a region of flash memory, \<^verbatim>\<open>libnklabs/src/nkchecked.c\<close> (with a header that holds the length and
  the CRC) and \<^verbatim>\<open>libnklabs/src/nkdirect.c\<close> (without one). The flash access functions are fields of the
  file's constant part, as in the sources; the device behind \<open>info\<close> is a state that they
  transform. The locale \<open>flash_device\<close> states what a driver promises. In it the checked
  file is shown to be a sink for output files and a source for input files, which gives the round trip,
  and to reject what was not written completely.
\<close>

section \<open>The constant part of a file\<close>

text \<open>The two modules declare the same structure, \<open>nk_checked_base_t\<close> and \<open>nk_direct_base_t\<close>. A flash read returns
  the status and the bytes it stores in the caller's buffer; \<open>None\<close> is a call that does not return.\<close>

record 's nk_checked_base =
  area_size :: u32
  area_base :: u32
  erase_size :: u32
  flash_read :: "'s \<Rightarrow> u32 \<Rightarrow> u32 \<Rightarrow> (int \<times> bytes \<times> 's) option"
  flash_erase :: "('s \<Rightarrow> u32 \<Rightarrow> u32 \<Rightarrow> (int \<times> 's) option) option"
  flash_write :: "'s \<Rightarrow> u32 \<Rightarrow> bytes \<Rightarrow> (int \<times> 's) option"
  granularity :: u32

text \<open>The variable part, with the state of the device behind \<open>file->info\<close>.\<close>

record 's nk_checked =
  ck_file :: "'s nk_checked_base"
  ck_crc :: u32
  ck_size :: u32
  ck_info :: 's

section \<open>The header\<close>

text \<open>\<open>nk_checked_header_t\<close> in memory: two little-endian 32-bit words.\<close>

definition le32_bytes :: "u32 \<Rightarrow> bytes" where
  "le32_bytes w = [ucast w, ucast (drop_bit 8 w), ucast (drop_bit 16 w), ucast (drop_bit 24 w)]"

definition le32_word :: "bytes \<Rightarrow> u32 option" where
  "le32_word bs = (case bs of
       b0 # b1 # b2 # b3 # _ \<Rightarrow>
         Some (ucast b0 OR push_bit 8 (ucast b1) OR push_bit 16 (ucast b2) OR push_bit 24 (ucast b3))
     | _ \<Rightarrow> None)"

definition header_bytes :: "u32 \<Rightarrow> u32 \<Rightarrow> bytes" where
  "header_bytes sz crc = le32_bytes sz @ le32_bytes crc"

lemma length_header_bytes [simp]: "length (header_bytes sz crc) = 8"
  by (simp add: header_bytes_def le32_bytes_def)

lemma le32_word_bytes: "le32_word (le32_bytes w @ rest) = Some w"
proof -
  have "ucast (ucast w :: u8) OR push_bit 8 (ucast (ucast (drop_bit 8 w) :: u8))
      OR push_bit 16 (ucast (ucast (drop_bit 16 w) :: u8)) OR push_bit 24 (ucast (ucast (drop_bit 24 w) :: u8)) = w"
    (is "?l = w")
  proof (rule bit_word_eqI)
    fix n
    assume "n < LENGTH(32)"
    then show "bit ?l n = bit w n"
      by (cases "n < 8"; cases "n < 16"; cases "n < 24") (simp_all add: bit_simps not_less less_diff_conv2)
  qed
  then show ?thesis by (simp add: le32_word_def le32_bytes_def)
qed

section \<open>Operations of the checked file\<close>

text \<open>The loop that computes the CRC of the stored bytes, reading \<open>buf_size\<close> bytes at a time into the
  caller's buffer.\<close>

partial_function (option) checked_crc_loop ::
  "'s nk_checked_base \<Rightarrow> u32 \<Rightarrow> u32 \<Rightarrow> u32 \<Rightarrow> u32 \<Rightarrow> bytes \<Rightarrow> 's \<Rightarrow> ((int + u32) \<times> bytes \<times> 's) option" where
  "checked_crc_loop file buf_size sz addr crc buffer s =
     (if sz = 0 then Some (Inr crc, buffer, s)
      else do {
        let len = (if sz > buf_size then buf_size else sz);
        (rtn, data, s) \<leftarrow> flash_read file s addr len;
        buffer \<leftarrow> store_at buffer 0 data;
        if rtn \<noteq> 0 then Some (Inl rtn, buffer, s)
        else do {
          bytes \<leftarrow> load_from buffer 0 (unat len);
          checked_crc_loop file buf_size (sz - len) (addr + len) (foldl nk_crc32be_update crc bytes) buffer s
        }
      })"

definition nk_checked_read_open ::
  "'s nk_checked \<Rightarrow> 's nk_checked_base \<Rightarrow> bytes \<Rightarrow> u32 \<Rightarrow> (int \<times> 's nk_checked \<times> bytes) option" where
  "nk_checked_read_open var_file file buffer buf_size = do {
     let var_file = var_file\<lparr>ck_file := file\<rparr>;
     (rtn, data, s) \<leftarrow> flash_read file (ck_info var_file) (area_base file) 8;
     buffer \<leftarrow> store_at buffer 0 data;
     let var_file = var_file\<lparr>ck_info := s\<rparr>;
     if rtn \<noteq> 0 then Some (rtn, var_file, buffer)
     else do {
       header_size \<leftarrow> le32_word buffer;
       header_crc \<leftarrow> le32_word (drop 4 buffer);
       let var_file = var_file\<lparr>ck_size := header_size, ck_crc := header_crc\<rparr>;
       if ck_size var_file > area_size file - 8 then Some (-1, var_file, buffer)
       else do {
         (r, buffer, s) \<leftarrow>
           checked_crc_loop file buf_size (ck_size var_file) (8 + area_base file) 0 buffer (ck_info var_file);
         let var_file = var_file\<lparr>ck_info := s\<rparr>;
         Some (case r of Inl rtn \<Rightarrow> rtn | Inr crc \<Rightarrow> if crc \<noteq> ck_crc var_file then -1 else 0, var_file, buffer)
       }
     }
   }"

definition nk_checked_read :: "'s nk_checked \<Rightarrow> u32 \<Rightarrow> u32 \<Rightarrow> (u32 \<times> bytes \<times> 's nk_checked) option" where
  "nk_checked_read var_file offset buf_size =
     (let file = ck_file var_file;
          len = buf_size;
          len = (if offset + len > ck_size var_file then ck_size var_file - offset else len)
      in if len \<noteq> 0 then do {
           (rtn, data, s) \<leftarrow> flash_read file (ck_info var_file) (area_base file + 8 + offset) len;
           let len = (if rtn \<noteq> 0 then 0 else len);
           Some (len, data, var_file\<lparr>ck_info := s\<rparr>)
         }
         else Some (len, [], var_file))"

definition nk_checked_write_open :: "'s nk_checked \<Rightarrow> 's nk_checked_base \<Rightarrow> (int \<times> 's nk_checked) option" where
  "nk_checked_write_open var_file file = do {
     let var_file = var_file\<lparr>ck_file := file, ck_crc := 0, ck_size := 0\<rparr>;
     (rtn, s) \<leftarrow> (case flash_erase file of
         Some erase \<Rightarrow> erase (ck_info var_file) (area_base file) (erase_size file)
       | None \<Rightarrow> flash_write file (ck_info var_file) (area_base file) (replicate 8 0xFF));
     Some (rtn, var_file\<lparr>ck_info := s\<rparr>)
   }"

text \<open>The loop that writes up to one erase block at a time and erases each block it enters; the same code
  in both modules.\<close>

partial_function (option) write_blocks ::
  "'s nk_checked_base \<Rightarrow> u32 \<Rightarrow> u32 \<Rightarrow> bytes \<Rightarrow> 's \<Rightarrow> (int \<times> 's) option" where
  "write_blocks file len address buffer s =
     (if len = 0 then Some (0, s)
      else do {
        let page_offset = address AND (erase_size file - 1);
        let page_len = erase_size file - page_offset;
        let page_len = (if len < page_len then len else page_len);
        (rtn, s) \<leftarrow> (case flash_erase file of
            Some erase \<Rightarrow>
              if address AND (erase_size file - 1) = 0 then erase s address (erase_size file) else Some (0, s)
          | None \<Rightarrow> Some (0, s));
        if rtn \<noteq> 0 then Some (rtn, s)
        else do {
          data \<leftarrow> load_from buffer 0 (unat page_len);
          (rtn, s) \<leftarrow> flash_write file s address data;
          if rtn \<noteq> 0 then Some (rtn, s)
          else write_blocks file (len - page_len) (address + page_len) (drop (unat page_len) buffer) s
        }
      })"

definition nk_checked_write :: "'s nk_checked \<Rightarrow> bytes \<Rightarrow> (int \<times> 's nk_checked) option" where
  "nk_checked_write var_file buffer = do {
     let len = word_of_nat (length buffer);
     let file = ck_file var_file;
     let var_file = var_file\<lparr>ck_crc := foldl nk_crc32be_update (ck_crc var_file) buffer\<rparr>;
     let address = area_base file + 8 + ck_size var_file;
     let var_file = var_file\<lparr>ck_size := ck_size var_file + len\<rparr>;
     (rtn, s) \<leftarrow> write_blocks file len address buffer (ck_info var_file);
     Some (rtn, var_file\<lparr>ck_info := s\<rparr>)
   }"

definition nk_checked_write_close :: "'s nk_checked \<Rightarrow> (int \<times> 's nk_checked) option" where
  "nk_checked_write_close var_file = do {
     let file = ck_file var_file;
     (rtn, s) \<leftarrow> flash_write file (ck_info var_file) (area_base file) (header_bytes (ck_size var_file) (ck_crc var_file));
     Some (rtn, var_file\<lparr>ck_info := s\<rparr>)
   }"

section \<open>Operations of the direct file\<close>

definition nk_direct_read_open :: "'s nk_checked \<Rightarrow> 's nk_checked_base \<Rightarrow> int \<times> 's nk_checked" where
  "nk_direct_read_open var_file file = (0, var_file\<lparr>ck_file := file, ck_crc := 0, ck_size := area_size file\<rparr>)"

definition nk_direct_read :: "'s nk_checked \<Rightarrow> u32 \<Rightarrow> u32 \<Rightarrow> (u32 \<times> bytes \<times> 's nk_checked) option" where
  "nk_direct_read var_file offset buf_size =
     (let file = ck_file var_file;
          len = buf_size;
          len = (if offset + len > ck_size var_file then ck_size var_file - offset else len)
      in if len \<noteq> 0 then do {
           (rtn, data, s) \<leftarrow> flash_read file (ck_info var_file) (area_base file + offset) len;
           let len = (if rtn \<noteq> 0 then 0 else len);
           Some (len, data, var_file\<lparr>ck_info := s\<rparr>)
         }
         else Some (len, [], var_file))"

definition nk_direct_write_open :: "'s nk_checked \<Rightarrow> 's nk_checked_base \<Rightarrow> int \<times> 's nk_checked" where
  "nk_direct_write_open var_file file = (0, var_file\<lparr>ck_file := file, ck_crc := 0, ck_size := 0\<rparr>)"

definition nk_direct_write :: "'s nk_checked \<Rightarrow> bytes \<Rightarrow> (int \<times> 's nk_checked) option" where
  "nk_direct_write var_file buffer = do {
     let len = word_of_nat (length buffer);
     let file = ck_file var_file;
     let var_file = var_file\<lparr>ck_crc := foldl nk_crc32be_update (ck_crc var_file) buffer\<rparr>;
     let address = area_base file + ck_size var_file;
     let var_file = var_file\<lparr>ck_size := ck_size var_file + len\<rparr>;
     (rtn, s) \<leftarrow> write_blocks file len address buffer (ck_info var_file);
     Some (rtn, var_file\<lparr>ck_info := s\<rparr>)
   }"

definition nk_direct_write_close :: "'s nk_checked \<Rightarrow> int" where
  "nk_direct_write_close var_file = 0"

section \<open>What a flash driver promises\<close>

text \<open>\<open>mem s\<close> is the memory of the device in state \<open>s\<close>, by address. A read returns it; an erase of
  one aligned block sets that block to 0xFF; a write stores its bytes where the memory is erased, or
  anywhere when the device needs no erase (\<open>needs_erase\<close> is false, an EEPROM).\<close>

definition set_range :: "(nat \<Rightarrow> u8) \<Rightarrow> nat \<Rightarrow> bytes \<Rightarrow> nat \<Rightarrow> u8" where
  "set_range m a bs = (\<lambda>i. if a \<le> i \<and> i < a + length bs then bs ! (i - a) else m i)"

definition range_of :: "(nat \<Rightarrow> u8) \<Rightarrow> nat \<Rightarrow> nat \<Rightarrow> bytes" where
  "range_of m a n = map m [a..<a + n]"

lemma length_range_of [simp]: "length (range_of m a n) = n"
  by (simp add: range_of_def)

lemma range_of_0 [simp]: "range_of m a 0 = []"
  by (simp add: range_of_def)

lemma range_of_add: "range_of m a (n + k) = range_of m a n @ range_of m (a + n) k"
  unfolding range_of_def add.assoc [symmetric] using upt_add_eq_append [of a "a + n" k] by simp

lemma range_of_set_same [simp]: "range_of (set_range m a bs) a (length bs) = bs"
  by (auto simp: range_of_def set_range_def intro: nth_equalityI)

lemma range_of_set_disjoint:
  "a + n \<le> b \<or> b + length bs \<le> a \<Longrightarrow> range_of (set_range m b bs) a n = range_of m a n"
  by (auto simp: range_of_def set_range_def)

lemma range_of_cong: "(\<And>i. a \<le> i \<Longrightarrow> i < a + n \<Longrightarrow> m i = m' i) \<Longrightarrow> range_of m a n = range_of m' a n"
  by (auto simp: range_of_def)

lemma drop_range_of: "i + n \<le> k \<Longrightarrow> take n (drop i (range_of m a k)) = range_of m (a + i) n"
  by (auto simp: range_of_def add.assoc intro!: nth_equalityI)

lemma all_range: "(\<forall>i. a \<le> i \<and> i < a + n \<longrightarrow> m i = v) \<longleftrightarrow> range_of m a n = replicate n v"
proof
  assume "range_of m a n = replicate n v"
  then show "\<forall>i. a \<le> i \<and> i < a + n \<longrightarrow> m i = v"
    unfolding range_of_def list_eq_iff_nth_eq
    by (metis add_diff_inverse_nat length_map length_upt linorder_not_less nat_add_left_cancel_less nth_map_upt nth_replicate diff_add_inverse)
qed (auto simp: range_of_def intro!: nth_equalityI)

locale flash_device =
  fixes fread :: "'s \<Rightarrow> u32 \<Rightarrow> u32 \<Rightarrow> (int \<times> bytes \<times> 's) option"
    and ferase :: "'s \<Rightarrow> u32 \<Rightarrow> u32 \<Rightarrow> (int \<times> 's) option"
    and fwrite :: "'s \<Rightarrow> u32 \<Rightarrow> bytes \<Rightarrow> (int \<times> 's) option"
    and needs_erase :: bool
    and mem :: "'s \<Rightarrow> nat \<Rightarrow> u8"
    and device_ok :: "'s \<Rightarrow> bool"
    and block :: nat
    and device_size :: nat
  assumes device_size: "device_size < 2 ^ 32"
    and fread: "device_ok s \<Longrightarrow> unat a + unat n \<le> device_size \<Longrightarrow>
      \<exists>s'. fread s a n = Some (0, range_of (mem s) (unat a) (unat n), s') \<and> device_ok s' \<and> mem s' = mem s"
    and ferase: "needs_erase \<Longrightarrow> device_ok s \<Longrightarrow> unat n = block \<Longrightarrow> block dvd unat a \<Longrightarrow> unat a + block \<le> device_size \<Longrightarrow>
      \<exists>s'. ferase s a n = Some (0, s') \<and> device_ok s' \<and> mem s' = set_range (mem s) (unat a) (replicate block 0xFF)"
    and fwrite: "device_ok s \<Longrightarrow> unat a + length bs \<le> device_size \<Longrightarrow>
      (needs_erase \<longrightarrow> (\<forall>i. unat a \<le> i \<and> i < unat a + length bs \<longrightarrow> mem s i = 0xFF)) \<Longrightarrow>
      \<exists>s'. fwrite s a bs = Some (0, s') \<and> device_ok s' \<and> mem s' = set_range (mem s) (unat a) bs"
begin

text \<open>A file on this device: whole erase blocks inside the device.\<close>

definition on_device :: "'s nk_checked_base \<Rightarrow> bool" where
  "on_device file \<longleftrightarrow> flash_read file = fread \<and> flash_write file = fwrite
     \<and> flash_erase file = (if needs_erase then Some ferase else None)
     \<and> pow2 (erase_size file) \<and> unat (erase_size file) = block \<and> 8 \<le> block
     \<and> block dvd unat (area_base file) \<and> block dvd unat (area_size file) \<and> 8 \<le> unat (area_size file)
     \<and> unat (area_base file) + unat (area_size file) \<le> device_size"

text \<open>The end of the erase block of an address. The memory from an address to the end of its block is erased;
  at the start of a block nothing is asked, since the writer erases the block it enters.\<close>

definition block_end :: "nat \<Rightarrow> nat" where
  "block_end a = a + (block - a mod block)"

definition block_rest_erased :: "(nat \<Rightarrow> u8) \<Rightarrow> nat \<Rightarrow> bool" where
  "block_rest_erased m a \<longleftrightarrow>
     (needs_erase \<longrightarrow> a mod block \<noteq> 0 \<longrightarrow> (\<forall>i. a \<le> i \<and> i < block_end a \<longrightarrow> m i = 0xFF))"

lemma block_end_eq: "0 < block \<Longrightarrow> block_end a = (a div block + 1) * block"
proof -
  assume "0 < block"
  then have "a mod block < block" by simp
  then show ?thesis
    unfolding block_end_def add_mult_distrib mult_1 using div_mult_mod_eq [of a block] by linarith
qed

lemma block_end_inside: "0 < block \<Longrightarrow> a \<le> i \<Longrightarrow> i < block_end a \<Longrightarrow> block_end i = block_end a"
proof -
  assume b: "0 < block" "a \<le> i" "i < block_end a"
  then have "i div block < a div block + 1" by (simp add: block_end_eq div_less_iff_less_mult)
  moreover have "a div block \<le> i div block" using b(2) by (rule div_le_mono)
  ultimately show ?thesis using b(1) by (simp add: block_end_eq)
qed

lemma block_end_mod: "0 < block \<Longrightarrow> block_end a mod block = 0"
  by (simp add: block_end_eq)

lemma block_end_le: "0 < block \<Longrightarrow> block dvd e \<Longrightarrow> a < e \<Longrightarrow> block_end a \<le> e"
  by (auto simp: block_end_eq elim!: dvdE) (metis Suc_leI less_mult_imp_div_less mult.commute mult_le_mono2 mult_Suc_right add.commute)

text \<open>Entering a block: afterwards the rest of the block can be written.\<close>

lemma enter_block:
  assumes "on_device file" "device_ok s" "block_rest_erased (mem s) (unat address)"
    and "unat address < unat (area_base file) + unat (area_size file)"
  obtains s1 where "(case flash_erase file of
        Some erase \<Rightarrow> if address AND (erase_size file - 1) = 0 then erase s address (erase_size file) else Some (0, s)
      | None \<Rightarrow> Some (0, s)) = Some (0, s1)" "device_ok s1" "\<forall>i<unat address. mem s1 i = mem s i"
    "\<forall>i\<ge>unat (area_base file) + unat (area_size file). mem s1 i = mem s i"
    "needs_erase \<longrightarrow> (\<forall>i. unat address \<le> i \<and> i < block_end (unat address) \<longrightarrow> mem s1 i = 0xFF)"
proof -
  let ?a = "unat address"
  have b: "0 < block" "pow2 (erase_size file)" "unat (erase_size file) = block"
    and dev: "flash_erase file = (if needs_erase then Some ferase else None)"
    and size: "unat (area_base file) + unat (area_size file) \<le> device_size" "block dvd unat (area_base file) + unat (area_size file)"
    using assms(1) by (auto simp: on_device_def)
  have ofs: "address AND (erase_size file - 1) = 0 \<longleftrightarrow> ?a mod block = 0"
    using b and_pow2_minus_1 [OF b(2), of address] by (metis unat_eq_zero)
  show ?thesis
  proof (cases "needs_erase \<and> ?a mod block = 0")
    case False
    then show ?thesis using that [of s] assms(2,3) by (auto simp: dev ofs block_rest_erased_def)
  next
    case True
    then have fits: "?a + block \<le> unat (area_base file) + unat (area_size file)"
      using block_end_le [OF b(1) size(2) assms(4)] by (simp add: block_end_def)
    then have "?a + block \<le> device_size" using size(1) by simp
    then obtain s' where "ferase s address (erase_size file) = Some (0, s')" "device_ok s'"
        "mem s' = set_range (mem s) ?a (replicate block 0xFF)"
      using ferase [of s "erase_size file" address] True assms(2) b(3) by auto
    moreover have "set_range (mem s) ?a (replicate block 0xFF) i = 0xFF" if "?a \<le> i" "i < ?a + block" for i
      using that by (simp add: set_range_def)
    moreover have "set_range (mem s) ?a (replicate block 0xFF) i = mem s i" if "i < ?a \<or> unat (area_base file) + unat (area_size file) \<le> i" for i
      using that fits by (auto simp: set_range_def)
    ultimately show ?thesis using that [of s'] True by (auto simp: dev ofs block_end_def)
  qed
qed

lemma write_blocks_ok:
  assumes "on_device file" "device_ok s" "block_rest_erased (mem s) (unat address)"
    and "unat len = length buffer"
    and "unat address + length buffer \<le> unat (area_base file) + unat (area_size file)"
  shows "\<exists>s'. write_blocks file len address buffer s = Some (0, s') \<and> device_ok s'
    \<and> range_of (mem s') (unat address) (length buffer) = buffer
    \<and> (\<forall>i<unat address. mem s' i = mem s i)
    \<and> (\<forall>i\<ge>unat (area_base file) + unat (area_size file). mem s' i = mem s i)
    \<and> block_rest_erased (mem s') (unat address + length buffer)"
  using assms
proof (induction "length buffer" arbitrary: len address buffer s rule: less_induct)
  case less
  show ?case
  proof (cases "len = 0")
    case True
    then show ?thesis using less.prems by (subst write_blocks.simps) simp
  next
    case False
    let ?a = "unat address"
    have b: "0 < block" "pow2 (erase_size file)" "unat (erase_size file) = block"
      and dev: "flash_write file = fwrite"
      using less.prems(1) by (auto simp: on_device_def)
    let ?pl = "let pl = erase_size file - (address AND (erase_size file - 1)) in if len < pl then len else pl"
    define n where "n = min (length buffer) (block - ?a mod block)"
    have pl: "unat ?pl = n"
      using less.prems(4) b mod_less_divisor [OF b(1), of ?a] and_pow2_minus_1 [OF b(2), of address]
      by (auto simp: Let_def unat_sub_no_wrap word_less_nat_alt min_def n_def)
    have "0 < length buffer" using False less.prems(4) by (metis unat_eq_zero neq0_conv)
    then have n: "0 < n" "n \<le> length buffer" "?a + n \<le> block_end ?a"
      using mod_less_divisor [OF b(1), of ?a] by (auto simp: n_def block_end_def)
    have area: "?a + length buffer \<le> device_size" "device_size < 2 ^ 32"
      using less.prems(1,5) device_size by (auto simp: on_device_def)
    have "?a < unat (area_base file) + unat (area_size file)" using less.prems(5) \<open>0 < length buffer\<close> by linarith
    from enter_block [OF less.prems(1-3) this] obtain s1 where s1: "(case flash_erase file of
            Some erase \<Rightarrow> if address AND (erase_size file - 1) = 0 then erase s address (erase_size file) else Some (0, s)
          | None \<Rightarrow> Some (0, s)) = Some (0, s1)" "device_ok s1" "\<forall>i<?a. mem s1 i = mem s i"
          "\<forall>i\<ge>unat (area_base file) + unat (area_size file). mem s1 i = mem s i"
          "needs_erase \<longrightarrow> (\<forall>i. ?a \<le> i \<and> i < block_end ?a \<longrightarrow> mem s1 i = 0xFF)" .
    have "needs_erase \<longrightarrow> (\<forall>i. ?a \<le> i \<and> i < ?a + length (take n buffer) \<longrightarrow> mem s1 i = 0xFF)"
      using s1(5) n by auto
    then obtain s2 where s2: "fwrite s1 address (take n buffer) = Some (0, s2)" "device_ok s2"
        "mem s2 = set_range (mem s1) ?a (take n buffer)"
      using fwrite [of s1 address "take n buffer"] s1(2) n area by auto
    have addr': "unat (address + ?pl) = ?a + n"
      using pl n area by (subst unat_add_no_wrap) auto
    have rest: "block_rest_erased (mem s2) (?a + n)"
    proof (cases "?a + n < block_end ?a")
      case True
      then show ?thesis
        using s1(5) block_end_inside [OF b(1) _ True] n
        by (auto simp: block_rest_erased_def s2(3) set_range_def)
    next
      case False
      then have "?a + n = block_end ?a" using n by simp
      then show ?thesis using block_end_mod [OF b(1)] by (simp add: block_rest_erased_def)
    qed
    have IH: "\<exists>s'. write_blocks file (len - ?pl) (address + ?pl) (drop n buffer) s2 = Some (0, s') \<and> device_ok s'
        \<and> range_of (mem s') (?a + n) (length (drop n buffer)) = drop n buffer
        \<and> (\<forall>i<?a + n. mem s' i = mem s2 i)
        \<and> (\<forall>i\<ge>unat (area_base file) + unat (area_size file). mem s' i = mem s2 i)
        \<and> block_rest_erased (mem s') (?a + n + length (drop n buffer))"
      unfolding addr' [symmetric]
    proof (rule less.hyps)
      show "unat (len - ?pl) = length (drop n buffer)"
        using pl n(2) less.prems(4) by (simp only: unat_sub_no_wrap length_drop)
      show "block_rest_erased (mem s2) (unat (address + ?pl))" unfolding addr' by (rule rest)
      show "unat (address + ?pl) + length (drop n buffer) \<le> unat (area_base file) + unat (area_size file)"
        unfolding addr' using less.prems(5) n(2) by simp
    qed (use less.prems n s2 in auto)
    then obtain s' where s': "write_blocks file (len - ?pl) (address + ?pl) (drop n buffer) s2 = Some (0, s')" "device_ok s'"
        "range_of (mem s') (?a + n) (length (drop n buffer)) = drop n buffer"
        "\<forall>i<?a + n. mem s' i = mem s2 i" "\<forall>i\<ge>unat (area_base file) + unat (area_size file). mem s' i = mem s2 i"
        "block_rest_erased (mem s') (?a + length buffer)"
      using n(2) by auto
    have "write_blocks file len address buffer s = Some (0, s')"
      using False s1(1) s2(1) s'(1) dev pl n(2)
      by (subst write_blocks.simps) (simp add: Let_def buf_simps)
    moreover have "range_of (mem s') ?a (length buffer) = buffer"
    proof -
      have "range_of (mem s') ?a n = take n buffer"
        using s'(4) range_of_set_same [of "mem s1" ?a "take n buffer"] n(2) unfolding s2(3)
        by (auto intro: range_of_cong [THEN trans])
      then show ?thesis using range_of_add [of "mem s'" ?a n "length buffer - n"] s'(3) n(2) by simp
    qed
    moreover have "\<forall>i<?a. mem s' i = mem s i"
      using s'(4) s1(3) by (simp add: s2(3) set_range_def)
    moreover have "\<forall>i\<ge>unat (area_base file) + unat (area_size file). mem s' i = mem s i"
      using s'(5) s1(4) less.prems(5) n(2) by (simp add: s2(3) set_range_def)
    ultimately show ?thesis using s'(2,6) by blast
  qed
qed

end

context flash_device begin

section \<open>Writing a checked file\<close>

text \<open>A file being written: what is in its area so far, and the header still erased.\<close>

definition stored :: "'s nk_checked \<Rightarrow> bytes" where
  "stored v = range_of (mem (ck_info v)) (unat (area_base (ck_file v)) + 8) (unat (ck_size v))"

definition in_area :: "'s nk_checked \<Rightarrow> nat \<Rightarrow> bool" where
  "in_area v n \<longleftrightarrow> on_device (ck_file v) \<and> device_ok (ck_info v)
     \<and> 8 + unat (ck_size v) + n \<le> unat (area_size (ck_file v))"

definition writing :: "'s nk_checked_base \<Rightarrow> 's nk_checked \<Rightarrow> nat \<Rightarrow> bool" where
  "writing file v n \<longleftrightarrow> ck_file v = file \<and> in_area v n \<and> ck_crc v = nk_crc32be_check (stored v)
     \<and> range_of (mem (ck_info v)) (unat (area_base (ck_file v))) 8 = replicate 8 0xFF
     \<and> block_rest_erased (mem (ck_info v)) (unat (area_base (ck_file v)) + 8 + unat (ck_size v))"

text \<open>The memory outside the area of a file.\<close>

definition kept_outside :: "'s nk_checked_base \<Rightarrow> (nat \<Rightarrow> u8) \<Rightarrow> 's \<Rightarrow> bool" where
  "kept_outside file m s \<longleftrightarrow>
     (\<forall>i. i < unat (area_base file) \<or> unat (area_base file) + unat (area_size file) \<le> i \<longrightarrow> mem s i = m i)"

lemma kept_refl [simp]: "kept_outside file (mem s) s"
  by (simp add: kept_outside_def)

lemma kept_trans: "kept_outside file m s \<Longrightarrow> kept_outside file (mem s) s' \<Longrightarrow> kept_outside file m s'"
  by (simp add: kept_outside_def)

lemma kept_set_range:
  "unat (area_base file) \<le> a \<Longrightarrow> a + length bs \<le> unat (area_base file) + unat (area_size file) \<Longrightarrow> mem s' = set_range (mem s) a bs \<Longrightarrow>
   kept_outside file (mem s) s'"
  by (auto simp: kept_outside_def set_range_def)

lemma on_device_bounds:
  assumes "on_device file"
  shows "unat (area_base file) + unat (area_size file) < 2 ^ 32" "8 \<le> unat (area_size file)"
    "unat (area_size file - 8) = unat (area_size file) - 8" "unat (8 + area_base file) = unat (area_base file) + 8"
proof -
  show 1: "unat (area_base file) + unat (area_size file) < 2 ^ 32" "8 \<le> unat (area_size file)"
    using assms device_size by (auto simp: on_device_def)
  then show "unat (area_size file - 8) = unat (area_size file) - 8"
    by (simp add: unat_sub_no_wrap)
  show "unat (8 + area_base file) = unat (area_base file) + 8"
    using 1 by (subst unat_add_no_wrap) auto
qed

lemma area_address:
  assumes "in_area v n" "unat o1 \<le> unat (ck_size v)"
  shows "unat (area_base (ck_file v) + 8 + o1) = unat (area_base (ck_file v)) + 8 + unat o1"
proof -
  have d: "on_device (ck_file v)" "8 + unat (ck_size v) + n \<le> unat (area_size (ck_file v))"
    using assms(1) by (auto simp: in_area_def)
  have "unat (area_base (ck_file v) + 8) = unat (area_base (ck_file v)) + 8"
    using on_device_bounds(4) [OF d(1)] by (simp add: add.commute)
  then show ?thesis
    using on_device_bounds(1) [OF d(1)] d(2) assms(2) by (subst unat_add_no_wrap) auto
qed

lemma write_open_ok:
  assumes "on_device file" "device_ok (ck_info v)"
  obtains v' where "nk_checked_write_open v file = Some (0, v')"
    "writing file v' (unat (area_size file) - 8)" "stored v' = []" "kept_outside file (mem (ck_info v)) (ck_info v')"
proof -
  have d: "block dvd unat (area_base file)" "unat (erase_size file) = block" "8 \<le> block" "flash_write file = fwrite"
      "flash_erase file = (if needs_erase then Some ferase else None)" "8 \<le> unat (area_size file)"
      "unat (area_base file) + unat (area_size file) \<le> device_size" "block dvd unat (area_size file)"
    using assms(1) by (auto simp: on_device_def)
  let ?b = "unat (area_base file)"
  have "\<exists>s'. (case flash_erase file of
         Some erase \<Rightarrow> erase (ck_info v) (area_base file) (erase_size file)
       | None \<Rightarrow> flash_write file (ck_info v) (area_base file) (replicate 8 0xFF)) = Some (0, s') \<and> device_ok s'
     \<and> range_of (mem s') ?b 8 = replicate 8 0xFF \<and> block_rest_erased (mem s') (?b + 8) \<and> kept_outside file (mem (ck_info v)) s'"
  proof (cases needs_erase)
    case False
    then obtain s' where "fwrite (ck_info v) (area_base file) (replicate 8 0xFF) = Some (0, s')" "device_ok s'"
        "mem s' = set_range (mem (ck_info v)) ?b (replicate 8 0xFF)"
      using fwrite [of "ck_info v" "area_base file" "replicate 8 0xFF"] assms(2) d by auto
    moreover from this have "kept_outside file (mem (ck_info v)) s'" using d(6) by (intro kept_set_range) auto
    moreover have "block_rest_erased m (?b + 8)" for m unfolding block_rest_erased_def using False by blast
    ultimately show ?thesis
      unfolding d(4,5) if_not_P [OF False] option.case
      using range_of_set_same [of "mem (ck_info v)" ?b "replicate 8 0xFF"] by (metis length_replicate)
  next
    case True
    have fits: "block \<le> unat (area_size file)" using d(6,8) by (auto dest: dvd_imp_le)
    then obtain s' where s': "ferase (ck_info v) (area_base file) (erase_size file) = Some (0, s')" "device_ok s'"
        "mem s' = set_range (mem (ck_info v)) ?b (replicate block 0xFF)"
      using ferase [of "ck_info v" "erase_size file" "area_base file"] True assms(2) d by auto
    have all: "mem s' i = 0xFF" if "?b \<le> i" "i < ?b + block" for i
      using that by (simp add: s' set_range_def)
    then have "range_of (mem s') ?b 8 = replicate 8 0xFF"
      using d(3) all_range [of ?b 8 "mem s'"] by auto
    moreover have "block_rest_erased (mem s') (?b + 8)"
    proof (cases "block = 8")
      case True
      then have "(?b + 8) mod block = 0" using d(1) by auto
      then show ?thesis unfolding block_rest_erased_def by blast
    next
      case False
      have "block_end ?b = ?b + block" using d(1) by (simp add: block_end_def)
      then have "block_end (?b + 8) = ?b + block"
        using d(3) False block_end_inside [of ?b "?b + 8"] by simp
      then show ?thesis unfolding block_rest_erased_def using all by auto
    qed
    moreover have "kept_outside file (mem (ck_info v)) s'" using fits s'(3) by (intro kept_set_range) auto
    ultimately show ?thesis using s' True d by auto
  qed
  then obtain s' where s': "(case flash_erase file of
         Some erase \<Rightarrow> erase (ck_info v) (area_base file) (erase_size file)
       | None \<Rightarrow> flash_write file (ck_info v) (area_base file) (replicate 8 0xFF)) = Some (0, s')" "device_ok s'"
     "range_of (mem s') ?b 8 = replicate 8 0xFF" "block_rest_erased (mem s') (?b + 8)" "kept_outside file (mem (ck_info v)) s'" by blast
  let ?v = "v\<lparr>ck_file := file, ck_crc := 0, ck_size := 0, ck_info := s'\<rparr>"
  have "nk_checked_write_open v file = Some (0, ?v)"
    using s'(1) by (auto simp: nk_checked_write_open_def Let_def split: option.splits)
  moreover have "writing file ?v (unat (area_size file) - 8)" "stored ?v = []"
    using s' assms(1) d(6) by (simp_all add: writing_def in_area_def stored_def nk_crc32be_check_def)
  ultimately show ?thesis using that [of ?v] s'(5) by simp
qed

lemma checked_write_ok:
  assumes "writing file v (length bs + n)"
  obtains v' where "nk_checked_write v bs = Some (0, v')" "writing file v' n"
    "stored v' = stored v @ bs" "kept_outside file (mem (ck_info v)) (ck_info v')"
proof -
  let ?file = "ck_file v" and ?b = "unat (area_base (ck_file v))" and ?sz = "unat (ck_size v)"
  have ia: "in_area v (length bs + n)" and dev: "on_device ?file" "device_ok (ck_info v)"
    and sz: "8 + ?sz + (length bs + n) \<le> unat (area_size ?file)"
    using assms by (auto simp: writing_def in_area_def)
  have ad: "unat (area_base ?file + 8 + ck_size v) = ?b + 8 + ?sz" using area_address [OF ia] by simp
  have len: "unat (word_of_nat (length bs) :: u32) = length bs"
  proof -
    have "length bs < 4294967296" using sz unat_u32_less [of "area_size ?file"] by linarith
    then show ?thesis by (rule unat_of_nat_u32)
  qed
  have newsz: "unat (ck_size v + word_of_nat (length bs)) = ?sz + length bs"
  proof -
    have "?sz + length bs < 4294967296" using sz unat_u32_less [of "area_size ?file"] by linarith
    then show ?thesis by (subst unat_add_no_wrap) (simp_all add: len)
  qed
  have "\<exists>s'. write_blocks ?file (word_of_nat (length bs)) (area_base ?file + 8 + ck_size v) bs (ck_info v) = Some (0, s')
    \<and> device_ok s' \<and> range_of (mem s') (?b + 8 + ?sz) (length bs) = bs
    \<and> (\<forall>i<?b + 8 + ?sz. mem s' i = mem (ck_info v) i)
    \<and> (\<forall>i\<ge>?b + unat (area_size ?file). mem s' i = mem (ck_info v) i)
    \<and> block_rest_erased (mem s') (?b + 8 + ?sz + length bs)"
    using write_blocks_ok [OF dev, of "area_base ?file + 8 + ck_size v" "word_of_nat (length bs)" bs] assms sz
    unfolding ad len writing_def by auto
  then obtain s' where s': "write_blocks ?file (word_of_nat (length bs)) (area_base ?file + 8 + ck_size v) bs (ck_info v) = Some (0, s')"
     "device_ok s'" "range_of (mem s') (?b + 8 + ?sz) (length bs) = bs"
     "\<forall>i<?b + 8 + ?sz. mem s' i = mem (ck_info v) i"
     "block_rest_erased (mem s') (?b + 8 + ?sz + length bs)" "\<forall>i\<ge>?b + unat (area_size ?file). mem s' i = mem (ck_info v) i" by blast
  let ?v = "v\<lparr>ck_crc := foldl nk_crc32be_update (ck_crc v) bs, ck_size := ck_size v + word_of_nat (length bs), ck_info := s'\<rparr>"
  have st: "stored ?v = stored v @ bs"
    using s'(3,4) range_of_cong [of "?b + 8" ?sz "mem s'" "mem (ck_info v)"]
    by (simp add: stored_def newsz range_of_add)
  moreover have "range_of (mem s') ?b 8 = replicate 8 0xFF"
  proof -
    have "range_of (mem s') ?b 8 = range_of (mem (ck_info v)) ?b 8" using s'(4) by (intro range_of_cong) simp
    then show ?thesis using assms unfolding writing_def by metis
  qed
  moreover have "foldl nk_crc32be_update (ck_crc v) bs = nk_crc32be_check (stored v @ bs)"
    using assms by (simp add: writing_def nk_crc32be_check_def)
  ultimately have "writing file ?v n"
    using s' dev sz st newsz assms by (simp add: writing_def in_area_def add.assoc)
  moreover have "nk_checked_write v bs = Some (0, ?v)"
    using s'(1) by (simp add: nk_checked_write_def Let_def)
  moreover have "kept_outside file (mem (ck_info v)) s'" using s'(4,6) assms by (auto simp: kept_outside_def writing_def)
  ultimately show ?thesis using st that [of ?v] by simp
qed

text \<open>So a checked file is a sink for output files.\<close>

sublocale checked_sink: block_sink nk_checked_write stored "writing base" for base
proof unfold_locales
  show "\<exists>s'. nk_checked_write s bs = Some (0, s') \<and> stored s' = stored s @ bs \<and> writing base s' n"
    if "writing base s (length bs + n)" for s bs n
    using checked_write_ok [OF that] by metis
  show "writing base s m" if "writing base s n" "m \<le> n" for s n m
    using that by (auto simp: writing_def in_area_def)
qed

text \<open>It stays one when the memory outside its area is to be kept.\<close>

definition framed :: "(nat \<Rightarrow> u8) \<Rightarrow> 's nk_checked_base \<Rightarrow> 's nk_checked \<Rightarrow> nat \<Rightarrow> bool" where
  "framed m file v n \<longleftrightarrow> writing file v n \<and> kept_outside file m (ck_info v)"

sublocale framed_sink: block_sink nk_checked_write stored "framed m base" for m base
proof unfold_locales
  show "\<exists>s'. nk_checked_write s bs = Some (0, s') \<and> stored s' = stored s @ bs \<and> framed m base s' n"
    if f: "framed m base s (length bs + n)" for s bs n
  proof -
    from f have "writing base s (length bs + n)" by (simp add: framed_def)
    from checked_write_ok [OF this] show ?thesis using f kept_trans unfolding framed_def by metis
  qed
  show "framed m base s k" if "framed m base s n" "k \<le> n" for s n k
    using that checked_sink.sink_less by (auto simp: framed_def)
qed

end

context flash_device begin

section \<open>Closing and reading a checked file\<close>

text \<open>A complete file: the header describes what is stored.\<close>

definition complete :: "'s nk_checked_base \<Rightarrow> 's \<Rightarrow> bytes \<Rightarrow> bool" where
  "complete file s data \<longleftrightarrow> on_device file \<and> device_ok s \<and> 8 + length data \<le> unat (area_size file)
     \<and> range_of (mem s) (unat (area_base file)) 8 = header_bytes (word_of_nat (length data)) (nk_crc32be_check data)
     \<and> range_of (mem s) (unat (area_base file) + 8) (length data) = data"

lemma write_close_ok:
  assumes "writing file v n"
  obtains v' where "nk_checked_write_close v = Some (0, v')" "complete file (ck_info v') (stored v)"
    "kept_outside file (mem (ck_info v)) (ck_info v')"
proof -
  let ?file = "ck_file v" and ?b = "unat (area_base (ck_file v))"
  have d: "on_device ?file" "device_ok (ck_info v)" "8 + unat (ck_size v) + n \<le> unat (area_size ?file)"
    and ff: "range_of (mem (ck_info v)) ?b 8 = replicate 8 0xFF" and crc: "ck_crc v = nk_crc32be_check (stored v)"
    using assms by (auto simp: writing_def in_area_def)
  have fw: "flash_write ?file = fwrite" "?b + 8 \<le> device_size" using d(1) by (auto simp: on_device_def)
  obtain s' where s': "fwrite (ck_info v) (area_base ?file) (header_bytes (ck_size v) (ck_crc v)) = Some (0, s')"
      "device_ok s'" "mem s' = set_range (mem (ck_info v)) ?b (header_bytes (ck_size v) (ck_crc v))"
    using fwrite [of "ck_info v" "area_base ?file" "header_bytes (ck_size v) (ck_crc v)"] d(2) fw(2) ff
    unfolding length_header_bytes all_range by blast
  have "range_of (mem s') (?b + 8) (unat (ck_size v)) = stored v"
    unfolding s'(3) stored_def by (rule range_of_set_disjoint) simp
  moreover have "range_of (mem s') ?b 8 = header_bytes (ck_size v) (ck_crc v)"
    unfolding s'(3) using range_of_set_same [of "mem (ck_info v)" ?b "header_bytes (ck_size v) (ck_crc v)"] by simp
  moreover have "length (stored v) = unat (ck_size v)" by (simp add: stored_def)
  ultimately have "complete ?file s' (stored v)"
    using d s'(2) crc by (simp add: complete_def)
  moreover have "kept_outside ?file (mem (ck_info v)) s'" using s'(3) d(3) by (intro kept_set_range) simp_all
  ultimately show ?thesis
    using that [of "v\<lparr>ck_info := s'\<rparr>"] s'(1) fw assms by (simp add: nk_checked_write_close_def writing_def)
qed

text \<open>The CRC loop computes the CRC of the stored bytes, whatever the buffer size.\<close>

lemma crc_loop_ok:
  assumes "on_device file" "device_ok s" "0 < unat buf_size" "unat buf_size \<le> length buffer"
    and "unat addr + unat sz \<le> unat (area_base file) + unat (area_size file)"
  shows "\<exists>buffer' s'. checked_crc_loop file buf_size sz addr crc buffer s
      = Some (Inr (foldl nk_crc32be_update crc (range_of (mem s) (unat addr) (unat sz))), buffer', s')
    \<and> device_ok s' \<and> mem s' = mem s \<and> length buffer' = length buffer"
  using assms
proof (induction "unat sz" arbitrary: sz addr crc buffer s rule: less_induct)
  case less
  show ?case
  proof (cases "sz = 0")
    case True
    then show ?thesis using less.prems by (subst checked_crc_loop.simps) simp
  next
    case False
    define len where "len = (if sz > buf_size then buf_size else sz)"
    have "0 < unat sz" using False by (metis unat_eq_zero neq0_conv)
    then have len: "0 < unat len" "unat len \<le> unat sz" "unat len \<le> length buffer" "unat len \<le> unat buf_size"
      using less.prems(3,4) by (auto simp: len_def word_less_nat_alt)
    have fr: "flash_read file = fread" "unat addr + unat len \<le> device_size" "unat addr + unat sz < 2 ^ 32"
      using less.prems(1,5) len device_size by (auto simp: on_device_def)
    obtain s1 where s1: "fread s addr len = Some (0, range_of (mem s) (unat addr) (unat len), s1)" "device_ok s1" "mem s1 = mem s"
      using fread [OF less.prems(2) fr(2)] by blast
    have step: "unat (sz - len) = unat sz - unat len" "unat (addr + len) = unat addr + unat len"
      using len fr(3) by (simp_all add: unat_sub_no_wrap unat_add_no_wrap)
    have st: "store_at buffer 0 (range_of (mem s) (unat addr) (unat len))
        = Some (range_of (mem s) (unat addr) (unat len) @ drop (unat len) buffer)"
      using len by (simp add: buf_simps)
    let ?buffer = "range_of (mem s) (unat addr) (unat len) @ drop (unat len) buffer"
    have "\<exists>buffer' s'. checked_crc_loop file buf_size (sz - len) (addr + len)
          (foldl nk_crc32be_update crc (range_of (mem s) (unat addr) (unat len))) ?buffer s1
        = Some (Inr (foldl nk_crc32be_update (foldl nk_crc32be_update crc (range_of (mem s) (unat addr) (unat len)))
             (range_of (mem s1) (unat (addr + len)) (unat (sz - len)))), buffer', s') \<and> device_ok s' \<and> mem s' = mem s1 \<and> length buffer' = length ?buffer"
      by (rule less.hyps) (use less.prems s1 len step in auto)
    moreover have "range_of (mem s) (unat addr) (unat sz)
        = range_of (mem s) (unat addr) (unat len) @ range_of (mem s) (unat addr + unat len) (unat sz - unat len)"
      using range_of_add [of "mem s" "unat addr" "unat len" "unat sz - unat len"] len(2) by simp
    ultimately show ?thesis
      using False s1 fr(1) st len
      by (subst checked_crc_loop.simps) (simp add: len_def [symmetric] step buf_simps)
  qed
qed

text \<open>Opening for reading, in terms of what the memory holds.\<close>

definition header_size_of :: "'s nk_checked_base \<Rightarrow> 's \<Rightarrow> u32" where
  "header_size_of file s = the (le32_word (range_of (mem s) (unat (area_base file)) 8))"

definition header_crc_of :: "'s nk_checked_base \<Rightarrow> 's \<Rightarrow> u32" where
  "header_crc_of file s = the (le32_word (drop 4 (range_of (mem s) (unat (area_base file)) 8)))"

lemma le32_word_append: "4 \<le> length bs \<Longrightarrow> le32_word (bs @ rest) = le32_word bs \<and> le32_word bs \<noteq> None"
  by (auto simp: le32_word_def Suc_le_length_iff numeral_eq_Suc split: list.splits)

lemma read_open_eval:
  assumes "on_device file" "device_ok (ck_info v)" "8 \<le> unat buf_size" "unat buf_size \<le> length buffer"
  shows "\<exists>v' buffer'. nk_checked_read_open v file buffer buf_size =
      Some (if unat (header_size_of file (ck_info v)) + 8 \<le> unat (area_size file)
              \<and> nk_crc32be_check (range_of (mem (ck_info v)) (unat (area_base file) + 8) (unat (header_size_of file (ck_info v))))
                  = header_crc_of file (ck_info v)
            then 0 else -1, v', buffer')
    \<and> ck_file v' = file \<and> ck_size v' = header_size_of file (ck_info v) \<and> device_ok (ck_info v')
    \<and> mem (ck_info v') = mem (ck_info v) \<and> length buffer' = length buffer"
proof -
  let ?b = "unat (area_base file)" and ?h = "range_of (mem (ck_info v)) (unat (area_base file)) 8"
  have fr: "flash_read file = fread" "?b + unat (8 :: u32) \<le> device_size"
    using assms(1) by (auto simp: on_device_def)
  obtain s1 where s1: "fread (ck_info v) (area_base file) 8 = Some (0, ?h, s1)" "device_ok s1" "mem s1 = mem (ck_info v)"
    using fread [OF assms(2) fr(2)] by auto
  let ?buf = "?h @ drop 8 buffer"
  have st: "store_at buffer 0 ?h = Some ?buf" using assms(3,4) by (simp add: buf_simps)
  have lb: "8 + (length buffer - 8) = length buffer" using assms(3,4) by simp
  have hs: "le32_word ?buf = Some (header_size_of file (ck_info v))"
    using le32_word_append [of ?h "drop 8 buffer"] by (auto simp: header_size_of_def)
  have hc: "le32_word (drop 4 ?buf) = Some (header_crc_of file (ck_info v))"
    using le32_word_append [of "drop 4 ?h" "drop 8 buffer"] by (auto simp: header_crc_of_def)
  let ?sz = "header_size_of file (ck_info v)"
  have b: "unat (8 + area_base file) = ?b + 8" "unat (area_size file - 8) = unat (area_size file) - 8" "8 \<le> unat (area_size file)"
    using on_device_bounds [OF assms(1)] by simp_all
  show ?thesis
  proof (cases "?sz > area_size file - 8")
    case True
    then have "\<not> unat ?sz + 8 \<le> unat (area_size file)" using b(2,3) by (simp add: word_less_nat_alt)
    then show ?thesis
      using True fr(1) s1 st hs hc lb by (simp add: nk_checked_read_open_def)
  next
    case False
    then have sz: "unat ?sz + 8 \<le> unat (area_size file)" using b by (simp add: word_less_nat_alt)
    have "0 < unat buf_size" "unat buf_size \<le> length ?buf" using assms(3,4) by simp_all
    from crc_loop_ok [OF assms(1) s1(2) this, of "8 + area_base file" ?sz 0] sz b
    obtain buffer' s2 where "checked_crc_loop file buf_size ?sz (8 + area_base file) 0 ?buf s1
        = Some (Inr (nk_crc32be_check (range_of (mem s1) (?b + 8) (unat ?sz))), buffer', s2)" "device_ok s2" "mem s2 = mem s1"
        "length buffer' = length ?buf"
      by (auto simp: nk_crc32be_check_def)
    then show ?thesis
      using fr(1) s1 st hs hc False sz lb by (simp add: nk_checked_read_open_def)
  qed
qed

lemma complete_header:
  "complete file s data \<Longrightarrow> header_size_of file s = word_of_nat (length data) \<and> header_crc_of file s = nk_crc32be_check data"
  using le32_word_bytes [of _ "[]"]
  by (simp add: complete_def header_size_of_def header_crc_of_def header_bytes_def le32_word_bytes)
    (simp add: le32_bytes_def)

text \<open>The reader's callback.\<close>

definition readable :: "'s nk_checked \<Rightarrow> bool" where
  "readable v \<longleftrightarrow> in_area v 0"

lemma checked_read_ok:
  fixes pos bs :: u32
  assumes r: "readable v" and pos: "unat pos \<le> length (stored v)" and bs: "length (stored v) + unat bs < 2 ^ 32"
  shows "\<exists>s'. nk_checked_read v pos bs = Some (word_of_nat (min (unat bs) (length (stored v) - unat pos)),
              take (unat bs) (drop (unat pos) (stored v)), s')
    \<and> stored s' = stored v \<and> readable s' \<and> mem (ck_info s') = mem (ck_info v) \<and> ck_file s' = ck_file v"
proof -
  let ?b = "unat (area_base (ck_file v))"
  have ls: "length (stored v) = unat (ck_size v)" by (simp add: stored_def)
  have d: "on_device (ck_file v)" "device_ok (ck_info v)" "8 + unat (ck_size v) \<le> unat (area_size (ck_file v))"
    using r by (auto simp: readable_def in_area_def)
  have fr: "flash_read (ck_file v) = fread" using d(1) by (simp add: on_device_def)
  define len where "len = (if pos + bs > ck_size v then ck_size v - pos else bs)"
  have "unat (pos + bs) = unat pos + unat bs" using pos bs ls by (simp add: unat_add_no_wrap)
  then have len: "unat len = min (unat bs) (length (stored v) - unat pos)"
    using pos ls by (auto simp: len_def word_less_nat_alt unat_sub_no_wrap)
  have take: "take (unat bs) (drop (unat pos) (stored v)) = range_of (mem (ck_info v)) (?b + 8 + unat pos) (unat len)"
    using drop_range_of [of "unat pos" "unat len" "unat (ck_size v)" "mem (ck_info v)" "?b + 8"] pos len ls
    by (simp add: stored_def min_def split: if_splits)
  show ?thesis
  proof (cases "len = 0")
    case True
    then show ?thesis
      using r take len unfolding nk_checked_read_def Let_def len_def [symmetric] by (simp del: take_drop)
  next
    case False
    have ad: "unat (area_base (ck_file v) + 8 + pos) = ?b + 8 + unat pos"
      using area_address [of v 0 pos] r pos ls by (simp add: readable_def)
    have "?b + 8 + unat pos + unat len \<le> device_size"
      using d pos len ls by (auto simp: on_device_def)
    then obtain s1 where s1: "fread (ck_info v) (area_base (ck_file v) + 8 + pos) len
        = Some (0, range_of (mem (ck_info v)) (?b + 8 + unat pos) (unat len), s1)" "device_ok s1" "mem s1 = mem (ck_info v)"
      using fread [OF d(2), of "area_base (ck_file v) + 8 + pos" len] ad by auto
    have "nk_checked_read v pos bs = Some (len, range_of (mem (ck_info v)) (?b + 8 + unat pos) (unat len), v\<lparr>ck_info := s1\<rparr>)"
      using False s1 fr unfolding nk_checked_read_def Let_def len_def [symmetric] by simp
    moreover have "len = word_of_nat (min (unat bs) (length (stored v) - unat pos))"
      by (simp add: len [symmetric])
    moreover have "stored (v\<lparr>ck_info := s1\<rparr>) = stored v" using s1 by (simp add: stored_def)
    moreover have "readable (v\<lparr>ck_info := s1\<rparr>)" using d s1 by (simp add: readable_def in_area_def)
    ultimately show ?thesis unfolding take using s1(3) by auto
  qed
qed

sublocale checked_source: block_source nk_checked_read stored readable
  using checked_read_ok by unfold_locales blast

text \<open>It stays a source when the memory is to stay what it is.\<close>

definition readable_in :: "(nat \<Rightarrow> u8) \<Rightarrow> 's nk_checked \<Rightarrow> bool" where
  "readable_in m v \<longleftrightarrow> readable v \<and> mem (ck_info v) = m"

sublocale kept_source: block_source nk_checked_read stored "readable_in m" for m
  using checked_read_ok by unfold_locales (fastforce simp: readable_in_def)

end

context flash_device begin

section \<open>The direct file\<close>

definition direct_stored :: "'s nk_checked \<Rightarrow> bytes" where
  "direct_stored v = range_of (mem (ck_info v)) (unat (area_base (ck_file v))) (unat (ck_size v))"

definition direct_writing :: "'s nk_checked_base \<Rightarrow> 's nk_checked \<Rightarrow> nat \<Rightarrow> bool" where
  "direct_writing file v n \<longleftrightarrow> ck_file v = file \<and> on_device (ck_file v) \<and> device_ok (ck_info v)
     \<and> unat (ck_size v) + n \<le> unat (area_size (ck_file v))
     \<and> block_rest_erased (mem (ck_info v)) (unat (area_base (ck_file v)) + unat (ck_size v))"

lemma direct_write_open_ok:
  "on_device file \<Longrightarrow> device_ok (ck_info v) \<Longrightarrow>
   direct_writing file (snd (nk_direct_write_open v file)) (unat (area_size file))
   \<and> direct_stored (snd (nk_direct_write_open v file)) = []"
  by (simp add: nk_direct_write_open_def direct_writing_def direct_stored_def block_rest_erased_def on_device_def)

lemma direct_write_ok:
  assumes "direct_writing file v (length bs + n)"
  obtains v' where "nk_direct_write v bs = Some (0, v')" "direct_writing file v' n"
    "direct_stored v' = direct_stored v @ bs"
proof -
  let ?file = "ck_file v" and ?b = "unat (area_base (ck_file v))" and ?sz = "unat (ck_size v)"
  have dev: "on_device ?file" "device_ok (ck_info v)"
    and sz: "?sz + (length bs + n) \<le> unat (area_size ?file)"
    and rest: "block_rest_erased (mem (ck_info v)) (?b + ?sz)"
    using assms by (auto simp: direct_writing_def)
  have fit: "?b + ?sz + length bs < 4294967296" using sz on_device_bounds(1) [OF dev(1)] by simp
  have ad: "unat (area_base ?file + ck_size v) = ?b + ?sz"
    using fit by (subst unat_add_no_wrap) auto
  have len: "unat (word_of_nat (length bs) :: u32) = length bs" using fit by (simp add: unat_of_nat)
  have newsz: "unat (ck_size v + word_of_nat (length bs)) = ?sz + length bs"
    using fit by (subst unat_add_no_wrap) (simp_all add: len)
  obtain s' where s': "write_blocks ?file (word_of_nat (length bs)) (area_base ?file + ck_size v) bs (ck_info v) = Some (0, s')"
     "device_ok s'" "range_of (mem s') (?b + ?sz) (length bs) = bs"
     "\<forall>i<?b + ?sz. mem s' i = mem (ck_info v) i" "block_rest_erased (mem s') (?b + ?sz + length bs)"
    using write_blocks_ok [OF dev, of "area_base ?file + ck_size v" "word_of_nat (length bs)" bs] rest sz
    unfolding ad len by auto
  let ?v = "v\<lparr>ck_crc := foldl nk_crc32be_update (ck_crc v) bs, ck_size := ck_size v + word_of_nat (length bs), ck_info := s'\<rparr>"
  have st: "direct_stored ?v = direct_stored v @ bs"
    using s'(3,4) range_of_cong [of ?b ?sz "mem s'" "mem (ck_info v)"]
    by (simp add: direct_stored_def newsz range_of_add)
  moreover have "direct_writing file ?v n"
    using s' assms dev sz newsz by (simp add: direct_writing_def add.assoc)
  moreover have "nk_direct_write v bs = Some (0, ?v)"
    using s'(1) by (simp add: nk_direct_write_def Let_def)
  ultimately show ?thesis using that [of ?v] by simp
qed

sublocale direct_sink: block_sink nk_direct_write direct_stored "direct_writing base" for base
proof unfold_locales
  show "\<exists>s'. nk_direct_write s bs = Some (0, s') \<and> direct_stored s' = direct_stored s @ bs \<and> direct_writing base s' n"
    if "direct_writing base s (length bs + n)" for s bs n
    using direct_write_ok [OF that] by metis
  show "direct_writing base s m" if "direct_writing base s n" "m \<le> n" for s n m
    using that by (auto simp: direct_writing_def)
qed

definition direct_readable :: "'s nk_checked \<Rightarrow> bool" where
  "direct_readable v \<longleftrightarrow> on_device (ck_file v) \<and> device_ok (ck_info v) \<and> unat (ck_size v) \<le> unat (area_size (ck_file v))"

sublocale direct_source: block_source nk_direct_read direct_stored direct_readable
proof unfold_locales
  fix v and pos bs :: u32
  assume r: "direct_readable v" and pos: "unat pos \<le> length (direct_stored v)" and bs: "length (direct_stored v) + unat bs < 2 ^ 32"
  let ?b = "unat (area_base (ck_file v))"
  have ls: "length (direct_stored v) = unat (ck_size v)" by (simp add: direct_stored_def)
  have d: "on_device (ck_file v)" "device_ok (ck_info v)" "unat (ck_size v) \<le> unat (area_size (ck_file v))"
    using r by (auto simp: direct_readable_def)
  have fr: "flash_read (ck_file v) = fread" using d(1) by (simp add: on_device_def)
  define len where "len = (if pos + bs > ck_size v then ck_size v - pos else bs)"
  have "unat (pos + bs) = unat pos + unat bs" using pos bs ls by (simp add: unat_add_no_wrap)
  then have len: "unat len = min (unat bs) (length (direct_stored v) - unat pos)"
    using pos ls by (auto simp: len_def word_less_nat_alt unat_sub_no_wrap)
  have take: "take (unat bs) (drop (unat pos) (direct_stored v)) = range_of (mem (ck_info v)) (?b + unat pos) (unat len)"
    using drop_range_of [of "unat pos" "unat len" "unat (ck_size v)" "mem (ck_info v)" ?b] pos len ls
    by (simp add: direct_stored_def min_def split: if_splits)
  have ad: "unat (area_base (ck_file v) + pos) = ?b + unat pos"
    using on_device_bounds(1) [OF d(1)] d(3) pos ls by (subst unat_add_no_wrap) auto
  have "?b + unat pos + unat len \<le> device_size"
    using d pos len ls by (auto simp: on_device_def)
  then obtain s1 where s1: "fread (ck_info v) (area_base (ck_file v) + pos) len
      = Some (0, range_of (mem (ck_info v)) (?b + unat pos) (unat len), s1)" "device_ok s1" "mem s1 = mem (ck_info v)"
    using fread [OF d(2), of "area_base (ck_file v) + pos" len] ad by auto
  have lenw: "len = word_of_nat (min (unat bs) (length (direct_stored v) - unat pos))"
    by (simp add: len [symmetric])
  show "\<exists>s'. nk_direct_read v pos bs = Some (word_of_nat (min (unat bs) (length (direct_stored v) - unat pos)),
              take (unat bs) (drop (unat pos) (direct_stored v)), s') \<and> direct_stored s' = direct_stored v \<and> direct_readable s'"
  proof (cases "len = 0")
    case True
    then have "nk_direct_read v pos bs = Some (len, [], v)"
      unfolding nk_direct_read_def Let_def len_def [symmetric] by simp
    then show ?thesis using r take True lenw by auto
  next
    case False
    then have "nk_direct_read v pos bs = Some (len, range_of (mem (ck_info v)) (?b + unat pos) (unat len), v\<lparr>ck_info := s1\<rparr>)"
      using s1 fr unfolding nk_direct_read_def Let_def len_def [symmetric] by simp
    then show ?thesis
      unfolding take using d s1 lenw by (auto simp: direct_stored_def direct_readable_def)
  qed
qed

section \<open>Whole files\<close>

text \<open>The sequence of calls that stores a file: open, put the bytes through an output file, flush, close.\<close>

lemma open_store_ok:
  assumes "on_device file" "device_ok (ck_info v)" "8 + n \<le> unat (area_size file)"
    and "0 < unat len" "unat len < 2 ^ 31" "unat len \<le> length obuf"
  obtains v1 where "nk_checked_write_open v file = Some (0, v1)" "writing file v1 (unat (area_size file) - 8)"
    "framed_sink.open_for (mem (ck_info v)) file (nkoutfile_open (Some nk_checked_write) v1 obuf len 1) n"
    "framed_sink.contents (nkoutfile_open (Some nk_checked_write) v1 obuf len 1) = []"
proof -
  obtain v1 where v1: "nk_checked_write_open v file = Some (0, v1)"
      "writing file v1 (unat (area_size file) - 8)" "stored v1 = []" "kept_outside file (mem (ck_info v)) (ck_info v1)"
    using write_open_ok [OF assms(1,2)] .
  let ?f = "nkoutfile_open (Some nk_checked_write) v1 obuf len 1"
  have "framed (mem (ck_info v)) file v1 (unat (area_size file) - 8)" using v1(2,4) by (simp add: framed_def)
  then have "framed (mem (ck_info v)) file v1 n" using framed_sink.sink_less assms(3) by simp
  moreover have "pow2 (1 :: u32)" by (rule pow2_numeral_intro [of 0]) simp_all
  ultimately have "framed_sink.open_for (mem (ck_info v)) file ?f n"
    using assms(4-6) by (simp add: framed_sink.open_for_def nkoutfile_open_def outfile_ok_def)
  then show ?thesis
    using that [OF v1(1,2)] v1(3) by (simp add: framed_sink.contents_def pending_def nkoutfile_open_def)
qed

lemma close_store_ok:
  assumes "framed_sink.open_for m file f n" "o_granularity f = 1"
  obtains f2 v2 where "nk_fflush f = Some (0, f2)" "nk_checked_write_close (o_block_write_ptr f2) = Some (0, v2)"
    "complete file (ck_info v2) (framed_sink.contents f)" "kept_outside file m (ck_info v2)"
proof -
  from framed_sink.fflush_delivers [OF assms(1)] obtain f2 pad where f2: "nk_fflush f = Some (0, f2)"
      "framed m file (o_block_write_ptr f2) n" "stored (o_block_write_ptr f2) = framed_sink.contents f @ pad" "length pad = 0"
    using assms(2) by (metis roundup_1 One_nat_def unsigned_1 diff_self_eq_0 one_dvd)
  have w: "writing file (o_block_write_ptr f2) n" "kept_outside file m (ck_info (o_block_write_ptr f2))" using f2(2) by (simp_all add: framed_def)
  from write_close_ok [OF w(1)] obtain v2 where "nk_checked_write_close (o_block_write_ptr f2) = Some (0, v2)"
      "complete file (ck_info v2) (stored (o_block_write_ptr f2))" "kept_outside file (mem (ck_info (o_block_write_ptr f2))) (ck_info v2)" .
  then show ?thesis using that f2(1,3,4) kept_trans [OF w(2)] by simp
qed

lemma store_file_ok:
  assumes "on_device file" "device_ok (ck_info v)" "8 + length data \<le> unat (area_size file)"
    and "0 < unat len" "unat len < 2 ^ 31" "unat len \<le> length obuf"
  obtains v1 f1 f2 v2 where "nk_checked_write_open v file = Some (0, v1)"
    "put_all 0 (nkoutfile_open (Some nk_checked_write) v1 obuf len 1) (map uint data) = Some (0, f1)"
    "nk_fflush f1 = Some (0, f2)" "nk_checked_write_close (o_block_write_ptr f2) = Some (0, v2)"
    "complete file (ck_info v2) data" "kept_outside file (mem (ck_info v)) (ck_info v2)"
proof -
  let ?f = "\<lambda>v1. nkoutfile_open (Some nk_checked_write) v1 obuf len 1"
  obtain v1 where v1: "nk_checked_write_open v file = Some (0, v1)"
      "framed_sink.open_for (mem (ck_info v)) file (?f v1) (length (map uint data) + 0)" "framed_sink.contents (?f v1) = []"
    using open_store_ok [OF assms] by auto
  from framed_sink.put_all_appends [OF v1(2)] obtain f1 where f1: "put_all 0 (?f v1) (map uint data) = Some (0, f1)"
      "framed_sink.open_for (mem (ck_info v)) file f1 0" "framed_sink.contents f1 = data" "o_granularity f1 = 1"
    using v1(3) by (auto simp: nkoutfile_open_def comp_def)
  from close_store_ok [OF f1(2,4)] show ?thesis using that [OF v1(1) f1(1)] f1(3) by metis
qed

text \<open>Opening a complete file for reading.\<close>

lemma open_complete_ok:
  assumes "complete file (ck_info v) data" "8 \<le> unat buf_size" "unat buf_size \<le> length buffer"
  obtains v' buffer' where "nk_checked_read_open v file buffer buf_size = Some (0, v', buffer')"
    "readable v'" "stored v' = data"
proof -
  have c: "on_device file" "device_ok (ck_info v)" "8 + length data \<le> unat (area_size file)"
    "range_of (mem (ck_info v)) (unat (area_base file) + 8) (length data) = data"
    using assms(1) by (auto simp: complete_def)
  have len: "unat (word_of_nat (length data) :: u32) = length data"
  proof -
    have "length data < 4294967296" using c(3) unat_u32_less [of "area_size file"] by linarith
    then show ?thesis by (rule unat_of_nat_u32)
  qed
  from read_open_eval [OF c(1,2) assms(2,3)] complete_header [OF assms(1)] obtain v' buffer' where
    v': "nk_checked_read_open v file buffer buf_size = Some (0, v', buffer')" "ck_file v' = file"
      "ck_size v' = word_of_nat (length data)" "device_ok (ck_info v')" "mem (ck_info v') = mem (ck_info v)"
    using c len by auto
  then show ?thesis
    using that [OF v'(1)] c len by (simp add: readable_def in_area_def stored_def)
qed

text \<open>A file whose writing was not closed has an erased header, which no reader accepts.\<close>

lemma erased_header:
  assumes "range_of (mem s) (unat (area_base file)) 8 = replicate 8 0xFF"
  shows "unat (header_size_of file s) = 4294967295"
proof -
  have "replicate 8 x = [x, x, x, x, x, x, x, x]" for x :: u8 by (simp add: eval_nat_numeral)
  then have "header_size_of file s = 0xFFFFFFFF" unfolding header_size_of_def assms by (simp add: le32_word_def)
  then show ?thesis by simp
qed

lemma unfinished_rejected:
  assumes "writing file v n" "8 \<le> unat buf_size" "unat buf_size \<le> length buffer"
  shows "\<exists>v' buffer'. nk_checked_read_open v file buffer buf_size = Some (-1, v', buffer')"
proof -
  have w: "on_device file" "device_ok (ck_info v)" "range_of (mem (ck_info v)) (unat (area_base file)) 8 = replicate 8 0xFF"
    using assms(1) by (auto simp: writing_def in_area_def)
  from erased_header [OF w(3)] have "\<not> unat (header_size_of file (ck_info v)) + 8 \<le> unat (area_size file)"
    using unat_u32_less [of "area_size file"] by linarith
  then show ?thesis using read_open_eval [OF w(1,2) assms(2,3)] by auto
qed

text \<open>Damage of up to four adjacent bytes of the stored data is noticed.\<close>

lemma damage_rejected:
  assumes "complete file s (pre @ good @ post)" "device_ok (ck_info v)"
    and "mem (ck_info v) = set_range (mem s) (unat (area_base file) + 8 + length pre) bad"
    and "length bad = length good" "length good \<le> 4" "bad \<noteq> good"
    and "8 \<le> unat buf_size" "unat buf_size \<le> length buffer"
  shows "\<exists>v' buffer'. nk_checked_read_open v file buffer buf_size = Some (-1, v', buffer')"
proof -
  let ?b = "unat (area_base file)" and ?data = "pre @ good @ post" and ?m = "mem (ck_info v)"
  have c: "on_device file" "8 + length ?data \<le> unat (area_size file)" "range_of (mem s) (?b + 8) (length ?data) = ?data"
    using assms(1) by (auto simp: complete_def)
  have len: "unat (word_of_nat (length ?data) :: u32) = length ?data"
  proof -
    have "length ?data < 4294967296" using c(2) unat_u32_less [of "area_size file"] by linarith
    then show ?thesis by (rule unat_of_nat_u32)
  qed
  have "range_of ?m ?b 8 = range_of (mem s) ?b 8"
    unfolding assms(3) by (rule range_of_set_disjoint) simp
  then have h: "header_size_of file (ck_info v) = word_of_nat (length ?data)" "header_crc_of file (ck_info v) = nk_crc32be_check ?data"
    using complete_header [OF assms(1)] by (simp_all add: header_size_of_def header_crc_of_def)
  have split: "range_of m (?b + 8) (length ?data) = range_of m (?b + 8) (length pre)
      @ range_of m (?b + 8 + length pre) (length good) @ range_of m (?b + 8 + length pre + length good) (length post)" for m
    by (simp only: length_append range_of_add)
  have "range_of (mem s) (?b + 8) (length pre) = pre"
    "range_of (mem s) (?b + 8 + length pre + length good) (length post) = post"
    using c(3) unfolding split by simp_all
  moreover have "range_of ?m (?b + 8) (length pre) = range_of (mem s) (?b + 8) (length pre)"
    "range_of ?m (?b + 8 + length pre + length good) (length post)
      = range_of (mem s) (?b + 8 + length pre + length good) (length post)"
    "range_of ?m (?b + 8 + length pre) (length good) = bad"
    unfolding assms(3) using range_of_set_same [of "mem s" "?b + 8 + length pre" bad] assms(4)
    by (auto intro: range_of_set_disjoint)
  ultimately have "range_of ?m (?b + 8) (length ?data) = pre @ bad @ post"
    unfolding split by simp
  moreover have "nk_crc32be_check (pre @ bad @ post) \<noteq> nk_crc32be_check ?data"
    unfolding nk_crc32be_check_def using crc32be.detects_burst assms(4-6) by metis
  ultimately show ?thesis
    using read_open_eval [OF c(1) assms(2,7,8)] unfolding h len by auto
qed

lemma store_direct_ok:
  assumes "on_device file" "device_ok (ck_info v)" "length data \<le> unat (area_size file)"
    and "0 < unat len" "unat len < 2 ^ 31" "unat len \<le> length obuf"
  obtains f1 f2 where
    "put_all 0 (nkoutfile_open (Some nk_direct_write) (snd (nk_direct_write_open v file)) obuf len 1) (map uint data) = Some (0, f1)"
    "nk_fflush f1 = Some (0, f2)" "direct_writing file (o_block_write_ptr f2) 0" "direct_stored (o_block_write_ptr f2) = data"
proof -
  let ?v1 = "snd (nk_direct_write_open v file)"
  have v1: "direct_writing file ?v1 (unat (area_size file))" "direct_stored ?v1 = []"
    using direct_write_open_ok [OF assms(1,2)] by auto
  let ?f = "nkoutfile_open (Some nk_direct_write) ?v1 obuf len 1"
  have "pow2 (1 :: u32)" by (rule pow2_numeral_intro [of 0]) simp_all
  then have "direct_sink.open_for file ?f (length (map uint data) + 0)"
    using assms(3-6) direct_sink.sink_less [OF v1(1), of "length data"]
    by (simp add: direct_sink.open_for_def nkoutfile_open_def outfile_ok_def)
  from direct_sink.put_all_appends [OF this] obtain f1 where f1: "put_all 0 ?f (map uint data) = Some (0, f1)"
      "direct_sink.open_for file f1 0" "direct_sink.contents f1 = data" "o_granularity f1 = 1"
    using v1(2) by (auto simp: direct_sink.contents_def pending_def nkoutfile_open_def comp_def)
  from direct_sink.fflush_delivers [OF f1(2) disjI2 [OF refl]] obtain f2 pad where "nk_fflush f1 = Some (0, f2)"
      "direct_writing file (o_block_write_ptr f2) 0" "direct_stored (o_block_write_ptr f2) = data @ pad" "length pad = 0"
    using f1(3,4) by (metis roundup_0 roundup_1 One_nat_def unsigned_1 diff_self_eq_0)
  then show ?thesis using that f1(1) by simp
qed

lemma direct_read_open_ok:
  assumes "direct_writing file v n"
  shows "direct_readable (snd (nk_direct_read_open v file))"
    and "\<exists>rest. direct_stored (snd (nk_direct_read_open v file)) = direct_stored v @ rest"
    and "length (direct_stored (snd (nk_direct_read_open v file))) = unat (area_size file)"
proof -
  have "unat (area_size file) = unat (ck_size v) + (unat (area_size file) - unat (ck_size v))"
    using assms by (auto simp: direct_writing_def)
  then show "\<exists>rest. direct_stored (snd (nk_direct_read_open v file)) = direct_stored v @ rest"
    using range_of_add [of "mem (ck_info v)" "unat (area_base file)" "unat (ck_size v)" "unat (area_size file) - unat (ck_size v)"] assms
    by (auto simp: direct_stored_def nk_direct_read_open_def direct_writing_def)
qed (use assms in \<open>auto simp: direct_readable_def nk_direct_read_open_def direct_writing_def direct_stored_def\<close>)

lemmas checked_sink_axioms = checked_sink.block_sink_axioms
lemmas direct_source_axioms = direct_source.block_source_axioms
lemmas checked_source_axioms = checked_source.block_source_axioms

end

section \<open>A NOR flash in memory\<close>

text \<open>A small device that satisfies the driver's laws: 64 bytes in erase blocks of 16, where a write can only
  clear bits.\<close>

definition nor_read :: "(nat \<Rightarrow> u8) \<Rightarrow> u32 \<Rightarrow> u32 \<Rightarrow> (int \<times> bytes \<times> (nat \<Rightarrow> u8)) option" where
  "nor_read s a n = Some (0, range_of s (unat a) (unat n), s)"

definition nor_erase :: "(nat \<Rightarrow> u8) \<Rightarrow> u32 \<Rightarrow> u32 \<Rightarrow> (int \<times> (nat \<Rightarrow> u8)) option" where
  "nor_erase s a n = Some (0, set_range s (unat a) (replicate (unat n) 0xFF))"

definition nor_write :: "(nat \<Rightarrow> u8) \<Rightarrow> u32 \<Rightarrow> bytes \<Rightarrow> (int \<times> (nat \<Rightarrow> u8)) option" where
  "nor_write s a bs = Some (0, \<lambda>i. if unat a \<le> i \<and> i < unat a + length bs then s i AND bs ! (i - unat a) else s i)"

lemma and_0xFF: "0xFF AND b = (b :: u8)"
proof -
  have "(0xFF :: u8) = - 1" by code_simp
  then show ?thesis by (simp only: and.left_neutral)
qed

interpretation nor: flash_device nor_read nor_erase nor_write True "\<lambda>s. s" "\<lambda>_. True" 16 64
proof unfold_locales
  show "\<exists>s'. nor_write s a bs = Some (0, s') \<and> True \<and> s' = set_range s (unat a) bs"
    if "True \<longrightarrow> (\<forall>i. unat a \<le> i \<and> i < unat a + length bs \<longrightarrow> s i = 0xFF)" for s a bs
    using that by (intro exI [of _ "set_range s (unat a) bs"]) (auto simp: nor_write_def set_range_def fun_eq_iff and_0xFF)
qed (simp_all add: nor_read_def nor_erase_def)

definition nor_file :: "(nat \<Rightarrow> u8) nk_checked_base" where
  "nor_file = \<lparr>area_size = 48, area_base = 16, erase_size = 16, flash_read = nor_read, flash_erase = Some nor_erase,
     flash_write = nor_write, granularity = 1\<rparr>"

lemma nor_on_device: "nor.on_device nor_file"
proof -
  have "pow2 (16 :: u32)" by (rule pow2_numeral_intro [of 4]) simp_all
  then show ?thesis by (simp add: nor.on_device_def nor_file_def)
qed

interpretation nor_copy: file_copy "nor.checked_source.block_ok" nk_checked_write nor.stored "nor.writing base" for base
  by (rule file_copy.intro [OF nor.checked_source.block_reader nor.checked_sink.block_sink_axioms])

section \<open>Properties\<close>

text \<open>C2. A checked file gives back what was stored in it. On every device whose driver keeps its promises
  (a read returns the memory, an erase sets one aligned block to 0xFF, a write stores into erased memory), for data that
  fits the area: opening for writing, putting the data through an output file with a buffer of any size, flushing and
  closing all return 0; then opening for reading (with a buffer of at least 8 bytes) returns 0,
  that is, length and CRC are right, and the input file opened on it reads exactly the data. Every
  block is erased before it is written, as the driver asks, and the memory outside the area is as before.\<close>

theorem checked_file_round_trip:
  assumes "flash_device fr fe fw ne mem ok bl ds" "flash_device.on_device fr fe fw ne bl ds file" "ok (ck_info v)"
    and "8 + length data \<le> unat (area_size file)"
    and "0 < unat len" "unat len < 2 ^ 31" "unat len \<le> length obuf"
    and "8 \<le> unat bs" "unat bs \<le> length rbuf" "unat bs \<le> length ibuf" "pow2 bs" "length data + unat bs < 2 ^ 32"
  shows "\<exists>v1 f1 f2 v2 v3 rbuf' f. nk_checked_write_open v file = Some (0, v1)
    \<and> put_all 0 (nkoutfile_open (Some nk_checked_write) v1 obuf len 1) (map uint data) = Some (0, f1)
    \<and> nk_fflush f1 = Some (0, f2) \<and> nk_checked_write_close (o_block_write_ptr f2) = Some (0, v2)
    \<and> flash_device.kept_outside mem file (mem (ck_info v)) (ck_info v2)
    \<and> nk_checked_read_open v2 file rbuf bs = Some (0, v3, rbuf')
    \<and> nkinfile_open (Some nk_checked_read) v3 bs ibuf = Some f
    \<and> block_view nk_checked_read (flash_device.stored mem) (flash_device.readable fr fe fw ne ok bl ds) f data 0"
proof -
  note dev = assms(1)
  obtain v1 f1 f2 v2 where w: "nk_checked_write_open v file = Some (0, v1)"
    "put_all 0 (nkoutfile_open (Some nk_checked_write) v1 obuf len 1) (map uint data) = Some (0, f1)"
    "nk_fflush f1 = Some (0, f2)" "nk_checked_write_close (o_block_write_ptr f2) = Some (0, v2)"
    "flash_device.complete fr fe fw ne mem ok bl ds file (ck_info v2) data" "flash_device.kept_outside mem file (mem (ck_info v)) (ck_info v2)"
    using flash_device.store_file_ok [OF dev assms(2-7)] .
  obtain v3 rbuf' where r: "nk_checked_read_open v2 file rbuf bs = Some (0, v3, rbuf')"
    "flash_device.readable fr fe fw ne ok bl ds v3" "flash_device.stored mem v3 = data"
    using flash_device.open_complete_ok [OF dev w(5) assms(8,9)] .
  obtain f where "nkinfile_open (Some nk_checked_read) v3 bs ibuf = Some f"
    "block_view nk_checked_read (flash_device.stored mem) (flash_device.readable fr fe fw ne ok bl ds) f data 0"
    using block_source.open_view [OF flash_device.checked_source_axioms [OF dev] r(2,3) assms(11,10,12)] .
  then show ?thesis using w r by blast
qed

theorem checked_file_round_trip_witness:
  "\<exists>v1 f1 f2 v2 v3 rbuf' f.
      nk_checked_write_open \<lparr>ck_file = nor_file, ck_crc = 5, ck_size = 6, ck_info = \<lambda>i. word_of_nat i\<rparr> nor_file = Some (0, v1)
    \<and> put_all 0 (nkoutfile_open (Some nk_checked_write) v1 [0, 0, 0] 3 1) (map uint (replicate 30 (0x41 :: u8))) = Some (0, f1)
    \<and> nk_fflush f1 = Some (0, f2) \<and> nk_checked_write_close (o_block_write_ptr f2) = Some (0, v2)
    \<and> nor.kept_outside nor_file (\<lambda>i. word_of_nat i) (ck_info v2)
    \<and> nk_checked_read_open v2 nor_file (replicate 8 0) 8 = Some (0, v3, rbuf')
    \<and> nkinfile_open (Some nk_checked_read) v3 8 (replicate 8 0) = Some f
    \<and> block_view nk_checked_read nor.stored nor.readable f (replicate 30 0x41) 0"
proof -
  have "pow2 (8 :: u32)" by (rule pow2_numeral_intro [of 3]) simp_all
  then show ?thesis
    using checked_file_round_trip [OF nor.flash_device_axioms nor_on_device,
      where v = "\<lparr>ck_file = nor_file, ck_crc = 5, ck_size = 6, ck_info = \<lambda>i. word_of_nat i\<rparr>"
        and data = "replicate 30 0x41" and len = 3 and obuf = "[0, 0, 0]" and bs = 8
        and rbuf = "replicate 8 0" and ibuf = "replicate 8 0"]
    by (simp add: nor_file_def)
qed

text \<open>C17. A file that was opened for writing but not closed, after any number of writes, is rejected by
  the reader with \<open>-1\<close>: the header is erased first and written last, so an interrupted update is never
  taken for a file.\<close>

theorem checked_unfinished_rejected:
  assumes "flash_device fr fe fw ne mem ok bl ds" "flash_device.on_device fr fe fw ne bl ds file" "ok (ck_info v)"
    and "8 + length (concat chunks) \<le> unat (area_size file)" "8 \<le> unat bs" "unat bs \<le> length rbuf"
  shows "\<exists>v1 v2 v3 rbuf'. nk_checked_write_open v file = Some (0, v1)
    \<and> foldl (\<lambda>r c. do { (_, w) \<leftarrow> r; nk_checked_write w c }) (Some (0, v1)) chunks = Some (0, v2)
    \<and> nk_checked_read_open v2 file rbuf bs = Some (-1, v3, rbuf')"
proof -
  note dev = assms(1)
  let ?W = "flash_device.writing fr fe fw ne mem ok bl ds file"
  have step: "\<exists>v2. foldl (\<lambda>r c. do { (_, w) \<leftarrow> r; nk_checked_write w c }) (Some (0, w)) chunks = Some (0, v2) \<and> ?W v2 0"
    if "?W w (length (concat chunks))" for w
    using that
  proof (induction chunks arbitrary: w)
    case (Cons c cs)
    then have "?W w (length c + length (concat cs))" by simp
    from flash_device.checked_write_ok [OF dev this] obtain w' where
      "nk_checked_write w c = Some (0, w')" "?W w' (length (concat cs))" by metis
    then show ?case using Cons.IH by simp
  qed simp
  obtain v1 where v1: "nk_checked_write_open v file = Some (0, v1)" "?W v1 (unat (area_size file) - 8)"
    using flash_device.write_open_ok [OF dev assms(2,3)] by metis
  have "length (concat chunks) \<le> unat (area_size file) - 8" using assms(4) by simp
  then have "?W v1 (length (concat chunks))"
    using block_sink.sink_less [OF flash_device.checked_sink_axioms [OF dev] v1(2)] by blast
  then obtain v2 where "foldl (\<lambda>r c. do { (_, w) \<leftarrow> r; nk_checked_write w c }) (Some (0, v1)) chunks = Some (0, v2)" "?W v2 0"
    using step by blast
  then show ?thesis using v1(1) flash_device.unfinished_rejected [OF dev _ assms(5,6)] by blast
qed

theorem checked_unfinished_rejected_witness:
  "\<exists>v1 v2 v3 rbuf'. nk_checked_write_open \<lparr>ck_file = nor_file, ck_crc = 5, ck_size = 6, ck_info = \<lambda>i. word_of_nat i\<rparr> nor_file = Some (0, v1)
    \<and> foldl (\<lambda>r c. do { (_, w) \<leftarrow> r; nk_checked_write w c }) (Some (0, v1)) [[1, 2], [3]] = Some (0, v2)
    \<and> nk_checked_read_open v2 nor_file (replicate 8 0) 8 = Some (-1, v3, rbuf')"
  using checked_unfinished_rejected [OF nor.flash_device_axioms nor_on_device,
      where v = "\<lparr>ck_file = nor_file, ck_crc = 5, ck_size = 6, ck_info = \<lambda>i. word_of_nat i\<rparr>"
        and chunks = "[[1, 2], [3]]" and bs = 8 and rbuf = "replicate 8 0"]
  by (simp add: nor_file_def)

text \<open>C28. The reader accepts a file exactly when the length in its header fits the area and the CRC in the header is the
  CRC of the stored bytes; in every other case it returns \<open>-1\<close>. It reads any length with any buffer of
  at least 8 bytes, always returns, and leaves the memory alone.\<close>

theorem checked_read_open_decides:
  assumes "flash_device fr fe fw ne mem ok bl ds" "flash_device.on_device fr fe fw ne bl ds file" "ok (ck_info v)"
    and "8 \<le> unat bs" "unat bs \<le> length rbuf"
    and "range_of (mem (ck_info v)) (unat (area_base file)) 8 = header_bytes sz crc"
  shows "\<exists>v' rbuf'. nk_checked_read_open v file rbuf bs =
      Some (if unat sz + 8 \<le> unat (area_size file)
              \<and> nk_crc32be_check (range_of (mem (ck_info v)) (unat (area_base file) + 8) (unat sz)) = crc
            then 0 else -1, v', rbuf')
    \<and> mem (ck_info v') = mem (ck_info v)"
proof -
  note dev = assms(1)
  have "flash_device.header_size_of mem file (ck_info v) = sz" "flash_device.header_crc_of mem file (ck_info v) = crc"
    unfolding flash_device.header_size_of_def [OF dev] flash_device.header_crc_of_def [OF dev] assms(6) header_bytes_def
    using le32_word_bytes [of crc "[]"] by (simp_all add: le32_word_bytes) (simp add: le32_bytes_def)
  then show ?thesis using flash_device.read_open_eval [OF dev assms(2-5)] by auto
qed

theorem checked_read_open_decides_witness:
  "\<exists>v' rbuf'. nk_checked_read_open \<lparr>ck_file = nor_file, ck_crc = 0, ck_size = 0,
       ck_info = set_range (\<lambda>_. 0x41) 16 (header_bytes 41 7)\<rparr> nor_file (replicate 8 0) 8 = Some (-1, v', rbuf')"
  using checked_read_open_decides [OF nor.flash_device_axioms nor_on_device,
      where v = "\<lparr>ck_file = nor_file, ck_crc = 0, ck_size = 0, ck_info = set_range (\<lambda>_. 0x41) 16 (header_bytes 41 7)\<rparr>"
        and bs = 8 and rbuf = "replicate 8 0" and sz = 41 and crc = 7]
    range_of_set_same [of "\<lambda>_. 0x41" 16 "header_bytes 41 7"]
  by (auto simp: nor_file_def)

text \<open>C18. Damage of up to four adjacent bytes anywhere in the data of a complete file makes the reader return \<open>-1\<close>.\<close>

theorem checked_damage_rejected:
  assumes "flash_device fr fe fw ne mem ok bl ds"
    and "flash_device.complete fr fe fw ne mem ok bl ds file s (pre @ good @ post)" "ok (ck_info v)"
    and "mem (ck_info v) = set_range (mem s) (unat (area_base file) + 8 + length pre) bad"
    and "length bad = length good" "length good \<le> 4" "bad \<noteq> good"
    and "8 \<le> unat bs" "unat bs \<le> length rbuf"
  shows "\<exists>v' rbuf'. nk_checked_read_open v file rbuf bs = Some (-1, v', rbuf')"
  using flash_device.damage_rejected [OF assms] .

theorem checked_damage_rejected_witness:
  "\<exists>v' rbuf'. nk_checked_read_open \<lparr>ck_file = nor_file, ck_crc = 0, ck_size = 0,
       ck_info = set_range (set_range (set_range (\<lambda>_. 0xFF) 24 [1, 2, 3]) 16 (header_bytes 3 (nk_crc32be_check [1, 2, 3]))) 25 [9]\<rparr>
     nor_file (replicate 8 0) 8 = Some (-1, v', rbuf')"
proof -
  let ?s = "set_range (set_range (\<lambda>_. 0xFF) 24 [1, 2, 3]) 16 (header_bytes 3 (nk_crc32be_check [1, 2, 3]))"
  have "range_of ?s 24 3 = range_of (set_range (\<lambda>_. 0xFF) 24 [1, 2, 3]) 24 3"
    by (rule range_of_set_disjoint) simp
  also have "\<dots> = [1, 2, 3]" using range_of_set_same [of "\<lambda>_. 0xFF" 24 "[1, 2, 3]"] by (simp add: numeral_3_eq_3)
  finally have "nor.complete nor_file ?s ([1] @ [2] @ [3])"
    using nor_on_device range_of_set_same [of _ 16 "header_bytes 3 (nk_crc32be_check [1, 2, 3])"]
    by (simp add: nor.complete_def nor_file_def numeral_3_eq_3)
  from checked_damage_rejected [OF nor.flash_device_axioms this, of
      "\<lparr>ck_file = nor_file, ck_crc = 0, ck_size = 0, ck_info = set_range ?s 25 [9]\<rparr>" "[9]" 8 "replicate 8 0"]
  show ?thesis by (simp add: nor_file_def)
qed

text \<open>A direct file gives back what was written: after opening for writing, putting data that fits the area
  through an output file and flushing, the first bytes of the area, as the input file opened on it reads them, are
  the data.\<close>

theorem direct_file_round_trip:
  assumes "flash_device fr fe fw ne mem ok bl ds" "flash_device.on_device fr fe fw ne bl ds file" "ok (ck_info v)"
    and "length data \<le> unat (area_size file)" "0 < unat len" "unat len < 2 ^ 31" "unat len \<le> length obuf"
    and "unat bs \<le> length ibuf" "pow2 bs" "unat (area_size file) + unat bs < 2 ^ 32"
  shows "\<exists>f1 f2 f rest. put_all 0 (nkoutfile_open (Some nk_direct_write) (snd (nk_direct_write_open v file)) obuf len 1) (map uint data) = Some (0, f1)
    \<and> nk_fflush f1 = Some (0, f2) \<and> nk_direct_write_close (o_block_write_ptr f2) = 0
    \<and> nkinfile_open (Some nk_direct_read) (snd (nk_direct_read_open (o_block_write_ptr f2) file)) bs ibuf = Some f
    \<and> block_view nk_direct_read (flash_device.direct_stored mem) (flash_device.direct_readable fr fe fw ne ok bl ds) f (data @ rest) 0"
proof -
  note dev = assms(1)
  let ?v1 = "snd (nk_direct_write_open v file)"
  obtain f1 f2 where w: "put_all 0 (nkoutfile_open (Some nk_direct_write) ?v1 obuf len 1) (map uint data) = Some (0, f1)"
    "nk_fflush f1 = Some (0, f2)" "flash_device.direct_writing fr fe fw ne mem ok bl ds file (o_block_write_ptr f2) 0"
    "flash_device.direct_stored mem (o_block_write_ptr f2) = data"
    using flash_device.store_direct_ok [OF dev assms(2-7)] .
  let ?v2 = "snd (nk_direct_read_open (o_block_write_ptr f2) file)"
  have r: "flash_device.direct_readable fr fe fw ne ok bl ds ?v2"
    "\<exists>rest. flash_device.direct_stored mem ?v2 = data @ rest" "length (flash_device.direct_stored mem ?v2) = unat (area_size file)"
    using flash_device.direct_read_open_ok [OF dev w(3)] w(4) by auto
  then obtain rest where rest: "flash_device.direct_stored mem ?v2 = data @ rest" by blast
  obtain f where "nkinfile_open (Some nk_direct_read) ?v2 bs ibuf = Some f"
    "block_view nk_direct_read (flash_device.direct_stored mem) (flash_device.direct_readable fr fe fw ne ok bl ds) f (data @ rest) 0"
    using block_source.open_view [OF flash_device.direct_source_axioms [OF dev] r(1) rest assms(9,8)] r(3) assms(10) rest by auto
  then show ?thesis using w by (auto simp: nk_direct_write_close_def)
qed

theorem direct_file_round_trip_witness:
  "\<exists>f1 f2 f rest. put_all 0 (nkoutfile_open (Some nk_direct_write)
        (snd (nk_direct_write_open \<lparr>ck_file = nor_file, ck_crc = 5, ck_size = 6, ck_info = \<lambda>i. word_of_nat i\<rparr> nor_file))
        [0, 0, 0] 3 1) (map uint (replicate 40 (0x41 :: u8))) = Some (0, f1)
    \<and> nk_fflush f1 = Some (0, f2) \<and> nk_direct_write_close (o_block_write_ptr f2) = 0
    \<and> nkinfile_open (Some nk_direct_read) (snd (nk_direct_read_open (o_block_write_ptr f2) nor_file)) 8 (replicate 8 0) = Some f
    \<and> block_view nk_direct_read nor.direct_stored nor.direct_readable f (replicate 40 0x41 @ rest) 0"
proof -
  have "pow2 (8 :: u32)" by (rule pow2_numeral_intro [of 3]) simp_all
  then show ?thesis
    using direct_file_round_trip [OF nor.flash_device_axioms nor_on_device,
      where v = "\<lparr>ck_file = nor_file, ck_crc = 5, ck_size = 6, ck_info = \<lambda>i. word_of_nat i\<rparr>"
        and data = "replicate 40 0x41" and len = 3 and obuf = "[0, 0, 0]" and bs = 8 and ibuf = "replicate 8 0"]
    by (simp add: nor_file_def)
qed

end
