(* ===== verification/Spiflash.thy ===== *)
theory Spiflash
  imports Checked
begin

text \<open>
  The SPI flash driver, \<^verbatim>\<open>libnklabs/src/nkspiflash.c\<close>. The constant description of a device,
  \<open>struct nk_spiflash_info\<close>, holds the \<open>spi_transfer\<close> function: it sends the bytes of the buffer and stores the
  bytes received in their place. The state is the contents of the transfer buffer and the device behind \<open>spi_ptr\<close>.
  Diagnostic output (\<open>nk_printf\<close>) is left out. The locale \<open>spi_chip\<close> has the commands
  a serial flash or EEPROM answers to; in it the driver is shown to be a \<open>flash_device\<close>, whatever the page
  and the address size.
\<close>

section \<open>State\<close>

record 's nk_spiflash_info =
  spi_transfer :: "'s \<Rightarrow> bytes \<Rightarrow> int \<times> bytes \<times> 's"
  page_size :: u32
  busy_timeout :: nat
  addr_size :: nat
  n_erase_options :: nat
  erase_options :: "(u32 \<times> u8) list"

record 's spi_state =
  sp_buffer :: bytes
  sp_dev :: 's

definition NK_FLASH_CMD_WRITE_ENABLE :: u8 where "NK_FLASH_CMD_WRITE_ENABLE = 0x06"
definition NK_FLASH_CMD_WRITE_DISABLE :: u8 where "NK_FLASH_CMD_WRITE_DISABLE = 0x04"
definition NK_FLASH_CMD_READ_STATUS :: u8 where "NK_FLASH_CMD_READ_STATUS = 0x05"
definition NK_FLASH_CMD_WRITE_STATUS :: u8 where "NK_FLASH_CMD_WRITE_STATUS = 0x01"
definition NK_FLASH_CMD_WRITE :: u8 where "NK_FLASH_CMD_WRITE = 0x02"
definition NK_FLASH_CMD_READ :: u8 where "NK_FLASH_CMD_READ = 0x03"

lemmas spi_commands = NK_FLASH_CMD_WRITE_ENABLE_def NK_FLASH_CMD_WRITE_DISABLE_def NK_FLASH_CMD_READ_STATUS_def
  NK_FLASH_CMD_WRITE_STATUS_def NK_FLASH_CMD_WRITE_def NK_FLASH_CMD_READ_def

section \<open>Operations\<close>

text \<open>\<open>info->buffer[i] = x\<close> and \<open>info->spi_transfer(info->spi_ptr, info->buffer, n)\<close>.\<close>

definition set_buffer :: "nat \<Rightarrow> u8 \<Rightarrow> 's spi_state \<Rightarrow> 's spi_state option" where
  "set_buffer i x st = do { b \<leftarrow> store_at (sp_buffer st) i [x]; Some (st\<lparr>sp_buffer := b\<rparr>) }"

definition transfer :: "'s nk_spiflash_info \<Rightarrow> nat \<Rightarrow> 's spi_state \<Rightarrow> (int \<times> 's spi_state) option" where
  "transfer info n st = do {
     tx \<leftarrow> load_from (sp_buffer st) 0 n;
     let (rtn, rx, d) = spi_transfer info (sp_dev st) tx;
     b \<leftarrow> store_at (sp_buffer st) 0 rx;
     Some (rtn, \<lparr>sp_buffer = b, sp_dev = d\<rparr>)
   }"

definition nk_spiflash_write_enable :: "'s nk_spiflash_info \<Rightarrow> 's spi_state \<Rightarrow> (int \<times> 's spi_state) option" where
  "nk_spiflash_write_enable info st = do {
     st \<leftarrow> set_buffer 0 NK_FLASH_CMD_WRITE_ENABLE st;
     transfer info 1 st
   }"

definition nk_spiflash_write_disable :: "'s nk_spiflash_info \<Rightarrow> 's spi_state \<Rightarrow> (int \<times> 's spi_state) option" where
  "nk_spiflash_write_disable info st = do {
     st \<leftarrow> set_buffer 0 NK_FLASH_CMD_WRITE_DISABLE st;
     transfer info 1 st
   }"

definition nk_spiflash_write_status ::
  "'s nk_spiflash_info \<Rightarrow> u8 \<Rightarrow> 's spi_state \<Rightarrow> (int \<times> 's spi_state) option" where
  "nk_spiflash_write_status info val st = do {
     (_, st) \<leftarrow> nk_spiflash_write_enable info st;
     st \<leftarrow> set_buffer 0 NK_FLASH_CMD_WRITE_STATUS st;
     st \<leftarrow> set_buffer 1 val st;
     transfer info 2 st
   }"

text \<open>The polling loop, by the number of polls left.\<close>

fun busy_wait_loop :: "nat \<Rightarrow> 's nk_spiflash_info \<Rightarrow> int \<Rightarrow> 's spi_state \<Rightarrow> (int \<times> 's spi_state) option" where
  "busy_wait_loop 0 info status st = Some (-1, st)"
| "busy_wait_loop (Suc n) info status st = do {
     st \<leftarrow> set_buffer 0 NK_FLASH_CMD_READ_STATUS st;
     st \<leftarrow> set_buffer 1 0 st;
     (rtn, st) \<leftarrow> transfer info 2 st;
     let status = status OR rtn;
     if status \<noteq> 0 then Some (status, st)
     else do {
       b \<leftarrow> deref (sp_buffer st) 1;
       if b AND 1 = 0 then Some (status, st) else busy_wait_loop n info status st
     }
   }"

definition nk_spiflash_busy_wait :: "'s nk_spiflash_info \<Rightarrow> 's spi_state \<Rightarrow> (int \<times> 's spi_state) option" where
  "nk_spiflash_busy_wait info st = busy_wait_loop (busy_timeout info) info 0 st"

text \<open>The loop that stores the address bytes, most significant first: \<open>info->buffer[info->addr_size - y]\<close>
  for \<open>y\<close> from 0, so the index \<open>k\<close> goes down from \<open>addr_size\<close> to 1.\<close>

fun put_addr :: "nat \<Rightarrow> u32 \<Rightarrow> 's spi_state \<Rightarrow> 's spi_state option" where
  "put_addr 0 addr st = Some st"
| "put_addr (Suc k) addr st = do {
     st \<leftarrow> set_buffer (Suc k) (ucast addr) st;
     put_addr k (drop_bit 8 addr) st
   }"

partial_function (option) spi_erase_loop ::
  "'s nk_spiflash_info \<Rightarrow> u32 \<Rightarrow> u32 \<Rightarrow> int \<Rightarrow> 's spi_state \<Rightarrow> (int \<times> 's spi_state) option" where
  "spi_erase_loop info address byte_count status st =
     (if byte_count = 0 then Some (status, st)
      else case find (\<lambda>(sz, cmd). address AND (sz - 1) = 0 \<and> byte_count \<ge> sz) (take (n_erase_options info) (erase_options info)) of
        None \<Rightarrow> Some (-1, st)
      | Some (sz, cmd) \<Rightarrow> do {
          (rtn, st) \<leftarrow> nk_spiflash_write_enable info st;
          let status = status OR rtn;
          st \<leftarrow> set_buffer 0 cmd st;
          st \<leftarrow> put_addr (addr_size info) address st;
          (rtn, st) \<leftarrow> transfer info (addr_size info + 1) st;
          let status = status OR rtn;
          if status \<noteq> 0 then Some (status, st)
          else spi_erase_loop info (address + sz) (byte_count - sz) status st
        })"

definition nk_spiflash_erase ::
  "'s nk_spiflash_info \<Rightarrow> 's spi_state \<Rightarrow> u32 \<Rightarrow> u32 \<Rightarrow> (int \<times> 's spi_state) option" where
  "nk_spiflash_erase info st address byte_count =
     (if n_erase_options info \<noteq> 0 then spi_erase_loop info address byte_count 0 st else Some (0, st))"

partial_function (option) spi_write_loop ::
  "'s nk_spiflash_info \<Rightarrow> u32 \<Rightarrow> bytes \<Rightarrow> u32 \<Rightarrow> int \<Rightarrow> 's spi_state \<Rightarrow> (int \<times> 's spi_state) option" where
  "spi_write_loop info address data byte_count status st =
     (if byte_count = 0 then Some (status, st)
      else do {
        let page_offset = address AND (page_size info - 1);
        let transfer_len = page_size info - page_offset;
        let transfer_len = (if byte_count < transfer_len then byte_count else transfer_len);
        (rtn, st) \<leftarrow> nk_spiflash_write_enable info st;
        let status = status OR rtn;
        st \<leftarrow> set_buffer 0 NK_FLASH_CMD_WRITE st;
        st \<leftarrow> put_addr (addr_size info) address st;
        chunk \<leftarrow> load_from data 0 (unat transfer_len);
        b \<leftarrow> store_at (sp_buffer st) (1 + addr_size info) chunk;
        (rtn, st) \<leftarrow> transfer info (1 + addr_size info + unat transfer_len) (st\<lparr>sp_buffer := b\<rparr>);
        let status = status OR rtn;
        if status \<noteq> 0 then Some (status, st)
        else do {
          (rtn, st) \<leftarrow> nk_spiflash_busy_wait info st;
          let status = status OR rtn;
          if status \<noteq> 0 then Some (status, st)
          else spi_write_loop info (address + transfer_len) (drop (unat transfer_len) data)
                 (byte_count - transfer_len) status st
        }
      })"

definition nk_spiflash_write ::
  "'s nk_spiflash_info \<Rightarrow> 's spi_state \<Rightarrow> u32 \<Rightarrow> bytes \<Rightarrow> (int \<times> 's spi_state) option" where
  "nk_spiflash_write info st address data = spi_write_loop info address data (word_of_nat (length data)) 0 st"

text \<open>The read loop returns the bytes it has stored at the caller's \<open>data\<close> pointer.\<close>

partial_function (option) spi_read_loop ::
  "'s nk_spiflash_info \<Rightarrow> u32 \<Rightarrow> bytes \<Rightarrow> u32 \<Rightarrow> int \<Rightarrow> 's spi_state \<Rightarrow> (int \<times> bytes \<times> 's spi_state) option" where
  "spi_read_loop info address data byte_count status st =
     (if byte_count = 0 then Some (status, data, st)
      else do {
        let page_offset = address AND (page_size info - 1);
        let transfer_len = page_size info - page_offset;
        let transfer_len = (if byte_count < transfer_len then byte_count else transfer_len);
        st \<leftarrow> set_buffer 0 NK_FLASH_CMD_READ st;
        st \<leftarrow> put_addr (addr_size info) address st;
        (rtn, st) \<leftarrow> transfer info (1 + addr_size info + unat transfer_len) st;
        let status = status OR rtn;
        if status \<noteq> 0 then Some (status, data, st)
        else do {
          chunk \<leftarrow> load_from (sp_buffer st) (1 + addr_size info) (unat transfer_len);
          spi_read_loop info (address + transfer_len) (data @ chunk) (byte_count - transfer_len) status st
        }
      })"

definition nk_spiflash_read ::
  "'s nk_spiflash_info \<Rightarrow> 's spi_state \<Rightarrow> u32 \<Rightarrow> u32 \<Rightarrow> (int \<times> bytes \<times> 's spi_state) option" where
  "nk_spiflash_read info st address byte_count = spi_read_loop info address [] byte_count 0 st"

text \<open>The CRC of a region, 256 bytes at a time.\<close>

partial_function (option) spi_crc_loop ::
  "'s nk_spiflash_info \<Rightarrow> u32 \<Rightarrow> u32 \<Rightarrow> u32 \<Rightarrow> 's spi_state \<Rightarrow> (u32 \<times> 's spi_state) option" where
  "spi_crc_loop info addr len crc st =
     (if len = 0 then Some (crc, st)
      else do {
        let this_page = addr AND NOT 255;
        let this_ofst = addr AND 255;
        let this_len = 256 - this_ofst;
        let this_len = (if this_len > len then len else this_len);
        (rtn, buf, st) \<leftarrow> nk_spiflash_read info st this_page this_len;
        if rtn \<noteq> 0 then Some (crc, st)
        else spi_crc_loop info (addr + this_len) (len - this_len) (foldl nk_crc32be_update crc buf) st
      })"

definition nk_spiflash_crc ::
  "'s nk_spiflash_info \<Rightarrow> u32 \<Rightarrow> u32 \<Rightarrow> 's spi_state \<Rightarrow> (u32 \<times> 's spi_state) option" where
  "nk_spiflash_crc info addr len st = spi_crc_loop info addr len 0 st"

section \<open>The transfer buffer\<close>

lemma set_range_Nil [simp]: "set_range m a [] = m"
  by (auto simp: set_range_def fun_eq_iff)

lemma find_SomeD: "find P xs = Some x \<Longrightarrow> x \<in> set xs \<and> P x"
  by (induction xs) (auto split: if_splits)

fun addr_be :: "nat \<Rightarrow> u32 \<Rightarrow> bytes" where
  "addr_be 0 a = []"
| "addr_be (Suc k) a = addr_be k (drop_bit 8 a) @ [ucast a]"

lemma length_addr_be [simp]: "length (addr_be k a) = k"
  by (induction k arbitrary: a) simp_all

lemma set_buffer_eval [buf_simps]:
  "i < length (sp_buffer st) \<Longrightarrow> set_buffer i x st = Some (st\<lparr>sp_buffer := (sp_buffer st)[i := x]\<rparr>)"
  by (simp add: set_buffer_def store_at_single)

lemma put_addr_eval:
  "k < length (sp_buffer st) \<Longrightarrow>
   put_addr k a st = Some (st\<lparr>sp_buffer := take 1 (sp_buffer st) @ addr_be k a @ drop (Suc k) (sp_buffer st)\<rparr>)"
proof (induction k arbitrary: a st)
  case 0
  then show ?case by (cases "sp_buffer st") simp_all
next
  case (Suc k)
  let ?st = "st\<lparr>sp_buffer := (sp_buffer st)[Suc k := ucast a]\<rparr>"
  have "drop (Suc k) (sp_buffer ?st) = ucast a # drop (Suc (Suc k)) (sp_buffer st)"
    using Suc.prems by (simp add: drop_update_swap Cons_nth_drop_Suc [symmetric])
  moreover have "take 1 (sp_buffer ?st) = take 1 (sp_buffer st)" using Suc.prems by simp
  ultimately show ?case using Suc.prems Suc.IH [of ?st "drop_bit 8 a"] by (simp add: buf_simps)
qed

text \<open>A command with its address at the front of the buffer.\<close>

lemma command_eval:
  assumes "k < length (sp_buffer st)"
  shows "do { st \<leftarrow> set_buffer 0 c st; put_addr k a st }
     = Some (st\<lparr>sp_buffer := c # addr_be k a @ drop (Suc k) (sp_buffer st)\<rparr>)"
proof -
  have "sp_buffer st \<noteq> []" using assms by auto
  then have "take 1 ((sp_buffer st)[0 := c]) = [c]" by (cases "sp_buffer st") simp_all
  then show ?thesis using assms \<open>sp_buffer st \<noteq> []\<close> by (simp add: set_buffer_eval put_addr_eval)
qed

lemma transfer_eval:
  assumes "sp_buffer st = tx @ rest" "length tx = n" "spi_transfer info (sp_dev st) tx = (rtn, rx, d)" "length rx = n"
  shows "transfer info n st = Some (rtn, \<lparr>sp_buffer = rx @ rest, sp_dev = d\<rparr>)"
  using assms by (simp add: transfer_def load_from_def store_at_def)

section \<open>The chip on the bus\<close>

text \<open>The commands of a serial flash or EEPROM, as its data sheet gives them. \<open>polls s\<close> is for how many more status
  reads the chip will answer that it is busy. A page program needs a preceding write enable, must not be
  sent while the chip is busy, and must stay inside one page; a chip that needs erasing stores
  into erased memory only. An erase is finished before the next command arrives.\<close>

locale spi_chip =
  fixes info :: "'d nk_spiflash_info"
    and chip_mem :: "'d \<Rightarrow> nat \<Rightarrow> u8"
    and chip_ok :: "'d \<Rightarrow> bool"
    and enabled :: "'d \<Rightarrow> bool"
    and polls :: "'d \<Rightarrow> nat"
    and chip_size :: nat
    and erasable :: bool
    and eunit :: nat
  assumes info_ok: "pow2 (page_size info)" "n_erase_options info \<le> length (erase_options info)"
      "chip_size < 2 ^ 32" "unat (page_size info) < 2 ^ 31"
    and smallest_option: "erasable \<Longrightarrow> \<exists>sz cmd. (sz, cmd) \<in> set (take (n_erase_options info) (erase_options info)) \<and> unat sz = eunit"
    and options_ok: "erasable \<Longrightarrow> (sz, cmd) \<in> set (take (n_erase_options info) (erase_options info)) \<Longrightarrow> pow2 sz \<and> eunit dvd unat sz"
    and status_read: "chip_ok s \<Longrightarrow> \<exists>b st s'. spi_transfer info s [NK_FLASH_CMD_READ_STATUS, 0] = (0, [b, st], s')
      \<and> (st AND 1 = 0) = (polls s = 0) \<and> polls s' = polls s - 1 \<and> chip_ok s' \<and> chip_mem s' = chip_mem s"
    and write_enable: "chip_ok s \<Longrightarrow> polls s = 0 \<Longrightarrow> \<exists>rx s'. spi_transfer info s [NK_FLASH_CMD_WRITE_ENABLE] = (0, rx, s')
      \<and> length rx = 1 \<and> chip_ok s' \<and> polls s' = 0 \<and> enabled s' \<and> chip_mem s' = chip_mem s"
    and program_page: "chip_ok s \<Longrightarrow> polls s = 0 \<Longrightarrow> enabled s \<Longrightarrow> bs \<noteq> [] \<Longrightarrow>
      unat a mod unat (page_size info) + length bs \<le> unat (page_size info) \<Longrightarrow> unat a + length bs \<le> chip_size \<Longrightarrow>
      (erasable \<longrightarrow> (\<forall>i. unat a \<le> i \<and> i < unat a + length bs \<longrightarrow> chip_mem s i = 0xFF)) \<Longrightarrow>
      \<exists>rx s'. spi_transfer info s (NK_FLASH_CMD_WRITE # addr_be (addr_size info) a @ bs) = (0, rx, s')
      \<and> length rx = 1 + addr_size info + length bs \<and> chip_ok s' \<and> polls s' < busy_timeout info
      \<and> chip_mem s' = set_range (chip_mem s) (unat a) bs"
    and read_bytes: "chip_ok s \<Longrightarrow> polls s = 0 \<Longrightarrow> unat a + length junk \<le> chip_size \<Longrightarrow>
      \<exists>hd s'. spi_transfer info s (NK_FLASH_CMD_READ # addr_be (addr_size info) a @ junk)
          = (0, hd @ range_of (chip_mem s) (unat a) (length junk), s')
      \<and> length hd = 1 + addr_size info \<and> chip_ok s' \<and> polls s' = 0 \<and> chip_mem s' = chip_mem s"
    and erase_unit: "erasable \<Longrightarrow> chip_ok s \<Longrightarrow> polls s = 0 \<Longrightarrow> enabled s \<Longrightarrow>
      (sz, cmd) \<in> set (take (n_erase_options info) (erase_options info)) \<Longrightarrow>
      unat sz dvd unat a \<Longrightarrow> unat a + unat sz \<le> chip_size \<Longrightarrow>
      \<exists>rx s'. spi_transfer info s (cmd # addr_be (addr_size info) a) = (0, rx, s')
      \<and> length rx = addr_size info + 1 \<and> chip_ok s' \<and> polls s' = 0
      \<and> chip_mem s' = set_range (chip_mem s) (unat a) (replicate (unat sz) 0xFF)"
begin

text \<open>The driver is idle: the chip is not busy and the buffer has room for a page.\<close>

definition idle :: "'d spi_state \<Rightarrow> bool" where
  "idle st \<longleftrightarrow> chip_ok (sp_dev st) \<and> polls (sp_dev st) = 0
     \<and> unat (page_size info) + addr_size info + 1 \<le> length (sp_buffer st) \<and> 2 \<le> length (sp_buffer st)"

lemma page_pos: "0 < unat (page_size info)"
  using info_ok(1) by (rule pow2_pos)

lemma write_enable_ok:
  assumes "idle st"
  obtains st' where "nk_spiflash_write_enable info st = Some (0, st')" "idle st'" "enabled (sp_dev st')"
    "chip_mem (sp_dev st') = chip_mem (sp_dev st)" "length (sp_buffer st') = length (sp_buffer st)"
proof -
  obtain rx s' where x: "spi_transfer info (sp_dev st) [NK_FLASH_CMD_WRITE_ENABLE] = (0, rx, s')" "length rx = 1"
      "chip_ok s'" "polls s' = 0" "enabled s'" "chip_mem s' = chip_mem (sp_dev st)"
    using write_enable [of "sp_dev st"] assms by (auto simp: idle_def)
  obtain b bs where b: "sp_buffer st = b # bs" using assms by (cases "sp_buffer st") (auto simp: idle_def)
  have "nk_spiflash_write_enable info st = Some (0, \<lparr>sp_buffer = rx @ bs, sp_dev = s'\<rparr>)"
    using transfer_eval [of "st\<lparr>sp_buffer := NK_FLASH_CMD_WRITE_ENABLE # bs\<rparr>" "[NK_FLASH_CMD_WRITE_ENABLE]" bs 1 info 0 rx s'] x b
    by (simp add: nk_spiflash_write_enable_def set_buffer_eval)
  then show ?thesis using that x b assms by (simp add: idle_def)
qed

text \<open>Polling ends when the chip is ready, within the timeout.\<close>

lemma busy_wait_ok:
  assumes "chip_ok (sp_dev st)" "polls (sp_dev st) < n" "2 \<le> length (sp_buffer st)"
  obtains st' where "busy_wait_loop n info 0 st = Some (0, st')" "chip_ok (sp_dev st')" "polls (sp_dev st') = 0"
    "chip_mem (sp_dev st') = chip_mem (sp_dev st)" "length (sp_buffer st') = length (sp_buffer st)"
proof -
  have "\<exists>st'. busy_wait_loop n info 0 st = Some (0, st') \<and> chip_ok (sp_dev st') \<and> polls (sp_dev st') = 0
      \<and> chip_mem (sp_dev st') = chip_mem (sp_dev st) \<and> length (sp_buffer st') = length (sp_buffer st)"
    using assms
  proof (induction n arbitrary: st)
    case (Suc n)
    obtain b0 b1 bs where b: "sp_buffer st = b0 # b1 # bs"
      using Suc.prems(3) by (metis Suc_le_length_iff numeral_2_eq_2)
    obtain r status s' where x: "spi_transfer info (sp_dev st) [NK_FLASH_CMD_READ_STATUS, 0] = (0, [r, status], s')"
        "(status AND 1 = 0) = (polls (sp_dev st) = 0)" "polls s' = polls (sp_dev st) - 1" "chip_ok s'" "chip_mem s' = chip_mem (sp_dev st)"
      using status_read Suc.prems(1) by blast
    let ?st = "\<lparr>sp_buffer = r # status # bs, sp_dev = s'\<rparr>"
    have tr: "transfer info 2 (st\<lparr>sp_buffer := NK_FLASH_CMD_READ_STATUS # 0 # bs\<rparr>) = Some (0, ?st)"
      using transfer_eval [of "st\<lparr>sp_buffer := NK_FLASH_CMD_READ_STATUS # 0 # bs\<rparr>" "[NK_FLASH_CMD_READ_STATUS, 0]" bs 2 info 0 "[r, status]" s'] x
      by simp
    show ?case
    proof (cases "polls (sp_dev st) = 0")
      case True
      then show ?thesis using b tr x by (simp add: set_buffer_eval deref_def)
    next
      case False
      then show ?thesis
        using b tr x Suc.IH [of ?st] Suc.prems(2) by (auto simp: set_buffer_eval deref_def)
    qed
  qed simp
  then show ?thesis using that by blast
qed


lemmas chunk_length = page_chunk [OF info_ok(1)]

lemma read_loop_ok:
  assumes "idle st" "unat address + unat byte_count \<le> chip_size"
  shows "\<exists>st'. spi_read_loop info address data byte_count 0 st
      = Some (0, data @ range_of (chip_mem (sp_dev st)) (unat address) (unat byte_count), st')
    \<and> idle st' \<and> chip_mem (sp_dev st') = chip_mem (sp_dev st)"
  using assms
proof (induction "unat byte_count" arbitrary: byte_count address data st rule: less_induct)
  case less
  show ?case
  proof (cases "byte_count = 0")
    case True
    then show ?thesis using less.prems by (subst spi_read_loop.simps) simp
  next
    case False
    let ?m = "chip_mem (sp_dev st)" and ?k = "addr_size info" and ?b = "sp_buffer st"
    define len where "len = (let len = page_size info - (address AND (page_size info - 1)) in if byte_count < len then byte_count else len)"
    note cl = chunk_length [OF False, of address, folded len_def]
    have room: "Suc (?k + unat len) \<le> length ?b"
      using less.prems(1) cl(3) by (simp add: idle_def)
    define junk where "junk = take (unat len) (drop (Suc ?k) ?b)"
    define rest where "rest = drop (Suc (?k + unat len)) ?b"
    have junk: "length junk = unat len" "drop (Suc ?k) ?b = junk @ rest"
      using room by (simp_all add: junk_def rest_def drop_drop [symmetric] add.commute del: drop_drop)
        (metis add.commute add_Suc append_take_drop_id drop_drop)
    have "unat address + length junk \<le> chip_size" using less.prems(2) cl(2) junk(1) by simp
    then obtain hd s' where x: "spi_transfer info (sp_dev st) (NK_FLASH_CMD_READ # addr_be ?k address @ junk)
          = (0, hd @ range_of ?m (unat address) (unat len), s')" "length hd = 1 + ?k" "chip_ok s'" "polls s' = 0" "chip_mem s' = ?m"
      using read_bytes [of "sp_dev st" address junk] less.prems(1) junk(1) by (auto simp: idle_def)
    let ?st1 = "st\<lparr>sp_buffer := NK_FLASH_CMD_READ # addr_be ?k address @ junk @ rest\<rparr>"
    let ?st2 = "\<lparr>sp_buffer = hd @ range_of ?m (unat address) (unat len) @ rest, sp_dev = s'\<rparr>"
    have cmd: "do { st \<leftarrow> set_buffer 0 NK_FLASH_CMD_READ st; put_addr ?k address st } = Some ?st1"
      using command_eval [of ?k st NK_FLASH_CMD_READ address] room junk(2) by simp
    have tr: "transfer info (1 + ?k + unat len) ?st1 = Some (0, ?st2)"
      using transfer_eval [of ?st1 "NK_FLASH_CMD_READ # addr_be ?k address @ junk" rest "1 + ?k + unat len" info 0
        "hd @ range_of ?m (unat address) (unat len)" s'] x junk(1) by simp
    have ld: "load_from (sp_buffer ?st2) (1 + ?k) (unat len) = Some (range_of ?m (unat address) (unat len))"
      using x(2) by (simp add: load_from_def)
    have ad: "unat (address + len) = unat address + unat len"
      using less.prems(2) cl(2) info_ok(3) by (subst unat_add_no_wrap) auto
    have "length (sp_buffer ?st2) = length ?b" using x(2) room by (simp add: rest_def)
    then have idle2: "idle ?st2" using less.prems(1) x by (simp add: idle_def)
    have "\<exists>st'. spi_read_loop info (address + len) (data @ range_of ?m (unat address) (unat len)) (byte_count - len) 0 ?st2
      = Some (0, (data @ range_of ?m (unat address) (unat len)) @ range_of (chip_mem (sp_dev ?st2)) (unat (address + len)) (unat (byte_count - len)), st')
      \<and> idle st' \<and> chip_mem (sp_dev st') = chip_mem (sp_dev ?st2)"
      by (rule less.hyps) (use cl ad less.prems idle2 in auto)
    moreover have "range_of ?m (unat address) (unat byte_count)
        = range_of ?m (unat address) (unat len) @ range_of ?m (unat address + unat len) (unat byte_count - unat len)"
      using range_of_add [of ?m "unat address" "unat len" "unat byte_count - unat len"] cl(2) by simp
    moreover have "spi_read_loop info address data byte_count 0 st
       = spi_read_loop info (address + len) (data @ range_of ?m (unat address) (unat len)) (byte_count - len) 0 ?st2"
      using False cmd tr ld
      by (subst spi_read_loop.simps) (simp add: len_def [unfolded Let_def, symmetric] Let_def bind_assoc [symmetric] del: bind_assoc)
    ultimately show ?thesis using x(5) by (simp add: ad cl(4))
  qed
qed

end

context spi_chip begin

text \<open>One page program with its write enable and its busy wait.\<close>

lemma write_page_ok:
  assumes "idle st" "bs \<noteq> []" "unat a mod unat (page_size info) + length bs \<le> unat (page_size info)"
    and "unat a + length bs \<le> chip_size"
    and "erasable \<longrightarrow> (\<forall>i. unat a \<le> i \<and> i < unat a + length bs \<longrightarrow> chip_mem (sp_dev st) i = 0xFF)"
  obtains st1 st2 b st3 st4 where "nk_spiflash_write_enable info st = Some (0, st1)"
    "do { st \<leftarrow> set_buffer 0 NK_FLASH_CMD_WRITE st1; put_addr (addr_size info) a st } = Some st2"
    "store_at (sp_buffer st2) (1 + addr_size info) bs = Some b"
    "transfer info (1 + addr_size info + length bs) (st2\<lparr>sp_buffer := b\<rparr>) = Some (0, st3)"
    "nk_spiflash_busy_wait info st3 = Some (0, st4)" "idle st4"
    "chip_mem (sp_dev st4) = set_range (chip_mem (sp_dev st)) (unat a) bs"
proof -
  let ?k = "addr_size info"
  obtain st1 where st1: "nk_spiflash_write_enable info st = Some (0, st1)" "idle st1" "enabled (sp_dev st1)"
    "chip_mem (sp_dev st1) = chip_mem (sp_dev st)" "length (sp_buffer st1) = length (sp_buffer st)"
    using write_enable_ok [OF assms(1)] .
  have room: "Suc (?k + length bs) \<le> length (sp_buffer st1)"
    using assms(3) st1(2) by (simp add: idle_def)
  define rest where "rest = drop (Suc (?k + length bs)) (sp_buffer st1)"
  let ?st2 = "st1\<lparr>sp_buffer := NK_FLASH_CMD_WRITE # addr_be ?k a @ drop (Suc ?k) (sp_buffer st1)\<rparr>"
  have st2: "do { st \<leftarrow> set_buffer 0 NK_FLASH_CMD_WRITE st1; put_addr ?k a st } = Some ?st2"
    using command_eval [of ?k st1 NK_FLASH_CMD_WRITE a] room by simp
  let ?b = "NK_FLASH_CMD_WRITE # addr_be ?k a @ bs @ rest"
  have b: "store_at (sp_buffer ?st2) (1 + ?k) bs = Some ?b"
    using room by (simp add: store_at_def rest_def ac_simps)
  obtain rx s' where x: "spi_transfer info (sp_dev st1) (NK_FLASH_CMD_WRITE # addr_be ?k a @ bs) = (0, rx, s')"
      "length rx = 1 + ?k + length bs" "chip_ok s'" "polls s' < busy_timeout info"
      "chip_mem s' = set_range (chip_mem (sp_dev st)) (unat a) bs"
    using program_page [of "sp_dev st1" bs a] st1 assms by (auto simp: idle_def)
  let ?st3 = "\<lparr>sp_buffer = rx @ rest, sp_dev = s'\<rparr>"
  have st3: "transfer info (1 + ?k + length bs) (?st2\<lparr>sp_buffer := ?b\<rparr>) = Some (0, ?st3)"
    using transfer_eval [of "?st2\<lparr>sp_buffer := ?b\<rparr>" "NK_FLASH_CMD_WRITE # addr_be ?k a @ bs" rest "1 + ?k + length bs" info 0 rx s'] x
    by simp
  have len3: "length (sp_buffer ?st3) = length (sp_buffer st)" using room st1(5) x(2) by (simp add: rest_def)
  then obtain st4 where "nk_spiflash_busy_wait info ?st3 = Some (0, st4)" "chip_ok (sp_dev st4)" "polls (sp_dev st4) = 0"
    "chip_mem (sp_dev st4) = chip_mem s'" "length (sp_buffer st4) = length (sp_buffer ?st3)"
    using busy_wait_ok [of ?st3 "busy_timeout info"] x assms(1) by (auto simp: nk_spiflash_busy_wait_def idle_def)
  then show ?thesis using that st1(1) st2 b st3 x(5) len3 assms(1) by (simp add: idle_def)
qed

lemma write_loop_ok:
  assumes "idle st" "unat byte_count = length data" "unat address + length data \<le> chip_size"
    and "erasable \<longrightarrow> (\<forall>i. unat address \<le> i \<and> i < unat address + length data \<longrightarrow> chip_mem (sp_dev st) i = 0xFF)"
  shows "\<exists>st'. spi_write_loop info address data byte_count 0 st = Some (0, st')
    \<and> idle st' \<and> chip_mem (sp_dev st') = set_range (chip_mem (sp_dev st)) (unat address) data"
  using assms
proof (induction "unat byte_count" arbitrary: byte_count address data st rule: less_induct)
  case less
  show ?case
  proof (cases "byte_count = 0")
    case True
    then show ?thesis using less.prems by (subst spi_write_loop.simps) simp
  next
    case False
    let ?m = "chip_mem (sp_dev st)" and ?k = "addr_size info"
    define len where "len = (let len = page_size info - (address AND (page_size info - 1)) in if byte_count < len then byte_count else len)"
    note cl = chunk_length [OF False, of address, folded len_def]
    let ?d = "take (unat len) data"
    have d: "length ?d = unat len" "?d \<noteq> []" using cl(1,2) less.prems(2) by auto
    have "erasable \<longrightarrow> (\<forall>i. unat address \<le> i \<and> i < unat address + length ?d \<longrightarrow> ?m i = 0xFF)"
      using less.prems(4) d(1) cl(2) less.prems(2) by auto
    moreover have "unat address mod unat (page_size info) + length ?d \<le> unat (page_size info)"
      "unat address + length ?d \<le> chip_size"
      using cl(2,3) less.prems(2,3) unfolding d(1) by auto
    ultimately obtain st1 st2 b st3 st4 where w: "nk_spiflash_write_enable info st = Some (0, st1)"
      "do { st \<leftarrow> set_buffer 0 NK_FLASH_CMD_WRITE st1; put_addr ?k address st } = Some st2"
      "store_at (sp_buffer st2) (1 + ?k) ?d = Some b"
      "transfer info (1 + ?k + length ?d) (st2\<lparr>sp_buffer := b\<rparr>) = Some (0, st3)"
      "nk_spiflash_busy_wait info st3 = Some (0, st4)" "idle st4"
      "chip_mem (sp_dev st4) = set_range ?m (unat address) ?d"
      using write_page_ok [OF less.prems(1) d(2)] by metis
    have ld: "load_from data 0 (unat len) = Some ?d" using cl(2) less.prems(2) by (simp add: buf_simps)
    have ad: "unat (address + len) = unat address + unat len"
      using less.prems(2,3) cl(2) info_ok(3) by (subst unat_add_no_wrap) auto
    have step: "spi_write_loop info address data byte_count 0 st
       = spi_write_loop info (address + len) (drop (unat len) data) (byte_count - len) 0 st4"
      using False w(1-5) ld d(1)
      by (subst spi_write_loop.simps) (simp add: len_def [unfolded Let_def, symmetric] Let_def bind_assoc [symmetric] del: bind_assoc)
    have "\<exists>st'. spi_write_loop info (address + len) (drop (unat len) data) (byte_count - len) 0 st4 = Some (0, st')
      \<and> idle st' \<and> chip_mem (sp_dev st') = set_range (chip_mem (sp_dev st4)) (unat (address + len)) (drop (unat len) data)"
    proof (rule less.hyps)
      show "erasable \<longrightarrow> (\<forall>i. unat (address + len) \<le> i \<and> i < unat (address + len) + length (drop (unat len) data) \<longrightarrow>
          chip_mem (sp_dev st4) i = 0xFF)"
        using less.prems(2,4) cl(2) d(1) by (auto simp: w(7) ad set_range_def)
    qed (use cl ad less.prems w(6) in auto)
    moreover have "set_range (set_range ?m (unat address) ?d) (unat address + unat len) (drop (unat len) data)
        = set_range ?m (unat address) data"
      using cl(2) less.prems(2) by (auto simp: set_range_def fun_eq_iff)
    ultimately show ?thesis by (simp add: step w(7) ad)
  qed
qed

lemma erase_loop_ok:
  assumes "erasable" "idle st" "unat address + unat byte_count \<le> chip_size"
    and "eunit dvd unat address" "eunit dvd unat byte_count"
  shows "\<exists>st'. spi_erase_loop info address byte_count 0 st = Some (0, st')
    \<and> idle st' \<and> chip_mem (sp_dev st') = set_range (chip_mem (sp_dev st)) (unat address) (replicate (unat byte_count) 0xFF)"
  using assms(2-)
proof (induction "unat byte_count" arbitrary: byte_count address st rule: less_induct)
  case less
  show ?case
  proof (cases "byte_count = 0")
    case True
    then show ?thesis using less.prems by (subst spi_erase_loop.simps) simp
  next
    case False
    let ?m = "chip_mem (sp_dev st)" and ?k = "addr_size info"
    let ?P = "\<lambda>(sz, cmd :: u8). address AND (sz - 1) = 0 \<and> byte_count \<ge> sz"
    let ?opts = "take (n_erase_options info) (erase_options info)"
    have pos: "0 < unat byte_count" using False by (metis unat_eq_zero neq0_conv)
    have "\<exists>x\<in>set ?opts. ?P x"
    proof -
      obtain sz cmd where o: "(sz, cmd) \<in> set ?opts" "unat sz = eunit" using smallest_option [OF assms(1)] by blast
      have "pow2 sz" using options_ok [OF assms(1) o(1)] by simp
      then have "unat (address AND (sz - 1)) = 0" using less.prems(3) o(2) by (simp add: word_nat_simps dvd_imp_mod_0)
      moreover have "sz \<le> byte_count" using less.prems(4) o(2) pos by (simp add: word_le_nat_alt dvd_imp_le)
      ultimately show ?thesis using o(1) by (auto simp: unat_eq_zero)
    qed
    then obtain sz cmd where f: "find ?P ?opts = Some (sz, cmd)"
      by (cases "find ?P ?opts") (auto simp: find_None_iff)
    then have o: "(sz, cmd) \<in> set ?opts" "address AND (sz - 1) = 0" "sz \<le> byte_count"
      using find_SomeD [OF f] by auto
    have sz: "pow2 sz" "eunit dvd unat sz" using options_ok [OF assms(1) o(1)] by simp_all
    have dv: "unat sz dvd unat address"
      using and_pow2_minus_1 [OF sz(1), of address] o(2) by (simp add: dvd_eq_mod_eq_0)
    have le: "unat sz \<le> unat byte_count" using o(3) by (simp add: word_le_nat_alt)
    obtain st1 where st1: "nk_spiflash_write_enable info st = Some (0, st1)" "idle st1" "enabled (sp_dev st1)"
      "chip_mem (sp_dev st1) = ?m" "length (sp_buffer st1) = length (sp_buffer st)"
      using write_enable_ok [OF less.prems(1)] .
    have room: "Suc ?k \<le> length (sp_buffer st1)" using st1(2) by (simp add: idle_def)
    define rest where "rest = drop (Suc ?k) (sp_buffer st1)"
    let ?st2 = "st1\<lparr>sp_buffer := cmd # addr_be ?k address @ rest\<rparr>"
    have st2: "do { st \<leftarrow> set_buffer 0 cmd st1; put_addr ?k address st } = Some ?st2"
      using command_eval [of ?k st1 cmd address] room by (simp add: rest_def)
    obtain rx s' where x: "spi_transfer info (sp_dev st1) (cmd # addr_be ?k address) = (0, rx, s')"
        "length rx = ?k + 1" "chip_ok s'" "polls s' = 0" "chip_mem s' = set_range ?m (unat address) (replicate (unat sz) 0xFF)"
      using erase_unit [OF assms(1) _ _ st1(3) o(1) dv] st1 less.prems(2) le by (auto simp: idle_def)
    let ?st3 = "\<lparr>sp_buffer = rx @ rest, sp_dev = s'\<rparr>"
    have st3: "transfer info (?k + 1) ?st2 = Some (0, ?st3)"
      using transfer_eval [of ?st2 "cmd # addr_be ?k address" rest "?k + 1" info 0 rx s'] x by simp
    have "length (sp_buffer ?st3) = length (sp_buffer st)" using room st1(5) x(2) by (simp add: rest_def)
    then have idle3: "idle ?st3" using x less.prems(1) by (simp add: idle_def)
    have ad: "unat (address + sz) = unat address + unat sz" "unat (byte_count - sz) = unat byte_count - unat sz"
      using less.prems(2) le info_ok(3) by (simp_all add: unat_add_no_wrap unat_sub_no_wrap)
    have step: "spi_erase_loop info address byte_count 0 st = spi_erase_loop info (address + sz) (byte_count - sz) 0 ?st3"
      using False f st1(1) st2 st3
      by (subst spi_erase_loop.simps) (simp add: bind_assoc [symmetric] del: bind_assoc)
    have "\<exists>st'. spi_erase_loop info (address + sz) (byte_count - sz) 0 ?st3 = Some (0, st') \<and> idle st'
      \<and> chip_mem (sp_dev st') = set_range (chip_mem (sp_dev ?st3)) (unat (address + sz)) (replicate (unat (byte_count - sz)) 0xFF)"
    proof (rule less.hyps)
      show "unat (byte_count - sz) < unat byte_count" using ad(2) le pow2_pos [OF sz(1)] by simp
    qed (use ad less.prems le sz idle3 in \<open>auto simp: dvd_diff_nat\<close>)
    moreover have "set_range (set_range ?m (unat address) (replicate (unat sz) 0xFF)) (unat address + unat sz)
        (replicate (unat byte_count - unat sz) 0xFF) = set_range ?m (unat address) (replicate (unat byte_count) 0xFF)"
      using le by (auto simp: set_range_def fun_eq_iff)
    ultimately show ?thesis by (simp add: step x(5) ad)
  qed
qed

end

context spi_chip begin

text \<open>So the driver keeps the promises of a flash device, for every erase block that is a multiple of the smallest
  erase option.\<close>

lemma spiflash_device:
  assumes "eunit dvd blk"
  shows "flash_device (nk_spiflash_read info) (nk_spiflash_erase info) (nk_spiflash_write info) erasable
    (\<lambda>st. chip_mem (sp_dev st)) idle blk chip_size"
proof unfold_locales
  show "chip_size < 2 ^ 32" by (rule info_ok(3))
  show "\<exists>s'. nk_spiflash_read info s a n = Some (0, range_of (chip_mem (sp_dev s)) (unat a) (unat n), s')
      \<and> idle s' \<and> chip_mem (sp_dev s') = chip_mem (sp_dev s)"
    if "idle s" "unat a + unat n \<le> chip_size" for s a n
    using read_loop_ok [OF that, of "[]"] by (simp add: nk_spiflash_read_def)
  show "\<exists>s'. nk_spiflash_erase info s a n = Some (0, s') \<and> idle s'
      \<and> chip_mem (sp_dev s') = set_range (chip_mem (sp_dev s)) (unat a) (replicate blk 0xFF)"
    if "erasable" "idle s" "unat n = blk" "blk dvd unat a" "unat a + blk \<le> chip_size" for s a n
  proof -
    have "set (take (n_erase_options info) (erase_options info)) \<noteq> {}" using smallest_option [OF that(1)] by (metis empty_iff)
    then have "n_erase_options info \<noteq> 0" by auto
    moreover have "eunit dvd unat a" "eunit dvd unat n" using assms that(3,4) by (auto intro: dvd_trans)
    ultimately show ?thesis
      using erase_loop_ok [OF that(1,2), of a n] that(3,5) by (simp add: nk_spiflash_erase_def)
  qed
  show "\<exists>s'. nk_spiflash_write info s a bs = Some (0, s') \<and> idle s'
      \<and> chip_mem (sp_dev s') = set_range (chip_mem (sp_dev s)) (unat a) bs"
    if "idle s" "unat a + length bs \<le> chip_size"
      "erasable \<longrightarrow> (\<forall>i. unat a \<le> i \<and> i < unat a + length bs \<longrightarrow> chip_mem (sp_dev s) i = 0xFF)" for s a bs
  proof -
    have "unat (word_of_nat (length bs) :: u32) = length bs"
      using that(2) info_ok(3) by (intro unat_of_nat_u32) simp
    then show ?thesis using write_loop_ok [OF that(1) _ that(2,3)] by (simp add: nk_spiflash_write_def)
  qed
qed

sublocale spi_flash: flash_device "nk_spiflash_read info" "nk_spiflash_erase info" "nk_spiflash_write info" erasable
    "\<lambda>st. chip_mem (sp_dev st)" idle eunit chip_size
  by (rule spiflash_device) simp

text \<open>The CRC of a region that starts on a multiple of 256.\<close>

lemma crc_loop_aligned:
  assumes "idle st" "unat addr + unat len \<le> chip_size" "256 dvd unat addr"
  shows "\<exists>st'. spi_crc_loop info addr len crc st
    = Some (foldl nk_crc32be_update crc (range_of (chip_mem (sp_dev st)) (unat addr) (unat len)), st')
    \<and> idle st' \<and> chip_mem (sp_dev st') = chip_mem (sp_dev st)"
  using assms
proof (induction "unat len" arbitrary: len addr crc st rule: less_induct)
  case less
  show ?case
  proof (cases "len = 0")
    case True
    then show ?thesis using less.prems by (subst spi_crc_loop.simps) simp
  next
    case False
    let ?m = "chip_mem (sp_dev st)"
    have p: "pow2 (256 :: u32)" by (rule pow2_numeral_intro [of 8]) simp_all
    have ofs: "addr AND 255 = 0" "addr AND NOT 255 = addr" "addr AND - 256 = addr"
      using and_pow2_minus_1 [OF p, of addr] and_not_pow2_minus_1 [OF p, of addr] less.prems(3)
      by (simp_all add: word_unat_eq_iff)
    define n where "n = (if 256 > len then len else (256 :: u32))"
    have n: "0 < unat n" "unat n \<le> unat len" "unat n \<noteq> 256 \<longrightarrow> n = len" "unat (len - n) = unat len - unat n"
      using False by (auto simp: n_def word_less_nat_alt unat_gt_0 unat_sub_no_wrap)
    have ad: "unat (addr + n) = unat addr + unat n"
      using less.prems(2) n(2) info_ok(3) by (subst unat_add_no_wrap) auto
    obtain st1 where st1: "nk_spiflash_read info st addr n = Some (0, range_of ?m (unat addr) (unat n), st1)"
        "idle st1" "chip_mem (sp_dev st1) = ?m"
      using spi_flash.fread [OF less.prems(1), of addr n] less.prems(2) n(2) by auto
    have step: "spi_crc_loop info addr len crc st = spi_crc_loop info (addr + n) (len - n)
        (foldl nk_crc32be_update crc (range_of ?m (unat addr) (unat n))) st1"
      using False st1(1) by (subst spi_crc_loop.simps) (simp add: ofs n_def [symmetric])
    have split: "range_of ?m (unat addr) (unat len)
        = range_of ?m (unat addr) (unat n) @ range_of ?m (unat addr + unat n) (unat len - unat n)"
      using range_of_add [of ?m "unat addr" "unat n" "unat len - unat n"] n(2) by simp
    show ?thesis
    proof (cases "unat n = 256")
      case True
      have "\<exists>st'. spi_crc_loop info (addr + n) (len - n) (foldl nk_crc32be_update crc (range_of ?m (unat addr) (unat n))) st1
        = Some (foldl nk_crc32be_update (foldl nk_crc32be_update crc (range_of ?m (unat addr) (unat n)))
            (range_of (chip_mem (sp_dev st1)) (unat (addr + n)) (unat (len - n))), st')
        \<and> idle st' \<and> chip_mem (sp_dev st') = chip_mem (sp_dev st1)"
        by (rule less.hyps) (use True n ad less.prems st1 in auto)
      then show ?thesis unfolding step split using st1(3) by (simp add: ad n(4))
    next
      case False
      then have "len - n = 0" "unat len - unat n = 0" using n(3) by simp_all
      then show ?thesis unfolding step split using st1 by (subst spi_crc_loop.simps) simp
    qed
  qed
qed

text \<open>Elsewhere, up to the next multiple of 256, the bytes from the start of the 256-byte page are taken.\<close>

lemma crc_first_page:
  assumes "idle st" "0 < unat len" "unat addr mod 256 + unat len \<le> 256" "unat addr + unat len \<le> chip_size"
  shows "\<exists>st'. nk_spiflash_crc info addr len st
    = Some (nk_crc32be_check (range_of (chip_mem (sp_dev st)) (unat addr - unat addr mod 256) (unat len)), st')"
proof -
  have p: "pow2 (256 :: u32)" by (rule pow2_numeral_intro [of 8]) simp_all
  have ofs: "unat (addr AND 255) = unat addr mod 256" "unat (addr AND NOT 255) = unat addr - unat addr mod 256"
    using and_pow2_minus_1 [OF p, of addr] and_not_pow2_minus_1 [OF p, of addr] by (simp_all add: minus_mod_eq_div_mult)
  have sub: "unat (256 - (addr AND 255)) = 256 - unat addr mod 256"
    using ofs(1) by (simp add: unat_sub_no_wrap)
  have len: "(if 256 - (addr AND 255) > len then len else 256 - (addr AND 255)) = len"
    using assms(3) sub by (auto simp: word_less_nat_alt word_unat_eq_iff)
  have "len \<noteq> 0" using assms(2) by auto
  have "unat (addr AND NOT 255) + unat len \<le> chip_size" using ofs(2) assms(4) by simp
  from spi_flash.fread [OF assms(1) this] obtain st1 where st1: "nk_spiflash_read info st (addr AND NOT 255) len
      = Some (0, range_of (chip_mem (sp_dev st)) (unat addr - unat addr mod 256) (unat len), st1)"
    unfolding ofs(2) by blast
  have "spi_crc_loop info addr len 0 st = spi_crc_loop info (addr + len) (len - len)
      (foldl nk_crc32be_update 0 (range_of (chip_mem (sp_dev st)) (unat addr - unat addr mod 256) (unat len))) st1"
    using \<open>len \<noteq> 0\<close> st1 by (subst spi_crc_loop.simps) (simp only: Let_def len if_False if_True, simp)
  then show ?thesis
    unfolding nk_spiflash_crc_def nk_crc32be_check_def by (subst (asm) (2) spi_crc_loop.simps) simp
qed

end

section \<open>A serial NOR flash\<close>

text \<open>A 1 MB device with 256-byte pages, 24-bit addresses and erase commands for 64 KB and 4 KB, as a state machine on
  the commands it receives: while it is busy it answers status reads only; a program or an erase needs a
  write enable, which it uses up; a program clears bits and wraps inside its page. \<open>eb\<close> is for how many status
  reads it stays busy after an erase.\<close>

record chip =
  c_mem :: "nat \<Rightarrow> u8"
  c_wel :: bool
  c_busy :: nat

definition be_val :: "bytes \<Rightarrow> nat" where
  "be_val bs = foldl (\<lambda>acc b. acc * 256 + unat b) 0 bs"

definition chip_options :: "(u32 \<times> u8) list" where
  "chip_options = [(0x10000, 0xD8), (0x1000, 0x20)]"

definition chip_program :: "(nat \<Rightarrow> u8) \<Rightarrow> nat \<Rightarrow> bytes \<Rightarrow> nat \<Rightarrow> u8" where
  "chip_program m a bs = (\<lambda>i. if i div 256 = a div 256 \<and> a \<le> i \<and> i < a + length bs then m i AND bs ! (i - a) else m i)"

definition chip_transfer :: "nat \<Rightarrow> chip \<Rightarrow> bytes \<Rightarrow> int \<times> bytes \<times> chip" where
  "chip_transfer eb s tx =
     (case tx of [] \<Rightarrow> (0, [], s)
      | c # rest \<Rightarrow>
        if c = 0x05 then (0, c # replicate (length rest) (if c_busy s > 0 then 1 else 0), s\<lparr>c_busy := c_busy s - 1\<rparr>)
        else if c_busy s > 0 then (0, tx, s)
        else if c = 0x06 then (0, tx, s\<lparr>c_wel := True\<rparr>)
        else if c = 0x03 then (0, take 4 tx @ range_of (c_mem s) (be_val (take 3 rest)) (length rest - 3), s)
        else if c = 0x02 \<and> c_wel s then
          (0, tx, s\<lparr>c_mem := chip_program (c_mem s) (be_val (take 3 rest)) (drop 3 rest), c_wel := False, c_busy := 2\<rparr>)
        else case find (\<lambda>(sz, cmd). cmd = c) chip_options of
            Some (sz, cmd) \<Rightarrow>
              if c_wel s then
                (0, tx, s\<lparr>c_mem := set_range (c_mem s) (be_val (take 3 rest) div unat sz * unat sz) (replicate (unat sz) 0xFF),
                   c_wel := False, c_busy := eb\<rparr>)
              else (0, tx, s)
          | None \<Rightarrow> (0, tx, s))"

definition chip_info :: "nat \<Rightarrow> chip nk_spiflash_info" where
  "chip_info eb = \<lparr>spi_transfer = chip_transfer eb, page_size = 256, busy_timeout = 10, addr_size = 3,
     n_erase_options = 2, erase_options = chip_options\<rparr>"

lemma be_val_addr_be: "be_val (addr_be k a) = unat a mod 256 ^ k"
proof (induction k arbitrary: a)
  case (Suc k)
  have d: "unat (drop_bit 8 a) = unat a div 256"
    by (simp add: drop_bit_eq_div unat_div)
  have m: "unat (ucast a :: u8) = unat a mod 256"
    by (simp add: unsigned_ucast_eq take_bit_eq_mod)
  have "be_val (addr_be (Suc k) a) = be_val (addr_be k (drop_bit 8 a)) * 256 + unat (ucast a :: u8)"
    by (simp add: be_val_def)
  then show ?case unfolding Suc.IH d m by (simp add: mod_mult2_eq mult.commute)
qed (simp add: be_val_def)

lemma be_val_small: "unat a < 2 ^ 24 \<Longrightarrow> be_val (addr_be 3 a) = unat a"
  by (simp add: be_val_addr_be)

interpretation sim: spi_chip "chip_info 0" c_mem "\<lambda>_. True" c_wel c_busy "2 ^ 20" True "2 ^ 12"
proof unfold_locales
  show "pow2 (page_size (chip_info 0))"
    by (rule pow2_numeral_intro [of 8]) (simp_all add: chip_info_def)
  show "pow2 sz \<and> 2 ^ 12 dvd unat sz"
    if "(sz, cmd) \<in> set (take (n_erase_options (chip_info 0)) (erase_options (chip_info 0)))" for sz cmd
    using that pow2_numeral_intro [of 16 "0x10000 :: u32"] pow2_numeral_intro [of 12 "0x1000 :: u32"]
    by (auto simp: chip_info_def chip_options_def)
  show "\<exists>rx s'. spi_transfer (chip_info 0) s (NK_FLASH_CMD_WRITE # addr_be (addr_size (chip_info 0)) a @ bs) = (0, rx, s')
      \<and> length rx = 1 + addr_size (chip_info 0) + length bs \<and> True \<and> c_busy s' < busy_timeout (chip_info 0)
      \<and> c_mem s' = set_range (c_mem s) (unat a) bs"
    if w: "c_busy s = 0" "c_wel s" "unat a mod unat (page_size (chip_info 0)) + length bs \<le> unat (page_size (chip_info 0))"
      "unat a + length bs \<le> 2 ^ 20" "True \<longrightarrow> (\<forall>i. unat a \<le> i \<and> i < unat a + length bs \<longrightarrow> c_mem s i = 0xFF)" "bs \<noteq> []"
    for s :: chip and bs a
  proof -
    have "i div 256 = unat a div 256" if i: "unat a \<le> i" "i < unat a + length bs" for i
    proof -
      have "i < (unat a div 256 + 1) * 256"
      proof -
        have "unat a mod 256 + length bs \<le> 256" using w(3) by (simp add: chip_info_def)
        then show ?thesis using i div_mult_mod_eq [of "unat a" 256] unfolding add_mult_distrib mult_1 by linarith
      qed
      then have "i div 256 < unat a div 256 + 1" by (simp add: div_less_iff_less_mult)
      moreover have "unat a div 256 \<le> i div 256" using i(1) by (rule div_le_mono)
      ultimately show ?thesis by simp
    qed
    then have "chip_program (c_mem s) (unat a) bs = set_range (c_mem s) (unat a) bs"
      using w(5) by (auto simp: chip_program_def set_range_def fun_eq_iff and_0xFF)
    moreover have "unat a < 2 ^ 24" using w(4) by simp
    ultimately show ?thesis using w(1,2)
      by (simp add: chip_info_def chip_transfer_def spi_commands be_val_small)
  qed
  show "\<exists>hd s'. spi_transfer (chip_info 0) s (NK_FLASH_CMD_READ # addr_be (addr_size (chip_info 0)) a @ junk)
          = (0, hd @ range_of (c_mem s) (unat a) (length junk), s')
      \<and> length hd = 1 + addr_size (chip_info 0) \<and> True \<and> c_busy s' = 0 \<and> c_mem s' = c_mem s"
    if "c_busy s = 0" "unat a + length junk \<le> 2 ^ 20" for s :: chip and a junk
    using that by (simp add: chip_info_def chip_transfer_def spi_commands be_val_small)
  show "\<exists>rx s'. spi_transfer (chip_info 0) s (cmd # addr_be (addr_size (chip_info 0)) a) = (0, rx, s')
      \<and> length rx = addr_size (chip_info 0) + 1 \<and> True \<and> c_busy s' = 0
      \<and> c_mem s' = set_range (c_mem s) (unat a) (replicate (unat sz) 0xFF)"
    if e: "c_busy s = 0" "c_wel s" "(sz, cmd) \<in> set (take (n_erase_options (chip_info 0)) (erase_options (chip_info 0)))"
      "unat sz dvd unat a" "unat a + unat sz \<le> 2 ^ 20" for s :: chip and sz cmd a
  proof -
    have "unat a < 2 ^ 24" using e(5) by simp
    moreover have "(sz, cmd) = (0x10000, 0xD8) \<or> (sz, cmd) = (0x1000, 0x20)"
      using e(3) by (auto simp: chip_info_def chip_options_def)
    ultimately show ?thesis using e
      by (auto simp: chip_info_def chip_transfer_def spi_commands be_val_small chip_options_def)
  qed
qed (auto simp: chip_info_def chip_options_def chip_transfer_def spi_commands)

section \<open>Properties\<close>


definition chip0 :: "chip spi_state" where
  "chip0 = \<lparr>sp_buffer = replicate 300 0, sp_dev = \<lparr>c_mem = \<lambda>_. 0xFF, c_wel = False, c_busy = 0\<rparr>\<rparr>"

lemma chip0_idle: "sim.idle chip0"
  unfolding sim.idle_def by (simp add: chip0_def chip_info_def)


text \<open>Erasing a region that starts and ends on a multiple of the smallest erase option sets exactly
  that region to 0xFF and returns 0, using the larger options where they fit, on a device that has finished an
  erase when the next command arrives.\<close>

theorem spiflash_erase_region:
  assumes "spi_chip info mem ok enabled polls csize True eunit" "spi_chip.idle info ok polls st"
    and "unat a + unat n \<le> csize" "eunit dvd unat a" "eunit dvd unat n"
  shows "\<exists>st'. nk_spiflash_erase info st a n = Some (0, st')
    \<and> mem (sp_dev st') = set_range (mem (sp_dev st)) (unat a) (replicate (unat n) 0xFF)"
proof -
  have "set (take (n_erase_options info) (erase_options info)) \<noteq> {}"
    using spi_chip.smallest_option [OF assms(1)] by (metis empty_iff)
  then have "n_erase_options info \<noteq> 0" by auto
  then show ?thesis
    using spi_chip.erase_loop_ok [OF assms(1) TrueI assms(2-5)] by (auto simp: nk_spiflash_erase_def)
qed

theorem spiflash_erase_region_witness:
  "\<exists>st'. nk_spiflash_erase (chip_info 0) chip0 0xF000 0x11000 = Some (0, st')
    \<and> c_mem (sp_dev st') = set_range (\<lambda>_. 0xFF) 0xF000 (replicate 0x11000 0xFF)"
proof -
  have "(2 :: nat) ^ 12 dvd 0xF000" "(2 :: nat) ^ 12 dvd 0x11000" by simp_all
  then show ?thesis
    using spiflash_erase_region [OF sim.spi_chip_axioms chip0_idle, where a = "0xF000" and n = "0x11000"] by (auto simp: chip0_def)
qed

text \<open>A region where no erase option fits is refused with \<open>-1\<close> and nothing is sent to the device.\<close>

theorem spiflash_erase_refused:
  assumes "n_erase_options info \<noteq> 0" "n \<noteq> 0"
    and "\<forall>(sz, cmd) \<in> set (take (n_erase_options info) (erase_options info)). a AND (sz - 1) \<noteq> 0 \<or> n < sz"
  shows "nk_spiflash_erase info st a n = Some (-1, st)"
proof -
  have "find (\<lambda>(sz, cmd). a AND (sz - 1) = 0 \<and> n \<ge> sz) (take (n_erase_options info) (erase_options info)) = None"
    using assms(3) by (auto simp: find_None_iff)
  then show ?thesis using assms(1,2) by (simp add: nk_spiflash_erase_def spi_erase_loop.simps)
qed

theorem spiflash_erase_refused_witness: "nk_spiflash_erase (chip_info 0) chip0 0x800 0x1000 = Some (-1, chip0)"
proof -
  have "(0x800 :: u32) AND 0xFFFF \<noteq> 0" "(0x800 :: u32) AND 0xFFF \<noteq> 0" by simp_all
  then show ?thesis
    using spiflash_erase_refused [of "chip_info 0" "0x1000" "0x800" chip0] by (simp add: chip_info_def chip_options_def)
qed

text \<open>The driver does not wait after an erase: on a device that stays busy for some time after an erase, erasing two
  blocks sends the second command while the first is still running; the device ignores it, and the driver
  returns 0 although the second block is not erased.\<close>

theorem spiflash_erase_busy_lost:
  "case nk_spiflash_erase (chip_info 2) \<lparr>sp_buffer = [0, 0, 0, 0], sp_dev = \<lparr>c_mem = \<lambda>_. 0, c_wel = False, c_busy = 0\<rparr>\<rparr> 0x1000 0x2000 of
     Some (r, st) \<Rightarrow> r = 0 \<and> c_mem (sp_dev st) 0x1000 = 0xFF \<and> c_mem (sp_dev st) 0x2000 = 0
   | None \<Rightarrow> False"
proof -
  let ?opts = "[(0x10000, 0xD8), (0x1000, 0x20)] :: (u32 \<times> u8) list"
  let ?dev = "\<lambda>m w b. \<lparr>c_mem = m, c_wel = w, c_busy = b\<rparr>"
  define m where "m = set_range (\<lambda>_. 0 :: u8) 0x1000 (replicate 0x1000 0xFF)"
  have find: "find (\<lambda>(sz, cmd). (0x1000 :: u32) AND (sz - 1) = 0 \<and> 0x2000 \<ge> sz) ?opts = Some (0x1000, 0x20)"
    "find (\<lambda>(sz, cmd). (0x2000 :: u32) AND (sz - 1) = 0 \<and> 0x1000 \<ge> sz) ?opts = Some (0x1000, 0x20)" by simp_all
  have addr: "addr_be 3 0x1000 = [0, 0x10, 0]" "addr_be 3 0x2000 = [0, 0x20, 0]" by (simp_all add: numeral_3_eq_3)
  have val: "be_val [0, 0x10, 0] = 0x1000" by (simp add: be_val_def)
  have we1: "nk_spiflash_write_enable (chip_info 2) \<lparr>sp_buffer = [0, 0, 0, 0], sp_dev = ?dev (\<lambda>_. 0) False 0\<rparr>
      = Some (0, \<lparr>sp_buffer = [6, 0, 0, 0], sp_dev = ?dev (\<lambda>_. 0) True 0\<rparr>)"
    by (simp add: nk_spiflash_write_enable_def set_buffer_eval transfer_def load_from_def store_at_def chip_info_def chip_transfer_def spi_commands)
  have tr1: "transfer (chip_info 2) 4 \<lparr>sp_buffer = [0x20, 0, 0x10, 0], sp_dev = ?dev (\<lambda>_. 0) True 0\<rparr>
      = Some (0, \<lparr>sp_buffer = [0x20, 0, 0x10, 0], sp_dev = ?dev m False 2\<rparr>)"
    using val by (simp add: transfer_def load_from_def store_at_def chip_info_def chip_transfer_def chip_options_def m_def)
  have we2: "nk_spiflash_write_enable (chip_info 2) \<lparr>sp_buffer = [0x20, 0, 0x10, 0], sp_dev = ?dev m False 2\<rparr>
      = Some (0, \<lparr>sp_buffer = [6, 0, 0x10, 0], sp_dev = ?dev m False 2\<rparr>)"
    by (simp add: nk_spiflash_write_enable_def set_buffer_eval transfer_def load_from_def store_at_def chip_info_def chip_transfer_def spi_commands)
  have tr2: "transfer (chip_info 2) 4 \<lparr>sp_buffer = [0x20, 0, 0x20, 0], sp_dev = ?dev m False 2\<rparr>
      = Some (0, \<lparr>sp_buffer = [0x20, 0, 0x20, 0], sp_dev = ?dev m False 2\<rparr>)"
    by (simp add: transfer_def load_from_def store_at_def chip_info_def chip_transfer_def)
  have info: "n_erase_options (chip_info 2) = 2" "erase_options (chip_info 2) = ?opts" "addr_size (chip_info 2) = 3"
    by (simp_all add: chip_info_def chip_options_def)
  have "nk_spiflash_erase (chip_info 2) \<lparr>sp_buffer = [0, 0, 0, 0], sp_dev = ?dev (\<lambda>_. 0) False 0\<rparr> 0x1000 0x2000
      = spi_erase_loop (chip_info 2) 0x2000 0x1000 0 \<lparr>sp_buffer = [0x20, 0, 0x10, 0], sp_dev = ?dev m False 2\<rparr>"
    unfolding nk_spiflash_erase_def
    by (subst spi_erase_loop.simps) (simp add: info find we1 tr1 set_buffer_eval put_addr_eval addr)
  also have "\<dots> = Some (0, \<lparr>sp_buffer = [0x20, 0, 0x20, 0], sp_dev = ?dev m False 2\<rparr>)"
    by (subst spi_erase_loop.simps, simp add: info find we2 tr2 set_buffer_eval put_addr_eval addr)
      (subst spi_erase_loop.simps, simp)
  finally show ?thesis by (simp add: m_def set_range_def)
qed

text \<open>The CRC of a region that starts on a multiple of 256 is the CRC of its bytes.\<close>

theorem spiflash_crc_aligned:
  assumes "spi_chip info mem ok enabled polls csize erasable eunit" "spi_chip.idle info ok polls st"
    and "unat addr + unat len \<le> csize" "256 dvd unat addr"
  shows "\<exists>st'. nk_spiflash_crc info addr len st = Some (nk_crc32be_check (range_of (mem (sp_dev st)) (unat addr) (unat len)), st')"
  using spi_chip.crc_loop_aligned [OF assms] by (auto simp: nk_spiflash_crc_def nk_crc32be_check_def)

theorem spiflash_crc_aligned_witness:
  "\<exists>st'. nk_spiflash_crc (chip_info 0) 0x300 0x205 chip0 = Some (nk_crc32be_check (range_of (\<lambda>_. 0xFF) 0x300 0x205), st')"
  using spiflash_crc_aligned [OF sim.spi_chip_axioms chip0_idle, where addr = "0x300" and len = "0x205"] by (simp add: chip0_def)

text \<open>The CRC of a region that starts elsewhere is computed over other bytes: up to the next multiple of 256 the driver
  reads as many bytes from the start of the 256-byte page.\<close>

theorem spiflash_crc_unaligned:
  assumes "spi_chip info mem ok enabled polls csize erasable eunit" "spi_chip.idle info ok polls st"
    and "0 < unat len" "unat addr mod 256 + unat len \<le> 256" "unat addr + unat len \<le> csize"
  shows "\<exists>st'. nk_spiflash_crc info addr len st
    = Some (nk_crc32be_check (range_of (mem (sp_dev st)) (unat addr - unat addr mod 256) (unat len)), st')"
  using spi_chip.crc_first_page [OF assms] .

theorem spiflash_crc_unaligned_witness:
  "\<exists>st'. nk_spiflash_crc (chip_info 0) 0x301 1 (chip0\<lparr>sp_dev := \<lparr>c_mem = \<lambda>i. if i = 0x301 then 7 else 0, c_wel = False, c_busy = 0\<rparr>\<rparr>)
     = Some (nk_crc32be_check [0], st')"
proof -
  let ?st = "chip0\<lparr>sp_dev := \<lparr>c_mem = \<lambda>i. if i = 0x301 then 7 else 0, c_wel = False, c_busy = 0\<rparr>\<rparr>"
  have "sim.idle ?st" unfolding sim.idle_def by (simp add: chip0_def chip_info_def)
  from spiflash_crc_unaligned [OF sim.spi_chip_axioms this, where addr = "0x301" and len = 1] show ?thesis
    by (simp add: range_of_def)
qed

end
