(* ===== verification/Eeprom.thy ===== *)
theory Eeprom
  imports Spiflash
begin

unbundle bit_operations_syntax

text \<open>
  The I2C EEPROM driver, \<^verbatim>\<open>libnklabs/src/nki2c_eeprom.c\<close>. The functions \<open>nk_i2c_write\<close> and \<open>nk_i2c_read\<close> of the bus
  are fields of the device description; the state is the transfer buffer and the device on the bus. A zero-length write asks
  whether the device answers. In the locale \<open>i2c_chip\<close> a device that keeps to its data sheet makes the driver a
  \<open>flash_device\<close> that needs no erase, so checked and direct files work on it.
\<close>

section \<open>The driver\<close>

record 's nk_i2c_eeprom_info =
  i2c_write :: "'s \<Rightarrow> bytes \<Rightarrow> int \<times> 's"
  i2c_read :: "'s \<Rightarrow> u32 \<Rightarrow> int \<times> bytes \<times> 's"
  ee_page_size :: u32
  ee_busy_timeout :: nat
  ee_addr_size :: nat

record 's ee_state =
  ee_buffer :: bytes
  ee_dev :: 's

definition nk_i2c_write :: "'s nk_i2c_eeprom_info \<Rightarrow> nat \<Rightarrow> 's ee_state \<Rightarrow> (int \<times> 's ee_state) option" where
  "nk_i2c_write info len st = do {
     tx \<leftarrow> load_from (ee_buffer st) 0 len;
     let (rtn, d) = i2c_write info (ee_dev st) tx;
     Some (rtn, st\<lparr>ee_dev := d\<rparr>)
   }"

fun ee_wait_loop :: "nat \<Rightarrow> 's nk_i2c_eeprom_info \<Rightarrow> 's ee_state \<Rightarrow> (int \<times> 's ee_state) option" where
  "ee_wait_loop 0 info st = Some (-1, st)"
| "ee_wait_loop (Suc n) info st = do {
     (rtn, st) \<leftarrow> nk_i2c_write info 0 st;
     if rtn = 0 then Some (0, st) else ee_wait_loop n info st
   }"

definition nk_i2c_eeprom_busy_wait :: "'s nk_i2c_eeprom_info \<Rightarrow> 's ee_state \<Rightarrow> (int \<times> 's ee_state) option" where
  "nk_i2c_eeprom_busy_wait info st = ee_wait_loop (ee_busy_timeout info) info st"

text \<open>The address, most significant byte first: the loop stores the bytes from the last one down.\<close>

fun ee_put_addr :: "nat \<Rightarrow> u32 \<Rightarrow> bytes \<Rightarrow> bytes option" where
  "ee_put_addr 0 addr buf = Some buf"
| "ee_put_addr (Suc k) addr buf = do {
     buf \<leftarrow> store_at buf k [ucast addr];
     ee_put_addr k (drop_bit 8 addr) buf
   }"

partial_function (option) ee_write_loop ::
  "'s nk_i2c_eeprom_info \<Rightarrow> u32 \<Rightarrow> bytes \<Rightarrow> u32 \<Rightarrow> int \<Rightarrow> 's ee_state \<Rightarrow> (int \<times> 's ee_state) option" where
  "ee_write_loop info address data byte_count status st =
     (if byte_count = 0 then Some (status, st)
      else do {
        let page_offset = address AND (ee_page_size info - 1);
        let transfer_len = ee_page_size info - page_offset;
        let transfer_len = (if byte_count < transfer_len then byte_count else transfer_len);
        buf \<leftarrow> ee_put_addr (ee_addr_size info) address (ee_buffer st);
        chunk \<leftarrow> load_from data 0 (unat transfer_len);
        buf \<leftarrow> store_at buf (ee_addr_size info) chunk;
        (rtn, st) \<leftarrow> nk_i2c_write info (ee_addr_size info + unat transfer_len) (st\<lparr>ee_buffer := buf\<rparr>);
        let status = status OR rtn;
        if status \<noteq> 0 then Some (status, st)
        else do {
          (rtn, st) \<leftarrow> nk_i2c_eeprom_busy_wait info st;
          let status = status OR rtn;
          if status \<noteq> 0 then Some (status, st)
          else ee_write_loop info (address + transfer_len) (drop (unat transfer_len) data) (byte_count - transfer_len) status st
        }
      })"

definition nk_i2c_eeprom_write ::
  "'s nk_i2c_eeprom_info \<Rightarrow> 's ee_state \<Rightarrow> u32 \<Rightarrow> bytes \<Rightarrow> (int \<times> 's ee_state) option" where
  "nk_i2c_eeprom_write info st address data = ee_write_loop info address data (word_of_nat (length data)) 0 st"

text \<open>The read loop returns the bytes it has stored at \<open>data\<close>.\<close>

partial_function (option) ee_read_loop ::
  "'s nk_i2c_eeprom_info \<Rightarrow> u32 \<Rightarrow> bytes \<Rightarrow> u32 \<Rightarrow> int \<Rightarrow> 's ee_state \<Rightarrow> (int \<times> bytes \<times> 's ee_state) option" where
  "ee_read_loop info address data byte_count status st =
     (if byte_count = 0 then Some (status, data, st)
      else do {
        let page_offset = address AND (ee_page_size info - 1);
        let transfer_len = ee_page_size info - page_offset;
        let transfer_len = (if byte_count < transfer_len then byte_count else transfer_len);
        buf \<leftarrow> ee_put_addr (ee_addr_size info) address (ee_buffer st);
        (rtn, st) \<leftarrow> nk_i2c_write info (ee_addr_size info) (st\<lparr>ee_buffer := buf\<rparr>);
        let status = status OR rtn;
        if status \<noteq> 0 then Some (status, data, st)
        else do {
          let (rtn, chunk, d) = i2c_read info (ee_dev st) transfer_len;
          let status = status OR rtn;
          let st = st\<lparr>ee_dev := d\<rparr>;
          if status \<noteq> 0 then Some (status, data @ chunk, st)
          else ee_read_loop info (address + transfer_len) (data @ chunk) (byte_count - transfer_len) status st
        }
      })"

definition nk_i2c_eeprom_read ::
  "'s nk_i2c_eeprom_info \<Rightarrow> 's ee_state \<Rightarrow> u32 \<Rightarrow> u32 \<Rightarrow> (int \<times> bytes \<times> 's ee_state) option" where
  "nk_i2c_eeprom_read info st address byte_count = ee_read_loop info address [] byte_count 0 st"

text \<open>The CRC of a region, 256 bytes at a time.\<close>

partial_function (option) ee_crc_loop ::
  "'s nk_i2c_eeprom_info \<Rightarrow> u32 \<Rightarrow> u32 \<Rightarrow> u32 \<Rightarrow> 's ee_state \<Rightarrow> (u32 \<times> 's ee_state) option" where
  "ee_crc_loop info addr len crc st =
     (if len = 0 then Some (crc, st)
      else do {
        let this_page = addr AND NOT 255;
        let this_ofst = addr AND 255;
        let this_len = 256 - this_ofst;
        let this_len = (if this_len > len then len else this_len);
        (rtn, buf, st) \<leftarrow> nk_i2c_eeprom_read info st this_page this_len;
        if rtn \<noteq> 0 then Some (crc, st)
        else ee_crc_loop info (addr + this_len) (len - this_len) (foldl nk_crc32be_update crc buf) st
      })"

definition nk_i2c_eeprom_crc ::
  "'s nk_i2c_eeprom_info \<Rightarrow> u32 \<Rightarrow> u32 \<Rightarrow> 's ee_state \<Rightarrow> (u32 \<times> 's ee_state) option" where
  "nk_i2c_eeprom_crc info addr len st = ee_crc_loop info addr len 0 st"

section \<open>The chip on the bus\<close>

lemma ee_put_addr_eval: "k \<le> length buf \<Longrightarrow> ee_put_addr k a buf = Some (addr_be k a @ drop k buf)"
proof (induction k arbitrary: a buf)
  case (Suc k)
  have "drop k (buf[k := ucast a]) = ucast a # drop (Suc k) buf"
    using Suc.prems by (simp add: Cons_nth_drop_Suc [symmetric])
  then show ?case using Suc by (simp add: store_at_single)
qed simp

text \<open>An EEPROM as its data sheet gives it: after a page write it is busy and acknowledges nothing for less than
  \<open>busy_timeout\<close> polls; a page write stays inside its page; a read returns the bytes from the address that was set last.\<close>

locale i2c_chip =
  fixes info :: "'d nk_i2c_eeprom_info"
    and chip_mem :: "'d \<Rightarrow> nat \<Rightarrow> u8"
    and chip_ok :: "'d \<Rightarrow> bool"
    and polls :: "'d \<Rightarrow> nat"
    and pointer :: "'d \<Rightarrow> nat"
    and chip_size :: nat
  assumes page_ok: "pow2 (ee_page_size info)" "chip_size < 2 ^ 32"
    and poll: "chip_ok s \<Longrightarrow> \<exists>rtn s'. i2c_write info s [] = (rtn, s') \<and> (rtn = 0) = (polls s = 0)
      \<and> polls s' = polls s - 1 \<and> chip_ok s' \<and> chip_mem s' = chip_mem s"
    and page_write: "chip_ok s \<Longrightarrow> polls s = 0 \<Longrightarrow> bs \<noteq> [] \<Longrightarrow>
      unat a mod unat (ee_page_size info) + length bs \<le> unat (ee_page_size info) \<Longrightarrow> unat a + length bs \<le> chip_size \<Longrightarrow>
      \<exists>s'. i2c_write info s (addr_be (ee_addr_size info) a @ bs) = (0, s') \<and> chip_ok s' \<and> polls s' < ee_busy_timeout info
      \<and> chip_mem s' = set_range (chip_mem s) (unat a) bs"
    and set_address: "chip_ok s \<Longrightarrow> polls s = 0 \<Longrightarrow> unat a < chip_size \<Longrightarrow>
      \<exists>s'. i2c_write info s (addr_be (ee_addr_size info) a) = (0, s') \<and> chip_ok s' \<and> polls s' = 0 \<and> pointer s' = unat a
      \<and> chip_mem s' = chip_mem s"
    and read_bytes: "chip_ok s \<Longrightarrow> polls s = 0 \<Longrightarrow> pointer s + unat n \<le> chip_size \<Longrightarrow>
      \<exists>s'. i2c_read info s n = (0, range_of (chip_mem s) (pointer s) (unat n), s') \<and> chip_ok s' \<and> polls s' = 0
      \<and> chip_mem s' = chip_mem s"
begin

definition ee_idle :: "'d ee_state \<Rightarrow> bool" where
  "ee_idle st \<longleftrightarrow> chip_ok (ee_dev st) \<and> polls (ee_dev st) = 0 \<and> unat (ee_page_size info) + ee_addr_size info \<le> length (ee_buffer st)"

lemma ee_wait_ok:
  "chip_ok (ee_dev st) \<Longrightarrow> polls (ee_dev st) < n \<Longrightarrow>
   \<exists>d. ee_wait_loop n info st = Some (0, st\<lparr>ee_dev := d\<rparr>) \<and> chip_ok d \<and> polls d = 0 \<and> chip_mem d = chip_mem (ee_dev st)"
proof (induction n arbitrary: st)
  case (Suc n)
  obtain rtn s' where p: "i2c_write info (ee_dev st) [] = (rtn, s')" "(rtn = 0) = (polls (ee_dev st) = 0)"
    "polls s' = polls (ee_dev st) - 1" "chip_ok s'" "chip_mem s' = chip_mem (ee_dev st)"
    using poll Suc.prems(1) by blast
  have w: "nk_i2c_write info 0 st = Some (rtn, st\<lparr>ee_dev := s'\<rparr>)" using p(1) by (simp add: nk_i2c_write_def load_from_def)
  show ?case
  proof (cases "polls (ee_dev st) = 0")
    case True
    then show ?thesis using w p by auto
  next
    case False
    then show ?thesis using w p Suc.prems Suc.IH [of "st\<lparr>ee_dev := s'\<rparr>"] by auto
  qed
qed simp

lemmas ee_chunk = page_chunk [OF page_ok(1)]

lemma ee_write_loop_ok:
  assumes "ee_idle st" "unat byte_count = length data" "unat address + length data \<le> chip_size"
  shows "\<exists>st'. ee_write_loop info address data byte_count 0 st = Some (0, st')
    \<and> ee_idle st' \<and> chip_mem (ee_dev st') = set_range (chip_mem (ee_dev st)) (unat address) data"
  using assms
proof (induction "unat byte_count" arbitrary: byte_count address data st rule: less_induct)
  case less
  show ?case
  proof (cases "byte_count = 0")
    case True
    then show ?thesis using less.prems by (subst ee_write_loop.simps) simp
  next
    case False
    let ?m = "chip_mem (ee_dev st)" and ?k = "ee_addr_size info"
    define len where "len = (let len = ee_page_size info - (address AND (ee_page_size info - 1)) in if byte_count < len then byte_count else len)"
    note cl = ee_chunk [OF False, of address, folded len_def]
    let ?d = "take (unat len) data"
    have d: "length ?d = unat len" "?d \<noteq> []" using cl(1,2) less.prems(2) by auto
    have room: "?k + unat len \<le> length (ee_buffer st)" using less.prems(1) cl(3) by (simp add: ee_idle_def)
    have "unat address mod unat (ee_page_size info) + length ?d \<le> unat (ee_page_size info)" "unat address + length ?d \<le> chip_size"
      using cl(2,3) less.prems(2,3) unfolding d(1) by auto
    then obtain s1 where s1: "i2c_write info (ee_dev st) (addr_be ?k address @ ?d) = (0, s1)" "chip_ok s1"
      "polls s1 < ee_busy_timeout info" "chip_mem s1 = set_range ?m (unat address) ?d"
      using page_write [OF _ _ d(2)] less.prems(1) by (auto simp: ee_idle_def)
    let ?b = "addr_be ?k address @ ?d @ drop (?k + unat len) (ee_buffer st)"
    let ?st1 = "st\<lparr>ee_buffer := ?b, ee_dev := s1\<rparr>"
    have put: "ee_put_addr ?k address (ee_buffer st) = Some (addr_be ?k address @ drop ?k (ee_buffer st))"
      using room by (intro ee_put_addr_eval) simp
    have sto: "store_at (addr_be ?k address @ drop ?k (ee_buffer st)) ?k ?d = Some ?b"
      using room d(1) by (simp add: store_at_def add.commute)
    have wr: "nk_i2c_write info (?k + unat len) (st\<lparr>ee_buffer := ?b\<rparr>) = Some (0, ?st1)"
      using s1(1) d(1) room by (simp add: nk_i2c_write_def load_from_def)
    obtain s2 where s2: "nk_i2c_eeprom_busy_wait info ?st1 = Some (0, ?st1\<lparr>ee_dev := s2\<rparr>)" "chip_ok s2" "polls s2 = 0"
      "chip_mem s2 = set_range ?m (unat address) ?d"
      using ee_wait_ok [of ?st1 "ee_busy_timeout info"] s1 by (auto simp: nk_i2c_eeprom_busy_wait_def)
    let ?st2 = "?st1\<lparr>ee_dev := s2\<rparr>"
    have idle2: "ee_idle ?st2" using s2(2,3) less.prems(1) d(1) room by (simp add: ee_idle_def)
    have ld: "load_from data 0 (unat len) = Some ?d" using cl(2) less.prems(2) by (simp add: buf_simps)
    have ad: "unat (address + len) = unat address + unat len"
      using less.prems(2,3) cl(2) page_ok(2) by (subst unat_add_no_wrap) auto
    have step: "ee_write_loop info address data byte_count 0 st
       = ee_write_loop info (address + len) (drop (unat len) data) (byte_count - len) 0 ?st2"
      using False put sto wr s2(1) ld
      by (subst ee_write_loop.simps) (simp add: len_def [unfolded Let_def, symmetric] Let_def)
    have "\<exists>st'. ee_write_loop info (address + len) (drop (unat len) data) (byte_count - len) 0 ?st2 = Some (0, st')
      \<and> ee_idle st' \<and> chip_mem (ee_dev st') = set_range (chip_mem (ee_dev ?st2)) (unat (address + len)) (drop (unat len) data)"
      by (rule less.hyps) (use cl ad less.prems idle2 in auto)
    moreover have "set_range (set_range ?m (unat address) ?d) (unat address + unat len) (drop (unat len) data)
        = set_range ?m (unat address) data"
      using cl(2) less.prems(2) by (auto simp: set_range_def fun_eq_iff)
    ultimately show ?thesis by (simp add: step s2(4) ad)
  qed
qed

lemma ee_read_loop_ok:
  assumes "ee_idle st" "unat address + unat byte_count \<le> chip_size"
  shows "\<exists>st'. ee_read_loop info address data byte_count 0 st
      = Some (0, data @ range_of (chip_mem (ee_dev st)) (unat address) (unat byte_count), st')
    \<and> ee_idle st' \<and> chip_mem (ee_dev st') = chip_mem (ee_dev st)"
  using assms
proof (induction "unat byte_count" arbitrary: byte_count address data st rule: less_induct)
  case less
  show ?case
  proof (cases "byte_count = 0")
    case True
    then show ?thesis using less.prems by (subst ee_read_loop.simps) simp
  next
    case False
    let ?m = "chip_mem (ee_dev st)" and ?k = "ee_addr_size info"
    define len where "len = (let len = ee_page_size info - (address AND (ee_page_size info - 1)) in if byte_count < len then byte_count else len)"
    note cl = ee_chunk [OF False, of address, folded len_def]
    have room: "?k \<le> length (ee_buffer st)" using less.prems(1) by (simp add: ee_idle_def)
    have "unat address < chip_size" using cl(1,2) less.prems(2) by simp
    then obtain s1 where s1: "i2c_write info (ee_dev st) (addr_be ?k address) = (0, s1)" "chip_ok s1" "polls s1 = 0"
      "pointer s1 = unat address" "chip_mem s1 = ?m"
      using set_address [of "ee_dev st" address] less.prems(1) by (auto simp: ee_idle_def)
    let ?b = "addr_be ?k address @ drop ?k (ee_buffer st)"
    have put: "ee_put_addr ?k address (ee_buffer st) = Some ?b" using room by (rule ee_put_addr_eval)
    have wr: "nk_i2c_write info ?k (st\<lparr>ee_buffer := ?b\<rparr>) = Some (0, st\<lparr>ee_buffer := ?b, ee_dev := s1\<rparr>)"
      using s1(1) by (simp add: nk_i2c_write_def load_from_def)
    obtain s2 where s2: "i2c_read info s1 len = (0, range_of ?m (unat address) (unat len), s2)" "chip_ok s2" "polls s2 = 0" "chip_mem s2 = ?m"
      using read_bytes [of s1 len] s1 less.prems(2) cl(2) by auto
    let ?st2 = "st\<lparr>ee_buffer := ?b, ee_dev := s2\<rparr>" and ?data = "data @ range_of ?m (unat address) (unat len)"
    have idle2: "ee_idle ?st2" using s2 less.prems(1) room by (simp add: ee_idle_def)
    have ad: "unat (address + len) = unat address + unat len"
      using less.prems(2) cl(2) page_ok(2) by (subst unat_add_no_wrap) auto
    have step: "ee_read_loop info address data byte_count 0 st = ee_read_loop info (address + len) ?data (byte_count - len) 0 ?st2"
      using False put wr s2(1)
      by (subst ee_read_loop.simps) (simp add: len_def [unfolded Let_def, symmetric] Let_def)
    have "\<exists>st'. ee_read_loop info (address + len) ?data (byte_count - len) 0 ?st2
      = Some (0, ?data @ range_of (chip_mem (ee_dev ?st2)) (unat (address + len)) (unat (byte_count - len)), st')
      \<and> ee_idle st' \<and> chip_mem (ee_dev st') = chip_mem (ee_dev ?st2)"
      by (rule less.hyps) (use cl ad less.prems idle2 in auto)
    moreover have "range_of ?m (unat address) (unat byte_count)
        = range_of ?m (unat address) (unat len) @ range_of ?m (unat address + unat len) (unat byte_count - unat len)"
      using range_of_add [of ?m "unat address" "unat len" "unat byte_count - unat len"] cl(2) by simp
    ultimately show ?thesis using s2(4) by (simp add: step ad cl(4))
  qed
qed

text \<open>So the driver keeps what a file asks of a device, for every block size, and nothing has to be erased.\<close>

lemma eeprom_device:
  "flash_device (nk_i2c_eeprom_read info) erase (nk_i2c_eeprom_write info) False (\<lambda>st. chip_mem (ee_dev st)) ee_idle blk chip_size"
proof unfold_locales
  show "chip_size < 2 ^ 32" by (rule page_ok(2))
  show "\<exists>s'. nk_i2c_eeprom_read info s a n = Some (0, range_of (chip_mem (ee_dev s)) (unat a) (unat n), s')
      \<and> ee_idle s' \<and> chip_mem (ee_dev s') = chip_mem (ee_dev s)"
    if "ee_idle s" "unat a + unat n \<le> chip_size" for s a n
    using ee_read_loop_ok [OF that, of "[]"] by (simp add: nk_i2c_eeprom_read_def)
  show "\<exists>s'. nk_i2c_eeprom_write info s a bs = Some (0, s') \<and> ee_idle s'
      \<and> chip_mem (ee_dev s') = set_range (chip_mem (ee_dev s)) (unat a) bs"
    if "ee_idle s" "unat a + length bs \<le> chip_size" for s a bs
  proof -
    have "unat (word_of_nat (length bs) :: u32) = length bs"
      using that(2) page_ok(2) by (intro unat_of_nat_u32) simp
    then show ?thesis using ee_write_loop_ok [OF that(1) _ that(2)] by (simp add: nk_i2c_eeprom_write_def)
  qed
qed simp

sublocale eeprom: flash_device "nk_i2c_eeprom_read info" "\<lambda>st a n. None" "nk_i2c_eeprom_write info" False
    "\<lambda>st. chip_mem (ee_dev st)" ee_idle blk chip_size for blk
  by (rule eeprom_device)

lemmas flash_device_axioms = eeprom.flash_device_axioms

end

section \<open>A serial EEPROM\<close>

text \<open>A 64 KB device with 128-byte pages and 16-bit addresses: it acknowledges nothing while a page write is under way, a write
  wraps inside its page and takes as long as three polls, and a read starts at the address counter.\<close>

record eeprom =
  e_mem :: "nat \<Rightarrow> u8"
  e_ptr :: nat
  e_busy :: nat

definition eeprom_program :: "(nat \<Rightarrow> u8) \<Rightarrow> nat \<Rightarrow> bytes \<Rightarrow> nat \<Rightarrow> u8" where
  "eeprom_program m a bs = (\<lambda>i. let j = (i + 128 - a mod 128) mod 128 in
     if i div 128 = a div 128 \<and> j < length bs then bs ! j else m i)"

definition eeprom_write :: "eeprom \<Rightarrow> bytes \<Rightarrow> int \<times> eeprom" where
  "eeprom_write s tx =
     (if e_busy s > 0 then (-1, s\<lparr>e_busy := e_busy s - 1\<rparr>)
      else if length tx < 2 then (0, s)
      else if length tx = 2 then (0, s\<lparr>e_ptr := be_val tx\<rparr>)
      else (0, s\<lparr>e_mem := eeprom_program (e_mem s) (be_val (take 2 tx)) (drop 2 tx), e_busy := 3\<rparr>))"

definition eeprom_read :: "eeprom \<Rightarrow> u32 \<Rightarrow> int \<times> bytes \<times> eeprom" where
  "eeprom_read s n =
     (if e_busy s > 0 then (-1, replicate (unat n) 0, s\<lparr>e_busy := e_busy s - 1\<rparr>)
      else (0, range_of (e_mem s) (e_ptr s) (unat n), s\<lparr>e_ptr := e_ptr s + unat n\<rparr>))"

definition eeprom_info :: "eeprom nk_i2c_eeprom_info" where
  "eeprom_info = \<lparr>i2c_write = eeprom_write, i2c_read = eeprom_read, ee_page_size = 128, ee_busy_timeout = 4, ee_addr_size = 2\<rparr>"

lemma be_val_2: "unat a < 2 ^ 16 \<Longrightarrow> be_val (addr_be 2 a) = unat a"
  by (simp add: be_val_addr_be)

lemma eeprom_program_page:
  assumes "a mod 128 + length bs \<le> 128" "length bs \<le> 128"
  shows "eeprom_program m a bs = set_range m a bs"
proof (rule ext)
  fix i
  show "eeprom_program m a bs i = set_range m a bs i"
  proof (cases "i div 128 = a div 128")
    case True
    define q r s where "q = a div 128" and "r = a mod 128" and "s = i mod 128"
    have m: "i = q * 128 + s" "a = q * 128 + r" "s < 128" "r < 128"
      using True div_mult_mod_eq [of i 128] div_mult_mod_eq [of a 128] by (simp_all add: q_def r_def s_def)
    have r: "a mod 128 = r" by (simp add: r_def)
    have j: "(i + 128 - r) mod 128 = (if r \<le> s then s - r else s + 128 - r)"
    proof (cases "r \<le> s")
      case le: True
      then have "i + 128 - r = (q + 1) * 128 + (s - r)" using m(1,4) by simp
      then show ?thesis using le m(3) by (simp only: mod_mult_self3 if_True) simp
    next
      case False
      then have "i + 128 - r = q * 128 + (s + 128 - r)" using m(1,4) by simp
      then show ?thesis using False by (simp only: mod_mult_self3 if_False) simp
    qed
    have "r + length bs \<le> 128" using assms(1) r by simp
    then show ?thesis
      using True m(3,4) unfolding eeprom_program_def set_range_def r j Let_def by (auto simp: m(1,2))
  next
    case False
    have "\<not> (a \<le> i \<and> i < a + length bs)"
    proof
      assume r: "a \<le> i \<and> i < a + length bs"
      then have "i < (a div 128 + 1) * 128"
        using assms(1) div_mult_mod_eq [of a 128] unfolding add_mult_distrib mult_1 by linarith
      then have "i div 128 < a div 128 + 1" by (simp add: div_less_iff_less_mult)
      moreover have "a div 128 \<le> i div 128" using r by (intro div_le_mono) simp
      ultimately show False using False by simp
    qed
    then show ?thesis using False by (auto simp: eeprom_program_def set_range_def)
  qed
qed

interpretation ee: i2c_chip eeprom_info e_mem "\<lambda>_. True" e_busy e_ptr "2 ^ 16"
proof unfold_locales
  show "pow2 (ee_page_size eeprom_info)"
    by (rule pow2_numeral_intro [of 7]) (simp_all add: eeprom_info_def)
  show "\<exists>s'. i2c_write eeprom_info s (addr_be (ee_addr_size eeprom_info) a @ bs) = (0, s') \<and> True
      \<and> e_busy s' < ee_busy_timeout eeprom_info \<and> e_mem s' = set_range (e_mem s) (unat a) bs"
    if w: "e_busy s = 0" "bs \<noteq> []" "unat a mod unat (ee_page_size eeprom_info) + length bs \<le> unat (ee_page_size eeprom_info)"
      "unat a + length bs \<le> 2 ^ 16" for s :: eeprom and bs a
  proof -
    have "unat a < 2 ^ 16" using w(2,4) by (cases bs) auto
    moreover have "\<not> length bs + 2 < 2" "length bs + 2 \<noteq> 2" using w(2) by simp_all
    moreover have "eeprom_program (e_mem s) (unat a) bs = set_range (e_mem s) (unat a) bs"
      using w(3) by (intro eeprom_program_page) (simp_all add: eeprom_info_def)
    ultimately show ?thesis using w(1,2) by (simp add: eeprom_info_def eeprom_write_def be_val_2)
  qed
qed (auto simp: eeprom_info_def eeprom_write_def eeprom_read_def be_val_2)

section \<open>Properties\<close>

text \<open>C36. Storing bytes in an I2C EEPROM and reading them back: on a device that keeps to its data sheet (it may stay busy after a page
  write, for fewer polls than the timeout), for every power of two as the page size, every address width and every
  range inside the device, the write splits at the page boundaries, polls until each page is done, returns 0 and changes exactly the bytes
  it was given; a read of any range then returns 0 and the bytes of the memory. The buffer of
  page and address size is never exceeded, and the loops end.\<close>

theorem eeprom_write_then_read:
  assumes "i2c_chip info mem ok polls pointer csize" "i2c_chip.ee_idle info ok polls st"
    and "unat a + length bs \<le> csize" "unat b + unat n \<le> csize"
  shows "\<exists>st1 st2. nk_i2c_eeprom_write info st a bs = Some (0, st1)
    \<and> mem (ee_dev st1) = set_range (mem (ee_dev st)) (unat a) bs
    \<and> nk_i2c_eeprom_read info st1 b n = Some (0, range_of (set_range (mem (ee_dev st)) (unat a) bs) (unat b) (unat n), st2)
    \<and> mem (ee_dev st2) = mem (ee_dev st1)"
proof -
  have dev: "flash_device (nk_i2c_eeprom_read info) (\<lambda>st a n. None) (nk_i2c_eeprom_write info) False
    (\<lambda>st. mem (ee_dev st)) (i2c_chip.ee_idle info ok polls) 1 csize"
    by (rule i2c_chip.eeprom_device [OF assms(1)])
  obtain st1 where st1: "nk_i2c_eeprom_write info st a bs = Some (0, st1)" "i2c_chip.ee_idle info ok polls st1"
      "mem (ee_dev st1) = set_range (mem (ee_dev st)) (unat a) bs"
    using flash_device.fwrite [OF dev assms(2,3)] by auto
  then show ?thesis using flash_device.fread [OF dev st1(2) assms(4)] by auto
qed

definition eeprom0 :: "eeprom ee_state" where
  "eeprom0 = \<lparr>ee_buffer = replicate 130 0, ee_dev = \<lparr>e_mem = \<lambda>_. 0xFF, e_ptr = 7, e_busy = 0\<rparr>\<rparr>"

lemma eeprom0_idle: "ee.ee_idle eeprom0"
  unfolding ee.ee_idle_def by (simp add: eeprom0_def eeprom_info_def)

theorem eeprom_write_then_read_witness:
  "\<exists>st1 st2. nk_i2c_eeprom_write eeprom_info eeprom0 0x17E [1, 2, 3, 4] = Some (0, st1)
    \<and> nk_i2c_eeprom_read eeprom_info st1 0x17F 2 = Some (0, [2, 3], st2)"
proof -
  have "range_of (set_range (\<lambda>_. 0xFF) 0x17E [1, 2, 3, 4]) 0x17F 2 = [2, 3 :: u8]"
    by (simp add: range_of_def upt_rec set_range_def)
  then show ?thesis
    using eeprom_write_then_read [OF ee.i2c_chip_axioms eeprom0_idle, where a = "0x17E" and bs = "[1, 2, 3, 4]" and b = "0x17F" and n = 2]
    by (auto simp: eeprom0_def)
qed

end
