(* ===== verification/Sched.thy ===== *)
theory Sched
  imports Prelude
begin

text \<open>
  The work queue, \<^verbatim>\<open>libnklabs/src/nksched.c\<close>. The items live in the static array \<open>queue\<close>; item 0 is the base of a
  circular doubly linked list in order of due time, the others are in that list or in the singly
  linked free list. Pointers are indices into the array, \<open>None\<close> is the null pointer, and a dereference
  outside the array or of null has no value. The current time \<open>nk_get_time()\<close> is an argument of the operations
  that read it, in ticks of a 32-bit counter that wraps. Interrupt locking makes each operation
  atomic; names and comments, which are only printed, are left out.
\<close>

section \<open>State\<close>

record ('f, 'd) item =
  it_next :: "nat option"
  it_prev :: "nat option"
  it_tid :: u32
  it_func :: 'f
  it_data :: 'd
  it_when :: u32

record ('f, 'd) sched =
  queue :: "('f, 'd) item list"
  freelist :: "nat option"
  current_tid :: u32
  next_tid :: u32
  deepness :: u32

section \<open>Operations\<close>

definition nk_get_tid :: "('f, 'd) sched \<Rightarrow> u32" where
  "nk_get_tid s = current_tid s"

definition nk_alloc_tid :: "('f, 'd) sched \<Rightarrow> u32 \<times> ('f, 'd) sched" where
  "nk_alloc_tid s = (next_tid s + 1, s\<lparr>next_tid := next_tid s + 1\<rparr>)"

text \<open>Reading and assigning through an item pointer.\<close>

definition get_item :: "('f, 'd) sched \<Rightarrow> nat option \<Rightarrow> ('f, 'd) item option" where
  "get_item s p = do { i \<leftarrow> p; deref (queue s) i }"

definition set_item ::
  "nat option \<Rightarrow> (('f, 'd) item \<Rightarrow> ('f, 'd) item) \<Rightarrow> ('f, 'd) sched \<Rightarrow> ('f, 'd) sched option" where
  "set_item p upd s = do {
     i \<leftarrow> p;
     it \<leftarrow> deref (queue s) i;
     Some (s\<lparr>queue := (queue s)[i := upd it]\<rparr>)
   }"

definition alloc_item :: "('f, 'd) sched \<Rightarrow> (nat option \<times> ('f, 'd) sched) option" where
  "alloc_item s =
     (case freelist s of
        None \<Rightarrow> Some (None, s)
      | Some i \<Rightarrow> do { it \<leftarrow> get_item s (Some i); Some (Some i, s\<lparr>freelist := it_next it\<rparr>) })"

definition free_item :: "nat \<Rightarrow> ('f, 'd) sched \<Rightarrow> ('f, 'd) sched option" where
  "free_item i s = do {
     s \<leftarrow> set_item (Some i) (\<lambda>it. it\<lparr>it_next := freelist s\<rparr>) s;
     Some (s\<lparr>freelist := Some i\<rparr>)
   }"

definition deque :: "nat \<Rightarrow> ('f, 'd) sched \<Rightarrow> ('f, 'd) sched option" where
  "deque i s = do {
     it \<leftarrow> get_item s (Some i);
     s \<leftarrow> set_item (it_prev it) (\<lambda>p. p\<lparr>it_next := it_next it\<rparr>) s;
     it \<leftarrow> get_item s (Some i);
     set_item (it_next it) (\<lambda>n. n\<lparr>it_prev := it_prev it\<rparr>) s
   }"

definition enque :: "nat \<Rightarrow> nat \<Rightarrow> ('f, 'd) sched \<Rightarrow> ('f, 'd) sched option" where
  "enque q i s = do {
     s \<leftarrow> set_item (Some i) (\<lambda>it. it\<lparr>it_next := Some q\<rparr>) s;
     qi \<leftarrow> get_item s (Some q);
     s \<leftarrow> set_item (Some i) (\<lambda>it. it\<lparr>it_prev := it_prev qi\<rparr>) s;
     qi \<leftarrow> get_item s (Some q);
     s \<leftarrow> set_item (it_prev qi) (\<lambda>p. p\<lparr>it_next := Some i\<rparr>) s;
     set_item (Some q) (\<lambda>it. it\<lparr>it_prev := Some i\<rparr>) s
   }"

definition queue_not_empty :: "('f, 'd) sched \<Rightarrow> bool option" where
  "queue_not_empty s = do { base \<leftarrow> get_item s (Some 0); Some (it_next base \<noteq> Some 0) }"

text \<open>The loops \<open>for (item = queue->next; item != queue; item = item->next) if (P) break\<close>: the index of the first
  item that satisfies the condition, or 0, the base.\<close>

partial_function (option) find_item ::
  "(('f, 'd) item \<Rightarrow> bool) \<Rightarrow> ('f, 'd) sched \<Rightarrow> nat option \<Rightarrow> nat option" where
  "find_item P s p =
     (if p = Some 0 then Some 0
      else do { it \<leftarrow> get_item s p; if P it then p else find_item P s (it_next it) })"

definition find_from_base :: "(('f, 'd) item \<Rightarrow> bool) \<Rightarrow> ('f, 'd) sched \<Rightarrow> nat option" where
  "find_from_base P s = do { base \<leftarrow> get_item s (Some 0); find_item P s (it_next base) }"

text \<open>Milliseconds to ticks of the timer, which counts microseconds (\<^verbatim>\<open>nkarch_pico.c\<close>).\<close>

definition nk_convert_delay :: "u32 \<Rightarrow> u32" where
  "nk_convert_delay delay = delay * (1000000 div 1000)"

text \<open>The comparison \<open>(int32_t)(q->when - item->when) > 0\<close>.\<close>

definition later :: "u32 \<Rightarrow> u32 \<Rightarrow> bool" where
  "later a b \<longleftrightarrow> sint (a - b) > 0"

definition nk_sched ::
  "u32 \<Rightarrow> 'f \<Rightarrow> 'd \<Rightarrow> u32 \<Rightarrow> u32 \<Rightarrow> ('f, 'd) sched \<Rightarrow> (u32 \<times> ('f, 'd) sched) option" where
  "nk_sched tid func data delay now s = do {
     let ticks = nk_convert_delay delay;
     i \<leftarrow> find_from_base (\<lambda>it. it_tid it = tid) s;
     (item, rtn, s) \<leftarrow> (if i = 0 then do { (item, s) \<leftarrow> alloc_item s; Some (item, 1, s) }
                       else do { s \<leftarrow> deque i s; Some (Some i, 0, s) });
     case item of
       Some i \<Rightarrow> do {
         s \<leftarrow> set_item (Some i) (\<lambda>it. it\<lparr>it_tid := tid, it_func := func, it_data := data, it_when := now + ticks\<rparr>) s;
         q \<leftarrow> find_from_base (\<lambda>it. later (it_when it) (now + ticks)) s;
         s \<leftarrow> enque q i s;
         Some (rtn, s)
       }
     | None \<Rightarrow> Some (rtn, s)
   }"

definition nk_resched ::
  "u32 \<Rightarrow> 'f \<Rightarrow> 'd \<Rightarrow> u32 \<Rightarrow> u32 \<Rightarrow> ('f, 'd) sched \<Rightarrow> (u32 \<times> ('f, 'd) sched) option" where
  "nk_resched tid func data delay now s = do {
     let ticks = nk_convert_delay delay;
     i \<leftarrow> find_from_base (\<lambda>it. it_tid it = tid) s;
     if i = 0 then Some (0, s)
     else do {
       s \<leftarrow> deque i s;
       s \<leftarrow> set_item (Some i) (\<lambda>it. it\<lparr>it_when := now + ticks, it_func := func, it_data := data\<rparr>) s;
       q \<leftarrow> find_from_base (\<lambda>it. later (it_when it) (now + ticks)) s;
       s \<leftarrow> enque q i s;
       Some (1, s)
     }
   }"

definition nk_unsched :: "u32 \<Rightarrow> ('f, 'd) sched \<Rightarrow> (u32 \<times> ('f, 'd) sched) option" where
  "nk_unsched tid s = do {
     i \<leftarrow> find_from_base (\<lambda>it. it_tid it = tid) s;
     if i = 0 then Some (0, s)
     else do {
       s \<leftarrow> deque i s;
       s \<leftarrow> free_item i s;
       Some (1, s)
     }
   }"

definition nk_check :: "u32 \<Rightarrow> ('f, 'd) sched \<Rightarrow> u32 option" where
  "nk_check tid s = do {
     i \<leftarrow> find_from_base (\<lambda>it. it_tid it = tid) s;
     Some (if i = 0 then 0 else 1)
   }"

text \<open>Initialisation puts every item but the base on the free list.\<close>

fun free_items :: "nat list \<Rightarrow> ('f, 'd) sched \<Rightarrow> ('f, 'd) sched option" where
  "free_items [] s = Some s"
| "free_items (i # is) s = do { s \<leftarrow> free_item i s; free_items is s }"

definition nk_init_sched :: "('f, 'd) sched \<Rightarrow> ('f, 'd) sched option" where
  "nk_init_sched s = do {
     s \<leftarrow> set_item (Some 0) (\<lambda>b. b\<lparr>it_next := Some 0\<rparr>) s;
     s \<leftarrow> set_item (Some 0) (\<lambda>b. b\<lparr>it_prev := Some 0\<rparr>) s;
     free_items [1..<length (queue s)] (s\<lparr>freelist := None\<rparr>)
   }"

definition nk_get_sched_sleep_mode :: "('f, 'd) sched \<Rightarrow> u32" where
  "nk_get_sched_sleep_mode s = deepness s"

definition nk_set_sched_sleep_mode :: "u32 \<Rightarrow> ('f, 'd) sched \<Rightarrow> u32 \<times> ('f, 'd) sched" where
  "nk_set_sched_sleep_mode new_deepness s = (deepness s, s\<lparr>deepness := new_deepness\<rparr>)"

text \<open>One turn of the main loop: it takes the first item off the queue and calls its function when it is due, or
  sets the wake-up alarm for it, if there is one, and sleeps.\<close>

datatype ('f, 'd) action = Call 'f 'd | Wait "u32 option"

definition nk_sched_loop_body :: "u32 \<Rightarrow> ('f, 'd) sched \<Rightarrow> (('f, 'd) action \<times> ('f, 'd) sched) option" where
  "nk_sched_loop_body now s = do {
     ne \<leftarrow> queue_not_empty s;
     base \<leftarrow> get_item s (Some 0);
     if ne then do {
       first \<leftarrow> get_item s (it_next base);
       if sint (now - it_when first) \<ge> 0 then do {
         i \<leftarrow> it_next base;
         s \<leftarrow> deque i s;
         item \<leftarrow> get_item s (Some i);
         let s = s\<lparr>current_tid := it_tid item\<rparr>;
         s \<leftarrow> free_item i s;
         Some (Call (it_func item) (it_data item), s)
       }
       else Some (Wait (Some (it_when first)), s)
     }
     else Some (Wait None, s)
   }"

section \<open>The linked structure\<close>

abbreviation nx :: "('f, 'd) sched \<Rightarrow> nat \<Rightarrow> nat option" where
  "nx s i \<equiv> it_next (queue s ! i)"

abbreviation pv :: "('f, 'd) sched \<Rightarrow> nat \<Rightarrow> nat option" where
  "pv s i \<equiv> it_prev (queue s ! i)"

text \<open>What an item stands for.\<close>

definition task :: "('f, 'd) item \<Rightarrow> u32 \<times> 'f \<times> 'd \<times> u32" where
  "task it = (it_tid it, it_func it, it_data it, it_when it)"

abbreviation ts_tid where "ts_tid t \<equiv> fst t"
abbreviation ts_when where "ts_when t \<equiv> snd (snd (snd t))"

abbreviation task_at :: "('f, 'd) sched \<Rightarrow> nat \<Rightarrow> u32 \<times> 'f \<times> 'd \<times> u32" where
  "task_at s i \<equiv> task (queue s ! i)"

text \<open>A path of items linked both ways, and the free list.\<close>

fun chain :: "('f, 'd) sched \<Rightarrow> nat list \<Rightarrow> bool" where
  "chain s (a # b # xs) \<longleftrightarrow> nx s a = Some b \<and> pv s b = Some a \<and> chain s (b # xs)"
| "chain s _ \<longleftrightarrow> True"

fun free_chain :: "('f, 'd) sched \<Rightarrow> nat option \<Rightarrow> nat list \<Rightarrow> bool" where
  "free_chain s p [] \<longleftrightarrow> p = None"
| "free_chain s p (i # is) \<longleftrightarrow> p = Some i \<and> free_chain s (nx s i) is"

text \<open>The queue holds \<open>xs\<close> in order, the free list \<open>fs\<close>, and every item of the array but the base is
  in exactly one of them.\<close>

definition holds :: "('f, 'd) sched \<Rightarrow> nat list \<Rightarrow> nat list \<Rightarrow> bool" where
  "holds s xs fs \<longleftrightarrow> chain s (0 # xs @ [0]) \<and> free_chain s (freelist s) fs \<and> distinct (0 # xs @ fs)
     \<and> set (0 # xs @ fs) = {0..<length (queue s)}"

definition tasks :: "('f, 'd) sched \<Rightarrow> nat list \<Rightarrow> (u32 \<times> 'f \<times> 'd \<times> u32) list" where
  "tasks s xs = map (task_at s) xs"

lemma chain_append:
  "chain s (us @ x # vs) \<longleftrightarrow> chain s (us @ [x]) \<and> chain s (x # vs)"
  by (induction us rule: induct_list012) auto

lemma chain_cong:
  "(\<And>a. a \<in> set (butlast xs) \<Longrightarrow> nx s a = nx s' a) \<Longrightarrow> (\<And>b. b \<in> set (tl xs) \<Longrightarrow> pv s b = pv s' b) \<Longrightarrow>
   chain s xs = chain s' xs"
proof (induction xs rule: induct_list012)
  case (3 a b xs)
  have "chain s (b # xs) = chain s' (b # xs)"
    by (rule "3.IH"(2)) (use "3.prems" in \<open>auto split: if_splits\<close>)
  then show ?case using "3.prems"(1) [of a] "3.prems"(2) [of b] by simp
qed simp_all

lemma free_chain_cong:
  "(\<And>a. a \<in> set fs \<Longrightarrow> nx s a = nx s' a) \<Longrightarrow> free_chain s p fs = free_chain s' p fs"
  by (induction fs arbitrary: p) auto

lemma get_item_eval: "i < length (queue s) \<Longrightarrow> get_item s (Some i) = Some (queue s ! i)"
  by (simp add: get_item_def deref_def)

lemma set_item_eval:
  "i < length (queue s) \<Longrightarrow> set_item (Some i) f s = Some (s\<lparr>queue := (queue s)[i := f (queue s ! i)]\<rparr>)"
  by (simp add: set_item_def deref_def)

lemma enque_links:
  assumes "pv s q = Some p" "i \<noteq> p" "i \<noteq> q" "i < length (queue s)" "p < length (queue s)" "q < length (queue s)"
  obtains s' where "enque q i s = Some s'" "length (queue s') = length (queue s)" "freelist s' = freelist s"
    "\<And>j. nx s' j = (if j = i then Some q else if j = p then Some i else nx s j)"
    "\<And>j. pv s' j = (if j = q then Some i else if j = i then Some p else pv s j)"
    "\<And>j. task_at s' j = task_at s j"
proof -
  define s1 where "s1 = s\<lparr>queue := (queue s)[i := (queue s ! i)\<lparr>it_next := Some q\<rparr>]\<rparr>"
  define s2 where "s2 = s1\<lparr>queue := (queue s1)[i := (queue s1 ! i)\<lparr>it_prev := Some p\<rparr>]\<rparr>"
  define s3 where "s3 = s2\<lparr>queue := (queue s2)[p := (queue s2 ! p)\<lparr>it_next := Some i\<rparr>]\<rparr>"
  define s4 where "s4 = s3\<lparr>queue := (queue s3)[q := (queue s3 ! q)\<lparr>it_prev := Some i\<rparr>]\<rparr>"
  note defs = s1_def s2_def s3_def s4_def
  have "enque q i s = Some s4"
    unfolding enque_def using assms by (simp add: set_item_eval get_item_eval defs)
  moreover have "length (queue s4) = length (queue s)" "freelist s4 = freelist s" by (simp_all add: defs)
  moreover have "nx s4 j = (if j = i then Some q else if j = p then Some i else nx s j)"
    "pv s4 j = (if j = q then Some i else if j = i then Some p else pv s j)" "task_at s4 j = task_at s j" for j
    using assms by (auto simp: defs nth_list_update task_def)
  ultimately show ?thesis using that by blast
qed

lemma deque_links:
  assumes "pv s i = Some p" "nx s i = Some n" "i \<noteq> p" "i < length (queue s)" "p < length (queue s)" "n < length (queue s)"
  obtains s' where "deque i s = Some s'" "length (queue s') = length (queue s)" "freelist s' = freelist s"
    "\<And>j. nx s' j = (if j = p then Some n else nx s j)" "\<And>j. pv s' j = (if j = n then Some p else pv s j)"
    "\<And>j. task_at s' j = task_at s j" "current_tid s' = current_tid s" "next_tid s' = next_tid s"
proof -
  define s1 where "s1 = s\<lparr>queue := (queue s)[p := (queue s ! p)\<lparr>it_next := Some n\<rparr>]\<rparr>"
  define s2 where "s2 = s1\<lparr>queue := (queue s1)[n := (queue s1 ! n)\<lparr>it_prev := Some p\<rparr>]\<rparr>"
  note defs = s1_def s2_def
  have "deque i s = Some s2"
    unfolding deque_def using assms by (simp add: set_item_eval get_item_eval defs)
  moreover have "length (queue s2) = length (queue s)" "freelist s2 = freelist s" "current_tid s2 = current_tid s"
    "next_tid s2 = next_tid s" by (simp_all add: defs)
  moreover have "nx s2 j = (if j = p then Some n else nx s j)" "pv s2 j = (if j = n then Some p else pv s j)"
    "task_at s2 j = task_at s j" for j
    using assms by (auto simp: defs nth_list_update task_def)
  ultimately show ?thesis using that by blast
qed

text \<open>The searches, on the list of items.\<close>

lemma find_item_chain:
  assumes "chain s (a # xs @ [0])" "\<forall>i \<in> set xs. i < length (queue s) \<and> i \<noteq> 0"
  shows "find_item P s (nx s a) = Some (case find (\<lambda>i. P (queue s ! i)) xs of None \<Rightarrow> 0 | Some i \<Rightarrow> i)"
  using assms
proof (induction xs arbitrary: a)
  case Nil
  then show ?case by (subst find_item.simps) simp
next
  case (Cons x xs)
  then show ?case by (subst find_item.simps) (auto simp: get_item_eval)
qed

lemma find_from_base_eval:
  assumes "holds s xs fs"
  shows "find_from_base P s = Some (case find (\<lambda>i. P (queue s ! i)) xs of None \<Rightarrow> 0 | Some i \<Rightarrow> i)"
proof -
  have "\<forall>i \<in> set xs. i < length (queue s) \<and> i \<noteq> 0" "0 < length (queue s)"
    using assms by (auto simp: holds_def)
  then show ?thesis
    using find_item_chain [of s 0 xs P] assms by (simp add: find_from_base_def get_item_eval holds_def)
qed

text \<open>An item taken out of both lists.\<close>

definition detached :: "('f, 'd) sched \<Rightarrow> nat list \<Rightarrow> nat \<Rightarrow> nat list \<Rightarrow> bool" where
  "detached s xs i fs \<longleftrightarrow> chain s (0 # xs @ [0]) \<and> free_chain s (freelist s) fs \<and> distinct (0 # i # xs @ fs)
     \<and> set (0 # i # xs @ fs) = {0..<length (queue s)}"

lemma detachedD:
  "detached s xs i fs \<Longrightarrow> i \<noteq> 0 \<and> i < length (queue s) \<and> i \<notin> set xs \<and> i \<notin> set fs \<and> 0 \<notin> set xs \<and> 0 \<notin> set fs
     \<and> 0 < length (queue s) \<and> distinct xs \<and> set xs \<inter> set fs = {} \<and> (\<forall>j \<in> set xs \<union> set fs. j < length (queue s))"
  unfolding detached_def by auto

lemma enque_holds:
  assumes "detached s (us @ vs) i fs"
  obtains s' where "enque (hd (vs @ [0])) i s = Some s'" "holds s' (us @ i # vs) fs" "\<And>j. task_at s' j = task_at s j"
proof -
  note d = detachedD [OF assms]
  obtain bl p where p: "0 # us = bl @ [p]" by (metis list.discI rev_exhaust)
  obtain q vs' where q: "vs @ [0] = q # vs'" by (metis append_is_Nil_conv list.exhaust not_Cons_self2)
  have ring: "0 # (us @ vs) @ [0] = bl @ p # q # vs'" using p q by simp
  have c: "chain s (bl @ [p])" "nx s p = Some q" "pv s q = Some p" "chain s (q # vs')"
    using assms chain_append [of s bl p "q # vs'"] unfolding detached_def ring by auto
  have bl: "p \<in> insert 0 (set us)" "set bl \<subseteq> insert 0 (set us)" "p \<notin> set bl" "set (tl (bl @ [p])) = set us"
  proof -
    consider "us = []" "bl = []" "p = 0" | u where "us = u @ [p]" "bl = 0 # u"
      using p by (cases us rule: rev_cases) auto
    then have "p \<in> insert 0 (set us) \<and> set bl \<subseteq> insert 0 (set us) \<and> p \<notin> set bl \<and> set (tl (bl @ [p])) = set us"
      using d by cases auto
    then show "p \<in> insert 0 (set us)" "set bl \<subseteq> insert 0 (set us)" "p \<notin> set bl" "set (tl (bl @ [p])) = set us" by auto
  qed
  have vs': "q \<in> insert 0 (set vs)" "set (butlast (q # vs')) = set vs" "q \<notin> set vs'" "i \<notin> set vs'"
  proof -
    consider "vs = []" "q = 0" "vs' = []" | t where "vs = q # t" "vs' = t @ [0]"
      using q by (cases vs) auto
    then have "q \<in> insert 0 (set vs) \<and> set (butlast (q # vs')) = set vs \<and> q \<notin> set vs' \<and> i \<notin> set vs'"
      using d by cases (auto simp: butlast_append)
    then show "q \<in> insert 0 (set vs)" "set (butlast (q # vs')) = set vs" "q \<notin> set vs'" "i \<notin> set vs'" by auto
  qed
  note pq = bl(1) vs'(1)
  have ip: "i \<noteq> p" "i \<noteq> q" "p < length (queue s)" "q < length (queue s)"
    using pq d by auto
  have il: "i < length (queue s)" using d by simp
  obtain s' where s': "enque q i s = Some s'" "length (queue s') = length (queue s)" "freelist s' = freelist s"
    "\<And>j. nx s' j = (if j = i then Some q else if j = p then Some i else nx s j)"
    "\<And>j. pv s' j = (if j = q then Some i else if j = i then Some p else pv s j)"
    "\<And>j. task_at s' j = task_at s j"
    using enque_links [OF c(3) ip(1,2) il ip(3,4)] by blast
  have "chain s' (bl @ [p]) = chain s (bl @ [p])"
  proof (rule chain_cong)
    show "nx s' a = nx s a" if "a \<in> set (butlast (bl @ [p]))" for a
      using that bl(2,3) d by (auto simp: s'(4))
    show "pv s' b = pv s b" if "b \<in> set (tl (bl @ [p]))" for b
      using that vs'(1) d unfolding bl(4) by (auto simp: s'(5))
  qed
  moreover have "chain s' (q # vs') = chain s (q # vs')"
  proof (rule chain_cong)
    show "nx s' a = nx s a" if "a \<in> set (butlast (q # vs'))" for a
      using that bl(1) d unfolding vs'(2) by (auto simp: s'(4))
    show "pv s' b = pv s b" if "b \<in> set (tl (q # vs'))" for b
      using that vs'(3,4) by (auto simp: s'(5))
  qed
  ultimately have "chain s' (bl @ p # i # q # vs')"
    using c s'(4,5) ip chain_append [of s' bl p "i # q # vs'"] by simp
  moreover have "0 # (us @ i # vs) @ [0] = bl @ p # i # q # vs'" using p q by simp
  ultimately have "chain s' (0 # (us @ i # vs) @ [0])" by simp
  moreover have "free_chain s' (freelist s') fs"
  proof -
    have "p \<notin> set fs" using bl(1) d by auto
    then have "free_chain s' (freelist s) fs = free_chain s (freelist s) fs"
      using d by (intro free_chain_cong) (auto simp: s'(4))
    then show ?thesis using assms s'(3) by (simp add: detached_def)
  qed
  ultimately have "holds s' (us @ i # vs) fs"
    using assms s'(2) by (auto simp: holds_def detached_def)
  then show ?thesis using that s' q by simp
qed

lemma deque_detaches:
  assumes "holds s (us @ i # vs) fs"
  obtains s' where "deque i s = Some s'" "detached s' (us @ vs) i fs" "\<And>j. task_at s' j = task_at s j"
    "current_tid s' = current_tid s" "next_tid s' = next_tid s"
proof -
  have d: "distinct (0 # us @ i # vs @ fs)" "set (0 # us @ i # vs @ fs) = {0..<length (queue s)}"
    using assms by (auto simp: holds_def)
  have lt: "j < length (queue s)" if "j \<in> set (0 # us @ i # vs @ fs)" for j using that unfolding d(2) by simp
  obtain bl p where p: "0 # us = bl @ [p]" by (metis list.discI rev_exhaust)
  obtain q vs' where q: "vs @ [0] = q # vs'" by (metis append_is_Nil_conv list.exhaust not_Cons_self2)
  have ring: "0 # (us @ i # vs) @ [0] = bl @ p # i # q # vs'" using p q by simp
  have c: "chain s (bl @ [p])" "nx s p = Some i" "pv s i = Some p" "nx s i = Some q" "pv s q = Some i" "chain s (q # vs')"
    using assms chain_append [of s bl p "i # q # vs'"] unfolding holds_def ring by auto
  have bl: "p \<in> insert 0 (set us)" "set bl \<subseteq> insert 0 (set us)" "p \<notin> set bl" "set (tl (bl @ [p])) = set us"
  proof -
    consider "us = []" "bl = []" "p = 0" | u where "us = u @ [p]" "bl = 0 # u"
      using p by (cases us rule: rev_cases) auto
    then have "p \<in> insert 0 (set us) \<and> set bl \<subseteq> insert 0 (set us) \<and> p \<notin> set bl \<and> set (tl (bl @ [p])) = set us"
      using d(1) by cases auto
    then show "p \<in> insert 0 (set us)" "set bl \<subseteq> insert 0 (set us)" "p \<notin> set bl" "set (tl (bl @ [p])) = set us" by auto
  qed
  have vs': "q \<in> insert 0 (set vs)" "set (butlast (q # vs')) = set vs" "q \<notin> set vs'"
  proof -
    consider "vs = []" "q = 0" "vs' = []" | t where "vs = q # t" "vs' = t @ [0]"
      using q by (cases vs) auto
    then have "q \<in> insert 0 (set vs) \<and> set (butlast (q # vs')) = set vs \<and> q \<notin> set vs'"
      using d(1) by cases (auto simp: butlast_append)
    then show "q \<in> insert 0 (set vs)" "set (butlast (q # vs')) = set vs" "q \<notin> set vs'" by auto
  qed
  have ip: "i \<noteq> p" "i < length (queue s)" "p < length (queue s)" "q < length (queue s)"
    using bl(1) vs'(1) d(1) lt by auto
  obtain s' where s': "deque i s = Some s'" "length (queue s') = length (queue s)" "freelist s' = freelist s"
    "\<And>j. nx s' j = (if j = p then Some q else nx s j)" "\<And>j. pv s' j = (if j = q then Some p else pv s j)"
    "\<And>j. task_at s' j = task_at s j" "current_tid s' = current_tid s" "next_tid s' = next_tid s"
    using deque_links [OF c(3,4) ip] by blast
  have "chain s' (bl @ [p]) = chain s (bl @ [p])"
  proof (rule chain_cong)
    show "nx s' a = nx s a" if "a \<in> set (butlast (bl @ [p]))" for a
      using that bl(3) by (auto simp: s'(4))
    show "pv s' b = pv s b" if "b \<in> set (tl (bl @ [p]))" for b
      using that vs'(1) d(1) unfolding bl(4) by (auto simp: s'(5))
  qed
  moreover have "chain s' (q # vs') = chain s (q # vs')"
  proof (rule chain_cong)
    show "nx s' a = nx s a" if "a \<in> set (butlast (q # vs'))" for a
      using that bl(1) d(1) unfolding vs'(2) by (auto simp: s'(4))
    show "pv s' b = pv s b" if "b \<in> set (tl (q # vs'))" for b
      using that vs'(3) by (auto simp: s'(5))
  qed
  ultimately have "chain s' (bl @ p # q # vs')"
    using c s'(4,5) chain_append [of s' bl p "q # vs'"] by simp
  moreover have "0 # (us @ vs) @ [0] = bl @ p # q # vs'" using p q by simp
  ultimately have "chain s' (0 # (us @ vs) @ [0])" by simp
  moreover have "free_chain s' (freelist s') fs"
  proof -
    have "p \<notin> set fs" using bl(1) d(1) by auto
    then have "free_chain s' (freelist s) fs = free_chain s (freelist s) fs"
      by (intro free_chain_cong) (auto simp: s'(4))
    then show ?thesis using assms s'(3) by (simp add: holds_def)
  qed
  ultimately have "detached s' (us @ vs) i fs"
    using d s'(2) by (auto simp: detached_def)
  then show ?thesis using that s' by blast
qed

lemma free_item_holds:
  assumes "detached s xs i fs"
  obtains s' where "free_item i s = Some s'" "holds s' xs (i # fs)" "\<And>j. task_at s' j = task_at s j"
    "current_tid s' = current_tid s" "next_tid s' = next_tid s"
proof -
  note d = detachedD [OF assms]
  let ?s = "s\<lparr>queue := (queue s)[i := (queue s ! i)\<lparr>it_next := freelist s\<rparr>], freelist := Some i\<rparr>"
  have "chain ?s (0 # xs @ [0]) = chain s (0 # xs @ [0])"
    by (rule chain_cong) (use d in \<open>auto simp: butlast_append nth_list_update\<close>)
  moreover have "free_chain ?s p fs = free_chain s p fs" for p
    by (rule free_chain_cong) (use d in \<open>auto simp: nth_list_update\<close>)
  ultimately have "holds ?s xs (i # fs)" using assms d by (auto simp: holds_def detached_def)
  moreover have "task_at ?s j = task_at s j" for j using d by (auto simp: nth_list_update task_def)
  ultimately show ?thesis using that [of ?s] d by (simp add: free_item_def set_item_eval)
qed

lemma alloc_item_detaches:
  assumes "holds s xs fs"
  shows "case fs of [] \<Rightarrow> alloc_item s = Some (None, s)
    | i # fs' \<Rightarrow> \<exists>s'. alloc_item s = Some (Some i, s') \<and> detached s' xs i fs' \<and> queue s' = queue s
        \<and> current_tid s' = current_tid s \<and> next_tid s' = next_tid s"
proof (cases fs)
  case Nil
  then show ?thesis using assms by (simp add: holds_def alloc_item_def)
next
  case (Cons i fs')
  let ?s = "s\<lparr>freelist := nx s i\<rparr>"
  have "i < length (queue s)" "freelist s = Some i" using assms Cons by (auto simp: holds_def)
  moreover have "chain ?s ys = chain s ys" "free_chain ?s p zs = free_chain s p zs" for ys p zs
    by (simp_all cong: chain_cong free_chain_cong)
  ultimately show ?thesis using assms Cons
    by (auto simp: alloc_item_def get_item_eval holds_def detached_def)
qed

text \<open>Assigning the fields of a detached item.\<close>

lemma set_detached:
  assumes "detached s xs i fs" "\<And>it. it_next (f it) = it_next it \<and> it_prev (f it) = it_prev it"
  obtains s' where "set_item (Some i) f s = Some s'" "detached s' xs i fs"
    "\<And>j. queue s' ! j = (if j = i then f (queue s ! i) else queue s ! j)"
    "current_tid s' = current_tid s" "next_tid s' = next_tid s"
proof -
  note d = detachedD [OF assms(1)]
  let ?s = "s\<lparr>queue := (queue s)[i := f (queue s ! i)]\<rparr>"
  have q: "queue ?s ! j = (if j = i then f (queue s ! i) else queue s ! j)" for j
    using d by (simp add: nth_list_update)
  have links: "nx ?s j = nx s j" "pv ?s j = pv s j" for j
    unfolding q using assms(2) by simp_all
  have "chain ?s (0 # xs @ [0]) = chain s (0 # xs @ [0])"
    by (rule chain_cong) (simp_all only: links)
  moreover have "free_chain ?s p fs = free_chain s p fs" for p
    by (rule free_chain_cong) (simp only: links)
  ultimately have "detached ?s xs i fs" using assms(1) by (auto simp: detached_def)
  then show ?thesis using that [of ?s] d q by (simp add: set_item_eval)
qed

section \<open>The abstract scheduler\<close>

text \<open>A list of tasks in the order in which they will run, and how many more it can take.\<close>

type_synonym ('f, 'd) tasks = "(u32 \<times> 'f \<times> 'd \<times> u32) list"

definition spec_insert :: "u32 \<times> 'f \<times> 'd \<times> u32 \<Rightarrow> ('f, 'd) tasks \<Rightarrow> ('f, 'd) tasks" where
  "spec_insert t ts = takeWhile (\<lambda>x. \<not> later (ts_when x) (ts_when t)) ts @ t # dropWhile (\<lambda>x. \<not> later (ts_when x) (ts_when t)) ts"

definition spec_remove :: "u32 \<Rightarrow> ('f, 'd) tasks \<Rightarrow> ('f, 'd) tasks" where
  "spec_remove tid ts = filter (\<lambda>t. ts_tid t \<noteq> tid) ts"

definition spec_has :: "u32 \<Rightarrow> ('f, 'd) tasks \<Rightarrow> bool" where
  "spec_has tid ts \<longleftrightarrow> tid \<in> ts_tid ` set ts"

text \<open>The state of the scheduler represents a list of tasks with different identifiers and a number of free items.\<close>

definition represents :: "('f, 'd) sched \<Rightarrow> ('f, 'd) tasks \<Rightarrow> nat \<Rightarrow> bool" where
  "represents s ts room \<longleftrightarrow> (\<exists>xs fs. holds s xs fs \<and> tasks s xs = ts \<and> length fs = room) \<and> distinct (map ts_tid ts)"

lemma representsI:
  "holds s xs fs \<Longrightarrow> tasks s xs = ts \<Longrightarrow> length fs = room \<Longrightarrow> distinct (map ts_tid ts) \<Longrightarrow> represents s ts room"
  by (auto simp: represents_def)

lemma find_hd_dropWhile: "(case find P xs of None \<Rightarrow> z | Some i \<Rightarrow> i) = hd (dropWhile (\<lambda>x. \<not> P x) xs @ [z])"
  by (induction xs) auto

lemma find_from_base_detached:
  assumes "detached s xs i fs"
  shows "find_from_base P s = Some (hd (dropWhile (\<lambda>i. \<not> P (queue s ! i)) xs @ [0]))"
proof -
  have "\<forall>i \<in> set xs. i < length (queue s) \<and> i \<noteq> 0" "0 < length (queue s)"
    using detachedD [OF assms] by auto
  then show ?thesis
    using find_item_chain [of s 0 xs P] assms
    by (simp add: find_from_base_def get_item_eval detached_def find_hd_dropWhile)
qed

text \<open>Putting a detached item in its place.\<close>

lemma insert_item:
  assumes "detached s xs i fs"
  obtains s' xs' where "do { q \<leftarrow> find_from_base (\<lambda>it. later (it_when it) (ts_when (task_at s i))) s; enque q i s } = Some s'"
    "holds s' xs' fs" "tasks s' xs' = spec_insert (task_at s i) (tasks s xs)"
proof -
  let ?P = "\<lambda>j. \<not> later (it_when (queue s ! j)) (ts_when (task_at s i))"
  let ?us = "takeWhile ?P xs" and ?vs = "dropWhile ?P xs"
  have "detached s (?us @ ?vs) i fs" using assms by simp
  from enque_holds [OF this] obtain s' where s': "enque (hd (?vs @ [0])) i s = Some s'" "holds s' (?us @ i # ?vs) fs"
    "\<And>j. task_at s' j = task_at s j" by blast
  have w: "ts_when (task_at s j) = it_when (queue s ! j)" for j by (simp add: task_def)
  have "tasks s' (?us @ i # ?vs) = spec_insert (task_at s i) (tasks s xs)"
    by (simp add: tasks_def s'(3) spec_insert_def takeWhile_map dropWhile_map comp_def w)
  then show ?thesis using that s' find_from_base_detached [OF assms] by simp
qed

lemma spec_remove_middle:
  "distinct (map ts_tid (a @ t # b)) \<Longrightarrow> spec_remove (ts_tid t) (a @ t # b) = a @ b"
proof -
  assume "distinct (map ts_tid (a @ t # b))"
  then have "ts_tid t \<notin> ts_tid ` (set a \<union> set b)" by (simp add: image_Un)
  then have ne: "x \<in> set a \<union> set b \<Longrightarrow> ts_tid x \<noteq> ts_tid t" for x by (metis image_eqI)
  have "filter (\<lambda>x. ts_tid x \<noteq> ts_tid t) a = a" "filter (\<lambda>x. ts_tid x \<noteq> ts_tid t) b = b"
    by (simp_all only: filter_id_conv) (use ne in blast)+
  then show ?thesis by (simp add: spec_remove_def)
qed

lemma spec_remove_absent: "\<not> spec_has tid ts \<Longrightarrow> spec_remove tid ts = ts"
  by (auto simp: spec_remove_def spec_has_def filter_id_conv)

text \<open>An insertion splits the list.\<close>

lemma spec_insert_split:
  obtains a b where "ts = a @ b" "spec_insert t ts = a @ t # b" "\<forall>x\<in>set a. \<not> later (ts_when x) (ts_when t)"
    "b \<noteq> [] \<longrightarrow> later (ts_when (hd b)) (ts_when t)"
proof
  let ?P = "\<lambda>x. \<not> later (ts_when x) (ts_when t)"
  show "ts = takeWhile ?P ts @ dropWhile ?P ts" by simp
  show "spec_insert t ts = takeWhile ?P ts @ t # dropWhile ?P ts" by (simp add: spec_insert_def)
  show "\<forall>x\<in>set (takeWhile ?P ts). \<not> later (ts_when x) (ts_when t)" by (auto dest: set_takeWhileD)
  show "dropWhile ?P ts \<noteq> [] \<longrightarrow> later (ts_when (hd (dropWhile ?P ts))) (ts_when t)" using hd_dropWhile by blast
qed

lemma distinct_spec_insert:
  "distinct (map ts_tid ts) \<Longrightarrow> \<not> spec_has (ts_tid t) ts \<Longrightarrow> distinct (map ts_tid (spec_insert t ts))"
  by (rule spec_insert_split [of ts t]) (auto simp: spec_has_def)

text \<open>Looking a task up by its identifier.\<close>

lemma find_task:
  assumes "holds s xs fs" "distinct (map ts_tid (tasks s xs))"
  obtains (absent) "find_from_base (\<lambda>it. it_tid it = tid) s = Some 0" "\<not> spec_has tid (tasks s xs)"
  | (found) us i vs where "find_from_base (\<lambda>it. it_tid it = tid) s = Some i" "i \<noteq> 0" "xs = us @ i # vs"
      "ts_tid (task_at s i) = tid" "spec_has tid (tasks s xs)" "spec_remove tid (tasks s xs) = tasks s (us @ vs)"
proof (cases "find (\<lambda>i. it_tid (queue s ! i) = tid) xs")
  case None
  then have "\<not> spec_has tid (tasks s xs)"
    by (auto simp: find_None_iff spec_has_def tasks_def task_def)
  then show ?thesis using absent find_from_base_eval [OF assms(1)] None by simp
next
  case (Some i)
  then have i: "i \<in> set xs" "it_tid (queue s ! i) = tid" by (auto simp: find_Some_iff in_set_conv_nth)
  then obtain us vs where xs: "xs = us @ i # vs" by (metis split_list)
  have "i \<noteq> 0" using i assms(1) by (auto simp: holds_def)
  moreover have "ts_tid (task_at s i) = tid" using i(2) by (simp add: task_def)
  moreover from this have "spec_has tid (tasks s xs)" using i(1) by (force simp: spec_has_def tasks_def)
  moreover have "spec_remove tid (tasks s xs) = tasks s (us @ vs)"
    using spec_remove_middle [of "tasks s us" "task_at s i" "tasks s vs"] assms(2) \<open>ts_tid (task_at s i) = tid\<close>
    by (simp add: xs tasks_def)
  moreover have "find_from_base (\<lambda>it. it_tid it = tid) s = Some i"
    using find_from_base_eval [OF assms(1)] Some by simp
  ultimately show ?thesis using found [of i us vs] xs by blast
qed

lemma not_has_remove: "\<not> spec_has tid (spec_remove tid ts)"
  by (auto simp: spec_has_def spec_remove_def)

lemma distinct_remove: "distinct (map ts_tid ts) \<Longrightarrow> distinct (map ts_tid (spec_remove tid ts))"
  by (induction ts) (auto simp: spec_remove_def)

section \<open>Refinement\<close>

text \<open>A detached item whose fields are set and which is put in its place.\<close>

lemma place_item:
  assumes "detached s xs i fs" "\<And>it. it_next (f it) = it_next it \<and> it_prev (f it) = it_prev it"
    and "task (f (queue s ! i)) = (tid, func, data, w)" "distinct (map ts_tid (tasks s xs))" "\<not> spec_has tid (tasks s xs)"
  obtains s' where "\<And>r :: u32. do { s \<leftarrow> set_item (Some i) f s; q \<leftarrow> find_from_base (\<lambda>it. later (it_when it) w) s;
      s \<leftarrow> enque q i s; Some (r, s) } = Some (r, s')"
    "represents s' (spec_insert (tid, func, data, w) (tasks s xs)) (length fs)"
proof -
  obtain s1 where s1: "set_item (Some i) f s = Some s1" "detached s1 xs i fs"
    "\<And>j. queue s1 ! j = (if j = i then f (queue s ! i) else queue s ! j)"
    using set_detached [OF assms(1,2)] by blast
  have t: "task_at s1 i = (tid, func, data, w)" using assms(3) by (simp add: s1(3))
  have ts: "tasks s1 xs = tasks s xs"
    using detachedD [OF assms(1)] by (auto simp: tasks_def s1(3))
  obtain s' xs' where s': "do { q \<leftarrow> find_from_base (\<lambda>it. later (it_when it) w) s1; enque q i s1 } = Some s'"
    "holds s' xs' fs" "tasks s' xs' = spec_insert (tid, func, data, w) (tasks s xs)"
    using insert_item [OF s1(2)] unfolding t ts by auto
  have "do { s \<leftarrow> set_item (Some i) f s; q \<leftarrow> find_from_base (\<lambda>it. later (it_when it) w) s;
      s \<leftarrow> enque q i s; Some (r, s) } = Some (r, s')" for r :: u32
    using s1(1) s'(1) by (auto simp: Option.bind_eq_Some_conv)
  then show ?thesis
    using that s'(2,3) distinct_spec_insert [OF assms(4), of "(tid, func, data, w)"] assms(5)
    by (auto simp: represents_def)
qed

lemma sched_refines:
  assumes "represents s ts room"
  obtains r s' where "nk_sched tid func data delay now s = Some (r, s')"
    "(if spec_has tid ts \<or> 0 < room
      then represents s' (spec_insert (tid, func, data, now + nk_convert_delay delay) (spec_remove tid ts))
             (if spec_has tid ts then room else room - 1)
      else s' = s)"
    "r = (if spec_has tid ts then 0 else 1)"
proof -
  obtain xs fs where h: "holds s xs fs" "tasks s xs = ts" "length fs = room" and dt: "distinct (map ts_tid (tasks s xs))"
    using assms by (auto simp: represents_def)
  let ?w = "now + nk_convert_delay delay"
  let ?f = "\<lambda>it. it\<lparr>it_tid := tid, it_func := func, it_data := data, it_when := ?w\<rparr>"
  show ?thesis
  proof (cases rule: find_task [OF h(1) dt, of tid, case_names absent found])
    case absent
    show ?thesis
    proof (cases fs)
      case Nil
      then have "nk_sched tid func data delay now s = Some (1, s)"
        using absent alloc_item_detaches [OF h(1)] by (simp add: nk_sched_def)
      then show ?thesis using that Nil absent h by simp
    next
      case (Cons i fs')
      then obtain s1 where s1: "alloc_item s = Some (Some i, s1)" "detached s1 xs i fs'" "queue s1 = queue s"
        using alloc_item_detaches [OF h(1)] by auto
      have "tasks s1 xs = tasks s xs" by (simp add: tasks_def s1(3))
      then obtain s' where "\<And>r :: u32. do { s \<leftarrow> set_item (Some i) ?f s1; q \<leftarrow> find_from_base (\<lambda>it. later (it_when it) ?w) s;
          s \<leftarrow> enque q i s; Some (r, s) } = Some (r, s')"
        "represents s' (spec_insert (tid, func, data, ?w) (tasks s xs)) (length fs')"
        using place_item [OF s1(2), of ?f tid func data ?w] absent(2) dt by (simp add: task_def) blast
      then show ?thesis
        using that [of 1 s'] absent s1(1) h Cons spec_remove_absent [OF absent(2)]
        by (auto simp: nk_sched_def Let_def)
    qed
  next
    case (found us i vs)
    obtain s1 where s1: "deque i s = Some s1" "detached s1 (us @ vs) i fs" "\<And>j. task_at s1 j = task_at s j"
      using deque_detaches h(1) unfolding found(3) by blast
    have "tasks s1 (us @ vs) = spec_remove tid ts" using found(6) h(2) by (simp add: tasks_def s1(3))
    then obtain s' where "\<And>r :: u32. do { s \<leftarrow> set_item (Some i) ?f s1; q \<leftarrow> find_from_base (\<lambda>it. later (it_when it) ?w) s;
          s \<leftarrow> enque q i s; Some (r, s) } = Some (r, s')"
      "represents s' (spec_insert (tid, func, data, ?w) (spec_remove tid ts)) (length fs)"
      using place_item [OF s1(2), of ?f tid func data ?w] not_has_remove [of tid ts] distinct_remove [OF dt, of tid] h(2) by (simp add: task_def) blast
    then show ?thesis
      using that [of 0 s'] found h s1(1) by (auto simp: nk_sched_def Let_def)
  qed
qed

lemma resched_refines:
  assumes "represents s ts room"
  obtains s' where "nk_resched tid func data delay now s = Some (if spec_has tid ts then 1 else 0, s')"
    "(if spec_has tid ts
      then represents s' (spec_insert (tid, func, data, now + nk_convert_delay delay) (spec_remove tid ts)) room
      else s' = s)"
proof -
  obtain xs fs where h: "holds s xs fs" "tasks s xs = ts" "length fs = room" and dt: "distinct (map ts_tid (tasks s xs))"
    using assms by (auto simp: represents_def)
  let ?w = "now + nk_convert_delay delay"
  let ?f = "\<lambda>it. it\<lparr>it_when := ?w, it_func := func, it_data := data\<rparr>"
  show ?thesis
  proof (cases rule: find_task [OF h(1) dt, of tid, case_names absent found])
    case absent
    then show ?thesis using that [of s] h by (simp add: nk_resched_def Let_def)
  next
    case (found us i vs)
    obtain s1 where s1: "deque i s = Some s1" "detached s1 (us @ vs) i fs" "\<And>j. task_at s1 j = task_at s j"
      using deque_detaches h(1) unfolding found(3) by blast
    have "tasks s1 (us @ vs) = spec_remove tid ts" using found(6) h(2) by (simp add: tasks_def s1(3))
    moreover have "task (?f (queue s1 ! i)) = (tid, func, data, ?w)"
      using found(4) s1(3) [of i] by (simp add: task_def)
    ultimately obtain s' where "\<And>r :: u32. do { s \<leftarrow> set_item (Some i) ?f s1; q \<leftarrow> find_from_base (\<lambda>it. later (it_when it) ?w) s;
          s \<leftarrow> enque q i s; Some (r, s) } = Some (r, s')"
      "represents s' (spec_insert (tid, func, data, ?w) (spec_remove tid ts)) (length fs)"
      using place_item [OF s1(2), of ?f tid func data ?w] not_has_remove [of tid ts] distinct_remove [OF dt, of tid] h(2) by simp blast
    then show ?thesis
      using that [of s'] found h s1(1) by (auto simp: nk_resched_def Let_def)
  qed
qed

lemma unsched_refines:
  assumes "represents s ts room"
  obtains s' where "nk_unsched tid s = Some (if spec_has tid ts then 1 else 0, s')"
    "represents s' (spec_remove tid ts) (if spec_has tid ts then Suc room else room)"
proof -
  obtain xs fs where h: "holds s xs fs" "tasks s xs = ts" "length fs = room" and dt: "distinct (map ts_tid (tasks s xs))"
    using assms by (auto simp: represents_def)
  show ?thesis
  proof (cases rule: find_task [OF h(1) dt, of tid, case_names absent found])
    case absent
    then show ?thesis using that [of s] h assms spec_remove_absent [OF absent(2)] by (simp add: nk_unsched_def)
  next
    case (found us i vs)
    obtain s1 where s1: "deque i s = Some s1" "detached s1 (us @ vs) i fs" "\<And>j. task_at s1 j = task_at s j"
      using deque_detaches h(1) unfolding found(3) by blast
    obtain s2 where s2: "free_item i s1 = Some s2" "holds s2 (us @ vs) (i # fs)" "\<And>j. task_at s2 j = task_at s1 j"
      using free_item_holds [OF s1(2)] by blast
    have "tasks s2 (us @ vs) = spec_remove tid ts" using found(6) h(2) by (simp add: tasks_def s1(3) s2(3))
    then have "represents s2 (spec_remove tid ts) (Suc room)"
      using s2(2) h(2,3) distinct_remove [OF dt, of tid] by (intro representsI) auto
    then show ?thesis
      using that [of s2] found h s1(1) s2(1) by (simp add: nk_unsched_def)
  qed
qed

lemma check_refines:
  assumes "represents s ts room"
  shows "nk_check tid s = Some (if spec_has tid ts then 1 else 0)"
proof -
  obtain xs fs where h: "holds s xs fs" "tasks s xs = ts" and dt: "distinct (map ts_tid (tasks s xs))"
    using assms by (auto simp: represents_def)
  show ?thesis
    by (cases rule: find_task [OF h(1) dt, of tid, case_names absent found]) (use h in \<open>auto simp: nk_check_def\<close>)
qed

text \<open>The main loop takes the first task when it is due.\<close>

definition due :: "u32 \<Rightarrow> u32 \<Rightarrow> bool" where
  "due now w \<longleftrightarrow> 0 \<le> sint (now - w)"

lemma loop_refines:
  assumes "represents s ts room"
  obtains s' where "nk_sched_loop_body now s = Some (case ts of
        [] \<Rightarrow> Wait None
      | (tid, func, data, w) # _ \<Rightarrow> if due now w then Call func data else Wait (Some w), s')"
    "case ts of [] \<Rightarrow> s' = s
      | (tid, func, data, w) # ts' \<Rightarrow>
          if due now w then represents s' ts' (Suc room) \<and> current_tid s' = tid else s' = s"
proof -
  obtain xs fs where h: "holds s xs fs" "tasks s xs = ts" "length fs = room" and dt: "distinct (map ts_tid ts)"
    using assms by (auto simp: represents_def)
  have z: "0 < length (queue s)" using h(1) by (auto simp: holds_def)
  show ?thesis
  proof (cases xs)
    case Nil
    then have "nx s 0 = Some 0" "ts = []" using h by (auto simp: holds_def tasks_def)
    then show ?thesis using that [of s] z by (simp add: nk_sched_loop_body_def queue_not_empty_def get_item_eval)
  next
    case (Cons i vs)
    obtain tid func data w where t: "task_at s i = (tid, func, data, w)" by (metis surj_pair)
    then have ts: "ts = (tid, func, data, w) # tasks s vs" using h(2) Cons by (simp add: tasks_def)
    have i: "nx s 0 = Some i" "i \<noteq> 0" "i < length (queue s)"
      using h(1) Cons by (auto simp: holds_def)
    have w: "it_when (queue s ! i) = w" using t by (simp add: task_def)
    show ?thesis
    proof (cases "due now w")
      case False
      then show ?thesis
        using that [of s] i z w ts by (simp add: nk_sched_loop_body_def queue_not_empty_def get_item_eval due_def)
    next
      case True
      have "holds s ([] @ i # vs) fs" using h(1) Cons by simp
      from deque_detaches [OF this] obtain s1 where s1: "deque i s = Some s1" "detached s1 vs i fs" "\<And>j. task_at s1 j = task_at s j"
        by auto
      let ?s = "s1\<lparr>current_tid := it_tid (queue s1 ! i)\<rparr>"
      have cong: "chain ?s ys = chain s1 ys" "free_chain ?s p zs = free_chain s1 p zs" for ys p zs
        by (simp_all cong: chain_cong free_chain_cong)
      have "detached ?s vs i fs" using s1(2) by (simp add: detached_def cong)
      from free_item_holds [OF this] obtain s2 where s2: "free_item i ?s = Some s2" "holds s2 vs (i # fs)"
        "\<And>j. task_at s2 j = task_at ?s j" "current_tid s2 = it_tid (queue s1 ! i)"
        by auto
      have t1: "it_tid (queue s1 ! i) = tid" "it_func (queue s1 ! i) = func" "it_data (queue s1 ! i) = data"
        using s1(3) [of i] t by (simp_all add: task_def)
      have "i < length (queue s1)" using detachedD [OF s1(2)] by simp
      moreover have "tasks s2 vs = tasks s vs" using s2(3) s1(3) by (simp add: tasks_def)
      then have "represents s2 (tasks s vs) (Suc room)"
        using s2(2) h(3) dt ts by (intro representsI) auto
      ultimately show ?thesis
        using that [of s2] True i z w ts s1(1) s2(1,4) t1
        by (simp add: nk_sched_loop_body_def queue_not_empty_def get_item_eval due_def Let_def)
    qed
  qed
qed

text \<open>Initialisation.\<close>

lemma free_items_holds:
  assumes "chain s [0, 0]" "free_chain s (freelist s) fs" "distinct (0 # is @ fs)" "\<forall>i \<in> set (0 # is @ fs). i < length (queue s)"
  shows "\<exists>s'. free_items is s = Some s' \<and> chain s' [0, 0] \<and> free_chain s' (freelist s') (rev is @ fs) \<and> length (queue s') = length (queue s)"
  using assms
proof (induction "is" arbitrary: s fs)
  case (Cons i "is")
  let ?s = "s\<lparr>queue := (queue s)[i := (queue s ! i)\<lparr>it_next := freelist s\<rparr>], freelist := Some i\<rparr>"
  have f: "free_item i s = Some ?s" using Cons.prems by (simp add: free_item_def set_item_eval)
  have "free_chain ?s p fs = free_chain s p fs" for p
    by (rule free_chain_cong) (use Cons.prems in \<open>auto simp: nth_list_update\<close>)
  then have "free_chain ?s (freelist ?s) (i # fs)" using Cons.prems by simp
  moreover have "chain ?s [0, 0]" using Cons.prems by (simp add: nth_list_update)
  ultimately show ?case using Cons.IH [of ?s "i # fs"] Cons.prems f by auto
qed simp

lemma init_represents:
  assumes "0 < length (queue s)"
  obtains s' where "nk_init_sched s = Some s'" "represents s' [] (length (queue s) - 1)"
proof -
  let ?s = "s\<lparr>queue := (queue s)[0 := (queue s ! 0)\<lparr>it_next := Some 0, it_prev := Some 0\<rparr>], freelist := None\<rparr>"
  have "chain ?s [0, 0]" "free_chain ?s (freelist ?s) []" using assms by simp_all
  from free_items_holds [OF this, of "[1..<length (queue s)]"] obtain s' where s': "free_items [1..<length (queue s)] ?s = Some s'"
    "chain s' [0, 0]" "free_chain s' (freelist s') (rev [1..<length (queue s)])" "length (queue s') = length (queue s)"
    using assms by auto
  have "holds s' [] (rev [1..<length (queue s)])"
    using s' assms by (auto simp: holds_def)
  then have "represents s' [] (length (queue s) - 1)"
    by (auto simp: represents_def tasks_def intro!: exI [of _ "[]"] exI [of _ "rev [1..<length (queue s)]"])
  moreover have "nk_init_sched s = Some s'"
    using assms s'(1) by (simp add: nk_init_sched_def set_item_eval)
  ultimately show ?thesis using that by blast
qed

section \<open>Due times on a wrapping clock\<close>

text \<open>Times are compared by the sign of their difference. Relative to a reference time \<open>t0\<close>, this is the order of the
  elapsed ticks for all times in the half of the clock's range after \<open>t0\<close>.\<close>

abbreviation ticks_after :: "u32 \<Rightarrow> u32 \<Rightarrow> nat" where
  "ticks_after t0 t \<equiv> unat (t - t0)"

lemma sint_diff:
  fixes x y :: u32
  assumes "uint x < 2 ^ 31" "uint y < 2 ^ 31"
  shows "sint (x - y) = uint x - uint y"
proof -
  have b: "- (2 ^ 31) \<le> uint x - uint y" "uint x - uint y < 2 ^ 31"
    using assms uint_ge_0 [of x] uint_ge_0 [of y] by linarith+
  have "uint (x - y) = take_bit 32 (uint x - uint y)" by (simp add: uint_word_ariths(2) take_bit_eq_mod)
  then have "sint (x - y) = signed_take_bit 31 (uint x - uint y)"
    by (simp add: sint_uint signed_take_bit_take_bit)
  also have "\<dots> = uint x - uint y" by (rule signed_take_bit_int_eq_self) (use b in simp_all)
  finally show ?thesis .
qed

lemma window: "ticks_after t0 t < 2 ^ 31 \<longleftrightarrow> uint (t - t0) < 2 ^ 31"
  unfolding unat_eq_nat_uint using nat_less_iff [OF uint_ge_0, of "t - t0" "2 ^ 31"] by simp

lemma later_iff:
  assumes "ticks_after t0 a < 2 ^ 31" "ticks_after t0 b < 2 ^ 31"
  shows "later a b \<longleftrightarrow> ticks_after t0 b < ticks_after t0 a"
proof -
  have "sint (a - b) = uint (a - t0) - uint (b - t0)"
    using sint_diff [of "a - t0" "b - t0"] assms [unfolded window] by simp
  then show ?thesis unfolding later_def word_less_nat_alt [symmetric] word_less_def by simp
qed

lemma due_iff:
  assumes "ticks_after t0 now < 2 ^ 31" "ticks_after t0 w < 2 ^ 31"
  shows "due now w \<longleftrightarrow> ticks_after t0 w \<le> ticks_after t0 now"
proof -
  have "sint (now - w) = uint (now - t0) - uint (w - t0)"
    using sint_diff [of "now - t0" "w - t0"] assms [unfolded window] by simp
  then show ?thesis unfolding due_def word_le_nat_alt [symmetric] word_le_def by simp
qed

text \<open>All tasks are in the window after \<open>t0\<close>, in order of time.\<close>

definition in_order :: "u32 \<Rightarrow> ('f, 'd) tasks \<Rightarrow> bool" where
  "in_order t0 ts \<longleftrightarrow> (\<forall>t \<in> set ts. ticks_after t0 (ts_when t) < 2 ^ 31)
     \<and> sorted (map (\<lambda>t. ticks_after t0 (ts_when t)) ts)"

lemma in_order_remove: "in_order t0 ts \<Longrightarrow> in_order t0 (spec_remove tid ts)"
  unfolding in_order_def spec_remove_def by (auto intro: sorted_filter)

lemma in_order_insert:
  assumes "in_order t0 ts" "ticks_after t0 (ts_when t) < 2 ^ 31"
  shows "in_order t0 (spec_insert t ts)"
proof -
  let ?k = "\<lambda>t. ticks_after t0 (ts_when t)"
  obtain a b where s: "ts = a @ b" "spec_insert t ts = a @ t # b" "\<forall>x\<in>set a. \<not> later (ts_when x) (ts_when t)"
    "b \<noteq> [] \<longrightarrow> later (ts_when (hd b)) (ts_when t)" by (rule spec_insert_split)
  have win: "\<forall>x \<in> set a \<union> set b. ?k x < 2 ^ 31" and srt: "sorted (map ?k (a @ b))"
    using assms(1) unfolding in_order_def s(1) by auto
  have "\<forall>x \<in> set a. ?k x \<le> ?k t" using s(3) win later_iff [OF _ assms(2)] by (auto simp: not_less)
  moreover have "\<forall>x \<in> set b. ?k t \<le> ?k x"
  proof (cases b)
    case (Cons y b')
    then have "?k t < ?k y" using s(4) win later_iff [OF _ assms(2), of "ts_when y"] by simp
    then show ?thesis using srt unfolding Cons by (auto simp: sorted_append)
  qed simp
  ultimately show ?thesis using win srt assms(2) unfolding in_order_def s(2) by (auto simp: sorted_append)
qed

section \<open>Running what is due\<close>

text \<open>Turns of the loop at one time, until it waits: the calls it makes.\<close>

fun run_due :: "(u32 \<Rightarrow> 's \<Rightarrow> (('f, 'd) action \<times> 's) option) \<Rightarrow> nat \<Rightarrow> u32 \<Rightarrow> 's \<Rightarrow> (('f \<times> 'd) list \<times> 's) option" where
  "run_due turn 0 now s = None"
| "run_due turn (Suc n) now s = do {
     (a, s') \<leftarrow> turn now s;
     case a of
       Call func data \<Rightarrow> do { (cs, s'') \<leftarrow> run_due turn n now s'; Some ((func, data) # cs, s'') }
     | Wait w \<Rightarrow> Some ([], s')
   }"

text \<open>What the main loop relies on in the queue: a turn at time \<open>now\<close> calls the first task and takes it off the queue
  when it is due, and otherwise waits and changes nothing.\<close>

locale work_loop =
  fixes turn :: "u32 \<Rightarrow> 's \<Rightarrow> (('f, 'd) action \<times> 's) option"
    and queued :: "'s \<Rightarrow> ('f, 'd) tasks \<Rightarrow> bool"
  assumes turn_empty: "queued s [] \<Longrightarrow> turn now s = Some (Wait None, s)"
    and turn_waits: "queued s ((tid, func, data, w) # ts) \<Longrightarrow> \<not> due now w \<Longrightarrow> turn now s = Some (Wait (Some w), s)"
    and turn_calls: "queued s ((tid, func, data, w) # ts) \<Longrightarrow> due now w \<Longrightarrow>
      \<exists>s'. turn now s = Some (Call func data, s') \<and> queued s' ts"
begin

lemma run_due_calls:
  "queued s ts \<Longrightarrow> \<exists>s'. run_due turn (Suc (length ts)) now s
     = Some (map (\<lambda>(tid, func, data, w). (func, data)) (takeWhile (\<lambda>t. due now (ts_when t)) ts), s')
   \<and> queued s' (dropWhile (\<lambda>t. due now (ts_when t)) ts)"
proof (induction ts arbitrary: s)
  case Nil
  then show ?case by (simp add: turn_empty)
next
  case (Cons t ts)
  obtain tid func data w where t: "t = (tid, func, data, w)" by (metis surj_pair)
  show ?case
  proof (cases "due now w")
    case True
    then obtain s1 where s1: "turn now s = Some (Call func data, s1)" "queued s1 ts"
      using turn_calls Cons.prems t by blast
    obtain s2 where "run_due turn (Suc (length ts)) now s1
        = Some (map (\<lambda>(tid, func, data, w). (func, data)) (takeWhile (\<lambda>t. due now (ts_when t)) ts), s2)"
      "queued s2 (dropWhile (\<lambda>t. due now (ts_when t)) ts)" using Cons.IH [OF s1(2)] by blast
    then show ?thesis
      using s1(1) True t by (auto simp: run_due.simps(2) [of _ "Suc (length ts)"] simp del: run_due.simps)
  next
    case False
    then show ?thesis using turn_waits Cons.prems t by simp
  qed
qed

end

definition queued :: "('f, 'd) sched \<Rightarrow> ('f, 'd) tasks \<Rightarrow> bool" where
  "queued s ts \<longleftrightarrow> (\<exists>room. represents s ts room)"

interpretation main_loop: work_loop nk_sched_loop_body queued
proof unfold_locales
  fix s :: "('f, 'd) sched" and tid func data w ts now
  show "queued s [] \<Longrightarrow> nk_sched_loop_body now s = Some (Wait None, s)"
    unfolding queued_def by (erule exE, erule loop_refines [where now = now]) simp
  show "nk_sched_loop_body now s = Some (Wait (Some w), s)"
    if q: "queued s ((tid, func, data, w) # ts)" "\<not> due now w"
  proof -
    obtain room where "represents s ((tid, func, data, w) # ts) room" using q(1) by (auto simp: queued_def)
    then show ?thesis by (rule loop_refines [of _ _ _ now]) (use q(2) in simp)
  qed
  show "\<exists>s'. nk_sched_loop_body now s = Some (Call func data, s') \<and> queued s' ts"
    if q: "queued s ((tid, func, data, w) # ts)" "due now w"
  proof -
    obtain room where "represents s ((tid, func, data, w) # ts) room" using q(1) by (auto simp: queued_def)
    then show ?thesis by (rule loop_refines [of _ _ _ now]) (use q(2) in \<open>auto simp: queued_def\<close>)
  qed
qed

text \<open>In a queue in order the tasks that are due are a prefix.\<close>

lemma due_prefix:
  assumes "in_order t0 ts" "ticks_after t0 now < 2 ^ 31"
  shows "takeWhile (\<lambda>t. due now (ts_when t)) ts = filter (\<lambda>t. due now (ts_when t)) ts"
  using assms(1)
proof (induction ts)
  case (Cons t ts)
  then have ord: "in_order t0 ts" by (auto simp: in_order_def)
  show ?case
  proof (cases "due now (ts_when t)")
    case False
    have "\<not> due now (ts_when x)" if "x \<in> set ts" for x
    proof -
      have "ticks_after t0 (ts_when t) \<le> ticks_after t0 (ts_when x)" "ticks_after t0 (ts_when t) < 2 ^ 31"
        "ticks_after t0 (ts_when x) < 2 ^ 31"
        using Cons.prems that by (auto simp: in_order_def)
      then show ?thesis using False due_iff [OF assms(2)] by (meson le_trans)
    qed
    then show ?thesis using False by (simp add: filter_empty_conv)
  qed (use Cons.IH [OF ord] in simp)
qed simp

lemma dropWhile_filter: "takeWhile P xs = filter P xs \<Longrightarrow> dropWhile P xs = filter (\<lambda>x. \<not> P x) xs"
proof (induction xs)
  case (Cons x xs)
  then show ?case by (cases "P x") (auto simp: filter_empty_conv intro: filter_True [symmetric] dest: sym)
qed simp

section \<open>The scheduler as a state machine\<close>

text \<open>What programs and the main loop do to the queue, in any order, from its initialisation on.\<close>

datatype ('f, 'd) event =
    Submit u32 'f 'd u32 u32
  | Resubmit u32 'f 'd u32 u32
  | Cancel u32
  | Turn u32
  | NewTid
  | Deepness u32

inductive step :: "('f, 'd) sched \<Rightarrow> ('f, 'd) event \<Rightarrow> ('f, 'd) sched \<Rightarrow> bool" where
  submit: "nk_sched tid func data delay now s = Some (r, s') \<Longrightarrow> step s (Submit tid func data delay now) s'"
| resubmit: "nk_resched tid func data delay now s = Some (r, s') \<Longrightarrow> step s (Resubmit tid func data delay now) s'"
| cancel: "nk_unsched tid s = Some (r, s') \<Longrightarrow> step s (Cancel tid) s'"
| turn: "nk_sched_loop_body now s = Some (a, s') \<Longrightarrow> step s (Turn now) s'"
| new_tid: "nk_alloc_tid s = (r, s') \<Longrightarrow> step s NewTid s'"
| deepness: "nk_set_sched_sleep_mode d s = (r, s') \<Longrightarrow> step s (Deepness d) s'"

inductive_cases step_cases: "step s e s'"

inductive reachable :: "nat \<Rightarrow> ('f, 'd) sched \<Rightarrow> bool" for n where
  start: "length (queue s) = n \<Longrightarrow> 0 < n \<Longrightarrow> nk_init_sched s = Some s' \<Longrightarrow> reachable n s'"
| next_step: "reachable n s \<Longrightarrow> step s e s' \<Longrightarrow> reachable n s'"

text \<open>The invariant: the array of \<open>n\<close> items is the base, the queued tasks and the free items.\<close>

definition sched_inv :: "nat \<Rightarrow> ('f, 'd) sched \<Rightarrow> bool" where
  "sched_inv n s \<longleftrightarrow> (\<exists>ts room. represents s ts room \<and> Suc (length ts + room) = n)"

lemma length_spec_insert: "length (spec_insert t ts) = Suc (length ts)"
  by (rule spec_insert_split [of ts t]) simp

lemma length_spec_remove:
  "distinct (map ts_tid ts) \<Longrightarrow> length (spec_remove tid ts) = length ts - (if spec_has tid ts then 1 else 0)"
proof (induction ts)
  case (Cons t ts)
  show ?case
  proof (cases "ts_tid t = tid")
    case True
    then have "\<not> spec_has tid ts" using Cons.prems by (auto simp: spec_has_def)
    then show ?thesis using True spec_remove_absent [of tid ts] by (simp add: spec_remove_def spec_has_def)
  next
    case False
    have "0 < length ts" if "spec_has tid ts" using that by (auto simp: spec_has_def)
    then show ?thesis using Cons False by (auto simp: spec_remove_def spec_has_def)
  qed
qed (simp add: spec_remove_def spec_has_def)

lemma spec_has_nonempty: "spec_has tid ts \<Longrightarrow> 0 < length ts"
  by (auto simp: spec_has_def)

lemma represents_distinct: "represents s ts room \<Longrightarrow> distinct (map ts_tid ts)"
  by (simp add: represents_def)

lemma represents_queue:
  "queue s' = queue s \<Longrightarrow> freelist s' = freelist s \<Longrightarrow> represents s ts room \<Longrightarrow> represents s' ts room"
proof -
  assume q: "queue s' = queue s" "freelist s' = freelist s" and r: "represents s ts room"
  have "chain s' xs = chain s xs" "free_chain s' p fs = free_chain s p fs" for xs p fs
    by (rule chain_cong free_chain_cong; simp add: q)+
  then show ?thesis using r by (simp add: represents_def holds_def tasks_def q)
qed

lemma sched_inv_submit:
  assumes "sched_inv n s"
  obtains r s' where "nk_sched tid func data delay now s = Some (r, s')" "sched_inv n s'"
proof -
  obtain ts room where r: "represents s ts room" "Suc (length ts + room) = n" using assms by (auto simp: sched_inv_def)
  show ?thesis
  proof (rule sched_refines [OF r(1), of tid func data delay now])
    fix c s'
    assume *: "nk_sched tid func data delay now s = Some (c, s')"
      "if spec_has tid ts \<or> 0 < room
       then represents s' (spec_insert (tid, func, data, now + nk_convert_delay delay) (spec_remove tid ts))
              (if spec_has tid ts then room else room - 1)
       else s' = s"
    have "sched_inv n s'"
    proof (cases "spec_has tid ts \<or> 0 < room")
      case True
      then show ?thesis using * r(2) length_spec_remove [OF represents_distinct [OF r(1)], of tid]
          spec_has_nonempty [of tid ts] unfolding sched_inv_def
        by (intro exI conjI, simp) (auto simp: length_spec_insert)
    qed (use * assms in simp)
    then show ?thesis using that * by blast
  qed
qed

lemma sched_inv_resubmit:
  assumes "sched_inv n s"
  obtains r s' where "nk_resched tid func data delay now s = Some (r, s')" "sched_inv n s'"
proof -
  obtain ts room where r: "represents s ts room" "Suc (length ts + room) = n" using assms by (auto simp: sched_inv_def)
  show ?thesis
  proof (rule resched_refines [OF r(1), of tid func data delay now])
    fix s'
    assume *: "nk_resched tid func data delay now s = Some (if spec_has tid ts then 1 else 0, s')"
      "if spec_has tid ts
       then represents s' (spec_insert (tid, func, data, now + nk_convert_delay delay) (spec_remove tid ts)) room
       else s' = s"
    have "sched_inv n s'"
    proof (cases "spec_has tid ts")
      case True
      then show ?thesis using * r(2) length_spec_remove [OF represents_distinct [OF r(1)], of tid]
          spec_has_nonempty [OF True] unfolding sched_inv_def
        by (intro exI conjI, simp) (auto simp: length_spec_insert)
    qed (use * assms in simp)
    then show ?thesis using that * by blast
  qed
qed

lemma sched_inv_cancel:
  assumes "sched_inv n s"
  obtains r s' where "nk_unsched tid s = Some (r, s')" "sched_inv n s'"
proof -
  obtain ts room where r: "represents s ts room" "Suc (length ts + room) = n" using assms by (auto simp: sched_inv_def)
  show ?thesis
  proof (rule unsched_refines [OF r(1), of tid])
    fix s'
    assume *: "nk_unsched tid s = Some (if spec_has tid ts then 1 else 0, s')"
      "represents s' (spec_remove tid ts) (if spec_has tid ts then Suc room else room)"
    have "sched_inv n s'" unfolding sched_inv_def
      by (intro exI conjI, rule *(2)) (use r(2) length_spec_remove [OF represents_distinct [OF r(1)], of tid]
          spec_has_nonempty [of tid ts] in auto)
    then show ?thesis using that * by blast
  qed
qed

lemma sched_inv_turn:
  assumes "sched_inv n s"
  obtains a s' where "nk_sched_loop_body now s = Some (a, s')" "sched_inv n s'"
proof -
  obtain ts room where r: "represents s ts room" "Suc (length ts + room) = n" using assms by (auto simp: sched_inv_def)
  show ?thesis
  proof (rule loop_refines [OF r(1), of now])
    fix s'
    assume *: "nk_sched_loop_body now s = Some (case ts of [] \<Rightarrow> Wait None
        | (tid, func, data, w) # _ \<Rightarrow> if due now w then Call func data else Wait (Some w), s')"
      "case ts of [] \<Rightarrow> s' = s
        | (tid, func, data, w) # ts' \<Rightarrow> if due now w then represents s' ts' (Suc room) \<and> current_tid s' = tid else s' = s"
    have "sched_inv n s'"
    proof (cases "s' = s")
      case False
      then obtain t ts' where "ts = t # ts'" "represents s' ts' (Suc room)"
        using *(2) by (auto split: list.splits prod.splits if_splits)
      then show ?thesis unfolding sched_inv_def using r(2) by (intro exI [of _ ts'] exI [of _ "Suc room"]) simp
    qed (use assms in simp)
    then show ?thesis using that * by blast
  qed
qed

lemma sched_inv_step: "step s e s' \<Longrightarrow> sched_inv n s \<Longrightarrow> sched_inv n s'"
proof (induction rule: step.induct)
  case (submit tid func data delay now s r s')
  then show ?case by (elim sched_inv_submit [of n s tid func data delay now]) simp
next
  case (resubmit tid func data delay now s r s')
  then show ?case by (elim sched_inv_resubmit [of n s tid func data delay now]) simp
next
  case (cancel tid s r s')
  then show ?case by (elim sched_inv_cancel [of n s tid]) simp
next
  case (turn now s a s')
  then show ?case by (elim sched_inv_turn [of n s now]) simp
next
  case (new_tid s r s')
  then have "queue s' = queue s" "freelist s' = freelist s" by (auto simp: nk_alloc_tid_def)
  then show ?case using new_tid.prems represents_queue unfolding sched_inv_def by blast
next
  case (deepness d s r s')
  then have "queue s' = queue s" "freelist s' = freelist s" by (auto simp: nk_set_sched_sleep_mode_def)
  then show ?case using deepness.prems represents_queue unfolding sched_inv_def by blast
qed

lemma reachable_inv: "reachable n s \<Longrightarrow> sched_inv n s"
proof (induction rule: reachable.induct)
  case (start s s')
  then have "0 < length (queue s)" by simp
  then obtain s'' where "nk_init_sched s = Some s''" "represents s'' [] (n - 1)"
    by (rule init_represents) (use start.hyps in blast)
  then show ?case unfolding sched_inv_def using start.hyps by (intro exI [of _ "[]"] exI [of _ "n - 1"]) simp
qed (rule sched_inv_step)

lemma sched_progress: "sched_inv n s \<Longrightarrow> \<exists>s'. step s e s'"
proof (cases e)
  case (Submit tid func data delay now)
  assume "sched_inv n s"
  then show ?thesis unfolding Submit by (rule sched_inv_submit) (blast intro: step.intros)
next
  case (Resubmit tid func data delay now)
  assume "sched_inv n s"
  then show ?thesis unfolding Resubmit by (rule sched_inv_resubmit) (blast intro: step.intros)
next
  case (Cancel tid)
  assume "sched_inv n s"
  then show ?thesis unfolding Cancel by (rule sched_inv_cancel) (blast intro: step.intros)
next
  case (Turn now)
  assume "sched_inv n s"
  then show ?thesis unfolding Turn by (rule sched_inv_turn) (blast intro: step.intros)
next
  case NewTid
  then show ?thesis using step.new_tid [OF nk_alloc_tid_def] by blast
next
  case (Deepness d)
  then show ?thesis using step.deepness [OF nk_set_sched_sleep_mode_def] by blast
qed

section \<open>Properties\<close>

text \<open>A scheduler with a base and three items, for the witnesses.\<close>

definition sample_item :: "(nat, nat) item" where
  "sample_item = \<lparr>it_next = None, it_prev = None, it_tid = 0, it_func = 0, it_data = 0, it_when = 0\<rparr>"

definition sample_sched :: "(nat, nat) sched" where
  "sample_sched = \<lparr>queue = replicate 4 sample_item, freelist = None, current_tid = 0, next_tid = 0, deepness = 0\<rparr>"

definition idle_sched :: "(nat, nat) sched" where
  "idle_sched = the (nk_init_sched sample_sched)"

lemma idle_sched_init: "nk_init_sched sample_sched = Some idle_sched"
  by (rule init_represents [of sample_sched]) (simp_all add: sample_sched_def idle_sched_def)

lemma idle_sched_represents: "represents idle_sched [] 3"
  using idle_sched_init by (rule_tac init_represents [of sample_sched]) (simp_all add: sample_sched_def)

text \<open>C38. In every state the queue can get into, by any sequence of submissions, cancellations and turns of
  the main loop after its initialisation, its array of n items is exactly the base, the items of a well-linked queue of tasks
  with different identifiers, and the items of the free list: no item is lost or in two lists; and
  every operation returns (its search loops end, it follows no null or dangling pointer).\<close>
theorem sched_reachable_sound:
  assumes "reachable n s"
  shows "(\<exists>ts room. represents s ts room \<and> Suc (length ts + room) = n) \<and> (\<forall>e. \<exists>s'. step s e s')"
  using reachable_inv [OF assms] sched_progress [OF reachable_inv [OF assms]] unfolding sched_inv_def by blast

theorem sched_reachable_sound_witness:
  "(\<exists>ts room. represents idle_sched ts room \<and> Suc (length ts + room) = 4) \<and> (\<forall>e. \<exists>s'. step idle_sched e s')"
proof -
  have "reachable 4 idle_sched"
    by (rule reachable.start [OF _ _ idle_sched_init]) (simp_all add: sample_sched_def)
  then show ?thesis by (rule sched_reachable_sound)
qed

text \<open>Submitting a task removes the queued task with the same identifier, if there is one, and inserts
  the new one after every task that is not later; it returns 0 when it replaced a task and 1 otherwise.\<close>
theorem nk_sched_submits:
  assumes "represents s ts room" "spec_has tid ts \<or> 0 < room"
  shows "\<exists>s'. nk_sched tid func data delay now s = Some (if spec_has tid ts then 0 else 1, s')
    \<and> represents s' (spec_insert (tid, func, data, now + nk_convert_delay delay) (spec_remove tid ts))
        (if spec_has tid ts then room else room - 1)
    \<and> nk_check tid s' = Some 1"
proof (rule sched_refines [OF assms(1), of tid func data delay now])
  fix r s'
  let ?ts = "spec_insert (tid, func, data, now + nk_convert_delay delay) (spec_remove tid ts)"
  assume *: "nk_sched tid func data delay now s = Some (r, s')"
    "if spec_has tid ts \<or> 0 < room then represents s' ?ts (if spec_has tid ts then room else room - 1) else s' = s"
    "r = (if spec_has tid ts then 0 else 1)"
  then have r: "represents s' ?ts (if spec_has tid ts then room else room - 1)" using assms(2) by simp
  have "spec_has tid ?ts"
    by (rule spec_insert_split [of "spec_remove tid ts" "(tid, func, data, now + nk_convert_delay delay)"])
      (simp add: spec_has_def)
  then show ?thesis using * r check_refines [OF r, of tid] by auto
qed

theorem nk_sched_submits_witness:
  "\<exists>s'. nk_sched 7 10 20 5 0 idle_sched = Some (1, s') \<and> represents s' [(7, 10, 20, 5000)] 2 \<and> nk_check 7 s' = Some 1"
  using nk_sched_submits [OF idle_sched_represents, of 7 10 20 5 0]
  by (simp add: spec_has_def spec_remove_def spec_insert_def nk_convert_delay_def)

text \<open>Cancelling a task takes exactly the tasks with that identifier off the queue; rescheduling changes the function,
  the argument and the time of a queued task and does nothing when there is none. Both return 1 when
  the task was there and 0 otherwise, and so does the test.\<close>
theorem nk_unsched_resched_check:
  assumes "represents s ts room"
  shows "\<exists>s' s''. nk_unsched tid s = Some (if spec_has tid ts then 1 else 0, s')
    \<and> represents s' (spec_remove tid ts) (if spec_has tid ts then Suc room else room)
    \<and> nk_check tid s' = Some 0
    \<and> nk_resched tid func data delay now s = Some (if spec_has tid ts then 1 else 0, s'')
    \<and> represents s'' (if spec_has tid ts
         then spec_insert (tid, func, data, now + nk_convert_delay delay) (spec_remove tid ts) else ts) room
    \<and> nk_check tid s = Some (if spec_has tid ts then 1 else 0)"
proof -
  obtain s' where s': "nk_unsched tid s = Some (if spec_has tid ts then 1 else 0, s')"
    "represents s' (spec_remove tid ts) (if spec_has tid ts then Suc room else room)" by (rule unsched_refines [OF assms])
  obtain s'' where s'': "nk_resched tid func data delay now s = Some (if spec_has tid ts then 1 else 0, s'')"
    "if spec_has tid ts then represents s'' (spec_insert (tid, func, data, now + nk_convert_delay delay) (spec_remove tid ts)) room
     else s'' = s" by (rule resched_refines [OF assms])
  show ?thesis using s' s'' assms check_refines [OF s'(2), of tid] check_refines [OF assms, of tid] not_has_remove
    by auto
qed

theorem nk_unsched_resched_check_witness:
  "\<exists>s' s''. nk_unsched 7 idle_sched = Some (0, s') \<and> represents s' [] 3 \<and> nk_check 7 s' = Some 0
    \<and> nk_resched 7 10 20 5 0 idle_sched = Some (0, s'') \<and> represents s'' [] 3 \<and> nk_check 7 idle_sched = Some 0"
  using nk_unsched_resched_check [OF idle_sched_represents, of 7 10 20 5 0]
  by (simp add: spec_has_def spec_remove_def)



text \<open>The main loop never runs a task early: for a delay of up to 2147483 ms, and at any time
  less than half the range of the clock after the submission, the task is due exactly when at least the delay, in
  ticks, has passed.\<close>
theorem delay_is_minimum:
  assumes "unat delay \<le> 2147483" "unat elapsed < 2 ^ 31"
  shows "due (now + elapsed) (now + nk_convert_delay delay) \<longleftrightarrow> unat delay * 1000 \<le> unat elapsed"
proof -
  have c: "unat (nk_convert_delay delay) = unat delay * 1000"
    using assms(1) by (simp add: nk_convert_delay_def unat_word_ariths)
  show ?thesis using due_iff [of "now + elapsed" now "now + nk_convert_delay delay"] assms c by simp
qed

theorem delay_is_minimum_witness:
  "\<not> due (4294967290 + 4999) (4294967290 + nk_convert_delay 5) \<and> due (4294967290 + 5000) (4294967290 + nk_convert_delay 5)"
  using delay_is_minimum [of 5 4999 4294967290] delay_is_minimum [of 5 5000 4294967290] by simp

text \<open>A delay from 2147484 ms to 4294967 ms is more than half the range of the clock, and the task
  is due at once, not after the delay.\<close>
theorem long_delay_runs_at_once:
  assumes "represents s [] room" "0 < room" "2147484 \<le> delay" "delay \<le> 4294967"
  shows "\<exists>s' s''. nk_sched tid func data delay now s = Some (1, s') \<and> nk_sched_loop_body now s' = Some (Call func data, s'')"
proof -
  have u: "2147484 \<le> unat delay" "unat delay \<le> 4294967" using assms(3,4) by (simp_all add: word_le_nat_alt)
  then have c: "unat (nk_convert_delay delay) = unat delay * 1000"
    by (simp add: nk_convert_delay_def unat_word_ariths)
  have "unat (- nk_convert_delay delay) = 2 ^ 32 - unat delay * 1000"
    using u c unat_sub_if' [of 0 "nk_convert_delay delay"] by simp
  then have "due now (now + nk_convert_delay delay)"
    using due_iff [of now "now + nk_convert_delay delay" "now + nk_convert_delay delay"] u by simp
  obtain s' where s': "nk_sched tid func data delay now s = Some (1, s')"
    "represents s' [(tid, func, data, now + nk_convert_delay delay)] (room - 1)"
    by (rule sched_refines [OF assms(1), of tid func data delay now])
      (use assms(2) in \<open>auto simp: spec_has_def spec_insert_def spec_remove_def\<close>)
  show ?thesis using s'(1) \<open>due _ _\<close> by (rule_tac loop_refines [OF s'(2), of now]) auto
qed

theorem long_delay_runs_at_once_witness:
  "\<exists>s' s''. nk_sched 7 10 20 3000000 0 idle_sched = Some (1, s') \<and> nk_sched_loop_body 0 s' = Some (Call 10 20, s'')"
  by (rule long_delay_runs_at_once [OF idle_sched_represents]) simp_all

text \<open>When all items are in use, a submission of a new task changes nothing and returns 1, as if the task had been queued.\<close>
theorem nk_sched_full:
  assumes "represents s ts 0" "\<not> spec_has tid ts"
  shows "nk_sched tid func data delay now s = Some (1, s) \<and> nk_check tid s = Some 0"
  by (rule sched_refines [OF assms(1), of tid func data delay now]) (use assms check_refines [OF assms(1)] in auto)

theorem nk_sched_full_witness:
  "\<exists>s :: (nat, nat) sched. nk_sched 7 10 20 5 0 s = Some (1, s) \<and> nk_check 7 s = Some 0"
proof -
  let ?s = "\<lparr>queue = [sample_item], freelist = None, current_tid = 0, next_tid = 0, deepness = 0\<rparr>"
  obtain s' where "represents s' ([] :: (nat, nat) tasks) 0" by (rule init_represents [of ?s]) simp_all
  then show ?thesis using nk_sched_full [of s' "[]" 7 10 20 5 0] by (auto simp: spec_has_def)
qed

end
