(* ===== verification/Printf.thy ===== *)
theory Printf
  imports Outfile
begin

text \<open>
  Formatted output, \<^verbatim>\<open>libnklabs/src/nkprintf.c\<close>, as this repository configures it (\<^verbatim>\<open>config/nkprintf_config.h\<close>: no
  floating point, no strings in AVR flash). A format is a \<open>string\<close>, whose end is the terminating NUL; the
  variable arguments are a list of values tagged with the C type they were passed with, and taking an argument
  with another type, or past the last one, has no value. The local array \<open>buf\<close> of 24 characters is a list that must not grow beyond
  that length. The first part is the code; the second a formatter that says what text a format
  stands for, and the proof that the code puts exactly that text into its file.
\<close>

section \<open>Characters and arguments\<close>

abbreviation ch :: "char \<Rightarrow> int" where
  "ch c \<equiv> of_char c"

datatype va =
    VInt u32
  | VLong u32
  | VLongLong u64
  | VSize u32
  | VPtrdiff u32
  | VPtr u32
  | VStr bytes

fun va_int :: "va list \<Rightarrow> (u32 \<times> va list) option" where
  "va_int (VInt v # ap) = Some (v, ap)"
| "va_int _ = None"

fun va_str :: "va list \<Rightarrow> (bytes \<times> va list) option" where
  "va_str (VStr s # ap) = Some (s, ap)"
| "va_str _ = None"

text \<open>The arguments of the number conversions, converted to \<open>unsigned long long\<close>.\<close>

fun va_signed :: "int \<Rightarrow> va list \<Rightarrow> (u64 \<times> va list) option" where
  "va_signed sz (VLong v # ap) = (if sz = 1 then Some (scast v, ap) else None)"
| "va_signed sz (VLongLong v # ap) = (if sz = 2 then Some (v, ap) else None)"
| "va_signed sz (VSize v # ap) = (if sz = 3 then Some (ucast v, ap) else None)"
| "va_signed sz (VPtrdiff v # ap) = (if sz = 4 then Some (scast v, ap) else None)"
| "va_signed sz (VInt v # ap) = (if sz \<notin> {1, 2, 3, 4} then Some (scast v, ap) else None)"
| "va_signed sz _ = None"

fun va_unsigned :: "bool \<Rightarrow> int \<Rightarrow> va list \<Rightarrow> (u64 \<times> va list) option" where
  "va_unsigned ptr sz (VPtr v # ap) = (if ptr then Some (ucast v, ap) else None)"
| "va_unsigned ptr sz (VLong v # ap) = (if \<not> ptr \<and> sz = 1 then Some (ucast v, ap) else None)"
| "va_unsigned ptr sz (VLongLong v # ap) = (if \<not> ptr \<and> sz = 2 then Some (v, ap) else None)"
| "va_unsigned ptr sz (VSize v # ap) = (if \<not> ptr \<and> sz = 3 then Some (ucast v, ap) else None)"
| "va_unsigned ptr sz (VPtrdiff v # ap) = (if \<not> ptr \<and> sz = 4 then Some (scast v, ap) else None)"
| "va_unsigned ptr sz (VInt v # ap) = (if \<not> ptr \<and> sz \<notin> {1, 2, 3, 4} then Some (ucast v, ap) else None)"
| "va_unsigned ptr sz _ = None"

section \<open>The directive\<close>

text \<open>The local variables a directive sets before its specifier is read.\<close>

record directive =
  d_minus :: bool
  d_plus :: bool
  d_space :: bool
  d_pound :: bool
  d_pad :: char
  d_width :: u32
  d_prec :: u32
  d_size :: int

definition no_directive :: directive where
  "no_directive = \<lparr>d_minus = False, d_plus = False, d_space = False, d_pound = False, d_pad = CHR '' '',
     d_width = 0, d_prec = 0, d_size = 0\<rparr>"

fun parse_flags :: "directive \<Rightarrow> string \<Rightarrow> directive \<times> string" where
  "parse_flags d [] = (d, [])"
| "parse_flags d (c # fmt) =
     (if c = CHR ''-'' then parse_flags (d\<lparr>d_minus := True\<rparr>) fmt
      else if c = CHR ''+'' then parse_flags (d\<lparr>d_plus := True\<rparr>) fmt
      else if c = CHR '' '' then parse_flags (d\<lparr>d_space := True\<rparr>) fmt
      else if c = CHR ''#'' then parse_flags (d\<lparr>d_pound := True\<rparr>) fmt
      else if c = CHR ''0'' then parse_flags (d\<lparr>d_pad := CHR ''0''\<rparr>) fmt
      else if c = CHR ''_'' \<or> c = CHR '','' then parse_flags d fmt
      else (d, c # fmt))"

fun parse_digits :: "u32 \<Rightarrow> string \<Rightarrow> u32 \<times> string" where
  "parse_digits n [] = (n, [])"
| "parse_digits n (c # fmt) =
     (if ch (CHR ''0'') \<le> ch c \<and> ch c \<le> ch (CHR ''9'')
      then parse_digits (n * 10 + of_char c - of_char (CHR ''0'')) fmt else (n, c # fmt))"

text \<open>A width or a precision: a number, or \<open>*\<close> for the next argument.\<close>

definition parse_number :: "string \<Rightarrow> va list \<Rightarrow> (u32 \<times> string \<times> va list) option" where
  "parse_number fmt ap =
     (case fmt of
        c # fmt' \<Rightarrow>
          if c = CHR ''*'' then do { (v, ap) \<leftarrow> va_int ap; Some (v, fmt', ap) }
          else (let (n, fmt') = parse_digits 0 fmt in Some (n, fmt', ap))
      | [] \<Rightarrow> Some (0, [], ap))"

fun parse_size :: "directive \<Rightarrow> string \<Rightarrow> directive \<times> string" where
  "parse_size d [] = (d, [])"
| "parse_size d (c # fmt) =
     (if c = CHR ''z'' then parse_size (d\<lparr>d_size := 3\<rparr>) fmt
      else if c = CHR ''t'' then parse_size (d\<lparr>d_size := 4\<rparr>) fmt
      else if c = CHR ''l'' then parse_size (d\<lparr>d_size := d_size d + 1\<rparr>) fmt
      else if c = CHR ''h'' then parse_size (d\<lparr>d_size := d_size d - 1\<rparr>) fmt
      else if c = CHR ''L'' then parse_size d fmt
      else (d, c # fmt))"

definition parse_directive :: "string \<Rightarrow> va list \<Rightarrow> (directive \<times> string \<times> va list) option" where
  "parse_directive fmt ap = do {
     let (d, fmt) = parse_flags no_directive fmt;
     (width, fmt, ap) \<leftarrow> parse_number fmt ap;
     let d = d\<lparr>d_width := width\<rparr>;
     (prec, fmt, ap) \<leftarrow> (case fmt of
         c # fmt' \<Rightarrow> if c = CHR ''.'' then parse_number fmt' ap else Some (0, fmt, ap)
       | [] \<Rightarrow> Some (0, fmt, ap));
     let d = d\<lparr>d_prec := prec\<rparr>;
     let (d, fmt) = parse_size d fmt;
     Some (d, fmt, ap)
   }"

section \<open>Emitting\<close>

text \<open>The status collected so far and the file.\<close>

type_synonym 's out = "int \<times> 's nkoutfile"

definition put :: "int \<Rightarrow> 's out \<Rightarrow> 's out option" where
  "put c out = do { (rtn, f) \<leftarrow> nk_fputc (snd out) c; Some (fst out OR rtn, f) }"

lemma unat_pred_above: "m < (n :: u32) \<Longrightarrow> unat (n - 1) = unat n - 1 \<and> 0 < unat n"
  using unat_sub_no_wrap [of 1 n] by (auto simp: word_less_nat_alt)

text \<open>\<open>while (n > m) { put c; --n; }\<close>\<close>

function put_down :: "int \<Rightarrow> u32 \<Rightarrow> u32 \<Rightarrow> 's out \<Rightarrow> 's out option" where
  "put_down c m n out =
     (if n > m then do { out \<leftarrow> put c out; put_down c m (n - 1) out } else Some out)"
  by auto
termination
  by (relation "measure (\<lambda>(c, m, n, out). unat n)") (simp_all add: unat_pred_above)

text \<open>\<open>while (n > m) { put c; if (width) --width; --n; }\<close>\<close>

function put_down_width :: "int \<Rightarrow> u32 \<Rightarrow> u32 \<Rightarrow> u32 \<Rightarrow> 's out \<Rightarrow> (u32 \<times> 's out) option" where
  "put_down_width c m n width out =
     (if n > m then do {
        out \<leftarrow> put c out;
        put_down_width c m (n - 1) (if width \<noteq> 0 then width - 1 else width) out
      }
      else Some (width, out))"
  by auto
termination
  by (relation "measure (\<lambda>(c, m, n, width, out). unat n)") (simp_all add: unat_pred_above)

text \<open>\<open>while (n--) { put *s++; ... }\<close>, with and without counting down the width.\<close>

fun put_string :: "u32 \<Rightarrow> bytes \<Rightarrow> 's out \<Rightarrow> (bytes \<times> 's out) option" where
  "put_string n [] out = (if n = 0 then Some ([], out) else None)"
| "put_string n (c # s) out =
     (if n = 0 then Some (c # s, out) else do { out \<leftarrow> put (uint c) out; put_string (n - 1) s out })"

fun put_string_width :: "u32 \<Rightarrow> bytes \<Rightarrow> u32 \<Rightarrow> 's out \<Rightarrow> (bytes \<times> u32 \<times> 's out) option" where
  "put_string_width n [] width out = (if n = 0 then Some ([], width, out) else None)"
| "put_string_width n (c # s) width out =
     (if n = 0 then Some (c # s, width, out)
      else do {
        out \<leftarrow> put (uint c) out;
        put_string_width (n - 1) s (if width \<noteq> 0 then width - 1 else width) out
      })"

text \<open>The label \<open>emits\<close>: the string \<open>s\<close> of length \<open>len\<close>, which starts with \<open>prefix\<close> prefix characters.\<close>

definition emits :: "directive \<Rightarrow> u32 \<Rightarrow> u32 \<Rightarrow> bytes \<Rightarrow> 's out \<Rightarrow> 's out option" where
  "emits d prefix len s out =
     (let width = d_width d; prec = d_prec d in
      if d_minus d then do {
        (s, width, out) \<leftarrow> put_string_width prefix s width out;
        let len = len - prefix;
        (width, out) \<leftarrow> put_down_width (ch (CHR ''0'')) len prec width out;
        (s, width, out) \<leftarrow> put_string_width len s width out;
        put_down (ch (CHR '' '')) 0 width out
      }
      else (let full_len = (if prec > len - prefix then prec + prefix else len) in do {
        (s, out) \<leftarrow> (if d_pad d = CHR '' '' then do {
            out \<leftarrow> put_down (ch (d_pad d)) full_len width out;
            put_string prefix s out
          }
          else do {
            (s, width, out) \<leftarrow> put_string_width prefix s width out;
            out \<leftarrow> put_down (ch (d_pad d)) (full_len - prefix) width out;
            Some (s, out)
          });
        let len = len - prefix;
        out \<leftarrow> put_down (ch (CHR ''0'')) len prec out;
        (s, out) \<leftarrow> put_string len s out;
        Some out
      }))"

text \<open>\<open>buf[len++] = c\<close> in the array of 24 characters.\<close>

definition push :: "u8 \<Rightarrow> bytes \<Rightarrow> bytes option" where
  "push c buf = (if length buf < 24 then Some (buf @ [c]) else None)"

text \<open>The label \<open>rev\<close>: the number in \<open>buf\<close>, last digit first.\<close>

definition emit_rev :: "directive \<Rightarrow> bool \<Rightarrow> bool \<Rightarrow> bytes \<Rightarrow> 's out \<Rightarrow> 's out option" where
  "emit_rev d hex neg buf out = do {
     (buf, prefix) \<leftarrow> (if length buf = 0 then do { buf \<leftarrow> push (of_char (CHR ''0'')) buf; Some (buf, 0) }
       else if d_pound d \<and> hex then do {
         buf \<leftarrow> push (of_char (CHR ''x'')) buf;
         buf \<leftarrow> push (of_char (CHR ''0'')) buf;
         Some (buf, 2)
       }
       else Some (buf, 0));
     (buf, prefix) \<leftarrow> (if neg then do { buf \<leftarrow> push (of_char (CHR ''-'')) buf; Some (buf, prefix + 1) }
       else if d_plus d then do { buf \<leftarrow> push (of_char (CHR ''+'')) buf; Some (buf, prefix + 1) }
       else if d_space d then do { buf \<leftarrow> push (of_char (CHR '' '')) buf; Some (buf, prefix + 1) }
       else Some (buf, prefix));
     emits d prefix (word_of_nat (length buf)) (rev buf) out
   }"

function dec_loop :: "u64 \<Rightarrow> bytes \<Rightarrow> bytes option" where
  "dec_loop val buf =
     (if val \<noteq> 0 then do { buf \<leftarrow> push (of_char (CHR ''0'') + ucast (val mod 10)) buf; dec_loop (val div 10) buf }
      else Some buf)"
  by auto
termination
  by (relation "measure (\<lambda>(val, buf). unat val)") (auto simp: unat_div unat_gt_0)

definition hex_digit :: "bool \<Rightarrow> u64 \<Rightarrow> u8" where
  "hex_digit upr v =
     (if v < 10 then of_char (CHR ''0'') + ucast v
      else if upr then of_char (CHR ''A'') + ucast v - 10
      else of_char (CHR ''a'') + ucast v - 10)"

function hex_loop :: "bool \<Rightarrow> u64 \<Rightarrow> bytes \<Rightarrow> bytes option" where
  "hex_loop upr val buf =
     (if val \<noteq> 0 then do { buf \<leftarrow> push (hex_digit upr (val AND 0xF)) buf; hex_loop upr (drop_bit 4 val) buf }
      else Some buf)"
  by auto
termination
  by (relation "measure (\<lambda>(upr, val, buf). unat val)") (auto simp: unat_div unat_gt_0 drop_bit_eq_div)

section \<open>The conversions\<close>

definition conversion :: "directive \<Rightarrow> char \<Rightarrow> va list \<Rightarrow> 's out \<Rightarrow> (va list \<times> 's out) option" where
  "conversion d c ap out =
     (if c = CHR ''c'' then do {
        (v, ap) \<leftarrow> va_int ap;
        out \<leftarrow> emits d 0 1 [ucast v] out;
        Some (ap, out)
      }
      else if c \<in> {CHR ''i'', CHR ''d''} then do {
        (val, ap) \<leftarrow> va_signed (d_size d) ap;
        let (neg, val) = (if sint val < 0 then (True, - val) else (False, val));
        buf \<leftarrow> dec_loop val [];
        out \<leftarrow> emit_rev d False neg buf out;
        Some (ap, out)
      }
      else if c \<in> {CHR ''u'', CHR ''x'', CHR ''X'', CHR ''p''} then do {
        (val, ap) \<leftarrow> va_unsigned (c = CHR ''p'') (d_size d) ap;
        let hex = (c \<noteq> CHR ''u'');
        let upr = (c = CHR ''X'');
        buf \<leftarrow> (if hex then hex_loop upr val [] else dec_loop val []);
        out \<leftarrow> emit_rev d hex False buf out;
        Some (ap, out)
      }
      else if c = CHR ''s'' then do {
        (s, ap) \<leftarrow> va_str ap;
        out \<leftarrow> emits d 0 (word_of_nat (length s)) s out;
        Some (ap, out)
      }
      else if c = CHR ''_'' then do { out \<leftarrow> emits d 0 0 [] out; Some (ap, out) }
      else do { out \<leftarrow> put (ch c) out; Some (ap, out) })"

text \<open>The specifier is the rest of the format after the directive; at its end nothing is printed.\<close>

lemma parse_flags_length: "length (snd (parse_flags d fmt)) \<le> length fmt"
  by (induction d fmt rule: parse_flags.induct) (simp_all add: le_SucI)

lemma parse_digits_length: "length (snd (parse_digits n fmt)) \<le> length fmt"
  by (induction n fmt rule: parse_digits.induct) (simp_all add: le_SucI)

lemma parse_size_length: "length (snd (parse_size d fmt)) \<le> length fmt"
  by (induction d fmt rule: parse_size.induct) (simp_all add: le_SucI)

lemma parse_number_length: "parse_number fmt ap = Some (n, fmt', ap') \<Longrightarrow> length fmt' \<le> length fmt"
  using parse_digits_length [of 0 fmt]
  by (auto simp: parse_number_def split: list.splits if_splits prod.splits bind_splits)

lemma parse_directive_length:
  assumes "parse_directive fmt ap = Some (d, fmt', ap')"
  shows "length fmt' \<le> length fmt"
proof -
  obtain d1 fmt1 where 1: "parse_flags no_directive fmt = (d1, fmt1)" by fastforce
  obtain w fmt2 ap2 where 2: "parse_number fmt1 ap = Some (w, fmt2, ap2)"
    using assms by (auto simp: parse_directive_def 1 Option.bind_eq_Some_conv)
  obtain p fmt3 ap3 where 3: "(case fmt2 of
         c # fmt' \<Rightarrow> if c = CHR ''.'' then parse_number fmt' ap2 else Some (0, fmt2, ap2)
       | [] \<Rightarrow> Some (0, fmt2, ap2)) = Some (p, fmt3, ap3)"
    using assms by (auto simp: parse_directive_def 1 2 Option.bind_eq_Some_conv)
  have "fmt' = snd (parse_size (d1\<lparr>d_width := w, d_prec := p\<rparr>) fmt3)"
    using assms by (auto simp: parse_directive_def 1 2 3 split: prod.splits)
  then have "length fmt' \<le> length fmt3" using parse_size_length by simp
  also have "\<dots> \<le> length fmt2"
    using 3 parse_number_length by (auto split: list.splits if_splits intro: le_SucI)
  also have "\<dots> \<le> length fmt1" using 2 by (rule parse_number_length)
  also have "\<dots> \<le> length fmt" using parse_flags_length [of no_directive fmt] 1 by simp
  finally show ?thesis .
qed

function nk_vprintf_loop :: "string \<Rightarrow> va list \<Rightarrow> 's out \<Rightarrow> 's out option" where
  "nk_vprintf_loop [] ap out = Some out"
| "nk_vprintf_loop (c # fmt) ap out =
     (if c \<noteq> CHR ''%'' then do { out \<leftarrow> put (ch c) out; nk_vprintf_loop fmt ap out }
      else case parse_directive fmt ap of
        None \<Rightarrow> None
      | Some (d, [], ap) \<Rightarrow> Some out
      | Some (d, c # fmt, ap) \<Rightarrow> do { (ap, out) \<leftarrow> conversion d c ap out; nk_vprintf_loop fmt ap out })"
  by pat_completeness auto
termination
proof (relation "measure (\<lambda>(fmt, ap, out). length fmt)", goal_cases)
  case (3 c fmt ap out x d y ap' c' fmt')
  then show ?case using parse_directive_length by fastforce
qed auto

definition nk_vprintf :: "'s nkoutfile \<Rightarrow> string \<Rightarrow> va list \<Rightarrow> (int \<times> 's nkoutfile) option" where
  "nk_vprintf f fmt ap = nk_vprintf_loop fmt ap (0, f)"

definition nk_fprintf :: "'s nkoutfile \<Rightarrow> string \<Rightarrow> va list \<Rightarrow> (int \<times> 's nkoutfile) option" where
  "nk_fprintf f fmt ap = nk_vprintf f fmt ap"

section \<open>Printing to strings, to the console, and dumps\<close>

text \<open>\<open>status |= nk_fprintf(f, ...)\<close>\<close>

definition also_print :: "string \<Rightarrow> va list \<Rightarrow> 's out \<Rightarrow> 's out option" where
  "also_print fmt ap out = do { (rtn, f) \<leftarrow> nk_fprintf (snd out) fmt ap; Some (fst out OR rtn, f) }"

text \<open>A negative count never ends.\<close>

partial_function (option) findent_loop :: "int \<Rightarrow> 's out \<Rightarrow> 's out option" where
  "findent_loop ind out =
     (if ind \<noteq> 0 then do { out \<leftarrow> put (ch (CHR '' '')) out; findent_loop (ind - 1) out } else Some out)"

definition nk_findent :: "'s nkoutfile \<Rightarrow> int \<Rightarrow> (int \<times> 's nkoutfile) option" where
  "nk_findent f ind = findent_loop ind (0, f)"

definition nk_snprintf :: "bytes \<Rightarrow> u32 \<Rightarrow> string \<Rightarrow> va list \<Rightarrow> (int \<times> bytes) option" where
  "nk_snprintf dest len fmt ap = do {
     let f = nkoutfile_open_mem () dest (len - 1);
     (status, f) \<leftarrow> nk_vprintf f fmt ap;
     dest \<leftarrow> store_at (o_buffer f) (unat (o_ptr f)) [0];
     Some (status, dest)
   }"

text \<open>\<open>while (f.ptr != f.end) *f.ptr++ = ' '\<close>\<close>

partial_function (option) space_fill :: "u32 \<Rightarrow> u32 \<Rightarrow> bytes \<Rightarrow> bytes option" where
  "space_fill ptr end buf =
     (if ptr \<noteq> end then do { buf \<leftarrow> store_at buf (unat ptr) [of_char (CHR '' '')]; space_fill (ptr + 1) end buf }
      else Some buf)"

definition nk_sfprintf :: "bytes \<Rightarrow> u32 \<Rightarrow> string \<Rightarrow> va list \<Rightarrow> (int \<times> bytes) option" where
  "nk_sfprintf dest len fmt ap = do {
     let f = nkoutfile_open_mem () dest len;
     (status, f) \<leftarrow> nk_vprintf f fmt ap;
     dest \<leftarrow> space_fill (o_ptr f) (o_end f) (o_buffer f);
     Some (status, dest)
   }"

text \<open>The console is an unbuffered file whose callback puts each character with \<open>nk_putc\<close>, a parameter.\<close>

definition outc :: "(u8 \<Rightarrow> 's \<Rightarrow> 's) \<Rightarrow> 's \<Rightarrow> bytes \<Rightarrow> (int \<times> 's) option" where
  "outc nk_putc s buf = Some (0, fold nk_putc buf s)"

definition nkstdout :: "(u8 \<Rightarrow> 's \<Rightarrow> 's) \<Rightarrow> 's \<Rightarrow> 's nkoutfile" where
  "nkstdout nk_putc s = \<lparr>o_ptr = 0, o_buffer = [], o_end = 0, o_size = 0, o_block_write_ptr = s,
     o_block_write = Some (outc nk_putc), o_granularity = 1\<rparr>"

definition nk_printf :: "(u8 \<Rightarrow> 's \<Rightarrow> 's) \<Rightarrow> 's \<Rightarrow> string \<Rightarrow> va list \<Rightarrow> 's option" where
  "nk_printf nk_putc s fmt ap = do {
     (status, f) \<leftarrow> nk_vprintf (nkstdout nk_putc s) fmt ap;
     Some (o_block_write_ptr f)
   }"

text \<open>The two halves of a line of the hex dump, over the columns that are left.\<close>

fun dump_hex :: "bytes \<Rightarrow> u32 \<Rightarrow> nat list \<Rightarrow> u32 \<Rightarrow> u32 \<Rightarrow> 's out \<Rightarrow> 's out option" where
  "dump_hex buf addr [] st cn out = Some out"
| "dump_hex buf addr (x # xs) st cn out = do {
     out \<leftarrow> (if x = 8 then also_print '' '' [] out else Some out);
     if st \<noteq> 0 \<or> cn = 0 then do {
       out \<leftarrow> also_print ''   '' [] out;
       dump_hex buf addr xs (if st \<noteq> 0 then st - 1 else st) cn out
     }
     else do {
       c \<leftarrow> deref buf (unat (addr + word_of_nat x));
       out \<leftarrow> also_print '' %2.2x'' [VInt (ucast c)] out;
       dump_hex buf addr xs st (cn - 1) out
     }
   }"

fun dump_text :: "bytes \<Rightarrow> u32 \<Rightarrow> nat list \<Rightarrow> u32 \<Rightarrow> u32 \<Rightarrow> 's out \<Rightarrow> (u32 \<times> u32 \<times> 's out) option" where
  "dump_text buf addr [] start count out = Some (start, count, out)"
| "dump_text buf addr (x # xs) start count out = do {
     c \<leftarrow> deref buf (unat (addr + word_of_nat x));
     let c = (if unat c < 32 then of_char (CHR ''.'') else if 127 \<le> unat c then of_char (CHR ''.'') else c);
     if start \<noteq> 0 \<or> count = 0 then do {
       out \<leftarrow> also_print '' '' [] out;
       dump_text buf addr xs (if start \<noteq> 0 then start - 1 else start) count out
     }
     else do {
       out \<leftarrow> also_print ''%c'' [VInt (ucast c)] out;
       dump_text buf addr xs start (count - 1) out
     }
   }"

partial_function (option) dump_lines ::
  "bytes \<Rightarrow> u32 \<Rightarrow> u32 \<Rightarrow> u32 \<Rightarrow> u32 \<Rightarrow> u32 \<Rightarrow> 's out \<Rightarrow> 's out option" where
  "dump_lines buf base offset y start count out =
     (if count \<noteq> 0 then do {
        out \<leftarrow> also_print ''%4.4lx:'' [VLong (base + offset + y)] out;
        out \<leftarrow> dump_hex buf (offset + y) [0..<16] start count out;
        out \<leftarrow> also_print ''  '' [] out;
        (start, count, out) \<leftarrow> dump_text buf (offset + y) [0..<16] start count out;
        out \<leftarrow> also_print [CHR 0x0A] [] out;
        dump_lines buf base offset (y + 16) start count out
      }
      else Some out)"

definition nk_fbyte_hex_dump ::
  "'s nkoutfile \<Rightarrow> bytes \<Rightarrow> u32 \<Rightarrow> u32 \<Rightarrow> u32 \<Rightarrow> (int \<times> 's nkoutfile) option" where
  "nk_fbyte_hex_dump f buf base offset count =
     dump_lines buf base (offset AND NOT 15) 0 (offset AND 15) count (0, f)"

section \<open>What a format stands for\<close>

text \<open>The digits of a number, most significant first.\<close>

function num_digits :: "nat \<Rightarrow> nat \<Rightarrow> nat list" where
  "num_digits b n = (if n = 0 \<or> b < 2 then [] else num_digits b (n div b) @ [n mod b])"
  by auto
termination
  by (relation "measure snd") auto

declare num_digits.simps [simp del]

definition digit_char :: "bool \<Rightarrow> nat \<Rightarrow> u8" where
  "digit_char upr n = (if n < 10 then word_of_nat (48 + n) else if upr then word_of_nat (55 + n) else word_of_nat (87 + n))"

definition number_text :: "nat \<Rightarrow> bool \<Rightarrow> nat \<Rightarrow> bytes" where
  "number_text b upr n = (if n = 0 then [48] else map (digit_char upr) (num_digits b n))"

text \<open>A field: prefix and body, the body extended by zeros to the precision, the whole by padding to the width.\<close>

definition field :: "directive \<Rightarrow> bytes \<Rightarrow> bytes \<Rightarrow> bytes" where
  "field d pre body =
     (let text = replicate (unat (d_prec d) - length body) 48 @ body;
          fill = unat (d_width d) - length (pre @ text)
      in if d_minus d then pre @ text @ replicate fill 32
         else if d_pad d = CHR '' '' then replicate fill 32 @ pre @ text
         else pre @ replicate fill (of_char (d_pad d)) @ text)"

definition sign_text :: "directive \<Rightarrow> bool \<Rightarrow> bytes" where
  "sign_text d neg = (if neg then [45] else if d_plus d then [43] else if d_space d then [32] else [])"

definition conversion_text :: "directive \<Rightarrow> char \<Rightarrow> va list \<Rightarrow> (bytes \<times> va list) option" where
  "conversion_text d c ap =
     (if 2 ^ 31 \<le> unat (d_prec d) then None
      else if c = CHR ''c'' then do { (v, ap) \<leftarrow> va_int ap; Some (field d [] [ucast v], ap) }
      else if c \<in> {CHR ''i'', CHR ''d''} then do {
        (val, ap) \<leftarrow> va_signed (d_size d) ap;
        Some (field d (sign_text d (sint val < 0)) (number_text 10 False (nat \<bar>sint val\<bar>)), ap)
      }
      else if c \<in> {CHR ''u'', CHR ''x'', CHR ''X'', CHR ''p''} then do {
        (val, ap) \<leftarrow> va_unsigned (c = CHR ''p'') (d_size d) ap;
        let pre = sign_text d False @ (if c \<noteq> CHR ''u'' \<and> d_pound d \<and> val \<noteq> 0 then [48, 120] else []);
        Some (field d pre (number_text (if c = CHR ''u'' then 10 else 16) (c = CHR ''X'') (unat val)), ap)
      }
      else if c = CHR ''s'' then do {
        (s, ap) \<leftarrow> va_str ap;
        if length s < 2 ^ 31 then Some (field d [] s, ap) else None
      }
      else if c = CHR ''_'' then Some (field d [] [], ap)
      else Some ([of_char c], ap))"

function vformat :: "string \<Rightarrow> va list \<Rightarrow> bytes option" where
  "vformat [] ap = Some []"
| "vformat (c # fmt) ap =
     (if c \<noteq> CHR ''%'' then do { text \<leftarrow> vformat fmt ap; Some (of_char c # text) }
      else case parse_directive fmt ap of
        None \<Rightarrow> None
      | Some (d, [], ap) \<Rightarrow> Some []
      | Some (d, c # fmt, ap) \<Rightarrow> do {
          (t, ap) \<leftarrow> conversion_text d c ap;
          text \<leftarrow> vformat fmt ap;
          Some (t @ text)
        })"
  by pat_completeness auto
termination
proof (relation "measure (\<lambda>(fmt, ap). length fmt)", goal_cases)
  case (3 c fmt ap x d y ap' c' fmt')
  then show ?case using parse_directive_length by fastforce
qed auto

section \<open>The code prints what the format stands for\<close>

definition puts :: "bytes \<Rightarrow> 's out \<Rightarrow> 's out option" where
  "puts bs out = put_all (fst out) (snd out) (map uint bs)"

lemma puts_Nil [simp]: "puts [] out = Some out"
  by (simp add: puts_def)

lemma puts_Cons: "puts (b # bs) out = do { out \<leftarrow> put (uint b) out; puts bs out }"
  by (cases "nk_fputc (snd out) (uint b)") (auto simp: puts_def put_def)

lemma puts_append: "puts (as @ bs) out = do { out \<leftarrow> puts as out; puts bs out }"
  by (induction as arbitrary: out) (auto simp: puts_Cons intro: Option.bind_cong)

lemma ch_uint: "ch c = uint (of_char c :: u8)"
proof -
  have "uint (word_of_int (of_char c) :: u8) = of_char c mod 256" by (simp add: uint_word_of_int)
  also have "\<dots> = of_char c" by (rule of_char_mod_256)
  finally show ?thesis by (simp only: of_int_of_char)
qed

text \<open>Counting a width down, stopping at zero.\<close>

definition less_width :: "u32 \<Rightarrow> nat \<Rightarrow> u32" where
  "less_width width k = word_of_nat (unat width - k)"

lemma less_width_0 [simp]: "less_width width 0 = width"
  by (simp add: less_width_def)

lemma less_width_Suc: "less_width (if width \<noteq> 0 then width - 1 else width) k = less_width width (Suc k)"
  using unat_sub_no_wrap [of 1 width] by (auto simp: less_width_def unat_gt_0 Suc_le_eq)

lemma unat_less_width: "unat (less_width width k) = unat width - k"
proof -
  have "unat width - k < 4294967296" using unat_u32_less [of width] by linarith
  then show ?thesis by (simp add: less_width_def unat_of_nat_u32)
qed

lemma less_width_less_width: "less_width (less_width width a) b = less_width width (a + b)"
  by (simp add: less_width_def [of _ b] unat_less_width) (simp add: less_width_def)

declare put_down.simps [simp del] put_down_width.simps [simp del] dec_loop.simps [simp del] hex_loop.simps [simp del]

lemma put_down_puts: "put_down (uint b) m n out = puts (replicate (unat n - unat m) b) out"
proof (induction "uint b" m n out rule: put_down.induct)
  case (1 m n out)
  show ?case
  proof (cases "m < n")
    case True
    have "unat n - unat m = Suc (unat (n - 1) - unat m)"
      using unat_pred_above [OF True] True by (simp add: word_less_nat_alt)
    then show ?thesis using True 1 by (subst put_down.simps) (simp add: puts_Cons cong: Option.bind_cong)
  next
    case False
    then have "unat n - unat m = 0" by (simp add: word_less_nat_alt)
    then show ?thesis using False by (subst put_down.simps) simp
  qed
qed

lemma put_down_width_puts:
  "put_down_width (uint b) m n width out = do {
     out \<leftarrow> puts (replicate (unat n - unat m) b) out; Some (less_width width (unat n - unat m), out) }"
proof (induction "uint b" m n width out rule: put_down_width.induct)
  case (1 m n width out)
  show ?case
  proof (cases "m < n")
    case True
    have "unat n - unat m = Suc (unat (n - 1) - unat m)"
      using unat_pred_above [OF True] True by (simp add: word_less_nat_alt)
    then show ?thesis using True 1
      by (subst put_down_width.simps) (simp only: puts_Cons less_width_Suc replicate_Suc Option.bind_assoc if_True cong: Option.bind_cong)
  next
    case False
    then have "unat n - unat m = 0" by (simp add: word_less_nat_alt)
    then show ?thesis using False by (subst put_down_width.simps) simp
  qed
qed

lemma put_string_puts:
  "unat n \<le> length s \<Longrightarrow> put_string n s out = do { out \<leftarrow> puts (take (unat n) s) out; Some (drop (unat n) s, out) }"
proof (induction n s out rule: put_string.induct)
  case (2 n c s out)
  show ?case
  proof (cases "n = 0")
    case False
    then have "unat n = Suc (unat (n - 1))" using unat_pred_above [of 0 n] by (simp add: word_greater_zero_iff)
    then show ?thesis using 2 False by (simp add: puts_Cons cong: Option.bind_cong)
  qed simp
qed (simp add: unat_eq_zero)

lemma put_string_width_puts:
  "unat n \<le> length s \<Longrightarrow> put_string_width n s width out = do {
     out \<leftarrow> puts (take (unat n) s) out; Some (drop (unat n) s, less_width width (unat n), out) }"
proof (induction n s width out rule: put_string_width.induct)
  case (2 n c s width out)
  show ?case
  proof (cases "n = 0")
    case False
    then have u: "unat n = Suc (unat (n - 1))" using unat_pred_above [of 0 n] by (simp add: word_greater_zero_iff)
    then have "unat (n - 1) \<le> length s" using "2.prems" by simp
    then have "put_string_width (n - 1) s (if width \<noteq> 0 then width - 1 else width) o' = do {
        out \<leftarrow> puts (take (unat (n - 1)) s) o'; Some (drop (unat (n - 1)) s, less_width width (unat n), out) }"
      if "put (uint c) out = Some o'" for o'
      using "2.IH" [OF False that] less_width_Suc [of width "unat (n - 1)"] u by simp
    then show ?thesis using False unfolding u
      by (simp add: puts_Cons cong: Option.bind_cong del: Option.bind_assoc)
        (cases "put (uint c) out"; simp)
  qed simp
qed (simp add: unat_eq_zero)

lemmas put_loops = put_string_puts put_string_width_puts put_down_puts put_down_width_puts
  put_down_puts [of 32, simplified] put_down_puts [of 48, simplified]
  put_down_width_puts [of 48, simplified] put_down_puts [of "of_char c" for c, folded ch_uint]

text \<open>Emitting a string.\<close>

lemma emits_field:
  assumes "length s < 2 ^ 31" "unat prefix \<le> length s" "unat (d_prec d) < 2 ^ 31"
  shows "emits d prefix (word_of_nat (length s)) s out = puts (field d (take (unat prefix) s) (drop (unat prefix) s)) out"
proof -
  let ?len = "word_of_nat (length s) :: u32" and ?body = "drop (unat prefix) s"
  have len: "unat ?len = length s" using assms(1) by (simp add: unat_of_nat_u32)
  have body: "unat (?len - prefix) = length ?body" using assms(2) len by (simp add: unat_sub_no_wrap)
  have full: "unat (if d_prec d > ?len - prefix then d_prec d + prefix else ?len)
      = unat prefix + max (unat (d_prec d)) (length ?body)"
  proof (cases "d_prec d > ?len - prefix")
    case True
    have "unat (d_prec d + prefix) = unat (d_prec d) + unat prefix"
      using assms by (intro unat_add_no_wrap) simp
    then show ?thesis using True body by (auto simp: word_less_nat_alt max_def)
  next
    case False
    then show ?thesis using body len assms(2) by (simp add: word_less_nat_alt max_def)
  qed
  have fullm: "unat ((if d_prec d > ?len - prefix then d_prec d + prefix else ?len) - prefix) = max (unat (d_prec d)) (length ?body)"
    using full by (simp add: unat_sub_no_wrap)
  have zeros: "length (replicate (unat (d_prec d) - length ?body) (48 :: u8) @ ?body) = max (unat (d_prec d)) (length ?body)"
    by simp
  have take: "length (take (unat prefix) s) = unat prefix" "take (length ?body) ?body = ?body" using assms(2) by simp_all
  show ?thesis
  proof (cases "d_minus d")
    case True
    have "unat (d_width d) - unat prefix + unat prefix - (unat (d_prec d) + unat prefix - length s + length s)
        = unat (d_width d) - (unat (d_prec d) + unat prefix - length s + length s)"
      using assms(2) by linarith
    then show ?thesis
      using True assms(2) body take
      by (simp add: emits_def Let_def field_def put_loops puts_append less_width_less_width unat_less_width)
  next
    case False
    then show ?thesis
      using assms(2) body take full fullm zeros
      by (simp add: emits_def Let_def field_def put_loops puts_append unat_less_width)
  qed
qed

text \<open>The digits.\<close>

lemma num_digits_length: "n < b ^ k \<Longrightarrow> length (num_digits b n) \<le> k"
proof (induction k arbitrary: n)
  case (Suc k)
  show ?case
  proof (cases "n = 0 \<or> b < 2")
    case False
    then have "n div b < b ^ k" using Suc.prems by (simp add: less_mult_imp_div_less mult.commute)
    then show ?thesis using Suc.IH [of "n div b"] by (subst num_digits.simps) simp
  qed (auto simp: num_digits.simps)
qed (auto simp: num_digits.simps)

lemma number_text_length: "n < 10 ^ k \<Longrightarrow> 0 < k \<Longrightarrow> length (number_text 10 upr n) \<le> k"
  using num_digits_length [of n 10 k] by (simp add: number_text_def)

lemma num_digits_eq_Nil: "1 < b \<Longrightarrow> num_digits b n = [] \<longleftrightarrow> n = 0"
  by (subst num_digits.simps) simp

lemma dec_loop_digits:
  "length buf + length (num_digits 10 (unat val)) \<le> 24 \<Longrightarrow>
   dec_loop val buf = Some (buf @ rev (map (digit_char False) (num_digits 10 (unat val))))"
proof (induction val buf rule: dec_loop.induct)
  case (1 val buf)
  show ?case
  proof (cases "val = 0")
    case False
    then have d: "num_digits 10 (unat val) = num_digits 10 (unat (val div 10)) @ [unat val mod 10]"
      by (subst num_digits.simps) (simp add: unat_div unat_eq_zero)
    have "(ucast (val mod 10) :: u8) = word_of_nat (unat (val mod 10))" by simp
    then have "of_char (CHR ''0'') + ucast (val mod 10) = digit_char False (unat val mod 10)"
      by (simp add: digit_char_def unat_mod del: of_nat_unat)
    then show ?thesis using 1 False d by (subst dec_loop.simps) (simp add: push_def)
  qed (simp add: dec_loop.simps num_digits.simps)
qed

lemma hex_digit_char:
  assumes "unat v < 16"
  shows "hex_digit upr v = digit_char upr (unat v)"
proof -
  have "v < 10 \<longleftrightarrow> unat v < 10" by (simp add: word_less_nat_alt)
  moreover have "(ucast v :: u8) = word_of_nat (unat v)" by simp
  ultimately show ?thesis by (simp add: hex_digit_def digit_char_def del: of_nat_unat)
qed

lemma hex_loop_digits:
  "length buf + length (num_digits 16 (unat val)) \<le> 24 \<Longrightarrow>
   hex_loop upr val buf = Some (buf @ rev (map (digit_char upr) (num_digits 16 (unat val))))"
proof (induction upr val buf rule: hex_loop.induct)
  case (1 upr val buf)
  show ?case
  proof (cases "val = 0")
    case False
    have s: "unat (drop_bit 4 val) = unat val div 16" by (simp add: drop_bit_eq_div unat_div)
    have a: "unat (val AND 15) = unat val mod 16"
      using and_pow2_minus_1 [of 16 val] pow2_numeral_intro [of 4 "16 :: u64"] by simp
    have d: "num_digits 16 (unat val) = num_digits 16 (unat (drop_bit 4 val)) @ [unat val mod 16]"
      using False by (subst num_digits.simps) (simp add: s unat_eq_zero)
    show ?thesis using 1 False d hex_digit_char [of "val AND 15" upr] a by (subst hex_loop.simps) (simp add: push_def)
  qed (simp add: hex_loop.simps num_digits.simps)
qed

lemma length_digits: "length (num_digits 10 (unat (val :: u64))) \<le> 20" "length (num_digits 16 (unat (val :: u64))) \<le> 16"
proof -
  have "unat val < 2 ^ 64" using unsigned_less [of val, where ?'a = nat] by simp
  then have "unat val < 10 ^ 20" "unat val < 16 ^ 16" by simp_all
  then show "length (num_digits 10 (unat val)) \<le> 20" "length (num_digits 16 (unat val)) \<le> 16"
    using num_digits_length by blast+
qed

text \<open>A number is its prefix and its digits.\<close>

lemma emit_rev_field:
  assumes "b = 10 \<and> buf = rev (map (digit_char upr) (num_digits 10 (unat (val :: u64))))
    \<or> b = 16 \<and> buf = rev (map (digit_char upr) (num_digits 16 (unat val)))" "unat (d_prec d) < 2 ^ 31"
  shows "emit_rev d hex neg buf out
    = puts (field d (sign_text d neg @ (if hex \<and> d_pound d \<and> val \<noteq> 0 then [48, 120] else [])) (number_text b upr (unat val))) out"
proof -
  have len: "length buf \<le> 20" using assms(1) length_digits [of val] by auto
  have nil: "buf = [] \<longleftrightarrow> val = 0" using assms(1) by (auto simp: num_digits_eq_Nil unat_eq_zero)
  have digits: "rev buf = number_text b upr (unat val)" if "val \<noteq> 0"
    using assms(1) that by (auto simp: number_text_def unat_eq_zero)
  have zero: "number_text b upr 0 = [48]" by (simp add: number_text_def)
  have e: "emits d (word_of_nat (length pre)) (word_of_nat (length pre + length body)) (pre @ body) out = puts (field d pre body) out"
    if "length pre \<le> 3" "length body \<le> 20" for pre body
    using emits_field [of "pre @ body" "word_of_nat (length pre)" d out] that assms(2) by (simp add: unat_of_nat_u32)
  let ?mark = "if hex \<and> d_pound d \<and> val \<noteq> 0 then [48, 120] else [] :: bytes" and ?body = "number_text b upr (unat val)"
  have body: "length ?body \<le> 20" using len digits zero nil by (cases "val = 0") (simp_all flip: digits)
  have "emit_rev d hex neg buf out = emits d (word_of_nat (length (sign_text d neg @ ?mark)))
      (word_of_nat (length (sign_text d neg @ ?mark) + length ?body)) ((sign_text d neg @ ?mark) @ ?body) out"
  proof (cases "val = 0")
    case True
    then show ?thesis using nil zero by (simp add: emit_rev_def push_def sign_text_def)
  next
    case False
    then have "?body = rev buf" "buf \<noteq> []" using digits nil by simp_all
    then show ?thesis using False len by (simp add: emit_rev_def push_def sign_text_def add.commute)
  qed
  also have "\<dots> = puts (field d (sign_text d neg @ ?mark) ?body) out"
    by (rule e) (use body in \<open>simp_all add: sign_text_def\<close>)
  finally show ?thesis .
qed

lemma unat_abs: "unat (if sint val < 0 then - val else val) = nat \<bar>sint (val :: u64)\<bar>"
proof -
  have r: "- (2 ^ 63) \<le> sint val" "sint val < 2 ^ 63"
    using sint_ge [of val] sint_less [of val] by simp_all
  have "(if sint val < 0 then - val else val) = word_of_int \<bar>sint val\<bar>" by simp
  moreover have "unat (word_of_int \<bar>sint val\<bar> :: u64) = nat \<bar>sint val\<bar>"
    using r by (simp only: unat_eq_nat_uint uint_word_of_int) (simp add: mod_pos_pos_trivial)
  ultimately show ?thesis by simp
qed

lemma conversion_prints:
  assumes "conversion_text d c ap = Some (t, ap')"
  shows "conversion d c ap out = do { out \<leftarrow> puts t out; Some (ap', out) }"
proof -
  have prec: "unat (d_prec d) < 2 ^ 31" using assms by (auto simp: conversion_text_def split: if_splits)
  show ?thesis
  proof (cases "c \<in> {CHR ''i'', CHR ''d''}")
    case True
    then obtain val where v: "va_signed (d_size d) ap = Some (val, ap')"
      "t = field d (sign_text d (sint val < 0)) (number_text 10 False (nat \<bar>sint val\<bar>))"
      using assms by (auto simp: conversion_text_def Option.bind_eq_Some_conv split: if_splits)
    let ?val = "if sint val < 0 then - val else val"
    have "dec_loop ?val [] = Some (rev (map (digit_char False) (num_digits 10 (unat ?val))))"
      using dec_loop_digits [of "[]" ?val] length_digits(1) [of ?val] by simp
    then show ?thesis
      using True v prec unat_abs [of val] emit_rev_field [of 10 _ False ?val d False "sint val < 0" out]
      by (auto simp: conversion_def Let_def)
  next
    case no: False
    show ?thesis
    proof (cases "c \<in> {CHR ''u'', CHR ''x'', CHR ''X'', CHR ''p''}")
      case True
      then obtain val where v: "va_unsigned (c = CHR ''p'') (d_size d) ap = Some (val, ap')"
        "t = field d (sign_text d False @ (if c \<noteq> CHR ''u'' \<and> d_pound d \<and> val \<noteq> 0 then [48, 120] else []))
           (number_text (if c = CHR ''u'' then 10 else 16) (c = CHR ''X'') (unat val))"
        using assms prec by (auto simp: conversion_text_def Option.bind_eq_Some_conv Let_def)
      have "dec_loop val [] = Some (rev (map (digit_char False) (num_digits 10 (unat val))))"
        "hex_loop upr val [] = Some (rev (map (digit_char upr) (num_digits 16 (unat val))))" for upr
        using dec_loop_digits [of "[]" val] hex_loop_digits [of "[]" val upr] length_digits [of val] by simp_all
      then show ?thesis
        using True v prec emit_rev_field [of 10 _ False val d False False out] emit_rev_field [of 16 _ "c = CHR ''X''" val d True False out]
        by (auto simp: conversion_def Let_def)
    next
      case False
      have str: "emits d 0 (word_of_nat (length s)) s out = puts (field d [] s) out" if "length s < 2 ^ 31" for s
        using emits_field [of s 0 d out] that prec by simp
      show ?thesis
        using no False assms prec str [of "[x]" for x] str [of "[]"] str
        by (simp add: conversion_def conversion_text_def ch_uint puts_Cons)
          (auto simp: Option.bind_eq_Some_conv puts_Cons split: if_splits)
    qed
  qed
qed

lemma vprintf_loop_prints:
  fixes out :: "'s out"
  shows "vformat fmt ap = Some bs \<Longrightarrow> nk_vprintf_loop fmt ap out = puts bs out"
proof (induction fmt ap arbitrary: bs out rule: vformat.induct)
  case (2 c fmt ap)
  show ?case
  proof (cases "c = CHR ''%''")
    case False
    then obtain t where t: "vformat fmt ap = Some t" "bs = of_char c # t"
      using "2.prems" by (auto simp: Option.bind_eq_Some_conv)
    then show ?thesis using "2.IH"(1) [OF False t(1)] False by (simp add: puts_Cons ch_uint cong: Option.bind_cong)
  next
    case True
    obtain d rest ap1 where p: "parse_directive fmt ap = Some (d, rest, ap1)"
      using "2.prems" True by (auto split: option.splits prod.splits)
    show ?thesis
    proof (cases rest)
      case Nil
      then show ?thesis using "2.prems" True p by simp
    next
      case (Cons c' fmt')
      obtain t ap2 t' where t: "conversion_text d c' ap1 = Some (t, ap2)" "vformat fmt' ap2 = Some t'" "bs = t @ t'"
        using "2.prems" True p Cons by (auto simp: Option.bind_eq_Some_conv)
      have "nk_vprintf_loop fmt' ap2 out = puts t' out" for out :: "'s out"
        using "2.IH"(2) [OF _ p refl refl Cons t(1) refl t(2)] True by simp
      then show ?thesis using True p Cons t conversion_prints [OF t(1), of out] by (simp add: puts_append)
    qed
  qed
qed simp

text \<open>The digits are those of the number.\<close>

definition digits_value :: "nat \<Rightarrow> nat list \<Rightarrow> nat" where
  "digits_value b ds = foldl (\<lambda>n d. n * b + d) 0 ds"

lemma digits_value_num: "1 < b \<Longrightarrow> digits_value b (num_digits b n) = n \<and> list_all (\<lambda>d. d < b) (num_digits b n)"
proof (induction b n rule: num_digits.induct)
  case (1 b n)
  then show ?case by (subst (1 2) num_digits.simps) (auto simp: digits_value_def)
qed

section \<open>Files in memory and the console\<close>

definition mem_out :: "bytes \<Rightarrow> u32 \<Rightarrow> u32 \<Rightarrow> unit nkoutfile" where
  "mem_out buf sz ptr = \<lparr>o_ptr = ptr, o_buffer = buf, o_end = sz, o_size = sz, o_block_write_ptr = (),
     o_block_write = None, o_granularity = 1\<rparr>"

lemma mem_out_put:
  assumes "unat sz \<le> length buf" "unat ptr \<le> unat sz"
  shows "nk_fputc (mem_out buf sz ptr) (uint c) =
    Some (if unat ptr < unat sz then (0, mem_out (buf[unat ptr := c]) sz (ptr + 1)) else (-1, mem_out buf sz 0))"
proof (cases "ptr = sz")
  case True
  then show ?thesis by (auto simp: mem_out_def nk_fputc_def nk_flush_and_putc_def nk_fflush_def)
next
  case False
  then have "unat ptr < unat sz" using assms(2) by (metis le_neq_implies_less word_unat_eq_iff)
  then show ?thesis using assms False by (simp add: mem_out_def nk_fputc_def put_ptr_def buf_simps)
qed

lemma status_or: "(if a then 0 else - 1) OR (if b then 0 else - 1) = (if a \<and> b then 0 else - 1 :: int)"
  by simp

lemma mem_out_puts:
  assumes "unat sz < length buf"
  shows "\<exists>buf'. puts bs (0, mem_out buf sz 0)
      = Some (if length bs \<le> unat sz then 0 else - 1, mem_out buf' sz (word_of_nat (length bs mod Suc (unat sz))))
    \<and> take (length bs mod Suc (unat sz)) buf' = drop (length bs div Suc (unat sz) * Suc (unat sz)) bs
    \<and> drop (unat sz) buf' = drop (unat sz) buf \<and> length buf' = length buf"
proof (induction bs rule: rev_induct)
  case (snoc c bs)
  let ?m = "unat sz" and ?n = "length bs"
  let ?p = "?n mod Suc ?m"
  obtain buf' where IH: "puts bs (0, mem_out buf sz 0) = Some (if ?n \<le> ?m then 0 else - 1, mem_out buf' sz (word_of_nat ?p))"
    "take ?p buf' = drop (?n div Suc ?m * Suc ?m) bs" "drop ?m buf' = drop ?m buf" "length buf' = length buf"
    using snoc.IH by blast
  have p: "?p \<le> ?m" by (simp add: less_Suc_eq_le [symmetric])
  then have "?p < 4294967296" using unat_u32_less [of sz] by linarith
  then have u: "unat (word_of_nat ?p :: u32) = ?p" by (simp add: unat_of_nat_u32)
  have put: "nk_fputc (mem_out buf' sz (word_of_nat ?p)) (uint c) =
      Some (if ?p < ?m then (0, mem_out (buf'[?p := c]) sz (word_of_nat ?p + 1)) else (-1, mem_out buf' sz 0))"
    using mem_out_put [of sz buf' "word_of_nat ?p" c] assms IH(4) p u by simp
  show ?case
  proof (cases "?p < ?m")
    case True
    have n: "Suc ?n mod Suc ?m = Suc ?p" "Suc ?n div Suc ?m = ?n div Suc ?m"
      using True by (simp_all add: mod_Suc div_Suc)
    have "?n div Suc ?m * Suc ?m \<le> ?n" by (rule div_times_less_eq_dividend)
    moreover have "take (Suc ?p) (buf'[?p := c]) = take ?p buf' @ [c]"
      using True assms IH(4) by (simp add: take_Suc_conv_app_nth)
    moreover have "Suc ?n \<le> ?m" if "?n \<le> ?m" using that True by simp
    ultimately show ?thesis
      using True put IH assms n
      by (intro exI [of _ "buf'[?p := c]"]) (auto simp: puts_append puts_Cons put_def add.commute)
  next
    case False
    then have e: "?p = ?m" using p by simp
    then have n: "Suc ?n mod Suc ?m = 0" using mod_Suc [of ?n "Suc ?m"] by simp
    then have n2: "Suc ?n div Suc ?m * Suc ?m = Suc ?n" by (metis add.right_neutral div_mult_mod_eq)
    have "?m \<le> ?n" using e by (metis mod_less_eq_dividend)
    then show ?thesis using False put IH n n2
      by (intro exI [of _ buf']) (auto simp: puts_append puts_Cons put_def)
  qed
qed (use assms in \<open>auto intro!: exI [of _ buf]\<close>)

lemma console_puts:
  "puts bs (0, nkstdout nk_putc s) = Some (0, nkstdout nk_putc (fold nk_putc bs s))"
  by (induction bs arbitrary: s)
    (simp_all add: puts_Cons put_def nk_fputc_def nk_flush_and_putc_def nkstdout_def outc_def load_from_def)

lemma space_fill_spaces:
  "unat ptr + n = unat end \<Longrightarrow> unat end \<le> length buf \<Longrightarrow>
   space_fill ptr end buf = Some (take (unat ptr) buf @ replicate n 32 @ drop (unat end) buf)"
proof (induction n arbitrary: ptr buf)
  case 0
  then have "ptr = end" by (simp add: word_unat_eq_iff)
  then show ?case by (subst space_fill.simps) simp
next
  case (Suc n)
  then have "unat ptr < unat end" "ptr \<noteq> end" by auto
  then have "unat (ptr + 1) = Suc (unat ptr)" by (intro unat_plus_1_less)
  then show ?case using Suc.IH [of "ptr + 1" "buf[unat ptr := 32]"] Suc.prems \<open>ptr \<noteq> end\<close>
    by (subst space_fill.simps) (simp add: buf_simps take_Suc_conv_app_nth)
qed

lemma snprintf_contents:
  assumes "vformat fmt ap = Some bs" "0 < unat len" "unat len \<le> length dest"
  shows "\<exists>dest'. nk_snprintf dest len fmt ap = Some (if length bs < unat len then 0 else - 1, dest')
    \<and> take (Suc (length bs mod unat len)) dest' = drop (length bs div unat len * unat len) bs @ [0]
    \<and> drop (unat len) dest' = drop (unat len) dest \<and> length dest' = length dest"
proof -
  let ?m = "unat (len - 1)"
  have m: "Suc ?m = unat len" using assms(2) unat_sub_no_wrap [of 1 len] by simp
  have "nkoutfile_open_mem () dest (len - 1) = mem_out dest (len - 1) 0"
    by (simp add: nkoutfile_open_mem_def nkoutfile_open_def mem_out_def)
  moreover obtain buf where buf: "puts bs (0, mem_out dest (len - 1) 0)
      = Some (if length bs < unat len then 0 else - 1, mem_out buf (len - 1) (word_of_nat (length bs mod unat len)))"
    "take (length bs mod unat len) buf = drop (length bs div unat len * unat len) bs"
    "drop ?m buf = drop ?m dest" "length buf = length dest"
    using mem_out_puts [of "len - 1" dest bs] m assms(3) by (auto simp: less_Suc_eq_le [symmetric])
  moreover have p: "length bs mod unat len < length buf" "unat (word_of_nat (length bs mod unat len) :: u32) = length bs mod unat len"
  proof -
    have "length bs mod unat len < unat len" using assms(2) by simp
    then show "length bs mod unat len < length buf" "unat (word_of_nat (length bs mod unat len) :: u32) = length bs mod unat len"
      using assms(3) buf(4) unat_u32_less [of len] by (linarith, intro unat_of_nat_u32, linarith)
  qed
  ultimately have "nk_snprintf dest len fmt ap
      = Some (if length bs < unat len then 0 else - 1, buf[length bs mod unat len := 0])"
    unfolding nk_snprintf_def nk_vprintf_def Let_def vprintf_loop_prints [OF assms(1)]
    by (simp add: mem_out_def buf_simps)
  moreover have "drop (unat len) buf = drop (unat len) dest"
    using buf(3) m by (metis drop_Suc drop_drop plus_1_eq_Suc tl_drop)
  ultimately show ?thesis using buf p assms(2) by (auto simp: take_Suc_conv_app_nth)
qed

section \<open>Properties\<close>

lemmas vformat_eval = parse_directive_def parse_number_def no_directive_def conversion_text_def field_def
  number_text_def num_digits.simps digit_char_def sign_text_def Let_def



text \<open>C23. Printing to a string of \<open>len\<close> characters never writes outside its first \<open>len\<close> bytes and always
  ends it with a NUL. When the text fits, it is the whole text and 0 is returned. When it does not, -1 is returned and the string
  is not the start of the text but its end: the text from the last multiple of \<open>len\<close> on, which may be
  empty.\<close>
theorem snprintf_result:
  assumes "vformat fmt ap = Some bs" "0 < unat len" "unat len \<le> length dest"
  shows "\<exists>dest'. nk_snprintf dest len fmt ap = Some (if length bs < unat len then 0 else - 1, dest')
    \<and> take (Suc (length bs mod unat len)) dest' = drop (length bs div unat len * unat len) bs @ [0]
    \<and> drop (unat len) dest' = drop (unat len) dest \<and> length dest' = length dest"
  using snprintf_contents [OF assms] .

theorem snprintf_result_witness:
  "\<exists>d1 d2. nk_snprintf [9, 9, 9, 9, 9] 4 ''%u'' [VInt 123] = Some (0, d1) \<and> take 4 d1 = [0x31, 0x32, 0x33, 0]
     \<and> nk_snprintf [9, 9, 9, 9, 9] 4 ''%u'' [VInt 12345] = Some (- 1, d2) \<and> take 2 d2 = [0x35, 0]"
proof -
  have 1: "vformat ''%u'' [VInt 123] = Some [0x31, 0x32, 0x33]" and 2: "vformat ''%u'' [VInt 12345] = Some [0x31, 0x32, 0x33, 0x34, 0x35]"
    by (simp_all add: vformat_eval)
  have n: "unat (4 :: u32) = 4" by simp
  obtain d1 where "nk_snprintf [9, 9, 9, 9, 9] 4 ''%u'' [VInt 123] = Some (0, d1)" "take 4 d1 = [0x31, 0x32, 0x33, 0]"
    using snprintf_result [OF 1, of 4 "[9, 9, 9, 9, 9]"] unfolding n by auto
  moreover obtain d2 where "nk_snprintf [9, 9, 9, 9, 9] 4 ''%u'' [VInt 12345] = Some (- 1, d2)" "take 2 d2 = [0x35, 0]"
    using snprintf_result [OF 2, of 4 "[9, 9, 9, 9, 9]"] unfolding n by (auto simp: numeral_2_eq_2)
  ultimately show ?thesis by blast
qed

text \<open>Printing a text that fits to a field gives the text followed by spaces up to the end of the field, and no NUL.\<close>
theorem sfprintf_fills:
  assumes "vformat fmt ap = Some bs" "length bs \<le> unat len" "unat len < length dest"
  shows "nk_sfprintf dest len fmt ap = Some (0, bs @ replicate (unat len - length bs) 32 @ drop (unat len) dest)"
proof -
  have f: "nkoutfile_open_mem () dest len = mem_out dest len 0"
    by (simp add: nkoutfile_open_mem_def nkoutfile_open_def mem_out_def)
  obtain buf where buf: "puts bs (0, mem_out dest len 0) = Some (0, mem_out buf len (word_of_nat (length bs)))"
    "take (length bs) buf = bs" "drop (unat len) buf = drop (unat len) dest" "length buf = length dest"
    using mem_out_puts [OF assms(3), of bs] assms(2) by (auto simp: less_Suc_eq_le)
  have u: "unat (word_of_nat (length bs) :: u32) = length bs"
    using assms(2) unat_u32_less [of len] by (intro unat_of_nat_u32) linarith
  then have "space_fill (word_of_nat (length bs)) len buf
      = Some (bs @ replicate (unat len - length bs) 32 @ drop (unat len) dest)"
    using space_fill_spaces [of "word_of_nat (length bs)" "unat len - length bs" len buf] buf assms by simp
  then show ?thesis
    unfolding nk_sfprintf_def nk_vprintf_def Let_def vprintf_loop_prints [OF assms(1)] f buf(1) by (simp add: mem_out_def)
qed

theorem sfprintf_fills_witness:
  "nk_sfprintf [9, 9, 9, 9] 3 ''%c'' [VInt 65] = Some (0, [65, 32, 32, 9])"
proof -
  have v: "vformat ''%c'' [VInt 65] = Some [65]" by (simp add: vformat_eval)
  have n: "unat (3 :: u32) = 3" by simp
  from sfprintf_fills [OF v, of 3 "[9, 9, 9, 9]"] show ?thesis unfolding n by (simp add: numeral_2_eq_2)
qed

text \<open>The hex dump reads all 16 columns of a line for its text half, also those past the bytes it was asked for:
  dumping a buffer shorter than a line reads outside it, whatever is printed to.\<close>
theorem hex_dump_overreads:
  fixes f :: "'s nkoutfile"
  assumes "count \<noteq> 0" "length buf < 16"
  shows "nk_fbyte_hex_dump f buf base 0 count = None"
proof -
  have "dump_text buf 0 xs st cn out = None" if "x \<in> set xs" "length buf \<le> x" "x < 16" for x xs st cn and out :: "'s out"
    using that
  proof (induction xs arbitrary: st cn out)
    case (Cons y ys)
    have "unat (word_of_nat x :: u32) = x" using that by (intro unat_of_nat_u32) simp
    then have "deref buf (unat (word_of_nat x :: u32)) = None" using that by (simp add: deref_def)
    then show ?case using Cons by (auto split: bind_splits)
  qed simp
  from this [of "length buf" "[0..<16]"] assms show ?thesis
    unfolding nk_fbyte_hex_dump_def by (subst dump_lines.simps) (auto split: bind_splits)
qed

theorem hex_dump_overreads_witness: "nk_fbyte_hex_dump (nkstdout (\<lambda>c s. s @ [c]) []) [65, 66] 0 0 2 = None"
  by (rule hex_dump_overreads) simp_all

end
