(* ===== verification/Mcuflash.thy ===== *)
theory Mcuflash
  imports Checked
begin

text \<open>
  The flash memory of the microcontroller: the driver in \<^verbatim>\<open>nkarch_pico.c\<close> on the flash functions of the Pico SDK, and the dump and
  CRC of \<^verbatim>\<open>libnklabs/src/nkmcuflash.c\<close>. The SDK functions, which call the boot ROM, and the window through which
  the flash is read are the fields of \<open>pico_hw\<close>; the state is the device. Taking the spinlock and
  disabling interrupts around them is left out. The locale \<open>pico_flash\<close> says what the SDK documents, and the
  driver is shown to be a \<open>flash_device\<close> on it, so that files can be kept in it.
\<close>

section \<open>The driver\<close>

record 's pico_hw =
  flash_range_erase :: "u32 \<Rightarrow> u32 \<Rightarrow> 's \<Rightarrow> 's option"
  flash_range_program :: "u32 \<Rightarrow> bytes \<Rightarrow> 's \<Rightarrow> 's option"
  xip :: "'s \<Rightarrow> nat \<Rightarrow> u8"

definition FLASH_PAGE_SIZE :: u32 where "FLASH_PAGE_SIZE = 256"
definition FLASH_SECTOR_SIZE :: u32 where "FLASH_SECTOR_SIZE = 4096"

definition nk_mcuflash_erase :: "'s pico_hw \<Rightarrow> 's \<Rightarrow> u32 \<Rightarrow> u32 \<Rightarrow> (int \<times> 's) option" where
  "nk_mcuflash_erase hw s address byte_count =
     (if address AND (FLASH_SECTOR_SIZE - 1) \<noteq> 0 then Some (-1, s)
      else if byte_count AND (FLASH_SECTOR_SIZE - 1) \<noteq> 0 then Some (-1, s)
      else do { s \<leftarrow> flash_range_erase hw address byte_count s; Some (0, s) })"

definition nk_mcuflash_read :: "'s pico_hw \<Rightarrow> 's \<Rightarrow> u32 \<Rightarrow> u32 \<Rightarrow> (int \<times> bytes \<times> 's) option" where
  "nk_mcuflash_read hw s address byte_count = Some (0, range_of (xip hw s) (unat address) (unat byte_count), s)"

text \<open>The loop of the write, with the page buffer \<open>xfer\<close>. Each round writes at least one byte, so it ends.\<close>

lemma page_rest_pos: "0 < unat (FLASH_PAGE_SIZE - (a AND (FLASH_PAGE_SIZE - 1)))"
proof -
  have "pow2 FLASH_PAGE_SIZE" by (rule pow2_numeral_intro [of 8]) (simp_all add: FLASH_PAGE_SIZE_def)
  from and_pow2_minus_1 [OF this, of a] have m: "unat (a AND (FLASH_PAGE_SIZE - 1)) < unat FLASH_PAGE_SIZE"
    by (simp add: FLASH_PAGE_SIZE_def)
  then show ?thesis by (simp add: unat_sub_no_wrap)
qed

function mcuflash_write_loop :: "'s pico_hw \<Rightarrow> u32 \<Rightarrow> bytes \<Rightarrow> u32 \<Rightarrow> bytes \<Rightarrow> 's \<Rightarrow> 's option" where
  "mcuflash_write_loop hw address data byte_count xfer s =
     (if byte_count = 0 then Some s
      else (let
        page_offset = address AND (FLASH_PAGE_SIZE - 1);
        page_len = FLASH_PAGE_SIZE - page_offset;
        page_addr = address - page_offset;
        page_len = (if byte_count < page_len then byte_count else page_len)
      in do {
        (xfer, s) \<leftarrow> (if page_len \<noteq> FLASH_PAGE_SIZE then do {
            (_, page, s) \<leftarrow> nk_mcuflash_read hw s page_addr FLASH_PAGE_SIZE;
            Some (page, s)
          } else Some (xfer, s));
        chunk \<leftarrow> load_from data 0 (unat page_len);
        xfer \<leftarrow> store_at xfer (unat page_offset) chunk;
        s \<leftarrow> flash_range_program hw page_addr xfer s;
        mcuflash_write_loop hw (address + page_len) (drop (unat page_len) data) (byte_count - page_len) xfer s
      }))"
  by pat_completeness auto
termination
proof (relation "measure (\<lambda>(hw, address, data, byte_count, xfer, s). unat byte_count)", goal_cases)
  case (2 hw address data byte_count xfer s)
  then show ?case using page_rest_pos [of address]
    by (auto simp: unat_sub word_le_nat_alt word_less_nat_alt unat_gt_0 Let_def)
qed simp

declare mcuflash_write_loop.simps [simp del]

definition nk_mcuflash_write :: "'s pico_hw \<Rightarrow> 's \<Rightarrow> u32 \<Rightarrow> bytes \<Rightarrow> (int \<times> 's) option" where
  "nk_mcuflash_write hw s address data = do {
     s \<leftarrow> mcuflash_write_loop hw address data (word_of_nat (length data)) (replicate 256 0) s;
     Some (0, s)
   }"

text \<open>The CRC over a range, a page at a time: each time from the start of the page.\<close>

function flash_crc_loop :: "'s pico_hw \<Rightarrow> u32 \<Rightarrow> u32 \<Rightarrow> u32 \<Rightarrow> 's \<Rightarrow> (u32 \<times> 's) option" where
  "flash_crc_loop hw addr len crc s =
     (if len = 0 then Some (crc, s)
      else (let
        this_page = addr AND NOT 255;
        this_ofst = addr AND 255;
        this_len = 256 - this_ofst;
        this_len = (if this_len > len then len else this_len)
      in do {
        (_, buf, s) \<leftarrow> nk_mcuflash_read hw s this_page this_len;
        flash_crc_loop hw (addr + this_len) (len - this_len) (foldl nk_crc32be_update crc buf) s
      }))"
  by pat_completeness auto
termination
proof (relation "measure (\<lambda>(hw, addr, len, crc, s). unat len)", goal_cases)
  case (2 hw addr len crc s)
  then show ?case using page_rest_pos [of addr, unfolded FLASH_PAGE_SIZE_def]
    by (auto simp: unat_sub word_le_nat_alt word_less_nat_alt unat_gt_0 Let_def)
qed simp

declare flash_crc_loop.simps [simp del]

definition flash_crc :: "'s pico_hw \<Rightarrow> u32 \<Rightarrow> u32 \<Rightarrow> 's \<Rightarrow> (u32 \<times> 's) option" where
  "flash_crc hw addr len s = flash_crc_loop hw addr len 0 s"

section \<open>The flash\<close>

text \<open>Programming can only clear bits.\<close>

definition and_range :: "(nat \<Rightarrow> u8) \<Rightarrow> nat \<Rightarrow> bytes \<Rightarrow> nat \<Rightarrow> u8" where
  "and_range m a bs = (\<lambda>i. if a \<le> i \<and> i < a + length bs then m i AND bs ! (i - a) else m i)"

lemma and_range_append: "and_range (and_range m a xs) (a + length xs) ys = and_range m a (xs @ ys)"
  by (auto simp: and_range_def fun_eq_iff nth_append diff_diff_left)

lemma and_range_Nil [simp]: "and_range m a [] = m"
  by (auto simp: and_range_def fun_eq_iff)

lemma and_range_erased: "(\<And>i. a \<le> i \<Longrightarrow> i < a + length bs \<Longrightarrow> m i = 0xFF) \<Longrightarrow> and_range m a bs = set_range m a bs"
  by (auto simp: and_range_def set_range_def fun_eq_iff and_0xFF)

text \<open>A page that has been read, changed in part and programmed again.\<close>

lemma and_range_merged:
  assumes "off + length bs \<le> n"
  shows "and_range m a (take off (range_of m a n) @ bs @ drop (off + length bs) (range_of m a n)) = and_range m (a + off) bs"
  using assms by (auto simp: and_range_def fun_eq_iff nth_append range_of_def nth_drop)

locale pico_flash =
  fixes hw :: "'s pico_hw"
    and flash_ok :: "'s \<Rightarrow> bool"
    and flash_bytes :: nat
  assumes flash_bytes: "flash_bytes < 2 ^ 32" "256 dvd flash_bytes"
    and range_erase: "flash_ok s \<Longrightarrow> 4096 dvd unat a \<Longrightarrow> 4096 dvd unat n \<Longrightarrow> unat a + unat n \<le> flash_bytes \<Longrightarrow>
      \<exists>s'. flash_range_erase hw a n s = Some s' \<and> flash_ok s' \<and> xip hw s' = set_range (xip hw s) (unat a) (replicate (unat n) 0xFF)"
    and range_program: "flash_ok s \<Longrightarrow> 256 dvd unat a \<Longrightarrow> 256 dvd length bs \<Longrightarrow> unat a + length bs \<le> flash_bytes \<Longrightarrow>
      \<exists>s'. flash_range_program hw a bs s = Some s' \<and> flash_ok s' \<and> xip hw s' = and_range (xip hw s) (unat a) bs"
begin

lemma mcuflash_write_merges:
  assumes "flash_ok s" "unat a + length data \<le> flash_bytes" "length xfer = 256"
  shows "\<exists>s'. mcuflash_write_loop hw a data (word_of_nat (length data)) xfer s = Some s' \<and> flash_ok s'
    \<and> xip hw s' = and_range (xip hw s) (unat a) data"
  using assms
proof (induction "length data" arbitrary: a data xfer s rule: less_induct)
  case less
  show ?case
  proof (cases "data = []")
    case True
    then show ?thesis using less.prems by (simp add: mcuflash_write_loop.simps)
  next
    case False
    let ?off = "a AND (FLASH_PAGE_SIZE - 1)"
    have p2: "pow2 FLASH_PAGE_SIZE" by (rule pow2_numeral_intro [of 8]) (simp_all add: FLASH_PAGE_SIZE_def)
    have ps: "unat FLASH_PAGE_SIZE = 256" by (simp add: FLASH_PAGE_SIZE_def)
    have off: "unat ?off = unat a mod 256" using and_pow2_minus_1 [OF p2, of a] ps by simp
    have rest: "unat (FLASH_PAGE_SIZE - ?off) = 256 - unat a mod 256"
      using off ps by (subst unat_sub_no_wrap) simp_all
    have ld: "unat (word_of_nat (length data) :: u32) = length data"
      using less.prems(2) flash_bytes by (intro unat_of_nat_u32) simp
    define m where "m = min (length data) (256 - unat a mod 256)"
    define pl where "pl = (if (word_of_nat (length data) :: u32) < FLASH_PAGE_SIZE - ?off then word_of_nat (length data) else FLASH_PAGE_SIZE - ?off)"
    have pl: "unat pl = m" using ld rest by (auto simp: pl_def m_def word_less_nat_alt)
    have m: "0 < m" "m \<le> length data" "unat a mod 256 + m \<le> 256" using False by (auto simp: m_def)
    define pa where "pa = a - ?off"
    have pa: "unat pa = unat a - unat a mod 256" using off by (simp add: pa_def unat_sub_no_wrap)
    have pad: "256 dvd unat pa" "unat pa + unat a mod 256 = unat a" using pa by simp_all
    have pend: "unat pa + 256 \<le> flash_bytes"
    proof -
      have "unat pa < flash_bytes" using less.prems(2) False pad(2) by (cases data) auto
      then show ?thesis using pad(1) flash_bytes(2) by (auto elim!: dvdE)
    qed
    define page where "page = (if pl \<noteq> FLASH_PAGE_SIZE then range_of (xip hw s) (unat pa) 256 else xfer)"
    define x where "x = take (unat a mod 256) page @ take m data @ drop (unat a mod 256 + m) page"
    have lp: "length page = 256" using less.prems(3) by (simp add: page_def)
    have x: "store_at page (unat ?off) (take m data) = Some x" "length x = 256"
      using lp m by (simp_all add: store_at_def off x_def)
    obtain s1 where s1: "flash_range_program hw pa x s = Some s1" "flash_ok s1" "xip hw s1 = and_range (xip hw s) (unat pa) x"
      using range_program [OF less.prems(1) pad(1), of x] x(2) pend by auto
    have merged: "xip hw s1 = and_range (xip hw s) (unat a) (take m data)"
    proof (cases "pl = FLASH_PAGE_SIZE")
      case True
      then have "m = 256" "unat a mod 256 = 0" using pl ps m(3) by simp_all
      then show ?thesis using s1(3) lp pad(2) by (simp add: x_def)
    next
      case False
      then have "page = range_of (xip hw s) (unat pa) 256" by (simp add: page_def)
      then show ?thesis using and_range_merged [of "unat a mod 256" "take m data" 256 "xip hw s" "unat pa"] m s1(3) pad(2)
        by (simp add: x_def)
    qed
    have next_a: "unat (a + pl) = unat a + m"
      using less.prems(2) m(2) pl flash_bytes(1) by (subst unat_add_no_wrap) simp_all
    have next_n: "word_of_nat (length data) - pl = word_of_nat (length (drop m data))"
      using m(2) by (simp add: of_nat_diff pl [symmetric])
    obtain s2 where s2: "mcuflash_write_loop hw (a + pl) (drop m data) (word_of_nat (length (drop m data))) x s1 = Some s2"
        "flash_ok s2" "xip hw s2 = and_range (xip hw s1) (unat (a + pl)) (drop m data)"
    proof -
      have "length (drop m data) < length data" "unat (a + pl) + length (drop m data) \<le> flash_bytes"
        using m(1,2) less.prems(2) unfolding next_a by simp_all
      from less.hyps [OF this(1) s1(2) this(2) x(2)] show ?thesis using that by blast
    qed
    have "(word_of_nat (length data) :: u32) \<noteq> 0" using ld False by (metis length_0_conv unat_0)
    moreover have "m = 256" if "pl = FLASH_PAGE_SIZE" using pl ps that by simp
    ultimately have "mcuflash_write_loop hw a data (word_of_nat (length data)) xfer s = Some s2"
      using x(1) s1(1) s2(1) m(2) ps
      by (cases "pl = FLASH_PAGE_SIZE"; subst mcuflash_write_loop.simps)
        (simp_all add: Let_def pl_def [symmetric] pa_def [symmetric] pl nk_mcuflash_read_def load_from_def next_n page_def FLASH_PAGE_SIZE_def [symmetric])
    moreover have "xip hw s2 = and_range (xip hw s) (unat a) data"
      using and_range_append [of "xip hw s" "unat a" "take m data" "drop m data"] m(2) s2(3) merged next_a by simp
    ultimately show ?thesis using s2(2) by blast
  qed
qed

end

text \<open>With erase blocks of any size the SDK can erase, the driver is what a file asks of a flash.\<close>

locale pico_blocks = pico_flash hw flash_ok flash_bytes
  for hw :: "'s pico_hw" and flash_ok flash_bytes +
  fixes block :: nat
  assumes block: "4096 dvd block"

context pico_blocks begin

sublocale flash: flash_device "nk_mcuflash_read hw" "nk_mcuflash_erase hw" "nk_mcuflash_write hw" True "xip hw" flash_ok block flash_bytes
proof unfold_locales
  have p2: "pow2 FLASH_SECTOR_SIZE" by (rule pow2_numeral_intro [of 12]) (simp_all add: FLASH_SECTOR_SIZE_def)
  have aligned: "x AND (FLASH_SECTOR_SIZE - 1) = 0 \<longleftrightarrow> 4096 dvd unat x" for x
    using and_pow2_minus_1 [OF p2, of x] by (simp add: unat_eq_zero [symmetric] dvd_eq_mod_eq_0 FLASH_SECTOR_SIZE_def)
  show "\<exists>s'. nk_mcuflash_erase hw s a n = Some (0, s') \<and> flash_ok s' \<and> xip hw s' = set_range (xip hw s) (unat a) (replicate block 0xFF)"
    if "flash_ok s" "unat n = block" "block dvd unat a" "unat a + block \<le> flash_bytes" for s a n
    using range_erase [of s a n] that block dvd_trans [OF block that(3)]
    by (auto simp: nk_mcuflash_erase_def aligned)
  show "\<exists>s'. nk_mcuflash_write hw s a bs = Some (0, s') \<and> flash_ok s' \<and> xip hw s' = set_range (xip hw s) (unat a) bs"
    if "flash_ok s" "unat a + length bs \<le> flash_bytes" "True \<longrightarrow> (\<forall>i. unat a \<le> i \<and> i < unat a + length bs \<longrightarrow> xip hw s i = 0xFF)" for s a bs
    using mcuflash_write_merges [OF that(1,2), of "replicate 256 0"] that(3)
    by (auto simp: nk_mcuflash_write_def and_range_erased)
qed (use flash_bytes in \<open>simp_all add: nk_mcuflash_read_def\<close>)

lemmas flash_device_axioms = flash.flash_device_axioms

end

section \<open>The flash as an array\<close>

definition pico_mem :: "(nat \<Rightarrow> u8) pico_hw" where
  "pico_mem = \<lparr>flash_range_erase = \<lambda>a n m. Some (set_range m (unat a) (replicate (unat n) 0xFF)),
     flash_range_program = \<lambda>a bs m. Some (and_range m (unat a) bs), xip = \<lambda>m. m\<rparr>"

interpretation pico_mem: pico_blocks pico_mem "\<lambda>_. True" 2097152 65536
  by unfold_locales (simp_all add: pico_mem_def)

end
