(* ===== verification/Ymodem.thy ===== *)
theory Ymodem
  imports Crc Infile Printf
begin

text \<open>
  The YMODEM file transfer, \<^verbatim>\<open>libnklabs/src/nkymodem.c\<close>, as this repository configures it
  (\<^verbatim>\<open>config/nkymodem_config.h\<close>: CRC packets, 1K packets allowed, YMODEM send, a start timeout of 3 seconds). The first part is the code of both
  ends. What an end puts on the serial line with \<open>nk_putc\<close> is appended to its field \<open>tx\<close>; characters received and
  timeouts are arguments of its event handlers. The file handler \<open>nk_yrecv_struct\<close> the user provides is a record of functions on a
  state of its own. The debug log, console messages and the calls that switch the UART and the command line
  over are left out, and registering the handlers again for the next event is implicit.
\<close>

section \<open>The sender\<close>

definition NK_YM_SOH :: u8 where "NK_YM_SOH = 0x01"
definition NK_YM_STX :: u8 where "NK_YM_STX = 0x02"
definition NK_YM_EOT :: u8 where "NK_YM_EOT = 0x04"
definition NK_YM_ACK :: u8 where "NK_YM_ACK = 0x06"
definition NK_YM_NAK :: u8 where "NK_YM_NAK = 0x15"
definition NK_YM_CAN :: u8 where "NK_YM_CAN = 0x18"
definition NK_YM_REQ :: u8 where "NK_YM_REQ = 0x43"
definition NK_YM_SHORT_PACKET_LEN :: nat where "NK_YM_SHORT_PACKET_LEN = 133"
definition NK_YM_LONG_PACKET_LEN :: nat where "NK_YM_LONG_PACKET_LEN = 1029"
definition NK_YM_TIMEOUT :: u8 where "NK_YM_TIMEOUT = 3"

lemmas ym_chars = NK_YM_SOH_def NK_YM_STX_def NK_YM_EOT_def NK_YM_ACK_def NK_YM_NAK_def NK_YM_CAN_def NK_YM_REQ_def
lemmas ym_lens = NK_YM_SHORT_PACKET_LEN_def NK_YM_LONG_PACKET_LEN_def

datatype send_status = YMODEM_SEND_STATUS_MORE | YMODEM_SEND_STATUS_DONE | YMODEM_SEND_STATUS_CANCEL

record 's ysend =
  ymodem_send_eot :: bool
  ymodem_send_fin :: bool
  ymodem_send_seq :: u8
  ymodem_send_hdr :: bool
  ymodem_send_block_size :: u16
  packet_buf :: bytes
  ysend_file :: "'s nkinfile"
  send_tx :: bytes

definition ymodem_setup_header :: "'s ysend \<Rightarrow> 's ysend option" where
  "ymodem_setup_header s = do {
     buf \<leftarrow> store_at (packet_buf s) 0 [NK_YM_SOH, ymodem_send_seq s, NOT (ymodem_send_seq s)];
     data \<leftarrow> load_from buf 3 128;
     let crc = nk_crc16be_check data;
     buf \<leftarrow> store_at buf 131 [ucast (drop_bit 8 crc), ucast crc];
     Some (s\<lparr>packet_buf := buf, ymodem_send_block_size := 133\<rparr>)
   }"

definition ymodem_prepare_fin :: "'s ysend \<Rightarrow> 's ysend option" where
  "ymodem_prepare_fin s = do {
     buf \<leftarrow> store_at (packet_buf s) 3 (replicate 128 0);
     ymodem_setup_header (s\<lparr>packet_buf := buf, ymodem_send_seq := 0\<rparr>)
   }"

text \<open>The first loop of \<open>ymodem_prepare_next\<close>, with \<open>n\<close> characters to go; it returns the index it stopped at.\<close>

fun load_block :: "nat \<Rightarrow> 's ysend \<Rightarrow> (nat \<times> 's ysend) option" where
  "load_block 0 s = Some (128, s)"
| "load_block (Suc n) s = do {
     (c, f) \<leftarrow> nk_fgetc (ysend_file s);
     let s = s\<lparr>ysend_file := f\<rparr>;
     if c = -1 then Some (128 - Suc n, s)
     else do {
       buf \<leftarrow> store_at (packet_buf s) (3 + (128 - Suc n)) [word_of_int c];
       load_block n (s\<lparr>packet_buf := buf\<rparr>)
     }
   }"

definition ymodem_prepare_next :: "'s ysend \<Rightarrow> (bool \<times> 's ysend) option" where
  "ymodem_prepare_next s = do {
     (x, s) \<leftarrow> load_block 128 s;
     if x = 0 then Some (False, s)
     else do {
       buf \<leftarrow> store_at (packet_buf s) (3 + x) (replicate (128 - x) 0);
       s \<leftarrow> ymodem_setup_header (s\<lparr>packet_buf := buf\<rparr>);
       Some (True, s)
     }
   }"

definition send_putc :: "u8 \<Rightarrow> 's ysend \<Rightarrow> 's ysend" where
  "send_putc c s = s\<lparr>send_tx := send_tx s @ [c]\<rparr>"

definition ymodem_send_block :: "'s ysend \<Rightarrow> 's ysend option" where
  "ymodem_send_block s = do {
     block \<leftarrow> load_from (packet_buf s) 0 (unat (ymodem_send_block_size s));
     Some (s\<lparr>send_tx := send_tx s @ block\<rparr>)
   }"

definition nk_ysend_evt :: "u8 \<Rightarrow> 's ysend \<Rightarrow> (send_status \<times> 's ysend) option" where
  "nk_ysend_evt c s =
     (if c = 0x43 \<or> c = NK_YM_NAK then
        if ymodem_send_eot s then Some (YMODEM_SEND_STATUS_MORE, send_putc NK_YM_EOT s)
        else do { s \<leftarrow> ymodem_send_block s; Some (YMODEM_SEND_STATUS_MORE, s) }
      else if c = NK_YM_ACK then
        if ymodem_send_eot s then do {
          s \<leftarrow> ymodem_prepare_fin (s\<lparr>ymodem_send_eot := False\<rparr>);
          Some (YMODEM_SEND_STATUS_MORE, s\<lparr>ymodem_send_fin := True, ymodem_send_hdr := True\<rparr>)
        }
        else if ymodem_send_fin s then Some (YMODEM_SEND_STATUS_DONE, s)
        else do {
          (ready, s) \<leftarrow> ymodem_prepare_next (s\<lparr>ymodem_send_seq := ymodem_send_seq s + 1\<rparr>);
          if ready then
            if ymodem_send_hdr s then Some (YMODEM_SEND_STATUS_MORE, s\<lparr>ymodem_send_hdr := False\<rparr>)
            else do { s \<leftarrow> ymodem_send_block s; Some (YMODEM_SEND_STATUS_MORE, s) }
          else (let s = s\<lparr>ymodem_send_eot := True\<rparr> in
            if ymodem_send_hdr s then Some (YMODEM_SEND_STATUS_MORE, s\<lparr>ymodem_send_hdr := False\<rparr>)
            else Some (YMODEM_SEND_STATUS_MORE, send_putc NK_YM_EOT s))
        }
      else if c = NK_YM_CAN then Some (YMODEM_SEND_STATUS_CANCEL, s)
      else Some (YMODEM_SEND_STATUS_MORE, s))"

text \<open>The callback takes the characters that have been received until there are no more or the transfer is over.\<close>

fun ymodem_send_task :: "bytes \<Rightarrow> 's ysend \<Rightarrow> (send_status \<times> 's ysend) option" where
  "ymodem_send_task [] s = Some (YMODEM_SEND_STATUS_MORE, s)"
| "ymodem_send_task (c # cs) s = do {
     (sta, s) \<leftarrow> nk_ysend_evt c s;
     if sta = YMODEM_SEND_STATUS_MORE then ymodem_send_task cs s else Some (sta, s)
   }"

definition nk_ysend_file :: "bytes \<Rightarrow> 's nkinfile \<Rightarrow> bytes \<Rightarrow> u32 \<Rightarrow> 's ysend \<Rightarrow> 's ysend option" where
  "nk_ysend_file packet_buffer file name file_size s = do {
     let s = s\<lparr>packet_buf := packet_buffer, ysend_file := file, ymodem_send_eot := False, ymodem_send_fin := False,
               ymodem_send_seq := 0\<rparr>;
     buf \<leftarrow> store_at (packet_buf s) 3 (replicate 128 0);
     (_, dest) \<leftarrow> nk_snprintf (drop 3 buf) 125 ''%s%c%lu'' [VStr name, VInt 0, VLong file_size];
     s \<leftarrow> ymodem_setup_header (s\<lparr>packet_buf := take 3 buf @ dest\<rparr>);
     Some (s\<lparr>ymodem_send_hdr := True\<rparr>)
   }"

section \<open>The receiver\<close>

datatype recv_status =
    YMODEM_RECV_DONE
  | YMODEM_RECV_REMOTE_CANCEL
  | YMODEM_RECV_OPEN_CANCEL
  | YMODEM_RECV_SYNC_CANCEL
  | YMODEM_RECV_MORE
  | YMODEM_RECV_PURGE

record 's nk_yrecv_struct =
  y_xname :: bytes
  y_open :: "bytes \<Rightarrow> 's \<Rightarrow> (int \<times> 's) option"
  y_write :: "bytes \<Rightarrow> 's \<Rightarrow> 's option"
  y_close :: "'s \<Rightarrow> 's option"
  y_cancel :: "'s \<Rightarrow> 's option"
  y_all_done :: "'s \<Rightarrow> 's option"

record 's yrecv =
  ymodem_opened :: bool
  ymodem_got_eot :: bool
  ymodem_purge :: bool
  ymodem_first :: bool
  ymodem_can :: bool
  ymodem_to :: u8
  ymodem_xmodem :: bool
  ymodem_old_seq :: u8
  ymodem_seq :: u8
  ymodem_file_size :: u32
  crc_count :: u32
  long_count :: u32
  laststatus :: "recv_status option"
  yrecv_mode :: nat
  yrecv_len :: nat
  max_len :: nat
  packet_buffer :: bytes
  recv_tx :: bytes
  user :: 's

definition recv_putc :: "u8 \<Rightarrow> 's yrecv \<Rightarrow> 's yrecv" where
  "recv_putc c r = r\<lparr>recv_tx := recv_tx r @ [c]\<rparr>"

definition ymodem_recv_init :: "'s yrecv \<Rightarrow> 's yrecv" where
  "ymodem_recv_init r = recv_putc NK_YM_REQ
     (r\<lparr>ymodem_opened := False, ymodem_got_eot := False, ymodem_purge := False, ymodem_seq := 0, ymodem_first := False,
        ymodem_can := False, ymodem_to := NK_YM_TIMEOUT, ymodem_xmodem := False\<rparr>)"

text \<open>The CRC over the data of a packet and its CRC bytes is zero.\<close>

definition ymcrc_check :: "bytes \<Rightarrow> nat \<Rightarrow> 's yrecv \<Rightarrow> (bool \<times> 's yrecv) option" where
  "ymcrc_check rcvbuf len r = do {
     data \<leftarrow> load_from rcvbuf 3 len;
     if nk_crc16be_check data = 0 then Some (True, r\<lparr>crc_count := crc_count r + 1\<rparr>) else Some (False, r)
   }"

text \<open>The test of a packet: lead character, sequence number and its complement, then the CRC.\<close>

definition packet_ok :: "bytes \<Rightarrow> u8 \<Rightarrow> (u8 \<Rightarrow> bool) \<Rightarrow> nat \<Rightarrow> 's yrecv \<Rightarrow> (bool \<times> 's yrecv) option" where
  "packet_ok rcvbuf lead seq_ok len r = do {
     c0 \<leftarrow> deref rcvbuf 0;
     c1 \<leftarrow> deref rcvbuf 1;
     c2 \<leftarrow> deref rcvbuf 2;
     if c0 = lead \<and> seq_ok c1 \<and> c1 XOR 0xFF = c2 then ymcrc_check rcvbuf (len - 3) r else Some (False, r)
   }"

text \<open>The library functions \<open>strlen\<close> and \<open>atoi\<close> on memory that has to hold the end of the string or number;
  a number that \<open>int\<close> cannot hold has no value.\<close>

fun atoi_digits :: "int \<Rightarrow> bytes \<Rightarrow> int option" where
  "atoi_digits n [] = None"
| "atoi_digits n (c # cs) =
     (if 48 \<le> c \<and> c \<le> 57 then
        (let n = n * 10 + uint (c - 48) in if n < 2 ^ 31 then atoi_digits n cs else None)
      else Some n)"

fun atoi :: "bytes \<Rightarrow> int option" where
  "atoi [] = None"
| "atoi (c # cs) =
     (if c = 32 \<or> 9 \<le> c \<and> c \<le> 13 then atoi cs
      else if c = 45 then map_option uminus (atoi_digits 0 cs)
      else if c = 43 then atoi_digits 0 cs
      else atoi_digits 0 (c # cs))"

text \<open>Taking the bytes of a packet of \<open>this_size\<close> data bytes, limited to what is left of the exact file size.\<close>

definition write_data :: "'s nk_yrecv_struct \<Rightarrow> bytes \<Rightarrow> u32 \<Rightarrow> 's yrecv \<Rightarrow> 's yrecv option" where
  "write_data yr rcvbuf this_size r =
     (let (this_size, r) =
        (if this_size > ymodem_file_size r then (ymodem_file_size r, r\<lparr>ymodem_file_size := 0\<rparr>)
         else (this_size, r\<lparr>ymodem_file_size := ymodem_file_size r - this_size\<rparr>))
      in if this_size \<noteq> 0 then do {
           data \<leftarrow> load_from rcvbuf 3 (unat this_size);
           u \<leftarrow> y_write yr data (user r);
           Some (r\<lparr>user := u\<rparr>)
         }
         else Some r)"

definition recv_header ::
  "'s nk_yrecv_struct \<Rightarrow> bytes \<Rightarrow> 's yrecv \<Rightarrow> (recv_status \<times> 's yrecv) option" where
  "recv_header yr rcvbuf r = do {
     let r = r\<lparr>ymodem_can := False, ymodem_to := 0\<rparr>;
     c3 \<leftarrow> deref rcvbuf 3;
     if c3 = 0 then Some (YMODEM_RECV_DONE, recv_putc NK_YM_ACK r)
     else do {
       name_len \<leftarrow> strlen (drop 3 rcvbuf);
       c \<leftarrow> deref rcvbuf (3 + unat name_len + 1);
       size \<leftarrow> (if c \<noteq> 0 then map_option word_of_int (atoi (drop (3 + unat name_len + 1) rcvbuf)) else Some 0xffffffff);
       (res, u) \<leftarrow> y_open yr (drop 3 rcvbuf) (user r);
       let r = r\<lparr>ymodem_file_size := size, user := u\<rparr>;
       if res = 0 then
         Some (YMODEM_RECV_MORE, (recv_putc NK_YM_ACK r)\<lparr>ymodem_old_seq := 0, ymodem_seq := 1, ymodem_opened := True, ymodem_first := True\<rparr>)
       else Some (YMODEM_RECV_OPEN_CANCEL, recv_putc NK_YM_CAN (recv_putc NK_YM_CAN r))
     }
   }"

definition recv_anonymous ::
  "'s nk_yrecv_struct \<Rightarrow> bytes \<Rightarrow> 's yrecv \<Rightarrow> (recv_status \<times> 's yrecv) option" where
  "recv_anonymous yr rcvbuf r = do {
     let r = r\<lparr>ymodem_can := False, ymodem_to := 0, ymodem_file_size := 0xffffffff\<rparr>;
     (res, u) \<leftarrow> y_open yr (y_xname yr) (user r);
     let r = r\<lparr>user := u\<rparr>;
     if res = 0 then do {
       r \<leftarrow> write_data yr rcvbuf 128
         (r\<lparr>ymodem_old_seq := 1, ymodem_seq := 2, ymodem_opened := True, ymodem_xmodem := True, ymodem_first := False\<rparr>);
       Some (YMODEM_RECV_MORE, recv_putc NK_YM_ACK r)
     }
     else Some (YMODEM_RECV_OPEN_CANCEL, recv_putc NK_YM_CAN (recv_putc NK_YM_CAN r))
   }"

definition recv_waiting ::
  "'s nk_yrecv_struct \<Rightarrow> bytes \<Rightarrow> nat \<Rightarrow> 's yrecv \<Rightarrow> (recv_status \<times> 's yrecv) option" where
  "recv_waiting yr rcvbuf len r =
     (if len = 0 then
        if ymodem_to r \<noteq> 0 then Some (YMODEM_RECV_MORE, r\<lparr>ymodem_to := ymodem_to r - 1\<rparr>)
        else Some (YMODEM_RECV_MORE, ymodem_recv_init r)
      else do {
        c0 \<leftarrow> deref rcvbuf 0;
        if len = 1 \<and> c0 = NK_YM_CAN then
          if ymodem_can r then Some (YMODEM_RECV_REMOTE_CANCEL, r)
          else Some (YMODEM_RECV_MORE, r\<lparr>ymodem_can := True, ymodem_to := NK_YM_TIMEOUT\<rparr>)
        else do {
          (hdr, r) \<leftarrow> (if len = NK_YM_SHORT_PACKET_LEN \<or> len = NK_YM_LONG_PACKET_LEN
            then packet_ok rcvbuf NK_YM_SOH (\<lambda>seq. seq = 0) NK_YM_SHORT_PACKET_LEN r else Some (False, r));
          if hdr then recv_header yr rcvbuf r
          else do {
            (anon, r) \<leftarrow> (if len = NK_YM_SHORT_PACKET_LEN \<or> len = NK_YM_LONG_PACKET_LEN
              then packet_ok rcvbuf NK_YM_SOH (\<lambda>seq. seq = 1) NK_YM_SHORT_PACKET_LEN r else Some (False, r));
            if anon then recv_anonymous yr rcvbuf r
            else Some (YMODEM_RECV_PURGE, r\<lparr>ymodem_can := False, ymodem_purge := True, ymodem_to := 0\<rparr>)
          }
        }
      })"

definition recv_data ::
  "'s nk_yrecv_struct \<Rightarrow> bytes \<Rightarrow> nat \<Rightarrow> 's yrecv \<Rightarrow> (recv_status \<times> 's yrecv) option" where
  "recv_data yr rcvbuf len r = do {
     let r = r\<lparr>ymodem_got_eot := False, ymodem_can := False\<rparr>;
     c0 \<leftarrow> deref rcvbuf 0;
     c1 \<leftarrow> deref rcvbuf 1;
     if c1 = ymodem_old_seq r then Some (YMODEM_RECV_MORE, recv_putc NK_YM_ACK r)
     else if c1 \<noteq> ymodem_seq r then do {
       let r = recv_putc NK_YM_CAN (recv_putc NK_YM_CAN r);
       u \<leftarrow> y_cancel yr (user r);
       Some (YMODEM_RECV_SYNC_CANCEL, r\<lparr>user := u\<rparr>)
     }
     else do {
       r \<leftarrow> write_data yr rcvbuf (word_of_nat len - 5) r;
       let r = r\<lparr>ymodem_first := False, ymodem_old_seq := ymodem_seq r, ymodem_seq := ymodem_seq r + 1\<rparr>;
       let r = recv_putc NK_YM_ACK r;
       Some (YMODEM_RECV_MORE, if c0 = NK_YM_STX then r\<lparr>long_count := long_count r + 1\<rparr> else r)
     }
   }"

definition recv_eot ::
  "'s nk_yrecv_struct \<Rightarrow> 's yrecv \<Rightarrow> (recv_status \<times> 's yrecv) option" where
  "recv_eot yr r =
     (let r = r\<lparr>ymodem_can := False\<rparr> in
      if ymodem_xmodem r then do {
        u \<leftarrow> y_close yr (user r);
        Some (YMODEM_RECV_DONE, recv_putc NK_YM_ACK (r\<lparr>user := u\<rparr>))
      }
      else if ymodem_got_eot r then do {
        u \<leftarrow> y_close yr (user r);
        Some (YMODEM_RECV_MORE, (ymodem_recv_init (recv_putc NK_YM_ACK (r\<lparr>user := u\<rparr>)))\<lparr>ymodem_to := 0\<rparr>)
      }
      else Some (YMODEM_RECV_MORE, recv_putc NK_YM_NAK (r\<lparr>ymodem_got_eot := True\<rparr>)))"

definition recv_opened ::
  "'s nk_yrecv_struct \<Rightarrow> bytes \<Rightarrow> nat \<Rightarrow> 's yrecv \<Rightarrow> (recv_status \<times> 's yrecv) option" where
  "recv_opened yr rcvbuf len r =
     (if len = 0 then
        (let r = r\<lparr>ymodem_got_eot := False, ymodem_can := False\<rparr> in
         Some (YMODEM_RECV_MORE, recv_putc (if ymodem_first r then NK_YM_REQ else NK_YM_NAK) r))
      else do {
        c0 \<leftarrow> deref rcvbuf 0;
        if len = 1 \<and> c0 = NK_YM_CAN then
          (let r = r\<lparr>ymodem_got_eot := False\<rparr> in
           if ymodem_can r then do { u \<leftarrow> y_cancel yr (user r); Some (YMODEM_RECV_REMOTE_CANCEL, r\<lparr>user := u\<rparr>) }
           else Some (YMODEM_RECV_MORE, r\<lparr>ymodem_can := True\<rparr>))
        else do {
          (short, r) \<leftarrow> (if len = NK_YM_SHORT_PACKET_LEN
            then packet_ok rcvbuf NK_YM_SOH (\<lambda>_. True) NK_YM_SHORT_PACKET_LEN r else Some (False, r));
          (good, r) \<leftarrow> (if short then Some (True, r)
            else if len = NK_YM_LONG_PACKET_LEN
            then packet_ok rcvbuf NK_YM_STX (\<lambda>_. True) NK_YM_LONG_PACKET_LEN r else Some (False, r));
          if good then recv_data yr rcvbuf len r
          else if len = 1 \<and> c0 = NK_YM_EOT then recv_eot yr r
          else Some (YMODEM_RECV_PURGE, r\<lparr>ymodem_got_eot := False, ymodem_can := False, ymodem_purge := True\<rparr>)
        }
      })"

definition ymodem_rcv ::
  "'s nk_yrecv_struct \<Rightarrow> bytes \<Rightarrow> nat \<Rightarrow> 's yrecv \<Rightarrow> (recv_status \<times> 's yrecv) option" where
  "ymodem_rcv yr rcvbuf len r =
     (if ymodem_purge r then
        if len \<noteq> 0 then Some (YMODEM_RECV_PURGE, r)
        else Some (YMODEM_RECV_MORE, (recv_putc NK_YM_REQ r)\<lparr>ymodem_purge := False\<rparr>)
      else if \<not> ymodem_opened r then recv_waiting yr rcvbuf len r
      else recv_opened yr rcvbuf len r)"

text \<open>A full packet, or the end of a timeout: \<open>True\<close> when the transfer is over.\<close>

definition process_full_outer :: "'s nk_yrecv_struct \<Rightarrow> 's yrecv \<Rightarrow> (bool \<times> 's yrecv) option" where
  "process_full_outer yr r = do {
     (sta, r) \<leftarrow> ymodem_rcv yr (packet_buffer r) (yrecv_len r) r;
     let r = r\<lparr>yrecv_len := 0\<rparr>;
     if sta = YMODEM_RECV_PURGE then Some (False, r\<lparr>yrecv_mode := 3\<rparr>)
     else if sta = YMODEM_RECV_MORE then Some (False, r\<lparr>yrecv_mode := 0\<rparr>)
     else do {
       u \<leftarrow> (if sta = YMODEM_RECV_DONE then y_all_done yr (user r) else Some (user r));
       Some (True, r\<lparr>laststatus := Some sta, user := u\<rparr>)
     }
   }"

definition recv_char :: "u8 \<Rightarrow> 's yrecv \<Rightarrow> (bool \<times> 's yrecv) option" where
  "recv_char c r = do {
     buf \<leftarrow> store_at (packet_buffer r) (yrecv_len r) [c];
     let r = r\<lparr>packet_buffer := buf, yrecv_len := yrecv_len r + 1\<rparr>;
     let r = (if yrecv_len r > max_len r then r\<lparr>max_len := yrecv_len r\<rparr> else r);
     if yrecv_mode r = 0 then
       if c = NK_YM_SOH then Some (False, r\<lparr>yrecv_mode := 1\<rparr>)
       else if c = NK_YM_STX then Some (False, r\<lparr>yrecv_mode := 2\<rparr>)
       else if c = NK_YM_CAN \<or> c = NK_YM_EOT then Some (True, r)
       else Some (False, r\<lparr>yrecv_len := 0\<rparr>)
     else if yrecv_mode r = 1 then
       if yrecv_len r = NK_YM_SHORT_PACKET_LEN then Some (True, r\<lparr>yrecv_mode := 0\<rparr>) else Some (False, r)
     else if yrecv_mode r = 2 then
       if yrecv_len r = NK_YM_LONG_PACKET_LEN then Some (True, r\<lparr>yrecv_mode := 0, long_count := long_count r + 1\<rparr>)
       else Some (False, r)
     else if yrecv_mode r = 3 then Some (False, r\<lparr>yrecv_len := 0\<rparr>)
     else Some (False, r)
   }"

fun recv_chars :: "'s nk_yrecv_struct \<Rightarrow> bytes \<Rightarrow> 's yrecv \<Rightarrow> (bool \<times> 's yrecv) option" where
  "recv_chars yr [] r = Some (False, r)"
| "recv_chars yr (c # cs) r = do {
     (gotit, r) \<leftarrow> recv_char c r;
     (over, r) \<leftarrow> (if gotit then process_full_outer yr r else Some (False, r));
     if over then Some (True, r) else recv_chars yr cs r
   }"

text \<open>The handler, called with the characters received (\<open>Some\<close>) or by the timeout (\<open>None\<close>).\<close>

definition ymodem_recv_task :: "'s nk_yrecv_struct \<Rightarrow> bytes option \<Rightarrow> 's yrecv \<Rightarrow> (bool \<times> 's yrecv) option" where
  "ymodem_recv_task yr data r =
     (case data of
        None \<Rightarrow> process_full_outer yr (r\<lparr>yrecv_len := 0\<rparr>)
      | Some cs \<Rightarrow> recv_chars yr cs r)"

definition nk_yrecv :: "'s yrecv \<Rightarrow> 's yrecv" where
  "nk_yrecv r = ymodem_recv_init (r\<lparr>long_count := 0, crc_count := 0\<rparr>)"

section \<open>Packets\<close>

text \<open>A packet: lead character, sequence number, its complement, the data, the CRC.\<close>

definition packet :: "u8 \<Rightarrow> u8 \<Rightarrow> bytes \<Rightarrow> bytes" where
  "packet lead sq data = [lead, sq, NOT sq] @ data @ be_bytes16 (nk_crc16be_check data)"

lemma length_packet [simp]: "length (packet lead sq data) = length data + 5"
  by (simp add: packet_def be_bytes16_def)

lemma packet_nth [simp]:
  "packet lead sq data ! 0 = lead" "packet lead sq data ! Suc 0 = sq" "packet lead sq data ! 2 = NOT sq"
  by (simp_all add: packet_def numeral_2_eq_2)

lemma packet_data: "take (length data) (drop 3 (packet lead sq data)) = data"
  by (simp add: packet_def)

lemma packet_crc: "drop 3 (packet lead sq data) = data @ be_bytes16 (nk_crc16be_check data)"
  by (simp add: packet_def)

lemma packet_crc_zero: "nk_crc16be_check (drop 3 (packet lead sq data)) = 0"
  unfolding packet_crc by (rule crc16be.append_check [unfolded nk_crc16be_check_def [symmetric]])

lemma not_xor_255: "(c :: u8) XOR 0xFF = NOT c"
proof -
  have "(0xFF :: u8) = - 1" by simp
  then show ?thesis by (simp only: bit.xor_one_right)
qed

text \<open>The memory of a packet buffer that starts with a packet.\<close>

lemma buffer_nth: "i < length p \<Longrightarrow> deref (p @ rest) i = Some (p ! i)"
  by (simp add: deref_def nth_append)

lemma buffer_load: "i + n \<le> length p \<Longrightarrow> load_from (p @ rest) i n = Some (take n (drop i p))"
  by (simp add: load_from_def)

lemma packet_ok_packet:
  assumes "length data + 5 = len" "lead' = lead" "seq_ok sq"
  shows "packet_ok (packet lead sq data @ rest) lead' seq_ok len r = Some (True, r\<lparr>crc_count := crc_count r + 1\<rparr>)"
proof -
  have "take (len - 3) (drop 3 (packet lead sq data)) = drop 3 (packet lead sq data)" using assms(1) by simp
  then show ?thesis
    using assms packet_crc_zero [of lead sq data]
    by (simp add: packet_ok_def ymcrc_check_def buffer_nth buffer_load not_xor_255)
qed

text \<open>Whatever is wrong with a packet, the receiver sees that it is.\<close>

definition bad_packet :: "bytes \<Rightarrow> bool" where
  "bad_packet p \<longleftrightarrow> length p = 133 \<and> p ! 0 = NK_YM_SOH \<and> (p ! Suc 0 XOR 0xFF \<noteq> p ! 2 \<or> nk_crc16be_check (drop 3 p) \<noteq> 0)"

lemma packet_ok_bad:
  assumes "bad_packet p"
  shows "packet_ok (p @ rest) lead seq_ok 133 r = Some (False, r)"
proof -
  have "take 130 (drop 3 p) = drop 3 p" using assms by (simp add: bad_packet_def)
  then show ?thesis
    using assms by (auto simp: packet_ok_def ymcrc_check_def buffer_nth buffer_load bad_packet_def)
qed

lemma packet_ok_wrong:
  assumes "2 < length p" "p ! 0 \<noteq> lead \<or> \<not> seq_ok (p ! Suc 0)"
  shows "packet_ok (p @ rest) lead seq_ok len r = Some (False, r)"
proof -
  have "p \<noteq> []" "Suc 0 < length p" using assms(1) by auto
  then show ?thesis using assms by (auto simp: packet_ok_def buffer_nth)
qed

section \<open>Collecting a packet\<close>

text \<open>The receiver between packets.\<close>

definition collecting :: "'s yrecv \<Rightarrow> bool" where
  "collecting r \<longleftrightarrow> 1029 \<le> length (packet_buffer r) \<and> yrecv_len r = 0"

lemma store_first: "1029 \<le> length buf \<Longrightarrow> store_at buf 0 [c] = Some (c # drop 1 buf)"
  by (simp add: store_at_def)

lemma bind_over: "x \<bind> (\<lambda>(over, r). if over then Some (True, r) else recv_chars yr [] r) = x"
  by (cases x) auto

lemma recv_chars_short:
  assumes "length (packet_buffer r) \<ge> 1029" "yrecv_mode r = 1" "yrecv_len r + length cs = 133" "cs \<noteq> []"
  shows "\<exists>m. recv_chars yr cs r = process_full_outer yr
     (r\<lparr>packet_buffer := take (yrecv_len r) (packet_buffer r) @ cs @ drop 133 (packet_buffer r),
        yrecv_len := 133, max_len := m, yrecv_mode := 0\<rparr>)"
  using assms
proof (induction cs arbitrary: r)
  case (Cons c cs)
  let ?r = "r\<lparr>packet_buffer := (packet_buffer r)[yrecv_len r := c], yrecv_len := Suc (yrecv_len r),
     max_len := max (max_len r) (Suc (yrecv_len r))\<rparr>"
  show ?case
  proof (cases cs)
    case Nil
    then have "yrecv_len r = 132" using Cons.prems by simp
    then have "recv_char c r = Some (True, ?r\<lparr>yrecv_mode := 0\<rparr>)"
      using Cons.prems by (simp add: recv_char_def Let_def buf_simps ym_lens max_def)
    then show ?thesis
      using Nil Cons.prems \<open>yrecv_len r = 132\<close>
      by (intro exI [of _ "max (max_len r) 133"]) (simp add: upd_conv_take_nth_drop bind_over)
  next
    case (Cons c' cs')
    have "recv_char c r = Some (False, ?r)"
      using Cons.prems Cons by (simp add: recv_char_def Let_def buf_simps ym_lens max_def)
    moreover obtain m where "recv_chars yr cs ?r = process_full_outer yr
        (?r\<lparr>packet_buffer := take (Suc (yrecv_len r)) (packet_buffer ?r) @ cs @ drop 133 (packet_buffer ?r),
          yrecv_len := 133, max_len := m, yrecv_mode := 0\<rparr>)"
      using Cons.IH [of ?r] Cons.prems Cons by auto
    moreover have "take (Suc (yrecv_len r)) (packet_buffer ?r) = take (yrecv_len r) (packet_buffer r) @ [c]"
      "drop 133 (packet_buffer ?r) = drop 133 (packet_buffer r)"
      using Cons.prems Cons by (simp_all add: take_Suc_conv_app_nth)
    ultimately show ?thesis by (intro exI [of _ m]) simp
  qed
qed simp

lemma recv_packet:
  assumes "collecting r" "yrecv_mode r = 0" "length p = 133" "p ! 0 = NK_YM_SOH"
  obtains m where "ymodem_recv_task yr (Some p) r = process_full_outer yr
     (r\<lparr>packet_buffer := p @ drop 133 (packet_buffer r), yrecv_len := 133, max_len := m, yrecv_mode := 0\<rparr>)"
proof -
  obtain cs where p: "p = NK_YM_SOH # cs" "length cs = 132" using assms(3,4) by (cases p) auto
  let ?r = "r\<lparr>packet_buffer := NK_YM_SOH # drop 1 (packet_buffer r), yrecv_len := 1, max_len := max (max_len r) 1, yrecv_mode := 1\<rparr>"
  have buf: "1029 \<le> length (packet_buffer r)" "yrecv_len r = 0" using assms(1) by (simp_all add: collecting_def)
  then have "recv_char NK_YM_SOH r = Some (False, ?r)"
    using assms(2) by (simp add: recv_char_def Let_def max_def store_first)
  moreover obtain m where "recv_chars yr cs ?r = process_full_outer yr (?r\<lparr>packet_buffer := take 1 (packet_buffer ?r) @ cs @ drop 133 (packet_buffer ?r),
        yrecv_len := 133, max_len := m, yrecv_mode := 0\<rparr>)"
    using recv_chars_short [of ?r cs yr] buf p(2) by (force simp: le_diff_conv)
  moreover have "take 1 (packet_buffer ?r) = [NK_YM_SOH]" "drop 133 (packet_buffer ?r) = drop 133 (packet_buffer r)"
    using buf by simp_all
  ultimately show ?thesis using that [of m] by (simp add: ymodem_recv_task_def p(1))
qed

text \<open>A single end-of-transmission character.\<close>

lemma recv_eot_char:
  assumes "collecting r" "yrecv_mode r = 0"
  obtains m where "ymodem_recv_task yr (Some [NK_YM_EOT]) r = process_full_outer yr
     (r\<lparr>packet_buffer := NK_YM_EOT # drop 1 (packet_buffer r), yrecv_len := 1, max_len := m\<rparr>)"
proof -
  have "recv_char NK_YM_EOT r = Some (True, r\<lparr>packet_buffer := NK_YM_EOT # drop 1 (packet_buffer r), yrecv_len := 1, max_len := max (max_len r) 1\<rparr>)"
    using assms by (simp add: recv_char_def Let_def max_def collecting_def store_first ym_chars)
  then show ?thesis using that [of "max (max_len r) 1"] by (simp add: ymodem_recv_task_def bind_over)
qed

text \<open>While purging, characters are ignored.\<close>

lemma recv_purging:
  assumes "collecting r" "yrecv_mode r = 3"
  obtains r' where "ymodem_recv_task yr (Some cs) r = Some (False, r')" "collecting r'"
    "\<exists>buf m. r' = r\<lparr>packet_buffer := buf, max_len := m\<rparr>"
proof -
  have "\<exists>buf m. recv_chars yr cs r = Some (False, r\<lparr>packet_buffer := buf, max_len := m\<rparr>) \<and> 1029 \<le> length buf"
    using assms
  proof (induction cs arbitrary: r)
    case (Cons c cs)
    let ?r = "r\<lparr>packet_buffer := c # drop 1 (packet_buffer r), max_len := max (max_len r) 1\<rparr>"
    have len: "1029 \<le> length (packet_buffer r)" "yrecv_len r = 0" using Cons.prems by (auto simp: collecting_def)
    then have "recv_char c r = Some (False, ?r)"
      using Cons.prems by (simp add: recv_char_def Let_def max_def store_first)
    moreover have ok: "collecting ?r" using len by (simp add: collecting_def)
    moreover obtain buf m where "recv_chars yr cs ?r = Some (False, ?r\<lparr>packet_buffer := buf, max_len := m\<rparr>)" "1029 \<le> length buf"
      using Cons.IH [of ?r] Cons.prems(2) ok by auto
    ultimately show ?case by (intro exI [of _ buf] exI [of _ m]) simp
  next
    case (Nil r)
    then show ?case by (intro exI [of _ "packet_buffer r"] exI [of _ "max_len r"]) (simp add: collecting_def)
  qed
  then obtain buf m where b: "recv_chars yr cs r = Some (False, r\<lparr>packet_buffer := buf, max_len := m\<rparr>)" "1029 \<le> length buf" by blast
  show ?thesis
  proof (rule that)
    show "ymodem_recv_task yr (Some cs) r = Some (False, r\<lparr>packet_buffer := buf, max_len := m\<rparr>)"
      using b(1) by (simp add: ymodem_recv_task_def)
    show "collecting (r\<lparr>packet_buffer := buf, max_len := m\<rparr>)"
      using b(2) assms(1) by (simp add: collecting_def)
  qed blast
qed

section \<open>What the sender sends\<close>

text \<open>The messages on the line, and the replies. \<open>MJunk\<close> is a packet damaged on the way.\<close>

datatype msg = MHdr | MBlk nat | MEot | MFin | MJunk
datatype reply = RReq | RNak | RAck

fun reply_char :: "reply \<Rightarrow> u8" where
  "reply_char RReq = NK_YM_REQ"
| "reply_char RNak = NK_YM_NAK"
| "reply_char RAck = NK_YM_ACK"

text \<open>The file in blocks of 128 bytes, numbered from 1, the last one filled up with zeros.\<close>

definition nblocks :: "bytes \<Rightarrow> nat" where
  "nblocks data = (length data + 127) div 128"

definition block_data :: "bytes \<Rightarrow> nat \<Rightarrow> bytes" where
  "block_data data i = take 128 (drop (128 * (i - 1)) data)"

definition block :: "bytes \<Rightarrow> nat \<Rightarrow> bytes" where
  "block data i = block_data data i @ replicate (128 - length (block_data data i)) 0"

lemma length_block [simp]: "length (block data i) = 128"
  by (simp add: block_def block_data_def)

fun wire :: "bytes \<Rightarrow> bytes \<Rightarrow> msg \<Rightarrow> bytes" where
  "wire hdr data MHdr = packet NK_YM_SOH 0 hdr"
| "wire hdr data (MBlk i) = packet NK_YM_SOH (word_of_nat i) (block data i)"
| "wire hdr data MEot = [NK_YM_EOT]"
| "wire hdr data MFin = packet NK_YM_SOH 0 (replicate 128 0)"
| "wire hdr data MJunk = []"

text \<open>The sender as a machine on the number of blocks: the header, then block \<open>i\<close>, the end of the file, and the packet that ends the batch.\<close>

datatype sphase = SH | SD nat | SE | SF | SDone

fun sstep :: "nat \<Rightarrow> sphase \<Rightarrow> reply \<Rightarrow> msg option \<times> sphase" where
  "sstep n SH r = (if r = RAck then (None, if n = 0 then SE else SD 1) else (Some MHdr, SH))"
| "sstep n (SD i) r =
     (if r = RAck then if i < n then (Some (MBlk (Suc i)), SD (Suc i)) else (Some MEot, SE) else (Some (MBlk i), SD i))"
| "sstep n SE r = (if r = RAck then (None, SF) else (Some MEot, SE))"
| "sstep n SF r = (if r = RAck then (None, SDone) else (Some MFin, SF))"
| "sstep n SDone r = (None, SDone)"

section \<open>The sender's packets\<close>

definition holds_packet :: "'s ysend \<Rightarrow> bytes \<Rightarrow> bool" where
  "holds_packet s p \<longleftrightarrow> 133 \<le> length (packet_buf s) \<and> take 133 (packet_buf s) = p \<and> ymodem_send_block_size s = 133"

lemma send_block_sends:
  "holds_packet s p \<Longrightarrow> ymodem_send_block s = Some (s\<lparr>send_tx := send_tx s @ p\<rparr>)"
  by (simp add: holds_packet_def ymodem_send_block_def buf_simps)

lemma setup_header_packet:
  assumes "133 \<le> length (packet_buf s)" "take 128 (drop 3 (packet_buf s)) = data"
  obtains buf where "ymodem_setup_header s = Some (s\<lparr>packet_buf := buf, ymodem_send_block_size := 133\<rparr>)"
    "take 133 buf = packet NK_YM_SOH (ymodem_send_seq s) data" "length buf = length (packet_buf s)"
proof -
  let ?h = "[NK_YM_SOH, ymodem_send_seq s, NOT (ymodem_send_seq s)]"
  have len: "length data = 128" using assms by auto
  have "drop 3 (packet_buf s) = data @ drop 131 (packet_buf s)"
    using append_take_drop_id [of 128 "drop 3 (packet_buf s)"] assms(2) by simp
  then have "store_at (packet_buf s) 0 ?h = Some (?h @ data @ drop 131 (packet_buf s))"
    using assms(1) by (simp add: store_at_def numeral_3_eq_3)
  moreover have "load_from (?h @ data @ drop 131 (packet_buf s)) 3 128 = Some data"
    using len by (simp add: load_from_def)
  moreover have "store_at (?h @ data @ drop 131 (packet_buf s)) 131 [ucast (drop_bit 8 crc), ucast crc]
      = Some (?h @ data @ be_bytes16 crc @ drop 133 (packet_buf s))" for crc :: u16
    using len assms(1) by (simp add: store_at_def be_bytes16_def)
  ultimately have "ymodem_setup_header s = Some (s\<lparr>packet_buf := packet NK_YM_SOH (ymodem_send_seq s) data @ drop 133 (packet_buf s),
      ymodem_send_block_size := 133\<rparr>)"
    by (simp add: ymodem_setup_header_def packet_def Let_def)
  then show ?thesis using that len assms(1) by simp
qed

lemma take_update_last: "i < length xs \<Longrightarrow> take (Suc i) (xs[i := v]) = take i xs @ [v]"
  by (simp add: take_Suc_conv_app_nth)

context reader
begin

lemma load_block_loads:
  assumes "view (ysend_file s) data p" "131 \<le> length (packet_buf s)" "n \<le> 128"
  shows "\<exists>f buf. load_block n s = Some (128 - n + min n (length data - p), s\<lparr>ysend_file := f, packet_buf := buf\<rparr>)
    \<and> view f data (min (p + n) (length data)) \<and> length buf = length (packet_buf s)
    \<and> take (3 + (128 - n) + min n (length data - p)) buf = take (3 + (128 - n)) (packet_buf s) @ take n (drop p data)"
  using assms
proof (induction n arbitrary: s p)
  case 0
  then have "p \<le> length data" using view_less by blast
  with 0 show ?case by (intro exI [of _ "ysend_file s"] exI [of _ "packet_buf s"]) (simp add: min_def)
next
  case (Suc n)
  have p: "p \<le> length data" using view_less [OF Suc.prems(1)] by simp
  show ?case
  proof (cases "p = length data")
    case True
    then obtain f where f: "nk_fgetc (ysend_file s) = Some (-1, f)" "view f data (length data)"
      using operations_view [OF Suc.prems(1)] by (auto simp: char_at_def)
    then show ?thesis using True Suc.prems
      by (intro exI [of _ f] exI [of _ "packet_buf s"]) simp
  next
    case False
    then have lt: "p < length data" using p by simp
    obtain f where f: "nk_fgetc (ysend_file s) = Some (uint (data ! p), f)" "view f data (Suc p)"
      using fgetc_view [OF Suc.prems(1) lt] by blast
    let ?i = "3 + (128 - Suc n)"
    let ?s = "s\<lparr>ysend_file := f, packet_buf := (packet_buf s)[?i := data ! p]\<rparr>"
    have i: "?i < length (packet_buf s)" "Suc ?i = 3 + (128 - n)" using Suc.prems by linarith+
    have ne: "uint (data ! p) \<noteq> - 1" using uint_ge_0 [of "data ! p"] by linarith
    have step: "load_block (Suc n) s = load_block n ?s"
      using f(1) i ne store_at_single [OF i(1)] by (simp add: Let_def)
    obtain g buf where g: "load_block n ?s = Some (128 - n + min n (length data - Suc p), ?s\<lparr>ysend_file := g, packet_buf := buf\<rparr>)"
      "view g data (min (Suc p + n) (length data))" "length buf = length (packet_buf ?s)"
      "take (3 + (128 - n) + min n (length data - Suc p)) buf = take (3 + (128 - n)) (packet_buf ?s) @ take n (drop (Suc p) data)"
      using Suc.IH [of ?s "Suc p"] f Suc.prems by auto
    have upd: "packet_buf ?s = (packet_buf s)[?i := data ! p]" by simp
    have "take (3 + (128 - n)) (packet_buf ?s) = take ?i (packet_buf s) @ [data ! p]"
      unfolding upd i(2) [symmetric] by (rule take_update_last [OF i(1)])
    moreover have "take (Suc n) (drop p data) = data ! p # take n (drop (Suc p) data)"
      using lt by (simp add: Cons_nth_drop_Suc [symmetric])
    moreover have "128 - n + min n (length data - Suc p) = 128 - Suc n + min (Suc n) (length data - p)"
      using lt Suc.prems(3) by (simp add: min_def) linarith
    ultimately show ?thesis unfolding step using g
      by (intro exI [of _ g] exI [of _ buf]) (simp add: add.assoc del: load_block.simps)
  qed
qed

text \<open>The next block of the file.\<close>

lemma prepare_next_block:
  assumes "view (ysend_file s) data (min (128 * k) (length data))" "133 \<le> length (packet_buf s)" "k \<le> nblocks data"
  obtains (ready) f buf where "k < nblocks data"
    "ymodem_prepare_next s = Some (True, s\<lparr>ysend_file := f, packet_buf := buf, ymodem_send_block_size := 133\<rparr>)"
    "view f data (min (128 * Suc k) (length data))" "length buf = length (packet_buf s)"
    "take 133 buf = packet NK_YM_SOH (ymodem_send_seq s) (block data (Suc k))"
  | (finished) f where "k = nblocks data"
    "\<exists>buf. ymodem_prepare_next s = Some (False, s\<lparr>ysend_file := f, packet_buf := buf\<rparr>) \<and> length buf = length (packet_buf s)"
    "view f data (length data)"
proof -
  let ?p = "min (128 * k) (length data)"
  let ?m = "min 128 (length data - ?p)"
  obtain f buf where l: "load_block 128 s = Some (?m, s\<lparr>ysend_file := f, packet_buf := buf\<rparr>)"
    "view f data (min (?p + 128) (length data))" "length buf = length (packet_buf s)"
    "take (3 + ?m) buf = take 3 (packet_buf s) @ take 128 (drop ?p data)"
    using load_block_loads [OF assms(1), of 128] assms(2) by auto
  show ?thesis
  proof (cases "?m = 0")
    case True
    then have "length data \<le> 128 * k" by (auto simp: min_def split: if_splits)
    then have "k = nblocks data" "min (?p + 128) (length data) = length data" using assms(3) by (auto simp: nblocks_def min_def)
    then show ?thesis using finished [where f = f] l True by (auto simp: ymodem_prepare_next_def)
  next
    case False
    then have lt: "128 * k < length data" by (auto simp: min_def split: if_splits)
    then have p: "?p = 128 * k" by simp
    have k: "k < nblocks data" using lt by (auto simp: nblocks_def)
    have data: "take 128 (drop ?p data) = block_data data (Suc k)" "length (block_data data (Suc k)) = ?m"
      unfolding p by (simp_all add: block_data_def)
    have split: "buf = take 3 (packet_buf s) @ block_data data (Suc k) @ drop (3 + ?m) buf"
      using l(4) append_take_drop_id [of "3 + ?m" buf] data(1) by simp
    define buf2 where "buf2 = take 3 (packet_buf s) @ block data (Suc k) @ drop 131 buf"
    have store: "store_at buf (3 + ?m) (replicate (128 - ?m) 0) = Some buf2"
      using assms(2) l(3,4) data by (simp add: store_at_def buf2_def block_def)
    have len: "length buf2 = length (packet_buf s)" "133 \<le> length buf2" "take 128 (drop 3 buf2) = block data (Suc k)"
      using assms(2) l(3) by (simp_all add: buf2_def)
    let ?s = "s\<lparr>ysend_file := f, packet_buf := buf2\<rparr>"
    obtain buf3 where "ymodem_setup_header ?s = Some (?s\<lparr>packet_buf := buf3, ymodem_send_block_size := 133\<rparr>)"
      "take 133 buf3 = packet NK_YM_SOH (ymodem_send_seq s) (block data (Suc k))" "length buf3 = length buf2"
      using setup_header_packet [of ?s "block data (Suc k)"] len by auto
    moreover have "min (?p + 128) (length data) = min (128 * Suc k) (length data)" using p by simp
    ultimately show ?thesis using ready [where f = f and buf = buf3] k l store len False
      by (simp add: ymodem_prepare_next_def)
  qed
qed

text \<open>The sender in each of its phases, and the proof that it is the machine \<open>sstep\<close>.\<close>

definition sends :: "bytes \<Rightarrow> bytes \<Rightarrow> sphase \<Rightarrow> 's ysend \<Rightarrow> bool" where
  "sends hdr data sp s \<longleftrightarrow> 133 \<le> length (packet_buf s) \<and>
     (case sp of
        SH \<Rightarrow> \<not> ymodem_send_eot s \<and> \<not> ymodem_send_fin s \<and> ymodem_send_hdr s \<and> ymodem_send_seq s = 0
          \<and> holds_packet s (wire hdr data MHdr) \<and> view (ysend_file s) data 0
      | SD i \<Rightarrow> \<not> ymodem_send_eot s \<and> \<not> ymodem_send_fin s \<and> \<not> ymodem_send_hdr s \<and> ymodem_send_seq s = word_of_nat i
          \<and> 1 \<le> i \<and> i \<le> nblocks data \<and> holds_packet s (wire hdr data (MBlk i)) \<and> view (ysend_file s) data (min (128 * i) (length data))
      | SE \<Rightarrow> ymodem_send_eot s \<and> \<not> ymodem_send_fin s \<and> \<not> ymodem_send_hdr s
      | SF \<Rightarrow> \<not> ymodem_send_eot s \<and> ymodem_send_fin s \<and> holds_packet s (wire hdr data MFin)
      | SDone \<Rightarrow> True)"

lemma sender_refines:
  assumes "sends hdr data sp s" "sp \<noteq> SDone" "sstep (nblocks data) sp r = (m, sp')"
  obtains s' where "nk_ysend_evt (reply_char r) s
      = Some (if sp' = SDone then YMODEM_SEND_STATUS_DONE else YMODEM_SEND_STATUS_MORE, s')"
    "send_tx s' = send_tx s @ (case m of None \<Rightarrow> [] | Some m \<Rightarrow> wire hdr data m)" "sends hdr data sp' s'"
proof (cases "r = RAck")
  case False
  then have c: "reply_char r = 0x43 \<or> reply_char r = NK_YM_NAK" by (cases r) (simp_all add: ym_chars)
  show ?thesis
  proof (cases sp)
    case SH
    then show ?thesis using that [of "s\<lparr>send_tx := send_tx s @ wire hdr data MHdr\<rparr>"] assms c send_block_sends [of s] False
      by (auto simp: nk_ysend_evt_def sends_def holds_packet_def)
  next
    case (SD i)
    then show ?thesis using that [of "s\<lparr>send_tx := send_tx s @ wire hdr data (MBlk i)\<rparr>"] assms c send_block_sends [of s] False
      by (auto simp: nk_ysend_evt_def sends_def holds_packet_def)
  next
    case SE
    then show ?thesis using that [of "send_putc NK_YM_EOT s"] assms c False
      by (auto simp: nk_ysend_evt_def sends_def send_putc_def)
  next
    case SF
    then show ?thesis using that [of "s\<lparr>send_tx := send_tx s @ wire hdr data MFin\<rparr>"] assms c send_block_sends [of s] False
      by (auto simp: nk_ysend_evt_def sends_def holds_packet_def)
  qed (use assms in simp)
next
  case True
  then have c: "reply_char r = NK_YM_ACK" "\<not> (NK_YM_ACK = 0x43 \<or> NK_YM_ACK = NK_YM_NAK)" by (simp_all add: ym_chars)
  show ?thesis
  proof (cases sp)
    case SH
    let ?s = "s\<lparr>ymodem_send_seq := ymodem_send_seq s + 1\<rparr>"
    have v: "view (ysend_file ?s) data (min (128 * 0) (length data))" "133 \<le> length (packet_buf ?s)"
      using assms(1) SH by (simp_all add: sends_def)
    show ?thesis
    proof (cases rule: prepare_next_block [OF v, case_names _ ready finished])
      case (ready f buf)
      let ?t = "?s\<lparr>ysend_file := f, packet_buf := buf, ymodem_send_block_size := 133, ymodem_send_hdr := False\<rparr>"
      have "sends hdr data (SD 1) ?t" using ready assms(1) SH by (simp add: sends_def holds_packet_def)
      moreover have "m = None" "sp' = SD 1" using assms(3) SH True ready by auto
      moreover have "nk_ysend_evt (reply_char r) s = Some (YMODEM_SEND_STATUS_MORE, ?t)"
        using assms(1) SH c ready by (simp add: nk_ysend_evt_def sends_def)
      ultimately show ?thesis using that [of ?t] by simp
    next
      case (finished f)
      then obtain buf where b: "ymodem_prepare_next ?s = Some (False, ?s\<lparr>ysend_file := f, packet_buf := buf\<rparr>)"
        "length buf = length (packet_buf ?s)" by blast
      let ?t = "?s\<lparr>ysend_file := f, packet_buf := buf, ymodem_send_eot := True, ymodem_send_hdr := False\<rparr>"
      have "sends hdr data SE ?t" using finished b assms(1) SH by (simp add: sends_def)
      moreover have "m = None" "sp' = SE" using assms(3) SH True finished by auto
      moreover have "nk_ysend_evt (reply_char r) s = Some (YMODEM_SEND_STATUS_MORE, ?t)"
        using assms(1) SH c b by (simp add: nk_ysend_evt_def sends_def)
      ultimately show ?thesis using that [of ?t] by simp
    qed simp
  next
    case (SD i)
    let ?s = "s\<lparr>ymodem_send_seq := ymodem_send_seq s + 1\<rparr>"
    have v: "view (ysend_file ?s) data (min (128 * i) (length data))" "133 \<le> length (packet_buf ?s)" "i \<le> nblocks data"
      using assms(1) SD by (simp_all add: sends_def)
    show ?thesis
    proof (cases rule: prepare_next_block [OF v, case_names ready finished])
      case (ready f buf)
      let ?t = "?s\<lparr>ysend_file := f, packet_buf := buf, ymodem_send_block_size := 133\<rparr>"
      have h: "holds_packet ?t (wire hdr data (MBlk (Suc i)))"
        using ready v assms(1) SD by (simp add: sends_def holds_packet_def add.commute)
      let ?u = "?t\<lparr>send_tx := send_tx s @ wire hdr data (MBlk (Suc i))\<rparr>"
      have "sends hdr data (SD (Suc i)) ?u"
        using h ready v assms(1) SD by (simp add: sends_def holds_packet_def add.commute)
      moreover have "m = Some (MBlk (Suc i))" "sp' = SD (Suc i)" using assms(3) SD True ready by auto
      moreover have "nk_ysend_evt (reply_char r) s = Some (YMODEM_SEND_STATUS_MORE, ?u)"
        using assms(1) SD c ready send_block_sends [OF h] by (simp add: nk_ysend_evt_def sends_def)
      ultimately show ?thesis using that [of ?u] by simp
    next
      case (finished f)
      then obtain buf where b: "ymodem_prepare_next ?s = Some (False, ?s\<lparr>ysend_file := f, packet_buf := buf\<rparr>)"
        "length buf = length (packet_buf ?s)" by blast
      let ?t = "send_putc NK_YM_EOT (?s\<lparr>ysend_file := f, packet_buf := buf, ymodem_send_eot := True\<rparr>)"
      have "sends hdr data SE ?t" using finished b assms(1) SD by (simp add: sends_def send_putc_def)
      moreover have "m = Some MEot" "sp' = SE" using assms(3) SD True finished by auto
      moreover have "nk_ysend_evt (reply_char r) s = Some (YMODEM_SEND_STATUS_MORE, ?t)"
        using assms(1) SD c b by (simp add: nk_ysend_evt_def sends_def)
      ultimately show ?thesis using that [of ?t] by (simp add: send_putc_def)
    qed
  next
    case SE
    let ?s = "s\<lparr>ymodem_send_eot := False, packet_buf := take 3 (packet_buf s) @ replicate 128 0 @ drop 131 (packet_buf s), ymodem_send_seq := 0\<rparr>"
    have len: "133 \<le> length (packet_buf s)" using assms(1) by (simp add: sends_def)
    then have "store_at (packet_buf s) 3 (replicate 128 0) = Some (packet_buf ?s)" by (simp add: store_at_def)
    moreover obtain buf where b: "ymodem_setup_header ?s = Some (?s\<lparr>packet_buf := buf, ymodem_send_block_size := 133\<rparr>)"
      "take 133 buf = packet NK_YM_SOH 0 (replicate 128 0)" "length buf = length (packet_buf ?s)"
      using setup_header_packet [of ?s "replicate 128 0"] len by auto
    ultimately have prep: "ymodem_prepare_fin (s\<lparr>ymodem_send_eot := False\<rparr>) = Some (?s\<lparr>packet_buf := buf, ymodem_send_block_size := 133\<rparr>)"
      by (simp add: ymodem_prepare_fin_def)
    let ?t = "?s\<lparr>packet_buf := buf, ymodem_send_block_size := 133, ymodem_send_fin := True, ymodem_send_hdr := True\<rparr>"
    have "sends hdr data SF ?t"
      using b len assms(1) SE by (simp add: sends_def holds_packet_def)
    moreover have "m = None" "sp' = SF" using assms(3) SE True by auto
    moreover have "nk_ysend_evt (reply_char r) s = Some (YMODEM_SEND_STATUS_MORE, ?t)"
      using assms(1) SE c prep by (simp add: nk_ysend_evt_def sends_def)
    ultimately show ?thesis using that [of ?t] by simp
  next
    case SF
    then show ?thesis using that [of s] assms True c by (simp add: nk_ysend_evt_def sends_def)
  qed (use assms in simp)
qed

end

section \<open>What the receiver does with it\<close>

text \<open>The header the sender makes: the name, the length of the file in decimal, and anything after that.\<close>

definition is_header :: "bytes \<Rightarrow> nat \<Rightarrow> bytes \<Rightarrow> bool" where
  "is_header name n hdr \<longleftrightarrow> length hdr = 128 \<and> name \<noteq> [] \<and> 0 \<notin> set name \<and> n < 2 ^ 31
     \<and> (\<exists>rest. hdr = name @ 0 # number_text 10 False n @ 0 # rest)"

lemma foldl_digits_ge: "0 < b \<Longrightarrow> a \<le> foldl (\<lambda>n d. n * b + d) a (ds :: nat list)"
proof (induction ds arbitrary: a)
  case (Cons d ds)
  have "a \<le> a * b + d" using Cons.prems by (simp add: trans_le_add1)
  also have "\<dots> \<le> foldl (\<lambda>n d. n * b + d) (a * b + d) ds" by (rule Cons.IH [OF Cons.prems])
  finally show ?case by simp
qed simp

lemma digit_char_range:
  "d < 10 \<Longrightarrow> 48 \<le> digit_char upr d \<and> digit_char upr d \<le> 57 \<and> uint (digit_char upr d - 48) = int d"
proof -
  assume d: "d < 10"
  have c: "digit_char upr d = 48 + word_of_nat d" using d by (simp add: digit_char_def)
  have u: "unat (word_of_nat d :: u8) = d" using d by (simp add: unat_of_nat)
  then have "unat (48 + word_of_nat d :: u8) = 48 + d" using d by (subst unat_add_no_wrap) simp_all
  then have "48 \<le> digit_char upr d \<and> digit_char upr d \<le> 57" using d by (simp add: c word_le_nat_alt)
  moreover have "digit_char upr d - 48 = word_of_nat d" by (simp add: c)
  ultimately show ?thesis using u by (simp add: uint_nat del: of_nat_unat)
qed

lemma atoi_digits_value:
  "\<forall>d \<in> set ds. d < 10 \<Longrightarrow> foldl (\<lambda>n d. n * 10 + d) a ds < 2 ^ 31 \<Longrightarrow>
   atoi_digits (int a) (map (digit_char upr) ds @ 0 # rest) = Some (int (foldl (\<lambda>n d. n * 10 + d) a ds))"
proof (induction ds arbitrary: a)
  case (Cons d ds)
  have "a * 10 + d < 2 ^ 31" using foldl_digits_ge [of 10 "a * 10 + d" ds] Cons.prems(2) by simp
  then have "int a * 10 + int d < 2 ^ 31" by (metis of_nat_add of_nat_less_iff of_nat_mult of_nat_numeral of_nat_power)
  moreover have "atoi_digits (int (a * 10 + d)) (map (digit_char upr) ds @ 0 # rest)
      = Some (int (foldl (\<lambda>n d. n * 10 + d) (a * 10 + d) ds))"
    using Cons.prems by (intro Cons.IH) simp_all
  ultimately show ?case using digit_char_range [of d upr] Cons.prems by (simp add: Let_def)
qed simp

lemma number_text_digits:
  obtains ds where "number_text 10 False n = map (digit_char False) ds" "ds \<noteq> []" "\<forall>d \<in> set ds. d < 10"
    "foldl (\<lambda>n d. n * 10 + d) 0 ds = n"
proof (cases "n = 0")
  case True
  then show ?thesis using that [of "[0]"] by (simp add: number_text_def digit_char_def)
next
  case False
  then show ?thesis
    using that [of "num_digits 10 n"] digits_value_num [of 10 n]
    by (simp add: number_text_def num_digits_eq_Nil list_all_iff digits_value_def)
qed

lemma atoi_number: "n < 2 ^ 31 \<Longrightarrow> atoi (number_text 10 False n @ 0 # rest) = Some (int n)"
proof (rule number_text_digits [of n])
  fix ds
  assume n: "n < 2 ^ 31" and ds: "number_text 10 False n = map (digit_char False) ds" "ds \<noteq> []" "\<forall>d \<in> set ds. d < 10"
    "foldl (\<lambda>n d. n * 10 + d) 0 ds = n"
  then obtain d ds' where d: "ds = d # ds'" "d < 10" by (cases ds) auto
  let ?c = "digit_char False d"
  have "48 \<le> ?c" "?c \<le> 57" using digit_char_range [OF d(2)] by auto
  then have "\<not> (?c = 32 \<or> 9 \<le> ?c \<and> ?c \<le> 13)" "?c \<noteq> 45" "?c \<noteq> 43" by (auto simp: word_le_nat_alt)
  then have "atoi (map (digit_char False) ds @ 0 # rest) = atoi_digits 0 (map (digit_char False) ds @ 0 # rest)"
    unfolding d(1) list.map append_Cons by (simp only: atoi.simps if_False)
  then show ?thesis using atoi_digits_value [of ds 0 False rest] ds n by simp
qed

text \<open>The receiver as a machine: waiting for a header (before or after a file), receiving with \<open>j\<close> blocks accepted, done.
  The flags are whether the end of the file was announced once, and whether it purges.\<close>

datatype rphase = RI bool u8 bool | RO nat bool bool | RDone

fun rstep :: "rphase \<Rightarrow> msg option \<Rightarrow> reply list \<times> rphase" where
  "rstep (RI c t p) None = (if p then ([RReq], RI c t False) else if t \<noteq> 0 then ([], RI c (t - 1) False) else ([RReq], RI c 3 False))"
| "rstep (RI c t p) (Some m) =
     (if p then ([], RI c t True)
      else case m of MHdr \<Rightarrow> ([RAck], RO 0 False False) | MFin \<Rightarrow> ([RAck], RDone) | _ \<Rightarrow> ([], RI c 0 True))"
| "rstep (RO j e p) None = (if p then ([RReq], RO j e False) else ([if j = 0 then RReq else RNak], RO j False False))"
| "rstep (RO j e p) (Some m) =
     (if p then ([], RO j e True)
      else case m of
        MBlk i \<Rightarrow> ([RAck], RO i False False)
      | MEot \<Rightarrow> if e then ([RAck, RReq], RI True 0 False) else ([RNak], RO j True False)
      | MJunk \<Rightarrow> ([], RO j False True)
      | _ \<Rightarrow> ([RAck], RO j False False))"
| "rstep RDone m = ([], RDone)"

text \<open>The messages that can reach it in each phase.\<close>

fun expected :: "nat \<Rightarrow> rphase \<Rightarrow> msg option \<Rightarrow> bool" where
  "expected n rp None \<longleftrightarrow> True"
| "expected n (RI c t p) (Some m) \<longleftrightarrow> m \<in> {MEot, MJunk} \<or> m = MHdr \<and> \<not> c \<or> m = MFin \<and> c"
| "expected n (RO j e p) (Some m) \<longleftrightarrow>
     (\<exists>i. m = MBlk i \<and> 1 \<le> i \<and> i \<le> n \<and> (i = j \<or> i = Suc j)) \<or> m = MHdr \<and> j = 0 \<or> m = MEot \<and> j = n \<or> m = MJunk"
| "expected n RDone m \<longleftrightarrow> False"

definition carries :: "bytes \<Rightarrow> bytes \<Rightarrow> msg \<Rightarrow> bytes \<Rightarrow> bool" where
  "carries hdr data m p \<longleftrightarrow> (if m = MJunk then bad_packet p else p = wire hdr data m)"

text \<open>What the receiver relies on in its file handler: while it accepts a file of some size it opens it, appends what
  is written as long as there is room, and after the close that is the contents of the stored file, also after \<open>all_done\<close>.\<close>

locale file_handler =
  fixes yr :: "'s nk_yrecv_struct"
    and accepts :: "'s \<Rightarrow> bytes \<Rightarrow> nat \<Rightarrow> bool"
    and current :: "'s \<Rightarrow> bytes option"
    and room :: "'s \<Rightarrow> nat \<Rightarrow> bool"
    and kept :: "'s \<Rightarrow> bytes \<Rightarrow> bool"
  assumes h_open: "accepts s nm n \<Longrightarrow> \<exists>s'. y_open yr nm s = Some (0, s') \<and> current s' = Some [] \<and> room s' n"
    and h_write: "current s = Some d \<Longrightarrow> room s (length bs + n) \<Longrightarrow>
      \<exists>s'. y_write yr bs s = Some s' \<and> current s' = Some (d @ bs) \<and> room s' n"
    and h_close: "current s = Some d \<Longrightarrow> room s n \<Longrightarrow> \<exists>s'. y_close yr s = Some s' \<and> kept s' d"
    and h_done: "kept s d \<Longrightarrow> \<exists>s'. y_all_done yr s = Some s' \<and> kept s' d"
begin

definition receives :: "bytes \<Rightarrow> bytes \<Rightarrow> rphase \<Rightarrow> 's yrecv \<Rightarrow> bool" where
  "receives hdr data rp r \<longleftrightarrow> collecting r \<and> \<not> ymodem_can r \<and> \<not> ymodem_xmodem r \<and>
     (case rp of
        RI c t p \<Rightarrow> \<not> ymodem_opened r \<and> \<not> ymodem_got_eot r \<and> ymodem_to r = t \<and> ymodem_purge r = p \<and> yrecv_mode r = (if p then 3 else 0)
          \<and> (if c then kept (user r) data else \<forall>rest. accepts (user r) (hdr @ rest) (length data))
      | RO j e p \<Rightarrow> ymodem_opened r \<and> ymodem_got_eot r = e \<and> ymodem_purge r = p \<and> yrecv_mode r = (if p then 3 else 0)
          \<and> ymodem_first r = (j = 0) \<and> ymodem_old_seq r = word_of_nat j \<and> ymodem_seq r = word_of_nat (Suc j)
          \<and> ymodem_file_size r = word_of_nat (length data - 128 * j) \<and> j \<le> nblocks data
          \<and> current (user r) = Some (take (128 * j) data) \<and> room (user r) (length data - 128 * j)
      | RDone \<Rightarrow> laststatus r = Some YMODEM_RECV_DONE \<and> kept (user r) data)"

lemma header_opens:
  assumes "is_header name (length data) hdr" "\<forall>rest. accepts (user r) (hdr @ rest) (length data)"
  obtains u where "recv_header yr (packet NK_YM_SOH 0 hdr @ rest) r = Some (YMODEM_RECV_MORE,
      r\<lparr>ymodem_can := False, ymodem_to := 0, ymodem_file_size := word_of_nat (length data), user := u, recv_tx := recv_tx r @ [NK_YM_ACK],
        ymodem_old_seq := 0, ymodem_seq := 1, ymodem_opened := True, ymodem_first := True\<rparr>)"
    "current u = Some []" "room u (length data)"
proof -
  let ?mem = "hdr @ be_bytes16 (nk_crc16be_check hdr) @ rest"
  define buf where "buf = packet NK_YM_SOH 0 hdr @ rest"
  obtain more where hdr: "hdr = name @ 0 # number_text 10 False (length data) @ 0 # more"
    and name: "name \<noteq> []" "0 \<notin> set name" "length hdr = 128" and n: "length data < 2 ^ 31"
    using assms(1) by (auto simp: is_header_def)
  have mem: "drop 3 buf = ?mem" by (simp add: buf_def packet_def)
  have strl: "strlen ?mem = Some (word_of_nat (length name))"
    unfolding hdr using strlen_string [OF name(2)] by simp
  have "length name < 128" using name(3) by (simp add: hdr)
  then have ln: "unat (word_of_nat (length name) :: u32) = length name" by (intro unat_of_nat_u32) simp
  have num: "drop (3 + length name + 1) buf = number_text 10 False (length data) @ 0 #
      (more @ be_bytes16 (nk_crc16be_check hdr) @ rest)"
  proof -
    have "drop (3 + length name + 1) buf = drop (Suc (length name)) ?mem"
      unfolding mem [symmetric] drop_drop by (simp add: add.commute)
    then show ?thesis by (simp add: hdr)
  qed
  obtain d ds where d: "number_text 10 False (length data) = digit_char False d # ds" "d < 10"
    by (rule number_text_digits [of "length data"]) (auto simp: neq_Nil_conv)
  have "digit_char False d \<noteq> 0" using digit_char_range [OF d(2), of False] by auto
  moreover have "deref buf (3 + length name + 1) = Some (digit_char False d)"
  proof -
    have "3 + length name + 1 < length buf" using \<open>length name < 128\<close> name(3) by (simp add: buf_def)
    then show ?thesis using num d(1) by (metis deref_Some hd_drop_conv_nth append_Cons list.sel(1))
  qed
  moreover have "deref buf 3 = Some (hd name)" "hd name \<noteq> 0"
  proof -
    have "buf = [NK_YM_SOH, 0, NOT 0] @ name @ (drop (length name) ?mem)"
      by (simp add: buf_def packet_def hdr)
    then show "deref buf 3 = Some (hd name)"
      using name(1) by (simp add: deref_def nth_append hd_conv_nth)
    show "hd name \<noteq> 0" using name by (metis hd_in_set)
  qed
  moreover obtain u where u: "y_open yr ?mem (user r) = Some (0, u)" "current u = Some []" "room u (length data)"
    using h_open assms(2) by blast
  ultimately show ?thesis
    using that [of u] u strl atoi_number [OF n] ln num
    unfolding buf_def [symmetric] by (simp add: recv_header_def mem recv_putc_def Let_def)
qed

lemma block_data_next: "take (128 * j) data @ block_data data (Suc j) = take (128 * Suc j) data"
  by (simp add: block_data_def take_add [symmetric] add.commute)

lemma write_block:
  assumes "j < nblocks data" "length data < 2 ^ 31" "ymodem_file_size r = word_of_nat (length data - 128 * j)"
    and "current (user r) = Some (take (128 * j) data)" "room (user r) (length data - 128 * j)"
  obtains u where "write_data yr (packet lead sq (block data (Suc j)) @ rest) 128 r
      = Some (r\<lparr>ymodem_file_size := word_of_nat (length data - 128 * Suc j), user := u\<rparr>)"
    "current u = Some (take (128 * Suc j) data)" "room u (length data - 128 * Suc j)"
proof -
  let ?left = "length data - 128 * j"
  have lt: "128 * j < length data" using assms(1) by (simp add: nblocks_def)
  have left: "unat (word_of_nat ?left :: u32) = ?left" using assms(2) by (intro unat_of_nat_u32) simp
  have len: "length (block_data data (Suc j)) = min 128 ?left" "?left = length (block_data data (Suc j)) + (length data - 128 * Suc j)"
    by (simp_all add: block_data_def)
  obtain u where u: "y_write yr (block_data data (Suc j)) (user r) = Some u" "current u = Some (take (128 * Suc j) data)"
    "room u (length data - 128 * Suc j)"
    using h_write [OF assms(4), of "block_data data (Suc j)" "length data - 128 * Suc j"] assms(5)
    unfolding len(2) [symmetric] block_data_next by blast
  have load: "load_from (packet lead sq (block data (Suc j)) @ rest) 3 (min 128 ?left) = Some (block_data data (Suc j))"
    using len(1) by (simp add: load_from_def packet_def block_def numeral_3_eq_3)
  have gt: "(128 :: u32) > word_of_nat ?left \<longleftrightarrow> ?left < 128" using left by (simp add: word_less_nat_alt)
  show ?thesis
  proof (cases "?left < 128")
    case True
    then have "(word_of_nat ?left :: u32) \<noteq> 0" using left lt by (metis unat_0 zero_less_diff less_numeral_extra(3))
    then show ?thesis using True that [of u] u load left gt assms(3) by (simp add: write_data_def min_def)
  next
    case False
    then have "word_of_nat ?left - 128 = (word_of_nat (length data - 128 * Suc j) :: u32)"
      by (simp add: of_nat_diff [symmetric] not_less)
    then show ?thesis using False that [of u] u load gt assms(3) by (simp add: write_data_def min_def)
  qed
qed

text \<open>One full packet, one character, one timeout: the calls of \<open>ymodem_rcv\<close> they come to.\<close>

lemma process_more:
  "ymodem_rcv yr (packet_buffer r) (yrecv_len r) r = Some (YMODEM_RECV_MORE, r') \<Longrightarrow>
   process_full_outer yr r = Some (False, r'\<lparr>yrecv_len := 0, yrecv_mode := 0\<rparr>)"
  "ymodem_rcv yr (packet_buffer r) (yrecv_len r) r = Some (YMODEM_RECV_PURGE, r') \<Longrightarrow>
   process_full_outer yr r = Some (False, r'\<lparr>yrecv_len := 0, yrecv_mode := 3\<rparr>)"
  by (simp_all add: process_full_outer_def)

lemma timeout_refines:
  assumes "receives hdr data rp r" "rp \<noteq> RDone" "rstep rp None = (out, rp')"
  obtains r' where "ymodem_recv_task yr None r = Some (False, r')" "recv_tx r' = recv_tx r @ map reply_char out"
    "receives hdr data rp' r'"
proof -
  let ?r = "r\<lparr>yrecv_len := 0\<rparr>"
  have c: "collecting r" "\<not> ymodem_can r" "\<not> ymodem_xmodem r" "yrecv_len r = 0"
    using assms(1) by (simp_all add: receives_def collecting_def)
  have task: "ymodem_recv_task yr None r = process_full_outer yr ?r" by (simp add: ymodem_recv_task_def)
  show ?thesis
  proof (cases rp)
    case (RI closed t p)
    show ?thesis
    proof (cases "p \<or> t \<noteq> 0")
      case True
      let ?t = "if p then (recv_putc NK_YM_REQ ?r)\<lparr>ymodem_purge := False\<rparr> else ?r\<lparr>ymodem_to := t - 1\<rparr>"
      have "ymodem_rcv yr (packet_buffer ?r) (yrecv_len ?r) ?r = Some (YMODEM_RECV_MORE, ?t)"
        using assms(1) RI True by (auto simp: receives_def ymodem_rcv_def recv_waiting_def)
      from process_more(1) [OF this] show ?thesis
        using that assms RI True c by (auto simp: task receives_def collecting_def recv_putc_def)
    next
      case False
      have "ymodem_rcv yr (packet_buffer ?r) (yrecv_len ?r) ?r = Some (YMODEM_RECV_MORE, ymodem_recv_init ?r)"
        using assms(1) RI False by (auto simp: receives_def ymodem_rcv_def recv_waiting_def)
      from process_more(1) [OF this] show ?thesis
        using that assms RI False c
        by (auto simp: task receives_def collecting_def recv_putc_def ymodem_recv_init_def NK_YM_TIMEOUT_def)
    qed
  next
    case (RO j e p)
    let ?t = "if p then (recv_putc NK_YM_REQ ?r)\<lparr>ymodem_purge := False\<rparr>
      else recv_putc (if j = 0 then NK_YM_REQ else NK_YM_NAK) (?r\<lparr>ymodem_got_eot := False, ymodem_can := False\<rparr>)"
    have "ymodem_rcv yr (packet_buffer ?r) (yrecv_len ?r) ?r = Some (YMODEM_RECV_MORE, ?t)"
      using assms(1) RO by (auto simp: receives_def ymodem_rcv_def recv_opened_def)
    from process_more(1) [OF this] show ?thesis
      using that assms RO c by (auto simp: task receives_def collecting_def recv_putc_def)
  qed (use assms in simp)
qed

text \<open>While purging nothing that arrives changes the phase.\<close>

lemma purging_refines:
  assumes "receives hdr data rp r" "rp = RI c t True \<or> rp = RO j e True"
  obtains r' where "ymodem_recv_task yr (Some cs) r = Some (False, r')" "recv_tx r' = recv_tx r" "receives hdr data rp r'"
proof -
  have "collecting r" "yrecv_mode r = 3" using assms by (auto simp: receives_def)
  then obtain r' buf m where r': "ymodem_recv_task yr (Some cs) r = Some (False, r')" "collecting r'"
    "r' = r\<lparr>packet_buffer := buf, max_len := m\<rparr>"
    by (rule recv_purging [of r yr cs]) blast
  have "receives hdr data rp r'" using assms r'(2) unfolding r'(3) by (auto simp: receives_def)
  then show ?thesis using that r' by simp
qed

end

context file_handler
begin

lemma short_len: "(133 :: nat) = NK_YM_SHORT_PACKET_LEN" "(133 :: nat) \<noteq> NK_YM_LONG_PACKET_LEN"
  by (simp_all add: ym_lens)

text \<open>A packet in memory, for the receiver that is about to look at it.\<close>

definition loaded :: "'s yrecv \<Rightarrow> bytes \<Rightarrow> nat \<Rightarrow> 's yrecv" where
  "loaded r p m = r\<lparr>packet_buffer := p @ drop (length p) (packet_buffer r), yrecv_len := length p, max_len := m, yrecv_mode := 0\<rparr>"

lemma task_loaded:
  assumes "collecting r" "yrecv_mode r = 0" "length p = 133 \<and> p ! 0 = NK_YM_SOH \<or> p = [NK_YM_EOT]"
  obtains m where "ymodem_recv_task yr (Some p) r = process_full_outer yr (loaded r p m)"
proof (cases "p = [NK_YM_EOT]")
  case True
  obtain m where "ymodem_recv_task yr (Some [NK_YM_EOT]) r = process_full_outer yr
     (r\<lparr>packet_buffer := NK_YM_EOT # drop 1 (packet_buffer r), yrecv_len := 1, max_len := m\<rparr>)"
    by (rule recv_eot_char [OF assms(1,2)])
  moreover have "r\<lparr>packet_buffer := NK_YM_EOT # drop 1 (packet_buffer r), yrecv_len := 1, max_len := m\<rparr> = loaded r p m"
    using True assms(2) by (simp add: loaded_def)
  ultimately show ?thesis using that True by simp
next
  case False
  then have p: "length p = 133" "p ! 0 = NK_YM_SOH" using assms(3) by auto
  show ?thesis using that by (rule recv_packet [OF assms(1,2) p]) (simp add: loaded_def p)
qed

lemma loaded_collecting:
  "collecting r \<Longrightarrow> length p \<le> 1029 \<Longrightarrow> 1029 \<le> length (packet_buffer (loaded r p m))"
  by (simp add: loaded_def collecting_def)

text \<open>Waiting for a header.\<close>

lemma waiting_refines:
  assumes "receives hdr data (RI c t False) r" "is_header name (length data) hdr" "carries hdr data msg p"
    and "expected n (RI c t False) (Some msg)" "rstep (RI c t False) (Some msg) = (out, rp')"
  obtains r' where "ymodem_recv_task yr (Some p) r = Some (rp' = RDone, r')" "recv_tx r' = recv_tx r @ map reply_char out"
    "receives hdr data rp' r'"
proof -
  have c: "collecting r" "yrecv_mode r = 0" "\<not> ymodem_opened r" "\<not> ymodem_purge r" "\<not> ymodem_can r" "\<not> ymodem_xmodem r"
    "\<not> ymodem_got_eot r" "ymodem_to r = t"
    "if c then kept (user r) data else \<forall>rest. accepts (user r) (hdr @ rest) (length data)"
    using assms(1) by (simp_all add: receives_def)
  have len: "length hdr = 128" using assms(2) by (simp add: is_header_def)
  have m: "msg = MEot \<or> msg = MJunk \<or> msg = MHdr \<and> \<not> c \<or> msg = MFin \<and> c" using assms(4) by simp
  then have "length p = 133 \<and> p ! 0 = NK_YM_SOH \<or> p = [NK_YM_EOT]"
    using assms(3) len by (auto simp: carries_def bad_packet_def)
  then obtain mx where task: "ymodem_recv_task yr (Some p) r = process_full_outer yr (loaded r p mx)"
    using task_loaded c(1,2) by blast
  let ?r = "loaded r p mx" and ?rest = "drop (length p) (packet_buffer r)"
  have l: "packet_buffer ?r = p @ ?rest" "yrecv_len ?r = length p" "recv_tx ?r = recv_tx r" "user ?r = user r"
    by (simp_all add: loaded_def)
  have rcv: "ymodem_rcv yr (packet_buffer ?r) (yrecv_len ?r) ?r = recv_waiting yr (p @ ?rest) (length p) ?r"
    using c by (simp add: ymodem_rcv_def loaded_def)
  consider (bad) "msg = MEot \<or> msg = MJunk" | (hdr) "msg = MHdr" "\<not> c" | (fin) "msg = MFin" "c" using m by blast
  then show ?thesis
  proof cases
    case bad
    let ?t = "?r\<lparr>ymodem_can := False, ymodem_purge := True, ymodem_to := 0\<rparr>"
    have "recv_waiting yr (p @ ?rest) (length p) ?r = Some (YMODEM_RECV_PURGE, ?t)"
    proof (cases "msg = MEot")
      case True
      then show ?thesis using assms(3) by (simp add: carries_def recv_waiting_def deref_def ym_chars ym_lens)
    next
      case False
      then have b: "bad_packet p" using bad assms(3) by (simp add: carries_def)
      then have "length p = 133" by (simp add: bad_packet_def)
      then show ?thesis
        using buffer_nth [of 0 p ?rest] by (auto simp: recv_waiting_def packet_ok_bad [OF b] ym_lens)
    qed
    from process_more(2) [OF rcv [THEN trans, OF this]] show ?thesis
      using that [OF task [THEN trans]] assms(5) bad c by (auto simp: receives_def collecting_def l loaded_def)
  next
    case hdr
    then have p: "p = packet NK_YM_SOH 0 hdr" using assms(3) by (simp add: carries_def)
    let ?h = "?r\<lparr>crc_count := crc_count ?r + 1\<rparr>"
    obtain u where u: "recv_header yr (packet NK_YM_SOH 0 hdr @ ?rest) ?h = Some (YMODEM_RECV_MORE,
      ?h\<lparr>ymodem_can := False, ymodem_to := 0, ymodem_file_size := word_of_nat (length data), user := u, recv_tx := recv_tx ?h @ [NK_YM_ACK],
        ymodem_old_seq := 0, ymodem_seq := 1, ymodem_opened := True, ymodem_first := True\<rparr>)"
      "current u = Some []" "room u (length data)"
      by (rule header_opens [OF assms(2), of ?h ?rest]) (use c hdr in \<open>auto simp: loaded_def\<close>)
    have "recv_waiting yr (p @ ?rest) (length p) ?r = recv_header yr (packet NK_YM_SOH 0 hdr @ ?rest) ?h"
      using len packet_ok_packet [of hdr 133 NK_YM_SOH NK_YM_SOH "\<lambda>sq. sq = 0" 0 ?rest ?r] buffer_nth [of 0 p ?rest]
      by (simp add: recv_waiting_def p ym_lens)
    from process_more(1) [OF rcv [THEN trans, OF this [THEN trans, OF u(1)]]] show ?thesis
      using that [OF task [THEN trans]] assms(5) hdr c u len
      by (auto simp: receives_def collecting_def l loaded_def ym_chars p)
  next
    case fin
    then have p: "p = packet NK_YM_SOH 0 (replicate 128 0)" using assms(3) by (simp add: carries_def)
    let ?h = "?r\<lparr>crc_count := crc_count ?r + 1\<rparr>"
    let ?t = "recv_putc NK_YM_ACK (?h\<lparr>ymodem_can := False, ymodem_to := 0\<rparr>)"
    have "deref (p @ ?rest) 3 = Some 0" by (simp add: p deref_def packet_def nth_append numeral_3_eq_3)
    then have "recv_waiting yr (p @ ?rest) (length p) ?r = Some (YMODEM_RECV_DONE, ?t)"
      using packet_ok_packet [of "replicate 128 0" 133 NK_YM_SOH NK_YM_SOH "\<lambda>sq. sq = 0" 0 ?rest ?r] buffer_nth [of 0 p ?rest]
      by (simp add: recv_waiting_def recv_header_def p ym_lens Let_def)
    moreover obtain u where u: "y_all_done yr (user r) = Some u" "kept u data" using h_done c(9) fin(2) by auto
    ultimately have "process_full_outer yr ?r = Some (True, ?t\<lparr>yrecv_len := 0, laststatus := Some YMODEM_RECV_DONE, user := u\<rparr>)"
      using rcv l by (simp add: process_full_outer_def recv_putc_def)
    then show ?thesis
      using that [OF task [THEN trans]] assms(5) fin c u
      by (auto simp: receives_def collecting_def l loaded_def recv_putc_def p)
  qed
qed

text \<open>Receiving a file.\<close>

lemma opened_refines:
  assumes "receives hdr data (RO j e False) r" "is_header name (length data) hdr" "carries hdr data msg p"
    and "expected (nblocks data) (RO j e False) (Some msg)" "rstep (RO j e False) (Some msg) = (out, rp')"
  obtains r' where "ymodem_recv_task yr (Some p) r = Some (rp' = RDone, r')" "recv_tx r' = recv_tx r @ map reply_char out"
    "receives hdr data rp' r'"
proof -
  have c: "collecting r" "yrecv_mode r = 0" "ymodem_opened r" "\<not> ymodem_purge r" "\<not> ymodem_can r" "\<not> ymodem_xmodem r"
    "ymodem_got_eot r = e" "ymodem_first r = (j = 0)" "ymodem_old_seq r = word_of_nat j" "ymodem_seq r = word_of_nat (Suc j)"
    "ymodem_file_size r = word_of_nat (length data - 128 * j)" "j \<le> nblocks data"
    "current (user r) = Some (take (128 * j) data)" "room (user r) (length data - 128 * j)"
    using assms(1) by (simp_all add: receives_def)
  have len: "length hdr = 128" "length data < 2 ^ 31" using assms(2) by (simp_all add: is_header_def)
  have m: "(\<exists>i. msg = MBlk i \<and> 1 \<le> i \<and> i \<le> nblocks data \<and> (i = j \<or> i = Suc j)) \<or> msg = MHdr \<and> j = 0 \<or> msg = MEot \<and> j = nblocks data \<or> msg = MJunk"
    using assms(4) by simp
  then have "length p = 133 \<and> p ! 0 = NK_YM_SOH \<or> p = [NK_YM_EOT]"
    using assms(3) len by (auto simp: carries_def bad_packet_def)
  then obtain mx where task: "ymodem_recv_task yr (Some p) r = process_full_outer yr (loaded r p mx)"
    using task_loaded c(1,2) by blast
  let ?r = "loaded r p mx" and ?rest = "drop (length p) (packet_buffer r)"
  have l: "packet_buffer ?r = p @ ?rest" "yrecv_len ?r = length p" "recv_tx ?r = recv_tx r" "user ?r = user r"
    by (simp_all add: loaded_def)
  have rcv: "ymodem_rcv yr (packet_buffer ?r) (yrecv_len ?r) ?r = recv_opened yr (p @ ?rest) (length p) ?r"
    using c by (simp add: ymodem_rcv_def loaded_def)
  let ?h = "?r\<lparr>crc_count := crc_count ?r + 1\<rparr>"
  have data: "recv_opened yr (p @ ?rest) (length p) ?r = recv_data yr (p @ ?rest) 133 ?h"
    if "p = packet NK_YM_SOH sq d" "length d = 128" for sq d
    using that packet_ok_packet [of d 133 NK_YM_SOH NK_YM_SOH "\<lambda>_. True" sq ?rest ?r] buffer_nth [of 0 p ?rest]
    by (simp add: recv_opened_def ym_lens)
  have first: "deref (p @ ?rest) 0 = Some NK_YM_SOH" "deref (p @ ?rest) 1 = Some sq"
    if "p = packet NK_YM_SOH sq d" for sq d
    using that buffer_nth [of 0 p ?rest] buffer_nth [of 1 p ?rest] by simp_all
  consider (again) sq d where "p = packet NK_YM_SOH sq d" "length d = 128" "sq = word_of_nat j" "rp' = RO j False False" "out = [RAck]"
    | (fresh) "msg = MBlk (Suc j)" "Suc j \<le> nblocks data" | (eot) "msg = MEot" "j = nblocks data" | (junk) "msg = MJunk"
    using m
  proof (elim disjE exE conjE)
    fix i
    assume "msg = MBlk i" "i = j"
    then show ?thesis using again assms(3,5) by (auto simp: carries_def)
  next
    assume "msg = MHdr" "j = 0"
    then show ?thesis using again assms(3,5) len by (auto simp: carries_def)
  qed (use fresh eot junk in auto)
  then show ?thesis
  proof cases
    case again
    let ?t = "recv_putc NK_YM_ACK (?h\<lparr>ymodem_got_eot := False, ymodem_can := False\<rparr>)"
    have "recv_opened yr (p @ ?rest) (length p) ?r = Some (YMODEM_RECV_MORE, ?t)"
      using data [OF again(1,2)] first [OF again(1)] again(3) c by (simp add: recv_data_def Let_def loaded_def)
    from process_more(1) [OF rcv [THEN trans, OF this]] show ?thesis
      using that [OF task [THEN trans]] again c
      by (auto simp: receives_def collecting_def l loaded_def recv_putc_def)
  next
    case fresh
    then have p: "p = packet NK_YM_SOH (word_of_nat (Suc j)) (block data (Suc j))"
      using assms(3) by (simp add: carries_def)
    have sq: "(word_of_nat (Suc j) :: u8) \<noteq> word_of_nat j" by simp
    let ?g = "?h\<lparr>ymodem_got_eot := False, ymodem_can := False\<rparr>"
    obtain u where u: "write_data yr (p @ ?rest) 128 ?g
        = Some (?g\<lparr>ymodem_file_size := word_of_nat (length data - 128 * Suc j), user := u\<rparr>)"
      "current u = Some (take (128 * Suc j) data)" "room u (length data - 128 * Suc j)"
      using write_block [of j data ?g NK_YM_SOH "word_of_nat (Suc j)" ?rest] fresh(2) len(2) c unfolding p
      by (auto simp: loaded_def)
    let ?t = "(recv_putc NK_YM_ACK (?g\<lparr>ymodem_file_size := word_of_nat (length data - 128 * Suc j), user := u,
        ymodem_first := False, ymodem_old_seq := word_of_nat (Suc j), ymodem_seq := word_of_nat (Suc j) + 1\<rparr>))"
    have "recv_opened yr (p @ ?rest) (length p) ?r = Some (YMODEM_RECV_MORE, ?t)"
      using data [OF p] first [OF p] sq c u(1)
      by (simp add: recv_data_def Let_def loaded_def ym_chars recv_putc_def)
    from process_more(1) [OF rcv [THEN trans, OF this]] show ?thesis
      using that [OF task [THEN trans]] fresh assms(5) c u
      by (auto simp: receives_def collecting_def l loaded_def recv_putc_def add.commute p)
  next
    case eot
    then have p: "p = [NK_YM_EOT]" using assms(3) by (simp add: carries_def)
    have op: "recv_opened yr (p @ ?rest) (length p) ?r = recv_eot yr ?r"
      by (simp add: recv_opened_def p deref_def ym_chars ym_lens)
    show ?thesis
    proof (cases e)
      case True
      have full: "take (128 * j) data = data" by (simp add: eot(2) nblocks_def)
      obtain u where u: "y_close yr (user r) = Some u" "kept u data"
        using h_close [OF c(13,14)] unfolding full by blast
      have "recv_eot yr ?r = Some (YMODEM_RECV_MORE,
          (ymodem_recv_init (recv_putc NK_YM_ACK (?r\<lparr>ymodem_can := False, user := u\<rparr>)))\<lparr>ymodem_to := 0\<rparr>)"
        using c True u(1) by (simp add: recv_eot_def loaded_def Let_def)
      from process_more(1) [OF rcv [THEN trans, OF op [THEN trans, OF this]]] show ?thesis
        using that [OF task [THEN trans]] eot True assms(5) c u
        by (auto simp: receives_def collecting_def l loaded_def recv_putc_def ymodem_recv_init_def p)
    next
      case False
      have "recv_eot yr ?r = Some (YMODEM_RECV_MORE, recv_putc NK_YM_NAK (?r\<lparr>ymodem_can := False, ymodem_got_eot := True\<rparr>))"
        using c False by (simp add: recv_eot_def loaded_def Let_def)
      from process_more(1) [OF rcv [THEN trans, OF op [THEN trans, OF this]]] show ?thesis
        using that [OF task [THEN trans]] eot False assms(5) c
        by (auto simp: receives_def collecting_def l loaded_def recv_putc_def p)
    qed
  next
    case junk
    then have b: "bad_packet p" using assms(3) by (simp add: carries_def)
    then have lp: "length p = 133" by (simp add: bad_packet_def)
    let ?t = "?r\<lparr>ymodem_got_eot := False, ymodem_can := False, ymodem_purge := True\<rparr>"
    have "recv_opened yr (p @ ?rest) (length p) ?r = Some (YMODEM_RECV_PURGE, ?t)"
      using buffer_nth [of 0 p ?rest] lp by (auto simp: recv_opened_def packet_ok_bad [OF b] ym_lens)
    from process_more(2) [OF rcv [THEN trans, OF this]] show ?thesis
      using that [OF task [THEN trans]] assms(5) junk c
      by (auto simp: receives_def collecting_def l loaded_def lp)
  qed
qed

lemma receiver_refines:
  assumes "receives hdr data rp r" "is_header name (length data) hdr" "carries hdr data msg p"
    and "expected (nblocks data) rp (Some msg)" "rstep rp (Some msg) = (out, rp')"
  obtains r' where "ymodem_recv_task yr (Some p) r = Some (rp' = RDone, r')" "recv_tx r' = recv_tx r @ map reply_char out"
    "receives hdr data rp' r'"
proof (cases rp)
  case (RI c t pg)
  show ?thesis
  proof (cases pg)
    case True
    then have st: "rp = RI c t True \<or> rp = RO 0 False True" and out: "out = []" "rp' = rp" using RI assms(5) by auto
    show ?thesis by (rule purging_refines [OF assms(1) st, of p]) (use that out RI in simp)
  next
    case False
    then have pg: "pg = False" by simp
    note now = assms(1,4,5) [unfolded RI pg]
    show ?thesis by (rule waiting_refines [OF now(1) assms(2,3) now(2,3)]) (rule that)
  qed
next
  case (RO j e pg)
  show ?thesis
  proof (cases pg)
    case True
    then have st: "rp = RI False 0 True \<or> rp = RO j e True" and out: "out = []" "rp' = rp" using RO assms(5) by auto
    show ?thesis by (rule purging_refines [OF assms(1) st, of p]) (use that out RO in simp)
  next
    case False
    then have pg: "pg = False" by simp
    note now = assms(1,4,5) [unfolded RO pg]
    show ?thesis by (rule opened_refines [OF now(1) assms(2,3) now(2,3)]) (rule that)
  qed
qed (use assms(4) in simp)

end

section \<open>The start of a transfer\<close>

lemma header_format:
  assumes "length name < 2 ^ 31"
  shows "vformat ''%s%c%lu'' [VStr name, VInt 0, VLong n] = Some (name @ 0 # number_text 10 False (unat n))"
proof -
  have f: "field no_directive [] bs = bs" for bs by (simp add: field_def no_directive_def)
  have s: "parse_directive ''s%c%lu'' ap = Some (no_directive, ''s%c%lu'', ap)"
    "parse_directive ''c%lu'' ap = Some (no_directive, ''c%lu'', ap)"
    "parse_directive ''lu'' ap = Some (no_directive\<lparr>d_size := 1\<rparr>, ''u'', ap)" for ap
    by (simp_all add: parse_directive_def parse_number_def no_directive_def)
  have f1: "field (no_directive\<lparr>d_size := 1\<rparr>) [] bs = bs" for bs by (simp add: field_def no_directive_def)
  have u: "unat (ucast n :: u64) = unat n"
  proof -
    have "unat n < 2 ^ 64" by (rule less_trans [OF unat_u32_less]) simp
    then show ?thesis by (simp add: unsigned_ucast_eq take_bit_nat_eq_self)
  qed
  show ?thesis
    using assms by (simp add: u s conversion_text_def f f1 sign_text_def no_directive_def [THEN arg_cong [of _ _ d_prec]]
      no_directive_def [THEN arg_cong [of _ _ d_size]] no_directive_def [THEN arg_cong [of _ _ d_plus]]
      no_directive_def [THEN arg_cong [of _ _ d_space]] no_directive_def [THEN arg_cong [of _ _ d_pound]])
qed

text \<open>The names whose header fits.\<close>

definition fitting_name :: "bytes \<Rightarrow> nat \<Rightarrow> bool" where
  "fitting_name name n \<longleftrightarrow> name \<noteq> [] \<and> 0 \<notin> set name \<and> n < 2 ^ 31 \<and> length name + length (number_text 10 False n) < 124"


context reader
begin

lemma ysend_file_sends:
  assumes "fitting_name name (length data)" "view file data 0" "133 \<le> length pb"
  obtains s' hdr where "nk_ysend_file pb file name (word_of_nat (length data)) s = Some s'" "is_header name (length data) hdr"
    "sends hdr data SH s'" "send_tx s' = send_tx s"
proof -
  let ?bs = "name @ 0 # number_text 10 False (length data)"
  have name: "name \<noteq> []" "0 \<notin> set name" "length data < 2 ^ 31" "length ?bs < 125" "length name < 124"
    using assms(1) by (auto simp: fitting_name_def)
  have un: "unat (word_of_nat (length data) :: u32) = length data" using name(3) by (intro unat_of_nat_u32) simp
  have fmt: "vformat ''%s%c%lu'' [VStr name, VInt 0, VLong (word_of_nat (length data))] = Some ?bs"
    using header_format [of name "word_of_nat (length data)"] name(5) unfolding un by simp
  define buf where "buf = take 3 pb @ replicate 128 0 @ drop 131 pb"
  have buf: "store_at pb 3 (replicate 128 0) = Some buf" "length buf = length pb"
    using assms(3) by (simp_all add: store_at_def buf_def)
  obtain dest where d: "nk_snprintf (drop 3 buf) 125 ''%s%c%lu'' [VStr name, VInt 0, VLong (word_of_nat (length data))] = Some (0, dest)"
    "take (Suc (length ?bs)) dest = ?bs @ [0]" "length dest = length (drop 3 buf)"
  proof -
    have "unat (125 :: u32) \<le> length (drop 3 buf)" "0 < unat (125 :: u32)" using assms(3) buf(2) by simp_all
    from snprintf_contents [OF fmt this(2,1)] show ?thesis using name(4) that by auto
  qed
  let ?hdr = "take 128 dest"
  have "dest = ?bs @ 0 # drop (Suc (length ?bs)) dest"
    using d(2) append_take_drop_id [of "Suc (length ?bs)" dest] by simp
  then have "?hdr = take 128 (?bs @ 0 # drop (Suc (length ?bs)) dest)" by metis
  then have hdr: "is_header name (length data) ?hdr"
    using name d(3) buf(2) assms(3) by (auto simp: is_header_def take_Cons' split: if_splits)
  let ?s = "s\<lparr>ysend_file := file, ymodem_send_eot := False, ymodem_send_fin := False, ymodem_send_seq := 0,
    packet_buf := take 3 buf @ dest\<rparr>"
  have len: "133 \<le> length (packet_buf ?s)" "take 128 (drop 3 (packet_buf ?s)) = ?hdr"
    using d(3) buf(2) assms(3) by simp_all
  obtain pk where pk: "ymodem_setup_header ?s = Some (?s\<lparr>packet_buf := pk, ymodem_send_block_size := 133\<rparr>)"
    "take 133 pk = packet NK_YM_SOH 0 ?hdr" "length pk = length (packet_buf ?s)"
    using setup_header_packet [OF len] by auto
  let ?t = "?s\<lparr>packet_buf := pk, ymodem_send_block_size := 133, ymodem_send_hdr := True\<rparr>"
  have "nk_ysend_file pb file name (word_of_nat (length data)) s = Some ?t"
    using buf(1) d(1) pk(1) by (simp add: nk_ysend_file_def Let_def)
  moreover have "sends ?hdr data SH ?t"
    using pk len assms(2) by (simp add: sends_def holds_packet_def)
  ultimately show ?thesis using that hdr by simp
qed

end

section \<open>The receiver's buffer\<close>

text \<open>How much of the buffer is filled, by the mode of the character machine.\<close>

definition recv_wf :: "'s yrecv \<Rightarrow> bool" where
  "recv_wf r \<longleftrightarrow> 1029 \<le> length (packet_buffer r) \<and>
     (yrecv_mode r = 0 \<and> yrecv_len r = 0 \<or> yrecv_mode r = 1 \<and> 1 \<le> yrecv_len r \<and> yrecv_len r < 133
      \<or> yrecv_mode r = 2 \<and> 1 \<le> yrecv_len r \<and> yrecv_len r < 1029 \<or> yrecv_mode r = 3 \<and> yrecv_len r = 0)"

lemma recv_char_wf:
  assumes "recv_wf r"
  obtains gotit r' where "recv_char c r = Some (gotit, r')" "length (packet_buffer r') = length (packet_buffer r)"
    "if gotit then yrecv_len r' \<in> {1, 133, 1029} else recv_wf r'"
proof -
  have buf: "1029 \<le> length (packet_buffer r)" using assms by (simp add: recv_wf_def)
  have "yrecv_len r < length (packet_buffer r)" using assms by (auto simp: recv_wf_def)
  then have st: "store_at (packet_buffer r) (yrecv_len r) [c] = Some ((packet_buffer r)[yrecv_len r := c])" by (rule store_at_single)
  consider "yrecv_mode r = 0" "yrecv_len r = 0" | "yrecv_mode r = 1" "1 \<le> yrecv_len r" "yrecv_len r < 133"
    | "yrecv_mode r = 2" "1 \<le> yrecv_len r" "yrecv_len r < 1029" | "yrecv_mode r = 3" "yrecv_len r = 0"
    using assms unfolding recv_wf_def by argo
  then have "\<exists>gotit r'. recv_char c r = Some (gotit, r') \<and> length (packet_buffer r') = length (packet_buffer r)
    \<and> (if gotit then yrecv_len r' \<in> {1, 133, 1029} else recv_wf r')"
  proof cases
    case 1
    then show ?thesis using buf st
      by (cases "c = NK_YM_SOH"; cases "c = NK_YM_STX"; cases "c = NK_YM_CAN \<or> c = NK_YM_EOT")
        (simp_all add: ex_bool_eq recv_char_def Let_def recv_wf_def)
  next
    case 2
    then show ?thesis using buf st
      by (cases "Suc (yrecv_len r) = 133") (simp_all add: ex_bool_eq recv_char_def Let_def recv_wf_def ym_lens)
  next
    case 3
    then show ?thesis using buf st
      by (cases "Suc (yrecv_len r) = 1029") (simp_all add: ex_bool_eq recv_char_def Let_def recv_wf_def ym_lens)
  next
    case 4
    then show ?thesis using buf st by (simp add: ex_bool_eq recv_char_def Let_def recv_wf_def)
  qed
  then show ?thesis using that by blast
qed

text \<open>Looking at a packet does not touch the buffer.\<close>

lemma packet_ok_same:
  "packet_ok buf lead ok len r = Some (b, r') \<Longrightarrow> packet_buffer r' = packet_buffer r"
  by (auto simp: packet_ok_def ymcrc_check_def split: if_splits bind_splits)

lemma write_data_same: "write_data yr buf n r = Some r' \<Longrightarrow> packet_buffer r' = packet_buffer r"
  by (auto simp: write_data_def Let_def split: if_splits bind_splits)

lemmas recv_same = packet_ok_same write_data_same

lemma recv_header_same: "recv_header yr buf r = Some (sta, r') \<Longrightarrow> packet_buffer r' = packet_buffer r"
  by (auto simp: recv_header_def recv_putc_def Let_def split: if_splits bind_splits)

lemma recv_anonymous_same: "recv_anonymous yr buf r = Some (sta, r') \<Longrightarrow> packet_buffer r' = packet_buffer r"
  by (auto simp: recv_anonymous_def recv_putc_def Let_def dest!: write_data_same split: if_splits bind_splits)

lemma recv_data_same: "recv_data yr buf len r = Some (sta, r') \<Longrightarrow> packet_buffer r' = packet_buffer r"
  by (auto simp: recv_data_def recv_putc_def Let_def dest!: write_data_same split: if_splits bind_splits)

lemma recv_eot_same: "recv_eot yr r = Some (sta, r') \<Longrightarrow> packet_buffer r' = packet_buffer r"
  by (auto simp: recv_eot_def recv_putc_def ymodem_recv_init_def Let_def split: if_splits bind_splits)

lemma recv_waiting_same: "recv_waiting yr buf len r = Some (sta, r') \<Longrightarrow> packet_buffer r' = packet_buffer r"
  by (auto simp: recv_waiting_def recv_putc_def ymodem_recv_init_def
      dest!: packet_ok_same recv_header_same recv_anonymous_same split: if_splits bind_splits)

lemma recv_opened_same: "recv_opened yr buf len r = Some (sta, r') \<Longrightarrow> packet_buffer r' = packet_buffer r"
  by (auto simp: recv_opened_def recv_putc_def Let_def
      dest!: packet_ok_same recv_data_same recv_eot_same split: if_splits bind_splits)

lemma ymodem_rcv_same: "ymodem_rcv yr buf len r = Some (sta, r') \<Longrightarrow> packet_buffer r' = packet_buffer r"
  by (auto simp: ymodem_rcv_def recv_putc_def dest!: recv_waiting_same recv_opened_same split: if_splits)

lemma process_full_outer_wf:
  "process_full_outer yr r = Some (over, r') \<Longrightarrow> 1029 \<le> length (packet_buffer r) \<Longrightarrow> \<not> over \<Longrightarrow> recv_wf r'"
  by (auto simp: process_full_outer_def recv_wf_def Let_def dest!: ymodem_rcv_same split: if_splits bind_splits)

lemma recv_chars_wf:
  "recv_chars yr cs r = Some (over, r') \<Longrightarrow> recv_wf r \<Longrightarrow> \<not> over \<Longrightarrow> recv_wf r'"
proof (induction cs arbitrary: r)
  case (Cons c cs)
  obtain gotit q where q: "recv_char c r = Some (gotit, q)" "length (packet_buffer q) = length (packet_buffer r)"
    "if gotit then yrecv_len q \<in> {1, 133, 1029} else recv_wf q"
    by (rule recv_char_wf [OF Cons.prems(2)])
  have "1029 \<le> length (packet_buffer q)" using Cons.prems(2) q(2) by (simp add: recv_wf_def)
  then show ?case
    using Cons q by (auto dest: process_full_outer_wf split: if_splits bind_splits)
qed simp

section \<open>Property of the buffer\<close>

text \<open>C25. The receiver never writes outside its packet buffer. Whatever characters arrive, in whatever chunks and with
  timeouts between them, the fill level stays below the length of the packet the machine is collecting, so storing
  the next character succeeds, and a packet handed on has one of the three lengths 1, 133 and 1029.\<close>

theorem recv_buffer_well_formed:
  assumes "recv_wf r"
  shows "(\<exists>gotit r'. recv_char c r = Some (gotit, r') \<and> (if gotit then yrecv_len r' \<in> {1, 133, 1029} else recv_wf r'))
    \<and> (\<forall>received r'. ymodem_recv_task yr received r = Some (False, r') \<longrightarrow> recv_wf r')"
proof (intro conjI allI impI)
  show "\<exists>gotit r'. recv_char c r = Some (gotit, r') \<and> (if gotit then yrecv_len r' \<in> {1, 133, 1029} else recv_wf r')"
    by (rule recv_char_wf [OF assms, of c]) blast
  fix received r'
  assume "ymodem_recv_task yr received r = Some (False, r')"
  then show "recv_wf r'"
    using assms recv_chars_wf [of yr _ r False r'] process_full_outer_wf [of yr "r\<lparr>yrecv_len := 0\<rparr>" False r']
    by (auto simp: ymodem_recv_task_def recv_wf_def split: option.splits)
qed

definition quiet_handler :: "unit nk_yrecv_struct" where
  "quiet_handler = \<lparr>y_xname = [0, 0], y_open = \<lambda>_ u. Some (-1, u), y_write = \<lambda>_. Some, y_close = Some, y_cancel = Some, y_all_done = Some\<rparr>"

definition sample_receiver :: "unit yrecv" where
  "sample_receiver = \<lparr>ymodem_opened = False, ymodem_got_eot = False, ymodem_purge = False, ymodem_first = False, ymodem_can = False,
     ymodem_to = 3, ymodem_xmodem = False, ymodem_old_seq = 0, ymodem_seq = 0, ymodem_file_size = 0, crc_count = 0, long_count = 0,
     laststatus = None, yrecv_mode = 1, yrecv_len = 132, max_len = 0, packet_buffer = replicate 1029 0, recv_tx = [], user = ()\<rparr>"

theorem recv_buffer_well_formed_witness:
  "\<exists>r' r''. recv_char 7 sample_receiver = Some (True, r') \<and> yrecv_len r' = 133
   \<and> ymodem_recv_task quiet_handler (Some [7]) sample_receiver = Some (False, r'') \<and> recv_wf r''"
proof -
  have wf: "recv_wf sample_receiver" by (simp add: recv_wf_def sample_receiver_def)
  have one: "\<exists>r'. recv_char 7 sample_receiver = Some (True, r') \<and> yrecv_len r' = 133"
    by (simp add: recv_char_def sample_receiver_def store_at_def ym_lens)
  then obtain r' where r': "recv_char 7 sample_receiver = Some (True, r')" "yrecv_len r' = 133" by blast
  have "\<exists>r''. ymodem_recv_task quiet_handler (Some [7]) sample_receiver = Some (False, r'')"
    by (simp add: ymodem_recv_task_def recv_char_def sample_receiver_def store_at_def ym_lens process_full_outer_def ymodem_rcv_def
        recv_waiting_def packet_ok_def deref_def ym_chars Let_def nth_append)
  then show ?thesis using recv_buffer_well_formed [OF wf, of 7 quiet_handler] r' by auto
qed

end
