(* ===== verification/Link.thy ===== *)
theory Link
  imports Ymodem
begin


text \<open>
  The two ends of a YMODEM transfer (\<^verbatim>\<open>libnklabs/src/nkymodem.c\<close>, theory \<open>Ymodem\<close>) on a serial line that can lose or damage what is
  sent. Replies travel to the sender as characters, and what the sender puts on the line in answer to
  one of them travels to the receiver as one packet. A timeout of the receiver, which is a second of
  silence, happens when nothing is on the line. A damaged packet is one whose damage the
  complement of the sequence number or the CRC reveals.
\<close>

section \<open>The line\<close>

record ('f, 's) link =
  sender :: "'f ysend"
  receiver :: "'s yrecv"
  to_sender :: bytes
  to_receiver :: "bytes list"
  sent :: bool
  received :: bool

definition deliver_reply :: "('f, 's) link \<Rightarrow> ('f, 's) link option" where
  "deliver_reply l =
     (case to_sender l of
        [] \<Rightarrow> None
      | c # cs \<Rightarrow> do {
          (sta, s) \<leftarrow> nk_ysend_evt c ((sender l)\<lparr>send_tx := []\<rparr>);
          Some (l\<lparr>sender := s, to_sender := cs, to_receiver := to_receiver l @ (if send_tx s = [] then [] else [send_tx s]),
                  sent := (sta \<noteq> YMODEM_SEND_STATUS_MORE)\<rparr>)
        })"

definition deliver_packet :: "'s nk_yrecv_struct \<Rightarrow> ('f, 's) link \<Rightarrow> ('f, 's) link option" where
  "deliver_packet yr l =
     (case to_receiver l of
        [] \<Rightarrow> None
      | p # ps \<Rightarrow> do {
          (over, r) \<leftarrow> ymodem_recv_task yr (Some p) ((receiver l)\<lparr>recv_tx := []\<rparr>);
          Some (l\<lparr>receiver := r, to_receiver := ps, to_sender := to_sender l @ recv_tx r, received := over\<rparr>)
        })"

definition time_out :: "'s nk_yrecv_struct \<Rightarrow> ('f, 's) link \<Rightarrow> ('f, 's) link option" where
  "time_out yr l = do {
     (over, r) \<leftarrow> ymodem_recv_task yr None ((receiver l)\<lparr>recv_tx := []\<rparr>);
     Some (l\<lparr>receiver := r, to_sender := to_sender l @ recv_tx r, received := over\<rparr>)
   }"

inductive link_step :: "'s nk_yrecv_struct \<Rightarrow> ('f, 's) link \<Rightarrow> ('f, 's) link \<Rightarrow> bool" for yr where
  reply: "\<not> sent l \<Longrightarrow> deliver_reply l = Some l' \<Longrightarrow> link_step yr l l'"
| lost_reply: "to_sender l = c # cs \<Longrightarrow> link_step yr l (l\<lparr>to_sender := cs\<rparr>)"
| packet: "\<not> received l \<Longrightarrow> deliver_packet yr l = Some l' \<Longrightarrow> link_step yr l l'"
| lost_packet: "to_receiver l = p # ps \<Longrightarrow> link_step yr l (l\<lparr>to_receiver := ps\<rparr>)"
| damage: "to_receiver l = p # ps \<Longrightarrow> length p = 133 \<Longrightarrow> bad_packet p' \<Longrightarrow> link_step yr l (l\<lparr>to_receiver := p' # ps\<rparr>)"
| silence: "\<not> received l \<Longrightarrow> to_sender l = [] \<Longrightarrow> to_receiver l = [] \<Longrightarrow> time_out yr l = Some l' \<Longrightarrow> link_step yr l l'"

inductive link_steps :: "'s nk_yrecv_struct \<Rightarrow> ('f, 's) link \<Rightarrow> ('f, 's) link \<Rightarrow> bool" for yr where
  none: "link_steps yr l l"
| more: "link_steps yr l l' \<Longrightarrow> link_step yr l' l'' \<Longrightarrow> link_steps yr l l''"

text \<open>A line that loses nothing: what is on it arrives, and the receiver times out when nothing is.\<close>

fun run :: "nat \<Rightarrow> 's nk_yrecv_struct \<Rightarrow> ('f, 's) link \<Rightarrow> ('f, 's) link option" where
  "run 0 yr l = Some l"
| "run (Suc k) yr l =
     (if to_receiver l \<noteq> [] \<and> \<not> received l then do { l \<leftarrow> deliver_packet yr l; run k yr l }
      else if to_sender l \<noteq> [] \<and> \<not> sent l then do { l \<leftarrow> deliver_reply l; run k yr l }
      else if \<not> received l then do { l \<leftarrow> time_out yr l; run k yr l }
      else Some l)"

section \<open>Both ends together\<close>

text \<open>Which phases go together, and what is on the line then: at most one packet or one request, except that the receiver
  acknowledges the end of the file and asks for the next one.\<close>

fun joint :: "nat \<Rightarrow> sphase \<Rightarrow> rphase \<Rightarrow> reply list \<Rightarrow> msg list \<Rightarrow> bool" where
  "joint n SH (RI c t p) ws wr \<longleftrightarrow> \<not> c \<and> (wr = [] \<and> ws \<in> {[], [RReq], [RNak]} \<or> ws = [] \<and> wr \<in> {[MHdr], [MJunk]})"
| "joint n SH (RO j e p) ws wr \<longleftrightarrow>
     j = 0 \<and> (wr = [] \<and> ws \<in> {[], [RReq], [RNak], [RAck]} \<or> ws = [] \<and> wr \<in> {[MHdr], [MJunk]})"
| "joint n (SD i) (RO j e p) ws wr \<longleftrightarrow> 1 \<le> i \<and> i \<le> n \<and> (i = j \<or> i = Suc j) \<and>
     (wr = [] \<and> (ws \<in> {[], [RReq], [RNak]} \<or> ws = [RAck] \<and> i = j) \<or> ws = [] \<and> wr \<in> {[MBlk i], [MJunk]})"
| "joint n SE (RO j e p) ws wr \<longleftrightarrow> j = n \<and> (wr = [] \<and> ws \<in> {[], [RReq], [RNak]} \<or> ws = [] \<and> wr = [MEot])"
| "joint n SE (RI c t p) ws wr \<longleftrightarrow> c \<and> (wr = [] \<and> ws \<in> {[], [RReq], [RAck, RReq]} \<or> ws = [] \<and> wr = [MEot])"
| "joint n SF (RI c t p) ws wr \<longleftrightarrow> c \<and> (wr = [] \<and> ws \<in> {[], [RReq], [RNak]} \<or> ws = [] \<and> wr \<in> {[MFin], [MJunk]})"
| "joint n SF RDone ws wr \<longleftrightarrow> wr = [] \<and> ws \<in> {[], [RAck]}"
| "joint n SDone RDone ws wr \<longleftrightarrow> wr = [] \<and> ws = []"
| "joint n _ _ ws wr \<longleftrightarrow> False"

lemma joint_reply:
  assumes "joint n sp rp (r # ws) wr" "sstep n sp r = (m, sp')"
  shows "joint n sp' rp ws (wr @ (case m of None \<Rightarrow> [] | Some m \<Rightarrow> [m])) \<and> sp \<noteq> SDone \<and> m \<noteq> Some MJunk"
  using assms by (cases sp; cases rp) (auto split: if_splits)

lemma joint_lost_reply: "joint n sp rp (r # ws) wr \<Longrightarrow> joint n sp rp ws wr"
  by (cases sp; cases rp) auto

lemma joint_lost_packet: "joint n sp rp ws (m # wr) \<Longrightarrow> joint n sp rp ws wr"
  by (cases sp; cases rp) auto

lemma joint_damage: "joint n sp rp ws (m # wr) \<Longrightarrow> m \<noteq> MEot \<Longrightarrow> joint n sp rp ws (MJunk # wr)"
  by (cases sp; cases rp) auto

lemma joint_packet:
  assumes "joint n sp rp ws (m # wr)" "rstep rp (Some m) = (out, rp')"
  shows "joint n sp rp' (ws @ out) wr \<and> expected n rp (Some m)"
  using assms by (cases sp; cases rp) (auto split: if_splits)

lemma joint_silence:
  assumes "joint n sp rp [] []" "rstep rp None = (out, rp')"
  shows "joint n sp rp' out []"
  using assms by (cases sp; cases rp) (auto split: if_splits)

type_synonym conf = "sphase \<times> rphase \<times> reply list \<times> msg list"

text \<open>The line that loses nothing, on phases.\<close>

fun astep :: "nat \<Rightarrow> conf \<Rightarrow> conf" where
  "astep n (sp, rp, ws, m # wr) = (let (out, rp') = rstep rp (Some m) in (sp, rp', ws @ out, wr))"
| "astep n (sp, rp, r # ws, []) = (let (m, sp') = sstep n sp r in (sp', rp, ws, case m of None \<Rightarrow> [] | Some m \<Rightarrow> [m]))"
| "astep n (sp, rp, [], []) = (if rp = RDone then (sp, rp, [], []) else let (out, rp') = rstep rp None in (sp, rp', out, []))"

text \<open>After the acknowledgement of the end of the file is lost the two ends never agree again.\<close>

fun stuck :: "conf \<Rightarrow> bool" where
  "stuck (sp, rp, ws, wr) \<longleftrightarrow> sp = SE \<and> (\<exists>t p. rp = RI True t p) \<and> RAck \<notin> set ws \<and> set wr \<subseteq> {MEot}"

locale ymodem_link = reader ok + file_handler yr accepts current room kept
  for ok :: "'f nkinfile \<Rightarrow> bytes \<Rightarrow> bool" and yr :: "'s nk_yrecv_struct"
    and accepts :: "'s \<Rightarrow> bytes \<Rightarrow> nat \<Rightarrow> bool" and current :: "'s \<Rightarrow> bytes option"
    and room :: "'s \<Rightarrow> nat \<Rightarrow> bool" and kept :: "'s \<Rightarrow> bytes \<Rightarrow> bool"
begin

fun linked :: "bytes \<Rightarrow> bytes \<Rightarrow> conf \<Rightarrow> ('f, 's) link \<Rightarrow> bool" where
  "linked hdr data (sp, rp, ws, wr) l \<longleftrightarrow> joint (nblocks data) sp rp ws wr
     \<and> sends hdr data sp (sender l) \<and> receives hdr data rp (receiver l)
     \<and> to_sender l = map reply_char ws \<and> list_all2 (carries hdr data) wr (to_receiver l)
     \<and> sent l = (sp = SDone) \<and> received l = (rp = RDone)"

lemma sends_tx [simp]: "sends hdr data sp (s\<lparr>send_tx := x\<rparr>) = sends hdr data sp s"
  by (simp add: sends_def holds_packet_def split: sphase.split)

lemma receives_tx [simp]: "receives hdr data rp (r\<lparr>recv_tx := x\<rparr>) = receives hdr data rp r"
  by (simp add: receives_def collecting_def split: rphase.split)

text \<open>One step of each end.\<close>

lemma wire_empty: "wire hdr data m = [] \<longleftrightarrow> m = MJunk"
  by (cases m) (simp_all add: packet_def)

lemma reply_linked:
  assumes "linked hdr data (sp, rp, r # ws, wr) l" "sstep (nblocks data) sp r = (m, sp')"
  obtains l' where "deliver_reply l = Some l'"
    "linked hdr data (sp', rp, ws, wr @ (case m of None \<Rightarrow> [] | Some m \<Rightarrow> [m])) l'"
proof -
  have l: "joint (nblocks data) sp rp (r # ws) wr" "sends hdr data sp ((sender l)\<lparr>send_tx := []\<rparr>)"
    using assms(1) by simp_all
  have j: "joint (nblocks data) sp' rp ws (wr @ (case m of None \<Rightarrow> [] | Some m \<Rightarrow> [m]))" "sp \<noteq> SDone" "m \<noteq> Some MJunk"
    using joint_reply [OF l(1) assms(2)] by auto
  obtain s' where s': "nk_ysend_evt (reply_char r) ((sender l)\<lparr>send_tx := []\<rparr>)
      = Some (if sp' = SDone then YMODEM_SEND_STATUS_DONE else YMODEM_SEND_STATUS_MORE, s')"
    "send_tx s' = (case m of None \<Rightarrow> [] | Some m \<Rightarrow> wire hdr data m)" "sends hdr data sp' s'"
    using sender_refines [OF l(2) j(2) assms(2)] by auto
  let ?l = "l\<lparr>sender := s', to_sender := map reply_char ws, to_receiver := to_receiver l @ (if send_tx s' = [] then [] else [send_tx s']),
    sent := (sp' = SDone)\<rparr>"
  have "deliver_reply l = Some ?l" using assms(1) s'(1) by (simp add: deliver_reply_def)
  moreover have "list_all2 (carries hdr data) (wr @ (case m of None \<Rightarrow> [] | Some m \<Rightarrow> [m])) (to_receiver ?l)"
    using assms(1) s'(2) j(3) by (cases m) (auto simp: wire_empty carries_def intro: list_all2_appendI)
  ultimately show ?thesis using that assms(1) s'(3) j(1) by simp
qed

lemma packet_linked:
  assumes "linked hdr data (sp, rp, ws, m # wr) l" "is_header name (length data) hdr" "rstep rp (Some m) = (out, rp')"
  obtains l' where "deliver_packet yr l = Some l'" "linked hdr data (sp, rp', ws @ out, wr) l'"
proof -
  obtain p ps where p: "to_receiver l = p # ps" "carries hdr data m p" "list_all2 (carries hdr data) wr ps"
    using assms(1) by (auto simp: list_all2_Cons1)
  have l: "joint (nblocks data) sp rp ws (m # wr)" "receives hdr data rp ((receiver l)\<lparr>recv_tx := []\<rparr>)"
    using assms(1) by simp_all
  have j: "joint (nblocks data) sp rp' (ws @ out) wr" "expected (nblocks data) rp (Some m)"
    using joint_packet [OF l(1) assms(3)] by auto
  obtain r' where r': "ymodem_recv_task yr (Some p) ((receiver l)\<lparr>recv_tx := []\<rparr>) = Some (rp' = RDone, r')"
    "recv_tx r' = map reply_char out" "receives hdr data rp' r'"
    using receiver_refines [OF l(2) assms(2) p(2) j(2) assms(3)] by auto
  show ?thesis
    by (rule that [of "l\<lparr>receiver := r', to_receiver := ps, to_sender := to_sender l @ recv_tx r', received := (rp' = RDone)\<rparr>"])
      (use assms(1) p r' j in \<open>simp_all add: deliver_packet_def\<close>)
qed

lemma timeout_linked:
  assumes "linked hdr data (sp, rp, [], []) l" "rp \<noteq> RDone" "rstep rp None = (out, rp')"
  obtains l' where "time_out yr l = Some l'" "linked hdr data (sp, rp', out, []) l'"
proof -
  have l: "joint (nblocks data) sp rp [] []" "receives hdr data rp ((receiver l)\<lparr>recv_tx := []\<rparr>)"
    using assms(1) by simp_all
  obtain r' where r': "ymodem_recv_task yr None ((receiver l)\<lparr>recv_tx := []\<rparr>) = Some (False, r')"
    "recv_tx r' = map reply_char out" "receives hdr data rp' r'"
    using timeout_refines [OF l(2) assms(2,3)] by auto
  have "rp' \<noteq> RDone" using assms(2,3) by (cases rp) (auto split: if_splits)
  then show ?thesis
    using that [of "l\<lparr>receiver := r', to_sender := to_sender l @ recv_tx r', received := False\<rparr>"]
      assms r' joint_silence [OF l(1) assms(3)] by (auto simp: time_out_def)
qed

text \<open>Every step of the line, whatever it loses or damages, keeps the two ends together.\<close>

lemma link_step_linked:
  assumes "link_step yr l l'" "linked hdr data c l" "is_header name (length data) hdr"
  shows "\<exists>c'. linked hdr data c' l'"
proof -
  obtain sp rp ws wr where c: "c = (sp, rp, ws, wr)" using prod_cases4 by blast
  note lk = assms(2) [unfolded c]
  show ?thesis using assms(1)
  proof cases
    case reply
    then obtain r ws' where ws: "ws = r # ws'" using lk by (cases ws) (auto simp: deliver_reply_def)
    obtain m sp' where "sstep (nblocks data) sp r = (m, sp')" by (cases "sstep (nblocks data) sp r")
    from reply_linked [OF lk [unfolded ws] this] show ?thesis using reply by (metis option.inject)
  next
    case (lost_reply x xs)
    then obtain r ws' where "ws = r # ws'" "xs = map reply_char ws'" using lk by auto
    then have "linked hdr data (sp, rp, ws', wr) l'" using lk lost_reply joint_lost_reply by auto
    then show ?thesis by blast
  next
    case packet
    then obtain m wr' where wr: "wr = m # wr'" using lk by (cases wr) (auto simp: deliver_packet_def)
    obtain out rp' where "rstep rp (Some m) = (out, rp')" by (cases "rstep rp (Some m)")
    from packet_linked [OF lk [unfolded wr] assms(3) this] show ?thesis using packet by (metis option.inject)
  next
    case (lost_packet p ps)
    then obtain m wr' where "wr = m # wr'" "list_all2 (carries hdr data) wr' ps" using lk by (auto simp: list_all2_Cons2)
    then have "linked hdr data (sp, rp, ws, wr') l'" using lk lost_packet joint_lost_packet by auto
    then show ?thesis by blast
  next
    case (damage p ps p')
    then obtain m wr' where wr: "wr = m # wr'" "list_all2 (carries hdr data) wr' ps" "carries hdr data m p"
      using lk by (auto simp: list_all2_Cons2)
    have "m \<noteq> MEot" using wr(3) damage(3) by (auto simp: carries_def)
    then have "joint (nblocks data) sp rp ws (MJunk # wr')" using lk wr(1) joint_damage by auto
    then have "linked hdr data (sp, rp, ws, MJunk # wr') l'" using lk wr damage by (simp add: carries_def)
    then show ?thesis by blast
  next
    case silence
    then have e: "ws = []" "wr = []" "rp \<noteq> RDone" using lk by auto
    obtain out rp' where "rstep rp None = (out, rp')" by (cases "rstep rp None")
    from timeout_linked [OF lk [unfolded e(1,2)] e(3) this] show ?thesis using silence by (metis option.inject)
  qed
qed

lemma link_steps_linked:
  "link_steps yr l l' \<Longrightarrow> linked hdr data c l \<Longrightarrow> is_header name (length data) hdr \<Longrightarrow> \<exists>c'. linked hdr data c' l'"
  by (induction rule: link_steps.induct) (use link_step_linked in blast)+

text \<open>What that says of the two ends.\<close>

lemma linked_safe:
  assumes "linked hdr data c l"
  shows "received l \<longrightarrow> laststatus (receiver l) = Some YMODEM_RECV_DONE \<and> kept (user (receiver l)) data"
    and "\<not> received l \<and> ymodem_opened (receiver l) \<longrightarrow> (\<exists>k. current (user (receiver l)) = Some (take k data))"
    and "sent l \<longrightarrow> received l"
proof -
  obtain sp rp ws wr where c: "c = (sp, rp, ws, wr)" using prod_cases4 by blast
  note lk = assms [unfolded c]
  show "received l \<longrightarrow> laststatus (receiver l) = Some YMODEM_RECV_DONE \<and> kept (user (receiver l)) data"
    using lk by (auto simp: receives_def)
  show "\<not> received l \<and> ymodem_opened (receiver l) \<longrightarrow> (\<exists>k. current (user (receiver l)) = Some (take k data))"
    using lk by (cases rp) (auto simp: receives_def)
  show "sent l \<longrightarrow> received l"
    using lk by (cases rp) auto
qed

lemma linked_steps_exist:
  assumes "linked hdr data c l" "is_header name (length data) hdr"
  shows "to_sender l \<noteq> [] \<longrightarrow> deliver_reply l \<noteq> None"
    and "to_receiver l \<noteq> [] \<longrightarrow> deliver_packet yr l \<noteq> None"
    and "\<not> received l \<and> to_sender l = [] \<and> to_receiver l = [] \<longrightarrow> time_out yr l \<noteq> None"
proof -
  obtain sp rp ws wr where c: "c = (sp, rp, ws, wr)" using prod_cases4 by blast
  note lk = assms(1) [unfolded c]
  show "to_sender l \<noteq> [] \<longrightarrow> deliver_reply l \<noteq> None"
  proof
    assume "to_sender l \<noteq> []"
    then obtain r ws' where ws: "ws = r # ws'" using lk by (cases ws) auto
    obtain m sp' where "sstep (nblocks data) sp r = (m, sp')" by (cases "sstep (nblocks data) sp r")
    from reply_linked [OF lk [unfolded ws] this] show "deliver_reply l \<noteq> None" by (metis option.distinct(1))
  qed
  show "to_receiver l \<noteq> [] \<longrightarrow> deliver_packet yr l \<noteq> None"
  proof
    assume "to_receiver l \<noteq> []"
    then obtain m wr' where wr: "wr = m # wr'" using lk by (cases wr) auto
    obtain out rp' where "rstep rp (Some m) = (out, rp')" by (cases "rstep rp (Some m)")
    from packet_linked [OF lk [unfolded wr] assms(2) this] show "deliver_packet yr l \<noteq> None" by (metis option.distinct(1))
  qed
  show "\<not> received l \<and> to_sender l = [] \<and> to_receiver l = [] \<longrightarrow> time_out yr l \<noteq> None"
  proof
    assume "\<not> received l \<and> to_sender l = [] \<and> to_receiver l = []"
    then have e: "ws = []" "wr = []" "rp \<noteq> RDone" using lk by auto
    obtain out rp' where "rstep rp None = (out, rp')" by (cases "rstep rp None")
    from timeout_linked [OF lk [unfolded e(1,2)] e(3) this] show "time_out yr l \<noteq> None" by (metis option.distinct(1))
  qed
qed

lemma stuck_step:
  assumes "link_step yr l l'" "linked hdr data c l" "stuck c" "is_header name (length data) hdr"
  shows "\<exists>c'. linked hdr data c' l' \<and> stuck c'"
proof -
  obtain t p ws wr where c: "c = (SE, RI True t p, ws, wr)" "RAck \<notin> set ws" "set wr \<subseteq> {MEot}"
    using assms(3) by (cases c rule: prod_cases4) auto
  note lk = assms(2) [unfolded c(1)]
  show ?thesis using assms(1)
  proof cases
    case reply
    then obtain r ws' where ws: "ws = r # ws'" using lk by (cases ws) (auto simp: deliver_reply_def)
    then have "r \<noteq> RAck" using c(2) by auto
    then have "sstep (nblocks data) SE r = (Some MEot, SE)" by simp
    from reply_linked [OF lk [unfolded ws] this] obtain l2 where
      l2: "deliver_reply l = Some l2" "linked hdr data (SE, RI True t p, ws', wr @ [MEot]) l2" by auto
    note l2(2)
    moreover have "l2 = l'" using reply l2(1) by simp
    ultimately have "linked hdr data (SE, RI True t p, ws', wr @ [MEot]) l'" by (simp only:)
    moreover have "stuck (SE, RI True t p, ws', wr @ [MEot])" using c ws by simp
    ultimately show ?thesis by blast
  next
    case (lost_reply x xs)
    then obtain r ws' where ws: "ws = r # ws'" "xs = map reply_char ws'" using lk by auto
    then have "linked hdr data (SE, RI True t p, ws', wr) l'" using lk lost_reply joint_lost_reply by auto
    moreover have "stuck (SE, RI True t p, ws', wr)" using c ws by simp
    ultimately show ?thesis by blast
  next
    case packet
    then obtain m wr' where wr: "wr = m # wr'" using lk by (cases wr) (auto simp: deliver_packet_def)
    then have m: "m = MEot" using c(3) by simp
    obtain t' p' where "rstep (RI True t p) (Some MEot) = ([], RI True t' p')" by (cases p) auto
    from packet_linked [OF lk [unfolded wr m] assms(4) this] obtain l2 where
      l2: "deliver_packet yr l = Some l2" "linked hdr data (SE, RI True t' p', ws @ [], wr') l2" by auto
    note l2(2)
    moreover have "l2 = l'" using packet l2(1) by simp
    ultimately have "linked hdr data (SE, RI True t' p', ws, wr') l'" by (simp only: append_Nil2)
    moreover have "stuck (SE, RI True t' p', ws, wr')" using c wr by simp
    ultimately show ?thesis by blast
  next
    case (lost_packet p ps)
    then obtain m wr' where wr: "wr = m # wr'" "list_all2 (carries hdr data) wr' ps" using lk by (auto simp: list_all2_Cons2)
    then have "\<exists>t p. linked hdr data (SE, RI True t p, ws, wr') l'" using lk lost_packet joint_lost_packet by auto
    moreover have "\<forall>t p. stuck (SE, RI True t p, ws, wr')" using c wr by simp
    ultimately show ?thesis by blast
  next
    case (damage p ps p')
    then obtain m wr' where wr: "wr = m # wr'" "carries hdr data m p"
      using lk by (auto simp: list_all2_Cons2)
    then have "m = MEot" using c(3) by simp
    then show ?thesis using wr(2) damage(3) by (simp add: carries_def)
  next
    case silence
    then have e: "ws = []" "wr = []" "RI True t p \<noteq> RDone" using lk by auto
    obtain out t' p' where r: "rstep (RI True t p) None = (out, RI True t' p')" "RAck \<notin> set out" by (cases "t = 0"; cases p) auto
    from timeout_linked [OF lk [unfolded e(1,2)] e(3) r(1)] obtain l2 where
      l2: "time_out yr l = Some l2" "linked hdr data (SE, RI True t' p', out, []) l2" by auto
    note l2(2)
    moreover have "l2 = l'" using silence l2(1) by simp
    ultimately have "linked hdr data (SE, RI True t' p', out, []) l'" by (simp only:)
    moreover have "stuck (SE, RI True t' p', out, [])" using r by simp
    ultimately show ?thesis by blast
  qed
qed

lemma stuck_steps:
  assumes "link_steps yr l l'" "linked hdr data c l" "stuck c" "is_header name (length data) hdr"
  shows "\<not> sent l' \<and> \<not> received l'"
proof -
  have "\<exists>c'. linked hdr data c' l' \<and> stuck c'"
    using assms by (induction rule: link_steps.induct) (use stuck_step in blast)+
  then show ?thesis by auto
qed

lemma run_astep:
  assumes "linked hdr data c l" "is_header name (length data) hdr"
  shows "\<exists>l'. run (Suc k) yr l = run k yr l' \<and> linked hdr data (astep (nblocks data) c) l'"
proof -
  obtain sp rp ws wr where c: "c = (sp, rp, ws, wr)" using prod_cases4 by blast
  note lk = assms(1) [unfolded c]
  consider (packet) m wr' where "wr = m # wr'" | (reply) r ws' where "ws = r # ws'" "wr = []" | (quiet) "ws = []" "wr = []"
    by (cases wr; cases ws) auto
  then show ?thesis
  proof cases
    case packet
    obtain out rp' where r: "rstep rp (Some m) = (out, rp')" by (cases "rstep rp (Some m)")
    obtain l2 where l2: "deliver_packet yr l = Some l2" "linked hdr data (sp, rp', ws @ out, wr') l2"
      by (rule packet_linked [OF lk [unfolded packet] assms(2) r])
    have "rp \<noteq> RDone" using lk packet by (cases sp) auto
    then have "to_receiver l \<noteq> [] \<and> \<not> received l" using lk packet by (auto simp: list_all2_Cons1)
    then have "run (Suc k) yr l = run k yr l2" by (simp only: run.simps if_True simp_thms l2(1) Option.bind.simps)
    then show ?thesis using l2(2) by (intro exI [of _ l2] conjI) (simp_all only: c packet astep.simps r Let_def prod.case)
  next
    case reply
    obtain m sp' where s: "sstep (nblocks data) sp r = (m, sp')" by (cases "sstep (nblocks data) sp r")
    obtain l2 where l2: "deliver_reply l = Some l2"
      "linked hdr data (sp', rp, ws', [] @ (case m of None \<Rightarrow> [] | Some m \<Rightarrow> [m])) l2"
      by (rule reply_linked [OF lk [unfolded reply] s])
    have "joint (nblocks data) sp rp (r # ws') []" using lk reply by simp
    then have "sp \<noteq> SDone" using joint_reply [OF _ s] by blast
    then have "to_receiver l = []" "to_sender l \<noteq> []" "\<not> sent l" using lk reply by simp_all
    then have "run (Suc k) yr l = run k yr l2"
      by (simp only: run.simps if_True if_False simp_thms l2(1) Option.bind.simps not_False_eq_True)
    then show ?thesis using l2(2)
      by (intro exI [of _ l2] conjI) (simp_all only: c reply astep.simps s Let_def prod.case append_Nil)
  next
    case quiet
    have e: "to_receiver l = []" "to_sender l = []" using lk quiet by auto
    show ?thesis
    proof (cases "rp = RDone")
      case True
      then have "received l" using lk by simp
      then have "run (Suc k) yr l = run k yr l" using e by (cases k) simp_all
      then show ?thesis using lk True quiet by (intro exI [of _ l] conjI) (simp_all only: c astep.simps if_True simp_thms)
    next
      case False
      obtain out rp' where r: "rstep rp None = (out, rp')" by (cases "rstep rp None")
      obtain l2 where l2: "time_out yr l = Some l2" "linked hdr data (sp, rp', out, []) l2"
        by (rule timeout_linked [OF lk [unfolded quiet] False r])
      have "\<not> received l" using lk False by simp
      then have "run (Suc k) yr l = run k yr l2"
        by (simp only: run.simps e if_True if_False simp_thms l2(1) Option.bind.simps not_False_eq_True)
      then show ?thesis using l2(2) False
        by (intro exI [of _ l2] conjI) (simp_all only: c quiet astep.simps r Let_def prod.case if_False)
    qed
  qed
qed

lemma run_linked:
  "linked hdr data c l \<Longrightarrow> is_header name (length data) hdr \<Longrightarrow>
   \<exists>l'. run k yr l = Some l' \<and> linked hdr data ((astep (nblocks data) ^^ k) c) l'"
proof (induction k arbitrary: c l)
  case (Suc k)
  obtain l1 where l1: "run (Suc k) yr l = run k yr l1" "linked hdr data (astep (nblocks data) c) l1"
    using run_astep [OF Suc.prems] by blast
  from Suc.IH [OF l1(2) Suc.prems(2)] show ?case unfolding l1(1) by (simp add: funpow_swap1)
qed simp

end

text \<open>How many steps it takes.\<close>

text \<open>The path of a transfer on it.\<close>

lemma astep_block:
  "1 \<le> i \<Longrightarrow> i < n \<Longrightarrow> (astep n ^^ 2) (SD i, RO i False False, [RAck], []) = (SD (Suc i), RO (Suc i) False False, [RAck], [])"
  by (simp add: numeral_2_eq_2)

lemma astep_blocks:
  "1 \<le> i \<Longrightarrow> i + k \<le> n \<Longrightarrow> (astep n ^^ (2 * k)) (SD i, RO i False False, [RAck], []) = (SD (i + k), RO (i + k) False False, [RAck], [])"
proof (induction k arbitrary: i)
  case (Suc k)
  have "2 * Suc k = 2 * k + 2" by simp
  then show ?case using astep_block [of i n] Suc by (simp only: funpow_add o_apply) simp
qed simp

definition start_conf :: conf where "start_conf = (SH, RI False 3 False, [RReq], [])"

definition close_conf :: conf where "close_conf = (SE, RI True 0 False, [RAck, RReq], [])"

lemma astep_to_closing: "(astep n ^^ (2 * n + 8)) start_conf = close_conf"
proof (cases n)
  case 0
  show ?thesis by (simp add: 0 start_conf_def close_conf_def numeral_eq_Suc)
next
  case (Suc m)
  have a: "(astep n ^^ 6) start_conf = (SD 1, RO 1 False False, [RAck], [])"
    by (simp add: Suc start_conf_def numeral_eq_Suc)
  have b: "(astep n ^^ (2 * m)) (SD 1, RO 1 False False, [RAck], []) = (SD n, RO n False False, [RAck], [])"
    using astep_blocks [of 1 m n] by (simp add: Suc)
  have c: "(astep n ^^ 4) (SD n, RO n False False, [RAck], []) = close_conf"
    by (simp add: close_conf_def numeral_eq_Suc)
  have "2 * n + 8 = 4 + (2 * m + 6)" by (simp add: Suc)
  then show ?thesis by (simp only: funpow_add o_apply a b c)
qed

lemma astep_to_end: "2 * n + 12 \<le> k \<Longrightarrow> (astep n ^^ k) start_conf = (SDone, RDone, [], [])"
proof -
  assume k: "2 * n + 12 \<le> k"
  have d: "(astep n ^^ 4) close_conf = (SDone, RDone, [], [])" by (simp add: close_conf_def numeral_eq_Suc)
  have s: "(astep n ^^ j) (SDone, RDone, [], []) = (SDone, RDone, [], [])" for j by (induction j) simp_all
  have "k = (k - (2 * n + 12)) + (4 + (2 * n + 8))" using k by simp
  then show ?thesis by (metis funpow_add o_apply astep_to_closing d s)
qed

text \<open>The line when both ends have been started: the receiver has asked for the first packet.\<close>

definition start_link :: "'f ysend \<Rightarrow> 's yrecv \<Rightarrow> ('f, 's) link" where
  "start_link s r = \<lparr>sender = s, receiver = r, to_sender = recv_tx r, to_receiver = [], sent = False, received = False\<rparr>"

definition idle :: "'s yrecv \<Rightarrow> bool" where
  "idle r \<longleftrightarrow> collecting r \<and> yrecv_mode r = 0 \<and> recv_tx r = []"

context ymodem_link begin

lemma start_linked:
  assumes "fitting_name name (length data)" "view file data 0" "133 \<le> length pb" "idle r"
    and "\<And>hdr rest. is_header name (length data) hdr \<Longrightarrow> accepts (user r) (hdr @ rest) (length data)"
  obtains s' hdr where "nk_ysend_file pb file name (word_of_nat (length data)) s = Some s'" "is_header name (length data) hdr"
    "linked hdr data start_conf (start_link s' (nk_yrecv r))"
proof (rule ysend_file_sends [OF assms(1-3)])
  fix s' hdr
  assume s: "nk_ysend_file pb file name (word_of_nat (length data)) s = Some s'" "is_header name (length data) hdr" "sends hdr data SH s'"
  have "receives hdr data (RI False 3 False) (nk_yrecv r)"
    using assms(4) assms(5) [OF s(2)]
    by (simp add: receives_def collecting_def nk_yrecv_def ymodem_recv_init_def recv_putc_def NK_YM_TIMEOUT_def idle_def)
  moreover have "recv_tx (nk_yrecv r) = [reply_char RReq]"
    using assms(4) by (simp add: nk_yrecv_def ymodem_recv_init_def recv_putc_def idle_def)
  ultimately show ?thesis using that s by (simp add: start_conf_def start_link_def)
qed

text \<open>Whatever the line does, the receiver says it is done only when it has the file; the sender is done only after it.\<close>

lemma link_safe:
  assumes "linked hdr data c l0" "is_header name (length data) hdr" "link_steps yr l0 l"
  shows "(received l \<longrightarrow> laststatus (receiver l) = Some YMODEM_RECV_DONE \<and> kept (user (receiver l)) data)
    \<and> (\<not> received l \<and> ymodem_opened (receiver l) \<longrightarrow> (\<exists>k. current (user (receiver l)) = Some (take k data)))
    \<and> (sent l \<longrightarrow> received l)
    \<and> (to_sender l \<noteq> [] \<longrightarrow> deliver_reply l \<noteq> None) \<and> (to_receiver l \<noteq> [] \<longrightarrow> deliver_packet yr l \<noteq> None)
    \<and> (\<not> received l \<and> to_sender l = [] \<and> to_receiver l = [] \<longrightarrow> time_out yr l \<noteq> None)"
proof -
  obtain c' where "linked hdr data c' l" using link_steps_linked [OF assms(3,1,2)] by blast
  then show ?thesis using linked_safe linked_steps_exist [OF _ assms(2)] by blast
qed

text \<open>When nothing is lost the transfer ends.\<close>

lemma link_completes:
  assumes "linked hdr data start_conf l0" "is_header name (length data) hdr" "2 * nblocks data + 12 \<le> k"
  obtains l where "run k yr l0 = Some l" "sent l" "received l" "kept (user (receiver l)) data"
    "laststatus (receiver l) = Some YMODEM_RECV_DONE"
proof -
  obtain l where l: "run k yr l0 = Some l" "linked hdr data ((astep (nblocks data) ^^ k) start_conf) l"
    using run_linked [OF assms(1,2)] by blast
  note e = l(2) [unfolded astep_to_end [OF assms(3)]]
  have "sent l" "received l" using e by simp_all
  then show ?thesis using that l(1) linked_safe(1) [OF e] by blast
qed

text \<open>When the acknowledgement of the end of the file is lost it never does.\<close>

lemma link_sticks:
  assumes "linked hdr data start_conf l0" "is_header name (length data) hdr"
  obtains l cs where "run (2 * nblocks data + 8) yr l0 = Some l" "to_sender l = NK_YM_ACK # cs" "kept (user (receiver l)) data"
    "\<And>l'. link_steps yr (l\<lparr>to_sender := cs\<rparr>) l' \<Longrightarrow> \<not> sent l' \<and> \<not> received l'"
proof -
  obtain l where l: "run (2 * nblocks data + 8) yr l0 = Some l"
    "linked hdr data ((astep (nblocks data) ^^ (2 * nblocks data + 8)) start_conf) l"
    using run_linked [OF assms(1,2)] by blast
  note e = l(2) [unfolded astep_to_closing, unfolded close_conf_def]
  let ?l = "l\<lparr>to_sender := [NK_YM_REQ]\<rparr>"
  have "linked hdr data (SE, RI True 0 False, [RReq], []) ?l" using e by simp
  moreover have "stuck (SE, RI True 0 False, [RReq], [])" by auto
  ultimately have "\<not> sent l' \<and> \<not> received l'" if "link_steps yr ?l l'" for l'
    using stuck_steps [OF that _ _ assms(2)] by blast
  then show ?thesis using that [OF l(1)] e by (auto simp: receives_def)
qed

end

end
