(* ===== verification/Ymodem_cmd.thy ===== *)
theory Ymodem_cmd
  imports Link Mcuflash
begin

text \<open>
  The command that receives a file over the serial line, \<^verbatim>\<open>nkymodem_cmd.c\<close>: the file handler it gives to the YMODEM receiver
  keeps the file in the flash of the microcontroller as a direct file. The pointer \<open>ymodem_file.file\<close> is \<open>file_ptr\<close>, which
  of the three areas it points to; its target is also the \<open>ck_file\<close> of the direct file. The messages printed at the end
  are left out.
\<close>

section \<open>The file handler\<close>

datatype ymodem_target = Ymodem_file_fpga | Ymodem_file_fw0 | Ymodem_file_fw1

definition FLASH_FPGA_BUFFER_MAIN :: u32 where "FLASH_FPGA_BUFFER_MAIN = 0x0"
definition FLASH_FPGA_BUFFER_SIZE :: u32 where "FLASH_FPGA_BUFFER_SIZE = 0x100000"
definition FLASH_FIRMWARE_BUFFER_SIZE :: u32 where "FLASH_FIRMWARE_BUFFER_SIZE = 0x40000"
definition FLASH_FIRMWARE_BUFFER_0 :: u32 where "FLASH_FIRMWARE_BUFFER_0 = 0x100000"
definition FLASH_FIRMWARE_BUFFER_1 :: u32 where "FLASH_FIRMWARE_BUFFER_1 = 0x140000"
definition FLASH_FIRMWARE_FLAG :: u32 where "FLASH_FIRMWARE_FLAG = 0x180000"
definition NK_MCUFLASH_ERASE_SIZE :: u32 where "NK_MCUFLASH_ERASE_SIZE = 4096"

lemmas flash_map = FLASH_FPGA_BUFFER_MAIN_def FLASH_FPGA_BUFFER_SIZE_def FLASH_FIRMWARE_BUFFER_SIZE_def FLASH_FIRMWARE_BUFFER_0_def
  FLASH_FIRMWARE_BUFFER_1_def FLASH_FIRMWARE_FLAG_def NK_MCUFLASH_ERASE_SIZE_def

record 's ymodem_cmd =
  name_buf :: bytes
  dld_exact :: u32
  dld_done :: bool
  file_ptr :: ymodem_target
  ymodem_file :: "'s nk_checked"

definition direct_base :: "'s pico_hw \<Rightarrow> ymodem_target \<Rightarrow> 's nk_checked_base" where
  "direct_base hw t =
     \<lparr>area_size = (case t of Ymodem_file_fpga \<Rightarrow> FLASH_FPGA_BUFFER_SIZE | _ \<Rightarrow> FLASH_FIRMWARE_BUFFER_SIZE),
      area_base = (case t of Ymodem_file_fpga \<Rightarrow> FLASH_FPGA_BUFFER_MAIN | Ymodem_file_fw0 \<Rightarrow> FLASH_FIRMWARE_BUFFER_0
        | Ymodem_file_fw1 \<Rightarrow> FLASH_FIRMWARE_BUFFER_1),
      erase_size = 65536, flash_read = nk_mcuflash_read hw, flash_erase = Some (nk_mcuflash_erase hw),
      flash_write = nk_mcuflash_write hw, granularity = 1\<rparr>"

definition ymodem_recv_file_open :: "'s pico_hw \<Rightarrow> bytes \<Rightarrow> 's ymodem_cmd \<Rightarrow> (int \<times> 's ymodem_cmd) option" where
  "ymodem_recv_file_open hw name s = do {
     len \<leftarrow> strlen name;
     buf \<leftarrow> store_at (name_buf s) 0 (take (unat len + 1) name);
     c \<leftarrow> deref name (unat len + 1);
     exact \<leftarrow> (if c \<noteq> 0 then map_option word_of_int (atoi (drop (unat len + 1) name)) else Some 0xffffffff);
     let target = (if take 4 name = [0x66, 0x70, 0x67, 0x61] then Ymodem_file_fpga else Ymodem_file_fw0);
     let (rtn, f) = nk_direct_write_open (ymodem_file s) (direct_base hw target);
     Some (rtn, s\<lparr>name_buf := buf, dld_exact := exact, file_ptr := target, ymodem_file := f\<rparr>)
   }"

definition ymodem_recv_file_write :: "bytes \<Rightarrow> 's ymodem_cmd \<Rightarrow> 's ymodem_cmd option" where
  "ymodem_recv_file_write buffer s = do {
     (_, f) \<leftarrow> nk_direct_write (ymodem_file s) buffer;
     Some (s\<lparr>ymodem_file := f\<rparr>)
   }"

definition ymodem_recv_file_close :: "'s ymodem_cmd \<Rightarrow> 's ymodem_cmd option" where
  "ymodem_recv_file_close s = (let _ = nk_direct_write_close (ymodem_file s) in Some (s\<lparr>dld_done := True\<rparr>))"

definition ymodem_recv_file_cancel :: "'s ymodem_cmd \<Rightarrow> 's ymodem_cmd option" where
  "ymodem_recv_file_cancel s = Some s"

definition ymodem_recv_all_done :: "'s pico_hw \<Rightarrow> 's ymodem_cmd \<Rightarrow> 's ymodem_cmd option" where
  "ymodem_recv_all_done hw s =
     (if dld_done s then
        if file_ptr s = Ymodem_file_fw0 \<or> file_ptr s = Ymodem_file_fw1 then do {
          (_, fl) \<leftarrow> nk_mcuflash_erase hw (ck_info (ymodem_file s)) FLASH_FIRMWARE_FLAG NK_MCUFLASH_ERASE_SIZE;
          (_, fl) \<leftarrow> nk_mcuflash_write hw fl FLASH_FIRMWARE_FLAG (le32_bytes 0);
          Some (s\<lparr>ymodem_file := (ymodem_file s)\<lparr>ck_info := fl\<rparr>\<rparr>)
        }
        else Some s
      else Some s)"

definition nk_yrecv_str :: "'s pico_hw \<Rightarrow> 's ymodem_cmd nk_yrecv_struct" where
  "nk_yrecv_str hw =
     \<lparr>y_xname = [0x61, 0x6E, 0x6F, 0x6E, 0x79, 0x6D, 0x6F, 0x75, 0x73, 0, 0],
      y_open = ymodem_recv_file_open hw, y_write = ymodem_recv_file_write, y_close = ymodem_recv_file_close,
      y_cancel = ymodem_recv_file_cancel, y_all_done = ymodem_recv_all_done hw\<rparr>"

text \<open>The command without arguments: it starts the receiver.\<close>

definition cmd_ymodem_receive :: "'s ymodem_cmd yrecv \<Rightarrow> 's ymodem_cmd yrecv option" where
  "cmd_ymodem_receive r = do {
     buf \<leftarrow> store_at (name_buf (user r)) 0 [0];
     Some (nk_yrecv (r\<lparr>user := (user r)\<lparr>name_buf := buf, dld_done := False\<rparr>\<rparr>))
   }"

section \<open>What it keeps\<close>

definition target_of :: "bytes \<Rightarrow> ymodem_target" where
  "target_of name = (if take 4 name = [0x66, 0x70, 0x67, 0x61] then Ymodem_file_fpga else Ymodem_file_fw0)"

definition area_of :: "ymodem_target \<Rightarrow> nat \<times> nat" where
  "area_of t = (unat (area_base (direct_base pico_mem t)), unat (area_size (direct_base pico_mem t)))"

lemma target_of_string: "0 \<notin> set name \<Longrightarrow> target_of (name @ 0 # rest) = target_of name"
proof -
  assume z: "0 \<notin> set name"
  have "take 4 (name @ 0 # rest) = pat \<longleftrightarrow> take 4 name = pat" if "length pat = 4" "0 \<notin> set pat" for pat
  proof (cases "4 \<le> length name")
    case False
    then have "0 \<in> set (take 4 (name @ 0 # rest))" by (auto simp: take_Cons')
    then show ?thesis using that False by auto
  qed simp
  from this [of "[0x66, 0x70, 0x67, 0x61]"] show ?thesis by (simp add: target_of_def)
qed

lemma unat_flash_map:
  "unat FLASH_FPGA_BUFFER_MAIN = 0" "unat FLASH_FPGA_BUFFER_SIZE = 0x100000" "unat FLASH_FIRMWARE_BUFFER_SIZE = 0x40000"
  "unat FLASH_FIRMWARE_BUFFER_0 = 0x100000" "unat FLASH_FIRMWARE_BUFFER_1 = 0x140000" "unat FLASH_FIRMWARE_FLAG = 0x180000"
  "unat NK_MCUFLASH_ERASE_SIZE = 4096"
  by (simp_all add: flash_map)

lemma area_of_simps:
  "unat (area_base (direct_base hw t)) = fst (area_of t)" "unat (area_size (direct_base hw t)) = snd (area_of t)"
  by (simp_all add: area_of_def direct_base_def)

lemma area_of_eq:
  "area_of Ymodem_file_fpga = (0, 0x100000)" "area_of Ymodem_file_fw0 = (0x100000, 0x40000)" "area_of Ymodem_file_fw1 = (0x140000, 0x40000)"
  by (simp_all add: area_of_def direct_base_def unat_flash_map)

locale ymodem_flash = pico_blocks hw flash_ok flash_bytes 65536
  for hw :: "'s pico_hw" and flash_ok flash_bytes +
  fixes target :: ymodem_target
  assumes whole_map: "0x200000 \<le> flash_bytes"
begin

definition accepts :: "'s ymodem_cmd \<Rightarrow> bytes \<Rightarrow> nat \<Rightarrow> bool" where
  "accepts s nm n \<longleftrightarrow> length (name_buf s) = 128 \<and> flash_ok (ck_info (ymodem_file s)) \<and> n \<le> snd (area_of target)
     \<and> (\<exists>name rest. nm = name @ 0 # number_text 10 False n @ 0 # rest \<and> 0 \<notin> set name \<and> length name < 128 \<and> target_of name = target)"

definition current :: "'s ymodem_cmd \<Rightarrow> bytes option" where
  "current s = Some (flash.direct_stored (ymodem_file s))"

definition room :: "'s ymodem_cmd \<Rightarrow> nat \<Rightarrow> bool" where
  "room s n \<longleftrightarrow> file_ptr s = target \<and> flash.direct_writing (direct_base hw target) (ymodem_file s) n"

definition kept :: "'s ymodem_cmd \<Rightarrow> bytes \<Rightarrow> bool" where
  "kept s d \<longleftrightarrow> flash_ok (ck_info (ymodem_file s)) \<and> dld_done s \<and> file_ptr s = target \<and> length d \<le> snd (area_of target)
     \<and> range_of (xip hw (ck_info (ymodem_file s))) (fst (area_of target)) (length d) = d"

lemma base_on_device: "flash.on_device (direct_base hw t)"
proof -
  have "pow2 (65536 :: u32)" by (rule pow2_numeral_intro [of 16]) simp_all
  then show ?thesis using whole_map
    by (cases t) (simp_all add: flash.on_device_def direct_base_def unat_flash_map)
qed

lemma number_text_not_Nil: "number_text 10 False n = hd (number_text 10 False n) # tl (number_text 10 False n)"
  by (rule number_text_digits [of n]) simp

lemma all_done_ok:
  assumes "flash_ok (ck_info (ymodem_file s))" "dld_done s"
  obtains fl where "ymodem_recv_all_done hw s = Some (s\<lparr>ymodem_file := (ymodem_file s)\<lparr>ck_info := fl\<rparr>\<rparr>)" "flash_ok fl"
    "\<forall>i < 0x180000. xip hw fl i = xip hw (ck_info (ymodem_file s)) i"
    "file_ptr s \<noteq> Ymodem_file_fpga \<Longrightarrow> range_of (xip hw fl) 0x180000 4 = [0, 0, 0, 0]"
proof (cases "file_ptr s = Ymodem_file_fpga")
  case True
  then show ?thesis using that [of "ck_info (ymodem_file s)"] assms by (simp add: ymodem_recv_all_done_def)
next
  case False
  let ?fl = "ck_info (ymodem_file s)"
  let ?m = "set_range (xip hw ?fl) 0x180000 (replicate 4096 0xFF)"
  obtain f1 where f1: "nk_mcuflash_erase hw ?fl FLASH_FIRMWARE_FLAG NK_MCUFLASH_ERASE_SIZE = Some (0, f1)" "flash_ok f1" "xip hw f1 = ?m"
    using range_erase [of ?fl FLASH_FIRMWARE_FLAG NK_MCUFLASH_ERASE_SIZE] assms(1) whole_map
    by (auto simp: nk_mcuflash_erase_def unat_flash_map) (simp add: flash_map FLASH_SECTOR_SIZE_def)
  have le: "le32_bytes 0 = [0, 0, 0, 0]" by (simp add: le32_bytes_def)
  have "xip hw f1 i = 0xFF" if "0x180000 \<le> i" "i < 0x180000 + 4" for i
    using that unfolding f1(3) by (simp add: set_range_def)
  then obtain f2 where f2: "nk_mcuflash_write hw f1 FLASH_FIRMWARE_FLAG (le32_bytes 0) = Some (0, f2)" "flash_ok f2"
      "xip hw f2 = set_range ?m 0x180000 [0, 0, 0, 0]"
    using flash.fwrite [OF f1(2), of FLASH_FIRMWARE_FLAG "le32_bytes 0"] whole_map
    unfolding f1(3) [symmetric] le unat_flash_map by auto
  have "\<forall>i < 0x180000. xip hw f2 i = xip hw ?fl i" unfolding f2(3) by (simp add: set_range_def)
  moreover have "range_of (xip hw f2) 0x180000 4 = [0, 0, 0, 0]"
    unfolding f2(3) by (simp add: range_of_def set_range_def upt_rec)
  ultimately show ?thesis using that [of f2] f1(1) f2(1,2) assms(2) False
    by (cases "file_ptr s") (simp_all add: ymodem_recv_all_done_def)
qed

sublocale handler: file_handler "nk_yrecv_str hw" accepts current room kept
proof unfold_locales
  fix s :: "'s ymodem_cmd" and nm n
  assume "accepts s nm n"
  then obtain name rest where a: "length (name_buf s) = 128" "flash_ok (ck_info (ymodem_file s))" "n \<le> snd (area_of target)"
    and nm: "nm = name @ 0 # number_text 10 False n @ 0 # rest" "0 \<notin> set name" "length name < 128" "target_of name = target"
    by (auto simp: accepts_def)
  have len: "strlen nm = Some (word_of_nat (length name))" unfolding nm(1) using strlen_string [OF nm(2)] by simp
  have un: "unat (word_of_nat (length name) :: u32) = length name" using nm(3) by (intro unat_of_nat_u32) simp
  have num: "drop (length name + 1) nm = number_text 10 False n @ 0 # rest" by (simp add: nm(1))
  obtain c cs where cs: "number_text 10 False n = c # cs" using number_text_not_Nil by metis
  have "deref nm (length name + 1) = Some c" by (simp add: nm(1) cs deref_def nth_append)
  moreover have "n < 2 ^ 31" using a(3) by (cases target) (simp_all add: area_of_eq)
  moreover have "target_of nm = target"
    using target_of_string nm by simp
  moreover have "store_at (name_buf s) 0 (take (length name + 1) nm) \<noteq> None"
    using a(1) nm(1,3) by (simp add: store_at_def)
  ultimately obtain buf exact where o: "ymodem_recv_file_open hw nm s = Some (0, s\<lparr>name_buf := buf, dld_exact := exact, file_ptr := target,
      ymodem_file := snd (nk_direct_write_open (ymodem_file s) (direct_base hw target))\<rparr>)"
    using len un atoi_number [of n rest] num
    by (cases "c = 0") (auto simp: ymodem_recv_file_open_def target_of_def nk_direct_write_open_def)
  show "\<exists>s'. y_open (nk_yrecv_str hw) nm s = Some (0, s') \<and> current s' = Some [] \<and> room s' n"
    using flash.direct_write_open_ok [OF base_on_device a(2), of target] a(3) o
      flash.direct_sink.sink_less [of "direct_base hw target" _ "snd (area_of target)" n]
    by (auto simp: nk_yrecv_str_def current_def room_def area_of_simps)
next
  fix s :: "'s ymodem_cmd" and d bs :: bytes and n
  assume "current s = Some d" "room s (length bs + n)"
  then have c: "flash.direct_stored (ymodem_file s) = d" "file_ptr s = target"
    "flash.direct_writing (direct_base hw target) (ymodem_file s) (length bs + n)"
    by (simp_all add: current_def room_def)
  obtain v where "nk_direct_write (ymodem_file s) bs = Some (0, v)" "flash.direct_writing (direct_base hw target) v n"
    "flash.direct_stored v = flash.direct_stored (ymodem_file s) @ bs"
    by (rule flash.direct_write_ok [OF c(3)])
  then show "\<exists>s'. y_write (nk_yrecv_str hw) bs s = Some s' \<and> current s' = Some (d @ bs) \<and> room s' n"
    using c by (intro exI [of _ "s\<lparr>ymodem_file := v\<rparr>"]) (simp add: nk_yrecv_str_def ymodem_recv_file_write_def current_def room_def)
next
  fix s :: "'s ymodem_cmd" and d n
  assume "current s = Some d" "room s n"
  then show "\<exists>s'. y_close (nk_yrecv_str hw) s = Some s' \<and> kept s' d"
    by (auto simp: nk_yrecv_str_def ymodem_recv_file_close_def current_def room_def kept_def flash.direct_stored_def flash.direct_writing_def area_of_simps)
next
  fix s :: "'s ymodem_cmd" and d
  assume k: "kept s d"
  then obtain fl where fl: "ymodem_recv_all_done hw s = Some (s\<lparr>ymodem_file := (ymodem_file s)\<lparr>ck_info := fl\<rparr>\<rparr>)" "flash_ok fl"
    "\<forall>i < 0x180000. xip hw fl i = xip hw (ck_info (ymodem_file s)) i"
    using all_done_ok [of s] by (auto simp: kept_def)
  have "length d \<le> snd (area_of target)" using k by (simp add: kept_def)
  then have "fst (area_of target) + length d \<le> 0x180000" by (cases target) (simp_all add: area_of_eq)
  then have "range_of (xip hw fl) (fst (area_of target)) (length d) = range_of (xip hw (ck_info (ymodem_file s))) (fst (area_of target)) (length d)"
    using fl(3) by (intro range_of_cong) simp
  then show "\<exists>s'. y_all_done (nk_yrecv_str hw) s = Some s' \<and> kept s' d"
    using k fl by (simp add: nk_yrecv_str_def kept_def)
qed

lemmas file_handler_axioms = handler.file_handler_axioms

end

text \<open>The memory of an area, and a command that can receive a file of some name and length.\<close>

definition area_contents :: "'s pico_hw \<Rightarrow> 's ymodem_cmd \<Rightarrow> ymodem_target \<Rightarrow> nat \<Rightarrow> bytes" where
  "area_contents hw c t n = range_of (xip hw (ck_info (ymodem_file c))) (fst (area_of t)) n"

definition can_receive :: "'s ymodem_cmd yrecv \<Rightarrow> bool" where
  "can_receive r \<longleftrightarrow> idle r \<and> length (name_buf (user r)) = 128"

lemma can_receive_starts:
  assumes "can_receive r"
  obtains r' where "cmd_ymodem_receive r = Some (nk_yrecv r')" "idle r'" "length (name_buf (user r')) = 128"
    "ymodem_file (user r') = ymodem_file (user r)"
proof -
  obtain buf where buf: "store_at (name_buf (user r)) 0 [0] = Some buf" "length buf = 128"
    using assms by (auto simp: can_receive_def store_at_def)
  show ?thesis
    by (rule that [of "r\<lparr>user := (user r)\<lparr>name_buf := buf, dld_done := False\<rparr>\<rparr>"])
      (use assms buf in \<open>simp_all add: cmd_ymodem_receive_def can_receive_def idle_def collecting_def\<close>)
qed

lemma header_accepted:
  assumes "is_header name n hdr" "ymodem_flash hw flash_ok flash_bytes" "flash_ok (ck_info (ymodem_file c))"
    and "length (name_buf c) = 128" "n \<le> snd (area_of (target_of name))"
  shows "ymodem_flash.accepts flash_ok (target_of name) c (hdr @ rest) n"
proof -
  obtain more where h: "hdr = name @ 0 # number_text 10 False n @ 0 # more" "0 \<notin> set name" "length hdr = 128"
    using assms(1) by (auto simp: is_header_def)
  then have "length name < 128" by simp
  then show ?thesis unfolding ymodem_flash.accepts_def [OF assms(2)] using h assms(3-5)
    by (intro conjI exI [of _ name] exI [of _ "more @ rest"]) simp_all
qed

lemma ymodem_flash_intro: "pico_flash hw flash_ok flash_bytes \<Longrightarrow> 0x200000 \<le> flash_bytes \<Longrightarrow> ymodem_flash hw flash_ok flash_bytes"
  by (simp add: ymodem_flash_def ymodem_flash_axioms_def pico_blocks_def pico_blocks_axioms_def)

lemma ymodem_flash_device:
  "ymodem_flash hw flash_ok flash_bytes \<Longrightarrow>
   flash_device (nk_mcuflash_read hw) (nk_mcuflash_erase hw) (nk_mcuflash_write hw) True (xip hw) flash_ok 65536 flash_bytes"
  unfolding ymodem_flash_def by (auto intro: pico_blocks.flash_device_axioms)

text \<open>The line from a sender to this command.\<close>

abbreviation cmd_link where
  "cmd_link ok hw flash_ok flash_bytes t \<equiv> ymodem_link ok (nk_yrecv_str hw) (ymodem_flash.accepts flash_ok t) (ymodem_flash.current hw)
     (ymodem_flash.room hw flash_ok flash_bytes t) (ymodem_flash.kept hw flash_ok t)"

abbreviation cmd_linked where
  "cmd_linked ok hw flash_ok flash_bytes t \<equiv> ymodem_link.linked ok (ymodem_flash.accepts flash_ok t) (ymodem_flash.current hw)
     (ymodem_flash.room hw flash_ok flash_bytes t) (ymodem_flash.kept hw flash_ok t)"

text \<open>The start of a transfer to this command.\<close>

lemma transfer_starts:
  assumes "pico_flash hw flash_ok flash_bytes" "0x200000 \<le> flash_bytes" "reader ok" "reader.view ok file data 0"
    and "fitting_name name (length data)" "length data \<le> snd (area_of (target_of name))" "133 \<le> length pb"
    and "can_receive r" "flash_ok (ck_info (ymodem_file (user r)))"
  obtains s hdr r' where "nk_ysend_file pb file name (word_of_nat (length data)) s0 = Some s" "cmd_ymodem_receive r = Some r'"
    "cmd_link ok hw flash_ok flash_bytes (target_of name)"
    "is_header name (length data) hdr"
    "cmd_linked ok hw flash_ok flash_bytes (target_of name) hdr data start_conf (start_link s r')"
proof -
  note yf = ymodem_flash_intro [OF assms(1,2)]
  have link: "cmd_link ok hw flash_ok flash_bytes (target_of name)"
    using assms(3) ymodem_flash.file_handler_axioms [OF yf] by (simp add: ymodem_link_def)
  obtain r' where r': "cmd_ymodem_receive r = Some (nk_yrecv r')" "idle r'" "length (name_buf (user r')) = 128"
    "ymodem_file (user r') = ymodem_file (user r)"
    by (rule can_receive_starts [OF assms(8)])
  have acc: "ymodem_flash.accepts flash_ok (target_of name) (user r') (hdr @ rest) (length data)"
    if "is_header name (length data) hdr" for hdr rest
    by (rule header_accepted [OF that yf]) (use assms(6,9) r' in simp_all)
  show ?thesis
    by (rule ymodem_link.start_linked [OF link assms(5,4,7) r'(2) acc]) (use that r'(1) link in auto)
qed


section \<open>Properties\<close>


definition example_receiver :: "(nat \<Rightarrow> u8) ymodem_cmd yrecv" where
  "example_receiver = \<lparr>ymodem_opened = False, ymodem_got_eot = False, ymodem_purge = True, ymodem_first = False, ymodem_can = True,
     ymodem_to = 0, ymodem_xmodem = False, ymodem_old_seq = 0, ymodem_seq = 7, ymodem_file_size = 0, crc_count = 0, long_count = 0,
     laststatus = None, yrecv_mode = 0, yrecv_len = 0, max_len = 0, packet_buffer = replicate 1029 0, recv_tx = [],
     user = \<lparr>name_buf = replicate 128 0, dld_exact = 0, dld_done = False, file_ptr = Ymodem_file_fw1,
       ymodem_file = \<lparr>ck_file = direct_base pico_mem Ymodem_file_fw1, ck_crc = 0, ck_size = 0, ck_info = \<lambda>i. word_of_nat i\<rparr>\<rparr>\<rparr>"

definition example_sender :: "unit ysend" where
  "example_sender = \<lparr>ymodem_send_eot = True, ymodem_send_fin = False, ymodem_send_seq = 9, ymodem_send_hdr = False, ymodem_send_block_size = 0,
     packet_buf = [], ysend_file = nkinfile_open_mem () [] 0, send_tx = []\<rparr>"

definition example_file :: "unit nkinfile" where
  "example_file = nkinfile_open_mem () [1, 2, 3] 3"

lemma example_ready: "can_receive example_receiver" "fitting_name [0x61] (length [1 :: u8, 2, 3])" "mem_file.view example_file [1, 2, 3] 0"
  "target_of [0x61] = Ymodem_file_fw0"
proof -
  show "can_receive example_receiver" by (simp add: can_receive_def example_receiver_def idle_def collecting_def)
  have "length (number_text 10 False 3) = 1" by (simp add: number_text_def num_digits.simps)
  then show "fitting_name [0x61] (length [1 :: u8, 2, 3])" by (simp add: fitting_name_def numeral_3_eq_3)
  show "mem_file.view example_file [1, 2, 3] 0" using open_mem_view [of "[1, 2, 3]" "()"] by (simp add: example_file_def)
qed (simp add: target_of_def)


text \<open>C15. A transfer over a line that loses nothing ends. After at most \<open>2 * nblocks data + 12\<close> events, where a
  timeout happens only when nothing is on the line, both ends are done, the receiver's status is
  \<open>YMODEM_RECV_DONE\<close>, and the file is in the flash area its name selects.\<close>

theorem ymodem_transfer_completes:
  assumes "pico_flash hw flash_ok flash_bytes" "0x200000 \<le> flash_bytes" "reader ok" "reader.view ok file data 0"
    and "fitting_name name (length data)" "length data \<le> snd (area_of (target_of name))" "133 \<le> length pb"
    and "can_receive r" "flash_ok (ck_info (ymodem_file (user r)))" "2 * nblocks data + 12 \<le> k"
  shows "\<exists>s r' l. nk_ysend_file pb file name (word_of_nat (length data)) s0 = Some s \<and> cmd_ymodem_receive r = Some r'
    \<and> run k (nk_yrecv_str hw) (start_link s r') = Some l \<and> sent l \<and> received l
    \<and> laststatus (receiver l) = Some YMODEM_RECV_DONE
    \<and> area_contents hw (user (receiver l)) (target_of name) (length data) = data"
proof -
  note yf = ymodem_flash_intro [OF assms(1,2)]
  obtain s hdr r' where s: "nk_ysend_file pb file name (word_of_nat (length data)) s0 = Some s" "cmd_ymodem_receive r = Some r'"
    and link: "cmd_link ok hw flash_ok flash_bytes (target_of name)" and hdr: "is_header name (length data) hdr"
    and start: "cmd_linked ok hw flash_ok flash_bytes (target_of name) hdr data start_conf (start_link s r')"
    by (rule transfer_starts [OF assms(1-9), of s0])
  show ?thesis
    by (rule ymodem_link.link_completes [OF link start hdr assms(10)])
      (use s in \<open>auto simp: ymodem_flash.kept_def [OF yf] area_contents_def\<close>)
qed

theorem ymodem_transfer_completes_witness:
  "\<exists>s r' l. nk_ysend_file (replicate 133 0) example_file [0x61] 3 example_sender = Some s \<and> cmd_ymodem_receive example_receiver = Some r'
    \<and> run 14 (nk_yrecv_str pico_mem) (start_link s r') = Some l \<and> sent l
    \<and> area_contents pico_mem (user (receiver l)) Ymodem_file_fw0 3 = [1, 2, 3]"
  using ymodem_transfer_completes [OF pico_mem.pico_flash_axioms _ mem_file.reader_axioms example_ready(3,2) _ _ example_ready(1),
      of "replicate 133 0" 14 example_sender]
  by (auto simp: example_ready area_of_eq numeral_3_eq_3 nblocks_def)

text \<open>C33. One lost acknowledgement can keep a transfer from ever ending. On the way of every transfer there
  is a state in which the receiver has just acknowledged the end of the file and has stored the file; if that one
  character is lost, then whatever happens later neither end finishes: the sender repeats the end of the file and the
  receiver, which now waits for a header, purges it.\<close>

theorem ymodem_lost_ack_livelock:
  assumes "pico_flash hw flash_ok flash_bytes" "0x200000 \<le> flash_bytes" "reader ok" "reader.view ok file data 0"
    and "fitting_name name (length data)" "length data \<le> snd (area_of (target_of name))" "133 \<le> length pb"
    and "can_receive r" "flash_ok (ck_info (ymodem_file (user r)))"
  shows "\<exists>s r' l cs. nk_ysend_file pb file name (word_of_nat (length data)) s0 = Some s \<and> cmd_ymodem_receive r = Some r'
    \<and> run (2 * nblocks data + 8) (nk_yrecv_str hw) (start_link s r') = Some l \<and> to_sender l = NK_YM_ACK # cs
    \<and> area_contents hw (user (receiver l)) (target_of name) (length data) = data
    \<and> (\<forall>l'. link_steps (nk_yrecv_str hw) (l\<lparr>to_sender := cs\<rparr>) l' \<longrightarrow> \<not> sent l' \<and> \<not> received l')"
proof -
  note yf = ymodem_flash_intro [OF assms(1,2)]
  obtain s hdr r' where s: "nk_ysend_file pb file name (word_of_nat (length data)) s0 = Some s" "cmd_ymodem_receive r = Some r'"
    and link: "cmd_link ok hw flash_ok flash_bytes (target_of name)" and hdr: "is_header name (length data) hdr"
    and start: "cmd_linked ok hw flash_ok flash_bytes (target_of name) hdr data start_conf (start_link s r')"
    by (rule transfer_starts [OF assms, of s0])
  show ?thesis
    by (rule ymodem_link.link_sticks [OF link start hdr])
      (use s in \<open>auto simp: ymodem_flash.kept_def [OF yf] area_contents_def\<close>)
qed

theorem ymodem_lost_ack_livelock_witness:
  "\<exists>s r' l cs. nk_ysend_file (replicate 133 0) example_file [0x61] 3 example_sender = Some s \<and> cmd_ymodem_receive example_receiver = Some r'
    \<and> run 10 (nk_yrecv_str pico_mem) (start_link s r') = Some l \<and> to_sender l = NK_YM_ACK # cs
    \<and> (\<forall>l'. link_steps (nk_yrecv_str pico_mem) (l\<lparr>to_sender := cs\<rparr>) l' \<longrightarrow> \<not> sent l' \<and> \<not> received l')"
  using ymodem_lost_ack_livelock [OF pico_mem.pico_flash_axioms _ mem_file.reader_axioms example_ready(3,2) _ _ example_ready(1),
      of "replicate 133 0" example_sender]
  by (auto simp: example_ready area_of_eq numeral_3_eq_3 nblocks_def)

text \<open>The string at the start of memory that has no end in its first bytes.\<close>

lemma strlen_beyond:
  "strlen mem = Some w \<Longrightarrow> length mem < 2 ^ 32 \<Longrightarrow> n \<le> length mem \<Longrightarrow> 0 \<notin> set (take n mem) \<Longrightarrow> n \<le> unat w \<and> unat w < length mem"
proof (induction mem arbitrary: w n)
  case (Cons c cs)
  show ?case
  proof (cases "c = 0")
    case True
    then have "n = 0" using Cons.prems(4) by (cases n) auto
    then show ?thesis using True Cons.prems(1) by simp
  next
    case False
    obtain v where v: "strlen cs = Some v" "w = v + 1" using False Cons.prems(1) by (auto simp: ac_simps)
    have "n - 1 \<le> unat v \<and> unat v < length cs"
      by (rule Cons.IH [OF v(1)]) (use Cons.prems(2-4) in \<open>cases n; auto\<close>)+
    moreover have "unat w = unat v + 1"
      using calculation Cons.prems(2) v(2) by (subst v(2), subst unat_add_no_wrap) simp_all
    ultimately show ?thesis using Cons.prems(3) by simp linarith
  qed
qed simp

lemma name_overflows:
  assumes "length hdr = 128" "0 \<notin> set hdr" "length rest < 2 ^ 31" "length (name_buf s) = 128"
  shows "ymodem_recv_file_open hw (hdr @ rest) s = None"
proof (cases "strlen (hdr @ rest)")
  case (Some w)
  then have "128 \<le> unat w" "unat w < length (hdr @ rest)"
    using strlen_beyond [of "hdr @ rest" w 128] assms by simp_all
  then have "128 < length (take (unat w + 1) (hdr @ rest))" by simp
  then have "store_at (name_buf s) 0 (take (unat w + 1) (hdr @ rest)) = None"
    using assms(4) unfolding store_at_def by (metis add_0 not_le)
  then show ?thesis using Some by (simp add: ymodem_recv_file_open_def)
qed (simp add: ymodem_recv_file_open_def)

lemma unterminated_header:
  assumes "length hdr = 128" "0 \<notin> set hdr" "length rest < 2 ^ 30" "length (name_buf (user r)) = 128"
  shows "recv_header (nk_yrecv_str hw) (packet NK_YM_SOH 0 hdr @ rest) r = None"
proof -
  let ?more = "be_bytes16 (nk_crc16be_check hdr) @ rest"
  define buf where "buf = packet NK_YM_SOH 0 hdr @ rest"
  have mem: "drop 3 buf = hdr @ ?more" by (simp add: buf_def packet_def)
  have open_none: "y_open (nk_yrecv_str hw) (hdr @ ?more) u = None" if "u = user r" for u
    using name_overflows [of hdr ?more u hw] assms that by (simp add: nk_yrecv_str_def be_bytes16_def)
  have "hdr \<noteq> []" using assms(1) by auto
  then have "hd hdr \<noteq> 0" using assms(2) by (metis hd_in_set)
  moreover have "deref buf 3 = Some (hd hdr)"
    using \<open>hdr \<noteq> []\<close> by (simp add: buf_def deref_def packet_def nth_append hd_conv_nth)
  ultimately show ?thesis
    unfolding buf_def [symmetric] by (simp add: recv_header_def mem open_none Let_def split: bind_split)
qed

text \<open>The loop of the file write depends on the driver and the erase size only.\<close>

lemma write_blocks_area:
  assumes "write_blocks file len address buffer s = Some y" "erase_size file' = erase_size file"
    "flash_erase file' = flash_erase file" "flash_write file' = flash_write file"
  shows "write_blocks file' len address buffer s = Some y"
proof -
  let ?same = "\<lambda>file. erase_size file' = erase_size file \<and> flash_erase file' = flash_erase file \<and> flash_write file' = flash_write file"
  have "?same file \<longrightarrow> write_blocks file' len address buffer s = Some y"
  proof (rule write_blocks.raw_induct [where P = "\<lambda>file len address buffer s y. ?same file \<longrightarrow> write_blocks file' len address buffer s = Some y",
      OF _ assms(1)], intro impI, goal_cases)
    case (1 wb f len address buffer s y)
    note same = 1(3) and IH = 1(1) [rule_format, OF _ 1(3)] and body = 1(2)
    show ?case
      by (cases y; subst write_blocks.simps) (use same IH body in \<open>auto simp: Let_def split: if_splits bind_splits option.splits\<close>)
  qed
  then show ?thesis using assms(2-4) by simp
qed

text \<open>C35. A file name that fills the header overflows the receiver. The receiver never looks for the end of the name inside
  the 128 bytes of the packet: for every header packet without a zero byte, its CRC being right, the
  handler runs \<open>strlen\<close> past the packet and copies more than the 128 bytes of \<open>name_buf\<close>, so what it does is not defined.\<close>

theorem ymodem_name_overflows:
  assumes "length hdr = 128" "0 \<notin> set hdr" "can_receive r" "length (packet_buffer r) < 2 ^ 30"
  shows "\<exists>r'. cmd_ymodem_receive r = Some r' \<and> ymodem_recv_task (nk_yrecv_str hw) (Some (packet NK_YM_SOH 0 hdr)) r' = None"
proof -
  let ?p = "packet NK_YM_SOH 0 hdr"
  obtain buf where buf: "store_at (name_buf (user r)) 0 [0] = Some buf" "length buf = 128"
    using assms(3) by (auto simp: can_receive_def store_at_def)
  define r' where "r' = nk_yrecv (r\<lparr>user := (user r)\<lparr>name_buf := buf, dld_done := False\<rparr>\<rparr>)"
  have r': "collecting r'" "yrecv_mode r' = 0" "\<not> ymodem_opened r'" "\<not> ymodem_purge r'" "length (name_buf (user r')) = 128"
    "packet_buffer r' = packet_buffer r"
    using assms(3) buf by (simp_all add: r'_def can_receive_def idle_def collecting_def nk_yrecv_def ymodem_recv_init_def recv_putc_def)
  obtain m where task: "ymodem_recv_task (nk_yrecv_str hw) (Some ?p) r' = process_full_outer (nk_yrecv_str hw)
     (r'\<lparr>packet_buffer := ?p @ drop 133 (packet_buffer r'), yrecv_len := 133, max_len := m, yrecv_mode := 0\<rparr>)"
    by (rule recv_packet [OF r'(1,2), of ?p]) (use assms(1) in simp_all)
  let ?r = "r'\<lparr>packet_buffer := ?p @ drop 133 (packet_buffer r'), yrecv_len := 133, max_len := m, yrecv_mode := 0\<rparr>"
  have none: "recv_header (nk_yrecv_str hw) (?p @ drop 133 (packet_buffer r')) q = None" if "user q = user r'" for q
    by (rule unterminated_header [OF assms(1,2)]) (use assms(4) r' that in simp_all)
  have "recv_waiting (nk_yrecv_str hw) (?p @ drop 133 (packet_buffer r')) 133 ?r = None"
    using packet_ok_packet [of hdr 133 NK_YM_SOH NK_YM_SOH "\<lambda>sq. sq = 0" 0 "drop 133 (packet_buffer r')" ?r] assms(1)
      buffer_nth [of 0 ?p "drop 133 (packet_buffer r')"] none
    by (simp add: recv_waiting_def ym_lens)
  then have "ymodem_rcv (nk_yrecv_str hw) (packet_buffer ?r) (yrecv_len ?r) ?r = None"
    using r' by (simp add: ymodem_rcv_def)
  then show ?thesis
    using task buf by (auto simp: cmd_ymodem_receive_def r'_def process_full_outer_def)
qed

theorem ymodem_name_overflows_witness:
  "\<exists>r'. cmd_ymodem_receive example_receiver = Some r'
    \<and> ymodem_recv_task (nk_yrecv_str pico_mem) (Some (packet NK_YM_SOH 0 (replicate 128 0x41))) r' = None"
proof -
  have "length (packet_buffer example_receiver) < 2 ^ 30" by (simp add: example_receiver_def)
  then show ?thesis
    using ymodem_name_overflows [OF _ _ example_ready(1), of "replicate 128 0x41"] by simp
qed

text \<open>C37. Nothing limits a received file to its area. When the area of the first firmware bank is full, the next
  bytes of the file are written all the same: the write succeeds and they are the start of the second firmware bank.\<close>

theorem oversized_file_overwrites_next_bank:
  assumes "pico_flash hw flash_ok flash_bytes" "0x200000 \<le> flash_bytes"
    and "ck_file (ymodem_file c) = direct_base hw Ymodem_file_fw0" "ck_size (ymodem_file c) = FLASH_FIRMWARE_BUFFER_SIZE"
    and "flash_ok (ck_info (ymodem_file c))" "length data \<le> 0x40000"
  shows "\<exists>c'. ymodem_recv_file_write data c = Some c' \<and> area_contents hw c' Ymodem_file_fw1 (length data) = data"
proof -
  note yf = ymodem_flash_intro [OF assms(1,2)]
  let ?v = "ymodem_file c" and ?len = "word_of_nat (length data) :: u32"
  have dev: "flash_device (nk_mcuflash_read hw) (nk_mcuflash_erase hw) (nk_mcuflash_write hw) True (xip hw) flash_ok 65536 flash_bytes"
    using ymodem_flash_device [OF yf] .
  have ad: "FLASH_FIRMWARE_BUFFER_0 + FLASH_FIRMWARE_BUFFER_SIZE = FLASH_FIRMWARE_BUFFER_1" by (simp add: flash_map)
  have len: "unat ?len = length data" using assms(6) by (intro unat_of_nat_u32) simp
  have "\<exists>s'. write_blocks (direct_base hw Ymodem_file_fw1) ?len FLASH_FIRMWARE_BUFFER_1 data (ck_info ?v) = Some (0, s')
     \<and> flash_ok s' \<and> range_of (xip hw s') (unat FLASH_FIRMWARE_BUFFER_1) (length data) = data
     \<and> (\<forall>i < unat FLASH_FIRMWARE_BUFFER_1. xip hw s' i = xip hw (ck_info ?v) i)
     \<and> (\<forall>i\<ge>unat (area_base (direct_base hw Ymodem_file_fw1)) + unat (area_size (direct_base hw Ymodem_file_fw1)). xip hw s' i = xip hw (ck_info ?v) i)
     \<and> flash_device.block_rest_erased True 65536 (xip hw s') (unat FLASH_FIRMWARE_BUFFER_1 + length data)"
    by (rule flash_device.write_blocks_ok [OF dev ymodem_flash.base_on_device [OF yf]])
      (use assms(5,6) len in \<open>simp_all add: area_of_simps area_of_eq unat_flash_map flash_device.block_rest_erased_def [OF dev]\<close>)
  then obtain s' where s': "write_blocks (direct_base hw Ymodem_file_fw1) ?len FLASH_FIRMWARE_BUFFER_1 data (ck_info ?v) = Some (0, s')"
    "range_of (xip hw s') (unat FLASH_FIRMWARE_BUFFER_1) (length data) = data" by blast
  have "write_blocks (direct_base hw Ymodem_file_fw0) ?len FLASH_FIRMWARE_BUFFER_1 data (ck_info ?v) = Some (0, s')"
    by (rule write_blocks_area [OF s'(1)]) (simp_all add: direct_base_def)
  then show ?thesis
    using assms(3,4) s'(2) ad
    by (simp add: ymodem_recv_file_write_def nk_direct_write_def Let_def direct_base_def area_contents_def area_of_eq unat_flash_map)
qed

theorem oversized_file_overwrites_next_bank_witness:
  "\<exists>c'. ymodem_recv_file_write [7, 8] ((user example_receiver)\<lparr>ymodem_file := \<lparr>ck_file = direct_base pico_mem Ymodem_file_fw0, ck_crc = 0,
        ck_size = FLASH_FIRMWARE_BUFFER_SIZE, ck_info = \<lambda>i. word_of_nat i\<rparr>\<rparr>) = Some c'
    \<and> area_contents pico_mem c' Ymodem_file_fw1 2 = [7, 8]"
  using oversized_file_overwrites_next_bank [OF pico_mem.pico_flash_axioms, where data = "[7, 8]" and
      c = "(user example_receiver)\<lparr>ymodem_file := \<lparr>ck_file = direct_base pico_mem Ymodem_file_fw0, ck_crc = 0,
        ck_size = FLASH_FIRMWARE_BUFFER_SIZE, ck_info = \<lambda>i. word_of_nat i\<rparr>\<rparr>"]
  by (simp add: numeral_2_eq_2)

end
