(* ===== verification/Sha256.thy ===== *)
theory Sha256
  imports Prelude
begin

text \<open>
  SHA-256 and HMAC, \<^verbatim>\<open>libnklabs/src/sha256.c\<close>. The context is a record; the arrays \<open>w\<close> and \<open>wv\<close> of the compression
  function, which live on the stack, are lists, and what they hold before they are
  written does not matter. The second part is the standard (FIPS 180): the message schedule, the compression
  function on eight words and the padding, against which the code is shown to be correct.
\<close>

section \<open>The code\<close>

definition SHA256_DIGEST_SIZE :: u32 where "SHA256_DIGEST_SIZE = 32"
definition SHA256_BLOCK_SIZE :: u32 where "SHA256_BLOCK_SIZE = 64"

record sha256_ctx =
  sha_h :: "u32 list"
  sha_tot_len :: u32
  sha_len :: u32
  sha_block :: bytes
  sha_buf :: bytes

definition SHFR :: "u32 \<Rightarrow> nat \<Rightarrow> u32" where "SHFR x n = drop_bit n x"
definition ROTR :: "u32 \<Rightarrow> nat \<Rightarrow> u32" where "ROTR x n = drop_bit n x OR push_bit (32 - n) x"
definition CH :: "u32 \<Rightarrow> u32 \<Rightarrow> u32 \<Rightarrow> u32" where "CH x y z = (x AND y) XOR (NOT x AND z)"
definition MAJ :: "u32 \<Rightarrow> u32 \<Rightarrow> u32 \<Rightarrow> u32" where "MAJ x y z = (x AND y) XOR (x AND z) XOR (y AND z)"
definition SHA256_F1 :: "u32 \<Rightarrow> u32" where "SHA256_F1 x = ROTR x 2 XOR ROTR x 13 XOR ROTR x 22"
definition SHA256_F2 :: "u32 \<Rightarrow> u32" where "SHA256_F2 x = ROTR x 6 XOR ROTR x 11 XOR ROTR x 25"
definition SHA256_F3 :: "u32 \<Rightarrow> u32" where "SHA256_F3 x = ROTR x 7 XOR ROTR x 18 XOR SHFR x 3"
definition SHA256_F4 :: "u32 \<Rightarrow> u32" where "SHA256_F4 x = ROTR x 17 XOR ROTR x 19 XOR SHFR x 10"

definition UNPACK32 :: "u32 \<Rightarrow> bytes" where
  "UNPACK32 x = [ucast (drop_bit 24 x), ucast (drop_bit 16 x), ucast (drop_bit 8 x), ucast x]"

definition PACK32 :: "bytes \<Rightarrow> nat \<Rightarrow> u32 option" where
  "PACK32 str i = do {
     b3 \<leftarrow> deref str (i + 3);
     b2 \<leftarrow> deref str (i + 2);
     b1 \<leftarrow> deref str (i + 1);
     b0 \<leftarrow> deref str i;
     Some (ucast b3 OR push_bit 8 (ucast b2) OR push_bit 16 (ucast b1) OR push_bit 24 (ucast b0))
   }"

definition SHA256_SCR :: "u32 list \<Rightarrow> nat \<Rightarrow> u32 list" where
  "SHA256_SCR w i = w[i := SHA256_F4 (w ! (i - 2)) + w ! (i - 7) + SHA256_F3 (w ! (i - 15)) + w ! (i - 16)]"

definition sha256_h0 :: "u32 list" where
  "sha256_h0 =
    [0x6a09e667, 0xbb67ae85, 0x3c6ef372, 0xa54ff53a] @
    [0x510e527f, 0x9b05688c, 0x1f83d9ab, 0x5be0cd19]"

definition sha256_k :: "u32 list" where
  "sha256_k =
    [0x428a2f98, 0x71374491, 0xb5c0fbcf, 0xe9b5dba5] @
    [0x3956c25b, 0x59f111f1, 0x923f82a4, 0xab1c5ed5] @
    [0xd807aa98, 0x12835b01, 0x243185be, 0x550c7dc3] @
    [0x72be5d74, 0x80deb1fe, 0x9bdc06a7, 0xc19bf174] @
    [0xe49b69c1, 0xefbe4786, 0x0fc19dc6, 0x240ca1cc] @
    [0x2de92c6f, 0x4a7484aa, 0x5cb0a9dc, 0x76f988da] @
    [0x983e5152, 0xa831c66d, 0xb00327c8, 0xbf597fc7] @
    [0xc6e00bf3, 0xd5a79147, 0x06ca6351, 0x14292967] @
    [0x27b70a85, 0x2e1b2138, 0x4d2c6dfc, 0x53380d13] @
    [0x650a7354, 0x766a0abb, 0x81c2c92e, 0x92722c85] @
    [0xa2bfe8a1, 0xa81a664b, 0xc24b8b70, 0xc76c51a3] @
    [0xd192e819, 0xd6990624, 0xf40e3585, 0x106aa070] @
    [0x19a4c116, 0x1e376c08, 0x2748774c, 0x34b0bcb5] @
    [0x391c0cb3, 0x4ed8aa4a, 0x5b9cca4f, 0x682e6ff3] @
    [0x748f82ee, 0x78a5636f, 0x84c87814, 0x8cc70208] @
    [0x90befffa, 0xa4506ceb, 0xbef9a3f7, 0xc67178f2]"

definition SHA256_init :: "sha256_ctx \<Rightarrow> sha256_ctx" where
  "SHA256_init ctx = ctx\<lparr>sha_h := sha256_h0, sha_len := 0, sha_tot_len := 0\<rparr>"

text \<open>The loops of the compression function.\<close>

fun load_words :: "nat list \<Rightarrow> bytes \<Rightarrow> nat \<Rightarrow> u32 list \<Rightarrow> u32 list option" where
  "load_words [] message sub_block w = Some w"
| "load_words (j # js) message sub_block w = do {
     x \<leftarrow> PACK32 message (sub_block + 4 * j);
     load_words js message sub_block (w[j := x])
   }"

definition sha_round :: "u32 list \<Rightarrow> u32 list \<Rightarrow> nat \<Rightarrow> u32 list" where
  "sha_round w wv j =
     (let t1 = wv ! 7 + SHA256_F2 (wv ! 4) + CH (wv ! 4) (wv ! 5) (wv ! 6) + sha256_k ! j + w ! j;
          t2 = SHA256_F1 (wv ! 0) + MAJ (wv ! 0) (wv ! 1) (wv ! 2)
      in [t1 + t2, wv ! 0, wv ! 1, wv ! 2, wv ! 3 + t1, wv ! 4, wv ! 5, wv ! 6])"

fun transform_loop :: "nat list \<Rightarrow> bytes \<Rightarrow> sha256_ctx \<Rightarrow> sha256_ctx option" where
  "transform_loop [] message ctx = Some ctx"
| "transform_loop (i # is) message ctx = do {
     w \<leftarrow> load_words [0..<16] message (64 * i) (replicate 64 0);
     let w = foldl SHA256_SCR w [16..<64];
     let wv = foldl (sha_round w) (map ((!) (sha_h ctx)) [0..<8]) [0..<64];
     transform_loop is message (ctx\<lparr>sha_h := map (\<lambda>j. sha_h ctx ! j + wv ! j) [0..<8]\<rparr>)
   }"

definition SHA256_transform :: "sha256_ctx \<Rightarrow> bytes \<Rightarrow> u32 \<Rightarrow> sha256_ctx option" where
  "SHA256_transform ctx message block_nb = transform_loop [0..<unat block_nb] message ctx"

definition SHA256_update :: "sha256_ctx \<Rightarrow> bytes \<Rightarrow> u32 \<Rightarrow> sha256_ctx option" where
  "SHA256_update ctx data len = do {
     let tmp_len = SHA256_BLOCK_SIZE - sha_len ctx;
     let rem_len = (if len < tmp_len then len else tmp_len);
     chunk \<leftarrow> load_from data 0 (unat rem_len);
     block \<leftarrow> store_at (sha_block ctx) (unat (sha_len ctx)) chunk;
     let ctx = ctx\<lparr>sha_block := block\<rparr>;
     if sha_len ctx + len < SHA256_BLOCK_SIZE then Some (ctx\<lparr>sha_len := sha_len ctx + len\<rparr>)
     else do {
       let new_len = len - rem_len;
       let block_nb = new_len div SHA256_BLOCK_SIZE;
       let shifted_data = drop (unat rem_len) data;
       ctx \<leftarrow> SHA256_transform ctx (sha_block ctx) 1;
       ctx \<leftarrow> SHA256_transform ctx shifted_data block_nb;
       let rem_len = new_len mod SHA256_BLOCK_SIZE;
       rest \<leftarrow> load_from shifted_data (unat (push_bit 6 block_nb)) (unat rem_len);
       block \<leftarrow> store_at (sha_block ctx) 0 rest;
       Some (ctx\<lparr>sha_block := block, sha_len := rem_len, sha_tot_len := sha_tot_len ctx + push_bit 6 (block_nb + 1)\<rparr>)
     }
   }"

definition SHA256_init_1b :: "sha256_ctx \<Rightarrow> bytes \<Rightarrow> sha256_ctx option" where
  "SHA256_init_1b ctx data = do {
     ctx \<leftarrow> SHA256_transform (ctx\<lparr>sha_h := sha256_h0\<rparr>) data 1;
     Some (ctx\<lparr>sha_len := 0, sha_tot_len := SHA256_BLOCK_SIZE\<rparr>)
   }"

definition SHA256_final :: "sha256_ctx \<Rightarrow> (bytes \<times> sha256_ctx) option" where
  "SHA256_final ctx = do {
     let block_nb = 1 + (if SHA256_BLOCK_SIZE - 9 < sha_len ctx mod SHA256_BLOCK_SIZE then 1 else 0);
     let len_b = push_bit 3 (sha_tot_len ctx + sha_len ctx);
     let pm_len = push_bit 6 block_nb;
     block \<leftarrow> store_at (sha_block ctx) (unat (sha_len ctx)) (replicate (unat (pm_len - sha_len ctx)) 0);
     block \<leftarrow> store_at block (unat (sha_len ctx)) [0x80];
     block \<leftarrow> store_at block (unat (pm_len - 4)) (UNPACK32 len_b);
     ctx \<leftarrow> SHA256_transform (ctx\<lparr>sha_block := block\<rparr>) block block_nb;
     buf \<leftarrow> store_at (sha_buf ctx) 0 (concat (map UNPACK32 (sha_h ctx)));
     Some (buf, ctx\<lparr>sha_buf := buf\<rparr>)
   }"

text \<open>The key of the HMAC, zero-padded and masked; \<open>ctx\<close> is the uninitialised context on the stack, whose block is the key buffer.\<close>

fun xor_key :: "nat list \<Rightarrow> bytes \<Rightarrow> bytes \<Rightarrow> bytes option" where
  "xor_key [] key key_pad = Some key_pad"
| "xor_key (i # is) key key_pad = do {
     k \<leftarrow> deref key i;
     p \<leftarrow> deref key_pad i;
     key_pad \<leftarrow> store_at key_pad i [p XOR k];
     xor_key is key key_pad
   }"

definition hmac_SHA256_step :: "sha256_ctx \<Rightarrow> bytes \<Rightarrow> u8 \<Rightarrow> bytes \<Rightarrow> int \<Rightarrow> bytes \<Rightarrow> u32 \<Rightarrow> bytes option" where
  "hmac_SHA256_step ctx output msk key key_len data data_len = do {
     key_pad \<leftarrow> store_at (sha_block ctx) 0 (replicate (unat SHA256_BLOCK_SIZE) msk);
     key_pad \<leftarrow> xor_key [0..<nat key_len] key key_pad;
     ctx \<leftarrow> SHA256_init_1b (ctx\<lparr>sha_block := key_pad\<rparr>) key_pad;
     ctx \<leftarrow> SHA256_update ctx data data_len;
     (tmp, ctx) \<leftarrow> SHA256_final ctx;
     digest \<leftarrow> load_from tmp 0 (unat SHA256_DIGEST_SIZE);
     store_at output 0 digest
   }"

definition hmac_SHA256 :: "sha256_ctx \<Rightarrow> bytes \<Rightarrow> bytes \<Rightarrow> int \<Rightarrow> bytes \<Rightarrow> u32 \<Rightarrow> bytes option" where
  "hmac_SHA256 ctx output key key_len message message_len =
     (if \<not> key_len \<le> 64 then None
      else do {
        output \<leftarrow> hmac_SHA256_step ctx output 0x36 key key_len message message_len;
        hmac_SHA256_step ctx output 0x5c key key_len output SHA256_DIGEST_SIZE
      })"

section \<open>The standard\<close>

text \<open>FIPS 180: words are big-endian; rotations are those of the word library.\<close>

definition sha_Sigma0 :: "u32 \<Rightarrow> u32" where "sha_Sigma0 x = word_rotr 2 x XOR word_rotr 13 x XOR word_rotr 22 x"
definition sha_Sigma1 :: "u32 \<Rightarrow> u32" where "sha_Sigma1 x = word_rotr 6 x XOR word_rotr 11 x XOR word_rotr 25 x"
definition sha_sigma0 :: "u32 \<Rightarrow> u32" where "sha_sigma0 x = word_rotr 7 x XOR word_rotr 18 x XOR drop_bit 3 x"
definition sha_sigma1 :: "u32 \<Rightarrow> u32" where "sha_sigma1 x = word_rotr 17 x XOR word_rotr 19 x XOR drop_bit 10 x"

definition be32_value :: "bytes \<Rightarrow> u32" where
  "be32_value bs = foldl (\<lambda>v b. v * 256 + ucast b) 0 bs"

fun schedule :: "bytes \<Rightarrow> nat \<Rightarrow> u32" where
  "schedule blk t = (if t < 16 then be32_value (take 4 (drop (4 * t) blk))
     else sha_sigma1 (schedule blk (t - 2)) + schedule blk (t - 7) + sha_sigma0 (schedule blk (t - 15)) + schedule blk (t - 16))"

declare schedule.simps [simp del]

type_synonym sha_words = "u32 \<times> u32 \<times> u32 \<times> u32 \<times> u32 \<times> u32 \<times> u32 \<times> u32"

fun fips_round :: "bytes \<Rightarrow> sha_words \<Rightarrow> nat \<Rightarrow> sha_words" where
  "fips_round blk (a, b, c, d, e, f, g, h) t =
     (let t1 = h + sha_Sigma1 e + ((e AND f) XOR (NOT e AND g)) + sha256_k ! t + schedule blk t;
          t2 = sha_Sigma0 a + ((a AND b) XOR (a AND c) XOR (b AND c))
      in (t1 + t2, a, b, c, d + t1, e, f, g))"

fun words_list :: "sha_words \<Rightarrow> u32 list" where
  "words_list (a, b, c, d, e, f, g, h) = [a, b, c, d, e, f, g, h]"

fun list_words :: "u32 list \<Rightarrow> sha_words" where
  "list_words ws = (ws ! 0, ws ! 1, ws ! 2, ws ! 3, ws ! 4, ws ! 5, ws ! 6, ws ! 7)"

definition compress :: "u32 list \<Rightarrow> bytes \<Rightarrow> u32 list" where
  "compress hs blk = map2 (+) hs (words_list (foldl (fips_round blk) (list_words hs) [0..<64]))"

text \<open>The hash value after a number of whole blocks; the padding; the digest.\<close>

definition hash_blocks :: "u32 list \<Rightarrow> bytes \<Rightarrow> nat \<Rightarrow> u32 list" where
  "hash_blocks hs bs n = foldl (\<lambda>hs i. compress hs (take 64 (drop (64 * i) bs))) hs [0..<n]"

definition be_value :: "nat \<Rightarrow> nat \<Rightarrow> bytes" where
  "be_value k n = map (\<lambda>i. word_of_nat (n div 256 ^ i)) (rev [0..<k])"

definition sha_pad :: "bytes \<Rightarrow> bytes" where
  "sha_pad m = m @ 0x80 # replicate ((119 - length m mod 64) mod 64) 0 @ be_value 8 (8 * length m)"

definition sha256 :: "bytes \<Rightarrow> bytes" where
  "sha256 m = concat (map (\<lambda>w. be_value 4 (unat w)) (hash_blocks sha256_h0 (sha_pad m) (length (sha_pad m) div 64)))"

text \<open>FIPS 198 for keys up to the block size.\<close>

definition hmac_sha256 :: "bytes \<Rightarrow> bytes \<Rightarrow> bytes" where
  "hmac_sha256 key m =
     (let pad = \<lambda>c. map (\<lambda>k. k XOR c) (key @ replicate (64 - length key) 0)
      in sha256 (pad 0x5c @ sha256 (pad 0x36 @ m)))"

section \<open>The compression function\<close>

lemma ROTR_rotr: "0 < n \<Longrightarrow> n < 32 \<Longrightarrow> ROTR x n = word_rotr n x"
proof (rule bit_word_eqI)
  fix i
  assume n: "0 < n" "n < 32" and i: "i < LENGTH(32)"
  show "bit (ROTR x n) i \<longleftrightarrow> bit (word_rotr n x) i"
  proof (cases "i + n < 32")
    case True
    then have "\<not> 32 - n \<le> i" by simp
    then show ?thesis using True n i by (simp add: ROTR_def bit_simps add.commute)
  next
    case False
    then have "(i + n) mod 32 = i + n - 32" using n i by (simp add: mod_if)
    moreover have "\<not> bit x (i + n)" using False by (auto dest: bit_imp_less_len)
    moreover have "32 - n \<le> i" using False by simp
    ultimately show ?thesis using False n i by (simp add: ROTR_def bit_simps add.commute le_diff_conv2 not_less)
  qed
qed

lemma sha_functions:
  "SHA256_F1 = sha_Sigma0" "SHA256_F2 = sha_Sigma1" "SHA256_F3 = sha_sigma0" "SHA256_F4 = sha_sigma1"
  by (simp_all add: fun_eq_iff SHA256_F1_def SHA256_F2_def SHA256_F3_def SHA256_F4_def sha_Sigma0_def sha_Sigma1_def
      sha_sigma0_def sha_sigma1_def ROTR_rotr SHFR_def)

lemma be32_value_or:
  "ucast b3 OR push_bit 8 (ucast b2) OR push_bit 16 (ucast b1) OR push_bit 24 (ucast b0) = be32_value [b0, b1, b2, b3]"
proof -
  have "be32_value [b0, b1, b2, b3] = push_bit 24 (ucast b0) + push_bit 16 (ucast b1) + push_bit 8 (ucast b2) + ucast b3"
    by (simp add: be32_value_def push_bit_eq_mult algebra_simps)
  also have "\<dots> = push_bit 24 (ucast b0) OR push_bit 16 (ucast b1) OR push_bit 8 (ucast b2) OR ucast b3"
    by (subst disjunctive_add, force simp: bit_simps dest: bit_imp_less_len,
        subst disjunctive_add, force simp: bit_simps dest: bit_imp_less_len,
        subst disjunctive_add, force simp: bit_simps dest: bit_imp_less_len) (simp add: ac_simps)
  finally show ?thesis by (simp add: ac_simps)
qed

lemma PACK32_value:
  assumes "i + 4 \<le> length str"
  shows "PACK32 str i = Some (be32_value (take 4 (drop i str)))"
proof -
  have "take 4 (drop i str) = [str ! i, str ! (i + 1), str ! (i + 2), str ! (i + 3)]"
    using assms by (intro nth_equalityI) (auto simp: less_Suc_eq numeral_eq_Suc nth_Cons')
  then show ?thesis using assms by (simp add: PACK32_def deref_def be32_value_or)
qed

lemma load_words_ok:
  assumes "64 * i + 64 \<le> length m"
  shows "k \<le> 16 \<Longrightarrow> load_words [16 - k..<16] m (64 * i) w
     = Some (foldl (\<lambda>w j. w[j := be32_value (take 4 (drop (4 * j) (take 64 (drop (64 * i) m))))]) w [16 - k..<16])"
proof (induction k arbitrary: w)
  case (Suc k)
  have "16 - Suc k < 16" "Suc (16 - Suc k) = 16 - k" using Suc.prems by simp_all
  then have u: "[16 - Suc k..<16] = (16 - Suc k) # [16 - k..<16]" by (metis upt_conv_Cons)
  have "take 4 (drop (64 * i + 4 * (16 - Suc k)) m) = take 4 (drop (4 * (16 - Suc k)) (take 64 (drop (64 * i) m)))"
    using Suc.prems by (simp add: take_drop add.commute min_def)
  moreover have "64 * i + 4 * (16 - Suc k) + 4 \<le> length m" using assms Suc.prems by linarith
  ultimately show ?case unfolding u load_words.simps foldl.simps using Suc by (simp add: PACK32_value del: upt_Suc)
qed simp

lemma foldl_update_nth:
  "distinct js \<Longrightarrow> (\<forall>j \<in> set js. j < length w) \<Longrightarrow>
   length (foldl (\<lambda>w j. w[j := f j]) w js) = length w \<and>
   (\<forall>t. foldl (\<lambda>w j. w[j := f j]) w js ! t = (if t \<in> set js then f t else w ! t))"
proof (induction js arbitrary: w)
  case (Cons j js)
  then have "length (foldl (\<lambda>w j. w[j := f j]) (w[j := f j]) js) = length (w[j := f j]) \<and>
     (\<forall>t. foldl (\<lambda>w j. w[j := f j]) (w[j := f j]) js ! t = (if t \<in> set js then f t else w[j := f j] ! t))"
    by (intro Cons.IH) auto
  then show ?case using Cons.prems by (auto simp: nth_list_update)
qed simp

lemma hash_blocks_Suc: "hash_blocks hs m (Suc k) = compress (hash_blocks hs m k) (take 64 (drop (64 * k) m))"
  by (simp add: hash_blocks_def)

text \<open>The array \<open>w\<close> is the message schedule.\<close>

lemma scr_schedule:
  assumes "length w = 64" "\<forall>t<16. w ! t = schedule blk t"
  shows "k \<le> 48 \<Longrightarrow> length (foldl SHA256_SCR w [16..<16 + k]) = 64 \<and> (\<forall>t<16 + k. foldl SHA256_SCR w [16..<16 + k] ! t = schedule blk t)"
proof (induction k)
  case (Suc k)
  let ?w = "foldl SHA256_SCR w [16..<16 + k]"
  have IH: "length ?w = 64" "\<And>t. t < 16 + k \<Longrightarrow> ?w ! t = schedule blk t" using Suc by simp_all
  have st: "foldl SHA256_SCR w [16..<16 + Suc k] = SHA256_SCR ?w (16 + k)"
    by (simp only: add_Suc_right upt_Suc_append [OF le_add1] foldl_append foldl.simps)
  have "SHA256_SCR ?w (16 + k) ! t = schedule blk t" if "t < 16 + Suc k" for t
  proof (cases "t = 16 + k")
    case True
    have "schedule blk (16 + k) = sha_sigma1 (schedule blk (14 + k)) + schedule blk (9 + k) + sha_sigma0 (schedule blk (1 + k)) + schedule blk k"
      by (subst schedule.simps) simp
    then show ?thesis using IH Suc.prems by (simp add: True SHA256_SCR_def sha_functions)
  next
    case False
    then show ?thesis using IH that by (simp add: SHA256_SCR_def)
  qed
  then show ?case unfolding st using IH(1) by (simp add: SHA256_SCR_def)
qed (use assms in simp)

lemma round_fips:
  assumes "w ! j = schedule blk j"
  shows "sha_round w (words_list ws) j = words_list (fips_round blk ws j)"
  using assms by (cases ws rule: words_list.cases) (simp add: sha_round_def sha_functions CH_def MAJ_def Let_def nth_Cons')

lemma rounds_fips:
  "(\<forall>j \<in> set js. w ! j = schedule blk j) \<Longrightarrow> foldl (sha_round w) (words_list ws) js = words_list (foldl (fips_round blk) ws js)"
  by (induction js arbitrary: ws) (simp_all add: round_fips)

lemma map_nth_8: "length hs = 8 \<Longrightarrow> map ((!) hs) [0..<8] = hs"
  using map_nth [of hs] by simp

lemma words_list_words: "length hs = 8 \<Longrightarrow> words_list (list_words hs) = hs"
  by (simp add: numeral_eq_Suc length_Suc_conv) auto

lemma length_words_list [simp]: "length (words_list ws) = 8"
  by (cases ws rule: words_list.cases) simp

lemma length_compress [simp]: "length hs = 8 \<Longrightarrow> length (compress hs blk) = 8"
  by (simp add: compress_def)

lemma length_hash_blocks [simp]: "length hs = 8 \<Longrightarrow> length (hash_blocks hs bs n) = 8"
  unfolding hash_blocks_def by (induction n) simp_all

lemma transform_block:
  assumes "length (sha_h ctx) = 8" "64 * i + 64 \<le> length m"
  shows "transform_loop (i # is) m ctx = transform_loop is m (ctx\<lparr>sha_h := compress (sha_h ctx) (take 64 (drop (64 * i) m))\<rparr>)"
proof -
  let ?blk = "take 64 (drop (64 * i) m)"
  let ?f = "\<lambda>j. be32_value (take 4 (drop (4 * j) ?blk))"
  define w where "w = foldl (\<lambda>w j. w[j := ?f j]) (replicate 64 0) [0..<16]"
  have w: "length w = 64" "\<forall>t<16. w ! t = schedule ?blk t"
    using foldl_update_nth [of "[0..<16]" "replicate 64 0" ?f] by (simp_all add: w_def schedule.simps)
  have load: "load_words [0..<16] m (64 * i) (replicate 64 0) = Some w"
    using load_words_ok [OF assms(2), of 16] by (simp add: w_def)
  have "foldl SHA256_SCR w [16..<64] ! t = schedule ?blk t" if "t < 64" for t
    using scr_schedule [OF w, of 48] that by simp
  then have "foldl (sha_round (foldl SHA256_SCR w [16..<64])) (sha_h ctx) [0..<64]
      = words_list (foldl (fips_round ?blk) (list_words (sha_h ctx)) [0..<64])"
    using rounds_fips [of "[0..<64]" "foldl SHA256_SCR w [16..<64]" ?blk "list_words (sha_h ctx)"] words_list_words [OF assms(1)] by simp
  moreover have "map (\<lambda>j. sha_h ctx ! j + ws ! j) [0..<8] = map2 (+) (sha_h ctx) ws" if "length ws = 8" for ws
    using that assms(1) by (intro nth_equalityI) simp_all
  ultimately show ?thesis
    using load by (simp add: map_nth_8 [OF assms(1)] compress_def del: upt_Suc upt_rec_numeral)
qed

lemma transform_loop_hash:
  assumes "length (sha_h ctx) = 8" "64 * n \<le> length m"
  shows "k \<le> n \<Longrightarrow> transform_loop [0..<n] m ctx = transform_loop [k..<n] m (ctx\<lparr>sha_h := hash_blocks (sha_h ctx) m k\<rparr>)"
proof (induction k)
  case (Suc k)
  have "[k..<n] = k # [Suc k..<n]" using Suc.prems by (simp add: upt_conv_Cons)
  moreover have "64 * k + 64 \<le> length m" using assms(2) Suc.prems by linarith
  ultimately show ?case
    using Suc transform_block [of "ctx\<lparr>sha_h := hash_blocks (sha_h ctx) m k\<rparr>" k m "[Suc k..<n]"] assms(1)
    by (simp add: hash_blocks_Suc del: transform_loop.simps)
qed (simp add: hash_blocks_def)

lemma transform_hash:
  assumes "length (sha_h ctx) = 8" "64 * unat n \<le> length m"
  shows "SHA256_transform ctx m n = Some (ctx\<lparr>sha_h := hash_blocks (sha_h ctx) m (unat n)\<rparr>)"
  using transform_loop_hash [OF assms, of "unat n"] by (simp add: SHA256_transform_def)

section \<open>Streaming\<close>

lemma hash_blocks_append: "64 * n \<le> length m \<Longrightarrow> hash_blocks hs (m @ x) n = hash_blocks hs m n"
  by (induction n) (simp_all add: hash_blocks_Suc hash_blocks_def [where n = 0] add.commute)

lemma hash_blocks_add: "hash_blocks hs m (a + b) = hash_blocks (hash_blocks hs m a) (drop (64 * a) m) b"
  by (induction b) (simp_all add: hash_blocks_Suc hash_blocks_def [where n = 0] add.commute distrib_left)

lemma hash_blocks_0 [simp]: "hash_blocks hs m 0 = hs"
  by (simp add: hash_blocks_def)

lemma hash_blocks_1: "hash_blocks hs m (Suc 0) = compress hs (take 64 m)"
  by (simp add: hash_blocks_def)

definition absorbed :: "sha256_ctx \<Rightarrow> bytes \<Rightarrow> bool" where
  "absorbed ctx m \<longleftrightarrow> length (sha_block ctx) = 128 \<and> length (sha_buf ctx) = 32
     \<and> sha_h ctx = hash_blocks sha256_h0 m (length m div 64)
     \<and> sha_len ctx = word_of_nat (length m mod 64) \<and> sha_tot_len ctx = word_of_nat (64 * (length m div 64))
     \<and> take (length m mod 64) (sha_block ctx) = drop (64 * (length m div 64)) m"

lemma length_h0 [simp]: "length sha256_h0 = 8"
  by (simp add: sha256_h0_def)

lemma init_absorbed:
  "length (sha_block ctx) = 128 \<Longrightarrow> length (sha_buf ctx) = 32 \<Longrightarrow> absorbed (SHA256_init ctx) []"
  by (simp add: absorbed_def SHA256_init_def hash_blocks_def)

lemma unat_small [simp]: "n < 4294967296 \<Longrightarrow> unat (word_of_nat n :: u32) = n"
  by (rule unat_of_nat_u32)

lemma word_of_unat: "unat w = k \<Longrightarrow> w = word_of_nat k"
  by auto

lemma u32_div_mod_64:
  "n < 4294967296 \<Longrightarrow> (word_of_nat n :: u32) div 64 = word_of_nat (n div 64)"
  "n < 4294967296 \<Longrightarrow> (word_of_nat n :: u32) mod 64 = word_of_nat (n mod 64)"
proof -
  assume n: "n < 4294967296"
  have "unat ((word_of_nat n :: u32) div 64) = n div 64" using n by (simp add: unat_div)
  then show "(word_of_nat n :: u32) div 64 = word_of_nat (n div 64)" by (rule word_of_unat)
  have "unat ((word_of_nat n :: u32) mod 64) = n mod 64" using n by (simp add: unat_mod)
  then show "(word_of_nat n :: u32) mod 64 = word_of_nat (n mod 64)" by (rule word_of_unat)
qed

lemma update_absorbed:
  assumes "absorbed ctx m" "length data < 2 ^ 32 - 64"
  obtains ctx' where "SHA256_update ctx data (word_of_nat (length data)) = Some ctx'" "absorbed ctx' (m @ data)"
proof -
  define n r where "n = length m div 64" and "r = length m mod 64"
  have m: "length m = 64 * n + r" "r < 64" by (simp_all add: n_def r_def)
  have c: "length (sha_block ctx) = 128" "length (sha_buf ctx) = 32" "sha_h ctx = hash_blocks sha256_h0 m n"
    "sha_len ctx = word_of_nat r" "sha_tot_len ctx = word_of_nat (64 * n)" "take r (sha_block ctx) = drop (64 * n) m"
    using assms(1) by (simp_all add: absorbed_def n_def r_def)
  let ?len = "word_of_nat (length data) :: u32"
  have ur: "unat (sha_len ctx) = r" using m(2) c(4) by simp
  have ul: "unat ?len = length data" using assms(2) by simp
  have tmp: "unat (SHA256_BLOCK_SIZE - sha_len ctx) = 64 - r"
    using m(2) ur by (subst unat_sub_no_wrap) (simp_all add: SHA256_BLOCK_SIZE_def)
  have lt: "?len < SHA256_BLOCK_SIZE - sha_len ctx \<longleftrightarrow> length data < 64 - r"
    by (simp add: word_less_nat_alt tmp ul del: of_nat_unat)
  have sum: "unat (sha_len ctx + ?len) = r + length data"
    using ur ul assms(2) m(2) by (subst unat_add_no_wrap) simp_all
  have lt2: "sha_len ctx + ?len < SHA256_BLOCK_SIZE \<longleftrightarrow> r + length data < 64"
    by (simp add: word_less_nat_alt sum SHA256_BLOCK_SIZE_def del: of_nat_unat)
  show ?thesis
  proof (cases "r + length data < 64")
    case True
    define blk where "blk = take r (sha_block ctx) @ data @ drop (r + length data) (sha_block ctx)"
    let ?c = "ctx\<lparr>sha_block := blk, sha_len := sha_len ctx + ?len\<rparr>"
    have l: "length data < 64 - r" using True by simp
    have up: "SHA256_update ctx data ?len = Some ?c"
      using True l c(1) ur ul by (simp add: SHA256_update_def Let_def lt lt2 load_from_def store_at_def blk_def)
    have tl: "length (m @ data) = r + length data + 64 * n" using m by simp
    have dv: "length (m @ data) div 64 = n" "length (m @ data) mod 64 = r + length data"
      unfolding tl using True by simp_all
    have "hash_blocks sha256_h0 (m @ data) n = hash_blocks sha256_h0 m n" using m by (intro hash_blocks_append) simp
    moreover have "take (r + length data) blk = drop (64 * n) (m @ data)"
      using c(1,6) m True by (simp add: blk_def min_def)
    moreover have "length blk = 128" using c(1) True by (simp add: blk_def)
    ultimately have "absorbed ?c (m @ data)"
      unfolding absorbed_def dv using c True by simp
    then show ?thesis using that up by blast
  next
    case False
    define q where "q = length data - (64 - r)"
    have q: "length data = (64 - r) + q" using False m(2) by (simp add: q_def)
    let ?data = "drop (64 - r) data"
    define blk where "blk = take r (sha_block ctx) @ take (64 - r) data @ drop 64 (sha_block ctx)"
    have blk: "length blk = 128" "take 64 blk = take 64 (drop (64 * n) (m @ data))"
      using c(1,6) m q by (simp_all add: blk_def)
    have st: "store_at (sha_block ctx) r (take (64 - r) data) = Some blk"
      using c(1) q m(2) by (simp add: store_at_def blk_def)
    have nl: "?len - (SHA256_BLOCK_SIZE - sha_len ctx) = word_of_nat q"
    proof -
      have "unat (?len - (SHA256_BLOCK_SIZE - sha_len ctx)) = q"
        using tmp ul q by (subst unat_sub_no_wrap) simp_all
      then show ?thesis by (rule word_of_unat)
    qed
    have qs: "q < 4294967296" using q assms(2) by simp
    have dm: "(word_of_nat q :: u32) div SHA256_BLOCK_SIZE = word_of_nat (q div 64)" "(word_of_nat q :: u32) mod SHA256_BLOCK_SIZE = word_of_nat (q mod 64)"
      using u32_div_mod_64 [OF qs] by (simp_all add: SHA256_BLOCK_SIZE_def)
    have qd: "unat (word_of_nat (q div 64) :: u32) = q div 64" "unat (word_of_nat (q mod 64) :: u32) = q mod 64"
      using qs by simp_all
    have pb: "push_bit 6 (word_of_nat k :: u32) = word_of_nat (64 * k)" for k
      by (simp add: push_bit_eq_mult mult.commute)
    have upb: "unat (word_of_nat (64 * (q div 64)) :: u32) = 64 * (q div 64)" using qs by (intro unat_small) simp
    let ?c1 = "ctx\<lparr>sha_block := blk\<rparr>"
    let ?h = "hash_blocks sha256_h0 (m @ data) (n + 1)"
    have h8: "length (sha_h ?c1) = 8" using c(3) by simp
    have t1: "SHA256_transform ?c1 blk 1 = Some (?c1\<lparr>sha_h := ?h\<rparr>)"
      using transform_hash [OF h8, of 1 blk] blk c(3) m hash_blocks_append [of n m sha256_h0 data]
      by (simp add: hash_blocks_1 hash_blocks_Suc)
    have d: "drop (64 * (n + 1)) (m @ data) = ?data" using m by simp
    have t2: "SHA256_transform (?c1\<lparr>sha_h := ?h\<rparr>) ?data (word_of_nat (q div 64))
        = Some (?c1\<lparr>sha_h := hash_blocks sha256_h0 (m @ data) (n + 1 + q div 64)\<rparr>)"
      using transform_hash [of "?c1\<lparr>sha_h := ?h\<rparr>" "word_of_nat (q div 64)" ?data] qd q m
      unfolding hash_blocks_add [of _ _ "n + 1" "q div 64"] d by simp
    define blk2 where "blk2 = drop (64 * (q div 64)) ?data @ drop (q mod 64) blk"
    have qm: "64 * (q div 64) + q mod 64 = q" by simp
    have ld: "length (drop (64 * (q div 64)) ?data) = q mod 64" using q minus_mult_div_eq_mod [of q 64] by simp
    have rest: "load_from ?data (64 * (q div 64)) (q mod 64) = Some (drop (64 * (q div 64)) ?data)"
      using q ld by (simp add: load_from_def take_all)
    from ld have st2: "store_at blk 0 (drop (64 * (q div 64)) ?data) = Some blk2" "length blk2 = 128"
      "take (q mod 64) blk2 = drop (64 * (q div 64)) ?data"
      using blk(1) by (simp_all add: store_at_def blk2_def)
    let ?c = "?c1\<lparr>sha_h := hash_blocks sha256_h0 (m @ data) (n + 1 + q div 64), sha_block := blk2, sha_len := word_of_nat (q mod 64),
      sha_tot_len := sha_tot_len ctx + push_bit 6 (word_of_nat (q div 64) + 1)\<rparr>"
    have nlt: "\<not> length data < 64 - r" using q by simp
    have l0: "load_from data 0 (64 - r) = Some (take (64 - r) data)" using q by (simp add: load_from_def)
    have up: "SHA256_update ctx data ?len = Some ?c"
      using False nlt t1 t2 st2(1)
      by (simp add: SHA256_update_def Let_def lt lt2 l0 tmp ur st nl dm t1 t2 qd pb upb rest st2 del: of_nat_mult of_nat_Suc)
    have tl: "length (m @ data) = q mod 64 + 64 * (n + 1 + q div 64)" using m q qm by simp
    have dv: "length (m @ data) div 64 = n + 1 + q div 64" "length (m @ data) mod 64 = q mod 64"
      unfolding tl div_mult_self4 [OF numeral_neq_zero] mod_mult_self2 by simp_all
    have tot: "sha_tot_len ctx + push_bit 6 (word_of_nat (q div 64) + 1) = word_of_nat (64 * (n + 1 + q div 64))"
      using c(5) by (simp add: push_bit_eq_mult algebra_simps)
    have dr: "drop (64 * (n + 1 + q div 64)) (m @ data) = drop (64 * (q div 64)) ?data"
      using m by (simp add: distrib_left add.commute)
    have "absorbed ?c (m @ data)"
      unfolding absorbed_def dv dr using st2 tot c(2) by simp
    then show ?thesis using that up by blast
  qed
qed

section \<open>The digest\<close>

lemma UNPACK32_be: "UNPACK32 x = be_value 4 (unat x)"
proof -
  have u: "ucast (drop_bit k x) = (word_of_nat (unat x div 2 ^ k) :: u8)" for k
    by (simp only: drop_bit_eq_div [symmetric] unat_drop_bit_eq [symmetric] of_nat_unat)
  show ?thesis using u [of 24] u [of 16] u [of 8] u [of 0]
    by (simp add: UNPACK32_def be_value_def upt_rec)
qed

lemma length_be_value [simp]: "length (be_value k n) = k"
  by (simp add: be_value_def)

lemma be_value_high: "n < 256 ^ 4 \<Longrightarrow> be_value 8 n = replicate 4 0 @ be_value 4 n"
proof -
  assume n: "n < 256 ^ 4"
  have z: "n div 256 ^ i = 0" if "4 \<le> i" for i
  proof -
    have "(256 :: nat) ^ 4 \<le> 256 ^ i" using that by (rule power_increasing) simp
    then show ?thesis using n by (intro div_less) linarith
  qed
  have "rev [0..<8] = [7, 6, 5, 4] @ rev [0..<4]" by (simp add: upt_rec)
  then have "be_value 8 n = map (\<lambda>i. word_of_nat (n div 256 ^ i)) [7, 6, 5, 4] @ be_value 4 n"
    unfolding be_value_def by (simp only: map_append)
  also have "map (\<lambda>i. word_of_nat (n div 256 ^ i)) [7, 6, 5, 4] = replicate 4 (0 :: u8)"
  proof -
    have r: "replicate 4 (0 :: u8) = [0, 0, 0, 0]" by (simp add: numeral_eq_Suc)
    have "n div 256 ^ 7 = 0" "n div 256 ^ 6 = 0" "n div 256 ^ 5 = 0" "n div 256 ^ 4 = 0" by (rule z, simp)+
    then show ?thesis by (simp only: list.map r) simp
  qed
  finally show ?thesis .
qed

lemma length_concat_UNPACK32: "length (concat (map UNPACK32 hs)) = 4 * length hs"
  by (induction hs) (simp_all add: UNPACK32_def)

lemma sha256_length [simp]: "length (sha256 m) = 32"
proof -
  have "length (concat (map (\<lambda>w. be_value 4 (unat w)) hs)) = 4 * length hs" for hs :: "u32 list"
    by (induction hs) simp_all
  then show ?thesis by (simp add: sha256_def)
qed

lemma store_at_middle: "length ys = length zs \<Longrightarrow> store_at (xs @ zs @ t) (length xs) ys = Some (xs @ ys @ t)"
  by (simp add: store_at_def)

text \<open>The block that is hashed last, or the two.\<close>

lemma final_block:
  assumes "absorbed ctx m" "length m < 2 ^ 29"
  defines "nb \<equiv> (if 55 < length m mod 64 then 2 else 1)"
  obtains b1 b2 b3 where "store_at (sha_block ctx) (length m mod 64) (replicate (64 * nb - length m mod 64) 0) = Some b1"
    "store_at b1 (length m mod 64) [0x80] = Some b2" "store_at b2 (64 * nb - 4) (be_value 4 (8 * length m)) = Some b3"
    "length b3 = 128" "take (64 * nb) b3 = drop (64 * (length m div 64)) (sha_pad m)"
    "length (sha_pad m) div 64 = length m div 64 + nb" "length (sha_pad m) = 64 * (length m div 64 + nb)"
proof -
  define r where "r = length m mod 64"
  have nbv: "nb = (if 55 < r then 2 else 1)" by (simp add: nb_def r_def)
  have nb: "r < 64" "r + 9 \<le> 64 * nb" "64 * nb \<le> 128" by (auto simp: r_def nb_def)
  have c: "length (sha_block ctx) = 128" "take r (sha_block ctx) = drop (64 * (length m div 64)) m"
    using assms(1) by (simp_all add: absorbed_def r_def)
  let ?p = "64 * nb"
  have le: "length m = 64 * (length m div 64) + r" by (simp add: r_def)
  define z where "z = replicate (?p - r - 5) (0 :: u8)"
  have rp: "replicate (?p - r) (0 :: u8) = 0 # z @ replicate 4 0"
  proof -
    have "?p - r = Suc ((?p - r - 5) + 4)" using nb(2) by simp
    from arg_cong [OF this, of "\<lambda>n. replicate n (0 :: u8)"]
    show ?thesis unfolding z_def by (simp only: replicate_add replicate_Suc)
  qed
  let ?h = "take r (sha_block ctx)" and ?t = "drop ?p (sha_block ctx)"
  have lh: "length ?h = r" "length z = ?p - r - 5" "length ?t = 128 - ?p" using c(1) nb(1) by (simp_all add: z_def)
  have s1: "store_at (sha_block ctx) r (replicate (?p - r) 0) = Some (?h @ 0 # z @ replicate 4 0 @ ?t)"
    using c(1) nb by (simp add: store_at_def rp [symmetric])
  have s2: "store_at (?h @ 0 # z @ replicate 4 0 @ ?t) r [0x80] = Some (?h @ 0x80 # z @ replicate 4 0 @ ?t)"
    using lh by (simp add: store_at_def)
  have s3: "store_at (?h @ 0x80 # z @ replicate 4 0 @ ?t) (?p - 4) (be_value 4 (8 * length m)) = Some (?h @ 0x80 # z @ be_value 4 (8 * length m) @ ?t)"
  proof -
    have "?p - 4 = length (?h @ 0x80 # z)" using lh nb(2) by simp
    then have "store_at ((?h @ 0x80 # z) @ replicate 4 0 @ ?t) (?p - 4) (be_value 4 (8 * length m)) = Some ((?h @ 0x80 # z) @ be_value 4 (8 * length m) @ ?t)"
      by (simp only: store_at_middle length_be_value length_replicate)
    then show ?thesis by simp
  qed
  have zs: "z = replicate ((119 - r) mod 64) 0 @ replicate 4 0"
  proof -
    have "?p - r - 5 = (119 - r) mod 64 + 4"
    proof (cases "55 < r")
      case False
      then have e: "119 - r = (55 - r) + 64" by simp
      have "(55 - r) mod 64 = 55 - r" by (rule mod_less) simp
      then have "(119 - r) mod 64 = 55 - r" unfolding e mod_add_self2 .
      then show ?thesis using False by (simp add: nbv)
    next
      case True
      then have "(119 - r) mod 64 = 119 - r" "nb = 2" by (simp_all add: nbv)
      then show ?thesis using nb(1) by simp
    qed
    then show ?thesis unfolding z_def by (simp only: replicate_add)
  qed
  have "8 * length m < 256 ^ 4" using assms(2) by simp
  then have pad: "sha_pad m = m @ 0x80 # z @ be_value 4 (8 * length m)"
    by (simp add: sha_pad_def be_value_high zs r_def)
  have drop: "drop (64 * (length m div 64)) (sha_pad m) = ?h @ 0x80 # z @ be_value 4 (8 * length m)"
    unfolding pad c(2) by simp
  have len: "length (sha_pad m) = 64 * (length m div 64 + nb)"
    using le lh(2) nb(2) by (simp add: pad distrib_left)
  have tk: "take ?p (?h @ 0x80 # z @ be_value 4 (8 * length m) @ ?t) = ?h @ 0x80 # z @ be_value 4 (8 * length m)"
  proof -
    have "?p = length (?h @ 0x80 # z @ be_value 4 (8 * length m))" using lh nb(2) by simp
    then show ?thesis by (metis append.assoc append_Cons append_eq_conv_conj)
  qed
  have l3: "length (?h @ 0x80 # z @ be_value 4 (8 * length m) @ ?t) = 128" using lh nb by simp
  show ?thesis
    by (rule that [OF s1 [unfolded r_def] s2 [unfolded r_def] s3 [unfolded r_def] l3 [unfolded r_def]])
      (use tk drop len in \<open>simp_all add: r_def\<close>)
qed

lemma final_digest:
  assumes "absorbed ctx m" "length m < 2 ^ 29"
  obtains ctx' where "SHA256_final ctx = Some (sha256 m, ctx')"
proof -
  define r where "r = length m mod 64"
  define nb where "nb = (if 55 < r then 2 else 1 :: nat)"
  have r: "r < 64" "nb \<le> 2" by (simp_all add: r_def nb_def)
  have c: "sha_h ctx = hash_blocks sha256_h0 m (length m div 64)" "sha_len ctx = word_of_nat r"
    "sha_tot_len ctx = word_of_nat (64 * (length m div 64))" "length (sha_buf ctx) = 32"
    using assms(1) by (simp_all add: absorbed_def r_def)
  obtain b1 b2 b3 where b: "store_at (sha_block ctx) r (replicate (64 * nb - r) 0) = Some b1"
    "store_at b1 r [0x80] = Some b2" "store_at b2 (64 * nb - 4) (be_value 4 (8 * length m)) = Some b3"
    "length b3 = 128" "take (64 * nb) b3 = drop (64 * (length m div 64)) (sha_pad m)"
    "length (sha_pad m) div 64 = length m div 64 + nb" "length (sha_pad m) = 64 * (length m div 64 + nb)"
    using final_block [OF assms] by (auto simp: r_def nb_def)
  have ur: "unat (sha_len ctx) = r" using r c(2) by simp
  have bn: "1 + (if SHA256_BLOCK_SIZE - 9 < sha_len ctx mod SHA256_BLOCK_SIZE then 1 else 0) = (word_of_nat nb :: u32)"
  proof -
    have "sha_len ctx mod SHA256_BLOCK_SIZE = word_of_nat r"
      using u32_div_mod_64(2) [of r] r c(2) by (simp add: SHA256_BLOCK_SIZE_def)
    moreover have "SHA256_BLOCK_SIZE - 9 < (word_of_nat r :: u32) \<longleftrightarrow> 55 < r"
      using r(1) by (simp add: word_less_nat_alt SHA256_BLOCK_SIZE_def)
    ultimately show ?thesis by (simp add: nb_def)
  qed
  have pm: "push_bit 6 (word_of_nat nb :: u32) = word_of_nat (64 * nb)" by (simp add: push_bit_eq_mult mult.commute)
  have upm: "unat (word_of_nat (64 * nb) :: u32) = 64 * nb" using r(2) by (intro unat_small) simp
  have r9: "r + 9 \<le> 64 * nb" using r(1) by (simp add: nb_def)
  have u1: "unat (word_of_nat (64 * nb) - sha_len ctx) = 64 * nb - r" using upm ur r9 by (subst unat_sub_no_wrap) simp_all
  have u2: "unat (word_of_nat (64 * nb) - 4 :: u32) = 64 * nb - 4" using upm r9 by (subst unat_sub_no_wrap) simp_all
  have lb: "UNPACK32 (push_bit 3 (sha_tot_len ctx + sha_len ctx)) = be_value 4 (8 * length m)"
  proof -
    have "sha_tot_len ctx + sha_len ctx = word_of_nat (64 * (length m div 64) + r)" using c(2,3) by simp
    also have "\<dots> = word_of_nat (length m)" by (simp only: r_def mult_div_mod_eq)
    finally have "push_bit 3 (sha_tot_len ctx + sha_len ctx) = (word_of_nat (8 * length m) :: u32)"
      by (simp add: push_bit_eq_mult mult.commute)
    moreover have "unat (word_of_nat (8 * length m) :: u32) = 8 * length m" using assms(2) by (intro unat_small) simp
    ultimately show ?thesis by (simp only: UNPACK32_be)
  qed
  have nbu: "unat (word_of_nat nb :: u32) = nb" using r(2) by simp
  let ?hs = "hash_blocks sha256_h0 (sha_pad m) (length (sha_pad m) div 64)"
  have "64 * (length m div 64) \<le> length m" by simp
  then have "sha_h ctx = hash_blocks sha256_h0 (sha_pad m) (length m div 64)"
    unfolding c(1) sha_pad_def by (rule hash_blocks_append [symmetric])
  moreover have "hash_blocks hs (drop (64 * (length m div 64)) (sha_pad m)) nb = hash_blocks hs b3 nb" for hs
  proof -
    have "64 * nb \<le> length (take (64 * nb) b3)" using b(4) r(2) by simp
    from hash_blocks_append [OF this, of hs "drop (64 * nb) b3"] show ?thesis unfolding b(5) [symmetric] by simp
  qed
  ultimately have hs: "hash_blocks (sha_h ctx) b3 nb = ?hs" unfolding b(6) hash_blocks_add by simp
  have t: "SHA256_transform (ctx\<lparr>sha_block := b3\<rparr>) b3 (word_of_nat nb) = Some (ctx\<lparr>sha_block := b3, sha_h := ?hs\<rparr>)"
    using transform_hash [of "ctx\<lparr>sha_block := b3\<rparr>" "word_of_nat nb" b3] hs nbu b(4) r(2) c(1) by simp
  have dg: "concat (map UNPACK32 ?hs) = sha256 m" by (simp add: sha256_def UNPACK32_be [abs_def])
  have sb: "store_at (sha_buf ctx) 0 (sha256 m) = Some (sha256 m)" using c(4) by (simp add: store_at_def)
  have "SHA256_final ctx = Some (sha256 m, ctx\<lparr>sha_block := b3, sha_h := ?hs, sha_buf := sha256 m\<rparr>)"
    unfolding SHA256_final_def Let_def bn pm u1 u2 lb ur using b(1-3) t dg sb by simp
  then show ?thesis using that by blast
qed

section \<open>HMAC\<close>

lemma xor_key_eval:
  "k \<le> length key \<Longrightarrow> k \<le> length pad \<Longrightarrow> j \<le> k \<Longrightarrow>
   xor_key [j..<k] key pad = Some (take j pad @ map2 (XOR) (take (k - j) (drop j pad)) (take (k - j) (drop j key)) @ drop k pad)"
proof (induction "k - j" arbitrary: j pad)
  case (Suc n)
  then have lt: "j < k" by simp
  let ?pad = "pad[j := pad ! j XOR key ! j]"
  have "xor_key [Suc j..<k] key ?pad = Some (take (Suc j) ?pad @ map2 (XOR) (take (k - Suc j) (drop (Suc j) ?pad)) (take (k - Suc j) (drop (Suc j) key)) @ drop k ?pad)"
    by (rule Suc.hyps(1)) (use Suc lt in simp_all)
  moreover have "xor_key [j..<k] key pad = xor_key [Suc j..<k] key ?pad"
    using lt Suc.prems by (simp add: upt_conv_Cons deref_def store_at_single)
  moreover have "take (Suc j) ?pad = take j pad @ [pad ! j XOR key ! j]" using lt Suc.prems by (simp add: take_Suc_conv_app_nth)
  moreover have "take (k - j) (drop j xs) = xs ! j # take (k - Suc j) (drop (Suc j) xs)" if "j < length xs" for xs :: bytes
  proof -
    have "k - j = Suc (k - Suc j)" using lt by simp
    then show ?thesis using that by (simp add: Cons_nth_drop_Suc [symmetric])
  qed
  ultimately show ?case using lt Suc.prems by simp
qed simp

lemma init_1b_absorbed:
  assumes "length (sha_block ctx) = 128" "length (sha_buf ctx) = 32" "64 \<le> length pad"
  obtains ctx' where "SHA256_init_1b ctx pad = Some ctx'" "absorbed ctx' (take 64 pad)"
proof -
  let ?c = "ctx\<lparr>sha_h := sha256_h0\<rparr>"
  have "SHA256_transform ?c pad 1 = Some (?c\<lparr>sha_h := hash_blocks sha256_h0 pad 1\<rparr>)"
    using transform_hash [of ?c 1 pad] assms(3) by simp
  moreover have "hash_blocks sha256_h0 pad 1 = hash_blocks sha256_h0 (take 64 pad) 1"
    by (simp add: hash_blocks_1)
  ultimately show ?thesis
    using that assms by (auto simp: SHA256_init_1b_def absorbed_def SHA256_BLOCK_SIZE_def)
qed

definition key_block :: "u8 \<Rightarrow> bytes \<Rightarrow> bytes" where
  "key_block msk key = map (\<lambda>k. k XOR msk) (key @ replicate (64 - length key) 0)"

lemma hmac_step:
  assumes "length (sha_block ctx) = 128" "length (sha_buf ctx) = 32" "length key \<le> 64" "length data + 64 < 2 ^ 29" "length output = 32"
  shows "hmac_SHA256_step ctx output msk key (int (length key)) data (word_of_nat (length data)) = Some (sha256 (key_block msk key @ data))"
proof -
  define pad where "pad = replicate 64 msk @ drop 64 (sha_block ctx)"
  have bs: "unat SHA256_BLOCK_SIZE = 64" "unat SHA256_DIGEST_SIZE = 32" by (simp_all add: SHA256_BLOCK_SIZE_def SHA256_DIGEST_SIZE_def)
  have pad: "store_at (sha_block ctx) 0 (replicate (unat SHA256_BLOCK_SIZE) msk) = Some pad" "length pad = 128"
    using assms(1) bs by (simp_all add: store_at_def pad_def)
  define kp where "kp = map2 (XOR) (take (length key) pad) key @ drop (length key) pad"
  have kp: "xor_key [0..<length key] key pad = Some kp" "length kp = 128"
    using xor_key_eval [of "length key" key pad 0] pad(2) assms(3) by (simp_all add: kp_def)
  have tk: "take 64 kp = key_block msk key"
  proof -
    have "take (length key) pad = replicate (length key) msk" "take (64 - length key) (drop (length key) pad) = replicate (64 - length key) msk"
      using assms(3) by (simp_all add: pad_def min_def)
    moreover have "map2 (XOR) (replicate (length key) msk) key = map (\<lambda>k. k XOR msk) key"
      by (induction key) (simp_all add: ac_simps)
    ultimately show ?thesis using assms(3) pad(2) by (simp add: kp_def key_block_def min_def)
  qed
  obtain c1 where c1: "SHA256_init_1b (ctx\<lparr>sha_block := kp\<rparr>) kp = Some c1" "absorbed c1 (key_block msk key)"
    using init_1b_absorbed [of "ctx\<lparr>sha_block := kp\<rparr>" kp] kp(2) assms(2) tk by auto
  have ld: "length data < 2 ^ 32 - 64" using assms(4) by simp
  obtain c2 where c2: "SHA256_update c1 data (word_of_nat (length data)) = Some c2" "absorbed c2 (key_block msk key @ data)"
    by (rule update_absorbed [OF c1(2) ld])
  have lk: "length (key_block msk key @ data) < 2 ^ 29" using assms(3,4) by (simp add: key_block_def)
  obtain c3 where c3: "SHA256_final c2 = Some (sha256 (key_block msk key @ data), c3)"
    by (rule final_digest [OF c2(2) lk])
  show ?thesis
    using pad(1) kp(1) c1(1) c2(1) c3 assms(5) bs by (simp add: hmac_SHA256_step_def load_from_def store_at_def)
qed

lemma hmac_sha256_blocks: "hmac_sha256 key m = sha256 (key_block 0x5c key @ sha256 (key_block 0x36 key @ m))"
  by (simp add: hmac_sha256_def key_block_def Let_def)

section \<open>Properties\<close>

text \<open>A message given in pieces.\<close>

fun update_all :: "bytes list \<Rightarrow> sha256_ctx \<Rightarrow> sha256_ctx option" where
  "update_all [] ctx = Some ctx"
| "update_all (d # ds) ctx = do { ctx \<leftarrow> SHA256_update ctx d (word_of_nat (length d)); update_all ds ctx }"

lemma update_all_absorbed:
  assumes "absorbed ctx m" "\<forall>d \<in> set ds. length d < 2 ^ 32 - 64"
  obtains ctx' where "update_all ds ctx = Some ctx'" "absorbed ctx' (m @ concat ds)"
proof -
  have "\<exists>ctx'. update_all ds ctx = Some ctx' \<and> absorbed ctx' (m @ concat ds)"
    using assms
  proof (induction ds arbitrary: ctx m)
    case (Cons d ds)
    then have ld: "length d < 2 ^ 32 - 64" by simp
    obtain c where c: "SHA256_update ctx d (word_of_nat (length d)) = Some c" "absorbed c (m @ d)"
      by (rule update_absorbed [OF Cons.prems(1) ld])
    then show ?case using Cons.IH [OF c(2)] Cons.prems(2) by simp
  qed simp
  then show ?thesis using that by blast
qed

text \<open>C9. SHA-256 is the function of the standard, however the message is cut into pieces: for every list of pieces, with empty and long ones,
  of less than 2 ^ 29 bytes together, initialising, updating with each piece and finishing returns the digest of FIPS 180 of
  the whole message. (The code keeps the length in bits in 32 bits, so for longer messages it is not.)\<close>

theorem sha256_streaming_correct:
  assumes "length (sha_block ctx) = 128" "length (sha_buf ctx) = 32" "length (concat ds) < 2 ^ 29"
  shows "\<exists>ctx1 ctx2. update_all ds (SHA256_init ctx) = Some ctx1 \<and> SHA256_final ctx1 = Some (sha256 (concat ds), ctx2)"
proof -
  have "\<forall>d \<in> set ds. length d < 2 ^ 32 - 64"
  proof
    fix d assume "d \<in> set ds"
    then have "length d \<le> length (concat ds)" by (induction ds) auto
    then show "length d < 2 ^ 32 - 64" using assms(3) by simp
  qed
  then obtain c1 where c1: "update_all ds (SHA256_init ctx) = Some c1" "absorbed c1 ([] @ concat ds)"
    by (rule update_all_absorbed [OF init_absorbed [OF assms(1,2)]])
  then show ?thesis using final_digest [of c1 "concat ds"] assms(3) by (metis append_Nil)
qed

definition stack_ctx :: sha256_ctx where
  "stack_ctx = \<lparr>sha_h = [], sha_tot_len = 7, sha_len = 7, sha_block = replicate 128 0xCC, sha_buf = replicate 32 0\<rparr>"

lemma stack_ctx_ok: "length (sha_block stack_ctx) = 128" "length (sha_buf stack_ctx) = 32"
  by (simp_all add: stack_ctx_def)

definition code_digest :: "bytes list \<Rightarrow> bytes option" where
  "code_digest ds = do { c \<leftarrow> update_all ds (SHA256_init stack_ctx); (d, _) \<leftarrow> SHA256_final c; Some d }"

text \<open>The witness is the test vector of the standard, evaluated with the code's definitions: the digest of \<open>abc\<close>, given in two pieces.\<close>

lemma abc_evaluated:
  "code_digest [[0x61], [0x62, 0x63]] = Some
    [0xba, 0x78, 0x16, 0xbf, 0x8f, 0x01, 0xcf, 0xea, 0x41, 0x41, 0x40, 0xde, 0x5d, 0xae, 0x22, 0x23,
     0xb0, 0x03, 0x61, 0xa3, 0x96, 0x17, 0x7a, 0x9c, 0xb4, 0x10, 0xff, 0x61, 0xf2, 0x00, 0x15, 0xad]"
  by code_simp

theorem sha256_streaming_correct_witness:
  "sha256 [0x61, 0x62, 0x63] =
    [0xba, 0x78, 0x16, 0xbf, 0x8f, 0x01, 0xcf, 0xea, 0x41, 0x41, 0x40, 0xde, 0x5d, 0xae, 0x22, 0x23,
     0xb0, 0x03, 0x61, 0xa3, 0x96, 0x17, 0x7a, 0x9c, 0xb4, 0x10, 0xff, 0x61, 0xf2, 0x00, 0x15, 0xad]"
proof -
  obtain c1 c2 where "update_all [[0x61], [0x62, 0x63]] (SHA256_init stack_ctx) = Some c1"
    "SHA256_final c1 = Some (sha256 (concat [[0x61], [0x62, 0x63]]), c2)"
    using sha256_streaming_correct [OF stack_ctx_ok, of "[[0x61], [0x62, 0x63]]"] by auto
  then have "code_digest [[0x61], [0x62, 0x63]] = Some (sha256 [0x61, 0x62, 0x63])" by (simp add: code_digest_def)
  then show ?thesis unfolding abc_evaluated by simp
qed

text \<open>C20. The HMAC is the one of FIPS 198, for every key up to the block size and every message of less than 2 ^ 29 - 64
  bytes, whatever the context on the stack and the output buffer held before; the output buffer is the intermediate digest in between. A
  longer key fails the assertion.\<close>

theorem hmac_sha256_correct:
  assumes "length (sha_block ctx) = 128" "length (sha_buf ctx) = 32" "length message + 64 < 2 ^ 29" "length output = 32"
  shows "hmac_SHA256 ctx output key (int (length key)) message (word_of_nat (length message)) =
    (if length key \<le> 64 then Some (hmac_sha256 key message) else None)"
proof (cases "length key \<le> 64")
  case True
  have "hmac_SHA256_step ctx (sha256 (key_block 0x36 key @ message)) 0x5c key (int (length key)) (sha256 (key_block 0x36 key @ message)) 32
      = Some (sha256 (key_block 0x5c key @ sha256 (key_block 0x36 key @ message)))"
    using hmac_step [OF assms(1,2) True, of "sha256 (key_block 0x36 key @ message)" "sha256 (key_block 0x36 key @ message)" "0x5c"] by simp
  then show ?thesis
    using hmac_step [OF assms(1,2) True assms(3,4), of "0x36"] True
    by (simp add: hmac_SHA256_def hmac_sha256_blocks SHA256_DIGEST_SIZE_def)
qed (simp add: hmac_SHA256_def)

theorem hmac_sha256_correct_witness:
  "hmac_SHA256 stack_ctx (replicate 32 1) [0x6b, 0x65, 0x79] 3 [0x61, 0x62] 2 = Some (hmac_sha256 [0x6b, 0x65, 0x79] [0x61, 0x62])"
  using hmac_sha256_correct [OF stack_ctx_ok, of "[0x61, 0x62]" "replicate 32 1" "[0x6b, 0x65, 0x79]"] by simp

end
