(* ===== verification/Readline.thy ===== *)
theory Readline
  imports Prelude
begin

unbundle bit_operations_syntax

text \<open>
  The console line editor, \<^verbatim>\<open>libnklabs/src/nkreadline.c\<close>: the edit buffer, the history buffer of NUL-terminated lines, the
  keys and their escape sequences, and the echo. The functions of the command interpreter that the TAB key uses are the
  parameters \<open>cpl\<close> (\<open>nk_complete\<close>) and \<open>hlp\<close> (\<open>nk_help\<close>): they return their result and what they print.
  The characters given to \<open>nk_putc\<close> are collected in \<open>console_out\<close>.
  The last part states what an editor of lines with a history is, in terms of lists, and shows that the buffers
  implement it and that the screen shows it.
\<close>

section \<open>State\<close>

definition NKREADLINE_LINE_SIZE :: nat where "NKREADLINE_LINE_SIZE = 128"
definition NKREADLINE_HIST_SIZE :: nat where "NKREADLINE_HIST_SIZE = 1024"

record readline =
  console_prompt :: bytes
  tty_buf :: bytes
  tty_len :: nat
  tty_cur :: nat
  tty_changed :: bool
  histbuf :: bytes
  hist_end :: nat
  hist_idx :: nat
  echo_mode :: bool
  tty_mode :: u8
  tab_count :: u8
  console_out :: bytes

text \<open>The variables of type \<open>size_t\<close> are indexes into the two buffers. Subtraction is \<open>None\<close> where the C program would wrap
  around, like every access outside a buffer; the sums stay below the sizes of the buffers.\<close>

definition minus_size :: "nat \<Rightarrow> nat \<Rightarrow> nat option" where
  "minus_size a b = (if b \<le> a then Some (a - b) else None)"

text \<open>The string at a pointer, up to its terminating NUL, and \<open>memmove\<close> inside a buffer.\<close>

definition cstring :: "bytes \<Rightarrow> nat \<Rightarrow> bytes option" where
  "cstring buf i = (if 0 \<in> set (drop i buf) then Some (takeWhile (\<lambda>c. c \<noteq> 0) (drop i buf)) else None)"

definition memmove :: "bytes \<Rightarrow> nat \<Rightarrow> nat \<Rightarrow> nat \<Rightarrow> bytes option" where
  "memmove buf dst src n = do { xs \<leftarrow> load_from buf src n; store_at buf dst xs }"

section \<open>Echo\<close>

definition nk_set_echo :: "bool \<Rightarrow> readline \<Rightarrow> bool \<times> readline" where
  "nk_set_echo new_mode st = (echo_mode st, st\<lparr>echo_mode := new_mode\<rparr>)"

definition nk_get_echo :: "readline \<Rightarrow> bool" where
  "nk_get_echo st = echo_mode st"

definition nk_putc :: "u8 \<Rightarrow> readline \<Rightarrow> readline" where
  "nk_putc c st = st\<lparr>console_out := console_out st @ [c]\<rparr>"

definition nk_puts :: "bytes \<Rightarrow> readline \<Rightarrow> readline" where
  "nk_puts s st = st\<lparr>console_out := console_out st @ s\<rparr>"

definition console_putchar :: "u8 \<Rightarrow> readline \<Rightarrow> readline" where
  "console_putchar c st = (if echo_mode st then nk_putc c st else st)"

definition console_puts :: "bytes \<Rightarrow> readline \<Rightarrow> readline" where
  "console_puts s st = (if echo_mode st then nk_puts s st else st)"

text \<open>The loops that echo the characters of a range of the buffer, and the same character several times.\<close>

function put_range :: "nat \<Rightarrow> nat \<Rightarrow> readline \<Rightarrow> readline option" where
  "put_range n m st =
     (if n = m then Some st
      else do { c \<leftarrow> deref (tty_buf st) n; put_range (n + 1) m (console_putchar c st) })"
  by auto
termination
  by (relation "measure (\<lambda>(n, m, st). length (tty_buf st) - n)")
    (auto simp: deref_eq_Some console_putchar_def nk_putc_def)

definition put_times :: "nat \<Rightarrow> bytes \<Rightarrow> readline \<Rightarrow> readline" where
  "put_times n cs st = foldl (\<lambda>st c. console_putchar c st) st (concat (replicate n cs))"

section \<open>The history buffer\<close>

fun prev_loop :: "bytes \<Rightarrow> nat \<Rightarrow> nat option" where
  "prev_loop h 0 = None"
| "prev_loop h (Suc idx) =
     (if idx = 0 then Some 0
      else do { c \<leftarrow> deref h (idx - 1); if c \<noteq> 0 then prev_loop h idx else Some idx })"

definition hist_prev :: "readline \<Rightarrow> (nat option \<times> readline) option" where
  "hist_prev st =
     (if hist_idx st = 0 then Some (None, st)
      else do {
        idx \<leftarrow> prev_loop (histbuf st) (hist_idx st);
        Some (Some idx, st\<lparr>hist_idx := idx\<rparr>)
      })"

function next_loop :: "bytes \<Rightarrow> nat \<Rightarrow> nat option" where
  "next_loop h idx = do { c \<leftarrow> deref h idx; if c \<noteq> 0 then next_loop h (idx + 1) else Some idx }"
  by auto
termination
  by (relation "measure (\<lambda>(h, idx). length h - idx)") (auto simp: deref_eq_Some)

definition hist_next :: "readline \<Rightarrow> (nat option \<times> readline) option" where
  "hist_next st =
     (if hist_idx st = hist_end st then Some (None, st)
      else do {
        idx \<leftarrow> next_loop (histbuf st) (hist_idx st);
        let idx = idx + 1;
        let st = st\<lparr>hist_idx := idx\<rparr>;
        Some (if idx = hist_end st then None else Some idx, st)
      })"

definition hist_del :: "readline \<Rightarrow> (nat \<times> readline) option" where
  "hist_del st =
     (if hist_idx st \<noteq> hist_end st then do {
        s \<leftarrow> cstring (histbuf st) (hist_idx st);
        let len = length s + 1;
        n \<leftarrow> minus_size (hist_end st) (hist_idx st + len);
        h \<leftarrow> (if n \<noteq> 0 then memmove (histbuf st) (hist_idx st) (hist_idx st + len) n else Some (histbuf st));
        e \<leftarrow> minus_size (hist_end st) len;
        Some (len, st\<lparr>histbuf := h, hist_end := e\<rparr>)
      }
      else Some (0, st))"

partial_function (option) make_room :: "nat \<Rightarrow> nat \<Rightarrow> readline \<Rightarrow> (nat \<times> readline) option" where
  "make_room len tmp st =
     (if len + hist_end st > NKREADLINE_HIST_SIZE then do {
        (r, st) \<leftarrow> hist_del st;
        tmp \<leftarrow> (if tmp \<noteq> 0 then minus_size tmp r else Some tmp);
        make_room len tmp st
      }
      else Some (tmp, st))"

text \<open>\<open>hist_ins\<close> is called with the edit buffer only.\<close>

definition hist_ins :: "readline \<Rightarrow> readline option" where
  "hist_ins st = do {
     s \<leftarrow> cstring (tty_buf st) 0;
     let len = length s + 1;
     (tmp, st) \<leftarrow> make_room len (hist_idx st) (st\<lparr>hist_idx := 0\<rparr>);
     let st = st\<lparr>hist_idx := tmp\<rparr>;
     h \<leftarrow> (if hist_idx st \<noteq> hist_end st then do {
              n \<leftarrow> minus_size (hist_end st) (hist_idx st);
              memmove (histbuf st) (hist_idx st + len) (hist_idx st) n
            }
            else Some (histbuf st));
     line \<leftarrow> load_from (tty_buf st) 0 len;
     h \<leftarrow> store_at h (hist_idx st) line;
     Some (st\<lparr>histbuf := h, hist_end := hist_end st + len\<rparr>)
   }"

section \<open>Editing\<close>

definition to_end :: "readline \<Rightarrow> readline option" where
  "to_end st = do {
     st \<leftarrow> put_range (tty_cur st) (tty_len st) st;
     Some (st\<lparr>tty_cur := tty_len st\<rparr>)
   }"

definition to_beg :: "readline \<Rightarrow> readline" where
  "to_beg st = put_times (tty_cur st) [8] st\<lparr>tty_cur := 0\<rparr>"

definition erase_line :: "readline \<Rightarrow> readline option" where
  "erase_line st = do {
     st \<leftarrow> to_end st;
     Some (put_times (tty_len st) [8, 32, 8] st\<lparr>tty_cur := 0, tty_len := 0\<rparr>)
   }"

definition redraw :: "readline \<Rightarrow> readline option" where
  "redraw st = do {
     let st = st\<lparr>tty_cur := 0\<rparr>;
     to_end (console_puts (console_prompt st) st)
   }"

definition type_line :: "readline \<Rightarrow> readline option" where
  "type_line st = to_end (st\<lparr>tty_cur := 0\<rparr>)"

text \<open>The line at the history pointer is copied to the edit buffer and shown: \<open>strcpy\<close>, \<open>strlen\<close>, \<open>type\<close>.\<close>

definition load_hist :: "readline \<Rightarrow> readline option" where
  "load_hist st = do {
     s \<leftarrow> cstring (histbuf st) (hist_idx st);
     buf \<leftarrow> store_at (tty_buf st) 0 (s @ [0]);
     t \<leftarrow> cstring buf 0;
     type_line (st\<lparr>tty_buf := buf, tty_len := length t\<rparr>)
   }"

text \<open>\<open>tty_buf[tty_len] = 0\<close>.\<close>

definition end_line :: "readline \<Rightarrow> readline option" where
  "end_line st = do { buf \<leftarrow> store_at (tty_buf st) (tty_len st) [0]; Some (st\<lparr>tty_buf := buf\<rparr>) }"

definition hist_up :: "readline \<Rightarrow> readline option" where
  "hist_up st =
     (if hist_idx st \<noteq> 0 then do {
        st \<leftarrow> (if tty_len st \<noteq> 0 then
                (if \<not> tty_changed st then erase_line st
                 else do { st \<leftarrow> end_line st; st \<leftarrow> hist_ins st; erase_line st })
              else Some st);
        (p, st) \<leftarrow> hist_prev st;
        st \<leftarrow> (case p of Some _ \<Rightarrow> load_hist st | None \<Rightarrow> Some st);
        Some (st\<lparr>tty_changed := False\<rparr>)
      }
      else Some (console_putchar 7 st))"

definition more_history :: "readline \<Rightarrow> bool option" where
  "more_history st =
     (if hist_idx st \<noteq> hist_end st then do {
        s \<leftarrow> cstring (histbuf st) (hist_idx st);
        Some (hist_idx st + length s + 1 \<noteq> hist_end st)
      }
      else Some False)"

definition keep_changed :: "readline \<Rightarrow> readline option" where
  "keep_changed st =
     (if tty_changed st then do { (_, st) \<leftarrow> hist_next st; st \<leftarrow> end_line st; hist_ins st } else Some st)"

definition hist_down :: "readline \<Rightarrow> readline option" where
  "hist_down st = do {
     more \<leftarrow> more_history st;
     if more then do {
       st \<leftarrow> (if tty_len st \<noteq> 0 then do {
                st \<leftarrow> keep_changed st;
                (_, st) \<leftarrow> hist_next st;
                erase_line st
              }
              else Some st);
       st \<leftarrow> (if hist_idx st \<noteq> hist_end st then load_hist st else Some st);
       Some (st\<lparr>tty_changed := False\<rparr>)
     }
     else if tty_len st \<noteq> 0 then do {
       st \<leftarrow> keep_changed st;
       let st = st\<lparr>hist_idx := hist_end st\<rparr>;
       st \<leftarrow> erase_line st;
       Some (st\<lparr>tty_changed := False\<rparr>)
     }
     else Some (console_putchar 7 st)
   }"

definition cur_left :: "readline \<Rightarrow> readline" where
  "cur_left st = (if tty_cur st \<noteq> 0 then console_putchar 8 st\<lparr>tty_cur := tty_cur st - 1\<rparr> else st)"

definition cur_right :: "readline \<Rightarrow> readline option" where
  "cur_right st =
     (if tty_cur st \<noteq> tty_len st then do {
        c \<leftarrow> deref (tty_buf st) (tty_cur st);
        Some (console_putchar c st\<lparr>tty_cur := tty_cur st + 1\<rparr>)
      }
      else Some st)"

definition typech :: "u8 \<Rightarrow> readline \<Rightarrow> readline option" where
  "typech c st =
     (if tty_len st \<noteq> NKREADLINE_LINE_SIZE - 1 then do {
        buf \<leftarrow> (if tty_cur st \<noteq> tty_len st then do {
                   n \<leftarrow> minus_size (tty_len st) (tty_cur st);
                   memmove (tty_buf st) (tty_cur st + 1) (tty_cur st) n
                 }
                 else Some (tty_buf st));
        let len = tty_len st + 1;
        buf \<leftarrow> store_at buf (tty_cur st) [c];
        st \<leftarrow> put_range (tty_cur st) len (st\<lparr>tty_buf := buf, tty_len := len\<rparr>);
        let st = st\<lparr>tty_cur := tty_cur st + 1\<rparr>;
        k \<leftarrow> minus_size len (tty_cur st);
        Some (put_times k [8] st\<lparr>tty_changed := True\<rparr>)
      }
      else Some (console_putchar 7 st))"

definition delch :: "readline \<Rightarrow> readline option" where
  "delch st =
     (if tty_cur st \<noteq> tty_len st then do {
        buf \<leftarrow> (if tty_cur st + 1 \<noteq> tty_len st then do {
                   n \<leftarrow> minus_size (tty_len st) (tty_cur st + 1);
                   memmove (tty_buf st) (tty_cur st) (tty_cur st + 1) n
                 }
                 else Some (tty_buf st));
        len \<leftarrow> minus_size (tty_len st) 1;
        st \<leftarrow> put_range (tty_cur st) len (st\<lparr>tty_buf := buf, tty_len := len\<rparr>);
        let st = console_putchar 8 (console_putchar 32 st);
        k \<leftarrow> minus_size len (tty_cur st);
        Some (put_times k [8] st\<lparr>tty_changed := True\<rparr>)
      }
      else Some st)"

section \<open>Keys\<close>

text \<open>Completion of a command: each character that is certain is typed.\<close>

partial_function (option) complete_loop ::
  "(bytes \<Rightarrow> u8 \<Rightarrow> int \<times> bytes) \<Rightarrow> readline \<Rightarrow> readline option" where
  "complete_loop cpl st = do {
     st \<leftarrow> end_line st;
     let st = (if tab_count st \<noteq> 0 then console_putchar 10 st else st);
     s \<leftarrow> cstring (tty_buf st) 0;
     let (ch, out) = cpl s (tab_count st);
     let st = nk_puts out st;
     st \<leftarrow> (if tab_count st \<noteq> 0 then redraw st else Some st);
     if ch = -1 then Some (console_putchar 7 st)
     else if ch = -2 then
       Some ((if tab_count st = 0 then console_putchar 7 st else st)\<lparr>tab_count := 2\<rparr>)
     else do {
       st \<leftarrow> typech (word_of_int ch) st;
       if ch = 32 then Some st else complete_loop cpl st
     }
   }"

definition tab_key ::
  "(bytes \<Rightarrow> u8 \<Rightarrow> int \<times> bytes) \<Rightarrow> (bytes \<Rightarrow> int \<times> bytes) \<Rightarrow> readline \<Rightarrow> readline option" where
  "tab_key cpl hlp st = do {
     on_blank \<leftarrow> (if tty_len st \<noteq> 0 then do { c \<leftarrow> deref (tty_buf st) (tty_len st - 1); Some (c = 32) } else Some False);
     if on_blank then do {
       let st = console_putchar 10 st;
       buf \<leftarrow> store_at (tty_buf st) (tty_len st - 1) [0];
       s \<leftarrow> cstring buf 0;
       let (rtn, out) = hlp s;
       let st = nk_puts out (st\<lparr>tty_buf := buf\<rparr>);
       let st = (if rtn \<noteq> 0 then console_putchar 7 st else st);
       buf \<leftarrow> store_at (tty_buf st) (tty_len st - 1) [32];
       redraw (st\<lparr>tty_buf := buf\<rparr>)
     }
     else complete_loop cpl st
   }"

definition cancel_key :: "readline \<Rightarrow> readline option" where
  "cancel_key st = do {
     st \<leftarrow> end_line st;
     st \<leftarrow> (if tty_changed st \<and> tty_len st \<noteq> 0 then hist_ins st else Some st);
     st \<leftarrow> to_end (st\<lparr>hist_idx := hist_end st\<rparr>);
     let st = nk_puts (console_prompt st) (nk_putc 10 (nk_putc 67 (nk_putc 94 st)));
     Some (st\<lparr>tty_len := 0, tty_cur := 0, tty_changed := False\<rparr>)
   }"

definition enter_key :: "readline \<Rightarrow> readline option" where
  "enter_key st = do {
     st \<leftarrow> to_end st;
     st \<leftarrow> end_line st;
     st \<leftarrow> (if tty_len st \<noteq> 0 then do {
              st \<leftarrow> (if \<not> tty_changed st then do { (_, st) \<leftarrow> hist_del st; Some st } else Some st);
              hist_ins (st\<lparr>hist_idx := hist_end st\<rparr>)
            }
            else Some st);
     let st = st\<lparr>hist_idx := hist_end st\<rparr>;
     Some (nk_putc 10 st\<lparr>tty_changed := False\<rparr>)
   }"

definition plain_key ::
  "(bytes \<Rightarrow> u8 \<Rightarrow> int \<times> bytes) \<Rightarrow> (bytes \<Rightarrow> int \<times> bytes) \<Rightarrow> int \<Rightarrow> readline \<Rightarrow> readline option" where
  "plain_key cpl hlp ch st =
     (if ch \<ge> 32 \<and> ch \<le> 126 then typech (word_of_int ch) st
      else if ch = 9 then tab_key cpl hlp st
      else if ch = 8 \<or> ch = 127 then
        (if tty_cur st \<noteq> 0 then delch (cur_left st) else Some (console_putchar 7 st))
      else if ch = 4 then
        (if tty_cur st \<noteq> tty_len st then delch st else Some (console_putchar 7 st))
      else if ch = 3 then cancel_key st
      else if ch = 5 then to_end st
      else if ch = 1 then Some (to_beg st)
      else if ch = 16 then hist_up st
      else if ch = 14 then hist_down st
      else if ch = 2 then Some (cur_left st)
      else if ch = 6 then cur_right st
      else if ch = 27 then Some (st\<lparr>tty_mode := 1\<rparr>)
      else Some st)"

definition escape_key :: "int \<Rightarrow> readline \<Rightarrow> readline option" where
  "escape_key ch st = do {
     st \<leftarrow> (if ch = 65 then hist_up st
           else if ch = 66 then hist_down st
           else if ch = 67 then cur_right st
           else if ch = 68 then Some (cur_left st)
           else Some st);
     Some (st\<lparr>tty_mode := 0\<rparr>)
   }"

text \<open>One character of \<open>prompt_task\<close>. The result is the edit buffer when the line is complete: the argument of
  \<open>console_callback\<close>.\<close>

definition prompt_char ::
  "(bytes \<Rightarrow> u8 \<Rightarrow> int \<times> bytes) \<Rightarrow> (bytes \<Rightarrow> int \<times> bytes) \<Rightarrow> int \<Rightarrow> readline \<Rightarrow> (bytes option \<times> readline) option" where
  "prompt_char cpl hlp ch st =
     (let st = (if tab_count st \<noteq> 0 then st\<lparr>tab_count := tab_count st - 1\<rparr> else st)
      in if tty_mode st = 0 then
           (if ch = 13 \<or> ch = 10 then do { st \<leftarrow> enter_key st; Some (Some (tty_buf st), st) }
            else do { st \<leftarrow> plain_key cpl hlp ch st; Some (None, st) })
         else if tty_mode st = 1 then
           Some (None, if ch = 91 then st\<lparr>tty_mode := 2\<rparr> else st\<lparr>tty_mode := 0\<rparr>)
         else if tty_mode st = 2 then do { st \<leftarrow> escape_key ch st; Some (None, st) }
         else Some (None, st))"

text \<open>\<open>prompt_task\<close> takes the characters that have been received; it returns those it leaves, with the line that was entered,
  or none when it has used them up and waits for more.\<close>

fun prompt_task ::
  "(bytes \<Rightarrow> u8 \<Rightarrow> int \<times> bytes) \<Rightarrow> (bytes \<Rightarrow> int \<times> bytes) \<Rightarrow> bytes \<Rightarrow> readline \<Rightarrow> (bytes option \<times> bytes \<times> readline) option" where
  "prompt_task cpl hlp [] st = Some (None, [], st)"
| "prompt_task cpl hlp (c # cs) st = do {
     (line, st) \<leftarrow> prompt_char cpl hlp (uint c) st;
     case line of Some l \<Rightarrow> Some (Some l, cs, st) | None \<Rightarrow> prompt_task cpl hlp cs st
   }"

text \<open>The start of a line, without the registration of \<open>prompt_task\<close> and the callback.\<close>

definition nk_readline :: "bytes \<Rightarrow> readline \<Rightarrow> readline" where
  "nk_readline prompt_text st =
     console_puts prompt_text (st\<lparr>tty_cur := 0, tty_len := 0, tty_changed := False, console_prompt := prompt_text\<rparr>)"

section \<open>An editor of lines\<close>

text \<open>What the component promises: a line with a cursor, a history of lines with a position in it, and the state of the escape
  sequences. The lines of the history above the position come before the ones below.\<close>

record editor =
  e_left :: bytes
  e_right :: bytes
  e_changed :: bool
  e_above :: "bytes list"
  e_below :: "bytes list"
  e_mode :: u8
  e_tabs :: u8

definition e_line :: "editor \<Rightarrow> bytes" where
  "e_line e = e_left e @ e_right e"

definition hist_bytes :: "bytes list \<Rightarrow> bytes" where
  "hist_bytes ls = concat (map (\<lambda>l. l @ [0]) ls)"

text \<open>Putting a line into the history forgets the oldest lines until it fits.\<close>

fun forget :: "nat \<Rightarrow> bytes list \<Rightarrow> bytes list \<Rightarrow> bytes list \<times> bytes list" where
  "forget n us ds =
     (if n + length (hist_bytes (us @ ds)) > NKREADLINE_HIST_SIZE then
        (case us of _ # us \<Rightarrow> forget n us ds
         | [] \<Rightarrow> (case ds of _ # ds \<Rightarrow> forget n [] ds | [] \<Rightarrow> ([], [])))
      else (us, ds))"

declare forget.simps [simp del]

definition e_ins :: "editor \<Rightarrow> editor" where
  "e_ins e = (let (us, ds) = forget (length (e_line e) + 1) (e_above e) (e_below e)
     in e\<lparr>e_above := us, e_below := e_line e # ds\<rparr>)"

definition e_type :: "u8 \<Rightarrow> editor \<Rightarrow> editor" where
  "e_type c e = (if length (e_line e) < NKREADLINE_LINE_SIZE - 1
     then e\<lparr>e_left := e_left e @ [c], e_changed := True\<rparr> else e)"

definition e_del :: "editor \<Rightarrow> editor" where
  "e_del e = (case e_right e of [] \<Rightarrow> e | _ # r \<Rightarrow> e\<lparr>e_right := r, e_changed := True\<rparr>)"

definition e_back :: "editor \<Rightarrow> editor" where
  "e_back e = (if e_left e = [] then e else e\<lparr>e_left := butlast (e_left e), e_right := last (e_left e) # e_right e\<rparr>)"

definition e_forth :: "editor \<Rightarrow> editor" where
  "e_forth e = (case e_right e of [] \<Rightarrow> e | c # r \<Rightarrow> e\<lparr>e_left := e_left e @ [c], e_right := r\<rparr>)"

definition e_end :: "editor \<Rightarrow> editor" where
  "e_end e = e\<lparr>e_left := e_line e, e_right := []\<rparr>"

definition e_beg :: "editor \<Rightarrow> editor" where
  "e_beg e = e\<lparr>e_left := [], e_right := e_line e\<rparr>"

definition e_clear :: "editor \<Rightarrow> editor" where
  "e_clear e = e\<lparr>e_left := [], e_right := []\<rparr>"

text \<open>Moving in the history.\<close>

definition e_prev :: "editor \<Rightarrow> editor" where
  "e_prev e = (if e_above e = [] then e else e\<lparr>e_above := butlast (e_above e), e_below := last (e_above e) # e_below e\<rparr>)"

definition e_next :: "editor \<Rightarrow> editor" where
  "e_next e = (case e_below e of [] \<Rightarrow> e | l # ls \<Rightarrow> e\<lparr>e_above := e_above e @ [l], e_below := ls\<rparr>)"

definition e_last :: "editor \<Rightarrow> editor" where
  "e_last e = e\<lparr>e_above := e_above e @ e_below e, e_below := []\<rparr>"

definition e_load :: "editor \<Rightarrow> editor" where
  "e_load e = (case e_below e of [] \<Rightarrow> e | l # _ \<Rightarrow> e\<lparr>e_left := l, e_right := []\<rparr>)"

definition e_up :: "editor \<Rightarrow> editor" where
  "e_up e =
     (if e_above e = [] then e
      else let e1 = (if e_line e \<noteq> [] then e_clear (if e_changed e then e_ins e else e) else e)
        in (if e_above e1 = [] then e1 else e_load (e_prev e1))\<lparr>e_changed := False\<rparr>)"

definition e_down :: "editor \<Rightarrow> editor" where
  "e_down e =
     (if length (e_below e) \<ge> 2 then
        (let e1 = (if e_line e \<noteq> [] then e_clear (e_next (if e_changed e then e_ins (e_next e) else e)) else e)
         in (e_load e1)\<lparr>e_changed := False\<rparr>)
      else if e_line e \<noteq> [] then
        (e_clear (e_last (if e_changed e then e_ins (e_next e) else e)))\<lparr>e_changed := False\<rparr>
      else e)"

text \<open>Completion types characters as long as they are certain; \<open>n\<close> bounds how many. A line that ends in a blank asks for help,
  which leaves the cursor at the end of the line.\<close>

primrec e_complete :: "nat \<Rightarrow> (bytes \<Rightarrow> u8 \<Rightarrow> int \<times> bytes) \<Rightarrow> editor \<Rightarrow> editor" where
  "e_complete 0 cpl e = e"
| "e_complete (Suc n) cpl e =
     (let ch = fst (cpl (e_line e) (e_tabs e)); e1 = (if e_tabs e \<noteq> 0 then e_end e else e)
      in if ch = -1 then e1
         else if ch = -2 then e1\<lparr>e_tabs := 2\<rparr>
         else if ch = 32 then e_type (word_of_int ch) e1
         else e_complete n cpl (e_type (word_of_int ch) e1))"

definition e_tab :: "(bytes \<Rightarrow> u8 \<Rightarrow> int \<times> bytes) \<Rightarrow> editor \<Rightarrow> editor" where
  "e_tab cpl e = (if e_line e \<noteq> [] \<and> last (e_line e) = 32 then e_end e else e_complete NKREADLINE_LINE_SIZE cpl e)"

definition e_cancel :: "editor \<Rightarrow> editor" where
  "e_cancel e = (e_clear (e_last (if e_changed e \<and> e_line e \<noteq> [] then e_ins e else e)))\<lparr>e_changed := False\<rparr>"

text \<open>A line that was recalled and not changed moves to the end of the history.\<close>

definition e_enter :: "editor \<Rightarrow> editor" where
  "e_enter e = (e_last (if e_line e = [] then e_end e
     else e_ins (e_last (e_end (if e_changed e then e else e\<lparr>e_below := tl (e_below e)\<rparr>)))))\<lparr>e_changed := False\<rparr>"

definition e_plain :: "(bytes \<Rightarrow> u8 \<Rightarrow> int \<times> bytes) \<Rightarrow> int \<Rightarrow> editor \<Rightarrow> editor" where
  "e_plain cpl ch e =
     (if ch \<ge> 32 \<and> ch \<le> 126 then e_type (word_of_int ch) e
      else if ch = 9 then e_tab cpl e
      else if ch = 8 \<or> ch = 127 then (if e_left e \<noteq> [] then e_del (e_back e) else e)
      else if ch = 4 then e_del e
      else if ch = 3 then e_cancel e
      else if ch = 5 then e_end e
      else if ch = 1 then e_beg e
      else if ch = 16 then e_up e
      else if ch = 14 then e_down e
      else if ch = 2 then e_back e
      else if ch = 6 then e_forth e
      else if ch = 27 then e\<lparr>e_mode := 1\<rparr>
      else e)"

definition e_escape :: "int \<Rightarrow> editor \<Rightarrow> editor" where
  "e_escape ch e =
     (if ch = 65 then e_up e else if ch = 66 then e_down e
      else if ch = 67 then e_forth e else if ch = 68 then e_back e else e)\<lparr>e_mode := 0\<rparr>"

definition e_char :: "(bytes \<Rightarrow> u8 \<Rightarrow> int \<times> bytes) \<Rightarrow> int \<Rightarrow> editor \<Rightarrow> bytes option \<times> editor" where
  "e_char cpl ch e =
     (let e = (if e_tabs e \<noteq> 0 then e\<lparr>e_tabs := e_tabs e - 1\<rparr> else e)
      in if e_mode e = 0 then
           (if ch = 13 \<or> ch = 10 then (Some (e_line e), e_enter e) else (None, e_plain cpl ch e))
         else if e_mode e = 1 then (None, e\<lparr>e_mode := if ch = 91 then 2 else 0\<rparr>)
         else if e_mode e = 2 then (None, e_escape ch e)
         else (None, e))"

fun e_task :: "(bytes \<Rightarrow> u8 \<Rightarrow> int \<times> bytes) \<Rightarrow> bytes \<Rightarrow> editor \<Rightarrow> bytes option \<times> bytes \<times> editor" where
  "e_task cpl [] e = (None, [], e)"
| "e_task cpl (c # cs) e =
     (case e_char cpl (uint c) e of (Some l, e) \<Rightarrow> (Some l, cs, e) | (None, e) \<Rightarrow> e_task cpl cs e)"

section \<open>The screen\<close>

text \<open>A terminal row with its cursor: a backspace moves the cursor, a new line clears the row, the bell shows nothing,
  every other character is written over what is there.\<close>

type_synonym screen = "bytes \<times> nat"

definition screen_put :: "screen \<Rightarrow> u8 \<Rightarrow> screen" where
  "screen_put = (\<lambda>(row, col) c.
     if c = 8 then (row, col - 1) else if c = 10 then ([], 0) else if c = 7 then (row, col)
     else (take col row @ [c] @ drop (col + 1) row, col + 1))"

definition screen_of :: "bytes \<Rightarrow> screen" where
  "screen_of out = foldl screen_put ([], 0) out"

definition shown :: "u8 \<Rightarrow> bool" where
  "shown c \<longleftrightarrow> c \<ge> 32 \<and> c \<le> 126"

text \<open>The screen shows the prompt and the line, with blanks after it, and the cursor where it is in the line.\<close>

definition shows_line :: "screen \<Rightarrow> bytes \<Rightarrow> bytes \<Rightarrow> nat \<Rightarrow> bool" where
  "shows_line scr prompt line cur \<longleftrightarrow> (\<exists>k. scr = (prompt @ line @ replicate k 32, length prompt + cur))"

section \<open>The invariant\<close>

definition line_ok :: "bytes \<Rightarrow> bool" where
  "line_ok l \<longleftrightarrow> (\<forall>c\<in>set l. shown c) \<and> length l < NKREADLINE_LINE_SIZE"

definition e_ok :: "editor \<Rightarrow> bool" where
  "e_ok e \<longleftrightarrow> line_ok (e_line e) \<and> (\<forall>l\<in>set (e_above e @ e_below e). line_ok l)
     \<and> length (hist_bytes (e_above e @ e_below e)) \<le> NKREADLINE_HIST_SIZE"

definition same_keys :: "readline \<Rightarrow> editor \<Rightarrow> bool" where
  "same_keys st e \<longleftrightarrow> tty_changed st = e_changed e \<and> tty_mode st = e_mode e \<and> tab_count st = e_tabs e"

text \<open>The buffers hold the line and the history.\<close>

definition line_in :: "readline \<Rightarrow> editor \<Rightarrow> bool" where
  "line_in st e \<longleftrightarrow> length (tty_buf st) = NKREADLINE_LINE_SIZE \<and> take (tty_len st) (tty_buf st) = e_line e
     \<and> tty_len st = length (e_line e) \<and> tty_cur st = length (e_left e)"

definition hist_in :: "readline \<Rightarrow> editor \<Rightarrow> bool" where
  "hist_in st e \<longleftrightarrow> length (histbuf st) = NKREADLINE_HIST_SIZE
     \<and> hist_end st = length (hist_bytes (e_above e @ e_below e))
     \<and> take (hist_end st) (histbuf st) = hist_bytes (e_above e @ e_below e)
     \<and> hist_idx st = length (hist_bytes (e_above e))"

text \<open>With the echo on, the screen shows the line.\<close>

definition screen_in :: "readline \<Rightarrow> bool" where
  "screen_in st \<longleftrightarrow> (\<forall>c\<in>set (console_prompt st). shown c) \<and>
     (echo_mode st \<longrightarrow> shows_line (screen_of (console_out st)) (console_prompt st) (take (tty_len st) (tty_buf st)) (tty_cur st))"

definition edits :: "readline \<Rightarrow> editor \<Rightarrow> bool" where
  "edits st e \<longleftrightarrow> e_ok e \<and> same_keys st e \<and> line_in st e \<and> hist_in st e \<and> screen_in st"

section \<open>Echo and screen\<close>

definition echo :: "bytes \<Rightarrow> readline \<Rightarrow> readline" where
  "echo cs st = (if echo_mode st then st\<lparr>console_out := console_out st @ cs\<rparr> else st)"

lemma echo_fields [simp]:
  "console_prompt (echo cs st) = console_prompt st" "tty_buf (echo cs st) = tty_buf st" "tty_len (echo cs st) = tty_len st"
  "tty_cur (echo cs st) = tty_cur st" "tty_changed (echo cs st) = tty_changed st" "histbuf (echo cs st) = histbuf st"
  "hist_end (echo cs st) = hist_end st" "hist_idx (echo cs st) = hist_idx st" "echo_mode (echo cs st) = echo_mode st"
  "tty_mode (echo cs st) = tty_mode st" "tab_count (echo cs st) = tab_count st"
  "console_out (echo cs st) = console_out st @ (if echo_mode st then cs else [])"
  by (simp_all add: echo_def)

lemma echo_echo [simp]: "echo cs (echo ds st) = echo (ds @ cs) st"
  by (simp add: echo_def)

lemma echo_Nil [simp]: "echo [] st = st"
  by (simp add: echo_def)

lemma echo_update [simp]:
  "(echo cs st)\<lparr>tty_cur := n\<rparr> = echo cs (st\<lparr>tty_cur := n\<rparr>)" "(echo cs st)\<lparr>tty_len := n\<rparr> = echo cs (st\<lparr>tty_len := n\<rparr>)"
  "(echo cs st)\<lparr>tty_buf := b\<rparr> = echo cs (st\<lparr>tty_buf := b\<rparr>)" "(echo cs st)\<lparr>tty_changed := x\<rparr> = echo cs (st\<lparr>tty_changed := x\<rparr>)"
  "(echo cs st)\<lparr>tab_count := w\<rparr> = echo cs (st\<lparr>tab_count := w\<rparr>)" "(echo cs st)\<lparr>hist_idx := n\<rparr> = echo cs (st\<lparr>hist_idx := n\<rparr>)"
  by (simp_all add: echo_def)

lemma console_echo: "console_putchar c st = echo [c] st" "console_puts s st = echo s st"
  by (simp_all add: console_putchar_def console_puts_def nk_putc_def nk_puts_def echo_def)

lemma put_times_echo: "put_times n cs st = echo (concat (replicate n cs)) st"
proof -
  have "foldl (\<lambda>st c. console_putchar c st) st ds = echo ds st" for ds
    by (induction ds arbitrary: st) (simp_all add: console_echo)
  then show ?thesis by (simp add: put_times_def)
qed

declare put_range.simps [simp del] next_loop.simps [simp del]

lemma put_range_echo:
  "n \<le> m \<Longrightarrow> m \<le> length (tty_buf st) \<Longrightarrow> put_range n m st = Some (echo (take (m - n) (drop n (tty_buf st))) st)"
proof (induction "m - n" arbitrary: n st)
  case 0
  then show ?case by (simp add: put_range.simps)
next
  case (Suc k)
  then have lt: "n < length (tty_buf st)" "n < m" by auto
  have "put_range (n + 1) m (console_putchar (tty_buf st ! n) st)
      = Some (echo (take (m - (n + 1)) (drop (n + 1) (tty_buf st))) (echo [tty_buf st ! n] st))"
    using Suc.hyps(1) [of "n + 1"] Suc.hyps(2) Suc.prems lt by (simp add: console_echo)
  moreover have "take (m - n) (drop n (tty_buf st)) = tty_buf st ! n # take (m - (n + 1)) (drop (n + 1) (tty_buf st))"
    using lt by (simp add: Cons_nth_drop_Suc [symmetric] take_Suc_conv_app_nth Suc_diff_Suc [symmetric])
  ultimately show ?case using lt by (simp add: put_range.simps [of n] deref_def)
qed

text \<open>What the terminal makes of the characters the editor sends.\<close>

lemma screen_put_back: "screen_put (row, col) 8 = (row, col - 1)"
  by (simp add: screen_put_def)

lemma screen_back: "foldl screen_put (row, col) (replicate n 8) = (row, col - n)"
  by (induction n arbitrary: col) (simp_all add: screen_put_def)

lemma screen_write:
  "\<forall>c\<in>set cs. shown c \<Longrightarrow> foldl screen_put (a @ b, length a) cs = (a @ cs @ drop (length cs) b, length a + length cs)"
proof (induction cs arbitrary: a b)
  case (Cons c cs)
  have "c \<noteq> 7 \<and> c \<noteq> 8 \<and> c \<noteq> 10" using Cons.prems by (auto simp: shown_def)
  then have "screen_put (a @ b, length a) c = ((a @ [c]) @ drop 1 b, length (a @ [c]))"
    by (simp add: screen_put_def)
  then show ?case using Cons.IH [of "a @ [c]" "drop 1 b"] Cons.prems by (simp add: drop_drop)
qed simp

lemma screen_rub: "screen_put (screen_put (screen_put (a @ c # b, Suc (length a)) 8) 32) 8 = (a @ 32 # b, length a)"
  by (simp add: screen_put_def)

lemma screen_erase:
  "foldl screen_put (a @ cs @ b, length a + length cs) (concat (replicate (length cs) [8, 32, 8]))
    = (a @ replicate (length cs) 32 @ b, length a)"
proof (induction cs arbitrary: b rule: rev_induct)
  case (snoc c cs)
  have "concat (replicate (length (cs @ [c])) [8, 32, 8]) = [8, 32, 8] @ concat (replicate (length cs) [8, 32, 8 :: u8])"
    by simp
  then have "foldl screen_put (a @ (cs @ [c]) @ b, length a + length (cs @ [c])) (concat (replicate (length (cs @ [c])) [8, 32, 8]))
      = foldl screen_put (a @ cs @ 32 # b, length a + length cs) (concat (replicate (length cs) [8, 32, 8]))"
    using screen_rub [of "a @ cs" c b] by simp
  then show ?case using snoc.IH [of "32 # b"] by (simp add: replicate_append_same [symmetric])
qed simp

lemma screen_of_append: "screen_of (out @ cs) = foldl screen_put (screen_of out) cs"
  by (simp add: screen_of_def)

lemma screen_of_line: "out = [] \<or> last out = 10 \<Longrightarrow> screen_of out = ([], 0)"
  by (cases out rule: rev_cases) (auto simp: screen_of_def screen_put_def split: prod.split)

text \<open>The echo of each editing step, on a screen that shows the line.\<close>

lemma shows_echo:
  assumes "shows_line scr p (l @ r) (length l)" "\<forall>c\<in>set (p @ l @ r). shown c"
  shows shows_end: "shows_line (foldl screen_put scr r) p (l @ r) (length (l @ r))"
    and shows_beg: "shows_line (foldl screen_put scr (replicate (length l) 8)) p (l @ r) 0"
    and shows_insert: "shown c \<Longrightarrow> shows_line (foldl screen_put scr (c # r @ replicate (length r) 8)) p (l @ c # r) (length l + 1)"
    and shows_erase: "shows_line (foldl screen_put scr (r @ concat (replicate (length (l @ r)) [8, 32, 8]))) p [] 0"
    and shows_delete: "r = c # r' \<Longrightarrow> shows_line (foldl screen_put scr (r' @ [32, 8] @ replicate (length r') 8)) p (l @ r') (length l)"
    and shows_back: "l = l' @ [c] \<Longrightarrow> shows_line (screen_put scr 8) p (l @ r) (length l')"
    and shows_forth: "r = c # r' \<Longrightarrow> shows_line (screen_put scr c) p (l @ r) (length l + 1)"
    and shows_bell: "shows_line (screen_put scr 7) p (l @ r) (length l)"
proof -
  obtain k where scr: "scr = ((p @ l) @ r @ replicate k 32, length (p @ l))"
    using assms(1) by (auto simp: shows_line_def)
  have w: "foldl screen_put scr cs = ((p @ l) @ cs @ drop (length cs) (r @ replicate k 32), length (p @ l) + length cs)"
    if "\<forall>c\<in>set cs. shown c" for cs
    unfolding scr using screen_write [OF that, of "p @ l"] by simp
  have wr: "foldl screen_put scr r = ((p @ l @ r) @ replicate k 32, length (p @ l @ r))"
    using w [of r] assms(2) by simp
  then show "shows_line (foldl screen_put scr r) p (l @ r) (length (l @ r))"
    unfolding shows_line_def by (intro exI [of _ k]) simp
  show "shows_line (foldl screen_put scr (replicate (length l) 8)) p (l @ r) 0"
    unfolding shows_line_def scr screen_back by (intro exI [of _ k]) simp
  show "shows_line (foldl screen_put scr (c # r @ replicate (length r) 8)) p (l @ c # r) (length l + 1)" if "shown c"
  proof -
    have "foldl screen_put scr (c # r) = ((p @ l) @ (c # r) @ drop (length r + 1) (r @ replicate k 32), length (p @ l) + (length r + 1))"
      using w [of "c # r"] that assms(2) by simp
    moreover have "drop (length r + 1) (r @ replicate k 32) = replicate (k - 1) 32" by simp
    ultimately have "foldl screen_put scr (c # r @ replicate (length r) 8) = (p @ (l @ c # r) @ replicate (k - 1) 32, length p + (length l + 1))"
      using foldl_append [of screen_put scr "c # r" "replicate (length r) 8"] by (simp add: screen_back)
    then show ?thesis unfolding shows_line_def by (intro exI [of _ "k - 1"])
  qed
  show "shows_line (foldl screen_put scr (r @ concat (replicate (length (l @ r)) [8, 32, 8]))) p [] 0"
    using screen_erase [of p "l @ r" "replicate k 32"] unfolding shows_line_def foldl_append wr
    by (intro exI [of _ "length (l @ r) + k"]) (simp add: replicate_add)
  show "shows_line (foldl screen_put scr (r' @ [32, 8] @ replicate (length r') 8)) p (l @ r') (length l)" if r: "r = c # r'"
  proof -
    have "shown 32" by (simp add: shown_def)
    then have "foldl screen_put scr (r' @ [32]) = ((p @ l) @ (r' @ [32]) @ drop (length (r' @ [32])) (r @ replicate k 32), length (p @ l) + length (r' @ [32]))"
      using w [of "r' @ [32]"] assms(2) r by auto
    then have "foldl screen_put scr (r' @ [32]) = (p @ (l @ r') @ replicate (Suc k) 32, length (p @ l) + length r' + 1)"
      using r by simp
    then have "foldl screen_put scr (r' @ [32, 8] @ replicate (length r') 8) = (p @ (l @ r') @ replicate (Suc k) 32, length p + length l)"
      by (simp add: screen_put_back screen_back)
    then show ?thesis unfolding shows_line_def by (intro exI [of _ "Suc k"])
  qed
  show "shows_line (screen_put scr 8) p (l @ r) (length l')" if "l = l' @ [c]"
    unfolding shows_line_def scr using that by (intro exI [of _ k]) (simp add: screen_put_def)
  show "shows_line (screen_put scr c) p (l @ r) (length l + 1)" if "r = c # r'"
  proof -
    have "shown c" using assms(2) that by simp
    then show ?thesis using w [of "[c]"] that unfolding shows_line_def by (intro exI [of _ k]) simp
  qed
  show "shows_line (screen_put scr 7) p (l @ r) (length l)"
    unfolding shows_line_def scr by (intro exI [of _ k]) (simp add: screen_put_def)
qed

section \<open>The history buffer as a list of lines\<close>

lemma hist_bytes_simps [simp]:
  "hist_bytes [] = []" "hist_bytes (l # ls) = l @ 0 # hist_bytes ls" "hist_bytes (ls @ ms) = hist_bytes ls @ hist_bytes ms"
  by (simp_all add: hist_bytes_def)

lemma hist_bytes_ends: "ls \<noteq> [] \<Longrightarrow> hist_bytes ls \<noteq> [] \<and> last (hist_bytes ls) = 0"
  by (induction ls rule: rev_induct) auto

lemma cstring_at: "0 \<notin> set l \<Longrightarrow> i = length a \<Longrightarrow> cstring (a @ l @ 0 # b) i = Some l"
  by (auto simp: cstring_def takeWhile_tail)

lemma prev_loop_line:
  assumes "a = [] \<or> last a = 0" "0 \<notin> set l"
  shows "prev_loop (a @ l @ x # b) (Suc (length a + length l)) = Some (length a)"
  using assms(2)
proof (induction l arbitrary: x b rule: rev_induct)
  case Nil
  show ?case
  proof (cases "a = []")
    case False
    then have "deref (a @ x # b) (length a - 1) = Some 0"
      using assms(1) by (cases a rule: rev_cases) (auto simp: deref_def nth_append)
    then show ?thesis using False by simp
  qed simp
next
  case (snoc c l)
  have "deref (a @ (l @ [c]) @ x # b) (length a + length l) = Some c"
    by (simp add: deref_def nth_append)
  then show ?case using snoc.IH [of c "x # b"] snoc.prems by simp
qed

lemma next_loop_line: "0 \<notin> set l \<Longrightarrow> next_loop (a @ l @ 0 # b) (length a) = Some (length a + length l)"
proof (induction l arbitrary: a)
  case Nil
  show ?case by (simp add: next_loop.simps [of _ "length a"] deref_def)
next
  case (Cons c l)
  have "next_loop ((a @ [c]) @ l @ 0 # b) (length (a @ [c])) = Some (length (a @ [c]) + length l)"
    using Cons.prems by (intro Cons.IH) simp
  then show ?case using Cons.prems by (simp add: next_loop.simps [of _ "length a"] deref_def)
qed

definition hist_st :: "readline \<Rightarrow> bytes list \<Rightarrow> bytes list \<Rightarrow> bool" where
  "hist_st st us ds \<longleftrightarrow> length (histbuf st) = NKREADLINE_HIST_SIZE \<and> hist_end st = length (hist_bytes (us @ ds))
     \<and> take (hist_end st) (histbuf st) = hist_bytes (us @ ds) \<and> hist_idx st = length (hist_bytes us)"

lemma hist_in_st: "hist_in st e \<longleftrightarrow> hist_st st (e_above e) (e_below e)"
  by (simp add: hist_in_def hist_st_def)

lemma hist_stE:
  assumes "hist_st st us ds"
  obtains rest where "histbuf st = hist_bytes us @ hist_bytes ds @ rest" "hist_end st = length (hist_bytes us) + length (hist_bytes ds)"
    "hist_idx st = length (hist_bytes us)" "length (hist_bytes us) + length (hist_bytes ds) + length rest = NKREADLINE_HIST_SIZE"
proof -
  have h: "length (histbuf st) = NKREADLINE_HIST_SIZE" "hist_end st = length (hist_bytes us) + length (hist_bytes ds)"
    "take (hist_end st) (histbuf st) = hist_bytes us @ hist_bytes ds" "hist_idx st = length (hist_bytes us)"
    using assms by (auto simp: hist_st_def)
  have b: "histbuf st = hist_bytes us @ hist_bytes ds @ drop (hist_end st) (histbuf st)"
    using append_take_drop_id [of "hist_end st" "histbuf st"] unfolding h(3) by simp
  have "length (hist_bytes us) + length (hist_bytes ds) \<le> NKREADLINE_HIST_SIZE"
    using arg_cong [OF h(3), of length] h(1,2) by simp
  then show ?thesis using that [OF b h(2,4)] h(1,2) by simp
qed

lemma hist_stI:
  "histbuf st = hist_bytes us @ hist_bytes ds @ rest \<Longrightarrow> hist_end st = length (hist_bytes us) + length (hist_bytes ds)
   \<Longrightarrow> hist_idx st = length (hist_bytes us) \<Longrightarrow> length (histbuf st) = NKREADLINE_HIST_SIZE \<Longrightarrow> hist_st st us ds"
  by (simp add: hist_st_def)

lemma memmove_down:
  assumes "i = length a" "j = length a + length b" "n = length c"
  shows "memmove (a @ b @ c @ d) i j n = Some (a @ c @ drop (length c) (b @ c @ d))"
  using assms by (simp add: memmove_def load_from_def store_at_def)

lemma hist_at_end: "hist_st st us ds \<Longrightarrow> hist_idx st = hist_end st \<longleftrightarrow> ds = []"
  by (cases ds) (auto simp: hist_st_def)

lemma hist_at_start: "hist_st st us ds \<Longrightarrow> hist_idx st = 0 \<longleftrightarrow> us = []"
  using hist_bytes_ends by (auto simp: hist_st_def)

lemma hist_line: "hist_st st us (l # ds) \<Longrightarrow> 0 \<notin> set l \<Longrightarrow> cstring (histbuf st) (hist_idx st) = Some l"
  by (elim hist_stE) (simp add: cstring_at [of l _ "hist_bytes us", simplified])

lemma hist_prev_ok:
  assumes "hist_st st (us @ [l]) ds" "0 \<notin> set l"
  shows "hist_prev st = Some (Some (length (hist_bytes us)), st\<lparr>hist_idx := length (hist_bytes us)\<rparr>)"
    and "hist_st (st\<lparr>hist_idx := length (hist_bytes us)\<rparr>) us (l # ds)"
proof -
  have "us = [] \<or> last (hist_bytes us) = 0" using hist_bytes_ends by blast
  then have "hist_bytes us = [] \<or> last (hist_bytes us) = 0" by auto
  then show "hist_prev st = Some (Some (length (hist_bytes us)), st\<lparr>hist_idx := length (hist_bytes us)\<rparr>)"
    using assms prev_loop_line [of "hist_bytes us" l 0] by (elim hist_stE) (simp add: hist_prev_def)
qed (use assms(1) in \<open>auto simp: hist_st_def\<close>)

lemma hist_next_ok:
  assumes "hist_st st us (l # ds)" "0 \<notin> set l"
  shows "\<exists>p. hist_next st = Some (p, st\<lparr>hist_idx := length (hist_bytes (us @ [l]))\<rparr>)"
    and "hist_st (st\<lparr>hist_idx := length (hist_bytes (us @ [l]))\<rparr>) (us @ [l]) ds"
proof -
  show "\<exists>p. hist_next st = Some (p, st\<lparr>hist_idx := length (hist_bytes (us @ [l]))\<rparr>)"
    using assms next_loop_line [of l "hist_bytes us"] hist_at_end [OF assms(1)] by (elim hist_stE) (simp add: hist_next_def)
qed (use assms(1) in \<open>auto simp: hist_st_def\<close>)

lemma hist_next_end: "hist_st st us [] \<Longrightarrow> hist_next st = Some (None, st)"
  using hist_at_end [of st us "[]"] by (simp add: hist_next_def)

lemma hist_del_ok:
  assumes "hist_st st us (l # ds)" "0 \<notin> set l"
  obtains h where "hist_del st = Some (length l + 1, st\<lparr>histbuf := h, hist_end := length (hist_bytes (us @ ds))\<rparr>)"
    "hist_st (st\<lparr>histbuf := h, hist_end := length (hist_bytes (us @ ds))\<rparr>) us ds"
proof -
  let ?u = "hist_bytes us" and ?d = "hist_bytes ds"
  obtain rest where h: "histbuf st = ?u @ hist_bytes (l # ds) @ rest" "hist_end st = length ?u + length (hist_bytes (l # ds))"
    "hist_idx st = length ?u" "length ?u + length (hist_bytes (l # ds)) + length rest = NKREADLINE_HIST_SIZE"
    using assms(1) by (rule hist_stE)
  let ?h = "?u @ ?d @ drop (length ?d) (l @ 0 # ?d @ rest)"
  have m: "memmove (histbuf st) (length ?u) (length ?u + (length l + 1)) (length ?d) = Some ?h"
    using memmove_down [of "length ?u" ?u "length ?u + (length l + 1)" "l @ [0]" "length ?d" ?d rest] h(1) by simp
  have n: "minus_size (hist_end st) (hist_idx st + (length l + 1)) = Some (length ?d)"
    "minus_size (hist_end st) (length l + 1) = Some (length (hist_bytes (us @ ds)))"
    using h(2,3) by (simp_all add: minus_size_def)
  have "ds = [] \<Longrightarrow> ?h = histbuf st" using h(1) by simp
  then have "hist_del st = Some (length l + 1, st\<lparr>histbuf := ?h, hist_end := length (hist_bytes (us @ ds))\<rparr>)"
    using m n hist_line [OF assms] hist_at_end [OF assms(1)] h(3) hist_bytes_ends [of ds] unfolding hist_del_def Let_def by (cases "ds = []") (simp_all add: h(2,3))
  moreover have "hist_st (st\<lparr>histbuf := ?h, hist_end := length (hist_bytes (us @ ds))\<rparr>) us ds"
    using h by (intro hist_stI [where rest = "drop (length ?d) (l @ 0 # ?d @ rest)"]) simp_all
  ultimately show ?thesis by (rule that)
qed

lemma forget_fits:
  "forget n us ds = (us', ds') \<Longrightarrow> n \<le> NKREADLINE_HIST_SIZE \<Longrightarrow>
   n + length (hist_bytes (us' @ ds')) \<le> NKREADLINE_HIST_SIZE \<and> set us' \<subseteq> set us \<and> set ds' \<subseteq> set ds"
proof (induction n us ds rule: forget.induct)
  case (1 n us ds)
  show ?case
  proof (cases "n + length (hist_bytes (us @ ds)) > NKREADLINE_HIST_SIZE")
    case True
    show ?thesis
    proof (cases us)
      case Nil
      show ?thesis
      proof (cases ds)
        case (Cons d ds0)
        then have "forget n [] ds0 = (us', ds')" using True Nil "1.prems"(1) by (subst (asm) forget.simps) simp
        then show ?thesis using "1.IH"(1) [OF True Nil Cons] "1.prems"(2) Cons Nil by auto
      qed (use True Nil "1.prems"(2) in simp)
    next
      case (Cons u us0)
      then have "forget n us0 ds = (us', ds')" using True "1.prems"(1) by (subst (asm) forget.simps) simp
      then show ?thesis using "1.IH"(2) [OF True Cons] "1.prems"(2) Cons by auto
    qed
  next
    case False
    then have "us' = us" "ds' = ds" using "1.prems"(1) by (subst (asm) forget.simps, simp)+
    then show ?thesis using False by simp
  qed
qed

lemma make_room_ok:
  assumes "hist_st st [] (us @ ds)" "n \<le> NKREADLINE_HIST_SIZE" "\<forall>l\<in>set (us @ ds). 0 \<notin> set l"
  shows "\<exists>us' ds' h e. forget n us ds = (us', ds') \<and>
    make_room n (length (hist_bytes us)) st = Some (length (hist_bytes us'), st\<lparr>histbuf := h, hist_end := e\<rparr>)
    \<and> hist_st (st\<lparr>histbuf := h, hist_end := e\<rparr>) [] (us' @ ds')"
  using assms
proof (induction n us ds arbitrary: st rule: forget.induct)
  case (1 n us ds)
  have e: "hist_end st = length (hist_bytes (us @ ds))" using "1.prems"(1) by (simp add: hist_st_def)
  have step: "\<exists>us' ds' h e. forget n us0 ds0 = (us', ds') \<and>
      make_room n (length (hist_bytes us)) st = Some (length (hist_bytes us'), st\<lparr>histbuf := h, hist_end := e\<rparr>)
      \<and> hist_st (st\<lparr>histbuf := h, hist_end := e\<rparr>) [] (us' @ ds')"
    if full: "NKREADLINE_HIST_SIZE < n + length (hist_bytes (us @ ds))"
      and l: "us @ ds = l # us0 @ ds0"
      and tmp: "(if length (hist_bytes us) \<noteq> 0 then minus_size (length (hist_bytes us)) (length l + 1) else Some (length (hist_bytes us)))
        = Some (length (hist_bytes us0))"
      and IH: "\<And>st. hist_st st [] (us0 @ ds0) \<Longrightarrow> \<exists>us' ds' h e. forget n us0 ds0 = (us', ds') \<and>
        make_room n (length (hist_bytes us0)) st = Some (length (hist_bytes us'), st\<lparr>histbuf := h, hist_end := e\<rparr>)
        \<and> hist_st (st\<lparr>histbuf := h, hist_end := e\<rparr>) [] (us' @ ds')"
    for l us0 ds0
  proof -
    have "hist_st st [] (l # us0 @ ds0)" "0 \<notin> set l" using "1.prems"(1,3) l by auto
    from hist_del_ok [OF this] obtain h where h: "hist_del st = Some (length l + 1, st\<lparr>histbuf := h, hist_end := length (hist_bytes (us0 @ ds0))\<rparr>)"
      "hist_st (st\<lparr>histbuf := h, hist_end := length (hist_bytes (us0 @ ds0))\<rparr>) [] (us0 @ ds0)"
      by auto
    have "make_room n (length (hist_bytes us)) st = make_room n (length (hist_bytes us0)) (st\<lparr>histbuf := h, hist_end := length (hist_bytes (us0 @ ds0))\<rparr>)"
      using full e h(1) tmp by (subst make_room.simps) (cases "hist_bytes us = []"; simp)
    then show ?thesis using IH [OF h(2)] by auto
  qed
  show ?case
  proof (cases "NKREADLINE_HIST_SIZE < n + length (hist_bytes (us @ ds))")
    case False
    then have "make_room n (length (hist_bytes us)) st = Some (length (hist_bytes us), st\<lparr>histbuf := histbuf st, hist_end := hist_end st\<rparr>)"
      using e by (subst make_room.simps) simp
    moreover have "forget n us ds = (us, ds)" using False by (subst forget.simps) simp
    moreover have "st\<lparr>histbuf := histbuf st, hist_end := hist_end st\<rparr> = st" by simp
    ultimately show ?thesis using "1.prems"(1) by metis
  next
    case True
    show ?thesis
    proof (cases us)
      case (Cons l us0)
      have "forget n us ds = forget n us0 ds" using True Cons by (subst forget.simps) simp
      then show ?thesis
        using step [OF True, of l us0 ds] "1.IH"(2) [OF True Cons] "1.prems"(2,3) Cons by (simp add: minus_size_def)
    next
      case Nil
      then obtain d ds0 where ds: "ds = d # ds0" using True "1.prems"(2) by (cases ds) auto
      have "forget n us ds = forget n [] ds0" using True Nil ds by (subst forget.simps) simp
      then show ?thesis
        using step [OF True, of d "[]" ds0] "1.IH"(1) [OF True Nil ds] "1.prems"(2,3) Nil ds by simp
    qed
  qed
qed

lemma hist_ins_ok:
  assumes "hist_st st us ds" "\<forall>l\<in>set (us @ ds). 0 \<notin> set l" "tty_buf st = s @ 0 # b" "0 \<notin> set s" "length s < NKREADLINE_HIST_SIZE"
  obtains us' ds' h e i where "forget (length s + 1) us ds = (us', ds')"
    "hist_ins st = Some (st\<lparr>histbuf := h, hist_end := e, hist_idx := i\<rparr>)"
    "hist_st (st\<lparr>histbuf := h, hist_end := e, hist_idx := i\<rparr>) us' (s # ds')"
proof -
  have "hist_st (st\<lparr>hist_idx := 0\<rparr>) [] (us @ ds)" "length s + 1 \<le> NKREADLINE_HIST_SIZE"
    using assms(1,5) by (auto simp: hist_st_def)
  from make_room_ok [OF this assms(2)] obtain us' ds' h e where r: "forget (length s + 1) us ds = (us', ds')"
    "make_room (length s + 1) (length (hist_bytes us)) (st\<lparr>hist_idx := 0\<rparr>) = Some (length (hist_bytes us'), st\<lparr>hist_idx := 0, histbuf := h, hist_end := e\<rparr>)"
    "hist_st (st\<lparr>hist_idx := 0, histbuf := h, hist_end := e\<rparr>) [] (us' @ ds')" by auto
  let ?u = "hist_bytes us'" and ?d = "hist_bytes ds'"
  have fit: "length s + 1 + length ?u + length ?d \<le> NKREADLINE_HIST_SIZE"
    using forget_fits [OF r(1)] assms(5) by simp
  from r(3) obtain rest where h: "h = ?u @ ?d @ rest" "e = length ?u + length ?d" "length ?u + length ?d + length rest = NKREADLINE_HIST_SIZE"
    by (auto elim: hist_stE)
  have s: "cstring (tty_buf st) 0 = Some s" using cstring_at [of s 0 "[]" b] assms(3,4) by simp
  define junk where "junk = take (length s + 1) (?d @ rest)"
  define rest' where "rest' = drop (length s + 1 + length ?d) (?d @ rest)"
  have j: "length junk = length s + 1" using fit h(3) by (simp add: junk_def)
  have mv: "(if length ?u \<noteq> e then do { n \<leftarrow> minus_size e (length ?u); memmove h (length ?u + (length s + 1)) (length ?u) n } else Some h)
      = Some (?u @ junk @ (if length ?u \<noteq> e then ?d @ rest' else drop (length s + 1) rest))"
  proof (cases "length ?u = e")
    case True
    then show ?thesis using h(1,2) by (simp add: junk_def)
  next
    case False
    then have "take (length ?d) (drop (length ?u) h) = ?d" "length ?u + (length s + 1) + length ?d \<le> length h"
      using h fit by simp_all
    then show ?thesis
      using False h by (simp add: minus_size_def memmove_def load_from_def store_at_def junk_def rest'_def add.commute)
  qed
  let ?h = "?u @ (s @ [0]) @ (if length ?u \<noteq> e then ?d @ rest' else drop (length s + 1) rest)"
  have st: "store_at (?u @ junk @ x) (length ?u) (s @ [0]) = Some (?u @ (s @ [0]) @ x)" for x
    using j by (simp add: store_at_def)
  have ld: "load_from (tty_buf st) 0 (length s + 1) = Some (s @ [0])" using assms(3) by (simp add: load_from_def)
  have "hist_idx st = length (hist_bytes us)" using assms(1) by (simp add: hist_st_def)
  then have "hist_ins st = do {
      h \<leftarrow> (if length ?u \<noteq> e then do { n \<leftarrow> minus_size e (length ?u); memmove h (length ?u + (length s + 1)) (length ?u) n } else Some h);
      line \<leftarrow> load_from (tty_buf st) 0 (length s + 1);
      h \<leftarrow> store_at h (length ?u) line;
      Some (st\<lparr>hist_idx := length ?u, histbuf := h, hist_end := e + (length s + 1)\<rparr>)
    }"
    using s r(2) by (simp add: hist_ins_def Let_def)
  then have "hist_ins st = Some (st\<lparr>histbuf := ?h, hist_end := e + (length s + 1), hist_idx := length ?u\<rparr>)"
    unfolding mv ld by (simp add: st [simplified])
  moreover have "hist_st (st\<lparr>histbuf := ?h, hist_end := e + (length s + 1), hist_idx := length ?u\<rparr>) us' (s # ds')"
  proof (cases "length ?u = e")
    case True
    then have "ds' = []" using h(2) hist_bytes_ends by auto
    then show ?thesis using h fit by (intro hist_stI [where rest = "drop (length s + 1) rest"]) auto
  next
    case False
    then show ?thesis using h fit by (intro hist_stI [where rest = rest']) (auto simp: rest'_def)
  qed
  ultimately show ?thesis using r(1) that by blast
qed

section \<open>Each operation edits the line\<close>

definition holds :: "readline \<Rightarrow> editor \<Rightarrow> bool" where
  "holds st e \<longleftrightarrow> e_ok e \<and> same_keys st e \<and> line_in st e \<and> hist_in st e"

lemma edits_holds: "edits st e \<longleftrightarrow> holds st e \<and> screen_in st"
  by (auto simp: edits_def holds_def)

lemma line_ok_0: "line_ok l \<Longrightarrow> 0 \<notin> set l"
  by (auto simp: line_ok_def shown_def)

lemma e_ok_0: "e_ok e \<Longrightarrow> 0 \<notin> set (e_line e) \<and> (\<forall>l\<in>set (e_above e @ e_below e). 0 \<notin> set l)"
  by (auto simp: e_ok_def line_ok_0)

lemma line_inE:
  assumes "line_in st e"
  obtains b where "tty_buf st = e_left e @ e_right e @ b" "length (e_left e) + length (e_right e) + length b = NKREADLINE_LINE_SIZE"
    "tty_len st = length (e_left e) + length (e_right e)" "tty_cur st = length (e_left e)"
proof -
  have "take (tty_len st) (tty_buf st) = e_left e @ e_right e" using assms by (auto simp: line_in_def e_line_def)
  then have "tty_buf st = e_left e @ e_right e @ drop (tty_len st) (tty_buf st)"
    by (metis append.assoc append_take_drop_id)
  moreover from arg_cong [OF this, of length]
  have "length (e_left e) + length (e_right e) + length (drop (tty_len st) (tty_buf st)) = NKREADLINE_LINE_SIZE"
    using assms by (simp add: line_in_def)
  ultimately show ?thesis using assms by (intro that) (auto simp: line_in_def e_line_def)
qed

lemma holds_room: "holds st e \<Longrightarrow> length (e_left e) + length (e_right e) < NKREADLINE_LINE_SIZE"
  by (auto simp: holds_def e_ok_def line_ok_def e_line_def)

lemma edits_line:
  assumes "edits st e" "e' = e\<lparr>e_left := l, e_right := r, e_changed := ch\<rparr>" "line_ok (l @ r)"
    and "length buf = NKREADLINE_LINE_SIZE" "take (length (l @ r)) buf = l @ r"
    and "\<And>scr p. \<forall>c\<in>set (p @ e_left e @ e_right e). shown c \<Longrightarrow> shows_line scr p (e_left e @ e_right e) (length (e_left e)) \<Longrightarrow>
      shows_line (foldl screen_put scr cs) p (l @ r) (length l)"
  shows "edits (echo cs (st\<lparr>tty_buf := buf, tty_len := length (l @ r), tty_cur := length l, tty_changed := ch\<rparr>)) e'"
proof -
  have h: "e_ok e" "same_keys st e" "line_in st e" "hist_in st e" "screen_in st" using assms(1) by (auto simp: edits_def)
  have line: "take (tty_len st) (tty_buf st) = e_left e @ e_right e" "tty_cur st = length (e_left e)"
    using h(3) by (auto simp: line_in_def e_line_def)
  have shown: "\<forall>c\<in>set (console_prompt st @ e_left e @ e_right e). shown c"
    using h(1,5) by (auto simp: e_ok_def line_ok_def e_line_def screen_in_def)
  have "echo_mode st \<Longrightarrow> shows_line (foldl screen_put (screen_of (console_out st)) cs) (console_prompt st) (l @ r) (length l)"
    using assms(6) [OF shown] h(5) line by (simp add: screen_in_def)
  then have "screen_in (echo cs (st\<lparr>tty_buf := buf, tty_len := length (l @ r), tty_cur := length l, tty_changed := ch\<rparr>))"
    using assms(5) h(5) by (simp add: screen_in_def screen_of_append)
  moreover have "hist_in (echo cs (st\<lparr>tty_buf := buf, tty_len := length (l @ r), tty_cur := length l, tty_changed := ch\<rparr>)) e'"
    using h(4) assms(2) by (auto simp: hist_in_def)
  ultimately show ?thesis
    using h(1,2) assms(2-5) unfolding edits_def
    by (simp add: e_ok_def e_line_def same_keys_def line_in_def)
qed

lemma edits_echo:
  assumes "edits st e" "shown c \<or> c = 7"
    and "\<And>scr p. \<forall>c\<in>set (p @ e_left e @ e_right e). shown c \<Longrightarrow> shows_line scr p (e_left e @ e_right e) (length (e_left e)) \<Longrightarrow>
      shows_line (foldl screen_put scr cs) p (e_left e @ e_right e) (length (e_left e))"
  shows "edits (echo cs st) e"
proof -
  have l: "line_in st e" "line_ok (e_left e @ e_right e)" "same_keys st e"
    using assms(1) by (auto simp: edits_def e_ok_def e_line_def)
  have "edits (echo cs (st\<lparr>tty_buf := tty_buf st, tty_len := length (e_left e @ e_right e), tty_cur := length (e_left e), tty_changed := tty_changed st\<rparr>)) e"
    by (rule edits_line [OF assms(1)]) (use l assms(3) in \<open>auto simp: line_in_def e_line_def same_keys_def\<close>)
  moreover have "st\<lparr>tty_buf := tty_buf st, tty_len := length (e_left e @ e_right e), tty_cur := length (e_left e), tty_changed := tty_changed st\<rparr> = st"
    using l(1) by (simp add: line_in_def e_line_def)
  ultimately show ?thesis by simp
qed

lemma bell_ok: "edits st e \<Longrightarrow> edits (console_putchar 7 st) e"
  unfolding console_echo by (rule edits_echo) (auto dest: shows_bell)

lemma edits_keeps: "edits st e \<Longrightarrow> line_in st e" "edits st e \<Longrightarrow> holds st e" "edits st e \<Longrightarrow> line_ok (e_left e @ e_right e)"
  "edits st e \<Longrightarrow> length (e_left e) + length (e_right e) < NKREADLINE_LINE_SIZE" "edits st e \<Longrightarrow> same_keys st e"
  using holds_room by (auto simp: edits_def holds_def e_ok_def e_line_def)

text \<open>The steps that only move the cursor keep the buffer and the flag.\<close>

lemma edits_move:
  assumes "edits st e" "l @ r = e_left e @ e_right e"
    and "\<And>scr p. \<forall>c\<in>set (p @ e_left e @ e_right e). shown c \<Longrightarrow> shows_line scr p (e_left e @ e_right e) (length (e_left e)) \<Longrightarrow>
      shows_line (foldl screen_put scr cs) p (l @ r) (length l)"
  shows "edits (echo cs (st\<lparr>tty_cur := length l\<rparr>)) (e\<lparr>e_left := l, e_right := r\<rparr>)"
proof -
  note k = edits_keeps [OF assms(1)]
  have "edits (echo cs (st\<lparr>tty_buf := tty_buf st, tty_len := length (l @ r), tty_cur := length l, tty_changed := e_changed e\<rparr>)) (e\<lparr>e_left := l, e_right := r\<rparr>)"
    by (rule edits_line [OF assms(1)]) (use k assms(2,3) in \<open>auto simp: line_in_def e_line_def\<close>)
  moreover have "st\<lparr>tty_buf := tty_buf st, tty_len := length (l @ r), tty_cur := length l, tty_changed := e_changed e\<rparr> = st\<lparr>tty_cur := length l\<rparr>"
    using k(1,5) assms(2) by (simp add: line_in_def e_line_def same_keys_def)
  ultimately show ?thesis by simp
qed

lemma to_end_ok: "edits st e \<Longrightarrow> \<exists>st'. to_end st = Some st' \<and> edits st' (e_end e)"
proof -
  assume e: "edits st e"
  obtain b where b: "tty_buf st = e_left e @ e_right e @ b" "tty_len st = length (e_left e) + length (e_right e)" "tty_cur st = length (e_left e)"
    using line_inE edits_keeps(1) [OF e] by metis
  have "put_range (tty_cur st) (tty_len st) st = Some (echo (e_right e) st)"
    using put_range_echo [of "tty_cur st" "tty_len st" st] b by simp
  then have "to_end st = Some (echo (e_right e) (st\<lparr>tty_cur := length (e_left e @ e_right e)\<rparr>))"
    using b by (simp add: to_end_def)
  moreover have "edits (echo (e_right e) (st\<lparr>tty_cur := length (e_left e @ e_right e)\<rparr>)) (e\<lparr>e_left := e_left e @ e_right e, e_right := []\<rparr>)"
    by (rule edits_move [OF e]) (use shows_end in auto)
  ultimately show ?thesis by (auto simp: e_end_def e_line_def)
qed

lemma to_beg_ok: "edits st e \<Longrightarrow> edits (to_beg st) (e_beg e)"
proof -
  assume e: "edits st e"
  have c: "tty_cur st = length (e_left e)" using edits_keeps(1) [OF e] by (simp add: line_in_def)
  have "edits (echo (replicate (length (e_left e)) 8) (st\<lparr>tty_cur := length ([] :: bytes)\<rparr>)) (e\<lparr>e_left := [], e_right := e_left e @ e_right e\<rparr>)"
    by (rule edits_move [OF e]) (use shows_beg in auto)
  moreover have "to_beg st = echo (replicate (length (e_left e)) 8) (st\<lparr>tty_cur := length ([] :: bytes)\<rparr>)"
    by (simp add: to_beg_def put_times_echo c concat_replicate_single)
  ultimately show ?thesis by (simp add: e_beg_def e_line_def)
qed

lemma cur_left_ok: "edits st e \<Longrightarrow> edits (cur_left st) (e_back e)"
proof -
  assume e: "edits st e"
  have c: "tty_cur st = length (e_left e)" using edits_keeps(1) [OF e] by (simp add: line_in_def)
  show ?thesis
  proof (cases "e_left e" rule: rev_cases)
    case Nil
    then show ?thesis using e c by (simp add: cur_left_def e_back_def)
  next
    case (snoc l ch)
    have "edits (echo [8] (st\<lparr>tty_cur := length l\<rparr>)) (e\<lparr>e_left := l, e_right := ch # e_right e\<rparr>)"
      by (rule edits_move [OF e]) (use shows_back [OF _ _ snoc] snoc in auto)
    then show ?thesis using c snoc by (simp add: cur_left_def e_back_def console_echo)
  qed
qed

lemma cur_right_ok: "edits st e \<Longrightarrow> \<exists>st'. cur_right st = Some st' \<and> edits st' (e_forth e)"
proof -
  assume e: "edits st e"
  obtain b where b: "tty_buf st = e_left e @ e_right e @ b" "tty_len st = length (e_left e) + length (e_right e)" "tty_cur st = length (e_left e)"
    using line_inE edits_keeps(1) [OF e] by metis
  show ?thesis
  proof (cases "e_right e")
    case Nil
    then show ?thesis using e b by (simp add: cur_right_def e_forth_def)
  next
    case (Cons c r)
    have "edits (echo [c] (st\<lparr>tty_cur := length (e_left e @ [c])\<rparr>)) (e\<lparr>e_left := e_left e @ [c], e_right := r\<rparr>)"
      by (rule edits_move [OF e]) (use shows_forth [OF _ _ Cons] Cons in auto)
    then show ?thesis using b Cons by (simp add: cur_right_def e_forth_def console_echo deref_def)
  qed
qed

lemma erase_ok: "edits st e \<Longrightarrow> \<exists>st'. erase_line st = Some st' \<and> edits st' (e_clear e)"
proof -
  assume e: "edits st e"
  note k = edits_keeps [OF e]
  obtain b where b: "tty_buf st = e_left e @ e_right e @ b" "tty_len st = length (e_left e) + length (e_right e)" "tty_cur st = length (e_left e)"
    "length (e_left e) + length (e_right e) + length b = NKREADLINE_LINE_SIZE"
    using line_inE k(1) by metis
  let ?cs = "e_right e @ concat (replicate (length (e_left e @ e_right e)) [8, 32, 8])"
  have "put_range (tty_cur st) (tty_len st) st = Some (echo (e_right e) st)"
    using put_range_echo [of "tty_cur st" "tty_len st" st] b by simp
  then have "erase_line st = Some (echo ?cs (st\<lparr>tty_buf := tty_buf st, tty_len := length ([] @ [] :: bytes), tty_cur := length ([] :: bytes), tty_changed := e_changed e\<rparr>))"
    using b k(5) by (simp add: erase_line_def to_end_def put_times_echo same_keys_def)
  moreover have "edits (echo ?cs (st\<lparr>tty_buf := tty_buf st, tty_len := length ([] @ [] :: bytes), tty_cur := length ([] :: bytes), tty_changed := e_changed e\<rparr>)) (e_clear e)"
    by (rule edits_line [OF e]) (use b shows_erase in \<open>auto simp: e_clear_def line_ok_def NKREADLINE_LINE_SIZE_def\<close>)
  ultimately show ?thesis by blast
qed

lemma shift_up:
  assumes "i = length a" "n = length r"
  shows "\<exists>y. memmove (a @ r @ x # b) (Suc i) i n = Some (a @ y # r @ b)"
proof -
  obtain y where y: "take (Suc (length a)) (a @ r @ x # b) = a @ [y]"
    by (cases r) auto
  show ?thesis using assms y by (intro exI [of _ y]) (simp add: memmove_def load_from_def store_at_def)
qed

lemma typech_ok:
  assumes e: "edits st e" and c: "shown c"
  shows "\<exists>st'. typech c st = Some st' \<and> edits st' (e_type c e)"
proof (cases "length (e_line e) < NKREADLINE_LINE_SIZE - 1")
  case False
  note k = edits_keeps [OF e]
  have "tty_len st = length (e_line e)" using k(1) by (simp add: line_in_def)
  moreover have "length (e_line e) = NKREADLINE_LINE_SIZE - 1" using False k(4) by (simp add: e_line_def)
  ultimately have "typech c st = Some (console_putchar 7 st)" by (simp add: typech_def)
  then show ?thesis using False bell_ok [OF e] by (simp add: e_type_def)
next
  case True
  note k = edits_keeps [OF e]
  let ?l = "e_left e" and ?r = "e_right e"
  obtain b0 where b0: "tty_buf st = ?l @ ?r @ b0" "length ?l + length ?r + length b0 = NKREADLINE_LINE_SIZE"
    "tty_len st = length ?l + length ?r" "tty_cur st = length ?l"
    using line_inE k(1) by metis
  obtain x b where x: "b0 = x # b" using b0(2) True by (cases b0) (auto simp: e_line_def)
  let ?buf = "?l @ c # ?r @ b" and ?cs = "c # ?r @ replicate (length ?r) 8"
  obtain y where y: "(if tty_cur st \<noteq> tty_len st then do { n \<leftarrow> minus_size (tty_len st) (tty_cur st); memmove (tty_buf st) (tty_cur st + 1) (tty_cur st) n }
      else Some (tty_buf st)) = Some (?l @ y # ?r @ b)"
  proof (cases "?r = []")
    case False
    then show ?thesis using shift_up [of "length ?l" ?l "length ?r" ?r x b] b0 x that by (auto simp: minus_size_def)
  qed (use b0 x that in simp)
  have len: "tty_len st \<noteq> NKREADLINE_LINE_SIZE - 1" using True b0(3) by (simp add: e_line_def)
  have store: "store_at (?l @ y # ?r @ b) (length ?l) [c] = Some ?buf" by (simp add: store_at_def)
  have range: "put_range (length ?l) (Suc (length ?l + length ?r)) (st\<lparr>tty_buf := ?buf, tty_len := Suc (length ?l + length ?r)\<rparr>)
      = Some (echo (c # ?r) (st\<lparr>tty_buf := ?buf, tty_len := Suc (length ?l + length ?r)\<rparr>))"
    by (subst put_range_echo) (simp_all add: Suc_diff_le)
  have "typech c st = Some (echo ?cs (st\<lparr>tty_buf := ?buf, tty_len := length ((?l @ [c]) @ ?r), tty_cur := length (?l @ [c]), tty_changed := True\<rparr>))"
    using len store range unfolding typech_def y by (simp add: b0(3,4) minus_size_def put_times_echo concat_replicate_single)
  moreover have "edits (echo ?cs (st\<lparr>tty_buf := ?buf, tty_len := length ((?l @ [c]) @ ?r), tty_cur := length (?l @ [c]), tty_changed := True\<rparr>))
      (e\<lparr>e_left := ?l @ [c], e_right := ?r, e_changed := True\<rparr>)"
  proof (rule edits_line [OF e])
    show "line_ok ((?l @ [c]) @ ?r)" using k(3) c True by (auto simp: line_ok_def e_line_def)
    show "shows_line (foldl screen_put scr ?cs) p ((?l @ [c]) @ ?r) (length (?l @ [c]))"
      if "\<forall>c\<in>set (p @ ?l @ ?r). shown c" "shows_line scr p (?l @ ?r) (length ?l)" for scr p
      using shows_insert [OF that(2,1) c] by simp
  qed (use b0 x in auto)
  ultimately show ?thesis using True by (auto simp: e_type_def)
qed

lemma delch_ok:
  assumes e: "edits st e"
  shows "\<exists>st'. delch st = Some st' \<and> edits st' (e_del e)"
proof (cases "e_right e")
  case Nil
  then have "tty_cur st = tty_len st" using edits_keeps(1) [OF e] by (simp add: line_in_def e_line_def)
  then show ?thesis using e Nil by (simp add: delch_def e_del_def)
next
  case (Cons c r)
  note k = edits_keeps [OF e]
  let ?l = "e_left e"
  obtain b where b: "tty_buf st = ?l @ c # r @ b" "length ?l + length r + length b + 1 = NKREADLINE_LINE_SIZE"
    "tty_len st = length ?l + length r + 1" "tty_cur st = length ?l"
    using line_inE [OF k(1)] Cons by auto
  let ?cs = "r @ [32, 8] @ replicate (length r) 8"
  obtain x where x: "(if tty_cur st + 1 \<noteq> tty_len st then do { n \<leftarrow> minus_size (tty_len st) (tty_cur st + 1); memmove (tty_buf st) (tty_cur st) (tty_cur st + 1) n }
      else Some (tty_buf st)) = Some (?l @ r @ x)" "length x = length b + 1"
  proof (cases "r = []")
    case False
    have "memmove (tty_buf st) (length ?l) (length ?l + 1) (length r) = Some (?l @ r @ drop (length r) (c # r @ b))"
      using memmove_down [of "length ?l" ?l "length ?l + 1" "[c]" "length r" r b] b(1) by simp
    then show ?thesis using False b by (intro that [of "drop (length r) (c # r @ b)"]) (auto simp: minus_size_def Suc_diff_le)
  qed (use b that [of "c # b"] in simp)
  have range: "put_range (length ?l) (length ?l + length r) (st\<lparr>tty_buf := ?l @ r @ x, tty_len := length ?l + length r\<rparr>)
      = Some (echo r (st\<lparr>tty_buf := ?l @ r @ x, tty_len := length ?l + length r\<rparr>))"
    by (subst put_range_echo) simp_all
  have "delch st = Some (echo ?cs (st\<lparr>tty_buf := ?l @ r @ x, tty_len := length (?l @ r), tty_cur := length ?l, tty_changed := True\<rparr>))"
    using range unfolding delch_def x(1) by (simp add: b(3,4) minus_size_def put_times_echo concat_replicate_single console_echo)
  moreover have "edits (echo ?cs (st\<lparr>tty_buf := ?l @ r @ x, tty_len := length (?l @ r), tty_cur := length ?l, tty_changed := True\<rparr>))
      (e\<lparr>e_left := ?l, e_right := r, e_changed := True\<rparr>)"
  proof (rule edits_line [OF e])
    show "line_ok (?l @ r)" using k(3) Cons by (auto simp: line_ok_def)
    show "shows_line (foldl screen_put scr ?cs) p (?l @ r) (length ?l)"
      if "\<forall>c\<in>set (p @ ?l @ e_right e). shown c" "shows_line scr p (?l @ e_right e) (length ?l)" for scr p
      using shows_delete [OF that(2,1) Cons] .
  qed (use b(2) x(2) in auto)
  ultimately show ?thesis using Cons by (auto simp: e_del_def)
qed

section \<open>Each operation keeps the history\<close>

lemma edits_hist:
  assumes "edits st e" "hist_st (st\<lparr>histbuf := h, hist_end := n, hist_idx := i\<rparr>) us ds" "\<forall>l\<in>set (us @ ds). line_ok l"
  shows "edits (st\<lparr>histbuf := h, hist_end := n, hist_idx := i\<rparr>) (e\<lparr>e_above := us, e_below := ds\<rparr>)"
proof -
  obtain rest where "length (hist_bytes us) + length (hist_bytes ds) + length (rest :: bytes) = NKREADLINE_HIST_SIZE"
    using assms(2) by (rule hist_stE)
  then have "length (hist_bytes (us @ ds)) \<le> NKREADLINE_HIST_SIZE" by simp
  moreover have "line_ok (e_line e)" using edits_keeps(3) [OF assms(1)] by (simp add: e_line_def)
  ultimately have "e_ok (e\<lparr>e_above := us, e_below := ds\<rparr>)" using assms(3) by (simp add: e_ok_def e_line_def)
  moreover have "same_keys st e" "line_in st e" "screen_in st" using assms(1) by (simp_all add: edits_def)
  ultimately show ?thesis
    using assms(2) by (auto simp: edits_def e_line_def same_keys_def line_in_def hist_in_st screen_in_def)
qed

lemma edits_hist_st: "edits st e \<Longrightarrow> hist_st st (e_above e) (e_below e)"
  "edits st e \<Longrightarrow> \<forall>l\<in>set (e_above e @ e_below e). line_ok l"
  by (simp_all add: edits_def hist_in_st e_ok_def)

text \<open>A pointer that moves in the history.\<close>

lemma edits_hist_idx:
  assumes "edits st e" "hist_st (st\<lparr>hist_idx := i\<rparr>) us ds" "us @ ds = e_above e @ e_below e"
  shows "edits (st\<lparr>hist_idx := i\<rparr>) (e\<lparr>e_above := us, e_below := ds\<rparr>)"
proof -
  have s: "st\<lparr>histbuf := histbuf st, hist_end := hist_end st, hist_idx := i\<rparr> = st\<lparr>hist_idx := i\<rparr>" by simp
  show ?thesis
    using edits_hist [OF assms(1), where h = "histbuf st" and n = "hist_end st" and i = i and us = us and ds = ds] assms(2,3) edits_hist_st(2) [OF assms(1)] unfolding s by simp
qed

lemma hist_prev_edits:
  assumes "edits st e" "e_above e \<noteq> []"
  shows "\<exists>i st'. hist_prev st = Some (Some i, st') \<and> edits st' (e_prev e)"
proof -
  obtain us l where u: "e_above e = us @ [l]" using assms(2) by (metis rev_exhaust)
  note h = edits_hist_st [OF assms(1), unfolded u]
  have "0 \<notin> set l" using h(2) by (simp add: line_ok_0)
  note p = hist_prev_ok [OF h(1) this]
  from edits_hist_idx [OF assms(1) p(2)] show ?thesis using p(1) u by (auto simp: e_prev_def)
qed

lemma hist_next_edits:
  assumes "edits st e"
  shows "\<exists>p st'. hist_next st = Some (p, st') \<and> edits st' (e_next e)"
proof (cases "e_below e")
  case Nil
  then show ?thesis using assms hist_next_end edits_hist_st(1) [OF assms] by (auto simp: e_next_def)
next
  case (Cons l ds)
  note h = edits_hist_st [OF assms, unfolded Cons]
  have "0 \<notin> set l" using h(2) by (simp add: line_ok_0)
  note p = hist_next_ok [OF h(1) this]
  from edits_hist_idx [OF assms p(2)] show ?thesis using p(1) Cons by (auto simp: e_next_def)
qed

lemma hist_last_edits: "edits st e \<Longrightarrow> edits (st\<lparr>hist_idx := hist_end st\<rparr>) (e_last e)"
proof -
  assume e: "edits st e"
  have "hist_st (st\<lparr>hist_idx := hist_end st\<rparr>) (e_above e @ e_below e) []"
    using edits_hist_st(1) [OF e] by (auto simp: hist_st_def)
  from edits_hist_idx [OF e this] show ?thesis by (simp add: e_last_def)
qed

lemma hist_del_edits:
  assumes "edits st e"
  shows "\<exists>n st'. hist_del st = Some (n, st') \<and> edits st' (e\<lparr>e_below := tl (e_below e)\<rparr>) \<and> tty_buf st' = tty_buf st"
proof (cases "e_below e")
  case Nil
  then have "e\<lparr>e_below := tl (e_below e)\<rparr> = e" by (cases e) simp
  then show ?thesis using assms Nil hist_at_end [OF edits_hist_st(1) [OF assms]] unfolding hist_del_def by metis
next
  case (Cons l ds)
  note h = edits_hist_st [OF assms, unfolded Cons]
  have "0 \<notin> set l" using h(2) by (simp add: line_ok_0)
  from hist_del_ok [OF h(1) this] obtain n buf where d: "hist_del st = Some (n, st\<lparr>histbuf := buf, hist_end := length (hist_bytes (e_above e @ ds))\<rparr>)"
    "hist_st (st\<lparr>histbuf := buf, hist_end := length (hist_bytes (e_above e @ ds))\<rparr>) (e_above e) ds" by metis
  have s: "st\<lparr>histbuf := buf, hist_end := m, hist_idx := hist_idx st\<rparr> = st\<lparr>histbuf := buf, hist_end := m\<rparr>" for m by simp
  have "edits (st\<lparr>histbuf := buf, hist_end := length (hist_bytes (e_above e @ ds))\<rparr>) (e\<lparr>e_above := e_above e, e_below := ds\<rparr>)"
    using edits_hist [OF assms, where h = buf and n = "length (hist_bytes (e_above e @ ds))" and i = "hist_idx st" and us = "e_above e" and ds = ds] d(2) h(2) unfolding s by simp
  then show ?thesis using d(1) Cons by auto
qed

lemma end_line_ok:
  assumes "edits st e"
  shows "\<exists>st' b. end_line st = Some st' \<and> edits st' e \<and> tty_buf st' = e_line e @ 0 # b"
proof -
  note k = edits_keeps [OF assms]
  obtain b0 where b0: "tty_buf st = e_left e @ e_right e @ b0" "length (e_left e) + length (e_right e) + length b0 = NKREADLINE_LINE_SIZE"
    "tty_len st = length (e_left e) + length (e_right e)" "tty_cur st = length (e_left e)"
    using line_inE k(1) by metis
  obtain x b where x: "b0 = x # b" using b0(2) k(4) by (cases b0) auto
  let ?buf = "e_line e @ 0 # b"
  have "end_line st = Some (st\<lparr>tty_buf := ?buf\<rparr>)"
    using b0 x by (simp add: end_line_def store_at_def e_line_def)
  moreover have "edits (echo [] (st\<lparr>tty_buf := ?buf, tty_len := length (e_left e @ e_right e), tty_cur := length (e_left e), tty_changed := e_changed e\<rparr>)) e"
    by (rule edits_line [OF assms]) (use b0 x k(3) in \<open>auto simp: e_line_def\<close>)
  moreover have "st\<lparr>tty_buf := ?buf, tty_len := length (e_left e @ e_right e), tty_cur := length (e_left e), tty_changed := e_changed e\<rparr> = st\<lparr>tty_buf := ?buf\<rparr>"
    using b0(3,4) k(5) by (simp add: same_keys_def)
  ultimately show ?thesis by auto
qed

lemma hist_ins_edits:
  assumes "edits st e" "tty_buf st = e_line e @ 0 # b"
  shows "\<exists>st'. hist_ins st = Some st' \<and> edits st' (e_ins e) \<and> tty_buf st' = tty_buf st"
proof -
  note h = edits_hist_st [OF assms(1)] and k = edits_keeps [OF assms(1)]
  have "\<forall>l\<in>set (e_above e @ e_below e). 0 \<notin> set l" "0 \<notin> set (e_line e)" "length (e_line e) < NKREADLINE_HIST_SIZE"
    using h(2) k(4) line_ok_0 [OF k(3)] by (auto simp: line_ok_0 e_line_def NKREADLINE_LINE_SIZE_def NKREADLINE_HIST_SIZE_def)
  from hist_ins_ok [OF h(1) this(1) assms(2) this(2,3)] obtain us ds buf n i where
    i: "forget (length (e_line e) + 1) (e_above e) (e_below e) = (us, ds)"
    "hist_ins st = Some (st\<lparr>histbuf := buf, hist_end := n, hist_idx := i\<rparr>)"
    "hist_st (st\<lparr>histbuf := buf, hist_end := n, hist_idx := i\<rparr>) us (e_line e # ds)" .
  have "length (e_line e) + 1 \<le> NKREADLINE_HIST_SIZE"
    using k(4) by (simp add: e_line_def NKREADLINE_LINE_SIZE_def NKREADLINE_HIST_SIZE_def)
  then have "set us \<subseteq> set (e_above e)" "set ds \<subseteq> set (e_below e)" using forget_fits [OF i(1)] by simp_all
  then have "\<forall>l\<in>set (us @ e_line e # ds). line_ok l" using h(2) k(3) by (auto simp: e_line_def)
  from edits_hist [OF assms(1) i(3) this] show ?thesis using i(1,2) by (auto simp: e_ins_def)
qed

lemma load_hist_ok:
  assumes "edits st e" "e_line e = []" "e_below e \<noteq> []"
  shows "\<exists>st'. load_hist st = Some st' \<and> edits st' (e_load e)"
proof -
  note h = edits_hist_st [OF assms(1)] and k = edits_keeps [OF assms(1)]
  obtain l ds where ds: "e_below e = l # ds" using assms(3) by (cases "e_below e") auto
  have l: "line_ok l" "0 \<notin> set l" "length l + 1 \<le> NKREADLINE_LINE_SIZE" using h(2) ds by (auto simp: line_ok_0 line_ok_def)
  have c: "cstring (histbuf st) (hist_idx st) = Some l" using hist_line [OF h(1) [unfolded ds] l(2)] .
  obtain b where b: "tty_buf st = b" "length b = NKREADLINE_LINE_SIZE" "tty_len st = 0" "tty_cur st = 0"
    using k(1) assms(2) by (auto simp: line_in_def e_line_def)
  let ?buf = "l @ 0 # drop (length l + 1) b"
  have "store_at b 0 (l @ [0]) = Some ?buf" using l(3) b(2) by (simp add: store_at_def)
  moreover have "cstring ?buf 0 = Some l" using cstring_at [of l 0 "[]"] l(2) by simp
  moreover have "put_range 0 (length l) (st\<lparr>tty_buf := ?buf, tty_len := length l, tty_cur := 0\<rparr>)
      = Some (echo l (st\<lparr>tty_buf := ?buf, tty_len := length l, tty_cur := 0\<rparr>))"
    by (subst put_range_echo) simp_all
  ultimately have "load_hist st = Some (echo l (st\<lparr>tty_buf := ?buf, tty_len := length (l @ []), tty_cur := length l, tty_changed := e_changed e\<rparr>))"
    using c b k(5) by (simp add: load_hist_def type_line_def to_end_def same_keys_def)
  moreover have "edits (echo l (st\<lparr>tty_buf := ?buf, tty_len := length (l @ []), tty_cur := length l, tty_changed := e_changed e\<rparr>))
      (e\<lparr>e_left := l, e_right := [], e_changed := e_changed e\<rparr>)"
  proof (rule edits_line [OF assms(1)])
    show "shows_line (foldl screen_put scr l) p (l @ []) (length l)"
      if "\<forall>c\<in>set (p @ e_left e @ e_right e). shown c" "shows_line scr p (e_left e @ e_right e) (length (e_left e))" for scr p
    proof -
      note scr = that(2)
      obtain n where "scr = (p @ replicate n 32, length p)"
        using scr assms(2) by (auto simp: shows_line_def e_line_def)
      then have "foldl screen_put scr l = (p @ l @ replicate (n - length l) 32, length p + length l)"
        using screen_write [of l p "replicate n 32"] l(1) by (simp add: line_ok_def)
      then show ?thesis by (auto simp: shows_line_def)
    qed
  qed (use l b in auto)
  ultimately show ?thesis using ds by (auto simp: e_load_def)
qed

section \<open>Keys\<close>

lemma edits_flags [intro]:
  "edits st e \<Longrightarrow> edits (st\<lparr>tty_changed := x\<rparr>) (e\<lparr>e_changed := x\<rparr>)"
  "edits st e \<Longrightarrow> edits (st\<lparr>tty_mode := m\<rparr>) (e\<lparr>e_mode := m\<rparr>)"
  "edits st e \<Longrightarrow> edits (st\<lparr>tab_count := n\<rparr>) (e\<lparr>e_tabs := n\<rparr>)"
  by (auto simp: edits_def e_ok_def e_line_def same_keys_def line_in_def hist_in_def screen_in_def)

lemma edits_reads:
  assumes "edits st e"
  shows "hist_idx st = 0 \<longleftrightarrow> e_above e = []" "hist_idx st = hist_end st \<longleftrightarrow> e_below e = []" "tty_len st = 0 \<longleftrightarrow> e_line e = []"
    "tty_changed st = e_changed e" "tty_mode st = e_mode e" "tab_count st = e_tabs e" "tty_cur st = 0 \<longleftrightarrow> e_left e = []"
    "tty_cur st = tty_len st \<longleftrightarrow> e_right e = []" "tty_len st = length (e_line e)"
  using assms hist_at_start [OF edits_hist_st(1) [OF assms]] hist_at_end [OF edits_hist_st(1) [OF assms]]
  by (auto simp: edits_def same_keys_def line_in_def e_line_def)

lemma keep_line_ok:
  assumes "edits st e"
  shows "\<exists>st1 st2. end_line st = Some st1 \<and> hist_ins st1 = Some st2 \<and> edits st2 (e_ins e)"
  using end_line_ok [OF assms] hist_ins_edits by blast

lemma e_line_simps [simp]:
  "e_line (e_clear e) = []" "e_above (e_clear e) = e_above e" "e_below (e_clear e) = e_below e" "e_line (e_ins e) = e_line e"
  "e_line (e_prev e) = e_line e" "e_line (e_next e) = e_line e" "e_line (e_last e) = e_line e" "e_line (e_end e) = e_line e"
  by (auto simp: e_line_def e_clear_def e_ins_def e_prev_def e_next_def e_last_def e_end_def split: prod.splits list.splits)

lemma e_line_update [simp]: "e_line (e\<lparr>e_below := ds\<rparr>) = e_line e" "e_line (e\<lparr>e_above := us\<rparr>) = e_line e"
  by (simp_all add: e_line_def)

lemma hist_up_ok:
  assumes e: "edits st e"
  shows "\<exists>st'. hist_up st = Some st' \<and> edits st' (e_up e)"
proof (cases "e_above e = []")
  case True
  then show ?thesis using edits_reads(1) [OF e] bell_ok [OF e] by (simp add: hist_up_def e_up_def)
next
  case False
  let ?e1 = "if e_line e \<noteq> [] then e_clear (if e_changed e then e_ins e else e) else e"
  obtain st1 where st1: "(if tty_len st \<noteq> 0 then
        (if \<not> tty_changed st then erase_line st else do { st \<leftarrow> end_line st; st \<leftarrow> hist_ins st; erase_line st }) else Some st) = Some st1"
    "edits st1 ?e1"
  proof (cases "e_line e \<noteq> [] \<and> e_changed e")
    case True
    obtain s1 s2 s3 where "end_line st = Some s1" "hist_ins s1 = Some s2" "erase_line s2 = Some s3" "edits s3 (e_clear (e_ins e))"
      using keep_line_ok [OF e] erase_ok by metis
    then show ?thesis using that True edits_reads [OF e] by simp
  next
    case False
    obtain s1 where s1: "erase_line st = Some s1" "edits s1 (e_clear e)" using erase_ok [OF e] by blast
    show ?thesis
    proof (cases "e_line e = []")
      case True
      then show ?thesis using that [of st] e edits_reads(3) [OF e] by simp
    next
      case line: False
      then show ?thesis using that [of s1] s1 False edits_reads(3,4) [OF e] by simp
    qed
  qed
  have nil: "e_line ?e1 = []" by simp
  show ?thesis
  proof (cases "e_above ?e1 = []")
    case True
    then have "hist_prev st1 = Some (None, st1)" using edits_reads(1) [OF st1(2)] by (simp add: hist_prev_def)
    then show ?thesis
      using False True st1 edits_reads(1) [OF e] edits_flags(1) [OF st1(2), of False] unfolding hist_up_def e_up_def Let_def by simp
  next
    case up: False
    obtain i st2 where st2: "hist_prev st1 = Some (Some i, st2)" "edits st2 (e_prev ?e1)"
      using hist_prev_edits [OF st1(2) up] by blast
    have "e_below (e_prev ?e1) \<noteq> []" using up by (simp add: e_prev_def)
    then obtain st3 where st3: "load_hist st2 = Some st3" "edits st3 (e_load (e_prev ?e1))"
      using load_hist_ok [OF st2(2)] nil by auto
    then show ?thesis
      using False up st1(1) st2(1) edits_reads(1) [OF e] edits_flags(1) [OF st3(2), of False] unfolding hist_up_def e_up_def Let_def by simp
  qed
qed

lemma more_history_ok:
  assumes e: "edits st e"
  shows "more_history st = Some (length (e_below e) \<ge> 2)"
proof (cases "e_below e")
  case Nil
  then show ?thesis using edits_reads(2) [OF e] by (simp add: more_history_def)
next
  case (Cons l ds)
  note h = edits_hist_st [OF e, unfolded Cons]
  have l: "0 \<notin> set l" using h(2) by (simp add: line_ok_0)
  have "hist_idx st + length l + 1 = hist_end st \<longleftrightarrow> ds = []"
    using h(1) hist_bytes_ends [of ds] by (auto simp: hist_st_def)
  then show ?thesis using hist_line [OF h(1) l] hist_at_end [OF h(1)] Cons by (cases ds) (auto simp: more_history_def)
qed

lemma keep_changed_ok:
  assumes e: "edits st e"
  shows "\<exists>st'. keep_changed st = Some st' \<and> edits st' (if e_changed e then e_ins (e_next e) else e)"
proof (cases "e_changed e")
  case True
  obtain p s1 where s1: "hist_next st = Some (p, s1)" "edits s1 (e_next e)" using hist_next_edits [OF e] by blast
  then show ?thesis using True edits_reads(4) [OF e] keep_line_ok [OF s1(2)] by (auto simp: keep_changed_def)
qed (use e edits_reads(4) [OF e] in \<open>simp add: keep_changed_def\<close>)

lemma hist_down_ok:
  assumes e: "edits st e"
  shows "\<exists>st'. hist_down st = Some st' \<and> edits st' (e_down e)"
proof -
  obtain s1 where s1: "keep_changed st = Some s1" "edits s1 (if e_changed e then e_ins (e_next e) else e)"
    using keep_changed_ok [OF e] by blast
  show ?thesis
  proof (cases "length (e_below e) \<ge> 2")
    case more: True
    let ?e1 = "if e_line e \<noteq> [] then e_clear (e_next (if e_changed e then e_ins (e_next e) else e)) else e"
    obtain st1 where st1: "(if tty_len st \<noteq> 0 then do { st \<leftarrow> keep_changed st; (_, st) \<leftarrow> hist_next st; erase_line st } else Some st) = Some st1"
      "edits st1 ?e1"
    proof (cases "e_line e = []")
      case False
      obtain p s2 where s2: "hist_next s1 = Some (p, s2)" "edits s2 (e_next (if e_changed e then e_ins (e_next e) else e))"
        using hist_next_edits [OF s1(2)] by blast
      obtain s3 where "erase_line s2 = Some s3" "edits s3 ?e1" using erase_ok [OF s2(2)] False by auto
      then show ?thesis using that [of s3] s1(1) s2(1) False edits_reads(3) [OF e] by simp
    qed (use that e edits_reads(3) [OF e] in simp)
    have nil: "e_line ?e1 = []" by simp
    show ?thesis
    proof (cases "e_below ?e1 = []")
      case True
      then have "e_load ?e1 = ?e1" by (simp add: e_load_def)
      then show ?thesis
        using more st1 True edits_reads(2) [OF st1(2)] more_history_ok [OF e] edits_flags(1) [OF st1(2), of False]
        unfolding hist_down_def e_down_def Let_def by simp
    next
      case False
      obtain st2 where "load_hist st1 = Some st2" "edits st2 (e_load ?e1)" using load_hist_ok [OF st1(2) nil False] by blast
      then show ?thesis
        using more st1 False edits_reads(2) [OF st1(2)] more_history_ok [OF e] edits_flags(1) [of st2 "e_load ?e1" False]
        unfolding hist_down_def e_down_def Let_def by simp
    qed
  next
    case False
    then show ?thesis
    proof (cases "e_line e = []")
      case True
      then show ?thesis using False bell_ok [OF e] edits_reads(3) [OF e] more_history_ok [OF e] by (simp add: hist_down_def e_down_def)
    next
      case line: False
      obtain s2 where s2: "erase_line (s1\<lparr>hist_idx := hist_end s1\<rparr>) = Some s2"
        "edits s2 (e_clear (e_last (if e_changed e then e_ins (e_next e) else e)))"
        using erase_ok [OF hist_last_edits [OF s1(2)]] by blast
      then show ?thesis
        using line False s1(1) edits_reads(3) [OF e] more_history_ok [OF e] edits_flags(1) [OF s2(2), of False]
        unfolding hist_down_def e_down_def Let_def by simp
    qed
  qed
qed

lemma put_times_1: "nk_puts s st = st\<lparr>console_out := console_out st @ s\<rparr>" "nk_putc c st = st\<lparr>console_out := console_out st @ [c]\<rparr>"
  by (simp_all add: nk_puts_def nk_putc_def)

text \<open>A new row with the prompt shows an empty line; \<open>redraw\<close> shows the line on it.\<close>

lemma screen_prompt:
  "\<forall>c\<in>set p. shown c \<Longrightarrow> screen_of out = ([], 0) \<Longrightarrow> screen_of (out @ p) = (p, length p)"
  using screen_write [of p "[]" "[]"] by (simp add: screen_of_append)

lemma redraw_ok:
  assumes "holds st e" "\<forall>c\<in>set (console_prompt st). shown c" "echo_mode st \<Longrightarrow> screen_of (console_out st) = ([], 0)"
  shows "\<exists>st'. redraw st = Some st' \<and> edits st' (e_end e)"
proof -
  have h: "line_in st e" "e_ok e" "same_keys st e" "hist_in st e" using assms(1) by (auto simp: holds_def)
  then have l: "take (tty_len st) (tty_buf st) = e_line e" "tty_len st = length (e_line e)" "tty_len st \<le> length (tty_buf st)"
    by (auto simp: line_in_def) (metis length_take min_def nat_le_linear)
  let ?st = "echo (console_prompt st @ e_line e) (st\<lparr>tty_cur := tty_len st\<rparr>)"
  have "redraw st = Some ?st"
    using put_range_echo [of 0 "tty_len st" "echo (console_prompt st) (st\<lparr>tty_cur := 0\<rparr>)"] l
    by (simp add: redraw_def to_end_def console_echo)
  moreover have "edits ?st (e_end e)"
  proof -
    have "\<forall>c\<in>set (e_line e). shown c" using h(2) by (auto simp: e_ok_def line_ok_def)
    then have "screen_of (console_out st @ console_prompt st @ e_line e) = (console_prompt st @ e_line e, length (console_prompt st @ e_line e))"
      if "echo_mode st"
      using screen_prompt [of "console_prompt st @ e_line e" "console_out st"] assms(2,3) that by auto
    then have "echo_mode st \<Longrightarrow> shows_line (screen_of (console_out st @ console_prompt st @ e_line e)) (console_prompt st) (e_line e) (tty_len st)"
      using l(2) by (auto simp: shows_line_def)
    then have "screen_in ?st" using assms(2) l by (simp add: screen_in_def)
    moreover have "line_in ?st (e_end e)" "e_ok (e_end e)" "same_keys ?st (e_end e)" "hist_in ?st (e_end e)"
      using h by (auto simp: line_in_def e_end_def e_line_def e_ok_def same_keys_def hist_in_def)
    ultimately show ?thesis by (simp add: edits_def)
  qed
  ultimately show ?thesis by blast
qed

lemma holds_clear:
  "holds st e \<Longrightarrow> holds (st\<lparr>console_out := out, tty_len := 0, tty_cur := 0, tty_changed := False\<rparr>) ((e_clear e)\<lparr>e_changed := False\<rparr>)"
  by (auto simp: holds_def e_ok_def e_line_def e_clear_def same_keys_def line_in_def hist_in_def line_ok_def NKREADLINE_LINE_SIZE_def)

lemma holds_flag: "holds st e \<Longrightarrow> holds (st\<lparr>console_out := out, tty_changed := x\<rparr>) (e\<lparr>e_changed := x\<rparr>)"
  by (auto simp: holds_def e_ok_def e_line_def same_keys_def line_in_def hist_in_def)

lemma cancel_ok:
  assumes e: "edits st e"
  shows "\<exists>st'. cancel_key st = Some st' \<and> edits st' (e_cancel e)"
proof -
  let ?e1 = "if e_changed e \<and> e_line e \<noteq> [] then e_ins e else e"
  obtain s1 b where s1: "end_line st = Some s1" "edits s1 e" "tty_buf s1 = e_line e @ 0 # b" using end_line_ok [OF e] by blast
  obtain s2 where s2: "(if tty_changed s1 \<and> tty_len s1 \<noteq> 0 then hist_ins s1 else Some s1) = Some s2" "edits s2 ?e1"
    using hist_ins_edits [OF s1(2,3)] s1(2) edits_reads(3,4) [OF s1(2)] by (cases "e_changed e \<and> e_line e \<noteq> []") auto
  obtain s3 where s3: "to_end (s2\<lparr>hist_idx := hist_end s2\<rparr>) = Some s3" "edits s3 (e_end (e_last ?e1))"
    using to_end_ok [OF hist_last_edits [OF s2(2)]] by blast
  let ?st = "s3\<lparr>console_out := (console_out s3 @ [94, 67, 10]) @ console_prompt s3, tty_len := 0, tty_cur := 0, tty_changed := False\<rparr>"
  have "cancel_key st = Some ?st"
    using s1(1) s2(1) s3(1) by (simp add: cancel_key_def put_times_1)
  moreover have "edits ?st (e_cancel e)"
  proof -
    have p: "\<forall>c\<in>set (console_prompt s3). shown c" using s3(2) by (simp add: edits_def screen_in_def)
    have "screen_in ?st"
      using p screen_prompt [OF p screen_of_line, of "console_out s3 @ [94, 67, 10]"] by (simp add: screen_in_def shows_line_def)
    moreover have "(e_clear (e_end (e_last ?e1)))\<lparr>e_changed := False\<rparr> = e_cancel e"
      by (simp add: e_cancel_def e_clear_def e_end_def)
    ultimately show ?thesis using holds_clear [OF edits_keeps(2) [OF s3(2)]] by (simp add: edits_holds)
  qed
  ultimately show ?thesis by blast
qed

lemma enter_ok:
  assumes e: "edits st e"
  shows "\<exists>st' b. enter_key st = Some st' \<and> holds st' (e_enter e) \<and> last (console_out st') = 10 \<and> tty_buf st' = e_line e @ 0 # b"
proof -
  let ?e1 = "e_end (if e_changed e then e else e\<lparr>e_below := tl (e_below e)\<rparr>)"
  obtain s1 where s1: "to_end st = Some s1" "edits s1 (e_end e)" using to_end_ok [OF e] by blast
  obtain s2 b where s2: "end_line s1 = Some s2" "edits s2 (e_end e)" "tty_buf s2 = e_line e @ 0 # b" using end_line_ok [OF s1(2)] by auto
  obtain s3 where s3: "(if tty_len s2 \<noteq> 0 then do {
        st \<leftarrow> (if \<not> tty_changed s2 then do { (_, st) \<leftarrow> hist_del s2; Some st } else Some s2);
        hist_ins (st\<lparr>hist_idx := hist_end st\<rparr>) } else Some s2) = Some s3"
    "edits s3 (if e_line e = [] then e_end e else e_ins (e_last ?e1))" "tty_buf s3 = tty_buf s2"
  proof (cases "e_line e = []")
    case True
    then show ?thesis using that [of s2] s2(2) edits_reads(3) [OF s2(2)] by simp
  next
    case False
    obtain s where s: "(if \<not> tty_changed s2 then do { (_, st) \<leftarrow> hist_del s2; Some st } else Some s2) = Some s" "edits s ?e1" "tty_buf s = tty_buf s2"
    proof (cases "e_changed e")
      case True
      then show ?thesis using that [of s2] s2(2) edits_reads(4) [OF s2(2)] by (simp add: e_end_def)
    next
      case unchanged: False
      have eq: "(e_end e)\<lparr>e_below := tl (e_below (e_end e))\<rparr> = ?e1"
        using unchanged by (simp add: e_end_def e_line_def)
      obtain n s where d: "hist_del s2 = Some (n, s)" "edits s ?e1" "tty_buf s = tty_buf s2"
        using hist_del_edits [OF s2(2)] unfolding eq by blast
      have "\<not> tty_changed s2" using unchanged edits_reads(4) [OF s2(2)] by (simp add: e_end_def)
      then show ?thesis using that [OF _ d(2,3)] d(1) by simp
    qed
    have "tty_buf (s\<lparr>hist_idx := hist_end s\<rparr>) = e_line (e_last ?e1) @ 0 # b" using s(3) s2(3) by simp
    from hist_ins_edits [OF hist_last_edits [OF s(2)] this] show ?thesis
      using that s(1,3) False edits_reads(3) [OF s2(2)] by auto
  qed
  let ?st = "(s3\<lparr>hist_idx := hist_end s3\<rparr>)\<lparr>console_out := console_out s3 @ [10], tty_changed := False\<rparr>"
  have "enter_key st = Some ?st" using s1(1) s2(1) s3(1) by (simp add: enter_key_def put_times_1)
  moreover have "holds ?st (e_enter e)"
    unfolding e_enter_def by (rule holds_flag, rule edits_keeps(2), rule hist_last_edits, rule s3(2))
  ultimately show ?thesis using s3(3) s2(3) by auto
qed

text \<open>What the editor relies on in the functions of the command interpreter: a completed character can be typed, and
  a line that is as long as the buffer is not completed; lists and help texts end with a new line, and nothing is listed
  unless it is asked for.\<close>

locale completer =
  fixes cpl :: "bytes \<Rightarrow> u8 \<Rightarrow> int \<times> bytes" and hlp :: "bytes \<Rightarrow> int \<times> bytes"
  assumes completes: "0 \<notin> set s \<Longrightarrow> fst (cpl s n) \<noteq> -1 \<Longrightarrow> fst (cpl s n) \<noteq> -2 \<Longrightarrow>
      32 \<le> fst (cpl s n) \<and> fst (cpl s n) \<le> 126 \<and> length s < NKREADLINE_LINE_SIZE - 1"
    and quiet: "snd (cpl s 0) = []"
    and lists: "snd (cpl s n) = [] \<or> last (snd (cpl s n)) = 10"
    and helps: "snd (hlp s) = [] \<or> last (snd (hlp s)) = 10"
begin

lemma ch_shown: "32 \<le> ch \<Longrightarrow> ch \<le> 126 \<Longrightarrow> shown (word_of_int ch)"
proof -
  assume "32 \<le> ch" "ch \<le> 126"
  moreover from this have "uint (word_of_int ch :: u8) = ch" by (simp add: uint_word_of_int)
  ultimately show ?thesis by (simp add: shown_def word_le_def)
qed

lemma complete_ok:
  "edits st e \<Longrightarrow> NKREADLINE_LINE_SIZE \<le> length (e_line e) + n \<Longrightarrow>
   \<exists>st'. complete_loop cpl st = Some st' \<and> edits st' (e_complete n cpl e)"
proof (induction n arbitrary: st e)
  case 0
  then show ?case using edits_keeps(4) [OF "0.prems"(1)] by (simp add: e_line_def)
next
  case (Suc n)
  note e = Suc.prems(1)
  obtain s1 b where s1: "end_line st = Some s1" "edits s1 e" "tty_buf s1 = e_line e @ 0 # b" using end_line_ok [OF e] by blast
  obtain ch out where c: "cpl (e_line e) (e_tabs e) = (ch, out)" by fastforce
  note r = edits_reads [OF s1(2)]
  have n0: "0 \<notin> set (e_line e)" using e e_ok_0 by (auto simp: edits_def)
  then have str: "cstring (e_line e @ 0 # b) 0 = Some (e_line e)" using cstring_at [of "e_line e" 0 "[]"] by simp
  let ?e1 = "if e_tabs e \<noteq> 0 then e_end e else e"
  let ?s = "nk_puts out (if tab_count s1 \<noteq> 0 then console_putchar 10 s1 else s1)"
  obtain s2 where s2: "(if tab_count ?s \<noteq> 0 then redraw ?s else Some ?s) = Some s2" "edits s2 ?e1"
  proof (cases "e_tabs e = 0")
    case True
    then have "?s = s1" using quiet [of "e_line e"] c r(6) by (simp add: put_times_1)
    then show ?thesis using that [of s1] True s1(2) r(6) by simp
  next
    case False
    have h: "holds s1 e" "\<forall>c\<in>set (console_prompt s1). shown c" using s1(2) by (auto simp: edits_holds screen_in_def)
    then have "holds ?s e" by (auto simp: put_times_1 console_echo holds_def same_keys_def line_in_def hist_in_def)
    moreover have "out = [] \<or> last out = 10" using lists [of "e_line e" "e_tabs e"] c by simp
    then have "echo_mode ?s \<Longrightarrow> screen_of (console_out ?s) = ([], 0)"
      using False r(6) by (intro screen_of_line) (auto simp: put_times_1 console_echo)
    moreover have "\<forall>c\<in>set (console_prompt ?s). shown c" using h(2) by (auto simp: put_times_1 console_echo)
    ultimately obtain s2 where "redraw ?s = Some s2" "edits s2 (e_end e)" using redraw_ok by blast
    then show ?thesis using that [of s2] False r(6) by (simp add: put_times_1 console_echo)
  qed
  have k: "e_tabs ?e1 = e_tabs e" "e_line ?e1 = e_line e" by (simp_all add: e_end_def e_line_def)
  have loop: "complete_loop cpl st = (if ch = -1 then Some (console_putchar 7 s2)
      else if ch = -2 then Some ((if tab_count s2 = 0 then console_putchar 7 s2 else s2)\<lparr>tab_count := 2\<rparr>)
      else do { st \<leftarrow> typech (word_of_int ch) s2; if ch = 32 then Some st else complete_loop cpl st })"
    using s1(1,3) str c r(6) s2(1) by (subst complete_loop.simps) (simp add: Let_def console_echo split: if_splits)
  show ?case
  proof (cases "ch = -1 \<or> ch = -2")
    case True
    then show ?thesis
      using loop c bell_ok [OF s2(2)] s2(2) edits_flags(3) [of _ ?e1 2] by (auto simp: Let_def split: if_splits)
  next
    case False
    have ch: "32 \<le> ch" "ch \<le> 126" "length (e_line e) < NKREADLINE_LINE_SIZE - 1" using completes [OF n0, of "e_tabs e"] False c by auto
    obtain s3 where s3: "typech (word_of_int ch) s2 = Some s3" "edits s3 (e_type (word_of_int ch) ?e1)"
      using typech_ok [OF s2(2) ch_shown [OF ch(1,2)]] by blast
    have "length (e_line (e_type (word_of_int ch) ?e1)) = length (e_line e) + 1"
      using ch(3) arg_cong [OF k(2), of length] by (auto simp: e_type_def e_line_def)
    then obtain s4 where "complete_loop cpl s3 = Some s4" "edits s4 (e_complete n cpl (e_type (word_of_int ch) ?e1))"
      using Suc.IH [OF s3(2)] Suc.prems(2) by auto
    then show ?thesis using loop c s3 False by (auto simp: Let_def)
  qed
qed

lemma tab_ok:
  assumes e: "edits st e"
  shows "\<exists>st'. tab_key cpl hlp st = Some st' \<and> edits st' (e_tab cpl e)"
proof -
  note k = edits_keeps [OF e]
  let ?i = "tty_len st - 1"
  have on: "(if tty_len st \<noteq> 0 then do { c \<leftarrow> deref (tty_buf st) ?i; Some (c = 32) } else Some False)
      = Some (e_line e \<noteq> [] \<and> last (e_line e) = 32)"
  proof (cases "e_line e" rule: rev_cases)
    case (snoc l c)
    obtain b where "tty_buf st = e_line e @ b" using line_inE [OF k(1)] by (metis append.assoc e_line_def)
    then show ?thesis using snoc edits_reads(9) [OF e] by (simp add: deref_def nth_append)
  qed (use edits_reads(9) [OF e] in simp)
  show ?thesis
  proof (cases "e_line e \<noteq> [] \<and> last (e_line e) = 32")
    case False
    then show ?thesis using complete_ok [OF e, of NKREADLINE_LINE_SIZE] unfolding tab_key_def on by (cases "e_line e = []") (simp_all add: e_tab_def)
  next
    case True
    then have i: "?i < length (tty_buf st)" "tty_buf st ! ?i = 32" "tty_len st \<noteq> 0"
      using on edits_reads(9) [OF e] by (auto simp: deref_def split: if_splits)
    have "0 \<in> set ((tty_buf st)[?i := 0])" using i(1) by (rule set_update_memI)
    then obtain s where s: "cstring ((tty_buf st)[?i := 0]) 0 = Some s" by (simp add: cstring_def)
    obtain rtn out where c: "hlp s = (rtn, out)" by fastforce
    let ?s = "(if rtn \<noteq> 0 then console_putchar 7 else id) (nk_puts out (console_putchar 10 st))"
    have st: "store_at ((tty_buf st)[?i := 0]) ?i [32] = Some (tty_buf st)"
      using i by (simp add: store_at_single) (metis list_update_id)
    have fields: "tty_buf ?s = tty_buf st" "tty_len ?s = tty_len st" "console_prompt ?s = console_prompt st" "echo_mode ?s = echo_mode st"
      by (simp_all add: put_times_1 console_echo)
    have "?s\<lparr>tty_buf := tty_buf st\<rparr> = ?s" by (simp add: put_times_1 console_echo)
    then have key: "tab_key cpl hlp st = redraw ?s"
      using True s c st i(1,3) unfolding tab_key_def on by (simp add: store_at_single console_echo put_times_1 echo_def)
    have h: "holds st e" "\<forall>c\<in>set (console_prompt st). shown c" using e by (auto simp: edits_holds screen_in_def)
    then have "holds ?s e" by (auto simp: put_times_1 console_echo holds_def same_keys_def line_in_def hist_in_def)
    moreover have "echo_mode ?s \<Longrightarrow> screen_of (console_out ?s) = ([], 0)"
    proof -
      assume "echo_mode ?s"
      moreover have "screen_of (console_out st @ [10] @ out) = ([], 0)"
        using helps [of "s"] c by (intro screen_of_line) auto
      moreover have "screen_put ([], 0) 7 = ([], 0)" by (simp add: screen_put_def)
      ultimately show ?thesis using fields(4) by (simp add: put_times_1 console_echo screen_of_append)
    qed
    ultimately show ?thesis using redraw_ok [of ?s e] h(2) fields(3) key True by (simp add: e_tab_def)
  qed
qed

lemma plain_ok:
  assumes e: "edits st e"
  shows "\<exists>st'. plain_key cpl hlp ch st = Some st' \<and> edits st' (e_plain cpl ch e)"
proof -
  note r = edits_reads [OF e]
  have del: "e_del e = e" if "e_right e = []" using that by (simp add: e_del_def)
  consider "32 \<le> ch \<and> ch \<le> 126" | "ch = 9" | "ch = 8 \<or> ch = 127" | "ch = 4" | "ch = 3" | "ch = 5" | "ch = 1" | "ch = 16" | "ch = 14" | "ch = 2"
    | "ch = 6" | "ch = 27" | "\<not> (32 \<le> ch \<and> ch \<le> 127) \<and> ch \<notin> {9, 8, 4, 3, 5, 1, 16, 14, 2, 6, 27}" by force
  then show ?thesis
  proof cases
    case 1
    then show ?thesis using typech_ok [OF e ch_shown] by (simp add: plain_key_def e_plain_def)
  next
    case 3
    then show ?thesis using delch_ok [OF cur_left_ok [OF e]] bell_ok [OF e] r(7) by (auto simp: plain_key_def e_plain_def)
  next
    case 4
    then show ?thesis using delch_ok [OF e] bell_ok [OF e] r(8) del by (auto simp: plain_key_def e_plain_def)
  qed (use tab_ok [OF e] cancel_ok [OF e] to_end_ok [OF e] to_beg_ok [OF e] hist_up_ok [OF e] hist_down_ok [OF e] cur_left_ok [OF e]
      cur_right_ok [OF e] edits_flags(2) [OF e] e in \<open>auto simp: plain_key_def e_plain_def\<close>)
qed

lemma escape_ok:
  assumes e: "edits st e"
  shows "\<exists>st'. escape_key ch st = Some st' \<and> edits st' (e_escape ch e)"
  using hist_up_ok [OF e] hist_down_ok [OF e] cur_right_ok [OF e] cur_left_ok [OF e] e
  by (auto simp: escape_key_def e_escape_def)

lemma char_ok:
  assumes e: "edits st e"
  shows "case e_char cpl ch e of
      (None, e') \<Rightarrow> \<exists>st'. prompt_char cpl hlp ch st = Some (None, st') \<and> edits st' e'
    | (Some l, e') \<Rightarrow> \<exists>st' b. prompt_char cpl hlp ch st = Some (Some (l @ 0 # b), st') \<and> 0 \<notin> set l \<and> holds st' e' \<and> last (console_out st') = 10"
proof -
  let ?st = "if tab_count st \<noteq> 0 then st\<lparr>tab_count := tab_count st - 1\<rparr> else st"
  let ?e = "if e_tabs e \<noteq> 0 then e\<lparr>e_tabs := e_tabs e - 1\<rparr> else e"
  have e1: "edits ?st ?e" using e edits_flags(3) [OF e] edits_reads(6) [OF e] by simp
  have "0 \<notin> set (e_line ?e)" using e1 e_ok_0 by (simp add: edits_def)
  then show ?thesis
    using enter_ok [OF e1] plain_ok [OF e1, of ch] escape_ok [OF e1, of ch] edits_flags(2) [OF e1] edits_reads(5) [OF e1] e1
    unfolding prompt_char_def e_char_def Let_def
    by (cases "e_mode ?e = 0"; cases "ch = 13 \<or> ch = 10"; cases "e_mode ?e = 1"; cases "e_mode ?e = 2"; cases "ch = 91") auto
qed

lemma task_ok:
  "edits st e \<Longrightarrow> case e_task cpl cs e of
      (None, rest, e') \<Rightarrow> \<exists>st'. prompt_task cpl hlp cs st = Some (None, rest, st') \<and> edits st' e'
    | (Some l, rest, e') \<Rightarrow> \<exists>st' b. prompt_task cpl hlp cs st = Some (Some (l @ 0 # b), rest, st') \<and> 0 \<notin> set l \<and> holds st' e' \<and> last (console_out st') = 10"
proof (induction cs arbitrary: st e)
  case (Cons c cs)
  obtain r e1 where r: "e_char cpl (uint c) e = (r, e1)" by fastforce
  show ?case
  proof (cases r)
    case None
    then obtain st1 where "prompt_char cpl hlp (uint c) st = Some (None, st1)" "edits st1 e1"
      using char_ok [OF Cons.prems, of "uint c"] r by auto
    then have "prompt_task cpl hlp (c # cs) st = prompt_task cpl hlp cs st1" "edits st1 e1" by simp_all
    moreover have "e_task cpl (c # cs) e = e_task cpl cs e1" using r None by simp
    ultimately show ?thesis using Cons.IH [of st1 e1] by metis
  next
    case (Some l)
    then show ?thesis using char_ok [OF Cons.prems, of "uint c"] r by auto
  qed
qed simp

end

lemma nk_readline_ok:
  assumes "holds st e" "\<forall>c\<in>set p. shown c" "echo_mode st \<Longrightarrow> screen_of (console_out st) = ([], 0)"
  shows "edits (nk_readline p st) ((e_clear e)\<lparr>e_changed := False\<rparr>)"
proof -
  let ?st = "st\<lparr>tty_cur := 0, tty_len := 0, tty_changed := False, console_prompt := p\<rparr>"
  have "holds (echo p ?st) ((e_clear e)\<lparr>e_changed := False\<rparr>)"
    using assms(1) by (auto simp: holds_def e_ok_def e_line_def e_clear_def same_keys_def line_in_def hist_in_def line_ok_def NKREADLINE_LINE_SIZE_def)
  moreover have "screen_in (echo p ?st)"
    using assms(2) screen_prompt [OF assms(2) assms(3)] by (auto simp: screen_in_def shows_line_def)
  ultimately show ?thesis by (simp add: nk_readline_def console_echo edits_holds)
qed

section \<open>What the keys do\<close>

lemma e_type_line: "\<forall>c\<in>set cs. shown c \<Longrightarrow> e_mode e = 0 \<Longrightarrow> e_right e = [] \<Longrightarrow>
   \<exists>e'. e_task cpl (cs @ ks) e = e_task cpl ks e' \<and> e_line e' = e_line e @ take (NKREADLINE_LINE_SIZE - 1 - length (e_line e)) cs
     \<and> e_mode e' = 0 \<and> e_right e' = [] \<and> e_above e' = e_above e \<and> e_below e' = e_below e \<and> e_changed e' = (e_changed e \<or> (cs \<noteq> [] \<and> length (e_line e) < NKREADLINE_LINE_SIZE - 1))"
proof (induction cs arbitrary: e)
  case (Cons c cs)
  let ?e0 = "if e_tabs e \<noteq> 0 then e\<lparr>e_tabs := e_tabs e - 1\<rparr> else e"
  let ?e1 = "e_type c ?e0"
  have c: "32 \<le> uint c \<and> uint c \<le> 126" using Cons.prems(1) by (simp add: shown_def word_le_def)
  then have "e_char cpl (uint c) e = (None, ?e1)" using Cons.prems(2) by (simp add: e_char_def e_plain_def)
  then have t: "e_task cpl ((c # cs) @ ks) e = e_task cpl (cs @ ks) ?e1" by simp
  have e1: "e_mode ?e1 = 0" "e_right ?e1 = []" "e_above ?e1 = e_above e" "e_below ?e1 = e_below e"
    "e_line ?e1 = (if length (e_line e) < NKREADLINE_LINE_SIZE - 1 then e_line e @ [c] else e_line e)"
    "e_changed ?e1 = (e_changed e \<or> length (e_line e) < NKREADLINE_LINE_SIZE - 1)"
    using Cons.prems(2,3) by (auto simp: e_type_def e_line_def)
  obtain e' where "e_task cpl (cs @ ks) ?e1 = e_task cpl ks e'" "e_line e' = e_line ?e1 @ take (NKREADLINE_LINE_SIZE - 1 - length (e_line ?e1)) cs"
    "e_mode e' = 0" "e_right e' = []" "e_above e' = e_above ?e1" "e_below e' = e_below ?e1"
    "e_changed e' = (e_changed ?e1 \<or> (cs \<noteq> [] \<and> length (e_line ?e1) < NKREADLINE_LINE_SIZE - 1))"
    using Cons.IH [of ?e1] Cons.prems(1) e1(1,2) by auto
  then show ?case
    unfolding t e1 by (intro exI [of _ e']) (auto simp: take_Cons' Suc_diff_Suc)
qed auto

lemma e_enter_changed:
  assumes "length (e_line e) < NKREADLINE_LINE_SIZE" "e_changed e" "e_line e \<noteq> []"
  obtains us where "e_above (e_enter e) = us @ [e_line e]" "e_below (e_enter e) = []" "e_mode (e_enter e) = e_mode e"
proof -
  obtain us ds where f: "forget (length (e_line e) + 1) (e_above e @ e_below e) [] = (us, ds)" by fastforce
  have "length (e_line e) + 1 \<le> NKREADLINE_HIST_SIZE"
    using assms(1) by (simp add: NKREADLINE_LINE_SIZE_def NKREADLINE_HIST_SIZE_def)
  then have "ds = []" using forget_fits [OF f] by simp
  moreover have "e_line (e_last (e_end e)) = e_line e" by simp
  then have "e_ins (e_last (e_end e)) = (e_last (e_end e))\<lparr>e_above := us, e_below := e_line e # ds\<rparr>"
    using f unfolding e_ins_def by (simp add: e_last_def e_end_def)
  ultimately show ?thesis using assms(2,3) by (intro that [of us]) (auto simp: e_enter_def e_last_def e_end_def)
qed

lemma e_recall:
  assumes "e_line e = []" "e_mode e = 0" "e_above e = us @ [l]"
  shows "\<exists>e'. e_task cpl [16, 13] e = (Some l, [], e')"
proof -
  let ?e0 = "if e_tabs e \<noteq> 0 then e\<lparr>e_tabs := e_tabs e - 1\<rparr> else e"
  have "e_char cpl 16 e = (None, e_up ?e0)" using assms(2) by (simp add: e_char_def e_plain_def)
  moreover have "e_line (e_up ?e0) = l" "e_mode (e_up ?e0) = 0"
    using assms by (auto simp: e_up_def e_prev_def e_load_def e_line_def)
  then have "\<exists>e'. e_char cpl 13 (e_up ?e0) = (Some l, e')" by (simp add: e_char_def e_line_def)
  ultimately show ?thesis by auto
qed

text \<open>The state at the start of the program, and an interpreter without commands.\<close>

definition readline0 :: readline where
  "readline0 = \<lparr>console_prompt = [], tty_buf = replicate NKREADLINE_LINE_SIZE 0, tty_len = 0, tty_cur = 0, tty_changed = False,
     histbuf = replicate NKREADLINE_HIST_SIZE 0, hist_end = 0, hist_idx = 0, echo_mode = True, tty_mode = 0, tab_count = 0, console_out = []\<rparr>"

definition editor0 :: editor where
  "editor0 = \<lparr>e_left = [], e_right = [], e_changed = False, e_above = [], e_below = [], e_mode = 0, e_tabs = 0\<rparr>"

lemma holds0: "holds readline0 editor0"
  by (simp add: holds_def readline0_def editor0_def e_ok_def e_line_def line_ok_def same_keys_def line_in_def hist_in_def
      NKREADLINE_LINE_SIZE_def)

lemma screen0: "screen_of (console_out readline0) = ([], 0)"
  by (simp add: readline0_def screen_of_def)

lemma prompt0: "\<forall>c\<in>set [62]. shown c"
  by (simp add: shown_def)

lemma no_commands: "completer (\<lambda>s n. (-1, [])) (\<lambda>s. (-1, []))"
  by unfold_locales simp_all

section \<open>Properties\<close>

text \<open>C11. The line editor is an editor of lines with a history: in every state that holds a line and a history,
  and for every sequence of keys, the code runs to the end without leaving its buffers and does what the abstract
  editor does; when a line is entered the callback gets that line as a string and the keys after it are left, otherwise all
  keys are used and the screen of the terminal (with the echo on) shows the prompt and the line with the cursor in its place.
  It relies on the command interpreter only for completing and listing as the \<open>completer\<close> laws say.\<close>

theorem line_editor_refines:
  assumes "completer cpl hlp" "edits st e"
  shows "case e_task cpl cs e of
      (None, rest, e') \<Rightarrow> \<exists>st'. prompt_task cpl hlp cs st = Some (None, rest, st') \<and> edits st' e'
    | (Some l, rest, e') \<Rightarrow> \<exists>st' b. prompt_task cpl hlp cs st = Some (Some (l @ 0 # b), rest, st') \<and> 0 \<notin> set l \<and> holds st' e'
        \<and> last (console_out st') = 10"
  using completer.task_ok [OF assms] .

theorem line_editor_refines_witness:
  "\<exists>st' b. prompt_task (\<lambda>s n. (-1, [])) (\<lambda>s. (-1, [])) [97, 99, 8, 27, 91, 68, 98, 13, 99] (nk_readline [62] readline0)
     = Some (Some ([98, 97] @ 0 # b), [99], st')"
proof -
  have e: "edits (nk_readline [62] readline0) ((e_clear editor0)\<lparr>e_changed := False\<rparr>)"
    by (rule nk_readline_ok [OF holds0 prompt0 screen0])
  have "\<exists>e'. e_task (\<lambda>s n. (-1, [])) [97, 99, 8, 27, 91, 68, 98, 13, 99] ((e_clear editor0)\<lparr>e_changed := False\<rparr>) = (Some [98, 97], [99], e')"
    by (simp add: e_char_def e_plain_def e_type_def e_back_def e_del_def e_escape_def e_line_def e_clear_def editor0_def
        NKREADLINE_LINE_SIZE_def)
  then obtain e' where k: "e_task (\<lambda>s n. (-1, [])) [97, 99, 8, 27, 91, 68, 98, 13, 99] ((e_clear editor0)\<lparr>e_changed := False\<rparr>) = (Some [98, 97], [99], e')"
    by blast
  from line_editor_refines [OF no_commands e, of "[97, 99, 8, 27, 91, 68, 98, 13, 99]"] show ?thesis
    unfolding k prod.case option.case by blast
qed

text \<open>What is typed is what the callback gets, cut to the size of the buffer, and it can be recalled: after the prompt, any
  printable characters and the Enter key deliver the first 127 of them as one string; at the next prompt the Up key (^P) and
  Enter deliver the same string again, whatever the history held before.\<close>

theorem typed_line_recalled:
  assumes "completer cpl hlp" "holds st e" "e_mode e = 0" "echo_mode st \<Longrightarrow> screen_of (console_out st) = ([], 0)"
    and "\<forall>c\<in>set p. shown c" "\<forall>c\<in>set cs. shown c" "cs \<noteq> []"
  shows "\<exists>st1 b1 st2 b2. prompt_task cpl hlp (cs @ [13]) (nk_readline p st) = Some (Some (take (NKREADLINE_LINE_SIZE - 1) cs @ 0 # b1), [], st1)
    \<and> prompt_task cpl hlp [16, 13] (nk_readline p st1) = Some (Some (take (NKREADLINE_LINE_SIZE - 1) cs @ 0 # b2), [], st2)"
proof -
  let ?l = "take (NKREADLINE_LINE_SIZE - 1) cs" and ?e0 = "(e_clear e)\<lparr>e_changed := False\<rparr>"
  have e0: "edits (nk_readline p st) ?e0" using nk_readline_ok [OF assms(2,5,4)] .
  have l0: "e_mode ?e0 = 0" "e_right ?e0 = []" "e_line ?e0 = []" using assms(3) by (simp_all add: e_clear_def e_line_def)
  obtain e1 where e1: "e_task cpl (cs @ [13]) ?e0 = e_task cpl [13] e1" "e_line e1 = ?l" "e_mode e1 = 0" "e_changed e1"
    using e_type_line [OF assms(6) l0(1,2), of cpl "[13]"] l0(3) assms(7) by (auto simp: NKREADLINE_LINE_SIZE_def)
  define e1' where "e1' = (if e_tabs e1 \<noteq> 0 then e1\<lparr>e_tabs := e_tabs e1 - 1\<rparr> else e1)"
  have l1: "e_line e1' = ?l" "e_mode e1' = 0" "e_changed e1'" using e1(2-4) by (simp_all add: e1'_def e_line_def)
  then have t1: "e_task cpl (cs @ [13]) ?e0 = (Some ?l, [], e_enter e1')"
    unfolding e1(1) by (simp add: e_char_def e1'_def [symmetric] Let_def)
  from completer.task_ok [OF assms(1) e0, of "cs @ [13]"] obtain st1 b1 where
    st1: "prompt_task cpl hlp (cs @ [13]) (nk_readline p st) = Some (Some (?l @ 0 # b1), [], st1)" "holds st1 (e_enter e1')" "last (console_out st1) = 10"
    unfolding t1 by auto
  obtain us where us: "e_above (e_enter e1') = us @ [?l]" "e_mode (e_enter e1') = 0"
  proof -
    have "length (e_line e1') < NKREADLINE_LINE_SIZE" "e_line e1' \<noteq> []"
      using l1(1) assms(7) by (simp_all add: NKREADLINE_LINE_SIZE_def)
    from e_enter_changed [OF this(1) l1(3) this(2)] show ?thesis using that l1(1,2) by metis
  qed
  have e2: "edits (nk_readline p st1) ((e_clear (e_enter e1'))\<lparr>e_changed := False\<rparr>)"
    using nk_readline_ok [OF st1(2) assms(5)] screen_of_line st1(3) by blast
  have "\<exists>e3. e_task cpl [16, 13] ((e_clear (e_enter e1'))\<lparr>e_changed := False\<rparr>) = (Some ?l, [], e3)"
    by (rule e_recall [of _ us]) (simp_all add: us e_clear_def e_line_def)
  then obtain e3 where k: "e_task cpl [16, 13] ((e_clear (e_enter e1'))\<lparr>e_changed := False\<rparr>) = (Some ?l, [], e3)" by blast
  show ?thesis using completer.task_ok [OF assms(1) e2, of "[16, 13]"] st1(1) unfolding k prod.case option.case by blast
qed

theorem typed_line_recalled_witness:
  "\<exists>st1 b1 st2 b2. prompt_task (\<lambda>s n. (-1, [])) (\<lambda>s. (-1, [])) ([104, 105] @ [13]) (nk_readline [62] readline0) = Some (Some ([104, 105] @ 0 # b1), [], st1)
    \<and> prompt_task (\<lambda>s n. (-1, [])) (\<lambda>s. (-1, [])) [16, 13] (nk_readline [62] st1) = Some (Some ([104, 105] @ 0 # b2), [], st2)"
proof -
  have "\<forall>c\<in>set [104, 105]. shown c" by (simp add: shown_def)
  from typed_line_recalled [OF no_commands holds0 _ screen0 prompt0 this] show ?thesis
    by (simp add: editor0_def NKREADLINE_LINE_SIZE_def)
qed



end
