(* ===== verification/Scan.thy ===== *)
theory Scan
  imports Infile Printf
begin

unbundle bit_operations_syntax

text \<open>
  The string functions, \<^verbatim>\<open>libnklabs/src/nkstring.c\<close>, and the scanner, \<^verbatim>\<open>libnklabs/src/nkscan.c\<close>, over input files, as
  this repository configures it: without floating point (\<^verbatim>\<open>config/nkscan_config.h\<close>), so \<open>%f\<close> never matches.
  Formats are strings, whose end is the terminating NUL. An argument is a pointer: it is given with its type and the value it points
  to, and a scan returns the arguments with the values it has stored; taking an argument with another type has no value.
  Matching \<open>%v\<close> is a function of the data base code, a parameter here.
  The second part says what a scan takes from a byte string, and shows that the code does that on every input file.
\<close>

section \<open>Characters and strings\<close>

text \<open>The type \<open>char\<close> is unsigned on the target.\<close>

abbreviation chr :: "char \<Rightarrow> int" where
  "chr c \<equiv> of_char c"

definition nk_tolower :: "int \<Rightarrow> int" where
  "nk_tolower a = (if a \<ge> chr (CHR ''A'') \<and> a \<le> chr (CHR ''Z'') then a + chr (CHR ''a'') - chr (CHR ''A'') else a)"

fun nk_tolowers :: "bytes \<Rightarrow> bytes option" where
  "nk_tolowers [] = None"
| "nk_tolowers (c # s) =
     (if c = 0 then Some (c # s) else do { s \<leftarrow> nk_tolowers s; Some (word_of_int (nk_tolower (uint c)) # s) })"

fun nk_stricmp :: "bytes \<Rightarrow> bytes \<Rightarrow> int option" where
  "nk_stricmp (a # as) (b # bs) =
     (if a \<noteq> 0 \<and> b \<noteq> 0 \<and> nk_tolower (uint a) = nk_tolower (uint b) then nk_stricmp as bs
      else Some (if a = 0 \<and> b = 0 then 0 else 1))"
| "nk_stricmp _ _ = None"

fun nk_memicmp :: "nat \<Rightarrow> bytes \<Rightarrow> bytes \<Rightarrow> int option" where
  "nk_memicmp 0 a b = Some 0"
| "nk_memicmp (Suc len) (a # as) (b # bs) =
     (if nk_tolower (uint a) = nk_tolower (uint b) then nk_memicmp len as bs
      else Some (if a > b then 1 else -1))"
| "nk_memicmp _ _ _ = None"

definition is_digit :: "int \<Rightarrow> bool" where
  "is_digit c \<longleftrightarrow> c \<ge> chr (CHR ''0'') \<and> c \<le> chr (CHR ''9'')"

definition nk_isxdigit :: "int \<Rightarrow> bool" where
  "nk_isxdigit c \<longleftrightarrow> is_digit c \<or> (c \<ge> chr (CHR ''A'') \<and> c \<le> chr (CHR ''F'')) \<or> (c \<ge> chr (CHR ''a'') \<and> c \<le> chr (CHR ''f''))"

definition nk_isspace :: "int \<Rightarrow> bool" where
  "nk_isspace c \<longleftrightarrow> c = chr (CHR '' '') \<or> c = 12 \<or> c = 10 \<or> c = 13 \<or> c = 9 \<or> c = 11"

section \<open>The scanner\<close>

partial_function (option) ws_loop :: "int \<Rightarrow> 's nkinfile \<Rightarrow> 's nkinfile option" where
  "ws_loop c f = (if nk_isspace c then do { (c, f) \<leftarrow> nk_fnext_fast f; ws_loop c f } else Some f)"

definition nk_fscan_ws :: "'s nkinfile \<Rightarrow> 's nkinfile option" where
  "nk_fscan_ws f = do { c \<leftarrow> nk_fpeek f; ws_loop c f }"

text \<open>One character of a string literal. The letter after the backslash is \<open>c\<close> and the next one \<open>d\<close>.\<close>

definition hex_value :: "int \<Rightarrow> int" where
  "hex_value d =
     (if is_digit d then d - chr (CHR ''0'')
      else if d \<ge> chr (CHR ''a'') \<and> d \<le> chr (CHR ''f'') then d - chr (CHR ''a'') + 10
      else d - chr (CHR ''A'') + 10)"

definition escape_hex :: "int \<Rightarrow> 's nkinfile \<Rightarrow> (int \<times> 's nkinfile) option" where
  "escape_hex d f = do {
     (c, d, f) \<leftarrow> (if nk_isxdigit d then do { (d', f) \<leftarrow> nk_fnext_fast f; Some (hex_value d, d', f) } else Some (0, d, f));
     if nk_isxdigit d then do { (_, f) \<leftarrow> nk_fnext_fast f; Some (c * 16 + hex_value d, f) } else Some (c, f)
   }"

definition nk_fscan_escape :: "'s nkinfile \<Rightarrow> (int \<times> 's nkinfile) option" where
  "nk_fscan_escape f = do {
     c \<leftarrow> nk_fpeek f;
     if c = chr (CHR 0x5C) then do {
       (c, f) \<leftarrow> nk_fnext_fast f;
       (d, f) \<leftarrow> (if c \<noteq> -1 then nk_fnext_fast f else Some (0, f));
       if c = chr (CHR ''a'') then Some (7, f)
       else if c = chr (CHR ''b'') then Some (8, f)
       else if c = chr (CHR ''e'') then Some (27, f)
       else if c = chr (CHR ''f'') then Some (12, f)
       else if c = chr (CHR ''n'') then Some (10, f)
       else if c = chr (CHR ''r'') then Some (13, f)
       else if c = chr (CHR ''t'') then Some (9, f)
       else if c = chr (CHR 0x5C) then Some (chr (CHR 0x5C), f)
       else if c = chr (CHR ''x'') then escape_hex d f
       else Some (c, f)
     }
     else if c \<noteq> -1 then do { (_, f) \<leftarrow> nk_fnext_fast f; Some (c, f) }
     else Some (c, f)
   }"

text \<open>A character that is stored if there is room for it and a NUL: \<open>*buf++ = c; --buf_size\<close>. The pointer is the
  number of characters stored.\<close>

definition put_char :: "int \<Rightarrow> bytes \<times> nat \<times> u32 \<Rightarrow> (bytes \<times> nat \<times> u32) option" where
  "put_char c = (\<lambda>(buf, n, buf_size).
     if buf_size > 1 then do { buf \<leftarrow> store_at buf n [word_of_int c]; Some (buf, n + 1, buf_size - 1) }
     else Some (buf, n, buf_size))"

text \<open>A string literal, after its first quote: whether its second quote was there.\<close>

partial_function (option) quoted_loop ::
  "int \<Rightarrow> 's nkinfile \<Rightarrow> bytes \<times> nat \<times> u32 \<Rightarrow> (int \<times> 's nkinfile \<times> bytes \<times> nat \<times> u32) option" where
  "quoted_loop c f b =
     (if c \<noteq> -1 \<and> c \<noteq> chr (CHR 0x22) then do {
        (c, f) \<leftarrow> nk_fscan_escape f;
        if c = -1 then Some (c, f, b)
        else do {
          b \<leftarrow> put_char c b;
          c \<leftarrow> nk_fpeek f;
          quoted_loop c f b
        }
      }
      else Some (c, f, b))"

definition quoted :: "'s nkinfile \<Rightarrow> bytes \<times> nat \<times> u32 \<Rightarrow> (bool \<times> 's nkinfile \<times> bytes \<times> nat \<times> u32) option" where
  "quoted f b = do {
     (c, f) \<leftarrow> nk_fnext_fast f;
     (c, f, b) \<leftarrow> quoted_loop c f b;
     if c = chr (CHR 0x22) then do { (_, f) \<leftarrow> nk_fnext_fast f; Some (True, f, b) } else Some (False, f, b)
   }"

text \<open>The characters of a word or an identifier.\<close>

partial_function (option) plain_loop ::
  "(int \<Rightarrow> bool) \<Rightarrow> bool \<Rightarrow> int \<Rightarrow> int \<Rightarrow> bool \<Rightarrow> 's nkinfile \<Rightarrow> bytes \<times> nat \<times> u32 \<Rightarrow> (bool \<times> 's nkinfile \<times> bytes \<times> nat \<times> u32) option" where
  "plain_loop member quash_case c width status f b =
     (if width \<noteq> 0 \<and> member c then do {
        b \<leftarrow> put_char (if quash_case then nk_tolower c else c) b;
        (c, f) \<leftarrow> nk_fnext_fast f;
        plain_loop member quash_case c (width - 1) True f b
      }
      else Some (status, f, b))"

text \<open>The end of both: the NUL, or back to where the scan began.\<close>

definition scanned :: "bool \<Rightarrow> u32 \<Rightarrow> 's nkinfile \<Rightarrow> bytes \<times> nat \<times> u32 \<Rightarrow> (bool \<times> bytes \<times> 's nkinfile) option" where
  "scanned status orgpos f = (\<lambda>(buf, n, buf_size).
     if status then do {
       buf \<leftarrow> (if buf_size \<noteq> 0 then store_at buf n [0] else Some buf);
       Some (True, buf, f)
     }
     else do { (_, f) \<leftarrow> nk_fseek f orgpos; Some (False, buf, f) })"

definition word_char :: "int \<Rightarrow> bool" where
  "word_char c \<longleftrightarrow> c \<noteq> -1 \<and> \<not> nk_isspace c"

definition fscan_word :: "bool \<Rightarrow> 's nkinfile \<Rightarrow> bytes \<Rightarrow> int \<Rightarrow> u32 \<Rightarrow> (bool \<times> bytes \<times> 's nkinfile) option" where
  "fscan_word quash_case f buf width buf_size = do {
     let orgpos = nk_ftell f;
     c \<leftarrow> nk_fpeek f;
     (status, f, b) \<leftarrow> (if c = chr (CHR 0x22) then quoted f (buf, 0, buf_size)
        else plain_loop word_char quash_case c width False f (buf, 0, buf_size));
     scanned status orgpos f b
   }"

definition ident_start :: "int \<Rightarrow> bool" where
  "ident_start c \<longleftrightarrow> (c \<ge> chr (CHR ''a'') \<and> c \<le> chr (CHR ''z'')) \<or> (c \<ge> chr (CHR ''A'') \<and> c \<le> chr (CHR ''Z'')) \<or> c = chr (CHR ''_'')"

definition ident_char :: "int \<Rightarrow> bool" where
  "ident_char c \<longleftrightarrow> ident_start c \<or> is_digit c"

definition fscan_ident :: "bool \<Rightarrow> 's nkinfile \<Rightarrow> bytes \<Rightarrow> int \<Rightarrow> u32 \<Rightarrow> (bool \<times> bytes \<times> 's nkinfile) option" where
  "fscan_ident quash_case f buf width buf_size = do {
     let orgpos = nk_ftell f;
     c \<leftarrow> nk_fpeek f;
     (status, f, b) \<leftarrow> (if c = chr (CHR 0x22) then quoted f (buf, 0, buf_size)
        else if ident_start c then plain_loop ident_char quash_case c width False f (buf, 0, buf_size)
        else Some (False, f, buf, 0, buf_size));
     scanned status orgpos f b
   }"

definition nk_fscan_word :: "'s nkinfile \<Rightarrow> bytes \<Rightarrow> int \<Rightarrow> u32 \<Rightarrow> (bool \<times> bytes \<times> 's nkinfile) option" where
  "nk_fscan_word = fscan_word False"

definition nk_fiscan_word :: "'s nkinfile \<Rightarrow> bytes \<Rightarrow> int \<Rightarrow> u32 \<Rightarrow> (bool \<times> bytes \<times> 's nkinfile) option" where
  "nk_fiscan_word = fscan_word True"

definition nk_fscan_ident :: "'s nkinfile \<Rightarrow> bytes \<Rightarrow> int \<Rightarrow> u32 \<Rightarrow> (bool \<times> bytes \<times> 's nkinfile) option" where
  "nk_fscan_ident = fscan_ident False"

definition nk_fiscan_ident :: "'s nkinfile \<Rightarrow> bytes \<Rightarrow> int \<Rightarrow> u32 \<Rightarrow> (bool \<times> bytes \<times> 's nkinfile) option" where
  "nk_fiscan_ident = fscan_ident True"

text \<open>Numbers: the value, if there was one.\<close>

partial_function (option) number_loop ::
  "(int \<Rightarrow> bool) \<Rightarrow> (u64 \<Rightarrow> int \<Rightarrow> u64) \<Rightarrow> int \<Rightarrow> int \<Rightarrow> bool \<Rightarrow> u64 \<Rightarrow> 's nkinfile \<Rightarrow> (bool \<times> u64 \<times> 's nkinfile) option" where
  "number_loop member step c width status v f =
     (if width \<noteq> 0 \<and> member c then do {
        (c', f) \<leftarrow> nk_fnext_fast f;
        number_loop member step c' (width - 1) True (step v c) f
      }
      else Some (status, v, f))"

definition number_end :: "bool \<Rightarrow> u32 \<Rightarrow> u64 \<Rightarrow> 's nkinfile \<Rightarrow> (u64 option \<times> 's nkinfile) option" where
  "number_end status orgpos v f =
     (if status then Some (Some v, f) else do { (_, f) \<leftarrow> nk_fseek f orgpos; Some (None, f) })"

definition nk_fscan_hex :: "'s nkinfile \<Rightarrow> int \<Rightarrow> (u64 option \<times> 's nkinfile) option" where
  "nk_fscan_hex f width = do {
     let orgpos = nk_ftell f;
     c \<leftarrow> nk_fpeek f;
     (status, v, f) \<leftarrow> number_loop nk_isxdigit (\<lambda>v c. v * 16 + word_of_int (hex_value c)) c width False 0 f;
     number_end status orgpos v f
   }"

definition nk_fscan_dec :: "'s nkinfile \<Rightarrow> int \<Rightarrow> (u64 option \<times> 's nkinfile) option" where
  "nk_fscan_dec f width = do {
     let orgpos = nk_ftell f;
     c \<leftarrow> nk_fpeek f;
     let inv = (c = chr (CHR ''-''));
     (c, f) \<leftarrow> (if inv then nk_fnext_fast f else Some (c, f));
     (status, v, f) \<leftarrow> number_loop is_digit (\<lambda>v c. v * 10 + word_of_int (c - chr (CHR ''0''))) c width False 0 f;
     number_end status orgpos (if inv then - v else v) f
   }"

text \<open>The pointers a caller passes. Their order is that of the format; a word or an identifier takes a buffer and its size.\<close>

datatype 'k dest =
    PChar u8
  | PShort u16
  | PInt u32
  | PLong u32
  | PLongLong u64
  | PSize u32
  | PPtrdiff u32
  | PPtr u32
  | PDouble
  | PStr bytes u32
  | PKey 'k

text \<open>The switch on the size: 2 = long long, 1 = long, 0 = int, -1 = short, -2 = char, 10 = \<open>size_t\<close>, 20 = \<open>ptrdiff_t\<close>.
  With any other size nothing is stored.\<close>

fun store_number :: "int \<Rightarrow> u64 \<Rightarrow> 'k dest \<Rightarrow> 'k dest option" where
  "store_number sz val (PLongLong v) = (if sz = 2 then Some (PLongLong val) else if sz \<in> {1, 0, -1, -2, 10, 20} then None else Some (PLongLong v))"
| "store_number sz val (PLong v) = (if sz = 1 then Some (PLong (ucast val)) else if sz \<in> {2, 0, -1, -2, 10, 20} then None else Some (PLong v))"
| "store_number sz val (PInt v) = (if sz = 0 then Some (PInt (ucast val)) else if sz \<in> {2, 1, -1, -2, 10, 20} then None else Some (PInt v))"
| "store_number sz val (PShort v) = (if sz = -1 then Some (PShort (ucast val)) else if sz \<in> {2, 1, 0, -2, 10, 20} then None else Some (PShort v))"
| "store_number sz val (PChar v) = (if sz = -2 then Some (PChar (ucast val)) else if sz \<in> {2, 1, 0, -1, 10, 20} then None else Some (PChar v))"
| "store_number sz val (PSize v) = (if sz = 10 then Some (PSize (ucast val)) else if sz \<in> {2, 1, 0, -1, -2, 20} then None else Some (PSize v))"
| "store_number sz val (PPtrdiff v) = (if sz = 20 then Some (PPtrdiff (ucast val)) else if sz \<in> {2, 1, 0, -1, -2, 10} then None else Some (PPtrdiff v))"
| "store_number sz val d = (if sz \<in> {2, 1, 0, -1, -2, 10, 20} then None else Some d)"

fun store_pointer :: "u64 \<Rightarrow> 'k dest \<Rightarrow> 'k dest option" where
  "store_pointer val (PPtr v) = Some (PPtr (ucast val))"
| "store_pointer val _ = None"

text \<open>The field width is the sum of its digits.\<close>

fun scan_width_digits :: "int \<Rightarrow> string \<Rightarrow> int \<times> string" where
  "scan_width_digits width [] = (width, [])"
| "scan_width_digits width (c # fmt) =
     (if is_digit (chr c) then scan_width_digits (width + (chr c - chr (CHR ''0''))) fmt else (width, c # fmt))"

definition scan_width :: "string \<Rightarrow> int \<times> string" where
  "scan_width fmt =
     (case fmt of c # _ \<Rightarrow> if is_digit (chr c) then scan_width_digits 0 fmt else (-1, fmt) | [] \<Rightarrow> (-1, fmt))"

fun scan_size :: "int \<Rightarrow> string \<Rightarrow> int \<times> string" where
  "scan_size sz [] = (sz, [])"
| "scan_size sz (c # fmt) =
     (if c = CHR ''l'' then scan_size (sz + 1) fmt
      else if c = CHR ''h'' then scan_size (sz - 1) fmt
      else if c = CHR ''z'' then scan_size 10 fmt
      else if c = CHR ''t'' then scan_size 20 fmt
      else (sz, c # fmt))"

text \<open>What one conversion makes of the file and its argument: whether it matched.\<close>

definition scan_number :: "(int \<Rightarrow> 's nkinfile \<Rightarrow> (u64 option \<times> 's nkinfile) option) \<Rightarrow> (u64 \<Rightarrow> 'k dest \<Rightarrow> 'k dest option)
    \<Rightarrow> int \<Rightarrow> 's nkinfile \<Rightarrow> 'k dest \<Rightarrow> (bool \<times> 'k dest \<times> 's nkinfile) option" where
  "scan_number scan store width f d = do {
     (v, f) \<leftarrow> scan width f;
     case v of Some val \<Rightarrow> do { d \<leftarrow> store val d; Some (True, d, f) } | None \<Rightarrow> Some (False, d, f)
   }"

fun scan_string :: "('s nkinfile \<Rightarrow> bytes \<Rightarrow> int \<Rightarrow> u32 \<Rightarrow> (bool \<times> bytes \<times> 's nkinfile) option)
    \<Rightarrow> int \<Rightarrow> 's nkinfile \<Rightarrow> 'k dest \<Rightarrow> (bool \<times> 'k dest \<times> 's nkinfile) option" where
  "scan_string scan width f (PStr buf sz) = do { (ok, buf, f) \<leftarrow> scan f buf width sz; Some (ok, PStr buf sz, f) }"
| "scan_string scan width f _ = None"

fun scan_key :: "('s nkinfile \<Rightarrow> 'k \<Rightarrow> (bool \<times> 'k \<times> 's nkinfile) option) \<Rightarrow> 's nkinfile \<Rightarrow> 'k dest \<Rightarrow> (bool \<times> 'k dest \<times> 's nkinfile) option" where
  "scan_key keyval f (PKey k) = do { (ok, k, f) \<leftarrow> keyval f k; Some (ok, PKey k, f) }"
| "scan_key keyval f _ = None"

text \<open>\<open>nk_fscan_double\<close> without floating point.\<close>

definition nk_fscan_double :: "'s nkinfile \<Rightarrow> bool \<times> 's nkinfile" where
  "nk_fscan_double f = (False, f)"

fun scan_double :: "'s nkinfile \<Rightarrow> 'k dest \<Rightarrow> (bool \<times> 'k dest \<times> 's nkinfile) option" where
  "scan_double f PDouble = (let (ok, f) = nk_fscan_double f in Some (ok, PDouble, f))"
| "scan_double f _ = None"

definition scan_arg :: "('s nkinfile \<Rightarrow> 'k \<Rightarrow> (bool \<times> 'k \<times> 's nkinfile) option) \<Rightarrow> bool \<Rightarrow> char \<Rightarrow> int \<Rightarrow> int
    \<Rightarrow> 's nkinfile \<Rightarrow> 'k dest \<Rightarrow> (bool \<times> 'k dest \<times> 's nkinfile) option" where
  "scan_arg keyval ignore_case c width sz f d =
     (if c = CHR ''u'' \<or> c = CHR ''d'' then scan_number (\<lambda>w f. nk_fscan_dec f w) (store_number sz) width f d
      else if c = CHR ''x'' then scan_number (\<lambda>w f. nk_fscan_hex f w) (store_number sz) width f d
      else if c = CHR ''p'' then scan_number (\<lambda>w f. nk_fscan_hex f w) store_pointer width f d
      else if c = CHR ''v'' then scan_key keyval f d
      else if c = CHR ''w'' then scan_string (fscan_word ignore_case) width f d
      else if c = CHR ''i'' then scan_string (fscan_ident ignore_case) width f d
      else scan_double f d)"

text \<open>A literal character.\<close>

definition literal :: "bool \<Rightarrow> char \<Rightarrow> 's nkinfile \<Rightarrow> (bool \<times> 's nkinfile) option" where
  "literal ignore_case c f = do {
     d \<leftarrow> nk_fpeek f;
     if (if ignore_case then nk_tolower d \<noteq> nk_tolower (chr c) else d \<noteq> chr c) then Some (False, f)
     else do { (_, f) \<leftarrow> nk_fnext_fast f; Some (True, f) }
   }"

text \<open>The loop over the format. Its result is the status, the arguments after those that were used, in \<open>done\<close> the ones that
  were used, and the file; a mismatch leaves with status 0. A character after the percent sign that is no conversion is then read as a
  character of the format.\<close>

partial_function (option) vscan_loop ::
  "('s nkinfile \<Rightarrow> 'k \<Rightarrow> (bool \<times> 'k \<times> 's nkinfile) option) \<Rightarrow> bool \<Rightarrow> string \<Rightarrow> 'k dest list \<Rightarrow> 'k dest list \<Rightarrow> 's nkinfile
     \<Rightarrow> (bool \<times> 'k dest list \<times> 's nkinfile) option" where
  "vscan_loop keyval ignore_case fmt done ap f =
     (case fmt of
        [] \<Rightarrow> do { c \<leftarrow> nk_fpeek f; Some (c = -1, done @ ap, f) }
      | c # fmt' \<Rightarrow>
          if c = CHR '' '' \<or> chr c = 9 then do { f \<leftarrow> nk_fscan_ws f; vscan_loop keyval ignore_case fmt' done ap f }
          else if c = CHR ''%'' then do {
            let (width, fmt1) = scan_width fmt';
            let (sz, fmt2) = scan_size 0 fmt1;
            (case fmt2 of
               [] \<Rightarrow> vscan_loop keyval ignore_case [] done ap f
             | c # fmt3 \<Rightarrow>
                 if c = CHR ''%'' then do {
                   (ok, f) \<leftarrow> literal False c f;
                   if ok then vscan_loop keyval ignore_case fmt3 done ap f else Some (False, done @ ap, f)
                 }
                 else if c = CHR ''e'' then Some (True, done @ ap, f)
                 else if c \<in> set ''udxpvwifg'' then do {
                   (case ap of
                      [] \<Rightarrow> None
                    | d # ap \<Rightarrow> do {
                        (ok, d, f) \<leftarrow> scan_arg keyval ignore_case c width sz f d;
                        if ok then vscan_loop keyval ignore_case fmt3 (done @ [d]) ap f else Some (False, done @ d # ap, f)
                      })
                 }
                 else vscan_loop keyval ignore_case fmt2 done ap f)
          }
          else do {
            (ok, f) \<leftarrow> literal ignore_case c f;
            if ok then vscan_loop keyval ignore_case fmt' done ap f else Some (False, done @ ap, f)
          })"

definition vscan :: "('s nkinfile \<Rightarrow> 'k \<Rightarrow> (bool \<times> 'k \<times> 's nkinfile) option) \<Rightarrow> bool \<Rightarrow> 's nkinfile \<Rightarrow> string \<Rightarrow> 'k dest list
     \<Rightarrow> (bool \<times> 'k dest list \<times> 's nkinfile) option" where
  "vscan keyval ignore_case f fmt ap = do {
     let orgpos = nk_ftell f;
     (status, ap, f) \<leftarrow> vscan_loop keyval ignore_case fmt [] ap f;
     if status then Some (True, ap, f)
     else do { (_, f) \<leftarrow> nk_fseek f orgpos; Some (False, ap, f) }
   }"

definition nk_fscan :: "('s nkinfile \<Rightarrow> 'k \<Rightarrow> (bool \<times> 'k \<times> 's nkinfile) option) \<Rightarrow> 's nkinfile \<Rightarrow> string \<Rightarrow> 'k dest list
     \<Rightarrow> (bool \<times> 'k dest list \<times> 's nkinfile) option" where
  "nk_fscan keyval = vscan keyval False"

definition nk_fiscan :: "('s nkinfile \<Rightarrow> 'k \<Rightarrow> (bool \<times> 'k \<times> 's nkinfile) option) \<Rightarrow> 's nkinfile \<Rightarrow> string \<Rightarrow> 'k dest list
     \<Rightarrow> (bool \<times> 'k dest list \<times> 's nkinfile) option" where
  "nk_fiscan keyval = vscan keyval True"

section \<open>What a scan takes from a byte string\<close>

fun head_of :: "bytes \<Rightarrow> int" where
  "head_of [] = -1"
| "head_of (c # _) = uint c"

fun span_chars :: "(int \<Rightarrow> bool) \<Rightarrow> int \<Rightarrow> bytes \<Rightarrow> bytes \<times> bytes" where
  "span_chars member width [] = ([], [])"
| "span_chars member width (c # cs) =
     (if width \<noteq> 0 \<and> member (uint c) then (let (a, b) = span_chars member (width - 1) cs in (c # a, b)) else ([], c # cs))"

text \<open>An escape sequence stands for one character; one that is cut off by the end of the text for none.\<close>

definition escape_code :: "u8 \<Rightarrow> int" where
  "escape_code e =
     (case map_of [(0x61, 7), (0x62, 8), (0x65, 27), (0x66, 12), (0x6E, 10), (0x72, 13), (0x74, 9)] e of Some c \<Rightarrow> c | None \<Rightarrow> uint e)"

fun text_hex :: "bytes \<Rightarrow> int \<times> bytes" where
  "text_hex [] = (0, [])"
| "text_hex (d # ds) =
     (if nk_isxdigit (uint d) then
        (case ds of d2 # ds' \<Rightarrow> if nk_isxdigit (uint d2) then (hex_value (uint d) * 16 + hex_value (uint d2), ds') else (hex_value (uint d), ds)
         | [] \<Rightarrow> (hex_value (uint d), ds))
      else (0, d # ds))"

fun text_escape :: "bytes \<Rightarrow> int \<times> bytes" where
  "text_escape [] = (-1, [])"
| "text_escape (c # cs) =
     (if c \<noteq> 0x5C then (uint c, cs)
      else case cs of [] \<Rightarrow> (-1, []) | e # ds \<Rightarrow> if e = 0x78 then text_hex ds else (escape_code e, ds))"

lemma text_hex_shorter: "length (snd (text_hex ds)) \<le> length ds"
  by (cases ds) (auto split: list.splits)

lemma text_escape_shorter: "length (snd (text_escape (c # cs))) \<le> length cs"
  using text_hex_shorter by (auto split: list.splits intro: le_SucI)

function text_quoted :: "bytes \<Rightarrow> bool \<times> bytes \<times> bytes" where
  "text_quoted [] = (False, [], [])"
| "text_quoted (c # cs) =
     (if c = 0x22 then (True, [], cs)
      else if fst (text_escape (c # cs)) = -1 then (False, [], snd (text_escape (c # cs)))
      else let (ok, t, r) = text_quoted (snd (text_escape (c # cs))) in (ok, word_of_int (fst (text_escape (c # cs))) # t, r))"
  by pat_completeness auto
termination
proof (relation "measure length")
  show "(snd (text_escape (c # cs)), c # cs) \<in> measure length" for c cs
    using text_escape_shorter [of c cs] unfolding in_measure by (simp del: text_escape.simps)
qed simp

declare text_quoted.simps(2) [simp del]

text \<open>A word or an identifier: the text, if there is one.\<close>

definition lower :: "bool \<Rightarrow> u8 \<Rightarrow> u8" where
  "lower quash c = (if quash then word_of_int (nk_tolower (uint c)) else c)"

definition text_plain :: "(int \<Rightarrow> bool) \<Rightarrow> bool \<Rightarrow> int \<Rightarrow> bytes \<Rightarrow> (bytes \<times> bytes) option \<times> bytes" where
  "text_plain member quash width bs = (let (t, r) = span_chars member width bs in (if t = [] then None else Some (map (lower quash) t, r), map (lower quash) t))"

text \<open>The result is the text and the rest, or none, and what has been stored by then.\<close>

definition text_string :: "(int \<Rightarrow> bool) \<Rightarrow> (int \<Rightarrow> bool) \<Rightarrow> bool \<Rightarrow> int \<Rightarrow> bytes \<Rightarrow> (bytes \<times> bytes) option \<times> bytes" where
  "text_string start member quash width bs =
     (case bs of c # cs \<Rightarrow>
        if c = 0x22 then (let (ok, t, r) = text_quoted cs in (if ok then Some (t, r) else None, t))
        else if start (uint c) then text_plain member quash width bs
        else (None, [])
      | [] \<Rightarrow> (None, []))"

definition hex_step :: "u64 \<Rightarrow> u8 \<Rightarrow> u64" where
  "hex_step v c = v * 16 + word_of_int (hex_value (uint c))"

definition dec_step :: "u64 \<Rightarrow> u8 \<Rightarrow> u64" where
  "dec_step v c = v * 10 + word_of_int (uint c - 48)"

definition text_hexnum :: "int \<Rightarrow> bytes \<Rightarrow> (u64 \<times> bytes) option" where
  "text_hexnum width bs = (let (t, r) = span_chars nk_isxdigit width bs in if t = [] then None else Some (foldl hex_step 0 t, r))"

definition text_decnum :: "int \<Rightarrow> bytes \<Rightarrow> (u64 \<times> bytes) option" where
  "text_decnum width bs =
     (let neg = (case bs of c # _ \<Rightarrow> c = 0x2D | [] \<Rightarrow> False);
          (t, r) = span_chars is_digit width (if neg then tl bs else bs)
      in if t = [] then None else Some (let v = foldl dec_step 0 t in if neg then - v else v, r))"

section \<open>The buffer of a word\<close>

definition has_room :: "bytes \<times> nat \<times> u32 \<Rightarrow> bool" where
  "has_room = (\<lambda>(buf, n, sz). n + unat sz \<le> length buf)"

definition store_char :: "u8 \<Rightarrow> bytes \<times> nat \<times> u32 \<Rightarrow> bytes \<times> nat \<times> u32" where
  "store_char c = (\<lambda>(buf, n, sz). if sz > 1 then (buf[n := c], n + 1, sz - 1) else (buf, n, sz))"

abbreviation store_chars :: "bytes \<Rightarrow> bytes \<times> nat \<times> u32 \<Rightarrow> bytes \<times> nat \<times> u32" where
  "store_chars t b \<equiv> foldl (\<lambda>b c. store_char c b) b t"

lemma put_char_room: "has_room b \<Longrightarrow> put_char c b = Some (store_char (word_of_int c) b)"
  by (auto simp: has_room_def put_char_def store_char_def word_less_nat_alt store_at_single split: prod.split)

lemma has_room_store: "has_room b \<Longrightarrow> has_room (store_char c b)"
  by (auto simp: has_room_def store_char_def word_less_nat_alt unat_sub_no_wrap split: prod.split)

text \<open>The text that fits, and its NUL if there is room for anything.\<close>

definition filled :: "u32 \<Rightarrow> bytes \<Rightarrow> bytes \<Rightarrow> bytes" where
  "filled sz t buf = take (unat sz - 1) t @ drop (length (take (unat sz - 1) t)) buf"

lemma store_chars_filled:
  assumes "unat sz \<le> length buf"
  shows "store_chars t (buf, 0, sz) = (filled sz t buf, length (take (unat sz - 1) t), sz - word_of_nat (length (take (unat sz - 1) t)))"
proof (induction t rule: rev_induct)
  case (snoc c t)
  let ?m = "min (length t) (unat sz - 1)"
  have le: "?m \<le> unat sz" by simp
  then have "unat (word_of_nat ?m :: u32) = ?m" using unat_u32_less [of sz] by (intro unat_of_nat_u32) linarith
  then have m: "unat (sz - word_of_nat ?m) = unat sz - ?m" using le by (simp add: unat_sub_no_wrap)
  show ?case
  proof (cases "length t < unat sz - 1")
    case True
    then have "sz - word_of_nat ?m > 1" using m by (simp add: word_less_nat_alt)
    moreover have "(t @ drop (length t) buf)[length t := c] = t @ c # drop (Suc (length t)) buf"
      using True assms by (simp add: list_update_append Cons_nth_drop_Suc [symmetric])
    ultimately show ?thesis using snoc True by (simp add: store_char_def filled_def algebra_simps)
  next
    case False
    then have "\<not> sz - word_of_nat ?m > 1" using m by (simp add: word_less_nat_alt)
    then show ?thesis using snoc False by (simp add: store_char_def filled_def)
  qed
qed (simp add: filled_def)

section \<open>An input file as the text that is left\<close>

context reader
begin

definition reads :: "bytes \<Rightarrow> 's nkinfile \<Rightarrow> bytes \<Rightarrow> bool" where
  "reads data f bs \<longleftrightarrow> (\<exists>p. view f data p \<and> bs = drop p data)"

lemma reads_peek: "reads data f bs \<Longrightarrow> nk_fpeek f = Some (head_of bs)"
proof -
  assume "reads data f bs"
  then obtain p where p: "view f data p" "bs = drop p data" by (auto simp: reads_def)
  have "char_at data p = head_of bs"
    using p(2) by (cases "p < length data") (simp_all add: char_at_def Cons_nth_drop_Suc [symmetric])
  then show ?thesis using fpeek_view [OF p(1)] by simp
qed

lemma reads_next:
  assumes "reads data f (c # bs)"
  obtains f' where "nk_fnext_fast f = Some (head_of bs, f')" "reads data f' bs"
proof -
  obtain p where p: "view f data p" "c # bs = drop p data" using assms by (auto simp: reads_def)
  then have lt: "p < length data" by (metis drop_all linorder_not_less list.distinct(1))
  then have bs: "bs = drop (Suc p) data" using p(2) by (simp add: Cons_nth_drop_Suc [symmetric])
  obtain f' where f': "nk_fnext_fast f = Some (char_at data (Suc p), f')" "view f' data (Suc p)"
    using fnext_fast_view [OF p(1) lt] .
  have "char_at data (Suc p) = head_of bs"
    using bs by (cases "Suc p < length data") (simp_all add: char_at_def Cons_nth_drop_Suc [symmetric])
  then show ?thesis using that [of f'] f' bs by (auto simp: reads_def)
qed

lemma reads_seek:
  assumes "reads data f bs" "reads data f0 bs0"
  obtains f' where "nk_fseek f (nk_ftell f0) = Some (head_of bs0, f')" "reads data f' bs0"
proof -
  obtain p p0 where p: "view f data p" "view f0 data p0" "bs0 = drop p0 data" using assms by (auto simp: reads_def)
  have t: "unat (nk_ftell f0) = p0" using ftell_view [OF p(2)] .
  then obtain f' where f': "nk_fseek f (nk_ftell f0) = Some (char_at data p0, f')" "view f' data p0"
    using fseek_view [OF p(1), of "nk_ftell f0"] view_less [OF p(2)] by auto
  have "char_at data p0 = head_of bs0"
    using p(3) by (cases "p0 < length data") (simp_all add: char_at_def Cons_nth_drop_Suc [symmetric])
  then show ?thesis using that [of f'] f' p(3) by (auto simp: reads_def)
qed

lemma ws_loop_reads:
  "reads data f bs \<Longrightarrow> \<exists>f'. ws_loop (head_of bs) f = Some f' \<and> reads data f' (dropWhile (\<lambda>c. nk_isspace (uint c)) bs)"
proof (induction bs arbitrary: f)
  case Nil
  then show ?case by (subst ws_loop.simps) (simp add: nk_isspace_def)
next
  case (Cons c bs)
  then show ?case
    by (cases "nk_isspace (uint c)") (auto simp: ws_loop.simps [of "uint c"] elim: reads_next)
qed

lemma fscan_ws_reads:
  "reads data f bs \<Longrightarrow> \<exists>f'. nk_fscan_ws f = Some f' \<and> reads data f' (dropWhile (\<lambda>c. nk_isspace (uint c)) bs)"
  using ws_loop_reads by (simp add: nk_fscan_ws_def reads_peek)

lemma plain_loop_reads:
  assumes "\<not> mem (-1)"
  shows "reads data f bs \<Longrightarrow> has_room b \<Longrightarrow> \<exists>f'. plain_loop mem quash (head_of bs) width status f b =
      Some (status \<or> fst (span_chars mem width bs) \<noteq> [], f', store_chars (map (lower quash) (fst (span_chars mem width bs))) b)
    \<and> reads data f' (snd (span_chars mem width bs))"
proof (induction bs arbitrary: f width status b)
  case Nil
  then show ?case using assms by (subst plain_loop.simps) auto
next
  case (Cons c bs)
  show ?case
  proof (cases "width \<noteq> 0 \<and> mem (uint c)")
    case True
    obtain f1 where f1: "nk_fnext_fast f = Some (head_of bs, f1)" "reads data f1 bs" using reads_next [OF Cons.prems(1)] .
    have pc: "put_char (if quash then nk_tolower (uint c) else uint c) b = Some (store_char (lower quash c) b)"
      using put_char_room [OF Cons.prems(2)] by (simp add: lower_def)
    have step: "plain_loop mem quash (head_of (c # bs)) width status f b
        = plain_loop mem quash (head_of bs) (width - 1) True f1 (store_char (lower quash c) b)"
      unfolding head_of.simps using True f1(1) by (subst plain_loop.simps, subst pc) simp
    obtain t r where t: "span_chars mem (width - 1) bs = (t, r)" by fastforce
    from Cons.IH [OF f1(2) has_room_store [OF Cons.prems(2)], of "width - 1" True "lower quash c"] show ?thesis
      unfolding step using True t by simp
  next
    case False
    then show ?thesis using Cons.prems(1) by (subst plain_loop.simps) auto
  qed
qed

lemma number_loop_reads:
  assumes "\<not> mem (-1)"
  shows "reads data f bs \<Longrightarrow> \<exists>f'. number_loop mem step (head_of bs) width status v f =
      Some (status \<or> fst (span_chars mem width bs) \<noteq> [], foldl (\<lambda>v c. step v (uint c)) v (fst (span_chars mem width bs)), f')
    \<and> reads data f' (snd (span_chars mem width bs))"
proof (induction bs arbitrary: f width status v)
  case Nil
  then show ?case using assms by (subst number_loop.simps) auto
next
  case (Cons c bs)
  show ?case
  proof (cases "width \<noteq> 0 \<and> mem (uint c)")
    case True
    obtain f1 where f1: "nk_fnext_fast f = Some (head_of bs, f1)" "reads data f1 bs" using reads_next [OF Cons.prems] .
    from Cons.IH [OF f1(2), of "width - 1" True "step v (uint c)"] show ?thesis
      using True f1(1) by (subst number_loop.simps) (auto split: prod.splits)
  next
    case False
    then show ?thesis using Cons.prems by (subst number_loop.simps) auto
  qed
qed

lemma fscan_hex_reads:
  assumes "reads data f bs"
  shows "\<exists>f'. nk_fscan_hex f width = Some (map_option fst (text_hexnum width bs), f')
    \<and> reads data f' (case text_hexnum width bs of Some (_, r) \<Rightarrow> r | None \<Rightarrow> bs)"
proof -
  let ?t = "span_chars nk_isxdigit width bs"
  have m: "\<not> nk_isxdigit (-1)" by (simp add: nk_isxdigit_def is_digit_def)
  obtain f1 where f1: "number_loop nk_isxdigit (\<lambda>v c. v * 16 + word_of_int (hex_value c)) (head_of bs) width False 0 f
      = Some (fst ?t \<noteq> [], foldl hex_step 0 (fst ?t), f1)" "reads data f1 (snd ?t)"
    using number_loop_reads [where mem = nk_isxdigit and step = "\<lambda>v c. v * 16 + word_of_int (hex_value c)" and width = width and status = False and v = 0, OF m assms] unfolding hex_step_def by auto
  obtain f2 h where f2: "nk_fseek f1 (nk_ftell f) = Some (h, f2)" "reads data f2 bs" using reads_seek [OF f1(2) assms] .
  show ?thesis
    using f1 f2 by (cases "fst ?t = []") (auto simp: nk_fscan_hex_def reads_peek [OF assms] number_end_def text_hexnum_def Let_def split: prod.splits)
qed

lemma fscan_dec_reads:
  assumes "reads data f bs"
  shows "\<exists>f'. nk_fscan_dec f width = Some (map_option fst (text_decnum width bs), f')
    \<and> reads data f' (case text_decnum width bs of Some (_, r) \<Rightarrow> r | None \<Rightarrow> bs)"
proof -
  define neg where "neg = (case bs of c # _ \<Rightarrow> c = 0x2D | [] \<Rightarrow> False)"
  define ds where "ds = (if neg then tl bs else bs)"
  have neg: "(head_of bs = chr (CHR ''-'')) = neg" by (cases bs) (auto simp: neg_def word_uint_eq_iff)
  obtain f0 where f0: "(if neg then nk_fnext_fast f else Some (head_of bs, f)) = Some (head_of ds, f0)" "reads data f0 ds"
  proof (cases neg)
    case True
    then obtain c cs where bs: "bs = c # cs" by (cases bs) (auto simp: neg_def)
    obtain f' where "nk_fnext_fast f = Some (head_of cs, f')" "reads data f' cs" using reads_next assms unfolding bs by blast
    then show ?thesis using that [of f'] True bs by (simp add: ds_def)
  qed (use that assms in \<open>simp add: ds_def\<close>)
  have m: "\<not> is_digit (-1)" by (simp add: is_digit_def)
  obtain t r where t: "span_chars is_digit width ds = (t, r)" by fastforce
  obtain f1 where f1: "number_loop is_digit (\<lambda>v c. v * 10 + word_of_int (c - chr (CHR ''0''))) (head_of ds) width False 0 f0
      = Some (t \<noteq> [], foldl dec_step 0 t, f1)" "reads data f1 r"
    using number_loop_reads [where mem = is_digit and step = "\<lambda>v c. v * 10 + word_of_int (c - chr (CHR ''0''))" and width = width
      and status = False and v = 0, OF m f0(2)] t unfolding dec_step_def by auto
  obtain f2 h where f2: "nk_fseek f1 (nk_ftell f) = Some (h, f2)" "reads data f2 bs" using reads_seek [OF f1(2) assms] .
  have "nk_fscan_dec f width = number_end (t \<noteq> []) (nk_ftell f) (if neg then - foldl dec_step 0 t else foldl dec_step 0 t) f1"
    unfolding nk_fscan_dec_def Let_def using f0(1) f1(1) neg by (cases neg) (simp_all add: reads_peek [OF assms] reads_peek [OF f0(2)])
  moreover have "text_decnum width bs = (if t = [] then None else Some (if neg then - foldl dec_step 0 t else foldl dec_step 0 t, r))"
    unfolding text_decnum_def Let_def neg_def [symmetric] ds_def [symmetric] t by simp
  ultimately show ?thesis
    using f1(2) f2 by (cases "t = []") (auto simp: number_end_def)
qed

end

lemma uint_not_minus_1 [simp]: "uint (c :: u8) \<noteq> -1"
proof
  assume "uint c = -1"
  then show False using uint_ge_0 [of c] by linarith
qed

context reader
begin

lemma escape_hex_reads:
  assumes "reads data f ds"
  shows "\<exists>f'. escape_hex (head_of ds) f = Some (fst (text_hex ds), f') \<and> reads data f' (snd (text_hex ds))"
proof -
  have m: "\<not> nk_isxdigit (-1)" by (simp add: nk_isxdigit_def is_digit_def)
  show ?thesis
  proof (cases ds)
    case Nil
    then show ?thesis using assms m by (simp add: escape_hex_def)
  next
    case (Cons d ds1)
    show ?thesis
    proof (cases "nk_isxdigit (uint d)")
      case False
      then show ?thesis using assms Cons by (simp add: escape_hex_def)
    next
      case True
      obtain f1 where f1: "nk_fnext_fast f = Some (head_of ds1, f1)" "reads data f1 ds1" using reads_next assms unfolding Cons by blast
      show ?thesis
      proof (cases "\<exists>d2 ds2. ds1 = d2 # ds2 \<and> nk_isxdigit (uint d2)")
        case two: True
        then obtain d2 ds2 where d2: "ds1 = d2 # ds2" "nk_isxdigit (uint d2)" by blast
        obtain f2 where "nk_fnext_fast f1 = Some (head_of ds2, f2)" "reads data f2 ds2" using reads_next f1(2) unfolding d2 by blast
        then show ?thesis using True f1 d2 Cons by (simp add: escape_hex_def)
      next
        case one: False
        then have "\<not> nk_isxdigit (head_of ds1)" using m by (cases ds1) auto
        moreover have "text_hex ds = (hex_value (uint d), ds1)" using one True Cons by (auto split: list.splits)
        ultimately show ?thesis using True f1 Cons by (simp add: escape_hex_def)
      qed
    qed
  qed
qed

lemma escape_reads:
  assumes "reads data f bs"
  shows "\<exists>f'. nk_fscan_escape f = Some (fst (text_escape bs), f') \<and> reads data f' (snd (text_escape bs))"
proof (cases bs)
  case Nil
  then show ?thesis using assms reads_peek [OF assms] by (simp add: nk_fscan_escape_def)
next
  case (Cons c cs)
  obtain f1 where f1: "nk_fnext_fast f = Some (head_of cs, f1)" "reads data f1 cs" using reads_next assms unfolding Cons by blast
  have c: "(uint c = chr (CHR 0x5C)) = (c = 0x5C)" by (auto simp: word_uint_eq_iff)
  show ?thesis
  proof (cases "c = 0x5C")
    case False
    then show ?thesis using f1 reads_peek [OF assms] Cons c by (simp add: nk_fscan_escape_def)
  next
    case True
    show ?thesis
    proof (cases cs)
      case Nil
      then show ?thesis using f1 reads_peek [OF assms] Cons True by (simp add: nk_fscan_escape_def)
    next
      case e: (Cons e ds)
      obtain f2 where f2: "nk_fnext_fast f1 = Some (head_of ds, f2)" "reads data f2 ds" using reads_next f1(2) unfolding e by blast
      have start: "nk_fscan_escape f = (if uint e = chr (CHR ''a'') then Some (7, f2)
         else if uint e = chr (CHR ''b'') then Some (8, f2)
         else if uint e = chr (CHR ''e'') then Some (27, f2)
         else if uint e = chr (CHR ''f'') then Some (12, f2)
         else if uint e = chr (CHR ''n'') then Some (10, f2)
         else if uint e = chr (CHR ''r'') then Some (13, f2)
         else if uint e = chr (CHR ''t'') then Some (9, f2)
         else if uint e = chr (CHR 0x5C) then Some (chr (CHR 0x5C), f2)
         else if uint e = chr (CHR ''x'') then escape_hex (head_of ds) f2
         else Some (uint e, f2))"
        using f1(1) f2(1) reads_peek [OF assms] Cons True e by (simp add: nk_fscan_escape_def)
      have code: "uint e = k \<longleftrightarrow> e = word_of_int k" if "0 \<le> k" "k < 256" for k
        using that by (auto simp: word_uint_eq_iff uint_word_of_int)
      show ?thesis
      proof (cases "e = 0x78")
        case True
        then show ?thesis using start escape_hex_reads [OF f2(2)] Cons e \<open>c = 0x5C\<close> by simp
      next
        case False
        then have "nk_fscan_escape f = Some (escape_code e, f2)"
          using start by (simp add: code escape_code_def)
        then show ?thesis using f2(2) False Cons e \<open>c = 0x5C\<close> by simp
      qed
    qed
  qed
qed

lemma quoted_loop_reads:
  "reads data f bs \<Longrightarrow> has_room b \<Longrightarrow> \<exists>f' c. quoted_loop (head_of bs) f b = Some (c, f', store_chars (fst (snd (text_quoted bs))) b)
    \<and> (if fst (text_quoted bs) then c = chr (CHR 0x22) \<and> reads data f' (0x22 # snd (snd (text_quoted bs)))
       else c = -1 \<and> reads data f' (snd (snd (text_quoted bs))))"
proof (induction bs arbitrary: f b rule: text_quoted.induct)
  case 1
  then show ?case by (subst quoted_loop.simps) simp
next
  case (2 c cs)
  have c: "(uint c = chr (CHR 0x22)) = (c = 0x22)" "uint c \<noteq> -1"
    by (auto simp: word_uint_eq_iff)
  show ?case
  proof (cases "c = 0x22")
    case True
    then show ?thesis using "2.prems"(1) by (subst quoted_loop.simps) (simp add: text_quoted.simps)
  next
    case False
    define i r where "i = fst (text_escape (c # cs))" and "r = snd (text_escape (c # cs))"
    obtain f1 where f1: "nk_fscan_escape f = Some (i, f1)" "reads data f1 r"
      using escape_reads [OF "2.prems"(1)] unfolding i_def r_def by blast
    show ?thesis
    proof (cases "i = -1")
      case True
      then have "text_quoted (c # cs) = (False, [], r)" using False unfolding i_def r_def by (subst text_quoted.simps) (simp del: text_escape.simps)
      then show ?thesis using False c f1 True by (subst quoted_loop.simps) simp
    next
      case i: False
      obtain ok t r' where q: "text_quoted r = (ok, t, r')" by (metis prod_cases3)
      have tq: "text_quoted (c # cs) = (ok, word_of_int i # t, r')"
        using False i q unfolding i_def r_def by (subst text_quoted.simps) (simp del: text_escape.simps)
      have "quoted_loop (head_of (c # cs)) f b = quoted_loop (head_of r) f1 (store_char (word_of_int i) b)"
        using False c f1 i put_char_room [OF "2.prems"(2)] reads_peek [OF f1(2)] by (subst quoted_loop.simps) simp
      moreover have "\<exists>f' c. quoted_loop (head_of r) f1 (store_char (word_of_int i) b) = Some (c, f', store_chars (fst (snd (text_quoted r))) (store_char (word_of_int i) b))
        \<and> (if fst (text_quoted r) then c = chr (CHR 0x22) \<and> reads data f' (0x22 # snd (snd (text_quoted r)))
           else c = -1 \<and> reads data f' (snd (snd (text_quoted r))))"
        using "2.IH" [OF False] i f1(2) has_room_store [OF "2.prems"(2)] unfolding i_def r_def by blast
      ultimately show ?thesis by (cases ok) (simp_all add: tq q)
    qed
  qed
qed

lemma quoted_reads:
  assumes "reads data f (0x22 # bs)" "has_room b"
  shows "\<exists>f'. quoted f b = Some (fst (text_quoted bs), f', store_chars (fst (snd (text_quoted bs))) b) \<and> reads data f' (snd (snd (text_quoted bs)))"
proof -
  obtain f1 where f1: "nk_fnext_fast f = Some (head_of bs, f1)" "reads data f1 bs" using reads_next [OF assms(1)] .
  obtain f2 c where f2: "quoted_loop (head_of bs) f1 b = Some (c, f2, store_chars (fst (snd (text_quoted bs))) b)"
    "if fst (text_quoted bs) then c = chr (CHR 0x22) \<and> reads data f2 (0x22 # snd (snd (text_quoted bs)))
       else c = -1 \<and> reads data f2 (snd (snd (text_quoted bs)))"
    using quoted_loop_reads [OF f1(2) assms(2)] by blast
  show ?thesis
  proof (cases "fst (text_quoted bs)")
    case True
    then have c: "c = chr (CHR 0x22)" "reads data f2 (0x22 # snd (snd (text_quoted bs)))" using f2(2) by simp_all
    obtain f3 where "nk_fnext_fast f2 = Some (head_of (snd (snd (text_quoted bs))), f3)" "reads data f3 (snd (snd (text_quoted bs)))"
      using reads_next [OF c(2)] .
    then show ?thesis using f1(1) f2(1) c(1) True by (simp add: quoted_def)
  next
    case False
    then show ?thesis using f1(1) f2 by (simp add: quoted_def)
  qed
qed

end

text \<open>What is in the buffer of a word after the scan: the text that fits with its NUL, or what was stored when it failed.\<close>

definition stored_word :: "u32 \<Rightarrow> bytes \<Rightarrow> bytes \<Rightarrow> bytes" where
  "stored_word sz t buf = (if sz = 0 then buf else take (unat sz - 1) t @ 0 # drop (length (take (unat sz - 1) t) + 1) buf)"

lemma stored_word_eval:
  assumes "unat sz \<le> length buf"
  shows "(case store_chars t (buf, 0, sz) of (buf', n, sz') \<Rightarrow> if sz' \<noteq> 0 then store_at buf' n [0] else Some buf') = Some (stored_word sz t buf)"
proof (cases "sz = 0")
  case True
  then show ?thesis using store_chars_filled [OF assms, of t] by (simp add: filled_def stored_word_def)
next
  case False
  let ?m = "length (take (unat sz - 1) t)"
  have "0 < unat sz" using False by (simp add: unat_gt_0)
  then have lt: "?m < unat sz" by simp
  then have m: "unat (word_of_nat ?m :: u32) = ?m" using unat_u32_less [of sz] by (intro unat_of_nat_u32) linarith
  then have "unat (sz - word_of_nat ?m) = unat sz - ?m" using lt by (subst unat_sub_no_wrap) simp_all
  then have "sz - word_of_nat ?m \<noteq> 0" using lt by (metis (no_types) unat_0 zero_less_diff less_irrefl)
  moreover have "store_at (take (unat sz - 1) t @ drop ?m buf) ?m [0] = Some (take (unat sz - 1) t @ 0 # drop (?m + 1) buf)"
    using lt assms by (simp add: store_at_def del: length_take) (simp add: min_def)
  ultimately show ?thesis using False store_chars_filled [OF assms, of t] by (simp add: filled_def stored_word_def)
qed

context reader
begin

lemma scanned_reads:
  assumes "reads data f1 r" "reads data f bs" "unat sz \<le> length buf"
  shows "\<exists>f'. scanned good (nk_ftell f) f1 (store_chars t (buf, 0, sz)) = Some (good, if good then stored_word sz t buf else filled sz t buf, f')
    \<and> reads data f' (if good then r else bs)"
proof -
  obtain f2 h where f2: "nk_fseek f1 (nk_ftell f) = Some (h, f2)" "reads data f2 bs" using reads_seek [OF assms(1,2)] .
  obtain n sz' where b: "store_chars t (buf, 0, sz) = (filled sz t buf, n, sz')" using store_chars_filled [OF assms(3)] by blast
  have e: "(if sz' \<noteq> 0 then store_at (filled sz t buf) n [0] else Some (filled sz t buf)) = Some (stored_word sz t buf)"
    using stored_word_eval [OF assms(3), of t] unfolding b by simp
  show ?thesis
  proof (cases good)
    case True
    then show ?thesis using assms(1) e unfolding b scanned_def by simp
  next
    case False
    then show ?thesis using f2 unfolding b scanned_def by simp
  qed
qed

text \<open>Words and identifiers.\<close>

lemma string_reads:
  assumes r: "reads data f bs" and sz: "unat sz \<le> length buf" and m: "\<not> member (-1)" "\<And>c. start c \<Longrightarrow> member c"
    and t: "text_string start member quash width bs = (m, t)"
    and first: "\<And>c. first c = start c \<or> (first = (\<lambda>_. True) \<and> start = member)"
  shows "\<exists>f'. do {
      c \<leftarrow> nk_fpeek f;
      (status, f', b) \<leftarrow> (if c = chr (CHR 0x22) then quoted f (buf, 0, sz)
        else if first c then plain_loop member quash c width False f (buf, 0, sz) else Some (False, f, buf, 0, sz));
      scanned status (nk_ftell f) f' b } = Some (m \<noteq> None, if m \<noteq> None then stored_word sz t buf else filled sz t buf, f')
    \<and> reads data f' (case m of Some (_, r) \<Rightarrow> r | None \<Rightarrow> bs)"
proof -
  have room: "has_room (buf, 0, sz)" using sz by (simp add: has_room_def)
  have peek: "nk_fpeek f = Some (head_of bs)" using reads_peek [OF r] .
  have q: "(head_of bs = chr (CHR 0x22)) = (\<exists>cs. bs = 0x22 # cs)" by (cases bs) (auto simp: word_uint_eq_iff)
  let ?b = "store_chars t (buf, 0, sz)"
  obtain f1 r1 where f1: "(if head_of bs = chr (CHR 0x22) then quoted f (buf, 0, sz)
        else if first (head_of bs) then plain_loop member quash (head_of bs) width False f (buf, 0, sz) else Some (False, f, buf, 0, sz))
      = Some (m \<noteq> None, f1, ?b)" "reads data f1 r1" "m \<noteq> None \<Longrightarrow> \<exists>x. m = Some (x, r1)"
  proof (cases "head_of bs = chr (CHR 0x22)")
    case True
    then obtain cs where bs: "bs = 0x22 # cs" using q by blast
    obtain good u r' where tq: "text_quoted cs = (good, u, r')" by (metis prod_cases3)
    have "(m, t) = (if good then Some (u, r') else None, u)" using t bs tq by (simp add: text_string_def)
    then show ?thesis using that quoted_reads [of data f cs "(buf, 0, sz)"] r room bs True tq by (auto split: if_splits)
  next
    case False
    then have nq: "\<nexists>cs. bs = 0x22 # cs" using q by blast
    obtain u r' where sp: "span_chars member width bs = (u, r')" by fastforce
    have plain: "\<exists>f'. plain_loop member quash (head_of bs) width False f (buf, 0, sz) = Some (u \<noteq> [], f', store_chars (map (lower quash) u) (buf, 0, sz)) \<and> reads data f' r'"
      using plain_loop_reads [where mem = member and quash = quash and width = width and status = False, OF m(1) r room] sp by simp
    show ?thesis
    proof (cases "bs \<noteq> [] \<and> start (head_of bs)")
      case True
      then obtain c cs where bs: "bs = c # cs" by (cases bs) auto
      have "(m, t) = (if u = [] then None else Some (map (lower quash) u, r'), map (lower quash) u)"
        using t True nq bs sp by (auto simp: text_string_def text_plain_def)
      moreover have "first (head_of bs)" using True first [of "head_of bs"] by auto
      ultimately show ?thesis using that plain False by (auto split: if_splits)
    next
      case none: False
      then have mt: "m = None" "t = []" using t nq by (auto simp: text_string_def split: list.splits)
      show ?thesis
      proof (cases "first (head_of bs)")
        case True
        have "start = member"
        proof (rule ccontr)
          assume "start \<noteq> member"
          then have "first c = start c" for c using first by blast
          then show False using True none m by (cases bs) auto
        qed
        then have "u = []" using sp none by (cases bs) (auto split: if_splits)
        then show ?thesis using that plain False True mt by auto
      next
        case nf: False
        then show ?thesis using that [of f bs] r False mt by simp
      qed
    qed
  qed
  from scanned_reads [OF f1(2) r sz, of "m \<noteq> None" t] obtain f2 where
    "scanned (m \<noteq> None) (nk_ftell f) f1 ?b = Some (m \<noteq> None, if m \<noteq> None then stored_word sz t buf else filled sz t buf, f2)"
    "reads data f2 (if m \<noteq> None then r1 else bs)" by blast
  then show ?thesis using peek f1(1,3) by (cases m) auto
qed

lemma fscan_word_reads:
  assumes "reads data f bs" "unat sz \<le> length buf" "text_string word_char word_char quash width bs = (m, t)"
  shows "\<exists>f'. fscan_word quash f buf width sz = Some (m \<noteq> None, if m \<noteq> None then stored_word sz t buf else filled sz t buf, f')
    \<and> reads data f' (case m of Some (_, r) \<Rightarrow> r | None \<Rightarrow> bs)"
  using string_reads [where first = "\<lambda>_. True", OF assms(1,2) _ _ assms(3)]
  unfolding fscan_word_def Let_def if_True by (simp add: word_char_def)

lemma fscan_ident_reads:
  assumes "reads data f bs" "unat sz \<le> length buf" "text_string ident_start ident_char quash width bs = (m, t)"
  shows "\<exists>f'. fscan_ident quash f buf width sz = Some (m \<noteq> None, if m \<noteq> None then stored_word sz t buf else filled sz t buf, f')
    \<and> reads data f' (case m of Some (_, r) \<Rightarrow> r | None \<Rightarrow> bs)"
  using string_reads [where first = ident_start, OF assms(1,2) _ _ assms(3)]
  unfolding fscan_ident_def Let_def by (simp add: ident_char_def ident_start_def is_digit_def)

end

section \<open>The items of a format\<close>

datatype scan_item = Blank | Percent | Lit char | Conv char int int | Done

lemma scan_width_digits_shorter: "length (snd (scan_width_digits w fmt)) \<le> length fmt"
  by (induction w fmt rule: scan_width_digits.induct) auto

lemma scan_width_shorter: "length (snd (scan_width fmt)) \<le> length fmt"
  using scan_width_digits_shorter [of 0 fmt] by (auto simp: scan_width_def split: list.split)

lemma scan_size_shorter: "length (snd (scan_size s fmt)) \<le> length fmt"
  by (induction s fmt rule: scan_size.induct) auto

definition conv_chars :: string where
  "conv_chars = ''udxpvwifg''"

function scan_items :: "string \<Rightarrow> scan_item list" where
  "scan_items [] = []"
| "scan_items (c # fmt) =
     (if c = CHR '' '' \<or> chr c = 9 then Blank # scan_items fmt
      else if c = CHR ''%'' then
        (let w = fst (scan_width fmt); s = fst (scan_size 0 (snd (scan_width fmt))); fmt2 = snd (scan_size 0 (snd (scan_width fmt)))
         in if fmt2 = [] then []
            else if hd fmt2 = CHR ''%'' then Percent # scan_items (tl fmt2)
            else if hd fmt2 = CHR ''e'' then [Done]
            else if hd fmt2 \<in> set conv_chars then Conv (hd fmt2) w s # scan_items (tl fmt2)
            else scan_items fmt2)
      else Lit c # scan_items fmt)"
  by pat_completeness auto
termination
proof (relation "measure length")
  fix c fmt w s fmt2
  assume "fmt2 = snd (scan_size 0 (snd (scan_width fmt)))"
  then have "length fmt2 \<le> length fmt" using scan_size_shorter scan_width_shorter le_trans by blast
  then show "(tl fmt2, c # fmt) \<in> measure length" "(tl fmt2, c # fmt) \<in> measure length" "(fmt2, c # fmt) \<in> measure length" by simp_all
qed simp_all

declare scan_items.simps(2) [simp del]

text \<open>One conversion on the text that is left: whether it matches, its argument afterwards, and the rest.\<close>

definition match_number :: "(u64 \<times> bytes) option \<Rightarrow> (u64 \<Rightarrow> 'k dest \<Rightarrow> 'k dest option) \<Rightarrow> bytes \<Rightarrow> 'k dest \<Rightarrow> (bool \<times> 'k dest \<times> bytes) option" where
  "match_number n store bs d = (case n of Some (v, r) \<Rightarrow> map_option (\<lambda>d. (True, d, r)) (store v d) | None \<Rightarrow> Some (False, d, bs))"

definition match_string :: "(bytes \<times> bytes) option \<times> bytes \<Rightarrow> bytes \<Rightarrow> 'k dest \<Rightarrow> (bool \<times> 'k dest \<times> bytes) option" where
  "match_string = (\<lambda>(m, t) bs d. case d of
       PStr buf sz \<Rightarrow> if unat sz \<le> length buf then
           Some (case m of Some (_, r) \<Rightarrow> (True, PStr (stored_word sz t buf) sz, r) | None \<Rightarrow> (False, PStr (filled sz t buf) sz, bs))
         else None
     | _ \<Rightarrow> None)"

definition match_arg :: "('k \<Rightarrow> bytes \<Rightarrow> (bool \<times> 'k \<times> bytes) option) \<Rightarrow> bool \<Rightarrow> char \<Rightarrow> int \<Rightarrow> int \<Rightarrow> bytes \<Rightarrow> 'k dest \<Rightarrow> (bool \<times> 'k dest \<times> bytes) option" where
  "match_arg key quash c width sz bs d =
     (if c = CHR ''u'' \<or> c = CHR ''d'' then match_number (text_decnum width bs) (store_number sz) bs d
      else if c = CHR ''x'' then match_number (text_hexnum width bs) (store_number sz) bs d
      else if c = CHR ''p'' then match_number (text_hexnum width bs) store_pointer bs d
      else if c = CHR ''v'' then (case d of PKey k \<Rightarrow> map_option (\<lambda>(ok, k, r). (ok, PKey k, r)) (key k bs) | _ \<Rightarrow> None)
      else if c = CHR ''w'' then match_string (text_string word_char word_char quash width bs) bs d
      else if c = CHR ''i'' then match_string (text_string ident_start ident_char quash width bs) bs d
      else (case d of PDouble \<Rightarrow> Some (False, PDouble, bs) | _ \<Rightarrow> None))"

definition same_char :: "bool \<Rightarrow> char \<Rightarrow> u8 \<Rightarrow> bool" where
  "same_char quash c d \<longleftrightarrow> (if quash then nk_tolower (uint d) = nk_tolower (chr c) else uint d = chr c)"

text \<open>The items are matched one after the other; the end of the format wants the end of the text.\<close>

fun match_items :: "('k \<Rightarrow> bytes \<Rightarrow> (bool \<times> 'k \<times> bytes) option) \<Rightarrow> bool \<Rightarrow> scan_item list \<Rightarrow> 'k dest list \<Rightarrow> bytes \<Rightarrow> (bool \<times> 'k dest list \<times> bytes) option" where
  "match_items key quash [] ap bs = Some (bs = [], ap, bs)"
| "match_items key quash (Blank # is) ap bs = match_items key quash is ap (dropWhile (\<lambda>c. nk_isspace (uint c)) bs)"
| "match_items key quash (Percent # is) ap bs =
     (case bs of d # r \<Rightarrow> if same_char False (CHR ''%'') d then match_items key quash is ap r else Some (False, ap, bs) | [] \<Rightarrow> Some (False, ap, bs))"
| "match_items key quash (Lit c # is) ap bs =
     (case bs of d # r \<Rightarrow> if same_char quash c d then match_items key quash is ap r else Some (False, ap, bs) | [] \<Rightarrow> Some (False, ap, bs))"
| "match_items key quash (Conv c w s # is) ap bs =
     (case ap of d # ap \<Rightarrow> do {
          (ok, d, r) \<leftarrow> match_arg key quash c w s bs d;
          if ok then map_option (\<lambda>(ok, ap, r). (ok, d # ap, r)) (match_items key quash is ap r) else Some (False, d # ap, r)
        }
      | [] \<Rightarrow> None)"
| "match_items key quash (Done # is) ap bs = Some (True, ap, bs)"

section \<open>The code matches the items\<close>

lemma chr_nonneg: "0 \<le> chr c"
  by (metis of_nat_0_le_iff of_nat_of_char)

lemma chr_not_eof: "chr c \<noteq> -1" "nk_tolower (chr c) \<noteq> -1" "nk_tolower (-1) = -1"
  using chr_nonneg [of c] by (auto simp: nk_tolower_def)

context reader
begin

definition key_matches :: "('s nkinfile \<Rightarrow> 'k \<Rightarrow> (bool \<times> 'k \<times> 's nkinfile) option) \<Rightarrow> ('k \<Rightarrow> bytes \<Rightarrow> (bool \<times> 'k \<times> bytes) option) \<Rightarrow> bool" where
  "key_matches keyval key \<longleftrightarrow> (\<forall>data f bs k good k' r. reads data f bs \<longrightarrow> key k bs = Some (good, k', r) \<longrightarrow>
     (\<exists>f'. keyval f k = Some (good, k', f') \<and> reads data f' r))"

lemma number_arg_reads:
  assumes "match_number n store bs d = Some (good, d', r)" "reads data f bs"
    and "\<exists>f'. scan width f = Some (map_option fst n, f') \<and> reads data f' (case n of Some (_, r) \<Rightarrow> r | None \<Rightarrow> bs)"
  shows "\<exists>f'. scan_number scan store width f d = Some (good, d', f') \<and> reads data f' r"
  using assms by (cases n) (auto simp: match_number_def scan_number_def)

lemma string_arg_reads:
  assumes "match_string (m, t) bs d = Some (good, d', r)" "reads data f bs"
    and "\<And>buf sz. unat sz \<le> length buf \<Longrightarrow> \<exists>f'. scan f buf width sz = Some (m \<noteq> None, if m \<noteq> None then stored_word sz t buf else filled sz t buf, f')
      \<and> reads data f' (case m of Some (_, r) \<Rightarrow> r | None \<Rightarrow> bs)"
  shows "\<exists>f'. scan_string scan width f d = Some (good, d', f') \<and> reads data f' r"
proof (cases d)
  case (PStr buf sz)
  then have le: "unat sz \<le> length buf" using assms(1) by (simp add: match_string_def split: if_splits)
  show ?thesis using assms(1) assms(3) [OF le] PStr le by (cases m) (auto simp: match_string_def)
qed (use assms(1) in \<open>simp_all add: match_string_def\<close>)

lemma arg_reads:
  assumes key: "key_matches keyval key" and m: "match_arg key quash c w s bs d = Some (good, d', r)" and f: "reads data f bs" and c: "c \<in> set conv_chars"
  shows "\<exists>f'. scan_arg keyval quash c w s f d = Some (good, d', f') \<and> reads data f' r"
proof -
  consider "c = CHR ''u'' \<or> c = CHR ''d''" | "c = CHR ''x''" | "c = CHR ''p''" | "c = CHR ''v''" | "c = CHR ''w''" | "c = CHR ''i''" | "c = CHR ''f'' \<or> c = CHR ''g''"
    using c by (auto simp: conv_chars_def)
  then show ?thesis
  proof cases
    case 1
    then show ?thesis using number_arg_reads [OF _ f, where scan = "\<lambda>w f. nk_fscan_dec f w" and n = "text_decnum w bs" and width = w and store = "store_number s" and d = d and good = good and d' = d' and r = r] m fscan_dec_reads [OF f, of w] fscan_hex_reads [OF f, of w]
      by (auto simp: match_arg_def scan_arg_def)
  next
    case 2
    then show ?thesis using number_arg_reads [OF _ f, where scan = "\<lambda>w f. nk_fscan_hex f w" and n = "text_hexnum w bs" and width = w and store = "store_number s" and d = d and good = good and d' = d' and r = r] m fscan_dec_reads [OF f, of w] fscan_hex_reads [OF f, of w]
      by (simp add: match_arg_def scan_arg_def)
  next
    case 3
    then show ?thesis using number_arg_reads [OF _ f, where scan = "\<lambda>w f. nk_fscan_hex f w" and n = "text_hexnum w bs" and width = w and store = store_pointer and d = d and good = good and d' = d' and r = r] m fscan_dec_reads [OF f, of w] fscan_hex_reads [OF f, of w]
      by (simp add: match_arg_def scan_arg_def)
  next
    case 4
    then obtain k k' where "d = PKey k" "key k bs = Some (good, k', r)" "d' = PKey k'"
      using m by (cases d) (auto simp: match_arg_def)
    moreover from this obtain f' where "keyval f k = Some (good, k', f')" "reads data f' r" using key f unfolding key_matches_def by blast
    ultimately show ?thesis using 4 by (simp add: scan_arg_def)
  next
    case 5
    obtain m0 t where t: "text_string word_char word_char quash w bs = (m0, t)" by fastforce
    have ms: "match_string (m0, t) bs d = Some (good, d', r)" using m 5 t by (simp add: match_arg_def)
    have "\<exists>f'. scan_string (fscan_word quash) w f d = Some (good, d', f') \<and> reads data f' r"
      by (rule string_arg_reads [OF ms f]) (rule fscan_word_reads [OF f _ t])
    then show ?thesis using 5 by (simp add: scan_arg_def)
  next
    case 6
    obtain m0 t where t: "text_string ident_start ident_char quash w bs = (m0, t)" by fastforce
    have ms: "match_string (m0, t) bs d = Some (good, d', r)" using m 6 t by (simp add: match_arg_def)
    have "\<exists>f'. scan_string (fscan_ident quash) w f d = Some (good, d', f') \<and> reads data f' r"
      by (rule string_arg_reads [OF ms f]) (rule fscan_ident_reads [OF f _ t])
    then show ?thesis using 6 by (simp add: scan_arg_def)
  next
    case 7
    then have "match_arg key quash c w s bs d = (case d of PDouble \<Rightarrow> Some (False, PDouble, bs) | _ \<Rightarrow> None)" by (elim disjE) (simp_all add: match_arg_def)
    then have "d = PDouble \<and> \<not> good \<and> d' = PDouble \<and> r = bs" using m by (cases d) simp_all
    moreover have "scan_arg keyval quash c w s f d = scan_double f d" using 7 by (elim disjE) (simp_all add: scan_arg_def)
    ultimately show ?thesis using f by (simp add: nk_fscan_double_def)
  qed
qed

lemma literal_reads:
  assumes "reads data f bs"
  shows "\<exists>f'. literal quash c f = Some (case bs of d # r \<Rightarrow> same_char quash c d | [] \<Rightarrow> False, f')
    \<and> reads data f' (case bs of d # r \<Rightarrow> if same_char quash c d then r else bs | [] \<Rightarrow> bs)"
proof (cases bs)
  case Nil
  have "(if quash then nk_tolower (-1) \<noteq> nk_tolower (chr c) else -1 \<noteq> chr c)" using chr_not_eof(1,2) [of c] by (simp add: chr_not_eof(3))
  then show ?thesis using assms reads_peek [OF assms] Nil by (simp add: literal_def)
next
  case (Cons d r)
  obtain f1 where "nk_fnext_fast f = Some (head_of r, f1)" "reads data f1 r" using reads_next assms unfolding Cons by blast
  then show ?thesis using assms reads_peek [OF assms] Cons by (auto simp: literal_def same_char_def)
qed

lemma vscan_loop_reads:
  assumes key: "key_matches keyval key"
  shows "match_items key quash (scan_items fmt) ap bs = Some (good, ap', r) \<Longrightarrow> reads data f bs \<Longrightarrow>
    \<exists>f'. vscan_loop keyval quash fmt before ap f = Some (good, before @ ap', f') \<and> reads data f' r"
proof (induction fmt arbitrary: ap bs f before ap' r rule: scan_items.induct)
  case 1
  then show ?case using reads_peek [OF "1.prems"(2)] by (cases bs; subst vscan_loop.simps) auto
next
  case (2 c fmt)
  note items = "2.prems"(1) and f = "2.prems"(2)
  obtain w fmt1 where sw: "scan_width fmt = (w, fmt1)" by fastforce
  obtain s fmt2 where ss: "scan_size 0 fmt1 = (s, fmt2)" by fastforce
  let ?blank = "c = CHR '' '' \<or> chr c = 9"
  consider "?blank" | "\<not> ?blank" "c = CHR ''%''" | "\<not> ?blank" "c \<noteq> CHR ''%''" by blast
  then show ?case
  proof cases
    case 1
    obtain f1 where f1: "nk_fscan_ws f = Some f1" "reads data f1 (dropWhile (\<lambda>c. nk_isspace (uint c)) bs)" using fscan_ws_reads [OF f] by blast
    have "match_items key quash (scan_items fmt) ap (dropWhile (\<lambda>c. nk_isspace (uint c)) bs) = Some (good, ap', r)"
      using items 1 by (simp add: scan_items.simps)
    from "2.IH"(1) [OF 1 this f1(2)] show ?thesis using 1 f1(1) by (subst vscan_loop.simps) auto
  next
    case 3
    obtain f1 where f1: "literal quash c f = Some (case bs of d # r \<Rightarrow> same_char quash c d | [] \<Rightarrow> False, f1)"
      "reads data f1 (case bs of d # r \<Rightarrow> if same_char quash c d then r else bs | [] \<Rightarrow> bs)" using literal_reads [OF f] by blast
    show ?thesis
    proof (cases "\<exists>d r. bs = d # r \<and> same_char quash c d")
      case True
      then obtain d bs1 where d: "bs = d # bs1" "same_char quash c d" by blast
      then have "match_items key quash (scan_items fmt) ap bs1 = Some (good, ap', r)" "reads data f1 bs1" using items 3 f1(2) by (simp_all add: scan_items.simps)
      from "2.IH"(5) [OF 3 this] show ?thesis using 3 f1(1) d by (subst vscan_loop.simps) auto
    next
      case False
      then have "(good, ap', r) = (False, ap, bs)" "reads data f1 bs" using items 3 f1(2) by (auto simp: scan_items.simps split: list.splits)
      moreover have "(case bs of d # r \<Rightarrow> same_char quash c d | [] \<Rightarrow> False) = False" using False by (auto split: list.splits)
      ultimately show ?thesis using 3 f1(1) by (subst vscan_loop.simps) auto
    qed
  next
    case 2
    note not_blank = 2(1) and pct = 2(2)
    have step: "vscan_loop keyval quash (c # fmt) before ap f = (case fmt2 of
         [] \<Rightarrow> vscan_loop keyval quash [] before ap f
       | c # fmt3 \<Rightarrow>
           if c = CHR ''%'' then do {
             (ok, f) \<leftarrow> literal False c f;
             if ok then vscan_loop keyval quash fmt3 before ap f else Some (False, before @ ap, f)
           }
           else if c = CHR ''e'' then Some (True, before @ ap, f)
           else if c \<in> set ''udxpvwifg'' then do {
             (case ap of
                [] \<Rightarrow> None
              | d # ap \<Rightarrow> do {
                  (ok, d, f) \<leftarrow> scan_arg keyval quash c w s f d;
                  if ok then vscan_loop keyval quash fmt3 (before @ [d]) ap f else Some (False, before @ d # ap, f)
                })
           }
           else vscan_loop keyval quash fmt2 before ap f)"
      using not_blank pct by (subst vscan_loop.simps) (simp add: sw ss)
    have its: "scan_items (c # fmt) = (if fmt2 = [] then []
            else if hd fmt2 = CHR ''%'' then Percent # scan_items (tl fmt2)
            else if hd fmt2 = CHR ''e'' then [Done]
            else if hd fmt2 \<in> set conv_chars then Conv (hd fmt2) w s # scan_items (tl fmt2)
            else scan_items fmt2)"
      using not_blank pct by (subst scan_items.simps) (simp add: sw ss Let_def)
    show ?thesis
    proof (cases fmt2)
      case Nil
      then show ?thesis using items f reads_peek [OF f] unfolding its step by (cases bs; simp; subst vscan_loop.simps) auto
    next
      case (Cons c2 fmt3)
      note ih = "2.IH"(2-4) [OF not_blank pct refl refl refl, unfolded sw ss fst_conv snd_conv Cons list.sel, simplified]
      consider "c2 = CHR ''%''" | "c2 \<noteq> CHR ''%''" "c2 = CHR ''e''" | "c2 \<noteq> CHR ''%''" "c2 \<noteq> CHR ''e''" "c2 \<in> set conv_chars"
        | "c2 \<noteq> CHR ''%''" "c2 \<noteq> CHR ''e''" "c2 \<notin> set conv_chars" by blast
      then show ?thesis
      proof cases
        case 1
        obtain f1 where f1: "literal False c2 f = Some (case bs of d # r \<Rightarrow> same_char False c2 d | [] \<Rightarrow> False, f1)"
          "reads data f1 (case bs of d # r \<Rightarrow> if same_char False c2 d then r else bs | [] \<Rightarrow> bs)" using literal_reads [OF f] by blast
        show ?thesis
        proof (cases "\<exists>d r. bs = d # r \<and> same_char False c2 d")
          case True
          then obtain d bs1 where d: "bs = d # bs1" "same_char False c2 d" by blast
          then have "match_items key quash (scan_items fmt3) ap bs1 = Some (good, ap', r)" "reads data f1 bs1"
            using items f1(2) Cons 1 unfolding its by simp_all
          from ih(1) [OF 1 this] show ?thesis using f1(1) d Cons 1 unfolding step by simp
        next
          case False
          then have "(good, ap', r) = (False, ap, bs)" "reads data f1 bs" using items f1(2) Cons 1 unfolding its by (auto split: list.splits)
          moreover have "(case bs of d # r \<Rightarrow> same_char False c2 d | [] \<Rightarrow> False) = False" using False by (auto split: list.splits)
          ultimately show ?thesis using f1(1) Cons 1 unfolding step by simp
        qed
      next
        case 2
        then show ?thesis using items f Cons unfolding its step by simp
      next
        case 3
        obtain d ap1 where ap: "ap = d # ap1" using items Cons 3 unfolding its by (cases ap) auto
        obtain ok1 d1 r1 where m: "match_arg key quash c2 w s bs d = Some (ok1, d1, r1)"
          using items Cons 3 ap unfolding its by (cases "match_arg key quash c2 w s bs d") auto
        obtain f1 where f1: "scan_arg keyval quash c2 w s f d = Some (ok1, d1, f1)" "reads data f1 r1" using arg_reads [OF key m f 3(3)] by blast
        show ?thesis
        proof (cases ok1)
          case True
          then obtain ap2 where ap2: "match_items key quash (scan_items fmt3) ap1 r1 = Some (good, ap2, r)" "ap' = d1 # ap2"
            using items Cons 3 ap m unfolding its by auto
          from ih(2) [OF 3 ap2(1) f1(2), of "before @ [d1]"] show ?thesis
            using True f1(1) ap ap2(2) Cons 3 unfolding step conv_chars_def by simp
        next
          case False
          then show ?thesis using items f1 ap m Cons 3 unfolding its step by (auto simp: conv_chars_def)
        qed
      next
        case 4
        from ih(3) [OF 4, folded Cons] items f show ?thesis using 4 Cons unfolding its step conv_chars_def by simp
      qed
    qed
  qed
qed

end

section \<open>Arguments that fit a format\<close>

fun fits_arg :: "char \<Rightarrow> int \<Rightarrow> 'k dest \<Rightarrow> bool" where
  "fits_arg c sz d =
     (if c \<in> set ''udx'' then store_number sz 0 d \<noteq> None
      else if c = CHR ''p'' then store_pointer 0 d \<noteq> None
      else if c = CHR ''v'' then (case d of PKey _ \<Rightarrow> True | _ \<Rightarrow> False)
      else if c \<in> set ''wi'' then (case d of PStr buf sz \<Rightarrow> unat sz \<le> length buf | _ \<Rightarrow> False)
      else d = PDouble)"

fun fits :: "scan_item list \<Rightarrow> 'k dest list \<Rightarrow> bool" where
  "fits (Conv c w s # is) (d # ap) \<longleftrightarrow> fits_arg c s d \<and> fits is ap"
| "fits (Conv c w s # is) [] \<longleftrightarrow> False"
| "fits (Done # is) ap \<longleftrightarrow> True"
| "fits (_ # is) ap \<longleftrightarrow> fits is ap"
| "fits [] ap \<longleftrightarrow> True"

lemma store_number_total: "store_number sz 0 d \<noteq> None \<Longrightarrow> store_number sz v d \<noteq> None"
  by (cases d) (auto split: if_splits)

lemma store_pointer_total: "store_pointer 0 d \<noteq> None \<Longrightarrow> store_pointer v d \<noteq> None"
  by (cases d) auto

lemma match_number_total: "(\<And>v. store v d \<noteq> None) \<Longrightarrow> match_number n store bs d \<noteq> None"
  by (auto simp: match_number_def split: option.split)

lemma match_string_total:
  "(case d of PStr buf sz \<Rightarrow> unat sz \<le> length buf | _ \<Rightarrow> False) \<Longrightarrow> match_string mt bs d \<noteq> None"
  by (cases d; cases mt; cases "fst mt") (auto simp: match_string_def)

lemma match_arg_total:
  assumes "fits_arg c s d" "\<And>k bs. key k bs \<noteq> None"
  shows "match_arg key quash c w s bs d \<noteq> None"
proof (cases "c \<in> set ''udx''")
  case True
  then have "store_number s 0 d \<noteq> None" using assms(1) by simp
  then have "store_number s v d \<noteq> None" for v by (rule store_number_total)
  then have "match_number n (store_number s) bs d \<noteq> None" for n by (rule match_number_total)
  then show ?thesis using True by (auto simp: match_arg_def)
next
  case num: False
  show ?thesis
  proof (cases "c = CHR ''p''")
    case True
    then have "store_pointer 0 d \<noteq> None" using assms(1) by simp
    then have "store_pointer v d \<noteq> None" for v by (rule store_pointer_total)
    then have "match_number n store_pointer bs d \<noteq> None" for n by (rule match_number_total)
    then show ?thesis using True by (simp add: match_arg_def)
  next
    case False
    show ?thesis
    proof (cases "c = CHR ''v''")
      case True
      then show ?thesis using assms by (cases d) (simp_all add: match_arg_def del: not_None_eq)
    next
      case key: False
      then show ?thesis
        using num False assms(1) match_string_total [of d] by (cases d) (auto simp: match_arg_def split: if_splits)
    qed
  qed
qed

lemma match_items_total:
  "fits is ap \<Longrightarrow> (\<And>k bs. key k bs \<noteq> None) \<Longrightarrow> match_items key quash is ap bs \<noteq> None"
proof (induction "is" arbitrary: ap bs)
  case (Cons i "is")
  show ?case
  proof (cases i)
    case (Conv c w s)
    then obtain d ap1 where ap: "ap = d # ap1" "fits_arg c s d" "fits is ap1" using Cons.prems(1) by (cases ap) auto
    obtain good d1 r where m: "match_arg key quash c w s bs d = Some (good, d1, r)"
      using match_arg_total [where key = key, OF ap(2) Cons.prems(2), of quash w bs] by (metis not_None_eq prod_cases3)
    show ?thesis using Cons.IH [OF ap(3) Cons.prems(2), of r] m Conv ap(1) by auto
  qed (use Cons.prems Cons.IH in \<open>auto split: list.split\<close>)
qed simp

section \<open>Printed numbers are read back\<close>

lemma span_all:
  "width < 0 \<Longrightarrow> \<forall>c\<in>set t. mem (uint c) \<Longrightarrow> (case rest of c # _ \<Rightarrow> \<not> mem (uint c) | [] \<Rightarrow> True) \<Longrightarrow> span_chars mem width (t @ rest) = (t, rest)"
proof (induction t arbitrary: width)
  case Nil
  then show ?case by (cases rest) auto
next
  case (Cons c t)
  then show ?case using Cons.IH [of "width - 1"] by simp
qed

lemma uint_digit_char: "d < 16 \<Longrightarrow> uint (digit_char False d) = (if d < 10 then 48 + int d else 87 + int d)"
  by (simp add: digit_char_def uint_word_of_int unsigned_of_nat take_bit_eq_mod del: of_nat_add)

lemma digit_chars:
  assumes "d < 10"
  shows "is_digit (uint (digit_char False d))" "dec_step v (digit_char False d) = v * 10 + word_of_nat d"
  using assms by (simp_all add: is_digit_def dec_step_def uint_digit_char)

lemma hex_chars:
  assumes "d < 16"
  shows "nk_isxdigit (uint (digit_char False d))" "hex_step v (digit_char False d) = v * 16 + word_of_nat d"
  using assms by (auto simp: nk_isxdigit_def is_digit_def hex_step_def hex_value_def uint_digit_char)

lemma fold_digits:
  assumes "\<And>v d. d < b \<Longrightarrow> step v (digit_char False d) = v * word_of_nat b + (word_of_nat d :: u64)" "list_all (\<lambda>d. d < b) ds"
  shows "foldl step (word_of_nat n) (map (digit_char False) ds) = word_of_nat (foldl (\<lambda>n d. n * b + d) n ds)"
  using assms(2)
proof (induction ds arbitrary: n)
  case (Cons d ds)
  then show ?case using Cons.IH [of "n * b + d"] assms(1) [of d "word_of_nat n"] by simp
qed simp

text \<open>The text of a number is read as that number, modulo \<open>2 ^ 64\<close>.\<close>

lemma number_text_read:
  assumes b: "1 < b" "\<And>v d. d < b \<Longrightarrow> step v (digit_char False d) = v * word_of_nat b + (word_of_nat d :: u64)"
    and m: "\<And>d. d < b \<Longrightarrow> mem (uint (digit_char False d))" and r: "case rest of c # _ \<Rightarrow> \<not> mem (uint c) | [] \<Rightarrow> True"
  shows "\<exists>t. span_chars mem (-1) (number_text b False n @ rest) = (t, rest) \<and> t = number_text b False n \<and> t \<noteq> [] \<and> foldl step 0 t = word_of_nat n"
proof -
  let ?ds = "if n = 0 then [0] else num_digits b n"
  have t: "number_text b False n = map (digit_char False) ?ds" by (simp add: number_text_def digit_char_def)
  have v: "foldl (\<lambda>n d. n * b + d) 0 ?ds = n" "list_all (\<lambda>d. d < b) ?ds"
    using digits_value_num [OF b(1), of n] b(1) by (auto simp: digits_value_def)
  have "?ds \<noteq> []" using v(1) by auto
  moreover have "foldl step 0 (map (digit_char False) ?ds) = word_of_nat n"
    using fold_digits [of b step ?ds 0, OF b(2) v(2)] v(1) by simp
  moreover have "span_chars mem (-1) (map (digit_char False) ?ds @ rest) = (map (digit_char False) ?ds, rest)"
    using v(2) m r by (intro span_all) (auto simp: list_all_iff)
  ultimately show ?thesis unfolding t by simp
qed

lemma decnum_read:
  assumes "case rest of c # _ \<Rightarrow> \<not> is_digit (uint c) | [] \<Rightarrow> True"
  shows "text_decnum (-1) (number_text 10 False n @ rest) = Some (word_of_nat n, rest)"
    "text_decnum (-1) (45 # number_text 10 False n @ rest) = Some (- word_of_nat n, rest)"
proof -
  obtain t where t: "span_chars is_digit (-1) (number_text 10 False n @ rest) = (t, rest)" "t = number_text 10 False n" "t \<noteq> []" "foldl dec_step 0 t = word_of_nat n"
    using number_text_read [of 10 dec_step is_digit rest n] digit_chars assms by auto
  have "\<forall>c\<in>set t. is_digit (uint c)"
  proof -
    have "list_all (\<lambda>d. d < 10) (if n = 0 then [0] else num_digits 10 n)" using digits_value_num [of 10 n] by simp
    then show ?thesis using digit_chars(1) unfolding t(2) number_text_def by (auto simp: list_all_iff is_digit_def)
  qed
  then have "\<not> (case t @ rest of c # _ \<Rightarrow> c = 0x2D | [] \<Rightarrow> False)" using t(3) by (cases t) (auto simp: is_digit_def)
  then show "text_decnum (-1) (number_text 10 False n @ rest) = Some (word_of_nat n, rest)"
    using t unfolding text_decnum_def Let_def t(2) [symmetric] by simp
  show "text_decnum (-1) (45 # number_text 10 False n @ rest) = Some (- word_of_nat n, rest)"
    using t unfolding text_decnum_def Let_def t(2) [symmetric] by simp
qed

lemma hexnum_read:
  assumes "case rest of c # _ \<Rightarrow> \<not> nk_isxdigit (uint c) | [] \<Rightarrow> True"
  shows "text_hexnum (-1) (number_text 16 False n @ rest) = Some (word_of_nat n, rest)"
  using number_text_read [of 16 hex_step nk_isxdigit rest n] hex_chars assms by (auto simp: text_hexnum_def)

lemma ucast_word_of_int: "ucast (word_of_int k :: u64) = (word_of_int k :: u32)"
  by (rule bit_word_eqI) (simp add: bit_simps)

lemma ucast_minus: "ucast (- word_of_nat n :: u64) = (- word_of_nat n :: u32)"
proof -
  have "(- word_of_nat n :: u64) = word_of_int (- int n)" "(- word_of_nat n :: u32) = word_of_int (- int n)" by simp_all
  then show ?thesis by (metis ucast_word_of_int)
qed

lemma abs_sint: "(if sint v < 0 then - word_of_nat (nat \<bar>sint v\<bar>) else word_of_nat (nat \<bar>sint v\<bar>)) = (v :: u32)"
proof -
  have n: "(word_of_nat (nat k) :: u32) = word_of_int k" if "0 \<le> k" for k
    using that by (metis int_nat_eq of_int_of_nat_eq)
  show ?thesis
  proof (cases "sint v < 0")
    case True
    then have "- word_of_nat (nat \<bar>sint v\<bar>) = (word_of_int (sint v) :: u32)"
      using n [of "- sint v"] by (simp add: abs_if)
    then show ?thesis using True by (simp only: if_True) simp
  next
    case False
    then have "word_of_nat (nat \<bar>sint v\<bar>) = (word_of_int (sint v) :: u32)"
      using n [of "sint v"] by (simp add: abs_if)
    then show ?thesis using False by (simp only: if_False) simp
  qed
qed

lemma sint_scast_u64: "sint (scast (v :: u32) :: u64) = sint v"
  by (rule sint_up_scast) (simp add: is_up)

lemma is_up_u32_u64: "is_up (ucast :: u32 \<Rightarrow> u64)"
  by (simp add: is_up)

lemma unat_ucast_u64: "unat (ucast (v :: u32) :: u64) = unat v"
  using uint_up_ucast [of v, where 'b = 64] is_up_u32_u64 unfolding unat_eq_nat_uint by presburger

lemmas int_text_simps = parse_directive_def parse_number_def no_directive_def conversion_text_def field_def sign_text_def Let_def

lemma print_int_text:
  "vformat ''%d'' [VInt v] = Some ((if sint v < 0 then [45] else []) @ number_text 10 False (nat \<bar>sint v\<bar>))"
  "vformat ''%u'' [VInt v] = Some (number_text 10 False (unat v))"
  "vformat ''%x'' [VInt v] = Some (number_text 16 False (unat v))"
proof -
  define s u :: u64 where "s = scast v" and "u = ucast v"
  have "va_signed 0 [VInt v] = Some (s, [])" "\<And>p. va_unsigned False 0 [VInt v] = Some (u, [])" by (simp_all add: s_def u_def)
  then show "vformat ''%d'' [VInt v] = Some ((if sint v < 0 then [45] else []) @ number_text 10 False (nat \<bar>sint v\<bar>))"
    "vformat ''%u'' [VInt v] = Some (number_text 10 False (unat v))"
    "vformat ''%x'' [VInt v] = Some (number_text 16 False (unat v))"
    unfolding sint_scast_u64 [of v, folded s_def, symmetric] unat_ucast_u64 [of v, folded u_def, symmetric]
    by (simp_all add: int_text_simps del: va_signed.simps va_unsigned.simps)
qed

context reader
begin

lemma vscan_reads:
  assumes key: "key_matches keyval key" and f: "reads data f bs" and m: "match_items key quash (scan_items fmt) ap bs = Some (good, ap', r)"
  shows "\<exists>f'. vscan keyval quash f fmt ap = Some (good, ap', f') \<and> reads data f' (if good then r else bs)"
proof -
  obtain f1 where f1: "vscan_loop keyval quash fmt [] ap f = Some (good, ap', f1)" "reads data f1 r"
    using vscan_loop_reads [OF key m f, of "[]"] by auto
  obtain f2 h where f2: "nk_fseek f1 (nk_ftell f) = Some (h, f2)" "reads data f2 bs" using reads_seek [OF f1(2) f] .
  show ?thesis using f1 f2 by (cases good) (simp_all add: vscan_def)
qed

lemma scan_int_reads:
  fixes keyval :: "'s nkinfile \<Rightarrow> 'k \<Rightarrow> (bool \<times> 'k \<times> 's nkinfile) option"
  assumes f: "reads data f (t @ rest)" and c: "c \<in> set ''dux''" and t: "vformat [CHR ''%'', c] [VInt v] = Some t"
    and r: "case rest of c # _ \<Rightarrow> \<not> nk_isxdigit (uint c) | [] \<Rightarrow> True"
  shows "\<exists>f'. nk_fscan keyval f (CHR ''%'' # c # ''%e'') [PInt w] = Some (True, [PInt v], f') \<and> reads data f' rest"
proof -
  have dig: "case rest of c # _ \<Rightarrow> \<not> is_digit (uint c) | [] \<Rightarrow> True" using r by (cases rest) (auto simp: nk_isxdigit_def)
  have un: "ucast (word_of_nat (unat v) :: u64) = v"
    using ucast_word_of_int [of "int (unat v)"] by simp
  have mn: "match_number (Some (n, rest)) (store_number 0) (t @ rest) (PInt w :: 'k dest) = Some (True, PInt v, rest)" if "ucast n = v" for n
    using that by (simp add: match_number_def)
  have t: "t = (if c = CHR ''d'' then (if sint v < 0 then [45] else []) @ number_text 10 False (nat \<bar>sint v\<bar>)
      else number_text (if c = CHR ''x'' then 16 else 10) False (unat v))"
    using t c print_int_text by auto
  have "match_arg (\<lambda>_ _. None) False c (-1) 0 (t @ rest) (PInt w :: 'k dest) = Some (True, PInt v, rest)"
  proof (cases "c = CHR ''x''")
    case True
    then show ?thesis using mn [OF un] hexnum_read [OF r, of "unat v"] t by (simp add: match_arg_def)
  next
    case False
    obtain n where "text_decnum (-1) (t @ rest) = Some (n, rest)" "ucast n = v"
    proof (cases "c = CHR ''d''")
      case True
      let ?n = "nat \<bar>sint v\<bar>"
      show ?thesis
      proof (cases "sint v < 0")
        case neg: True
        then have "- (word_of_nat ?n :: u32) = v" using abs_sint [of v] by simp
        moreover have "t = 45 # number_text 10 False ?n" using True neg t by simp
        ultimately show ?thesis using that [of "- word_of_nat ?n"] decnum_read(2) [OF dig, of ?n] unfolding ucast_minus by simp
      next
        case pos: False
        then have "(word_of_nat ?n :: u32) = v" using abs_sint [of v] by simp
        moreover have "ucast (word_of_nat ?n :: u64) = (word_of_nat ?n :: u32)" using ucast_word_of_int [of "int ?n"] by simp
        ultimately show ?thesis using that [of "word_of_nat ?n"] decnum_read(1) [OF dig, of ?n] True pos t by simp
      qed
    next
      case u: False
      then show ?thesis using that [OF _ un] decnum_read(1) [OF dig, of "unat v"] False t by simp
    qed
    then show ?thesis using mn False c by (auto simp: match_arg_def)
  qed
  moreover have "scan_items (CHR ''%'' # c # ''%e'') = [Conv c (-1) 0, Done]"
    using c by (auto simp: scan_items.simps scan_width_def is_digit_def conv_chars_def)
  ultimately have "match_items (\<lambda>_ _. None) False (scan_items (CHR ''%'' # c # ''%e'')) [PInt w :: 'k dest] (t @ rest) = Some (True, [PInt v], rest)"
    by simp
  moreover have "key_matches keyval (\<lambda>_ _. None)" by (simp add: key_matches_def)
  ultimately show ?thesis using vscan_reads [OF _ f] unfolding nk_fscan_def by fastforce
qed

end

section \<open>Properties\<close>


lemma open_mem_reads:
  "length data < 2 ^ 32 \<Longrightarrow> mem_file.reads data (nkinfile_open_mem null (data @ rest) (word_of_nat (length data))) data"
  using open_mem_view [of data null rest] by (auto simp: mem_file.reads_def)


text \<open>What the formatted output routine prints for an integer with \<open>%d\<close>, \<open>%u\<close> or \<open>%x\<close>, the scanner reads back with
  the same conversion as the same 32-bit integer, whatever it is and whatever text follows that does not go on with a digit, and stops
  right behind it.\<close>
theorem printed_int_scans_back:
  fixes ok :: "'s nkinfile \<Rightarrow> bytes \<Rightarrow> bool" and keyval :: "'s nkinfile \<Rightarrow> 'k \<Rightarrow> (bool \<times> 'k \<times> 's nkinfile) option"
  assumes r: "reader ok" and c: "c \<in> set ''dux''" and t: "vformat [CHR ''%'', c] [VInt v] = Some t"
    and f: "reader.reads ok data f (t @ rest)" and rest: "case rest of c # _ \<Rightarrow> \<not> nk_isxdigit (uint c) | [] \<Rightarrow> True"
  shows "\<exists>f'. nk_fscan keyval f (CHR ''%'' # c # ''%e'') [PInt w] = Some (True, [PInt v], f') \<and> reader.reads ok data f' rest"
  by (rule reader.scan_int_reads [OF r f c t rest])

theorem printed_int_scans_back_witness:
  "\<exists>f'. nk_fscan (\<lambda>f (k :: unit). None) (nkinfile_open_mem () [45, 0x31, 0x32, 0x2C] 4) ''%d%e'' [PInt 0] = Some (True, [PInt (- 12)], f')"
proof -
  have r: "mem_file.reads [45, 0x31, 0x32, 0x2C] (nkinfile_open_mem () [45, 0x31, 0x32, 0x2C] 4) ([45, 0x31, 0x32] @ [0x2C])"
    using open_mem_reads [of "[45, 0x31, 0x32, 0x2C]" "()" "[]"] by simp
  have p: "vformat ''%d'' [VInt (- 12)] = Some [45, 0x31, 0x32]" by (simp add: vformat_eval)
  have c: "CHR ''d'' \<in> set ''dux''" by simp
  from printed_int_scans_back [OF mem_file.reader_axioms c p r, of "\<lambda>f (k :: unit). None" 0] show ?thesis
    by (auto simp: nk_isxdigit_def is_digit_def)
qed

end
