(* ===== verification/Cli.thy ===== *)
theory Cli
  imports Readline Scan "HOL-Library.Sublist" "HOL-Library.Multiset" "HOL-Library.List_Lexorder"
begin

unbundle bit_operations_syntax

text \<open>
  The command interpreter, \<^verbatim>\<open>libnklabs/src/nkcli.c\<close>, with two commands of the application (\<^verbatim>\<open>basic_cmds.c\<close>) and the texts of the
  command table. The texts are C strings, with their NUL; a pointer into a text is an index, and a read outside it is \<open>None\<close>.
  The function of a command is named by a constructor; the functions that are not modelled are the parameter \<open>run\<close>, over a state that
  has the rest of the system in \<open>world\<close>. The console is the line editor of the theory \<open>Readline\<close>, which in turn calls
  \<open>nk_complete\<close> and \<open>nk_help\<close>: these return what they print.
\<close>

section \<open>The command table\<close>

datatype 'o command = Cmd_help | Cmd_echo | Cmd_power | Cmd_other 'o

record 'o console_cmd =
  cmd_text :: bytes
  cmd_func :: "'o command"

definition NK_MAX_CMD_LEN :: nat where "NK_MAX_CMD_LEN = 16"

fun match_loop :: "bytes \<Rightarrow> bytes \<Rightarrow> nat \<Rightarrow> nat \<Rightarrow> (nat \<times> nat) option" where
  "match_loop table cmd 0 x = Some (0, x)"
| "match_loop table cmd (Suc partial) x = do {
     t \<leftarrow> deref table (1 + x);
     if t = 0 \<or> t = 32 then Some (Suc partial, x)
     else do {
       c \<leftarrow> deref cmd x;
       if c = 0 \<or> t \<noteq> c then Some (Suc partial, x) else match_loop table cmd partial (x + 1)
     }
   }"

definition name_match :: "bytes \<Rightarrow> bytes \<Rightarrow> nat \<Rightarrow> bool \<Rightarrow> bool option" where
  "name_match table cmd partial allow_hidden = do {
     c \<leftarrow> deref table 0;
     if c = 62 \<or> allow_hidden then do {
       (partial, x) \<leftarrow> match_loop table cmd partial 0;
       if partial = 0 then Some True
       else do {
         t \<leftarrow> deref table (1 + x);
         if t = 32 then do { c \<leftarrow> deref cmd x; Some (c = 0) } else Some False
       }
     }
     else Some False
   }"

fun find_cmd :: "'o console_cmd list \<Rightarrow> bool \<Rightarrow> bytes \<Rightarrow> 'o console_cmd option option" where
  "find_cmd [] facmode s = Some None"
| "find_cmd (x # table) facmode s = do {
     m \<leftarrow> name_match (cmd_text x) s 100 facmode;
     if m then Some (Some x) else find_cmd table facmode s
   }"

section \<open>Completion\<close>

text \<open>The characters of a name, from the index \<open>y\<close> on.\<close>

function name_chars :: "bytes \<Rightarrow> nat \<Rightarrow> bytes option" where
  "name_chars table y = do {
     c \<leftarrow> deref table y;
     if c \<noteq> 0 \<and> c \<noteq> 32 then do { cs \<leftarrow> name_chars table (y + 1); Some (c # cs) } else Some []
   }"
  by auto
termination
  by (relation "measure (\<lambda>(table, y). length table - y)") (auto simp: deref_eq_Some)

fun complete_table ::
  "'o console_cmd list \<Rightarrow> bool \<Rightarrow> bytes \<Rightarrow> nat \<Rightarrow> bool \<Rightarrow> int \<Rightarrow> int \<Rightarrow> bytes \<Rightarrow> (int \<times> int \<times> bytes) option" where
  "complete_table [] facmode s n list_flag match_count match_char out = Some (match_count, match_char, out)"
| "complete_table (x # table) facmode s n list_flag match_count match_char out = do {
     m \<leftarrow> name_match (cmd_text x) s n facmode;
     if m then do {
       c \<leftarrow> deref (cmd_text x) (1 + n);
       let (match_count, match_char) = (if match_char \<noteq> uint c then (match_count + 1, uint c) else (match_count, match_char));
       shown_name \<leftarrow> (if list_flag then do { cs \<leftarrow> name_chars (cmd_text x) 1; Some (cs @ [10]) } else Some []);
       complete_table table facmode s n list_flag match_count match_char (out @ shown_name)
     }
     else complete_table table facmode s n list_flag match_count match_char out
   }"

definition nk_complete :: "'o console_cmd list \<Rightarrow> bool \<Rightarrow> bytes \<Rightarrow> bool \<Rightarrow> (int \<times> bytes) option" where
  "nk_complete table facmode s list_flag = do {
     t \<leftarrow> cstring s 0;
     (match_count, match_char, out) \<leftarrow> complete_table table facmode s (length t) list_flag 0 (-1) [];
     Some (if match_count = 1 then (if match_char = 0 then 32 else match_char) else if match_count = 0 then -1 else -2, out)
   }"

section \<open>Help\<close>

text \<open>The characters of a line, from the index \<open>s\<close> on, and the index of the character that ends it.\<close>

function line_loop :: "bytes \<Rightarrow> nat \<Rightarrow> (bytes \<times> nat) option" where
  "line_loop table s = do {
     c \<leftarrow> deref table s;
     if c \<noteq> 0 \<and> c \<noteq> 10 then do { (cs, s) \<leftarrow> line_loop table (s + 1); Some (c # cs, s) } else Some ([], s)
   }"
  by auto
termination
  by (relation "measure (\<lambda>(table, s). length table - s)") (auto simp: deref_eq_Some)

definition print_help :: "bytes \<Rightarrow> nat \<Rightarrow> (bytes \<times> nat) option" where
  "print_help table s = do {
     (cs, s) \<leftarrow> line_loop table (s + 1);
     c \<leftarrow> deref table s;
     Some (cs @ [10], if c = 10 then s + 1 else s)
   }"

definition skip_help :: "bytes \<Rightarrow> nat \<Rightarrow> nat option" where
  "skip_help table s = do {
     (_, s) \<leftarrow> line_loop table s;
     c \<leftarrow> deref table s;
     Some (if c = 10 then s + 1 else s)
   }"

partial_function (option) specific_help :: "bool \<Rightarrow> bytes \<Rightarrow> nat \<Rightarrow> bytes option" where
  "specific_help facmode table t = do {
     c \<leftarrow> deref table t;
     if c = 0 then Some []
     else do {
       (out, t) \<leftarrow> (if facmode \<or> c \<noteq> 33 then print_help table t else do { t \<leftarrow> skip_help table t; Some ([], t) });
       more \<leftarrow> specific_help facmode table t;
       Some (out @ more)
     }
   }"

definition nk_help :: "'o console_cmd list \<Rightarrow> bool \<Rightarrow> bytes \<Rightarrow> (int \<times> bytes) option" where
  "nk_help table facmode name = do {
     x \<leftarrow> find_cmd table facmode name;
     case x of
       Some x \<Rightarrow> do { t \<leftarrow> skip_help (cmd_text x) 0; out \<leftarrow> specific_help facmode (cmd_text x) t; Some (0, out) }
     | None \<Rightarrow> Some (-1, [])
   }"

declare name_chars.simps [simp del] line_loop.simps [simp del]

section \<open>Sorting the table\<close>

fun strcmp_PP :: "bytes \<Rightarrow> bytes \<Rightarrow> int option" where
  "strcmp_PP (a # as) (b # bs) =
     (if a \<noteq> 0 \<and> b \<noteq> 0 \<and> a = b then strcmp_PP as bs
      else Some (if a > b then 1 else if a < b then -1 else 0))"
| "strcmp_PP _ _ = None"

text \<open>One pass of the bubble sort, and whether it has exchanged anything.\<close>

fun sort_pass :: "'o console_cmd list \<Rightarrow> ('o console_cmd list \<times> bool) option" where
  "sort_pass (x # y # table) = do {
     c \<leftarrow> strcmp_PP (cmd_text x) (cmd_text y);
     if c > 0 then do { (table, work) \<leftarrow> sort_pass (x # table); Some (y # table, True) }
     else do { (table, work) \<leftarrow> sort_pass (y # table); Some (x # table, work) }
   }"
| "sort_pass table = Some (table, False)"

partial_function (option) sort_table :: "'o console_cmd list \<Rightarrow> 'o console_cmd list option" where
  "sort_table table = do {
     (table, work) \<leftarrow> sort_pass table;
     if work then sort_table table else Some table
   }"

section \<open>The interpreter\<close>

text \<open>The state: \<open>reading\<close> is set while \<open>prompt_task\<close> is registered for characters, \<open>deepness\<close> is the sleep mode
  of \<^verbatim>\<open>nksched.c\<close>.\<close>

record ('o, 'w) cli =
  command_table :: "'o console_cmd list"
  facmode :: bool
  cli_disabled :: bool
  reading :: bool
  deepness :: u32
  console :: readline
  world :: 'w

abbreviation cli_puts :: "bytes \<Rightarrow> ('o, 'w) cli \<Rightarrow> ('o, 'w) cli" where
  "cli_puts out st \<equiv> st\<lparr>console := nk_puts out (console st)\<rparr>"

definition say :: "string \<Rightarrow> va list \<Rightarrow> ('o, 'w) cli \<Rightarrow> ('o, 'w) cli option" where
  "say fmt ap st = nk_printf (\<lambda>c st. st\<lparr>console := nk_putc c (console st)\<rparr>) st fmt ap"

text \<open>The formats of the commands modelled here have no \<open>%v\<close>.\<close>

type_synonym args = "unit nkinfile"

definition scan :: "args \<Rightarrow> string \<Rightarrow> unit dest list \<Rightarrow> (bool \<times> unit dest list \<times> args) option" where
  "scan f fmt ap = nk_fscan (\<lambda>f k. None) f fmt ap"

fun help_all :: "'o console_cmd list \<Rightarrow> bool \<Rightarrow> bool \<Rightarrow> bytes option" where
  "help_all [] fac first = Some []"
| "help_all (x # table) fac first = do {
     c \<leftarrow> deref (cmd_text x) 0;
     if fac \<or> c \<noteq> 33 then do {
       (line, t) \<leftarrow> print_help (cmd_text x) 0;
       out \<leftarrow> specific_help fac (cmd_text x) t;
       rest \<leftarrow> help_all table fac True;
       Some ((if first then [10] else []) @ line @ out @ rest)
     }
     else help_all table fac first
   }"

fun help_list :: "'o console_cmd list \<Rightarrow> bool \<Rightarrow> bytes option" where
  "help_list [] fac = Some []"
| "help_list (x # table) fac = do {
     c \<leftarrow> deref (cmd_text x) 0;
     if fac \<or> c \<noteq> 33 then do {
       (line, t) \<leftarrow> print_help (cmd_text x) 0;
       rest \<leftarrow> help_list table fac;
       Some (line @ rest)
     }
     else help_list table fac
   }"

text \<open>A buffer on the stack is not initialised; a word that is scanned into it ends with a NUL, and nothing behind is read.\<close>

definition cmd_help :: "args \<Rightarrow> ('o, 'w) cli \<Rightarrow> (int \<times> ('o, 'w) cli) option" where
  "cmd_help args st = do {
     (all, _, args) \<leftarrow> scan args ''all '' [];
     if all then do { out \<leftarrow> help_all (command_table st) (facmode st) False; Some (0, cli_puts out st) }
     else do {
       (one, ap, args) \<leftarrow> scan args ''%w '' [PStr (replicate 80 0) 80];
       if one then (case ap of
           [PStr buf _] \<Rightarrow> do {
             (rtn, out) \<leftarrow> nk_help (command_table st) (facmode st) buf;
             let st = cli_puts out st;
             st \<leftarrow> (if rtn \<noteq> 0 then say (''Unknown command'' @ [CHR 0x0A]) [] st else Some st);
             Some (0, st)
           }
         | _ \<Rightarrow> None)
       else do {
         (list, _, args) \<leftarrow> scan args '''' [];
         if list then do {
           st \<leftarrow> say (''help <name> for help with a specific command'' @ [CHR 0x0A, CHR 0x0A]) [] st;
           st \<leftarrow> say (''Available commands:'' @ [CHR 0x0A, CHR 0x0A]) [] st;
           out \<leftarrow> help_list (command_table st) (facmode st);
           Some (0, cli_puts out st)
         }
         else do { st \<leftarrow> say (''Syntax error'' @ [CHR 0x0A]) [] st; Some (0, st) }
       }
     }
   }"

definition cmd_echo :: "args \<Rightarrow> ('o, 'w) cli \<Rightarrow> (int \<times> ('o, 'w) cli) option" where
  "cmd_echo args st = do {
     (on, _, args) \<leftarrow> scan args ''on '' [];
     if on then do {
       st \<leftarrow> say (''Echoing is enabled'' @ [CHR 0x0A]) [] (st\<lparr>console := snd (nk_set_echo True (console st))\<rparr>);
       Some (0, st)
     }
     else do {
       (off, _, args) \<leftarrow> scan args ''off '' [];
       if off then do {
         st \<leftarrow> say (''Echoing is disabled'' @ [CHR 0x0A]) [] (st\<lparr>console := snd (nk_set_echo False (console st))\<rparr>);
         Some (0, st)
       }
       else do {
         (show_it, _, args) \<leftarrow> scan args '''' [];
         st \<leftarrow> (if show_it then
             (if nk_get_echo (console st) then say (''Echoing is enabled'' @ [CHR 0x0A]) [] st
              else say (''Echoing is disabled'' @ [CHR 0x0A]) [] st)
           else say (''Syntax error'' @ [CHR 0x0A]) [] st);
         Some (0, st)
       }
     }
   }"

definition cmd_power :: "args \<Rightarrow> ('o, 'w) cli \<Rightarrow> (int \<times> ('o, 'w) cli) option" where
  "cmd_power args st = do {
     (show_it, _, args) \<leftarrow> scan args '''' [];
     if show_it then do {
       st \<leftarrow> say (''Power mode = %d'' @ [CHR 0x0A]) [VInt (deepness st)] st;
       Some (0, st)
     }
     else do {
       (set_it, ap, args) \<leftarrow> scan args ''%d '' [PInt 0];
       if set_it then (case ap of
           [PInt new_mode] \<Rightarrow> do {
             let st = st\<lparr>deepness := new_mode\<rparr>;
             st \<leftarrow> say (''Power mode = %d'' @ [CHR 0x0A]) [VInt (deepness st)] st;
             Some (0, st)
           }
         | _ \<Rightarrow> None)
       else do { st \<leftarrow> say (''Syntax error'' @ [CHR 0x0A]) [] st; Some (0, st) }
     }
   }"

fun call ::
  "('o \<Rightarrow> args \<Rightarrow> ('o, 'w) cli \<Rightarrow> (int \<times> ('o, 'w) cli) option) \<Rightarrow> 'o command \<Rightarrow> args \<Rightarrow> ('o, 'w) cli
     \<Rightarrow> (int \<times> ('o, 'w) cli) option" where
  "call run Cmd_help = cmd_help"
| "call run Cmd_echo = cmd_echo"
| "call run Cmd_power = cmd_power"
| "call run (Cmd_other c) = run c"

definition process_cmd ::
  "('o \<Rightarrow> args \<Rightarrow> ('o, 'w) cli \<Rightarrow> (int \<times> ('o, 'w) cli) option) \<Rightarrow> bytes \<Rightarrow> ('o, 'w) cli \<Rightarrow> ('o, 'w) cli option" where
  "process_cmd run pCmd st = do {
     f \<leftarrow> nkinfile_open_string () pCmd;
     ignore \<leftarrow> (if nk_feof f then Some True else do { c \<leftarrow> nk_fpeek f; Some (c = chr (CHR ''*'')) });
     if ignore then Some st
     else do {
       (ok, ap, f) \<leftarrow> scan f ''%w %e'' [PStr (replicate NK_MAX_CMD_LEN 0) (word_of_nat NK_MAX_CMD_LEN)];
       if ok then (case ap of
           [PStr cmd _] \<Rightarrow> do {
             x \<leftarrow> find_cmd (command_table st) (facmode st) cmd;
             case x of
               None \<Rightarrow> say (''Syntax error'' @ [CHR 0x0A]) [] st
             | Some x \<Rightarrow> do {
                 (hlp, _, f) \<leftarrow> scan f ''help '' [];
                 if hlp then do {
                   t \<leftarrow> skip_help (cmd_text x) 0;
                   out \<leftarrow> specific_help (facmode st) (cmd_text x) t;
                   Some (cli_puts out st)
                 }
                 else do {
                   (rtn, st) \<leftarrow> call run (cmd_func x) f st;
                   if rtn \<noteq> 0 then say (''Command failed!'' @ [CHR 0x0A]) [] st else Some st
                 }
               }
           }
         | _ \<Rightarrow> None)
       else Some st
     }
   }"

definition handle_cmd ::
  "('o \<Rightarrow> args \<Rightarrow> ('o, 'w) cli \<Rightarrow> (int \<times> ('o, 'w) cli) option) \<Rightarrow> bytes option \<Rightarrow> ('o, 'w) cli \<Rightarrow> ('o, 'w) cli option" where
  "handle_cmd run s st = do {
     st \<leftarrow> (case s of Some s \<Rightarrow> process_cmd run s st | None \<Rightarrow> Some st);
     Some (if \<not> cli_disabled st then st\<lparr>console := nk_readline [62] (console st), reading := True\<rparr> else st)
   }"

definition nk_cli_enable ::
  "('o \<Rightarrow> args \<Rightarrow> ('o, 'w) cli \<Rightarrow> (int \<times> ('o, 'w) cli) option) \<Rightarrow> ('o, 'w) cli \<Rightarrow> ('o, 'w) cli option" where
  "nk_cli_enable run st = (if cli_disabled st then handle_cmd run None (st\<lparr>cli_disabled := False\<rparr>) else Some st)"

definition nk_cli_disable :: "('o, 'w) cli \<Rightarrow> ('o, 'w) cli" where
  "nk_cli_disable st = st\<lparr>cli_disabled := True\<rparr>"

text \<open>The task that \<open>nk_init_cli\<close> submits calls \<open>handle_cmd\<close> with no line.\<close>

definition nk_init_cli :: "('o, 'w) cli \<Rightarrow> ('o, 'w) cli option" where
  "nk_init_cli st = do {
     st \<leftarrow> say (''[Initialize] Command Line Interface'' @ [CHR 0x0A]) [] st;
     table \<leftarrow> sort_table (command_table st);
     Some (st\<lparr>command_table := table\<rparr>)
   }"

section \<open>The commands of the firmware\<close>

datatype app_command = Cmd_info | Cmd_i2c | Cmd_dbase | Cmd_rtc | Cmd_ymodem | Cmd_mem | Cmd_reboot | Cmd_mcuflash | Cmd_pin | Cmd_work

text \<open>The text of a command, from its lines.\<close>

definition help_text :: "string list \<Rightarrow> bytes" where
  "help_text ls = concat (map (\<lambda>l. map of_char l @ [10]) ls) @ [0]"

definition entry :: "'o command \<Rightarrow> string list \<Rightarrow> 'o console_cmd" where
  "entry f ls = \<lparr>cmd_text = help_text ls, cmd_func = f\<rparr>"

definition help_entry :: "app_command console_cmd" where
  "help_entry = entry Cmd_help
    [''>help                      Help command'',
     ''-help <name>               Print help for a command'',
     ''-help                      List available commands'',
     ''-help all                  Print help for all commands'']"

definition echo_entry :: "app_command console_cmd" where
  "echo_entry = entry Cmd_echo
    [''>echo                      Control command echoing'',
     ''-echo on                   Enable echoing'',
     ''-echo off                  Disable echoing'',
     ''-echo                      Show current echo mode'']"

definition mem_entry :: "app_command console_cmd" where
  "mem_entry = entry (Cmd_other Cmd_mem)
    [''>mem                       Read/write memory'',
     ''-mem rd <addr>             Read 32-bit word from address'',
     ''-mem wr <addr> <data>      Write 32-bit word to address'',
     ''-mem hd <addr> <len>       Hex dump memory'',
     ''-mem hd <addr>             Hex dump 256 bytes'']"

definition reboot_entry :: "app_command console_cmd" where
  "reboot_entry = entry (Cmd_other Cmd_reboot)
    [''>reboot                    Reboot system'',
     ''-reboot                    Reboot system'']"

definition info_entry :: "app_command console_cmd" where
  "info_entry = entry (Cmd_other Cmd_info)
    [''>info                      Display serial number and firmware information'',
     ''-info                      Display serial number and firmware information'']"

definition i2c_entry :: "app_command console_cmd" where
  "i2c_entry = entry (Cmd_other Cmd_i2c)
    [''>i2c                       I2C access'',
     ''-i2c scan                  Scan I2C bus'',
     ''-i2c [w AA DD ...] [r AA NN]'',
     ''-                          Raw I2C transaction'']"

definition dbase_entry :: "app_command console_cmd" where
  "dbase_entry = entry (Cmd_other Cmd_dbase)
    [''>dbase                     Database store'',
     ''-dbase clear               Clear database store'',
     ''-dbase show                Show entire database'',
     ''-dbase load                Load database from flash'',
     ''-dbase save                Save database to flash'',
     ''-dbase replace             Replace database: prompts for multi-line value'',
     ''-dbase get <key>           Get value assigned to key'',
     ''-dbase set <key> <value>'',
     ''-                          Assign value to a key'',
     ''-dbase set <key>           Assign value to a key: Prompts for multi-line value'']"

definition rtc_entry :: "app_command console_cmd" where
  "rtc_entry = entry (Cmd_other Cmd_rtc)
    [''>rtc                       MCU Real Time Clock access'',
     ''-rtc                       Show date/time'',
     ''-rtc YYYY-MM-DD HH:MM:SS'',
     ''-                          Set date/time'']"

definition ymodem_entry :: "app_command console_cmd" where
  "ymodem_entry = entry (Cmd_other Cmd_ymodem)
    [''>ymodem                    Transfer files over serial'',
     ''-ymodem                    Receive a file'',
     ''-ymodem show               Print receive status'']"

definition mcuflash_entry :: "app_command console_cmd" where
  "mcuflash_entry = entry (Cmd_other Cmd_mcuflash)
    [''>mcuflash                  Read/write flash memory'',
     ''-mcuflash rd <addr>        Read word'',
     ''-mcuflash wr <addr> <val>  Write word'',
     ''-mcuflash hd <addr> <len>  Hex dump flash memory'',
     ''-mcuflash crc <addr> <len> Calculate CRC of flash memory'',
     ''-mcuflash erase <addr> <len>'',
     ''-                          Erase flash memory'',
     ''-mcuflash fill <addr> <len>'',
     ''-                          Fill flash memory with pattern'',
     ''-mcuflash fill <addr> <len> <val>'',
     ''-                          Fill flash memory with byte'']"

definition pin_entry :: "app_command console_cmd" where
  "pin_entry = entry (Cmd_other Cmd_pin)
    [''>pin                       GPIO pin commands'',
     ''-pin                       List GPIO info'',
     ''-pin set <pin>             Set pin'',
     ''-pin clear <pin>           Clear pin'',
     ''-pin mode <pin> <mode>     Change pin mode [usually to input, input_pullup or output]'']"

definition work_entry :: "app_command console_cmd" where
  "work_entry = entry (Cmd_other Cmd_work)
    [''>work                      Show work queue'',
     ''-work                      Show work queue'']"

definition power_entry :: "app_command console_cmd" where
  "power_entry = entry Cmd_power
    [''>power                     Show/control power mode'',
     ''-power                     Show power mode'',
     ''-power <n>                 Set power mode (0, 1 or 2)'']"

definition COMMAND_TABLE :: "app_command console_cmd list" where
  "COMMAND_TABLE = [help_entry, echo_entry, mem_entry, reboot_entry, info_entry, i2c_entry, dbase_entry, rtc_entry, ymodem_entry,
     mcuflash_entry, pin_entry, work_entry, power_entry]"

section \<open>Names\<close>

text \<open>What the interpreter wants of a text: after a character that says who may see it, a name of printable characters, a blank,
  and the help.\<close>

definition cmd_name :: "'o console_cmd \<Rightarrow> bytes" where
  "cmd_name x = takeWhile (\<lambda>c. c \<noteq> 32) (tl (cmd_text x))"

definition visible :: "bool \<Rightarrow> 'o console_cmd \<Rightarrow> bool" where
  "visible fac x \<longleftrightarrow> hd (cmd_text x) = 62 \<or> fac"

definition name_ok :: "bytes \<Rightarrow> bool" where
  "name_ok s \<longleftrightarrow> s \<noteq> [] \<and> length s < 100 \<and> list_all (\<lambda>c. 33 \<le> c \<and> c \<le> 126) s"

definition cmd_ok :: "'o console_cmd \<Rightarrow> bool" where
  "cmd_ok x \<longleftrightarrow> cmd_text x \<noteq> [] \<and> last (cmd_text x) = 0 \<and> 0 \<notin> set (butlast (cmd_text x)) \<and> hd (cmd_text x) \<noteq> 10
     \<and> 32 \<in> set (tl (cmd_text x)) \<and> name_ok (cmd_name x)"

abbreviation table_ok :: "'o console_cmd list \<Rightarrow> bool" where
  "table_ok table \<equiv> list_all cmd_ok table"

text \<open>The texts of the table, as characters.\<close>

definition lines_ok :: "string list \<Rightarrow> bool" where
  "lines_ok ls \<longleftrightarrow> list_all (list_all (\<lambda>c. c \<noteq> CHR 0x00)) ls \<and> (case ls of (m # w) # _ \<Rightarrow>
     m \<noteq> CHR 0x0A \<and> CHR '' '' \<in> set w \<and> (let nm = takeWhile (\<lambda>c. c \<noteq> CHR '' '') w in
       nm \<noteq> [] \<and> length nm < 100 \<and> list_all (\<lambda>c. 33 \<le> (of_char c :: nat) \<and> (of_char c :: nat) \<le> 126) nm) | _ \<Rightarrow> False)"

lemma of_char_u8: "(of_char c :: u8) = of_char d \<longleftrightarrow> c = d" "unat (of_char c :: u8) = of_char c"
proof -
  have u: "unat (of_char c :: u8) = of_char c" for c
  proof -
    have "(of_char c :: u8) = word_of_nat (of_char c)" by (metis of_nat_of_char)
    moreover have "(of_char c :: nat) < 256" by (rule nat_of_char_less_256)
    ultimately show ?thesis by (simp add: unat_of_nat del: of_nat_of_char)
  qed
  show "unat (of_char c :: u8) = of_char c" by (rule u)
  show "(of_char c :: u8) = of_char d \<longleftrightarrow> c = d" using u [of c] u [of d] by (metis of_char_eq_iff)
qed

lemma of_char_codes: "(of_char c = (0 :: u8)) = (c = CHR 0x00)" "(of_char c = (32 :: u8)) = (c = CHR '' '')" "(of_char c = (10 :: u8)) = (c = CHR 0x0A)"
  using of_char_u8(1) [of c "CHR 0x00"] of_char_u8(1) [of c "CHR '' ''"] of_char_u8(1) [of c "CHR 0x0A"] by simp_all

lemma of_char_codes_sym: "((0 :: u8) = of_char c) = (c = CHR 0x00)" "((32 :: u8) = of_char c) = (c = CHR '' '')"
  using of_char_codes [of c] by (simp_all add: eq_commute [of 0] eq_commute [of 32])

lemma takeWhile_chars: "takeWhile (\<lambda>c. c \<noteq> (32 :: u8)) (map of_char w) = map of_char (takeWhile (\<lambda>c. c \<noteq> CHR '' '') w)"
  by (induction w) (auto simp: of_char_codes)

lemma entry_name:
  "lines_ok ((m # w) # ls) \<Longrightarrow> cmd_name (entry f ((m # w) # ls)) = map of_char (takeWhile (\<lambda>c. c \<noteq> CHR '' '') w)"
  using takeWhile_append1 [of 32 "map of_char w :: bytes" "\<lambda>c. c \<noteq> 32"]
  by (force simp: cmd_name_def entry_def help_text_def takeWhile_chars of_char_codes lines_ok_def image_iff)

lemma list_all_neq: "list_all (\<lambda>c. c \<noteq> a) l = (a \<notin> set l)"
  by (induction l) auto

lemma no_nul: "list_all (list_all (\<lambda>c. c \<noteq> CHR 0x00)) ls \<Longrightarrow> 0 \<notin> set (concat (map (\<lambda>l. map of_char l @ [10 :: u8]) ls))"
proof (induction ls)
  case (Cons l ls)
  have "0 \<notin> (of_char ` set l :: u8 set)"
  proof
    assume "0 \<in> (of_char ` set l :: u8 set)"
    then obtain c where c: "0 = (of_char c :: u8)" "c \<in> set l" by (rule imageE)
    then have "c = CHR 0x00" by (simp only: of_char_codes_sym)
    then show False using c(2) Cons.prems by (simp add: list_all_neq)
  qed
  moreover have "0 \<notin> set (concat (map (\<lambda>l. map of_char l @ [10 :: u8]) ls))" using Cons by simp
  ultimately show ?case by (simp del: set_concat)
qed simp

lemma entry_ok:
  assumes "lines_ok ls"
  shows "cmd_ok (entry f ls)"
proof -
  obtain m w ls' where ls: "ls = (m # w) # ls'" using assms by (auto simp: lines_ok_def split: list.splits)
  have "33 \<le> (of_char c :: u8) \<and> (of_char c :: u8) \<le> 126" if "33 \<le> (of_char c :: nat)" "(of_char c :: nat) \<le> 126" for c
    using that by (simp add: word_le_nat_alt of_char_u8(2))
  then have "name_ok (cmd_name (entry f ls))"
    using assms unfolding ls entry_name [OF assms [unfolded ls]] by (auto simp: lines_ok_def name_ok_def Let_def list_all_iff)
  moreover have "0 \<notin> set (concat (map (\<lambda>l. map of_char l @ [10 :: u8]) ls))"
    using assms by (intro no_nul) (auto simp: lines_ok_def)
  moreover have "butlast (help_text ls) = concat (map (\<lambda>l. map of_char l @ [10]) ls)" by (simp add: help_text_def)
  moreover have "hd (help_text ls) = of_char m" "32 \<in> set (tl (help_text ls))" "last (help_text ls) = 0" "help_text ls \<noteq> []" "m \<noteq> CHR 0x0A"
    using assms by (auto simp: help_text_def ls lines_ok_def image_iff of_char_codes_sym)
  ultimately show ?thesis by (simp add: cmd_ok_def entry_def of_char_codes)
qed

lemmas entries = help_entry_def echo_entry_def mem_entry_def reboot_entry_def info_entry_def i2c_entry_def dbase_entry_def
  rtc_entry_def ymodem_entry_def mcuflash_entry_def pin_entry_def work_entry_def power_entry_def

lemma COMMAND_TABLE_ok: "table_ok COMMAND_TABLE"
  unfolding COMMAND_TABLE_def entries list.pred_inject by (intro conjI TrueI entry_ok; code_simp)

section \<open>Matching names\<close>

text \<open>How many characters two byte strings have in common.\<close>

fun common :: "bytes \<Rightarrow> bytes \<Rightarrow> nat" where
  "common (a # as) (b # bs) = (if a = b then Suc (common as bs) else 0)"
| "common _ _ = 0"

lemma common_prefix: "common nm s = length s \<longleftrightarrow> prefix s nm"
  by (induction nm s rule: common.induct) auto

lemma common_le: "common nm s \<le> length s" "common nm s \<le> length nm"
  by (induction nm s rule: common.induct) auto

lemma common_commute: "common a b = common b a"
  by (induction a b rule: common.induct) auto

lemma common_both: "common nm s = length nm \<and> common nm s = length s \<longleftrightarrow> nm = s"
  using common_prefix [of nm s] common_prefix [of s nm] common_commute [of nm s] by auto

lemma match_loop_common:
  assumes "0 \<notin> set nm" "32 \<notin> set nm" "0 \<notin> set s"
  shows "length pre = 1 + x \<Longrightarrow> length pre2 = x \<Longrightarrow> match_loop (pre @ nm @ 32 # r) (pre2 @ s @ 0 # b) p x = Some (p - min p (common nm s), x + min p (common nm s))"
  using assms
proof (induction nm s arbitrary: p x pre pre2 rule: common.induct [case_names both left right])
  case (both n nm c s)
  then show ?case
  proof (cases p)
    case (Suc q)
    then show ?thesis using both both.IH [of "pre @ [n]" "x + 1" "pre2 @ [c]" q] by (auto simp: deref_def nth_append)
  qed simp
next
  case (left s)
  then show ?case by (cases p) (simp_all add: deref_def nth_append)
next
  case (right nm)
  then show ?case by (cases p; cases nm) (auto simp: deref_def nth_append)
qed

lemma cmd_text_parts:
  assumes "cmd_ok x"
  obtains m r where "cmd_text x = m # cmd_name x @ 32 # r @ [0]" "m \<noteq> 0" "m \<noteq> 10" "0 \<notin> set (cmd_name x)" "32 \<notin> set (cmd_name x)" "0 \<notin> set r"
proof -
  obtain m w where t: "cmd_text x = m # w" using assms by (cases "cmd_text x") (auto simp: cmd_ok_def)
  have w: "32 \<in> set w" "last (m # w) = 0" "0 \<notin> set (butlast (m # w))" "m \<noteq> 10" using assms by (simp_all add: cmd_ok_def t)
  have nm: "cmd_name x = takeWhile (\<lambda>c. c \<noteq> 32) w" by (simp add: cmd_name_def t)
  obtain r0 where r0: "w = cmd_name x @ 32 # r0" using w(1) unfolding nm
    by (metis (mono_tags, lifting) dropWhile_eq_Nil_conv hd_dropWhile list.collapse takeWhile_dropWhile_id)
  have "r0 \<noteq> []" using w(2) r0 by auto
  then obtain r where r: "r0 = r @ [0]" using w(2) r0 by (metis append_butlast_last_id append_is_Nil_conv last.simps last_append list.distinct(1))
  have "32 \<notin> set (cmd_name x)" unfolding nm by (auto dest: set_takeWhileD)
  then show thesis using that [of m r] w(3,4) t r0 r by (auto simp: butlast_append split: if_splits)
qed

lemma name_match_ok:
  assumes "cmd_ok x" "0 \<notin> set s"
  shows "name_match (cmd_text x) (s @ 0 # b) p fac = Some (visible fac x \<and> (p \<le> common (cmd_name x) s \<or> cmd_name x = s))"
proof -
  obtain m r where x: "cmd_text x = m # cmd_name x @ 32 # r @ [0]" "0 \<notin> set (cmd_name x)" "32 \<notin> set (cmd_name x)" using cmd_text_parts [OF assms(1)] by metis
  let ?k = "common (cmd_name x) s"
  have loop: "match_loop (cmd_text x) (s @ 0 # b) p 0 = Some (p - min p ?k, min p ?k)"
    using match_loop_common [OF x(2,3) assms(2), of "[m]" 0 "[]" "r @ [0]" b p] x(1) by simp
  have v: "visible fac x \<longleftrightarrow> m = 62 \<or> fac" by (simp add: visible_def x(1))
  show ?thesis
  proof (cases "p \<le> ?k")
    case True
    then show ?thesis using loop v by (simp add: name_match_def x(1) deref_def)
  next
    case False
    have k: "?k \<le> length (cmd_name x)" "?k \<le> length s" using common_le by auto
    then have t: "deref (cmd_text x) (1 + ?k) = Some (if ?k < length (cmd_name x) then cmd_name x ! ?k else 32)"
      "deref (s @ 0 # b) ?k = Some (if ?k < length s then s ! ?k else 0)"
      by (auto simp: x(1) deref_def nth_append)
    have "cmd_name x ! ?k \<noteq> 32" if "?k < length (cmd_name x)" using x(3) that nth_mem by metis
    moreover have "s ! ?k \<noteq> 0" if "?k < length s" using assms(2) that nth_mem by metis
    moreover have "cmd_name x = s \<longleftrightarrow> \<not> ?k < length (cmd_name x) \<and> \<not> ?k < length s" using common_both [of "cmd_name x" s] k by auto
    ultimately show ?thesis using loop t v False by (auto simp: name_match_def x(1) deref_def)
  qed
qed

lemma find_cmd_ok:
  assumes "table_ok table" "0 \<notin> set s"
  shows "find_cmd table fac (s @ 0 # b) = Some (find (\<lambda>x. visible fac x \<and> cmd_name x = s) table)"
  using assms(1)
proof (induction table)
  case (Cons x table)
  have "length (cmd_name x) < 100" using Cons.prems by (simp add: cmd_ok_def name_ok_def)
  then have "\<not> 100 \<le> common (cmd_name x) s" using common_le(2) [of "cmd_name x" s] by linarith
  then show ?case using Cons name_match_ok [of x s b 100 fac] assms(2) by simp
qed simp

section \<open>Completion\<close>

text \<open>The commands that a prefix can become, and the character that follows it in a name.\<close>

definition candidates :: "'o console_cmd list \<Rightarrow> bool \<Rightarrow> bytes \<Rightarrow> bytes list" where
  "candidates table fac s = map cmd_name (filter (\<lambda>x. visible fac x \<and> prefix s (cmd_name x)) table)"

definition next_char :: "bytes \<Rightarrow> bytes \<Rightarrow> u8" where
  "next_char s nm = (nm @ [32]) ! length s"

fun count_changes :: "int \<Rightarrow> int \<Rightarrow> int list \<Rightarrow> int \<times> int" where
  "count_changes n mc [] = (n, mc)"
| "count_changes n mc (c # cs) = (if mc \<noteq> c then count_changes (n + 1) c cs else count_changes n mc cs)"

lemma name_chars_ok: "0 \<notin> set nm \<Longrightarrow> 32 \<notin> set nm \<Longrightarrow> name_chars (pre @ nm @ 32 # r) (length pre) = Some nm"
proof (induction nm arbitrary: pre)
  case (Cons c nm)
  from Cons.IH [of "pre @ [c]"] Cons.prems show ?case by (subst name_chars.simps) (simp add: deref_def nth_append)
qed (subst name_chars.simps, simp add: deref_def nth_append)

lemma complete_table_ok:
  assumes "table_ok table" "0 \<notin> set s"
  shows "complete_table table fac (s @ 0 # b) (length s) l n mc out =
    (case count_changes n mc (map (\<lambda>nm. uint (next_char s nm)) (candidates table fac s)) of
       (n, mc) \<Rightarrow> Some (n, mc, out @ (if l then concat (map (\<lambda>nm. nm @ [10]) (candidates table fac s)) else [])))"
  using assms(1)
proof (induction table arbitrary: n mc out)
  case (Cons x table)
  obtain m r where x: "cmd_text x = m # cmd_name x @ 32 # r @ [0]" "0 \<notin> set (cmd_name x)" "32 \<notin> set (cmd_name x)"
    using cmd_text_parts Cons.prems by (metis list.pred_inject(2))
  have pm: "length s \<le> common (cmd_name x) s \<or> cmd_name x = s \<longleftrightarrow> prefix s (cmd_name x)"
    using common_prefix [of "cmd_name x" s] common_le(1) [of "cmd_name x" s] by auto
  show ?case
  proof (cases "visible fac x \<and> prefix s (cmd_name x)")
    case True
    then have "length s \<le> length (cmd_name x)" by (simp add: prefix_length_le)
    then have "deref (cmd_text x) (1 + length s) = Some (next_char s (cmd_name x))"
      by (auto simp: x(1) deref_def next_char_def nth_append)
    moreover have "name_chars (cmd_text x) 1 = Some (cmd_name x)" using name_chars_ok [OF x(2,3), of "[m]"] x(1) by simp
    ultimately show ?thesis
      using True Cons name_match_ok [of x s b "length s" fac] assms(2) pm by (simp add: candidates_def Let_def split: prod.split)
  next
    case False
    then show ?thesis using Cons name_match_ok [of x s b "length s" fac] assms(2) pm by (auto simp: candidates_def)
  qed
qed (simp add: candidates_def)

lemma count_changes_more: "n \<le> fst (count_changes n mc cs)" "n = fst (count_changes n mc cs) \<longleftrightarrow> (\<forall>c\<in>set cs. c = mc)"
  "(\<forall>c\<in>set cs. c = mc) \<Longrightarrow> snd (count_changes n mc cs) = mc"
proof (induction n mc cs rule: count_changes.induct)
  case (2 n mc c cs)
  { case 1 show ?case using 2 by (cases "mc = c") auto }
  { case 2 show ?case using "2.IH"(1,4,5) by (cases "mc = c") fastforce+ }
  { case 3 show ?case using "2.IH" 3 by (cases "mc = c") auto }
qed auto

lemma count_changes_0:
  assumes "\<forall>c\<in>set cs. c \<noteq> mc"
  shows "count_changes 0 mc cs = (if cs = [] then (0, mc) else count_changes 1 (hd cs) (tl cs))"
  using assms by (cases cs) auto

text \<open>The result in terms of the candidates.\<close>

definition completion :: "bytes list \<Rightarrow> bytes \<Rightarrow> int" where
  "completion nms s =
     (if nms = [] then -1 else if \<forall>nm\<in>set nms. next_char s nm = next_char s (hd nms) then uint (next_char s (hd nms)) else -2)"

lemma next_char_nonzero: "prefix s nm \<Longrightarrow> 0 \<notin> set nm \<Longrightarrow> next_char s nm \<noteq> 0"
  by (auto simp: next_char_def prefix_def nth_append neq_Nil_conv)

lemma nk_complete_ok:
  assumes "table_ok table" "0 \<notin> set s"
  shows "nk_complete table fac (s @ 0 # b) l = Some (completion (candidates table fac s) s,
    if l then concat (map (\<lambda>nm. nm @ [10]) (candidates table fac s)) else [])"
proof -
  let ?nms = "candidates table fac s"
  define cs where "cs = map (\<lambda>nm. uint (next_char s nm)) ?nms"
  have "cstring (s @ 0 # b) 0 = Some s" using assms(2) by (auto simp: cstring_def takeWhile_tail)
  have z: "\<forall>nm\<in>set ?nms. next_char s nm \<noteq> 0"
  proof
    fix nm assume "nm \<in> set ?nms"
    then obtain x where "x \<in> set table" "nm = cmd_name x" "prefix s nm" by (auto simp: candidates_def)
    moreover from this have "0 \<notin> set nm" using assms(1) cmd_text_parts by (metis list.pred_set)
    ultimately show "next_char s nm \<noteq> 0" by (simp add: next_char_nonzero)
  qed
  obtain n mc where c: "count_changes 0 (-1) cs = (n, mc)" by fastforce
  have "(if n = 1 then (if mc = 0 then 32 else mc) else if n = 0 then -1 else -2) = completion ?nms s"
  proof (cases ?nms)
    case Nil
    then show ?thesis using c by (simp add: cs_def completion_def)
  next
    case (Cons nm nms)
    define ds where "ds = map (\<lambda>nm. uint (next_char s nm)) nms"
    have "count_changes 1 (uint (next_char s nm)) ds = (n, mc)" using c count_changes_0 [where mc = "-1" and cs = cs] by (simp add: cs_def ds_def Cons)
    then have n: "1 \<le> n" "1 = n \<longleftrightarrow> (\<forall>c\<in>set ds. c = uint (next_char s nm))" "1 = n \<Longrightarrow> mc = uint (next_char s nm)"
      using count_changes_more [where n = 1 and mc = "uint (next_char s nm)" and cs = ds] by auto
    have "(\<forall>c\<in>set ds. c = uint (next_char s nm)) \<longleftrightarrow> (\<forall>nm'\<in>set ?nms. next_char s nm' = next_char s (hd ?nms))"
      by (simp add: Cons ds_def word_uint_eq_iff)
    moreover have "uint (next_char s nm) \<noteq> 0" using z by (simp add: Cons uint_0_iff)
    ultimately show ?thesis using n by (auto simp: completion_def Cons)
  qed
  then show ?thesis
    using \<open>cstring (s @ 0 # b) 0 = Some s\<close> complete_table_ok [OF assms, of fac b l 0 "-1" "[]"] c unfolding cs_def
    by (simp add: nk_complete_def)
qed

section \<open>Help and the editor\<close>

text \<open>A string and the indexes in it.\<close>

lemma line_loop_ok:
  assumes t: "t = body @ [0]" "0 \<notin> set body"
  shows "s \<le> length body \<Longrightarrow> \<exists>cs e. line_loop t s = Some (cs, e) \<and> s \<le> e \<and> e \<le> length body \<and> (t ! e = 10 \<or> e = length body)"
proof (induction "length body - s" arbitrary: s)
  case 0
  then have "s = length body" by simp
  then show ?case using t by (subst line_loop.simps) (simp add: deref_def)
next
  case (Suc k)
  then have s: "s < length body" by simp
  show ?case
  proof (cases "t ! s = 10")
    case True
    then show ?thesis using s t by (subst line_loop.simps) (simp add: deref_def nth_append)
  next
    case False
    obtain cs e where "line_loop t (s + 1) = Some (cs, e)" "s + 1 \<le> e" "e \<le> length body" "t ! e = 10 \<or> e = length body"
    proof -
      have "k = length body - (s + 1)" "s + 1 \<le> length body" using Suc.hyps(2) s by simp_all
      from Suc.hyps(1) [OF this] show ?thesis using that by blast
    qed
    moreover have "t ! s \<noteq> 0" using s t nth_mem [of s body] by (metis nth_append)
    ultimately show ?thesis using False s t by (subst line_loop.simps) (simp add: deref_def)
  qed
qed

lemma skip_help_ok:
  assumes t: "t = body @ [0]" "0 \<notin> set body" and s: "s \<le> length body"
  shows "\<exists>e. skip_help t s = Some e \<and> s \<le> e \<and> e \<le> length body \<and> (s < length body \<and> t ! s \<noteq> 10 \<longrightarrow> s < e)"
proof -
  obtain cs e where e: "line_loop t s = Some (cs, e)" "s \<le> e" "e \<le> length body" "t ! e = 10 \<or> e = length body" using line_loop_ok [OF t s] by blast
  have "t ! e = 10 \<Longrightarrow> e < length body" using e(3) t(1) by (cases "e = length body") auto
  then show ?thesis using e t s by (auto simp: skip_help_def deref_def le_less)
qed

lemma print_help_ok:
  assumes t: "t = body @ [0]" "0 \<notin> set body" and s: "s < length body"
  shows "\<exists>cs e. print_help t s = Some (cs @ [10], e) \<and> s < e \<and> e \<le> length body"
proof -
  obtain cs e where e: "line_loop t (s + 1) = Some (cs, e)" "s + 1 \<le> e" "e \<le> length body" "t ! e = 10 \<or> e = length body"
    using line_loop_ok [OF t, of "s + 1"] s by auto
  have "t ! e = 10 \<Longrightarrow> e < length body" using e(3) t(1) by (cases "e = length body") auto
  then show ?thesis using e t by (auto simp: print_help_def deref_def)
qed

lemma specific_help_ok:
  assumes t: "t = body @ [0]" "0 \<notin> set body"
  shows "s \<le> length body \<Longrightarrow> \<exists>out. specific_help fac t s = Some out \<and> (out = [] \<or> last out = 10)"
proof (induction "length body - s" arbitrary: s rule: less_induct)
  case less
  show ?case
  proof (cases "s = length body")
    case True
    then show ?thesis using t by (subst specific_help.simps) (simp add: deref_def)
  next
    case False
    then have s: "s < length body" using less.prems by simp
    then have c: "deref t s = Some (body ! s)" "t ! s = body ! s" "body ! s \<noteq> 0"
      using t by (auto simp: deref_def nth_append) (metis nth_mem)
    obtain out e where e: "(if fac \<or> body ! s \<noteq> 33 then print_help t s else do { t' \<leftarrow> skip_help t s; Some ([], t') }) = Some (out, e)"
      "s < e" "e \<le> length body" "out = [] \<or> last out = 10"
    proof (cases "fac \<or> body ! s \<noteq> 33")
      case True
      then show ?thesis using that print_help_ok [OF t s] by force
    next
      case hidden: False
      obtain e where "skip_help t s = Some e" "e \<le> length body" "s < length body \<and> t ! s \<noteq> 10 \<longrightarrow> s < e"
        using skip_help_ok [OF t less.prems] by blast
      then show ?thesis using that hidden s c(2) by auto
    qed
    obtain more where "specific_help fac t e = Some more" "more = [] \<or> last more = 10" 
    proof -
      have "length body - e < length body - s" using e(2) s by (rule diff_less_mono2)
      from less.hyps [OF this e(3)] show ?thesis using that by blast
    qed
    moreover from this e(4) have "out @ more = [] \<or> last (out @ more) = 10" by (auto simp: last_append)
    ultimately show ?thesis using c e by (subst specific_help.simps) simp
  qed
qed

lemma cmd_text_string:
  assumes "cmd_ok x"
  obtains body where "cmd_text x = body @ [0]" "0 \<notin> set body"
  using assms that [of "butlast (cmd_text x)"] by (auto simp: cmd_ok_def) (metis append_butlast_last_id)

lemma nk_help_ok:
  assumes "table_ok table" "0 \<notin> set s"
  shows "\<exists>rtn out. nk_help table fac (s @ 0 # b) = Some (rtn, out) \<and> (out = [] \<or> last out = 10)
    \<and> (rtn = 0 \<longleftrightarrow> (\<exists>x\<in>set table. visible fac x \<and> cmd_name x = s))"
proof (cases "find (\<lambda>x. visible fac x \<and> cmd_name x = s) table")
  case None
  then have "\<not> (\<exists>x\<in>set table. visible fac x \<and> cmd_name x = s)" by (auto simp: find_None_iff)
  then show ?thesis using find_cmd_ok [OF assms, of fac b] None by (simp add: nk_help_def)
next
  case (Some x)
  then have x: "x \<in> set table" "visible fac x \<and> cmd_name x = s" by (auto simp: find_Some_iff)
  then have "cmd_ok x" using assms(1) by (simp add: list_all_iff)
  then obtain body where body: "cmd_text x = body @ [0]" "0 \<notin> set body" by (rule cmd_text_string)
  obtain e where e: "skip_help (cmd_text x) 0 = Some e" "e \<le> length body" using skip_help_ok [OF body, of 0] by auto
  obtain out where "specific_help fac (cmd_text x) e = Some out" "out = [] \<or> last out = 10" using specific_help_ok [OF body e(2)] by blast
  then show ?thesis using find_cmd_ok [OF assms, of fac b] Some x e(1) by (auto simp: nk_help_def)
qed

text \<open>The two functions as the line editor calls them, on the string in its buffer.\<close>

definition completes :: "'o console_cmd list \<Rightarrow> bool \<Rightarrow> bytes \<Rightarrow> u8 \<Rightarrow> int \<times> bytes" where
  "completes table fac s n = (case nk_complete table fac (s @ [0]) (n \<noteq> 0) of Some r \<Rightarrow> r | None \<Rightarrow> (-1, []))"

definition helps :: "'o console_cmd list \<Rightarrow> bool \<Rightarrow> bytes \<Rightarrow> int \<times> bytes" where
  "helps table fac s = (case nk_help table fac (s @ [0]) of Some r \<Rightarrow> r | None \<Rightarrow> (-1, []))"

lemma string_parts: "\<exists>s' b. s @ [0] = s' @ 0 # b \<and> (0 :: u8) \<notin> set s'"
proof -
  have "0 \<in> set (s @ [0 :: u8])" by simp
  then show ?thesis by (metis split_list_first)
qed

lemma last_names: "nms = [] \<or> last (concat (map (\<lambda>nm. nm @ [10]) nms)) = (10 :: u8)"
  by (induction nms rule: rev_induct) auto

lemma candidate_short:
  assumes "table_ok table" "nm \<in> set (candidates table fac s)"
  shows "prefix s nm" "length nm < 100" "\<forall>c\<in>set nm. 33 \<le> c \<and> c \<le> 126"
proof -
  obtain x where x: "x \<in> set table" "nm = cmd_name x" "prefix s nm" using assms(2) by (auto simp: candidates_def)
  then have "name_ok nm" using assms(1) by (auto simp: list_all_iff cmd_ok_def)
  then show "prefix s nm" "length nm < 100" "\<forall>c\<in>set nm. 33 \<le> c \<and> c \<le> 126" using x(3) by (auto simp: name_ok_def list_all_iff)
qed

lemma next_char_range:
  assumes "table_ok table" "nm \<in> set (candidates table fac s)"
  shows "32 \<le> next_char s nm \<and> next_char s nm \<le> 126"
proof -
  have "length s \<le> length nm" using candidate_short(1) [OF assms] by (rule prefix_length_le)
  show ?thesis
  proof (cases "length s < length nm")
    case True
    then have "33 \<le> nm ! length s" "nm ! length s \<le> 126" using candidate_short(3) [OF assms] by auto
    moreover from this(1) have "32 \<le> nm ! length s" by (rule order_trans [rotated]) simp
    ultimately show ?thesis using True by (simp add: next_char_def nth_append)
  next
    case False
    then have "length s = length nm" using \<open>length s \<le> length nm\<close> by simp
    then show ?thesis by (simp add: next_char_def nth_append)
  qed
qed

lemma completer_table:
  assumes "table_ok table"
  shows "completer (completes table fac) (helps table fac)"
proof unfold_locales
  fix s :: bytes and n :: u8
  assume n0: "0 \<notin> set s" and c: "fst (completes table fac s n) \<noteq> -1" "fst (completes table fac s n) \<noteq> -2"
  let ?nms = "candidates table fac s"
  have f: "fst (completes table fac s n) = completion ?nms s" using nk_complete_ok [OF assms n0, of fac "[]"] by (simp add: completes_def)
  then obtain nm nms where nms: "?nms = nm # nms" using c by (cases ?nms) (auto simp: completion_def)
  then have "fst (completes table fac s n) = uint (next_char s nm)" using c f by (auto simp: completion_def split: if_splits)
  moreover have "32 \<le> uint (next_char s nm)" "uint (next_char s nm) \<le> 126"
    using next_char_range [OF assms, of nm fac s] nms by (simp_all add: word_le_def)
  moreover have "length s < 100" using candidate_short(1,2) [OF assms, of nm fac s] nms prefix_length_le [of s nm] by simp
  ultimately show "32 \<le> fst (completes table fac s n) \<and> fst (completes table fac s n) \<le> 126 \<and> length s < NKREADLINE_LINE_SIZE - 1"
    by (simp add: NKREADLINE_LINE_SIZE_def)
next
  fix s :: bytes
  obtain s' b where s: "s @ [0] = s' @ 0 # b" "0 \<notin> set s'" using string_parts by blast
  show "snd (completes table fac s 0) = []" using nk_complete_ok [OF assms s(2), of fac b False] by (simp add: completes_def s(1))
  obtain rtn out where "nk_help table fac (s' @ 0 # b) = Some (rtn, out)" "out = [] \<or> last out = 10" using nk_help_ok [OF assms s(2)] by metis
  then show "snd (helps table fac s) = [] \<or> last (snd (helps table fac s)) = 10" by (simp add: helps_def s(1))
next
  fix s :: bytes and n :: u8
  obtain s' b where s: "s @ [0] = s' @ 0 # b" "0 \<notin> set s'" using string_parts by blast
  show "snd (completes table fac s n) = [] \<or> last (snd (completes table fac s n)) = 10"
    using nk_complete_ok [OF assms s(2), of fac b "n \<noteq> 0"] last_names [of "candidates table fac s'"] by (auto simp: completes_def s(1))
qed

interpretation firmware: completer "completes COMMAND_TABLE fac" "helps COMMAND_TABLE fac" for fac
  by (rule completer_table [OF COMMAND_TABLE_ok])

section \<open>Sorting\<close>

text \<open>The order of strings: lexicographic, by unsigned bytes.\<close>

definition cmd_key :: "'o console_cmd \<Rightarrow> bytes" where
  "cmd_key x = takeWhile (\<lambda>c. c \<noteq> 0) (cmd_text x)"

lemma strcmp_PP_ok:
  "0 \<notin> set a \<Longrightarrow> 0 \<notin> set b \<Longrightarrow> strcmp_PP (a @ 0 # x) (b @ 0 # y) = Some (if a > b then 1 else if a < b then -1 else 0)"
proof (induction a arbitrary: b)
  case Nil
  then show ?case by (cases b) (auto simp: word_gt_0)
next
  case (Cons c a)
  then show ?case by (cases b) (auto simp: word_gt_0)
qed

lemma strcmp_cmds:
  assumes "0 \<in> set (cmd_text x)" "0 \<in> set (cmd_text y)"
  shows "strcmp_PP (cmd_text x) (cmd_text y) = Some (if cmd_key x > cmd_key y then 1 else if cmd_key x < cmd_key y then -1 else 0)"
proof -
  have parts: "\<exists>r. cmd_text z = cmd_key z @ 0 # r" if "0 \<in> set (cmd_text z)" for z :: "'z console_cmd"
    using that unfolding cmd_key_def by (metis (mono_tags, lifting) dropWhile_eq_Nil_conv hd_dropWhile list.collapse takeWhile_dropWhile_id)
  have "0 \<notin> set (cmd_key z)" for z :: "'z console_cmd" by (auto simp: cmd_key_def dest: set_takeWhileD)
  then show ?thesis using parts assms strcmp_PP_ok [of "cmd_key x" "cmd_key y"] by metis
qed

text \<open>A pass keeps the commands and puts fewer of them in the wrong order, unless the table was sorted.\<close>

fun inversions :: "'o console_cmd list \<Rightarrow> nat" where
  "inversions [] = 0"
| "inversions (x # xs) = length (filter (\<lambda>y. cmd_key y < cmd_key x) xs) + inversions xs"

abbreviation strings_ok :: "'o console_cmd list \<Rightarrow> bool" where
  "strings_ok table \<equiv> (\<forall>x\<in>set table. 0 \<in> set (cmd_text x))"

lemma length_filter_mset: "mset xs = mset ys \<Longrightarrow> length (filter P xs) = length (filter P ys)"
  by (metis mset_filter size_mset)

lemma sort_pass_ok:
  "strings_ok table \<Longrightarrow> \<exists>t w. sort_pass table = Some (t, w) \<and> mset t = mset table
    \<and> (w \<longrightarrow> inversions t < inversions table) \<and> (\<not> w \<longrightarrow> t = table \<and> sorted (map cmd_key table)) \<and> inversions t \<le> inversions table"
proof (induction table rule: sort_pass.induct)
  case (1 x y table)
  have c: "strcmp_PP (cmd_text x) (cmd_text y) = Some (if cmd_key x > cmd_key y then 1 else if cmd_key x < cmd_key y then -1 else 0)"
    using 1(3) by (intro strcmp_cmds) auto
  show ?case
  proof (cases "cmd_key x > cmd_key y")
    case True
    obtain t w where t: "sort_pass (x # table) = Some (t, w)" "mset t = mset (x # table)" "inversions t \<le> inversions (x # table)"
      using "1.IH"(1) [OF c] True "1.prems" by auto
    have "length (filter (\<lambda>z. cmd_key z < cmd_key y) t) = length (filter (\<lambda>z. cmd_key z < cmd_key y) (x # table))"
      using t(2) by (rule length_filter_mset)
    moreover have "sort_pass (x # y # table) = Some (y # t, True)" using True c t(1) by simp
    moreover have "\<not> cmd_key x < cmd_key y" using True by simp
    moreover have "mset (y # t) = mset (x # y # table)" using t(2) by simp
    ultimately have "sort_pass (x # y # table) = Some (y # t, True)" "mset (y # t) = mset (x # y # table)"
      "inversions (y # t) < inversions (x # y # table)" using True t(3) by (simp_all del: sort_pass.simps)
    then show ?thesis by (intro exI [of _ "y # t"] exI [of _ True] conjI impI) (simp_all only: not_True_eq_False simp_thms less_imp_le)
  next
    case False
    obtain t w where t: "sort_pass (y # table) = Some (t, w)" "mset t = mset (y # table)" "inversions t \<le> inversions (y # table)"
      "w \<longrightarrow> inversions t < inversions (y # table)" "\<not> w \<longrightarrow> t = y # table \<and> sorted (map cmd_key (y # table))"
    proof -
      have n: "\<not> 0 < (if cmd_key x > cmd_key y then 1 else if cmd_key x < cmd_key y then -1 else (0 :: int))" using False by simp
      have "strings_ok (y # table)" using "1.prems" by simp
      from "1.IH"(2) [OF c n this] show ?thesis using that by blast
    qed
    have "length (filter (\<lambda>z. cmd_key z < cmd_key x) t) = length (filter (\<lambda>z. cmd_key z < cmd_key x) (y # table))"
      using t(2) by (rule length_filter_mset)
    moreover have p: "sort_pass (x # y # table) = Some (x # t, w)" using False c t(1) by simp
    moreover have m: "mset (x # t) = mset (x # y # table)" using t(2) by simp
    ultimately have i: "w \<Longrightarrow> inversions (x # t) < inversions (x # y # table)" "inversions (x # t) \<le> inversions (x # y # table)"
      using False t(3,4) by (simp_all del: sort_pass.simps)
    have s: "x # t = x # y # table \<and> sorted (map cmd_key (x # y # table))" if "\<not> w"
      using t(5) that False by (auto intro: order_trans)
    show ?thesis using p m i s by (intro exI [of _ "x # t"] exI [of _ w] conjI impI) (simp_all only: simp_thms)
  qed
qed auto

lemma sort_table_ok:
  "strings_ok table \<Longrightarrow> \<exists>t. sort_table table = Some t \<and> mset t = mset table \<and> sorted (map cmd_key t)"
proof (induction "inversions table" arbitrary: table rule: less_induct)
  case less
  obtain t w where t: "sort_pass table = Some (t, w)" "mset t = mset table" "w \<longrightarrow> inversions t < inversions table"
    "\<not> w \<longrightarrow> t = table \<and> sorted (map cmd_key table)" using sort_pass_ok [OF less.prems] by auto
  show ?case
  proof (cases w)
    case True
    have "strings_ok t" using t(2) less.prems by (metis set_mset_mset)
    then show ?thesis using less.hyps [of t] t True by (subst sort_table.simps) auto
  qed (use t in \<open>subst sort_table.simps, simp\<close>)
qed

section \<open>Commands from the console\<close>

text \<open>The characters that arrive: while \<open>prompt_task\<close> is registered they go to the line editor, and a line goes to \<open>handle_cmd\<close>.\<close>

partial_function (option) cli_task ::
  "('o \<Rightarrow> args \<Rightarrow> ('o, 'w) cli \<Rightarrow> (int \<times> ('o, 'w) cli) option) \<Rightarrow> bytes \<Rightarrow> ('o, 'w) cli \<Rightarrow> (bytes \<times> ('o, 'w) cli) option" where
  "cli_task run cs st =
     (if \<not> reading st then Some (cs, st)
      else do {
        (line, rest, ed) \<leftarrow> prompt_task (completes (command_table st) (facmode st)) (helps (command_table st) (facmode st)) cs (console st);
        (case line of
           None \<Rightarrow> Some (rest, st\<lparr>console := ed\<rparr>)
         | Some l \<Rightarrow> do { st \<leftarrow> handle_cmd run (Some l) (st\<lparr>console := ed, reading := False\<rparr>); cli_task run rest st })
      })"

lemma scan_reads:
  assumes "mem_file.reads data f bs" "match_items (\<lambda>_ _. None) False (scan_items fmt) ap bs = Some (good, ap', r)"
  shows "\<exists>f'. scan f fmt ap = Some (good, ap', f') \<and> mem_file.reads data f' (if good then r else bs)"
proof -
  have "mem_file.key_matches (\<lambda>(f :: unit nkinfile) (k :: unit). None) (\<lambda>_ _. None)" by (simp add: mem_file.key_matches_def)
  from mem_file.vscan_reads [OF this assms] show ?thesis by (simp add: scan_def nk_fscan_def)
qed

text \<open>The name of a command is what \<open>%w\<close> takes.\<close>

lemma word_char_u8: "word_char (uint c) \<longleftrightarrow> \<not> nk_isspace (uint (c :: u8))"
  by (simp add: word_char_def)

lemma name_char:
  assumes "33 \<le> (c :: u8)" "c \<le> 126"
  shows "\<not> nk_isspace (uint c)"
proof -
  have "33 \<le> uint c" using assms(1) by (simp add: word_le_def)
  then show ?thesis by (auto simp: nk_isspace_def)
qed

lemma word_matches:
  assumes nm: "name_ok nm" "hd nm \<noteq> 34" and args: "args = [] \<or> hd args = 32"
  shows "text_string word_char word_char False (-1) (nm @ args) = (Some (nm, args), nm)"
proof -
  have all: "\<forall>c\<in>set nm. word_char (uint c)" using nm(1) name_char by (auto simp: name_ok_def list_all_iff word_char_u8)
  have sep: "case args of c # _ \<Rightarrow> \<not> word_char (uint c) | [] \<Rightarrow> True"
    using args by (cases args) (auto simp: word_char_def nk_isspace_def)
  have sp: "span_chars word_char (-1) (nm @ args) = (nm, args)" by (rule span_all [OF _ all sep]) simp
  have l: "map (lower False) nm = nm" by (rule map_idI) (simp add: lower_def)
  obtain c cs where c: "nm = c # cs" using nm(1) by (cases nm) (auto simp: name_ok_def)
  then have "text_string word_char word_char False (-1) (nm @ args) = text_plain word_char False (-1) (nm @ args)"
    using nm(2) all by (simp add: text_string_def)
  then show ?thesis using sp l c by (simp add: text_plain_def)
qed

lemma name_fits:
  assumes "length nm < NK_MAX_CMD_LEN"
  shows "\<exists>b. stored_word (word_of_nat NK_MAX_CMD_LEN) nm (replicate NK_MAX_CMD_LEN 0) = nm @ 0 # b"
proof -
  have "(word_of_nat NK_MAX_CMD_LEN :: u32) \<noteq> 0" "unat (word_of_nat NK_MAX_CMD_LEN :: u32) = 16" by (simp_all add: NK_MAX_CMD_LEN_def)
  moreover have "take (16 - 1) nm = nm" using assms by (simp add: NK_MAX_CMD_LEN_def)
  ultimately show ?thesis by (simp add: stored_word_def)
qed

text \<open>The rest of a line asks for the help of the command.\<close>

definition asks_help :: "bytes \<Rightarrow> bool" where
  "asks_help bs \<longleftrightarrow> (\<exists>r. bs = [104, 101, 108, 112] @ r \<and> (\<forall>c\<in>set r. nk_isspace (uint c)))"

lemma dropWhile_Nil: "dropWhile P r = [] \<longleftrightarrow> (\<forall>c\<in>set r. P c)"
  by (rule dropWhile_eq_Nil_conv)

lemma lit_matches:
  "match_items key False (Lit c # is) ap bs = (if bs \<noteq> [] \<and> uint (hd bs) = chr c then match_items key False is ap (tl bs) else Some (False, ap, bs))"
  by (cases bs) (auto simp: same_char_def)

lemma help_matches:
  "\<exists>r. match_items (\<lambda>_ _. None) False (scan_items ''help '') ([] :: unit dest list) bs = Some (asks_help bs, [], r)"
proof -
  have its: "scan_items ''help '' = [Lit (CHR ''h''), Lit (CHR ''e''), Lit (CHR ''l''), Lit (CHR ''p''), Blank]" by (simp add: scan_items.simps)
  have code: "uint c = k \<longleftrightarrow> c = word_of_int k" if "0 \<le> k" "k < 256" for c :: u8 and k
    using that by (auto simp: word_uint_eq_iff uint_word_of_int)
  show ?thesis
    unfolding its lit_matches asks_help_def
    by (cases bs; cases "tl bs"; cases "tl (tl bs)"; cases "tl (tl (tl bs))") (auto simp: code dropWhile_Nil)
qed

lemma process_cmd_runs:
  assumes table: "table_ok (command_table st)" and ok: "name_ok nm" and nm: "length nm < NK_MAX_CMD_LEN" "hd nm \<noteq> 34" "hd nm \<noteq> 42" and args: "args = [] \<or> hd args = 32" "0 \<notin> set args"
      "length args < 2 ^ 31" and no_help: "\<not> asks_help (dropWhile (\<lambda>c. nk_isspace (uint c)) args)"
  shows "\<exists>f. mem_file.reads (nm @ args) f (dropWhile (\<lambda>c. nk_isspace (uint c)) args) \<and> process_cmd run (nm @ args @ 0 # b) st =
    (case find (\<lambda>x. visible (facmode st) x \<and> cmd_name x = nm) (command_table st) of
       None \<Rightarrow> say (''Syntax error'' @ [CHR 0x0A]) [] st
     | Some x \<Rightarrow> do { (rtn, st) \<leftarrow> call run (cmd_func x) f st; if rtn \<noteq> 0 then say (''Command failed!'' @ [CHR 0x0A]) [] st else Some st })"
proof -
  let ?rest = "dropWhile (\<lambda>c. nk_isspace (uint c)) args"
  have "(0 :: u8) \<notin> set nm"
  proof
    assume "0 \<in> set nm"
    then have "33 \<le> (0 :: u8)" using ok unfolding name_ok_def list_all_iff by blast
    then show False by simp
  qed
  then have n0: "0 \<notin> set (nm @ args)" using args(2) by simp
  have len: "length (nm @ args) < 2 ^ 32" using nm(1) args(3) by (simp add: NK_MAX_CMD_LEN_def)
  obtain c cs where c: "nm = c # cs" using ok by (cases nm) (auto simp: name_ok_def)
  define f where "f = nkinfile_open_mem () (nm @ args @ 0 # b) (word_of_nat (length (nm @ args)))"
  have open_f: "nkinfile_open_string () (nm @ args @ 0 # b) = Some f"
    using strlen_string [OF n0, of b] by (simp add: nkinfile_open_string_def f_def)
  have f: "mem_file.reads (nm @ args) f (nm @ args)" using open_mem_reads [OF len, of "()" "0 # b"] by (simp add: f_def)
  have peek: "nk_fpeek f = Some (uint c)" using mem_file.reads_peek [OF f] c by simp
  have feof: "\<not> nk_feof f"
  proof -
    obtain p where p: "mem_file.view f (nm @ args) p" "nm @ args = drop p (nm @ args)" using f by (auto simp: mem_file.reads_def)
    then have "p = 0" by (metis add_diff_cancel_right' append_take_drop_id diff_is_0_eq drop_all length_append length_drop mem_file.view_less order_refl c append_Cons list.distinct(1) append_self_conv2 take_eq_Nil2)
    then show ?thesis using mem_file.feof_view [OF p(1)] c by simp
  qed
  have star: "uint c \<noteq> chr (CHR ''*'')"
    using nm(3) c by (auto simp: word_uint_eq_iff)
  have its: "scan_items ''%w %e'' = [Conv (CHR ''w'') (-1) 0, Blank, Done]"
    by (simp add: scan_items.simps scan_width_def is_digit_def conv_chars_def)
  obtain b1 where b1: "stored_word (word_of_nat NK_MAX_CMD_LEN) nm (replicate NK_MAX_CMD_LEN 0) = nm @ 0 # b1" using name_fits [OF nm(1)] by blast
  let ?ap = "[PStr (replicate NK_MAX_CMD_LEN 0) (word_of_nat NK_MAX_CMD_LEN) :: unit dest]"
  have "match_items (\<lambda>_ _. None) False (scan_items ''%w %e'') ?ap (nm @ args) = Some (True, [PStr (nm @ 0 # b1) (word_of_nat NK_MAX_CMD_LEN)], ?rest)"
    unfolding its using word_matches [OF ok nm(2) args(1)] b1
    by (simp add: match_arg_def match_string_def) (simp add: NK_MAX_CMD_LEN_def)
  from scan_reads [OF f this] obtain f1 where f1: "scan f ''%w %e'' ?ap = Some (True, [PStr (nm @ 0 # b1) (word_of_nat NK_MAX_CMD_LEN)], f1)"
    "mem_file.reads (nm @ args) f1 ?rest" by auto
  have find: "find_cmd (command_table st) (facmode st) (nm @ 0 # b1) = Some (find (\<lambda>x. visible (facmode st) x \<and> cmd_name x = nm) (command_table st))"
    using find_cmd_ok [OF table, of nm "facmode st" b1] n0 by simp
  obtain r where "match_items (\<lambda>_ _. None) False (scan_items ''help '') ([] :: unit dest list) ?rest = Some (False, [], r)"
    using help_matches [of ?rest] no_help by auto
  from scan_reads [OF f1(2) this] obtain f2 where f2: "scan f1 ''help '' [] = Some (False, [], f2)" "mem_file.reads (nm @ args) f2 ?rest" by auto
  show ?thesis
    using open_f feof peek star f1(1) find f2 unfolding process_cmd_def
    by (intro exI [of _ f2]) (simp cong: Option.bind_cong split: option.split)
qed

lemma printf_text:
  assumes "vformat fmt ap = Some bs"
  shows "nk_printf putc s fmt ap = Some (fold putc bs s)"
  unfolding nk_printf_def nk_vprintf_def vprintf_loop_prints [OF assms] console_puts by (simp add: nkstdout_def)

lemma vformat_literal: "CHR ''%'' \<notin> set fmt \<Longrightarrow> vformat fmt [] = Some (map of_char fmt)"
proof (induction fmt)
  case (Cons c fmt)
  have "c \<noteq> CHR ''%''" using Cons.prems by (metis list.set_intros(1))
  moreover have "vformat fmt [] = Some (map of_char fmt)" using Cons by simp
  ultimately show ?case by (simp only: vformat.simps not_False_eq_True if_True bind.bind_lunit list.map simp_thms)
qed simp

lemma fold_putc: "fold (\<lambda>c st. st\<lparr>console := nk_putc c (console st)\<rparr>) bs st = st\<lparr>console := nk_puts bs (console st)\<rparr>"
  by (induction bs arbitrary: st) (simp_all add: nk_putc_def nk_puts_def)

lemma say_text: "CHR ''%'' \<notin> set fmt \<Longrightarrow> say fmt [] st = Some (cli_puts (map of_char fmt) st)"
  unfolding say_def by (subst printf_text [OF vformat_literal], assumption, simp only: fold_putc)

section \<open>Properties\<close>


lemma COMMAND_TABLE_names:
  "map cmd_name COMMAND_TABLE = map (map of_char) [''help'', ''echo'', ''mem'', ''reboot'', ''info'', ''i2c'', ''dbase'', ''rtc'', ''ymodem'', ''mcuflash'',
     ''pin'', ''work'', ''power'']"
proof -
  have e: "cmd_name (entry f ((m # w) # ls)) = map of_char nm"
    if "lines_ok ((m # w) # ls)" "takeWhile (\<lambda>c. c \<noteq> CHR '' '') w = nm" for f :: "app_command command" and m w ls nm
    using entry_name [OF that(1)] that(2) by simp
  show ?thesis
    unfolding COMMAND_TABLE_def list.map entries list.inject by (intro conjI e refl; code_simp)
qed

lemma visible_entry: "visible fac (entry f ((CHR ''>'' # w) # ls))"
  by (simp add: visible_def entry_def help_text_def)

lemma COMMAND_TABLE_visible: "list_all (visible fac) COMMAND_TABLE"
  by (simp add: COMMAND_TABLE_def entries visible_entry)


lemma next_char_blank:
  assumes "table_ok table" "nm \<in> set (candidates table fac s)"
  shows "next_char s nm = 32 \<longleftrightarrow> nm = s"
proof -
  obtain r where r: "nm = s @ r" using candidate_short(1) [OF assms] by (rule prefixE)
  show ?thesis
  proof (cases r)
    case (Cons c r')
    then have "33 \<le> c" using candidate_short(3) [OF assms] r by simp
    moreover have "\<not> 33 \<le> (32 :: u8)" by simp
    ultimately show ?thesis using r Cons by (auto simp: next_char_def nth_append)
  qed (use r in \<open>simp add: next_char_def nth_append\<close>)
qed

lemma next_char_prefix:
  assumes "table_ok table" "nm \<in> set (candidates table fac s)" "c \<noteq> 32"
  shows "next_char s nm = c \<longleftrightarrow> prefix (s @ [c]) nm"
proof -
  obtain r where r: "nm = s @ r" using candidate_short(1) [OF assms(1,2)] by (rule prefixE)
  then show ?thesis using assms(3) by (cases r) (auto simp: next_char_def nth_append)
qed

lemma uint_u8_neg: "uint (c :: u8) \<noteq> -1" "uint (c :: u8) \<noteq> -2"
proof -
  have "0 \<le> uint c" by simp
  then show "uint c \<noteq> -1" "uint c \<noteq> -2" by linarith+
qed

lemma completion_same:
  fixes table :: "'o console_cmd list" and s :: bytes and fac :: bool
  defines "nms \<equiv> candidates table fac s"
  assumes t: "table_ok table" and nm: "nm \<in> set nms" and same: "\<forall>n\<in>set nms. next_char s n = next_char s nm"
  shows "completion nms s = uint (next_char s nm)" "completion nms s = 32 \<longleftrightarrow> set nms = {s}"
    "\<And>c. c \<noteq> 32 \<Longrightarrow> completion nms s = uint c \<longleftrightarrow> (\<forall>n\<in>set nms. prefix (s @ [c]) n)"
proof -
  note b = next_char_blank [OF t, of _ fac s, folded nms_def] and p = next_char_prefix [OF t, of _ fac s, folded nms_def]
  have ne: "nms \<noteq> []" using nm by auto
  then have "hd nms \<in> set nms" by (rule hd_in_set)
  then show c: "completion nms s = uint (next_char s nm)" using same ne unfolding completion_def by metis
  have "next_char s nm = 32 \<longleftrightarrow> set nms = {s}"
    using b nm same by (metis (no_types, lifting) equals0D insertE singleton_iff subsetI subset_singletonD)
  then show "completion nms s = 32 \<longleftrightarrow> set nms = {s}" unfolding c by (simp add: word_uint_eq_iff)
  fix c :: u8 assume "c \<noteq> 32"
  then have "next_char s nm = c \<longleftrightarrow> (\<forall>n\<in>set nms. prefix (s @ [c]) n)" using p [OF _ \<open>c \<noteq> 32\<close>] nm same by metis
  then show "completion nms s = uint c \<longleftrightarrow> (\<forall>n\<in>set nms. prefix (s @ [c]) n)" unfolding c by (simp add: word_uint_eq_iff)
qed

lemma completion_exact_candidates:
  fixes table :: "'o console_cmd list" and s :: bytes and fac :: bool
  defines "nms \<equiv> candidates table fac s"
  assumes t: "table_ok table"
  shows "(completion nms s = -1 \<longleftrightarrow> nms = [])
    \<and> (completion nms s = -2 \<longleftrightarrow> (\<exists>a\<in>set nms. \<exists>b\<in>set nms. next_char s a \<noteq> next_char s b))
    \<and> (completion nms s = 32 \<longleftrightarrow> nms \<noteq> [] \<and> set nms = {s})
    \<and> (\<forall>c. c \<noteq> 32 \<longrightarrow> (completion nms s = uint c \<longleftrightarrow> nms \<noteq> [] \<and> (\<forall>nm\<in>set nms. prefix (s @ [c]) nm)))"
proof (cases nms)
  case Nil
  then show ?thesis by (auto simp: completion_def uint_u8_neg uint_u8_neg [symmetric])
next
  case (Cons nm nms')
  then have nm: "nm \<in> set nms" and ne: "nms \<noteq> []" by simp_all
  show ?thesis
  proof (cases "\<forall>n\<in>set nms. next_char s n = next_char s nm")
    case True
    note c = completion_same [OF t nm [unfolded nms_def] True [unfolded nms_def], folded nms_def]
    have "\<not> (\<exists>a\<in>set nms. \<exists>b\<in>set nms. next_char s a \<noteq> next_char s b)" using True by metis
    moreover have "completion nms s \<noteq> -1" "completion nms s \<noteq> -2" unfolding c(1) by (rule uint_u8_neg)+
    ultimately show ?thesis using ne by (intro conjI allI impI) (simp_all only: c(2,3) simp_thms)
  next
    case False
    then have c: "completion nms s = -2" by (auto simp: completion_def Cons)
    have "\<not> set nms = {s}" using False nm by (metis singletonD)
    moreover have "\<not> (\<forall>n\<in>set nms. prefix (s @ [c]) n)" if "c \<noteq> 32" for c
      using False next_char_prefix [OF t, of _ fac s c, folded nms_def] that nm by metis
    ultimately show ?thesis using False nm unfolding c by (auto simp: uint_u8_neg [symmetric])
  qed
qed

text \<open>C27. Completion is exact: for every table of well-formed commands and every text before the cursor, what the TAB key gets is
  the one character by which every command with that prefix goes on, a space when the text is the name of the only command with that prefix,
  -1 when no visible command has the prefix, and -2 when two of them go on differently; and asked for the list it prints the names of
  exactly these commands, one on a line, in the order of the table.\<close>
theorem completion_exact:
  assumes "table_ok table" and "0 \<notin> set s"
  shows "\<exists>res. nk_complete table fac (s @ 0 # b) lst = Some (res, if lst then concat (map (\<lambda>nm. nm @ [10]) (candidates table fac s)) else [])
    \<and> (res = -1 \<longleftrightarrow> candidates table fac s = [])
    \<and> (res = -2 \<longleftrightarrow> (\<exists>a\<in>set (candidates table fac s). \<exists>b\<in>set (candidates table fac s). next_char s a \<noteq> next_char s b))
    \<and> (res = 32 \<longleftrightarrow> candidates table fac s \<noteq> [] \<and> set (candidates table fac s) = {s})
    \<and> (\<forall>c. c \<noteq> 32 \<longrightarrow> (res = uint c \<longleftrightarrow> candidates table fac s \<noteq> [] \<and> (\<forall>nm\<in>set (candidates table fac s). prefix (s @ [c]) nm)))"
  by (rule exI, rule conjI [OF nk_complete_ok [OF assms] completion_exact_candidates [OF assms(1)]])

lemma COMMAND_TABLE_candidates: "candidates COMMAND_TABLE fac s = filter (prefix s) (map cmd_name COMMAND_TABLE)"
proof -
  have "filter (\<lambda>x. visible fac x \<and> prefix s (cmd_name x)) COMMAND_TABLE = filter (\<lambda>x. prefix s (cmd_name x)) COMMAND_TABLE"
    using COMMAND_TABLE_visible [of fac] by (intro filter_cong) (auto simp: list_all_iff)
  then show ?thesis by (simp add: candidates_def filter_map comp_def)
qed

theorem completion_exact_witness:
  "nk_complete COMMAND_TABLE False ([112, 105] @ 0 # []) False = Some (110, [])
    \<and> nk_complete COMMAND_TABLE False ([112] @ 0 # []) True = Some (-2, [112, 105, 110, 10, 112, 111, 119, 101, 114, 10])"
proof -
  have c: "candidates COMMAND_TABLE False [112, 105] = [[112, 105, 110]]" "candidates COMMAND_TABLE False [112] = [[112, 105, 110], [112, 111, 119, 101, 114]]"
    unfolding COMMAND_TABLE_candidates COMMAND_TABLE_names by simp_all
  have n: "0 \<notin> set [112, 105 :: u8]" "0 \<notin> set [112 :: u8]" by simp_all
  from completion_exact [OF COMMAND_TABLE_ok n(1), of False "[]" False, unfolded c] obtain res where
    1: "nk_complete COMMAND_TABLE False ([112, 105] @ 0 # []) False = Some (res, if False then concat (map (\<lambda>nm. nm @ [10]) [[112, 105, 110]]) else [])"
      "\<forall>c :: u8. c \<noteq> 32 \<longrightarrow> (res = uint c \<longleftrightarrow> [[112, 105, 110 :: u8]] \<noteq> [] \<and> (\<forall>nm\<in>set [[112, 105, 110]]. prefix ([112, 105] @ [c]) nm))"
    by (elim exE conjE) (rule that; assumption)
  have "res = uint (110 :: u8)" using 1(2) [rule_format, of 110] by simp
  moreover from completion_exact [OF COMMAND_TABLE_ok n(2), of False "[]" True, unfolded c] obtain res2 where
    2: "nk_complete COMMAND_TABLE False ([112] @ 0 # []) True
      = Some (res2, if True then concat (map (\<lambda>nm. nm @ [10]) [[112, 105, 110], [112, 111, 119, 101, 114]]) else [])"
      "res2 = -2 \<longleftrightarrow> (\<exists>a\<in>set [[112, 105, 110], [112, 111, 119, 101, 114 :: u8]]. \<exists>b\<in>set [[112, 105, 110], [112, 111, 119, 101, 114]].
        next_char [112] a \<noteq> next_char [112] b)"
    by (elim exE conjE) (rule that; assumption)
  moreover have "res2 = -2" unfolding 2(2) by (auto simp: next_char_def)
  ultimately show ?thesis using 1(1) by simp
qed

text \<open>Start-up sorts the command table: the bubble sort ends for every table of NUL-terminated texts, with the
  same commands in the order of their texts as unsigned bytes.\<close>
theorem init_cli_sorts:
  assumes "\<forall>x\<in>set (command_table st). 0 \<in> set (cmd_text x)"
  shows "\<exists>st'. nk_init_cli st = Some st' \<and> mset (command_table st') = mset (command_table st) \<and> sorted (map cmd_key (command_table st'))
    \<and> console st' = nk_puts (map of_char (''[Initialize] Command Line Interface'' @ [CHR 0x0A])) (console st)"
proof -
  obtain t where t: "sort_table (command_table st) = Some t" "mset t = mset (command_table st)" "sorted (map cmd_key t)"
    using sort_table_ok [OF assms] by blast
  have "CHR ''%'' \<notin> set (''[Initialize] Command Line Interface'' @ [CHR 0x0A])" by simp
  from say_text [OF this, of st] t show ?thesis unfolding nk_init_cli_def by auto
qed

theorem init_cli_sorts_witness:
  "\<exists>st'. nk_init_cli \<lparr>command_table = COMMAND_TABLE, facmode = True, cli_disabled = False, reading = False, deepness = 0, console = readline0, world = ()\<rparr> = Some st'
    \<and> mset (command_table st') = mset COMMAND_TABLE \<and> sorted (map cmd_key (command_table st'))"
proof -
  let ?st = "\<lparr>command_table = COMMAND_TABLE, facmode = True, cli_disabled = False, reading = False, deepness = 0, console = readline0, world = ()\<rparr>"
  have "\<forall>x\<in>set (command_table ?st). 0 \<in> set (cmd_text x)"
    by (simp add: COMMAND_TABLE_def entries entry_def help_text_def)
  from init_cli_sorts [OF this] show ?thesis by auto
qed

end
