(* ===== verification/Uart.thy ===== *)
theory Uart
  imports Prelude
begin

unbundle bit_operations_syntax

text \<open>
  The console UART of this board, \<^verbatim>\<open>nkuart_pico.c\<close>: a ring buffer that the receive interrupt fills and \<open>nk_getc\<close> empties, with
  indexes that run over all 32-bit values, the task that waits for characters, and the output routines. The FIFO of the hardware is the
  list \<open>hw_rx\<close> (\<open>uart_is_readable\<close>, \<open>uart_getc\<close> of the Pico SDK), what is sent is collected in \<open>hw_tx\<close>, and the calls of
  \<open>nk_sched\<close> in \<open>submitted\<close>. The interrupt handler runs to its end before anything else, as on the processor; its loop may
  never end, then it has no value.
\<close>

definition NK_UART_RXBUF_SIZE :: nat where "NK_UART_RXBUF_SIZE = 2048"

record 't uart =
  rx_buf :: bytes
  rx_buf_rd :: u32
  rx_buf_wr :: u32
  uart_mode :: bool
  waiting_rx_task :: "'t option"
  submitted :: "'t list"
  hw_rx :: bytes
  hw_tx :: bytes

text \<open>A task is its identifier, its function and its data.\<close>

definition nk_set_uart_callback :: "'t \<Rightarrow> 't uart \<Rightarrow> 't uart" where
  "nk_set_uart_callback task u =
     (if rx_buf_rd u \<noteq> rx_buf_wr u then u\<lparr>submitted := submitted u @ [task], waiting_rx_task := None\<rparr>
      else u\<lparr>waiting_rx_task := Some task\<rparr>)"

definition nk_get_uart_mode :: "'t uart \<Rightarrow> bool" where
  "nk_get_uart_mode u = uart_mode u"

definition nk_set_uart_mode :: "bool \<Rightarrow> 't uart \<Rightarrow> bool \<times> 't uart" where
  "nk_set_uart_mode new_mode u = (uart_mode u, u\<lparr>uart_mode := new_mode\<rparr>)"

definition uart_putc :: "u8 \<Rightarrow> 't uart \<Rightarrow> 't uart" where
  "uart_putc c u = u\<lparr>hw_tx := hw_tx u @ [c]\<rparr>"

definition nk_putc :: "u8 \<Rightarrow> 't uart \<Rightarrow> 't uart" where
  "nk_putc c u = uart_putc c (if \<not> uart_mode u \<and> c = 10 then uart_putc 13 u else u)"

fun nk_puts :: "bytes \<Rightarrow> 't uart \<Rightarrow> 't uart option" where
  "nk_puts [] u = None"
| "nk_puts (c # s) u = (if c = 0 then Some u else nk_puts s (nk_putc c u))"

fun nk_uart_write :: "bytes \<Rightarrow> nat \<Rightarrow> 't uart \<Rightarrow> 't uart option" where
  "nk_uart_write s 0 u = Some u"
| "nk_uart_write (c # s) (Suc n) u = nk_uart_write s n (nk_putc c u)"
| "nk_uart_write [] (Suc n) u = None"

text \<open>The index into the buffer: \<open>i & (sizeof(rx_buf) - 1)\<close>.\<close>

definition rx_index :: "u32 \<Rightarrow> nat" where
  "rx_index i = unat (i AND (word_of_nat NK_UART_RXBUF_SIZE - 1))"

partial_function (option) rx_chars :: "'t uart \<Rightarrow> 't uart option" where
  "rx_chars u =
     (case hw_rx u of
        [] \<Rightarrow> Some u
      | c # cs \<Rightarrow>
          if rx_buf_wr u - rx_buf_rd u \<noteq> word_of_nat NK_UART_RXBUF_SIZE then do {
            buf \<leftarrow> store_at (rx_buf u) (rx_index (rx_buf_wr u)) [c];
            rx_chars (u\<lparr>rx_buf := buf, rx_buf_wr := rx_buf_wr u + 1, hw_rx := cs\<rparr>)
          }
          else rx_chars u)"

definition on_uart_rx :: "'t uart \<Rightarrow> 't uart option" where
  "on_uart_rx u = do {
     u \<leftarrow> rx_chars u;
     Some (case waiting_rx_task u of
         Some task \<Rightarrow> u\<lparr>submitted := submitted u @ [task], waiting_rx_task := None\<rparr>
       | None \<Rightarrow> u)
   }"

definition nk_getc :: "'t uart \<Rightarrow> (int \<times> 't uart) option" where
  "nk_getc u =
     (if rx_buf_rd u \<noteq> rx_buf_wr u then do {
        c \<leftarrow> deref (rx_buf u) (rx_index (rx_buf_rd u));
        Some (uint c, u\<lparr>rx_buf_rd := rx_buf_rd u + 1\<rparr>)
      }
      else Some (-1, u))"

definition nk_kbhit :: "'t uart \<Rightarrow> bool" where
  "nk_kbhit u \<longleftrightarrow> rx_buf_rd u \<noteq> rx_buf_wr u"

section \<open>A queue of characters\<close>

text \<open>The characters in the buffer, oldest first.\<close>

definition queue_len :: "'t uart \<Rightarrow> nat" where
  "queue_len u = unat (rx_buf_wr u - rx_buf_rd u)"

definition queue :: "'t uart \<Rightarrow> bytes" where
  "queue u = map (\<lambda>k. rx_buf u ! rx_index (rx_buf_rd u + word_of_nat k)) [0..<queue_len u]"

definition uart_ok :: "'t uart \<Rightarrow> bool" where
  "uart_ok u \<longleftrightarrow> length (rx_buf u) = NK_UART_RXBUF_SIZE \<and> queue_len u \<le> NK_UART_RXBUF_SIZE"

lemma rx_index_less: "rx_index i < NK_UART_RXBUF_SIZE"
  and rx_index_mod: "rx_index i = unat i mod NK_UART_RXBUF_SIZE"
proof -
  have p: "pow2 (word_of_nat NK_UART_RXBUF_SIZE :: u32)" by (rule pow2_numeral_intro [of 11]) (simp_all add: NK_UART_RXBUF_SIZE_def)
  have "unat (word_of_nat NK_UART_RXBUF_SIZE :: u32) = NK_UART_RXBUF_SIZE" by (simp add: NK_UART_RXBUF_SIZE_def)
  then show "rx_index i = unat i mod NK_UART_RXBUF_SIZE" unfolding rx_index_def and_pow2_minus_1 [OF p] by simp
  then show "rx_index i < NK_UART_RXBUF_SIZE" by (simp add: NK_UART_RXBUF_SIZE_def)
qed

text \<open>The buffer size divides the range of the indexes, so indexes less than the size apart are different places.\<close>

lemma rx_index_add: "rx_index (i + word_of_nat k) = (rx_index i + k) mod NK_UART_RXBUF_SIZE"
proof -
  have "unat (i + word_of_nat k) = (unat i + k) mod 2 ^ 32"
    by (simp add: unat_word_ariths unat_of_nat mod_add_right_eq)
  moreover have "(n :: nat) mod 2 ^ 32 mod NK_UART_RXBUF_SIZE = n mod NK_UART_RXBUF_SIZE" for n
    by (rule mod_mod_cancel) (simp add: NK_UART_RXBUF_SIZE_def)
  ultimately show ?thesis by (simp add: rx_index_mod mod_add_left_eq)
qed

lemma rx_index_inj:
  assumes "j < NK_UART_RXBUF_SIZE" "k < NK_UART_RXBUF_SIZE" "rx_index (i + word_of_nat j) = rx_index (i + word_of_nat k)"
  shows "j = k"
proof -
  have "n dvd b - a" if "(x + a) mod n = (x + b) mod n" "a \<le> b" for x a b n :: nat
    using that mod_eq_dvd_iff_nat [of "x + a" "x + b" n] by simp
  then have "j \<le> k \<Longrightarrow> NK_UART_RXBUF_SIZE dvd k - j" "k \<le> j \<Longrightarrow> NK_UART_RXBUF_SIZE dvd j - k"
    using assms(3) unfolding rx_index_add by metis+
  then show ?thesis using assms(1,2) by (metis antisym_conv diff_is_0_eq dvd_imp_le gr0I less_imp_diff_less linorder_not_le nat_le_linear)
qed

lemma queue_len_0: "queue_len u = 0 \<longleftrightarrow> rx_buf_rd u = rx_buf_wr u"
  by (auto simp: queue_len_def unat_eq_zero)

lemma length_queue [simp]: "length (queue u) = queue_len u"
  by (simp add: queue_def)

lemma queue_empty: "queue u = [] \<longleftrightarrow> rx_buf_rd u = rx_buf_wr u"
  using queue_len_0 [of u] by (simp flip: length_0_conv)

lemma queue_len_full: "uart_ok u \<Longrightarrow> rx_buf_wr u - rx_buf_rd u = word_of_nat NK_UART_RXBUF_SIZE \<longleftrightarrow> queue_len u = NK_UART_RXBUF_SIZE"
  by (simp add: queue_len_def word_unat_eq_iff NK_UART_RXBUF_SIZE_def)

text \<open>A character that is put in and one that is taken out.\<close>

lemma push_char:
  fixes u :: "'t uart" and c :: u8
  assumes ok: "uart_ok u" and room: "queue_len u < NK_UART_RXBUF_SIZE"
  defines "u' \<equiv> u\<lparr>rx_buf := (rx_buf u)[rx_index (rx_buf_wr u) := c], rx_buf_wr := rx_buf_wr u + 1\<rparr>"
  shows "queue u' = queue u @ [c]" "uart_ok u'"
proof -
  have len: "queue_len u' = Suc (queue_len u)"
  proof -
    have "unat (rx_buf_wr u - rx_buf_rd u + 1) = Suc (unat (rx_buf_wr u - rx_buf_rd u))"
      using room by (intro unat_plus_1_less [of _ "word_of_nat NK_UART_RXBUF_SIZE"]) (simp add: queue_len_def NK_UART_RXBUF_SIZE_def)
    moreover have "rx_buf_wr u + 1 - rx_buf_rd u = rx_buf_wr u - rx_buf_rd u + 1" by simp
    moreover have "rx_buf_wr u' = rx_buf_wr u + 1" "rx_buf_rd u' = rx_buf_rd u" by (simp_all add: u'_def)
    ultimately show ?thesis unfolding queue_len_def by presburger
  qed
  have wr: "rx_buf_wr u = rx_buf_rd u + word_of_nat (queue_len u)" by (simp add: queue_len_def)
  have old: "rx_buf u' ! rx_index (rx_buf_rd u + word_of_nat k) = rx_buf u ! rx_index (rx_buf_rd u + word_of_nat k)" if "k < queue_len u" for k
  proof -
    have "rx_index (rx_buf_rd u + word_of_nat k) \<noteq> rx_index (rx_buf_wr u)"
      using rx_index_inj [of k "queue_len u" "rx_buf_rd u"] that room unfolding wr by auto
    then show ?thesis by (simp add: u'_def)
  qed
  have new: "rx_buf u' ! rx_index (rx_buf_rd u + word_of_nat (queue_len u)) = c"
    using ok rx_index_less [of "rx_buf_wr u"] unfolding wr [symmetric] by (simp add: u'_def uart_ok_def)
  have "rx_buf_rd u' = rx_buf_rd u" by (simp add: u'_def)
  then show "queue u' = queue u @ [c]" unfolding queue_def len using old new by simp
  show "uart_ok u'" using ok room len by (simp add: uart_ok_def) (simp add: u'_def)
qed

lemma take_char:
  assumes ok: "uart_ok u" and q: "queue u = c # cs"
  shows "nk_getc u = Some (uint c, u\<lparr>rx_buf_rd := rx_buf_rd u + 1\<rparr>)" "queue (u\<lparr>rx_buf_rd := rx_buf_rd u + 1\<rparr>) = cs"
    "uart_ok (u\<lparr>rx_buf_rd := rx_buf_rd u + 1\<rparr>)"
proof -
  let ?u = "u\<lparr>rx_buf_rd := rx_buf_rd u + 1\<rparr>"
  have n: "queue_len u = Suc (length cs)" using q length_queue [of u] by simp
  have len: "queue_len ?u = length cs"
  proof -
    have "rx_buf_wr u - (rx_buf_rd u + 1) = rx_buf_wr u - rx_buf_rd u - 1" by simp
    moreover have "unat (rx_buf_wr u - rx_buf_rd u - 1) = unat (rx_buf_wr u - rx_buf_rd u) - 1"
      using n by (subst unat_sub_no_wrap) (simp_all add: queue_len_def)
    moreover have "rx_buf_wr ?u = rx_buf_wr u" "rx_buf_rd ?u = rx_buf_rd u + 1" by simp_all
    ultimately show ?thesis using n unfolding queue_len_def by presburger
  qed
  have all: "map (\<lambda>k. rx_buf u ! rx_index (rx_buf_rd u + word_of_nat k)) [0..<Suc (length cs)] = c # cs" using q by (simp add: queue_def n)
  then have c: "rx_buf u ! rx_index (rx_buf_rd u) = c" and cs: "map (\<lambda>k. rx_buf u ! rx_index (rx_buf_rd u + word_of_nat (Suc k))) [0..<length cs] = cs"
    by (simp_all add: map_upt_Suc del: upt_Suc of_nat_Suc)
  have "rx_buf_rd u \<noteq> rx_buf_wr u" using queue_empty [of u] q by simp
  then show "nk_getc u = Some (uint c, ?u)" using ok rx_index_less [of "rx_buf_rd u"] c by (simp add: nk_getc_def deref_def uart_ok_def)
  show "queue ?u = cs" unfolding queue_def len using cs by (simp add: add.assoc)
  show "uart_ok ?u" using ok len n by (simp add: uart_ok_def)
qed

lemma rx_chars_all:
  "uart_ok u \<Longrightarrow> queue_len u + length (hw_rx u) \<le> NK_UART_RXBUF_SIZE \<Longrightarrow>
   \<exists>u'. rx_chars u = Some u' \<and> uart_ok u' \<and> queue u' = queue u @ hw_rx u \<and> hw_rx u' = [] \<and> waiting_rx_task u' = waiting_rx_task u
     \<and> submitted u' = submitted u \<and> uart_mode u' = uart_mode u \<and> hw_tx u' = hw_tx u"
proof (induction "hw_rx u" arbitrary: u)
  case Nil
  then show ?case by (subst rx_chars.simps) (auto split: list.split)
next
  case (Cons c cs)
  then have room: "queue_len u < NK_UART_RXBUF_SIZE" by (simp flip: Cons.hyps(2))
  let ?u = "u\<lparr>rx_buf := (rx_buf u)[rx_index (rx_buf_wr u) := c], rx_buf_wr := rx_buf_wr u + 1, hw_rx := cs\<rparr>"
  note p = push_char [OF Cons.prems(1) room, of c]
  have q: "queue ?u = queue u @ [c]" "uart_ok ?u" using p by (simp_all add: queue_def queue_len_def uart_ok_def)
  then have "queue_len ?u = Suc (queue_len u)" using length_queue [of ?u] by simp
  then have "queue_len ?u + length (hw_rx ?u) \<le> NK_UART_RXBUF_SIZE" using Cons.prems(2) by (simp flip: Cons.hyps(2))
  from Cons.hyps(1) [OF _ q(2) this] obtain u' where u': "rx_chars ?u = Some u' \<and> uart_ok u' \<and> queue u' = queue ?u @ hw_rx ?u \<and> hw_rx u' = []
     \<and> waiting_rx_task u' = waiting_rx_task ?u \<and> submitted u' = submitted ?u \<and> uart_mode u' = uart_mode ?u \<and> hw_tx u' = hw_tx ?u" by auto
  have "rx_index (rx_buf_wr u) < length (rx_buf u)" using Cons.prems(1) rx_index_less by (simp add: uart_ok_def)
  then have "rx_chars u = rx_chars ?u"
    using Cons.hyps(2) [symmetric] queue_len_full [OF Cons.prems(1)] room by (subst rx_chars.simps) (simp add: store_at_single)
  then show ?case using u' q(1) Cons.hyps(2) [symmetric] by simp
qed

text \<open>When the hardware has more characters than the buffer has room for, the interrupt handler runs forever.\<close>

lemma rx_chars_hangs:
  fixes u :: "'a uart"
  assumes "uart_ok u" "NK_UART_RXBUF_SIZE < queue_len u + length (hw_rx u)"
  shows "rx_chars u = None"
proof -
  have "\<not> (uart_ok u \<and> NK_UART_RXBUF_SIZE < queue_len u + length (hw_rx u))" if "rx_chars u = Some y" for y
  proof (rule rx_chars.raw_induct [where P = "\<lambda>u y. \<not> (uart_ok u \<and> NK_UART_RXBUF_SIZE < queue_len u + length (hw_rx u))", OF _ that])
    fix f and u y :: "'a uart"
    assume 1: "\<And>x y. f x = Some y \<Longrightarrow> \<not> (uart_ok x \<and> NK_UART_RXBUF_SIZE < queue_len x + length (hw_rx x))"
      "(case hw_rx u of [] \<Rightarrow> Some u
        | c # cs \<Rightarrow> if rx_buf_wr u - rx_buf_rd u \<noteq> word_of_nat NK_UART_RXBUF_SIZE then do {
              buf \<leftarrow> store_at (rx_buf u) (rx_index (rx_buf_wr u)) [c];
              f (u\<lparr>rx_buf := buf, rx_buf_wr := rx_buf_wr u + 1, hw_rx := cs\<rparr>) }
            else f u) = Some y"
    show "\<not> (uart_ok u \<and> NK_UART_RXBUF_SIZE < queue_len u + length (hw_rx u))"
    proof
      assume u: "uart_ok u \<and> NK_UART_RXBUF_SIZE < queue_len u + length (hw_rx u)"
      then obtain c cs where hw: "hw_rx u = c # cs" by (cases "hw_rx u") (auto simp: uart_ok_def)
      show False
      proof (cases "queue_len u = NK_UART_RXBUF_SIZE")
        case True
        then have "f u = Some y" using 1(2) u queue_len_full [of u] by (simp add: hw)
        then show False using 1(1) u by blast
      next
        case False
        then have room: "queue_len u < NK_UART_RXBUF_SIZE" using u by (simp add: uart_ok_def)
        let ?u = "u\<lparr>rx_buf := (rx_buf u)[rx_index (rx_buf_wr u) := c], rx_buf_wr := rx_buf_wr u + 1, hw_rx := cs\<rparr>"
        have p: "queue ?u = queue u @ [c]" "uart_ok ?u" using push_char [of u c] u room by (simp_all add: queue_def queue_len_def uart_ok_def)
        then have "queue_len ?u = Suc (queue_len u)" using length_queue [of ?u] by simp
        then have "NK_UART_RXBUF_SIZE < queue_len ?u + length (hw_rx ?u)" using u hw by simp
        moreover have "rx_index (rx_buf_wr u) < length (rx_buf u)" using u rx_index_less by (simp add: uart_ok_def)
        then have "f ?u = Some y" using 1(2) u room queue_len_full [of u] by (simp add: hw store_at_single)
        ultimately show False using 1(1) p(2) by blast
      qed
    qed
  qed
  then show ?thesis using assms by (cases "rx_chars u") auto
qed

section \<open>Reading with a timeout\<close>

text \<open>Before each round of \<open>nk_uart_read\<close> characters may arrive; \<open>t1\<close> and \<open>t2\<close> are what \<open>nk_get_time\<close> returns in it. With no
  rounds left the result is not known.\<close>

fun uart_read_loop ::
  "(bytes \<times> u32 \<times> u32) list \<Rightarrow> nat \<Rightarrow> u32 \<Rightarrow> bytes \<Rightarrow> nat \<Rightarrow> bool \<Rightarrow> u32 \<Rightarrow> 't uart \<Rightarrow> (nat \<times> bytes \<times> 't uart) option" where
  "uart_read_loop env len clocks s l need_time old_time u =
     (if l \<noteq> len then
        (case env of
           [] \<Rightarrow> None
         | (bs, t1, t2) # env \<Rightarrow> do {
             u \<leftarrow> (if bs \<noteq> [] then on_uart_rx (u\<lparr>hw_rx := hw_rx u @ bs\<rparr>) else Some u);
             (c, u) \<leftarrow> nk_getc u;
             if c \<noteq> -1 then do {
               s \<leftarrow> store_at s l [word_of_int c];
               uart_read_loop env len clocks s (l + 1) True old_time u
             }
             else do {
               let old_time = (if need_time then t1 else old_time);
               if t2 - old_time \<ge> clocks then Some (l, s, u)
               else uart_read_loop env len clocks s l False old_time u
             }
           })
      else Some (l, s, u))"

definition NK_TIME_COUNTS_PER_USECOND :: u32 where "NK_TIME_COUNTS_PER_USECOND = 1"

definition nk_uart_read :: "(bytes \<times> u32 \<times> u32) list \<Rightarrow> bytes \<Rightarrow> nat \<Rightarrow> u32 \<Rightarrow> 't uart \<Rightarrow> (nat \<times> bytes \<times> 't uart) option" where
  "nk_uart_read env s len timeout u = uart_read_loop env len (timeout * NK_TIME_COUNTS_PER_USECOND) s 0 True 0 u"

section \<open>Interrupts, readers and waiting tasks in any order\<close>

datatype 't uart_op = Receive bytes | Getc | Wait 't

text \<open>The characters that an operation reads, and the state after it.\<close>

fun uart_step :: "'t uart_op \<Rightarrow> 't uart \<Rightarrow> (bytes \<times> 't uart) option" where
  "uart_step (Receive bs) u = do { u \<leftarrow> on_uart_rx (u\<lparr>hw_rx := hw_rx u @ bs\<rparr>); Some ([], u) }"
| "uart_step Getc u = do { (c, u) \<leftarrow> nk_getc u; Some (if c = -1 then [] else [word_of_int c], u) }"
| "uart_step (Wait t) u = Some ([], nk_set_uart_callback t u)"

fun uart_run :: "'t uart_op list \<Rightarrow> 't uart \<Rightarrow> (bytes \<times> 't uart) option" where
  "uart_run [] u = Some ([], u)"
| "uart_run (op # ops) u = do { (cs, u) \<leftarrow> uart_step op u; (ds, u) \<leftarrow> uart_run ops u; Some (cs @ ds, u) }"

text \<open>There is room for what arrives: \<open>n\<close> characters are in the buffer.\<close>

fun room_for :: "'t uart_op list \<Rightarrow> nat \<Rightarrow> bool" where
  "room_for [] n \<longleftrightarrow> True"
| "room_for (Receive bs # ops) n \<longleftrightarrow> n + length bs \<le> NK_UART_RXBUF_SIZE \<and> room_for ops (n + length bs)"
| "room_for (Getc # ops) n \<longleftrightarrow> room_for ops (n - 1)"
| "room_for (Wait t # ops) n \<longleftrightarrow> room_for ops n"

fun arrivals :: "'t uart_op list \<Rightarrow> bytes" where
  "arrivals [] = []"
| "arrivals (Receive bs # ops) = bs @ arrivals ops"
| "arrivals (_ # ops) = arrivals ops"

text \<open>A task waits only for an empty buffer.\<close>

definition uart_inv :: "'t uart \<Rightarrow> bool" where
  "uart_inv u \<longleftrightarrow> uart_ok u \<and> hw_rx u = [] \<and> (waiting_rx_task u \<noteq> None \<longrightarrow> queue u = [])"

lemma receive_inv:
  assumes "uart_inv u" "length (queue u) + length bs \<le> NK_UART_RXBUF_SIZE"
  shows "\<exists>u'. on_uart_rx (u\<lparr>hw_rx := hw_rx u @ bs\<rparr>) = Some u' \<and> uart_inv u' \<and> queue u' = queue u @ bs \<and> waiting_rx_task u' = None
    \<and> submitted u' = submitted u @ (case waiting_rx_task u of Some t \<Rightarrow> [t] | None \<Rightarrow> [])"
proof -
  have q: "queue (u\<lparr>hw_rx := bs\<rparr>) = queue u" "queue_len (u\<lparr>hw_rx := bs\<rparr>) = queue_len u" "uart_ok (u\<lparr>hw_rx := bs\<rparr>)" "hw_rx u = []"
    using assms(1) by (simp_all add: queue_def queue_len_def uart_inv_def uart_ok_def)
  obtain u1 where u1: "rx_chars (u\<lparr>hw_rx := bs\<rparr>) = Some u1" "uart_ok u1" "queue u1 = queue u @ bs" "hw_rx u1 = []"
    "waiting_rx_task u1 = waiting_rx_task u" "submitted u1 = submitted u"
    using rx_chars_all [OF q(3)] assms(2) q(1,2) by auto
  have "queue (u1\<lparr>submitted := s, waiting_rx_task := w\<rparr>) = queue u1" "uart_ok (u1\<lparr>submitted := s, waiting_rx_task := w\<rparr>) = uart_ok u1" for s w
    by (simp_all add: queue_def queue_len_def uart_ok_def)
  then show ?thesis using u1 q(4) by (cases "waiting_rx_task u") (simp_all add: on_uart_rx_def uart_inv_def)
qed

lemma getc_inv:
  assumes "uart_inv u"
  shows "\<exists>u'. uart_step Getc u = Some (take 1 (queue u), u') \<and> uart_inv u' \<and> queue u' = tl (queue u)"
proof (cases "queue u")
  case Nil
  then have "rx_buf_rd u = rx_buf_wr u" using queue_empty [of u] by simp
  then show ?thesis using assms Nil by (simp add: nk_getc_def)
next
  case (Cons c cs)
  have "uart_ok u" "waiting_rx_task u = None" using assms Cons by (auto simp: uart_inv_def)
  moreover have "uint c \<noteq> -1"
  proof -
    have "0 \<le> uint c" by simp
    then show ?thesis by linarith
  qed
  ultimately show ?thesis using take_char [OF _ Cons] assms Cons by (simp add: uart_inv_def)
qed

lemma wait_inv:
  assumes "uart_inv u"
  shows "uart_inv (nk_set_uart_callback t u)" "queue (nk_set_uart_callback t u) = queue u"
    "queue u \<noteq> [] \<Longrightarrow> submitted (nk_set_uart_callback t u) = submitted u @ [t]" "queue u = [] \<Longrightarrow> waiting_rx_task (nk_set_uart_callback t u) = Some t"
  using assms queue_empty [of u] by (auto simp: nk_set_uart_callback_def uart_inv_def queue_def queue_len_def uart_ok_def)

section \<open>Properties\<close>

text \<open>C21. No character is lost or reordered, and no task waits for characters that are there: whatever the order in which
  interrupts deliver characters, \<open>nk_getc\<close> reads them and tasks are registered, and whatever the indexes have counted up to (they wrap around),
  as long as the buffer has room for what arrives, the characters that have been read followed by those in the buffer are those
  that were there followed by those that arrived, and if a task is waiting at the end the buffer is empty.\<close>
theorem uart_in_order:
  fixes u :: "'t uart"
  assumes "uart_inv u" and "room_for ops (length (queue u))"
  shows "\<exists>cs u'. uart_run ops u = Some (cs, u') \<and> cs @ queue u' = queue u @ arrivals ops \<and> (waiting_rx_task u' \<noteq> None \<longrightarrow> queue u' = [])
    \<and> uart_ok u'"
proof -
  have "\<exists>cs u'. uart_run ops u = Some (cs, u') \<and> cs @ queue u' = queue u @ arrivals ops \<and> uart_inv u'"
    using assms
  proof (induction ops arbitrary: u)
    case (Cons op ops)
    show ?case
    proof (cases op)
      case (Receive bs)
      then have "length (queue u) + length bs \<le> NK_UART_RXBUF_SIZE" "room_for ops (length (queue u @ bs))" using Cons.prems(2) by simp_all
      then obtain u1 where u1: "on_uart_rx (u\<lparr>hw_rx := hw_rx u @ bs\<rparr>) = Some u1" "uart_inv u1" "queue u1 = queue u @ bs" "room_for ops (length (queue u1))"
        using receive_inv [OF Cons.prems(1)] by metis
      show ?thesis using Cons.IH [OF u1(2,4)] u1(1,3) Receive by auto
    next
      case Getc
      obtain u1 where u1: "uart_step Getc u = Some (take 1 (queue u), u1)" "uart_inv u1" "queue u1 = tl (queue u)" using getc_inv [OF Cons.prems(1)] by blast
      have "room_for ops (length (queue u1))" using Cons.prems(2) Getc unfolding u1(3) length_tl by simp
      from Cons.IH [OF u1(2) this] obtain ds u' where u': "uart_run ops u1 = Some (ds, u')" "ds @ queue u' = tl (queue u) @ arrivals ops" "uart_inv u'"
        unfolding u1(3) by blast
      have "uart_run (op # ops) u = Some (take 1 (queue u) @ ds, u')" unfolding Getc uart_run.simps u1(1) using u'(1) by simp
      moreover have "(take 1 (queue u) @ ds) @ queue u' = queue u @ arrivals (op # ops)" using u'(2) Getc by (cases "queue u") simp_all
      ultimately show ?thesis using u'(3) by blast
    next
      case (Wait t)
      have "room_for ops (length (queue (nk_set_uart_callback t u)))" using Cons.prems(2) wait_inv(2) [OF Cons.prems(1), of t] Wait by simp
      from Cons.IH [OF wait_inv(1) [OF Cons.prems(1)] this] show ?thesis using wait_inv(2) [OF Cons.prems(1), of t] Wait by auto
    qed
  qed simp
  then show ?thesis by (auto simp: uart_inv_def)
qed

definition uart0 :: "unit uart" where
  "uart0 = \<lparr>rx_buf = replicate NK_UART_RXBUF_SIZE 0, rx_buf_rd = - 1, rx_buf_wr = - 1, uart_mode = False, waiting_rx_task = None, submitted = [], hw_rx = [], hw_tx = []\<rparr>"

lemma uart0_inv: "uart_inv uart0" "queue uart0 = []"
  by (simp_all add: uart_inv_def uart_ok_def uart0_def queue_def queue_len_def)

theorem uart_in_order_witness:
  "\<exists>cs u'. uart_run [Wait (), Receive [65, 66, 67], Getc, Receive [68], Getc, Wait ()] uart0 = Some (cs, u') \<and> cs @ queue u' = [65, 66, 67, 68]"
proof -
  have "room_for [Wait (), Receive [65, 66, 67], Getc, Receive [68], Getc, Wait ()] (length (queue uart0))"
    by (simp add: uart0_inv(2) NK_UART_RXBUF_SIZE_def)
  from uart_in_order [OF uart0_inv(1) this] show ?thesis using uart0_inv(2) by auto
qed

text \<open>C32. A character that finds the receive buffer full stops the system: the interrupt handler leaves it in the hardware, which stays
  readable, and so never leaves its loop. Whenever more characters arrive than there is room for, the handler never returns.\<close>
theorem uart_overflow_hangs:
  assumes "uart_inv u" and "NK_UART_RXBUF_SIZE < length (queue u) + length bs"
  shows "on_uart_rx (u\<lparr>hw_rx := hw_rx u @ bs\<rparr>) = None"
proof -
  have "uart_ok (u\<lparr>hw_rx := bs\<rparr>)" "queue_len (u\<lparr>hw_rx := bs\<rparr>) = queue_len u" "hw_rx u = []"
    using assms(1) by (simp_all add: queue_len_def uart_inv_def uart_ok_def)
  then have "rx_chars (u\<lparr>hw_rx := bs\<rparr>) = None" using assms(2) by (intro rx_chars_hangs) simp_all
  then show ?thesis using \<open>hw_rx u = []\<close> by (simp add: on_uart_rx_def)
qed

theorem uart_overflow_hangs_witness: "on_uart_rx (uart0\<lparr>hw_rx := hw_rx uart0 @ replicate 2049 65\<rparr>) = None"
  by (rule uart_overflow_hangs [OF uart0_inv(1)]) (simp add: uart0_inv(2) NK_UART_RXBUF_SIZE_def)

end
