(* ===== verification/Rtc.thy ===== *)
theory Rtc
  imports Datetime Cli
begin

unbundle bit_operations_syntax

text \<open>
  The real time clock: the command that shows and sets it (\<^verbatim>\<open>libnklabs/src/nkrtc.c\<close>, \<^verbatim>\<open>rtc.c\<close>), its driver on the functions of the Pico SDK
  (\<^verbatim>\<open>nkdriver_rtc_pico.c\<close>), and the date as a string (\<^verbatim>\<open>nk_date_string\<close> of \<^verbatim>\<open>libnklabs/src/nkdatetime.c\<close>). The functions of
  the SDK are the fields of \<open>rtc_hw\<close>. The locale \<open>pico_rtc\<close> is what the SDK documents, the locale \<open>clock\<close> what the command relies upon, and the
  driver is shown to be a \<open>clock\<close>. What a date is as a text (\<open>date_text\<close>) connects the scanner, which reads it, and the formatter, which prints it.
\<close>

section \<open>The code\<close>

text \<open>A driver is a pair of functions; the state of the hardware is \<open>'s\<close>. The first argument of \<open>get_datetime\<close> is what the caller's
  variable holds before the call.\<close>

record 's nk_rtc =
  set_datetime :: "nkdatetime \<Rightarrow> 's \<Rightarrow> int \<times> 's"
  get_datetime :: "nkdatetime \<Rightarrow> 's \<Rightarrow> int \<times> nkdatetime"

text \<open>The type \<open>datetime_t\<close> of the SDK and its functions, which report whether they have done their work.\<close>

record datetime_t =
  t_year :: "16 word"
  t_month :: "8 word"
  t_day :: "8 word"
  t_dotw :: "8 word"
  t_hour :: "8 word"
  t_min :: "8 word"
  t_sec :: "8 word"

record 's rtc_hw =
  rtc_set_datetime :: "datetime_t \<Rightarrow> 's \<Rightarrow> bool \<times> 's"
  rtc_get_datetime :: "datetime_t \<Rightarrow> 's \<Rightarrow> bool \<times> datetime_t"

text \<open>The local variable \<open>t\<close> is not initialized.\<close>

definition nk_mcu_rtc_get_datetime :: "'s rtc_hw \<Rightarrow> datetime_t \<Rightarrow> nkdatetime \<Rightarrow> 's \<Rightarrow> int \<times> nkdatetime" where
  "nk_mcu_rtc_get_datetime hw t datetime s =
     (let (_, t) = rtc_get_datetime hw t s
      in nk_datetime_sanity (datetime\<lparr>dt_year := t_year t, dt_month := t_month t - 1, dt_day := t_day t - 1, dt_weekday := t_dotw t,
           dt_hour := t_hour t, dt_min := t_min t, dt_sec := t_sec t\<rparr>))"

definition nk_mcu_rtc_set_datetime :: "'s rtc_hw \<Rightarrow> nkdatetime \<Rightarrow> 's \<Rightarrow> int \<times> 's" where
  "nk_mcu_rtc_set_datetime hw datetime s =
     (0, snd (rtc_set_datetime hw \<lparr>t_year = dt_year datetime, t_month = dt_month datetime + 1, t_day = dt_day datetime + 1,
        t_dotw = dt_weekday datetime, t_hour = dt_hour datetime, t_min = dt_min datetime, t_sec = dt_sec datetime\<rparr> s))"

definition mcu_rtc :: "'s rtc_hw \<Rightarrow> datetime_t \<Rightarrow> 's nk_rtc" where
  "mcu_rtc hw t = \<lparr>set_datetime = nk_mcu_rtc_set_datetime hw, get_datetime = nk_mcu_rtc_get_datetime hw t\<rparr>"

definition weekday_name :: "u8 \<Rightarrow> bytes option" where
  "weekday_name d = (if unat d < 7 then Some (map of_char (nk_weekday_name ! unat d)) else None)"

text \<open>The variable \<open>datetime\<close> of the caller is not initialized either.\<close>

definition nk_rtc_command :: "'s nk_rtc \<Rightarrow> nkdatetime \<Rightarrow> args \<Rightarrow> ('o, 's) cli \<Rightarrow> (int \<times> ('o, 's) cli) option" where
  "nk_rtc_command dev datetime args st = do {
     (ok, ap, args) \<leftarrow> scan args ''%hu-%hhu-%hhu %hhu:%hhu:%hhu ''
       [PShort (dt_year datetime), PChar (dt_month datetime), PChar (dt_day datetime), PChar (dt_hour datetime), PChar (dt_min datetime), PChar (dt_sec datetime)];
     datetime \<leftarrow> (case ap of
         [PShort year, PChar month, PChar day, PChar hour, PChar minute, PChar sec] \<Rightarrow>
           Some (datetime\<lparr>dt_year := year, dt_month := month, dt_day := day, dt_hour := hour, dt_min := minute, dt_sec := sec\<rparr>)
       | _ \<Rightarrow> None);
     if ok then do {
       let datetime = datetime\<lparr>dt_month := dt_month datetime - 1\<rparr>;
       let datetime = datetime\<lparr>dt_day := dt_day datetime - 1\<rparr>;
       weekday \<leftarrow> nk_calc_day_of_week (uint (dt_year datetime)) (uint (dt_month datetime)) (uint (dt_day datetime));
       let datetime = datetime\<lparr>dt_weekday := word_of_int weekday\<rparr>;
       name \<leftarrow> weekday_name (dt_weekday datetime);
       st \<leftarrow> say (''%s'' @ [CHR 0x0A]) [VStr name] st;
       let (rtn, datetime) = nk_datetime_sanity datetime;
       if rtn \<noteq> 0 then do { st \<leftarrow> say (''Invalid date/time'' @ [CHR 0x0A]) [] st; Some (0, st) }
       else do {
         let (rtn, s) = set_datetime dev datetime (world st);
         let st = st\<lparr>world := s\<rparr>;
         st \<leftarrow> (if rtn \<noteq> 0 then say (''Error setting date/time %d'' @ [CHR 0x0A]) [VInt (word_of_int rtn)] st
           else say (''Time and date set.'' @ [CHR 0x0A]) [] st);
         Some (0, st)
       }
     }
     else do {
       (ok, _, args) \<leftarrow> scan args '''' [];
       if ok then do {
         let (rtn, datetime) = get_datetime dev datetime (world st);
         st \<leftarrow> (if rtn \<noteq> 0 then say (''Error getting date/time %d'' @ [CHR 0x0A]) [VInt (word_of_int rtn)] st
           else say (''%4.4d-%2.2d-%2.2d %2.2d:%2.2d:%2.2d'' @ [CHR 0x0A])
             [VInt (ucast (dt_year datetime)), VInt (1 + ucast (dt_month datetime)), VInt (1 + ucast (dt_day datetime)),
              VInt (ucast (dt_hour datetime)), VInt (ucast (dt_min datetime)), VInt (ucast (dt_sec datetime))] st);
         Some (0, st)
       }
       else do { st \<leftarrow> say (''Syntax error'' @ [CHR 0x0A]) [] st; Some (0, st) }
     }
   }"

definition cmd_rtc :: "'s rtc_hw \<Rightarrow> datetime_t \<Rightarrow> nkdatetime \<Rightarrow> args \<Rightarrow> ('o, 's) cli \<Rightarrow> (int \<times> ('o, 's) cli) option" where
  "cmd_rtc hw t datetime = nk_rtc_command (mcu_rtc hw t) datetime"

definition nk_date_string :: "bytes \<Rightarrow> u32 \<Rightarrow> nkdatetime \<Rightarrow> (int \<times> bytes) option" where
  "nk_date_string buf len datetime = nk_snprintf buf len ''%4.4d-%2.2d-%2.2d %2.2d:%2.2d:%2.2d''
     [VInt (ucast (dt_year datetime)), VInt (ucast (dt_month datetime)), VInt (ucast (dt_day datetime)),
      VInt (ucast (dt_hour datetime)), VInt (ucast (dt_min datetime)), VInt (ucast (dt_sec datetime))]"

section \<open>Dates as text\<close>

definition padded :: "nat \<Rightarrow> nat \<Rightarrow> bytes" where
  "padded w n = replicate (w - length (number_text 10 False n)) 48 @ number_text 10 False n"

definition date_text :: "nat \<Rightarrow> nat \<Rightarrow> nat \<Rightarrow> nat \<Rightarrow> nat \<Rightarrow> nat \<Rightarrow> bytes" where
  "date_text y m d h mi s = padded 4 y @ 45 # padded 2 m @ 45 # padded 2 d @ 32 # padded 2 h @ 58 # padded 2 mi @ 58 # padded 2 s"

lemma padded_digits:
  obtains ds where "padded w n = map (digit_char False) ds" "ds \<noteq> []" "list_all (\<lambda>d. d < 10) ds" "foldl (\<lambda>n d. n * 10 + d) 0 ds = n"
proof -
  let ?ds = "if n = 0 then [0] else num_digits 10 n"
  have t: "number_text 10 False n = map (digit_char False) ?ds" by (simp add: number_text_def digit_char_def)
  have v: "foldl (\<lambda>n d. n * 10 + d) 0 ?ds = n" "list_all (\<lambda>d. d < 10) ?ds"
    using digits_value_num [of 10 n] by (auto simp: digits_value_def)
  have z: "foldl (\<lambda>n d. n * 10 + d) (0 :: nat) (replicate k 0) = 0" for k by (induction k) simp_all
  let ?k = "w - length (number_text 10 False n)"
  show ?thesis
  proof (rule that)
    show "padded w n = map (digit_char False) (replicate ?k 0 @ ?ds)" by (simp add: padded_def t digit_char_def)
    show "replicate ?k 0 @ ?ds \<noteq> []" using v(1) by auto
    show "list_all (\<lambda>d. d < 10) (replicate ?k 0 @ ?ds)" using v(2) by (fastforce simp: list_all_iff)
    show "foldl (\<lambda>n d. n * 10 + d) 0 (replicate ?k 0 @ ?ds) = n" by (simp only: foldl_append z v)
  qed
qed

lemma padded_read:
  assumes "case rest of c # _ \<Rightarrow> \<not> is_digit (uint c) | [] \<Rightarrow> True"
  shows "text_decnum (-1) (padded w n @ rest) = Some (word_of_nat n, rest)"
proof -
  obtain ds where ds: "padded w n = map (digit_char False) ds" "ds \<noteq> []" "list_all (\<lambda>d. d < 10) ds" "foldl (\<lambda>n d. n * 10 + d) 0 ds = n"
    by (rule padded_digits)
  have all: "\<forall>c\<in>set (padded w n). is_digit (uint c)" using ds(3) digit_chars(1) by (auto simp: ds(1) list_all_iff)
  have "span_chars is_digit (-1) (padded w n @ rest) = (padded w n, rest)" by (rule span_all [OF _ all assms]) simp
  moreover have "foldl dec_step 0 (padded w n) = word_of_nat n"
    using fold_digits [of 10 dec_step ds 0] ds(3,4) digit_chars(2) by (simp add: ds(1))
  moreover have "padded w n \<noteq> []" "\<not> (case padded w n @ rest of c # _ \<Rightarrow> c = 0x2D | [] \<Rightarrow> False)"
    using ds(2) all by (cases ds; auto simp: ds(1) is_digit_def)+
  ultimately show ?thesis unfolding text_decnum_def Let_def by simp
qed

lemma ucast_of_nat: "ucast (word_of_nat n :: u64) = (word_of_nat n :: u16)" "ucast (word_of_nat n :: u64) = (word_of_nat n :: u8)"
  by (rule bit_word_eqI, simp add: bit_simps)+

lemma padded_starts: "\<exists>c r. padded w n = c # r \<and> is_digit (uint c)"
proof -
  obtain ds where "padded w n = map (digit_char False) ds" "ds \<noteq> []" "list_all (\<lambda>d. d < 10) ds" by (rule padded_digits)
  then show ?thesis using digit_chars(1) by (cases ds) auto
qed

text \<open>The scan of a date.\<close>

lemma date_items: "scan_items ''%hu-%hhu-%hhu %hhu:%hhu:%hhu '' =
    [Conv (CHR ''u'') (-1) (-1), Lit (CHR ''-''), Conv (CHR ''u'') (-1) (-2), Lit (CHR ''-''), Conv (CHR ''u'') (-1) (-2), Blank,
     Conv (CHR ''u'') (-1) (-2), Lit (CHR '':''), Conv (CHR ''u'') (-1) (-2), Lit (CHR '':''), Conv (CHR ''u'') (-1) (-2), Blank]"
  by (simp add: scan_items.simps scan_width_def is_digit_def conv_chars_def)

lemma match_padded:
  assumes "case rest of c # _ \<Rightarrow> \<not> is_digit (uint c) | [] \<Rightarrow> True"
  shows "match_arg key False (CHR ''u'') (-1) (-1) (padded w n @ rest) (PShort v) = Some (True, PShort (word_of_nat n), rest)"
    "match_arg key False (CHR ''u'') (-1) (-2) (padded w n @ rest) (PChar b) = Some (True, PChar (word_of_nat n), rest)"
  using assms by (simp_all add: match_arg_def match_number_def padded_read ucast_of_nat)

lemma date_matches:
  assumes "list_all (\<lambda>c. nk_isspace (uint c)) blanks"
  shows "match_items key False (scan_items ''%hu-%hhu-%hhu %hhu:%hhu:%hhu '') [PShort a1, PChar a2, PChar a3, PChar a4, PChar a5, PChar a6]
      (date_text y m d h mi s @ blanks)
    = Some (True, [PShort (word_of_nat y), PChar (word_of_nat m), PChar (word_of_nat d), PChar (word_of_nat h), PChar (word_of_nat mi), PChar (word_of_nat s)], [])"
proof -
  have b: "case blanks of c # _ \<Rightarrow> \<not> is_digit (uint c) | [] \<Rightarrow> True"
    using assms by (cases blanks) (auto simp: nk_isspace_def is_digit_def)
  have e: "dropWhile (\<lambda>c. nk_isspace (uint c)) blanks = []" using assms unfolding dropWhile_eq_Nil_conv list_all_iff .
  have n: "dropWhile (\<lambda>c. nk_isspace (uint c)) (padded 2 h @ r) = padded 2 h @ r" for r
    using padded_starts [of 2 h] by (auto simp: nk_isspace_def is_digit_def)
  have sp: "nk_isspace 32" by (simp add: nk_isspace_def)
  show ?thesis
    unfolding date_items date_text_def
    using assms by (simp add: match_padded b e n sp is_digit_def same_char_def list_all_iff)
qed

text \<open>The printed date.\<close>

lemma sint_small: "unat (v :: u32) < 2 ^ 31 \<Longrightarrow> sint v = int (unat v)"
proof -
  assume "unat v < 2 ^ 31"
  then have "int (unat v) < 2 ^ 31" by (simp only: of_nat_less_numeral_power_cancel_iff)
  then show ?thesis unfolding sint_uint uint_nat by (intro signed_take_bit_int_eq_self) (auto intro: order_trans [OF _ uint_ge_0])
qed

lemma padded_directive:
  assumes "unat v < 2 ^ 31"
  shows "vformat (CHR ''%'' # CHR ''4'' # CHR ''.'' # CHR ''4'' # CHR ''d'' # fmt) (VInt v # ap) = map_option ((@) (padded 4 (unat v))) (vformat fmt ap)"
    "vformat (CHR ''%'' # CHR ''2'' # CHR ''.'' # CHR ''2'' # CHR ''d'' # fmt) (VInt v # ap) = map_option ((@) (padded 2 (unat v))) (vformat fmt ap)"
proof -
  define s :: u64 where "s = scast v"
  have va: "va_signed 0 (VInt v # ap) = Some (s, ap)" by (simp add: s_def)
  have s: "sint s = int (unat v)" using sint_scast_u64 [of v] sint_small [OF assms] by (simp add: s_def)
  show "vformat (CHR ''%'' # CHR ''4'' # CHR ''.'' # CHR ''4'' # CHR ''d'' # fmt) (VInt v # ap) = map_option ((@) (padded 4 (unat v))) (vformat fmt ap)"
    "vformat (CHR ''%'' # CHR ''2'' # CHR ''.'' # CHR ''2'' # CHR ''d'' # fmt) (VInt v # ap) = map_option ((@) (padded 2 (unat v))) (vformat fmt ap)"
    by (simp_all add: int_text_simps va s padded_def map_conv_bind_option comp_def del: va_signed.simps)
qed

lemma literal_char: "c \<noteq> CHR ''%'' \<Longrightarrow> vformat (c # fmt) ap = map_option ((#) (of_char c)) (vformat fmt ap)"
  by (simp add: map_conv_bind_option comp_def)

lemma date_printed:
  assumes "unat y < 2 ^ 31" "unat m < 2 ^ 31" "unat d < 2 ^ 31" "unat h < 2 ^ 31" "unat mi < 2 ^ 31" "unat s < 2 ^ 31"
  shows "vformat (''%4.4d-%2.2d-%2.2d %2.2d:%2.2d:%2.2d'' @ fmt) [VInt y, VInt m, VInt d, VInt h, VInt mi, VInt s]
    = map_option (\<lambda>t. date_text (unat y) (unat m) (unat d) (unat h) (unat mi) (unat s) @ t) (vformat fmt [])"
  unfolding append.simps
  by (simp add: padded_directive [OF assms(1)] padded_directive [OF assms(2)] padded_directive [OF assms(3)] padded_directive [OF assms(4)]
    padded_directive [OF assms(5)] padded_directive [OF assms(6)] literal_char date_text_def option.map_comp comp_def del: vformat.simps)

section \<open>The command on a clock that keeps the time\<close>

definition in_range :: "nkdatetime \<Rightarrow> bool" where
  "in_range dt \<longleftrightarrow> dt_sec dt \<le> 59 \<and> dt_min dt \<le> 59 \<and> dt_hour dt \<le> 23 \<and> dt_weekday dt \<le> 6 \<and> dt_day dt \<le> 30 \<and> dt_month dt \<le> 11
     \<and> 2000 \<le> dt_year dt \<and> dt_year dt \<le> 2199"

lemma in_range_sanity: "in_range dt \<Longrightarrow> nk_datetime_sanity dt = (0, dt)"
  unfolding in_range_def datetime_sanity_eval by (simp flip: not_less)

text \<open>The laws of a clock: what it is set to is what it shows, within the same second.\<close>

locale clock =
  fixes dev :: "'s nk_rtc"
  assumes keeps: "in_range dt \<Longrightarrow> \<exists>s'. set_datetime dev dt s = (0, s') \<and> get_datetime dev dt0 s' = (0, dt)"

text \<open>What the documentation of the SDK says about its functions.\<close>

locale pico_rtc =
  fixes hw :: "'s rtc_hw"
  assumes sdk: "unat (t_year t) \<le> 4095 \<Longrightarrow> 1 \<le> unat (t_month t) \<Longrightarrow> unat (t_month t) \<le> 12 \<Longrightarrow> 1 \<le> unat (t_day t) \<Longrightarrow> unat (t_day t) \<le> 31
    \<Longrightarrow> unat (t_dotw t) \<le> 6 \<Longrightarrow> unat (t_hour t) \<le> 23 \<Longrightarrow> unat (t_min t) \<le> 59 \<Longrightarrow> unat (t_sec t) \<le> 59
    \<Longrightarrow> rtc_get_datetime hw t0 (snd (rtc_set_datetime hw t s)) = (True, t)"

sublocale pico_rtc \<subseteq> mcu: clock "mcu_rtc hw t"
proof
  fix dt dt0 s
  assume r: "in_range dt"
  let ?t = "\<lparr>t_year = dt_year dt, t_month = dt_month dt + 1, t_day = dt_day dt + 1, t_dotw = dt_weekday dt, t_hour = dt_hour dt, t_min = dt_min dt, t_sec = dt_sec dt\<rparr>"
  have n: "unat (dt_sec dt) \<le> 59" "unat (dt_min dt) \<le> 59" "unat (dt_hour dt) \<le> 23" "unat (dt_weekday dt) \<le> 6" "unat (dt_day dt) \<le> 30"
      "unat (dt_month dt) \<le> 11" "unat (dt_year dt) \<le> 2199"
    using r by (simp_all add: in_range_def word_le_nat_alt)
  have p: "unat (dt_month dt + 1) = unat (dt_month dt) + 1" "unat (dt_day dt + 1) = unat (dt_day dt) + 1"
    using n by (simp_all add: unat_add_no_wrap)
  have "rtc_get_datetime hw t (snd (rtc_set_datetime hw ?t s)) = (True, ?t)"
    by (rule sdk) (use n p in simp_all)
  moreover have same: "dt0\<lparr>dt_year := dt_year dt, dt_month := dt_month dt, dt_day := dt_day dt, dt_weekday := dt_weekday dt, dt_hour := dt_hour dt,
      dt_min := dt_min dt, dt_sec := dt_sec dt\<rparr> = dt" by (rule nkdatetime.equality) simp_all
  then have "nk_datetime_sanity (dt0\<lparr>dt_year := dt_year dt, dt_month := dt_month dt, dt_day := dt_day dt, dt_weekday := dt_weekday dt,
      dt_hour := dt_hour dt, dt_min := dt_min dt, dt_sec := dt_sec dt\<rparr>) = (0, dt)" using in_range_sanity [OF r] by (simp only:)
  ultimately show "\<exists>s'. set_datetime (mcu_rtc hw t) dt s = (0, s') \<and> get_datetime (mcu_rtc hw t) dt0 s' = (0, dt)"
    by (simp add: mcu_rtc_def nk_mcu_rtc_set_datetime_def nk_mcu_rtc_get_datetime_def)
qed

text \<open>The numbers that are typed, as the command stores them: a day of 0 becomes 255.\<close>

definition week_day :: "nat \<Rightarrow> nat \<Rightarrow> nat \<Rightarrow> nat" where
  "week_day y m d = (day_number y (m - 1) ((d + 255) mod 256) + 4) mod 7"

definition typed_date :: "nkdatetime \<Rightarrow> nat \<Rightarrow> nat \<Rightarrow> nat \<Rightarrow> nat \<Rightarrow> nat \<Rightarrow> nat \<Rightarrow> nkdatetime" where
  "typed_date dt y m d h mi s = dt\<lparr>dt_year := word_of_nat y, dt_hour := word_of_nat h, dt_min := word_of_nat mi, dt_sec := word_of_nat s,
     dt_month := word_of_nat (m - 1), dt_day := word_of_nat ((d + 255) mod 256), dt_weekday := word_of_nat (week_day y m d)\<rparr>"

lemma week_day_less: "week_day y m d < 7"
  by (simp add: week_day_def)

lemma day_before: "d < 256 \<Longrightarrow> (word_of_nat d :: u8) - 1 = word_of_nat ((d + 255) mod 256)"
  by (cases d) (simp_all add: word_eq_iff_unsigned)

lemma say_formatted: "vformat fmt ap = Some t \<Longrightarrow> say fmt ap st = Some (cli_puts t st)"
  unfolding say_def by (subst printf_text, assumption, simp only: fold_putc)

lemma weekday_named: "n < 7 \<Longrightarrow> weekday_name (word_of_nat n) = Some (map of_char (nk_weekday_name ! n))"
  by (simp add: weekday_name_def unsigned_of_nat take_bit_eq_mod)

lemma weekday_said:
  assumes "n < 7"
  shows "say (''%s'' @ [CHR 0x0A]) [VStr (map of_char (nk_weekday_name ! n))] st = Some (cli_puts (map of_char (nk_weekday_name ! n) @ [10]) st)"
proof (rule say_formatted)
  have "length (nk_weekday_name ! n) = 3" using assms by (auto simp: nk_weekday_name_def less_Suc_eq numeral_eq_Suc)
  then show "vformat (''%s'' @ [CHR 0x0A]) [VStr (map of_char (nk_weekday_name ! n))] = Some (map of_char (nk_weekday_name ! n) @ [10])"
    by (simp add: parse_directive_def parse_number_def no_directive_def conversion_text_def field_def Let_def)
qed

text \<open>What the command does with a date that is typed.\<close>

lemma typed_command:
  fixes st :: "('o, 's) cli"
  assumes f: "mem_file.reads data args (date_text y m d h mi s @ blanks)" "list_all (\<lambda>c. nk_isspace (uint c)) blanks"
    and n: "1970 \<le> y" "y < 65536" "1 \<le> m" "m \<le> 12" "d < 256"
  shows "nk_rtc_command dev dt args st = do {
     let dt = typed_date dt y m d h mi s;
     let st = cli_puts (map of_char (nk_weekday_name ! week_day y m d) @ [10]) st;
     let (rtn, dt) = nk_datetime_sanity dt;
     if rtn \<noteq> 0 then Some (0, cli_puts (map of_char (''Invalid date/time'' @ [CHR 0x0A])) st)
     else do {
       let (rtn, s) = set_datetime dev dt (world st);
       let st = st\<lparr>world := s\<rparr>;
       st \<leftarrow> (if rtn \<noteq> 0 then say (''Error setting date/time %d'' @ [CHR 0x0A]) [VInt (word_of_int rtn)] st
         else say (''Time and date set.'' @ [CHR 0x0A]) [] st);
       Some (0, st)
     }
   }"
proof -
  obtain f' where sc: "scan args ''%hu-%hhu-%hhu %hhu:%hhu:%hhu ''
       [PShort (dt_year dt), PChar (dt_month dt), PChar (dt_day dt), PChar (dt_hour dt), PChar (dt_min dt), PChar (dt_sec dt)] =
      Some (True, [PShort (word_of_nat y), PChar (word_of_nat m), PChar (word_of_nat d), PChar (word_of_nat h), PChar (word_of_nat mi), PChar (word_of_nat s)], f')"
    using scan_reads [OF f(1) date_matches [OF f(2)]] by blast
  obtain k where k: "m = Suc k" "k < 12" using n(3,4) by (cases m) auto
  have u: "uint (word_of_nat y :: u16) = int y" "uint (word_of_nat k :: u8) = int k" "uint (word_of_nat ((d + 255) mod 256) :: u8) = int ((d + 255) mod 256)"
    using n k by (simp_all add: unsigned_of_nat take_bit_eq_mod)
  have w: "nk_calc_day_of_week (int y) (int k) (int ((d + 255) mod 256)) = Some (int (week_day y (Suc k) d))"
    using day_of_week_eval [OF n(1) k(2)] by (simp add: week_day_def)
  have inv: "say (''Invalid date/time'' @ [CHR 0x0A]) [] st = Some (cli_puts (map of_char (''Invalid date/time'' @ [CHR 0x0A])) st)" for st :: "('o, 's) cli"
    by (rule say_text) simp
  show ?thesis
    unfolding nk_rtc_command_def sc
    using n by (simp add: k(1) day_before u w weekday_named weekday_said week_day_less inv typed_date_def Let_def split: prod.split del: append.simps list.map map_append)
qed

lemma unat_small_word: "n < 2 ^ 8 \<Longrightarrow> unat (word_of_nat n :: u8) = n" "n < 2 ^ 16 \<Longrightarrow> unat (word_of_nat n :: u16) = n"
  by (simp_all add: unsigned_of_nat take_bit_eq_mod)

lemma typed_in_range:
  assumes "1970 \<le> y" "y < 65536" "1 \<le> m" "m \<le> 12" "d < 256" "h < 256" "mi < 256" "s < 256"
  shows "fst (nk_datetime_sanity (typed_date dt y m d h mi s)) = 0 \<longleftrightarrow> 1 \<le> d \<and> d \<le> 31 \<and> h \<le> 23 \<and> mi \<le> 59 \<and> s \<le> 59 \<and> y \<le> 2199"
    "1 \<le> d \<Longrightarrow> d \<le> 31 \<Longrightarrow> h \<le> 23 \<Longrightarrow> mi \<le> 59 \<Longrightarrow> s \<le> 59 \<Longrightarrow> 2000 \<le> y \<Longrightarrow> y \<le> 2199 \<Longrightarrow> in_range (typed_date dt y m d h mi s)"
proof -
  have d: "(d + 255) mod 256 \<le> 30 \<longleftrightarrow> 1 \<le> d \<and> d \<le> 31" "(d + 255) mod 256 < 256" using assms(5) by (cases d; simp)+
  note w = week_day_less [of y m d]
  show "fst (nk_datetime_sanity (typed_date dt y m d h mi s)) = 0 \<longleftrightarrow> 1 \<le> d \<and> d \<le> 31 \<and> h \<le> 23 \<and> mi \<le> 59 \<and> s \<le> 59 \<and> y \<le> 2199"
    using assms d w by (simp add: datetime_sanity_eval typed_date_def word_le_nat_alt unat_small_word del: of_nat_diff; linarith)
  show "in_range (typed_date dt y m d h mi s)" if "1 \<le> d" "d \<le> 31" "h \<le> 23" "mi \<le> 59" "s \<le> 59" "2000 \<le> y" "y \<le> 2199"
    using assms that d w by (simp add: in_range_def typed_date_def word_le_nat_alt unat_small_word del: of_nat_diff)
qed

text \<open>The command without a date.\<close>

lemma no_date_command:
  fixes st :: "('o, 's) cli"
  assumes f: "mem_file.reads data args []" and get: "\<And>dt0. get_datetime dev dt0 (world st) = (0, dt)" and r: "in_range dt"
  shows "nk_rtc_command dev dt1 args st = Some (0, cli_puts (date_text (unat (dt_year dt)) (unat (dt_month dt) + 1) (unat (dt_day dt) + 1)
     (unat (dt_hour dt)) (unat (dt_min dt)) (unat (dt_sec dt)) @ [10]) st)"
proof -
  have none: "match_items (\<lambda>_ _. None) False (scan_items ''%hu-%hhu-%hhu %hhu:%hhu:%hhu '') (PShort a # ap) [] = Some (False, PShort a # ap, [])" for a and ap :: "unit dest list"
    unfolding date_items by (simp add: match_arg_def match_number_def text_decnum_def)
  obtain f1 where 1: "scan args ''%hu-%hhu-%hhu %hhu:%hhu:%hhu ''
       [PShort (dt_year dt1), PChar (dt_month dt1), PChar (dt_day dt1), PChar (dt_hour dt1), PChar (dt_min dt1), PChar (dt_sec dt1)] =
      Some (False, [PShort (dt_year dt1), PChar (dt_month dt1), PChar (dt_day dt1), PChar (dt_hour dt1), PChar (dt_min dt1), PChar (dt_sec dt1)], f1)"
      "mem_file.reads data f1 []"
    using scan_reads [OF f none] by auto
  obtain f2 where 2: "scan f1 '''' [] = Some (True, [], f2)" using scan_reads [OF 1(2), of "''''" "[]" True "[]" "[]"] by auto
  have b: "unat w < k" if "256 \<le> k" for w :: u8 and k using less_le_trans [OF unat_u8_less that] .
  have c: "unat x < k" if "65536 \<le> k" for x :: u16 and k using less_le_trans [OF unat_u16_less that] .
  have v: "unat (ucast w :: u32) = unat w" "unat (ucast x :: u32) = unat x" for w :: u8 and x :: u16
    by (simp_all add: unsigned_ucast_eq take_bit_eq_mod b c)
  have u: "unat (1 + ucast w :: u32) = unat w + 1" for w :: u8
    using b [of 4294967295 w] by (simp add: unat_add_no_wrap v)
  have l: "unat w < 2 ^ 31" "unat x < 2 ^ 31" "unat w + 1 < 2 ^ 31" for w :: u8 and x :: u16
    using b [of "2 ^ 31 - 1" w] by (simp_all add: b c)
  have "vformat (''%4.4d-%2.2d-%2.2d %2.2d:%2.2d:%2.2d'' @ [CHR 0x0A])
     [VInt (ucast (dt_year dt)), VInt (1 + ucast (dt_month dt)), VInt (1 + ucast (dt_day dt)),
              VInt (ucast (dt_hour dt)), VInt (ucast (dt_min dt)), VInt (ucast (dt_sec dt))]
    = Some (date_text (unat (dt_year dt)) (unat (dt_month dt) + 1) (unat (dt_day dt) + 1) (unat (dt_hour dt)) (unat (dt_min dt)) (unat (dt_sec dt)) @ [10])"
    by (subst date_printed) (use l in \<open>simp_all add: u v\<close>)
  from say_formatted [OF this, of st] show ?thesis
    unfolding nk_rtc_command_def 1(1) by (simp add: 2 get del: append.simps)
qed

context pico_rtc
begin

lemma is_clock: "clock (mcu_rtc hw t)"
  by (rule mcu.clock_axioms)

end

context clock
begin

lemma set_then_get: "in_range dt \<Longrightarrow> set_datetime dev dt s = (0, snd (set_datetime dev dt s)) \<and> get_datetime dev dt0 (snd (set_datetime dev dt s)) = (0, dt)"
  using keeps [of dt s dt0] by auto

lemma sets_date:
  fixes st :: "('o, 's) cli"
  assumes f: "mem_file.reads data args (date_text y m d h mi s @ blanks)" "list_all (\<lambda>c. nk_isspace (uint c)) blanks"
    and n: "2000 \<le> y" "y \<le> 2199" "1 \<le> m" "m \<le> 12" "1 \<le> d" "d \<le> 31" "h \<le> 23" "mi \<le> 59" "s \<le> 59"
  shows "nk_rtc_command dev dt args st = Some (0, (cli_puts (map of_char (nk_weekday_name ! ((day_number y (m - 1) (d - 1) + 4) mod 7) @ [CHR 0x0A] @ ''Time and date set.'' @ [CHR 0x0A])) st)
      \<lparr>world := snd (set_datetime dev (typed_date dt y m d h mi s) (world st))\<rparr>)"
proof -
  let ?dt = "typed_date dt y m d h mi s"
  have r: "in_range ?dt" by (rule typed_in_range) (use n in simp_all)
  obtain w where w: "set_datetime dev ?dt (world st) = (0, w)" using set_then_get [OF r] by metis
  have done_msg: "say (''Time and date set.'' @ [CHR 0x0A]) [] st = Some (cli_puts (map of_char (''Time and date set.'' @ [CHR 0x0A])) st)" for st :: "('o, 's) cli"
    by (rule say_text) simp
  have "week_day y m d = (day_number y (m - 1) (d - 1) + 4) mod 7" using n(5,6) by (cases d) (simp_all add: week_day_def)
  moreover have "nk_rtc_command dev dt args st = Some (0, cli_puts (map of_char (''Time and date set.'' @ [CHR 0x0A]))
      ((cli_puts (map of_char (nk_weekday_name ! week_day y m d) @ [10]) st)\<lparr>world := w\<rparr>))"
    by (subst typed_command [OF f]) (use n in \<open>simp_all add: in_range_sanity [OF r] w done_msg del: append.simps list.map map_append\<close>)
  ultimately show ?thesis using w by (simp add: nk_puts_def)
qed

end

text \<open>A clock that keeps what it is set to.\<close>

definition rtc_registers :: "datetime_t rtc_hw" where
  "rtc_registers = \<lparr>rtc_set_datetime = (\<lambda>t s. (True, t)), rtc_get_datetime = (\<lambda>t s. (True, s))\<rparr>"

interpretation rtc_registers: pico_rtc rtc_registers
  by unfold_locales (simp add: rtc_registers_def)

section \<open>Properties\<close>





text \<open>The date as a string is not the date. For every legal date and time, the string of \<open>nk_date_string\<close> has the form that its header
  promises, and ends with a NUL, but its month and its day are those of the record, which count from 0: the first of January is
  written as 00-00.\<close>
theorem date_string_counts_from_0:
  assumes r: "in_range dt" and n: "20 \<le> unat len" "unat len \<le> length buf"
  shows "\<exists>buf'. nk_date_string buf len dt = Some (0, buf')
    \<and> take 20 buf' = date_text (unat (dt_year dt)) (unat (dt_month dt)) (unat (dt_day dt)) (unat (dt_hour dt)) (unat (dt_min dt)) (unat (dt_sec dt)) @ [0]"
proof -
  let ?t = "date_text (unat (dt_year dt)) (unat (dt_month dt)) (unat (dt_day dt)) (unat (dt_hour dt)) (unat (dt_min dt)) (unat (dt_sec dt))"
  have b: "unat (w :: u8) < k" if "256 \<le> k" for w k using less_le_trans [OF unat_u8_less that] .
  have c: "unat (x :: u16) < k" if "65536 \<le> k" for x k using less_le_trans [OF unat_u16_less that] .
  have v: "unat (ucast w :: u32) = unat w" "unat (ucast x :: u32) = unat x" for w :: u8 and x :: u16
    by (simp_all add: unsigned_ucast_eq take_bit_eq_mod b c)
  have l: "unat w < 2 ^ 31" "unat x < 2 ^ 31" for w :: u8 and x :: u16 by (simp_all add: b c)
  have t: "vformat (''%4.4d-%2.2d-%2.2d %2.2d:%2.2d:%2.2d'' @ []) [VInt (ucast (dt_year dt)), VInt (ucast (dt_month dt)), VInt (ucast (dt_day dt)),
      VInt (ucast (dt_hour dt)), VInt (ucast (dt_min dt)), VInt (ucast (dt_sec dt))] = Some ?t"
    by (subst date_printed) (use l in \<open>simp_all add: v\<close>)
  have p: "length (padded w k) = w" if "k < 10 ^ w" "0 < w" for w k using number_text_length [OF that, of False] by (simp add: padded_def)
  have len: "length ?t = 19"
    using r by (simp add: date_text_def p in_range_def word_le_nat_alt)
  have "0 < unat len" using n(1) by simp
  from snprintf_contents [OF t [unfolded append_Nil2] this n(2)] show ?thesis
    using n(1) by (auto simp: nk_date_string_def len)
qed

theorem date_string_counts_from_0_witness:
  "\<exists>buf. nk_date_string (replicate 20 9) 20 \<lparr>dt_sec = 0, dt_min = 0, dt_hour = 0, dt_weekday = 6, dt_day = 0, dt_month = 0, dt_year = 2000\<rparr> = Some (0, buf)
    \<and> take 20 buf = map of_char ''2000-00-00 00:00:00'' @ [0]"
proof -
  have n: "unat (20 :: u32) = 20" "length (replicate 20 (9 :: u8)) = 20" by simp_all
  have r: "in_range \<lparr>dt_sec = 0, dt_min = 0, dt_hour = 0, dt_weekday = 6, dt_day = 0, dt_month = 0, dt_year = 2000\<rparr>" by (simp add: in_range_def)
  have "date_text 2000 0 0 0 0 0 = map of_char ''2000-00-00 00:00:00''"
    by (simp add: date_text_def padded_def number_text_def num_digits.simps digit_char_def)
  then show ?thesis using date_string_counts_from_0 [OF r, of 20 "replicate 20 9"] n by simp
qed

end
