(* ===== verification/Flashcmd.thy ===== *)
theory Flashcmd
  imports Mcuflash Spiflash Eeprom Cli
begin

unbundle bit_operations_syntax

text \<open>
  The commands that read, write, dump, erase and fill memories from the console: \<open>cmd_mcuflash\<close> of \<^verbatim>\<open>libnklabs/src/nkmcuflash.c\<close>,
  \<open>nk_spiflash_command\<close> of \<^verbatim>\<open>libnklabs/src/nkspiflash.c\<close> and \<open>nk_i2c_eeprom_command\<close> of \<^verbatim>\<open>libnklabs/src/nki2c_eeprom.c\<close>, with
  their dumps. They scan one format after the other until one matches, in factory mode only. The local array of the dumps is the parameter \<open>buf\<close>. The
  \<open>erase\<close> with an address alone is compiled without a page size here and only says \<^verbatim>\<open>Ooops.\<close>
  The lemmas say what the loop of \<open>fill\<close> writes, and which command a typed text selects.
\<close>

section \<open>What the commands share\<close>

text \<open>\<open>nk_byte_hex_dump\<close> prints to the console. The buffer is a local array of the caller.\<close>

definition nk_byte_hex_dump :: "bytes \<Rightarrow> u32 \<Rightarrow> u32 \<Rightarrow> u32 \<Rightarrow> ('o, 'w) cli \<Rightarrow> ('o, 'w) cli option" where
  "nk_byte_hex_dump buf base offset n st = do {
     (_, f) \<leftarrow> nk_fbyte_hex_dump (nkstdout (\<lambda>c st. st\<lparr>console := nk_putc c (console st)\<rparr>) st) buf base offset n;
     Some (o_block_write_ptr f)
   }"

text \<open>The three dumps are the same loop over the read function of the driver, each with its message for an error; the dump of the
  microcontroller's flash does not look at the result.\<close>

function hex_dump_loop :: "('w \<Rightarrow> u32 \<Rightarrow> u32 \<Rightarrow> (int \<times> bytes \<times> 'w) option) \<Rightarrow> string option \<Rightarrow> u32 \<Rightarrow> u32 \<Rightarrow> bytes \<Rightarrow> ('o, 'w) cli \<Rightarrow> ('o, 'w) cli option" where
  "hex_dump_loop read err addr len buf st =
     (if len = 0 then Some st
      else (let
        this_page = addr AND NOT 255;
        this_ofst = addr AND 255;
        this_len = 256 - this_ofst;
        this_len = (if this_len > len then len else this_len)
      in do {
        (rtn, bs, s) \<leftarrow> read (world st) (this_page + this_ofst) this_len;
        buf \<leftarrow> store_at buf (unat this_ofst) bs;
        let st = st\<lparr>world := s\<rparr>;
        (case if rtn \<noteq> 0 then err else None of
           Some msg \<Rightarrow> say msg [] st
         | None \<Rightarrow> do {
             st \<leftarrow> nk_byte_hex_dump buf this_page this_ofst this_len st;
             hex_dump_loop read err (addr + this_len) (len - this_len) buf st
           })
      }))"
  by pat_completeness auto
termination
proof (relation "measure (\<lambda>(read, err, addr, len, buf, st). unat len)", goal_cases)
  case (2 read err addr len)
  then show ?case using page_rest_pos [of addr, unfolded FLASH_PAGE_SIZE_def]
    by (auto simp: unat_sub word_le_nat_alt word_less_nat_alt unat_gt_0 Let_def)
qed simp

declare hex_dump_loop.simps [simp del]

text \<open>The loops of \<open>fill\<close>: 16 bytes at a time, counting from \<open>x\<close> on or all the same.\<close>

fun counting :: "nat \<Rightarrow> u8 \<Rightarrow> bytes" where
  "counting 0 x = []"
| "counting (Suc n) x = x # counting n (x + 1)"

function fill_loop :: "('w \<Rightarrow> u32 \<Rightarrow> bytes \<Rightarrow> (int \<times> 'w) option) \<Rightarrow> u8 option \<Rightarrow> u8 \<Rightarrow> u32 \<Rightarrow> u32 \<Rightarrow> int \<Rightarrow> 'w \<Rightarrow> (int \<times> 'w) option" where
  "fill_loop write val x addr len status s =
     (if len = 0 then Some (status, s)
      else do {
        let buf = (case val of None \<Rightarrow> counting 16 x | Some v \<Rightarrow> replicate 16 v);
        let th = (if len \<ge> 16 then 16 else len);
        (rtn, s) \<leftarrow> write s addr (take (unat th) buf);
        let status = status OR rtn;
        if status \<noteq> 0 then Some (status, s) else fill_loop write val (x + 16) (addr + th) (len - th) status s
      })"
  by pat_completeness auto
termination
proof (relation "measure (\<lambda>(write, val, x, addr, len, status, s). unat len)", goal_cases)
  case (2 fwrite val x addr len)
  then show ?case by (auto simp: unat_sub word_le_nat_alt word_less_nat_alt unat_gt_0)
qed simp

declare fill_loop.simps [simp del]

text \<open>\<open>facmode && nk_fscan(...)\<close>\<close>

definition fac_scan :: "('o, 'w) cli \<Rightarrow> args \<Rightarrow> string \<Rightarrow> unit dest list \<Rightarrow> (bool \<times> unit dest list \<times> args) option" where
  "fac_scan st args fmt ap = (if facmode st then scan args fmt ap else Some (False, ap, args))"

section \<open>The flash of the microcontroller\<close>

text \<open>\<open>old_mcuflash_addr\<close>, with the flash.\<close>

record 's mcuflash_cmd =
  old_mcuflash_addr :: u32
  mcuflash :: 's

definition flash_hex_dump :: "'s pico_hw \<Rightarrow> u32 \<Rightarrow> u32 \<Rightarrow> bytes \<Rightarrow> ('o, 's mcuflash_cmd) cli \<Rightarrow> ('o, 's mcuflash_cmd) cli option" where
  "flash_hex_dump hw = hex_dump_loop (\<lambda>w a n. do { (rtn, bs, s) \<leftarrow> nk_mcuflash_read hw (mcuflash w) a n; Some (rtn, bs, w\<lparr>mcuflash := s\<rparr>) }) None"

definition mcuflash_fill :: "'s pico_hw \<Rightarrow> u8 option \<Rightarrow> u32 \<Rightarrow> u32 \<Rightarrow> ('o, 's mcuflash_cmd) cli \<Rightarrow> (int \<times> ('o, 's mcuflash_cmd) cli) option" where
  "mcuflash_fill hw val addr len st = do {
     st \<leftarrow> say (''Writing %lu bytes...'' @ [CHR 0x0A]) [VLong len] st;
     (status, s) \<leftarrow> fill_loop (nk_mcuflash_write hw) val 0x10 addr len 0 (mcuflash (world st));
     st \<leftarrow> say (''done.'' @ [CHR 0x0A]) [] (st\<lparr>world := (world st)\<lparr>mcuflash := s\<rparr>\<rparr>);
     Some (status, st)
   }"

definition cmd_mcuflash :: "'s pico_hw \<Rightarrow> bytes \<Rightarrow> args \<Rightarrow> ('o, 's mcuflash_cmd) cli \<Rightarrow> (int \<times> ('o, 's mcuflash_cmd) cli) option" where
  "cmd_mcuflash hw buf args st = do {
     (status, st) \<leftarrow> do {
       (ok, ap, args) \<leftarrow> fac_scan st args ''rd %lx '' [PLong 0];
       if ok then (case ap of
           [PLong addr] \<Rightarrow> do {
             (_, bs, s) \<leftarrow> nk_mcuflash_read hw (mcuflash (world st)) addr 8;
             st \<leftarrow> say (''[%lx] has %llx'' @ [CHR 0x0A]) [VLong addr, VLongLong (le_value bs)] (st\<lparr>world := (world st)\<lparr>mcuflash := s\<rparr>\<rparr>);
             Some (0, st)
           }
         | _ \<Rightarrow> None)
       else do {
       (ok, ap, args) \<leftarrow> fac_scan st args ''wr %lx %llx '' [PLong 0, PLongLong 0];
       if ok then (case ap of
           [PLong addr, PLongLong val] \<Rightarrow> do {
             (_, s) \<leftarrow> nk_mcuflash_write hw (mcuflash (world st)) addr (le_bytes 8 val);
             st \<leftarrow> say (''Wrote %llx to [%lx]'' @ [CHR 0x0A]) [VLongLong val, VLong addr] (st\<lparr>world := (world st)\<lparr>mcuflash := s\<rparr>\<rparr>);
             Some (0, st)
           }
         | _ \<Rightarrow> None)
       else do {
       (ok, ap, args) \<leftarrow> fac_scan st args ''hd %lx %lx '' [PLong (old_mcuflash_addr (world st)), PLong 0];
       (addr, len) \<leftarrow> (case ap of [PLong addr, PLong len] \<Rightarrow> Some (addr, len) | _ \<Rightarrow> None);
       let st = st\<lparr>world := (world st)\<lparr>old_mcuflash_addr := addr\<rparr>\<rparr>;
       if ok then do {
         st \<leftarrow> flash_hex_dump hw addr len buf st;
         Some (0, st\<lparr>world := (world st)\<lparr>old_mcuflash_addr := addr + len\<rparr>\<rparr>)
       }
       else do {
       (ok, ap, args) \<leftarrow> fac_scan st args ''hd %lx '' [PLong addr];
       addr \<leftarrow> (case ap of [PLong addr] \<Rightarrow> Some addr | _ \<Rightarrow> None);
       let st = st\<lparr>world := (world st)\<lparr>old_mcuflash_addr := addr\<rparr>\<rparr>;
       if ok then do {
         st \<leftarrow> flash_hex_dump hw addr 0x100 buf st;
         Some (0, st\<lparr>world := (world st)\<lparr>old_mcuflash_addr := addr + 0x100\<rparr>\<rparr>)
       }
       else do {
       (ok, ap, args) \<leftarrow> fac_scan st args ''crc %lx %lu '' [PLong 0, PLong 0];
       if ok then (case ap of
           [PLong addr, PLong len] \<Rightarrow> do {
             st \<leftarrow> say (''Calculate CRC of %lx - %lx'' @ [CHR 0x0A]) [VLong addr, VLong (addr + len)] st;
             (crc, s) \<leftarrow> flash_crc hw addr len (mcuflash (world st));
             st \<leftarrow> say (''CRC is %lx'' @ [CHR 0x0A]) [VLong crc] (st\<lparr>world := (world st)\<lparr>mcuflash := s\<rparr>\<rparr>);
             Some (0, st)
           }
         | _ \<Rightarrow> None)
       else do {
       (ok, ap, args) \<leftarrow> fac_scan st args ''erase %lx %lx '' [PLong 0, PLong 0];
       if ok then (case ap of
           [PLong addr, PLong len] \<Rightarrow> do {
             st \<leftarrow> say (''Erasing %lu bytes...'' @ [CHR 0x0A]) [VLong len] st;
             (_, s) \<leftarrow> nk_mcuflash_erase hw (mcuflash (world st)) addr len;
             st \<leftarrow> say (''done.'' @ [CHR 0x0A]) [] (st\<lparr>world := (world st)\<lparr>mcuflash := s\<rparr>\<rparr>);
             Some (0, st)
           }
         | _ \<Rightarrow> None)
       else do {
       (ok, ap, args) \<leftarrow> fac_scan st args ''erase %lx '' [PLong 0];
       if ok then do { st \<leftarrow> say (''Ooops.'' @ [CHR 0x0A]) [] st; Some (0, st) }
       else do {
       (ok, ap, args) \<leftarrow> fac_scan st args ''fill %lx %lx '' [PLong 0, PLong 0];
       if ok then (case ap of [PLong addr, PLong len] \<Rightarrow> mcuflash_fill hw None addr len st | _ \<Rightarrow> None)
       else do {
       (ok, ap, args) \<leftarrow> fac_scan st args ''fill %lx %lx %hhx '' [PLong 0, PLong 0, PChar 0];
       if ok then (case ap of [PLong addr, PLong len, PChar val] \<Rightarrow> mcuflash_fill hw (Some val) addr len st | _ \<Rightarrow> None)
       else do { st \<leftarrow> say (''Syntax error'' @ [CHR 0x0A]) [] st; Some (0, st) }
       }}}}}}}}
     };
     st \<leftarrow> (if status \<noteq> 0 then say (''Flash error'' @ [CHR 0x0A]) [] st else Some st);
     Some (0, st)
   }"

section \<open>Serial flash and EEPROM\<close>

text \<open>The steps that the commands of both drivers have; their first result is what is or-ed to the status. The local variable that \<open>rd\<close> prints is not
  initialized and taken to be 0 as far as a read that fails has not stored it.\<close>

definition rd_word :: "('w \<Rightarrow> u32 \<Rightarrow> u32 \<Rightarrow> (int \<times> bytes \<times> 'w) option) \<Rightarrow> u32 \<Rightarrow> ('o, 'w) cli \<Rightarrow> (int \<times> ('o, 'w) cli) option" where
  "rd_word read addr st = do {
     (rtn, bs, s) \<leftarrow> read (world st) addr 4;
     st \<leftarrow> say (''[%lx] has %lx'' @ [CHR 0x0A]) [VLong addr, VLong (le_value bs)] (st\<lparr>world := s\<rparr>);
     Some (rtn, st)
   }"

definition wr_word :: "('w \<Rightarrow> u32 \<Rightarrow> bytes \<Rightarrow> (int \<times> 'w) option) \<Rightarrow> u32 \<Rightarrow> u32 \<Rightarrow> ('o, 'w) cli \<Rightarrow> (int \<times> ('o, 'w) cli) option" where
  "wr_word write addr val st = do {
     (rtn, s) \<leftarrow> write (world st) addr (le_bytes 4 val);
     st \<leftarrow> say (''Wrote %lx to [%lx]'' @ [CHR 0x0A]) [VLong val, VLong addr] (st\<lparr>world := s\<rparr>);
     Some (rtn, st)
   }"

definition crc_range :: "(u32 \<Rightarrow> u32 \<Rightarrow> 'w \<Rightarrow> (u32 \<times> 'w) option) \<Rightarrow> u32 \<Rightarrow> u32 \<Rightarrow> ('o, 'w) cli \<Rightarrow> (int \<times> ('o, 'w) cli) option" where
  "crc_range crc addr len st = do {
     st \<leftarrow> say (''Calculate CRC of %lx - %lx'' @ [CHR 0x0A]) [VLong addr, VLong (addr + len)] st;
     (val, s) \<leftarrow> crc addr len (world st);
     st \<leftarrow> say (''CRC is %lx'' @ [CHR 0x0A]) [VLong val] (st\<lparr>world := s\<rparr>);
     Some (0, st)
   }"

definition erase_range :: "('w \<Rightarrow> u32 \<Rightarrow> u32 \<Rightarrow> (int \<times> 'w) option) \<Rightarrow> u32 \<Rightarrow> u32 \<Rightarrow> ('o, 'w) cli \<Rightarrow> (int \<times> ('o, 'w) cli) option" where
  "erase_range erase addr len st = do {
     st \<leftarrow> say (''Erasing %lu bytes...'' @ [CHR 0x0A]) [VLong len] st;
     (rtn, s) \<leftarrow> erase (world st) addr len;
     st \<leftarrow> say (''done.'' @ [CHR 0x0A]) [] (st\<lparr>world := s\<rparr>);
     Some (rtn, st)
   }"

definition fill_range :: "('w \<Rightarrow> u32 \<Rightarrow> bytes \<Rightarrow> (int \<times> 'w) option) \<Rightarrow> u8 option \<Rightarrow> u32 \<Rightarrow> u32 \<Rightarrow> ('o, 'w) cli \<Rightarrow> (int \<times> ('o, 'w) cli) option" where
  "fill_range write val addr len st = do {
     st \<leftarrow> say (''Writing %lu bytes...'' @ [CHR 0x0A]) [VLong len] st;
     (status, s) \<leftarrow> fill_loop write val 0x10 addr len 0 (world st);
     st \<leftarrow> say (''done.'' @ [CHR 0x0A]) [] (st\<lparr>world := s\<rparr>);
     Some (status, st)
   }"

definition nk_spiflash_hex_dump :: "'s nk_spiflash_info \<Rightarrow> u32 \<Rightarrow> u32 \<Rightarrow> bytes \<Rightarrow> ('o, 's spi_state) cli \<Rightarrow> ('o, 's spi_state) cli option" where
  "nk_spiflash_hex_dump info = hex_dump_loop (nk_spiflash_read info) (Some (''SPI error'' @ [CHR 0x0A]))"

definition nk_i2c_eeprom_hex_dump :: "'s nk_i2c_eeprom_info \<Rightarrow> u32 \<Rightarrow> u32 \<Rightarrow> bytes \<Rightarrow> ('o, 's ee_state) cli \<Rightarrow> ('o, 's ee_state) cli option" where
  "nk_i2c_eeprom_hex_dump info = hex_dump_loop (nk_i2c_eeprom_read info) (Some (''I2C error'' @ [CHR 0x0A]))"

definition nk_spiflash_command :: "'s nk_spiflash_info \<Rightarrow> bytes \<Rightarrow> args \<Rightarrow> ('o, 's spi_state) cli \<Rightarrow> (int \<times> ('o, 's spi_state) cli) option" where
  "nk_spiflash_command info buf args st = do {
     (status, st) \<leftarrow> do {
       (ok, ap, args) \<leftarrow> fac_scan st args ''rd %lx '' [PLong 0];
       if ok then (case ap of [PLong addr] \<Rightarrow> rd_word (nk_spiflash_read info) addr st | _ \<Rightarrow> None)
       else do {
       (ok, ap, args) \<leftarrow> fac_scan st args ''wr %lx %lx '' [PLong 0, PLong 0];
       if ok then (case ap of [PLong addr, PLong val] \<Rightarrow> wr_word (nk_spiflash_write info) addr val st | _ \<Rightarrow> None)
       else do {
       (ok, ap, args) \<leftarrow> fac_scan st args ''hd %lx %lx '' [PLong 0, PLong 0];
       if ok then (case ap of [PLong addr, PLong len] \<Rightarrow> do { st \<leftarrow> nk_spiflash_hex_dump info addr len buf st; Some (0, st) } | _ \<Rightarrow> None)
       else do {
       (ok, ap, args) \<leftarrow> fac_scan st args ''hd %lx '' [PLong 0];
       if ok then (case ap of [PLong addr] \<Rightarrow> do { st \<leftarrow> nk_spiflash_hex_dump info addr 0x100 buf st; Some (0, st) } | _ \<Rightarrow> None)
       else do {
       (ok, ap, args) \<leftarrow> fac_scan st args ''crc %lx %lx '' [PLong 0, PLong 0];
       if ok then (case ap of [PLong addr, PLong len] \<Rightarrow> crc_range (nk_spiflash_crc info) addr len st | _ \<Rightarrow> None)
       else do {
       (ok, ap, args) \<leftarrow> fac_scan st args ''erase %lx %lx '' [PLong 0, PLong 0];
       if ok then (case ap of [PLong addr, PLong len] \<Rightarrow> erase_range (nk_spiflash_erase info) addr len st | _ \<Rightarrow> None)
       else do {
       (ok, ap, args) \<leftarrow> fac_scan st args ''unlock '' [];
       if ok then do {
         st \<leftarrow> say (''Unlock...'' @ [CHR 0x0A]) [] st;
         (rtn, s) \<leftarrow> nk_spiflash_write_status info 0 (world st);
         st \<leftarrow> say (''done.'' @ [CHR 0x0A]) [] (st\<lparr>world := s\<rparr>);
         Some (rtn, st)
       }
       else do {
       (ok, ap, args) \<leftarrow> fac_scan st args ''erase %lx '' [PLong 0];
       if ok then (case ap of [PLong addr] \<Rightarrow> erase_range (nk_spiflash_erase info) addr 4096 st | _ \<Rightarrow> None)
       else do {
       (ok, ap, args) \<leftarrow> fac_scan st args ''fill %lx %lx '' [PLong 0, PLong 0];
       if ok then (case ap of [PLong addr, PLong len] \<Rightarrow> fill_range (nk_spiflash_write info) None addr len st | _ \<Rightarrow> None)
       else do {
       (ok, ap, args) \<leftarrow> fac_scan st args ''fill %lx %lx %lx '' [PLong 0, PLong 0, PLong 0];
       if ok then (case ap of [PLong addr, PLong len, PLong val] \<Rightarrow> fill_range (nk_spiflash_write info) (Some (ucast val)) addr len st | _ \<Rightarrow> None)
       else do { st \<leftarrow> say (''Syntax error'' @ [CHR 0x0A]) [] st; Some (0, st) }
       }}}}}}}}}
     };
     st \<leftarrow> (if status \<noteq> 0 then say (''SPI error'' @ [CHR 0x0A]) [] st else Some st);
     Some (0, st)
   }"

definition nk_i2c_eeprom_command :: "'s nk_i2c_eeprom_info \<Rightarrow> bytes \<Rightarrow> args \<Rightarrow> ('o, 's ee_state) cli \<Rightarrow> (int \<times> ('o, 's ee_state) cli) option" where
  "nk_i2c_eeprom_command info buf args st = do {
     (status, st) \<leftarrow> do {
       (ok, ap, args) \<leftarrow> fac_scan st args ''rd %lx '' [PLong 0];
       if ok then (case ap of [PLong addr] \<Rightarrow> rd_word (nk_i2c_eeprom_read info) addr st | _ \<Rightarrow> None)
       else do {
       (ok, ap, args) \<leftarrow> fac_scan st args ''wr %lx %lx '' [PLong 0, PLong 0];
       if ok then (case ap of [PLong addr, PLong val] \<Rightarrow> wr_word (nk_i2c_eeprom_write info) addr val st | _ \<Rightarrow> None)
       else do {
       (ok, ap, args) \<leftarrow> fac_scan st args ''hd %lx %lx '' [PLong 0, PLong 0];
       if ok then (case ap of [PLong addr, PLong len] \<Rightarrow> do { st \<leftarrow> nk_i2c_eeprom_hex_dump info addr len buf st; Some (0, st) } | _ \<Rightarrow> None)
       else do {
       (ok, ap, args) \<leftarrow> fac_scan st args ''hd %lx '' [PLong 0];
       if ok then (case ap of [PLong addr] \<Rightarrow> do { st \<leftarrow> nk_i2c_eeprom_hex_dump info addr 0x100 buf st; Some (0, st) } | _ \<Rightarrow> None)
       else do {
       (ok, ap, args) \<leftarrow> fac_scan st args ''crc %lx %lx '' [PLong 0, PLong 0];
       if ok then (case ap of [PLong addr, PLong len] \<Rightarrow> crc_range (nk_i2c_eeprom_crc info) addr len st | _ \<Rightarrow> None)
       else do {
       (ok, ap, args) \<leftarrow> fac_scan st args ''fill %lx %lx '' [PLong 0, PLong 0];
       if ok then (case ap of [PLong addr, PLong len] \<Rightarrow> fill_range (nk_i2c_eeprom_write info) None addr len st | _ \<Rightarrow> None)
       else do {
       (ok, ap, args) \<leftarrow> fac_scan st args ''fill %lx %lx %lx '' [PLong 0, PLong 0, PLong 0];
       if ok then (case ap of [PLong addr, PLong len, PLong val] \<Rightarrow> fill_range (nk_i2c_eeprom_write info) (Some (ucast val)) addr len st | _ \<Rightarrow> None)
       else do { st \<leftarrow> say (''Syntax error'' @ [CHR 0x0A]) [] st; Some (0, st) }
       }}}}}}
     };
     st \<leftarrow> (if status \<noteq> 0 then say (''I2C error'' @ [CHR 0x0A]) [] st else Some st);
     Some (0, st)
   }"

section \<open>What the loop of \<open>fill\<close> writes\<close>

definition fill_bytes :: "u8 option \<Rightarrow> nat \<Rightarrow> u8 \<Rightarrow> bytes" where
  "fill_bytes val n x = (case val of None \<Rightarrow> counting n x | Some v \<Rightarrow> replicate n v)"

lemma counting_add: "counting (m + n) x = counting m x @ counting n (x + word_of_nat m)"
  by (induction m arbitrary: x) (simp_all add: add.assoc)

lemma fill_bytes_add: "fill_bytes val (m + n) x = fill_bytes val m x @ fill_bytes val n (x + word_of_nat m)"
  by (cases val) (simp_all add: fill_bytes_def counting_add replicate_add)

lemma length_fill_bytes [simp]: "length (fill_bytes val n x) = n"
proof -
  have "length (counting n x) = n" for x by (induction n arbitrary: x) simp_all
  then show ?thesis by (cases val) (simp_all add: fill_bytes_def)
qed

lemma take_fill_bytes: "n \<le> 16 \<Longrightarrow> take n (case val of None \<Rightarrow> counting 16 x | Some v \<Rightarrow> replicate 16 v) = fill_bytes val n x"
  using fill_bytes_add [of val n "16 - n" x] by (simp add: fill_bytes_def [of val 16 x, symmetric])

context pico_flash
begin

lemma fill_loop_ok:
  assumes "flash_ok s" "unat a + unat n \<le> flash_bytes"
  shows "\<exists>s'. fill_loop (nk_mcuflash_write hw) val x a n 0 s = Some (0, s') \<and> flash_ok s'
    \<and> xip hw s' = and_range (xip hw s) (unat a) (fill_bytes val (unat n) x)"
  using assms
proof (induction "unat n" arbitrary: n a x s rule: less_induct)
  case less
  show ?case
  proof (cases "n = 0")
    case True
    then show ?thesis using less.prems by (subst fill_loop.simps) (cases val; simp add: fill_bytes_def)
  next
    case False
    define th :: u32 where "th = (if n \<ge> 16 then 16 else n)"
    have th: "unat th \<le> 16" "unat th \<le> unat n" "0 < unat th"
      using False by (auto simp: th_def word_le_nat_alt unat_gt_0)
    obtain s1 where s1: "nk_mcuflash_write hw s a (fill_bytes val (unat th) x) = Some (0, s1)" "flash_ok s1"
        "xip hw s1 = and_range (xip hw s) (unat a) (fill_bytes val (unat th) x)"
      using mcuflash_write_merges [of s a "fill_bytes val (unat th) x" "replicate 256 0"] less.prems th by (auto simp: nk_mcuflash_write_def)
    have nxt: "unat (a + th) = unat a + unat th" "unat (n - th) = unat n - unat th"
      using less.prems(2) th(2) flash_bytes(1) by (simp_all add: unat_add_no_wrap unat_sub word_le_nat_alt)
    have x16: "fill_bytes val (unat n - unat th) (x + 16) = fill_bytes val (unat n - unat th) (x + word_of_nat (unat th))"
      by (cases "n \<ge> 16") (simp_all add: th_def fill_bytes_def split: option.split)
    obtain s2 where s2: "fill_loop (nk_mcuflash_write hw) val (x + 16) (a + th) (n - th) 0 s1 = Some (0, s2)" "flash_ok s2"
        "xip hw s2 = and_range (xip hw s1) (unat a + unat th) (fill_bytes val (unat n - unat th) (x + 16))"
    proof -
      have "unat (n - th) < unat n" "unat (a + th) + unat (n - th) \<le> flash_bytes" using nxt th less.prems(2) by simp_all
      from less.hyps [OF this(1) s1(2) this(2), of "x + 16"] show ?thesis using that nxt by auto
    qed
    have "fill_loop (nk_mcuflash_write hw) val x a n 0 s = Some (0, s2)"
      using False s1(1) s2(1) by (subst fill_loop.simps) (simp add: th_def [symmetric] take_fill_bytes [OF th(1)])
    moreover have "xip hw s2 = and_range (xip hw s) (unat a) (fill_bytes val (unat n) x)"
      using s2(3) s1(3) x16 and_range_append [of "xip hw s" "unat a" "fill_bytes val (unat th) x" "fill_bytes val (unat n - unat th) (x + 16)"]
        fill_bytes_add [of val "unat th" "unat n - unat th" x] th(2) by simp
    ultimately show ?thesis using s2(2) by blast
  qed
qed

end

section \<open>Which command is scanned\<close>

lemma other_word:
  fixes st :: "('o, 'w) cli"
  assumes "mem_file.reads data f (c # bs)" "scan_items fmt = Lit k # is" "uint c \<noteq> chr k"
  obtains f' where "fac_scan st f fmt ap = Some (False, ap, f')" "mem_file.reads data f' (c # bs)"
proof (cases "facmode st")
  case True
  have "match_items (\<lambda>_ _. None) False (scan_items fmt) ap (c # bs) = Some (False, ap, c # bs)" using assms(2,3) by (simp add: same_char_def)
  from scan_reads [OF assms(1) this] show ?thesis using that True by (auto simp: fac_scan_def)
qed (use assms(1) that in \<open>simp add: fac_scan_def\<close>)

lemma hex_matches:
  assumes "case rest of c # _ \<Rightarrow> \<not> nk_isxdigit (uint c) | [] \<Rightarrow> True"
  shows "match_arg key False (CHR ''x'') (-1) 1 (number_text 16 False n @ rest) (PLong w) = Some (True, PLong (word_of_nat n), rest)"
    "match_arg key False (CHR ''x'') (-1) (-2) (number_text 16 False n @ rest) (PChar b) = Some (True, PChar (word_of_nat n), rest)"
proof -
  have u: "ucast (word_of_nat n :: u64) = (word_of_nat n :: u32)" "ucast (word_of_nat n :: u64) = (word_of_nat n :: u8)"
    by (rule bit_word_eqI, simp add: bit_simps)+
  show "match_arg key False (CHR ''x'') (-1) 1 (number_text 16 False n @ rest) (PLong w) = Some (True, PLong (word_of_nat n), rest)"
    "match_arg key False (CHR ''x'') (-1) (-2) (number_text 16 False n @ rest) (PChar b) = Some (True, PChar (word_of_nat n), rest)"
    by (simp_all add: match_arg_def match_number_def hexnum_read [OF assms] u)
qed

abbreviation hex_text :: "nat \<Rightarrow> bytes" where
  "hex_text n \<equiv> number_text 16 False n"

lemma hex_text_starts: "\<exists>c r. hex_text n = c # r \<and> nk_isxdigit (uint c)"
proof -
  have "list_all (\<lambda>d. d < 16) (num_digits 16 n)" using digits_value_num [of 16 n] by (cases "n = 0") (simp_all add: num_digits.simps)
  then show ?thesis
    using hex_chars(1) num_digits_eq_Nil [of 16 n] by (cases "num_digits 16 n") (auto simp: number_text_def nk_isxdigit_def is_digit_def)
qed

lemma no_blank_hex: "dropWhile (\<lambda>c. nk_isspace (uint c)) (hex_text n @ r) = hex_text n @ r"
  using hex_text_starts [of n] by (auto simp: nk_isspace_def nk_isxdigit_def is_digit_def)

lemma hex_not_blank: "dropWhile (\<lambda>c. nk_isspace (uint c)) (hex_text n) = hex_text n" "\<exists>c\<in>set (hex_text n). \<not> nk_isspace (uint c)"
  using hex_text_starts [of n] by (auto simp: nk_isspace_def nk_isxdigit_def is_digit_def)

lemma hex_text_uncons: "hex_text n @ r \<noteq> []"
  using hex_text_starts [of n] by auto

lemmas command_items = scan_items.simps scan_width_def is_digit_def conv_chars_def

lemma command_formats:
  "scan_items ''rd %lx '' = [Lit (CHR ''r''), Lit (CHR ''d''), Blank, Conv (CHR ''x'') (-1) 1, Blank]"
  "scan_items ''wr %lx %llx '' = [Lit (CHR ''w''), Lit (CHR ''r''), Blank, Conv (CHR ''x'') (-1) 1, Blank, Conv (CHR ''x'') (-1) 2, Blank]"
  "scan_items ''hd %lx %lx '' = [Lit (CHR ''h''), Lit (CHR ''d''), Blank, Conv (CHR ''x'') (-1) 1, Blank, Conv (CHR ''x'') (-1) 1, Blank]"
  "scan_items ''hd %lx '' = [Lit (CHR ''h''), Lit (CHR ''d''), Blank, Conv (CHR ''x'') (-1) 1, Blank]"
  "scan_items ''crc %lx %lu '' = [Lit (CHR ''c''), Lit (CHR ''r''), Lit (CHR ''c''), Blank, Conv (CHR ''x'') (-1) 1, Blank, Conv (CHR ''u'') (-1) 1, Blank]"
  "scan_items ''erase %lx %lx '' = [Lit (CHR ''e''), Lit (CHR ''r''), Lit (CHR ''a''), Lit (CHR ''s''), Lit (CHR ''e''), Blank, Conv (CHR ''x'') (-1) 1, Blank, Conv (CHR ''x'') (-1) 1, Blank]"
  "scan_items ''erase %lx '' = [Lit (CHR ''e''), Lit (CHR ''r''), Lit (CHR ''a''), Lit (CHR ''s''), Lit (CHR ''e''), Blank, Conv (CHR ''x'') (-1) 1, Blank]"
  "scan_items ''fill %lx %lx '' = [Lit (CHR ''f''), Lit (CHR ''i''), Lit (CHR ''l''), Lit (CHR ''l''), Blank, Conv (CHR ''x'') (-1) 1, Blank, Conv (CHR ''x'') (-1) 1, Blank]"
  "scan_items ''fill %lx %lx %hhx '' = [Lit (CHR ''f''), Lit (CHR ''i''), Lit (CHR ''l''), Lit (CHR ''l''), Blank, Conv (CHR ''x'') (-1) 1, Blank, Conv (CHR ''x'') (-1) 1,
     Blank, Conv (CHR ''x'') (-1) (-2), Blank]"
  by (simp_all add: command_items)

text \<open>The two commands of the property, as they are typed.\<close>

definition erase_text :: "nat \<Rightarrow> nat \<Rightarrow> bytes" where
  "erase_text a n = map of_char ''erase '' @ hex_text a @ 32 # hex_text n"

definition fill_text :: "nat \<Rightarrow> nat \<Rightarrow> nat \<Rightarrow> bytes" where
  "fill_text a n v = map of_char ''fill '' @ hex_text a @ 32 # hex_text n @ 32 # hex_text v"

lemma blank_32: "nk_isspace 32" "\<not> nk_isxdigit 32"
  by (simp_all add: nk_isspace_def nk_isxdigit_def is_digit_def)

lemmas hex_matches_end = hex_matches [of "[]", simplified]

lemma erase_matches:
  "match_items (\<lambda>_ _. None) False (scan_items ''erase %lx %lx '') [PLong x, PLong y] (erase_text a n) = Some (True, [PLong (word_of_nat a), PLong (word_of_nat n)], [])"
  by (simp add: command_formats erase_text_def same_char_def blank_32 no_blank_hex hex_not_blank hex_matches hex_matches_end)

lemma fill_matches:
  "\<exists>r. match_items (\<lambda>_ _. None) False (scan_items ''fill %lx %lx '') [PLong x, PLong y] (fill_text a n v) = Some (False, [PLong (word_of_nat a), PLong (word_of_nat n)], r)"
  "match_items (\<lambda>_ _. None) False (scan_items ''fill %lx %lx %hhx '') [PLong x, PLong y, PChar z] (fill_text a n v)
    = Some (True, [PLong (word_of_nat a), PLong (word_of_nat n), PChar (word_of_nat v)], [])"
  by (simp_all add: command_formats fill_text_def same_char_def blank_32 no_blank_hex hex_not_blank hex_matches hex_matches_end)

lemma count_text:
  "vformat (''Erasing %lu bytes...'' @ [CHR 0x0A]) [VLong v] = Some (map of_char ''Erasing '' @ number_text 10 False (unat v) @ map of_char ('' bytes...'' @ [CHR 0x0A]))"
  "vformat (''Writing %lu bytes...'' @ [CHR 0x0A]) [VLong v] = Some (map of_char ''Writing '' @ number_text 10 False (unat v) @ map of_char ('' bytes...'' @ [CHR 0x0A]))"
proof -
  define u :: u64 where "u = ucast v"
  have "\<And>ap. va_unsigned False 1 (VLong v # ap) = Some (u, ap)" by (simp add: u_def)
  then show "vformat (''Erasing %lu bytes...'' @ [CHR 0x0A]) [VLong v] = Some (map of_char ''Erasing '' @ number_text 10 False (unat v) @ map of_char ('' bytes...'' @ [CHR 0x0A]))"
    "vformat (''Writing %lu bytes...'' @ [CHR 0x0A]) [VLong v] = Some (map of_char ''Writing '' @ number_text 10 False (unat v) @ map of_char ('' bytes...'' @ [CHR 0x0A]))"
    unfolding unat_ucast_u64 [of v, folded u_def, symmetric] by (simp_all add: int_text_simps del: va_unsigned.simps)
qed

lemma say_formatted_text: "vformat fmt ap = Some t \<Longrightarrow> say fmt ap st = Some (cli_puts t st)"
  unfolding say_def by (subst printf_text, assumption, simp only: fold_putc)

lemma say_done: "say (''done.'' @ [CHR 0x0A]) [] st = Some (cli_puts (map of_char (''done.'' @ [CHR 0x0A])) st)"
  by (rule say_text) simp

text \<open>Up to \<open>erase\<close>, and up to \<open>fill\<close>, the scans find another word.\<close>

lemma erase_command:
  fixes st :: "('o, 's mcuflash_cmd) cli"
  assumes f: "mem_file.reads data args (erase_text a n)" and fac: "facmode st"
  shows "cmd_mcuflash hw buf args st = do {
     (_, s) \<leftarrow> nk_mcuflash_erase hw (mcuflash (world st)) (word_of_nat a) (word_of_nat n);
     Some (0, (cli_puts (map of_char ''Erasing '' @ number_text 10 False (unat (word_of_nat n :: u32)) @ map of_char ('' bytes...'' @ [CHR 0x0A] @ ''done.'' @ [CHR 0x0A])) st)
       \<lparr>world := (world st)\<lparr>mcuflash := s\<rparr>\<rparr>)
   }"
proof -
  let ?old = "old_mcuflash_addr (world st)"
  obtain bs where e: "erase_text a n = 101 # bs" by (simp add: erase_text_def)
  note f0 = f [unfolded e]
  obtain f1 where 1: "fac_scan st args ''rd %lx '' [PLong 0] = Some (False, [PLong 0], f1)" "mem_file.reads data f1 (101 # bs)"
    by (rule other_word [OF f0 command_formats(1)]) simp
  obtain f2 where 2: "fac_scan st f1 ''wr %lx %llx '' [PLong 0, PLongLong 0] = Some (False, [PLong 0, PLongLong 0], f2)" "mem_file.reads data f2 (101 # bs)"
    by (rule other_word [OF 1(2) command_formats(2)]) simp
  obtain f3 where 3: "fac_scan st f2 ''hd %lx %lx '' [PLong ?old, PLong 0] = Some (False, [PLong ?old, PLong 0], f3)" "mem_file.reads data f3 (101 # bs)"
    by (rule other_word [OF 2(2) command_formats(3)]) simp
  obtain f4 where 4: "fac_scan st f3 ''hd %lx '' [PLong ?old] = Some (False, [PLong ?old], f4)" "mem_file.reads data f4 (101 # bs)"
    by (rule other_word [OF 3(2) command_formats(4)]) simp
  obtain f5 where 5: "fac_scan st f4 ''crc %lx %lu '' [PLong 0, PLong 0] = Some (False, [PLong 0, PLong 0], f5)" "mem_file.reads data f5 (101 # bs)"
    by (rule other_word [OF 4(2) command_formats(5)]) simp
  obtain f6 where 6: "fac_scan st f5 ''erase %lx %lx '' [PLong 0, PLong 0] = Some (True, [PLong (word_of_nat a), PLong (word_of_nat n)], f6)"
    using scan_reads [OF 5(2) erase_matches [of 0 0 a n, unfolded e]] fac by (auto simp: fac_scan_def)
  have same: "st\<lparr>world := (world st)\<lparr>old_mcuflash_addr := ?old\<rparr>\<rparr> = st" by simp
  show ?thesis
    unfolding cmd_mcuflash_def
    by (cases "nk_mcuflash_erase hw (mcuflash (world st)) (word_of_nat a) (word_of_nat n)")
      (auto simp: 1 2 3 4 5 6 same say_formatted_text [OF count_text(1)] say_done nk_puts_def simp del: append.simps list.map)
qed

lemma fill_command:
  fixes st :: "('o, 's mcuflash_cmd) cli"
  assumes f: "mem_file.reads data args (fill_text b k v)" and fac: "facmode st"
  shows "cmd_mcuflash hw buf args st = do {
     (status, st) \<leftarrow> mcuflash_fill hw (Some (word_of_nat v)) (word_of_nat b) (word_of_nat k) st;
     st \<leftarrow> (if status \<noteq> 0 then say (''Flash error'' @ [CHR 0x0A]) [] st else Some st);
     Some (0, st)
   }"
proof -
  let ?old = "old_mcuflash_addr (world st)"
  obtain bs where e: "fill_text b k v = 102 # bs" by (simp add: fill_text_def)
  note f0 = f [unfolded e]
  obtain f1 where 1: "fac_scan st args ''rd %lx '' [PLong 0] = Some (False, [PLong 0], f1)" "mem_file.reads data f1 (102 # bs)"
    by (rule other_word [OF f0 command_formats(1)]) simp
  obtain f2 where 2: "fac_scan st f1 ''wr %lx %llx '' [PLong 0, PLongLong 0] = Some (False, [PLong 0, PLongLong 0], f2)" "mem_file.reads data f2 (102 # bs)"
    by (rule other_word [OF 1(2) command_formats(2)]) simp
  obtain f3 where 3: "fac_scan st f2 ''hd %lx %lx '' [PLong ?old, PLong 0] = Some (False, [PLong ?old, PLong 0], f3)" "mem_file.reads data f3 (102 # bs)"
    by (rule other_word [OF 2(2) command_formats(3)]) simp
  obtain f4 where 4: "fac_scan st f3 ''hd %lx '' [PLong ?old] = Some (False, [PLong ?old], f4)" "mem_file.reads data f4 (102 # bs)"
    by (rule other_word [OF 3(2) command_formats(4)]) simp
  obtain f5 where 5: "fac_scan st f4 ''crc %lx %lu '' [PLong 0, PLong 0] = Some (False, [PLong 0, PLong 0], f5)" "mem_file.reads data f5 (102 # bs)"
    by (rule other_word [OF 4(2) command_formats(5)]) simp
  obtain f6 where 6: "fac_scan st f5 ''erase %lx %lx '' [PLong 0, PLong 0] = Some (False, [PLong 0, PLong 0], f6)" "mem_file.reads data f6 (102 # bs)"
    by (rule other_word [OF 5(2) command_formats(6)]) simp
  obtain f7 where 7: "fac_scan st f6 ''erase %lx '' [PLong 0] = Some (False, [PLong 0], f7)" "mem_file.reads data f7 (102 # bs)"
    by (rule other_word [OF 6(2) command_formats(7)]) simp
  obtain f8 ap where 8: "fac_scan st f7 ''fill %lx %lx '' [PLong 0, PLong 0] = Some (False, ap, f8)" "mem_file.reads data f8 (102 # bs)"
  proof -
    obtain r where r: "match_items (\<lambda>_ _. None) False (scan_items ''fill %lx %lx '') [PLong 0, PLong 0 :: unit dest] (102 # bs) = Some (False, [PLong (word_of_nat b), PLong (word_of_nat k)], r)"
      using fill_matches(1) [of 0 0 b k v, unfolded e] by blast
    from scan_reads [OF 7(2) r] show ?thesis using that fac by (auto simp: fac_scan_def)
  qed
  obtain f9 where 9: "fac_scan st f8 ''fill %lx %lx %hhx '' [PLong 0, PLong 0, PChar 0] = Some (True, [PLong (word_of_nat b), PLong (word_of_nat k), PChar (word_of_nat v)], f9)"
    using scan_reads [OF 8(2) fill_matches(2) [of 0 0 0 b k v, unfolded e]] fac by (auto simp: fac_scan_def)
  have same: "st\<lparr>world := (world st)\<lparr>old_mcuflash_addr := ?old\<rparr>\<rparr> = st" by simp
  show ?thesis unfolding cmd_mcuflash_def by (simp add: 1 2 3 4 5 6 7 8 9 same)
qed

context pico_flash
begin

lemma fill_value:
  fixes st :: "('o, 's mcuflash_cmd) cli"
  assumes f: "mem_file.reads data args (fill_text b k v)" and fac: "facmode st" and ok: "flash_ok (mcuflash (world st))" and n: "b + k \<le> flash_bytes"
  shows "\<exists>s. cmd_mcuflash hw buf args st = Some (0, (cli_puts (map of_char ''Writing '' @ number_text 10 False k @ map of_char ('' bytes...'' @ [CHR 0x0A] @ ''done.'' @ [CHR 0x0A])) st)
       \<lparr>world := (world st)\<lparr>mcuflash := s\<rparr>\<rparr>)
    \<and> flash_ok s \<and> xip hw s = and_range (xip hw (mcuflash (world st))) b (replicate k (word_of_nat v))"
proof -
  have u: "unat (word_of_nat b :: u32) = b" "unat (word_of_nat k :: u32) = k"
    using n flash_bytes(1) by (simp_all add: unat_of_nat_u32)
  obtain s where s: "fill_loop (nk_mcuflash_write hw) (Some (word_of_nat v)) 0x10 (word_of_nat b) (word_of_nat k) 0 (mcuflash (world st)) = Some (0, s)" "flash_ok s"
      "xip hw s = and_range (xip hw (mcuflash (world st))) b (replicate k (word_of_nat v))"
    using fill_loop_ok [OF ok, of "word_of_nat b" "word_of_nat k" "Some (word_of_nat v)" "0x10"] n unfolding u by (auto simp: fill_bytes_def)
  show ?thesis
    by (rule exI [of _ s])
      (simp add: fill_command [OF f fac] mcuflash_fill_def say_formatted_text [OF count_text(2)] say_done u s nk_puts_def del: append.simps list.map)
qed

lemma erase_value:
  fixes st :: "('o, 's mcuflash_cmd) cli"
  assumes f: "mem_file.reads data args (erase_text a n)" and fac: "facmode st" and ok: "flash_ok (mcuflash (world st))" and n: "a + n \<le> flash_bytes"
  shows "\<exists>s. cmd_mcuflash hw buf args st = Some (0, (cli_puts (map of_char ''Erasing '' @ number_text 10 False n @ map of_char ('' bytes...'' @ [CHR 0x0A] @ ''done.'' @ [CHR 0x0A])) st)
       \<lparr>world := (world st)\<lparr>mcuflash := s\<rparr>\<rparr>)
    \<and> flash_ok s \<and> xip hw s = (if 4096 dvd a \<and> 4096 dvd n then set_range (xip hw (mcuflash (world st))) a (replicate n 0xFF) else xip hw (mcuflash (world st)))"
proof -
  have u: "unat (word_of_nat a :: u32) = a" "unat (word_of_nat n :: u32) = n"
    using n flash_bytes(1) by (simp_all add: unat_of_nat_u32)
  have p2: "pow2 FLASH_SECTOR_SIZE" by (rule pow2_numeral_intro [of 12]) (simp_all add: FLASH_SECTOR_SIZE_def)
  have aligned: "x AND (FLASH_SECTOR_SIZE - 1) = 0 \<longleftrightarrow> 4096 dvd unat x" for x
    using and_pow2_minus_1 [OF p2, of x] by (simp add: unat_eq_zero [symmetric] dvd_eq_mod_eq_0 FLASH_SECTOR_SIZE_def)
  obtain rtn s where s: "nk_mcuflash_erase hw (mcuflash (world st)) (word_of_nat a) (word_of_nat n) = Some (rtn, s)" "flash_ok s"
      "xip hw s = (if 4096 dvd a \<and> 4096 dvd n then set_range (xip hw (mcuflash (world st))) a (replicate n 0xFF) else xip hw (mcuflash (world st)))"
  proof (cases "4096 dvd a \<and> 4096 dvd n")
    case True
    then show ?thesis using that range_erase [OF ok, of "word_of_nat a" "word_of_nat n"] n unfolding nk_mcuflash_erase_def aligned u by auto
  next
    case False
    then have "nk_mcuflash_erase hw (mcuflash (world st)) (word_of_nat a) (word_of_nat n) = Some (-1, mcuflash (world st))"
      unfolding nk_mcuflash_erase_def aligned u by auto
    then show ?thesis using that ok False by auto
  qed
  show ?thesis by (rule exI [of _ s]) (simp add: erase_command [OF f fac] s u)
qed

end

section \<open>Properties\<close>

text \<open>C26. Erasing and filling the flash from the console. In factory mode the typed command \<^verbatim>\<open>erase\<close> with an address and a length in hexadecimal,
  inside the flash, sets exactly that range to 0xFF when both are multiples of 4096, and otherwise changes nothing, though it
  says \<^verbatim>\<open>done.\<close> in both cases; \<^verbatim>\<open>fill\<close> then combines the value with every byte of its range, wherever that starts and ends and however
  long it is, which on erased bytes leaves the value, and changes no other byte. Both always return and say how many bytes they worked on.\<close>
theorem mcuflash_erase_and_fill:
  fixes st :: "('o, 's mcuflash_cmd) cli"
  assumes flash: "pico_flash hw flash_ok flash_bytes" "flash_ok (mcuflash (world st))" and fac: "facmode st"
    and erase: "mem_file.reads data args (erase_text a n)" "a + n \<le> flash_bytes"
    and fill: "mem_file.reads data2 args2 (fill_text b k v)" "b + k \<le> flash_bytes"
  defines "m \<equiv> xip hw (mcuflash (world st))"
  shows "\<exists>st1 st2. cmd_mcuflash hw buf args st = Some (0, st1) \<and> cmd_mcuflash hw buf2 args2 st1 = Some (0, st2)
    \<and> xip hw (mcuflash (world st1)) = (if 4096 dvd a \<and> 4096 dvd n then set_range m a (replicate n 0xFF) else m)
    \<and> xip hw (mcuflash (world st2)) = and_range (xip hw (mcuflash (world st1))) b (replicate k (word_of_nat v))
    \<and> console st2 = nk_puts (map of_char ''Erasing '' @ number_text 10 False n @ map of_char ('' bytes...'' @ [CHR 0x0A] @ ''done.'' @ [CHR 0x0A])
        @ map of_char ''Writing '' @ number_text 10 False k @ map of_char ('' bytes...'' @ [CHR 0x0A] @ ''done.'' @ [CHR 0x0A])) (console st)"
proof -
  obtain s1 where s1: "cmd_mcuflash hw buf args st = Some (0, (cli_puts (map of_char ''Erasing '' @ number_text 10 False n @ map of_char ('' bytes...'' @ [CHR 0x0A] @ ''done.'' @ [CHR 0x0A])) st)
        \<lparr>world := (world st)\<lparr>mcuflash := s1\<rparr>\<rparr>)" "flash_ok s1" "xip hw s1 = (if 4096 dvd a \<and> 4096 dvd n then set_range m a (replicate n 0xFF) else m)"
    using pico_flash.erase_value [OF flash(1) erase(1) fac flash(2) erase(2)] unfolding m_def by blast
  let ?st1 = "(cli_puts (map of_char ''Erasing '' @ number_text 10 False n @ map of_char ('' bytes...'' @ [CHR 0x0A] @ ''done.'' @ [CHR 0x0A])) st)\<lparr>world := (world st)\<lparr>mcuflash := s1\<rparr>\<rparr>"
  have "facmode ?st1" "flash_ok (mcuflash (world ?st1))" using fac s1(2) by simp_all
  from pico_flash.fill_value [OF flash(1) fill(1) this fill(2)] obtain s2 where
    s2: "cmd_mcuflash hw buf2 args2 ?st1 = Some (0, (cli_puts (map of_char ''Writing '' @ number_text 10 False k @ map of_char ('' bytes...'' @ [CHR 0x0A] @ ''done.'' @ [CHR 0x0A])) ?st1)
        \<lparr>world := (world ?st1)\<lparr>mcuflash := s2\<rparr>\<rparr>)" "xip hw s2 = and_range (xip hw (mcuflash (world ?st1))) b (replicate k (word_of_nat v))" by blast
  show ?thesis
    by (intro exI conjI, rule s1(1), rule s2(1)) (use s1(3) s2(2) in \<open>simp_all add: nk_puts_def\<close>)
qed

theorem mcuflash_erase_and_fill_witness:
  "\<forall>c :: readline. \<exists>st1 st2. let st = \<lparr>command_table = COMMAND_TABLE, facmode = True, cli_disabled = False, reading = False, deepness = 0, console = c,
        world = \<lparr>old_mcuflash_addr = 0, mcuflash = (\<lambda>_. 0)\<rparr>\<rparr>
    in cmd_mcuflash pico_mem [] (nkinfile_open_mem () (map of_char ''erase 1000 2000'') 15) st = Some (0, st1)
      \<and> cmd_mcuflash pico_mem [] (nkinfile_open_mem () (map of_char ''fill 1800 5 a5'') 14) st1 = Some (0, st2)
      \<and> range_of (mcuflash (world st2)) 0x17FE 8 = [0xFF, 0xFF, 0xA5, 0xA5, 0xA5, 0xA5, 0xA5, 0xFF] \<and> mcuflash (world st2) 0xFFF = 0"
proof (intro allI)
  fix c :: readline
  define st where "st = \<lparr>command_table = COMMAND_TABLE, facmode = True, cli_disabled = False, reading = False, deepness = 0, console = c,
        world = \<lparr>old_mcuflash_addr = 0, mcuflash = (\<lambda>_ :: nat. 0 :: u8)\<rparr>\<rparr>"
  have written: "map of_char ''erase 1000 2000'' = erase_text 0x1000 0x2000" "map of_char ''fill 1800 5 a5'' = fill_text 0x1800 5 0xA5"
    by (simp_all add: erase_text_def fill_text_def number_text_def num_digits.simps digit_char_def)
  have typed: "mem_file.reads (map of_char ''erase 1000 2000'') (nkinfile_open_mem () (map of_char ''erase 1000 2000'') 15) (erase_text 0x1000 0x2000)"
    "mem_file.reads (map of_char ''fill 1800 5 a5'') (nkinfile_open_mem () (map of_char ''fill 1800 5 a5'') 14) (fill_text 0x1800 5 0xA5)"
    using open_mem_reads [of "map of_char ''erase 1000 2000''" "()" "[]"] open_mem_reads [of "map of_char ''fill 1800 5 a5''" "()" "[]"]
    unfolding written [symmetric] by simp_all
  have s: "facmode st" "mcuflash (world st) = (\<lambda>_. 0)" by (simp_all add: st_def)
  obtain st1 st2 where "cmd_mcuflash pico_mem [] (nkinfile_open_mem () (map of_char ''erase 1000 2000'') 15) st = Some (0, st1)"
      "cmd_mcuflash pico_mem [] (nkinfile_open_mem () (map of_char ''fill 1800 5 a5'') 14) st1 = Some (0, st2)"
      "mcuflash (world st2) = and_range (set_range (\<lambda>_. 0) 0x1000 (replicate 0x2000 0xFF)) 0x1800 (replicate 5 0xA5)"
    using mcuflash_erase_and_fill [OF pico_mem.pico_flash_axioms _ s(1) typed(1) _ typed(2), of "[]" "[]"] by (auto simp: s(2) pico_mem_def)
  moreover from this(3) have "range_of (mcuflash (world st2)) 0x17FE 8 = [0xFF, 0xFF, 0xA5, 0xA5, 0xA5, 0xA5, 0xA5, 0xFF]" "mcuflash (world st2) 0xFFF = 0"
    by (simp_all add: range_of_def upt_rec and_range_def set_range_def)
  ultimately show "\<exists>st1 st2. let st = \<lparr>command_table = COMMAND_TABLE, facmode = True, cli_disabled = False, reading = False, deepness = 0, console = c,
        world = \<lparr>old_mcuflash_addr = 0, mcuflash = (\<lambda>_. 0)\<rparr>\<rparr>
    in cmd_mcuflash pico_mem [] (nkinfile_open_mem () (map of_char ''erase 1000 2000'') 15) st = Some (0, st1)
      \<and> cmd_mcuflash pico_mem [] (nkinfile_open_mem () (map of_char ''fill 1800 5 a5'') 14) st1 = Some (0, st2)
      \<and> range_of (mcuflash (world st2)) 0x17FE 8 = [0xFF, 0xFF, 0xA5, 0xA5, 0xA5, 0xA5, 0xA5, 0xFF] \<and> mcuflash (world st2) 0xFFF = 0"
    unfolding st_def Let_def by blast
qed

end
