(* ===== verification/I2c.thy ===== *)
theory I2c
  imports Checked Cli
begin

unbundle bit_operations_syntax

text \<open>
  I2C devices: transfers and registers (\<^verbatim>\<open>libnklabs/src/nki2c.c\<close>), the bus of this board on the functions of the Pico SDK
  (\<^verbatim>\<open>nki2c_pico.c\<close>, \<^verbatim>\<open>i2c.c\<close>), and the command. The functions of a bus are the fields of \<open>nk_i2c_bus\<close>, those of the SDK the fields of
  \<open>i2c_hw\<close>. The locale \<open>i2c_registers\<close> is a device with registers; on it a register gives back what was put into it.
\<close>

section \<open>Buses and devices\<close>

text \<open>The bus functions with the state \<open>'s\<close> of what is behind them; a read returns the bytes it stores in the caller's buffer.\<close>

record 's nk_i2c_bus =
  bus_write :: "u8 \<Rightarrow> bytes \<Rightarrow> 's \<Rightarrow> int \<times> 's"
  bus_write_nostop :: "u8 \<Rightarrow> bytes \<Rightarrow> 's \<Rightarrow> int \<times> 's"
  bus_read :: "u8 \<Rightarrow> u32 \<Rightarrow> 's \<Rightarrow> int \<times> bytes \<times> 's"
  bus_ping :: "u8 \<Rightarrow> 's \<Rightarrow> int \<times> 's"

record 's nk_i2c_device =
  i2c_bus :: "'s nk_i2c_bus"
  i2c_addr :: u8

definition nk_i2c_write :: "'s nk_i2c_device \<Rightarrow> bytes \<Rightarrow> 's \<Rightarrow> int \<times> 's" where
  "nk_i2c_write dev = bus_write (i2c_bus dev) (i2c_addr dev)"

definition nk_i2c_write_nostop :: "'s nk_i2c_device \<Rightarrow> bytes \<Rightarrow> 's \<Rightarrow> int \<times> 's" where
  "nk_i2c_write_nostop dev = bus_write_nostop (i2c_bus dev) (i2c_addr dev)"

definition nk_i2c_read :: "'s nk_i2c_device \<Rightarrow> u32 \<Rightarrow> 's \<Rightarrow> int \<times> bytes \<times> 's" where
  "nk_i2c_read dev = bus_read (i2c_bus dev) (i2c_addr dev)"

definition nk_i2c_ping :: "'s nk_i2c_device \<Rightarrow> 's \<Rightarrow> int \<times> 's" where
  "nk_i2c_ping dev = bus_ping (i2c_bus dev) (i2c_addr dev)"

section \<open>Registers of a device\<close>

text \<open>The offset of a register is sent in one byte or, by the functions with a 2 in their name, in two.\<close>

definition ofst2 :: "u16 \<Rightarrow> bytes" where
  "ofst2 ofst = [ucast (drop_bit 8 ofst), ucast ofst]"

definition nk_i2c_put_byte :: "'s nk_i2c_device \<Rightarrow> u8 \<Rightarrow> u8 \<Rightarrow> 's \<Rightarrow> int \<times> 's" where
  "nk_i2c_put_byte dev ofst data = nk_i2c_write dev [ofst, data]"

definition nk_i2c_put2_byte :: "'s nk_i2c_device \<Rightarrow> u16 \<Rightarrow> u8 \<Rightarrow> 's \<Rightarrow> int \<times> 's" where
  "nk_i2c_put2_byte dev ofst data = nk_i2c_write dev (ofst2 ofst @ [data])"

text \<open>The two steps of every \<open>get\<close>: sending the offset, and reading into a buffer that holds \<open>buf\<close>. The result has the status and the
  buffer, if the read was made.\<close>

definition get_bytes :: "'s nk_i2c_device \<Rightarrow> bytes \<Rightarrow> u32 \<Rightarrow> bytes \<Rightarrow> 's \<Rightarrow> (int \<times> bytes option \<times> 's) option" where
  "get_bytes dev ofst n buf s = (let (status, s) = nk_i2c_write_nostop dev ofst s in
     if status \<noteq> 0 then Some (status, None, s)
     else do {
       let (status, bs, s) = nk_i2c_read dev n s;
       buf \<leftarrow> store_at buf 0 bs;
       Some (status, Some buf, s)
     })"

text \<open>The variable \<open>*data\<close> is given with the value it has, and returned.\<close>

definition nk_i2c_get_byte :: "'s nk_i2c_device \<Rightarrow> u8 \<Rightarrow> u8 \<Rightarrow> 's \<Rightarrow> (int \<times> u8 \<times> 's) option" where
  "nk_i2c_get_byte dev ofst data s = do {
     (status, buf, s) \<leftarrow> get_bytes dev [ofst] 1 [data] s;
     Some (status, case buf of Some [b] \<Rightarrow> b | _ \<Rightarrow> data, s)
   }"

definition nk_i2c_get2_byte :: "'s nk_i2c_device \<Rightarrow> u16 \<Rightarrow> u8 \<Rightarrow> 's \<Rightarrow> (int \<times> u8 \<times> 's) option" where
  "nk_i2c_get2_byte dev ofst data s = do {
     (status, buf, s) \<leftarrow> get_bytes dev (ofst2 ofst) 1 [data] s;
     Some (status, case buf of Some [b] \<Rightarrow> b | _ \<Rightarrow> data, s)
   }"

definition nk_i2c_put_leshort :: "'s nk_i2c_device \<Rightarrow> u8 \<Rightarrow> u16 \<Rightarrow> 's \<Rightarrow> int \<times> 's" where
  "nk_i2c_put_leshort dev ofst data = nk_i2c_write dev [ofst, ucast data, ucast (drop_bit 8 data)]"

definition nk_i2c_put2_leshort :: "'s nk_i2c_device \<Rightarrow> u16 \<Rightarrow> u16 \<Rightarrow> 's \<Rightarrow> int \<times> 's" where
  "nk_i2c_put2_leshort dev ofst data = nk_i2c_write dev (ofst2 ofst @ [ucast data, ucast (drop_bit 8 data)])"

definition nk_i2c_put2_le24 :: "'s nk_i2c_device \<Rightarrow> u16 \<Rightarrow> u32 \<Rightarrow> 's \<Rightarrow> int \<times> 's" where
  "nk_i2c_put2_le24 dev ofst data = nk_i2c_write dev (ofst2 ofst @ [ucast data, ucast (drop_bit 8 data), ucast (drop_bit 16 data)])"

text \<open>The local array \<open>buf\<close> holds the offset and, where it is longer than that, a byte that is not initialized, \<open>junk\<close>.\<close>

definition nk_i2c_get_leshort :: "'s nk_i2c_device \<Rightarrow> u8 \<Rightarrow> u8 \<Rightarrow> u16 \<Rightarrow> 's \<Rightarrow> (int \<times> u16 \<times> 's) option" where
  "nk_i2c_get_leshort dev junk ofst data s = do {
     (status, buf, s) \<leftarrow> get_bytes dev [ofst] 2 [ofst, junk] s;
     if status \<noteq> 0 then Some (status, data, s)
     else (case buf of Some [b0, b1] \<Rightarrow> Some (0, push_bit 8 (ucast b1) + ucast b0, s) | _ \<Rightarrow> None)
   }"

definition nk_i2c_get2_leshort :: "'s nk_i2c_device \<Rightarrow> u16 \<Rightarrow> u16 \<Rightarrow> 's \<Rightarrow> (int \<times> u16 \<times> 's) option" where
  "nk_i2c_get2_leshort dev ofst data s = do {
     (status, buf, s) \<leftarrow> get_bytes dev (ofst2 ofst) 2 (ofst2 ofst) s;
     if status \<noteq> 0 then Some (status, data, s)
     else (case buf of Some [b0, b1] \<Rightarrow> Some (0, push_bit 8 (ucast b1) + ucast b0, s) | _ \<Rightarrow> None)
   }"

definition nk_i2c_get2_le24 :: "'s nk_i2c_device \<Rightarrow> u8 \<Rightarrow> u16 \<Rightarrow> u32 \<Rightarrow> 's \<Rightarrow> (int \<times> u32 \<times> 's) option" where
  "nk_i2c_get2_le24 dev junk ofst data s = do {
     (status, buf, s) \<leftarrow> get_bytes dev (ofst2 ofst) 3 (ofst2 ofst @ [junk]) s;
     if status \<noteq> 0 then Some (status, data, s)
     else (case buf of Some [b0, b1, b2] \<Rightarrow> Some (0, push_bit 16 (ucast b2) + push_bit 8 (ucast b1) + ucast b0, s) | _ \<Rightarrow> None)
   }"

definition nk_i2c_put_beshort :: "'s nk_i2c_device \<Rightarrow> u8 \<Rightarrow> u16 \<Rightarrow> 's \<Rightarrow> int \<times> 's" where
  "nk_i2c_put_beshort dev ofst data = nk_i2c_write dev [ofst, ucast (drop_bit 8 data), ucast data]"

definition nk_i2c_put2_beshort :: "'s nk_i2c_device \<Rightarrow> u16 \<Rightarrow> u16 \<Rightarrow> 's \<Rightarrow> int \<times> 's" where
  "nk_i2c_put2_beshort dev ofst data = nk_i2c_write dev (ofst2 ofst @ [ucast (drop_bit 8 data), ucast data])"

definition nk_i2c_put2_melong :: "'s nk_i2c_device \<Rightarrow> u16 \<Rightarrow> u32 \<Rightarrow> 's \<Rightarrow> int \<times> 's" where
  "nk_i2c_put2_melong dev ofst data =
     nk_i2c_write dev (ofst2 ofst @ [ucast (drop_bit 8 data), ucast data, ucast (drop_bit 24 data), ucast (drop_bit 16 data)])"

definition nk_i2c_get_beshort :: "'s nk_i2c_device \<Rightarrow> u8 \<Rightarrow> u8 \<Rightarrow> u16 \<Rightarrow> 's \<Rightarrow> (int \<times> u16 \<times> 's) option" where
  "nk_i2c_get_beshort dev junk ofst data s = do {
     (status, buf, s) \<leftarrow> get_bytes dev [ofst] 2 [ofst, junk] s;
     if status \<noteq> 0 then Some (status, data, s)
     else (case buf of Some [b0, b1] \<Rightarrow> Some (0, push_bit 8 (ucast b0) + ucast b1, s) | _ \<Rightarrow> None)
   }"

text \<open>The status of this read is not looked at.\<close>

definition nk_i2c_get2_beshort :: "'s nk_i2c_device \<Rightarrow> u16 \<Rightarrow> u16 \<Rightarrow> 's \<Rightarrow> (int \<times> u16 \<times> 's) option" where
  "nk_i2c_get2_beshort dev ofst data s = do {
     (status, buf, s) \<leftarrow> get_bytes dev (ofst2 ofst) 2 (ofst2 ofst) s;
     (case buf of
        None \<Rightarrow> Some (status, data, s)
      | Some [b0, b1] \<Rightarrow> Some (0, push_bit 8 (ucast b0) + ucast b1, s)
      | _ \<Rightarrow> None)
   }"

section \<open>The bus of this board\<close>

text \<open>The functions of the SDK; the flag is \<open>nostop\<close>.\<close>

record 's i2c_hw =
  i2c_write_blocking :: "u8 \<Rightarrow> bytes \<Rightarrow> bool \<Rightarrow> 's \<Rightarrow> int \<times> 's"
  i2c_read_blocking :: "u8 \<Rightarrow> u32 \<Rightarrow> bool \<Rightarrow> 's \<Rightarrow> int \<times> bytes \<times> 's"

definition nk_hal_i2c_write :: "'s i2c_hw \<Rightarrow> u8 \<Rightarrow> bytes \<Rightarrow> 's \<Rightarrow> int \<times> 's" where
  "nk_hal_i2c_write hw addr buf = i2c_write_blocking hw addr buf False"

definition nk_hal_i2c_write_nostop :: "'s i2c_hw \<Rightarrow> u8 \<Rightarrow> bytes \<Rightarrow> 's \<Rightarrow> int \<times> 's" where
  "nk_hal_i2c_write_nostop hw addr buf = i2c_write_blocking hw addr buf True"

definition nk_hal_i2c_read :: "'s i2c_hw \<Rightarrow> u8 \<Rightarrow> u32 \<Rightarrow> 's \<Rightarrow> int \<times> bytes \<times> 's" where
  "nk_hal_i2c_read hw addr len = i2c_read_blocking hw addr len False"

definition nk_hal_i2c_ping :: "'s i2c_hw \<Rightarrow> u8 \<Rightarrow> 's \<Rightarrow> int \<times> 's" where
  "nk_hal_i2c_ping hw addr s = (let (rtn, _, s) = nk_hal_i2c_read hw addr 1 s in if rtn < 0 then (rtn, s) else (0, s))"

definition ard_i2c_bus :: "'s i2c_hw \<Rightarrow> 's nk_i2c_bus" where
  "ard_i2c_bus hw = \<lparr>bus_write = nk_hal_i2c_write hw, bus_write_nostop = nk_hal_i2c_write_nostop hw,
     bus_read = nk_hal_i2c_read hw, bus_ping = nk_hal_i2c_ping hw\<rparr>"

section \<open>The command\<close>

fun scan_bus :: "'s nk_i2c_bus \<Rightarrow> nat list \<Rightarrow> ('o, 's) cli \<Rightarrow> ('o, 's) cli option" where
  "scan_bus bus [] st = Some st"
| "scan_bus bus (addr # addrs) st = do {
     let (status, s) = bus_ping bus (word_of_nat addr) (world st);
     let st = st\<lparr>world := s\<rparr>;
     st \<leftarrow> (if status = 0 then say (''Found device %x'' @ [CHR 0x0A]) [VInt (word_of_nat addr)] st else Some st);
     scan_bus bus addrs st
   }"

text \<open>The loop that scans the bytes to write into \<open>write_array\<close>; each byte that matches is stored at \<open>write_len\<close>. It returns the file behind them.\<close>

partial_function (option) scan_bytes :: "args \<Rightarrow> bytes \<Rightarrow> nat \<Rightarrow> (bytes \<times> nat \<times> args) option" where
  "scan_bytes args write_array write_len = do {
     (ok, ap, args) \<leftarrow> scan args ''%hhx %e'' [PChar 0];
     if ok then (case ap of
         [PChar b] \<Rightarrow> do { write_array \<leftarrow> store_at write_array write_len [b]; scan_bytes args write_array (write_len + 1) }
       | _ \<Rightarrow> None)
     else Some (write_array, write_len, args)
   }"

fun say_bytes :: "bytes \<Rightarrow> ('o, 's) cli \<Rightarrow> ('o, 's) cli option" where
  "say_bytes [] st = Some st"
| "say_bytes (b # bs) st = do { st \<leftarrow> say '' %x'' [VInt (ucast b)] st; say_bytes bs st }"

definition nk_i2c_command :: "'s nk_i2c_bus \<Rightarrow> bytes \<Rightarrow> args \<Rightarrow> ('o, 's) cli \<Rightarrow> (int \<times> ('o, 's) cli) option" where
  "nk_i2c_command bus write_array args st = do {
     let read_array = replicate 20 0xee;
     (ok, _, args) \<leftarrow> scan args ''scan '' [];
     if ok then do { st \<leftarrow> scan_bus bus [8..<0x78] st; Some (0, st) }
     else do {
       (ok, _, args) \<leftarrow> scan args ''w %e'' [];
       (write_array, write_len, args) \<leftarrow> (if ok then scan_bytes args write_array 0 else Some (write_array, 0, args));
       (ok, ap, args) \<leftarrow> scan args ''r %hhx %x '' [PChar 0, PInt 0];
       (read_addr, read_len) \<leftarrow> (case ap of [PChar a, PInt n] \<Rightarrow> Some (a, if ok then n else 0) | _ \<Rightarrow> None);
       (read_len, st) \<leftarrow> (if write_len \<noteq> 0 then do {
           let st = cli_puts (map of_char '' write'') st;
           tx \<leftarrow> load_from write_array 0 write_len;
           st \<leftarrow> say_bytes tx st;
           let (status, s) = (if read_len \<noteq> 0 then bus_write_nostop bus (hd tx) (tl tx) (world st) else bus_write bus (hd tx) (tl tx) (world st));
           let st = st\<lparr>world := s\<rparr>;
           if status \<noteq> 0 then do { st \<leftarrow> say '' I2C write failed'' [] st; Some (0, st) } else Some (read_len, st)
         }
         else Some (read_len, st));
       st \<leftarrow> (if read_len \<noteq> 0 then do {
           st \<leftarrow> say '' read addr=%x len=%lx'' [VInt (ucast read_addr), VLong read_len] st;
           let (status, bs, s) = bus_read bus read_addr read_len (world st);
           read_array \<leftarrow> store_at read_array 0 bs;
           let st = st\<lparr>world := s\<rparr>;
           if status \<noteq> 0 then say '' I2C read failed'' [] st
           else do {
             rx \<leftarrow> load_from read_array 0 (unat read_len);
             say_bytes rx (cli_puts (map of_char '' got back:'') st)
           }
         }
         else Some st);
       Some (0, cli_puts [10] st)
     }
   }"

definition cmd_i2c :: "'s i2c_hw \<Rightarrow> bytes \<Rightarrow> args \<Rightarrow> ('o, 's) cli \<Rightarrow> (int \<times> ('o, 's) cli) option" where
  "cmd_i2c hw write_array = nk_i2c_command (ard_i2c_bus hw) write_array"

section \<open>A device with registers\<close>

definition offset_bytes :: "bool \<Rightarrow> nat \<Rightarrow> bytes" where
  "offset_bytes wide r = (if wide then ofst2 (word_of_nat r) else [word_of_nat r])"

text \<open>What such a device does with a write, with an offset alone, and with a read; a status of 0 is success.\<close>

locale i2c_registers =
  fixes dev :: "'s nk_i2c_device"
    and wide :: bool
    and regs :: "'s \<Rightarrow> nat \<Rightarrow> u8"
    and pointer :: "'s \<Rightarrow> nat"
    and dev_ok :: "'s \<Rightarrow> bool"
    and nregs :: nat
  assumes nregs: "nregs \<le> (if wide then 65536 else 256)"
    and store: "dev_ok s \<Longrightarrow> bs \<noteq> [] \<Longrightarrow> r + length bs \<le> nregs \<Longrightarrow>
      \<exists>s'. nk_i2c_write dev (offset_bytes wide r @ bs) s = (0, s') \<and> dev_ok s' \<and> regs s' = set_range (regs s) r bs"
    and select: "dev_ok s \<Longrightarrow> r < nregs \<Longrightarrow>
      \<exists>s'. nk_i2c_write_nostop dev (offset_bytes wide r) s = (0, s') \<and> dev_ok s' \<and> regs s' = regs s \<and> pointer s' = r"
    and fetch: "dev_ok s \<Longrightarrow> pointer s + unat n \<le> nregs \<Longrightarrow>
      \<exists>s'. nk_i2c_read dev n s = (0, range_of (regs s) (pointer s) (unat n), s') \<and> dev_ok s' \<and> regs s' = regs s"
begin

lemma put_then_get:
  assumes "dev_ok s" "bs \<noteq> []" "r + length bs \<le> nregs"
  obtains s1 s2 where "nk_i2c_write dev (offset_bytes wide r @ bs) s = (0, s1)" "regs s1 = set_range (regs s) r bs" "regs s2 = regs s1"
    "\<And>n buf. unat n = length bs \<Longrightarrow> length buf = length bs \<Longrightarrow> get_bytes dev (offset_bytes wide r) n buf s1 = Some (0, Some bs, s2)"
proof -
  obtain s1 where s1: "nk_i2c_write dev (offset_bytes wide r @ bs) s = (0, s1)" "dev_ok s1" "regs s1 = set_range (regs s) r bs"
    using store [OF assms] by blast
  obtain s' where s': "nk_i2c_write_nostop dev (offset_bytes wide r) s1 = (0, s')" "dev_ok s'" "regs s' = regs s1" "pointer s' = r"
    using select [OF s1(2), of r] assms(2,3) by (cases bs) auto
  have len: "unat (word_of_nat (length bs) :: u32) = length bs"
    using assms(3) nregs by (intro unat_of_nat_u32) (auto split: if_splits)
  obtain s2 where s2: "nk_i2c_read dev (word_of_nat (length bs)) s' = (0, bs, s2)" "regs s2 = regs s1"
    using fetch [OF s'(2), of "word_of_nat (length bs)"] assms(3) s'(3,4) s1(3) len by auto
  have "get_bytes dev (offset_bytes wide r) n buf s1 = Some (0, Some bs, s2)" if "unat n = length bs" "length buf = length bs" for n buf
  proof -
    have "n = word_of_nat (length bs)" using that(1) len by (simp add: word_unat_eq_iff)
    then show ?thesis using s'(1) s2(1) that(2) by (simp add: get_bytes_def store_at_def)
  qed
  then show ?thesis using that s1(1,3) s2(2) by blast
qed

end

lemma joined16: "push_bit 8 (ucast (ucast (drop_bit 8 (d :: u16)) :: u8)) + ucast (ucast d :: u8) = d"
proof (subst disjunctive_add)
  show "\<not> bit (push_bit 8 (ucast (ucast (drop_bit 8 d) :: u8)) :: u16) n \<or> \<not> bit (ucast (ucast d :: u8) :: u16) n" for n
    by (auto simp: bit_simps)
  show "push_bit 8 (ucast (ucast (drop_bit 8 d) :: u8)) OR ucast (ucast d :: u8) = d"
    by (rule bit_word_eqI) (auto simp: bit_simps)
qed

lemma joined24: "push_bit 16 (ucast (ucast (drop_bit 16 (d :: u32)) :: u8)) + push_bit 8 (ucast (ucast (drop_bit 8 d) :: u8)) + ucast (ucast d :: u8) = take_bit 24 d"
proof -
  have 1: "push_bit 16 (ucast (ucast (drop_bit 16 d) :: u8)) + push_bit 8 (ucast (ucast (drop_bit 8 d) :: u8))
      = (push_bit 16 (ucast (ucast (drop_bit 16 d) :: u8)) OR push_bit 8 (ucast (ucast (drop_bit 8 d) :: u8)) :: u32)"
    by (rule disjunctive_add) (auto simp: bit_simps)
  have 2: "(push_bit 16 (ucast (ucast (drop_bit 16 d) :: u8)) OR push_bit 8 (ucast (ucast (drop_bit 8 d) :: u8)) :: u32) + ucast (ucast d :: u8)
      = push_bit 16 (ucast (ucast (drop_bit 16 d) :: u8)) OR push_bit 8 (ucast (ucast (drop_bit 8 d) :: u8)) OR ucast (ucast d :: u8)"
    by (subst disjunctive_add) (auto simp: bit_simps or.assoc)
  show ?thesis unfolding 1 2
  proof (rule bit_word_eqI)
    fix n
    show "bit (push_bit 16 (ucast (ucast (drop_bit 16 d) :: u8)) OR push_bit 8 (ucast (ucast (drop_bit 8 d) :: u8)) OR ucast (ucast d :: u8) :: u32) n = bit (take_bit 24 d) n"
      by (cases "n < 16") (auto simp: bit_simps)
  qed
qed

section \<open>A memory of registers\<close>

text \<open>A device whose offsets are one byte or two, and its pointer.\<close>

definition mem_offset :: "bool \<Rightarrow> bytes \<Rightarrow> nat" where
  "mem_offset wide bs = (if wide then 256 * unat (bs ! 0) + unat (bs ! 1) else unat (bs ! 0))"

definition register_mem :: "bool \<Rightarrow> ((nat \<Rightarrow> u8) \<times> nat) nk_i2c_device" where
  "register_mem wide = (let k = (if wide then 2 else 1) in \<lparr>i2c_bus = \<lparr>
     bus_write = (\<lambda>_ bs (m, p). (0, set_range m (mem_offset wide bs) (drop k bs), p)),
     bus_write_nostop = (\<lambda>_ bs (m, p). (0, m, mem_offset wide bs)),
     bus_read = (\<lambda>_ n (m, p). (0, range_of m p (unat n), m, p)),
     bus_ping = (\<lambda>_ s. (0, s))\<rparr>, i2c_addr = 0x50\<rparr>)"

lemma mem_offset_bytes: "r < (if wide then 65536 else 256) \<Longrightarrow> mem_offset wide (offset_bytes wide r @ bs) = r"
proof (cases wide)
  case True
  assume "r < (if wide then 65536 else 256)"
  then have r: "r < 65536" using True by simp
  then have u: "unat (word_of_nat r :: u16) = r" by (simp add: unsigned_of_nat take_bit_eq_mod)
  have "unat (ucast (drop_bit 8 (word_of_nat r :: u16)) :: u8) = r div 256"
    using r by (simp add: unsigned_ucast_eq drop_bit_eq_div unat_div_distrib u take_bit_eq_mod)
  moreover have "unat (ucast (word_of_nat r :: u16) :: u8) = r mod 256" by (simp add: unsigned_ucast_eq u take_bit_eq_mod)
  ultimately show ?thesis using True by (simp add: mem_offset_def offset_bytes_def ofst2_def)
next
  case False
  assume "r < (if wide then 65536 else 256)"
  then show ?thesis using False by (simp add: mem_offset_def offset_bytes_def unsigned_of_nat take_bit_eq_mod)
qed

lemma register_mem_device: "i2c_registers (register_mem wide) wide fst snd (\<lambda>_. True) (if wide then 65536 else 256)"
proof
  fix s :: "(nat \<Rightarrow> u8) \<times> nat" and bs r and n :: u32
  have l: "length (offset_bytes wide r) = (if wide then 2 else 1)" by (simp add: offset_bytes_def ofst2_def)
  show "\<exists>s'. nk_i2c_write (register_mem wide) (offset_bytes wide r @ bs) s = (0, s') \<and> True \<and> fst s' = set_range (fst s) r bs"
    if "bs \<noteq> []" "r + length bs \<le> (if wide then 65536 else 256)"
    using that l by (cases s; cases bs; cases wide) (auto simp: nk_i2c_write_def register_mem_def mem_offset_bytes)
  show "\<exists>s'. nk_i2c_write_nostop (register_mem wide) (offset_bytes wide r) s = (0, s') \<and> True \<and> fst s' = fst s \<and> snd s' = r"
    if "r < (if wide then 65536 else 256)"
    using mem_offset_bytes [OF that, of "[]"] by (cases s) (auto simp: nk_i2c_write_nostop_def register_mem_def)
  show "\<exists>s'. nk_i2c_read (register_mem wide) n s = (0, range_of (fst s) (snd s) (unat n), s') \<and> True \<and> fst s' = fst s"
    if "snd s + unat n \<le> (if wide then 65536 else 256)"
    by (cases s) (auto simp: nk_i2c_read_def register_mem_def)
qed simp

interpretation narrow_mem: i2c_registers "register_mem False" False fst snd "\<lambda>_. True" 256
  using register_mem_device [of False] by simp

interpretation wide_mem: i2c_registers "register_mem True" True fst snd "\<lambda>_. True" 65536
  using register_mem_device [of True] by simp

section \<open>Properties\<close>



text \<open>C31. On this board the status of the I2C functions is the wrong way round. The functions of the SDK return the number of bytes they have
  transferred, and \<open>nk_hal_i2c_write\<close> and \<open>nk_hal_i2c_write_nostop\<close> hand that on, but everything built on them takes a status other than 0
  for an error. On a device that acknowledges every transfer, every put returns the number of bytes it has sent, and every get gives up
  after sending the offset: it returns the length of the offset, reads nothing and leaves the variable alone.\<close>
theorem pico_i2c_success_is_error:
  fixes hw :: "'s i2c_hw"
  assumes acknowledged: "\<And>bs nostop s. fst (i2c_write_blocking hw a bs nostop s) = int (length bs)"
  defines "dev \<equiv> \<lparr>i2c_bus = ard_i2c_bus hw, i2c_addr = a\<rparr>"
  shows "fst (nk_i2c_put_byte dev r b s) = 2 \<and> fst (nk_i2c_put_leshort dev r w s) = 3 \<and> fst (nk_i2c_put_beshort dev r w s) = 3
    \<and> fst (nk_i2c_put2_byte dev q b s) = 3 \<and> fst (nk_i2c_put2_leshort dev q w s) = 4 \<and> fst (nk_i2c_put2_beshort dev q w s) = 4
    \<and> fst (nk_i2c_put2_le24 dev q v s) = 5 \<and> fst (nk_i2c_put2_melong dev q v s) = 6
    \<and> (let s' = snd (i2c_write_blocking hw a [r] True s) in nk_i2c_get_byte dev r b s = Some (1, b, s')
        \<and> nk_i2c_get_leshort dev junk r w s = Some (1, w, s') \<and> nk_i2c_get_beshort dev junk r w s = Some (1, w, s'))
    \<and> (let s' = snd (i2c_write_blocking hw a (ofst2 q) True s) in nk_i2c_get2_byte dev q b s = Some (2, b, s')
        \<and> nk_i2c_get2_leshort dev q w s = Some (2, w, s') \<and> nk_i2c_get2_beshort dev q w s = Some (2, w, s')
        \<and> nk_i2c_get2_le24 dev junk q v s = Some (2, v, s'))"
proof -
  have w: "nk_i2c_write dev bs s = (int (length bs), snd (i2c_write_blocking hw a bs False s))"
    and ns: "nk_i2c_write_nostop dev bs s = (int (length bs), snd (i2c_write_blocking hw a bs True s))" for bs
    using acknowledged [of bs False s] acknowledged [of bs True s]
    by (simp_all add: dev_def nk_i2c_write_def nk_i2c_write_nostop_def ard_i2c_bus_def nk_hal_i2c_write_def nk_hal_i2c_write_nostop_def prod_eq_iff)
  have get: "get_bytes dev [r] n buf s = Some (1, None, snd (i2c_write_blocking hw a [r] True s))"
    "get_bytes dev (ofst2 q) n buf s = Some (2, None, snd (i2c_write_blocking hw a (ofst2 q) True s))" for n buf
    by (simp_all add: get_bytes_def ns ofst2_def)
  show ?thesis
    by (simp add: get w Let_def ofst2_def nk_i2c_put_byte_def nk_i2c_put_leshort_def nk_i2c_put_beshort_def nk_i2c_put2_byte_def nk_i2c_put2_leshort_def
        nk_i2c_put2_beshort_def nk_i2c_put2_le24_def nk_i2c_put2_melong_def) (simp add: get [unfolded ofst2_def] nk_i2c_get_byte_def nk_i2c_get_leshort_def nk_i2c_get_beshort_def
        nk_i2c_get2_byte_def nk_i2c_get2_leshort_def nk_i2c_get2_beshort_def nk_i2c_get2_le24_def ofst2_def)
qed

theorem pico_i2c_success_is_error_witness:
  "let hw = \<lparr>i2c_write_blocking = (\<lambda>a bs nostop s. (int (length bs), s @ [bs])), i2c_read_blocking = (\<lambda>a n nostop s. (int (unat n), replicate (unat n) 7, s))\<rparr>;
       dev = \<lparr>i2c_bus = ard_i2c_bus hw, i2c_addr = 0x50\<rparr>
   in fst (nk_i2c_put_byte dev 3 9 []) = 2 \<and> nk_i2c_get_byte dev 3 0 [] = Some (1, 0, [[3]])"
  using pico_i2c_success_is_error [of "\<lparr>i2c_write_blocking = (\<lambda>a bs nostop s. (int (length bs), s @ [bs])),
      i2c_read_blocking = (\<lambda>a n nostop s. (int (unat n), replicate (unat n) 7, s))\<rparr>" "0x50" 3 9 "[]"]
    pico_i2c_success_is_error [of "\<lparr>i2c_write_blocking = (\<lambda>a bs nostop s. (int (length bs), s @ [bs])),
      i2c_read_blocking = (\<lambda>a n nostop s. (int (unat n), replicate (unat n) 7, s))\<rparr>" "0x50" 3 0 "[]"]
  by (simp add: Let_def)

end
