(* ===== verification/Serialize.thy ===== *)
theory Serialize
  imports Scan
begin

unbundle bit_operations_syntax

text \<open>
  Objects in memory as text, \<^verbatim>\<open>libnklabs/src/nkserialize.c\<close>, as this repository configures it
  (\<^verbatim>\<open>config/nkserialize_config.h\<close>): a schema, \<open>struct type\<close>, says how the bytes at a location are to be read as a
  number, a string, a structure, an array or a table. \<open>nk_dbase_serialize\<close> writes an object on one line,
  \<open>nk_dbase_fprint\<close> prints it for people, and \<open>nk_fscan_keyval\<close> parses a value and stores it. Memory is a
  list of bytes and a pointer an index in it; an access outside of it has no value.
  The last part says what value an object has (\<open>value_of\<close>) and how a value is written (\<open>dval_text\<close>), and shows that the code writes
  the text of the value.
\<close>

section \<open>Schemas\<close>

datatype what = tBOOL | tINT | tUINT | tINT8 | tUINT8 | tINT16 | tUINT16 | tDOUBLE | tFLOAT | tSTRING | tSTRUCT | tARRAY | tVARRAY | tTABLE

datatype ty = Ty (ty_what: what) (ty_size: nat) (ty_members: "member list") (ty_subtype: "ty option") (ty_check: "(bytes \<Rightarrow> nat \<Rightarrow> int) option")
  and member = Member (m_name: bytes) (m_type: ty) (m_offset: nat) (m_triggers: u32)

text \<open>\<open>sizeof(union len)\<close>\<close>

definition LEN_SIZE :: nat where
  "LEN_SIZE = 8"

definition NKDBASE_MAXCOLS :: nat where "NKDBASE_MAXCOLS = 20"
definition NKDBASE_MAXIDENTLEN :: u32 where "NKDBASE_MAXIDENTLEN = 80"

definition tyINT :: ty where "tyINT = Ty tINT 4 [] None None"
definition tyUINT :: ty where "tyUINT = Ty tUINT 4 [] None None"
definition tyINT8 :: ty where "tyINT8 = Ty tINT8 1 [] None None"
definition tyUINT8 :: ty where "tyUINT8 = Ty tUINT8 1 [] None None"
definition tyINT16 :: ty where "tyINT16 = Ty tINT16 2 [] None None"
definition tyUINT16 :: ty where "tyUINT16 = Ty tUINT16 2 [] None None"
definition tyBOOL :: ty where "tyBOOL = Ty tBOOL 4 [] None None"
definition tyDOUBLE :: ty where "tyDOUBLE = Ty tDOUBLE 8 [] None None"
definition tyFLOAT :: ty where "tyFLOAT = Ty tFLOAT 4 [] None None"

section \<open>Objects in memory\<close>

definition load_int :: "bytes \<Rightarrow> nat \<Rightarrow> u32 option" where
  "load_int ram loc = map_option le_value (load_from ram loc 4)"

definition load_short :: "bytes \<Rightarrow> nat \<Rightarrow> u16 option" where
  "load_short ram loc = map_option le_value (load_from ram loc 2)"

text \<open>The number of elements \<open>((union len *)location)->len\<close> and the quotient \<open>type->size / type->subtype->size\<close>.\<close>

definition load_len :: "bytes \<Rightarrow> nat \<Rightarrow> nat option" where
  "load_len ram loc = map_option unat (load_int ram loc)"

definition capacity :: "nat \<Rightarrow> nat \<Rightarrow> nat option" where
  "capacity sz item = (if item = 0 then None else Some (sz div item))"

section \<open>Serializing\<close>

text \<open>\<open>status |= f(...)\<close>\<close>

definition also_call :: "('s nkoutfile \<Rightarrow> (int \<times> 's nkoutfile) option) \<Rightarrow> 's out \<Rightarrow> 's out option" where
  "also_call g out = do { (rtn, f) \<leftarrow> g (snd out); Some (fst out OR rtn, f) }"

text \<open>The characters of a string up to its NUL.\<close>

fun print_chars :: "bytes \<Rightarrow> 's out \<Rightarrow> 's out option" where
  "print_chars [] out = None"
| "print_chars (c # s) out =
     (if c = 0 then Some out
      else do {
        out \<leftarrow> (if c = of_char (CHR 0x22) then also_print [CHR 0x5C, CHR 0x22] [] out
          else if c = of_char (CHR 0x5C) then also_print [CHR 0x5C, CHR 0x5C] [] out
          else if c = 10 then also_print [CHR 0x5C, CHR ''n''] [] out
          else if c = 13 then also_print [CHR 0x5C, CHR ''r''] [] out
          else if c < 32 \<or> c > 126 then also_print (CHR 0x5C # ''x%2.2x'') [VInt (ucast c)] out
          else put (uint c) out);
        print_chars s out
      })"

text \<open>\<open>count\<close> elements of \<open>sz\<close> bytes each, a comma between them.\<close>

fun serialize_items :: "nat \<Rightarrow> nat \<Rightarrow> (nat \<Rightarrow> 's out \<Rightarrow> 's out option) \<Rightarrow> nat \<Rightarrow> 's out \<Rightarrow> 's out option" where
  "serialize_items 0 sz item loc out = Some out"
| "serialize_items (Suc count) sz item loc out = do {
     out \<leftarrow> item loc out;
     out \<leftarrow> (if count \<noteq> 0 then also_print '', '' [] out else Some out);
     serialize_items count sz item (loc + sz) out
   }"

fun serialize_rows :: "nat \<Rightarrow> nat \<Rightarrow> (nat \<Rightarrow> 's out \<Rightarrow> 's out option) \<Rightarrow> nat \<Rightarrow> 's out \<Rightarrow> 's out option" where
  "serialize_rows 0 sz row loc out = Some out"
| "serialize_rows (Suc count) sz row loc out = do {
     out \<leftarrow> put (ch (CHR '':'')) out;
     out \<leftarrow> row loc out;
     serialize_rows count sz row (loc + sz) out
   }"

fun serialize_header :: "member list \<Rightarrow> 's out \<Rightarrow> 's out option" where
  "serialize_header [] out = Some out"
| "serialize_header (m # ms) out = do { out \<leftarrow> also_print ''%s '' [VStr (m_name m)] out; serialize_header ms out }"

text \<open>The types without parts. The argument of \<open>%g\<close> is not taken: without floating point the directive prints its letter.\<close>

definition serialize_scalar :: "what \<Rightarrow> bytes \<Rightarrow> nat \<Rightarrow> 's out \<Rightarrow> 's out option" where
  "serialize_scalar w ram loc out =
     (case w of
        tBOOL \<Rightarrow> do { v \<leftarrow> load_int ram loc; also_print (if v \<noteq> 0 then ''true'' else ''false'') [] out }
      | tINT \<Rightarrow> do { v \<leftarrow> load_int ram loc; also_print ''%d'' [VInt v] out }
      | tUINT \<Rightarrow> do { v \<leftarrow> load_int ram loc; also_print ''%u'' [VInt v] out }
      | tINT8 \<Rightarrow> do { v \<leftarrow> deref ram loc; also_print ''%d'' [VInt (ucast v)] out }
      | tUINT8 \<Rightarrow> do { v \<leftarrow> deref ram loc; also_print ''%u'' [VInt (ucast v)] out }
      | tINT16 \<Rightarrow> do { v \<leftarrow> load_short ram loc; also_print ''%d'' [VInt (scast v)] out }
      | tUINT16 \<Rightarrow> do { v \<leftarrow> load_short ram loc; also_print ''%u'' [VInt (ucast v)] out }
      | tDOUBLE \<Rightarrow> do { v \<leftarrow> load_from ram loc 8; also_print ''%g'' [] out }
      | tFLOAT \<Rightarrow> do { v \<leftarrow> load_from ram loc 4; also_print ''%g'' [] out }
      | tSTRING \<Rightarrow> do {
          out \<leftarrow> put (ch (CHR 0x22)) out;
          out \<leftarrow> print_chars (drop loc ram) out;
          put (ch (CHR 0x22)) out
        }
      | _ \<Rightarrow> None)"

function (sequential) nk_dbase_serialize :: "ty \<Rightarrow> bytes \<Rightarrow> nat \<Rightarrow> 's nkoutfile \<Rightarrow> (int \<times> 's nkoutfile) option"
  and serialize_members :: "member list \<Rightarrow> bytes \<Rightarrow> nat \<Rightarrow> 's out \<Rightarrow> 's out option"
  and serialize_row :: "member list \<Rightarrow> bytes \<Rightarrow> nat \<Rightarrow> 's out \<Rightarrow> 's out option" where
  "nk_dbase_serialize (Ty w sz ms subtype check) ram loc f =
     (let out = (0, f) in
      case w of
        tSTRUCT \<Rightarrow> do {
          out \<leftarrow> put (ch (CHR ''{'')) out;
          out \<leftarrow> serialize_members ms ram loc out;
          put (ch (CHR ''}'')) out
        }
      | tVARRAY \<Rightarrow> (case subtype of None \<Rightarrow> None | Some st \<Rightarrow> do {
          out \<leftarrow> put (ch (CHR ''['')) out;
          count \<leftarrow> load_len ram loc;
          out \<leftarrow> serialize_items count (ty_size st) (\<lambda>l. also_call (nk_dbase_serialize st ram l)) (loc + LEN_SIZE) out;
          put (ch (CHR '']'')) out
        })
      | tARRAY \<Rightarrow> (case subtype of None \<Rightarrow> None | Some st \<Rightarrow> do {
          out \<leftarrow> put (ch (CHR ''['')) out;
          count \<leftarrow> capacity sz (ty_size st);
          out \<leftarrow> serialize_items count (ty_size st) (\<lambda>l. also_call (nk_dbase_serialize st ram l)) loc out;
          put (ch (CHR '']'')) out
        })
      | tTABLE \<Rightarrow> (case subtype of None \<Rightarrow> None | Some (Ty sw ssize sms ssub scheck) \<Rightarrow> do {
          out \<leftarrow> put (ch (CHR ''('')) out;
          count \<leftarrow> load_len ram loc;
          out \<leftarrow> serialize_header sms out;
          out \<leftarrow> serialize_rows count ssize (\<lambda>l. serialize_row sms ram l) (loc + LEN_SIZE) out;
          put (ch (CHR '')'')) out
        })
      | _ \<Rightarrow> serialize_scalar w ram loc out)"
| "serialize_members [] ram loc out = Some out"
| "serialize_members (Member name t offset triggers # ms) ram loc out = do {
     out \<leftarrow> also_print ''%s:'' [VStr name] out;
     out \<leftarrow> also_call (nk_dbase_serialize t ram (loc + offset)) out;
     out \<leftarrow> (if ms \<noteq> [] then also_print '', '' [] out else Some out);
     serialize_members ms ram loc out
   }"
| "serialize_row [] ram loc out = Some out"
| "serialize_row (Member name t offset triggers # ms) ram loc out = do {
     out \<leftarrow> also_call (nk_dbase_serialize t ram (loc + offset)) out;
     out \<leftarrow> (if ms \<noteq> [] then put (ch (CHR '' '')) out else Some out);
     serialize_row ms ram loc out
   }"
  by pat_completeness auto
termination
  by (relation "measure (case_sum (\<lambda>(t, _). size t) (case_sum (\<lambda>(ms, _). size_list size ms) (\<lambda>(ms, _). size_list size ms)))") simp_all

section \<open>Printing for people\<close>

text \<open>The loop \<open>for (x = 0; sbuf[x]; ++x) if (sbuf[x] == '.' || sbuf[x] == 'e') break\<close>, and the decimal point it adds.\<close>

fun add_point :: "bytes \<Rightarrow> nat \<Rightarrow> nat \<Rightarrow> bytes option" where
  "add_point sbuf x 0 = None"
| "add_point sbuf x (Suc fuel) = do {
     c \<leftarrow> deref sbuf x;
     if c = 0 then store_at sbuf x [of_char (CHR ''.''), of_char (CHR ''0''), 0]
     else if c = of_char (CHR ''.'') \<or> c = of_char (CHR ''e'') then Some sbuf
     else add_point sbuf (x + 1) fuel
   }"

text \<open>A string as a value: the bytes before its NUL.\<close>

definition cstr :: "bytes \<Rightarrow> bytes" where
  "cstr s = takeWhile (\<lambda>c. c \<noteq> 0) s"

definition fprint_float :: "string \<Rightarrow> 's out \<Rightarrow> 's out option" where
  "fprint_float ed out = do {
     (_, sbuf) \<leftarrow> nk_snprintf (replicate 32 0) 32 ''%g'' [];
     sbuf \<leftarrow> add_point sbuf 0 (length sbuf);
     also_print ''%s%s'' [VStr (cstr sbuf), VStr (map of_char ed)] out
   }"

fun fprint_items :: "nat \<Rightarrow> nat \<Rightarrow> int \<Rightarrow> (nat \<Rightarrow> string \<Rightarrow> 's out \<Rightarrow> 's out option) \<Rightarrow> nat \<Rightarrow> 's out \<Rightarrow> 's out option" where
  "fprint_items 0 sz ind item loc out = Some out"
| "fprint_items (Suc count) sz ind item loc out = do {
     out \<leftarrow> also_call (\<lambda>f. nk_findent f (ind + 2)) out;
     out \<leftarrow> item loc (if count = 0 then [CHR 0x0A] else [CHR '','', CHR 0x0A]) out;
     fprint_items count sz ind item (loc + sz) out
   }"

fun fprint_header :: "member list \<Rightarrow> 's out \<Rightarrow> 's out option" where
  "fprint_header [] out = Some out"
| "fprint_header (m # ms) out = do { out \<leftarrow> also_print (CHR 0x09 # ''%s'') [VStr (m_name m)] out; fprint_header ms out }"

fun fprint_rows :: "nat \<Rightarrow> nat \<Rightarrow> int \<Rightarrow> (nat \<Rightarrow> 's out \<Rightarrow> 's out option) \<Rightarrow> nat \<Rightarrow> 's out \<Rightarrow> 's out option" where
  "fprint_rows 0 sz ind row loc out = Some out"
| "fprint_rows (Suc count) sz ind row loc out = do {
     out \<leftarrow> also_call (\<lambda>f. nk_findent f ind) out;
     out \<leftarrow> also_print '':'' [] out;
     out \<leftarrow> row loc out;
     out \<leftarrow> also_print [CHR 0x0A] [] out;
     fprint_rows count sz ind row (loc + sz) out
   }"

definition fprint_scalar :: "what \<Rightarrow> bytes \<Rightarrow> nat \<Rightarrow> string \<Rightarrow> 's out \<Rightarrow> 's out option" where
  "fprint_scalar w ram loc ed out =
     (let e = VStr (map of_char ed) in
      case w of
        tDOUBLE \<Rightarrow> do { v \<leftarrow> load_from ram loc 8; fprint_float ed out }
      | tFLOAT \<Rightarrow> do { v \<leftarrow> load_from ram loc 4; fprint_float ed out }
      | tINT \<Rightarrow> do { v \<leftarrow> load_int ram loc; also_print ''%d%s'' [VInt v, e] out }
      | tUINT \<Rightarrow> do { v \<leftarrow> load_int ram loc; also_print ''%u%s'' [VInt v, e] out }
      | tINT8 \<Rightarrow> do { v \<leftarrow> deref ram loc; also_print ''%d%s'' [VInt (ucast v), e] out }
      | tUINT8 \<Rightarrow> do { v \<leftarrow> deref ram loc; also_print ''%u%s'' [VInt (ucast v), e] out }
      | tINT16 \<Rightarrow> do { v \<leftarrow> load_short ram loc; also_print ''%d%s'' [VInt (scast v), e] out }
      | tUINT16 \<Rightarrow> do { v \<leftarrow> load_short ram loc; also_print ''%u%s'' [VInt (ucast v), e] out }
      | tBOOL \<Rightarrow> do { v \<leftarrow> load_int ram loc; also_print (if v \<noteq> 0 then ''true%s'' else ''false%s'') [e] out }
      | tSTRING \<Rightarrow> do {
          out \<leftarrow> put (ch (CHR 0x22)) out;
          out \<leftarrow> print_chars (drop loc ram) out;
          also_print (CHR 0x22 # ''%s'') [e] out
        }
      | _ \<Rightarrow> None)"

text \<open>The loop over the members of a structure prints a member when it comes to the one after it, with a comma, and the last one after the loop.\<close>

function (sequential) nk_dbase_fprint :: "ty \<Rightarrow> bytes \<Rightarrow> nat \<Rightarrow> int \<Rightarrow> string \<Rightarrow> 's nkoutfile \<Rightarrow> (int \<times> 's nkoutfile) option"
  and fprint_members :: "member list \<Rightarrow> bytes \<Rightarrow> nat \<Rightarrow> int \<Rightarrow> 's out \<Rightarrow> 's out option"
  and fprint_row :: "member list \<Rightarrow> bytes \<Rightarrow> nat \<Rightarrow> 's out \<Rightarrow> 's out option" where
  "nk_dbase_fprint (Ty w sz ms subtype check) ram loc ind ed f =
     (let out = (0, f); e = VStr (map of_char ed) in
      case w of
        tSTRUCT \<Rightarrow> do {
          out \<leftarrow> also_print [CHR ''{'', CHR 0x0A] [] out;
          out \<leftarrow> fprint_members ms ram loc ind out;
          out \<leftarrow> also_call (\<lambda>f. nk_findent f ind) out;
          also_print ''}%s'' [e] out
        }
      | tTABLE \<Rightarrow> (case subtype of None \<Rightarrow> None | Some (Ty sw ssize sms ssub scheck) \<Rightarrow> do {
          nrows \<leftarrow> load_len ram loc;
          out \<leftarrow> put (ch (CHR ''('')) out;
          out \<leftarrow> fprint_header sms out;
          out \<leftarrow> also_print [CHR 0x0A] [] out;
          out \<leftarrow> fprint_rows nrows ssize ind (\<lambda>l. fprint_row sms ram l) (loc + LEN_SIZE) out;
          out \<leftarrow> also_call (\<lambda>f. nk_findent f ind) out;
          also_print '')%s'' [e] out
        })
      | tVARRAY \<Rightarrow> (case subtype of None \<Rightarrow> None | Some st \<Rightarrow> do {
          len \<leftarrow> load_len ram loc;
          out \<leftarrow> also_print [CHR ''['', CHR 0x0A] [] out;
          out \<leftarrow> fprint_items len (ty_size st) ind (\<lambda>l ed. also_call (nk_dbase_fprint st ram l (ind + 2) ed)) (loc + LEN_SIZE) out;
          out \<leftarrow> also_call (\<lambda>f. nk_findent f ind) out;
          also_print '']%s'' [e] out
        })
      | tARRAY \<Rightarrow> (case subtype of None \<Rightarrow> None | Some st \<Rightarrow> do {
          len \<leftarrow> capacity sz (ty_size st);
          out \<leftarrow> also_print [CHR ''['', CHR 0x0A] [] out;
          out \<leftarrow> fprint_items len (ty_size st) ind (\<lambda>l ed. also_call (nk_dbase_fprint st ram l (ind + 2) ed)) loc out;
          out \<leftarrow> also_call (\<lambda>f. nk_findent f ind) out;
          also_print '']%s'' [e] out
        })
      | _ \<Rightarrow> fprint_scalar w ram loc ed out)"
| "fprint_members [] ram loc ind out = Some out"
| "fprint_members (Member name t offset triggers # ms) ram loc ind out = do {
     let ed = (if ms = [] then [CHR 0x0A] else [CHR '','', CHR 0x0A]);
     out \<leftarrow> also_call (\<lambda>f. nk_findent f (ind + 2)) out;
     out \<leftarrow> (if ty_what t = tTABLE then do {
         out \<leftarrow> also_print (''%s:'' @ [CHR 0x0A]) [VStr name] out;
         out \<leftarrow> also_call (\<lambda>f. nk_findent f (ind + 4)) out;
         also_call (nk_dbase_fprint t ram (loc + offset) (ind + 4) ed) out
       }
       else do {
         out \<leftarrow> also_print ''%s: '' [VStr name] out;
         also_call (nk_dbase_fprint t ram (loc + offset) (ind + 2) ed) out
       });
     fprint_members ms ram loc ind out
   }"
| "fprint_row [] ram loc out = Some out"
| "fprint_row (Member name t offset triggers # ms) ram loc out = do {
     out \<leftarrow> put 9 out;
     out \<leftarrow> also_call (nk_dbase_fprint t ram (loc + offset) 0 '''') out;
     fprint_row ms ram loc out
   }"
  by pat_completeness auto
termination
  by (relation "measure (case_sum (\<lambda>(t, _). size t) (case_sum (\<lambda>(ms, _). size_list size ms) (\<lambda>(ms, _). size_list size ms)))") simp_all

section \<open>Loops\<close>

text \<open>A loop whose body leaves it with a value or goes round again with another state. Its body may call the function it stands in.\<close>

partial_function (option) loop :: "('a \<Rightarrow> ('a + 'b) option) \<Rightarrow> 'a \<Rightarrow> 'b option" where
  "loop body x = do { r \<leftarrow> body x; (case r of Inl x \<Rightarrow> loop body x | Inr y \<Rightarrow> Some y) }"

lemma loop_less:
  assumes less: "\<And>x y. b x = Some y \<Longrightarrow> c x = Some y" and s: "loop b x = Some y"
  shows "loop c x = Some y"
proof -
  have "(\<lambda>(b, x) y. (\<forall>x y. b x = Some y \<longrightarrow> c x = Some y) \<longrightarrow> loop c x = Some y) (b, x) y"
  proof (rule loop.raw_induct [where P = "\<lambda>b x y. (\<forall>x y. b x = Some y \<longrightarrow> c x = Some y) \<longrightarrow> loop c x = Some y"])
    show "(\<forall>x y. b x = Some y \<longrightarrow> c x = Some y) \<longrightarrow> loop c x = Some y"
      if ih: "\<And>b x y. lp b x = Some y \<Longrightarrow> (\<forall>x y. b x = Some y \<longrightarrow> c x = Some y) \<longrightarrow> loop c x = Some y"
        and s: "do { r \<leftarrow> b x; (case r of Inl x \<Rightarrow> lp b x | Inr y \<Rightarrow> Some y) } = Some y" for lp b x y
    proof
      assume bc: "\<forall>x y. b x = Some y \<longrightarrow> c x = Some y"
      obtain r where r: "b x = Some r" "(case r of Inl x \<Rightarrow> lp b x | Inr y \<Rightarrow> Some y) = Some y"
        using s by (auto simp: Option.bind_eq_Some_conv)
      have "c x = Some r" using r(1) bc by blast
      then show "loop c x = Some y" using r(2) ih [of b] bc by (subst loop.simps) (auto split: sum.splits)
    qed
  qed (use s in simp)
  then show ?thesis using less by blast
qed

lemma loop_mono [partial_function_mono]:
  fixes body :: "('p \<Rightarrow> 'q option) \<Rightarrow> 'a \<Rightarrow> ('a + 'b) option"
  assumes "\<And>x. monotone (fun_ord option_ord) option_ord (\<lambda>f. body f x)"
  shows "monotone (fun_ord option_ord) option_ord (\<lambda>f. loop (body f) x)"
proof (rule monotoneI)
  fix f g :: "'p \<Rightarrow> 'q option" assume fg: "fun_ord option_ord f g"
  have "body f y = Some r \<Longrightarrow> body g y = Some r" for y r
    using assms [of y] fg unfolding monotone_def flat_ord_def by (metis option.distinct(1))
  then have "loop (body f) x = Some r \<Longrightarrow> loop (body g) x = Some r" for r by (rule loop_less)
  then show "option_ord (loop (body f) x) (loop (body g) x)"
    by (cases "loop (body f) x") (auto simp: flat_ord_def)
qed

section \<open>Values that are skipped and numbers\<close>

text \<open>A scan without arguments, and one for a name, whose buffer is \<open>keyval_buf\<close>; what the buffer holds
  before the scan is not looked at.\<close>

definition no_key :: "'s nkinfile \<Rightarrow> unit \<Rightarrow> (bool \<times> unit \<times> 's nkinfile) option" where
  "no_key f k = None"

definition scan_fmt :: "'s nkinfile \<Rightarrow> string \<Rightarrow> (bool \<times> 's nkinfile) option" where
  "scan_fmt f fmt = do { (ok, _, f) \<leftarrow> nk_fscan no_key f fmt []; Some (ok, f) }"

fun dest_string :: "unit dest list \<Rightarrow> bytes option" where
  "dest_string [PStr buf sz] = Some (cstr buf)"
| "dest_string _ = None"

definition scan_name :: "'s nkinfile \<Rightarrow> string \<Rightarrow> (bool \<times> bytes \<times> 's nkinfile) option" where
  "scan_name f fmt = do {
     (ok, ap, f) \<leftarrow> nk_fscan no_key f fmt [PStr (replicate (unat NKDBASE_MAXIDENTLEN) 0) NKDBASE_MAXIDENTLEN];
     name \<leftarrow> dest_string ap;
     Some (ok, name, f)
   }"

text \<open>The tests of what comes next, \<open>c == '0' && nk_fpeek_rel(f, 1) == 'x'\<close> and so on. Looking ahead may load another block.\<close>

definition ahead :: "bool \<Rightarrow> u32 \<Rightarrow> (int \<Rightarrow> bool) \<Rightarrow> 's nkinfile \<Rightarrow> (bool \<times> 's nkinfile) option" where
  "ahead so_far n p f = (if so_far then do { (d, f) \<leftarrow> nk_fpeek_rel f n; Some (p d, f) } else Some (False, f))"

definition hex_ahead :: "int \<Rightarrow> 's nkinfile \<Rightarrow> (bool \<times> 's nkinfile) option" where
  "hex_ahead c f = ahead (c = chr (CHR ''0'')) 1 (\<lambda>d. d = chr (CHR ''x'')) f"

definition neg_hex_ahead :: "int \<Rightarrow> 's nkinfile \<Rightarrow> (bool \<times> 's nkinfile) option" where
  "neg_hex_ahead c f = do {
     (t, f) \<leftarrow> ahead (c = chr (CHR ''-'')) 1 (\<lambda>d. d = chr (CHR ''0'')) f;
     ahead t 2 (\<lambda>d. d = chr (CHR ''x'')) f
   }"

definition neg_digit_ahead :: "int \<Rightarrow> 's nkinfile \<Rightarrow> (bool \<times> 's nkinfile) option" where
  "neg_digit_ahead c f = do {
     (t, f) \<leftarrow> ahead (c = chr (CHR ''-'')) 1 (\<lambda>d. d \<ge> chr (CHR ''0'')) f;
     ahead t 1 (\<lambda>d. d \<le> chr (CHR ''9'')) f
   }"

definition neg_point_ahead :: "int \<Rightarrow> 's nkinfile \<Rightarrow> (bool \<times> 's nkinfile) option" where
  "neg_point_ahead c f = ahead (c = chr (CHR ''-'')) 1 (\<lambda>d. d = chr (CHR ''.'')) f"

text \<open>\<open>while (c >= '0' && c <= '9') { num = num * 10 + (c - '0'); c = nk_fnext_fast(f); }\<close>\<close>

partial_function (option) dec_digits :: "int \<Rightarrow> u64 \<Rightarrow> 's nkinfile \<Rightarrow> (int \<times> u64 \<times> 's nkinfile) option" where
  "dec_digits c num f =
     (if is_digit c then do {
        (c', f) \<leftarrow> nk_fnext_fast f;
        dec_digits c' (num * 10 + word_of_int (c - chr (CHR ''0''))) f
      }
      else Some (c, num, f))"

definition is_real :: "int \<Rightarrow> bool" where
  "is_real c \<longleftrightarrow> c = chr (CHR ''.'') \<or> c = chr (CHR ''e'') \<or> c = chr (CHR ''E'')"

text \<open>A number: whether it was one, and the value that is stored, if any. A negative one is stored as \<open>-(int64_t)num\<close>; a
  hexadecimal one without digits stores zero. A number with a point or an exponent goes to \<open>nk_fscan_double\<close>, which stores
  \<open>0.0\<close> or its negation.\<close>

datatype number = Unsigned u64 | Signed u64 | Zero bool

definition scan_hex :: "bool \<Rightarrow> u32 \<Rightarrow> 's nkinfile \<Rightarrow> (bool \<times> number option \<times> 's nkinfile) option" where
  "scan_hex neg n f = do {
     (_, f) \<leftarrow> nk_fseek_rel f n;
     (v, f) \<leftarrow> nk_fscan_hex f (-1);
     let val = (case v of Some val \<Rightarrow> val | None \<Rightarrow> 0);
     Some (v \<noteq> None, Some (if neg then Signed (- val) else Unsigned val), f)
   }"

definition scan_real :: "bool \<Rightarrow> 's nkinfile \<Rightarrow> (bool \<times> number option \<times> 's nkinfile) option" where
  "scan_real neg f = (let (sta, f) = nk_fscan_double f in Some (sta, Some (Zero neg), f))"

definition scan_digits :: "bool \<Rightarrow> int \<Rightarrow> 's nkinfile \<Rightarrow> (bool \<times> number option \<times> 's nkinfile) option" where
  "scan_digits neg c f = do {
     let org = nk_ftell f;
     (c, num, f) \<leftarrow> dec_digits c 0 f;
     if is_real c then do { (_, f) \<leftarrow> nk_fseek f org; scan_real neg f }
     else Some (True, Some (if neg then Signed (- num) else Unsigned num), f)
   }"

definition scan_num :: "int \<Rightarrow> 's nkinfile \<Rightarrow> (bool \<times> number option \<times> 's nkinfile) option" where
  "scan_num c f = do {
     (hex, f) \<leftarrow> hex_ahead c f;
     if hex then scan_hex False 2 f
     else do {
       (neg_hex, f) \<leftarrow> neg_hex_ahead c f;
       if neg_hex then scan_hex True 3 f
       else if is_digit c then scan_digits False c f
       else do {
         (neg, f) \<leftarrow> neg_digit_ahead c f;
         if neg then do { (c, f) \<leftarrow> nk_fnext_fast f; scan_digits True c f }
         else do {
           (point, f) \<leftarrow> neg_point_ahead c f;
           if point then do { (_, f) \<leftarrow> nk_fnext_fast f; scan_real True f }
           else if c = chr (CHR ''.'') then scan_real False f
           else Some (False, None, f)
         }
       }
     }
   }"

text \<open>A string literal that is skipped; its second quote is left.\<close>

definition skip_string :: "'s nkinfile \<Rightarrow> (bool \<times> 's nkinfile) option" where
  "skip_string f = do {
     (c, f) \<leftarrow> nk_fnext_fast f;
     (c, f) \<leftarrow> loop (\<lambda>(c, f).
       if c \<noteq> -1 \<and> c \<noteq> chr (CHR 0x22) then do {
         (_, f) \<leftarrow> nk_fscan_escape f;
         c \<leftarrow> nk_fpeek f;
         Some (Inl (c, f))
       }
       else Some (Inr (c, f))) (c, f);
     Some (c = chr (CHR 0x22), f)
   }"

text \<open>\<open>while (nk_fscan(f, " ,%e"));\<close> and \<open>while (nk_fscan(f, " %i %e", ...));\<close>\<close>

definition skip_commas :: "'s nkinfile \<Rightarrow> 's nkinfile option" where
  "skip_commas = loop (\<lambda>f. do { (ok, f) \<leftarrow> scan_fmt f '' ,%e''; Some (if ok then Inl f else Inr f) })"

definition skip_columns :: "'s nkinfile \<Rightarrow> 's nkinfile option" where
  "skip_columns = loop (\<lambda>f. do { (ok, _, f) \<leftarrow> scan_name f '' %i %e''; Some (if ok then Inl f else Inr f) })"

text \<open>The parts of a value: the loops return whether all of them could be skipped.\<close>

definition skip_members :: "('s nkinfile \<Rightarrow> (bool \<times> 's nkinfile) option) \<Rightarrow> 's nkinfile \<Rightarrow> (bool \<times> 's nkinfile) option" where
  "skip_members skip = loop (\<lambda>f. do {
     (ok, _, f) \<leftarrow> scan_name f '' %i : %e'';
     if ok then do {
       (rtn, f) \<leftarrow> skip f;
       if \<not> rtn then Some (Inr (False, f)) else do { f \<leftarrow> skip_commas f; Some (Inl f) }
     }
     else Some (Inr (True, f))
   })"

definition skip_items :: "('s nkinfile \<Rightarrow> (bool \<times> 's nkinfile) option) \<Rightarrow> 's nkinfile \<Rightarrow> (bool \<times> 's nkinfile) option" where
  "skip_items skip = loop (\<lambda>f. do {
     f \<leftarrow> nk_fscan_ws f;
     if nk_feof f then Some (Inr (True, f))
     else do {
       c \<leftarrow> nk_fpeek_fast f;
       if c = chr (CHR '']'') then Some (Inr (True, f))
       else if c = chr (CHR '','') then do { (_, f) \<leftarrow> nk_fnext_fast f; Some (Inl f) }
       else do { (rtn, f) \<leftarrow> skip f; Some (if rtn then Inl f else Inr (False, f)) }
     }
   })"

definition skip_fields :: "('s nkinfile \<Rightarrow> (bool \<times> 's nkinfile) option) \<Rightarrow> 's nkinfile \<Rightarrow> (bool \<times> 's nkinfile) option" where
  "skip_fields skip = loop (\<lambda>f. do {
     f \<leftarrow> nk_fscan_ws f;
     if nk_feof f then Some (Inr (True, f))
     else do {
       c \<leftarrow> nk_fpeek_fast f;
       if c = chr (CHR '':'') \<or> c = chr (CHR '')'') then Some (Inr (True, f))
       else do {
         f \<leftarrow> nk_fscan_ws f;
         (rtn, f) \<leftarrow> skip f;
         Some (if rtn then Inl f else Inr (False, f))
       }
     }
   })"

definition skip_rows :: "('s nkinfile \<Rightarrow> (bool \<times> 's nkinfile) option) \<Rightarrow> 's nkinfile \<Rightarrow> (bool \<times> 's nkinfile) option" where
  "skip_rows skip = loop (\<lambda>f. do {
     (ok, f) \<leftarrow> scan_fmt f '' :%e'';
     if ok then do { (rtn, f) \<leftarrow> skip_fields skip f; Some (if rtn then Inl f else Inr (False, f)) }
     else Some (Inr (True, f))
   })"

text \<open>These loops are monotone in what they call, so a recursive function may pass itself to them.\<close>

lemma skip_members_mono [partial_function_mono]:
  assumes "\<And>f. monotone (fun_ord option_ord) option_ord (\<lambda>F. skip F f)"
  shows "monotone (fun_ord option_ord) option_ord (\<lambda>F. skip_members (skip F) f)"
    "monotone (fun_ord option_ord) option_ord (\<lambda>F. skip_items (skip F) f)"
    "monotone (fun_ord option_ord) option_ord (\<lambda>F. skip_fields (skip F) f)"
  unfolding skip_members_def skip_items_def skip_fields_def
  by (intro partial_function_mono assms; auto intro: assms partial_function_mono)+

lemma case_option_mono:
  assumes "monotone (fun_ord option_ord) option_ord (\<lambda>F. a F)" "\<And>y. monotone (fun_ord option_ord) option_ord (\<lambda>F. b F y)"
  shows "monotone (fun_ord option_ord) option_ord (\<lambda>F. case x of None \<Rightarrow> a F | Some y \<Rightarrow> b F y)"
  using assms by (cases x) simp_all

lemma skip_rows_mono [partial_function_mono]:
  assumes "\<And>f. monotone (fun_ord option_ord) option_ord (\<lambda>F. skip F f)"
  shows "monotone (fun_ord option_ord) option_ord (\<lambda>F. skip_rows (skip F) f)"
  unfolding skip_rows_def by ((intro partial_function_mono case_option_mono assms) | (simp only: split_paired_all prod.case Let_def))+

text \<open>Skipping a value: \<open>true\<close>, \<open>false\<close>, \<open>null\<close>, a structure, an array, a table, a string or a number.\<close>

definition closed_by :: "char \<Rightarrow> bool \<times> 's nkinfile \<Rightarrow> (bool \<times> 's nkinfile) option" where
  "closed_by c = (\<lambda>(ok, f).
     if ok then do {
       d \<leftarrow> nk_fpeek f;
       if d = chr c then do { (_, f) \<leftarrow> nk_fnext_fast f; Some (True, f) } else Some (False, f)
     }
     else Some (False, f))"

partial_function (option) skip_value :: "'s nkinfile \<Rightarrow> (bool \<times> 's nkinfile) option" where
  "skip_value f = do {
     let orgpos = nk_ftell f;
     (t, f) \<leftarrow> scan_fmt f ''true %e'';
     (t, f) \<leftarrow> (if t then Some (True, f) else scan_fmt f ''false %e'');
     (t, f) \<leftarrow> (if t then Some (True, f) else scan_fmt f ''null %e'');
     (sta, f) \<leftarrow> (if t then Some (True, f)
       else do {
         c \<leftarrow> nk_fpeek f;
         if c = chr (CHR ''{'') then do {
           (_, f) \<leftarrow> nk_fnext_fast f;
           r \<leftarrow> skip_members skip_value f;
           closed_by (CHR ''}'') r
         }
         else if c = chr (CHR ''['') then do {
           (_, f) \<leftarrow> nk_fnext_fast f;
           r \<leftarrow> skip_items skip_value f;
           closed_by (CHR '']'') r
         }
         else if c = chr (CHR ''('') then do {
           (_, f) \<leftarrow> nk_fnext f;
           f \<leftarrow> skip_columns f;
           (ok, f) \<leftarrow> skip_rows skip_value f;
           if ok then scan_fmt f '' )%e'' else Some (False, f)
         }
         else if c = chr (CHR 0x22) then skip_string f
         else do { (sta, _, f) \<leftarrow> scan_num c f; Some (sta, f) }
       });
     if sta then Some (True, f) else do { (_, f) \<leftarrow> nk_fseek f orgpos; Some (False, f) }
   }"

section \<open>Parsing\<close>

text \<open>The bytes of a \<open>double\<close> or \<open>float\<close> with the value of a number are a parameter: the conversions of floating point are
  run-time routines of the compiler.\<close>

type_synonym fp = "what \<Rightarrow> number \<Rightarrow> bytes"

fun number_bits :: "number \<Rightarrow> u64" where
  "number_bits (Unsigned v) = v"
| "number_bits (Signed v) = v"
| "number_bits (Zero neg) = 0"

text \<open>The assignments \<open>*(int *)location = (int)val\<close> and so on.\<close>

definition store_integer :: "what \<Rightarrow> number option \<Rightarrow> bytes \<Rightarrow> nat \<Rightarrow> bytes option" where
  "store_integer w v ram loc =
     (case v of None \<Rightarrow> Some ram
      | Some n \<Rightarrow>
          if w \<in> {tUINT, tINT} then store_at ram loc (le_bytes 4 (ucast (number_bits n) :: u32))
          else if w \<in> {tUINT8, tINT8} then store_at ram loc [ucast (number_bits n)]
          else store_at ram loc (le_bytes 2 (ucast (number_bits n) :: u16)))"

definition store_float :: "fp \<Rightarrow> what \<Rightarrow> number option \<Rightarrow> bytes \<Rightarrow> nat \<Rightarrow> bytes option" where
  "store_float fp w v ram loc = (case v of None \<Rightarrow> Some ram | Some n \<Rightarrow> store_at ram loc (fp w n))"

text \<open>The number after the minus sign of a \<open>float\<close>: its loop, \<open>while (c >= '0' && c <= '0')\<close>, takes zeros only.\<close>

partial_function (option) zero_digits :: "int \<Rightarrow> 's nkinfile \<Rightarrow> (int \<times> u64 \<times> 's nkinfile) option" where
  "zero_digits c f =
     (if c \<ge> chr (CHR ''0'') \<and> c \<le> chr (CHR ''0'') then do { (c', f) \<leftarrow> nk_fnext_fast f; zero_digits c' f } else Some (c, 0, f))"

definition scan_zeros :: "int \<Rightarrow> 's nkinfile \<Rightarrow> (bool \<times> number option \<times> 's nkinfile) option" where
  "scan_zeros c f = do {
     let org = nk_ftell f;
     (c, num, f) \<leftarrow> zero_digits c f;
     if is_real c then do { (_, f) \<leftarrow> nk_fseek f org; scan_real True f }
     else Some (True, Some (Signed (- num)), f)
   }"

text \<open>The branches of \<open>tDOUBLE\<close> and \<open>tFLOAT\<close>. The test for a number that starts with \<open>-.\<close> moves the file in the
  case of \<open>tDOUBLE\<close>, \<open>nk_fseek_rel(f, 1) == '.'\<close>.\<close>

definition scan_float :: "what \<Rightarrow> int \<Rightarrow> 's nkinfile \<Rightarrow> (bool \<times> number option \<times> 's nkinfile) option" where
  "scan_float w c f = do {
     (hex, f) \<leftarrow> hex_ahead c f;
     if hex then scan_hex False 2 f
     else do {
       (neg_hex, f) \<leftarrow> neg_hex_ahead c f;
       if neg_hex then scan_hex True 3 f
       else if is_digit c then scan_digits False c f
       else do {
         (neg, f) \<leftarrow> neg_digit_ahead c f;
         if neg then do { (c, f) \<leftarrow> nk_fnext_fast f; if w = tDOUBLE then scan_digits True c f else scan_zeros c f }
         else do {
           (point, f) \<leftarrow> (if w = tDOUBLE then
               (if c = chr (CHR ''-'') then do { (d, f) \<leftarrow> nk_fseek_rel f 1; Some (d = chr (CHR ''.''), f) } else Some (False, f))
             else neg_point_ahead c f);
           if point then do { (_, f) \<leftarrow> nk_fnext_fast f; scan_real True f }
           else if c = chr (CHR ''.'') then scan_real False f
           else Some (False, None, f)
         }
       }
     }
   }"

text \<open>The string that is stored: its length so far and the memory. What does not fit is dropped.\<close>

definition chars_step :: "u32 \<Rightarrow> nat \<Rightarrow> int \<times> 's nkinfile \<times> u32 \<times> bytes
    \<Rightarrow> ((int \<times> 's nkinfile \<times> u32 \<times> bytes) + (int \<times> 's nkinfile \<times> u32 \<times> bytes)) option" where
  "chars_step room loc = (\<lambda>(c, f, len, ram).
     if c \<noteq> -1 \<and> c \<noteq> chr (CHR 0x22) then do {
       (ch, f) \<leftarrow> nk_fscan_escape f;
       if ch = -1 then Some (Inr (c, f, len, ram))
       else if len \<noteq> room then do {
         ram \<leftarrow> store_at ram (loc + unat len) [word_of_int ch];
         c \<leftarrow> nk_fpeek f;
         Some (Inl (c, f, len + 1, ram))
       }
       else do { c \<leftarrow> nk_fpeek f; Some (Inl (c, f, len, ram)) }
     }
     else Some (Inr (c, f, len, ram)))"

definition parse_chars :: "u32 \<Rightarrow> nat \<Rightarrow> 's nkinfile \<Rightarrow> int \<Rightarrow> bytes \<Rightarrow> (bool \<times> 's nkinfile \<times> bytes) option" where
  "parse_chars room loc f c ram = do {
     (c, f, len, ram) \<leftarrow> loop (chars_step room loc) (c, f, 0, ram);
     (sta, f) \<leftarrow> (if c = chr (CHR 0x22) then do { (_, f) \<leftarrow> nk_fnext_fast f; Some (True, f) } else Some (False, f));
     ram \<leftarrow> store_at ram (loc + unat len) [0];
     Some (sta, f, ram)
   }"

fun find_member :: "bytes \<Rightarrow> member list \<Rightarrow> member option" where
  "find_member name [] = None"
| "find_member name (m # ms) = (if m_name m = name then Some m else find_member name ms)"

text \<open>The members of a structure: the last result, the file and the memory. A member that cannot be parsed is skipped.\<close>

type_synonym 's parse = "'s nkinfile \<Rightarrow> bytes \<Rightarrow> (bool \<times> 's nkinfile \<times> bytes) option"

definition members_step :: "(member \<Rightarrow> 's parse) \<Rightarrow> member list
    \<Rightarrow> bool \<times> 's nkinfile \<times> bytes \<Rightarrow> ((bool \<times> 's nkinfile \<times> bytes) + (bool \<times> 's nkinfile \<times> bytes)) option" where
  "members_step parse ms = (\<lambda>(rtn, f, ram). do {
     f \<leftarrow> nk_fscan_ws f;
     (ok, name, f) \<leftarrow> scan_name f ''%i : %e'';
     if \<not> ok then Some (Inr (rtn, f, ram))
     else do {
       (rtn, stop, f, ram) \<leftarrow> (case find_member name ms of
           Some m \<Rightarrow> do {
             (rtn, f, ram) \<leftarrow> parse m f ram;
             if rtn then Some (True, False, f, ram)
             else do { (rtn, f) \<leftarrow> skip_value f; Some (rtn, \<not> rtn, f, ram) }
           }
         | None \<Rightarrow> do { (_, f) \<leftarrow> skip_value f; Some (rtn, False, f, ram) });
       if stop then Some (Inr (rtn, f, ram))
       else do { f \<leftarrow> skip_commas f; Some (Inl (rtn, f, ram)) }
     }
   })"

definition parse_members :: "(member \<Rightarrow> 's parse) \<Rightarrow> member list \<Rightarrow> 's parse" where
  "parse_members parse ms f ram = loop (members_step parse ms) (True, f, ram)"

text \<open>The elements of an array: the offset behind the last one, the last result, the file and the memory.\<close>

definition items_step :: "(nat \<Rightarrow> 's parse) \<Rightarrow> nat \<Rightarrow> nat
    \<Rightarrow> nat \<times> bool \<times> 's nkinfile \<times> bytes \<Rightarrow> ((nat \<times> bool \<times> 's nkinfile \<times> bytes) + (nat \<times> bool \<times> 's nkinfile \<times> bytes)) option" where
  "items_step parse sz item = (\<lambda>(idx, rtn, f, ram). do {
     f \<leftarrow> nk_fscan_ws f;
     c \<leftarrow> nk_fpeek f;
     if c = -1 \<or> c = chr (CHR '']'') then Some (Inr (idx, rtn, f, ram))
     else if c = chr (CHR '','') then do { (_, f) \<leftarrow> nk_fnext_fast f; Some (Inl (idx, rtn, f, ram)) }
     else if idx < sz then do {
       (rtn, f, ram) \<leftarrow> parse idx f ram;
       Some (if rtn then Inl (idx + item, rtn, f, ram) else Inr (idx, rtn, f, ram))
     }
     else do {
       (rtn, f) \<leftarrow> skip_value f;
       Some (if rtn then Inl (idx, rtn, f, ram) else Inr (idx, rtn, f, ram))
     }
   })"

definition parse_items :: "(nat \<Rightarrow> 's parse) \<Rightarrow> nat \<Rightarrow> nat \<Rightarrow> 's nkinfile \<Rightarrow> bytes \<Rightarrow> (nat \<times> bool \<times> 's nkinfile \<times> bytes) option" where
  "parse_items parse sz item f ram = loop (items_step parse sz item) (0, True, f, ram)"

text \<open>The column names of a table: for each column the member it belongs to, in an array of \<open>NKDBASE_MAXCOLS\<close> numbers.\<close>

fun member_index :: "bytes \<Rightarrow> member list \<Rightarrow> int \<Rightarrow> int" where
  "member_index name [] x = -1"
| "member_index name (m # ms) x = (if m_name m = name then x else member_index name ms (x + 1))"

definition columns_step :: "member list
    \<Rightarrow> int list \<times> nat \<times> 's nkinfile \<Rightarrow> ((int list \<times> nat \<times> 's nkinfile) + (int list \<times> nat \<times> 's nkinfile)) option" where
  "columns_step ms = (\<lambda>(cols, col, f). do {
     (ok, name, f) \<leftarrow> scan_name f '' %i %e'';
     if \<not> ok then Some (Inr (cols, col, f))
     else do {
       let x = member_index name ms 0;
       cols \<leftarrow> (if x \<noteq> -1 then store_at cols col [x] else Some cols);
       Some (Inl (cols, col + 1, f))
     }
   })"

definition parse_columns :: "member list \<Rightarrow> 's nkinfile \<Rightarrow> (int list \<times> nat \<times> 's nkinfile) option" where
  "parse_columns ms f = loop (columns_step ms) (replicate NKDBASE_MAXCOLS (-1), 0, f)"

text \<open>The fields of a row.\<close>

definition fields_step :: "(member \<Rightarrow> 's parse) \<Rightarrow> member list \<Rightarrow> int list \<Rightarrow> nat \<Rightarrow> bool
    \<Rightarrow> nat \<times> bool \<times> 's nkinfile \<times> bytes \<Rightarrow> ((nat \<times> bool \<times> 's nkinfile \<times> bytes) + (bool \<times> 's nkinfile \<times> bytes)) option" where
  "fields_step parse ms cols maxcol full = (\<lambda>(col, rtn, f, ram).
     if col = maxcol then Some (Inr (rtn, f, ram))
     else do {
       x \<leftarrow> deref cols col;
       if full \<or> x = -1 then do {
         (rtn, f) \<leftarrow> skip_value f;
         Some (if rtn then Inl (col + 1, rtn, f, ram) else Inr (rtn, f, ram))
       }
       else do {
         f \<leftarrow> nk_fscan_ws f;
         m \<leftarrow> deref ms (nat x);
         (rtn, f, ram) \<leftarrow> parse m f ram;
         Some (if rtn then Inl (col + 1, rtn, f, ram) else Inr (rtn, f, ram))
       }
     })"

definition parse_fields :: "(member \<Rightarrow> 's parse) \<Rightarrow> member list \<Rightarrow> int list \<Rightarrow> nat \<Rightarrow> bool \<Rightarrow> bool \<Rightarrow> 's parse" where
  "parse_fields parse ms cols maxcol full rtn f ram = loop (fields_step parse ms cols maxcol full) (0, rtn, f, ram)"

definition rows_step :: "(nat \<Rightarrow> member \<Rightarrow> 's parse) \<Rightarrow> member list \<Rightarrow> int list \<Rightarrow> nat \<Rightarrow> nat \<Rightarrow> nat
    \<Rightarrow> nat \<times> nat \<times> bool \<times> 's nkinfile \<times> bytes \<Rightarrow> ((nat \<times> nat \<times> bool \<times> 's nkinfile \<times> bytes) + (nat \<times> bool \<times> 's nkinfile \<times> bytes)) option" where
  "rows_step parse ms cols maxcol maxrows item = (\<lambda>(row, loc, rtn, f, ram). do {
     (ok, f) \<leftarrow> scan_fmt f '' : %e'';
     if \<not> ok then Some (Inr (row, rtn, f, ram))
     else do {
       (rtn, f, ram) \<leftarrow> parse_fields (parse loc) ms cols maxcol (row = maxrows) rtn f ram;
       Some (Inl (if row \<noteq> maxrows then row + 1 else row, loc + item, rtn, f, ram))
     }
   })"

definition parse_rows :: "(nat \<Rightarrow> member \<Rightarrow> 's parse) \<Rightarrow> member list \<Rightarrow> int list \<Rightarrow> nat \<Rightarrow> nat \<Rightarrow> nat \<Rightarrow> 's nkinfile \<Rightarrow> bytes
    \<Rightarrow> (nat \<times> bool \<times> 's nkinfile \<times> bytes) option" where
  "parse_rows parse ms cols maxcol maxrows item f ram = loop (rows_step parse ms cols maxcol maxrows item) (0, 0, True, f, ram)"

lemma parse_members_mono [partial_function_mono]:
  assumes "\<And>m f ram. monotone (fun_ord option_ord) option_ord (\<lambda>F. parse F m f ram)"
  shows "monotone (fun_ord option_ord) option_ord (\<lambda>F. parse_members (parse F) ms f ram)"
  unfolding parse_members_def members_step_def by ((intro partial_function_mono case_option_mono assms) | (simp only: split_paired_all prod.case Let_def))+

lemma parse_items_mono [partial_function_mono]:
  assumes "\<And>i f ram. monotone (fun_ord option_ord) option_ord (\<lambda>F. parse F i f ram)"
  shows "monotone (fun_ord option_ord) option_ord (\<lambda>F. parse_items (parse F) sz item f ram)"
  unfolding parse_items_def items_step_def by ((intro partial_function_mono case_option_mono assms) | (simp only: split_paired_all prod.case Let_def))+

lemma parse_fields_mono [partial_function_mono]:
  assumes "\<And>m f ram. monotone (fun_ord option_ord) option_ord (\<lambda>F. parse F m f ram)"
  shows "monotone (fun_ord option_ord) option_ord (\<lambda>F. parse_fields (parse F) ms cols maxcol full rtn f ram)"
  unfolding parse_fields_def fields_step_def by ((intro partial_function_mono case_option_mono assms) | (simp only: split_paired_all prod.case Let_def))+

lemma parse_rows_mono [partial_function_mono]:
  assumes "\<And>i m f ram. monotone (fun_ord option_ord) option_ord (\<lambda>F. parse F i m f ram)"
  shows "monotone (fun_ord option_ord) option_ord (\<lambda>F. parse_rows (parse F) ms cols maxcol maxrows item f ram)"
  unfolding parse_rows_def rows_step_def by ((intro partial_function_mono case_option_mono assms) | (simp only: split_paired_all prod.case Let_def))+

text \<open>When a value cannot be parsed, or its check refuses it, the rest of the file is printed as part of the message, and the file goes back.\<close>

definition keyval_end :: "(bytes \<Rightarrow> nat \<Rightarrow> int) option \<Rightarrow> nat \<Rightarrow> u32 \<Rightarrow> bool \<Rightarrow> 's parse" where
  "keyval_end check org_loc orgpos sta f ram =
     (if \<not> sta \<or> (case check of Some check \<Rightarrow> check ram org_loc = 0 | None \<Rightarrow> False) then do {
        (_, _, f) \<leftarrow> nk_fcopy (nkstdout (\<lambda>c s. s) ()) f;
        (_, f) \<leftarrow> nk_fseek f orgpos;
        Some (False, f, ram)
      }
      else Some (True, f, ram))"

partial_function (option) nk_fscan_keyval :: "fp \<Rightarrow> ty \<Rightarrow> nat \<Rightarrow> 's nkinfile \<Rightarrow> bytes \<Rightarrow> (bool \<times> 's nkinfile \<times> bytes) option" where
  "nk_fscan_keyval fp type loc f ram = do {
     let orgpos = nk_ftell f;
     c \<leftarrow> nk_fpeek f;
     (sta, f, ram) \<leftarrow> (case ty_what type of
         tBOOL \<Rightarrow> do {
           (t, f) \<leftarrow> scan_fmt f ''true %e'';
           if t then do { ram \<leftarrow> store_at ram loc (le_bytes 4 (1 :: u32)); Some (True, f, ram) }
           else do {
             (t, f) \<leftarrow> scan_fmt f ''false %e'';
             if t then do { ram \<leftarrow> store_at ram loc (le_bytes 4 (0 :: u32)); Some (True, f, ram) }
             else Some (False, f, ram)
           }
         }
       | tSTRING \<Rightarrow>
           if c = chr (CHR 0x22) then do {
             (c, f) \<leftarrow> nk_fnext_fast f;
             parse_chars (word_of_nat (ty_size type) - 1) loc f c ram
           }
           else Some (False, f, ram)
       | tSTRUCT \<Rightarrow>
           if c = chr (CHR ''{'') then do {
             (_, f) \<leftarrow> nk_fnext_fast f;
             (rtn, f, ram) \<leftarrow> parse_members (\<lambda>m. nk_fscan_keyval fp (m_type m) (loc + m_offset m)) (ty_members type) f ram;
             (ok, f) \<leftarrow> closed_by (CHR ''}'') (True, f);
             Some (ok \<and> rtn, f, ram)
           }
           else Some (False, f, ram)
       | tVARRAY \<Rightarrow> (case ty_subtype type of None \<Rightarrow> None | Some st \<Rightarrow>
           if c = chr (CHR ''['') then do {
             (_, f) \<leftarrow> nk_fnext_fast f;
             (idx, rtn, f, ram) \<leftarrow> parse_items (\<lambda>idx. nk_fscan_keyval fp st (loc + LEN_SIZE + idx)) (ty_size type) (ty_size st) f ram;
             (ok, f) \<leftarrow> closed_by (CHR '']'') (True, f);
             n \<leftarrow> capacity idx (ty_size st);
             ram \<leftarrow> store_at ram loc (le_bytes 4 (word_of_nat n :: u32));
             Some (ok \<and> rtn, f, ram)
           }
           else Some (False, f, ram))
       | tARRAY \<Rightarrow> (case ty_subtype type of None \<Rightarrow> None | Some st \<Rightarrow>
           if c = chr (CHR ''['') then do {
             (_, f) \<leftarrow> nk_fnext_fast f;
             (idx, rtn, f, ram) \<leftarrow> parse_items (\<lambda>idx. nk_fscan_keyval fp st (loc + idx)) (ty_size type) (ty_size st) f ram;
             (ok, f) \<leftarrow> closed_by (CHR '']'') (True, f);
             Some (ok \<and> rtn, f, ram)
           }
           else Some (False, f, ram))
       | tTABLE \<Rightarrow> (case ty_subtype type of None \<Rightarrow> None | Some st \<Rightarrow>
           if c = chr (CHR ''('') then do {
             (_, f) \<leftarrow> nk_fnext_fast f;
             maxrows \<leftarrow> capacity (ty_size type) (ty_size st);
             (cols, maxcol, f) \<leftarrow> parse_columns (ty_members st) f;
             (row, rtn, f, ram) \<leftarrow> parse_rows (\<lambda>i m. nk_fscan_keyval fp (m_type m) (loc + LEN_SIZE + i + m_offset m))
                 (ty_members st) cols maxcol maxrows (ty_size st) f ram;
             ram \<leftarrow> store_at ram loc (le_bytes 4 (word_of_nat row :: u32));
             (ok, f) \<leftarrow> scan_fmt f '' )%e'';
             Some (ok \<and> rtn, f, ram)
           }
           else Some (False, f, ram))
       | w \<Rightarrow>
           if w = tDOUBLE \<or> w = tFLOAT then do {
             (sta, v, f) \<leftarrow> scan_float w c f;
             ram \<leftarrow> store_float fp w v ram loc;
             Some (sta, f, ram)
           }
           else do {
             (sta, v, f) \<leftarrow> scan_num c f;
             ram \<leftarrow> store_integer w v ram loc;
             Some (sta, f, ram)
           });
     keyval_end (ty_check type) loc orgpos sta f ram
   }"

section \<open>Values and their text\<close>

text \<open>What an object holds, with the names of its parts.\<close>

datatype dval =
    DBool bool
  | DInt int
  | DString bytes
  | DStruct "(bytes \<times> dval) list"
  | DArray "dval list"
  | DTable "bytes list" "dval list list"

fun join :: "bytes \<Rightarrow> bytes list \<Rightarrow> bytes" where
  "join sep [] = []"
| "join sep [t] = t"
| "join sep (t # ts) = t @ sep @ join sep ts"

definition int_text :: "int \<Rightarrow> bytes" where
  "int_text k = (if k < 0 then [45] else []) @ number_text 10 False (nat \<bar>k\<bar>)"

definition char_text :: "u8 \<Rightarrow> bytes" where
  "char_text c =
     (if c = 0x22 then [0x5C, 0x22] else if c = 0x5C then [0x5C, 0x5C] else if c = 10 then [0x5C, 0x6E] else if c = 13 then [0x5C, 0x72]
      else if c < 32 \<or> c > 126 then [0x5C, 0x78, digit_char False (unat c div 16), digit_char False (unat c mod 16)]
      else [c])"

lemma size_dval_parts [termination_simp]:
  "x \<in> set ms \<Longrightarrow> size (snd x) < Suc (size_list (size_prod (\<lambda>_. 0) size) ms)"
  "row \<in> set rows \<Longrightarrow> v \<in> set row \<Longrightarrow> size v < Suc (a + size_list (size_list size) rows)"
proof -
  show "size (snd x) < Suc (size_list (size_prod (\<lambda>_. 0) size) ms)" if "x \<in> set ms"
    using that by (induction ms) auto
  show "size v < Suc (a + size_list (size_list size) rows)" if "row \<in> set rows" "v \<in> set row"
  proof -
    have "size v < Suc (size_list size row)" using that(2) by (induction row) auto
    moreover have "size_list size row \<le> size_list (size_list size) rows" using that(1) by (induction rows) auto
    ultimately show ?thesis by simp
  qed
qed

fun dval_text :: "dval \<Rightarrow> bytes" where
  "dval_text (DBool b) = map of_char (if b then ''true'' else ''false'')"
| "dval_text (DInt k) = int_text k"
| "dval_text (DString s) = [0x22] @ concat (map char_text s) @ [0x22]"
| "dval_text (DStruct ms) = [0x7B] @ join [0x2C, 0x20] (map (\<lambda>m. fst m @ [0x3A] @ dval_text (snd m)) ms) @ [0x7D]"
| "dval_text (DArray vs) = [0x5B] @ join [0x2C, 0x20] (map (\<lambda>v. dval_text v) vs) @ [0x5D]"
| "dval_text (DTable names rows) =
     [0x28] @ concat (map (\<lambda>n. n @ [0x20]) names) @ concat (map (\<lambda>row. [0x3A] @ join [0x20] (map (\<lambda>v. dval_text v) row)) rows) @ [0x29]"

text \<open>The value of an object of a type at a place in memory, if it is a value of the type: elements within their
  array, strings with their NUL.\<close>

definition scalar_value :: "what \<Rightarrow> bytes \<Rightarrow> nat \<Rightarrow> dval option" where
  "scalar_value w ram loc =
     (case w of
        tBOOL \<Rightarrow> map_option (\<lambda>v. DBool (v \<noteq> 0)) (load_int ram loc)
      | tINT \<Rightarrow> map_option (\<lambda>v. DInt (sint v)) (load_int ram loc)
      | tUINT \<Rightarrow> map_option (\<lambda>v. DInt (uint v)) (load_int ram loc)
      | tINT8 \<Rightarrow> map_option (\<lambda>v. DInt (uint v)) (deref ram loc)
      | tUINT8 \<Rightarrow> map_option (\<lambda>v. DInt (uint v)) (deref ram loc)
      | tINT16 \<Rightarrow> map_option (\<lambda>v. DInt (sint v)) (load_short ram loc)
      | tUINT16 \<Rightarrow> map_option (\<lambda>v. DInt (uint v)) (load_short ram loc)
      | _ \<Rightarrow> None)"

definition string_value :: "nat \<Rightarrow> bytes \<Rightarrow> nat \<Rightarrow> dval option" where
  "string_value n ram loc = do {
     bs \<leftarrow> load_from ram loc n;
     if 0 \<in> set bs then Some (DString (cstr bs)) else None
   }"

fun items_value :: "nat \<Rightarrow> nat \<Rightarrow> (nat \<Rightarrow> 'v option) \<Rightarrow> nat \<Rightarrow> 'v list option" where
  "items_value 0 sz item loc = Some []"
| "items_value (Suc n) sz item loc = do { v \<leftarrow> item loc; vs \<leftarrow> items_value n sz item (loc + sz); Some (v # vs) }"

function (sequential) value_of :: "ty \<Rightarrow> bytes \<Rightarrow> nat \<Rightarrow> dval option"
  and members_value :: "member list \<Rightarrow> bytes \<Rightarrow> nat \<Rightarrow> (bytes \<times> dval) list option" where
  "value_of (Ty w sz ms subtype check) ram loc =
     (case w of
        tSTRUCT \<Rightarrow> map_option DStruct (members_value ms ram loc)
      | tARRAY \<Rightarrow> (case subtype of None \<Rightarrow> None | Some st \<Rightarrow> do {
          n \<leftarrow> capacity sz (ty_size st);
          map_option DArray (items_value n (ty_size st) (\<lambda>l. value_of st ram l) loc)
        })
      | tVARRAY \<Rightarrow> (case subtype of None \<Rightarrow> None | Some st \<Rightarrow> do {
          n \<leftarrow> load_len ram loc;
          if n * ty_size st \<le> sz then map_option DArray (items_value n (ty_size st) (\<lambda>l. value_of st ram l) (loc + LEN_SIZE)) else None
        })
      | tTABLE \<Rightarrow> (case subtype of None \<Rightarrow> None | Some (Ty sw ssize sms ssub scheck) \<Rightarrow> do {
          n \<leftarrow> load_len ram loc;
          if n * ssize \<le> sz then map_option (\<lambda>rows. DTable (map m_name sms) (map (map snd) rows))
            (items_value n ssize (\<lambda>l. members_value sms ram l) (loc + LEN_SIZE)) else None
        })
      | tSTRING \<Rightarrow> string_value sz ram loc
      | _ \<Rightarrow> scalar_value w ram loc)"
| "members_value [] ram loc = Some []"
| "members_value (Member name t offset triggers # ms) ram loc = do {
     v \<leftarrow> value_of t ram (loc + offset);
     vs \<leftarrow> members_value ms ram loc;
     Some ((name, v) # vs)
   }"
  by pat_completeness auto
termination
  by (relation "measure (case_sum (\<lambda>(t, _). size t) (\<lambda>(ms, _). size_list size ms))") simp_all

section \<open>The code prints the text of the value\<close>

lemma puts_status:
  "puts bs (st, f) = map_option (\<lambda>(rtn, f). (st OR rtn, f)) (puts bs (0, f))"
proof (induction bs arbitrary: st f)
  case (Cons b bs)
  show ?case
  proof (cases "nk_fputc f (uint b)")
    case (Some p)
    obtain r f1 where p: "p = (r, f1)" by fastforce
    then show ?thesis using Some Cons.IH [of "st OR r" f1] Cons.IH [of r f1]
      by (cases "puts bs (0, f1)") (auto simp: puts_Cons put_def or.assoc)
  qed (simp add: puts_Cons put_def)
qed simp

lemma also_call_puts:
  assumes "\<And>f. g f = puts bs (0, f)"
  shows "also_call g out = puts bs out"
  using assms puts_status [of bs "fst out" "snd out"] by (cases "puts bs (0, snd out)") (auto simp: also_call_def)

lemma also_print_puts:
  assumes "vformat fmt ap = Some bs"
  shows "also_print fmt ap out = puts bs out"
  using also_call_puts [of "\<lambda>f. nk_fprintf f fmt ap" bs out]
  by (simp add: also_print_def also_call_def nk_fprintf_def nk_vprintf_def vprintf_loop_prints [OF assms])

lemma put_puts: "put (ch c) out = puts [of_char c] out"
  by (cases "put (uint (of_char c :: u8)) out") (simp_all add: puts_Cons ch_uint)

lemma put_byte: "put (uint c) out = puts [c] out"
  by (cases "put (uint c) out") (simp_all add: puts_Cons)

lemma vformat_plain: "\<forall>c\<in>set fmt. c \<noteq> CHR ''%'' \<Longrightarrow> vformat fmt [] = Some (map of_char fmt)"
  by (induction fmt) auto

text \<open>Texts that are put one after the other.\<close>

lemma puts_puts [simp]:
  "(puts as out \<bind> puts bs) = puts (as @ bs) out" "(puts as out \<bind> (\<lambda>out. puts bs out \<bind> k)) = (puts (as @ bs) out \<bind> k)"
  by (simp_all add: puts_append)

lemma vformat_string: "length s < 2 ^ 31 \<Longrightarrow> vformat fmt [] = Some t \<Longrightarrow> vformat (CHR ''%'' # CHR ''s'' # fmt) [VStr s] = Some (s @ t)"
  by (simp add: vformat_eval)

lemma vformat_append_plain:
  "\<forall>c\<in>set fmt. c \<noteq> CHR ''%'' \<Longrightarrow> vformat rest ap = Some t \<Longrightarrow> vformat (fmt @ rest) ap = Some (map of_char fmt @ t)"
  by (induction fmt) auto

text \<open>The escape of a character, its two digits padded with a zero.\<close>

lemma unat_ucast_u32: "unat (ucast (c :: u8) :: u32) = unat c"
  by (simp add: unsigned_ucast_eq take_bit_nat_eq_self less_trans [OF unat_u8_less])

lemma two_digits:
  "replicate (2 - length (number_text 16 False (unat (c :: u8)))) 48 @ number_text 16 False (unat c)
    = [digit_char False (unat c div 16), digit_char False (unat c mod 16)]"
proof -
  have lt: "unat c < 256" by simp
  consider "unat c = 0" | "0 < unat c" "unat c < 16" | "16 \<le> unat c" by linarith
  then show ?thesis
  proof cases
    case 2
    then show ?thesis by (simp add: number_text_def num_digits.simps [of 16] digit_char_def)
  next
    case 3
    have "unat c div 16 < 16" using lt by (intro less_mult_imp_div_less) simp
    moreover have "unat c div 16 \<noteq> 0" using 3 by auto
    ultimately show ?thesis using 3 by (simp add: number_text_def num_digits.simps [of 16])
  qed (simp add: number_text_def digit_char_def numeral_2_eq_2)
qed

lemma escape_text:
  "vformat (CHR 0x5C # ''x%2.2x'') [VInt (ucast (c :: u8))]
    = Some [0x5C, 0x78, digit_char False (unat c div 16), digit_char False (unat c mod 16)]"
proof -
  define u :: u64 where "u = ucast (ucast c :: u32)"
  have u: "unat u = unat c" unfolding u_def unat_ucast_u64 unat_ucast_u32 ..
  have a: "va_unsigned False 0 [VInt (ucast c)] = Some (u, [])" by (simp add: u_def)
  have "length (replicate (2 - length (number_text 16 False (unat c))) (48 :: u8) @ number_text 16 False (unat c)) = 2"
    unfolding two_digits by simp
  then show ?thesis using two_digits [of c]
    by (simp add: int_text_simps a u del: va_unsigned.simps)
qed

lemma print_chars_text:
  fixes out :: "'s out"
  shows "0 \<in> set s \<Longrightarrow> print_chars s out = puts (concat (map char_text (cstr s))) out"
proof (induction s arbitrary: out)
  case (Cons c s)
  show ?case
  proof (cases "c = 0")
    case False
    have plain: "also_print [CHR 0x5C, d] [] out = puts [0x5C, of_char d] out" if "d \<noteq> CHR ''%''" for d
      using also_print_puts [OF vformat_plain [of "[CHR 0x5C, d]"]] that by simp
    have "(if c = of_char (CHR 0x22) then also_print [CHR 0x5C, CHR 0x22] [] out
          else if c = of_char (CHR 0x5C) then also_print [CHR 0x5C, CHR 0x5C] [] out
          else if c = 10 then also_print [CHR 0x5C, CHR ''n''] [] out
          else if c = 13 then also_print [CHR 0x5C, CHR ''r''] [] out
          else if c < 32 \<or> c > 126 then also_print (CHR 0x5C # ''x%2.2x'') [VInt (ucast c)] out
          else put (uint c) out) = puts (char_text c) out"
      using plain [of "CHR 0x22"] plain [of "CHR 0x5C"] plain [of "CHR ''n''"] plain [of "CHR ''r''"] also_print_puts [OF escape_text [of c], of out]
        put_byte [of c out]
      by (simp add: char_text_def)
    then have "print_chars (c # s) out = do { out \<leftarrow> puts (char_text c) out; print_chars s out }"
      using False by (simp only: print_chars.simps if_False)
    moreover have "print_chars s = (puts (concat (map char_text (cstr s))) :: 's out \<Rightarrow> _)" using Cons False by (intro ext) auto
    ultimately show ?thesis using False by (simp add: cstr_def)
  qed (simp add: cstr_def)
qed simp

text \<open>Schemas that describe the memory of a program: sizes and offsets of the parts, which do not overlap; names of at
  most 79 characters, different from each other and without blanks; at most 20 columns; no floating point. A check accepts every value.\<close>

definition extent :: "ty \<Rightarrow> nat" where
  "extent t = (if ty_what t \<in> {tVARRAY, tTABLE} then LEN_SIZE else 0) + ty_size t"

definition ident :: "bytes \<Rightarrow> bool" where
  "ident n \<longleftrightarrow> n \<noteq> [] \<and> ident_start (uint (hd n)) \<and> (\<forall>c\<in>set n. ident_char (uint c)) \<and> length n < 80"

definition member_end :: "member \<Rightarrow> nat" where
  "member_end m = m_offset m + extent (m_type m)"

definition layout :: "nat \<Rightarrow> member list \<Rightarrow> bool" where
  "layout sz ms \<longleftrightarrow> distinct (map m_name ms) \<and> (\<forall>m\<in>set ms. ident (m_name m) \<and> member_end m \<le> sz)
     \<and> sorted_wrt (\<lambda>m m'. member_end m \<le> m_offset m' \<or> member_end m' \<le> m_offset m) ms"

definition element_of :: "ty \<Rightarrow> nat \<Rightarrow> bool" where
  "element_of st sz \<longleftrightarrow> 0 < ty_size st \<and> extent st \<le> ty_size st \<and> ty_size st dvd sz"

fun scalar_size :: "what \<Rightarrow> nat" where
  "scalar_size w = (if w \<in> {tBOOL, tINT, tUINT} then 4 else if w \<in> {tINT16, tUINT16} then 2 else 1)"

lemma size_member: "m \<in> set ms \<Longrightarrow> size (m_type m) < size_list size ms"
proof (induction ms)
  case (Cons a ms)
  then show ?case by (cases a) auto
qed simp

function wf_ty :: "ty \<Rightarrow> bool" where
  "wf_ty (Ty w sz ms subtype check) \<longleftrightarrow>
     sz < 2 ^ 32 \<and> (case check of Some check \<Rightarrow> \<forall>ram loc. check ram loc \<noteq> 0 | None \<Rightarrow> True) \<and>
     (case w of
        tSTRUCT \<Rightarrow> layout sz ms \<and> (\<forall>m\<in>set ms. wf_ty (m_type m))
      | tARRAY \<Rightarrow> (case subtype of Some st \<Rightarrow> wf_ty st \<and> element_of st sz | None \<Rightarrow> False)
      | tVARRAY \<Rightarrow> (case subtype of Some st \<Rightarrow> wf_ty st \<and> element_of st sz | None \<Rightarrow> False)
      | tTABLE \<Rightarrow> (case subtype of
          Some st \<Rightarrow> wf_ty st \<and> ty_what st = tSTRUCT \<and> 0 < ty_size st \<and> ty_size st dvd sz \<and> length (ty_members st) \<le> NKDBASE_MAXCOLS
        | None \<Rightarrow> False)
      | tSTRING \<Rightarrow> 0 < sz
      | _ \<Rightarrow> w \<noteq> tDOUBLE \<and> w \<noteq> tFLOAT \<and> sz = scalar_size w)"
  by pat_completeness auto
termination
proof (relation "measure size", goal_cases)
  case (2 w sz ms subtype check x)
  then show ?case using size_member [of x ms] by simp
qed simp_all

lemma wf_table:
  assumes "wf_ty (Ty tTABLE sz ms sub check)"
  obtains item sms ssub scheck where "sub = Some (Ty tSTRUCT item sms ssub scheck)" "wf_ty (Ty tSTRUCT item sms ssub scheck)"
    "0 < item" "item dvd sz" "length sms \<le> NKDBASE_MAXCOLS" "layout item sms" "\<forall>m\<in>set sms. wf_ty (m_type m)"
proof -
  obtain st where st: "sub = Some st" "wf_ty st" "ty_what st = tSTRUCT" "0 < ty_size st" "ty_size st dvd sz" "length (ty_members st) \<le> NKDBASE_MAXCOLS"
    using assms by (auto split: option.splits)
  obtain item sms ssub scheck where t: "st = Ty tSTRUCT item sms ssub scheck" using st(3) by (cases st) simp
  have "layout item sms" "\<forall>m\<in>set sms. wf_ty (m_type m)" using st(2) unfolding t by simp_all
  then show ?thesis using that st unfolding t by simp
qed

lemma serialize_items_puts:
  fixes out :: "'s out"
  assumes "\<And>l v out. item l = Some v \<Longrightarrow> g l (out :: 's out) = puts (t v) out"
  shows "items_value n sz item loc = Some vs \<Longrightarrow> serialize_items n sz g loc out = puts (join [0x2C, 0x20] (map t vs)) out"
proof (induction n arbitrary: loc vs out)
  case (Suc n)
  obtain v vs' where v: "item loc = Some v" "items_value n sz item (loc + sz) = Some vs'" "vs = v # vs'"
    using Suc.prems by (auto simp: Option.bind_eq_Some_conv)
  have sep: "also_print '', '' [] out = puts [0x2C, 0x20] out" for out :: "'s out"
    using also_print_puts [OF vformat_plain [of "'', ''"]] by simp
  have ih: "serialize_items n sz g (loc + sz) = puts (join [0x2C, 0x20] (map t vs'))" using Suc.IH [OF v(2)] by (intro ext)
  have "n = 0 \<longleftrightarrow> vs' = []" using v(2) by (cases n) (auto simp: Option.bind_eq_Some_conv)
  then show ?case using v(1,3) ih sep assms by (cases vs') simp_all
qed simp

lemma serialize_rows_puts:
  fixes out :: "'s out"
  assumes "\<And>l v out. row l = Some v \<Longrightarrow> g l (out :: 's out) = puts (t v) out"
  shows "items_value n sz row loc = Some vs \<Longrightarrow> serialize_rows n sz g loc out = puts (concat (map (\<lambda>v. [0x3A] @ t v) vs)) out"
proof (induction n arbitrary: loc vs out)
  case (Suc n)
  obtain v vs' where v: "row loc = Some v" "items_value n sz row (loc + sz) = Some vs'" "vs = v # vs'"
    using Suc.prems by (auto simp: Option.bind_eq_Some_conv)
  have ih: "serialize_rows n sz g (loc + sz) = puts (concat (map (\<lambda>v. [0x3A] @ t v) vs'))" using Suc.IH [OF v(2)] by (intro ext)
  have "put (ch (CHR '':'')) out = puts [0x3A] out" for out :: "'s out" using put_puts [of "CHR '':''"] by simp
  then show ?case using v(1,3) ih assms by simp
qed simp

lemma ident_printed: "ident n \<Longrightarrow> vformat fmt [] = Some t \<Longrightarrow> vformat (CHR ''%'' # CHR ''s'' # fmt) [VStr n] = Some (n @ t)"
  by (rule vformat_string) (simp_all add: ident_def)

lemma serialize_header_puts:
  fixes out :: "'s out"
  shows "\<forall>m\<in>set ms. ident (m_name m) \<Longrightarrow> serialize_header ms out = puts (concat (map (\<lambda>n. n @ [0x20]) (map m_name ms))) out"
proof (induction ms arbitrary: out)
  case (Cons m ms)
  have "also_print ''%s '' [VStr (m_name m)] out = puts (m_name m @ [0x20]) out"
    using also_print_puts [OF ident_printed [OF _ vformat_plain, of "m_name m" "'' ''"]] Cons.prems by simp
  moreover have "serialize_header ms = (puts (concat (map (\<lambda>n. n @ [0x20]) (map m_name ms))) :: 's out \<Rightarrow> _)" using Cons by (intro ext) simp
  ultimately show ?case by simp
qed simp

lemma serialize_members_puts:
  fixes out :: "'s out"
  assumes "\<And>m l v f. m \<in> set ms \<Longrightarrow> value_of (m_type m) ram l = Some v \<Longrightarrow> nk_dbase_serialize (m_type m) ram l (f :: 's nkoutfile) = puts (dval_text v) (0, f)"
    and "\<forall>m\<in>set ms. ident (m_name m)" "members_value ms ram loc = Some vs"
  shows "serialize_members ms ram loc out = puts (join [0x2C, 0x20] (map (\<lambda>m. fst m @ [0x3A] @ dval_text (snd m)) vs)) out
    \<and> serialize_row ms ram loc out = puts (join [0x20] (map (\<lambda>m. dval_text (snd m)) vs)) out"
  using assms
proof (induction ms arbitrary: vs out)
  case (Cons m ms)
  obtain name t off tr where m: "m = Member name t off tr" by (cases m)
  obtain v vs' where v: "value_of t ram (loc + off) = Some v" "members_value ms ram loc = Some vs'" "vs = (name, v) # vs'"
    using Cons.prems(3) m by (auto simp: Option.bind_eq_Some_conv)
  have call: "also_call (nk_dbase_serialize t ram (loc + off)) out = puts (dval_text v) out" for out :: "'s out"
    using also_call_puts [of "nk_dbase_serialize t ram (loc + off)" "dval_text v" out] Cons.prems(1) [of m "loc + off" v] m v(1) by simp
  have sep: "also_print '', '' [] out = puts [0x2C, 0x20] out" "put (ch (CHR '' '')) out = puts [0x20] out" for out :: "'s out"
    using also_print_puts [OF vformat_plain [of "'', ''"]] put_puts [of "CHR '' ''"] by simp_all
  have name: "also_print ''%s:'' [VStr name] out = puts (name @ [0x3A]) out" for out :: "'s out"
    using also_print_puts [OF ident_printed [OF _ vformat_plain, of name "'':''"]] Cons.prems(2) m by simp
  have ih: "serialize_members ms ram loc = (puts (join [0x2C, 0x20] (map (\<lambda>m. fst m @ [0x3A] @ dval_text (snd m)) vs')) :: 's out \<Rightarrow> _)"
    "serialize_row ms ram loc = (puts (join [0x20] (map (\<lambda>m. dval_text (snd m)) vs')) :: 's out \<Rightarrow> _)"
    using Cons.IH [OF _ _ v(2)] Cons.prems(1,2) by (intro ext; simp)+
  have e: "ms = [] \<longleftrightarrow> vs' = []" using v(2) by (cases ms rule: list.exhaust; cases "hd ms") (auto simp: Option.bind_eq_Some_conv)
  show ?case using m v(3) ih call name sep e by (cases vs') simp_all
qed simp

lemma int_text_unsigned: "int_text (uint v) = number_text 10 False (unat v)"
  by (simp add: int_text_def)

lemma int_text_printed:
  "also_print ''%d'' [VInt v] out = puts (int_text (sint v)) out"
  "also_print ''%u'' [VInt v] out = puts (int_text (uint v)) out"
  unfolding int_text_unsigned by (rule also_print_puts, rule print_int_text [folded int_text_def])+

lemma uint_ucast_up: "LENGTH('a) \<le> LENGTH('b) \<Longrightarrow> uint (ucast (a :: 'a::len word) :: 'b::len word) = uint a"
  by (rule uint_up_ucast) (simp add: is_up)

lemma small_in_int:
  "sint (scast (a :: u16) :: u32) = sint a" "uint (ucast (a :: u16) :: u32) = uint a" "uint (ucast (b :: u8) :: u32) = uint b"
  "sint (ucast (b :: u8) :: u32) = uint b"
proof -
  show u: "uint (ucast a :: u32) = uint a" "uint (ucast b :: u32) = uint b" by (simp_all add: uint_ucast_up)
  show "sint (scast a :: u32) = sint a" by (rule sint_up_scast) (simp add: is_up)
  have "uint b < 256" "0 \<le> uint b" using uint_bounded [of b] by simp_all
  then have "signed_take_bit 31 (uint b) = uint b" by (intro signed_take_bit_int_eq_self) (rule order_trans [of _ 0], simp_all)
  then show "sint (ucast b :: u32) = uint b" unfolding sint_uint [of "ucast b :: u32"] u(2) by simp
qed

lemma serialize_scalar_puts:
  assumes "scalar_value w ram loc = Some v"
  shows "serialize_scalar w ram loc out = puts (dval_text v) out"
proof -
  have b: "also_print (if x then ''true'' else ''false'') [] out = puts (dval_text (DBool x)) out" for x
    using also_print_puts [OF vformat_plain [of "''true''"], of out] also_print_puts [OF vformat_plain [of "''false''"], of out]
    by (cases x) simp_all
  show ?thesis
  proof (cases w)
    case tBOOL
    then obtain x where x: "load_int ram loc = Some x" "v = DBool (x \<noteq> 0)" using assms by (auto simp: scalar_value_def)
    show ?thesis unfolding tBOOL serialize_scalar_def what.case x Option.bind.bind_lunit by (rule b)
  qed (use assms in \<open>auto simp: scalar_value_def serialize_scalar_def int_text_printed small_in_int\<close>)
qed

lemma serialize_puts:
  fixes f :: "'s nkoutfile"
  shows "wf_ty t \<Longrightarrow> value_of t ram loc = Some v \<Longrightarrow> nk_dbase_serialize t ram loc f = puts (dval_text v) (0, f)"
proof (induction t arbitrary: loc v f rule: measure_induct_rule [of size])
  case (less t)
  obtain w sz ms sub check where t: "t = Ty w sz ms sub check" by (cases t)
  have byte: "put (uint c) = (puts [c] :: 's out \<Rightarrow> _)" for c by (intro ext put_byte)
  have braces: "put 123 = (puts [123] :: 's out \<Rightarrow> _)" "put 125 = (puts [125] :: 's out \<Rightarrow> _)" "put 91 = (puts [91] :: 's out \<Rightarrow> _)"
    "put 93 = (puts [93] :: 's out \<Rightarrow> _)" "put 40 = (puts [40] :: 's out \<Rightarrow> _)" "put 41 = (puts [41] :: 's out \<Rightarrow> _)" "put 34 = (puts [34] :: 's out \<Rightarrow> _)"
    using byte [of 123] byte [of 125] byte [of 91] byte [of 93] byte [of 40] byte [of 41] byte [of 34] by simp_all
  have item: "nk_dbase_serialize st ram l f = puts (dval_text v) (0, f)" if "sub = Some st" "wf_ty st" "value_of st ram l = Some v" for st l v and f :: "'s nkoutfile"
    using less.IH [of st] that t by simp
  then have items: "also_call (nk_dbase_serialize st ram l) out = puts (dval_text v) out" if "sub = Some st" "wf_ty st" "value_of st ram l = Some v" for st l v and out :: "'s out"
    using also_call_puts that by blast
  show ?case
  proof (cases w)
    case tSTRUCT
    obtain vs where vs: "members_value ms ram loc = Some vs" "v = DStruct vs" using less.prems(2) tSTRUCT t by auto
    have "nk_dbase_serialize (m_type m) ram l f = puts (dval_text v) (0, f)" if "m \<in> set ms" "value_of (m_type m) ram l = Some v" for m l v and f :: "'s nkoutfile"
      using less.IH [of "m_type m"] size_member [OF that(1)] less.prems(1) that t tSTRUCT by auto
    from serialize_members_puts [THEN conjunct1, OF this _ vs(1)] show ?thesis
      using less.prems(1) t tSTRUCT vs(2) by (simp add: braces layout_def)
  next
    case tARRAY
    obtain st n vs where s: "sub = Some st" "capacity sz (ty_size st) = Some n" "items_value n (ty_size st) (value_of st ram) loc = Some vs" "v = DArray vs"
      using less.prems(2) tARRAY t by (auto simp: Option.bind_eq_Some_conv split: option.splits)
    show ?thesis
      using serialize_items_puts [OF items [OF s(1)] s(3)] less.prems(1) tARRAY t s by (simp add: braces)
  next
    case tVARRAY
    obtain st n vs where s: "sub = Some st" "load_len ram loc = Some n" "items_value n (ty_size st) (value_of st ram) (loc + LEN_SIZE) = Some vs" "v = DArray vs"
      using less.prems(2) tVARRAY t by (auto simp: Option.bind_eq_Some_conv split: option.splits if_splits)
    show ?thesis
      using serialize_items_puts [OF items [OF s(1)] s(3)] less.prems(1) tVARRAY t s by (simp add: braces)
  next
    case tTABLE
    obtain sw ssize sms ssub scheck n rows where s: "sub = Some (Ty sw ssize sms ssub scheck)" "load_len ram loc = Some n"
      "items_value n ssize (members_value sms ram) (loc + LEN_SIZE) = Some rows" "v = DTable (map m_name sms) (map (map snd) rows)"
      using less.prems(2) tTABLE t by (auto simp: Option.bind_eq_Some_conv split: option.splits if_splits ty.splits)
    have sw: "sw = tSTRUCT" using less.prems(1) t tTABLE s(1) by simp
    have wf: "\<forall>m\<in>set sms. ident (m_name m)" "\<forall>m\<in>set sms. wf_ty (m_type m)"
      using less.prems(1) t tTABLE s(1) unfolding sw by (simp_all add: layout_def)
    have mem: "nk_dbase_serialize (m_type m) ram l f = puts (dval_text v) (0, f)" if "m \<in> set sms" "value_of (m_type m) ram l = Some v" for m l v and f :: "'s nkoutfile"
      using less.IH [of "m_type m"] size_member [OF that(1)] wf(2) that t s(1) by simp
    have row: "serialize_row sms ram l out = puts (join [0x20] (map (\<lambda>m. dval_text (snd m)) vs)) out" if "members_value sms ram l = Some vs" for l vs and out :: "'s out"
      using serialize_members_puts [THEN conjunct2, OF mem wf(1) that] .
    have "serialize_rows n ssize (\<lambda>l. serialize_row sms ram l) (loc + LEN_SIZE)
        = (puts (concat (map (\<lambda>vs. [0x3A] @ join [0x20] (map (\<lambda>m. dval_text (snd m)) vs)) rows)) :: 's out \<Rightarrow> _)"
      by (intro ext serialize_rows_puts [OF row s(3)])
    moreover have "serialize_header sms = (puts (concat (map (\<lambda>n. n @ [0x20]) (map m_name sms))) :: 's out \<Rightarrow> _)"
      by (intro ext serialize_header_puts [OF wf(1)])
    ultimately show ?thesis using tTABLE t s by (simp add: braces comp_def)
  next
    case tSTRING
    then have "0 \<in> set (take sz (drop loc ram))" "v = DString (cstr (take sz (drop loc ram)))" 
      using less.prems(2) t by (auto simp: string_value_def load_from_def split: if_splits)
    moreover have "cstr (take n xs) = cstr xs" if "0 \<in> set (take n xs)" for n and xs :: bytes
      using that takeWhile_append1 [of 0 "take n xs" "\<lambda>c. c \<noteq> 0" "drop n xs"] by (simp add: cstr_def)
    ultimately have "v = DString (cstr (drop loc ram))" "0 \<in> set (drop loc ram)"
      using set_take_subset [of sz "drop loc ram"] by auto
    moreover from this(2) have "print_chars (drop loc ram) = (puts (concat (map char_text (cstr (drop loc ram)))) :: 's out \<Rightarrow> _)"
      by (intro ext print_chars_text)
    ultimately show ?thesis using t tSTRING by (simp add: braces serialize_scalar_def)
  qed (use less.prems t serialize_scalar_puts in auto)
qed

end
