(* ===== verification/Reload.thy ===== *)
theory Reload
  imports Serialize
begin

unbundle bit_operations_syntax

text \<open>
  The parser of \<^verbatim>\<open>libnklabs/src/nkserialize.c\<close>, \<open>nk_fscan_keyval\<close>, reads back what the serializer writes: for every schema that
  describes the memory of a program, every value that an object of it can have, every input file and every
  place in memory (\<open>loads_value\<close>). The lemmas go from numbers and names over scalars and strings to the loops for
  the parts of arrays, structures and tables; each of them says what is read, what is stored, and that no byte
  outside of the object is changed.
\<close>

section \<open>What a number is in a text\<close>

definition text_hex_num :: "bool \<Rightarrow> bytes \<Rightarrow> bool \<times> number option \<times> bytes" where
  "text_hex_num neg bs =
     (case text_hexnum (-1) bs of
        Some (v, r) \<Rightarrow> (True, Some (if neg then Signed (- v) else Unsigned v), r)
      | None \<Rightarrow> (False, Some (if neg then Signed 0 else Unsigned 0), bs))"

definition text_digits :: "bool \<Rightarrow> bytes \<Rightarrow> bool \<times> number option \<times> bytes" where
  "text_digits neg bs =
     (let (t, r) = span_chars is_digit (-1) bs in
      if is_real (head_of r) then (False, Some (Zero neg), bs)
      else (True, Some (if neg then Signed (- foldl dec_step 0 t) else Unsigned (foldl dec_step 0 t)), r))"

definition text_num :: "bytes \<Rightarrow> bool \<times> number option \<times> bytes" where
  "text_num bs =
     (if head_of bs = 48 \<and> head_of (tl bs) = 120 then text_hex_num False (drop 2 bs)
      else if head_of bs = 45 \<and> head_of (tl bs) = 48 \<and> head_of (drop 2 bs) = 120 then text_hex_num True (drop 3 bs)
      else if is_digit (head_of bs) then text_digits False bs
      else if head_of bs = 45 \<and> is_digit (head_of (tl bs)) then text_digits True (tl bs)
      else if head_of bs = 45 \<and> head_of (tl bs) = 46 then (False, Some (Zero True), tl bs)
      else if head_of bs = 46 then (False, Some (Zero False), bs)
      else (False, None, bs))"

lemma head_of_Nil: "head_of bs \<noteq> -1 \<Longrightarrow> bs = word_of_int (head_of bs) # tl bs"
  by (cases bs) auto

context reader
begin

lemma reads_at:
  assumes "reads data f (as @ bs)"
  shows "unat (nk_ftell f + word_of_nat (length as)) \<le> length data" "drop (unat (nk_ftell f + word_of_nat (length as))) data = bs"
proof -
  obtain p where p: "view f data p" "as @ bs = drop p data" using assms by (auto simp: reads_def)
  have l: "p + length as \<le> length data" "length data < 2 ^ 32"
    using p(2) view_less [OF p(1)] by (metis length_append length_drop add.commute le_add1 le_diff_conv2, simp)
  have t: "unat (nk_ftell f) = p" using ftell_view [OF p(1)] .
  have n: "unat (word_of_nat (length as) :: u32) = length as" using l by (intro unat_of_nat_u32) simp
  have e: "unat (nk_ftell f + word_of_nat (length as)) = p + length as" using t n l by (subst unat_add_no_wrap) simp_all
  show "unat (nk_ftell f + word_of_nat (length as)) \<le> length data" using e l by simp
  show "drop (unat (nk_ftell f + word_of_nat (length as))) data = bs" using e p(2) by (metis append_eq_conv_conj drop_drop add.commute)
qed

lemma char_at_head: "drop p data = bs \<Longrightarrow> char_at data p = head_of bs"
  by (cases "p < length data") (auto simp: char_at_def Cons_nth_drop_Suc [symmetric])

lemma fpeek_rel_reads:
  assumes "reads data f (as @ bs)" "unat n = length as"
  obtains f' where "nk_fpeek_rel f n = Some (head_of bs, f')" "reads data f' (as @ bs)"
proof -
  have n: "n = word_of_nat (length as)" using assms(2) [symmetric] by simp
  obtain p where p: "view f data p" "as @ bs = drop p data" using assms(1) by (auto simp: reads_def)
  from fpeek_rel_view [OF p(1), of n] show ?thesis
    using that p(2) reads_at [OF assms(1)] char_at_head unfolding n reads_def by metis
qed

lemma fseek_rel_reads:
  assumes "reads data f (as @ bs)" "unat n = length as"
  obtains f' where "nk_fseek_rel f n = Some (head_of bs, f')" "reads data f' bs"
proof -
  have n: "n = word_of_nat (length as)" using assms(2) [symmetric] by simp
  obtain p where p: "view f data p" "as @ bs = drop p data" using assms(1) by (auto simp: reads_def)
  from fseek_view [OF p(1), of "nk_ftell f + n"] show ?thesis
    using that reads_at [OF assms(1)] char_at_head unfolding n reads_def nk_fseek_rel_def by metis
qed

lemma ahead_reads:
  assumes "reads data f bs" "so_far \<Longrightarrow> unat n \<le> length bs"
  shows "\<exists>f'. ahead so_far n p f = Some (so_far \<and> p (head_of (drop (unat n) bs)), f') \<and> reads data f' bs"
proof (cases so_far)
  case True
  then have n: "unat n = length (take (unat n) bs)" using assms(2) by simp
  have "reads data f (take (unat n) bs @ drop (unat n) bs)" using assms(1) by simp
  from fpeek_rel_reads [OF this n] obtain f' where "nk_fpeek_rel f n = Some (head_of (drop (unat n) bs), f')" "reads data f' bs"
    by (metis append_take_drop_id)
  then show ?thesis using True by (simp add: ahead_def)
qed (use assms(1) in \<open>simp add: ahead_def\<close>)

lemma digit_head: "is_digit (head_of bs) \<Longrightarrow> bs \<noteq> []" "head_of bs = 48 \<Longrightarrow> bs \<noteq> []" "head_of bs = 45 \<Longrightarrow> bs \<noteq> []" "head_of bs = 46 \<Longrightarrow> bs \<noteq> []"
  by (auto simp: is_digit_def)

lemma tests_read:
  assumes "reads data f bs"
  shows "\<exists>f'. hex_ahead (head_of bs) f = Some (head_of bs = 48 \<and> head_of (tl bs) = 120, f') \<and> reads data f' bs"
    "\<exists>f'. neg_hex_ahead (head_of bs) f = Some (head_of bs = 45 \<and> head_of (tl bs) = 48 \<and> head_of (drop 2 bs) = 120, f') \<and> reads data f' bs"
    "\<exists>f'. neg_digit_ahead (head_of bs) f = Some (head_of bs = 45 \<and> is_digit (head_of (tl bs)), f') \<and> reads data f' bs"
    "\<exists>f'. neg_point_ahead (head_of bs) f = Some (head_of bs = 45 \<and> head_of (tl bs) = 46, f') \<and> reads data f' bs"
proof -
  have one: "\<exists>f'. ahead (head_of bs = c) 1 p g = Some (head_of bs = c \<and> p (head_of (tl bs)), f') \<and> reads data f' bs" if "reads data g bs" "0 \<le> c" for c p g
    using ahead_reads [where so_far = "head_of bs = c" and n = 1 and p = p, OF that(1)] that(2) by (cases bs) auto
  show "\<exists>f'. hex_ahead (head_of bs) f = Some (head_of bs = 48 \<and> head_of (tl bs) = 120, f') \<and> reads data f' bs"
    "\<exists>f'. neg_point_ahead (head_of bs) f = Some (head_of bs = 45 \<and> head_of (tl bs) = 46, f') \<and> reads data f' bs"
    using one [OF assms, of 48 "\<lambda>d. d = 120"] one [OF assms, of 45 "\<lambda>d. d = 46"] by (simp_all add: hex_ahead_def neg_point_ahead_def)
  obtain f1 where f1: "ahead (head_of bs = 45) 1 (\<lambda>d. d = 48) f = Some (head_of bs = 45 \<and> head_of (tl bs) = 48, f1)" "reads data f1 bs"
    using one [OF assms, of 45 "\<lambda>d. d = 48"] by auto
  have "unat (2 :: u32) \<le> length bs" if "head_of bs = 45 \<and> head_of (tl bs) = 48"
    using that by (cases bs; cases "tl bs") auto
  from ahead_reads [where p = "\<lambda>d. d = 120" and so_far = "head_of bs = 45 \<and> head_of (tl bs) = 48", OF f1(2) this]
  show "\<exists>f'. neg_hex_ahead (head_of bs) f = Some (head_of bs = 45 \<and> head_of (tl bs) = 48 \<and> head_of (drop 2 bs) = 120, f') \<and> reads data f' bs"
    using f1(1) by (auto simp: neg_hex_ahead_def)
  obtain f2 where f2: "ahead (head_of bs = 45) 1 (\<lambda>d. 48 \<le> d) f = Some (head_of bs = 45 \<and> 48 \<le> head_of (tl bs), f2)" "reads data f2 bs"
    using one [OF assms, of 45 "\<lambda>d. 48 \<le> d"] by auto
  have "unat (1 :: u32) \<le> length bs" if "head_of bs = 45 \<and> 48 \<le> head_of (tl bs)" using that by (cases bs) auto
  from ahead_reads [where p = "\<lambda>d. d \<le> 57" and so_far = "head_of bs = 45 \<and> 48 \<le> head_of (tl bs)", OF f2(2) this]
  show "\<exists>f'. neg_digit_ahead (head_of bs) f = Some (head_of bs = 45 \<and> is_digit (head_of (tl bs)), f') \<and> reads data f' bs"
    using f2(1) by (auto simp: neg_digit_ahead_def is_digit_def drop_Suc)
qed

lemma dec_digits_reads:
  "reads data f bs \<Longrightarrow> width < 0 \<Longrightarrow>
   \<exists>f'. dec_digits (head_of bs) num f = Some (head_of (snd (span_chars is_digit width bs)), foldl dec_step num (fst (span_chars is_digit width bs)), f')
    \<and> reads data f' (snd (span_chars is_digit width bs))"
proof (induction bs arbitrary: f num width)
  case Nil
  then show ?case by (subst dec_digits.simps) (simp add: is_digit_def)
next
  case (Cons c bs)
  show ?case
  proof (cases "is_digit (uint c)")
    case True
    obtain f1 where f1: "nk_fnext_fast f = Some (head_of bs, f1)" "reads data f1 bs" using reads_next [OF Cons.prems(1)] .
    have "dec_digits (head_of (c # bs)) num f = dec_digits (head_of bs) (dec_step num c) f1"
      using True f1(1) by (subst dec_digits.simps) (simp add: dec_step_def)
    then show ?thesis using Cons.IH [OF f1(2), of "width - 1" "dec_step num c"] True Cons.prems(2)
      by (auto split: prod.splits)
  next
    case False
    then show ?thesis using Cons.prems(1) by (subst dec_digits.simps) simp
  qed
qed

lemma scan_hex_reads:
  assumes "reads data f (as @ bs)" "unat n = length as"
  shows "\<exists>f'. scan_hex neg n f = Some (fst (text_hex_num neg bs), fst (snd (text_hex_num neg bs)), f') \<and> reads data f' (snd (snd (text_hex_num neg bs)))"
proof -
  obtain f1 where f1: "nk_fseek_rel f n = Some (head_of bs, f1)" "reads data f1 bs" using fseek_rel_reads [OF assms] .
  from fscan_hex_reads [OF f1(2), of "-1"] show ?thesis
    using f1(1) by (cases "text_hexnum (-1) bs") (auto simp: scan_hex_def text_hex_num_def)
qed

lemma scan_digits_reads:
  assumes "reads data f bs"
  shows "\<exists>f'. scan_digits neg (head_of bs) f = Some (fst (text_digits neg bs), fst (snd (text_digits neg bs)), f') \<and> reads data f' (snd (snd (text_digits neg bs)))"
proof -
  obtain t r where sp: "span_chars is_digit (-1) bs = (t, r)" by fastforce
  obtain f1 where f1: "dec_digits (head_of bs) 0 f = Some (head_of r, foldl dec_step 0 t, f1)" "reads data f1 r"
    using dec_digits_reads [OF assms, of "-1" 0] sp by auto
  obtain f2 where "nk_fseek f1 (nk_ftell f) = Some (head_of bs, f2)" "reads data f2 bs" using reads_seek [OF f1(2) assms] .
  then show ?thesis using f1 sp by (auto simp: scan_digits_def text_digits_def scan_real_def nk_fscan_double_def)
qed

lemma scan_num_reads:
  assumes "reads data f bs"
  shows "\<exists>f'. scan_num (head_of bs) f = Some (fst (text_num bs), fst (snd (text_num bs)), f') \<and> reads data f' (snd (snd (text_num bs)))"
proof -
  define hx nh dg ng pt where d: "hx = (head_of bs = 48 \<and> head_of (tl bs) = 120)" "nh = (head_of bs = 45 \<and> head_of (tl bs) = 48 \<and> head_of (drop 2 bs) = 120)"
    "dg = is_digit (head_of bs)" "ng = (head_of bs = 45 \<and> is_digit (head_of (tl bs)))" "pt = (head_of bs = 45 \<and> head_of (tl bs) = 46)"
  have spec: "text_num bs = (if hx then text_hex_num False (drop 2 bs) else if nh then text_hex_num True (drop 3 bs)
      else if dg then text_digits False bs else if ng then text_digits True (tl bs) else if pt then (False, Some (Zero True), tl bs)
      else if head_of bs = 46 then (False, Some (Zero False), bs) else (False, None, bs))"
    unfolding text_num_def d ..
  obtain f1 where f1: "hex_ahead (head_of bs) f = Some (hx, f1)" "reads data f1 bs" using tests_read(1) [OF assms] unfolding d by blast
  obtain f2 where f2: "neg_hex_ahead (head_of bs) f1 = Some (nh, f2)" "reads data f2 bs" using tests_read(2) [OF f1(2)] unfolding d by blast
  obtain f3 where f3: "neg_digit_ahead (head_of bs) f2 = Some (ng, f3)" "reads data f3 bs" using tests_read(3) [OF f2(2)] unfolding d by blast
  obtain f4 where f4: "neg_point_ahead (head_of bs) f3 = Some (pt, f4)" "reads data f4 bs" using tests_read(4) [OF f3(2)] unfolding d by blast
  have next_char: "\<exists>f'. nk_fnext_fast g = Some (head_of (tl bs), f') \<and> reads data f' (tl bs)" if "reads data g bs" "head_of bs = 45" for g
  proof -
    have "bs = hd bs # tl bs" using that(2) by (cases bs) auto
    then have "reads data g (hd bs # tl bs)" using that(1) by simp
    from reads_next [OF this] show ?thesis by metis
  qed
  note code = scan_num_def f1(1) f2(1) f3(1) f4(1) spec d(3) [symmetric]
  consider hx | "\<not> hx" nh | "\<not> hx" "\<not> nh" dg | "\<not> hx" "\<not> nh" "\<not> dg" ng | "\<not> hx" "\<not> nh" "\<not> dg" "\<not> ng" pt | "\<not> hx" "\<not> nh" "\<not> dg" "\<not> ng" "\<not> pt" by blast
  then show ?thesis
  proof cases
    case 1
    then have "bs = [48, 120] @ drop 2 bs" unfolding d by (cases bs; cases "tl bs") (auto simp: word_uint_eq_iff)
    then have "reads data f1 ([48, 120] @ drop 2 bs)" using f1(2) by simp
    from scan_hex_reads [where n = 2 and neg = False, OF this] show ?thesis using 1 by (simp add: code)
  next
    case 2
    then have "bs = [45, 48, 120] @ drop 3 bs" unfolding d by (cases bs; cases "tl bs"; cases "tl (tl bs)") (auto simp: word_uint_eq_iff)
    then have "reads data f2 ([45, 48, 120] @ drop 3 bs)" using f2(2) by simp
    from scan_hex_reads [where n = 3 and neg = True, OF this] show ?thesis using 2 by (simp add: code)
  next
    case 3
    then show ?thesis using scan_digits_reads [OF f2(2), of False] by (simp add: code)
  next
    case 4
    obtain f' where f': "nk_fnext_fast f3 = Some (head_of (tl bs), f')" "reads data f' (tl bs)" using next_char [OF f3(2)] 4 d by blast
    then show ?thesis using 4 scan_digits_reads [OF f'(2), of True] by (simp add: code)
  next
    case 5
    obtain f' where f': "nk_fnext_fast f4 = Some (head_of (tl bs), f')" "reads data f' (tl bs)" using next_char [OF f4(2)] 5 d by blast
    then show ?thesis using 5 by (simp add: code scan_real_def nk_fscan_double_def)
  next
    case 6
    then show ?thesis using f4(2) by (simp add: code scan_real_def nk_fscan_double_def)
  qed
qed

end

section \<open>Memory\<close>

definition agree :: "nat set \<Rightarrow> bytes \<Rightarrow> bytes \<Rightarrow> bool" where
  "agree A ram ram' \<longleftrightarrow> length ram' = length ram \<and> (\<forall>i\<in>A. i < length ram \<longrightarrow> ram' ! i = ram ! i)"

lemma agree_refl [simp]: "agree A ram ram"
  by (simp add: agree_def)

lemma agree_length: "agree A ram ram' \<Longrightarrow> length ram' = length ram"
  by (simp add: agree_def)

lemma agree_trans: "agree A r1 r2 \<Longrightarrow> agree B r2 r3 \<Longrightarrow> agree (A \<inter> B) r1 r3"
  by (auto simp: agree_def)

lemma agree_mono: "agree A ram ram' \<Longrightarrow> B \<subseteq> A \<Longrightarrow> agree B ram ram'"
  by (auto simp: agree_def)

lemma agree_load_from:
  assumes "agree A ram ram'" "{i..<i + n} \<subseteq> A"
  shows "load_from ram' i n = load_from ram i n"
proof -
  have "ram' ! (i + k) = ram ! (i + k)" if "i + n \<le> length ram" "k < n" for k
    using assms that by (simp add: agree_def subset_iff)
  then show ?thesis using assms(1) by (auto simp: load_from_def agree_def intro!: nth_equalityI)
qed

lemma agree_deref: "agree A ram ram' \<Longrightarrow> i \<in> A \<Longrightarrow> deref ram' i = deref ram i"
  by (auto simp: deref_def agree_def)

lemma store_at_agree:
  assumes "store_at ram i xs = Some ram'"
  shows "agree (- {i..<i + length xs}) ram ram'" "load_from ram' i (length xs) = Some xs"
  using assms by (auto simp: store_at_def agree_def load_from_def nth_append split: if_splits)

lemma store_at_fits: "i + length xs \<le> length ram \<Longrightarrow> \<exists>ram'. store_at ram i xs = Some ram'"
  by (simp add: store_at_def)

lemma length_le_bytes [simp]: "length (le_bytes n v) = n"
  by (induction n arbitrary: v) simp_all

lemma le_value_bytes: "LENGTH('a) \<le> 8 * n \<Longrightarrow> le_value (le_bytes n v) = (v :: 'a::len word)"
proof -
  have "le_value (le_bytes n v) = take_bit (8 * n) v"
  proof (induction n arbitrary: v)
    case (Suc n)
    have "take_bit (8 * Suc n) v = ucast (ucast v :: u8) OR push_bit 8 (take_bit (8 * n) (drop_bit 8 v))"
    proof (rule bit_word_eqI)
      show "bit (take_bit (8 * Suc n) v) k = bit (ucast (ucast v :: u8) OR push_bit 8 (take_bit (8 * n) (drop_bit 8 v))) k" if "k < LENGTH('a)" for k
        using that by (cases "8 \<le> k") (auto simp: bit_simps)
    qed
    then show ?case using Suc [of "drop_bit 8 v"] by simp
  qed simp
  then show "LENGTH('a) \<le> 8 * n \<Longrightarrow> le_value (le_bytes n v) = v"
    by (simp add: take_bit_word_eq_self)
qed

lemma store_int:
  assumes "loc + 4 \<le> length ram"
  shows "\<exists>ram'. store_at ram loc (le_bytes 4 (v :: u32)) = Some ram' \<and> agree (- {loc..<loc + 4}) ram ram' \<and> load_int ram' loc = Some v"
  using store_at_fits [of loc "le_bytes 4 v" ram] store_at_agree [of ram loc "le_bytes 4 v"] assms
  by (auto simp: load_int_def le_value_bytes)

lemma store_short:
  assumes "loc + 2 \<le> length ram"
  shows "\<exists>ram'. store_at ram loc (le_bytes 2 (v :: u16)) = Some ram' \<and> agree (- {loc..<loc + 2}) ram ram' \<and> load_short ram' loc = Some v"
  using store_at_fits [of loc "le_bytes 2 v" ram] store_at_agree [of ram loc "le_bytes 2 v"] assms
  by (auto simp: load_short_def le_value_bytes)

lemma store_byte:
  assumes "loc < length ram"
  shows "\<exists>ram'. store_at ram loc [v] = Some ram' \<and> agree (- {loc..<loc + 1}) ram ram' \<and> deref ram' loc = Some v"
  using store_at_single [OF assms, of v] store_at_agree [of ram loc "[v]"] assms by (auto simp: deref_def)

lemma items_value_cong:
  assumes "\<And>l. loc \<le> l \<Longrightarrow> l + sz \<le> loc + n * sz \<Longrightarrow> item l = item' l"
  shows "items_value n sz item loc = items_value n sz item' loc"
  using assms
proof (induction n arbitrary: loc)
  case (Suc n)
  have "items_value n sz item (loc + sz) = items_value n sz item' (loc + sz)" by (rule Suc.IH) (rule Suc.prems, auto)
  moreover have "item loc = item' loc" by (rule Suc.prems) auto
  ultimately show ?case by simp
qed simp

lemma members_value_cong:
  assumes "\<And>m. m \<in> set ms \<Longrightarrow> value_of (m_type m) ram (loc + m_offset m) = value_of (m_type m) ram' (loc + m_offset m)"
  shows "members_value ms ram loc = members_value ms ram' loc"
  using assms
proof (induction ms)
  case (Cons m ms)
  obtain name t off tr where "m = Member name t off tr" by (cases m)
  moreover have "members_value ms ram loc = members_value ms ram' loc" by (rule Cons.IH) (rule Cons.prems, simp)
  ultimately show ?case using Cons.prems [of m] by simp
qed simp

lemma scalar_value_agree:
  assumes "agree {loc..<loc + scalar_size w} ram ram'"
  shows "scalar_value w ram' loc = scalar_value w ram loc"
  using agree_load_from [OF assms, of loc "scalar_size w"] agree_deref [OF assms, of loc]
  by (cases w) (simp_all add: scalar_value_def load_int_def load_short_def)

lemma value_of_agree:
  "wf_ty t \<Longrightarrow> agree {loc..<loc + extent t} ram ram' \<Longrightarrow> value_of t ram' loc = value_of t ram loc"
proof (induction t arbitrary: loc rule: measure_induct_rule [of size])
  case (less t)
  obtain w sz ms sub check where t: "t = Ty w sz ms sub check" by (cases t)
  have item: "value_of st ram' l = value_of st ram l" if "sub = Some st" "wf_ty st" "{l..<l + extent st} \<subseteq> {loc..<loc + extent t}" for st l
    using less.IH [of st l] that t agree_mono [OF less.prems(2)] by simp
  have members: "members_value mems ram' l = members_value mems ram l"
    if "\<And>m. m \<in> set mems \<Longrightarrow> size (m_type m) < size t \<and> wf_ty (m_type m) \<and> member_end m \<le> n" "{l..<l + n} \<subseteq> {loc..<loc + extent t}" for mems l n
  proof (rule members_value_cong)
    fix m assume m: "m \<in> set mems"
    have "{l + m_offset m..<l + m_offset m + extent (m_type m)} \<subseteq> {l..<l + n}"
      using that(1) [OF m] by (auto simp: member_end_def)
    then show "value_of (m_type m) ram' (l + m_offset m) = value_of (m_type m) ram (l + m_offset m)"
      using less.IH [of "m_type m" "l + m_offset m"] that(1) [OF m] that(2) agree_mono [OF less.prems(2)] by (meson order_trans)
  qed
  have len: "load_len ram' loc = load_len ram loc" if "w \<in> {tVARRAY, tTABLE}"
    using agree_load_from [OF less.prems(2), of loc 4] t that by (auto simp: load_len_def load_int_def extent_def LEN_SIZE_def)
  have items: "items_value n (ty_size st) (value_of st ram') l = items_value n (ty_size st) (value_of st ram) l"
    if "sub = Some st" "wf_ty st" "element_of st sz" "{l..<l + n * ty_size st} \<subseteq> {loc..<loc + extent t}" for st n l
  proof (rule items_value_cong)
    fix k assume "l \<le> k" "k + ty_size st \<le> l + n * ty_size st"
    then have "{k..<k + extent st} \<subseteq> {l..<l + n * ty_size st}" using that(3) by (auto simp: element_of_def)
    then show "value_of st ram' k = value_of st ram k" using item [OF that(1,2)] that(4) by blast
  qed
  show ?case
  proof (cases w)
    case tSTRUCT
    have "members_value ms ram' loc = members_value ms ram loc"
      by (rule members [of _ sz]) (use less.prems(1) t tSTRUCT size_member [of _ ms] in \<open>auto simp: layout_def extent_def intro: less_SucI trans_less_add1\<close>)
    then show ?thesis using t tSTRUCT by simp
  next
    case tARRAY
    then obtain st where st: "sub = Some st" "wf_ty st" "element_of st sz" using less.prems(1) t by (auto split: option.splits)
    have "sz div ty_size st * ty_size st \<le> sz" by simp
    then have "items_value (sz div ty_size st) (ty_size st) (value_of st ram') loc = items_value (sz div ty_size st) (ty_size st) (value_of st ram) loc"
      by (intro items [OF st]) (auto simp: t tARRAY extent_def)
    then show ?thesis using t tARRAY st by (auto simp: capacity_def)
  next
    case tVARRAY
    then obtain st where st: "sub = Some st" "wf_ty st" "element_of st sz" using less.prems(1) t by (auto split: option.splits)
    have "items_value n (ty_size st) (value_of st ram') (loc + LEN_SIZE) = items_value n (ty_size st) (value_of st ram) (loc + LEN_SIZE)"
      if "n * ty_size st \<le> sz" for n
      by (rule items [OF st]) (use that in \<open>auto simp: t tVARRAY extent_def\<close>)
    then show ?thesis using t tVARRAY st len by (auto intro!: Option.bind_cong)
  next
    case tTABLE
    then obtain ssize sms ssub scheck where st: "sub = Some (Ty tSTRUCT ssize sms ssub scheck)" "layout ssize sms" "\<forall>m\<in>set sms. wf_ty (m_type m)"
      using wf_table [of sz ms sub check] less.prems(1) unfolding t by metis
    have size: "size (m_type m) < size t" if "m \<in> set sms" for m using size_member [OF that] t st(1) by simp
    have "items_value n ssize (members_value sms ram') (loc + LEN_SIZE) = items_value n ssize (members_value sms ram) (loc + LEN_SIZE)"
      if "n * ssize \<le> sz" for n
    proof (rule items_value_cong)
      fix k assume "loc + LEN_SIZE \<le> k" "k + ssize \<le> loc + LEN_SIZE + n * ssize"
      then show "members_value sms ram' k = members_value sms ram k"
        by (intro members [of _ ssize]) (use st size tTABLE that t in \<open>auto simp: layout_def extent_def\<close>)
    qed
    then show ?thesis using t tTABLE st len by (auto intro!: Option.bind_cong)
  next
    case tSTRING
    then show ?thesis using t agree_load_from [OF less.prems(2), of loc sz] by (simp add: string_value_def extent_def)
  qed (use less.prems scalar_value_agree t in \<open>auto simp: extent_def simp del: scalar_size.simps\<close>)
qed

section \<open>Small scans\<close>

abbreviation trim :: "bytes \<Rightarrow> bytes" where
  "trim \<equiv> dropWhile (\<lambda>c. nk_isspace (uint c))"

lemma trim_trim [simp]: "trim (trim bs) = trim bs"
  by (induction bs) auto

lemma spaces [simp]:
  "nk_isspace 32" "\<not> nk_isspace 34" "\<not> nk_isspace 40" "\<not> nk_isspace 41" "\<not> nk_isspace 44" "\<not> nk_isspace 58"
  "\<not> nk_isspace 91" "\<not> nk_isspace 93" "\<not> nk_isspace 123" "\<not> nk_isspace 125" "\<not> nk_isspace (-1)"
  by (simp_all add: nk_isspace_def)

lemma trim_length: "length (trim bs) \<le> length bs"
  by (induction bs) auto

lemma format_items:
  "scan_items '' ,%e'' = [Blank, Lit (CHR '',''), Done]" "scan_items '' :%e'' = [Blank, Lit (CHR '':''), Done]"
  "scan_items '' : %e'' = [Blank, Lit (CHR '':''), Blank, Done]" "scan_items '' )%e'' = [Blank, Lit (CHR '')''), Done]"
  "scan_items ''true %e'' = [Lit (CHR ''t''), Lit (CHR ''r''), Lit (CHR ''u''), Lit (CHR ''e''), Blank, Done]"
  "scan_items ''false %e'' = [Lit (CHR ''f''), Lit (CHR ''a''), Lit (CHR ''l''), Lit (CHR ''s''), Lit (CHR ''e''), Blank, Done]"
  "scan_items ''null %e'' = [Lit (CHR ''n''), Lit (CHR ''u''), Lit (CHR ''l''), Lit (CHR ''l''), Blank, Done]"
  "scan_items ''%i : %e'' = [Conv (CHR ''i'') (-1) 0, Blank, Lit (CHR '':''), Blank, Done]"
  "scan_items '' %i : %e'' = [Blank, Conv (CHR ''i'') (-1) 0, Blank, Lit (CHR '':''), Blank, Done]"
  "scan_items '' %i %e'' = [Blank, Conv (CHR ''i'') (-1) 0, Blank, Done]"
  by (simp_all add: scan_items.simps scan_width_def is_digit_def conv_chars_def)

text \<open>A literal and a name at the start of a text.\<close>

definition lit :: "u8 \<Rightarrow> bytes \<Rightarrow> bytes option" where
  "lit c bs = (case bs of d # r \<Rightarrow> if d = c then Some r else None | [] \<Rightarrow> None)"

lemma ident_end: "ident n \<Longrightarrow> 0 \<notin> set n" "ident n \<Longrightarrow> n \<noteq> [] \<and> hd n \<noteq> 0x22 \<and> \<not> nk_isspace (uint (hd n))"
proof -
  have z: "\<not> ident_char 0" by (simp add: ident_char_def ident_start_def is_digit_def)
  then show "ident n \<Longrightarrow> 0 \<notin> set n" unfolding ident_def by (metis unsigned_0)
  have "c \<noteq> 0x22 \<and> \<not> nk_isspace (uint c)" if "ident_start (uint c)" for c :: u8
    using that by (auto simp: ident_start_def nk_isspace_def)
  then show "ident n \<Longrightarrow> n \<noteq> [] \<and> hd n \<noteq> 0x22 \<and> \<not> nk_isspace (uint (hd n))" by (simp add: ident_def)
qed

context reader
begin

lemma scan_fmt_reads:
  assumes "reads data f bs" "match_items (\<lambda>_ _. None) False (scan_items fmt) [] bs = Some (good, [] :: unit dest list, r)"
  shows "\<exists>f'. scan_fmt f fmt = Some (good, f') \<and> reads data f' (if good then r else bs)"
proof -
  have k: "key_matches no_key (\<lambda>_ _. None)" by (simp add: key_matches_def)
  show ?thesis using vscan_reads [OF k assms] by (auto simp: scan_fmt_def nk_fscan_def)
qed

lemma same_char_lit: "(case bs of d # r \<Rightarrow> if same_char False c d then A r else B | [] \<Rightarrow> B) = (case lit (of_char c) bs of Some r \<Rightarrow> A r | None \<Rightarrow> B)"
proof -
  have "(uint d = chr c) = (d = of_char c)" for d :: u8 using ch_uint [of c] by (metis word_uint_eq_iff)
  then show ?thesis by (cases bs) (simp_all add: lit_def same_char_def)
qed

lemma mark_reads:
  assumes "reads data f bs"
  shows "\<exists>f'. scan_fmt f '' ,%e'' = Some (lit 0x2C (trim bs) \<noteq> None, f') \<and> reads data f' (case lit 0x2C (trim bs) of Some r \<Rightarrow> r | None \<Rightarrow> bs)"
    "\<exists>f'. scan_fmt f '' :%e'' = Some (lit 0x3A (trim bs) \<noteq> None, f') \<and> reads data f' (case lit 0x3A (trim bs) of Some r \<Rightarrow> r | None \<Rightarrow> bs)"
    "\<exists>f'. scan_fmt f '' : %e'' = Some (lit 0x3A (trim bs) \<noteq> None, f') \<and> reads data f' (case lit 0x3A (trim bs) of Some r \<Rightarrow> trim r | None \<Rightarrow> bs)"
    "\<exists>f'. scan_fmt f '' )%e'' = Some (lit 0x29 (trim bs) \<noteq> None, f') \<and> reads data f' (case lit 0x29 (trim bs) of Some r \<Rightarrow> r | None \<Rightarrow> bs)"
proof -
  have "match_items (\<lambda>_ _. None) False (scan_items '' ,%e'') [] bs
      = Some (lit 0x2C (trim bs) \<noteq> None, [], case lit 0x2C (trim bs) of Some r \<Rightarrow> r | None \<Rightarrow> trim bs)"
    by (simp add: format_items same_char_lit split: option.split)
  from scan_fmt_reads [OF assms this]
  show "\<exists>f'. scan_fmt f '' ,%e'' = Some (lit 0x2C (trim bs) \<noteq> None, f') \<and> reads data f' (case lit 0x2C (trim bs) of Some r \<Rightarrow> r | None \<Rightarrow> bs)"
    by (cases "lit 0x2C (trim bs)") auto
  have "match_items (\<lambda>_ _. None) False (scan_items '' :%e'') [] bs
      = Some (lit 0x3A (trim bs) \<noteq> None, [], case lit 0x3A (trim bs) of Some r \<Rightarrow> r | None \<Rightarrow> trim bs)"
    by (simp add: format_items same_char_lit split: option.split)
  from scan_fmt_reads [OF assms this]
  show "\<exists>f'. scan_fmt f '' :%e'' = Some (lit 0x3A (trim bs) \<noteq> None, f') \<and> reads data f' (case lit 0x3A (trim bs) of Some r \<Rightarrow> r | None \<Rightarrow> bs)"
    by (cases "lit 0x3A (trim bs)") auto
  have "match_items (\<lambda>_ _. None) False (scan_items '' : %e'') [] bs
      = Some (lit 0x3A (trim bs) \<noteq> None, [], case lit 0x3A (trim bs) of Some r \<Rightarrow> trim r | None \<Rightarrow> trim bs)"
    by (simp add: format_items same_char_lit split: option.split)
  from scan_fmt_reads [OF assms this]
  show "\<exists>f'. scan_fmt f '' : %e'' = Some (lit 0x3A (trim bs) \<noteq> None, f') \<and> reads data f' (case lit 0x3A (trim bs) of Some r \<Rightarrow> trim r | None \<Rightarrow> bs)"
    by (cases "lit 0x3A (trim bs)") auto
  have "match_items (\<lambda>_ _. None) False (scan_items '' )%e'') [] bs
      = Some (lit 0x29 (trim bs) \<noteq> None, [], case lit 0x29 (trim bs) of Some r \<Rightarrow> r | None \<Rightarrow> trim bs)"
    by (simp add: format_items same_char_lit split: option.split)
  from scan_fmt_reads [OF assms this]
  show "\<exists>f'. scan_fmt f '' )%e'' = Some (lit 0x29 (trim bs) \<noteq> None, f') \<and> reads data f' (case lit 0x29 (trim bs) of Some r \<Rightarrow> r | None \<Rightarrow> bs)"
    by (cases "lit 0x29 (trim bs)") auto
qed

text \<open>A name, and what follows it.\<close>

lemma scan_name_reads:
  assumes f: "reads data f bs" and m: "match_items (\<lambda>_ _. None) False (scan_items fmt) [PStr (replicate 80 0) 80] bs = Some (good, [PStr buf 80] :: unit dest list, r)"
  shows "\<exists>f'. scan_name f fmt = Some (good, cstr buf, f') \<and> reads data f' (if good then r else bs)"
proof -
  have k: "key_matches no_key (\<lambda>_ _. None)" by (simp add: key_matches_def)
  have n: "unat (80 :: u32) = 80" by simp
  show ?thesis using vscan_reads [OF k f m] by (auto simp: scan_name_def nk_fscan_def NKDBASE_MAXIDENTLEN_def n)
qed

lemma ident_arg:
  assumes "ident n" "case r of c # _ \<Rightarrow> \<not> ident_char (uint c) | [] \<Rightarrow> True"
  shows "\<exists>buf. match_arg (\<lambda>_ _. None) False (CHR ''i'') (-1) 0 (n @ r) (PStr (replicate 80 0) 80) = Some (True, PStr buf 80 :: unit dest, r) \<and> cstr buf = n"
proof -
  have n: "n \<noteq> []" "hd n \<noteq> 0x22" "ident_start (uint (hd n))" "length n < 80" "0 \<notin> set n"
    using ident_end [OF assms(1)] assms(1) by (auto simp: ident_def)
  have sp: "span_chars ident_char (-1) (n @ r) = (n, r)"
    using assms by (intro span_all) (auto simp: ident_def)
  have low: "map (lower False) n = n" by (simp add: lower_def map_idI)
  have "text_string ident_start ident_char False (-1) (n @ r) = (Some (n, r), n)"
    using n sp low by (cases n) (auto simp: text_string_def text_plain_def)
  moreover have "\<forall>c\<in>set n. c \<noteq> 0" using n(5) by auto
  then have "cstr (stored_word 80 n (replicate 80 0)) = n"
    using n(4) by (simp add: stored_word_def cstr_def takeWhile_append2)
  ultimately show ?thesis by (simp add: match_arg_def match_string_def)
qed

lemma no_ident_arg:
  assumes "\<not> ident_start (head_of bs)" "head_of bs \<noteq> 34"
  shows "match_arg (\<lambda>_ _. None) False (CHR ''i'') (-1) 0 bs (PStr (replicate 80 0) 80) = Some (False, PStr (replicate 80 0) 80 :: unit dest, bs)"
proof -
  have "text_string ident_start ident_char False (-1) bs = (None, [])"
    using assms by (cases bs) (auto simp: text_string_def)
  then show ?thesis by (simp add: match_arg_def match_string_def filled_def)
qed

lemma member_name_reads:
  assumes "reads data f (n @ 0x3A # r)" "ident n"
  shows "\<exists>f'. scan_name f ''%i : %e'' = Some (True, n, f') \<and> reads data f' (trim r)"
proof -
  have c: "case 0x3A # r of c # _ \<Rightarrow> \<not> ident_char (uint c) | [] \<Rightarrow> True" by (simp add: ident_char_def ident_start_def is_digit_def)
  obtain buf where b: "match_arg (\<lambda>_ _. None) False (CHR ''i'') (-1) 0 (n @ 0x3A # r) (PStr (replicate 80 0) 80) = Some (True, PStr buf 80 :: unit dest, 0x3A # r)" "cstr buf = n"
    using ident_arg [OF assms(2) c] by blast
  have "match_items (\<lambda>_ _. None) False (scan_items ''%i : %e'') [PStr (replicate 80 0) 80 :: unit dest] (n @ 0x3A # r) = Some (True, [PStr buf 80], trim r)"
    using b(1) by (simp add: format_items same_char_lit lit_def)
  from scan_name_reads [OF assms(1) this] show ?thesis using b(2) by simp
qed

lemma column_name_reads:
  assumes "reads data f bs" "trim bs = n @ 0x20 # r" "ident n"
  shows "\<exists>f'. scan_name f '' %i %e'' = Some (True, n, f') \<and> reads data f' (trim r)"
proof -
  have c: "case 0x20 # r of c # _ \<Rightarrow> \<not> ident_char (uint c) | [] \<Rightarrow> True" by (simp add: ident_char_def ident_start_def is_digit_def)
  obtain buf where b: "match_arg (\<lambda>_ _. None) False (CHR ''i'') (-1) 0 (n @ 0x20 # r) (PStr (replicate 80 0) 80) = Some (True, PStr buf 80 :: unit dest, 0x20 # r)" "cstr buf = n"
    using ident_arg [OF assms(3) c] by blast
  have "match_items (\<lambda>_ _. None) False (scan_items '' %i %e'') [PStr (replicate 80 0) 80 :: unit dest] bs = Some (True, [PStr buf 80], trim r)"
    using b(1) assms(2) by (simp add: format_items)
  from scan_name_reads [OF assms(1) this] show ?thesis using b(2) by simp
qed

lemma no_name_reads:
  assumes "reads data f bs" "\<not> ident_start (head_of (trim bs))" "head_of (trim bs) \<noteq> 34"
  shows "\<exists>n f'. scan_name f '' %i %e'' = Some (False, n, f') \<and> reads data f' bs"
    "trim bs = bs \<Longrightarrow> \<exists>n f'. scan_name f ''%i : %e'' = Some (False, n, f') \<and> reads data f' bs"
proof -
  note no = no_ident_arg [OF assms(2,3)]
  have "match_items (\<lambda>_ _. None) False (scan_items '' %i %e'') [PStr (replicate 80 0) 80 :: unit dest] bs = Some (False, [PStr (replicate 80 0) 80], trim bs)"
    using no by (simp add: format_items)
  from scan_name_reads [OF assms(1) this] show "\<exists>n f'. scan_name f '' %i %e'' = Some (False, n, f') \<and> reads data f' bs" by auto
  have "match_items (\<lambda>_ _. None) False (scan_items ''%i : %e'') [PStr (replicate 80 0) 80 :: unit dest] bs = Some (False, [PStr (replicate 80 0) 80], bs)" if "trim bs = bs"
    using no that by (simp add: format_items)
  from scan_name_reads [OF assms(1) this] show "trim bs = bs \<Longrightarrow> \<exists>n f'. scan_name f ''%i : %e'' = Some (False, n, f') \<and> reads data f' bs" by auto
qed

lemma bool_reads:
  assumes "reads data f (map of_char (if b then ''true'' else ''false'') @ r)"
  shows "\<exists>f'. scan_fmt f ''true %e'' = Some (b, f') \<and> reads data f' (if b then trim r else map of_char ''false'' @ r)"
    "\<not> b \<Longrightarrow> \<exists>f'. scan_fmt f ''false %e'' = Some (True, f') \<and> reads data f' (trim r)"
proof -
  have "match_items (\<lambda>_ _. None) False (scan_items ''true %e'') [] (map of_char (if b then ''true'' else ''false'') @ r)
      = Some (b, [], if b then trim r else map of_char ''false'' @ r)"
    by (cases b) (simp_all add: format_items same_char_def)
  from scan_fmt_reads [OF assms this] show "\<exists>f'. scan_fmt f ''true %e'' = Some (b, f') \<and> reads data f' (if b then trim r else map of_char ''false'' @ r)"
    by (cases b) simp_all
  have "match_items (\<lambda>_ _. None) False (scan_items ''false %e'') [] (map of_char (if b then ''true'' else ''false'') @ r) = Some (True, [], trim r)" if "\<not> b"
    using that by (simp add: format_items same_char_def)
  from scan_fmt_reads [OF assms this] show "\<not> b \<Longrightarrow> \<exists>f'. scan_fmt f ''false %e'' = Some (True, f') \<and> reads data f' (trim r)" by simp
qed

lemma skip_commas_reads:
  assumes "reads data f bs" "lit 0x2C (trim bs) = None"
  shows "\<exists>f'. skip_commas f = Some f' \<and> reads data f' bs"
proof -
  obtain f1 where "scan_fmt f '' ,%e'' = Some (False, f1)" "reads data f1 bs" using mark_reads(1) [OF assms(1)] assms(2) by auto
  then show ?thesis by (auto simp: skip_commas_def loop.simps)
qed

lemma skip_comma_reads:
  assumes "reads data f bs" "trim bs = 0x2C # r" "lit 0x2C (trim r) = None"
  shows "\<exists>f'. skip_commas f = Some f' \<and> reads data f' r"
proof -
  obtain f1 where f1: "scan_fmt f '' ,%e'' = Some (True, f1)" "reads data f1 r" using mark_reads(1) [OF assms(1)] assms(2) by (auto simp: lit_def)
  have "skip_commas f = skip_commas f1" using f1(1) unfolding skip_commas_def by (subst loop.simps) simp
  then show ?thesis using skip_commas_reads [OF f1(2) assms(3)] by simp
qed

end

section \<open>The text of a value is read back\<close>

definition stops :: "bytes \<Rightarrow> bool" where
  "stops bs \<longleftrightarrow> \<not> is_digit (head_of bs) \<and> \<not> is_real (head_of bs) \<and> head_of bs \<noteq> 120"

text \<open>The first character of a text.\<close>

lemma decimal_text: "c \<in> set (number_text 10 False n) \<Longrightarrow> is_digit (uint c)" "number_text 10 False n \<noteq> []"
proof -
  have "list_all (\<lambda>d. d < 10) (if n = 0 then [0] else num_digits 10 n)" using digits_value_num [of 10 n] by simp
  then show "c \<in> set (number_text 10 False n) \<Longrightarrow> is_digit (uint c)"
    using digit_chars(1) unfolding number_text_def by (auto simp: list_all_iff is_digit_def split: if_splits)
  show "number_text 10 False n \<noteq> []" by (auto simp: number_text_def num_digits_eq_Nil)
qed

lemma text_starts: "\<exists>c r. dval_text v = c # r \<and> \<not> nk_isspace (uint c) \<and> c \<noteq> 0x2C \<and> c \<noteq> 0x5D \<and> c \<noteq> 0x3A \<and> c \<noteq> 0x29"
proof (cases v)
  case (DInt k)
  obtain c r where "number_text 10 False (nat \<bar>k\<bar>) = c # r" using decimal_text(2) by (metis list.exhaust)
  moreover from this have "is_digit (uint c)" using decimal_text(1) [of c "nat \<bar>k\<bar>"] by simp
  ultimately show ?thesis using DInt by (auto simp: int_text_def is_digit_def nk_isspace_def)
qed (auto simp: nk_isspace_def)

lemma int_text_read:
  assumes "stops rest"
  shows "text_num (int_text k @ rest) = (True, Some (if k < 0 then Signed (- word_of_nat (nat \<bar>k\<bar>)) else Unsigned (word_of_nat (nat \<bar>k\<bar>))), rest)"
proof -
  define t where "t = number_text 10 False (nat \<bar>k\<bar>)"
  have digits: "is_digit (uint c)" if "c \<in> set t" for c using decimal_text(1) that by (simp add: t_def)
  obtain c cs where c: "t = c # cs" using decimal_text(2) t_def by (metis list.exhaust)
  have stop: "case rest of c # _ \<Rightarrow> \<not> is_digit (uint c) | [] \<Rightarrow> True" using assms by (cases rest) (simp_all add: stops_def)
  have sp: "span_chars is_digit (-1) (t @ rest) = (t, rest)" "foldl dec_step 0 t = word_of_nat (nat \<bar>k\<bar>)"
    using number_text_read [of 10 dec_step is_digit rest "nat \<bar>k\<bar>"] digit_chars stop by (auto simp: t_def)
  have second: "head_of (cs @ rest) \<noteq> 120"
    using assms digits [of "hd cs"] c by (cases cs) (auto simp: stops_def is_digit_def)
  have dg: "is_digit (uint c)" using digits c by simp
  have text_digits: "text_digits neg (t @ rest) = (True, Some (if neg then Signed (- word_of_nat (nat \<bar>k\<bar>)) else Unsigned (word_of_nat (nat \<bar>k\<bar>))), rest)" for neg
    using sp assms by (simp add: text_digits_def stops_def)
  show ?thesis
  proof (cases "k < 0")
    case True
    then have "int_text k = 45 # t" by (simp add: int_text_def t_def)
    then show ?thesis using text_digits [of True] True dg second c by (auto simp: text_num_def drop_Suc is_digit_def)
  next
    case False
    then have "int_text k = t" by (simp add: int_text_def t_def)
    moreover have "text_num (t @ rest) = text_digits False (t @ rest)"
      using dg second c by (auto simp: text_num_def is_digit_def)
    ultimately show ?thesis using text_digits [of False] False by simp
  qed
qed

lemma ucast_of_int: "LENGTH('a) \<le> 64 \<Longrightarrow> ucast (word_of_int k :: u64) = (word_of_int k :: 'a::len word)"
  by (rule bit_word_eqI) (simp add: bit_simps)

lemma number_bits_text: "number_bits (if k < 0 then Signed (- word_of_nat (nat \<bar>k\<bar>)) else Unsigned (word_of_nat (nat \<bar>k\<bar>))) = word_of_int k"
proof (cases "k < 0")
  case True
  then have "- word_of_nat (nat \<bar>k\<bar>) = (word_of_int (- int (nat \<bar>k\<bar>)) :: u64)" by simp
  then show ?thesis using True by simp
next
  case False
  then have "word_of_nat (nat \<bar>k\<bar>) = (word_of_int (int (nat \<bar>k\<bar>)) :: u64)" by simp
  then show ?thesis using False by simp
qed

lemma store_integer_value:
  assumes v: "scalar_value w ram0 l0 = Some (DInt k)" and n: "number_bits n = word_of_int k" and fits: "loc + scalar_size w \<le> length ram"
  shows "\<exists>ram'. store_integer w (Some n) ram loc = Some ram' \<and> agree (- {loc..<loc + scalar_size w}) ram ram' \<and> scalar_value w ram' loc = Some (DInt k)"
proof -
  have four: "\<exists>ram'. store_at ram loc (le_bytes 4 (ucast (number_bits n) :: u32)) = Some ram' \<and> agree (- {loc..<loc + 4}) ram ram' \<and> load_int ram' loc = Some (word_of_int k)"
    if "loc + 4 \<le> length ram" using store_int [OF that, of "word_of_int k"] n by (simp add: ucast_of_int)
  have two: "\<exists>ram'. store_at ram loc (le_bytes 2 (ucast (number_bits n) :: u16)) = Some ram' \<and> agree (- {loc..<loc + 2}) ram ram' \<and> load_short ram' loc = Some (word_of_int k)"
    if "loc + 2 \<le> length ram" using store_short [OF that, of "word_of_int k"] n by (simp add: ucast_of_int)
  have one: "\<exists>ram'. store_at ram loc [ucast (number_bits n)] = Some ram' \<and> agree (- {loc..<loc + 1}) ram ram' \<and> deref ram' loc = Some (word_of_int k)"
    if "loc < length ram" using store_byte [OF that, of "word_of_int k"] n by (simp add: ucast_of_int)
  show ?thesis
  proof (cases w)
    case tINT
    then have "sint (word_of_int k :: u32) = k" using v by (auto simp: scalar_value_def)
    then show ?thesis using four fits tINT by (auto simp: store_integer_def scalar_value_def)
  next
    case tUINT
    then have "uint (word_of_int k :: u32) = k" using v by (auto simp: scalar_value_def)
    then show ?thesis using four fits tUINT by (auto simp: store_integer_def scalar_value_def)
  next
    case tINT8
    then have "uint (word_of_int k :: u8) = k" using v by (auto simp: scalar_value_def)
    then show ?thesis using one fits tINT8 by (auto simp: store_integer_def scalar_value_def)
  next
    case tUINT8
    then have "uint (word_of_int k :: u8) = k" using v by (auto simp: scalar_value_def)
    then show ?thesis using one fits tUINT8 by (auto simp: store_integer_def scalar_value_def)
  next
    case tINT16
    then have "sint (word_of_int k :: u16) = k" using v by (auto simp: scalar_value_def)
    then show ?thesis using two fits tINT16 by (auto simp: store_integer_def scalar_value_def)
  next
    case tUINT16
    then have "uint (word_of_int k :: u16) = k" using v by (auto simp: scalar_value_def)
    then show ?thesis using two fits tUINT16 by (auto simp: store_integer_def scalar_value_def)
  qed (use v in \<open>auto simp: scalar_value_def\<close>)
qed

text \<open>A character is written so that its escape reads it.\<close>

lemma hex_digit_value: "d < 16 \<Longrightarrow> hex_value (uint (digit_char False d)) = int d"
  using uint_digit_char [of d] by (auto simp: hex_value_def is_digit_def)

lemma char_text_read: "text_escape (char_text c @ r) = (uint c, r)"
proof -
  have "unat c div 16 < 16" using unat_u8_less [of c] by (intro less_mult_imp_div_less) simp
  moreover have "unat c mod 16 < 16" by simp
  moreover have "int (unat c div 16) * 16 + int (unat c mod 16) = int (unat c)"
    by (metis of_nat_add of_nat_mult div_mult_mod_eq of_nat_numeral)
  moreover have "int (unat c) = uint c" by simp
  ultimately have "text_hex (digit_char False (unat c div 16) # digit_char False (unat c mod 16) # r) = (uint c, r)"
    using hex_chars(1) hex_digit_value unfolding text_hex.simps list.case by presburger
  then show ?thesis by (auto simp: char_text_def escape_code_def simp del: text_hex.simps)
qed

lemma char_text_starts: "\<exists>d t. char_text c = d # t \<and> d \<noteq> 0x22"
  by (simp add: char_text_def)

context reader
begin

text \<open>A type loads a value when its text, wherever it stands in a file, is parsed into an object with the value, at any place in memory
  and without a change outside the object.\<close>

definition loads :: "fp \<Rightarrow> ty \<Rightarrow> dval \<Rightarrow> bool" where
  "loads fp t v \<longleftrightarrow> (\<forall>loc f ram data rest. loc + extent t \<le> length ram \<longrightarrow> reads data f (dval_text v @ rest) \<longrightarrow> stops rest \<longrightarrow>
     (\<exists>f' ram' r. nk_fscan_keyval fp t loc f ram = Some (True, f', ram') \<and> reads data f' r \<and> trim r = trim rest
        \<and> agree (- {loc..<loc + extent t}) ram ram' \<and> value_of t ram' loc = Some v))"

lemma loadsD:
  assumes "loads fp t v" "loc + extent t \<le> length ram" "reads data f (dval_text v @ rest)" "stops rest"
  obtains f' ram' r where "nk_fscan_keyval fp t loc f ram = Some (True, f', ram')" "reads data f' r" "trim r = trim rest"
    "agree (- {loc..<loc + extent t}) ram ram'" "value_of t ram' loc = Some v"
  using assms unfolding loads_def by blast

lemma keyval_end_good: "case check of Some check \<Rightarrow> \<forall>ram loc. check ram loc \<noteq> 0 | None \<Rightarrow> True \<Longrightarrow> keyval_end check loc orgpos True f ram = Some (True, f, ram)"
  by (cases check) (simp_all add: keyval_end_def)

lemma wf_check: "wf_ty t \<Longrightarrow> case ty_check t of Some check \<Rightarrow> \<forall>ram loc. check ram loc \<noteq> 0 | None \<Rightarrow> True"
  by (cases t) simp

lemma loads_int:
  assumes wf: "wf_ty t" and w: "ty_what t \<notin> {tBOOL, tSTRING, tSTRUCT, tARRAY, tVARRAY, tTABLE}" and v: "value_of t ram0 l0 = Some v"
  shows "loads fp t v"
  unfolding loads_def
proof (intro allI impI)
  fix loc f and ram data rest :: bytes
  assume fits: "loc + extent t \<le> length ram" and r: "reads data f (dval_text v @ rest)" and stop: "stops rest"
  obtain w sz ms sub check where t: "t = Ty w sz ms sub check" by (cases t)
  have ws: "w \<in> {tINT, tUINT, tINT8, tUINT8, tINT16, tUINT16}" using wf w t by (cases w) simp_all
  then have sv: "scalar_value w ram0 l0 = Some v" and sz: "extent t = scalar_size w" using v wf t by (cases w; auto simp: extent_def)+
  obtain k where k: "v = DInt k" using sv ws by (cases w) (auto simp: scalar_value_def)
  define n where "n = (if k < 0 then Signed (- word_of_nat (nat \<bar>k\<bar>)) else Unsigned (word_of_nat (nat \<bar>k\<bar>)))"
  have num: "text_num (int_text k @ rest) = (True, Some n, rest)" unfolding n_def by (rule int_text_read [OF stop])
  obtain f1 where f1: "scan_num (head_of (int_text k @ rest)) f = Some (True, Some n, f1)" "reads data f1 rest"
    using scan_num_reads [of data f "int_text k @ rest"] r k num by auto
  obtain ram' where ram': "store_integer w (Some n) ram loc = Some ram'" "agree (- {loc..<loc + scalar_size w}) ram ram'" "scalar_value w ram' loc = Some (DInt k)"
    using store_integer_value [OF sv [unfolded k], of n loc ram] fits sz number_bits_text unfolding n_def by auto
  have peek: "nk_fpeek f = Some (head_of (int_text k @ rest))" using reads_peek [OF r] k by simp
  have "nk_fscan_keyval fp t loc f ram = Some (True, f1, ram')"
    using ws peek f1(1) ram'(1) keyval_end_good wf_check [OF wf] t
    by (subst nk_fscan_keyval.simps) (auto simp del: scalar_size.simps)
  moreover have "value_of t ram' loc = Some v" using ram'(3) k t ws by auto
  ultimately show "\<exists>f' ram' r. nk_fscan_keyval fp t loc f ram = Some (True, f', ram') \<and> reads data f' r \<and> trim r = trim rest
      \<and> agree (- {loc..<loc + extent t}) ram ram' \<and> value_of t ram' loc = Some v"
    using f1(2) ram'(2) sz by auto
qed

lemma loads_bool:
  assumes wf: "wf_ty t" and w: "ty_what t = tBOOL" and v: "value_of t ram0 l0 = Some v"
  shows "loads fp t v"
  unfolding loads_def
proof (intro allI impI)
  fix loc f and ram data rest :: bytes
  assume fits: "loc + extent t \<le> length ram" and r: "reads data f (dval_text v @ rest)" and stop: "stops rest"
  obtain sz ms sub check where t: "t = Ty tBOOL sz ms sub check" using w by (cases t) simp
  obtain b where b: "v = DBool b" using v t by (auto simp: scalar_value_def)
  have ex: "extent t = 4" using wf t by (simp add: extent_def)
  obtain ram' where ram': "store_at ram loc (le_bytes 4 (of_bool b :: u32)) = Some ram'" "agree (- {loc..<loc + 4}) ram ram'" "load_int ram' loc = Some (of_bool b)"
    using store_int [of loc ram "of_bool b"] fits ex by auto
  have r': "reads data f (map of_char (if b then ''true'' else ''false'') @ rest)" using r unfolding b dval_text.simps .
  obtain f1 where f1: "scan_fmt f ''true %e'' = Some (b, f1)" "reads data f1 (if b then trim rest else map of_char ''false'' @ rest)"
    using bool_reads(1) [OF r'] by blast
  have "\<exists>f2. (if b then f2 = f1 else scan_fmt f1 ''false %e'' = Some (True, f2)) \<and> reads data f2 (trim rest)"
  proof (cases b)
    case False
    then show ?thesis using f1(2) bool_reads(2) [of data f1 False rest] by simp
  qed (use f1(2) in simp)
  then obtain f2 where f2: "if b then f2 = f1 else scan_fmt f1 ''false %e'' = Some (True, f2)" "reads data f2 (trim rest)" by blast
  have peek: "nk_fpeek f = Some (head_of (dval_text v @ rest))" using reads_peek [OF r] .
  have "nk_fscan_keyval fp t loc f ram = Some (True, f2, ram')"
    unfolding nk_fscan_keyval.simps [of fp t] w what.case peek Option.bind.bind_lunit f1(1) prod.case Let_def
    using f2(1) ram'(1) keyval_end_good wf_check [OF wf] by (cases b) simp_all
  moreover have "value_of t ram' loc = Some v" using ram'(3) b t by (simp add: scalar_value_def)
  ultimately show "\<exists>f' ram' r. nk_fscan_keyval fp t loc f ram = Some (True, f', ram') \<and> reads data f' r \<and> trim r = trim rest
      \<and> agree (- {loc..<loc + extent t}) ram ram' \<and> value_of t ram' loc = Some v"
    using f2(2) ram'(2) ex by auto
qed

text \<open>The characters of a string, one after the other.\<close>

lemma chars_loop:
  assumes "loc + unat room < length ram"
  shows "reads data f (concat (map char_text s) @ 0x22 # rest) \<Longrightarrow> length start + length s \<le> unat room \<Longrightarrow>
    \<exists>f'. loop (chars_step room loc) (head_of (concat (map char_text s) @ 0x22 # rest), f, word_of_nat (length start),
        take loc ram @ start @ drop (loc + length start) ram)
      = Some (0x22, f', word_of_nat (length (start @ s)), take loc ram @ (start @ s) @ drop (loc + length (start @ s)) ram)
     \<and> reads data f' (0x22 # rest)"
proof (induction s arbitrary: f start)
  case Nil
  then show ?case by (subst loop.simps) (simp add: chars_step_def)
next
  case (Cons c s)
  let ?r = "concat (map char_text s) @ 0x22 # rest"
  have rd: "reads data f (char_text c @ ?r)" using Cons.prems(1) by simp
  obtain f1 where f1: "nk_fscan_escape f = Some (uint c, f1)" "reads data f1 ?r"
    using escape_reads [OF rd] unfolding char_text_read by auto
  obtain d t where d: "char_text c = d # t" "d \<noteq> 0x22" using char_text_starts by blast
  have head: "head_of (concat (map char_text (c # s)) @ 0x22 # rest) = uint d" "uint d \<noteq> -1" "uint d \<noteq> 34" using d by (auto simp: word_uint_eq_iff)
  have len: "unat (word_of_nat (length start) :: u32) = length start" using le_less_trans [OF add_leD1 [OF Cons.prems(2)] unat_u32_less] by (rule unat_of_nat_u32)
  have "word_of_nat (length start) \<noteq> room" using len Cons.prems(2) by auto
  have st: "store_at (take loc ram @ start @ drop (loc + length start) ram) (loc + length start) [c]
      = Some (take loc ram @ (start @ [c]) @ drop (loc + length (start @ [c])) ram)"
    using assms Cons.prems(2) by (simp add: store_at_def)
  have "loop (chars_step room loc) (head_of (concat (map char_text (c # s)) @ 0x22 # rest), f, word_of_nat (length start), take loc ram @ start @ drop (loc + length start) ram)
      = loop (chars_step room loc) (head_of ?r, f1, word_of_nat (length (start @ [c])), take loc ram @ (start @ [c]) @ drop (loc + length (start @ [c])) ram)"
    unfolding head(1)
    using head(2,3) f1(1) len \<open>word_of_nat (length start) \<noteq> room\<close> st reads_peek [OF f1(2)] uint_not_minus_1 [of c]
    by (subst loop.simps) (simp add: chars_step_def add.commute)
  moreover have "length (start @ [c]) + length s \<le> unat room" using Cons.prems(2) by simp
  ultimately show ?case using Cons.IH [OF f1(2), of "start @ [c]"] by simp
qed

lemma loads_string:
  assumes wf: "wf_ty t" and w: "ty_what t = tSTRING" and v: "value_of t ram0 l0 = Some v"
  shows "loads fp t v"
  unfolding loads_def
proof (intro allI impI)
  fix loc f and ram data rest :: bytes
  assume fits: "loc + extent t \<le> length ram" and r: "reads data f (dval_text v @ rest)" and stop: "stops rest"
  obtain sz ms sub check where t: "t = Ty tSTRING sz ms sub check" using w by (cases t) simp
  obtain bs where bs: "load_from ram0 l0 sz = Some bs" "0 \<in> set bs" "v = DString (cstr bs)"
    using v t by (auto simp: string_value_def split: bind_splits if_splits)
  have sz: "0 < sz" "sz < 2 ^ 32" "extent t = sz" using wf t by (simp_all add: extent_def)
  define s where "s = cstr bs"
  have s: "length s < sz" "0 \<notin> set s"
  proof -
    have "length bs = sz" using bs(1) by (auto simp: load_from_def split: if_splits)
    moreover have "takeWhile (\<lambda>c. c \<noteq> 0) bs \<noteq> bs" using bs(2) by (metis (full_types) takeWhile_eq_all_conv)
    ultimately show "length s < sz" unfolding s_def cstr_def
      by (metis le_neq_implies_less length_takeWhile_le takeWhile_eq_take take_all order_refl)
    show "0 \<notin> set s" unfolding s_def cstr_def using set_takeWhileD by fastforce
  qed
  let ?room = "word_of_nat sz - 1 :: u32"
  have room: "unat ?room = sz - 1" using sz by (subst unat_sub_no_wrap) (simp_all add: unat_of_nat_u32)
  let ?body = "concat (map char_text s) @ 0x22 # rest"
  have r': "reads data f (0x22 # ?body)" using r bs(3) by (simp add: s_def)
  obtain f1 where f1: "nk_fnext_fast f = Some (head_of ?body, f1)" "reads data f1 ?body" using reads_next [OF r'] .
  have "length s \<le> sz - Suc 0" using s(1) by simp
  moreover have "loc + unat ?room < length ram" using fits sz room by simp
  note chars_loop [where start = "[]" and s = s and rest = rest and f = f1 and data = data, OF this]
  ultimately obtain f2 where
    f2: "loop (chars_step ?room loc) (head_of ?body, f1, 0, ram) = Some (0x22, f2, word_of_nat (length s), take loc ram @ s @ drop (loc + length s) ram)"
      "reads data f2 (0x22 # rest)" using f1(2) room by auto
  obtain f3 where f3: "nk_fnext_fast f2 = Some (head_of rest, f3)" "reads data f3 rest" using reads_next [OF f2(2)] .
  let ?ram = "take loc ram @ (s @ [0]) @ drop (loc + length s + 1) ram"
  have len: "unat (word_of_nat (length s) :: u32) = length s" using s(1) sz(2) by (intro unat_of_nat_u32) simp
  have st: "store_at (take loc ram @ s @ drop (loc + length s) ram) (loc + length s) [0] = Some ?ram"
    using fits sz s(1) by (simp add: store_at_def)
  have "parse_chars ?room loc f1 (head_of ?body) ram = Some (True, f3, ?ram)"
    unfolding parse_chars_def using f2(1) f3(1) st len by (simp add: chars_step_def)
  then have "nk_fscan_keyval fp t loc f ram = Some (True, f3, ?ram)"
    using reads_peek [OF r'] f1(1) keyval_end_good wf_check [OF wf] t by (subst nk_fscan_keyval.simps) simp
  moreover have "agree (- {loc..<loc + sz}) ram ?ram" using fits sz s(1) by (auto simp: agree_def nth_append min_def)
  moreover have "value_of t ?ram loc = Some v"
  proof -
    have "load_from ?ram loc sz = Some (s @ 0 # take (sz - length s - 1) (drop (loc + length s + 1) ram))"
    proof -
      obtain k where k: "sz = Suc (length s + k)" using s(1) less_imp_Suc_add by blast
      then show ?thesis using fits sz(3) by (simp add: load_from_def)
    qed
    moreover have "cstr (s @ 0 # x) = s" for x using s(2) by (auto simp: cstr_def takeWhile_append)
    ultimately show ?thesis using t bs(3) by (simp add: string_value_def s_def)
  qed
  ultimately show "\<exists>f' ram' r. nk_fscan_keyval fp t loc f ram = Some (True, f', ram') \<and> reads data f' r \<and> trim r = trim rest
      \<and> agree (- {loc..<loc + extent t}) ram ram' \<and> value_of t ram' loc = Some v"
    using f3(2) sz(3) by blast
qed

end

text \<open>The elements of an array behind one another.\<close>

lemma trim_text [simp]: "trim (dval_text v @ r) = dval_text v @ r"
  using text_starts [of v] by auto

definition items_text :: "dval list \<Rightarrow> bytes \<Rightarrow> bytes" where
  "items_text vs rest = join [0x2C, 0x20] (map dval_text vs) @ 0x5D # rest"

lemma items_text_Cons: "items_text (v # vs) rest = dval_text v @ (if vs = [] then 0x5D # rest else 0x2C # 0x20 # items_text vs rest)"
  by (cases vs) (simp_all add: items_text_def)

lemma trim_items_text: "trim (items_text vs rest) = items_text vs rest"
  by (cases vs) (simp_all add: items_text_Cons, simp add: items_text_def)

context reader
begin

lemma item_loads:
  assumes load: "loads fp st v" and b: "base + idx + extent st \<le> length ram" "idx < sz"
    and f: "reads data f bs" "trim bs = dval_text v @ T" and T: "stops T" "trim T = T"
  obtains f' ram' r where "loop (items_step (\<lambda>idx. nk_fscan_keyval fp st (base + idx)) sz item) (idx, True, f, ram)
      = loop (items_step (\<lambda>idx. nk_fscan_keyval fp st (base + idx)) sz item) (idx + item, True, f', ram')"
    "reads data f' r" "trim r = T" "agree (- {base + idx..<base + idx + extent st}) ram ram'" "value_of st ram' (base + idx) = Some v"
proof -
  obtain f1 where f1: "nk_fscan_ws f = Some f1" "reads data f1 (dval_text v @ T)" using fscan_ws_reads [OF f(1)] f(2) by auto
  obtain c cs where c: "dval_text v = c # cs" "c \<noteq> 0x2C" "c \<noteq> 0x5D" using text_starts by blast
  have peek: "nk_fpeek f1 = Some (uint c)" using reads_peek [OF f1(2)] c(1) by simp
  have ne: "uint c \<noteq> -1" "uint c \<noteq> 44" "uint c \<noteq> 93" using c(2,3) uint_not_minus_1 [of c] by (auto simp: word_uint_eq_iff)
  obtain f2 ram2 r where p: "nk_fscan_keyval fp st (base + idx) f1 ram = Some (True, f2, ram2)" "reads data f2 r" "trim r = trim T"
    "agree (- {base + idx..<base + idx + extent st}) ram ram2" "value_of st ram2 (base + idx) = Some v"
    using loadsD [OF load b(1) f1(2) T(1)] .
  have "loop (items_step (\<lambda>idx. nk_fscan_keyval fp st (base + idx)) sz item) (idx, True, f, ram)
      = loop (items_step (\<lambda>idx. nk_fscan_keyval fp st (base + idx)) sz item) (idx + item, True, f2, ram2)"
    using f1(1) peek ne b(2) p(1) by (subst loop.simps) (simp add: items_step_def)
  then show ?thesis using that p T(2) by simp
qed

lemma comma_step:
  assumes "reads data f bs" "trim bs = 0x2C # 0x20 # r"
  obtains f' where "loop (items_step parse sz item) (idx, rtn, f, ram) = loop (items_step parse sz item) (idx, rtn, f', ram)" "reads data f' (0x20 # r)"
proof -
  obtain f1 where f1: "nk_fscan_ws f = Some f1" "reads data f1 (0x2C # 0x20 # r)" using fscan_ws_reads [OF assms(1)] assms(2) by auto
  obtain f2 where f2: "nk_fnext_fast f1 = Some (head_of (0x20 # r), f2)" "reads data f2 (0x20 # r)" using reads_next [OF f1(2)] .
  have "loop (items_step parse sz item) (idx, rtn, f, ram) = loop (items_step parse sz item) (idx, rtn, f2, ram)"
    using f1(1) reads_peek [OF f1(2)] f2(1) by (subst loop.simps) (simp add: items_step_def)
  then show ?thesis using that f2(2) by blast
qed

lemma items_loop:
  assumes wf: "wf_ty st" and el: "0 < item" "extent st \<le> item"
  shows "\<forall>v\<in>set vs. loads fp st v \<Longrightarrow> idx + item * length vs \<le> sz \<Longrightarrow> base + idx + item * length vs \<le> length ram \<Longrightarrow> reads data f bs \<Longrightarrow>
      trim bs = items_text vs rest \<or> (vs \<noteq> [] \<and> trim bs = 0x2C # 0x20 # items_text vs rest) \<Longrightarrow>
    \<exists>f' ram'. loop (items_step (\<lambda>idx. nk_fscan_keyval fp st (base + idx)) sz item) (idx, True, f, ram) = Some (idx + item * length vs, True, f', ram')
      \<and> reads data f' (0x5D # rest) \<and> agree (- {base + idx..<base + idx + item * length vs}) ram ram'
      \<and> items_value (length vs) item (value_of st ram') (base + idx) = Some vs"
proof (induction vs arbitrary: idx ram f bs)
  case Nil
  then obtain f1 where f1: "nk_fscan_ws f = Some f1" "reads data f1 (0x5D # rest)"
    using fscan_ws_reads [OF Nil.prems(4)] by (auto simp: items_text_def)
  then show ?case using reads_peek [OF f1(2)] by (subst loop.simps) (auto simp: items_step_def)
next
  case (Cons v vs)
  let ?step = "items_step (\<lambda>idx. nk_fscan_keyval fp st (base + idx)) sz item"
  let ?T = "if vs = [] then 0x5D # rest else 0x2C # 0x20 # items_text vs rest"
  have T: "stops ?T" "trim ?T = ?T" by (simp_all add: stops_def is_digit_def is_real_def)
  obtain f0 b0 where f0: "loop ?step (idx, True, f, ram) = loop ?step (idx, True, f0, ram)" "reads data f0 b0" "trim b0 = dval_text v @ ?T"
  proof (cases "trim bs = items_text (v # vs) rest")
    case False
    then have "trim bs = 0x2C # 0x20 # items_text (v # vs) rest" using Cons.prems(5) by simp
    then obtain g where "loop ?step (idx, True, f, ram) = loop ?step (idx, True, g, ram)" "reads data g (0x20 # items_text (v # vs) rest)"
      using comma_step [OF Cons.prems(4)] by metis
    moreover have "trim (0x20 # items_text (v # vs) rest) = dval_text v @ ?T" using trim_items_text [of "v # vs" rest] by (simp add: items_text_Cons)
    ultimately show ?thesis using that by blast
  qed (use that [of f bs] Cons.prems(4) items_text_Cons [of v vs rest] in simp)
  have room: "base + idx + extent st \<le> length ram" "idx < sz" using Cons.prems(2,3) el by simp_all
  have load: "loads fp st v" using Cons.prems(1) by simp
  obtain f1 ram1 r where s: "loop ?step (idx, True, f0, ram) = loop ?step (idx + item, True, f1, ram1)"
    "reads data f1 r" "trim r = ?T" "agree (- {base + idx..<base + idx + extent st}) ram ram1" "value_of st ram1 (base + idx) = Some v"
    using item_loads [OF load room f0(2,3) T] .
  have next_text: "trim r = items_text vs rest \<or> (vs \<noteq> [] \<and> trim r = 0x2C # 0x20 # items_text vs rest)"
    using s(3) by (auto simp: items_text_def)
  have rooms: "(idx + item) + item * length vs \<le> sz" "base + (idx + item) + item * length vs \<le> length ram1"
    using Cons.prems(2,3) agree_length [OF s(4)] by simp_all
  obtain f2 ram2 where l: "loop ?step (idx + item, True, f1, ram1) = Some (idx + item + item * length vs, True, f2, ram2)"
    "reads data f2 (0x5D # rest)" "agree (- {base + (idx + item)..<base + (idx + item) + item * length vs}) ram1 ram2"
    "items_value (length vs) item (value_of st ram2) (base + (idx + item)) = Some vs"
    using Cons.IH [OF _ rooms s(2) next_text] Cons.prems(1) by auto
  have "{base + idx..<base + idx + extent st} \<subseteq> - {base + (idx + item)..<base + (idx + item) + item * length vs}" using el(2) by auto
  then have "value_of st ram2 (base + idx) = Some v" using value_of_agree [OF wf agree_mono [OF l(3)]] s(5) by simp
  moreover have "agree (- {base + idx..<base + idx + item * length (v # vs)}) ram ram2"
    by (rule agree_mono [OF agree_trans [OF s(4) l(3)]]) (use el(2) in auto)
  ultimately show ?case using f0(1) s(1) l by (auto simp: add.assoc)
qed

end

text \<open>A value within an array is read back.\<close>

lemma items_value_all:
  assumes "items_value n sz item loc = Some vs"
  shows "length vs = n" "\<forall>v\<in>set vs. \<exists>l. item l = Some v"
proof -
  have "length vs = n \<and> (\<forall>v\<in>set vs. \<exists>l. item l = Some v)"
    using assms
  proof (induction n arbitrary: loc vs)
    case (Suc n)
    then show ?case by (fastforce simp: Option.bind_eq_Some_conv)
  qed simp
  then show "length vs = n" "\<forall>v\<in>set vs. \<exists>l. item l = Some v" by simp_all
qed

context reader
begin

lemma closed_reads:
  assumes "reads data f (of_char c # rest)"
  shows "\<exists>f'. closed_by c (True, f) = Some (True, f') \<and> reads data f' rest"
proof -
  obtain f' where "nk_fnext_fast f = Some (head_of rest, f')" "reads data f' rest" using reads_next [OF assms] .
  moreover have "nk_fpeek f = Some (chr c)" unfolding reads_peek [OF assms] head_of.simps ch_uint ..
  ultimately show ?thesis by (simp add: closed_by_def)
qed

lemma loads_array:
  assumes wf: "wf_ty t" and w: "ty_what t = tARRAY" and v: "value_of t ram0 l0 = Some v"
    and elem: "\<And>st v l. ty_subtype t = Some st \<Longrightarrow> value_of st ram0 l = Some v \<Longrightarrow> loads fp st v"
  shows "loads fp t v"
  unfolding loads_def
proof (intro allI impI)
  fix loc f and ram data rest :: bytes
  assume fits: "loc + extent t \<le> length ram" and r: "reads data f (dval_text v @ rest)" and stop: "stops rest"
  obtain sz ms sub check where t: "t = Ty tARRAY sz ms sub check" using w by (cases t) simp
  obtain st where st: "sub = Some st" "wf_ty st" "0 < ty_size st" "extent st \<le> ty_size st" "ty_size st dvd sz"
    using wf t by (auto simp: element_of_def split: option.splits)
  obtain vs where vs: "items_value (sz div ty_size st) (ty_size st) (value_of st ram0) l0 = Some vs" "v = DArray vs"
    using v t st(1,3) by (auto simp: capacity_def)
  have len: "ty_size st * length vs = sz" using items_value_all(1) [OF vs(1)] st(5) by simp
  have loads: "\<forall>v\<in>set vs. loads fp st v" using items_value_all(2) [OF vs(1)] elem st(1) t by auto
  have r': "reads data f (0x5B # items_text vs rest)" using r vs(2) by (simp add: items_text_def)
  obtain f1 where f1: "nk_fnext_fast f = Some (head_of (items_text vs rest), f1)" "reads data f1 (items_text vs rest)" using reads_next [OF r'] .
  have ex: "extent t = sz" using t by (simp add: extent_def)
  obtain f2 ram2 where l: "loop (items_step (\<lambda>idx. nk_fscan_keyval fp st (loc + idx)) sz (ty_size st)) (0, True, f1, ram) = Some (sz, True, f2, ram2)"
    "reads data f2 (0x5D # rest)" "agree (- {loc..<loc + sz}) ram ram2" "items_value (length vs) (ty_size st) (value_of st ram2) loc = Some vs"
    using items_loop [OF st(2-4) loads, of 0 sz loc ram data f1 "items_text vs rest" rest] f1(2) len fits ex trim_items_text by auto
  obtain f3 where f3: "closed_by (CHR '']'') (True, f2) = Some (True, f3)" "reads data f3 rest" using closed_reads [of data f2 "CHR '']''"] l(2) by auto
  have "nk_fscan_keyval fp t loc f ram = Some (True, f3, ram2)"
    using reads_peek [OF r'] f1(1) l(1) f3(1) st(1) t keyval_end_good wf_check [OF wf] by (subst nk_fscan_keyval.simps) (simp add: parse_items_def)
  moreover have "value_of t ram2 loc = Some v" using t st(1,3) l(4) items_value_all(1) [OF vs(1)] vs(2) by (simp add: capacity_def)
  ultimately show "\<exists>f' ram' r. nk_fscan_keyval fp t loc f ram = Some (True, f', ram') \<and> reads data f' r \<and> trim r = trim rest
      \<and> agree (- {loc..<loc + extent t}) ram ram' \<and> value_of t ram' loc = Some v"
    using f3(2) l(3) ex by auto
qed

lemma load_len_agree: "load_int ram loc = Some v \<Longrightarrow> load_len ram loc = Some (unat v)"
  by (simp add: load_len_def)

lemma loads_varray:
  assumes wf: "wf_ty t" and w: "ty_what t = tVARRAY" and v: "value_of t ram0 l0 = Some v"
    and elem: "\<And>st v l. ty_subtype t = Some st \<Longrightarrow> value_of st ram0 l = Some v \<Longrightarrow> loads fp st v"
  shows "loads fp t v"
  unfolding loads_def
proof (intro allI impI)
  fix loc f and ram data rest :: bytes
  assume fits: "loc + extent t \<le> length ram" and r: "reads data f (dval_text v @ rest)" and stop: "stops rest"
  obtain sz ms sub check where t: "t = Ty tVARRAY sz ms sub check" using w by (cases t) simp
  obtain st where st: "sub = Some st" "wf_ty st" "0 < ty_size st" "extent st \<le> ty_size st" "ty_size st dvd sz"
    using wf t by (auto simp: element_of_def split: option.splits)
  obtain n vs where vs: "n * ty_size st \<le> sz" "items_value n (ty_size st) (value_of st ram0) (l0 + LEN_SIZE) = Some vs" "v = DArray vs"
    using v t st(1) by (auto simp: Option.bind_eq_Some_conv split: if_splits)
  have len: "length vs = n" "ty_size st * length vs \<le> sz" using items_value_all(1) [OF vs(2)] vs(1) by (simp_all add: mult.commute)
  have loads: "\<forall>v\<in>set vs. loads fp st v" using items_value_all(2) [OF vs(2)] elem st(1) t by auto
  have r': "reads data f (0x5B # items_text vs rest)" using r vs(3) by (simp add: items_text_def)
  obtain f1 where f1: "nk_fnext_fast f = Some (head_of (items_text vs rest), f1)" "reads data f1 (items_text vs rest)" using reads_next [OF r'] .
  have ex: "extent t = LEN_SIZE + sz" using t by (simp add: extent_def)
  have room: "loc + LEN_SIZE + ty_size st * length vs \<le> length ram" using fits ex len(2) by simp
  obtain f2 ram2 where l: "loop (items_step (\<lambda>idx. nk_fscan_keyval fp st (loc + LEN_SIZE + idx)) sz (ty_size st)) (0, True, f1, ram) = Some (ty_size st * length vs, True, f2, ram2)"
    "reads data f2 (0x5D # rest)" "agree (- {loc + LEN_SIZE..<loc + LEN_SIZE + ty_size st * length vs}) ram ram2"
    "items_value (length vs) (ty_size st) (value_of st ram2) (loc + LEN_SIZE) = Some vs"
    using items_loop [OF st(2-4) loads, of 0 sz "loc + LEN_SIZE" ram data f1 "items_text vs rest" rest] f1(2) len room trim_items_text by auto
  obtain f3 where f3: "closed_by (CHR '']'') (True, f2) = Some (True, f3)" "reads data f3 rest" using closed_reads [of data f2 "CHR '']''"] l(2) by auto
  have cap: "capacity (ty_size st * length vs) (ty_size st) = Some n" using st(3) len(1) by (simp add: capacity_def)
  have n32: "unat (word_of_nat n :: u32) = n"
  proof (rule unat_of_nat_u32)
    have "n \<le> n * ty_size st" using st(3) by simp
    moreover have "sz < 4294967296" using wf t by simp
    ultimately show "n < 4294967296" using vs(1) by linarith
  qed
  obtain ram3 where ram3: "store_at ram2 loc (le_bytes 4 (word_of_nat n :: u32)) = Some ram3" "agree (- {loc..<loc + 4}) ram2 ram3" "load_int ram3 loc = Some (word_of_nat n)"
    using store_int [of loc ram2 "word_of_nat n"] agree_length [OF l(3)] fits ex by (auto simp: LEN_SIZE_def)
  have "nk_fscan_keyval fp t loc f ram = Some (True, f3, ram3)"
    using reads_peek [OF r'] f1(1) l(1) f3(1) st(1) t keyval_end_good wf_check [OF wf] cap ram3(1) by (subst nk_fscan_keyval.simps) (simp add: parse_items_def)
  moreover have "items_value n (ty_size st) (value_of st ram3) (loc + LEN_SIZE) = items_value n (ty_size st) (value_of st ram2) (loc + LEN_SIZE)"
  proof (rule items_value_cong)
    fix k assume "loc + LEN_SIZE \<le> k"
    then have "{k..<k + extent st} \<subseteq> - {loc..<loc + 4}" by (auto simp: LEN_SIZE_def)
    then show "value_of st ram3 k = value_of st ram2 k" using value_of_agree [OF st(2) agree_mono [OF ram3(2)]] by simp
  qed
  then have "value_of t ram3 loc = Some v" using t st(1,3) l(4) len vs(1,3) load_len_agree [OF ram3(3)] n32 by simp
  moreover have "agree (- {loc..<loc + extent t}) ram ram3"
    by (rule agree_mono [OF agree_trans [OF l(3) ram3(2)]]) (use len(2) in \<open>auto simp: ex LEN_SIZE_def\<close>)
  ultimately show "\<exists>f' ram' r. nk_fscan_keyval fp t loc f ram = Some (True, f', ram') \<and> reads data f' r \<and> trim r = trim rest
      \<and> agree (- {loc..<loc + extent t}) ram ram' \<and> value_of t ram' loc = Some v"
    using f3(2) by auto
qed

end

text \<open>The members of a structure.\<close>

definition members_text :: "(member \<times> dval) list \<Rightarrow> bytes \<Rightarrow> bytes" where
  "members_text fs rest = join [0x2C, 0x20] (map (\<lambda>(m, v). m_name m @ [0x3A] @ dval_text v) fs) @ 0x7D # rest"

lemma members_text_Cons:
  "members_text ((m, v) # fs) rest = m_name m @ 0x3A # dval_text v @ (if fs = [] then 0x7D # rest else 0x2C # 0x20 # members_text fs rest)"
  by (cases fs) (simp_all add: members_text_def)

lemma ident_first: "ident n \<Longrightarrow> \<exists>c cs. n = c # cs \<and> \<not> nk_isspace (uint c) \<and> c \<noteq> 0x2C"
proof -
  assume n: "ident n"
  then obtain c cs where c: "n = c # cs" "ident_start (uint c)" using ident_end(2) by (metis ident_def list.collapse)
  have "c \<noteq> 0x2C" using c(2) by (auto simp: ident_start_def)
  then show ?thesis using ident_end(2) [OF n] c(1) by auto
qed

lemma trim_members_text: "\<forall>(m, v)\<in>set fs. ident (m_name m) \<Longrightarrow> trim (members_text fs rest) = members_text fs rest \<and> lit 0x2C (members_text fs rest) = None"
proof (cases fs)
  case (Cons p fs')
  assume fs: "\<forall>(m, v)\<in>set fs. ident (m_name m)"
  obtain m v where p: "p = (m, v)" by fastforce
  obtain c cs where "m_name m = c # cs" "\<not> nk_isspace (uint c)" "c \<noteq> 0x2C" using ident_first [of "m_name m"] fs Cons p by auto
  then show ?thesis using Cons p by (simp add: members_text_Cons lit_def)
qed (simp add: members_text_def lit_def)

lemma find_member_distinct: "distinct (map m_name ms) \<Longrightarrow> m \<in> set ms \<Longrightarrow> find_member (m_name m) ms = Some m"
  by (induction ms) force+

definition region :: "nat \<Rightarrow> member \<Rightarrow> nat set" where
  "region loc m = {loc + m_offset m..<loc + member_end m}"

lemma layout_disjoint:
  assumes "layout sz ms" "m \<in> set ms" "m' \<in> set ms" "m_name m \<noteq> m_name m'"
  shows "region loc m \<inter> region loc m' = {}"
proof -
  have "sorted_wrt (\<lambda>m m'. member_end m \<le> m_offset m' \<or> member_end m' \<le> m_offset m) ms" using assms(1) by (simp add: layout_def)
  then have "member_end m \<le> m_offset m' \<or> member_end m' \<le> m_offset m"
    using assms(2-4)
  proof (induction ms)
    case (Cons a ms)
    then show ?case by auto
  qed simp
  then show ?thesis by (auto simp: region_def)
qed

lemma layout_region: "layout sz ms \<Longrightarrow> m \<in> set ms \<Longrightarrow> region loc m \<subseteq> {loc..<loc + sz}"
  by (auto simp: layout_def region_def)

definition regions :: "nat \<Rightarrow> (member \<times> dval) list \<Rightarrow> nat set" where
  "regions loc fs = (\<Union>(m, v)\<in>set fs. region loc m)"

lemma regions_Cons: "regions loc ((m, v) # fs) = region loc m \<union> regions loc fs"
  by (simp add: regions_def)

lemma value_kept:
  assumes "layout sz ms" "m \<in> set ms" "wf_ty (m_type m)" "\<forall>(m', v)\<in>set fs. m' \<in> set ms \<and> m_name m' \<noteq> m_name m"
    and "agree (- regions loc fs) ram ram'"
  shows "value_of (m_type m) ram' (loc + m_offset m) = value_of (m_type m) ram (loc + m_offset m)"
proof (rule value_of_agree [OF assms(3) agree_mono [OF assms(5)]])
  have "region loc m \<inter> regions loc fs = {}"
    using layout_disjoint [OF assms(1,2)] assms(4) by (fastforce simp: regions_def)
  then show "{loc + m_offset m..<loc + m_offset m + extent (m_type m)} \<subseteq> - regions loc fs"
    by (auto simp: region_def member_end_def add.assoc)
qed

lemma members_value_zip:
  "members_value ms ram loc = Some vs \<longleftrightarrow> map fst vs = map m_name ms
     \<and> (\<forall>(m, v)\<in>set (zip ms (map snd vs)). value_of (m_type m) ram (loc + m_offset m) = Some v)"
proof (induction ms arbitrary: vs)
  case (Cons m ms)
  obtain name t off tr where "m = Member name t off tr" by (cases m)
  then show ?case using Cons by (cases vs) (auto simp: Option.bind_eq_Some_conv)
qed auto

context reader
begin

abbreviation keyval_of :: "fp \<Rightarrow> nat \<Rightarrow> member \<Rightarrow> 's parse" where
  "keyval_of fp loc m \<equiv> nk_fscan_keyval fp (m_type m) (loc + m_offset m)"

lemma members_loop:
  assumes lay: "layout sz ms" "\<forall>m\<in>set ms. wf_ty (m_type m)"
  shows "\<forall>(m, v)\<in>set fs. m \<in> set ms \<and> loads fp (m_type m) v \<Longrightarrow> distinct (map (\<lambda>(m, v). m_name m) fs) \<Longrightarrow> loc + sz \<le> length ram \<Longrightarrow>
      reads data f bs \<Longrightarrow> trim bs = members_text fs rest \<Longrightarrow>
    \<exists>f' ram'. loop (members_step (keyval_of fp loc) ms) (True, f, ram) = Some (True, f', ram') \<and> reads data f' (0x7D # rest)
      \<and> agree (- regions loc fs) ram ram' \<and> (\<forall>(m, v)\<in>set fs. value_of (m_type m) ram' (loc + m_offset m) = Some v)"
proof (induction fs arbitrary: f bs ram)
  case Nil
  have t: "trim bs = 0x7D # rest" using Nil.prems(5) by (simp add: members_text_def)
  obtain f1 where f1: "nk_fscan_ws f = Some f1" "reads data f1 (0x7D # rest)" using fscan_ws_reads [OF Nil.prems(4)] t by auto
  obtain n f2 where f2: "scan_name f1 ''%i : %e'' = Some (False, n, f2)" "reads data f2 (0x7D # rest)"
    using no_name_reads(2) [OF f1(2)] by (auto simp: ident_start_def)
  then show ?case using f1(1) by (subst loop.simps) (auto simp: members_step_def)
next
  case (Cons p fs)
  obtain m v where p: "p = (m, v)" by fastforce
  have m: "m \<in> set ms" "loads fp (m_type m) v" "wf_ty (m_type m)" "ident (m_name m)" "member_end m \<le> sz"
    using Cons.prems(1) p lay by (auto simp: layout_def)
  let ?T = "if fs = [] then 0x7D # rest else 0x2C # 0x20 # members_text fs rest"
  have T: "stops ?T" "trim ?T = ?T" by (simp_all add: stops_def is_digit_def is_real_def)
  obtain f1 where f1: "nk_fscan_ws f = Some f1" "reads data f1 (m_name m @ 0x3A # dval_text v @ ?T)"
    using fscan_ws_reads [OF Cons.prems(4)] Cons.prems(5) p members_text_Cons by metis
  obtain f2 where f2: "scan_name f1 ''%i : %e'' = Some (True, m_name m, f2)" "reads data f2 (dval_text v @ ?T)"
    using member_name_reads [OF f1(2) m(4)] by auto
  have fm: "find_member (m_name m) ms = Some m" using find_member_distinct m(1) lay(1) by (simp add: layout_def)
  have room: "loc + m_offset m + extent (m_type m) \<le> length ram" using m(5) Cons.prems(3) by (simp add: member_end_def)
  obtain f3 ram3 r where s: "nk_fscan_keyval fp (m_type m) (loc + m_offset m) f2 ram = Some (True, f3, ram3)" "reads data f3 r" "trim r = trim ?T"
    "agree (- {loc + m_offset m..<loc + m_offset m + extent (m_type m)}) ram ram3" "value_of (m_type m) ram3 (loc + m_offset m) = Some v"
    using loadsD [OF m(2) room f2(2) T(1)] .
  have idents: "\<forall>(m, v)\<in>set fs. ident (m_name m)" using Cons.prems(1) lay(1) by (auto simp: layout_def)
  obtain f4 b4 where f4: "skip_commas f3 = Some f4" "reads data f4 b4" "trim b4 = members_text fs rest"
  proof (cases fs)
    case Nil
    then have "trim r = 0x7D # rest" using s(3) by simp
    moreover from this have "lit 0x2C (trim r) = None" by (simp add: lit_def)
    ultimately show ?thesis using that skip_commas_reads [OF s(2)] Nil by (auto simp: members_text_def)
  next
    case (Cons q fs')
    then have r: "trim r = 0x2C # 0x20 # members_text fs rest" using s(3) by simp
    have "lit 0x2C (trim (0x20 # members_text fs rest)) = None" "trim (0x20 # members_text fs rest) = members_text fs rest"
      using trim_members_text [OF idents] by simp_all
    then show ?thesis using that skip_comma_reads [OF s(2) r] by auto
  qed
  have step: "loop (members_step (keyval_of fp loc) ms) (True, f, ram) = loop (members_step (keyval_of fp loc) ms) (True, f4, ram3)"
    using f1(1) f2(1) fm s(1) f4(1) by (subst loop.simps) (simp add: members_step_def)
  have others: "\<forall>(m', v')\<in>set fs. m' \<in> set ms \<and> m_name m' \<noteq> m_name m" using Cons.prems(1,2) p by force
  obtain f5 ram5 where l: "loop (members_step (keyval_of fp loc) ms) (True, f4, ram3) = Some (True, f5, ram5)" "reads data f5 (0x7D # rest)"
    "agree (- regions loc fs) ram3 ram5" "\<forall>(m, v)\<in>set fs. value_of (m_type m) ram5 (loc + m_offset m) = Some v"
  proof -
    have "\<forall>(m, v)\<in>set fs. m \<in> set ms \<and> loads fp (m_type m) v" "distinct (map (\<lambda>(m, v). m_name m) fs)" "loc + sz \<le> length ram3"
      using Cons.prems(1-3) agree_length [OF s(4)] by simp_all
    from Cons.IH [OF this f4(2,3)] that show ?thesis by blast
  qed
  have "value_of (m_type m) ram5 (loc + m_offset m) = Some v" using value_kept [OF lay(1) m(1,3) others l(3)] s(5) by simp
  moreover have "agree (- regions loc ((m, v) # fs)) ram ram5"
    by (rule agree_mono [OF agree_trans [OF s(4) l(3)]]) (auto simp: regions_Cons region_def member_end_def add.assoc)
  ultimately show ?case using step l(1,2,4) p by auto
qed

lemma loads_struct:
  assumes wf: "wf_ty t" and w: "ty_what t = tSTRUCT" and v: "value_of t ram0 l0 = Some v"
    and elem: "\<And>m v l. m \<in> set (ty_members t) \<Longrightarrow> value_of (m_type m) ram0 l = Some v \<Longrightarrow> loads fp (m_type m) v"
  shows "loads fp t v"
  unfolding loads_def
proof (intro allI impI)
  fix loc f and ram data rest :: bytes
  assume fits: "loc + extent t \<le> length ram" and r: "reads data f (dval_text v @ rest)" and stop: "stops rest"
  obtain sz ms sub check where t: "t = Ty tSTRUCT sz ms sub check" using w by (cases t) simp
  have lay: "layout sz ms" "\<forall>m\<in>set ms. wf_ty (m_type m)" and ex: "extent t = sz" using wf t by (simp_all add: extent_def)
  obtain vs where vs: "map fst vs = map m_name ms" "\<forall>(m, v)\<in>set (zip ms (map snd vs)). value_of (m_type m) ram0 (l0 + m_offset m) = Some v" "v = DStruct vs"
    using v t members_value_zip by auto
  let ?fs = "zip ms (map snd vs)"
  have len: "length ms = length vs" using vs(1) by (metis length_map)
  have names: "map (\<lambda>(m, v). m_name m) ?fs = map m_name ms" using len by (intro nth_equalityI) simp_all
  have load: "\<forall>(m, v)\<in>set ?fs. m \<in> set ms \<and> loads fp (m_type m) v" using vs(2) elem t by (fastforce dest: set_zip_leftD)
  have dist: "distinct (map (\<lambda>(m, v). m_name m) ?fs)" using lay(1) by (simp add: names layout_def)
  have "fst (vs ! i) = m_name (ms ! i)" if "i < length vs" for i using arg_cong [OF vs(1), of "\<lambda>xs. xs ! i"] that len by simp
  then have "map (\<lambda>m. fst m @ [0x3A] @ dval_text (snd m)) vs = map (\<lambda>(m, v). m_name m @ [0x3A] @ dval_text v) ?fs"
    using len by (simp add: list_eq_iff_nth_eq [of "map _ vs"])
  then have whole: "dval_text v @ rest = 0x7B # members_text ?fs rest" using vs(3) by (simp add: members_text_def)
  have r': "reads data f (0x7B # members_text ?fs rest)" using r unfolding whole .
  obtain f1 where f1: "nk_fnext_fast f = Some (head_of (members_text ?fs rest), f1)" "reads data f1 (members_text ?fs rest)" using reads_next [OF r'] .
  have "\<forall>(m, v)\<in>set ?fs. ident (m_name m)" using lay(1) by (auto simp: layout_def dest: set_zip_leftD)
  then have tr: "trim (members_text ?fs rest) = members_text ?fs rest" using trim_members_text by blast
  obtain f2 ram2 where l: "loop (members_step (keyval_of fp loc) ms) (True, f1, ram) = Some (True, f2, ram2)" "reads data f2 (0x7D # rest)"
    "agree (- regions loc ?fs) ram ram2" "\<forall>(m, v)\<in>set ?fs. value_of (m_type m) ram2 (loc + m_offset m) = Some v"
    using members_loop [OF lay load dist fits [unfolded ex] f1(2) tr] by blast
  obtain f3 where f3: "closed_by (CHR ''}'') (True, f2) = Some (True, f3)" "reads data f3 rest" using closed_reads [of data f2 "CHR ''}''"] l(2) by auto
  have "nk_fscan_keyval fp t loc f ram = Some (True, f3, ram2)"
    using reads_peek [OF r'] f1(1) l(1) f3(1) t keyval_end_good wf_check [OF wf] by (subst nk_fscan_keyval.simps) (simp add: parse_members_def)
  moreover have "value_of t ram2 loc = Some v" using t l(4) vs(1,3) members_value_zip by auto
  moreover have "agree (- {loc..<loc + extent t}) ram ram2"
    by (rule agree_mono [OF l(3)]) (use layout_region [OF lay(1)] set_zip_leftD ex in \<open>fastforce simp: regions_def\<close>)
  ultimately show "\<exists>f' ram' r. nk_fscan_keyval fp t loc f ram = Some (True, f', ram') \<and> reads data f' r \<and> trim r = trim rest
      \<and> agree (- {loc..<loc + extent t}) ram ram' \<and> value_of t ram' loc = Some v"
    using f3(2) by auto
qed

end

text \<open>The columns and the rows of a table.\<close>

lemma member_index_nth: "distinct (map m_name ms) \<Longrightarrow> k < length ms \<Longrightarrow> member_index (m_name (ms ! k)) ms x = x + int k"
proof (induction ms arbitrary: k x)
  case (Cons m ms)
  show ?case
  proof (cases k)
    case (Suc i)
    then have "ms ! i \<in> set ms" using Cons.prems(2) by simp
    then have "m_name (ms ! i) \<in> m_name ` set ms" by (rule imageI)
    then have "m_name m \<noteq> m_name (ms ! i)" using Cons.prems(1) by auto
    then show ?thesis using Cons.IH [of i "x + 1"] Cons.prems Suc by simp
  qed simp
qed simp

definition fields_text :: "dval list \<Rightarrow> bytes \<Rightarrow> bytes" where
  "fields_text vs rest = join [0x20] (map dval_text vs) @ rest"

lemma fields_text_Cons: "fields_text (v # vs) rest = dval_text v @ (if vs = [] then rest else 0x20 # fields_text vs rest)"
  by (cases vs) (simp_all add: fields_text_def)

definition rows_text :: "dval list list \<Rightarrow> bytes \<Rightarrow> bytes" where
  "rows_text rows rest = concat (map (\<lambda>row. [0x3A] @ join [0x20] (map dval_text row)) rows) @ 0x29 # rest"

lemma rows_text_Cons: "rows_text (row # rows) rest = 0x3A # fields_text row (rows_text rows rest)"
  by (simp add: rows_text_def fields_text_def)

lemma rows_text_starts: "trim (rows_text rows rest) = rows_text rows rest" "stops (rows_text rows rest)"
  "\<not> ident_start (head_of (rows_text rows rest))" "head_of (rows_text rows rest) \<noteq> 34"
proof -
  obtain c r where "rows_text rows rest = c # r" "c = 0x3A \<or> c = 0x29" by (cases rows) (simp_all add: rows_text_Cons, simp add: rows_text_def)
  then show "trim (rows_text rows rest) = rows_text rows rest" "stops (rows_text rows rest)"
    "\<not> ident_start (head_of (rows_text rows rest))" "head_of (rows_text rows rest) \<noteq> 34"
    by (auto simp: stops_def is_digit_def is_real_def ident_start_def)
qed

lemma trim_fields_text: "trim (fields_text vs (rows_text rows rest)) = fields_text vs (rows_text rows rest)"
  by (cases vs) (simp_all add: fields_text_Cons rows_text_starts, simp add: fields_text_def rows_text_starts)

definition all_columns :: "nat \<Rightarrow> nat \<Rightarrow> int list" where
  "all_columns n k = map int [0..<k] @ replicate (n - k) (-1)"

lemma all_columns_nth: "k < n \<Longrightarrow> n \<le> m \<Longrightarrow> deref (all_columns m n) k = Some (int k)"
  by (simp add: all_columns_def deref_def nth_append)

lemma all_columns_store: "k < n \<Longrightarrow> store_at (all_columns n k) k [int k] = Some (all_columns n (Suc k))"
proof -
  assume k: "k < n"
  then have "(all_columns n k)[k := int k] = all_columns n (Suc k)"
    by (intro nth_equalityI) (auto simp: all_columns_def nth_list_update nth_append less_Suc_eq)
  then show ?thesis using k by (simp add: store_at_single all_columns_def)
qed

context reader
begin

lemma columns_loop:
  assumes "layout sz ms" "length ms \<le> NKDBASE_MAXCOLS"
  shows "k \<le> length ms \<Longrightarrow> reads data f bs \<Longrightarrow> trim bs = concat (map (\<lambda>m. m_name m @ [0x20]) (drop k ms)) @ rows_text rows rest \<Longrightarrow>
    \<exists>f' r. loop (columns_step ms) (all_columns NKDBASE_MAXCOLS k, k, f) = Some (all_columns NKDBASE_MAXCOLS (length ms), length ms, f')
      \<and> reads data f' r \<and> trim r = rows_text rows rest"
proof (induction "length ms - k" arbitrary: k f bs)
  case 0
  then have "k = length ms" "trim bs = rows_text rows rest" by simp_all
  moreover from this obtain n f1 where "scan_name f '' %i %e'' = Some (False, n, f1)" "reads data f1 bs"
    using no_name_reads(1) [OF 0(3)] rows_text_starts(3,4) [of rows rest] by auto
  ultimately show ?case by (subst loop.simps) (auto simp: columns_step_def)
next
  case (Suc d)
  then have k: "k < length ms" by simp
  let ?R = "concat (map (\<lambda>m. m_name m @ [0x20]) (drop (Suc k) ms)) @ rows_text rows rest"
  have id: "ident (m_name (ms ! k))" using assms(1) k by (simp add: layout_def)
  have "trim bs = m_name (ms ! k) @ 0x20 # ?R" using Suc.prems(3) by (simp add: Cons_nth_drop_Suc [OF k, symmetric])
  then obtain f1 where f1: "scan_name f '' %i %e'' = Some (True, m_name (ms ! k), f1)" "reads data f1 (trim ?R)"
    using column_name_reads [OF Suc.prems(2) _ id] by blast
  have R: "trim ?R = ?R"
  proof (cases "Suc k < length ms")
    case True
    obtain c cs where "m_name (ms ! Suc k) = c # cs" "\<not> nk_isspace (uint c)" using ident_first [of "m_name (ms ! Suc k)"] assms(1) True by (auto simp: layout_def)
    then show ?thesis by (simp add: Cons_nth_drop_Suc [OF True, symmetric])
  qed (simp add: rows_text_starts)
  have "member_index (m_name (ms ! k)) ms 0 = int k" using member_index_nth [OF _ k, of 0] assms(1) by (simp add: layout_def)
  then have step: "loop (columns_step ms) (all_columns NKDBASE_MAXCOLS k, k, f) = loop (columns_step ms) (all_columns NKDBASE_MAXCOLS (Suc k), Suc k, f1)"
    using f1(1) all_columns_store [of k NKDBASE_MAXCOLS] assms(2) k by (subst loop.simps) (simp add: columns_step_def)
  have "d = length ms - Suc k" "Suc k \<le> length ms" using Suc.hyps(2) k by simp_all
  from Suc.hyps(1) [OF this f1(2)] show ?case using step R by simp
qed

lemma fields_loop:
  assumes lay: "layout sz ms" "\<forall>m\<in>set ms. wf_ty (m_type m)" "length ms \<le> n"
  shows "k + length vs = length ms \<Longrightarrow> \<forall>(m, v)\<in>set (zip (drop k ms) vs). loads fp (m_type m) v \<Longrightarrow> loc + sz \<le> length ram \<Longrightarrow>
      reads data f bs \<Longrightarrow> trim bs = fields_text vs (rows_text rows rest) \<Longrightarrow>
    \<exists>f' ram' r. loop (fields_step (keyval_of fp loc) ms (all_columns n (length ms)) (length ms) False) (k, True, f, ram) = Some (True, f', ram')
      \<and> reads data f' r \<and> trim r = rows_text rows rest \<and> agree (- regions loc (zip (drop k ms) vs)) ram ram'
      \<and> (\<forall>(m, v)\<in>set (zip (drop k ms) vs). value_of (m_type m) ram' (loc + m_offset m) = Some v)"
proof (induction vs arbitrary: k f bs ram)
  case Nil
  then show ?case by (subst loop.simps) (auto simp: fields_step_def fields_text_def)
next
  case (Cons v vs)
  let ?step = "fields_step (keyval_of fp loc) ms (all_columns n (length ms)) (length ms) False"
  have k: "k < length ms" using Cons.prems(1) by simp
  define m where "m = ms ! k"
  have d: "drop k ms = m # drop (Suc k) ms" using k by (simp add: m_def Cons_nth_drop_Suc)
  have m: "m \<in> set ms" "wf_ty (m_type m)" "loads fp (m_type m) v" "member_end m \<le> sz" using k lay Cons.prems(2) d by (auto simp: m_def layout_def)
  let ?T = "if vs = [] then rows_text rows rest else 0x20 # fields_text vs (rows_text rows rest)"
  have T: "stops ?T" "trim ?T = fields_text vs (rows_text rows rest)"
    using rows_text_starts [of rows rest] trim_fields_text [of vs rows rest] by (auto simp: stops_def is_digit_def is_real_def fields_text_def)
  obtain f1 where f1: "nk_fscan_ws f = Some f1" "reads data f1 (dval_text v @ ?T)"
    using fscan_ws_reads [OF Cons.prems(4)] Cons.prems(5) fields_text_Cons by metis
  have room: "loc + m_offset m + extent (m_type m) \<le> length ram" using m(4) Cons.prems(3) by (simp add: member_end_def)
  obtain f2 ram2 r where s: "nk_fscan_keyval fp (m_type m) (loc + m_offset m) f1 ram = Some (True, f2, ram2)" "reads data f2 r" "trim r = trim ?T"
    "agree (- {loc + m_offset m..<loc + m_offset m + extent (m_type m)}) ram ram2" "value_of (m_type m) ram2 (loc + m_offset m) = Some v"
    using loadsD [OF m(3) room f1(2) T(1)] .
  have step: "loop ?step (k, True, f, ram) = loop ?step (Suc k, True, f2, ram2)"
    using k lay(3) all_columns_nth [OF k lay(3)] f1(1) s(1)
    by (subst loop.simps) (simp add: fields_step_def deref_def m_def)
  have "Suc k + length vs = length ms" "\<forall>(m, v)\<in>set (zip (drop (Suc k) ms) vs). loads fp (m_type m) v" "loc + sz \<le> length ram2" "trim r = fields_text vs (rows_text rows rest)"
    using Cons.prems(1-3) d agree_length [OF s(4)] s(3) T(2) by simp_all
  from Cons.IH [OF this(1-3) s(2) this(4)] obtain f3 ram3 r3 where l: "loop ?step (Suc k, True, f2, ram2) = Some (True, f3, ram3)"
    "reads data f3 r3" "trim r3 = rows_text rows rest" "agree (- regions loc (zip (drop (Suc k) ms) vs)) ram2 ram3"
    "\<forall>(m, v)\<in>set (zip (drop (Suc k) ms) vs). value_of (m_type m) ram3 (loc + m_offset m) = Some v" by blast
  have "distinct (map m_name (drop k ms))" using lay(1) by (simp add: layout_def drop_map [symmetric])
  then have "\<forall>m'\<in>set (drop (Suc k) ms). m' \<in> set ms \<and> m_name m' \<noteq> m_name m" unfolding d
    by (auto dest: in_set_dropD) (metis imageI)
  then have others: "\<forall>(m', v)\<in>set (zip (drop (Suc k) ms) vs). m' \<in> set ms \<and> m_name m' \<noteq> m_name m" by (auto dest: set_zip_leftD)
  have "value_of (m_type m) ram3 (loc + m_offset m) = Some v" using value_kept [OF lay(1) m(1,2) others l(4)] s(5) by simp
  moreover have "agree (- regions loc ((m, v) # zip (drop (Suc k) ms) vs)) ram ram3"
    by (rule agree_mono [OF agree_trans [OF s(4) l(4)]]) (auto simp: regions_Cons region_def member_end_def add.assoc)
  ultimately show ?case using step l(1,2,3,5) d by auto
qed

end

lemma items_value_map: "items_value n sz (\<lambda>l. map_option h (g l)) loc = map_option (map h) (items_value n sz g loc)"
proof (induction n arbitrary: loc)
  case (Suc n)
  then show ?case by (cases "g loc"; cases "items_value n sz g (loc + sz)") simp_all
qed simp

lemma members_value_agree:
  assumes "layout sz ms" "\<forall>m\<in>set ms. wf_ty (m_type m)" "agree {l..<l + sz} ram ram'"
  shows "members_value ms ram' l = members_value ms ram l"
proof (rule members_value_cong)
  fix m assume m: "m \<in> set ms"
  have "{l + m_offset m..<l + m_offset m + extent (m_type m)} \<subseteq> {l..<l + sz}"
    using layout_region [OF assms(1) m, of l] by (simp add: region_def member_end_def add.assoc)
  then show "value_of (m_type m) ram' (l + m_offset m) = value_of (m_type m) ram (l + m_offset m)"
    using value_of_agree [OF _ agree_mono [OF assms(3)]] assms(2) m by blast
qed

definition row_value :: "member list \<Rightarrow> bytes \<Rightarrow> nat \<Rightarrow> dval list option" where
  "row_value ms ram l = map_option (map snd) (members_value ms ram l)"

lemma row_value_zip:
  assumes "length vs = length ms" "\<forall>(m, v)\<in>set (zip ms vs). value_of (m_type m) ram (loc + m_offset m) = Some v"
  shows "row_value ms ram loc = Some vs"
proof -
  have "map fst (zip (map m_name ms) vs) = map m_name ms" "map snd (zip (map m_name ms) vs) = vs" using assms(1) by simp_all
  then have "members_value ms ram loc = Some (zip (map m_name ms) vs)" unfolding members_value_zip using assms(2) by simp
  then show ?thesis using assms(1) by (simp add: row_value_def)
qed

context reader
begin

lemma rows_loop:
  assumes lay: "layout item ms" "\<forall>m\<in>set ms. wf_ty (m_type m)" "length ms \<le> NKDBASE_MAXCOLS"
  shows "\<forall>row\<in>set rows. length row = length ms \<and> (\<forall>(m, v)\<in>set (zip ms row). loads fp (m_type m) v) \<Longrightarrow> n + length rows \<le> maxrows \<Longrightarrow>
      base + i + item * length rows \<le> length ram \<Longrightarrow> reads data f bs \<Longrightarrow> trim bs = rows_text rows rest \<Longrightarrow>
    \<exists>f' ram' r. loop (rows_step (\<lambda>i. keyval_of fp (base + i)) ms (all_columns NKDBASE_MAXCOLS (length ms)) (length ms) maxrows item) (n, i, True, f, ram)
        = Some (n + length rows, True, f', ram')
      \<and> reads data f' r \<and> trim r = 0x29 # rest \<and> agree (- {base + i..<base + i + item * length rows}) ram ram'
      \<and> items_value (length rows) item (row_value ms ram') (base + i) = Some rows"
proof (induction rows arbitrary: n i f bs ram)
  case Nil
  have t: "trim bs = 0x29 # rest" using Nil.prems(5) by (simp add: rows_text_def)
  then obtain f1 where "scan_fmt f '' : %e'' = Some (False, f1)" "reads data f1 bs" using mark_reads(3) [OF Nil.prems(4)] by (auto simp: lit_def)
  then show ?case using t by (subst loop.simps) (auto simp: rows_step_def)
next
  case (Cons row rows)
  let ?step = "rows_step (\<lambda>i. keyval_of fp (base + i)) ms (all_columns NKDBASE_MAXCOLS (length ms)) (length ms) maxrows item"
  have "trim bs = 0x3A # fields_text row (rows_text rows rest)" using Cons.prems(5) by (simp add: rows_text_Cons)
  then obtain f1 where f1: "scan_fmt f '' : %e'' = Some (True, f1)" "reads data f1 (fields_text row (rows_text rows rest))"
    using mark_reads(3) [OF Cons.prems(4)] trim_fields_text by (auto simp: lit_def)
  have row: "0 + length row = length ms" "\<forall>(m, v)\<in>set (zip (drop 0 ms) row). loads fp (m_type m) v" "base + i + item \<le> length ram"
    using Cons.prems(1,3) by simp_all
  from fields_loop [OF lay row f1(2) trim_fields_text] obtain f2 ram2 r where
    s: "loop (fields_step (keyval_of fp (base + i)) ms (all_columns NKDBASE_MAXCOLS (length ms)) (length ms) False) (0, True, f1, ram) = Some (True, f2, ram2)"
    "reads data f2 r" "trim r = rows_text rows rest" "agree (- regions (base + i) (zip ms row)) ram ram2"
    "\<forall>(m, v)\<in>set (zip ms row). value_of (m_type m) ram2 (base + i + m_offset m) = Some v" by auto
  have step: "loop ?step (n, i, True, f, ram) = loop ?step (Suc n, i + item, True, f2, ram2)"
    using f1(1) s(1) Cons.prems(2) by (subst loop.simps) (simp add: rows_step_def parse_fields_def)
  have rooms: "Suc n + length rows \<le> maxrows" "base + (i + item) + item * length rows \<le> length ram2"
    "\<forall>row\<in>set rows. length row = length ms \<and> (\<forall>(m, v)\<in>set (zip ms row). loads fp (m_type m) v)"
    using Cons.prems(1-3) agree_length [OF s(4)] by (simp_all add: algebra_simps)
  from Cons.IH [OF rooms(3,1,2) s(2,3)] obtain f3 ram3 r3 where l: "loop ?step (Suc n, i + item, True, f2, ram2) = Some (Suc n + length rows, True, f3, ram3)"
    "reads data f3 r3" "trim r3 = 0x29 # rest" "agree (- {base + (i + item)..<base + (i + item) + item * length rows}) ram2 ram3"
    "items_value (length rows) item (row_value ms ram3) (base + (i + item)) = Some rows" by auto
  have "row_value ms ram2 (base + i) = Some row" using row_value_zip [of row ms ram2 "base + i"] s(5) Cons.prems(1) by simp
  moreover have "agree {base + i..<base + i + item} ram2 ram3" by (rule agree_mono [OF l(4)]) auto
  then have "row_value ms ram3 (base + i) = row_value ms ram2 (base + i)" using members_value_agree [OF lay(1,2)] by (simp add: row_value_def)
  moreover have "regions (base + i) (zip ms row) \<subseteq> {base + i..<base + i + item}"
    using layout_region [OF lay(1)] by (fastforce simp: regions_def dest: set_zip_leftD)
  then have "agree (- {base + i..<base + i + item * length (row # rows)}) ram ram3"
    by (intro agree_mono [OF agree_trans [OF s(4) l(4)]]) auto
  ultimately show ?case using step l(1-3,5) by (auto simp: add.assoc)
qed

lemma loads_table:
  assumes wf: "wf_ty t" and w: "ty_what t = tTABLE" and v: "value_of t ram0 l0 = Some v"
    and elem: "\<And>st m v l. ty_subtype t = Some st \<Longrightarrow> m \<in> set (ty_members st) \<Longrightarrow> value_of (m_type m) ram0 l = Some v \<Longrightarrow> loads fp (m_type m) v"
  shows "loads fp t v"
  unfolding loads_def
proof (intro allI impI)
  fix loc f and ram data rest :: bytes
  assume fits: "loc + extent t \<le> length ram" and r: "reads data f (dval_text v @ rest)" and stop: "stops rest"
  obtain sz mems sub check where t: "t = Ty tTABLE sz mems sub check" using w by (cases t) simp
  obtain item ms ssub scheck where st: "sub = Some (Ty tSTRUCT item ms ssub scheck)" "0 < item" "item dvd sz"
    and lay: "layout item ms" "\<forall>m\<in>set ms. wf_ty (m_type m)" "length ms \<le> NKDBASE_MAXCOLS"
    using wf_table [of sz mems sub check] wf unfolding t by metis
  obtain n vs where vs: "n * item \<le> sz" "items_value n item (members_value ms ram0) (l0 + LEN_SIZE) = Some vs" "v = DTable (map m_name ms) (map (map snd) vs)"
    using v t st(1) by (auto simp: Option.bind_eq_Some_conv split: if_splits)
  define rows where "rows = map (map snd) vs"
  have len: "length rows = n" "item * length rows \<le> sz" using items_value_all(1) [OF vs(2)] vs(1) by (simp_all add: rows_def mult.commute)
  have rows: "\<forall>row\<in>set rows. length row = length ms \<and> (\<forall>(m, v)\<in>set (zip ms row). loads fp (m_type m) v)"
  proof
    fix row assume "row \<in> set rows"
    then obtain vr l where l: "members_value ms ram0 l = Some vr" "row = map snd vr" using items_value_all(2) [OF vs(2)] by (auto simp: rows_def)
    then have "length row = length ms" using members_value_zip by (metis length_map)
    moreover have "\<forall>(m, v)\<in>set (zip ms row). loads fp (m_type m) v"
      using l members_value_zip [of ms ram0 l vr] elem t st(1) by (fastforce dest: set_zip_leftD)
    ultimately show "length row = length ms \<and> (\<forall>(m, v)\<in>set (zip ms row). loads fp (m_type m) v)" by simp
  qed
  let ?body = "concat (map (\<lambda>m. m_name m @ [0x20]) (drop 0 ms)) @ rows_text rows rest"
  have r': "reads data f (0x28 # ?body)" using r vs(3) by (simp add: rows_text_def rows_def comp_def)
  obtain f1 where f1: "nk_fnext_fast f = Some (head_of ?body, f1)" "reads data f1 ?body" using reads_next [OF r'] .
  have trim_body: "trim ?body = ?body"
  proof (cases ms)
    case (Cons m ms')
    obtain c cs where "m_name m = c # cs" "\<not> nk_isspace (uint c)" using ident_first [of "m_name m"] lay(1) Cons by (auto simp: layout_def)
    then show ?thesis using Cons by simp
  qed (simp add: rows_text_starts)
  obtain f2 r2 where c: "loop (columns_step ms) (all_columns NKDBASE_MAXCOLS 0, 0, f1) = Some (all_columns NKDBASE_MAXCOLS (length ms), length ms, f2)"
    "reads data f2 r2" "trim r2 = rows_text rows rest" using columns_loop [OF lay(1,3) _ f1(2) trim_body] by auto
  have ex: "extent t = LEN_SIZE + sz" using t by (simp add: extent_def)
  have room: "loc + LEN_SIZE + 0 + item * length rows \<le> length ram" using fits ex len(2) by simp
  have max: "0 + length rows \<le> sz div item" using vs(1) len(1) st(2) by (simp add: less_eq_div_iff_mult_less_eq)
  from rows_loop [OF lay rows max room c(2,3)] obtain f3 ram3 r3 where
    l: "loop (rows_step (\<lambda>i. keyval_of fp (loc + LEN_SIZE + i)) ms (all_columns NKDBASE_MAXCOLS (length ms)) (length ms) (sz div item) item) (0, 0, True, f2, ram)
        = Some (length rows, True, f3, ram3)"
      "reads data f3 r3" "trim r3 = 0x29 # rest" "agree (- {loc + LEN_SIZE..<loc + LEN_SIZE + item * length rows}) ram ram3"
      "items_value (length rows) item (row_value ms ram3) (loc + LEN_SIZE) = Some rows" by auto
  have n32: "unat (word_of_nat n :: u32) = n"
  proof (rule unat_of_nat_u32)
    have "n \<le> n * item" using st(2) by simp
    moreover have "sz < 4294967296" using wf t by simp
    ultimately show "n < 4294967296" using vs(1) by linarith
  qed
  obtain ram4 where ram4: "store_at ram3 loc (le_bytes 4 (word_of_nat n :: u32)) = Some ram4" "agree (- {loc..<loc + 4}) ram3 ram4" "load_int ram4 loc = Some (word_of_nat n)"
    using store_int [of loc ram3 "word_of_nat n"] agree_length [OF l(4)] fits ex by (auto simp: LEN_SIZE_def)
  obtain f4 where f4: "scan_fmt f3 '' )%e'' = Some (True, f4)" "reads data f4 rest" using mark_reads(4) [OF l(2)] l(3) by (auto simp: lit_def)
  have cap: "capacity sz item = Some (sz div item)" "all_columns NKDBASE_MAXCOLS 0 = replicate NKDBASE_MAXCOLS (-1)" using st(2) by (simp_all add: capacity_def all_columns_def)
  have "nk_fscan_keyval fp t loc f ram = Some (True, f4, ram4)"
    using reads_peek [OF r'] f1(1) c(1) l(1) f4(1) ram4(1) st(1) t cap len(1) keyval_end_good wf_check [OF wf]
    by (subst nk_fscan_keyval.simps) (simp add: parse_columns_def parse_rows_def)
  moreover have "items_value n item (row_value ms ram4) (loc + LEN_SIZE) = items_value n item (row_value ms ram3) (loc + LEN_SIZE)"
  proof (rule items_value_cong)
    fix k assume "loc + LEN_SIZE \<le> k"
    then have "agree {k..<k + item} ram3 ram4" by (intro agree_mono [OF ram4(2)]) (auto simp: LEN_SIZE_def)
    then show "row_value ms ram4 k = row_value ms ram3 k" using members_value_agree [OF lay(1,2)] by (simp add: row_value_def)
  qed
  then have "map_option (map (map snd)) (items_value n item (members_value ms ram4) (loc + LEN_SIZE)) = Some rows"
    using l(5) len(1) by (simp add: row_value_def [abs_def] items_value_map)
  then have "value_of t ram4 loc = Some v"
    using t st(1) vs(1,3) load_len_agree [OF ram4(3)] n32 by (cases "items_value n item (members_value ms ram4) (loc + LEN_SIZE)") (simp_all add: rows_def)
  moreover have "agree (- {loc..<loc + extent t}) ram ram4"
    by (rule agree_mono [OF agree_trans [OF l(4) ram4(2)]]) (use len(2) in \<open>auto simp: ex LEN_SIZE_def\<close>)
  ultimately show "\<exists>f' ram' r. nk_fscan_keyval fp t loc f ram = Some (True, f', ram') \<and> reads data f' r \<and> trim r = trim rest
      \<and> agree (- {loc..<loc + extent t}) ram ram' \<and> value_of t ram' loc = Some v"
    using f4(2) by auto
qed

text \<open>Every value of every schema is read back.\<close>

lemma loads_value: "wf_ty t \<Longrightarrow> value_of t ram0 l0 = Some v \<Longrightarrow> loads fp t v"
proof (induction t arbitrary: l0 v rule: measure_induct_rule [of size])
  case (less t)
  obtain w sz ms sub check where t: "t = Ty w sz ms sub check" by (cases t)
  consider "w = tBOOL" | "w = tSTRING" | "w = tSTRUCT" | "w = tARRAY \<or> w = tVARRAY" | "w = tTABLE" | "w \<notin> {tBOOL, tSTRING, tSTRUCT, tARRAY, tVARRAY, tTABLE}" by blast
  then show ?case
  proof cases
    case 1
    then show ?thesis using loads_bool less.prems t by simp
  next
    case 2
    then show ?thesis using loads_string less.prems t by simp
  next
    case 3
    have "loads fp (m_type m) v" if "m \<in> set ms" "value_of (m_type m) ram0 l = Some v" for m v l
      using less.IH [of "m_type m"] size_member [OF that(1)] that less.prems(1) t 3 by auto
    then show ?thesis using loads_struct [OF less.prems(1) _ less.prems(2)] t 3 by simp
  next
    case 4
    have "loads fp st v" if "sub = Some st" "value_of st ram0 l = Some v" for st v l
      using less.IH [of st l v] that less.prems(1) t 4 by auto
    then show ?thesis using loads_array [OF less.prems(1) _ less.prems(2)] loads_varray [OF less.prems(1) _ less.prems(2)] t 4 by auto
  next
    case 5
    have "loads fp (m_type m) v" if "sub = Some st" "m \<in> set (ty_members st)" "value_of (m_type m) ram0 l = Some v" for st m v l
    proof -
      have "size (m_type m) < size st" using size_member [OF that(2)] by (cases st) simp
      moreover have "wf_ty (m_type m)" using less.prems(1) t 5 that(1,2) by (cases st) auto
      ultimately show ?thesis using less.IH [of "m_type m" l v] that t by simp
    qed
    then show ?thesis using loads_table [OF less.prems(1) _ less.prems(2)] t 5 by simp
  next
    case 6
    then show ?thesis using loads_int less.prems t by simp
  qed
qed

end

end
