(* ===== verification/Xpath.thy ===== *)
theory Xpath
  imports Reload
begin

unbundle bit_operations_syntax

text \<open>
  \<open>nk_xpath\<close> of \<^verbatim>\<open>libnklabs/src/nkserialize.c\<close>: a key such as \<^verbatim>\<open>ip_addr[2]\<close> or \<^verbatim>\<open>table[3].name\<close> is followed through a
  schema and an object in memory to the place of the part it names. The second part says which part of a value a key
  names (\<open>select\<close>), and shows that the code finds the place of that part, within the object, or reports that there is none.
\<close>

section \<open>Following a key\<close>

text \<open>The scans of the loop: an index in brackets, and the name of a member.\<close>

definition scan_index :: "'s nkinfile \<Rightarrow> (bool \<times> u32 \<times> 's nkinfile) option" where
  "scan_index f = do {
     (ok, ap, f) \<leftarrow> nk_fscan no_key f ''[ %zu ]%e'' [PSize 0];
     (case ap of [PSize idx] \<Rightarrow> Some (ok, idx, f) | _ \<Rightarrow> None)
   }"

text \<open>The element of an array: its number of elements is stored before it or follows from the sizes.
  None in the result is the return of 0 with a message on the error console.\<close>

definition index_of :: "ty \<Rightarrow> bytes \<Rightarrow> nat \<Rightarrow> u32 \<Rightarrow> (ty \<times> nat) option option" where
  "index_of type ram location idx =
     (if ty_what type \<in> {tVARRAY, tTABLE} then (case ty_subtype type of None \<Rightarrow> None | Some st \<Rightarrow> do {
        count \<leftarrow> load_len ram location;
        let location = location + LEN_SIZE;
        Some (if unat idx \<ge> count then None else Some (st, location + unat (idx * word_of_nat (ty_size st))))
      })
      else if ty_what type = tARRAY then (case ty_subtype type of None \<Rightarrow> None | Some st \<Rightarrow> do {
        count \<leftarrow> capacity (ty_size type) (ty_size st);
        Some (if unat idx \<ge> count then None else Some (st, location + unat (idx * word_of_nat (ty_size st))))
      })
      else Some None)"

definition member_of :: "ty \<Rightarrow> nat \<Rightarrow> bytes \<Rightarrow> (ty \<times> nat \<times> u32) option" where
  "member_of type location name =
     (if ty_what type \<noteq> tSTRUCT then None
      else map_option (\<lambda>m. (m_type m, location + m_offset m, m_triggers m)) (find_member name (ty_members type)))"

text \<open>After an index or a name: whether the loop goes on, a point being skipped.\<close>

definition goes_on :: "'s nkinfile \<Rightarrow> (bool \<times> 's nkinfile) option" where
  "goes_on f = do {
     c \<leftarrow> nk_fpeek f;
     if c = chr (CHR ''.'') then do { (_, f) \<leftarrow> nk_fnext_fast f; Some (True, f) }
     else Some (c = chr (CHR ''[''), f)
   }"

text \<open>One pass of the loop: \<open>Inl\<close> goes round again, \<open>Inr None\<close> returns 0, \<open>Inr (Some _)\<close> leaves the loop.\<close>

type_synonym place = "ty \<times> nat"

definition xpath_step :: "bytes \<Rightarrow> 's nkinfile \<times> place \<times> u32
    \<Rightarrow> ('s nkinfile \<times> place \<times> u32 + ('s nkinfile \<times> place) option \<times> u32) option" where
  "xpath_step ram = (\<lambda>(f, (type, location), triggers).
     if nk_feof f then Some (Inr (Some (f, type, location), triggers))
     else do {
       (ok, idx, f) \<leftarrow> scan_index f;
       if ok then do {
         element \<leftarrow> index_of type ram location idx;
         (case element of None \<Rightarrow> Some (Inr (None, triggers)) | Some p \<Rightarrow> do {
            (more, f) \<leftarrow> goes_on f;
            Some (if more then Inl (f, p, triggers) else Inr (Some (f, p), triggers))
          })
       }
       else do {
         (ok, buf, f) \<leftarrow> scan_name f ''%i%e'';
         if ok then (case member_of type location buf of None \<Rightarrow> Some (Inr (None, triggers)) | Some (t, l, trig) \<Rightarrow> do {
            (more, f) \<leftarrow> goes_on f;
            Some (if more then Inl (f, (t, l), triggers OR trig) else Inr (Some (f, t, l), triggers OR trig))
          })
         else Some (Inr (None, triggers))
       }
     })"

definition nk_xpath :: "bytes \<Rightarrow> ty \<Rightarrow> bytes \<Rightarrow> nat \<Rightarrow> u32 \<Rightarrow> (place option \<times> u32) option" where
  "nk_xpath key type ram location triggers = do {
     f \<leftarrow> nkinfile_open_string () key;
     (r, triggers) \<leftarrow> loop (xpath_step ram) (f, (type, location), triggers);
     Some (case r of Some (f, p) \<Rightarrow> if nk_feof f then Some p else None | None \<Rightarrow> None, triggers)
   }"

section \<open>What a key names\<close>

text \<open>A key is a sequence of names and indices. A name is separated from what is before it by a point.\<close>

datatype key_part = Name bytes | Index u32

fun part_ok :: "key_part \<Rightarrow> bool" where
  "part_ok (Name n) = ident n"
| "part_ok (Index k) = True"

fun part_text :: "key_part \<Rightarrow> bytes" where
  "part_text (Name n) = n"
| "part_text (Index k) = [0x5B] @ number_text 10 False (unat k) @ [0x5D]"

fun key_text :: "key_part list \<Rightarrow> bytes" where
  "key_text [] = []"
| "key_text [p] = part_text p"
| "key_text (p # Name n # ps) = part_text p @ [0x2E] @ key_text (Name n # ps)"
| "key_text (p # Index k # ps) = part_text p @ key_text (Index k # ps)"

text \<open>The part of a value that a key names.\<close>

fun select :: "key_part list \<Rightarrow> dval \<Rightarrow> dval option" where
  "select [] v = Some v"
| "select (Name n # ps) (DStruct ms) = (case map_of ms n of Some v \<Rightarrow> select ps v | None \<Rightarrow> None)"
| "select (Index k # ps) (DArray vs) = (if unat k < length vs then select ps (vs ! unat k) else None)"
| "select (Index k # ps) (DTable names rows) = (if unat k < length rows then select ps (DStruct (zip names (rows ! unat k))) else None)"
| "select (p # ps) v = None"
text \<open>A place of an object: its type is a schema, it has the value, and it lies within the object.\<close>

definition holds_at :: "bytes \<Rightarrow> place \<Rightarrow> dval \<Rightarrow> nat set \<Rightarrow> bool" where
  "holds_at ram p v A \<longleftrightarrow> wf_ty (fst p) \<and> value_of (fst p) ram (snd p) = Some v \<and> {snd p..<snd p + extent (fst p)} \<subseteq> A"

lemma items_value_nth: "items_value n sz g loc = Some vs \<Longrightarrow> k < n \<Longrightarrow> g (loc + k * sz) = Some (vs ! k)"
proof (induction n arbitrary: loc vs k)
  case (Suc n)
  then obtain v vs' where v: "g loc = Some v" "items_value n sz g (loc + sz) = Some vs'" "vs = v # vs'" by (auto simp: Option.bind_eq_Some_conv)
  show ?case
  proof (cases k)
    case (Suc j)
    then show ?thesis using Suc.IH [OF v(2), of j] Suc.prems(2) v(3) by (simp add: algebra_simps)
  qed (use v in simp)
qed simp

lemma set_zip_nth: "k < length xs \<Longrightarrow> k < length ys \<Longrightarrow> (xs ! k, ys ! k) \<in> set (zip xs ys)"
  by (auto simp: set_zip)

lemma within: "k < n \<Longrightarrow> n * item \<le> sz \<Longrightarrow> (e :: nat) \<le> item \<Longrightarrow> k * item + e \<le> sz"
proof -
  assume k: "k < n" "n * item \<le> sz" "e \<le> item"
  have "Suc k * item \<le> n * item" using k(1) by (intro mult_le_mono1) simp
  then show ?thesis using k(2,3) by simp
qed

lemma member_of_holds:
  assumes "holds_at ram (t, l) v A"
  shows "case v of DStruct vs \<Rightarrow> (case map_of vs n of
            Some v' \<Rightarrow> \<exists>t' l' trig. member_of t l n = Some (t', l', trig) \<and> holds_at ram (t', l') v' A
          | None \<Rightarrow> member_of t l n = None)
      | _ \<Rightarrow> member_of t l n = None"
proof (cases "ty_what t = tSTRUCT")
  case False
  obtain w sz ms sub check where t: "t = Ty w sz ms sub check" by (cases t)
  have "\<nexists>vs. v = DStruct vs"
    using assms False t by (auto simp: holds_at_def scalar_value_def string_value_def Option.bind_eq_Some_conv split: what.splits option.splits ty.splits if_splits)
  then show ?thesis using False by (cases v) (simp_all add: member_of_def)
next
  case True
  obtain sz ms sub check where t: "t = Ty tSTRUCT sz ms sub check" using True by (cases t) simp
  obtain vs where vs: "v = DStruct vs" "members_value ms ram l = Some vs" using assms t by (auto simp: holds_at_def)
  have lay: "layout sz ms" "\<forall>m\<in>set ms. wf_ty (m_type m)" "{l..<l + sz} \<subseteq> A"
    using assms t by (simp_all add: holds_at_def extent_def)
  have names: "map fst vs = map m_name ms" "\<forall>(m, v)\<in>set (zip ms (map snd vs)). value_of (m_type m) ram (l + m_offset m) = Some v"
    using vs(2) members_value_zip by auto
  show ?thesis
  proof (cases "n \<in> set (map m_name ms)")
    case False
    have "find_member n ms = None" using False by (induction ms) auto
    moreover have "map_of vs n = None" using False names(1) by (metis map_of_eq_None_iff set_map)
    ultimately show ?thesis using t vs(1) by (simp add: member_of_def)
  next
    case True
    then obtain k where k: "k < length ms" "n = m_name (ms ! k)" by (auto simp: in_set_conv_nth)
    have len: "length vs = length ms" using names(1) by (metis length_map)
    have "fst (vs ! k) = n" using names(1) k len by (metis nth_map)
    moreover have "distinct (map fst vs)" using lay(1) names(1) by (simp add: layout_def)
    ultimately have "map_of vs n = Some (snd (vs ! k))" using k(1) len by (metis map_of_eq_Some_iff nth_mem prod.collapse)
    moreover have "find_member n ms = Some (ms ! k)" using find_member_distinct [of ms "ms ! k"] lay(1) k by (simp add: layout_def)
    moreover have "value_of (m_type (ms ! k)) ram (l + m_offset (ms ! k)) = Some (snd (vs ! k))"
      using bspec [OF names(2) set_zip_nth, of k] k(1) len by simp
    moreover have "{l + m_offset (ms ! k)..<l + m_offset (ms ! k) + extent (m_type (ms ! k))} \<subseteq> A"
      using layout_region [OF lay(1), of "ms ! k" l] k(1) lay(3) by (auto simp: region_def member_end_def add.assoc)
    ultimately show ?thesis using vs(1) t lay(2) k(1) by (simp add: member_of_def holds_at_def)
  qed
qed

lemma index_of_holds:
  assumes "holds_at ram (t, l) v A"
  shows "case v of
        DArray vs \<Rightarrow> (if unat k < length vs then \<exists>p. index_of t ram l k = Some (Some p) \<and> holds_at ram p (vs ! unat k) A else index_of t ram l k = Some None)
      | DTable names rows \<Rightarrow>
          (if unat k < length rows then \<exists>p. index_of t ram l k = Some (Some p) \<and> holds_at ram p (DStruct (zip names (rows ! unat k))) A
           else index_of t ram l k = Some None)
      | _ \<Rightarrow> index_of t ram l k = Some None"
proof -
  obtain w sz ms sub check where t: "t = Ty w sz ms sub check" by (cases t)
  have wf: "wf_ty t" "value_of t ram l = Some v" "{l..<l + extent t} \<subseteq> A" using assms by (simp_all add: holds_at_def)
  have sz: "sz < 2 ^ 32" using wf(1) t by simp
  have offset: "unat (k * word_of_nat item) = unat k * item" "unat k * item + e \<le> sz"
    if "unat k < n" "n * item \<le> sz" "e \<le> item" "0 < item" for n item e
  proof -
    have "unat k * item \<le> sz" "unat k * item + e \<le> sz" using within [OF that(1,2), of 0] within [OF that(1,2,3)] by simp_all
    moreover have "item \<le> n * item" using that(1) by (cases n) simp_all
    then have "item < 4294967296" using le_less_trans [OF le_trans [OF _ that(2)] sz] by simp
    ultimately show "unat (k * word_of_nat item) = unat k * item" "unat k * item + e \<le> sz"
      using sz by (simp_all add: unat_word_ariths unat_of_nat_u32)
  qed
  consider "w = tARRAY" | "w = tVARRAY" | "w = tTABLE" | "w \<notin> {tARRAY, tVARRAY, tTABLE}" by blast
  then show ?thesis
  proof cases
    case 1
    obtain st where st: "sub = Some st" "wf_ty st" "element_of st sz" using wf(1) t 1 by (auto split: option.splits)
    define n where "n = sz div ty_size st"
    obtain vs where vs: "items_value n (ty_size st) (\<lambda>l. value_of st ram l) l = Some vs" "v = DArray vs"
      using wf(2) t 1 st by (auto simp: capacity_def element_of_def n_def)
    have len: "length vs = n" using items_value_all(1) [OF vs(1)] .
    have n: "n * ty_size st \<le> sz" "0 < ty_size st" "extent st \<le> ty_size st" using st(3) by (simp_all add: n_def element_of_def)
    have A: "{l..<l + sz} \<subseteq> A" using wf(3) t 1 by (simp add: extent_def)
    show ?thesis
      using t 1 st(1,2) vs(2) len n offset [OF _ n(1,3,2)] items_value_nth [OF vs(1), of "unat k"]
      by (auto simp: index_of_def capacity_def n_def [symmetric] holds_at_def add.assoc intro!: subsetD [OF A])
  next
    case 2
    obtain st where st: "sub = Some st" "wf_ty st" "element_of st sz" using wf(1) t 2 by (auto split: option.splits)
    obtain n vs where vs: "load_len ram l = Some n" "n * ty_size st \<le> sz" "items_value n (ty_size st) (\<lambda>l. value_of st ram l) (l + LEN_SIZE) = Some vs" "v = DArray vs"
      using wf(2) t 2 st by (auto simp: Option.bind_eq_Some_conv split: if_splits)
    have len: "length vs = n" using items_value_all(1) [OF vs(3)] .
    have n: "0 < ty_size st" "extent st \<le> ty_size st" using st(3) by (simp_all add: element_of_def)
    have A: "{l..<l + (LEN_SIZE + sz)} \<subseteq> A" using wf(3) t 2 by (simp add: extent_def)
    show ?thesis
      using t 2 st(1,2) vs(1,4) len offset [OF _ vs(2) n(2,1)] items_value_nth [OF vs(3), of "unat k"]
      by (auto simp: index_of_def holds_at_def add.assoc intro!: subsetD [OF A])
  next
    case 3
    obtain item ms ssub scheck where st: "sub = Some (Ty tSTRUCT item ms ssub scheck)" "0 < item" "wf_ty (Ty tSTRUCT item ms ssub scheck)"
      using wf_table [of sz ms sub check] wf(1) unfolding t 3 by metis
    obtain n vs where vs: "load_len ram l = Some n" "n * item \<le> sz" "items_value n item (members_value ms ram) (l + LEN_SIZE) = Some vs"
        "v = DTable (map m_name ms) (map (map snd) vs)"
      using wf(2) t 3 st by (auto simp: Option.bind_eq_Some_conv split: if_splits)
    have len: "length vs = n" using items_value_all(1) [OF vs(3)] .
    have row: "holds_at ram (Ty tSTRUCT item ms ssub scheck, l + LEN_SIZE + unat k * item) (DStruct (zip (map m_name ms) (map snd (vs ! unat k)))) A" if "unat k < n"
    proof -
      have m: "members_value ms ram (l + LEN_SIZE + unat k * item) = Some (vs ! unat k)" using items_value_nth [OF vs(3) that] .
      then have "map fst (vs ! unat k) = map m_name ms" unfolding members_value_zip by simp
      then have "zip (map m_name ms) (map snd (vs ! unat k)) = vs ! unat k" by (metis zip_map_fst_snd)
      then show ?thesis using m st(3) offset(2) [OF that vs(2) order.refl st(2)] wf(3) t 3 by (auto simp: holds_at_def extent_def add.assoc)
    qed
    show ?thesis
      using t 3 st(1) vs(1,4) len offset(1) [OF _ vs(2) order.refl st(2)] row
      by (auto simp: index_of_def)
  next
    case 4
    then show ?thesis using wf(2) t
      by (auto simp: index_of_def scalar_value_def string_value_def Option.bind_eq_Some_conv split: what.splits if_splits)
  qed
qed

section \<open>The code follows the key\<close>

lemma key_formats:
  "scan_items ''[ %zu ]%e'' = [Lit (CHR ''[''), Blank, Conv (CHR ''u'') (-1) 10, Blank, Lit (CHR '']''), Done]"
  "scan_items ''%i%e'' = [Conv (CHR ''i'') (-1) 0, Done]"
  by (simp_all add: scan_items.simps scan_width_def is_digit_def conv_chars_def)

fun rest_text :: "key_part list \<Rightarrow> bytes" where
  "rest_text [] = []"
| "rest_text (Name n # ps) = 0x2E # key_text (Name n # ps)"
| "rest_text (Index k # ps) = key_text (Index k # ps)"

lemma key_text_Cons: "key_text (p # ps) = part_text p @ rest_text ps"
  by (cases ps rule: rest_text.cases) simp_all

lemma rest_starts: "rest_text ps \<noteq> [] \<Longrightarrow> head_of (rest_text ps) \<in> {0x2E, 0x5B}"
  by (cases ps rule: rest_text.cases) (simp_all add: key_text_Cons)

lemma number_text_trim: "trim (number_text 10 False n @ r) = number_text 10 False n @ r"
proof (cases "number_text 10 False n")
  case (Cons c cs)
  then have "is_digit (uint c)" using decimal_text(1) [of c n] by simp
  then show ?thesis using Cons by (simp add: is_digit_def nk_isspace_def)
qed (use decimal_text(2) in simp)

context reader
begin

lemma reads_feof: "reads data f bs \<Longrightarrow> nk_feof f \<longleftrightarrow> bs = []"
  using feof_view view_less by (fastforce simp: reads_def)

lemma scan_index_reads:
  assumes "reads data f bs"
  shows "bs = part_text (Index k) @ r \<Longrightarrow> \<exists>f'. scan_index f = Some (True, k, f') \<and> reads data f' r"
    "lit 0x5B bs = None \<Longrightarrow> \<exists>k f'. scan_index f = Some (False, k, f') \<and> reads data f' bs"
proof -
  have key: "key_matches no_key (\<lambda>_ _. None)" by (simp add: key_matches_def)
  have "\<exists>f'. scan_index f = Some (True, k, f') \<and> reads data f' r" if bs: "bs = part_text (Index k) @ r"
  proof -
    have "case 0x5D # r of c # _ \<Rightarrow> \<not> is_digit (uint c) | [] \<Rightarrow> True" by (simp add: is_digit_def)
    from decnum_read(1) [OF this, of "unat k"]
    have n: "text_decnum (-1) (number_text 10 False (unat k) @ 0x5D # r) = Some (word_of_nat (unat k), 0x5D # r)" .
    have u: "(ucast (ucast k :: u64) :: u32) = k" by (rule bit_word_eqI) (simp add: bit_simps)
    have "match_arg (\<lambda>_ _. None) False (CHR ''u'') (-1) 10 (number_text 10 False (unat k) @ 0x5D # r) (PSize 0 :: unit dest) = Some (True, PSize k, 0x5D # r)"
      by (simp add: match_arg_def match_number_def n u)
    then have "match_items (\<lambda>_ _. None) False (scan_items ''[ %zu ]%e'') [PSize 0 :: unit dest] bs = Some (True, [PSize k], r)"
      by (simp add: key_formats same_char_lit lit_def bs number_text_trim)
    then show ?thesis using vscan_reads [OF key assms] by (fastforce simp: scan_index_def nk_fscan_def)
  qed
  then show "bs = part_text (Index k) @ r \<Longrightarrow> \<exists>f'. scan_index f = Some (True, k, f') \<and> reads data f' r" .
  have "\<exists>k f'. scan_index f = Some (False, k, f') \<and> reads data f' bs" if "lit 0x5B bs = None"
  proof -
    have "match_items (\<lambda>_ _. None) False (scan_items ''[ %zu ]%e'') [PSize 0 :: unit dest] bs = Some (False, [PSize 0], bs)"
      using that by (simp add: key_formats same_char_lit)
    then show ?thesis using vscan_reads [OF key assms] by (fastforce simp: scan_index_def nk_fscan_def)
  qed
  then show "lit 0x5B bs = None \<Longrightarrow> \<exists>k f'. scan_index f = Some (False, k, f') \<and> reads data f' bs" .
qed

lemma part_name_reads:
  assumes "reads data f (n @ rest_text ps)" "ident n"
  shows "\<exists>f'. scan_name f ''%i%e'' = Some (True, n, f') \<and> reads data f' (rest_text ps)"
proof -
  have c: "case rest_text ps of c # _ \<Rightarrow> \<not> ident_char (uint c) | [] \<Rightarrow> True"
    using rest_starts [of ps] by (cases "rest_text ps") (auto simp: ident_char_def ident_start_def is_digit_def)
  obtain buf where b: "match_arg (\<lambda>_ _. None) False (CHR ''i'') (-1) 0 (n @ rest_text ps) (PStr (replicate 80 0) 80) = Some (True, PStr buf 80 :: unit dest, rest_text ps)" "cstr buf = n"
    using ident_arg [OF assms(2) c] by blast
  have "match_items (\<lambda>_ _. None) False (scan_items ''%i%e'') [PStr (replicate 80 0) 80 :: unit dest] (n @ rest_text ps) = Some (True, [PStr buf 80], rest_text ps)"
    using b(1) by (simp add: key_formats)
  from scan_name_reads [OF assms(1) this] show ?thesis using b(2) by simp
qed

lemma goes_on_reads:
  assumes "reads data f (rest_text ps)"
  shows "\<exists>f'. goes_on f = Some (ps \<noteq> [], f') \<and> reads data f' (key_text ps)"
proof (cases ps rule: rest_text.cases)
  case (2 n qs)
  then obtain f' where "nk_fnext_fast f = Some (head_of (key_text ps), f')" "reads data f' (key_text ps)"
    using reads_next [of data f "0x2E" "key_text ps"] assms by auto
  then show ?thesis using reads_peek [OF assms] 2 by (simp add: goes_on_def)
qed (use reads_peek [OF assms] assms in \<open>auto simp: goes_on_def key_text_Cons\<close>)

lemma xpath_loop_selects:
  "reads data f (key_text ps) \<Longrightarrow> \<forall>p\<in>set ps. part_ok p \<Longrightarrow> holds_at ram p v A \<Longrightarrow>
   \<exists>r trig. loop (xpath_step ram) (f, p, triggers) = Some (r, trig)
     \<and> (case select ps v of Some v' \<Rightarrow> \<exists>f' p'. r = Some (f', p') \<and> reads data f' [] \<and> holds_at ram p' v' A | None \<Rightarrow> r = None)"
proof (induction ps arbitrary: f p v triggers)
  case Nil
  obtain t l where p: "p = (t, l)" by fastforce
  have "nk_feof f" using reads_feof [OF Nil.prems(1)] by simp
  then have "loop (xpath_step ram) (f, p, triggers) = Some (Some (f, p), triggers)" by (subst loop.simps) (simp add: xpath_step_def p)
  then show ?case using Nil.prems(1,3) by (cases p) auto
next
  case (Cons q ps)
  obtain t l where p: "p = (t, l)" by fastforce
  have f: "reads data f (part_text q @ rest_text ps)" using Cons.prems(1) by (simp add: key_text_Cons)
  have ne: "part_text q \<noteq> []" using Cons.prems(2) by (cases q) (auto simp: ident_def)
  then have feof: "\<not> nk_feof f" using reads_feof [OF f] by simp
  have after: "\<exists>r trig. do {
          (more, f) \<leftarrow> goes_on f1;
          case (if more then Inl (f, p', triggers') else Inr (Some (f, p'), triggers')) of
            Inl x \<Rightarrow> loop (xpath_step ram) x | Inr r \<Rightarrow> Some r } = Some (r, trig)
      \<and> (case select ps v' of Some v' \<Rightarrow> \<exists>f' p'. r = Some (f', p') \<and> reads data f' [] \<and> holds_at ram p' v' A | None \<Rightarrow> r = None)"
    if "reads data f1 (rest_text ps)" "holds_at ram p' v' A" for f1 p' v' triggers'
  proof -
    note h = that
    obtain f2 where "goes_on f1 = Some (ps \<noteq> [], f2)" "reads data f2 (key_text ps)" using goes_on_reads [OF h(1)] by blast
    then show ?thesis using Cons.IH [of f2 p' v' triggers'] Cons.prems(2) h(2) by (cases "ps = []"; cases p') auto
  qed
  show ?case
  proof (cases q)
    case (Index k)
    obtain f1 where f1: "scan_index f = Some (True, k, f1)" "reads data f1 (rest_text ps)" using scan_index_reads(1) [OF f] Index by blast
    have step: "loop (xpath_step ram) (f, p, triggers) = do {
        element \<leftarrow> index_of t ram l k;
        case element of None \<Rightarrow> Some (None, triggers) | Some p' \<Rightarrow> do {
          (more, f) \<leftarrow> goes_on f1;
          case (if more then Inl (f, p', triggers) else Inr (Some (f, p'), triggers)) of
            Inl x \<Rightarrow> loop (xpath_step ram) x | Inr r \<Rightarrow> Some r } }"
      using f1(1) feof by (subst loop.simps) (auto simp: xpath_step_def p intro!: Option.bind_cong split: option.split)
    show ?thesis
    proof (cases v)
      case (DArray vs)
      show ?thesis
      proof (cases "unat k < length vs")
        case True
        then obtain p' where "index_of t ram l k = Some (Some p')" "holds_at ram p' (vs ! unat k) A"
          using index_of_holds [of ram t l v A k] Cons.prems(3) DArray p by auto
        then show ?thesis using after [OF f1(2)] step True DArray Index by simp
      qed (use index_of_holds [of ram t l v A k] Cons.prems(3) DArray p step Index in simp)
    next
      case (DTable names rows)
      show ?thesis
      proof (cases "unat k < length rows")
        case True
        then obtain p' where "index_of t ram l k = Some (Some p')" "holds_at ram p' (DStruct (zip names (rows ! unat k))) A"
          using index_of_holds [of ram t l v A k] Cons.prems(3) DTable p by auto
        then show ?thesis using after [OF f1(2)] step True DTable Index by simp
      qed (use index_of_holds [of ram t l v A k] Cons.prems(3) DTable p step Index in simp)
    qed (use index_of_holds [of ram t l v A k] Cons.prems(3) p step Index in simp_all)
  next
    case (Name n)
    have n: "ident n" using Cons.prems(2) Name by simp
    have "lit 0x5B (n @ rest_text ps) = None" using n by (cases n) (auto simp: ident_def lit_def ident_start_def)
    then obtain k f0 where f0: "scan_index f = Some (False, k, f0)" "reads data f0 (n @ rest_text ps)" using scan_index_reads(2) [OF f] Name by auto
    obtain f1 where f1: "scan_name f0 ''%i%e'' = Some (True, n, f1)" "reads data f1 (rest_text ps)" using part_name_reads [OF f0(2) n] by blast
    have step: "loop (xpath_step ram) (f, p, triggers) = (case member_of t l n of None \<Rightarrow> Some (None, triggers) | Some (t', l', trig) \<Rightarrow> do {
          (more, f) \<leftarrow> goes_on f1;
          case (if more then Inl (f, (t', l'), triggers OR trig) else Inr (Some (f, t', l'), triggers OR trig)) of
            Inl x \<Rightarrow> loop (xpath_step ram) x | Inr r \<Rightarrow> Some r })"
      using f0(1) f1(1) feof by (subst loop.simps) (auto simp: xpath_step_def p intro!: Option.bind_cong split: option.split)
    show ?thesis
    proof (cases v)
      case (DStruct vs)
      show ?thesis
      proof (cases "map_of vs n")
        case (Some v')
        then obtain t' l' trig where m: "member_of t l n = Some (t', l', trig)" "holds_at ram (t', l') v' A"
          using member_of_holds [of ram t l v A n] Cons.prems(3) DStruct p by auto
        show ?thesis using after [OF f1(2) m(2), of "triggers OR trig"] step m(1) Some DStruct Name by simp
      qed (use member_of_holds [of ram t l v A n] Cons.prems(3) DStruct p step Name in simp)
    qed (use member_of_holds [of ram t l v A n] Cons.prems(3) p step Name in simp_all)
  qed
qed

end

lemma key_text_nonzero: "\<forall>p\<in>set ps. part_ok p \<Longrightarrow> 0 \<notin> set (key_text ps)"
proof (induction ps rule: key_text.induct)
  case (2 p)
  then show ?case using ident_end(1) decimal_text(1) [of 0] by (cases p) (auto simp: is_digit_def)
next
  case (3 p n ps)
  then show ?case using ident_end(1) decimal_text(1) [of 0] by (cases p) (auto simp: is_digit_def)
next
  case (4 p k ps)
  then show ?case using ident_end(1) decimal_text(1) [of 0] by (cases p) (auto simp: is_digit_def)
qed simp

end
