(* ===== verification/Dbase.thy ===== *)
theory Dbase
  imports Xpath Ymodem_cmd
begin

unbundle bit_operations_syntax

text \<open>
  The database in the flash, \<^verbatim>\<open>libnklabs/src/nkdbase.c\<close>, and the calibration data that this firmware keeps in
  it, \<^verbatim>\<open>database.c\<close>: an object described by a schema is saved as text into one of two banks, alternately, behind a
  byte that counts the revisions; loading takes the good bank with the later revision. The messages
  on the console are left out; printing a value (\<open>show\<close>, \<open>get\<close>, \<open>set\<close>) is not.
  On every flash device the lemmas show what each bank holds after a save, what loading makes of any two banks, and that a save that was not
  finished leaves the other bank to be loaded.
\<close>

section \<open>The database in the flash\<close>

record 's nk_dbase =
  db_ty :: ty
  db_bank0 :: "'s nk_checked_base"
  db_bank1 :: "'s nk_checked_base"
  db_buf_size :: u32
  db_granularity :: u32

text \<open>The matching of \<open>%v\<close>: the argument is the type and the location, with the memory it points into.\<close>

definition dbase_key :: "fp \<Rightarrow> 's nkinfile \<Rightarrow> ty \<times> nat \<times> bytes \<Rightarrow> (bool \<times> (ty \<times> nat \<times> bytes) \<times> 's nkinfile) option" where
  "dbase_key fp f = (\<lambda>(type, loc, ram). do { (ok, f, ram) \<leftarrow> nk_fscan_keyval fp type loc f ram; Some (ok, (type, loc, ram), f) })"

fun key_ram :: "(ty \<times> nat \<times> bytes) dest list \<Rightarrow> bytes option" where
  "key_ram [PKey (type, loc, ram)] = Some ram"
| "key_ram _ = None"

text \<open>Saving. The local variable \<open>ofilt\<close> is not initialized; with it comes the state of the flash. The result holds the status, the revision,
  the file with the flash, and the transfer buffer.\<close>

definition nk_dbase_save :: "'s nk_dbase \<Rightarrow> 's nk_checked \<Rightarrow> u8 \<Rightarrow> bytes \<Rightarrow> nat \<Rightarrow> bytes \<Rightarrow> (int \<times> u8 \<times> 's nk_checked \<times> bytes) option" where
  "nk_dbase_save dbase ofilt revision ram loc buf = do {
     let bank = 1 AND (uint revision + 1);
     (sta, ofilt) \<leftarrow> (if bank \<noteq> 0 then nk_checked_write_open ofilt (db_bank1 dbase) else nk_checked_write_open ofilt (db_bank0 dbase));
     if sta \<noteq> 0 then Some (-1, revision, ofilt, buf)
     else do {
       let f = nkoutfile_open (Some nk_checked_write) ofilt buf (db_buf_size dbase) (granularity (ck_file ofilt));
       (rtn, f) \<leftarrow> nk_fputc f (1 + uint revision);
       let sta = sta OR rtn;
       (rtn, f) \<leftarrow> nk_dbase_serialize (db_ty dbase) ram loc f;
       let sta = sta OR rtn;
       (rtn, f) \<leftarrow> nk_fflush f;
       let sta = sta OR rtn;
       (rtn, ofilt) \<leftarrow> nk_checked_write_close (o_block_write_ptr f);
       let sta = sta OR rtn;
       Some (if sta \<noteq> 0 then (-1, revision, ofilt, o_buffer f) else (0, revision + 1, ofilt, o_buffer f))
     }
   }"

text \<open>Loading opens a bank three times: each time the checked file, the input file on it, and then its first byte is taken.\<close>

definition open_bank :: "'s nk_dbase \<Rightarrow> 's nk_checked_base \<Rightarrow> 's nk_checked \<Rightarrow> bytes \<Rightarrow> (bool \<times> u8 \<times> 's nk_checked nkinfile) option" where
  "open_bank dbase bank filt buf = do {
     (rtn, filt, buf) \<leftarrow> nk_checked_read_open filt bank buf (db_buf_size dbase);
     f \<leftarrow> nkinfile_open (Some nk_checked_read) filt (db_buf_size dbase) buf;
     (revision, f) \<leftarrow> nk_fgetc f;
     Some (rtn = 0, word_of_int revision, f)
   }"

definition use_bank :: "bool \<Rightarrow> u8 \<Rightarrow> bool \<Rightarrow> u8 \<Rightarrow> int" where
  "use_bank zero_good zero_rev one_good one_rev =
     (if one_good \<and> zero_good then (if sint (zero_rev - one_rev) \<ge> 0 then 0 else 1)
      else if one_good then 1
      else if zero_good then 0
      else -1)"

definition load_bank :: "fp \<Rightarrow> 's nk_dbase \<Rightarrow> 's nk_checked_base \<Rightarrow> 's nk_checked \<Rightarrow> bytes \<Rightarrow> bytes \<Rightarrow> nat
    \<Rightarrow> (int \<times> bytes \<times> 's nk_checked nkinfile) option" where
  "load_bank fp dbase bank filt buf ram loc = do {
     (_, _, f) \<leftarrow> open_bank dbase bank filt buf;
     (ok, ap, f) \<leftarrow> nk_fscan (dbase_key fp) f '' %v'' [PKey (db_ty dbase, loc, ram)];
     ram \<leftarrow> key_ram ap;
     Some (if ok then 0 else -1, ram, f)
   }"

definition nk_dbase_load :: "fp \<Rightarrow> 's nk_dbase \<Rightarrow> 's nk_checked \<Rightarrow> u8 \<Rightarrow> bytes \<Rightarrow> nat \<Rightarrow> bytes
    \<Rightarrow> (int \<times> u8 \<times> bytes \<times> 's nk_checked \<times> bytes) option" where
  "nk_dbase_load fp dbase filt revision ram loc buf = do {
     (zero_good, zero_rev, f) \<leftarrow> open_bank dbase (db_bank0 dbase) filt buf;
     (one_good, one_rev, f) \<leftarrow> open_bank dbase (db_bank1 dbase) (i_block_read_ptr f) (i_buffer f);
     let bank = use_bank zero_good zero_rev one_good one_rev;
     if bank = 0 then do {
       (rtn, ram, f) \<leftarrow> load_bank fp dbase (db_bank0 dbase) (i_block_read_ptr f) (i_buffer f) ram loc;
       Some (rtn, zero_rev, ram, i_block_read_ptr f, i_buffer f)
     }
     else if bank = 1 then do {
       (rtn, ram, f) \<leftarrow> load_bank fp dbase (db_bank1 dbase) (i_block_read_ptr f) (i_buffer f) ram loc;
       Some (rtn, one_rev, ram, i_block_read_ptr f, i_buffer f)
     }
     else Some (-1, revision, ram, i_block_read_ptr f, i_buffer f)
   }"

section \<open>What a bank holds\<close>

text \<open>The text of a value does not end with a blank.\<close>

lemma text_ends: "\<not> nk_isspace (uint (last (dval_text v)))"
proof (cases v)
  case (DInt k)
  have "is_digit (uint (last (number_text 10 False (nat \<bar>k\<bar>))))" using decimal_text by (metis last_in_set)
  then show ?thesis using DInt decimal_text(2) by (auto simp: int_text_def is_digit_def nk_isspace_def)
qed (simp_all add: nk_isspace_def)

text \<open>A buffer keeps its length.\<close>

lemma block_read_keeps: "call_block_read br f = Some f' \<Longrightarrow> length (i_buffer f') = length (i_buffer f)"
  by (auto simp: call_block_read_def Option.bind_eq_Some_conv dest: store_at_length)

lemma open_keeps: "nkinfile_open br s bs buf = Some f \<Longrightarrow> length (i_buffer f) = length buf"
  by (cases br) (auto simp: nkinfile_open_def Option.bind_eq_Some_conv dest: block_read_keeps)

lemma fgetc_keeps: "nk_fgetc f = Some (c, f') \<Longrightarrow> length (i_buffer f') = length (i_buffer f)"
  by (cases "i_block_read f")
    (auto simp: nk_fgetc_def nk_fgetc_fast_def nk_fseek_slow_def Let_def Option.bind_eq_Some_conv dest: block_read_keeps split: if_splits)

lemma fflush_keeps: "nk_fflush f = Some (r, f') \<Longrightarrow> length (o_buffer f') = length (o_buffer f)"
  by (auto simp: nk_fflush_def Let_def Option.bind_eq_Some_conv split: option.splits)

lemma fputc_keeps: "nk_fputc f c = Some (r, f') \<Longrightarrow> length (o_buffer f') = length (o_buffer f)"
  by (auto simp: nk_fputc_def nk_flush_and_putc_def put_ptr_def Option.bind_eq_Some_conv dest!: store_at_length fflush_keeps split: option.splits if_splits)

lemma put_all_keeps: "put_all st f cs = Some (r, f') \<Longrightarrow> length (o_buffer f') = length (o_buffer f)"
  by (induction cs arbitrary: st f) (auto simp: Option.bind_eq_Some_conv dest!: fputc_keeps)

context flash_device
begin

text \<open>The content of a file that a reader accepts.\<close>

definition accepted :: "'s nk_checked_base \<Rightarrow> 's \<Rightarrow> bytes option" where
  "accepted file s =
     (let sz = unat (header_size_of file s); data = range_of (mem s) (unat (area_base file) + 8) sz
      in if sz + 8 \<le> unat (area_size file) \<and> nk_crc32be_check data = header_crc_of file s then Some data else None)"

lemma accepted_kept:
  assumes "mem s' = mem s"
  shows "accepted file s' = accepted file s"
  using assms by (simp add: accepted_def header_size_of_def header_crc_of_def)

lemma accepted_complete: "complete file s data \<Longrightarrow> accepted file s = Some data"
proof -
  assume c: "complete file s data"
  have "8 + length data \<le> unat (area_size file)" using c by (simp add: complete_def)
  then have "length data < 4294967296" using unat_u32_less [of "area_size file"] by linarith
  then have "unat (header_size_of file s) = length data" using complete_header [OF c] by (simp add: unat_of_nat_u32)
  then show ?thesis using complete_header [OF c] c by (simp add: accepted_def complete_def Let_def)
qed

lemma accepted_erased:
  assumes "writing file v n"
  shows "accepted file (ck_info v) = None"
proof -
  have h: "range_of (mem (ck_info v)) (unat (area_base file)) 8 = replicate 8 0xFF" using assms by (auto simp: writing_def)
  from erased_header [OF h] have "unat (header_size_of file (ck_info v)) = 4294967295" .
  then have "\<not> unat (header_size_of file (ck_info v)) + 8 \<le> unat (area_size file)" using unat_u32_less [of "area_size file"] by linarith
  then show ?thesis by (simp add: accepted_def Let_def)
qed

text \<open>A change outside of its area does not matter to a file.\<close>

lemma accepted_elsewhere:
  assumes "kept_outside other (mem s) s'"
    and "unat (area_base file) + unat (area_size file) \<le> unat (area_base other) \<or> unat (area_base other) + unat (area_size other) \<le> unat (area_base file)"
    and "8 \<le> unat (area_size file)"
  shows "accepted file s' = accepted file s"
proof -
  have r: "range_of (mem s') a n = range_of (mem s) a n"
    if "unat (area_base file) \<le> a" "a + n \<le> unat (area_base file) + unat (area_size file)" for a n
    using assms(1,2) that by (intro range_of_cong) (auto simp: kept_outside_def)
  have h: "header_size_of file s' = header_size_of file s" "header_crc_of file s' = header_crc_of file s"
    using r [of "unat (area_base file)" 8] assms(3) by (simp_all add: header_size_of_def header_crc_of_def)
  show ?thesis using r [of "unat (area_base file) + 8" "unat (header_size_of file s)"] by (auto simp: accepted_def h Let_def)
qed

text \<open>Opening a bank: whether it is good, its first byte if it is, and a file that reads the rest.\<close>

definition bank_room :: "'s nk_dbase \<Rightarrow> bytes \<Rightarrow> bool" where
  "bank_room dbase buf \<longleftrightarrow> 8 \<le> unat (db_buf_size dbase) \<and> pow2 (db_buf_size dbase) \<and> unat (db_buf_size dbase) \<le> length buf
     \<and> (\<forall>file \<in> {db_bank0 dbase, db_bank1 dbase}. on_device file \<and> unat (db_buf_size dbase) + 8 \<le> unat (area_size file)
          \<and> unat (area_size file) + unat (db_buf_size dbase) < 2 ^ 32)"

lemma open_bank_bad:
  assumes "on_device file" "device_ok (ck_info v)" "8 \<le> unat bs" "unat bs \<le> length buf" "unat bs + 8 \<le> unat (area_size file)"
    and v: "ck_file v = file" "unat (area_size file) < unat (ck_size v) + 8"
  shows "\<exists>f c f'. nkinfile_open (Some nk_checked_read) v bs buf = Some f \<and> nk_fgetc f = Some (c, f')
    \<and> device_ok (ck_info (i_block_read_ptr f')) \<and> mem (ck_info (i_block_read_ptr f')) = mem (ck_info v) \<and> length (i_buffer f') = length buf"
proof -
  have big: "\<not> 0 + bs > ck_size v" using assms(5) v(2) by (simp add: word_less_nat_alt)
  have nz: "bs \<noteq> 0" using assms(3) by auto
  have d: "flash_read file = fread" "unat (area_base file) + unat (area_size file) \<le> device_size" using assms(1) by (auto simp: on_device_def)
  have a: "unat (area_base file + 8 + 0) = unat (area_base file) + 8"
    using on_device_bounds(4) [OF assms(1)] by (simp add: add.commute)
  have "unat (area_base file + 8 + 0) + unat bs \<le> device_size" unfolding a using d(2) assms(5) by simp
  from fread [OF assms(2) this] obtain s' where s': "fread (ck_info v) (area_base file + 8 + 0) bs
      = Some (0, range_of (mem (ck_info v)) (unat (area_base file) + 8) (unat bs), s')" "device_ok s'" "mem s' = mem (ck_info v)"
    unfolding a by blast
  let ?data = "range_of (mem (ck_info v)) (unat (area_base file) + 8) (unat bs)"
  let ?buf = "?data @ drop (unat bs) buf"
  let ?f = "\<lparr>i_buffer = ?buf, i_ptr = 0, i_end = bs, i_len = bs, i_start_offset = 0, i_block_read_ptr = v\<lparr>ck_info := s'\<rparr>,
      i_block_read = Some nk_checked_read, i_block_size = bs\<rparr>"
  have rd: "nk_checked_read v 0 bs = Some (bs, ?data, v\<lparr>ck_info := s'\<rparr>)"
    using big nz s'(1) d(1) v(1) by (simp add: nk_checked_read_def)
  have st: "store_at buf 0 ?data = Some ?buf" using assms(4) by (simp add: buf_simps)
  have op: "nkinfile_open (Some nk_checked_read) v bs buf = Some ?f" by (simp add: nkinfile_open_def call_block_read_def rd st)
  have "1 < unat bs" using assms(3) by simp
  then have ne: "\<not> nk_feof ?f" "\<not> nk_feof (?f\<lparr>i_ptr := 1\<rparr>)" using nz by (auto simp: nk_feof_def)
  obtain c where c: "at_ptr ?f = Some c" using assms(3) by (simp add: at_ptr_def deref_def)
  have "nk_fgetc ?f = Some (c, ?f\<lparr>i_ptr := 1\<rparr>)" using ne c by (simp add: nk_fgetc_def nk_fgetc_fast_def)
  then show ?thesis using op s'(2,3) assms(4) by simp
qed

lemma open_bank_ok:
  assumes room: "bank_room dbase buf" "file \<in> {db_bank0 dbase, db_bank1 dbase}" and dev: "device_ok (ck_info v)"
  obtains good revision f where "open_bank dbase file v buf = Some (good, revision, f)" "good \<longleftrightarrow> accepted file (ck_info v) \<noteq> None"
    "device_ok (ck_info (i_block_read_ptr f))" "mem (ck_info (i_block_read_ptr f)) = mem (ck_info v)" "bank_room dbase (i_buffer f)"
    "\<forall>b data. accepted file (ck_info v) = Some (b # data) \<longrightarrow> revision = b \<and> kept_source.block_file.reads (mem (ck_info v)) (b # data) f data"
proof -
  let ?bs = "db_buf_size dbase" and ?s = "ck_info v"
  have r: "8 \<le> unat ?bs" "pow2 ?bs" "unat ?bs \<le> length buf" "on_device file" "unat ?bs + 8 \<le> unat (area_size file)"
    "unat (area_size file) + unat ?bs < 2 ^ 32" "\<And>buf. bank_room dbase buf \<longleftrightarrow> unat ?bs \<le> length buf"
    using room by (auto simp: bank_room_def)
  from read_open_eval [OF r(4) dev r(1,3)] obtain v1 buf1 where v1: "nk_checked_read_open v file buf ?bs
      = Some (if accepted file ?s \<noteq> None then 0 else -1, v1, buf1)" "ck_file v1 = file" "ck_size v1 = header_size_of file ?s"
      "device_ok (ck_info v1)" "mem (ck_info v1) = mem ?s" "length buf1 = length buf"
    by (auto simp: accepted_def Let_def split: if_splits)
  show ?thesis
  proof (cases "unat (header_size_of file ?s) + 8 \<le> unat (area_size file)")
    case False
    then have "unat (area_size file) < unat (ck_size v1) + 8" using v1(3) by simp
    from open_bank_bad [OF r(4) v1(4) r(1) _ r(5) v1(2) this, of buf1] v1(6) r(3) obtain f c f' where
      f: "nkinfile_open (Some nk_checked_read) v1 ?bs buf1 = Some f" "nk_fgetc f = Some (c, f')"
        "device_ok (ck_info (i_block_read_ptr f'))" "mem (ck_info (i_block_read_ptr f')) = mem (ck_info v1)" "length (i_buffer f') = length buf1" by auto
    have "accepted file ?s = None" using False by (simp add: accepted_def Let_def)
    then show ?thesis using that [of False "word_of_int c" f'] f v1 r(3,7) by (simp add: open_bank_def)
  next
    case True
    have rd: "readable_in (mem ?s) v1" using v1(2-5) True r(4) by (simp add: readable_in_def readable_def in_area_def)
    have st: "stored v1 = range_of (mem ?s) (unat (area_base file) + 8) (unat (header_size_of file ?s))"
      using v1(2,3,5) by (simp add: stored_def)
    have len: "length (stored v1) + unat ?bs < 2 ^ 32" using st True r(6) by simp
    have l1: "unat ?bs \<le> length buf1" using v1(6) r(3) by simp
    obtain f where f: "nkinfile_open (Some nk_checked_read) v1 ?bs buf1 = Some f" "kept_source.block_file.view (mem ?s) f (stored v1) 0"
      using kept_source.open_view [OF rd refl r(2) l1 len] .
    obtain c f' where f': "nk_fgetc f = Some (c, f')" "kept_source.block_file.view (mem ?s) f' (stored v1) (min 1 (length (stored v1)))"
      "stored v1 \<noteq> [] \<Longrightarrow> c = uint (hd (stored v1))"
    proof (cases "stored v1 = []")
      case True
      then have "nk_fgetc f = Some (-1, f)" using kept_source.block_file.feof_view [OF f(2)] by (simp add: nk_fgetc_def)
      then show ?thesis using that f(2) True by simp
    next
      case False
      then show ?thesis using kept_source.block_file.fgetc_view [OF f(2)] that by (auto simp: hd_conv_nth Suc_le_eq)
    qed
    have ok: "readable_in (mem ?s) (i_block_read_ptr f')" "unat ?bs \<le> length (i_buffer f')"
      using f'(2) l1 open_keeps [OF f(1)] fgetc_keeps [OF f'(1)] by (simp_all add: kept_source.block_file.view_def kept_source.block_ok_def)
    have "revision = b \<and> kept_source.block_file.reads (mem ?s) (b # data) f' data"
      if "accepted file ?s = Some (b # data)" "revision = word_of_int c" for b data revision
    proof -
      have "stored v1 = b # data" using that(1) st by (simp add: accepted_def Let_def split: if_splits)
      then show ?thesis using f'(2,3) that(2) by (auto simp: kept_source.block_file.reads_def)
    qed
    then show ?thesis
      using that [of "accepted file ?s \<noteq> None" "word_of_int c" f'] f(1) f'(1) v1(1) ok r(7)
      by (auto simp: open_bank_def readable_in_def readable_def in_area_def)
  qed
qed

lemma text_read_to_end:
  assumes "kept_source.block_file.reads m data f (dval_text v)" "kept_source.block_file.reads m data f' r" "trim r = []"
  shows "r = []"
proof (rule ccontr)
  assume r: "r \<noteq> []"
  obtain p p' where d: "dval_text v = drop p data" "r = drop p' data" using assms(1,2) by (auto simp: kept_source.block_file.reads_def)
  have "dval_text v \<noteq> []" using text_starts [of v] by auto
  then have "last (dval_text v) = last data" using d(1) by (simp add: last_drop)
  moreover have "last r = last data" using r d(2) by (simp add: last_drop)
  moreover have "nk_isspace (uint (last r))" using assms(3) r by (simp add: dropWhile_eq_Nil_conv)
  ultimately show False using text_ends [of v] by simp
qed

lemma scan_value_reads:
  assumes wf: "wf_ty t" "value_of t ram0 l0 = Some v" and fits: "loc + extent t \<le> length ram"
    and f: "kept_source.block_file.reads m data f (dval_text v)"
  shows "\<exists>f' ram'. nk_fscan (dbase_key fp) f '' %v'' [PKey (t, loc, ram)] = Some (True, [PKey (t, loc, ram')], f')
    \<and> value_of t ram' loc = Some v \<and> agree (- {loc..<loc + extent t}) ram ram'"
proof -
  have "trim (dval_text v) = dval_text v" using text_starts [of v] by auto
  then obtain f1 where f1: "nk_fscan_ws f = Some f1" "kept_source.block_file.reads m data f1 (dval_text v @ [])"
    using kept_source.block_file.fscan_ws_reads [OF f] by auto
  have stop: "stops []" by (simp add: stops_def is_digit_def is_real_def)
  obtain f2 ram' r where f2: "nk_fscan_keyval fp t loc f1 ram = Some (True, f2, ram')" "kept_source.block_file.reads m data f2 r" "trim r = trim []"
    "agree (- {loc..<loc + extent t}) ram ram'" "value_of t ram' loc = Some v"
    using kept_source.block_file.loadsD [OF kept_source.block_file.loads_value [OF wf] fits f1(2) stop] .
  have "r = []" using text_read_to_end [OF f f2(2)] f2(3) by simp
  then have "nk_fpeek f2 = Some (-1)" using kept_source.block_file.reads_peek [OF f2(2)] by simp
  then have "nk_fscan (dbase_key fp) f '' %v'' [PKey (t, loc, ram)] = Some (True, [PKey (t, loc, ram')], f2)"
    using f1(1) f2(1)
    by (simp add: nk_fscan_def vscan_def vscan_loop.simps scan_width_def is_digit_def scan_arg_def dbase_key_def)
  then show ?thesis using f2(4,5) by blast
qed

end

section \<open>Saving and loading\<close>

text \<open>Of two good banks the one with the later revision counts; revisions are compared modulo 256.\<close>

fun newer :: "(u8 \<times> bytes) option \<Rightarrow> (u8 \<times> bytes) option \<Rightarrow> (u8 \<times> bytes) option" where
  "newer (Some (r0, d0)) (Some (r1, d1)) = (if sint (r0 - r1) \<ge> 0 then Some (r0, d0) else Some (r1, d1))"
| "newer None b = b"
| "newer a None = a"

lemma newer_None: "newer a b = None \<longleftrightarrow> a = None \<and> b = None"
  by (cases "(a, b)" rule: newer.cases) simp_all

definition bank_bytes :: "u8 \<times> bytes \<Rightarrow> bytes" where
  "bank_bytes = (\<lambda>(r, d). r # d)"

text \<open>The bank that a save writes to, and the other one, which holds what was saved last.\<close>

definition save_bank :: "'s nk_dbase \<Rightarrow> u8 \<Rightarrow> 's nk_checked_base" where
  "save_bank dbase revision = (if odd (unat revision) then db_bank0 dbase else db_bank1 dbase)"

definition last_bank :: "'s nk_dbase \<Rightarrow> u8 \<Rightarrow> 's nk_checked_base" where
  "last_bank dbase revision = (if odd (unat revision) then db_bank1 dbase else db_bank0 dbase)"

definition banks_apart :: "'s nk_dbase \<Rightarrow> bool" where
  "banks_apart dbase \<longleftrightarrow>
     unat (area_base (db_bank0 dbase)) + unat (area_size (db_bank0 dbase)) \<le> unat (area_base (db_bank1 dbase))
   \<or> unat (area_base (db_bank1 dbase)) + unat (area_size (db_bank1 dbase)) \<le> unat (area_base (db_bank0 dbase))"

context flash_device
begin

lemma load_bank_ok:
  assumes "bank_room dbase buf" "file \<in> {db_bank0 dbase, db_bank1 dbase}" "device_ok (ck_info v)"
    and acc: "accepted file (ck_info v) = Some (r # dval_text w)"
    and wf: "wf_ty (db_ty dbase)" "value_of (db_ty dbase) ram0 l0 = Some w" and fits: "loc + extent (db_ty dbase) \<le> length ram"
  shows "\<exists>f ram'. load_bank fp dbase file v buf ram loc = Some (0, ram', f)
    \<and> value_of (db_ty dbase) ram' loc = Some w \<and> agree (- {loc..<loc + extent (db_ty dbase)}) ram ram'"
proof -
  obtain good revision f where o: "open_bank dbase file v buf = Some (good, revision, f)"
    "kept_source.block_file.reads (mem (ck_info v)) (r # dval_text w) f (dval_text w)"
    using open_bank_ok [OF assms(1-3)] acc by metis
  from scan_value_reads [OF wf fits o(2), of fp] obtain f' ram' where
    "nk_fscan (dbase_key fp) f '' %v'' [PKey (db_ty dbase, loc, ram)] = Some (True, [PKey (db_ty dbase, loc, ram')], f')"
    "value_of (db_ty dbase) ram' loc = Some w" "agree (- {loc..<loc + extent (db_ty dbase)}) ram ram'" by blast
  then show ?thesis using o(1) by (simp add: load_bank_def)
qed

lemma open_bank_content:
  fixes c :: "(u8 \<times> bytes) option"
  assumes "bank_room dbase buf" "file \<in> {db_bank0 dbase, db_bank1 dbase}" "device_ok (ck_info v)" "accepted file (ck_info v) = map_option bank_bytes c"
  obtains revision f where "open_bank dbase file v buf = Some (c \<noteq> None, revision, f)"
    "device_ok (ck_info (i_block_read_ptr f))" "mem (ck_info (i_block_read_ptr f)) = mem (ck_info v)" "bank_room dbase (i_buffer f)"
    "\<forall>r d. c = Some (r, d) \<longrightarrow> revision = r"
proof -
  obtain good revision f where o: "open_bank dbase file v buf = Some (good, revision, f)" "good \<longleftrightarrow> accepted file (ck_info v) \<noteq> None"
    "device_ok (ck_info (i_block_read_ptr f))" "mem (ck_info (i_block_read_ptr f)) = mem (ck_info v)" "bank_room dbase (i_buffer f)"
    and r: "\<forall>b data. accepted file (ck_info v) = Some (b # data) \<longrightarrow> revision = b \<and> kept_source.block_file.reads (mem (ck_info v)) (b # data) f data"
    using open_bank_ok [OF assms(1-3)] .
  have rev: "\<forall>r d. c = Some (r, d) \<longrightarrow> revision = r"
  proof (intro allI impI)
    fix r' d assume "c = Some (r', d)"
    then have "accepted file (ck_info v) = Some (r' # d)" using assms(4) by (simp add: bank_bytes_def)
    then show "revision = r'" using r by blast
  qed
  have good: "good = (c \<noteq> None)" using o(2) assms(4) by (cases c) simp_all
  show ?thesis by (rule that [of revision f]) (use o good rev in simp_all)
qed

lemma dbase_load_ok:
  fixes c0 c1 :: "(u8 \<times> bytes) option"
  assumes room: "bank_room dbase buf" and dev: "device_ok (ck_info v)"
    and acc: "accepted (db_bank0 dbase) (ck_info v) = map_option bank_bytes c0" "accepted (db_bank1 dbase) (ck_info v) = map_option bank_bytes c1"
  shows "newer c0 c1 = None \<Longrightarrow> \<exists>v' buf'. nk_dbase_load fp dbase v revision ram loc buf = Some (-1, revision, ram, v', buf')"
    and "newer c0 c1 = Some (r, dval_text w) \<Longrightarrow> wf_ty (db_ty dbase) \<Longrightarrow> value_of (db_ty dbase) ram0 l0 = Some w \<Longrightarrow>
      loc + extent (db_ty dbase) \<le> length ram \<Longrightarrow> \<exists>ram' v' buf'. nk_dbase_load fp dbase v revision ram loc buf = Some (0, r, ram', v', buf')
        \<and> value_of (db_ty dbase) ram' loc = Some w \<and> agree (- {loc..<loc + extent (db_ty dbase)}) ram ram'"
proof -
  obtain r0 f0 where f0: "open_bank dbase (db_bank0 dbase) v buf = Some (c0 \<noteq> None, r0, f0)"
      "device_ok (ck_info (i_block_read_ptr f0))" "mem (ck_info (i_block_read_ptr f0)) = mem (ck_info v)" "bank_room dbase (i_buffer f0)"
      "\<forall>r d. c0 = Some (r, d) \<longrightarrow> r0 = r"
    using open_bank_content [OF room insertI1 dev acc(1)] .
  have acc0: "accepted (db_bank1 dbase) (ck_info (i_block_read_ptr f0)) = map_option bank_bytes c1" using acc(2) accepted_kept [OF f0(3)] by simp
  obtain r1 f1 where f1: "open_bank dbase (db_bank1 dbase) (i_block_read_ptr f0) (i_buffer f0) = Some (c1 \<noteq> None, r1, f1)"
      "device_ok (ck_info (i_block_read_ptr f1))" "mem (ck_info (i_block_read_ptr f1)) = mem (ck_info (i_block_read_ptr f0))" "bank_room dbase (i_buffer f1)"
      "\<forall>r d. c1 = Some (r, d) \<longrightarrow> r1 = r"
    using open_bank_content [OF f0(4) insertI2 [OF singletonI] f0(2) acc0] .
  have acc1: "accepted b (ck_info (i_block_read_ptr f1)) = accepted b (ck_info v)" for b
    by (rule accepted_kept) (simp add: f1(3) f0(3))
  show "newer c0 c1 = None \<Longrightarrow> \<exists>v' buf'. nk_dbase_load fp dbase v revision ram loc buf = Some (-1, revision, ram, v', buf')"
    using f0(1) f1(1) by (simp add: newer_None nk_dbase_load_def use_bank_def)
  assume n: "newer c0 c1 = Some (r, dval_text w)" and wf: "wf_ty (db_ty dbase)" "value_of (db_ty dbase) ram0 l0 = Some w"
    and fits: "loc + extent (db_ty dbase) \<le> length ram"
  note load = load_bank_ok [OF f1(4) _ f1(2) _ wf fits, unfolded acc1, of _ r fp]
  consider (zero) "c0 = Some (r, dval_text w)" "use_bank (c0 \<noteq> None) r0 (c1 \<noteq> None) r1 = 0" "r0 = r"
    | (one) "c1 = Some (r, dval_text w)" "use_bank (c0 \<noteq> None) r0 (c1 \<noteq> None) r1 = 1" "r1 = r"
    using n f0(5) f1(5) by (cases "(c0, c1)" rule: newer.cases) (auto simp: use_bank_def split: if_splits)
  then show "\<exists>ram' v' buf'. nk_dbase_load fp dbase v revision ram loc buf = Some (0, r, ram', v', buf')
        \<and> value_of (db_ty dbase) ram' loc = Some w \<and> agree (- {loc..<loc + extent (db_ty dbase)}) ram ram'"
  proof cases
    case zero
    then have "accepted (db_bank0 dbase) (ck_info v) = Some (r # dval_text w)" using acc(1) by (simp add: bank_bytes_def)
    from load [OF insertI1 this] zero f0(1) f1(1) show ?thesis by (fastforce simp: nk_dbase_load_def)
  next
    case one
    then have "accepted (db_bank1 dbase) (ck_info v) = Some (r # dval_text w)" using acc(2) by (simp add: bank_bytes_def)
    from load [OF insertI2 [OF singletonI] this] one f0(1) f1(1) show ?thesis by (fastforce simp: nk_dbase_load_def)
  qed
qed

lemma bank_parity: "1 AND (uint (r :: u8) + 1) \<noteq> 0 \<longleftrightarrow> even (unat r)"
proof -
  have "1 AND (uint r + 1) = (uint r + 1) mod 2" using one_and_eq [of "uint r + 1"] by simp
  moreover have "(x + 1) mod 2 \<noteq> 0 \<longleftrightarrow> even x" for x :: int by presburger
  ultimately show ?thesis using even_of_nat [of "unat r", where ?'a = int] by simp
qed

lemma dbase_save_ok:
  assumes room: "bank_room dbase buf" "granularity (save_bank dbase revision) = 1" "unat (db_buf_size dbase) < 2 ^ 31" and dev: "device_ok (ck_info v)"
    and wf: "wf_ty (db_ty dbase)" "value_of (db_ty dbase) ram loc = Some w"
    and fits: "9 + length (dval_text w) \<le> unat (area_size (save_bank dbase revision))"
  shows "\<exists>v' buf'. nk_dbase_save dbase v revision ram loc buf = Some (0, revision + 1, v', buf') \<and> length buf' = length buf
    \<and> complete (save_bank dbase revision) (ck_info v') ((revision + 1) # dval_text w)
    \<and> kept_outside (save_bank dbase revision) (mem (ck_info v)) (ck_info v')"
proof -
  let ?bank = "save_bank dbase revision" and ?bs = "db_buf_size dbase"
  have b: "on_device ?bank" "0 < unat ?bs" "unat ?bs \<le> length buf" using room(1) by (auto simp: bank_room_def save_bank_def)
  have n: "8 + (Suc (length (dval_text w)) + 0) \<le> unat (area_size ?bank)" using fits by simp
  obtain v1 where v1: "nk_checked_write_open v ?bank = Some (0, v1)" "writing ?bank v1 (unat (area_size ?bank) - 8)"
      "framed_sink.open_for (mem (ck_info v)) ?bank (nkoutfile_open (Some nk_checked_write) v1 buf ?bs 1) (Suc (length (dval_text w)))"
      "framed_sink.contents (nkoutfile_open (Some nk_checked_write) v1 buf ?bs 1) = []"
    using open_store_ok [OF b(1) dev, of "Suc (length (dval_text w))" ?bs buf] n b(2,3) room(3) by auto
  let ?f = "nkoutfile_open (Some nk_checked_write) v1 buf ?bs 1"
  have gran: "granularity (ck_file v1) = 1" using v1(2) room(2) by (simp add: writing_def)
  from framed_sink.fputc_appends [OF v1(3), of "1 + uint revision"] obtain f1 where f1: "nk_fputc ?f (1 + uint revision) = Some (0, f1)"
      "framed_sink.open_for (mem (ck_info v)) ?bank f1 (length (dval_text w))" "framed_sink.contents f1 = [revision + 1]" "o_granularity f1 = 1"
    using v1(4) by (auto simp: nkoutfile_open_def add.commute)
  have "framed_sink.open_for (mem (ck_info v)) ?bank f1 (length (map uint (dval_text w)) + 0)" using f1(2) by simp
  from framed_sink.put_all_appends [OF this] obtain f2 where f2: "put_all 0 f1 (map uint (dval_text w)) = Some (0, f2)"
      "framed_sink.open_for (mem (ck_info v)) ?bank f2 0" "framed_sink.contents f2 = (revision + 1) # dval_text w" "o_granularity f2 = 1"
    using f1(3,4) by (auto simp: comp_def)
  have ser: "nk_dbase_serialize (db_ty dbase) ram loc f1 = Some (0, f2)" using serialize_puts [OF wf, of f1] f2(1) by (simp add: puts_def)
  obtain f3 v3 where f3: "nk_fflush f2 = Some (0, f3)" "nk_checked_write_close (o_block_write_ptr f3) = Some (0, v3)"
      "complete ?bank (ck_info v3) ((revision + 1) # dval_text w)" "kept_outside ?bank (mem (ck_info v)) (ck_info v3)"
    using close_store_ok [OF f2(2,4)] f2(3) by metis
  have open_eq: "(if 1 AND (uint revision + 1) \<noteq> 0 then nk_checked_write_open v (db_bank1 dbase) else nk_checked_write_open v (db_bank0 dbase)) = Some (0, v1)"
    unfolding bank_parity using v1(1) by (cases "odd (unat revision)") (simp_all add: save_bank_def)
  have "nk_dbase_save dbase v revision ram loc buf = Some (0, revision + 1, v3, o_buffer f3)"
    unfolding nk_dbase_save_def Let_def open_eq using f1(1) ser f3(1,2) gran by simp
  moreover have "length (o_buffer f3) = length buf"
    using fflush_keeps [OF f3(1)] put_all_keeps [OF f2(1)] fputc_keeps [OF f1(1)] by (simp add: nkoutfile_open_def)
  ultimately show ?thesis using f3(3,4) by blast
qed

end

section \<open>The calibration database\<close>

text \<open>The types of \<open>struct cal\<close>: 12 bytes, without padding.\<close>

definition tyIPADDR :: ty where "tyIPADDR = Ty tARRAY 4 [] (Some tyUINT8) None"
definition tyMACADDR :: ty where "tyMACADDR = Ty tARRAY 6 [] (Some tyUINT8) None"

definition cal_members :: "member list" where
  "cal_members =
     [Member (map of_char ''port'') tyUINT16 0 0,
      Member (map of_char ''ip_addr'') tyIPADDR 2 0,
      Member (map of_char ''mac_addr'') tyMACADDR 6 0]"

definition tyCAL :: ty where "tyCAL = Ty tSTRUCT 12 cal_members None None"

definition cal_defaults :: bytes where
  "cal_defaults = le_bytes 2 (8888 :: u16) @ [10, 0, 0, 2] @ [0xFC, 0xFF, 0xFF, 0x00, 0x00, 0x11]"

definition FLASH_KEYVAL_SIZE :: u32 where "FLASH_KEYVAL_SIZE = 8192"
definition FLASH_CAL_KEYVAL_ADDR_1 :: u32 where "FLASH_CAL_KEYVAL_ADDR_1 = 0x1FC000"
definition FLASH_CAL_KEYVAL_ADDR_2 :: u32 where "FLASH_CAL_KEYVAL_ADDR_2 = 0x1FE000"

definition cal_bank :: "'s pico_hw \<Rightarrow> u32 \<Rightarrow> 's nk_checked_base" where
  "cal_bank hw addr = \<lparr>area_size = FLASH_KEYVAL_SIZE, area_base = addr, erase_size = NK_MCUFLASH_ERASE_SIZE,
     flash_read = nk_mcuflash_read hw, flash_erase = Some (nk_mcuflash_erase hw), flash_write = nk_mcuflash_write hw, granularity = 1\<rparr>"

definition cal_dbase :: "'s pico_hw \<Rightarrow> 's nk_dbase" where
  "cal_dbase hw = \<lparr>db_ty = tyCAL, db_bank0 = cal_bank hw FLASH_CAL_KEYVAL_ADDR_1, db_bank1 = cal_bank hw FLASH_CAL_KEYVAL_ADDR_2,
     db_buf_size = 128, db_granularity = 1\<rparr>"

text \<open>The variables of the module, with the flash behind the local variable of \<open>nk_dbase_save\<close> and \<open>nk_dbase_load\<close>, and the console.\<close>

record ('s, 'o) cal_store =
  cal :: bytes
  cal_rev :: u8
  xfer_buf :: bytes
  cal_filt :: "'s nk_checked"
  cal_out :: "'o nkoutfile"

definition cal_save :: "'s pico_hw \<Rightarrow> ('s, 'o) cal_store \<Rightarrow> (int \<times> ('s, 'o) cal_store) option" where
  "cal_save hw st = do {
     (rtn, revision, filt, buf) \<leftarrow> nk_dbase_save (cal_dbase hw) (cal_filt st) (cal_rev st) (cal st) 0 (xfer_buf st);
     Some (rtn, st\<lparr>cal_rev := revision, cal_filt := filt, xfer_buf := buf\<rparr>)
   }"

definition cal_load :: "fp \<Rightarrow> 's pico_hw \<Rightarrow> ('s, 'o) cal_store \<Rightarrow> (int \<times> ('s, 'o) cal_store) option" where
  "cal_load fp hw st = do {
     (rtn, revision, ram, filt, buf) \<leftarrow> nk_dbase_load fp (cal_dbase hw) (cal_filt st) (cal_rev st) (cal st) 0 (xfer_buf st);
     Some (rtn, st\<lparr>cal_rev := revision, cal := ram, cal_filt := filt, xfer_buf := buf\<rparr>)
   }"

definition cal_print :: "ty \<Rightarrow> nat \<Rightarrow> ('s, 'o) cal_store \<Rightarrow> ('s, 'o) cal_store option" where
  "cal_print t loc st = do {
     (_, f) \<leftarrow> nk_dbase_fprint t (cal st) loc 0 [CHR 0x0A] (cal_out st);
     Some (st\<lparr>cal_out := f\<rparr>)
   }"

definition database_init :: "fp \<Rightarrow> 's pico_hw \<Rightarrow> ('s, 'o) cal_store \<Rightarrow> ('s, 'o) cal_store option" where
  "database_init fp hw st = do {
     let st = st\<lparr>cal := cal_defaults\<rparr>;
     (rtn, st) \<leftarrow> cal_load fp hw st;
     Some st
   }"

text \<open>The command. Its key is a local buffer of 80 characters.\<close>

type_synonym dbase_dest = "(ty \<times> nat \<times> bytes) dest"

fun dest_buffer :: "dbase_dest list \<Rightarrow> bytes option" where
  "dest_buffer [PStr buf sz] = Some buf"
| "dest_buffer _ = None"

definition cmd_dbase :: "fp \<Rightarrow> 's pico_hw \<Rightarrow> 'a nkinfile \<Rightarrow> ('s, 'o) cal_store \<Rightarrow> (int \<times> ('s, 'o) cal_store) option" where
  "cmd_dbase fp hw args st = do {
     (ok, _, args) \<leftarrow> nk_fscan (dbase_key fp) args ''clear '' [];
     if ok then do {
       let st = st\<lparr>cal := cal_defaults\<rparr>;
       (rtn, st) \<leftarrow> cal_save hw st;
       (rtn, st) \<leftarrow> cal_save hw st;
       Some (0, st)
     }
     else do {
     (ok, _, args) \<leftarrow> nk_fscan (dbase_key fp) args ''save '' [];
     if ok then do { (rtn, st) \<leftarrow> cal_save hw st; Some (0, st) }
     else do {
     (ok, _, args) \<leftarrow> nk_fscan (dbase_key fp) args ''load '' [];
     if ok then do { (rtn, st) \<leftarrow> cal_load fp hw st; Some (0, st) }
     else do {
     (ok, _, args) \<leftarrow> nk_fscan (dbase_key fp) args ''show '' [];
     if ok then do { st \<leftarrow> cal_print tyCAL 0 st; Some (0, st) }
     else do {
     (ok, ap, args) \<leftarrow> nk_fscan (dbase_key fp) args ''get %w '' [PStr (replicate 80 0) 80];
     if ok then do {
       key \<leftarrow> dest_buffer ap;
       (t, trigs) \<leftarrow> nk_xpath key tyCAL (cal st) 0 0;
       (case t of None \<Rightarrow> Some (0, st) | Some (t, loc) \<Rightarrow> do { st \<leftarrow> cal_print t loc st; Some (0, st) })
     }
     else do {
     (ok, ap, args) \<leftarrow> nk_fscan (dbase_key fp) args ''set %w %e'' [PStr (replicate 80 0) 80];
     if ok then do {
       key \<leftarrow> dest_buffer ap;
       (t, trigs) \<leftarrow> nk_xpath key tyCAL (cal st) 0 0;
       (case t of None \<Rightarrow> Some (0, st) | Some (t, loc) \<Rightarrow> do {
          (ok, ap, args) \<leftarrow> nk_fscan (dbase_key fp) args ''%v '' [PKey (t, loc, cal st)];
          ram \<leftarrow> key_ram ap;
          let st = st\<lparr>cal := ram\<rparr>;
          if ok then do { st \<leftarrow> cal_print t loc st; Some (0, st) } else Some (0, st)
        })
     }
     else Some (0, st)
     } } } } }
   }"

section \<open>The calibration data as a value\<close>

lemma cal_wf: "wf_ty tyCAL"
proof -
  have u8: "wf_ty tyUINT8" and u16: "wf_ty tyUINT16" by (simp_all add: tyUINT8_def tyUINT16_def)
  have arrays: "wf_ty tyIPADDR" "wf_ty tyMACADDR"
    using u8 by (simp_all add: tyIPADDR_def tyMACADDR_def element_of_def extent_def tyUINT8_def)
  have "layout 12 cal_members"
    by (simp add: layout_def cal_members_def ident_def ident_start_def ident_char_def is_digit_def member_end_def extent_def tyUINT16_def tyIPADDR_def tyMACADDR_def)
  then show ?thesis using u16 arrays by (simp add: tyCAL_def cal_members_def)
qed

lemma cal_extent: "extent tyCAL = 12"
  by (simp add: extent_def tyCAL_def)

lemma cal_value:
  "value_of tyCAL [b0, b1, b2, b3, b4, b5, b6, b7, b8, b9, b10, b11] 0 = Some (DStruct
     [(map of_char ''port'', DInt (uint (le_value [b0, b1] :: u16))),
      (map of_char ''ip_addr'', DArray (map (\<lambda>b. DInt (uint b)) [b2, b3, b4, b5])),
      (map of_char ''mac_addr'', DArray (map (\<lambda>b. DInt (uint b)) [b6, b7, b8, b9, b10, b11]))])"
  by (simp add: tyCAL_def cal_members_def tyUINT16_def tyIPADDR_def tyMACADDR_def tyUINT8_def capacity_def scalar_value_def load_short_def
      load_from_def deref_def eval_nat_numeral del: le_value.simps)

lemma cal_bytes:
  fixes ram :: bytes
  assumes "length ram = 12"
  obtains b0 b1 b2 b3 b4 b5 b6 b7 b8 b9 b10 b11 where "ram = [b0, b1, b2, b3, b4, b5, b6, b7, b8, b9, b10, b11]"
  using assms by (auto simp: length_Suc_conv eval_nat_numeral)

lemma le_value_short: "le_bytes 2 (le_value [a, b] :: u16) = [a, b]"
proof -
  have "(ucast (ucast a OR push_bit 8 (ucast b) :: u16) :: u8) = a"
    by (rule bit_word_eqI) (auto simp: bit_simps)
  moreover have "(ucast (drop_bit 8 (ucast a OR push_bit 8 (ucast b) :: u16)) :: u8) = b"
    by (rule bit_word_eqI) (auto simp: bit_simps dest: bit_imp_le_length)
  ultimately show ?thesis by (simp add: numeral_2_eq_2 del: drop_bit_or)
qed

lemma cal_value_injective:
  assumes "length r = 12" "length r' = 12" "value_of tyCAL r 0 = value_of tyCAL r' 0"
  shows "r = r'"
proof -
  obtain b0 b1 b2 b3 b4 b5 b6 b7 b8 b9 b10 b11 where r: "r = [b0, b1, b2, b3, b4, b5, b6, b7, b8, b9, b10, b11]" using cal_bytes [OF assms(1)] .
  obtain c0 c1 c2 c3 c4 c5 c6 c7 c8 c9 c10 c11 where r': "r' = [c0, c1, c2, c3, c4, c5, c6, c7, c8, c9, c10, c11]" using cal_bytes [OF assms(2)] .
  have "uint (le_value [b0, b1] :: u16) = uint (le_value [c0, c1] :: u16)" using assms(3) unfolding r r' cal_value by simp
  then have "[b0, b1] = [c0, c1]" using le_value_short by (metis word_uint_eq_iff)
  then show ?thesis using assms(3) unfolding r r' cal_value by (simp add: word_uint_eq_iff)
qed

text \<open>The text of the calibration data is short.\<close>

lemma cal_text_length:
  assumes "length ram = 12"
  obtains v where "value_of tyCAL ram 0 = Some v" "length (dval_text v) \<le> 100"
proof -
  obtain b0 b1 b2 b3 b4 b5 b6 b7 b8 b9 b10 b11 where r: "ram = [b0, b1, b2, b3, b4, b5, b6, b7, b8, b9, b10, b11]" using cal_bytes [OF assms] .
  have byte: "length (int_text (uint (b :: u8))) \<le> 3" for b
    using number_text_length [of "unat b" 3] unat_u8_less [of b] by (simp add: int_text_def)
  have short: "length (int_text (uint (w :: u16))) \<le> 5" for w
    using number_text_length [of "unat w" 5] order.strict_trans2 [OF unsigned_less [of w], of "100000 :: nat"] by (simp add: int_text_def)
  show ?thesis
    using that cal_value [of b0 b1 b2 b3 b4 b5 b6 b7 b8 b9 b10 b11] byte [of b2] byte [of b3] byte [of b4] byte [of b5] byte [of b6] byte [of b7]
      byte [of b8] byte [of b9] byte [of b10] byte [of b11] short [of "le_value [b0, b1]"]
    by (simp add: r)
qed

context flash_device
begin

lemma last_bank_kept:
  assumes "banks_apart dbase" "bank_room dbase buf" "kept_outside (save_bank dbase revision) (mem s) s'"
  shows "accepted (last_bank dbase revision) s' = accepted (last_bank dbase revision) s"
proof (rule accepted_elsewhere [OF assms(3)])
  show "8 \<le> unat (area_size (last_bank dbase revision))" using assms(2) by (auto simp: bank_room_def last_bank_def)
qed (use assms(1) in \<open>auto simp: banks_apart_def last_bank_def save_bank_def\<close>)

text \<open>Loading when the last bank or the bank of the next save is the newer one.\<close>

lemma load_saved:
  assumes room: "bank_room dbase buf" "device_ok (ck_info v)" and fits: "loc + extent (db_ty dbase) \<le> length ram"
    and wf: "wf_ty (db_ty dbase)" "value_of (db_ty dbase) ram0 l0 = Some w"
    and new: "accepted (save_bank dbase r) (ck_info v) = Some ((r + 1) # dval_text w)"
    and old: "accepted (last_bank dbase r) (ck_info v) = None \<or> (\<exists>d. accepted (last_bank dbase r) (ck_info v) = Some (r # d))"
  shows "\<exists>ram' v' buf'. nk_dbase_load fp dbase v revision ram loc buf = Some (0, r + 1, ram', v', buf')
    \<and> value_of (db_ty dbase) ram' loc = Some w \<and> agree (- {loc..<loc + extent (db_ty dbase)}) ram ram'"
proof -
  obtain c where c: "accepted (last_bank dbase r) (ck_info v) = map_option bank_bytes c" "c = None \<or> (\<exists>d. c = Some (r, d))"
    using old by (metis (no_types, lifting) bank_bytes_def option.map(1,2) prod.case)
  let ?n = "Some (r + 1, dval_text w)"
  have n: "accepted (save_bank dbase r) (ck_info v) = map_option bank_bytes ?n" using new by (simp add: bank_bytes_def)
  have s: "sint (r + 1 - r) = 1" "sint (r - (r + 1)) = - 1" for r :: u8 by simp_all
  show ?thesis
  proof (cases "odd (unat r)")
    case True
    have "newer ?n c = ?n" using c(2) s [of r] by auto
    then show ?thesis using dbase_load_ok(2) [OF room _ _ _ wf fits, of ?n c] n c(1) True by (simp add: save_bank_def last_bank_def)
  next
    case False
    have "newer c ?n = ?n" using c(2) s [of r] by auto
    then show ?thesis using dbase_load_ok(2) [OF room _ _ _ wf fits, of c ?n] n c(1) False by (simp add: save_bank_def last_bank_def)
  qed
qed

lemma load_last:
  assumes room: "bank_room dbase buf" "device_ok (ck_info v)" and fits: "loc + extent (db_ty dbase) \<le> length ram"
    and wf: "wf_ty (db_ty dbase)" "value_of (db_ty dbase) ram0 l0 = Some w"
    and new: "accepted (save_bank dbase r) (ck_info v) = None"
    and old: "accepted (last_bank dbase r) (ck_info v) = Some (r # dval_text w)"
  shows "\<exists>ram' v' buf'. nk_dbase_load fp dbase v revision ram loc buf = Some (0, r, ram', v', buf')
    \<and> value_of (db_ty dbase) ram' loc = Some w \<and> agree (- {loc..<loc + extent (db_ty dbase)}) ram ram'"
proof -
  let ?c = "Some (r, dval_text w)"
  have c: "accepted (last_bank dbase r) (ck_info v) = map_option bank_bytes ?c" "accepted (save_bank dbase r) (ck_info v) = map_option bank_bytes None"
    using new old by (simp_all add: bank_bytes_def)
  show ?thesis
  proof (cases "odd (unat r)")
    case True
    then show ?thesis using dbase_load_ok(2) [OF room _ _ _ wf fits, of None ?c] c by (simp add: save_bank_def last_bank_def)
  next
    case False
    then show ?thesis using dbase_load_ok(2) [OF room _ _ _ wf fits, of ?c None] c by (simp add: save_bank_def last_bank_def)
  qed
qed

lemma save_then_load:
  assumes room: "bank_room dbase buf" "banks_apart dbase" "granularity (save_bank dbase r) = 1" "unat (db_buf_size dbase) < 2 ^ 31" "device_ok (ck_info v)"
    and wf: "wf_ty (db_ty dbase)" "value_of (db_ty dbase) ram loc = Some w"
    and fits: "9 + length (dval_text w) \<le> unat (area_size (save_bank dbase r))"
    and old: "accepted (last_bank dbase r) (ck_info v) = None \<or> (\<exists>d. accepted (last_bank dbase r) (ck_info v) = Some (r # d))"
  shows "\<exists>v1 buf1. nk_dbase_save dbase v r ram loc buf = Some (0, r + 1, v1, buf1) \<and> length buf1 = length buf
    \<and> accepted (last_bank dbase r) (ck_info v1) = accepted (last_bank dbase r) (ck_info v)
    \<and> (\<forall>v2 buf2 ram2 loc2 revision. ck_info v2 = ck_info v1 \<and> length buf2 = length buf \<and> loc2 + extent (db_ty dbase) \<le> length ram2 \<longrightarrow>
         (\<exists>ram3 v3 buf3. nk_dbase_load fp dbase v2 revision ram2 loc2 buf2 = Some (0, r + 1, ram3, v3, buf3)
            \<and> value_of (db_ty dbase) ram3 loc2 = Some w \<and> agree (- {loc2..<loc2 + extent (db_ty dbase)}) ram2 ram3))"
proof -
  from dbase_save_ok [OF room(1,3,4,5) wf fits] obtain v1 buf1 where s: "nk_dbase_save dbase v r ram loc buf = Some (0, r + 1, v1, buf1)"
      "length buf1 = length buf" "complete (save_bank dbase r) (ck_info v1) ((r + 1) # dval_text w)"
      "kept_outside (save_bank dbase r) (mem (ck_info v)) (ck_info v1)" by blast
  have l: "accepted (last_bank dbase r) (ck_info v1) = accepted (last_bank dbase r) (ck_info v)" using last_bank_kept [OF room(2,1) s(4)] .
  have new: "accepted (save_bank dbase r) (ck_info v1) = Some ((r + 1) # dval_text w)" using accepted_complete [OF s(3)] .
  have ok: "device_ok (ck_info v1)" using s(3) by (simp add: complete_def)
  have "\<exists>ram3 v3 buf3. nk_dbase_load fp dbase v2 revision ram2 loc2 buf2 = Some (0, r + 1, ram3, v3, buf3)
      \<and> value_of (db_ty dbase) ram3 loc2 = Some w \<and> agree (- {loc2..<loc2 + extent (db_ty dbase)}) ram2 ram3"
    if h: "ck_info v2 = ck_info v1" "length buf2 = length buf" "loc2 + extent (db_ty dbase) \<le> length ram2" for v2 buf2 ram2 loc2 revision
  proof (rule load_saved [OF _ _ h(3) wf])
    show "bank_room dbase buf2" using room(1) h(2) by (simp add: bank_room_def)
  qed (use h(1) ok new old l in simp_all)
  then show ?thesis using s(1,2) l by blast
qed

lemma interrupted_save:
  assumes room: "bank_room dbase buf" "banks_apart dbase" "device_ok (ck_info v)" "unat (db_buf_size dbase) < 2 ^ 31"
    and wf: "wf_ty (db_ty dbase)" "value_of (db_ty dbase) ram0 l0 = Some w"
    and old: "accepted (last_bank dbase r) (ck_info v) = Some (r # dval_text w)"
    and start: "nk_checked_write_open v (save_bank dbase r) = Some (0, v1)"
    and puts: "put_all 0 (nkoutfile_open (Some nk_checked_write) v1 buf (db_buf_size dbase) 1) (map uint done) = Some (0, f)"
    and fits: "8 + length done \<le> unat (area_size (save_bank dbase r))"
    and v2: "ck_info v2 = ck_info (o_block_write_ptr f)" "length buf2 = length buf" "loc + extent (db_ty dbase) \<le> length ram"
  shows "\<exists>ram' v' buf'. nk_dbase_load fp dbase v2 revision ram loc buf2 = Some (0, r, ram', v', buf')
    \<and> value_of (db_ty dbase) ram' loc = Some w \<and> agree (- {loc..<loc + extent (db_ty dbase)}) ram ram'"
proof -
  let ?bank = "save_bank dbase r"
  have b: "on_device ?bank" "0 < unat (db_buf_size dbase)" "unat (db_buf_size dbase) \<le> length buf" using room(1) by (auto simp: bank_room_def save_bank_def)
  have "framed_sink.open_for (mem (ck_info v)) ?bank (nkoutfile_open (Some nk_checked_write) v1 buf (db_buf_size dbase) 1) (length (map uint done) + 0)"
    using open_store_ok [OF b(1) room(3) fits b(2) room(4) b(3)] start by (metis Pair_inject add.right_neutral length_map option.inject)
  from framed_sink.put_all_appends [OF this] have "framed_sink.open_for (mem (ck_info v)) ?bank f 0" using puts by auto
  then obtain n where n: "writing ?bank (o_block_write_ptr f) n" "kept_outside ?bank (mem (ck_info v)) (ck_info (o_block_write_ptr f))"
    by (auto simp: framed_sink.open_for_def framed_def)
  show ?thesis
  proof (rule load_last [OF _ _ v2(3) wf])
    show "bank_room dbase buf2" using room(1) v2(2) by (simp add: bank_room_def)
    show "device_ok (ck_info v2)" using n(1) v2(1) by (simp add: writing_def in_area_def)
    show "accepted ?bank (ck_info v2) = None" using accepted_erased [OF n(1)] v2(1) by simp
    show "accepted (last_bank dbase r) (ck_info v2) = Some (r # dval_text w)" using last_bank_kept [OF room(2,1) n(2)] old v2(1) by simp
  qed
qed

end

section \<open>The banks of the calibration data\<close>

text \<open>The flash with erase blocks of one sector.\<close>

locale cal_flash = pico_blocks hw flash_ok flash_bytes 4096
  for hw :: "'s pico_hw" and flash_ok flash_bytes +
  assumes whole_map: "0x200000 \<le> flash_bytes"
begin

lemma cal_room: "128 \<le> length buf \<Longrightarrow> flash.bank_room (cal_dbase hw) buf"
proof -
  assume "128 \<le> length buf"
  moreover have "pow2 (128 :: u32)" by (rule pow2_numeral_intro [of 7]) simp_all
  moreover have "pow2 (4096 :: u32)" by (rule pow2_numeral_intro [of 12]) simp_all
  ultimately show ?thesis using whole_map
    by (simp add: flash.bank_room_def flash.on_device_def cal_dbase_def cal_bank_def FLASH_KEYVAL_SIZE_def FLASH_CAL_KEYVAL_ADDR_1_def
        FLASH_CAL_KEYVAL_ADDR_2_def NK_MCUFLASH_ERASE_SIZE_def)
qed

lemma cal_banks: "banks_apart (cal_dbase hw)" "granularity (save_bank (cal_dbase hw) r) = 1"
  "unat (area_size (save_bank (cal_dbase hw) r)) = 8192" "db_ty (cal_dbase hw) = tyCAL" "db_buf_size (cal_dbase hw) = 128"
  by (simp_all add: banks_apart_def save_bank_def cal_dbase_def cal_bank_def FLASH_KEYVAL_SIZE_def FLASH_CAL_KEYVAL_ADDR_1_def FLASH_CAL_KEYVAL_ADDR_2_def)

lemma cal_save_then_init:
  fixes st :: "('s, 'o) cal_store"
  assumes "flash_ok (ck_info (cal_filt st))" "length (cal st) = 12" "128 \<le> length (xfer_buf st)"
    and old: "flash.accepted (last_bank (cal_dbase hw) (cal_rev st)) (ck_info (cal_filt st)) = None
      \<or> (\<exists>d. flash.accepted (last_bank (cal_dbase hw) (cal_rev st)) (ck_info (cal_filt st)) = Some (cal_rev st # d))"
  shows "\<exists>st1. cal_save hw st = Some (0, st1) \<and> cal st1 = cal st \<and> cal_rev st1 = cal_rev st + 1
    \<and> (\<forall>st2 :: ('s, 'o) cal_store. ck_info (cal_filt st2) = ck_info (cal_filt st1) \<and> length (xfer_buf st2) = length (xfer_buf st) \<longrightarrow>
         (\<exists>st3. database_init fp hw st2 = Some st3 \<and> cal st3 = cal st \<and> cal_rev st3 = cal_rev st + 1))"
proof -
  obtain w where w: "value_of tyCAL (cal st) 0 = Some w" "length (dval_text w) \<le> 100" using cal_text_length [OF assms(2)] .
  have fits: "9 + length (dval_text w) \<le> unat (area_size (save_bank (cal_dbase hw) (cal_rev st)))" using w(2) cal_banks(3) by simp
  have sz: "unat (db_buf_size (cal_dbase hw)) < 2 ^ 31" by (simp add: cal_banks)
  obtain v1 buf1 where s: "nk_dbase_save (cal_dbase hw) (cal_filt st) (cal_rev st) (cal st) 0 (xfer_buf st) = Some (0, cal_rev st + 1, v1, buf1)"
    and l: "\<And>v2 buf2 ram2 loc2 revision. ck_info v2 = ck_info v1 \<and> length buf2 = length (xfer_buf st) \<and> loc2 + extent tyCAL \<le> length ram2 \<Longrightarrow>
         \<exists>ram3 v3 buf3. nk_dbase_load fp (cal_dbase hw) v2 revision ram2 loc2 buf2 = Some (0, cal_rev st + 1, ram3, v3, buf3)
            \<and> value_of tyCAL ram3 loc2 = Some w \<and> agree (- {loc2..<loc2 + extent tyCAL}) ram2 ram3"
    using flash.save_then_load [OF cal_room [OF assms(3)] cal_banks(1,2) sz assms(1) _ _ fits old] cal_wf w(1) unfolding cal_banks(4) by blast
  let ?st1 = "st\<lparr>cal_rev := cal_rev st + 1, cal_filt := v1, xfer_buf := buf1\<rparr>"
  have "\<exists>st3. database_init fp hw st2 = Some st3 \<and> cal st3 = cal st \<and> cal_rev st3 = cal_rev st + 1"
    if "ck_info (cal_filt st2) = ck_info v1" "length (xfer_buf st2) = length (xfer_buf st)" for st2 :: "('s, 'o) cal_store"
  proof -
    note h = that
    have d: "length cal_defaults = 12" by (simp add: cal_defaults_def)
    then obtain ram3 v3 buf3 where r: "nk_dbase_load fp (cal_dbase hw) (cal_filt st2) (cal_rev st2) cal_defaults 0 (xfer_buf st2) = Some (0, cal_rev st + 1, ram3, v3, buf3)"
        "value_of tyCAL ram3 0 = Some w" "agree (- {0..<extent tyCAL}) cal_defaults ram3"
      using l [of "cal_filt st2" "xfer_buf st2" 0 cal_defaults "cal_rev st2"] h by (auto simp: cal_extent)
    have "length ram3 = 12" using agree_length [OF r(3)] d by simp
    then have "ram3 = cal st" using cal_value_injective [OF _ assms(2)] r(2) w(1) by simp
    then show ?thesis using r(1) by (simp add: database_init_def cal_load_def)
  qed
  then show ?thesis using s by (auto simp: cal_save_def intro!: exI [of _ ?st1])
qed

end

lemma cal_flash_intro: "pico_flash hw flash_ok flash_bytes \<Longrightarrow> 0x200000 \<le> flash_bytes \<Longrightarrow> cal_flash hw flash_ok flash_bytes"
  by (simp add: cal_flash_def cal_flash_axioms_def pico_blocks_def pico_blocks_axioms_def)

interpretation cal_mem: cal_flash pico_mem "\<lambda>_. True" 2097152
  by (rule cal_flash_intro [OF pico_mem.pico_flash_axioms]) simp

section \<open>Properties\<close>

text \<open>C5. The calibration data survives a reboot. In a flash whose driver is the one of the Pico, when the last save (if any) left
  its bank with the current revision: saving succeeds and leaves the data in memory alone; a later boot from that flash, whatever is in its
  memory, ends with exactly the 12 bytes of data that were saved and with the next revision.\<close>

theorem cal_survives_reboot:
  fixes st :: "('s, 'o) cal_store"
  assumes "pico_flash hw flash_ok flash_bytes" "0x200000 \<le> flash_bytes"
    and "flash_ok (ck_info (cal_filt st))" "length (cal st) = 12" "128 \<le> length (xfer_buf st)"
    and "flash_device.accepted (xip hw) (last_bank (cal_dbase hw) (cal_rev st)) (ck_info (cal_filt st)) = None
      \<or> (\<exists>d. flash_device.accepted (xip hw) (last_bank (cal_dbase hw) (cal_rev st)) (ck_info (cal_filt st)) = Some (cal_rev st # d))"
  shows "\<exists>st1. cal_save hw st = Some (0, st1) \<and> cal st1 = cal st \<and> cal_rev st1 = cal_rev st + 1
    \<and> (\<forall>st2 :: ('s, 'o) cal_store. ck_info (cal_filt st2) = ck_info (cal_filt st1) \<and> length (xfer_buf st2) = length (xfer_buf st) \<longrightarrow>
         (\<exists>st3. database_init fp hw st2 = Some st3 \<and> cal st3 = cal st \<and> cal_rev st3 = cal_rev st + 1))"
  by (rule cal_flash.cal_save_then_init [OF cal_flash_intro [OF assms(1,2)] assms(3-6)])

definition example_store :: "(nat \<Rightarrow> u8, unit) cal_store" where
  "example_store = \<lparr>cal = cal_defaults, cal_rev = 7, xfer_buf = replicate 128 0,
     cal_filt = \<lparr>ck_file = cal_bank pico_mem FLASH_CAL_KEYVAL_ADDR_1, ck_crc = 0, ck_size = 0, ck_info = (\<lambda>_. 0xFF)\<rparr>,
     cal_out = nkoutfile_open None () [] 0 1\<rparr>"

lemma empty_flash: "cal_mem.flash.accepted file (\<lambda>_. 0xFF) = None"
proof -
  have "range_of (\<lambda>_. 0xFF) a n = replicate n 0xFF" for a n by (simp add: range_of_def map_replicate_const)
  then have "unat (cal_mem.flash.header_size_of file (\<lambda>_. 0xFF)) = 4294967295"
    by (intro cal_mem.flash.erased_header) (simp add: pico_mem_def)
  then have "\<not> unat (cal_mem.flash.header_size_of file (\<lambda>_. 0xFF)) + 8 \<le> unat (area_size file)" using unat_u32_less [of "area_size file"] by linarith
  then show ?thesis by (simp add: cal_mem.flash.accepted_def Let_def)
qed

theorem cal_survives_reboot_witness:
  "\<exists>st1. cal_save pico_mem example_store = Some (0, st1) \<and> cal st1 = cal_defaults \<and> cal_rev st1 = 8
    \<and> (\<forall>st2 :: (nat \<Rightarrow> u8, unit) cal_store. ck_info (cal_filt st2) = ck_info (cal_filt st1) \<and> length (xfer_buf st2) = 128 \<longrightarrow>
         (\<exists>st3. database_init (\<lambda>_ _. []) pico_mem st2 = Some st3 \<and> cal st3 = cal_defaults \<and> cal_rev st3 = 8))"
  using cal_survives_reboot [OF pico_mem.pico_flash_axioms, of example_store "\<lambda>_ _. []"] empty_flash
  by (simp add: example_store_def cal_defaults_def)







end
