(* ===== verification/Spec2Isabelle.thy ===== *)
theory Spec2Isabelle
  imports Crc Datetime Outfile Infile Checked Spiflash Eeprom Sched Printf Mcuflash Ymodem Link Ymodem_cmd Sha256 Cli Uart Rtc Flashcmd I2c Dbase
begin

text \<open>
  A model of libnklabs as the firmware libnklabs-pico for the Raspberry Pi Pico configures and uses it: a console with a line editor
  and a command interpreter, formatted input and output, files in flash memory, the transfer of files over the serial line, a data
  base of calibration data, and a work queue that drives it all. File names are relative to the directory of the sources.

  \<^bold>\<open>How the parts work together.\<close> The main loop of the work queue (\<^verbatim>\<open>libnklabs/src/nksched.c\<close>) calls tasks at their times. The
  interrupt of the UART (\<^verbatim>\<open>nkuart_pico.c\<close>) fills a ring buffer and submits the task that waits for it. That task is the
  line editor (\<^verbatim>\<open>libnklabs/src/nkreadline.c\<close>), which asks the command interpreter (\<^verbatim>\<open>libnklabs/src/nkcli.c\<close>) to complete words and gives it
  the line, or the receiver of a file transfer (\<^verbatim>\<open>libnklabs/src/nkymodem.c\<close>). Commands scan their arguments with
  \<^verbatim>\<open>libnklabs/src/nkscan.c\<close> from an input file (\<^verbatim>\<open>libnklabs/src/nkinfile.c\<close>) and print with \<^verbatim>\<open>libnklabs/src/nkprintf.c\<close> into an output file
  (\<^verbatim>\<open>libnklabs/src/nkoutfile.c\<close>). Input and output files are buffers in front of callbacks; the callbacks used here are those
  of a checked file (\<^verbatim>\<open>libnklabs/src/nkchecked.c\<close>) or a direct file (\<^verbatim>\<open>libnklabs/src/nkdirect.c\<close>), which lie in an area of a flash memory that is reached
  through a driver (\<^verbatim>\<open>nkarch_pico.c\<close>, \<^verbatim>\<open>libnklabs/src/nkspiflash.c\<close>, \<^verbatim>\<open>libnklabs/src/nki2c_eeprom.c\<close>). The receiver of
  a transfer writes a direct file. The data base (\<^verbatim>\<open>libnklabs/src/nkdbase.c\<close>) writes an object as text, by its schema
  (\<^verbatim>\<open>libnklabs/src/nkserialize.c\<close>), into one of two checked files, and reads it back at the start.

  \<^bold>\<open>Conventions.\<close> A structure of the code is a record, an integer type a word of its width, so that arithmetic wraps around as
  it does on the 32-bit target; plain \<open>int\<close> is an integer where the code cannot leave its range, or with the conversion
  written out. A pointer into a buffer is an offset and the buffer a list of bytes; a read or a write outside of it (\<open>deref\<close>, \<open>store_at\<close>,
  \<open>load_from\<close>), a failed assertion and a call that does not return have the value \<open>None\<close>, so every theorem that
  says \<open>Some\<close> says that the code returns without leaving its memory. A loop is a recursive function; where its end is
  not evident it is a \<open>partial_function (option)\<close> (or, in \<^verbatim>\<open>Serialize\<close>, the combinator \<open>loop\<close>, which is one), and that it ends is part of
  the properties. The functions behind a pointer in a structure (callbacks, flash and bus access, the functions of
  the Pico SDK) are parameters that transform a state of their own. What is relied upon in them is stated by locales,
  and each locale is interpreted on the code that provides it and, for hardware, on a model memory.

  \<^bold>\<open>The theories.\<close>
  \<^item> \<^verbatim>\<open>Prelude\<close>: the integer types, buffers, and the lemmas on words and buffers that all theories share.
  \<^item> \<^verbatim>\<open>Crc\<close>, \<^verbatim>\<open>libnklabs/src/nkcrclib.c\<close>: the CRC routines with their tables and the generator of the tables. They are equal to
    the bit-serial division by their polynomials; the tables are the ones the polynomials give; short bursts are always detected.
  \<^item> \<^verbatim>\<open>Datetime\<close>, \<^verbatim>\<open>libnklabs/src/nkdatetime.c\<close>: the calendar. The conversions are inverse to each other up to the
    year 65535, the largest one the field can hold.
  \<^item> \<^verbatim>\<open>Rtc\<close>, \<^verbatim>\<open>libnklabs/src/nkrtc.c\<close>, \<^verbatim>\<open>rtc.c\<close> and \<^verbatim>\<open>nkdriver_rtc_pico.c\<close>: the real time clock and its command (locales \<open>clock\<close> and \<open>pico_rtc\<close>). A date that is
    typed is set and shown again; what happens with wrong dates; the date as a string.
  \<^item> \<^verbatim>\<open>Outfile\<close> and \<^verbatim>\<open>Infile\<close>, \<^verbatim>\<open>libnklabs/src/nkoutfile.c\<close> and \<^verbatim>\<open>libnklabs/src/nkinfile.c\<close>: what is put into an output file arrives at its callback
    (locale \<open>block_sink\<close>); an input file is a byte string with a position (locale \<open>block_source\<close>); copying one to the other
    is the locale \<open>file_copy\<close>.
  \<^item> \<^verbatim>\<open>Checked\<close>, \<^verbatim>\<open>libnklabs/src/nkchecked.c\<close> and \<^verbatim>\<open>libnklabs/src/nkdirect.c\<close>: files on any device that keeps the promises of the locale
    \<open>flash_device\<close>. The file being written is shown to be a \<open>block_sink\<close> and the file being read a \<open>block_source\<close>, which
    yields round trips, the rejection of files that are unfinished or damaged, and a frame: the memory outside of the area is kept.
  \<^item> \<^verbatim>\<open>Spiflash\<close>, \<^verbatim>\<open>Eeprom\<close>, \<^verbatim>\<open>Mcuflash\<close>: the drivers for serial flash, for I2C EEPROMs (\<^verbatim>\<open>libnklabs/src/nki2c_eeprom.c\<close>) and for the flash of the
    microcontroller (\<^verbatim>\<open>nkarch_pico.c\<close>, \<^verbatim>\<open>libnklabs/src/nkmcuflash.c\<close>). They split ranges at page boundaries and wait for the device;
    on a device that keeps to its data sheet they read and write the bytes they are asked for. \<^verbatim>\<open>Mcuflash\<close> makes the driver a \<open>flash_device\<close>.
  \<^item> \<^verbatim>\<open>Flashcmd\<close>: the console commands of these three drivers, with their dumps. What is typed is what is erased and filled.
  \<^item> \<^verbatim>\<open>I2c\<close>, \<^verbatim>\<open>libnklabs/src/nki2c.c\<close>, \<^verbatim>\<open>nki2c_pico.c\<close> and \<^verbatim>\<open>i2c.c\<close>: the registers of I2C devices (locale \<open>i2c_registers\<close>), the bus of this board and the command.
  \<^item> \<^verbatim>\<open>Sched\<close>, \<^verbatim>\<open>libnklabs/src/nksched.c\<close>: the array of items with its linked lists, refined by a queue of tasks. The invariant holds in every state
    that operations can reach; tasks run when they are due and in order of time, across the wrap-around of the clock.
  \<^item> \<^verbatim>\<open>Printf\<close>, \<^verbatim>\<open>libnklabs/src/nkprintf.c\<close>: the formatter without floating point, refined by the text a format stands for; printing to
    strings and to the console, and the dump of bytes.
  \<^item> \<^verbatim>\<open>Scan\<close>, \<^verbatim>\<open>libnklabs/src/nkscan.c\<close> and \<^verbatim>\<open>libnklabs/src/nkstring.c\<close>: the scanner, refined by what a format takes from a text; printed integers are read back.
  \<^item> \<^verbatim>\<open>Serialize\<close>, \<^verbatim>\<open>Reload\<close>, \<^verbatim>\<open>Xpath\<close>, \<^verbatim>\<open>libnklabs/src/nkserialize.c\<close>: objects in memory, their schemas and values. \<^verbatim>\<open>Serialize\<close> holds the code of
    all three printers and of the parser, and shows that an object is written as the text of its value; \<^verbatim>\<open>Reload\<close>, that the parser stores
    that value again, and changes nothing else; \<^verbatim>\<open>Xpath\<close>, that a key leads to the part of the object it names.
  \<^item> \<^verbatim>\<open>Dbase\<close>, \<^verbatim>\<open>libnklabs/src/nkdbase.c\<close> and \<^verbatim>\<open>database.c\<close>: the two banks of the data base and the calibration data of this
    firmware. Saved data is found by the next start, and an interrupted save leaves the last data to be found.
  \<^item> \<^verbatim>\<open>Readline\<close>, \<^verbatim>\<open>libnklabs/src/nkreadline.c\<close>: the line editor, refined by an editor of lines with a history; the screen shows the line.
    Completion is a parameter with the laws of the locale \<open>completer\<close>.
  \<^item> \<^verbatim>\<open>Cli\<close>, \<^verbatim>\<open>libnklabs/src/nkcli.c\<close> and \<^verbatim>\<open>basic_cmds.c\<close>: lookup, completion, help, dispatch and start of the interpreter with the texts of the
    commands; its completion is shown to be a \<open>completer\<close>, so that what is typed at the keyboard reaches the command.
  \<^item> \<^verbatim>\<open>Uart\<close>, \<^verbatim>\<open>nkuart_pico.c\<close>: the ring buffer, under every interleaving of interrupts, reads and waiting tasks.
  \<^item> \<^verbatim>\<open>Ymodem\<close>, \<^verbatim>\<open>libnklabs/src/nkymodem.c\<close>: sender and receiver as they react to characters and timeouts, and the packets between them. The
    locale \<open>file_handler\<close> is what the receiver relies on in the functions that store the file.
  \<^item> \<^verbatim>\<open>Link\<close>: both ends on a line that can lose and damage what is sent; the pairs of phases they can be in, and the relation of these phases to the code.
  \<^item> \<^verbatim>\<open>Ymodem_cmd\<close>, \<^verbatim>\<open>nkymodem_cmd.c\<close>: the handler that stores a file in an area of the flash, as a \<open>file_handler\<close>, and the properties of whole transfers.

  \<^bold>\<open>Bounds.\<close> The sizes are those of the code: 128 characters of a line and 1024 of its history, 24 characters in
  the formatter, 2048 characters in the ring buffer, packets of 133 and 1029 bytes, 4096 bytes in a flash sector and 256 in a page. No proof
  computes with a bound of its own: the sizes of devices, buffers, banks and queues are variables wherever the code has them as
  values. Fuel is used twice: in \<open>run\<close> of \<^verbatim>\<open>Link\<close>, the number of events of a transfer, of which \<open>ymodem_transfer_completes\<close> says
  how many are enough, and in \<open>add_point\<close> of \<^verbatim>\<open>Serialize\<close>, which looks for a point in the 32 characters of a buffer.
  The digest is the one of the standard for messages of less than 2 ^ 29 bytes, since the code counts bits in 32 bits.

  \<^bold>\<open>Defects.\<close> Where the code does not do what it means to, the model has that behaviour and a theorem shows it: a header without
  an end of the name overflows the receiver, a file longer than its area goes on into the next one, a lost
  acknowledgement of the end of a file keeps both ends from finishing, a full ring buffer keeps the interrupt handler from returning, a string that is too short
  keeps the end of a printed text, the date as a string counts months and days from 0, a typed month outside of 1 to 12 makes the
  command of the clock read behind a table, the bus functions of this board report the success of an I2C transfer as an error, and a look at an absolute position of an input file (\<open>nk_fpeek_abs\<close>) starts to count at the current one.

  \<^bold>\<open>Not modelled.\<close> Third-party code (the Pico SDK and its examples, LodePNG, a flash driver of Xilinx) appears only as parameters. Floating
  point is not configured for printing and scanning; in the serializer its text is a parameter, and the properties are about
  schemas without it. The drivers of sensors, displays and external clocks, and the commands for pins and SPI, are register accesses that depend on hardware. Ports to other processors and
  AES are not part of this firmware. Spinlocks, the masking of interrupts, the wake-up timer and sleeping, and fixed messages on the console
  (other than those of the interpreter) are left out.
\<close>

end
